(* ===== verification/Prelude.thy ===== *)
theory Prelude
  imports Complex_Main "HOL-Library.Word" "HOL-Library.Signed_Division"
begin

text \<open>
  Shared vocabulary of the development: the machine types of \<^verbatim>\<open>src/src/common/common.h\<close>,
  the faults a C++ operation can end in, the result type that carries them, the two loop
  combinators every component uses, and the generic lemmas about them.

  A function of the model returns \<open>fault + 'a\<close> where the code can divide by zero, leave an
  array, call through a null pointer, call \<open>std::string::substr\<close> past the end, or end the
  process. \<open>Inr\<close> is normal return; after \<open>Inl\<close> nothing else of the code runs.
\<close>

unbundle bit_operations_syntax

section \<open>Machine types\<close>

type_synonym u8 = "8 word"
type_synonym u16 = "16 word"
type_synonym u32 = "32 word"
type_synonym u64 = "64 word"
type_synonym bytes = "u8 list"

section \<open>Faults and results\<close>

datatype fault =
    DivByZero        \<comment> \<open>integer division or remainder by zero\<close>
  | OutOfBounds      \<comment> \<open>an access outside its array object\<close>
  | StackOverrun     \<comment> \<open>a write past the end of a local array\<close>
  | NullDeref        \<comment> \<open>a call or access through a null pointer\<close>
  | OutOfRange       \<comment> \<open>\<open>std::out_of_range\<close>, not caught by the code\<close>
  | RuntimeError     \<comment> \<open>\<open>std::runtime_error\<close>, not caught by the code\<close>
  | WildPointer      \<comment> \<open>a pointer that was never set is used\<close>
  | BadAlloc         \<comment> \<open>\<open>std::bad_alloc\<close>, not caught by the code\<close>
  | Terminated       \<comment> \<open>the process ends itself\<close>

type_synonym 'a res = "fault + 'a"

definition rbind :: "'a res \<Rightarrow> ('a \<Rightarrow> 'b res) \<Rightarrow> 'b res" where
  "rbind r f = (case r of Inl e \<Rightarrow> Inl e | Inr x \<Rightarrow> f x)"

named_theorems res_simps \<open>evaluation of results\<close>

lemma rbind_Inr [simp, res_simps]: "rbind (Inr x) f = f x"
  by (simp add: rbind_def)

lemma rbind_Inl [simp, res_simps]: "rbind (Inl e) f = Inl e"
  by (simp add: rbind_def)

lemma rbind_eq_Inr: "rbind r f = Inr y \<longleftrightarrow> (\<exists>x. r = Inr x \<and> f x = Inr y)"
  by (cases r) auto

lemma rbind_InrE [elim!]:
  assumes "rbind r f = Inr y"
  obtains x where "r = Inr x" and "f x = Inr y"
  using assms by (auto simp: rbind_eq_Inr)

lemma rbind_assoc: "rbind (rbind r f) g = rbind r (\<lambda>x. rbind (f x) g)"
  by (cases r) auto

section \<open>Loops\<close>

text \<open>
  \<open>foldE\<close> runs a loop body over a list of loop indices, stopping at the first fault. A loop
  whose body cannot fault is the library's \<open>fold\<close>.
\<close>

fun foldE :: "('x \<Rightarrow> 'w \<Rightarrow> 'w res) \<Rightarrow> 'x list \<Rightarrow> 'w \<Rightarrow> 'w res" where
  "foldE f [] w = Inr w"
| "foldE f (x # xs) w = rbind (f x w) (foldE f xs)"

lemma foldE_Inr: "foldE (\<lambda>x w. Inr (g x w)) xs w = Inr (fold g xs w)"
  by (induction xs arbitrary: w) auto

lemma foldE_append: "foldE f (xs @ ys) w = rbind (foldE f xs w) (foldE f ys)"
proof (induction xs arbitrary: w)
  case (Cons a xs)
  then show ?case by (cases "f a w") auto
qed simp

lemma foldE_cong [fundef_cong]:
  "xs = ys \<Longrightarrow> w = v \<Longrightarrow> (\<And>x u. x \<in> set ys \<Longrightarrow> f x u = g x u) \<Longrightarrow> foldE f xs w = foldE g ys v"
proof (induction xs arbitrary: ys w v)
  case Nil
  then show ?case by simp
next
  case (Cons a xs)
  from Cons.prems have "\<And>u. foldE f xs u = foldE g xs u"
    by (intro Cons.IH) auto
  with Cons.prems show ?case
    by (auto simp: rbind_def split: sum.splits)
qed

text \<open>The loop rule: what every iteration keeps, the loop keeps.\<close>

lemma foldE_invariant:
  assumes "foldE f xs w = Inr w'" and "I w"
    and "\<And>x u u'. x \<in> set xs \<Longrightarrow> I u \<Longrightarrow> f x u = Inr u' \<Longrightarrow> I u'"
  shows "I w'"
  using assms
proof (induction xs arbitrary: w)
  case Nil
  then show ?case by simp
next
  case (Cons a xs)
  then obtain u where u: "f a w = Inr u" "foldE f xs u = Inr w'" by auto
  with Cons.prems(2,3) have "I u" by (meson list.set_intros(1))
  with u(2) show ?case
    by (rule Cons.IH) (meson Cons.prems(3) list.set_intros(2))
qed

text \<open>The loop rule with the number of iterations done.\<close>

lemma foldE_steps:
  assumes "foldE f xs w = Inr w'" and "I k w"
    and "\<And>x j u u'. x \<in> set xs \<Longrightarrow> k \<le> j \<Longrightarrow> j < k + length xs \<Longrightarrow> I j u \<Longrightarrow> f x u = Inr u' \<Longrightarrow> I (Suc j) u'"
  shows "I (k + length xs) w'"
  using assms
proof (induction xs arbitrary: w k)
  case Nil
  then show ?case by simp
next
  case (Cons a xs)
  then obtain u where u: "f a w = Inr u" "foldE f xs u = Inr w'" by auto
  have "I (Suc k) u" using u(1) Cons.prems(2) by (intro Cons.prems(3)) auto
  with u(2) have "I (Suc k + length xs) w'"
  proof (rule Cons.IH)
    fix x j v v'
    assume "x \<in> set xs" "Suc k \<le> j" "j < Suc k + length xs" "I j v" "f x v = Inr v'"
    then show "I (Suc j) v'" by (intro Cons.prems(3) [of x j v v']) auto
  qed
  then show ?case by simp
qed

text \<open>And the rule for a loop that cannot fault under its invariant.\<close>

lemma foldE_total:
  assumes "I w" and "\<And>x u. x \<in> set xs \<Longrightarrow> I u \<Longrightarrow> \<exists>u'. f x u = Inr u' \<and> I u'"
  shows "\<exists>w'. foldE f xs w = Inr w' \<and> I w'"
  using assms
proof (induction xs arbitrary: w)
  case Nil
  then show ?case by simp
next
  case (Cons a xs)
  from Cons.prems obtain u where u: "f a w = Inr u" "I u"
    by (meson list.set_intros(1))
  have "\<exists>w'. foldE f xs u = Inr w' \<and> I w'"
    using u(2) by (rule Cons.IH) (meson Cons.prems(2) list.set_intros(2))
  with u(1) show ?case by auto
qed

lemma fold_invariant:
  "I w \<Longrightarrow> (\<And>x u. x \<in> set xs \<Longrightarrow> I u \<Longrightarrow> I (f x u)) \<Longrightarrow> I (fold f xs w)"
  by (induction xs arbitrary: w) auto

lemma fold_proj:
  "(\<And>x u. x \<in> set xs \<Longrightarrow> p (f x u) = p u) \<Longrightarrow> p (fold f xs w) = p w"
  by (induction xs arbitrary: w) auto

section \<open>Integer operations of the language\<close>

text \<open>The remainder of C++ on \<open>int\<close>: the quotient truncates towards zero, and a zero divisor faults.\<close>

definition c_mod :: "int \<Rightarrow> int \<Rightarrow> int res" where
  "c_mod a b = (if b = 0 then Inl DivByZero else Inr (a smod b))"

lemma c_mod_nonneg: "0 \<le> a \<Longrightarrow> 0 < b \<Longrightarrow> c_mod a b = Inr (a mod b)"
  by (simp add: c_mod_def signed_modulo_int_def signed_divide_int_def modulo_int_def
      zsgn_def algebra_simps minus_div_mult_eq_mod)

lemma c_mod_InrD: "c_mod a b = Inr r \<Longrightarrow> b \<noteq> 0"
  by (auto simp: c_mod_def split: if_splits)

text \<open>Reading an array through a computed index.\<close>

definition arr_get :: "'a list \<Rightarrow> int \<Rightarrow> 'a res" where
  "arr_get xs i = (if 0 \<le> i \<and> i < int (length xs) then Inr (xs ! nat i) else Inl OutOfBounds)"

definition arr_set :: "'a list \<Rightarrow> int \<Rightarrow> 'a \<Rightarrow> 'a list res" where
  "arr_set xs i x =
     (if 0 \<le> i \<and> i < int (length xs) then Inr (xs[nat i := x]) else Inl OutOfBounds)"

lemma arr_get_nat [simp]: "i < length xs \<Longrightarrow> arr_get xs (int i) = Inr (xs ! i)"
  by (simp add: arr_get_def)

lemma arr_set_nat [simp]: "i < length xs \<Longrightarrow> arr_set xs (int i) x = Inr (xs[i := x])"
  by (simp add: arr_set_def)

lemma arr_set_InrD:
  "arr_set xs i x = Inr ys \<Longrightarrow> 0 \<le> i \<and> i < int (length xs) \<and> ys = xs[nat i := x]"
  by (auto simp: arr_set_def split: if_splits)

lemma arr_get_InrD: "arr_get xs i = Inr x \<Longrightarrow> 0 \<le> i \<and> i < int (length xs) \<and> x = xs ! nat i"
  by (auto simp: arr_get_def split: if_splits)

end
