(* ===== verification/ObjectPool.thy ===== *)
theory ObjectPool
  imports Prelude
begin

text \<open>
  The template \<open>ObjectPool<T>\<close> of \<^verbatim>\<open>src/src/common/objectpool.h\<close>: a fixed array of objects, a
  free list threaded through \<open>link_array\<close>, and handles \<open>uid\<close> whose low half is the slot and
  whose high half is a magic number that changes at every \<open>Free\<close>. A pointer into the array is
  its index, a null pointer is \<open>None\<close>, an array that is not allocated is the empty list. The
  template needs of \<open>T\<close> only a field \<open>uid\<close>: the model's objects are extensions of the record
  \<open>obj\<close>.
\<close>

section \<open>State\<close>

record obj =
  uid :: u32

record 'o pool =
  pl_count :: u32
  pl_size :: u32
  data_array :: "'o list"
  link_array :: "nat option list"
  free_obj :: "nat option"
  data_allocate :: "bool list"
  lock_depth :: nat

section \<open>Operations\<close>

definition pool_new :: "'o pool" where
  "pool_new = \<lparr>pl_count = 0, pl_size = 0, data_array = [], link_array = [], free_obj = None,
     data_allocate = [], lock_depth = 0\<rparr>"

definition Terminate :: "'o pool \<Rightarrow> 'o pool" where
  "Terminate p = p\<lparr>data_array := [], data_allocate := [], link_array := [], free_obj := None,
     pl_size := 0\<rparr>"

text \<open>
  \<open>Initialize(size)\<close>: \<open>mk i\<close> is the \<open>i\<close>-th object as its constructor leaves it, and
  \<open>ok1\<close>, \<open>ok2\<close>, \<open>ok3\<close> say whether the three allocations succeed.
\<close>

definition Initialize ::
  "bool \<Rightarrow> bool \<Rightarrow> bool \<Rightarrow> (nat \<Rightarrow> 'z obj_scheme) \<Rightarrow> u32 \<Rightarrow> 'z obj_scheme pool
   \<Rightarrow> bool \<times> 'z obj_scheme pool" where
  "Initialize ok1 ok2 ok3 mk sz p =
     (if sz = 0 \<or> 0xffff < sz then (False, p)
      else let p1 = p\<lparr>pl_size := sz\<rparr>; n = unat sz
           in if \<not> (ok1 \<and> ok2 \<and> ok3) then (False, Terminate p1)
              else (True, p1\<lparr>
                data_allocate := replicate n False,
                data_array := map (\<lambda>i. (mk i)\<lparr>uid := 0x00010000 OR word_of_nat i\<rparr>) [0..<n],
                link_array := (map (\<lambda>i. Some (i + 1)) [0..<n])[n - 1 := None],
                free_obj := Some 0\<rparr>))"

definition Lock :: "'o pool \<Rightarrow> 'o pool" where
  "Lock p = p\<lparr>lock_depth := lock_depth p + 1\<rparr>"

definition Unlock :: "'o pool \<Rightarrow> 'o pool" where
  "Unlock p = p\<lparr>lock_depth := lock_depth p - 1\<rparr>"

definition Allocate :: "bool \<Rightarrow> 'o pool \<Rightarrow> nat option \<times> 'o pool" where
  "Allocate main_thread p =
     (let p1 = (if main_thread then p else Lock p);
          (ret, p2) = (case free_obj p1 of
              None \<Rightarrow> (None, p1)
            | Some i \<Rightarrow> (Some i, p1\<lparr>
                free_obj := link_array p1 ! i,
                link_array := (link_array p1)[i := None],
                data_allocate := (data_allocate p1)[i := True],
                pl_count := pl_count p1 + 1\<rparr>))
      in (ret, if main_thread then p2 else Unlock p2))"

definition Get :: "u32 \<Rightarrow> 'z obj_scheme pool \<Rightarrow> nat option" where
  "Get h p =
     (let index = h AND 0xffff
      in if index < pl_size p \<and> uid (data_array p ! unat index) = h then Some (unat index)
         else None)"

text \<open>The magic of the next life of a slot, in the code's \<open>ushort\<close>.\<close>

definition next_uid :: "u32 \<Rightarrow> u32" where
  "next_uid h =
     (let magic = (ucast (drop_bit 16 h) :: u16);
          magic' = (if magic = 0 then 1 else magic + 1)
      in push_bit 16 (ucast magic') OR (h AND 0xffff))"

definition Free :: "bool \<Rightarrow> u32 \<Rightarrow> 'z obj_scheme pool \<Rightarrow> 'z obj_scheme pool" where
  "Free main_thread h p =
     (let obj = Get h p;
          p1 = (if main_thread then p else Lock p)
      in case obj of
           None \<Rightarrow> (if main_thread then p1 else Unlock p1)
         | Some i \<Rightarrow>
             (if \<not> data_allocate p1 ! i then (if main_thread then p1 else Unlock p1)
              else let p2 = p1\<lparr>
                     link_array := (link_array p1)[i := free_obj p1],
                     free_obj := Some i,
                     pl_count := pl_count p1 - 1,
                     data_array := (data_array p1)[i := (data_array p1 ! i)\<lparr>uid := next_uid h\<rparr>],
                     data_allocate := (data_allocate p1)[i := False]\<rparr>
                   in (if main_thread then p2 else Unlock p2)))"

definition Size :: "'o pool \<Rightarrow> u32" where "Size p = pl_size p"
definition Count :: "'o pool \<Rightarrow> u32" where "Count p = pl_count p"

section \<open>Handles\<close>

definition slot_of :: "u32 \<Rightarrow> nat" where
  "slot_of h = unat (h AND 0xffff)"

definition magic_of :: "u32 \<Rightarrow> u16" where
  "magic_of h = ucast (drop_bit 16 h)"

lemma and_ffff: "h AND 0xffff = take_bit 16 (h :: u32)"
  by (simp add: take_bit_eq_mask mask_eq_exp_minus_1)

lemma slot_of_bound: "slot_of h < 2 ^ 16"
  using take_bit_nat_less_exp [of 16 "unat h"]
  by (simp add: slot_of_def and_ffff unsigned_take_bit_eq)

lemma next_uid_alt: "next_uid h = push_bit 16 (ucast (magic_of h + 1)) OR take_bit 16 h"
  by (cases "magic_of h = 0") (simp_all add: next_uid_def magic_of_def and_ffff Let_def)

lemma take_bit_next_uid: "take_bit 16 (next_uid h) = take_bit 16 h"
  unfolding next_uid_alt by (rule bit_eqI) (auto simp: bit_simps)

lemma slot_of_next [simp]: "slot_of (next_uid h) = slot_of h"
  by (simp add: slot_of_def and_ffff take_bit_next_uid)

lemma magic_of_next [simp]: "magic_of (next_uid h) = magic_of h + 1"
  unfolding magic_of_def next_uid_alt
  by (rule bit_eqI) (auto simp: bit_simps magic_of_def)

lemma next_uid_neq: "next_uid h \<noteq> h"
proof
  assume "next_uid h = h"
  then have "magic_of h + 1 = magic_of h" using magic_of_next [of h] by simp
  then show False by simp
qed

lemma uid_eqI: "magic_of h = magic_of k \<Longrightarrow> slot_of h = slot_of k \<Longrightarrow> h = k"
proof (rule bit_eqI)
  fix n
  assume eq: "magic_of h = magic_of k" "slot_of h = slot_of k" and n: "possible_bit TYPE(u32) n"
  from eq(2) have t: "take_bit 16 h = take_bit 16 k"
    by (simp add: slot_of_def and_ffff word_unat_eq_iff)
  show "bit h n = bit k n"
  proof (cases "n < 16")
    case True
    from t have "bit (take_bit 16 h) n = bit (take_bit 16 k) n" by simp
    with True show ?thesis by (simp add: bit_simps)
  next
    case False
    from eq(1) have "bit (magic_of h) (n - 16) = bit (magic_of k) (n - 16)" by simp
    moreover have "n - 16 < 16" using n by simp
    ultimately show ?thesis using False n by (simp add: magic_of_def bit_simps)
  qed
qed

lemma init_uid:
  assumes "i < 2 ^ 16"
  shows "slot_of (0x00010000 OR word_of_nat i) = i"
proof -
  have "take_bit 16 (0x00010000 OR word_of_nat i :: u32) = take_bit 16 (word_of_nat i)"
    by simp
  moreover have "unat (take_bit 16 (word_of_nat i :: u32)) = i"
    using assms by (simp add: unsigned_take_bit_eq unat_of_nat take_bit_nat_eq_self)
  ultimately show ?thesis by (simp add: slot_of_def and_ffff)
qed

section \<open>Well-formed pools\<close>

text \<open>The free list: the indices met from \<open>free_obj\<close> along \<open>link_array\<close>, down to null.\<close>

fun chain :: "nat option list \<Rightarrow> nat option \<Rightarrow> nat list \<Rightarrow> bool" where
  "chain l None js = (js = [])"
| "chain l (Some i) [] = False"
| "chain l (Some i) (j # js) = (i = j \<and> i < length l \<and> chain l (l ! i) js)"

lemma chain_Nil [simp]: "chain l s [] = (s = None)"
  by (cases s) auto

lemma chain_Cons: "chain l s (j # js) = (s = Some j \<and> j < length l \<and> chain l (l ! j) js)"
  by (cases s) auto

lemma chain_update: "i \<notin> set js \<Longrightarrow> chain (l[i := x]) s js = chain l s js"
  by (induction js arbitrary: s) (auto simp: chain_Cons)

definition pool_rep :: "nat list \<Rightarrow> 'z obj_scheme pool \<Rightarrow> bool" where
  "pool_rep fl p =
     (let n = unat (pl_size p)
      in n \<le> 0xffff \<and> length (data_array p) = n \<and> length (link_array p) = n
       \<and> length (data_allocate p) = n
       \<and> chain (link_array p) (free_obj p) fl \<and> distinct fl
       \<and> (\<forall>i<n. i \<in> set fl \<longleftrightarrow> \<not> data_allocate p ! i) \<and> set fl \<subseteq> {..<n}
       \<and> unat (pl_count p) + length fl = n
       \<and> (\<forall>i<n. slot_of (uid (data_array p ! i)) = i))"

definition pool_ok :: "'z obj_scheme pool \<Rightarrow> bool" where
  "pool_ok p = (\<exists>fl. pool_rep fl p)"

definition cap :: "'o pool \<Rightarrow> nat" where
  "cap p = unat (pl_size p)"

definition live :: "'o pool \<Rightarrow> nat set" where
  "live p = {i. i < cap p \<and> data_allocate p ! i}"

definition handle_at :: "'z obj_scheme pool \<Rightarrow> nat \<Rightarrow> u32" where
  "handle_at p i = uid (data_array p ! i)"

lemma pool_repD:
  assumes "pool_rep fl p"
  shows "cap p \<le> 0xffff" "length (data_array p) = cap p" "length (link_array p) = cap p"
    "length (data_allocate p) = cap p" "chain (link_array p) (free_obj p) fl" "distinct fl"
    "\<And>i. i < cap p \<Longrightarrow> i \<in> set fl \<longleftrightarrow> \<not> data_allocate p ! i" "set fl \<subseteq> {..<cap p}"
    "unat (pl_count p) + length fl = cap p"
    "\<And>i. i < cap p \<Longrightarrow> slot_of (uid (data_array p ! i)) = i"
  using assms by (simp_all add: pool_rep_def cap_def Let_def)

lemma pool_repI:
  assumes "cap p \<le> 0xffff" "length (data_array p) = cap p" "length (link_array p) = cap p"
    "length (data_allocate p) = cap p" "chain (link_array p) (free_obj p) fl" "distinct fl"
    "\<And>i. i < cap p \<Longrightarrow> i \<in> set fl \<longleftrightarrow> \<not> data_allocate p ! i" "set fl \<subseteq> {..<cap p}"
    "unat (pl_count p) + length fl = cap p"
    "\<And>i. i < cap p \<Longrightarrow> slot_of (uid (data_array p ! i)) = i"
  shows "pool_rep fl p"
  using assms by (simp add: pool_rep_def cap_def Let_def)

lemma live_free_list: "pool_rep fl p \<Longrightarrow> live p = {..<cap p} - set fl"
  using pool_repD(7) [of fl p] by (auto simp: live_def)

lemma card_live: "pool_rep fl p \<Longrightarrow> card (live p) = unat (pl_count p)"
  using pool_repD(8,9) [of fl p]
  by (simp add: live_free_list card_Diff_subset distinct_card pool_repD(6))

section \<open>The operations on well-formed pools\<close>

lemma Lock_sel [simp]:
  "pl_count (Lock p) = pl_count p" "pl_size (Lock p) = pl_size p"
  "data_array (Lock p) = data_array p" "link_array (Lock p) = link_array p"
  "free_obj (Lock p) = free_obj p" "data_allocate (Lock p) = data_allocate p"
  by (simp_all add: Lock_def)

lemma Unlock_Lock [simp]: "Unlock (Lock p) = p"
  by (simp add: Lock_def Unlock_def)

lemma chain_upt: "a \<le> b \<Longrightarrow> b \<le> n \<Longrightarrow>
  chain ((map (\<lambda>i. Some (i + 1)) [0..<n])[b - 1 := None]) (if a < b then Some a else None) [a..<b]"
proof (induction "b - a" arbitrary: a)
  case (Suc k)
  then have "[a..<b] = a # [Suc a..<b]" by (simp add: upt_conv_Cons)
  moreover have "k = b - Suc a" "a < b" using Suc.hyps(2) by auto
  ultimately show ?case
    using Suc.hyps(1) [of "Suc a"] Suc.prems
    by (cases "Suc a < b") (auto simp: chain_Cons nth_list_update)
qed simp

lemma Initialize_rep:
  assumes "Initialize True True True mk sz p = (True, p')" and "pl_count p = 0"
  shows "pool_rep [0..<unat sz] p'"
proof -
  let ?n = "unat sz"
  from assms have sz: "sz \<noteq> 0" "sz \<le> 0xffff"
    and p': "p' = p\<lparr>pl_size := sz, data_allocate := replicate ?n False,
      data_array := map (\<lambda>i. (mk i)\<lparr>uid := 0x00010000 OR word_of_nat i\<rparr>) [0..<?n],
      link_array := (map (\<lambda>i. Some (i + 1)) [0..<?n])[?n - 1 := None], free_obj := Some 0\<rparr>"
    by (auto simp: Initialize_def Let_def not_less split: if_splits)
  have n: "?n \<le> 0xffff" "0 < ?n"
    using sz by (simp_all add: word_le_nat_alt unat_gt_0)
  have c: "chain (link_array p') (free_obj p') [0..<?n]"
    using chain_upt [of 0 ?n ?n] n by (simp add: p')
  show ?thesis
    by (rule pool_repI) (use n c assms(2) in \<open>auto simp: p' cap_def init_uid\<close>)
qed

text \<open>\<open>Allocate\<close> pops the free list.\<close>

lemma Allocate_empty: "pool_rep [] p \<Longrightarrow> Allocate mt p = (None, p)"
  using pool_repD(5) [of "[]" p] by (simp add: Allocate_def Let_def)

lemma Allocate_pop:
  assumes "pool_rep (i # fl) p"
  shows "Allocate mt p = (Some i, p\<lparr>free_obj := link_array p ! i,
      link_array := (link_array p)[i := None], data_allocate := (data_allocate p)[i := True],
      pl_count := pl_count p + 1\<rparr>)"
  using pool_repD(5) [OF assms] by (simp add: Allocate_def Let_def chain_Cons Lock_def Unlock_def)

lemma Allocate_rep:
  assumes "pool_rep (i # fl) p" and "Allocate mt p = (Some j, p')"
  shows "j = i" "pool_rep fl p'" "data_array p' = data_array p" "cap p' = cap p" "i < cap p"
    "data_allocate p' = (data_allocate p)[i := True]" "lock_depth p' = lock_depth p"
    "\<not> data_allocate p ! i"
proof -
  note r = pool_repD [OF assms(1)]
  have p': "j = i" "p' = p\<lparr>free_obj := link_array p ! i,
      link_array := (link_array p)[i := None], data_allocate := (data_allocate p)[i := True],
      pl_count := pl_count p + 1\<rparr>"
    using Allocate_pop [OF assms(1), of mt] assms(2) by auto
  have i: "i < cap p" "i \<notin> set fl" "distinct fl" using r(6,8) by auto
  have "unat (pl_count p) < 0xffff" using r(1,9) by simp
  then have cnt: "unat (pl_count p + 1) = Suc (unat (pl_count p))"
    by (simp add: unat_word_ariths)
  have "chain (link_array p) (link_array p ! i) fl" using r(5) by (simp add: chain_Cons)
  then have c: "chain ((link_array p)[i := None]) (link_array p ! i) fl"
    using i by (simp add: chain_update)
  have "pool_rep fl p'"
  proof (rule pool_repI)
    fix k assume k: "k < cap p'"
    then show "k \<in> set fl \<longleftrightarrow> \<not> data_allocate p' ! k"
      using r(4) r(7) [of k] i by (auto simp: p'(2) cap_def nth_list_update)
  qed (use r i c cnt in \<open>auto simp: p'(2) cap_def\<close>)
  then show "j = i" "pool_rep fl p'" "data_array p' = data_array p" "cap p' = cap p" "i < cap p"
    "data_allocate p' = (data_allocate p)[i := True]" "lock_depth p' = lock_depth p"
    "\<not> data_allocate p ! i"
    using p' i r(7) [of i] by (auto simp: cap_def)
qed

lemma Get_rep:
  assumes "pool_rep fl p"
  shows "Get h p = Some i \<longleftrightarrow> i < cap p \<and> handle_at p i = h"
proof -
  have "h AND 0xffff < pl_size p \<longleftrightarrow> slot_of h < cap p"
    by (simp add: slot_of_def cap_def word_less_nat_alt)
  then have "Get h p = (if slot_of h < cap p \<and> handle_at p (slot_of h) = h
      then Some (slot_of h) else None)"
    by (simp add: Get_def Let_def slot_of_def handle_at_def)
  then show ?thesis using pool_repD(10) [OF assms, of i] by (auto simp: handle_at_def)
qed

text \<open>\<open>Free\<close> pushes the slot back and renames it; a handle of no live object changes nothing.\<close>

lemma Free_dead:
  assumes "pool_rep fl p" and "h \<notin> handle_at p ` live p"
  shows "Free mt h p = p"
proof (cases "Get h p")
  case None
  then show ?thesis by (simp add: Free_def Let_def)
next
  case (Some i)
  with Get_rep [OF assms(1)] have "i < cap p" "handle_at p i = h" by auto
  with assms(2) have "\<not> data_allocate p ! i" by (auto simp: live_def)
  with Some show ?thesis by (simp add: Free_def Let_def)
qed

lemma Free_live:
  assumes "pool_rep fl p" and "i \<in> live p"
  defines "h \<equiv> handle_at p i"
  defines "p' \<equiv> p\<lparr>link_array := (link_array p)[i := free_obj p], free_obj := Some i,
       pl_count := pl_count p - 1,
       data_array := (data_array p)[i := (data_array p ! i)\<lparr>uid := next_uid h\<rparr>],
       data_allocate := (data_allocate p)[i := False]\<rparr>"
  shows "Free mt h p = p'" and "pool_rep (i # fl) p'"
proof -
  note r = pool_repD [OF assms(1)]
  have i: "i < cap p" "data_allocate p ! i" using assms(2) by (auto simp: live_def)
  have "Get h p = Some i" using Get_rep [OF assms(1)] i by (simp add: h_def)
  then show "Free mt h p = p'"
    using i(2) by (simp add: Free_def Let_def p'_def Lock_def Unlock_def)
  have nfl: "i \<notin> set fl" using r(7) i by auto
  have "unat (pl_count p) \<noteq> 0"
    using assms(2) card_live [OF assms(1)] card_gt_0_iff [of "live p"]
    by (auto simp: live_def)
  then have cnt: "unat (pl_count p - 1) = unat (pl_count p) - 1"
    by (simp add: unat_minus_one unat_eq_0)
  have c: "chain ((link_array p)[i := free_obj p]) (Some i) (i # fl)"
    using r(3,5) i nfl by (simp add: chain_update)
  show "pool_rep (i # fl) p'"
  proof (rule pool_repI)
    fix k assume k: "k < cap p'"
    then show "k \<in> set (i # fl) \<longleftrightarrow> \<not> data_allocate p' ! k"
      using r(4) r(7) [of k] i by (auto simp: p'_def cap_def nth_list_update)
    from k show "slot_of (uid (data_array p' ! k)) = k"
      using r(2) r(10) [of k] i by (auto simp: p'_def cap_def nth_list_update h_def handle_at_def)
  qed (use r i nfl c cnt \<open>unat (pl_count p) \<noteq> 0\<close> in \<open>auto simp: p'_def cap_def\<close>)
qed

lemma pool_ok_Allocate: "pool_ok p \<Longrightarrow> pool_ok (snd (Allocate mt p))"
proof -
  assume "pool_ok p"
  then obtain fl where fl: "pool_rep fl p" by (auto simp: pool_ok_def)
  show ?thesis
  proof (cases fl)
    case Nil
    with fl show ?thesis by (auto simp: Allocate_empty pool_ok_def)
  next
    case (Cons i fl')
    with fl show ?thesis
      using Allocate_rep(2) [of i fl' p mt i "snd (Allocate mt p)"] Allocate_pop [of i fl' p mt]
      by (auto simp: pool_ok_def)
  qed
qed

lemma pool_ok_Free: "pool_ok p \<Longrightarrow> pool_ok (Free mt h p)"
proof -
  assume "pool_ok p"
  then obtain fl where fl: "pool_rep fl p" by (auto simp: pool_ok_def)
  show ?thesis
  proof (cases "h \<in> handle_at p ` live p")
    case True
    then obtain i where "i \<in> live p" "h = handle_at p i" by auto
    with Free_live [OF fl this(1)] show ?thesis by (auto simp: pool_ok_def)
  next
    case False
    with Free_dead [OF fl] fl show ?thesis by (auto simp: pool_ok_def)
  qed
qed

section \<open>The interface the server relies on\<close>

text \<open>
  What \<open>Server\<close>, \<open>Client\<close> and \<open>Game\<close> use of a pool: slots with handles, taken and given back.
\<close>

locale handle_pool =
  fixes alloc :: "'p \<Rightarrow> nat option \<times> 'p"
    and free :: "u32 \<Rightarrow> 'p \<Rightarrow> 'p"
    and get :: "u32 \<Rightarrow> 'p \<Rightarrow> nat option"
    and handle :: "'p \<Rightarrow> nat \<Rightarrow> u32"
    and used :: "'p \<Rightarrow> nat set"
    and room :: "'p \<Rightarrow> nat"
    and inv :: "'p \<Rightarrow> bool"
  assumes used_room: "inv p \<Longrightarrow> used p \<subseteq> {..<room p}"
    and get_iff: "inv p \<Longrightarrow> get h p = Some i \<longleftrightarrow> i < room p \<and> handle p i = h"
    and alloc_None: "inv p \<Longrightarrow> alloc p = (None, p') \<Longrightarrow> used p = {..<room p} \<and> p' = p"
    and alloc_Some: "inv p \<Longrightarrow> alloc p = (Some i, p') \<Longrightarrow>
      i \<notin> used p \<and> used p' = insert i (used p) \<and> room p' = room p \<and> inv p'
      \<and> (\<forall>k. handle p' k = handle p k)"
    and free_used: "inv p \<Longrightarrow> i \<in> used p \<Longrightarrow> p' = free (handle p i) p \<Longrightarrow>
      used p' = used p - {i} \<and> room p' = room p \<and> inv p' \<and> handle p' i \<noteq> handle p i
      \<and> (\<forall>k. k \<noteq> i \<longrightarrow> handle p' k = handle p k)
      \<and> (\<exists>p''. alloc p' = (Some i, p''))"
    and free_unused: "inv p \<Longrightarrow> h \<notin> handle p ` used p \<Longrightarrow> free h p = p"
begin

lemma handle_inj: "inv p \<Longrightarrow> i < room p \<Longrightarrow> k < room p \<Longrightarrow> handle p i = handle p k \<Longrightarrow> i = k"
  by (metis get_iff option.inject)

lemma alloc_get: "inv p \<Longrightarrow> alloc p = (Some i, p') \<Longrightarrow> get (handle p' i) p' = Some i"
  using alloc_Some [of p i p'] used_room [of p'] get_iff [of p'] by blast

lemma alloc_succeeds:
  assumes "inv p" and "card (used p) < room p"
  shows "\<exists>i p'. alloc p = (Some i, p')"
proof (cases "alloc p")
  case (Pair r p')
  with alloc_None [OF assms(1)] assms(2) show ?thesis by (cases r) auto
qed

lemma alloc_fails_iff: "inv p \<Longrightarrow> fst (alloc p) = None \<longleftrightarrow> card (used p) = room p"
proof
  assume inv: "inv p"
  {
    assume "fst (alloc p) = None"
    with alloc_None [OF inv] show "card (used p) = room p" by (cases "alloc p") auto
  next
    assume full: "card (used p) = room p"
    then have "used p = {..<room p}"
      using used_room [OF inv] by (simp add: card_subset_eq)
    then show "fst (alloc p) = None"
      using alloc_Some [OF inv] used_room by (cases "alloc p"; cases "fst (alloc p)") force+
  }
qed

lemma stale_get: "inv p \<Longrightarrow> i \<in> used p \<Longrightarrow> get (handle p i) (free (handle p i) p) = None"
proof -
  assume a: "inv p" "i \<in> used p"
  let ?q = "free (handle p i) p"
  note f = free_used [OF a refl]
  show ?thesis
  proof (cases "get (handle p i) ?q")
    case (Some k)
    then have k: "k < room p" "handle ?q k = handle p i" using get_iff [of ?q] f by auto
    then have "k \<noteq> i" using f by auto
    then have "handle p k = handle p i" using k f by metis
    then have "k = i" using handle_inj [OF a(1) k(1)] used_room [OF a(1)] a(2) by auto
    with \<open>k \<noteq> i\<close> show ?thesis by simp
  qed simp
qed

lemma double_free: "inv p \<Longrightarrow> i \<in> used p \<Longrightarrow>
    free (handle p i) (free (handle p i) p) = free (handle p i) p"
proof (rule free_unused)
  assume a: "inv p" "i \<in> used p"
  note f = free_used [OF a refl]
  show "inv (free (handle p i) p)" using f by simp
  show "handle p i \<notin> handle (free (handle p i) p) ` used (free (handle p i) p)"
  proof
    assume "handle p i \<in> handle (free (handle p i) p) ` used (free (handle p i) p)"
    then obtain k where "k \<in> used p" "k \<noteq> i" "handle p i = handle p k" using f by auto
    with handle_inj [OF a(1)] used_room [OF a(1)] a(2) show False by blast
  qed
qed

lemma others_survive: "inv p \<Longrightarrow> i \<in> used p \<Longrightarrow> k \<in> used p \<Longrightarrow> k \<noteq> i \<Longrightarrow>
    get (handle p k) (free (handle p i) p) = Some k"
  using free_used [of p i "free (handle p i) p"] get_iff [of "free (handle p i) p"] used_room [of p]
  by auto

lemma reuse_latest: "inv p \<Longrightarrow> i \<in> used p \<Longrightarrow> fst (alloc (free (handle p i) p)) = Some i"
  using free_used [of p i "free (handle p i) p"] by auto

end

interpretation op: handle_pool "Allocate mt" "Free mt" Get handle_at live cap pool_ok
proof
  fix p :: "'a obj_scheme pool" and p' h i
  assume "pool_ok p"
  then obtain fl where fl: "pool_rep fl p" by (auto simp: pool_ok_def)
  show "live p \<subseteq> {..<cap p}" by (auto simp: live_def)
  show "Get h p = Some i \<longleftrightarrow> i < cap p \<and> handle_at p i = h" by (rule Get_rep [OF fl])
  show "live p = {..<cap p} \<and> p' = p" if "Allocate mt p = (None, p')"
    using that fl Allocate_empty [of p mt] live_free_list [OF fl] Allocate_pop [of _ _ p mt]
    by (cases fl) auto
  show "i \<notin> live p \<and> live p' = insert i (live p) \<and> cap p' = cap p \<and> pool_ok p'
      \<and> (\<forall>k. handle_at p' k = handle_at p k)" if alloc: "Allocate mt p = (Some i, p')"
  proof (cases fl)
    case Nil
    with alloc fl show ?thesis by (simp add: Allocate_empty)
  next
    case (Cons j fl')
    note a = Allocate_rep [OF fl [unfolded Cons] alloc]
    then show ?thesis
      using pool_repD(4) [OF fl]
      by (auto simp: live_def handle_at_def pool_ok_def nth_list_update)
  qed
  show "live p' = live p - {i} \<and> cap p' = cap p \<and> pool_ok p' \<and> handle_at p' i \<noteq> handle_at p i
      \<and> (\<forall>k. k \<noteq> i \<longrightarrow> handle_at p' k = handle_at p k)
      \<and> (\<exists>p''. Allocate mt p' = (Some i, p''))"
    if i: "i \<in> live p" and p': "p' = Free mt (handle_at p i) p"
  proof -
    note f = Free_live [OF fl i]
    have "pool_rep (i # fl) p'" using f p' by simp
    then have "\<exists>p''. Allocate mt p' = (Some i, p'')" and "pool_ok p'"
      using Allocate_pop [of i fl p' mt] by (auto simp: pool_ok_def)
    with f p' i pool_repD(2,4) [OF fl] show ?thesis
      by (auto simp: live_def handle_at_def cap_def nth_list_update next_uid_neq)
  qed
  show "Free mt h p = p" if "h \<notin> handle_at p ` live p" by (rule Free_dead [OF fl that])
qed

section \<open>Histories\<close>

datatype pool_op = OpAllocate bool | OpFree bool u32

primrec pool_step :: "pool_op \<Rightarrow> 'z obj_scheme pool \<Rightarrow> 'z obj_scheme pool" where
  "pool_step (OpAllocate mt) p = snd (Allocate mt p)"
| "pool_step (OpFree mt h) p = Free mt h p"

lemma Allocate_frame:
  "pl_size (snd (Allocate mt p)) = pl_size p" "lock_depth (snd (Allocate mt p)) = lock_depth p"
  by (auto simp: Allocate_def Let_def Lock_def Unlock_def split: option.splits)

lemma Free_frame:
  "pl_size (Free mt h p) = pl_size p" "lock_depth (Free mt h p) = lock_depth p"
  by (auto simp: Free_def Let_def Lock_def Unlock_def split: option.splits)

lemma pool_step_ok: "pool_ok p \<Longrightarrow> pool_ok (pool_step x p)"
  by (cases x) (simp_all add: pool_ok_Allocate pool_ok_Free)

lemma pool_step_frame:
  "pl_size (pool_step x p) = pl_size p \<and> lock_depth (pool_step x p) = lock_depth p"
  by (cases x) (simp_all add: Allocate_frame Free_frame)

lemma count_live: "pool_ok p \<Longrightarrow> unat (Count p) = card (live p)"
  by (auto simp: pool_ok_def Count_def card_live)

lemma next_uid_funpow: "magic_of ((next_uid ^^ n) h) = magic_of h + of_nat n
    \<and> slot_of ((next_uid ^^ n) h) = slot_of h"
  by (induction n) (simp_all add: algebra_simps)

text \<open>A small pool for the witnesses: two objects, the first one taken.\<close>

definition example_pool :: "obj pool" where
  "example_pool = snd (Allocate True (snd (Initialize True True True (\<lambda>_. \<lparr>uid = 0\<rparr>) 2 pool_new)))"

lemma example_pool_ok: "pool_ok example_pool"
proof -
  have "fst (Initialize True True True (\<lambda>_. \<lparr>uid = 0\<rparr>) 2 (pool_new :: obj pool))"
    by (simp add: Initialize_def)
  then have "pool_ok (snd (Initialize True True True (\<lambda>_. \<lparr>uid = 0\<rparr>) 2 (pool_new :: obj pool)))"
    using Initialize_rep [of "\<lambda>_. \<lparr>uid = 0\<rparr>" 2 pool_new]
    by (cases "Initialize True True True (\<lambda>_. \<lparr>uid = 0\<rparr>) 2 (pool_new :: obj pool)")
       (auto simp: pool_ok_def pool_new_def)
  then show ?thesis by (simp add: example_pool_def pool_ok_Allocate)
qed

lemma example_pool_live: "live example_pool = {0}" "handle_at example_pool 0 = 0x10000"
  "cap example_pool = 2"
  by (auto simp: example_pool_def live_def cap_def handle_at_def Initialize_def Allocate_def
      pool_new_def upt_rec [of 0] upt_rec [of 1] less_2_cases_iff)

section \<open>Properties\<close>

text \<open>
  C5: whatever sequence of \<open>Allocate\<close> and \<open>Free\<close> calls follows a successful \<open>Initialize\<close> of a
  new pool, from the main thread or from others, with live, stale or invented handles: the
  free list stays a list without cycles that holds exactly the slots not allocated, every
  object keeps its slot number in its handle, \<open>count\<close> is the number of allocated objects,
  \<open>size\<close> stays, and the lock is released.
\<close>

theorem pool_history:
  assumes "Initialize True True True mk sz pool_new = (True, p0)"
  shows "pool_ok (fold pool_step ops p0) \<and> Size (fold pool_step ops p0) = sz
    \<and> unat (Count (fold pool_step ops p0)) = card (live (fold pool_step ops p0))
    \<and> lock_depth (fold pool_step ops p0) = 0"
proof -
  have p0: "pool_ok p0" "pl_size p0 = sz" "lock_depth p0 = 0"
    using assms Initialize_rep [OF assms]
    by (auto simp: pool_ok_def pool_new_def Initialize_def Let_def split: if_splits)
  have "pool_ok (fold pool_step ops p0)"
    by (rule fold_invariant) (use p0(1) in \<open>auto intro: pool_step_ok\<close>)
  moreover have "pl_size (fold pool_step ops p0) = sz \<and> lock_depth (fold pool_step ops p0) = 0"
    by (rule fold_invariant) (use p0 in \<open>auto simp: pool_step_frame\<close>)
  ultimately show ?thesis by (simp add: count_live Size_def)
qed

theorem pool_history_witness:
  "\<exists>p0. Initialize True True True (\<lambda>_. \<lparr>uid = 0\<rparr>) 2 (pool_new :: obj pool) = (True, p0)
    \<and> pool_ok (fold pool_step [OpAllocate True, OpAllocate False, OpFree True 0x10000] p0)"
proof -
  obtain p0 where p0: "Initialize True True True (\<lambda>_. \<lparr>uid = 0\<rparr>) 2 (pool_new :: obj pool) = (True, p0)"
    by (simp add: Initialize_def)
  with pool_history [OF p0] show ?thesis by blast
qed

text \<open>\<open>Allocate\<close> returns null exactly when \<open>Count\<close> has reached \<open>Size\<close>.\<close>

lemma allocate_fails_iff_full:
  assumes "pool_ok p"
  shows "fst (Allocate mt p) = None \<longleftrightarrow> Count p = Size p"
  using op.alloc_fails_iff [OF assms] count_live [OF assms]
  by (simp add: cap_def Size_def word_unat_eq_iff)

text \<open>
  C6: \<open>Allocate\<close> fails exactly when as many objects are allocated as the pool has, and a handle is dead from the moment
  its object is freed: \<open>Get\<close> no longer finds it, freeing it again changes nothing, every
  other live handle is still found at its slot, and the next \<open>Allocate\<close> returns the freed slot.
\<close>

theorem freed_handle_is_dead:
  assumes "pool_ok p" and "i \<in> live p"
  shows "Get (handle_at p i) p = Some i
    \<and> Get (handle_at p i) (Free mt (handle_at p i) p) = None
    \<and> Free mt (handle_at p i) (Free mt (handle_at p i) p) = Free mt (handle_at p i) p
    \<and> fst (Allocate mt (Free mt (handle_at p i) p)) = Some i
    \<and> (\<forall>k \<in> live p - {i}. Get (handle_at p k) (Free mt (handle_at p i) p) = Some k)
    \<and> (fst (Allocate mt p) = None \<longleftrightarrow> Count p = Size p)"
  using allocate_fails_iff_full [OF assms(1)] op.stale_get [OF assms] op.double_free [OF assms] op.reuse_latest [OF assms]
    op.others_survive [OF assms] op.get_iff [OF assms(1)] op.used_room [OF assms(1)] assms(2)
  by (auto simp: subset_iff)

theorem freed_handle_is_dead_witness:
  "Get 0x10000 example_pool = Some 0 \<and> Get 0x10000 (Free True 0x10000 example_pool) = None"
  using freed_handle_is_dead [OF example_pool_ok, of 0 True] by (simp add: example_pool_live)

text \<open>
  how long a stale handle stays distinguishable: the handle of a slot returns to an
  earlier value after exactly 65536 lives of the slot (or a multiple), and never sooner.
\<close>

lemma handle_period: "(next_uid ^^ n) h = h \<longleftrightarrow> 65536 dvd n"
proof -
  have "(next_uid ^^ n) h = h \<longleftrightarrow> magic_of ((next_uid ^^ n) h) = magic_of h"
    using uid_eqI [of "(next_uid ^^ n) h" h] next_uid_funpow [of n h] by auto
  also have "\<dots> \<longleftrightarrow> (of_nat n :: u16) = 0" by (simp add: next_uid_funpow)
  also have "\<dots> \<longleftrightarrow> 65536 dvd n" by (simp add: word_of_nat_eq_0_iff)
  finally show ?thesis .
qed

end
