(* ===== verification/Float32.thy ===== *)
theory Float32
  imports Prelude
begin

text \<open>
  The type \<^verbatim>\<open>float\<close> of the code: IEEE 754 binary32 with round-to-nearest-even, as the
  compilers the project targets evaluate it. A finite number is a sign, a mantissa and an
  exponent with value \<open>\<plusminus> m * 2 ^ e\<close>; every operation computes the exact result over the
  integers and rounds once. There is one NaN: the code never looks at a payload. The
  definitions compute, so programs over \<^verbatim>\<open>float\<close> evaluate inside the kernel.
\<close>

section \<open>Representation and rounding\<close>

datatype f32 = FNaN | FInf bool | FFin bool int int

text \<open>Canonical finite numbers: 24-bit mantissas, or subnormal ones at the least exponent.\<close>

definition f32_canonical :: "f32 \<Rightarrow> bool" where
  "f32_canonical x = (case x of
      FFin s m e \<Rightarrow> (2 ^ 23 \<le> m \<and> m < 2 ^ 24 \<and> -149 \<le> e \<and> e \<le> 104)
                  \<or> (0 \<le> m \<and> m < 2 ^ 23 \<and> e = -149)
    | _ \<Rightarrow> True)"

function nbits :: "int \<Rightarrow> nat" where
  "nbits n = (if n \<le> 0 then 0 else Suc (nbits (n div 2)))"
  by pat_completeness auto
termination by (relation "measure nat") auto

declare nbits.simps [simp del]

text \<open>Division by \<open>2 ^ k\<close>, to the nearest integer, ties to the even one.\<close>

definition rne :: "int \<Rightarrow> nat \<Rightarrow> int" where
  "rne n k =
     (let m = n div 2 ^ k; r = n mod 2 ^ k; h = 2 ^ (k - 1)
      in if h < r \<or> (r = h \<and> odd m) then m + 1 else m)"

definition f32_pack :: "bool \<Rightarrow> int \<Rightarrow> int \<Rightarrow> f32" where
  "f32_pack s m q =
     (let (m', q') = (if m = 2 ^ 24 then (2 ^ 23, q + 1) else (m, q))
      in if 104 < q' then FInf s else FFin s m' q')"

text \<open>\<open>f32_round s n e\<close> is the binary32 number for \<open>\<plusminus> n * 2 ^ e\<close> with \<open>0 \<le> n\<close>.\<close>

definition f32_round :: "bool \<Rightarrow> int \<Rightarrow> int \<Rightarrow> f32" where
  "f32_round s n e =
     (if n = 0 then FFin s 0 (-149)
      else let q = max (-149) (e + int (nbits n) - 24)
           in if q \<le> e then f32_pack s (n * 2 ^ nat (e - q)) q
              else f32_pack s (rne n (nat (q - e))) q)"

section \<open>Conversion, arithmetic, square root\<close>

definition f32_of_int :: "int \<Rightarrow> f32" where
  "f32_of_int i = f32_round (i < 0) \<bar>i\<bar> 0"

fun f32_neg :: "f32 \<Rightarrow> f32" where
  "f32_neg FNaN = FNaN"
| "f32_neg (FInf s) = FInf (\<not> s)"
| "f32_neg (FFin s m e) = FFin (\<not> s) m e"

definition sgm :: "bool \<Rightarrow> int \<Rightarrow> int" where
  "sgm s m = (if s then - m else m)"

fun f32_add :: "f32 \<Rightarrow> f32 \<Rightarrow> f32" where
  "f32_add (FFin s m e) (FFin t n f) =
     (let q = min e f; a = sgm s m * 2 ^ nat (e - q) + sgm t n * 2 ^ nat (f - q)
      in if a = 0 then FFin (s \<and> t) 0 (-149) else f32_round (a < 0) \<bar>a\<bar> q)"
| "f32_add (FInf s) (FInf t) = (if s = t then FInf s else FNaN)"
| "f32_add (FInf s) (FFin t n f) = FInf s"
| "f32_add (FFin s m e) (FInf t) = FInf t"
| "f32_add FNaN _ = FNaN"
| "f32_add _ FNaN = FNaN"

definition f32_sub :: "f32 \<Rightarrow> f32 \<Rightarrow> f32" where
  "f32_sub a b = f32_add a (f32_neg b)"

fun f32_mul :: "f32 \<Rightarrow> f32 \<Rightarrow> f32" where
  "f32_mul (FFin s m e) (FFin t n f) = f32_round (s \<noteq> t) (m * n) (e + f)"
| "f32_mul (FInf s) (FInf t) = FInf (s \<noteq> t)"
| "f32_mul (FInf s) (FFin t n f) = (if n = 0 then FNaN else FInf (s \<noteq> t))"
| "f32_mul (FFin s m e) (FInf t) = (if m = 0 then FNaN else FInf (s \<noteq> t))"
| "f32_mul FNaN _ = FNaN"
| "f32_mul _ FNaN = FNaN"

text \<open>
  Division and square root compute the quotient and the root to more bits than the result
  has, and keep one sticky bit that says whether anything was cut off.
\<close>

fun f32_div :: "f32 \<Rightarrow> f32 \<Rightarrow> f32" where
  "f32_div (FFin s m e) (FFin t n f) =
     (if n = 0 then (if m = 0 then FNaN else FInf (s \<noteq> t))
      else let a = m * 2 ^ 50
           in f32_round (s \<noteq> t) (2 * (a div n) + (if a mod n = 0 then 0 else 1)) (e - f - 51))"
| "f32_div (FInf s) (FInf t) = FNaN"
| "f32_div (FInf s) (FFin t n f) = FInf (s \<noteq> t)"
| "f32_div (FFin s m e) (FInf t) = FFin (s \<noteq> t) 0 (-149)"
| "f32_div FNaN _ = FNaN"
| "f32_div _ FNaN = FNaN"

function isqrt :: "int \<Rightarrow> int" where
  "isqrt n =
     (if n \<le> 0 then 0
      else let r = 2 * isqrt (n div 4) in if (r + 1) * (r + 1) \<le> n then r + 1 else r)"
  by pat_completeness auto
termination by (relation "measure nat") auto

declare isqrt.simps [simp del]

fun f32_sqrt :: "f32 \<Rightarrow> f32" where
  "f32_sqrt FNaN = FNaN"
| "f32_sqrt (FInf s) = (if s then FNaN else FInf False)"
| "f32_sqrt (FFin s m e) =
     (if m = 0 then FFin s m e
      else if s then FNaN
      else let (m', e') = (if even e then (m, e) else (2 * m, e - 1)); a = m' * 4 ^ 30; r = isqrt a
           in f32_round False (2 * r + (if r * r = a then 0 else 1)) (e' div 2 - 31))"

section \<open>Comparison\<close>

fun f32_lt :: "f32 \<Rightarrow> f32 \<Rightarrow> bool" where
  "f32_lt (FFin s m e) (FFin t n f) =
     (let q = min e f in sgm s m * 2 ^ nat (e - q) < sgm t n * 2 ^ nat (f - q))"
| "f32_lt (FInf s) (FInf t) = (s \<and> \<not> t)"
| "f32_lt (FInf s) (FFin t n f) = s"
| "f32_lt (FFin s m e) (FInf t) = (\<not> t)"
| "f32_lt FNaN _ = False"
| "f32_lt _ FNaN = False"

fun f32_eq :: "f32 \<Rightarrow> f32 \<Rightarrow> bool" where
  "f32_eq (FFin s m e) (FFin t n f) =
     (let q = min e f in sgm s m * 2 ^ nat (e - q) = sgm t n * 2 ^ nat (f - q))"
| "f32_eq (FInf s) (FInf t) = (s = t)"
| "f32_eq _ _ = False"

definition f32_le :: "f32 \<Rightarrow> f32 \<Rightarrow> bool" where
  "f32_le a b = (f32_lt a b \<or> f32_eq a b)"

text \<open>The operators of the language on \<^verbatim>\<open>float\<close>, through the library's syntactic classes.\<close>

instantiation f32 :: "{zero, one, plus, minus, uminus, times, divide, ord}"
begin

definition zero_f32 :: f32 where "0 = FFin False 0 (-149)"
definition one_f32 :: f32 where "1 = FFin False (2 ^ 23) (-23)"
definition plus_f32 :: "f32 \<Rightarrow> f32 \<Rightarrow> f32" where "a + b = f32_add a b"
definition minus_f32 :: "f32 \<Rightarrow> f32 \<Rightarrow> f32" where "a - b = f32_sub a b"
definition uminus_f32 :: "f32 \<Rightarrow> f32" where "- a = f32_neg a"
definition times_f32 :: "f32 \<Rightarrow> f32 \<Rightarrow> f32" where "a * b = f32_mul a b"
definition divide_f32 :: "f32 \<Rightarrow> f32 \<Rightarrow> f32" where "a div b = f32_div a b"
definition less_f32 :: "f32 \<Rightarrow> f32 \<Rightarrow> bool" where "a < b = f32_lt a b"
definition less_eq_f32 :: "f32 \<Rightarrow> f32 \<Rightarrow> bool" where "a \<le> b = f32_le a b"

instance ..

end

lemmas f32_ops = zero_f32_def one_f32_def plus_f32_def minus_f32_def uminus_f32_def
  times_f32_def divide_f32_def less_f32_def less_eq_f32_def f32_sub_def

text \<open>A decimal literal \<open>n / d\<close> of the source, rounded once (\<open>0.99f\<close> is \<open>f32_lit 99 100\<close>).\<close>

definition f32_lit :: "int \<Rightarrow> int \<Rightarrow> f32" where
  "f32_lit n d =
     (let a = \<bar>n\<bar> * 2 ^ 200
      in f32_round (n < 0) (2 * (a div d) + (if a mod d = 0 then 0 else 1)) (-201))"

lemmas f32_eval = f32_ops f32_lit_def f32_of_int_def f32_round_def f32_pack_def rne_def
  nbits.simps isqrt.simps sgm_def f32_le_def

lemma f32_literals:
  "f32_lit 99 100 = FFin False 16609444 (-24)"
  "f32_lit 1 2 = FFin False (2 ^ 23) (-24)"
  "f32_of_int 10 = FFin False 10485760 (-20)"
  by (simp_all add: f32_eval)

section \<open>What rounding and comparison guarantee\<close>

definition is_nan :: "f32 \<Rightarrow> bool" where
  "is_nan x = (x = FNaN)"

definition f32_val :: "f32 \<Rightarrow> real" where
  "f32_val x = (case x of FFin s m e \<Rightarrow> of_int (sgm s m) * 2 powi e | _ \<Rightarrow> 0)"

definition is_fin :: "f32 \<Rightarrow> bool" where
  "is_fin x = (case x of FFin s m e \<Rightarrow> True | _ \<Rightarrow> False)"

lemma is_fin_simps [simp]: "is_fin (FFin s m e)" "\<not> is_fin (FInf s)" "\<not> is_fin FNaN"
  by (simp_all add: is_fin_def)

lemma nbits_zero [simp]: "n \<le> 0 \<Longrightarrow> nbits n = 0"
  by (simp add: nbits.simps)

lemma nbits_bounds: "0 < n \<Longrightarrow> 2 ^ (nbits n - 1) \<le> n \<and> n < 2 ^ nbits n \<and> 0 < nbits n"
proof (induction n rule: nbits.induct)
  case (1 n)
  show ?case
  proof (cases "n = 1")
    case True
    then show ?thesis by (simp add: nbits.simps [of 1] nbits.simps [of 0])
  next
    case False
    with 1 have IH: "2 ^ (nbits (n div 2) - 1) \<le> n div 2" "n div 2 < 2 ^ nbits (n div 2)"
      "0 < nbits (n div 2)" by auto
    then obtain k where k: "nbits (n div 2) = Suc k" by (cases "nbits (n div 2)") auto
    have "nbits n = Suc (Suc k)" using "1.prems" k by (simp add: nbits.simps [of n])
    with IH k show ?thesis by auto
  qed
qed

lemma int_le_div_iff: "c \<le> n div b \<longleftrightarrow> c * b \<le> n" if "0 < b" for n b c :: int
proof
  assume "c \<le> n div b"
  then have "c * b \<le> n div b * b" using that by simp
  also have "\<dots> \<le> n"
    using div_mult_mod_eq [of n b] pos_mod_sign [OF that, of n] by linarith
  finally show "c * b \<le> n" .
next
  assume "c * b \<le> n"
  from zdiv_mono1 [OF this that] that show "c \<le> n div b" by simp
qed

lemma int_div_less_iff: "0 < b \<Longrightarrow> n div b < c \<longleftrightarrow> n < c * b" for n b c :: int
  using int_le_div_iff [of b c n] by linarith

lemma rne_error: "0 < k \<Longrightarrow> 2 * \<bar>rne n k * 2 ^ k - n\<bar> \<le> 2 ^ k"
proof -
  assume "0 < k"
  then obtain j where j: "k = Suc j" by (cases k) auto
  define M R P :: int where "M = n div 2 ^ k" and "R = n mod 2 ^ k" and "P = 2 ^ j"
  have n: "n = M * (2 * P) + R"
    using div_mult_mod_eq [of n "2 ^ k"] by (simp add: M_def R_def P_def j)
  have r: "0 \<le> R" "R < 2 * P" by (simp_all add: R_def P_def j)
  have x: "rne n k = (if P < R \<or> (R = P \<and> odd M) then M + 1 else M)"
    by (simp add: rne_def Let_def M_def R_def P_def j)
  have "rne n k * (2 * P) - n = (if P < R \<or> (R = P \<and> odd M) then 2 * P - R else - R)"
    unfolding x by (subst n) (simp add: algebra_simps)
  then show ?thesis using r by (auto simp: j P_def)
qed

lemma rne_bounds: "0 \<le> n \<Longrightarrow> n div 2 ^ k \<le> rne n k \<and> rne n k \<le> n div 2 ^ k + 1"
  by (auto simp: rne_def Let_def)

text \<open>The mantissa and the exponent that \<open>f32_round\<close> packs.\<close>

definition round_exp :: "int \<Rightarrow> int \<Rightarrow> int" where
  "round_exp n e = max (-149) (e + int (nbits n) - 24)"

definition round_man :: "int \<Rightarrow> int \<Rightarrow> int" where
  "round_man n e =
     (let q = round_exp n e
      in if q \<le> e then n * 2 ^ nat (e - q) else rne n (nat (q - e)))"

lemma f32_round_alt:
  "n \<noteq> 0 \<Longrightarrow> f32_round s n e = f32_pack s (round_man n e) (round_exp n e)"
  by (simp add: f32_round_def round_man_def round_exp_def Let_def)

lemma round_man_bounds:
  assumes "0 < n"
  shows "0 \<le> round_man n e" and "round_man n e \<le> 2 ^ 24"
    and "-149 < round_exp n e \<Longrightarrow> 2 ^ 23 \<le> round_man n e"
proof -
  let ?b = "nbits n" and ?q = "round_exp n e"
  from assms have b: "2 ^ (?b - 1) \<le> n" "n < 2 ^ ?b" "0 < ?b" using nbits_bounds by auto
  have q: "e + int ?b - 24 \<le> ?q" by (simp add: round_exp_def)
  have "0 \<le> round_man n e \<and> round_man n e \<le> 2 ^ 24
    \<and> (-149 < ?q \<longrightarrow> 2 ^ 23 \<le> round_man n e)"
  proof (cases "?q \<le> e")
    case True
    define d where "d = nat (e - ?q)"
    have d: "int d = e - ?q" using True by (simp add: d_def)
    have "?b + d \<le> 24" using q d by linarith
    then have "n * 2 ^ d \<le> 2 ^ ?b * 2 ^ d" using b(2) by simp
    also have "\<dots> = 2 ^ (?b + d)" by (simp add: power_add)
    also have "\<dots> \<le> 2 ^ 24" using \<open>?b + d \<le> 24\<close> by (intro power_increasing) auto
    finally have up: "n * 2 ^ d \<le> 2 ^ 24" .
    have lo: "2 ^ 23 \<le> n * 2 ^ d" if "-149 < ?q"
    proof -
      have "?b + d = 24" using that d by (auto simp: round_exp_def)
      then have "(2::int) ^ 23 = 2 ^ (?b - 1) * 2 ^ d"
        using b(3) by (simp add: power_add [symmetric])
      also have "\<dots> \<le> n * 2 ^ d" using b(1) by simp
      finally show ?thesis .
    qed
    show ?thesis using True assms up lo by (simp add: round_man_def Let_def d_def)
  next
    case False
    define k where "k = nat (?q - e)"
    have k: "int k = ?q - e" "0 < k" using False by (auto simp: k_def)
    have b24: "?b \<le> 24 + k" using q k by linarith
    have "n < 2 ^ (24 + k)"
      using b(2) power_increasing [OF b24, of "2::int"] by linarith
    then have up: "n div 2 ^ k < 2 ^ 24"
      by (simp add: int_div_less_iff power_add)
    have lo: "2 ^ 23 \<le> n div 2 ^ k" if "-149 < ?q"
    proof -
      have "?b - 1 = 23 + k" using that k by (auto simp: round_exp_def)
      then have "2 ^ 23 * 2 ^ k \<le> n" using b(1) by (simp add: power_add)
      then show ?thesis by (simp add: int_le_div_iff)
    qed
    show ?thesis
      using False assms up lo rne_bounds [of n k]
      by (auto simp: round_man_def Let_def k_def)
         (meson assms less_imp_le order_trans pos_imp_zdiv_nonneg_iff zero_less_power zero_less_numeral)+
  qed
  then show "0 \<le> round_man n e" and "round_man n e \<le> 2 ^ 24"
    and "-149 < ?q \<Longrightarrow> 2 ^ 23 \<le> round_man n e" by auto
qed

lemma f32_round_canonical: "0 \<le> n \<Longrightarrow> f32_canonical (f32_round s n e)"
proof (cases "n = 0")
  case True
  then show ?thesis by (simp add: f32_round_def f32_canonical_def)
next
  case False
  assume "0 \<le> n"
  with False have "0 < n" by simp
  have "-149 \<le> round_exp n e" by (simp add: round_exp_def)
  with round_man_bounds [OF \<open>0 < n\<close>, of e] False show ?thesis
    by (cases "round_exp n e = -149")
       (auto simp: f32_round_alt f32_pack_def f32_canonical_def Let_def)
qed

text \<open>A finite result is within half a unit in the last place of the exact value.\<close>

lemma f32_pack_val:
  "f32_pack s m q = FFin t m' q' \<Longrightarrow>
     t = s \<and> of_int m' * 2 powi q' = (of_int m * 2 powi q :: real)"
  by (auto simp: f32_pack_def Let_def power_int_add split: if_splits)

lemma f32_pack_finite: "q \<le> 103 \<Longrightarrow> \<exists>m' q'. f32_pack s m q = FFin s m' q'"
  by (cases "m = 2 ^ 24") (simp_all add: f32_pack_def)

lemma round_man_error:
  assumes "0 < n"
  shows "2 * \<bar>of_int (round_man n e) * 2 powi round_exp n e - of_int n * 2 powi e\<bar>
           \<le> (2 powi round_exp n e :: real)"
proof (cases "round_exp n e \<le> e")
  case True
  define d where "d = nat (e - round_exp n e)"
  have d: "e = round_exp n e + int d" using True by (simp add: d_def)
  have "of_int (round_man n e) * 2 powi round_exp n e
      = of_int n * (2 ^ d * 2 powi round_exp n e :: real)"
    using True by (simp add: round_man_def Let_def d_def)
  also have "(2 ^ d * 2 powi round_exp n e :: real) = 2 powi e"
    by (subst (2) d) (simp add: power_int_add)
  finally show ?thesis by simp
next
  case False
  define k where "k = nat (round_exp n e - e)"
  have k: "round_exp n e = e + int k" "0 < k" using False by (auto simp: k_def)
  have m: "round_man n e = rne n k" using False by (simp add: round_man_def Let_def k_def)
  have p: "(2 powi round_exp n e :: real) = 2 ^ k * 2 powi e"
    by (subst k(1)) (simp add: power_int_add)
  have "real_of_int (2 * \<bar>rne n k * 2 ^ k - n\<bar>) \<le> real_of_int (2 ^ k)"
    using rne_error [OF k(2)] by (simp only: of_int_le_iff)
  then have i: "2 * \<bar>of_int (rne n k) * 2 ^ k - of_int n\<bar> \<le> (2 ^ k :: real)" by simp
  have "of_int (rne n k) * (2 ^ k * 2 powi e) - of_int n * 2 powi e
      = (of_int (rne n k) * 2 ^ k - of_int n) * (2 powi e :: real)"
    by (simp add: algebra_simps)
  then have "2 * \<bar>of_int (rne n k) * (2 ^ k * 2 powi e) - of_int n * 2 powi e\<bar>
      = (2 * \<bar>of_int (rne n k) * 2 ^ k - of_int n\<bar>) * (2 powi e :: real)"
    by (simp add: abs_mult)
  also have "\<dots> \<le> 2 ^ k * 2 powi e" using i by (intro mult_right_mono) auto
  finally show ?thesis by (simp add: m p)
qed

text \<open>A result that needs no more than 24 significant bits is exact.\<close>

lemma nbits_unique: "2 ^ k \<le> n \<Longrightarrow> n < 2 ^ Suc k \<Longrightarrow> nbits n = Suc k"
proof (induction k arbitrary: n)
  case 0
  then have "n = 1" by simp
  then show ?case by (simp add: nbits.simps)
next
  case (Suc k)
  then have "2 ^ k \<le> n div 2" "n div 2 < 2 ^ Suc k" "0 < n"
    by (auto intro: order.strict_trans2 [of _ "2 ^ Suc k"])
  with Suc.IH [of "n div 2"] show ?case by (simp add: nbits.simps [of n])
qed

lemma nbits_shift: "0 < n \<Longrightarrow> nbits (n * 2 ^ j) = nbits n + j"
proof (induction j)
  case (Suc j)
  then have "0 < n * 2 ^ j" by simp
  with Suc show ?case by (simp add: nbits.simps [of "n * (2 * 2 ^ j)"] mult.left_commute not_le)
qed simp

lemma nbits_le: "n < 2 ^ k \<Longrightarrow> nbits n \<le> k"
proof (cases "0 < n")
  case True
  assume "n < 2 ^ k"
  with nbits_bounds [OF True] have "(2::int) ^ (nbits n - 1) < 2 ^ k" by linarith
  with nbits_bounds [OF True] show ?thesis by simp
qed simp

lemma rne_exact: "2 ^ k dvd n \<Longrightarrow> rne n k = n div 2 ^ k"
  by (auto simp: rne_def Let_def dvd_eq_mod_eq_0)

lemma round_man_exact:
  assumes "0 < n" and "n < 2 ^ 24" and "-149 \<le> e + int j"
  shows "of_int (round_man (n * 2 ^ j) e) * 2 powi round_exp (n * 2 ^ j) e
       = (of_int (n * 2 ^ j) * 2 powi e :: real)"
proof (cases "round_exp (n * 2 ^ j) e \<le> e")
  case True
  define d where "d = nat (e - round_exp (n * 2 ^ j) e)"
  have d: "e = round_exp (n * 2 ^ j) e + int d" using True by (simp add: d_def)
  have "round_man (n * 2 ^ j) e = n * 2 ^ j * 2 ^ d"
    using True by (simp add: round_man_def Let_def d_def)
  moreover have "(2 powi e :: real) = 2 ^ d * 2 powi round_exp (n * 2 ^ j) e"
    by (subst d) (simp add: power_int_add)
  ultimately show ?thesis by simp
next
  case False
  define k where "k = nat (round_exp (n * 2 ^ j) e - e)"
  have k: "round_exp (n * 2 ^ j) e = e + int k" using False by (simp add: k_def)
  have "round_exp (n * 2 ^ j) e \<le> e + int j"
    using assms nbits_le [OF assms(2)] by (auto simp: round_exp_def nbits_shift)
  then have "k \<le> j" using k by simp
  then have dv: "2 ^ k dvd n * 2 ^ j" by (simp add: le_imp_power_dvd)
  have "round_man (n * 2 ^ j) e * 2 ^ k = n * 2 ^ j"
    using False dv by (simp add: round_man_def Let_def k_def rne_exact)
  then have "real_of_int (round_man (n * 2 ^ j) e) * 2 ^ k = of_int (n * 2 ^ j)"
    by (metis of_int_mult of_int_numeral of_int_power)
  then show ?thesis by (simp add: k power_int_add)
qed

lemma f32_round_finite:
  assumes "0 < n" and "n < 2 ^ 24" and "-149 \<le> e + int j" and "e + int j \<le> 80"
  shows "is_fin (f32_round s (n * 2 ^ j) e)"
    and "f32_val (f32_round s (n * 2 ^ j) e) = of_int (sgm s (n * 2 ^ j)) * 2 powi e"
proof -
  have "round_exp (n * 2 ^ j) e \<le> 80"
    using assms nbits_le [OF assms(2)] by (auto simp: round_exp_def nbits_shift)
  then obtain m q where r: "f32_round s (n * 2 ^ j) e = FFin s m q"
    using assms(1) f32_pack_finite [of "round_exp (n * 2 ^ j) e" s "round_man (n * 2 ^ j) e"]
    by (auto simp: f32_round_alt)
  then show "is_fin (f32_round s (n * 2 ^ j) e)" by simp
  have "of_int m * 2 powi q = (of_int (n * 2 ^ j) * 2 powi e :: real)"
    using f32_pack_val [of s "round_man (n * 2 ^ j) e" "round_exp (n * 2 ^ j) e" s m q]
      r assms(1) round_man_exact [OF assms(1-3)] by (simp add: f32_round_alt)
  with r show "f32_val (f32_round s (n * 2 ^ j) e) = of_int (sgm s (n * 2 ^ j)) * 2 powi e"
    by (auto simp: f32_val_def sgm_def)
qed

lemma f32_of_int_exact:
  assumes "\<bar>i\<bar> < 2 ^ 24"
  shows "is_fin (f32_of_int i)" and "f32_val (f32_of_int i) = of_int i"
    and "f32_canonical (f32_of_int i)"
proof -
  have "is_fin (f32_of_int i) \<and> f32_val (f32_of_int i) = of_int i"
  proof (cases "i = 0")
    case True
    then show ?thesis by (simp add: f32_of_int_def f32_round_def f32_val_def sgm_def)
  next
    case False
    then have "0 < \<bar>i\<bar>" by simp
    from f32_round_finite [OF this assms, of 0 0] show ?thesis
      by (auto simp: f32_of_int_def sgm_def)
  qed
  then show "is_fin (f32_of_int i)" and "f32_val (f32_of_int i) = of_int i" by auto
  show "f32_canonical (f32_of_int i)" by (simp add: f32_of_int_def f32_round_canonical)
qed

text \<open>On finite numbers the comparisons compare the values.\<close>

lemma powi_scale: "q \<le> e \<Longrightarrow> (2 powi e :: real) = 2 ^ nat (e - q) * 2 powi q"
  by (simp add: power_int_add [symmetric] flip: power_int_of_nat)

lemma sgm_scale:
  "q \<le> e \<Longrightarrow> of_int (sgm s m) * 2 powi e = (of_int (sgm s m * 2 ^ nat (e - q)) * 2 powi q :: real)"
  by (simp add: power_int_add [symmetric] flip: power_int_of_nat)

lemma FFin_cmp_val:
  fixes s t m n e f
  defines "q \<equiv> min e f"
  shows "sgm s m * 2 ^ nat (e - q) < sgm t n * 2 ^ nat (f - q) \<longleftrightarrow>
      f32_val (FFin s m e) < f32_val (FFin t n f)"
    and "sgm s m * 2 ^ nat (e - q) = sgm t n * 2 ^ nat (f - q) \<longleftrightarrow>
      f32_val (FFin s m e) = f32_val (FFin t n f)"
proof -
  let ?a = "sgm s m * 2 ^ nat (e - q)" and ?b = "sgm t n * 2 ^ nat (f - q)"
  have "f32_val (FFin s m e) = of_int ?a * 2 powi q"
    and "f32_val (FFin t n f) = of_int ?b * 2 powi q"
    using sgm_scale [of q e s m] sgm_scale [of q f t n]
    by (simp_all add: f32_val_def q_def del: of_int_mult)
  then show "?a < ?b \<longleftrightarrow> f32_val (FFin s m e) < f32_val (FFin t n f)"
    and "?a = ?b \<longleftrightarrow> f32_val (FFin s m e) = f32_val (FFin t n f)"
    by (simp_all only: mult_less_cancel_right_pos mult_cancel_right of_int_less_iff of_int_eq_iff)
       (simp_all del: of_int_mult)
qed

lemma f32_lt_val: "is_fin a \<Longrightarrow> is_fin b \<Longrightarrow> a < b \<longleftrightarrow> f32_val a < f32_val b"
  by (cases a; cases b) (simp_all add: less_f32_def Let_def FFin_cmp_val)

lemma f32_eq_val: "is_fin a \<Longrightarrow> is_fin b \<Longrightarrow> f32_eq a b \<longleftrightarrow> f32_val a = f32_val b"
  by (cases a; cases b) (simp_all add: Let_def FFin_cmp_val)

lemma f32_le_val: "is_fin a \<Longrightarrow> is_fin b \<Longrightarrow> a \<le> b \<longleftrightarrow> f32_val a \<le> f32_val b"
  using f32_lt_val [of a b] f32_eq_val [of a b] by (auto simp: less_eq_f32_def f32_le_def less_f32_def)

section \<open>Algebra and signs\<close>

lemma f32_add_commute: "a + b = b + (a :: f32)"
  by (cases a; cases b) (auto simp: plus_f32_def Let_def min.commute add.commute conj_commute)

lemma f32_mul_commute: "a * b = b * (a :: f32)"
proof -
  have "(s \<noteq> t) = (t \<noteq> s)" for s t :: bool by auto
  then show ?thesis
    unfolding times_f32_def
    by (cases a; cases b) (simp_all only: f32_mul.simps mult.commute add.commute)
qed

lemma f32_sub_self: "is_fin a \<Longrightarrow> a - a = 0"
  by (cases a) (auto simp: f32_ops sgm_def)

lemma f32_less_irrefl [simp]: "\<not> a < (a :: f32)"
  by (cases a) (auto simp: less_f32_def Let_def)

text \<open>The sign bit is clear; NaN has none.\<close>

definition f32_pos :: "f32 \<Rightarrow> bool" where
  "f32_pos x = (case x of FNaN \<Rightarrow> True | FInf s \<Rightarrow> \<not> s | FFin s m e \<Rightarrow> \<not> s \<and> 0 \<le> m)"

lemma f32_pos_simps [simp]:
  "f32_pos FNaN" "f32_pos (FInf s) = (\<not> s)" "f32_pos (FFin s m e) = (\<not> s \<and> 0 \<le> m)"
  by (simp_all add: f32_pos_def)

lemma f32_round_pos: "0 \<le> n \<Longrightarrow> f32_pos (f32_round False n e)"
proof (cases "n = 0")
  case False
  assume "0 \<le> n"
  with False have "0 < n" by simp
  from round_man_bounds [OF this, of e] False show ?thesis
    by (auto simp: f32_round_alt f32_pack_def Let_def)
qed (simp add: f32_round_def)

lemma f32_add_nonneg_eq:
  fixes m n e f :: int
  defines "q \<equiv> min e f" and "A \<equiv> m * 2 ^ nat (e - min e f) + n * 2 ^ nat (f - min e f)"
  assumes "0 \<le> m" "0 \<le> n"
  shows "0 \<le> A"
    and "FFin False m e + FFin False n f = (if A = 0 then 0 else f32_round False A q)"
proof -
  show A: "0 \<le> A" using assms(3,4) by (simp add: A_def)
  have "FFin False m e + FFin False n f
      = (if A = 0 then FFin False 0 (-149) else f32_round (A < 0) \<bar>A\<bar> q)"
    by (simp add: plus_f32_def Let_def sgm_def A_def q_def)
  with A show "FFin False m e + FFin False n f = (if A = 0 then 0 else f32_round False A q)"
    by (simp add: zero_f32_def)
qed

lemma f32_add_pos: "f32_pos a \<Longrightarrow> f32_pos b \<Longrightarrow> f32_pos (a + b)"
proof (cases "is_fin a \<and> is_fin b")
  case True
  assume "f32_pos a" "f32_pos b"
  with True obtain m e n f where "a = FFin False m e" "b = FFin False n f" "0 \<le> m" "0 \<le> n"
    by (cases a; cases b) auto
  then show ?thesis
    using f32_add_nonneg_eq [of m n e f] f32_round_pos by (auto simp: zero_f32_def)
next
  case False
  assume "f32_pos a" "f32_pos b"
  with False show ?thesis by (cases a; cases b) (auto simp: plus_f32_def)
qed

lemma f32_square_pos: "f32_canonical a \<Longrightarrow> f32_pos (a * a)"
  by (cases a) (auto simp: times_f32_def f32_canonical_def f32_round_pos)

lemma f32_canonical_nonneg: "f32_canonical (FFin s m e) \<Longrightarrow> 0 \<le> m"
  by (auto simp: f32_canonical_def)

lemma f32_add_canonical: "f32_canonical a \<Longrightarrow> f32_canonical b \<Longrightarrow> f32_canonical (a + b)"
proof (cases "is_fin a \<and> is_fin b")
  case True
  have "f32_canonical (if x = 0 then FFin u 0 (-149) else f32_round (x < 0) \<bar>x\<bar> q)" for x q u
    by (simp add: f32_round_canonical) (simp add: f32_canonical_def)
  with True show ?thesis
    by (cases a; cases b) (simp_all add: plus_f32_def Let_def split del: if_split)
next
  case False
  then show ?thesis by (cases a; cases b) (simp_all add: plus_f32_def f32_canonical_def)
qed

lemma f32_neg_canonical: "f32_canonical a \<Longrightarrow> f32_canonical (- a)"
  by (cases a) (auto simp: uminus_f32_def f32_canonical_def)

lemma f32_sub_canonical: "f32_canonical a \<Longrightarrow> f32_canonical b \<Longrightarrow> f32_canonical (a - b)"
  using f32_add_canonical [of a "- b"] f32_neg_canonical [of b]
  by (simp add: minus_f32_def plus_f32_def uminus_f32_def f32_sub_def)

lemma f32_mul_canonical: "f32_canonical a \<Longrightarrow> f32_canonical b \<Longrightarrow> f32_canonical (a * b)"
proof (cases "is_fin a \<and> is_fin b")
  case True
  assume "f32_canonical a" "f32_canonical b"
  with True obtain s m e t n f where "a = FFin s m e" "b = FFin t n f" "0 \<le> m" "0 \<le> n"
    by (cases a; cases b) (auto dest: f32_canonical_nonneg)
  then show ?thesis by (simp add: times_f32_def f32_round_canonical)
next
  case False
  then show ?thesis
    by (cases a; cases b) (simp_all add: times_f32_def f32_canonical_def)
qed

lemma isqrt_nonneg: "0 \<le> isqrt n"
  by (induction n rule: isqrt.induct) (auto simp: isqrt.simps Let_def)

lemma f32_sqrt_pos: "f32_pos a \<Longrightarrow> f32_pos (f32_sqrt a)"
  by (cases a) (auto simp: Let_def f32_round_pos isqrt_nonneg)

lemma f32_pos_not_less: "f32_pos a \<Longrightarrow> \<not> a < 0"
  by (cases a) (auto simp: f32_ops sgm_def Let_def mult_less_0_iff)

text \<open>Adding a non-negative number never makes a number smaller: timers do not run backwards.\<close>

lemma f32_round_val_error:
  assumes "0 < n" and "f32_round False n e = FFin t m q"
  shows "2 * \<bar>f32_val (FFin t m q) - of_int n * 2 powi e\<bar> \<le> 2 powi round_exp n e"
proof -
  have "f32_val (FFin t m q) = of_int (round_man n e) * 2 powi round_exp n e"
    using f32_pack_val [of False "round_man n e" "round_exp n e" t m q] assms
    by (simp add: f32_round_alt f32_val_def sgm_def)
  with round_man_error [OF assms(1), of e] show ?thesis by simp
qed

lemma f32_add_grows:
  assumes "f32_pos a" "f32_pos t" "f32_canonical a" "is_fin a" "is_fin t"
  shows "a \<le> a + t"
proof -
  obtain m e n f where a: "a = FFin False m e" "0 \<le> m" and t: "t = FFin False n f" "0 \<le> n"
    using assms by (cases a; cases t) auto
  have me: "m < 2 ^ 24" "-149 \<le> e" using assms(3) a by (auto simp: f32_canonical_def)
  define q A where "q = min e f" and "A = m * 2 ^ nat (e - q) + n * 2 ^ nat (f - q)"
  have A: "0 \<le> A" and sum: "a + t = (if A = 0 then 0 else f32_round False A q)"
    using f32_add_nonneg_eq [OF a(2) t(2), of e f] a(1) t(1) by (simp_all add: A_def q_def)
  have V: "f32_val a \<le> of_int A * 2 powi q"
  proof -
    have "(2 powi e :: real) = 2 ^ nat (e - q) * 2 powi q" by (rule powi_scale) (simp add: q_def)
    then have "f32_val a = of_int (m * 2 ^ nat (e - q)) * 2 powi q"
      using a by (simp add: f32_val_def sgm_def)
    also have "\<dots> \<le> of_int A * 2 powi q"
      by (intro mult_right_mono) (use t in \<open>simp_all add: A_def del: of_int_mult\<close>)
    finally show ?thesis .
  qed
  show ?thesis
  proof (cases "A = 0")
    case True
    with V sum a show ?thesis by (simp add: f32_le_val zero_f32_def) (simp add: f32_val_def sgm_def)
  next
    case False
    with A have "0 < A" by simp
    show ?thesis
    proof (cases "f32_round False A q")
      case (FFin u m' q')
      define M Q where "M = round_man A q" and "Q = round_exp A q"
      have r: "f32_val (FFin u m' q') = of_int M * 2 powi Q"
        using f32_pack_val [of False M Q u m' q'] FFin False
        by (simp add: f32_round_alt f32_val_def sgm_def M_def Q_def)
      have err: "2 * \<bar>of_int M * 2 powi Q - of_int A * 2 powi q\<bar> \<le> (2 powi Q :: real)"
        using round_man_error [OF \<open>0 < A\<close>] by (simp add: M_def Q_def)
      have "f32_val a \<le> of_int M * 2 powi Q"
      proof (rule ccontr)
        assume "\<not> ?thesis"
        then have less: "of_int M * 2 powi Q < (of_int m * 2 powi e :: real)"
          using a by (simp add: f32_val_def sgm_def)
        have "Q \<le> e"
        proof (cases "Q = -149")
          case False
          then have "-149 < Q" by (simp add: Q_def round_exp_def)
          then have "2 ^ 23 \<le> M"
            using round_man_bounds(3) [OF \<open>0 < A\<close>] by (simp add: M_def Q_def)
          then have "(2 ^ 23 :: real) \<le> of_int M" by simp
          then have "2 ^ 23 * 2 powi Q \<le> (of_int M * 2 powi Q :: real)"
            by (intro mult_right_mono) auto
          also have "\<dots> < of_int m * 2 powi e" by (rule less)
          also have "\<dots> < 2 ^ 24 * 2 powi e"
            using me(1) by (intro mult_strict_right_mono) auto
          finally have "(2 powi (23 + Q) :: real) < 2 powi (24 + e)"
            by (simp add: power_int_add)
          then show ?thesis
            using power_int_increasing [of "24 + e" "23 + Q" "2::real"] by (cases "Q \<le> e") auto
        qed (use me(2) in simp)
        define d where "d = nat (e - Q)"
        have "(2 powi e :: real) = 2 ^ d * 2 powi Q"
          using \<open>Q \<le> e\<close> by (simp add: d_def powi_scale)
        then have m: "of_int m * 2 powi e = (of_int (m * 2 ^ d) * 2 powi Q :: real)" by simp
        from less have "real_of_int M < of_int (m * 2 ^ d)"
          unfolding m by (simp only: mult_less_cancel_right_pos zero_less_power_int zero_less_numeral)
        then have "M + 1 \<le> m * 2 ^ d" by (simp only: of_int_less_iff)
        then have "real_of_int (M + 1) \<le> of_int (m * 2 ^ d)" by (simp only: of_int_le_iff)
        then have "(of_int M + 1) * 2 powi Q \<le> (of_int (m * 2 ^ d) * 2 powi Q :: real)"
          by (intro mult_right_mono) simp_all
        also have "\<dots> \<le> of_int A * 2 powi q"
          using V a m by (simp add: f32_val_def sgm_def)
        finally have "2 powi Q \<le> of_int A * 2 powi q - (of_int M * 2 powi Q :: real)"
          by (simp add: algebra_simps)
        moreover have "0 < (2 powi Q :: real)" by simp
        moreover have "\<lbrakk>P \<le> v - r; 0 < P; 2 * \<bar>r - v\<bar> \<le> P\<rbrakk> \<Longrightarrow> False" for P v r :: real
          by (cases "r < v") (auto simp: abs_if split: if_splits)
        ultimately show False using err by metis
      qed
      then show ?thesis using sum False FFin r a by (simp add: f32_le_val)
    qed (use sum False a f32_round_pos [OF A, of q] in
        \<open>auto simp: less_eq_f32_def f32_le_def f32_round_alt f32_pack_def Let_def split: if_splits\<close>)
  qed
qed

end
