(* ===== verification/Vectors.thy ===== *)
theory Vectors
  imports Float32
begin

text \<open>
  The vector and quaternion types of \<^verbatim>\<open>src/src/common/Vector3.h\<close>. A field \<open>x\<close> of the code is
  \<open>vx\<close> of the model (a record field named \<open>x\<close> would take the name from every variable).
  The transcendental functions of \<^verbatim>\<open>math.h\<close> and \<open>strtof\<close> are the fields of a \<open>libm\<close>: their
  last bits are not fixed by the language. \<open>sqrtf\<close> is correctly rounded and defined.
\<close>

section \<open>The mathematical library\<close>

record libm =
  m_cosf :: "f32 \<Rightarrow> f32"
  m_sinf :: "f32 \<Rightarrow> f32"
  m_asinf :: "f32 \<Rightarrow> f32"
  m_atan2f :: "f32 \<Rightarrow> f32 \<Rightarrow> f32"
  m_strtof :: "string \<Rightarrow> f32"

definition PI :: f32 where
  "PI = f32_lit 31415926535897932384626433832795 (10 ^ 31)"
definition TWOPI :: f32 where "TWOPI = f32_lit 2 1 * PI"
definition HALFPI :: f32 where "HALFPI = f32_lit 1 2 * PI"
definition RAD2DEG :: f32 where "RAD2DEG = f32_lit 180 1 div PI"
definition DEG2RAD :: f32 where "DEG2RAD = PI div f32_lit 180 1"
definition EPSILON :: f32 where "EPSILON = f32_lit 5 (10 ^ 5)"
definition NATURALE :: f32 where "NATURALE = f32_lit 271828182845904523536 (10 ^ 20)"
definition F32_MAX :: f32 where "F32_MAX = f32_lit (3402823466 * 10 ^ 29) 1"

section \<open>Two-component vectors\<close>

record vec2 =
  v2x :: f32
  v2y :: f32

definition vec2_eq :: "vec2 \<Rightarrow> vec2 \<Rightarrow> bool" where
  "vec2_eq a b = (f32_eq (v2x a) (v2x b) \<and> f32_eq (v2y a) (v2y b))"

definition vec2_neq :: "vec2 \<Rightarrow> vec2 \<Rightarrow> bool" where
  "vec2_neq a b = (\<not> f32_eq (v2x a) (v2x b) \<or> \<not> f32_eq (v2y a) (v2y b))"

definition NegativeRotate :: "libm \<Rightarrow> vec2 \<Rightarrow> f32 \<Rightarrow> vec2" where
  "NegativeRotate lm v angle =
     \<lparr>v2x = v2x v * m_cosf lm angle - v2y v * m_sinf lm angle,
      v2y = v2x v * m_sinf lm angle + v2y v * m_cosf lm angle\<rparr>"

section \<open>Three-component vectors\<close>

record vec3 =
  vx :: f32
  vy :: f32
  vz :: f32

definition vec3_of :: "f32 \<Rightarrow> f32 \<Rightarrow> f32 \<Rightarrow> vec3" where
  "vec3_of a b c = \<lparr>vx = a, vy = b, vz = c\<rparr>"

definition vec3_eq :: "vec3 \<Rightarrow> vec3 \<Rightarrow> bool" where
  "vec3_eq a b =
     (f32_eq (vx a) (vx b) \<and> f32_eq (vy a) (vy b) \<and> f32_eq (vz a) (vz b))"

definition vec3_neq :: "vec3 \<Rightarrow> vec3 \<Rightarrow> bool" where
  "vec3_neq a b =
     (\<not> f32_eq (vx a) (vx b) \<or> \<not> f32_eq (vy a) (vy b) \<or> \<not> f32_eq (vz a) (vz b))"

definition Cross :: "vec3 \<Rightarrow> vec3 \<Rightarrow> vec3" where
  "Cross a b = vec3_of
     (vy a * vz b - vz a * vy b)
     (vz a * vx b - vx a * vz b)
     (vx a * vy b - vy a * vx b)"

definition vec3_add :: "vec3 \<Rightarrow> vec3 \<Rightarrow> vec3" where
  "vec3_add a b = vec3_of (vx a + vx b) (vy a + vy b) (vz a + vz b)"

definition vec3_sub :: "vec3 \<Rightarrow> vec3 \<Rightarrow> vec3" where
  "vec3_sub a b = vec3_of (vx a - vx b) (vy a - vy b) (vz a - vz b)"

definition vec3_divs :: "vec3 \<Rightarrow> f32 \<Rightarrow> vec3" where
  "vec3_divs a b = vec3_of (vx a div b) (vy a div b) (vz a div b)"

definition vec3_mul :: "vec3 \<Rightarrow> vec3 \<Rightarrow> vec3" where
  "vec3_mul a b = vec3_of (vx a * vx b) (vy a * vy b) (vz a * vz b)"

definition Dot :: "vec3 \<Rightarrow> vec3 \<Rightarrow> f32" where
  "Dot a b = vx a * vx b + vy a * vy b + vz a * vz b"

definition vec3_muls :: "vec3 \<Rightarrow> f32 \<Rightarrow> vec3" where
  "vec3_muls a b = vec3_of (vx a * b) (vy a * b) (vz a * b)"

definition Length :: "vec3 \<Rightarrow> f32" where
  "Length a = f32_sqrt (vx a * vx a + vy a * vy a + vz a * vz a)"

definition Normalize :: "vec3 \<Rightarrow> vec3" where
  "Normalize a =
     (let len = Length a in vec3_of (vx a div len) (vy a div len) (vz a div len))"

definition LengthSqr :: "vec3 \<Rightarrow> f32" where
  "LengthSqr a = vx a * vx a + vy a * vy a + vz a * vz a"

subsection \<open>The constructor from a string\<close>

text \<open>
  \<open>strsep(&now, ",")\<close> on a NUL-terminated buffer: \<open>now\<close> is an index into the buffer or null.
  The token runs to the next comma or to the end; the comma is overwritten with NUL and
  \<open>now\<close> moves behind it, or becomes null at the end of the string.
\<close>

definition c_str :: "string \<Rightarrow> string" where
  "c_str buf = takeWhile (\<lambda>c. c \<noteq> CHR 0x00) buf"

definition strsep_comma :: "string \<Rightarrow> nat option \<Rightarrow> (string \<times> nat option \<times> string) option" where
  "strsep_comma buf now =
     (case now of None \<Rightarrow> None
      | Some p \<Rightarrow>
          (let rest = c_str (drop p buf); tok = takeWhile (\<lambda>c. c \<noteq> CHR '','') rest
           in Some (if length tok < length rest
                    then (buf[p + length tok := CHR 0x00], Some (p + length tok + 1), tok)
                    else (buf, None, tok))))"

text \<open>
  \<open>Vector3(char* s)\<close>. A null pointer gives the zero vector; the test of the last character
  reads \<open>s[-1]\<close> when the string is empty. The result carries the buffer, which the
  constructor changes.
\<close>

definition vec3_parse :: "libm \<Rightarrow> string option \<Rightarrow> (vec3 \<times> string option) res" where
  "vec3_parse lm s =
     (case s of
        None \<Rightarrow> Inr (vec3_of 0 0 0, None)
      | Some buf0 \<Rightarrow>
          (let n = length (c_str buf0)
           in if n = 0 then Inl OutOfBounds
              else let buf1 = (if buf0 ! (n - 1) = CHR '';'' then buf0[n - 1 := CHR 0x00] else buf0)
              in case strsep_comma buf1 (Some 0) of
                   None \<Rightarrow> Inr (vec3_of 0 0 0, Some buf1)
                 | Some (buf2, now2, v1) \<Rightarrow>
              (case strsep_comma buf2 now2 of
                   None \<Rightarrow> Inr (vec3_of (m_strtof lm v1) 0 0, Some buf2)
                 | Some (buf3, now3, v2) \<Rightarrow>
              (case strsep_comma buf3 now3 of
                   None \<Rightarrow> Inr (vec3_of (m_strtof lm v1) (m_strtof lm v2) 0, Some buf3)
                 | Some (buf4, now4, v3) \<Rightarrow>
                     Inr (vec3_of (m_strtof lm v1) (m_strtof lm v2) (m_strtof lm v3), Some buf4)))))"

section \<open>Four components and quaternions\<close>

record vec4 =
  v4x :: f32
  v4y :: f32
  v4z :: f32
  v4w :: f32

definition vec4_eq :: "vec4 \<Rightarrow> vec4 \<Rightarrow> bool" where
  "vec4_eq a b = (f32_eq (v4x a) (v4x b) \<and> f32_eq (v4y a) (v4y b)
                \<and> f32_eq (v4z a) (v4z b) \<and> f32_eq (v4w a) (v4w b))"

definition vec4_neq :: "vec4 \<Rightarrow> vec4 \<Rightarrow> bool" where
  "vec4_neq a b = (\<not> f32_eq (v4x a) (v4x b) \<or> \<not> f32_eq (v4y a) (v4y b)
                 \<or> \<not> f32_eq (v4z a) (v4z b) \<or> \<not> f32_eq (v4w a) (v4w b))"

definition ToVector3 :: "vec4 \<Rightarrow> vec3" where
  "ToVector3 v = vec3_of (v4x v) (v4y v) (v4z v)"

record quat =
  qx :: f32
  qy :: f32
  qz :: f32
  qw :: f32

definition quat_eq :: "quat \<Rightarrow> quat \<Rightarrow> bool" where
  "quat_eq a b = (f32_eq (qx a) (qx b) \<and> f32_eq (qy a) (qy b) \<and> f32_eq (qz a) (qz b))"

definition quat_neq :: "quat \<Rightarrow> quat \<Rightarrow> bool" where
  "quat_neq a b = (\<not> f32_eq (qx a) (qx b) \<or> \<not> f32_eq (qy a) (qy b) \<or> \<not> f32_eq (qz a) (qz b))"

definition quat_axis_angle :: "libm \<Rightarrow> vec3 \<Rightarrow> f32 \<Rightarrow> quat" where
  "quat_axis_angle lm v radian =
     (let h = radian * f32_lit 1 2
      in \<lparr>qx = m_sinf lm h * vx v, qy = m_sinf lm h * vy v, qz = m_sinf lm h * vz v,
          qw = m_cosf lm h\<rparr>)"

definition GetZXY :: "libm \<Rightarrow> quat \<Rightarrow> vec3" where
  "GetZXY lm q =
     (let sp = - f32_lit 2 1 * (qy q * qz q - qw q * qx q); half = f32_lit 1 2
      in if f32_lit 9999 10000 < (if 0 < sp then sp else - sp)
         then vec3_of (HALFPI * sp)
                (m_atan2f lm (- qx q * qz q + qw q * qy q) (half - qy q * qy q - qz q * qz q)) 0
         else vec3_of (m_asinf lm sp)
                (m_atan2f lm (qx q * qz q + qw q * qy q) (half - qx q * qx q - qy q * qy q))
                (m_atan2f lm (qx q * qy q + qw q * qz q) (half - qx q * qx q - qz q * qz q)))"

definition SetZXY :: "libm \<Rightarrow> vec3 \<Rightarrow> quat" where
  "SetZXY lm xyz =
     (let h = vy xyz * f32_lit 1 2; p = vx xyz * f32_lit 1 2; b = vz xyz * f32_lit 1 2;
          ch = m_cosf lm h; sh = m_sinf lm h; cp = m_cosf lm p; sp = m_sinf lm p;
          cb = m_cosf lm b; sb = m_sinf lm b
      in \<lparr>qx = ch * sp * cb + sh * cp * sb, qy = sh * cp * cb - ch * sp * sb,
          qz = ch * cp * sb - sh * sp * cb, qw = ch * cp * cb + sh * sp * sb\<rparr>)"

definition Multiply :: "quat \<Rightarrow> quat \<Rightarrow> quat" where
  "Multiply q2 q1 =
     \<lparr>qx = qy q2 * qz q1 - qz q2 * qy q1 + qw q2 * qx q1 + qw q1 * qx q2,
      qy = qz q2 * qx q1 - qx q2 * qz q1 + qw q2 * qy q1 + qw q1 * qy q2,
      qz = qx q2 * qy q1 - qy q2 * qx q1 + qw q2 * qz q1 + qw q1 * qz q2,
      qw = qw q2 * qw q1 - qx q2 * qx q1 - qy q2 * qy q1 - qz q2 * qz q1\<rparr>"

definition TransformCoord :: "vec3 \<Rightarrow> quat \<Rightarrow> vec3" where
  "TransformCoord a q =
     (let r = \<lparr>qx = vx a, qy = vy a, qz = vz a, qw = 0\<rparr>;
          c = \<lparr>qx = - qx q, qy = - qy q, qz = - qz q, qw = qw q\<rparr>;
          r1 = Multiply r c; r2 = Multiply q r1
      in vec3_of (qx r2) (qy r2) (qz r2))"

definition vec3_rotate :: "vec3 \<Rightarrow> quat \<Rightarrow> vec3" where
  "vec3_rotate v q = TransformCoord v q"

section \<open>Lemmas\<close>

definition vec3_canonical :: "vec3 \<Rightarrow> bool" where
  "vec3_canonical v = (f32_canonical (vx v) \<and> f32_canonical (vy v) \<and> f32_canonical (vz v))"

definition vec3_finite :: "vec3 \<Rightarrow> bool" where
  "vec3_finite v = (is_fin (vx v) \<and> is_fin (vy v) \<and> is_fin (vz v))"

lemma vec3_of_sel [simp]:
  "vx (vec3_of a b c) = a" "vy (vec3_of a b c) = b" "vz (vec3_of a b c) = c"
  by (simp_all add: vec3_of_def)

lemma Length_pos: "vec3_canonical v \<Longrightarrow> f32_pos (Length v)"
  by (simp add: Length_def vec3_canonical_def f32_sqrt_pos f32_add_pos f32_square_pos)

lemma f32_zero_facts [simp]:
  "is_fin (0 :: f32)" "f32_canonical 0" "f32_pos 0" "(0 :: f32) * 0 = 0" "(0 :: f32) + 0 = 0"
  "f32_sqrt 0 = 0" "(0 :: f32) div 0 = FNaN"
  by (simp_all add: f32_eval f32_canonical_def)

lemma Length_self: "vec3_finite a \<Longrightarrow> Length (vec3_sub a a) = 0"
  by (simp add: Length_def vec3_sub_def vec3_finite_def f32_sub_self)

text \<open>A token that a comma ends, and the last one.\<close>

definition plain_token :: "string \<Rightarrow> bool" where
  "plain_token t = (CHR 0x00 \<notin> set t \<and> CHR '','' \<notin> set t)"

lemma takeWhile_all: "\<forall>x\<in>set xs. P x \<Longrightarrow> takeWhile P (xs @ ys) = xs @ takeWhile P ys"
  by (induction xs) auto

lemma plain_tokenD: "plain_token t \<Longrightarrow> \<forall>c\<in>set t. c \<noteq> CHR 0x00"
    "plain_token t \<Longrightarrow> \<forall>c\<in>set t. c \<noteq> CHR '',''"
  by (auto simp: plain_token_def)

lemma strsep_hit:
  assumes "plain_token t"
  shows "strsep_comma (pre @ t @ CHR '','' # rest) (Some (length pre))
       = Some (pre @ t @ CHR 0x00 # rest, Some (length pre + length t + 1), t)"
  using takeWhile_all [OF plain_tokenD(1) [OF assms], of "CHR '','' # rest"]
    takeWhile_all [OF plain_tokenD(2) [OF assms],
      of "CHR '','' # takeWhile (\<lambda>c. c \<noteq> CHR 0x00) rest"]
  by (simp add: strsep_comma_def c_str_def Let_def list_update_append)

lemma strsep_last:
  assumes "plain_token t"
  shows "strsep_comma (pre @ t @ CHR 0x00 # rest) (Some (length pre))
       = Some (pre @ t @ CHR 0x00 # rest, None, t)"
  using takeWhile_all [OF plain_tokenD(1) [OF assms], of "CHR 0x00 # rest"]
    takeWhile_eq_all_conv [THEN iffD2, OF plain_tokenD(2) [OF assms]]
  by (simp add: strsep_comma_def c_str_def Let_def del: takeWhile_eq_all_conv)

section \<open>Properties\<close>

text \<open>
  parsing: from the text \<open>a,b,c;\<close> the constructor of \<^verbatim>\<open>Vector3\<close> takes the three
  numbers between the commas, drops the closing semicolon, and leaves NUL bytes where the
  separators were; what follows the string in memory is untouched.
\<close>

lemma vec3_parse_three:
  assumes "plain_token a" and "plain_token b" and "plain_token c"
  shows "vec3_parse lm (Some (a @ '','' @ b @ '','' @ c @ '';'' @ CHR 0x00 # rest)) =
      Inr (vec3_of (m_strtof lm a) (m_strtof lm b) (m_strtof lm c),
           Some (a @ [CHR 0x00] @ b @ [CHR 0x00] @ c @ [CHR 0x00] @ CHR 0x00 # rest))"
proof -
  let ?txt = "a @ '','' @ b @ '','' @ c @ '';''"
  have "\<forall>x\<in>set ?txt. x \<noteq> CHR 0x00" using assms by (auto simp: plain_token_def)
  from takeWhile_all [OF this, of "CHR 0x00 # rest"]
  have n: "c_str (?txt @ CHR 0x00 # rest) = ?txt" by (simp add: c_str_def)
  have s1: "strsep_comma (a @ '','' @ b @ '','' @ c @ CHR 0x00 # CHR 0x00 # rest) (Some 0)
      = Some (a @ CHR 0x00 # b @ '','' @ c @ CHR 0x00 # CHR 0x00 # rest, Some (length a + 1), a)"
    using strsep_hit [OF assms(1), of "[]"] by simp
  have s2: "strsep_comma (a @ CHR 0x00 # b @ '','' @ c @ CHR 0x00 # CHR 0x00 # rest)
        (Some (length a + 1))
      = Some (a @ CHR 0x00 # b @ CHR 0x00 # c @ CHR 0x00 # CHR 0x00 # rest,
              Some (length a + length b + 2), b)"
    using strsep_hit [OF assms(2), of "a @ [CHR 0x00]"] by simp
  have s3: "strsep_comma (a @ CHR 0x00 # b @ CHR 0x00 # c @ CHR 0x00 # CHR 0x00 # rest)
        (Some (length a + length b + 2))
      = Some (a @ CHR 0x00 # b @ CHR 0x00 # c @ CHR 0x00 # CHR 0x00 # rest, None, c)"
    using strsep_last [OF assms(3), of "a @ CHR 0x00 # b @ [CHR 0x00]"] by simp
  have semi: "(?txt @ CHR 0x00 # rest) ! (length ?txt - 1) = CHR '';''"
    "(?txt @ CHR 0x00 # rest)[length ?txt - 1 := CHR 0x00]
      = a @ '','' @ b @ '','' @ c @ CHR 0x00 # CHR 0x00 # rest"
    by (simp_all add: nth_append list_update_append)
  show ?thesis
    using n s1 s2 s3 semi by (simp add: vec3_parse_def Let_def del: append.simps)
qed

text \<open>A library for the witnesses: \<open>strtof\<close> reads single digits, the rest is constant.\<close>

definition libm_example :: libm where
  "libm_example = \<lparr>m_cosf = (\<lambda>_. 1), m_sinf = (\<lambda>_. 0), m_asinf = (\<lambda>_. 0), m_atan2f = (\<lambda>_ _. 0),
     m_strtof = (\<lambda>s. case s of [] \<Rightarrow> 0 | c # _ \<Rightarrow> f32_of_int (of_char c - 48))\<rparr>"

text \<open>
  a length is never below zero: for vectors of ordinary (canonical) components, \<open>Length\<close>
  is not less than \<open>0\<close>, so the radius tests of the code never pass on account of a sign.
\<close>

lemma Length_not_negative:
  assumes "vec3_canonical v"
  shows "\<not> Length v < 0"
  by (rule f32_pos_not_less) (rule Length_pos [OF assms])

text \<open>
  the direction of a car that has not moved is no direction: \<open>Normalize\<close> of the zero
  vector is NaN in every component, and so is every scalar product with it.
\<close>

lemma Normalize_zero:
  "Normalize (vec3_of 0 0 0) = vec3_of FNaN FNaN FNaN
   \<and> Dot (Normalize (vec3_of 0 0 0)) d = FNaN"
proof -
  have "Normalize (vec3_of 0 0 0) = vec3_of FNaN FNaN FNaN"
    by (simp add: Normalize_def Length_def)
  moreover have "FNaN * x = FNaN" "FNaN + x = FNaN" for x
    by (simp_all add: times_f32_def plus_f32_def)
  ultimately show ?thesis by (simp add: Dot_def)
qed

text \<open>
  the equality of quaternions does not look at the fourth component: two rotations that
  differ only in \<open>w\<close> compare equal, and never unequal.
\<close>

lemma quat_eq_ignores_w:
  "quat_eq (a\<lparr>qw := u\<rparr>) (a\<lparr>qw := v\<rparr>) = quat_eq a a
   \<and> quat_neq (a\<lparr>qw := u\<rparr>) (a\<lparr>qw := v\<rparr>) = quat_neq a a"
  by (simp add: quat_eq_def quat_neq_def)

end
