(* ===== verification/GameConfig.thy ===== *)
theory GameConfig
  imports Vectors
begin

text \<open>
  The configuration of a race, \<^verbatim>\<open>game_config.h\<close> and \<^verbatim>\<open>game_config.cpp\<close>, with the plain data
  types it stores (declared in \<^verbatim>\<open>DropItemManager.h\<close> and \<^verbatim>\<open>RaceRoadChecker.h\<close>). The Lua script
  \<^verbatim>\<open>config.lua\<close> fills it through the \<open>Add...\<close> methods; the game reads it through the
  \<open>Copy...\<close> methods. Fixed arrays are lists of their declared length, and an index outside
  the array object is a fault. The two-dimensional array of drop positions is one object of
  \<open>6 * 50\<close> elements in row order: a column index past 50 reaches the following rows, as the
  address computation of the compiled code does.
\<close>

section \<open>Data\<close>

record drop_pos =
  dp_index :: int
  dp_pos :: vec3

record drop_data =
  mInitCount :: int
  mMaxCount :: int
  mType :: int
  mRefreshTime :: f32
  mCheckRange :: f32
  mSet :: bool

record brith_pose =
  bp_position :: vec3
  bp_rotation :: vec3

record checker_point =
  cp_Position :: vec3
  cp_Radius :: f32
  cp_Index :: int
  cp_EndPoint :: bool

definition DROPITEM_SET_NONE :: int where "DROPITEM_SET_NONE = 0"
definition DROPITEM_ICON :: int where "DROPITEM_ICON = 1"
definition DROPITEM_OBSTACLE :: int where "DROPITEM_OBSTACLE = 3"
definition DROPITEM_COUNT :: int where "DROPITEM_COUNT = 6"

definition MAX_DROP_COUNT :: nat where "MAX_DROP_COUNT = 64"
definition MAX_CHECK_POINT_COUNT :: nat where "MAX_CHECK_POINT_COUNT = 128"
definition MAX_BRITH_POS_COUNT :: nat where "MAX_BRITH_POS_COUNT = 40"
definition MAX_DORPITME_POS_COUNT :: nat where "MAX_DORPITME_POS_COUNT = 50"

lemmas cfg_consts = DROPITEM_SET_NONE_def DROPITEM_ICON_def DROPITEM_OBSTACLE_def
  DROPITEM_COUNT_def MAX_DROP_COUNT_def MAX_CHECK_POINT_COUNT_def MAX_BRITH_POS_COUNT_def
  MAX_DORPITME_POS_COUNT_def

record config =
  m_GameTime :: f32
  m_GameBalanceTime :: f32
  m_GameBalanceTimeForPad :: f32
  m_GameShowTimeCfg :: f32
  m_TotalCircle :: int
  m_DropItemCount :: int
  m_BrithPoseCount :: int
  m_CheckerPointCount :: int
  m_ClientPath :: string
  m_ClientExeArg :: string
  m_ClientConfig :: string
  m_DropItemData :: "drop_data list"
  m_BrithPoseArray :: "brith_pose list"
  m_CheckerPointArray :: "checker_point list"
  m_DropItemPositionArray :: "drop_pos list"
  m_DropItemPositionCount :: "int list"

section \<open>Filling the configuration\<close>

definition AddBrithPose :: "vec3 \<Rightarrow> vec3 \<Rightarrow> config \<Rightarrow> config res" where
  "AddBrithPose p r c =
     rbind (arr_set (m_BrithPoseArray c) (m_BrithPoseCount c) \<lparr>bp_position = p, bp_rotation = r\<rparr>)
       (\<lambda>a. Inr (c\<lparr>m_BrithPoseArray := a, m_BrithPoseCount := m_BrithPoseCount c + 1\<rparr>))"

definition pos_index :: "int \<Rightarrow> int \<Rightarrow> int" where
  "pos_index type column = type * int MAX_DORPITME_POS_COUNT + column"

definition AddDropItemPosition :: "int \<Rightarrow> int \<Rightarrow> vec3 \<Rightarrow> config \<Rightarrow> config res" where
  "AddDropItemPosition type subType p c =
     (if DROPITEM_SET_NONE < type \<and> type < DROPITEM_COUNT then
        rbind (arr_get (m_DropItemPositionCount c) type) (\<lambda>dropCount.
        rbind (arr_set (m_DropItemPositionArray c) (pos_index type dropCount)
                 \<lparr>dp_index = subType, dp_pos = p\<rparr>) (\<lambda>a.
        rbind (arr_set (m_DropItemPositionCount c) type (dropCount + 1)) (\<lambda>n.
        Inr (c\<lparr>m_DropItemPositionArray := a, m_DropItemPositionCount := n\<rparr>))))
      else Inr c)"

definition AddCheckPoint :: "int \<Rightarrow> f32 \<Rightarrow> vec3 \<Rightarrow> bool \<Rightarrow> config \<Rightarrow> config res" where
  "AddCheckPoint index r p isend c =
     (if 64 < index \<or> index < 0 then Inr c
      else if m_CheckerPointCount c < int MAX_CHECK_POINT_COUNT then
        rbind (arr_set (m_CheckerPointArray c) (m_CheckerPointCount c)
                 \<lparr>cp_Position = p, cp_Radius = r, cp_Index = index, cp_EndPoint = isend\<rparr>) (\<lambda>a.
        Inr (c\<lparr>m_CheckerPointArray := a, m_CheckerPointCount := m_CheckerPointCount c + 1\<rparr>))
      else Inr c)"

text \<open>\<open>AddDropItem\<close> returns a pointer to the new element: its index.\<close>

definition AddDropItem :: "config \<Rightarrow> (int \<times> config) res" where
  "AddDropItem c =
     rbind (arr_get (m_DropItemData c) (m_DropItemCount c)) (\<lambda>d.
     rbind (arr_set (m_DropItemData c) (m_DropItemCount c) (d\<lparr>mSet := True\<rparr>)) (\<lambda>a.
     Inr (m_DropItemCount c, c\<lparr>m_DropItemData := a, m_DropItemCount := m_DropItemCount c + 1\<rparr>)))"

definition drop_data_zero :: drop_data where
  "drop_data_zero = \<lparr>mInitCount = 0, mMaxCount = 0, mType = 0, mRefreshTime = 0, mCheckRange = 0,
     mSet = False\<rparr>"

text \<open>
  \<open>Init\<close>: the counters and the drop item table are cleared, then the script runs. \<open>script\<close> is
  \<open>None\<close> when \<open>AutoFilePath\<close> does not find it; otherwise it is the effect of running it on
  the configuration, with \<open>False\<close> for a Lua error.
\<close>

definition config_Init :: "(config \<Rightarrow> (bool \<times> config) res) option \<Rightarrow> config \<Rightarrow> (bool \<times> config) res" where
  "config_Init script c =
     (let c1 = c\<lparr>m_DropItemPositionCount := replicate (nat DROPITEM_COUNT) 0,
                 m_DropItemData := replicate MAX_DROP_COUNT drop_data_zero,
                 m_BrithPoseCount := 0, m_DropItemCount := 0, m_CheckerPointCount := 0,
                 m_ClientPath := [], m_ClientExeArg := [], m_ClientConfig := []\<rparr>
      in case script of
           None \<Rightarrow> Inr (True, c1)
         | Some f \<Rightarrow> rbind (f c1) (\<lambda>(ok, c2). Inr (if ok then (True, c2) else (False, c2))))"

section \<open>Reading the configuration\<close>

definition CopyBrithPose :: "int \<Rightarrow> config \<Rightarrow> brith_pose res" where
  "CopyBrithPose index c =
     rbind (c_mod index (m_BrithPoseCount c)) (\<lambda>i. arr_get (m_BrithPoseArray c) i)"

text \<open>\<open>memcpy(dest, src, n)\<close> on arrays, counted in elements.\<close>

definition arr_copy :: "'a list \<Rightarrow> 'a list \<Rightarrow> int \<Rightarrow> 'a list res" where
  "arr_copy dest src n =
     (if 0 \<le> n \<and> n \<le> int (length dest) \<and> n \<le> int (length src)
      then Inr (take (nat n) src @ drop (nat n) dest) else Inl OutOfBounds)"

definition CopyAllDropItemData :: "drop_data list \<Rightarrow> config \<Rightarrow> (drop_data list \<times> int) res" where
  "CopyAllDropItemData dest c =
     rbind (arr_copy dest (m_DropItemData c) (m_DropItemCount c)) (\<lambda>d. Inr (d, m_DropItemCount c))"

text \<open>The result says whether \<open>p\<close> was written; when it was not, it is the caller's old value.\<close>

definition CopyDropItemPosition :: "int \<Rightarrow> int \<Rightarrow> drop_pos \<Rightarrow> config \<Rightarrow> (bool \<times> drop_pos) res" where
  "CopyDropItemPosition type index p c =
     (if DROPITEM_SET_NONE < type \<and> type < DROPITEM_COUNT then
        rbind (arr_get (m_DropItemPositionCount c) type) (\<lambda>n.
        rbind (c_mod index n) (\<lambda>i.
        rbind (arr_get (m_DropItemPositionArray c) (pos_index type i)) (\<lambda>q. Inr (True, q))))
      else Inr (False, p))"

definition CopyCheckPointData ::
  "checker_point list \<Rightarrow> int \<Rightarrow> config \<Rightarrow> (bool \<times> checker_point list \<times> int) res" where
  "CopyCheckPointData dest sz c =
     (if sz < m_CheckerPointCount c then Inr (False, dest, sz)
      else rbind (arr_copy dest (m_CheckerPointArray c) (m_CheckerPointCount c)) (\<lambda>d.
           Inr (True, d, m_CheckerPointCount c)))"

section \<open>The calls of a script\<close>

datatype cfg_call =
    CallBrithPose vec3 vec3
  | CallDropItemPosition int int vec3
  | CallCheckPoint int f32 vec3 bool
  | CallDropItem int int int f32 f32  \<comment> \<open>\<open>AddDropItem\<close>, then type, init, max, range, refresh\<close>

fun run_call :: "cfg_call \<Rightarrow> config \<Rightarrow> config res" where
  "run_call (CallBrithPose p r) c = AddBrithPose p r c"
| "run_call (CallDropItemPosition t s p) c = AddDropItemPosition t s p c"
| "run_call (CallCheckPoint i r p e) c = AddCheckPoint i r p e c"
| "run_call (CallDropItem t n m rg rf) c =
     rbind (AddDropItem c) (\<lambda>(i, c1).
     rbind (arr_get (m_DropItemData c1) i) (\<lambda>d.
     rbind (arr_set (m_DropItemData c1) i
              (d\<lparr>mType := t, mInitCount := n, mMaxCount := m, mCheckRange := rg, mRefreshTime := rf\<rparr>))
       (\<lambda>a. Inr (c1\<lparr>m_DropItemData := a\<rparr>))))"

section \<open>Well-formed configurations\<close>

text \<open>The shape that the declarations fix, and the bounds that the \<open>Add...\<close> methods must keep.\<close>

definition cfg_shape :: "config \<Rightarrow> bool" where
  "cfg_shape c =
     (length (m_DropItemData c) = MAX_DROP_COUNT
      \<and> length (m_BrithPoseArray c) = MAX_BRITH_POS_COUNT
      \<and> length (m_CheckerPointArray c) = MAX_CHECK_POINT_COUNT
      \<and> length (m_DropItemPositionArray c) = nat DROPITEM_COUNT * MAX_DORPITME_POS_COUNT
      \<and> length (m_DropItemPositionCount c) = nat DROPITEM_COUNT)"

definition cfg_ok :: "config \<Rightarrow> bool" where
  "cfg_ok c =
     (cfg_shape c
      \<and> 0 \<le> m_DropItemCount c \<and> m_DropItemCount c \<le> int MAX_DROP_COUNT
      \<and> 0 \<le> m_BrithPoseCount c \<and> m_BrithPoseCount c \<le> int MAX_BRITH_POS_COUNT
      \<and> 0 \<le> m_CheckerPointCount c \<and> m_CheckerPointCount c \<le> int MAX_CHECK_POINT_COUNT
      \<and> (\<forall>p \<in> set (take (nat (m_CheckerPointCount c)) (m_CheckerPointArray c)).
            0 \<le> cp_Index p \<and> cp_Index p \<le> 64)
      \<and> (\<forall>n \<in> set (m_DropItemPositionCount c). 0 \<le> n))"

lemma cfg_okD:
  assumes "cfg_ok c"
  shows "cfg_shape c" "0 \<le> m_DropItemCount c" "m_DropItemCount c \<le> 64"
    "0 \<le> m_BrithPoseCount c" "m_BrithPoseCount c \<le> 40"
    "0 \<le> m_CheckerPointCount c" "m_CheckerPointCount c \<le> 128"
    "length (m_DropItemData c) = 64" "length (m_BrithPoseArray c) = 40"
    "length (m_CheckerPointArray c) = 128" "length (m_DropItemPositionArray c) = 300"
    "length (m_DropItemPositionCount c) = 6"
    "\<And>p. p \<in> set (take (nat (m_CheckerPointCount c)) (m_CheckerPointArray c)) \<Longrightarrow>
       0 \<le> cp_Index p \<and> cp_Index p \<le> 64"
    "\<And>n. n \<in> set (m_DropItemPositionCount c) \<Longrightarrow> 0 \<le> n"
  using assms by (auto simp: cfg_ok_def cfg_shape_def cfg_consts)

text \<open>Every method keeps the shape and the bounds, whatever the script passes.\<close>

lemma set_update_bound:
  "(\<forall>x\<in>set xs. P x) \<Longrightarrow> P y \<Longrightarrow> (\<forall>x\<in>set (xs[i := y]). P x)"
  using set_update_subset_insert [of xs i y] by blast

lemma AddBrithPose_ok: "cfg_ok c \<Longrightarrow> AddBrithPose p r c = Inr c' \<Longrightarrow> cfg_ok c'"
  by (auto simp: AddBrithPose_def cfg_ok_def cfg_shape_def cfg_consts dest!: arr_set_InrD)

lemma AddDropItemPosition_ok:
  assumes "cfg_ok c" and "AddDropItemPosition t s p c = Inr c'"
  shows "cfg_ok c'"
proof (cases "DROPITEM_SET_NONE < t \<and> t < DROPITEM_COUNT")
  case True
  with assms(2) obtain n a m where n: "arr_get (m_DropItemPositionCount c) t = Inr n"
    and a: "arr_set (m_DropItemPositionArray c) (pos_index t n) \<lparr>dp_index = s, dp_pos = p\<rparr> = Inr a"
    and m: "arr_set (m_DropItemPositionCount c) t (n + 1) = Inr m"
    and c': "c' = c\<lparr>m_DropItemPositionArray := a, m_DropItemPositionCount := m\<rparr>"
    by (auto simp: AddDropItemPosition_def)
  have pos: "\<forall>k\<in>set (m_DropItemPositionCount c). 0 \<le> k" using assms(1) by (simp add: cfg_ok_def)
  have "n \<in> set (m_DropItemPositionCount c)" using arr_get_InrD [OF n] by (auto intro: nth_mem)
  then have "0 \<le> n" using pos by blast
  then have "0 \<le> n + 1" by simp
  with set_update_bound [OF pos this] arr_set_InrD [OF m] have "\<forall>k\<in>set m. 0 \<le> k" by blast
  moreover have "length a = length (m_DropItemPositionArray c)"
    "length m = length (m_DropItemPositionCount c)"
    using arr_set_InrD [OF a] arr_set_InrD [OF m] by auto
  ultimately show ?thesis using assms(1) by (simp add: c' cfg_ok_def cfg_shape_def)
next
  case False
  then have "AddDropItemPosition t s p c = Inr c"
    unfolding AddDropItemPosition_def by (rule if_not_P)
  then have "c' = c" using assms(2) by simp
  with assms(1) show ?thesis by simp
qed

lemma AddCheckPoint_total: "cfg_ok c \<Longrightarrow> \<exists>c'. AddCheckPoint i r p e c = Inr c' \<and> cfg_ok c'"
proof (cases "64 < i \<or> i < 0 \<or> \<not> m_CheckerPointCount c < 128")
  case False
  assume ok: "cfg_ok c"
  define k q where "k = nat (m_CheckerPointCount c)"
    and "q = \<lparr>cp_Position = p, cp_Radius = r, cp_Index = i, cp_EndPoint = e\<rparr>"
  have k: "m_CheckerPointCount c = int k" "k < 128" "nat (1 + int k) = Suc k"
    using cfg_okD(6) [OF ok] False by (auto simp: k_def)
  have l: "length (m_CheckerPointArray c) = 128" using cfg_okD(10) [OF ok] .
  have "take (Suc k) ((m_CheckerPointArray c)[k := q]) = take k (m_CheckerPointArray c) @ [q]"
    using k l by (simp add: take_Suc_conv_app_nth take_update_cancel)
  then show ?thesis using False ok k l
    by (auto simp: AddCheckPoint_def cfg_consts cfg_ok_def cfg_shape_def q_def arr_set_def add.commute)
qed (auto simp: AddCheckPoint_def cfg_consts)

lemma AddDropItem_ok: "cfg_ok c \<Longrightarrow> AddDropItem c = Inr (i, c') \<Longrightarrow> cfg_ok c'"
  by (auto simp: AddDropItem_def cfg_ok_def cfg_shape_def cfg_consts
      dest!: arr_set_InrD arr_get_InrD)

lemma run_call_ok:
  assumes "cfg_ok c" "run_call x c = Inr c'"
  shows "cfg_ok c'"
proof (cases x)
  case (CallBrithPose p r)
  with assms show ?thesis using AddBrithPose_ok by simp
next
  case (CallDropItemPosition t s p)
  with assms show ?thesis using AddDropItemPosition_ok by simp
next
  case (CallCheckPoint i r p e)
  with assms AddCheckPoint_total [OF assms(1), of i r p e] show ?thesis by auto
next
  case (CallDropItem t n m rg rf)
  with assms(2) obtain i c1 d a where 1: "AddDropItem c = Inr (i, c1)"
    and 2: "arr_set (m_DropItemData c1) i d = Inr a" "c' = c1\<lparr>m_DropItemData := a\<rparr>"
    by (auto split: prod.splits)
  have "cfg_ok c1" by (rule AddDropItem_ok [OF assms(1) 1])
  moreover have "length a = length (m_DropItemData c1)" using arr_set_InrD [OF 2(1)] by auto
  ultimately show ?thesis by (simp add: 2(2) cfg_ok_def cfg_shape_def)
qed

text \<open>A run of position calls of one type, in closed form.\<close>

definition row_update :: "config \<Rightarrow> int \<Rightarrow> nat \<Rightarrow> drop_pos list \<Rightarrow> config" where
  "row_update c t n ps =
     (let k = nat (pos_index t (int n))
      in c\<lparr>m_DropItemPositionArray :=
             take k (m_DropItemPositionArray c) @ ps @ drop (k + length ps) (m_DropItemPositionArray c),
           m_DropItemPositionCount := (m_DropItemPositionCount c)[nat t := int (n + length ps)]\<rparr>)"

lemma add_positions:
  assumes "cfg_shape c" "0 < t" "t < 6" "m_DropItemPositionCount c ! nat t = int n"
    and "nat t * 50 + n + length ps \<le> 300"
  shows "foldE (\<lambda>q. AddDropItemPosition t (dp_index q) (dp_pos q)) ps c = Inr (row_update c t n ps)"
  using assms
proof (induction ps arbitrary: c n)
  case Nil
  let ?k = "nat (pos_index t (int n))"
  have "(m_DropItemPositionCount c)[nat t := int n] = m_DropItemPositionCount c"
    using Nil.prems(4) by (metis list_update_id)
  then show ?case by (simp add: row_update_def Let_def)
next
  case (Cons q ps)
  let ?k = "nat t * 50 + n"
  have k: "nat (pos_index t (int n)) = ?k" "pos_index t (int n) = int ?k"
    "nat (pos_index t (1 + int n)) = Suc ?k"
    using Cons.prems(2) by (auto simp: pos_index_def cfg_consts nat_add_distrib nat_mult_distrib)
  have l: "length (m_DropItemPositionArray c) = 300" "length (m_DropItemPositionCount c) = 6"
    using Cons.prems(1) by (auto simp: cfg_shape_def cfg_consts)
  define c1 where "c1 = c\<lparr>m_DropItemPositionArray := (m_DropItemPositionArray c)[?k := q],
      m_DropItemPositionCount := (m_DropItemPositionCount c)[nat t := int (Suc n)]\<rparr>"
  have step: "AddDropItemPosition t (dp_index q) (dp_pos q) c = Inr c1"
  proof -
    have "arr_get (m_DropItemPositionCount c) t = Inr (int n)"
      using Cons.prems l by (simp add: arr_get_def)
    moreover have "arr_set (m_DropItemPositionArray c) (int ?k) q
        = Inr ((m_DropItemPositionArray c)[?k := q])"
      using Cons.prems(5) l by (intro arr_set_nat) simp
    moreover have "arr_set (m_DropItemPositionCount c) t (int n + 1)
        = Inr ((m_DropItemPositionCount c)[nat t := int (Suc n)])"
      using Cons.prems l by (simp add: arr_set_def add.commute)
    moreover obtain u v where "q = \<lparr>dp_index = u, dp_pos = v\<rparr>" by (cases q)
    ultimately show ?thesis
      using Cons.prems(2,3) by (simp add: AddDropItemPosition_def k(2) cfg_consts c1_def)
  qed
  have "foldE (\<lambda>q. AddDropItemPosition t (dp_index q) (dp_pos q)) ps c1
      = Inr (row_update c1 t (Suc n) ps)"
    by (rule Cons.IH) (use Cons.prems l in \<open>auto simp: c1_def cfg_shape_def\<close>)
  moreover have "row_update c1 t (Suc n) ps = row_update c t n (q # ps)"
    using Cons.prems l k
    by (simp add: row_update_def Let_def c1_def take_Suc_conv_app_nth drop_update_cancel)
  ultimately show ?case using step by simp
qed

text \<open>Reading a row back.\<close>

lemma CopyDropItemPosition_row:
  assumes "cfg_shape c" "0 < t" "t < 6" "m_DropItemPositionCount c ! nat t = int n" "0 < n"
    and "nat t * 50 + n \<le> 300"
  shows "CopyDropItemPosition t (int i) p c
       = Inr (True, m_DropItemPositionArray c ! (nat t * 50 + i mod n))"
proof -
  have l: "length (m_DropItemPositionArray c) = 300" "length (m_DropItemPositionCount c) = 6"
    using assms(1) by (auto simp: cfg_shape_def cfg_consts)
  have b: "nat t * 50 + i mod n < 300" using assms(5,6) mod_less_divisor [of n i] by linarith
  have "arr_get (m_DropItemPositionCount c) t = Inr (int n)"
    using assms l by (simp add: arr_get_def)
  moreover have "c_mod (int i) (int n) = Inr (int (i mod n))"
    using assms(5) by (simp add: c_mod_nonneg zmod_int)
  moreover have "pos_index t (int (i mod n)) = int (nat t * 50 + i mod n)"
    using assms(2) by (simp add: pos_index_def cfg_consts)
  ultimately show ?thesis
    using assms(2,3) b l by (simp add: CopyDropItemPosition_def cfg_consts del: of_nat_add of_nat_mult)
qed

lemma row_update_shape:
  "cfg_shape c \<Longrightarrow> 0 < t \<Longrightarrow> nat t * 50 + n + length ps \<le> 300 \<Longrightarrow> cfg_shape (row_update c t n ps)"
  by (auto simp: cfg_shape_def row_update_def Let_def cfg_consts pos_index_def
      nat_add_distrib nat_mult_distrib)

lemma row_update_nth:
  assumes "cfg_shape c" "0 < t" "nat t * 50 + n + length ps \<le> 300" "k < 300"
  shows "m_DropItemPositionArray (row_update c t n ps) ! k =
     (if nat t * 50 + n \<le> k \<and> k < nat t * 50 + n + length ps then ps ! (k - (nat t * 50 + n))
      else m_DropItemPositionArray c ! k)"
proof -
  have l: "length (m_DropItemPositionArray c) = 300"
    using assms(1) by (auto simp: cfg_shape_def cfg_consts)
  have k: "nat (pos_index t (int n)) = nat t * 50 + n"
    using assms(2) by (simp add: pos_index_def cfg_consts nat_add_distrib nat_mult_distrib)
  show ?thesis using assms(3,4) l
    by (auto simp: row_update_def Let_def k nth_append)
qed

lemma row_update_count:
  "cfg_shape c \<Longrightarrow> 0 < t \<Longrightarrow> t < 6 \<Longrightarrow> 0 < u \<Longrightarrow> u < 6 \<Longrightarrow>
     m_DropItemPositionCount (row_update c t n ps) ! nat u =
       (if u = t then int (n + length ps) else m_DropItemPositionCount c ! nat u)"
  by (auto simp: row_update_def Let_def cfg_shape_def cfg_consts nth_list_update)

abbreviation add_all_positions :: "int \<Rightarrow> drop_pos list \<Rightarrow> config \<Rightarrow> config res" where
  "add_all_positions t ps c \<equiv>
     foldE (\<lambda>q. AddDropItemPosition t (dp_index q) (dp_pos q)) ps c"

text \<open>An empty configuration of the declared shape, for the witnesses.\<close>

definition config_blank :: config where
  "config_blank = \<lparr>m_GameTime = 0, m_GameBalanceTime = 0, m_GameBalanceTimeForPad = 0,
     m_GameShowTimeCfg = 0, m_TotalCircle = 0, m_DropItemCount = 0, m_BrithPoseCount = 0,
     m_CheckerPointCount = 0, m_ClientPath = [], m_ClientExeArg = [], m_ClientConfig = [],
     m_DropItemData = replicate 64 drop_data_zero,
     m_BrithPoseArray = replicate 40 \<lparr>bp_position = vec3_of 0 0 0, bp_rotation = vec3_of 0 0 0\<rparr>,
     m_CheckerPointArray = replicate 128
       \<lparr>cp_Position = vec3_of 0 0 0, cp_Radius = 0, cp_Index = 0, cp_EndPoint = False\<rparr>,
     m_DropItemPositionArray = replicate 300 \<lparr>dp_index = 0, dp_pos = vec3_of 0 0 0\<rparr>,
     m_DropItemPositionCount = replicate 6 0\<rparr>"

lemma config_blank_ok: "cfg_ok config_blank"
  by (simp add: config_blank_def cfg_ok_def cfg_shape_def cfg_consts)

lemma config_blank_shape: "cfg_shape config_blank"
  using config_blank_ok by (simp add: cfg_ok_def)

lemma config_blank_count: "i < 6 \<Longrightarrow> m_DropItemPositionCount config_blank ! i = 0"
  by (simp add: config_blank_def)

section \<open>Properties\<close>

text \<open>The script that makes the given calls.\<close>

definition script_of :: "cfg_call list \<Rightarrow> (config \<Rightarrow> (bool \<times> config) res) option" where
  "script_of calls = Some (\<lambda>c1. rbind (foldE run_call calls c1) (\<lambda>c2. Inr (True, c2)))"

lemma config_Init_ok:
  assumes "cfg_shape c" and "config_Init (script_of calls) c = Inr (ok, c')"
  shows "cfg_ok c'"
proof -
  define c1 where "c1 = c\<lparr>m_DropItemPositionCount := replicate (nat DROPITEM_COUNT) 0,
      m_DropItemData := replicate MAX_DROP_COUNT drop_data_zero, m_BrithPoseCount := 0,
      m_DropItemCount := 0, m_CheckerPointCount := 0, m_ClientPath := [], m_ClientExeArg := [],
      m_ClientConfig := []\<rparr>"
  have "cfg_ok c1" using assms(1) by (simp add: c1_def cfg_ok_def cfg_shape_def cfg_consts)
  moreover have "foldE run_call calls c1 = Inr c'"
    using assms(2) by (auto simp: config_Init_def script_of_def Let_def c1_def [symmetric])
  ultimately show ?thesis
    using foldE_invariant [of run_call calls c1 c' cfg_ok] run_call_ok by blast
qed

text \<open>
  C16: whatever calls a configuration script makes, if none of them faults the configuration
  is well formed afterwards: the arrays have their declared sizes, the counters of item kinds, of
  birth places and of check points are neither negative nor past their arrays, every check point
  index is between 0 and 64, and no counter of positions of a kind is negative. (The counters of
  positions are not bounded by the 50 places of a kind.)
\<close>

theorem script_keeps_config_ok:
  assumes "cfg_shape c" and "config_Init (Some (\<lambda>c1. rbind (foldE run_call calls c1)
      (\<lambda>c2. Inr (True, c2)))) c = Inr (ok, c')"
  shows "cfg_ok c'"
  using config_Init_ok [of c calls] assms by (simp add: script_of_def)

theorem script_keeps_config_ok_witness:
  "\<exists>c'. config_Init (Some (\<lambda>c1. rbind (foldE run_call
       [CallCheckPoint 0 1 (vec3_of 0 0 0) False, CallDropItemPosition 1 1 (vec3_of 0 0 0)] c1)
       (\<lambda>c2. Inr (True, c2)))) config_blank = Inr (True, c') \<and> cfg_ok c'"
proof -
  let ?s = "Some (\<lambda>c1. rbind (foldE run_call
       [CallCheckPoint 0 1 (vec3_of 0 0 0) False, CallDropItemPosition 1 1 (vec3_of 0 0 0)] c1)
       (\<lambda>c2. Inr (True, c2)))"
  obtain c' where "config_Init ?s config_blank = Inr (True, c')"
    by (auto simp: config_Init_def Let_def AddCheckPoint_def AddDropItemPosition_def cfg_consts
        config_blank_def arr_get_def arr_set_def pos_index_def)
  with script_keeps_config_ok [OF config_blank_shape this] show ?thesis by blast
qed

text \<open>
  positions come back as they were added: while a type has at most 50 positions, the
  game's \<open>i\<close>-th request for that type gets the \<open>i\<close>-th added position, wrapping around, and the
  positions of every other type (of at most 50) are what they were.
\<close>

lemma positions_roundtrip:
  assumes "cfg_shape c" "0 < t" "t < 6" "m_DropItemPositionCount c ! nat t = 0"
    and "0 < length ps" "length ps \<le> 50"
  shows "\<exists>c'. add_all_positions t ps c = Inr c'
    \<and> (\<forall>i p. CopyDropItemPosition t (int i) p c' = Inr (True, ps ! (i mod length ps)))
    \<and> (\<forall>u n i p. 0 < u \<longrightarrow> u < 6 \<longrightarrow> u \<noteq> t \<longrightarrow> m_DropItemPositionCount c ! nat u = int n \<longrightarrow>
          0 < n \<longrightarrow> n \<le> 50 \<longrightarrow>
          CopyDropItemPosition u (int i) p c' = CopyDropItemPosition u (int i) p c)"
proof (intro exI conjI allI impI)
  let ?c = "row_update c t 0 ps"
  have fit: "nat t * 50 + 0 + length ps \<le> 300" using assms(2,3,6) by auto
  note sh = row_update_shape [OF assms(1,2) fit] and nth = row_update_nth [OF assms(1,2) fit]
  show "add_all_positions t ps c = Inr ?c"
    by (rule add_positions) (use assms fit in simp_all)
  show "CopyDropItemPosition t (int i) p ?c = Inr (True, ps ! (i mod length ps))" for i p
  proof -
    have "i mod length ps < length ps" using assms(5) by simp
    then show ?thesis
      using CopyDropItemPosition_row [OF sh assms(2,3), of "length ps" i p] fit assms(5)
        row_update_count [OF assms(1-3,2,3), of 0 ps] by (simp add: nth)
  qed
  fix u n i p
  assume u: "0 < u" "u < 6" "u \<noteq> t" and n: "m_DropItemPositionCount c ! nat u = int n" "0 < n" "n \<le> 50"
  have k: "nat u * 50 + i mod n < nat u * 50 + 50" "nat u * 50 + 50 \<le> 300"
    using n u mod_less_divisor [OF n(2), of i] by (auto simp del: mod_less_divisor)
  moreover have "nat u * 50 + 50 \<le> nat t * 50 \<or> nat t * 50 + 50 \<le> nat u * 50"
    using u assms(2) by auto
  moreover have "m_DropItemPositionArray ?c ! (nat u * 50 + i mod n)
      = m_DropItemPositionArray c ! (nat u * 50 + i mod n)"
    using nth [of "nat u * 50 + i mod n"] k calculation(3) assms(6) by auto
  ultimately show "CopyDropItemPosition u (int i) p ?c = CopyDropItemPosition u (int i) p c"
    using CopyDropItemPosition_row [OF sh u(1,2), of n i p] u n assms(6)
      CopyDropItemPosition_row [OF assms(1) u(1,2) n(1,2), of i p]
      row_update_count [OF assms(1-3) u(1,2), of 0 ps]
    by simp
qed

text \<open>
  C17: with more than 100 coins the obstacles overwrite the coins: after \<open>n > 100\<close> positions of
  type 1 and then some of type 3, as the shipped script adds 126 and 10, no call faults, and
  the game's coin number \<open>100 + j\<close> is placed at the \<open>j\<close>-th obstacle and carries its index.
\<close>

theorem obstacles_overwrite_coins:
  assumes "cfg_shape c" "m_DropItemPositionCount c ! 1 = 0" "m_DropItemPositionCount c ! 3 = 0"
    and "100 < length coins" "length coins \<le> 250" "length obstacles \<le> 50"
    and "j < length obstacles" "100 + j < length coins"
  shows "\<exists>c'. rbind (add_all_positions DROPITEM_ICON coins c)
          (add_all_positions DROPITEM_OBSTACLE obstacles) = Inr c'
      \<and> CopyDropItemPosition DROPITEM_ICON (int (100 + j)) p c' = Inr (True, obstacles ! j)"
proof (intro exI conjI)
  let ?c = "row_update c 1 0 coins" and ?d = "row_update (row_update c 1 0 coins) 3 0 obstacles"
  have fit: "nat 1 * 50 + 0 + length coins \<le> 300" "nat 3 * 50 + 0 + length obstacles \<le> 300"
    using assms by auto
  have sh: "cfg_shape ?c" using row_update_shape [OF assms(1) _ fit(1)] by simp
  have sd: "cfg_shape ?d" using row_update_shape [OF sh _ fit(2)] by simp
  have n3: "m_DropItemPositionCount ?c ! nat 3 = 0"
    using row_update_count [OF assms(1), of 1 3 0 coins] assms(3) by simp
  have n1: "m_DropItemPositionCount ?d ! nat 1 = int (length coins)"
    using row_update_count [OF sh, of 3 1 0 obstacles] row_update_count [OF assms(1), of 1 1 0 coins]
    by simp
  have "add_all_positions 1 coins c = Inr ?c"
    by (rule add_positions) (use assms fit in simp_all)
  moreover have "add_all_positions 3 obstacles ?c = Inr ?d"
    by (rule add_positions) (use sh n3 fit in simp_all)
  ultimately show "rbind (add_all_positions DROPITEM_ICON coins c)
      (add_all_positions DROPITEM_OBSTACLE obstacles) = Inr ?d"
    by (simp add: cfg_consts)
  have "coins \<noteq> []" using assms(4) by auto
  then show "CopyDropItemPosition DROPITEM_ICON (int (100 + j)) p ?d = Inr (True, obstacles ! j)"
    using CopyDropItemPosition_row [OF sd, of 1 "length coins" "100 + j" p] n1 assms(4-8)
      row_update_nth [OF sh _ fit(2), of "150 + j"]
    by (simp add: cfg_consts del: of_nat_add)
qed

theorem obstacles_overwrite_coins_witness:
  "\<exists>c'. rbind (add_all_positions 1 (replicate 126 \<lparr>dp_index = 1, dp_pos = vec3_of 1 1 1\<rparr>) config_blank)
          (add_all_positions 3 (replicate 10 \<lparr>dp_index = 2, dp_pos = vec3_of 0 0 0\<rparr>)) = Inr c'
      \<and> CopyDropItemPosition 1 103 \<lparr>dp_index = 0, dp_pos = vec3_of 0 0 0\<rparr> c'
        = Inr (True, \<lparr>dp_index = 2, dp_pos = vec3_of 0 0 0\<rparr>)"
  using obstacles_overwrite_coins [OF config_blank_shape,
      of "replicate 126 \<lparr>dp_index = 1, dp_pos = vec3_of 1 1 1\<rparr>"
         "replicate 10 \<lparr>dp_index = 2, dp_pos = vec3_of 0 0 0\<rparr>" 3 "\<lparr>dp_index = 0, dp_pos = vec3_of 0 0 0\<rparr>"]
  by (simp add: config_blank_count cfg_consts)

text \<open>
  the birth pose table has no bound check: adding a pose succeeds while fewer than 40 are
  stored, and the next call writes outside the array.
\<close>

lemma brith_pose_overflow:
  assumes "cfg_ok c"
  shows "(AddBrithPose p r c = Inl OutOfBounds \<longleftrightarrow> m_BrithPoseCount c = 40)
    \<and> (m_BrithPoseCount c < 40 \<longrightarrow> (\<exists>c'. AddBrithPose p r c = Inr c' \<and>
           CopyBrithPose (m_BrithPoseCount c) c' = Inr \<lparr>bp_position = p, bp_rotation = r\<rparr>))"
proof (intro conjI impI)
  note ok = cfg_okD [OF assms]
  show "AddBrithPose p r c = Inl OutOfBounds \<longleftrightarrow> m_BrithPoseCount c = 40"
    using ok(4,5,9) by (auto simp: AddBrithPose_def arr_set_def)
  assume lt: "m_BrithPoseCount c < 40"
  have "m_BrithPoseCount c mod (m_BrithPoseCount c + 1) = m_BrithPoseCount c"
    using ok(4) by (intro mod_pos_pos_trivial) auto
  then show "\<exists>c'. AddBrithPose p r c = Inr c' \<and>
      CopyBrithPose (m_BrithPoseCount c) c' = Inr \<lparr>bp_position = p, bp_rotation = r\<rparr>"
    using ok(4,9) lt
    by (auto simp: AddBrithPose_def CopyBrithPose_def arr_set_def arr_get_def c_mod_nonneg)
qed

end
