(* ===== verification/DropItems.thy ===== *)
theory DropItems
  imports GameConfig
begin

text \<open>
  The drop items of a race, \<^verbatim>\<open>DropItemManager.h\<close> and \<^verbatim>\<open>DropItemManager.cpp\<close>: which kinds are
  respawned when, the list of items that lie on the track, and the two ways of taking one. The
  manager tells its listener about every item it creates and every item that is taken; the
  listener is an argument \<open>ev\<close> of the operations, a transformer of the rest of the program's
  state \<open>'w\<close> that may fault. \<open>junk\<close> stands for the uninitialised local \<open>AliveDroptItem\<close>: it is
  read when the configuration has no positions of the kind.
\<close>

section \<open>State\<close>

record drop_item =
  mData :: drop_data
  mRefreshIndex :: int
  mCount :: int
  mRefreshTimer :: f32
  mInitRefresh :: bool

record alive_item =
  mID :: u32
  mPosition :: drop_pos
  mIndex :: int

datatype drop_event = DROP_EVENT_CREATE | DROP_EVENT_GET

type_synonym 'w listener = "drop_event \<Rightarrow> alive_item \<Rightarrow> u32 \<Rightarrow> 'w \<Rightarrow> 'w res"

record drop_mgr =
  listenner :: bool  \<comment> \<open>not null\<close>
  gID :: u32
  mAllDropItem :: "drop_item list"
  mAllDropTtemCount :: int
  m_AliveDropItem :: "alive_item list"

section \<open>Operations\<close>

definition drop_item_fresh :: "drop_data \<Rightarrow> drop_item" where
  "drop_item_fresh d =
     \<lparr>mData = d, mRefreshIndex = 0, mCount = 0, mRefreshTimer = 0, mInitRefresh = False\<rparr>"

definition drop_Init :: "bool \<Rightarrow> config \<Rightarrow> drop_mgr \<Rightarrow> (bool \<times> drop_mgr) res" where
  "drop_Init game c m =
     (if \<not> game then Inr (False, m)
      else rbind (foldE (\<lambda>i items. rbind (arr_get (m_DropItemData c) i) (\<lambda>d.
                           arr_set items i (drop_item_fresh d)))
                    (map int [0..<nat (m_DropItemCount c)]) (mAllDropItem m)) (\<lambda>items.
           Inr (True, m\<lparr>listenner := True, mAllDropTtemCount := m_DropItemCount c,
                        mAllDropItem := items, gID := 0\<rparr>)))"

definition CreateDropItem ::
  "config \<Rightarrow> 'w listener \<Rightarrow> (u32 \<Rightarrow> drop_pos) \<Rightarrow> int \<Rightarrow> drop_mgr \<times> 'w \<Rightarrow> (drop_mgr \<times> 'w) res" where
  "CreateDropItem c ev junk index = (\<lambda>(m, w).
     if 0 \<le> index \<and> index < mAllDropTtemCount m then
       rbind (arr_get (mAllDropItem m) index) (\<lambda>origin.
       rbind (CopyDropItemPosition (mType (mData origin)) (mRefreshIndex origin) (junk (gID m)) c)
         (\<lambda>(found, p).
       rbind (arr_set (mAllDropItem m) index
                (origin\<lparr>mRefreshIndex := mRefreshIndex origin + 1, mCount := mCount origin + 1\<rparr>))
         (\<lambda>items.
       let alive = \<lparr>mID = gID m, mPosition = p, mIndex = index\<rparr>;
           m' = m\<lparr>gID := gID m + 1, mAllDropItem := items,
                  m_AliveDropItem := m_AliveDropItem m @ [alive]\<rparr>
       in if listenner m then rbind (ev DROP_EVENT_CREATE alive 0 w) (\<lambda>w'. Inr (m', w'))
          else Inl NullDeref)))
     else Inr (m, w))"

definition drop_first_refresh ::
  "config \<Rightarrow> 'w listener \<Rightarrow> (u32 \<Rightarrow> drop_pos) \<Rightarrow> int \<Rightarrow> drop_mgr \<times> 'w \<Rightarrow> (drop_mgr \<times> 'w) res" where
  "drop_first_refresh c ev junk i = (\<lambda>(m, w).
     rbind (arr_get (mAllDropItem m) i) (\<lambda>item.
     if mInitRefresh item then Inr (m, w)
     else rbind (arr_set (mAllDropItem m) i (item\<lparr>mInitRefresh := True\<rparr>)) (\<lambda>items.
          foldE (\<lambda>j. CreateDropItem c ev junk i) [0..<nat (mInitCount (mData item))]
            (m\<lparr>mAllDropItem := items\<rparr>, w))))"

definition drop_timed_refresh ::
  "config \<Rightarrow> 'w listener \<Rightarrow> (u32 \<Rightarrow> drop_pos) \<Rightarrow> f32 \<Rightarrow> int \<Rightarrow> drop_mgr \<times> 'w \<Rightarrow> (drop_mgr \<times> 'w) res" where
  "drop_timed_refresh c ev junk t i = (\<lambda>(m, w).
     rbind (arr_get (mAllDropItem m) i) (\<lambda>item.
     if mCount item < mMaxCount (mData item) then
       let rt = mRefreshTimer item + t
       in if mRefreshTime (mData item) < rt then
            rbind (arr_set (mAllDropItem m) i
                     (item\<lparr>mRefreshTimer := rt - mRefreshTime (mData item)\<rparr>)) (\<lambda>items.
            CreateDropItem c ev junk i (m\<lparr>mAllDropItem := items\<rparr>, w))
          else rbind (arr_set (mAllDropItem m) i (item\<lparr>mRefreshTimer := rt\<rparr>)) (\<lambda>items.
               Inr (m\<lparr>mAllDropItem := items\<rparr>, w))
     else rbind (arr_set (mAllDropItem m) i (item\<lparr>mRefreshTimer := 0\<rparr>)) (\<lambda>items.
          Inr (m\<lparr>mAllDropItem := items\<rparr>, w))))"

definition drop_update_item ::
  "config \<Rightarrow> 'w listener \<Rightarrow> (u32 \<Rightarrow> drop_pos) \<Rightarrow> f32 \<Rightarrow> int \<Rightarrow> drop_mgr \<times> 'w \<Rightarrow> (drop_mgr \<times> 'w) res" where
  "drop_update_item c ev junk t i = (\<lambda>(m, w).
     rbind (arr_get (mAllDropItem m) i) (\<lambda>item.
     if mSet (mData item) then
       rbind (drop_first_refresh c ev junk i (m, w)) (drop_timed_refresh c ev junk t i)
     else Inr (m, w)))"

definition drop_Update ::
  "config \<Rightarrow> 'w listener \<Rightarrow> (u32 \<Rightarrow> drop_pos) \<Rightarrow> f32 \<Rightarrow> drop_mgr \<times> 'w \<Rightarrow> (drop_mgr \<times> 'w) res" where
  "drop_Update c ev junk t = (\<lambda>(m, w).
     if \<not> listenner m then Inr (m, w)
     else foldE (drop_update_item c ev junk t) (map int [0..<nat (mAllDropTtemCount m)]) (m, w))"

text \<open>\<open>vector::erase(begin() + i)\<close>.\<close>

definition erase_at :: "nat \<Rightarrow> 'a list \<Rightarrow> 'a list" where
  "erase_at i xs = take i xs @ drop (Suc i) xs"

definition get_near_item :: "'w listener \<Rightarrow> vec3 \<Rightarrow> u32 \<Rightarrow> nat \<Rightarrow> drop_mgr \<times> 'w \<Rightarrow> (drop_mgr \<times> 'w) res" where
  "get_near_item ev pos h i = (\<lambda>(m, w).
     rbind (arr_get (m_AliveDropItem m) (int i)) (\<lambda>item.
     rbind (arr_get (mAllDropItem m) (mIndex item)) (\<lambda>origin.
     if Length (vec3_sub (dp_pos (mPosition item)) pos) < mCheckRange (mData origin) then
       (if \<not> listenner m then Inl NullDeref
        else rbind (ev DROP_EVENT_GET item h w) (\<lambda>w'.
             rbind (arr_set (mAllDropItem m) (mIndex item) (origin\<lparr>mCount := mCount origin - 1\<rparr>))
               (\<lambda>items.
             Inr (m\<lparr>m_AliveDropItem := erase_at i (m_AliveDropItem m), mAllDropItem := items\<rparr>, w'))))
     else Inr (m, w))))"

definition GetDropItem_near :: "'w listener \<Rightarrow> vec3 \<Rightarrow> u32 \<Rightarrow> drop_mgr \<times> 'w \<Rightarrow> (drop_mgr \<times> 'w) res" where
  "GetDropItem_near ev pos h = (\<lambda>(m, w).
     foldE (get_near_item ev pos h) (rev [0..<length (m_AliveDropItem m)]) (m, w))"

text \<open>The overload by identifier returns a pointer into \<open>mAllDropItem\<close>: its index.\<close>

definition GetDropItem_id :: "u32 \<Rightarrow> bool \<Rightarrow> drop_mgr \<Rightarrow> int option \<times> drop_mgr" where
  "GetDropItem_id k remove m =
     (case List.find (\<lambda>i. mID (m_AliveDropItem m ! i) = k) (rev [0..<length (m_AliveDropItem m)]) of
        None \<Rightarrow> (None, m)
      | Some i \<Rightarrow> (Some (mIndex (m_AliveDropItem m ! i)),
           if remove then m\<lparr>m_AliveDropItem := erase_at i (m_AliveDropItem m)\<rparr> else m))"

section \<open>Well-formed managers\<close>

text \<open>
  \<open>drop_inv N c m\<close>: the manager was initialised, at most \<open>N\<close> items were created since, the
  identifiers of the items on the track grow from the oldest to the newest and are below the
  next one, and of every kind there are at most \<open>mCount\<close> items on the track, which never exceeds
  the configured counts.
\<close>

definition alive_of :: "nat \<Rightarrow> drop_mgr \<Rightarrow> nat" where
  "alive_of i m = length (filter (\<lambda>a. mIndex a = int i) (m_AliveDropItem m))"

definition kind_limit :: "drop_data \<Rightarrow> int" where
  "kind_limit d = max 0 (max (mInitCount d) (mMaxCount d))"

definition kind_ok :: "drop_mgr \<Rightarrow> nat \<Rightarrow> bool" where
  "kind_ok m i =
     (let item = mAllDropItem m ! i
      in int (alive_of i m) \<le> mCount item \<and> mCount item \<le> kind_limit (mData item)
         \<and> (mInitRefresh item \<or> mCount item = 0))"

definition drop_shape :: "drop_mgr \<Rightarrow> bool" where
  "drop_shape m =
     (listenner m \<and> length (mAllDropItem m) = MAX_DROP_COUNT
      \<and> 0 \<le> mAllDropTtemCount m \<and> mAllDropTtemCount m \<le> int MAX_DROP_COUNT
      \<and> (\<forall>a \<in> set (m_AliveDropItem m). 0 \<le> mIndex a \<and> mIndex a < mAllDropTtemCount m))"

definition ids_ok :: "nat \<Rightarrow> drop_mgr \<Rightarrow> bool" where
  "ids_ok N m =
     (unat (gID m) \<le> N \<and> sorted_wrt (<) (map mID (m_AliveDropItem m))
      \<and> (\<forall>a \<in> set (m_AliveDropItem m). mID a < gID m))"

definition kinds_ok :: "drop_mgr \<Rightarrow> bool" where
  "kinds_ok m = (\<forall>i < nat (mAllDropTtemCount m). kind_ok m i)"

lemma drop_shapeD:
  assumes "drop_shape m"
  shows "listenner m" "length (mAllDropItem m) = 64" "0 \<le> mAllDropTtemCount m"
    "mAllDropTtemCount m \<le> 64"
    "\<And>a. a \<in> set (m_AliveDropItem m) \<Longrightarrow> 0 \<le> mIndex a \<and> mIndex a < mAllDropTtemCount m"
  using assms by (auto simp: drop_shape_def cfg_consts)

lemma erase_at_set: "set (erase_at i xs) \<subseteq> set xs"
  by (auto simp: erase_at_def dest: in_set_takeD in_set_dropD)

lemma erase_at_map: "map f (erase_at i xs) = erase_at i (map f xs)"
  by (simp add: erase_at_def take_map drop_map)

lemma erase_at_sorted: "sorted_wrt P xs \<Longrightarrow> sorted_wrt P (erase_at i xs)"
  by (auto simp: erase_at_def sorted_wrt_append sorted_wrt_iff_nth_less nth_append set_conv_nth)

lemma erase_at_length: "i < length xs \<Longrightarrow> length (erase_at i xs) = length xs - 1"
  by (simp add: erase_at_def)

lemma erase_at_filter:
  assumes "i < length xs"
  shows "length (filter P xs) = length (filter P (erase_at i xs)) + (if P (xs ! i) then 1 else 0)"
proof -
  have "xs = take i xs @ xs ! i # drop (Suc i) xs" using assms by (simp add: id_take_nth_drop)
  then have "length (filter P xs) = length (filter P (take i xs @ xs ! i # drop (Suc i) xs))" by simp
  then show ?thesis by (simp add: erase_at_def)
qed

section \<open>What the operations do to a well-formed manager\<close>

text \<open>The manager after a creation.\<close>

definition created :: "nat \<Rightarrow> drop_pos \<Rightarrow> drop_mgr \<Rightarrow> drop_mgr" where
  "created i p m =
     (let origin = mAllDropItem m ! i
      in m\<lparr>gID := gID m + 1,
           mAllDropItem := (mAllDropItem m)[i :=
             origin\<lparr>mRefreshIndex := mRefreshIndex origin + 1, mCount := mCount origin + 1\<rparr>],
           m_AliveDropItem := m_AliveDropItem m @ [\<lparr>mID = gID m, mPosition = p, mIndex = int i\<rparr>]\<rparr>)"

lemma CreateDropItem_created:
  assumes "CreateDropItem c ev junk (int i) (m, w) = Inr (m', w')" "int i < mAllDropTtemCount m"
  obtains p where "m' = created i p m"
proof -
  from assms obtain origin x p items where
    1: "arr_get (mAllDropItem m) (int i) = Inr origin"
    and 2: "arr_set (mAllDropItem m) (int i)
      (origin\<lparr>mRefreshIndex := mRefreshIndex origin + 1, mCount := mCount origin + 1\<rparr>) = Inr items"
    and 3: "m' = m\<lparr>gID := gID m + 1, mAllDropItem := items,
      m_AliveDropItem := m_AliveDropItem m @ [\<lparr>mID = gID m, mPosition = p, mIndex = int i\<rparr>]\<rparr>"
    by (auto simp: CreateDropItem_def Let_def split: if_splits)
  have "m' = created i p m"
    using arr_get_InrD [OF 1] arr_set_InrD [OF 2] 3 by (simp add: created_def Let_def)
  then show ?thesis by (rule that)
qed

lemma created_sel [simp]:
  "listenner (created i p m) = listenner m" "mAllDropTtemCount (created i p m) = mAllDropTtemCount m"
  "length (mAllDropItem (created i p m)) = length (mAllDropItem m)"
  "gID (created i p m) = gID m + 1"
  by (simp_all add: created_def Let_def)

lemma created_shape: "drop_shape m \<Longrightarrow> int i < mAllDropTtemCount m \<Longrightarrow> drop_shape (created i p m)"
  by (auto simp: drop_shape_def created_def Let_def)

lemma created_ids:
  assumes "ids_ok N m" "Suc N < 2 ^ 32"
  shows "ids_ok (Suc N) (created i p m)"
proof -
  have "unat (gID m) + 1 < 2 ^ 32" using assms by (simp add: ids_ok_def)
  then have g: "unat (gID m + 1) = unat (gID m) + 1" by (simp add: unat_word_ariths)
  then have "gID m < gID m + 1" by (simp add: word_less_nat_alt)
  with assms(1) g show ?thesis
    by (auto simp: ids_ok_def created_def Let_def sorted_wrt_append intro: less_trans)
qed

lemma created_kind:
  assumes "kind_ok m j" "drop_shape m" "j < 64"
    and "j = i \<Longrightarrow> mInitRefresh (mAllDropItem m ! i)"
    and "j = i \<Longrightarrow> mCount (mAllDropItem m ! i) < kind_limit (mData (mAllDropItem m ! i))"
  shows "kind_ok (created i p m) j"
  using assms drop_shapeD(2) [OF assms(2)]
  by (cases "j = i") (auto simp: kind_ok_def created_def Let_def alive_of_def)

lemma created_item:
  "drop_shape m \<Longrightarrow> i < 64 \<Longrightarrow> mAllDropItem (created i p m) ! i = (mAllDropItem m ! i)
     \<lparr>mRefreshIndex := mRefreshIndex (mAllDropItem m ! i) + 1, mCount := mCount (mAllDropItem m ! i) + 1\<rparr>"
  using drop_shapeD(2) [of m] by (simp add: created_def Let_def)

text \<open>Changing the timer or the flag of a kind keeps everything.\<close>

lemma touch_item:
  assumes "drop_shape m" "ids_ok N m" "kinds_ok m" "i < 64"
    and "mCount x = mCount (mAllDropItem m ! i)" "mData x = mData (mAllDropItem m ! i)"
    and "mInitRefresh (mAllDropItem m ! i) \<longrightarrow> mInitRefresh x"
  defines "m' \<equiv> m\<lparr>mAllDropItem := (mAllDropItem m)[i := x]\<rparr>"
  shows "drop_shape m'" "ids_ok N m'" "kinds_ok m'"
proof -
  have l: "length (mAllDropItem m) = 64" by (rule drop_shapeD(2) [OF assms(1)])
  show "drop_shape m'" using assms(1) by (simp add: m'_def drop_shape_def)
  show "ids_ok N m'" using assms(2) by (simp add: m'_def ids_ok_def)
  have "kind_ok m' j" if "kind_ok m j" for j
    using that l assms(4-7) by (cases "j = i") (auto simp: m'_def kind_ok_def alive_of_def Let_def)
  then show "kinds_ok m'" using assms(3) by (simp add: kinds_ok_def m'_def)
qed

section \<open>Every operation keeps a manager well formed\<close>

definition drop_inv :: "drop_data list \<Rightarrow> nat \<Rightarrow> drop_mgr \<Rightarrow> bool" where
  "drop_inv ds N m =
     (drop_shape m \<and> ids_ok N m \<and> kinds_ok m \<and> map mData (mAllDropItem m) = ds)"

lemma drop_invD:
  assumes "drop_inv ds N m"
  shows "drop_shape m" "ids_ok N m" "kinds_ok m" "map mData (mAllDropItem m) = ds"
  using assms by (simp_all add: drop_inv_def)

lemma drop_inv_data: "drop_inv ds N m \<Longrightarrow> i < 64 \<Longrightarrow> mData (mAllDropItem m ! i) = ds ! i"
  using drop_shapeD(2) [of m] by (auto simp: drop_inv_def)

lemma drop_inv_mono: "drop_inv ds N m \<Longrightarrow> N \<le> N' \<Longrightarrow> drop_inv ds N' m"
  by (simp add: drop_inv_def ids_ok_def)

lemma touch_inv:
  assumes "drop_inv ds N m" "i < 64"
    and "mCount x = mCount (mAllDropItem m ! i)" "mData x = mData (mAllDropItem m ! i)"
    and "mInitRefresh (mAllDropItem m ! i) \<longrightarrow> mInitRefresh x"
  shows "drop_inv ds N (m\<lparr>mAllDropItem := (mAllDropItem m)[i := x]\<rparr>)"
  using assms touch_item [OF drop_invD(1-3) [OF assms(1)] assms(2-5)] drop_shapeD(2) [of m]
  by (auto simp: drop_inv_def map_update list_update_same_conv)

lemma created_inv:
  assumes "drop_inv ds N m" "int i < mAllDropTtemCount m" "Suc N < 2 ^ 32"
    and "mInitRefresh (mAllDropItem m ! i)" "mCount (mAllDropItem m ! i) < kind_limit (ds ! i)"
  shows "drop_inv ds (Suc N) (created i p m)"
proof -
  note s = drop_invD [OF assms(1)]
  have i: "i < 64" "length (mAllDropItem m) = 64" using drop_shapeD(2,4) [OF s(1)] assms(2) by auto
  have "kind_ok (created i p m) j" if "j < nat (mAllDropTtemCount m)" for j
    using that s(3) assms(4,5) drop_shapeD(4) [OF s(1)] drop_inv_data [OF assms(1) i(1)]
    by (intro created_kind s(1)) (auto simp: kinds_ok_def)
  moreover have "map mData (mAllDropItem (created i p m)) = map mData (mAllDropItem m)"
    using i by (simp add: created_def Let_def map_update list_update_same_conv)
  ultimately show ?thesis
    using created_shape [OF s(1) assms(2)] created_ids [OF s(2) assms(3)] s(4)
    by (simp add: drop_inv_def kinds_ok_def)
qed

text \<open>The first refresh of a kind creates its initial items.\<close>

lemma init_refresh_inv:
  assumes run: "foldE (\<lambda>j. CreateDropItem c ev junk (int i)) xs (m, w) = Inr (m', w')"
    and inv: "drop_inv ds N m" and i: "int i < mAllDropTtemCount m"
    and fresh: "mInitRefresh (mAllDropItem m ! i)" "mCount (mAllDropItem m ! i) = 0"
    and len: "length xs \<le> nat (mInitCount (ds ! i))" "N + length xs < 2 ^ 32"
  shows "drop_inv ds (N + length xs) m' \<and> mAllDropTtemCount m' = mAllDropTtemCount m
    \<and> mInitRefresh (mAllDropItem m' ! i)"
proof -
  let ?I = "\<lambda>k (u, v). drop_inv ds k u \<and> mAllDropTtemCount u = mAllDropTtemCount m
     \<and> mInitRefresh (mAllDropItem u ! i) \<and> mCount (mAllDropItem u ! i) = int (k - N)"
  have "?I (N + length xs) (m', w')"
  proof (rule foldE_steps [OF run])
    show "?I N (m, w)" using inv fresh by simp
  next
    fix x k s s'
    assume x: "N \<le> k" "k < N + length xs" "?I k s" "CreateDropItem c ev junk (int i) s = Inr s'"
    obtain u v u' v' where s: "s = (u, v)" "s' = (u', v')" by (cases s, cases s') auto
    from x(3) have u: "drop_inv ds k u" "mAllDropTtemCount u = mAllDropTtemCount m"
      "mInitRefresh (mAllDropItem u ! i)" "mCount (mAllDropItem u ! i) = int (k - N)"
      by (auto simp: s)
    obtain p where p: "u' = created i p u"
      using CreateDropItem_created [of c ev junk i u v u' v'] x(4) i u(2) by (auto simp: s)
    have "int (k - N) < kind_limit (ds ! i)"
      using x(1,2) len(1) by (simp add: kind_limit_def)
    with u i len(2) x(2) have "drop_inv ds (Suc k) u'"
      unfolding p by (intro created_inv) auto
    moreover have "i < 64" using i drop_shapeD(4) [OF drop_invD(1) [OF inv]] by simp
    ultimately show "?I (Suc k) s'"
      using u x(1) created_item [OF drop_invD(1) [OF u(1)], of i p]
      by (simp add: s p Suc_diff_le)
  qed
  then show ?thesis by simp
qed

lemma item_access:
  assumes "drop_shape m" "i < 64"
  shows "arr_get (mAllDropItem m) (int i) = Inr (mAllDropItem m ! i)"
    "arr_set (mAllDropItem m) (int i) x = Inr ((mAllDropItem m)[i := x])"
  using assms drop_shapeD(2) [OF assms(1)] by simp_all

lemma first_refresh_inv:
  assumes run: "drop_first_refresh c ev junk (int i) (m, w) = Inr (m', w')"
    and inv: "drop_inv ds N m" and i: "int i < mAllDropTtemCount m"
    and B: "mInitCount (ds ! i) \<le> int B" "N + B < 2 ^ 32"
  shows "drop_inv ds (N + B) m' \<and> mAllDropTtemCount m' = mAllDropTtemCount m
    \<and> mInitRefresh (mAllDropItem m' ! i)"
proof -
  note sh = drop_invD(1) [OF inv]
  have i64: "i < 64" using i drop_shapeD(4) [OF sh] by simp
  define item where "item = mAllDropItem m ! i"
  have data: "mData item = ds ! i" using drop_inv_data [OF inv i64] by (simp add: item_def)
  show ?thesis
  proof (cases "mInitRefresh item")
    case True
    then have "m' = m"
      using run by (simp add: drop_first_refresh_def item_access [OF sh i64] item_def)
    with True inv show ?thesis using drop_inv_mono [OF inv, of "N + B"] by (simp add: item_def)
  next
    case False
    let ?m = "m\<lparr>mAllDropItem := (mAllDropItem m)[i := item\<lparr>mInitRefresh := True\<rparr>]\<rparr>"
    let ?k = "length [0..<nat (mInitCount (ds ! i))]"
    have "kind_ok m i" using drop_invD(3) [OF inv] i by (simp add: kinds_ok_def)
    then have c0: "mCount item = 0" using False by (simp add: kind_ok_def item_def Let_def)
    have "drop_inv ds N ?m" by (rule touch_inv [OF inv i64]) (simp_all add: item_def)
    moreover have "foldE (\<lambda>j. CreateDropItem c ev junk (int i)) [0..<nat (mInitCount (ds ! i))] (?m, w)
        = Inr (m', w')"
      using run False data by (simp add: drop_first_refresh_def item_access [OF sh i64] item_def)
    ultimately have "drop_inv ds (N + ?k) m' \<and> mAllDropTtemCount m' = mAllDropTtemCount ?m
        \<and> mInitRefresh (mAllDropItem m' ! i)"
      by (intro init_refresh_inv) (use i B i64 drop_shapeD(2) [OF sh] c0 in auto)
    moreover have "?k \<le> B" using B(1) by simp
    ultimately show ?thesis using drop_inv_mono [of ds "N + ?k" m' "N + B"] by simp
  qed
qed

lemma timed_refresh_inv:
  assumes run: "drop_timed_refresh c ev junk t (int i) (m, w) = Inr (m', w')"
    and inv: "drop_inv ds N m" and i: "int i < mAllDropTtemCount m"
    and fresh: "mInitRefresh (mAllDropItem m ! i)" and N: "Suc N < 2 ^ 32"
  shows "drop_inv ds (Suc N) m' \<and> mAllDropTtemCount m' = mAllDropTtemCount m"
proof -
  note sh = drop_invD(1) [OF inv]
  have i64: "i < 64" using i drop_shapeD(4) [OF sh] by simp
  define it where "it = mAllDropItem m ! i"
  have data: "mData it = ds ! i" using drop_inv_data [OF inv i64] by (simp add: it_def)
  have touch: "drop_inv ds N (m\<lparr>mAllDropItem := (mAllDropItem m)[i := it\<lparr>mRefreshTimer := r\<rparr>]\<rparr>)"
    for r using inv i64 by (intro touch_inv) (simp_all add: it_def)
  show ?thesis
  proof (cases "mCount it < mMaxCount (mData it) \<and> mRefreshTime (mData it) < mRefreshTimer it + t")
    case True
    let ?u = "m\<lparr>mAllDropItem := (mAllDropItem m)[i :=
        it\<lparr>mRefreshTimer := mRefreshTimer it + t - mRefreshTime (mData it)\<rparr>]\<rparr>"
    have "CreateDropItem c ev junk (int i) (?u, w) = Inr (m', w')"
      using run True item_access [OF sh i64] by (simp add: drop_timed_refresh_def it_def Let_def)
    then obtain p where p: "m' = created i p ?u"
      using CreateDropItem_created [of c ev junk i ?u w m' w'] i by auto
    have "mCount it < kind_limit (ds ! i)"
      using True data by (auto simp: kind_limit_def less_max_iff_disj)
    then have "drop_inv ds (Suc N) m'"
      unfolding p using i drop_shapeD(2) [OF sh] i64 N fresh
      by (intro created_inv touch) (auto simp: it_def)
    then show ?thesis by (simp add: p)
  next
    case False
    then obtain r where "m' = m\<lparr>mAllDropItem := (mAllDropItem m)[i := it\<lparr>mRefreshTimer := r\<rparr>]\<rparr>"
      using run item_access [OF sh i64]
      by (auto simp: drop_timed_refresh_def it_def Let_def split: if_splits)
    then show ?thesis using drop_inv_mono [OF touch, of "Suc N" r] by simp
  qed
qed

lemma drop_update_item_inv:
  assumes run: "drop_update_item c ev junk t (int i) (m, w) = Inr (m', w')"
    and inv: "drop_inv ds N m" and i: "int i < mAllDropTtemCount m"
    and B: "mInitCount (ds ! i) \<le> int B" "Suc (N + B) < 2 ^ 32"
  shows "drop_inv ds (Suc (N + B)) m' \<and> mAllDropTtemCount m' = mAllDropTtemCount m"
proof -
  have i64: "i < 64" using i drop_shapeD(4) [OF drop_invD(1) [OF inv]] by simp
  show ?thesis
  proof (cases "mSet (mData (mAllDropItem m ! i))")
    case True
    then obtain m1 w1 where "drop_first_refresh c ev junk (int i) (m, w) = Inr (m1, w1)"
      and t: "drop_timed_refresh c ev junk t (int i) (m1, w1) = Inr (m', w')"
      using run by (auto simp: drop_update_item_def item_access [OF drop_invD(1) [OF inv] i64])
    then have "drop_inv ds (N + B) m1 \<and> mAllDropTtemCount m1 = mAllDropTtemCount m
        \<and> mInitRefresh (mAllDropItem m1 ! i)"
      using inv i B by (intro first_refresh_inv) auto
    then show ?thesis using timed_refresh_inv [OF t, of ds "N + B"] i B(2) by simp
  next
    case False
    then have "m' = m"
      using run by (simp add: drop_update_item_def item_access [OF drop_invD(1) [OF inv] i64])
    with inv show ?thesis using drop_inv_mono [of ds N m "Suc (N + B)"] by simp
  qed
qed

lemma drop_Update_inv:
  assumes run: "drop_Update c ev junk t (m, w) = Inr (m', w')" and inv: "drop_inv ds N m"
    and B: "\<forall>i < nat (mAllDropTtemCount m). mInitCount (ds ! i) \<le> int B" "N + 64 * (B + 1) < 2 ^ 32"
  shows "drop_inv ds (N + 64 * (B + 1)) m' \<and> mAllDropTtemCount m' = mAllDropTtemCount m"
proof -
  let ?n = "nat (mAllDropTtemCount m)"
  let ?I = "\<lambda>k (u, v). drop_inv ds (N + k * (B + 1)) u \<and> mAllDropTtemCount u = mAllDropTtemCount m"
  note s = drop_shapeD [OF drop_invD(1) [OF inv]]
  have run': "foldE (drop_update_item c ev junk t) (map int [0..<?n]) (m, w) = Inr (m', w')"
    using run s(1) by (simp add: drop_Update_def)
  have "?I (0 + length (map int [0..<?n])) (m', w')"
  proof (rule foldE_steps [OF run'])
    show "?I 0 (m, w)" using inv by simp
  next
    fix x k st st'
    assume x: "x \<in> set (map int [0..<?n])" "k < 0 + length (map int [0..<?n])" "?I k st"
      "drop_update_item c ev junk t x st = Inr st'"
    obtain u v u' v' where st: "st = (u, v)" "st' = (u', v')" by (cases st, cases st') auto
    from x(1) obtain i where i: "x = int i" "i < ?n" by auto
    have k: "k < 64" using x(2) s(4) by simp
    have "k * (B + 1) + (B + 1) = Suc k * (B + 1)" by simp
    also have "\<dots> \<le> 64 * (B + 1)" using k by (intro mult_right_mono) auto
    finally have "Suc (N + k * (B + 1) + B) < 2 ^ 32" using B(2) by linarith
    then show "?I (Suc k) st'"
      using drop_update_item_inv [of c ev junk t i u v u' v' ds "N + k * (B + 1)" B] x(3,4) i B(1)
      by (simp add: st algebra_simps)
  qed
  moreover have "length (map int [0..<?n]) * (B + 1) \<le> 64 * (B + 1)"
    using s(4) by (intro mult_right_mono) auto
  ultimately show ?thesis
    using drop_inv_mono [of ds "N + length (map int [0..<?n]) * (B + 1)" m' "N + 64 * (B + 1)"]
    by (auto simp del: length_map)
qed

section \<open>A game's worth of operations\<close>

datatype drop_op =
    OpUpdate f32          \<comment> \<open>\<open>Update(t)\<close>\<close>
  | OpNear vec3 u32       \<comment> \<open>\<open>GetDropItem(pos, uid)\<close>\<close>
  | OpGet u32             \<comment> \<open>\<open>GetDropItem(id, true)\<close>\<close>

fun run_drop_op ::
  "config \<Rightarrow> 'w listener \<Rightarrow> (u32 \<Rightarrow> drop_pos) \<Rightarrow> drop_op \<Rightarrow> drop_mgr \<times> 'w \<Rightarrow> (drop_mgr \<times> 'w) res" where
  "run_drop_op c ev junk (OpUpdate t) s = drop_Update c ev junk t s"
| "run_drop_op c ev junk (OpNear pos h) s = GetDropItem_near ev pos h s"
| "run_drop_op c ev junk (OpGet k) (m, w) = Inr (snd (GetDropItem_id k True m), w)"

lemma erased_ids: "ids_ok N m \<Longrightarrow> ids_ok N (m\<lparr>m_AliveDropItem := erase_at i (m_AliveDropItem m)\<rparr>)"
  using erase_at_set [of i "m_AliveDropItem m"]
  by (auto simp: ids_ok_def erase_at_map erase_at_sorted)

lemma erased_shape: "drop_shape m \<Longrightarrow> drop_shape (m\<lparr>m_AliveDropItem := erase_at i (m_AliveDropItem m)\<rparr>)"
  using erase_at_set [of i "m_AliveDropItem m"] by (auto simp: drop_shape_def)

lemma erased_inv:
  assumes "drop_inv ds N m" "i < length (m_AliveDropItem m)"
  shows "drop_inv ds N (m\<lparr>m_AliveDropItem := erase_at i (m_AliveDropItem m)\<rparr>)"
proof -
  note s = drop_invD [OF assms(1)]
  let ?m = "m\<lparr>m_AliveDropItem := erase_at i (m_AliveDropItem m)\<rparr>"
  have "alive_of j ?m \<le> alive_of j m" for j
    using erase_at_filter [OF assms(2), of "\<lambda>a. mIndex a = int j"] by (simp add: alive_of_def)
  then have "int (alive_of j ?m) \<le> mCount (mAllDropItem m ! j)" if "kind_ok m j" for j
    using that by (meson kind_ok_def of_nat_mono order_trans)
  then have "kind_ok ?m j" if "kind_ok m j" for j
    using that by (simp add: kind_ok_def Let_def)
  then have "kinds_ok ?m" using s(3) by (simp add: kinds_ok_def)
  with s show ?thesis by (simp add: drop_inv_def erased_ids erased_shape)
qed

lemma taken_inv:
  assumes "drop_inv ds N m" "i < length (m_AliveDropItem m)"
  defines "a \<equiv> m_AliveDropItem m ! i"
  defines "k \<equiv> nat (mIndex a)"
  shows "drop_inv ds N (m\<lparr>m_AliveDropItem := erase_at i (m_AliveDropItem m),
    mAllDropItem := (mAllDropItem m)[k := (mAllDropItem m ! k)\<lparr>mCount := mCount (mAllDropItem m ! k) - 1\<rparr>]\<rparr>)"
    (is "drop_inv ds N ?m")
proof -
  note s = drop_invD [OF assms(1)]
  have "a \<in> set (m_AliveDropItem m)" using assms(2) by (simp add: a_def)
  from drop_shapeD(5) [OF s(1) this] have k: "int k = mIndex a" "k < nat (mAllDropTtemCount m)" "k < 64"
    using drop_shapeD(4) [OF s(1)] by (auto simp: k_def)
  note l = drop_shapeD(2) [OF s(1)]
  have len: "alive_of j m = alive_of j ?m + (if j = k then 1 else 0)" for j
    using erase_at_filter [OF assms(2), of "\<lambda>x. mIndex x = int j"] k(1)
    by (auto simp: alive_of_def a_def [symmetric])
  have "kind_ok ?m j" if "j < nat (mAllDropTtemCount m)" for j
  proof -
    have "kind_ok m j" using s(3) that by (simp add: kinds_ok_def)
    then show ?thesis
      using len [of j] l k(3) by (cases "j = k") (auto simp: kind_ok_def Let_def)
  qed
  then have "kinds_ok ?m" by (simp add: kinds_ok_def)
  moreover have "ids_ok N ?m" using erased_ids [OF s(2), of i] by (simp add: ids_ok_def)
  moreover have "drop_shape ?m" using erased_shape [OF s(1), of i] by (simp add: drop_shape_def)
  moreover have "map mData (mAllDropItem ?m) = ds"
    using s(4) k(3) l by (auto simp: map_update list_update_same_conv)
  ultimately show ?thesis by (simp add: drop_inv_def)
qed

lemma get_near_item_inv:
  assumes run: "get_near_item ev pos h i (m, w) = Inr (m', w')" and inv: "drop_inv ds N m"
  shows "drop_inv ds N m'"
proof -
  from run obtain a where a: "arr_get (m_AliveDropItem m) (int i) = Inr a"
    by (auto simp: get_near_item_def)
  then have i: "i < length (m_AliveDropItem m)" "a = m_AliveDropItem m ! i"
    using arr_get_InrD [OF a] by auto
  let ?k = "nat (mIndex a)"
  have "a \<in> set (m_AliveDropItem m)" using i by simp
  from drop_shapeD(5) [OF drop_invD(1) [OF inv] this] drop_shapeD(4) [OF drop_invD(1) [OF inv]]
  have k: "mIndex a = int ?k" "?k < 64" by auto
  note acc = item_access [OF drop_invD(1) [OF inv] k(2)]
  have "m' = m \<or> m' = m\<lparr>m_AliveDropItem := erase_at i (m_AliveDropItem m), mAllDropItem :=
      (mAllDropItem m)[?k := (mAllDropItem m ! ?k)\<lparr>mCount := mCount (mAllDropItem m ! ?k) - 1\<rparr>]\<rparr>"
    using run a acc k(1)
    by (auto simp: get_near_item_def split: if_splits)
  with inv taken_inv [OF inv i(1)] i(2) show ?thesis by auto
qed

lemma GetDropItem_near_inv:
  assumes "GetDropItem_near ev pos h (m, w) = Inr (m', w')" "drop_inv ds N m"
  shows "drop_inv ds N m'"
proof -
  have "(\<lambda>(u, v). drop_inv ds N u) (m', w')"
    by (rule foldE_invariant [of "get_near_item ev pos h" "rev [0..<length (m_AliveDropItem m)]" "(m, w)"])
      (use assms get_near_item_inv in \<open>auto simp: GetDropItem_near_def\<close>)
  then show ?thesis by simp
qed

lemma find_last_SomeD:
  assumes "List.find P (rev [0..<n]) = Some i"
  shows "i < n \<and> P i \<and> (\<forall>j. i < j \<and> j < n \<longrightarrow> \<not> P j)"
proof -
  from assms obtain k where k: "k < n" "P (rev [0..<n] ! k)" "i = rev [0..<n] ! k"
    "\<forall>j<k. \<not> P (rev [0..<n] ! j)"
    by (auto simp: find_Some_iff)
  then have i: "i = n - Suc k" by (simp add: rev_nth)
  have "\<not> P j" if "i < j" "j < n" for j
  proof -
    have "n - Suc j < k" using that i k(1) by simp
    then have "\<not> P (rev [0..<n] ! (n - Suc j))" using k(4) by blast
    then show ?thesis using that by (simp add: rev_nth)
  qed
  with k i show ?thesis by auto
qed

lemma GetDropItem_id_inv: "drop_inv ds N m \<Longrightarrow> drop_inv ds N (snd (GetDropItem_id k r m))"
  using erased_inv [of ds N m]
  by (auto simp: GetDropItem_id_def dest!: find_last_SomeD split: option.splits)

lemma GetDropItem_id_frame:
  "drop_shape m \<Longrightarrow> drop_shape (snd (GetDropItem_id k r m))"
  "set (m_AliveDropItem (snd (GetDropItem_id k r m))) \<subseteq> set (m_AliveDropItem m)"
  "gID (snd (GetDropItem_id k r m)) = gID m"
  "mAllDropItem (snd (GetDropItem_id k r m)) = mAllDropItem m"
  using erased_shape [of m] erase_at_set [of _ "m_AliveDropItem m"]
  by (auto simp: GetDropItem_id_def split: option.splits)

lemma drop_Init_items:
  assumes "foldE (\<lambda>i items. rbind (arr_get ds i) (\<lambda>d. arr_set items i (drop_item_fresh d)))
      (map int [0..<n]) items = Inr items'"
  shows "length items' = length items \<and> (\<forall>i<length items. items' ! i =
    (if i < n then drop_item_fresh (ds ! i) else items ! i))"
  using assms
proof (induction n arbitrary: items')
  case (Suc n)
  then obtain u d where u: "foldE (\<lambda>i items. rbind (arr_get ds i) (\<lambda>d. arr_set items i (drop_item_fresh d)))
      (map int [0..<n]) items = Inr u" and d: "arr_get ds (int n) = Inr d"
    "arr_set u (int n) (drop_item_fresh d) = Inr items'"
    by (auto simp: foldE_append)
  with Suc.IH [OF u] arr_get_InrD [OF d(1)] arr_set_InrD [OF d(2)] show ?case
    by (auto simp: nth_list_update less_Suc_eq)
qed simp

lemma drop_Init_inv:
  assumes init: "drop_Init True c m = Inr (True, m')" and ok: "cfg_ok c"
    and new: "length (mAllDropItem m) = 64" "m_AliveDropItem m = []"
  obtains ds where "drop_inv ds 0 m'" "mAllDropTtemCount m' = m_DropItemCount c"
    "\<And>i. i < nat (m_DropItemCount c) \<Longrightarrow> ds ! i = m_DropItemData c ! i"
proof -
  from init obtain items where
    items: "foldE (\<lambda>i items. rbind (arr_get (m_DropItemData c) i) (\<lambda>d. arr_set items i (drop_item_fresh d)))
       (map int [0..<nat (m_DropItemCount c)]) (mAllDropItem m) = Inr items"
    and m': "m' = m\<lparr>listenner := True, mAllDropTtemCount := m_DropItemCount c,
       mAllDropItem := items, gID := 0\<rparr>"
    by (auto simp: drop_Init_def)
  note I = drop_Init_items [OF items] and c = cfg_okD(2,3) [OF ok]
  have "kind_ok m' i" if "i < nat (m_DropItemCount c)" for i
    using I that c new
    by (auto simp: kind_ok_def m' alive_of_def Let_def drop_item_fresh_def kind_limit_def)
  then have "drop_inv (map mData items) 0 m'"
    using I c new by (auto simp: drop_inv_def m' drop_shape_def ids_ok_def kinds_ok_def cfg_consts)
  moreover have "map mData items ! i = m_DropItemData c ! i" if "i < nat (m_DropItemCount c)" for i
    using I that c new(1) by (simp add: drop_item_fresh_def)
  ultimately show ?thesis by (intro that [of "map mData items"]) (auto simp: m')
qed

lemma run_drop_op_inv:
  assumes run: "run_drop_op c ev junk x (m, w) = Inr (m', w')" and inv: "drop_inv ds N m"
    and B: "\<forall>i < nat (mAllDropTtemCount m). mInitCount (ds ! i) \<le> int B" "N + 64 * (B + 1) < 2 ^ 32"
  shows "drop_inv ds (N + 64 * (B + 1)) m' \<and> mAllDropTtemCount m' = mAllDropTtemCount m"
proof (cases x)
  case (OpUpdate t)
  with run inv B show ?thesis using drop_Update_inv by simp
next
  case (OpNear pos h)
  have "mAllDropTtemCount m' = mAllDropTtemCount m"
    if "GetDropItem_near ev pos h (m, w) = Inr (m', w')"
  proof -
    have "(\<lambda>(u, v). mAllDropTtemCount u = mAllDropTtemCount m) (m', w')"
      by (rule foldE_invariant [of "get_near_item ev pos h" "rev [0..<length (m_AliveDropItem m)]" "(m, w)"])
        (use that in \<open>auto simp: GetDropItem_near_def get_near_item_def split: if_splits\<close>)
    then show ?thesis by simp
  qed
  moreover have near: "GetDropItem_near ev pos h (m, w) = Inr (m', w')" using OpNear run by simp
  ultimately show ?thesis using drop_inv_mono [OF GetDropItem_near_inv [OF near inv]] by simp
next
  case (OpGet k)
  have "mAllDropTtemCount (snd (GetDropItem_id k True m)) = mAllDropTtemCount m"
    by (auto simp: GetDropItem_id_def split: option.splits)
  with OpGet run show ?thesis
    using drop_inv_mono [OF GetDropItem_id_inv [OF inv, of k True]] by simp
qed

lemma drop_run_inv:
  assumes run: "foldE (run_drop_op c ev junk) ops (m, w) = Inr (m', w')" and inv: "drop_inv ds 0 m"
    and B: "\<forall>i < nat (mAllDropTtemCount m). mInitCount (ds ! i) \<le> int B"
    and len: "64 * (B + 1) * length ops < 2 ^ 32"
  shows "drop_inv ds (64 * (B + 1) * length ops) m' \<and> mAllDropTtemCount m' = mAllDropTtemCount m"
proof -
  let ?I = "\<lambda>k (u, v). drop_inv ds (64 * (B + 1) * k) u \<and> mAllDropTtemCount u = mAllDropTtemCount m"
  have "?I (0 + length ops) (m', w')"
  proof (rule foldE_steps [OF run])
    show "?I 0 (m, w)" using inv by simp
  next
    fix x k s s'
    assume x: "k < 0 + length ops" "?I k s" "run_drop_op c ev junk x s = Inr s'"
    obtain u v u' v' where s: "s = (u, v)" "s' = (u', v')" by (cases s, cases s') auto
    have "64 * (B + 1) * Suc k \<le> 64 * (B + 1) * length ops"
      using x(1) by (intro mult_left_mono) auto
    then have "64 * (B + 1) * k + 64 * (B + 1) < 2 ^ 32"
      using len unfolding mult_Suc_right by linarith
    with x(2,3) B show "?I (Suc k) s'"
      using run_drop_op_inv [of c ev junk x u v u' v' ds "64 * (B + 1) * k" B]
      by (simp add: s add.commute)
  qed
  then show ?thesis by simp
qed

section \<open>The listener's contract\<close>

text \<open>
  What the manager needs of its listener: told about an item of an existing kind, in a state it
  considers good, it returns and its state is good again.
\<close>

locale drop_listener =
  fixes ev :: "'w listener" and winv :: "'w \<Rightarrow> bool"
  assumes ev_total: "winv w \<Longrightarrow> 0 \<le> mIndex a \<Longrightarrow> mIndex a < 64 \<Longrightarrow> \<exists>w'. ev e a h w = Inr w' \<and> winv w'"

text \<open>And what it needs of the configuration: positions for the kinds that are placed.\<close>

definition placeable :: "config \<Rightarrow> drop_data \<Rightarrow> bool" where
  "placeable c d =
     (mSet d \<and> 0 < mType d \<and> mType d < 6 \<longrightarrow>
        0 < m_DropItemPositionCount c ! nat (mType d)
        \<and> mType d * 50 + m_DropItemPositionCount c ! nat (mType d) \<le> 300)"

definition drop_safe :: "config \<Rightarrow> drop_mgr \<Rightarrow> bool" where
  "drop_safe c m =
     (cfg_shape c \<and> drop_shape m
      \<and> (\<forall>i < nat (mAllDropTtemCount m). 0 \<le> mRefreshIndex (mAllDropItem m ! i)
           \<and> placeable c (mData (mAllDropItem m ! i))))"

lemma drop_safeD:
  assumes "drop_safe c m"
  shows "cfg_shape c" "drop_shape m"
    "\<And>i. int i < mAllDropTtemCount m \<Longrightarrow> 0 \<le> mRefreshIndex (mAllDropItem m ! i)"
    "\<And>i. int i < mAllDropTtemCount m \<Longrightarrow> placeable c (mData (mAllDropItem m ! i))"
  using assms by (simp_all add: drop_safe_def)

lemma placeable_copy:
  assumes "cfg_shape c" "placeable c d" "mSet d" "0 \<le> k"
  shows "\<exists>q. CopyDropItemPosition (mType d) k j c = Inr q"
proof (cases "0 < mType d \<and> mType d < 6")
  case True
  let ?n = "m_DropItemPositionCount c ! nat (mType d)"
  from True assms(2,3) have n: "0 < ?n" "mType d * 50 + ?n \<le> 300" by (auto simp: placeable_def)
  have l: "length (m_DropItemPositionArray c) = 300" "length (m_DropItemPositionCount c) = 6"
    using assms(1) by (auto simp: cfg_shape_def cfg_consts)
  have "0 \<le> k mod ?n" "k mod ?n < ?n" using n(1) by auto
  moreover from this n(2) have "mType d * 50 + k mod ?n < 300" by linarith
  ultimately show ?thesis
    using True n l assms(4)
    by (auto simp: CopyDropItemPosition_def cfg_consts arr_get_def c_mod_nonneg pos_index_def)
next
  case False
  then show ?thesis by (auto simp: CopyDropItemPosition_def cfg_consts)
qed

lemma touch_safe:
  assumes "drop_safe c m" "i < 64" "mData x = mData (mAllDropItem m ! i)"
    "0 \<le> mRefreshIndex (mAllDropItem m ! i) \<longrightarrow> 0 \<le> mRefreshIndex x"
  shows "drop_safe c (m\<lparr>mAllDropItem := (mAllDropItem m)[i := x]\<rparr>)"
proof -
  have "length (mAllDropItem m) = 64" using drop_shapeD(2) [OF drop_safeD(2) [OF assms(1)]] .
  then show ?thesis
    using assms by (auto simp: drop_safe_def drop_shape_def nth_list_update)
qed

lemma created_safe:
  assumes "drop_safe c m" "int i < mAllDropTtemCount m"
  shows "drop_safe c (created i p m)"
    and "mData (mAllDropItem (created i p m) ! i) = mData (mAllDropItem m ! i)"
proof -
  note s = drop_safeD [OF assms(1)]
  have i: "i < 64" "length (mAllDropItem m) = 64" using drop_shapeD(2,4) [OF s(2)] assms(2) by auto
  have "0 \<le> mRefreshIndex (mAllDropItem (created i p m) ! j)
      \<and> placeable c (mData (mAllDropItem (created i p m) ! j))" if "int j < mAllDropTtemCount m" for j
    using s(3) [OF that] s(4) [OF that] i
    by (cases "j = i") (auto simp: created_def Let_def)
  then show "drop_safe c (created i p m)"
    using s(1) created_shape [OF s(2) assms(2)] by (simp add: drop_safe_def)
  show "mData (mAllDropItem (created i p m) ! i) = mData (mAllDropItem m ! i)"
    using i by (simp add: created_def Let_def)
qed

context drop_listener
begin

lemma create_total:
  assumes "drop_safe c m" "winv w" "int i < mAllDropTtemCount m" "mSet (mData (mAllDropItem m ! i))"
  shows "\<exists>m' w'. CreateDropItem c ev junk (int i) (m, w) = Inr (m', w') \<and> drop_safe c m' \<and> winv w'
    \<and> mAllDropTtemCount m' = mAllDropTtemCount m
    \<and> mData (mAllDropItem m' ! i) = mData (mAllDropItem m ! i)"
proof -
  note s = drop_safeD [OF assms(1)]
  have i: "i < 64" using drop_shapeD(4) [OF s(2)] assms(3) by simp
  obtain f p where q: "CopyDropItemPosition (mType (mData (mAllDropItem m ! i)))
      (mRefreshIndex (mAllDropItem m ! i)) (junk (gID m)) c = Inr (f, p)"
    using placeable_copy [OF s(1) s(4) [OF assms(3)] assms(4) s(3) [OF assms(3)], of "junk (gID m)"]
    by auto
  obtain w' where w': "ev DROP_EVENT_CREATE \<lparr>mID = gID m, mPosition = p, mIndex = int i\<rparr> 0 w = Inr w'"
    "winv w'"
    using ev_total [OF assms(2), of "\<lparr>mID = gID m, mPosition = p, mIndex = int i\<rparr>"] i by auto
  have "CreateDropItem c ev junk (int i) (m, w) = Inr (created i p m, w')"
    using assms(3) q w'(1) item_access [OF s(2) i] drop_shapeD(1) [OF s(2)]
    by (simp add: CreateDropItem_def created_def Let_def)
  with w'(2) created_safe [OF assms(1,3)] show ?thesis by auto
qed

lemma update_item_total:
  assumes "drop_safe c m" "winv w" "int i < mAllDropTtemCount m"
  shows "\<exists>m' w'. drop_update_item c ev junk t (int i) (m, w) = Inr (m', w') \<and> drop_safe c m' \<and> winv w'
    \<and> mAllDropTtemCount m' = mAllDropTtemCount m"
proof (cases "mSet (mData (mAllDropItem m ! i))")
  case False
  have "i < 64" using drop_shapeD(4) [OF drop_safeD(2) [OF assms(1)]] assms(3) by simp
  with False assms show ?thesis
    by (simp add: drop_update_item_def item_access [OF drop_safeD(2) [OF assms(1)]])
next
  case True
  define n where "n = mAllDropTtemCount m"
  have i: "i < 64" using drop_shapeD(4) [OF drop_safeD(2) [OF assms(1)]] assms(3) by simp
  let ?I = "\<lambda>(u, v). drop_safe c u \<and> winv v \<and> mAllDropTtemCount u = n
     \<and> mSet (mData (mAllDropItem u ! i))"
  have create: "\<exists>s'. CreateDropItem c ev junk (int i) s = Inr s' \<and> ?I s'" if "?I s" for s
    using that assms(3) create_total [of c "fst s" "snd s" i junk]
    by (cases s) (fastforce simp: n_def)
  have touch: "?I (u\<lparr>mAllDropItem := (mAllDropItem u)[i := x]\<rparr>, v)"
    if "?I (u, v)" "mData x = mData (mAllDropItem u ! i)" "mRefreshIndex x = mRefreshIndex (mAllDropItem u ! i)"
    for u v x
    using that i touch_safe [of c u i x] drop_shapeD(2) [OF drop_safeD(2), of c u] by auto
  have 1: "?I (m, w)" using assms True by (simp add: n_def)
  have "\<exists>s. drop_first_refresh c ev junk (int i) (m, w) = Inr s \<and> ?I s"
  proof (cases "mInitRefresh (mAllDropItem m ! i)")
    case True
    then show ?thesis
      using 1 i by (simp add: drop_first_refresh_def item_access [OF drop_safeD(2) [OF assms(1)]])
  next
    case False
    let ?m = "m\<lparr>mAllDropItem := (mAllDropItem m)[i := (mAllDropItem m ! i)\<lparr>mInitRefresh := True\<rparr>]\<rparr>"
    have "\<exists>s. foldE (\<lambda>j. CreateDropItem c ev junk (int i))
        [0..<nat (mInitCount (mData (mAllDropItem m ! i)))] (?m, w) = Inr s \<and> ?I s"
      by (rule foldE_total) (use touch [OF 1] create in auto)
    then show ?thesis
      using False i by (simp add: drop_first_refresh_def item_access [OF drop_safeD(2) [OF assms(1)]])
  qed
  then obtain u v where u: "drop_first_refresh c ev junk (int i) (m, w) = Inr (u, v)" "?I (u, v)" by auto
  note acc = item_access [OF drop_safeD(2) i, of c u]
  let ?it = "mAllDropItem u ! i"
  have "\<exists>s. drop_timed_refresh c ev junk t (int i) (u, v) = Inr s \<and> ?I s"
    using u(2) create touch [OF u(2)] acc
    by (auto simp: drop_timed_refresh_def Let_def)
  with u(1) True i show ?thesis
    by (auto simp: drop_update_item_def item_access [OF drop_safeD(2) [OF assms(1)]] n_def)
qed

lemma update_total:
  assumes "drop_safe c m" "winv w"
  shows "\<exists>m' w'. drop_Update c ev junk t (m, w) = Inr (m', w') \<and> drop_safe c m' \<and> winv w'"
proof -
  let ?n = "mAllDropTtemCount m"
  let ?I = "\<lambda>(u, v). drop_safe c u \<and> winv v \<and> mAllDropTtemCount u = ?n"
  have "\<exists>s. foldE (drop_update_item c ev junk t) (map int [0..<nat ?n]) (m, w) = Inr s \<and> ?I s"
  proof (rule foldE_total)
    fix x s assume x: "x \<in> set (map int [0..<nat ?n])" "?I s"
    then obtain i u v where "x = int i" "int i < ?n" "s = (u, v)" by (cases s) auto
    with x(2) show "\<exists>s'. drop_update_item c ev junk t x s = Inr s' \<and> ?I s'"
      using update_item_total [of c u v i junk t] by fastforce
  qed (use assms in simp)
  then show ?thesis using drop_shapeD(1) [OF drop_safeD(2) [OF assms(1)]] by (auto simp: drop_Update_def)
qed

lemma near_item_total:
  assumes "drop_safe c m" "winv w" "i < length (m_AliveDropItem m)"
  shows "\<exists>m' w'. get_near_item ev pos h i (m, w) = Inr (m', w') \<and> drop_safe c m' \<and> winv w'
    \<and> length (m_AliveDropItem m) \<le> Suc (length (m_AliveDropItem m'))"
proof -
  note s = drop_safeD [OF assms(1)]
  let ?a = "m_AliveDropItem m ! i"
  have "?a \<in> set (m_AliveDropItem m)" using assms(3) by simp
  from drop_shapeD(5) [OF s(2) this] drop_shapeD(4) [OF s(2)]
  have k: "mIndex ?a = int (nat (mIndex ?a))" "nat (mIndex ?a) < 64" "0 \<le> mIndex ?a" "mIndex ?a < 64" by auto
  obtain w' where w': "ev DROP_EVENT_GET ?a h w = Inr w'" "winv w'"
    using ev_total [OF assms(2) k(3,4)] by auto
  let ?m = "m\<lparr>m_AliveDropItem := erase_at i (m_AliveDropItem m)\<rparr>"
  have "drop_safe c ?m" using assms(1) erased_shape [OF s(2), of i] by (simp add: drop_safe_def)
  from touch_safe [OF this k(2)] have
    "drop_safe c (?m\<lparr>mAllDropItem := (mAllDropItem m)[nat (mIndex ?a) :=
       (mAllDropItem m ! nat (mIndex ?a))\<lparr>mCount := mCount (mAllDropItem m ! nat (mIndex ?a)) - 1\<rparr>]\<rparr>)"
    by simp
  moreover have "length (m_AliveDropItem m) \<le> Suc (length (erase_at i (m_AliveDropItem m)))"
    using assms(3) by (simp add: erase_at_length)
  ultimately show ?thesis
    using assms w' item_access [OF s(2) k(2)] k(1) drop_shapeD(1) [OF s(2)]
    by (auto simp: get_near_item_def)
qed

lemma near_total:
  assumes "drop_safe c m" "winv w"
  shows "\<exists>m' w'. GetDropItem_near ev pos h (m, w) = Inr (m', w') \<and> drop_safe c m' \<and> winv w'"
proof -
  have "\<exists>m' w'. foldE (get_near_item ev pos h) (rev [0..<n]) (m, w) = Inr (m', w')
      \<and> drop_safe c m' \<and> winv w'"
    if "n \<le> length (m_AliveDropItem m)" "drop_safe c m" "winv w" for n m w
    using that
  proof (induction n arbitrary: m w)
    case (Suc n)
    then obtain m1 w1 where 1: "get_near_item ev pos h n (m, w) = Inr (m1, w1)" "drop_safe c m1"
      "winv w1" "length (m_AliveDropItem m) \<le> Suc (length (m_AliveDropItem m1))"
      using near_item_total [of c m w n pos h] by auto
    with Suc.prems(1) Suc.IH [of m1 w1] show ?case by simp
  qed simp
  from this [OF order_refl assms] show ?thesis by (simp add: GetDropItem_near_def)
qed

end

section \<open>A manager for the witnesses\<close>

definition drop_config :: config where
  "drop_config = config_blank\<lparr>m_DropItemCount := 1,
     m_DropItemData := \<lparr>mInitCount = 2, mMaxCount = 2, mType = 1, mRefreshTime = 1,
        mCheckRange = 1, mSet = True\<rparr> # replicate 63 drop_data_zero,
     m_DropItemPositionCount := [0, 2, 0, 0, 0, 0]\<rparr>"

lemma drop_config_ok: "cfg_ok drop_config"
  by (simp add: drop_config_def config_blank_def cfg_ok_def cfg_shape_def cfg_consts)

definition drop_new :: drop_mgr where
  "drop_new = \<lparr>listenner = False, gID = 0, mAllDropItem = replicate 64 (drop_item_fresh drop_data_zero),
     mAllDropTtemCount = 0, m_AliveDropItem = []\<rparr>"

definition drop_started :: drop_mgr where
  "drop_started = drop_new\<lparr>listenner := True, mAllDropTtemCount := 1,
     mAllDropItem := drop_item_fresh (m_DropItemData drop_config ! 0)
       # replicate 63 (drop_item_fresh drop_data_zero)\<rparr>"

lemma drop_started_init: "drop_Init True drop_config drop_new = Inr (True, drop_started)"
  by code_simp

abbreviation quiet :: "unit listener" where
  "quiet \<equiv> \<lambda>e a h w. Inr w"

abbreviation no_pos :: "u32 \<Rightarrow> drop_pos" where
  "no_pos \<equiv> \<lambda>k. \<lparr>dp_index = 0, dp_pos = vec3_of 0 0 0\<rparr>"

text \<open>The same manager after one update: two coins on the track.\<close>

definition two_coins :: drop_mgr where
  "two_coins = drop_started\<lparr>gID := 2,
     m_AliveDropItem := [\<lparr>mID = 0, mPosition = no_pos 0, mIndex = 0\<rparr>, \<lparr>mID = 1, mPosition = no_pos 0, mIndex = 0\<rparr>],
     mAllDropItem := (mAllDropItem drop_started)[0 := (mAllDropItem drop_started ! 0)
        \<lparr>mRefreshIndex := 2, mCount := 2, mInitRefresh := True\<rparr>]\<rparr>"

lemma two_coins_run: "drop_Update drop_config quiet no_pos 1 (drop_started, ()) = Inr (two_coins, ())"
  by code_simp

lemma two_coins_alive: "m_AliveDropItem two_coins =
    [\<lparr>mID = 0, mPosition = no_pos 0, mIndex = 0\<rparr>, \<lparr>mID = 1, mPosition = no_pos 0, mIndex = 0\<rparr>]"
  by (simp add: two_coins_def)

section \<open>Properties\<close>

text \<open>
  C15: during one game, from \<open>Init\<close> on an empty track, whatever updates and takings happen in
  whatever order, the items on the track have different identifiers and known kinds, and of each
  kind there are never more than its configured initial or maximal count, whichever is larger.
  \<open>B\<close> bounds the initial counts, so that the 32-bit identifiers do not wrap.
\<close>

theorem drop_population:
  assumes "drop_Init True c m0 = Inr (True, m1)" "cfg_ok c"
    and "length (mAllDropItem m0) = 64" "m_AliveDropItem m0 = []"
    and "\<forall>d \<in> set (take (nat (m_DropItemCount c)) (m_DropItemData c)). mInitCount d \<le> int B"
    and "64 * (B + 1) * length ops < 2 ^ 32"
    and "foldE (run_drop_op c ev junk) ops (m1, w) = Inr (m2, w2)"
  shows "distinct (map mID (m_AliveDropItem m2))
    \<and> (\<forall>a \<in> set (m_AliveDropItem m2). 0 \<le> mIndex a \<and> mIndex a < m_DropItemCount c)
    \<and> (\<forall>i < nat (m_DropItemCount c). int (alive_of i m2) \<le> kind_limit (m_DropItemData c ! i))"
proof -
  obtain ds where ds: "drop_inv ds 0 m1" "mAllDropTtemCount m1 = m_DropItemCount c"
    "\<And>i. i < nat (m_DropItemCount c) \<Longrightarrow> ds ! i = m_DropItemData c ! i"
    using drop_Init_inv [OF assms(1-4)] by blast
  have "mInitCount (ds ! i) \<le> int B" if "i < nat (m_DropItemCount c)" for i
  proof -
    have "m_DropItemData c ! i \<in> set (take (nat (m_DropItemCount c)) (m_DropItemData c))"
      using that cfg_okD(3,8) [OF assms(2)] by (auto simp: in_set_conv_nth intro!: exI [of _ i])
    then show ?thesis using assms(5) ds(3) [OF that] by simp
  qed
  then have run: "drop_inv ds (64 * (B + 1) * length ops) m2" "mAllDropTtemCount m2 = m_DropItemCount c"
    using drop_run_inv [OF assms(7) ds(1) _ assms(6)] ds(2) by auto
  note s = drop_invD [OF run(1)]
  have "distinct (map mID (m_AliveDropItem m2))"
    using s(2) by (simp add: ids_ok_def strict_sorted_iff)
  moreover have "int (alive_of i m2) \<le> kind_limit (m_DropItemData c ! i)"
    if "i < nat (m_DropItemCount c)" for i
    using s(3) run(2) that drop_inv_data [OF run(1), of i] ds(3) [OF that] cfg_okD(3) [OF assms(2)]
    by (force simp: kinds_ok_def kind_ok_def Let_def)
  ultimately show ?thesis using drop_shapeD(5) [OF s(1)] run(2) by auto
qed

theorem drop_population_witness:
  "\<exists>m2. foldE (run_drop_op drop_config quiet no_pos) [OpUpdate 1, OpGet 0] (drop_started, ()) = Inr (m2, ())
     \<and> map mID (m_AliveDropItem m2) = [1] \<and> distinct (map mID (m_AliveDropItem m2))"
proof -
  let ?m2 = "snd (GetDropItem_id 0 True two_coins)"
  have run: "foldE (run_drop_op drop_config quiet no_pos) [OpUpdate 1, OpGet 0] (drop_started, ())
      = Inr (?m2, ())"
    by (simp add: two_coins_run)
  have "length (mAllDropItem drop_new) = 64" "m_AliveDropItem drop_new = []"
    "\<forall>d \<in> set (take (nat (m_DropItemCount drop_config)) (m_DropItemData drop_config)). mInitCount d \<le> int 2"
    by (simp_all add: drop_new_def drop_config_def config_blank_def take_Cons')
  note p = drop_population [OF drop_started_init drop_config_ok this _ run]
  have "map mID (m_AliveDropItem ?m2) = [1]" by code_simp
  with run p show ?thesis by (intro exI [of _ ?m2]) simp
qed

text \<open>
  taking an item by its identifier finds nothing exactly when no item on the track has that
  identifier; otherwise, with different identifiers, it returns the kind of that very item and
  takes exactly it off the track, and without \<open>remove\<close> the track stays as it is.
\<close>

lemma GetDropItem_id_exact:
  assumes "distinct (map mID (m_AliveDropItem m))"
  shows "(fst (GetDropItem_id k r m) = None \<longleftrightarrow> (\<forall>a \<in> set (m_AliveDropItem m). mID a \<noteq> k))
    \<and> (\<forall>a \<in> set (m_AliveDropItem m). mID a = k \<longrightarrow> fst (GetDropItem_id k r m) = Some (mIndex a)
         \<and> set (m_AliveDropItem (snd (GetDropItem_id k True m))) = set (m_AliveDropItem m) - {a})
    \<and> snd (GetDropItem_id k False m) = m"
proof (cases "List.find (\<lambda>i. mID (m_AliveDropItem m ! i) = k) (rev [0..<length (m_AliveDropItem m)])")
  case None
  then have "\<forall>i < length (m_AliveDropItem m). mID (m_AliveDropItem m ! i) \<noteq> k"
    by (auto simp: find_None_iff)
  then have "\<forall>a \<in> set (m_AliveDropItem m). mID a \<noteq> k" by (auto simp: in_set_conv_nth)
  then show ?thesis by (simp add: GetDropItem_id_def None)
next
  case (Some i)
  let ?xs = "m_AliveDropItem m"
  from find_last_SomeD [OF Some] have i: "i < length ?xs" "mID (?xs ! i) = k" by auto
  have uniq: "a = ?xs ! i" if "a \<in> set ?xs" "mID a = k" for a
    using assms that i nth_mem [OF i(1)] by (auto simp: distinct_map dest: inj_onD)
  have "set (erase_at i ?xs) = set ?xs - {?xs ! i}"
  proof -
    have d: "distinct ?xs" using assms by (simp add: distinct_map)
    have xs: "?xs = take i ?xs @ ?xs ! i # drop (Suc i) ?xs" using i(1) by (simp add: id_take_nth_drop)
    have "distinct (take i ?xs @ ?xs ! i # drop (Suc i) ?xs)" using d xs by simp
    moreover have "set ?xs = set (take i ?xs @ ?xs ! i # drop (Suc i) ?xs)" using xs by simp
    ultimately show ?thesis by (auto simp: erase_at_def)
  qed
  with i uniq show ?thesis
    by (auto simp: GetDropItem_id_def Some)
qed

text \<open>
  \<open>Init\<close> restarts the identifiers but leaves the items of the previous game on the track: if
  an item with identifier 0 was left over, the first item of the new game gets the same
  identifier, and a client that takes item 0 takes only one of the two.
\<close>

lemma restart_duplicates_ids:
  assumes "drop_Init True c m = Inr (True, m1)" "a \<in> set (m_AliveDropItem m)" "mID a = 0"
    and "CreateDropItem c ev junk i (m1, w) = Inr (m2, w2)" "0 \<le> i" "i < m_DropItemCount c"
  shows "\<not> distinct (map mID (m_AliveDropItem m2))
    \<and> (\<exists>b \<in> set (m_AliveDropItem (snd (GetDropItem_id 0 True m2))). mID b = 0)"
proof -
  from assms(1) have m1: "m_AliveDropItem m1 = m_AliveDropItem m" "gID m1 = 0"
    "mAllDropTtemCount m1 = m_DropItemCount c"
    by (auto simp: drop_Init_def)
  have "CreateDropItem c ev junk (int (nat i)) (m1, w) = Inr (m2, w2)" using assms(4,5) by simp
  then obtain p where p: "m2 = created (nat i) p m1"
    using CreateDropItem_created assms(5,6) m1(3) by (metis int_nat_eq)
  then have al: "m_AliveDropItem m2 = m_AliveDropItem m @ [\<lparr>mID = 0, mPosition = p, mIndex = int (nat i)\<rparr>]"
    using m1 by (simp add: created_def Let_def)
  let ?n = "length (m_AliveDropItem m)"
  have "\<exists>j. List.find (\<lambda>i. mID (m_AliveDropItem m2 ! i) = 0) (rev [0..<length (m_AliveDropItem m2)]) = Some ?n"
    by (simp add: al nth_append)
  then have "m_AliveDropItem (snd (GetDropItem_id 0 True m2)) = m_AliveDropItem m"
    by (simp add: GetDropItem_id_def erase_at_def al)
  with assms(2,3) show ?thesis by (auto simp: al rev_image_eqI)
qed

text \<open>
  taking by identifier, the only way clients of the current protocol take items, never makes
  room for a new item: once every placed kind has reached its maximum, no later update creates
  anything, however many items were taken, and the track only empties.
\<close>

lemma taken_by_id_never_respawns:
  assumes "drop_shape m"
    and full: "\<forall>x \<in> set (mAllDropItem m). mSet (mData x) \<longrightarrow> mInitRefresh x \<and> mMaxCount (mData x) \<le> mCount x"
    and "foldE (run_drop_op c ev junk) ops (m, w) = Inr (m2, w2)"
    and "\<forall>x \<in> set ops. \<forall>pos h. x \<noteq> OpNear pos h"
  shows "gID m2 = gID m \<and> set (m_AliveDropItem m2) \<subseteq> set (m_AliveDropItem m) \<and> w2 = w"
proof -
  let ?full = "\<lambda>u. \<forall>x \<in> set (mAllDropItem u). mSet (mData x) \<longrightarrow>
      mInitRefresh x \<and> mMaxCount (mData x) \<le> mCount x"
  let ?I = "\<lambda>(u, v). drop_shape u \<and> ?full u \<and> gID u = gID m
      \<and> set (m_AliveDropItem u) \<subseteq> set (m_AliveDropItem m) \<and> v = w"
  have item: "?I s'" if s: "?I s" "drop_update_item c ev junk t (int i) s = Inr s'" "i < 64" for s s' t i
  proof -
    obtain u v where uv: "s = (u, v)" by (cases s)
    let ?x = "mAllDropItem u ! i"
    from s(1) have sh: "drop_shape u" and f: "?full u" by (auto simp: uv)
    note acc = item_access [OF sh s(3)]
    have mem: "?x \<in> set (mAllDropItem u)" using drop_shapeD(2) [OF sh] s(3) by simp
    show ?thesis
    proof (cases "mSet (mData ?x)")
      case True
      then have x: "mInitRefresh ?x" "\<not> mCount ?x < mMaxCount (mData ?x)" using f mem by auto
      then have "s' = (u\<lparr>mAllDropItem := (mAllDropItem u)[i := ?x\<lparr>mRefreshTimer := 0\<rparr>]\<rparr>, v)"
        using s(2) True acc
        by (simp add: uv drop_update_item_def drop_first_refresh_def drop_timed_refresh_def)
      moreover have "?full (u\<lparr>mAllDropItem := (mAllDropItem u)[i := ?x\<lparr>mRefreshTimer := 0\<rparr>]\<rparr>)"
        using set_update_bound [OF f, of "?x\<lparr>mRefreshTimer := 0\<rparr>" i] x by simp
      ultimately show ?thesis using s(1) by (auto simp: uv drop_shape_def)
    next
      case False
      then have "s' = s" using s(2) acc by (simp add: uv drop_update_item_def)
      with s(1) show ?thesis by simp
    qed
  qed
  have "?I (m2, w2)"
  proof (rule foldE_invariant [OF assms(3)])
    show "?I (m, w)" using assms(1,2) by simp
  next
    fix x s s' assume x: "x \<in> set ops" "?I s" "run_drop_op c ev junk x s = Inr s'"
    obtain u v where uv: "s = (u, v)" by (cases s)
    show "?I s'"
    proof (cases x)
      case (OpUpdate t)
      have "foldE (drop_update_item c ev junk t) (map int [0..<nat (mAllDropTtemCount u)]) s = Inr s'"
        using x(2,3) OpUpdate drop_shapeD(1) [of u] by (simp add: uv drop_Update_def)
      then show ?thesis using x(2)
      proof (rule foldE_invariant)
        fix k r r' assume k: "k \<in> set (map int [0..<nat (mAllDropTtemCount u)])" "?I r"
          "drop_update_item c ev junk t k r = Inr r'"
        have "drop_shape u" using x(2) by (simp add: uv)
        with k(1) obtain i where "k = int i" "i < 64" using drop_shapeD(4) [of u] by auto
        with k(2,3) show "?I r'" using item by simp
      qed
    next
      case (OpNear pos h)
      with assms(4) x(1) show ?thesis by blast
    next
      case (OpGet k)
      have "drop_shape u" using x(2) by (simp add: uv)
      then have "drop_shape (snd (GetDropItem_id k True u))" by (rule GetDropItem_id_frame)
      moreover have "s' = (snd (GetDropItem_id k True u), v)" using x(3) OpGet by (simp add: uv)
      ultimately show ?thesis
        using x(2) subset_trans [OF GetDropItem_id_frame(2) [of k True u]]
        by (simp add: uv GetDropItem_id_frame(3,4))
    qed
  qed
  then show ?thesis by simp
qed

end
