(* ===== verification/RoadChecker.thy ===== *)
theory RoadChecker
  imports GameConfig
begin

text \<open>
  The lap checker, \<^verbatim>\<open>RaceRoadChecker.h\<close> and \<^verbatim>\<open>RaceRoadChecker.cpp\<close>: a copy of the configured
  check points, the test whether a position is on one of them, and the direction in which the
  road leads from one point to the next. Local vectors the code leaves uninitialised are
  arguments of the definitions (\<open>j1\<close>, \<open>j2\<close>: what the stack holds there).
\<close>

section \<open>State and operations\<close>

record road_mgr =
  m_AllPoint :: "checker_point list"
  m_PointCount :: int

definition road_points :: "road_mgr \<Rightarrow> checker_point list" where
  "road_points m = take (nat (m_PointCount m)) (m_AllPoint m)"

definition on_point :: "vec3 \<Rightarrow> checker_point \<Rightarrow> bool" where
  "on_point pos cp = (Length (vec3_sub pos (cp_Position cp)) \<le> cp_Radius cp)"

definition Check :: "vec3 \<Rightarrow> road_mgr \<Rightarrow> checker_point option res" where
  "Check pos m =
     (if int (length (m_AllPoint m)) < m_PointCount m then Inl OutOfBounds
      else Inr (List.find (on_point pos) (road_points m)))"

definition road_Init :: "config \<Rightarrow> road_mgr \<Rightarrow> road_mgr res" where
  "road_Init c m =
     rbind (CopyCheckPointData (m_AllPoint m) (int MAX_CHECK_POINT_COUNT) c)
       (\<lambda>(ok, pts, n). Inr (m\<lparr>m_AllPoint := pts, m_PointCount := n\<rparr>))"

text \<open>
  The loop that \<open>GetDir\<close> and \<open>CheckDir\<close> share: it walks over the points, remembers the last
  positions seen at \<open>next\<close> and \<open>next - 1\<close>, and stops once two were found.
\<close>

fun dir_scan :: "int \<Rightarrow> checker_point list \<Rightarrow> vec3 \<times> vec3 \<times> nat \<Rightarrow> vec3 \<times> vec3 \<times> nat" where
  "dir_scan nx [] s = s"
| "dir_scan nx (p # ps) (v1, v2, n) =
     (let s' = (if cp_Index p = nx then (v1, cp_Position p, n + 1)
                else if cp_Index p = nx - 1 then (cp_Position p, v2, n + 1)
                else (v1, v2, n))
      in if snd (snd s') = 2 then s' else dir_scan nx ps s')"

definition GetDir :: "vec3 \<Rightarrow> vec3 \<Rightarrow> vec3 \<Rightarrow> int \<Rightarrow> road_mgr \<Rightarrow> vec3" where
  "GetDir j1 j2 ret nx m =
     (let (v1, v2, n) = dir_scan nx (road_points m) (j1, j2, 0)
      in if n = 2 then Normalize (vec3_sub v2 v1) else ret)"

definition CheckDir :: "vec3 \<Rightarrow> vec3 \<Rightarrow> vec3 \<Rightarrow> vec3 \<Rightarrow> int \<Rightarrow> road_mgr \<Rightarrow> bool \<times> vec3" where
  "CheckDir j1 j2 run_dir target_postion nx m =
     (let (v1, v2, n) = dir_scan nx (road_points m) (j1, j2, 0);
          right_dir = Normalize (vec3_sub v2 v1);
          run_dir' = Normalize run_dir
      in (- f32_lit 1 2 < Dot run_dir' right_dir, right_dir))"

section \<open>Lemmas\<close>

lemma road_Init_ok:
  assumes "cfg_ok c" "length (m_AllPoint m) = 128"
  shows "\<exists>m'. road_Init c m = Inr m'
    \<and> road_points m' = take (nat (m_CheckerPointCount c)) (m_CheckerPointArray c)
    \<and> m_PointCount m' = m_CheckerPointCount c \<and> length (m_AllPoint m') = 128"
  using cfg_okD [OF assms(1)] assms(2)
  by (auto simp: road_Init_def CopyCheckPointData_def arr_copy_def road_points_def cfg_consts)

lemma dir_scan_skip:
  "\<forall>p\<in>set ps. cp_Index p \<noteq> nx \<and> cp_Index p \<noteq> nx - 1 \<Longrightarrow> snd (snd s) \<noteq> 2 \<Longrightarrow>
     dir_scan nx (ps @ qs) s = dir_scan nx qs s"
  by (induction ps arbitrary: s) (auto simp: Let_def split: prod.splits)

lemma dir_scan_none:
  "\<forall>p\<in>set ps. cp_Index p \<noteq> nx \<and> cp_Index p \<noteq> nx - 1 \<Longrightarrow> snd (snd s) \<noteq> 2 \<Longrightarrow> dir_scan nx ps s = s"
  using dir_scan_skip [of ps nx s "[]"] by simp

text \<open>With distinct indices the scan finds the two points, in whatever order they are stored.\<close>

lemma dir_scan_distinct:
  assumes "distinct (map cp_Index ps)" and "p \<in> set ps" "q \<in> set ps"
    and "cp_Index p = nx - 1" "cp_Index q = nx"
  shows "dir_scan nx ps (j1, j2, 0) = (cp_Position p, cp_Position q, 2)"
proof -
  have uniq: "\<And>x y. x \<in> set ps \<Longrightarrow> y \<in> set ps \<Longrightarrow> cp_Index x = cp_Index y \<Longrightarrow> x = y"
    using assms(1) by (auto simp: distinct_map inj_on_def)
  have "p \<noteq> q" using assms(4,5) by auto
  have dp: "distinct ps" using assms(1) by (simp add: distinct_map)
  have other: "\<And>x. x \<in> set ps \<Longrightarrow> x \<noteq> p \<Longrightarrow> x \<noteq> q \<Longrightarrow> cp_Index x \<noteq> nx \<and> cp_Index x \<noteq> nx - 1"
    using uniq [OF _ assms(2)] uniq [OF _ assms(3)] assms(4,5) by metis
  from assms(2) obtain as bs where ps: "ps = as @ p # bs" by (auto dest: split_list)
  show ?thesis
  proof (cases "q \<in> set as")
    case True
    then obtain cs ds where as: "as = cs @ q # ds" by (auto dest: split_list)
    have *: "\<forall>x\<in>set cs \<union> set ds. x \<in> set ps \<and> x \<noteq> p \<and> x \<noteq> q"
      using dp by (auto simp: ps as)
    have "\<forall>x\<in>set cs. cp_Index x \<noteq> nx \<and> cp_Index x \<noteq> nx - 1"
      "\<forall>x\<in>set ds. cp_Index x \<noteq> nx \<and> cp_Index x \<noteq> nx - 1"
      using * other by blast+
    then show ?thesis using assms(4,5) by (simp add: ps as dir_scan_skip Let_def)
  next
    case False
    with assms(3) ps \<open>p \<noteq> q\<close> obtain cs ds where bs: "bs = cs @ q # ds"
      by (auto dest: split_list)
    have *: "\<forall>x\<in>set as \<union> set cs. x \<in> set ps \<and> x \<noteq> p \<and> x \<noteq> q"
      using dp by (auto simp: ps bs)
    have "\<forall>x\<in>set as. cp_Index x \<noteq> nx \<and> cp_Index x \<noteq> nx - 1"
      "\<forall>x\<in>set cs. cp_Index x \<noteq> nx \<and> cp_Index x \<noteq> nx - 1"
      using * other by blast+
    then show ?thesis using assms(4,5) by (simp add: ps bs dir_scan_skip Let_def)
  qed
qed

lemma dir_scan_first:
  assumes "distinct (map cp_Index ps)" "\<forall>p\<in>set ps. 0 \<le> cp_Index p" "q \<in> set ps" "cp_Index q = 0"
  shows "dir_scan 0 ps (j1, j2, 0) = (j1, cp_Position q, 1)"
proof -
  from assms(3) obtain as bs where ps: "ps = as @ q # bs" by (auto dest: split_list)
  have "\<forall>x\<in>set as. cp_Index x \<noteq> 0 \<and> cp_Index x \<noteq> 0 - 1"
    "\<forall>x\<in>set bs. cp_Index x \<noteq> 0 \<and> cp_Index x \<noteq> 0 - 1"
    using assms ps by force+
  then show ?thesis using assms(4) by (simp add: ps dir_scan_skip dir_scan_none Let_def)
qed

text \<open>A straight road of three points, for the witnesses.\<close>

definition road_example :: road_mgr where
  "road_example = \<lparr>m_AllPoint =
     [\<lparr>cp_Position = vec3_of 0 0 0, cp_Radius = 1, cp_Index = 0, cp_EndPoint = False\<rparr>,
      \<lparr>cp_Position = vec3_of (f32_of_int 10) 0 0, cp_Radius = 1, cp_Index = 1, cp_EndPoint = False\<rparr>,
      \<lparr>cp_Position = vec3_of (f32_of_int 20) 0 0, cp_Radius = 1, cp_Index = 2, cp_EndPoint = True\<rparr>],
     m_PointCount = 3\<rparr>"

section \<open>Properties\<close>

text \<open>
  \<open>Check\<close> reports the first configured point whose sphere holds the position, and nothing
  exactly when no sphere does.
\<close>

lemma Check_finds_first:
  assumes "m_PointCount m \<le> int (length (m_AllPoint m))"
  shows "(Check pos m = Inr None \<longleftrightarrow> (\<forall>p\<in>set (road_points m). \<not> on_point pos p))
    \<and> (Check pos m = Inr (Some p) \<longleftrightarrow>
        (\<exists>i<length (road_points m). road_points m ! i = p \<and> on_point pos p
          \<and> (\<forall>k<i. \<not> on_point pos (road_points m ! k))))"
  using assms by (auto simp: Check_def find_None_iff find_Some_iff)

text \<open>
  the direction of the road between two consecutive points is the normalised difference of
  their positions, for \<open>GetDir\<close> and \<open>CheckDir\<close> alike, whatever order the points are stored in
  and whatever uninitialised memory holds.
\<close>

lemma road_direction:
  assumes "distinct (map cp_Index (road_points m))"
    and "p \<in> set (road_points m)" "q \<in> set (road_points m)"
    and "cp_Index p = nx - 1" "cp_Index q = nx"
  shows "GetDir j1 j2 ret nx m = Normalize (vec3_sub (cp_Position q) (cp_Position p))
    \<and> CheckDir j1 j2 d t nx m =
        (- f32_lit 1 2 < Dot (Normalize d) (Normalize (vec3_sub (cp_Position q) (cp_Position p))),
         Normalize (vec3_sub (cp_Position q) (cp_Position p)))"
  by (simp add: GetDir_def CheckDir_def Let_def dir_scan_distinct [OF assms])

text \<open>
  C18: at the start of a lap the direction check reads uninitialised memory: with \<open>next = 0\<close>,
  which \<open>OnPlayerMove\<close> passes while no point is tagged, no stored point has index \<open>-1\<close>, so the
  direction sent to the clients is computed from the indeterminate vector \<open>v1\<close>.
\<close>

theorem lap_start_direction_indeterminate:
  assumes "distinct (map cp_Index (road_points m))" "\<forall>p\<in>set (road_points m). 0 \<le> cp_Index p"
    and "q \<in> set (road_points m)" "cp_Index q = 0"
  shows "snd (CheckDir j1 j2 d t 0 m) = Normalize (vec3_sub (cp_Position q) j1)"
  by (simp add: CheckDir_def Let_def dir_scan_first [OF assms])

theorem lap_start_direction_indeterminate_witness:
  "snd (CheckDir (vec3_of (- f32_of_int 4) 0 0) (vec3_of 0 0 0) (vec3_of 1 0 0) (vec3_of 0 0 0) 0 road_example)
     = vec3_of 1 0 0
   \<and> snd (CheckDir (vec3_of (f32_of_int 4) 0 0) (vec3_of 0 0 0) (vec3_of 1 0 0) (vec3_of 0 0 0) 0 road_example)
     = vec3_of (- 1) 0 0"
proof -
  have "distinct (map cp_Index (road_points road_example))"
    "\<forall>p\<in>set (road_points road_example). 0 \<le> cp_Index p"
    "m_AllPoint road_example ! 0 \<in> set (road_points road_example)"
    "cp_Index (m_AllPoint road_example ! 0) = 0"
    by (simp_all add: road_points_def road_example_def)
  note * = lap_start_direction_indeterminate [OF this]
  show ?thesis unfolding * by code_simp
qed

end
