(* ===== verification/World.thy ===== *)
theory World
  imports ObjectPool DropItems RoadChecker
begin

text \<open>
  The global state of the game server and what it shares between its parts: the client object
  (\<^verbatim>\<open>client.h\<close>), the one \<open>Server\<close>, \<open>Game\<close> and \<open>GameConfig\<close> object of the process as one record,
  the messages of the protocol (\<^verbatim>\<open>game.h\<close>), and the interface of \<^verbatim>\<open>NetworkConnection.h\<close>, whose
  implementation is a prebuilt library: reading a message, \<open>Disconnect\<close> and the rest are fields
  of a record \<open>netlib\<close>, an argument of every definition that uses them. What the program writes
  and sends is recorded in \<open>outp\<close>, one entry for each \<open>BeginWrite\<close> to \<open>EndWrite\<close>. A \<open>Client*\<close> is
  the index of the client in the pool's array.
\<close>

section \<open>Messages\<close>

datatype wr =
    WByte u8 | WUInt u32 | WInt int | WShort u16 | WFloat f32 | WBool bool
  | WVector3 vec3 | WString bytes | WData bytes

datatype effect =
    Sent nat "wr list"    \<comment> \<open>a message written to the stream of a client\<close>
  | RawSend nat u32       \<comment> \<open>\<open>connection->Send(&uid, 4)\<close>\<close>
  | Disconnecting nat     \<comment> \<open>\<open>connection->Disconnect()\<close> was requested\<close>

definition SM_LAOD_GAME_MAP :: u8 where "SM_LAOD_GAME_MAP = 1"
definition SM_GAME_START :: u8 where "SM_GAME_START = 2"
definition SM_PLAYER_MOVE :: u8 where "SM_PLAYER_MOVE = 3"
definition SM_GAME_BALANCE :: u8 where "SM_GAME_BALANCE = 4"
definition SM_GAME_END :: u8 where "SM_GAME_END = 5"
definition SM_PLAYER_AVATAR_DATA :: u8 where "SM_PLAYER_AVATAR_DATA = 6"
definition SM_SELECT_GAME_MAP :: u8 where "SM_SELECT_GAME_MAP = 7"
definition SM_GAME_SYNC_TIME :: u8 where "SM_GAME_SYNC_TIME = 8"
definition SM_CREATE_DROP_ITEM :: u8 where "SM_CREATE_DROP_ITEM = 9"
definition SM_REMOVE_DROP_ITEM :: u8 where "SM_REMOVE_DROP_ITEM = 10"
definition SM_PLSYER_RUN_DIR_ERROR :: u8 where "SM_PLSYER_RUN_DIR_ERROR = 11"
definition SM_GAME_STATE_ERROR :: u8 where "SM_GAME_STATE_ERROR = 12"
definition SM_SYNC_RANK_SCORE :: u8 where "SM_SYNC_RANK_SCORE = 13"

lemmas SM_defs = SM_LAOD_GAME_MAP_def SM_GAME_START_def SM_PLAYER_MOVE_def SM_GAME_BALANCE_def
  SM_GAME_END_def SM_PLAYER_AVATAR_DATA_def SM_SELECT_GAME_MAP_def SM_GAME_SYNC_TIME_def
  SM_CREATE_DROP_ITEM_def SM_REMOVE_DROP_ITEM_def SM_PLSYER_RUN_DIR_ERROR_def
  SM_GAME_STATE_ERROR_def SM_SYNC_RANK_SCORE_def

definition CM_REQUEST_LOAD_MAP :: u8 where "CM_REQUEST_LOAD_MAP = 1"
definition CM_GAME_MAP_LOADED :: u8 where "CM_GAME_MAP_LOADED = 2"
definition CM_PLAYER_MOVE :: u8 where "CM_PLAYER_MOVE = 3"
definition CM_OB_PLAYER_JOIN :: u8 where "CM_OB_PLAYER_JOIN = 4"
definition CM_PLAYER_AVATAR_DATA :: u8 where "CM_PLAYER_AVATAR_DATA = 5"
definition CM_SELECT_GAME_MAP :: u8 where "CM_SELECT_GAME_MAP = 6"
definition CM_COMMIT_SCORE :: u8 where "CM_COMMIT_SCORE = 7"
definition CM_STOP_GAME :: u8 where "CM_STOP_GAME = 8"
definition CM_GET_DROP_ITEM :: u8 where "CM_GET_DROP_ITEM = 9"

lemmas CM_defs = CM_REQUEST_LOAD_MAP_def CM_GAME_MAP_LOADED_def CM_PLAYER_MOVE_def
  CM_OB_PLAYER_JOIN_def CM_PLAYER_AVATAR_DATA_def CM_SELECT_GAME_MAP_def CM_COMMIT_SCORE_def
  CM_STOP_GAME_def CM_GET_DROP_ITEM_def

text \<open>The flags of a move message are the bits 0 to 6 of its first byte.\<close>

definition MOVE_FLAG_INPUT_STEER :: u8 where "MOVE_FLAG_INPUT_STEER = push_bit 0 1"
definition MOVE_FLAG_INPUT_BRAKE :: u8 where "MOVE_FLAG_INPUT_BRAKE = push_bit 1 1"
definition MOVE_FLAG_INPUT_RUN :: u8 where "MOVE_FLAG_INPUT_RUN = push_bit 2 1"
definition MOVE_FLAG_POSE_POSTION :: u8 where "MOVE_FLAG_POSE_POSTION = push_bit 3 1"

section \<open>The states of a game\<close>

datatype game_state = GNone | Wait | Load | Play | Balance | SyncScore | Show

fun gs_code :: "game_state \<Rightarrow> nat" where
  "gs_code GNone = 0" | "gs_code Wait = 1" | "gs_code Load = 2" | "gs_code Play = 3"
| "gs_code Balance = 4" | "gs_code SyncScore = 5" | "gs_code Show = 6"

lemma gs_code_inj: "gs_code a = gs_code b \<Longrightarrow> a = b"
  by (cases a; cases b) simp_all

text \<open>The enumerators are ordered by their values, as the comparison \<open>m_GameState > Load\<close> uses.\<close>

instantiation game_state :: linorder
begin

definition less_eq_game_state :: "game_state \<Rightarrow> game_state \<Rightarrow> bool" where
  "a \<le> b = (gs_code a \<le> gs_code b)"

definition less_game_state :: "game_state \<Rightarrow> game_state \<Rightarrow> bool" where
  "a < b = (gs_code a < gs_code b)"

instance
  by standard (auto simp: less_eq_game_state_def less_game_state_def dest: gs_code_inj)

end

section \<open>State\<close>

datatype conn = TcpSock | UdpSock

text \<open>\<open>rbuf\<close> is the part of the current message from \<open>read_position\<close> to \<open>read_end\<close>.\<close>

record client = obj +
  m_UdpGUID :: u64
  m_ConnectionType :: u8
  connection :: "conn option"
  tcp_stream :: bool
  udp_stream :: bool
  rbuf :: bytes
  m_UserOpenId :: bytes
  m_UserName :: bytes
  m_UserHeadImgUrl :: bytes
  m_CarData :: bytes
  m_SetUserInfo :: bool
  m_Heart :: f32
  m_IsObClient :: bool
  m_CommitScore :: bool
  m_MapLoaded :: bool
  m_RevciveUID :: bool
  m_Complete :: bool
  m_CoinCount :: int
  m_DBCoinCount :: int
  m_DBCompleteTime :: f32
  m_RoadCheckerTag :: u64
  m_LastCheckIndex :: u64
  m_CheckerPosition :: vec3
  m_Position :: vec3
  m_Rotation :: vec3
  m_IdlePostion :: vec3

record world =
  m_ClientPool :: "client pool"
  m_UdpClientMap :: "(u64 \<times> nat option) list"
  m_HeartTime :: int
  m_CheckConnection :: bool
  gConfig :: config
  m_GameState :: game_state
  m_MapDataLen :: int
  m_BrithIndex :: int
  m_MapData :: bytes
  m_GameTotleTime :: f32
  m_GameSyncTime :: f32
  m_GameShowTime :: f32
  m_GameRunTime :: f32
  m_RestartTimer :: f32
  m_DropManager :: drop_mgr
  m_RoadCheckerManager :: road_mgr
  outp :: "effect list"

definition MAX_MAP_DATA_LEN :: int where "MAX_MAP_DATA_LEN = 1024 * 128"

text \<open>
  The network library: the readers take the unread bytes and the old value of the variable they
  read into, and return its new value and the bytes that stay unread. The \<open>jk_\<close> fields are what
  uninitialised local variables hold.
\<close>

record 'w netlib =
  rd_byte :: "bytes \<Rightarrow> u8 \<Rightarrow> u8 \<times> bytes"
  rd_uint :: "bytes \<Rightarrow> u32 \<Rightarrow> u32 \<times> bytes"
  rd_float :: "bytes \<Rightarrow> f32 \<Rightarrow> f32 \<times> bytes"
  rd_vector3 :: "bytes \<Rightarrow> vec3 \<Rightarrow> vec3 \<times> bytes"
  rd_string :: "bytes \<Rightarrow> bytes \<Rightarrow> bytes \<times> bytes"
  rd_chars :: "bytes \<Rightarrow> nat \<Rightarrow> bytes \<times> bytes"
  nl_disconnect :: "nat \<Rightarrow> 'w \<Rightarrow> 'w res"
  nl_reset :: "nat \<Rightarrow> 'w \<Rightarrow> 'w"
  main_thread :: bool
  jk_byte :: u8
  jk_uint :: u32
  jk_float :: f32
  jk_vec1 :: vec3
  jk_vec2 :: vec3
  jk_vec3 :: vec3
  jk_pos :: "u32 \<Rightarrow> drop_pos"

type_synonym lib = "world netlib"

section \<open>Access\<close>

definition psize :: "world \<Rightarrow> nat" where
  "psize w = unat (Size (m_ClientPool w))"

definition cl :: "world \<Rightarrow> nat \<Rightarrow> client" where
  "cl w i = data_array (m_ClientPool w) ! i"

definition upd_client :: "nat \<Rightarrow> (client \<Rightarrow> client) \<Rightarrow> world \<Rightarrow> world" where
  "upd_client i f w = w\<lparr>m_ClientPool := (m_ClientPool w)
     \<lparr>data_array := (data_array (m_ClientPool w))[i := f (cl w i)]\<rparr>\<rparr>"

definition emit :: "effect \<Rightarrow> world \<Rightarrow> world" where
  "emit e w = w\<lparr>outp := outp w @ [e]\<rparr>"

definition IsValid :: "client \<Rightarrow> bool" where
  "IsValid c = (connection c \<noteq> None \<and> (m_SetUserInfo c \<or> m_IsObClient c))"

definition GetGUID :: "client \<Rightarrow> u64" where
  "GetGUID c = (if m_ConnectionType c = 1 then ucast (uid c) else m_UdpGUID c)"

text \<open>
  The loop every broadcast of the program has: over the whole pool, a message to each valid
  client, built by \<open>msg\<close> from the state and the client's index.
\<close>

definition send_valid :: "(world \<Rightarrow> nat \<Rightarrow> wr list) \<Rightarrow> nat \<Rightarrow> world \<Rightarrow> world" where
  "send_valid msg i w = (if IsValid (cl w i) then emit (Sent i (msg w i)) w else w)"

definition broadcast :: "(world \<Rightarrow> nat \<Rightarrow> wr list) \<Rightarrow> world \<Rightarrow> world" where
  "broadcast msg w = fold (send_valid msg) [0..<psize w] w"

section \<open>Lemmas\<close>

text \<open>The clients the program may talk to, in the order of the pool.\<close>

definition valid_clients :: "world \<Rightarrow> nat list" where
  "valid_clients w = filter (\<lambda>i. IsValid (cl w i)) [0..<psize w]"

definition players_of :: "world \<Rightarrow> nat list" where
  "players_of w = filter (\<lambda>i. IsValid (cl w i) \<and> \<not> m_IsObClient (cl w i)) [0..<psize w]"

lemma emit_sel [simp]:
  "m_ClientPool (emit e w) = m_ClientPool w" "m_UdpClientMap (emit e w) = m_UdpClientMap w"
  "gConfig (emit e w) = gConfig w" "m_GameState (emit e w) = m_GameState w"
  "m_MapDataLen (emit e w) = m_MapDataLen w" "m_BrithIndex (emit e w) = m_BrithIndex w"
  "m_MapData (emit e w) = m_MapData w" "m_GameTotleTime (emit e w) = m_GameTotleTime w"
  "m_GameSyncTime (emit e w) = m_GameSyncTime w" "m_GameShowTime (emit e w) = m_GameShowTime w"
  "m_GameRunTime (emit e w) = m_GameRunTime w" "m_RestartTimer (emit e w) = m_RestartTimer w"
  "m_DropManager (emit e w) = m_DropManager w" "m_HeartTime (emit e w) = m_HeartTime w"
  "m_RoadCheckerManager (emit e w) = m_RoadCheckerManager w"
  "m_CheckConnection (emit e w) = m_CheckConnection w" "outp (emit e w) = outp w @ [e]"
  "cl (emit e w) = cl w" "psize (emit e w) = psize w"
  by (simp_all add: emit_def cl_def psize_def fun_eq_iff)

lemma upd_client_sel [simp]:
  "m_UdpClientMap (upd_client i f w) = m_UdpClientMap w"
  "gConfig (upd_client i f w) = gConfig w" "m_GameState (upd_client i f w) = m_GameState w"
  "m_MapDataLen (upd_client i f w) = m_MapDataLen w" "m_BrithIndex (upd_client i f w) = m_BrithIndex w"
  "m_MapData (upd_client i f w) = m_MapData w" "m_GameTotleTime (upd_client i f w) = m_GameTotleTime w"
  "m_GameSyncTime (upd_client i f w) = m_GameSyncTime w"
  "m_GameShowTime (upd_client i f w) = m_GameShowTime w"
  "m_GameRunTime (upd_client i f w) = m_GameRunTime w"
  "m_RestartTimer (upd_client i f w) = m_RestartTimer w"
  "m_DropManager (upd_client i f w) = m_DropManager w" "m_HeartTime (upd_client i f w) = m_HeartTime w"
  "m_RoadCheckerManager (upd_client i f w) = m_RoadCheckerManager w"
  "m_CheckConnection (upd_client i f w) = m_CheckConnection w" "outp (upd_client i f w) = outp w"
  "psize (upd_client i f w) = psize w"
  "length (data_array (m_ClientPool (upd_client i f w))) = length (data_array (m_ClientPool w))"
  "pl_size (m_ClientPool (upd_client i f w)) = pl_size (m_ClientPool w)"
  "pl_count (m_ClientPool (upd_client i f w)) = pl_count (m_ClientPool w)"
  "data_allocate (m_ClientPool (upd_client i f w)) = data_allocate (m_ClientPool w)"
  by (simp_all add: upd_client_def psize_def Size_def)

lemma cl_upd:
  "i < length (data_array (m_ClientPool w)) \<Longrightarrow>
     cl (upd_client i f w) j = (if j = i then f (cl w i) else cl w j)"
  by (simp add: upd_client_def cl_def)

lemma broadcast_alt:
  "fold (send_valid msg) is w =
     w\<lparr>outp := outp w @ map (\<lambda>i. Sent i (msg w i)) (filter (\<lambda>i. IsValid (cl w i)) is)\<rparr>"
  if "\<And>w e i. msg (emit e w) i = msg w i"
proof (induction "is" arbitrary: w)
  case (Cons i "is")
  have *: "outp_update f (emit e w) = w\<lparr>outp := f (outp w @ [e])\<rparr>" for f e and w :: world
    by (simp add: emit_def)
  show ?case
    by (cases "IsValid (cl w i)") (simp_all add: Cons.IH send_valid_def [of _ i w] that *)
qed simp

text \<open>A broadcast sends exactly one message to every valid client, in pool order, and changes
  nothing else.\<close>

lemma broadcast_sends:
  assumes "\<And>w e i. msg (emit e w) i = msg w i"
  shows "broadcast msg w = w\<lparr>outp := outp w @ map (\<lambda>i. Sent i (msg w i)) (valid_clients w)\<rparr>"
  unfolding broadcast_def valid_clients_def by (rule broadcast_alt [OF assms])

end
