(* ===== verification/Game.thy ===== *)
theory Game
  imports World
begin

text \<open>
  The game itself, \<^verbatim>\<open>game.cpp\<close>, and the client methods that call it (\<^verbatim>\<open>client.cpp\<close>): what the
  server does with every message of a client, with a lost connection and with the passing of
  time, through the states Wait, Load, Show, Play, Balance and SyncScore of a race.
\<close>

section \<open>Simple steps\<close>

definition ClearData :: "world \<Rightarrow> world" where
  "ClearData w = w\<lparr>m_GameState := Wait, m_MapDataLen := 0, m_BrithIndex := 0\<rparr>"

definition OnBroadcastAvatarData :: "lib \<Rightarrow> nat \<Rightarrow> world \<Rightarrow> world" where
  "OnBroadcastAvatarData l i w =
     (let c = cl w i; data = rbuf c;
          (openid, b1) = rd_string l data (m_UserOpenId c);
          (name, b2) = rd_string l b1 (m_UserName c);
          (url, b3) = rd_string l b2 (m_UserHeadImgUrl c);
          (car, b4) = rd_string l b3 (m_CarData c);
          w1 = upd_client i (\<lambda>c. c\<lparr>m_SetUserInfo := True, m_UserOpenId := openid,
                 m_UserName := name, m_UserHeadImgUrl := url, m_CarData := car, rbuf := b4,
                 m_DBCoinCount := 0, m_DBCompleteTime := 0\<rparr>) w
      in broadcast (\<lambda>w j. [WByte SM_PLAYER_AVATAR_DATA, WUInt (uid (cl w i)), WData data]) w1)"

definition OnPlayerStopGame :: "world \<Rightarrow> world" where
  "OnPlayerStopGame w = ClearData w"

text \<open>
  The loop of \<open>EndGame\<close> closes the connection of every client that is valid when the loop comes
  to it; \<open>Disconnect\<close> belongs to the library and may call back into the program.
\<close>

definition disconnect_valid :: "lib \<Rightarrow> nat \<Rightarrow> world \<Rightarrow> world res" where
  "disconnect_valid l i w = (if IsValid (cl w i) then nl_disconnect l i w else Inr w)"

definition EndGame :: "lib \<Rightarrow> world \<Rightarrow> world res" where
  "EndGame l w =
     (if m_GameState w = Wait then Inr w
      else foldE (disconnect_valid l) [0..<psize w] (ClearData w))"

definition OnClientDisconnect :: "lib \<Rightarrow> nat \<Rightarrow> world \<Rightarrow> world res" where
  "OnClientDisconnect l i w =
     (if \<exists>j \<in> set [0..<psize w]. uid (cl w i) \<noteq> uid (cl w j) \<and> IsValid (cl w j)
           \<and> \<not> m_IsObClient (cl w j)
      then Inr w else EndGame l w)"

section \<open>The end of a race\<close>

text \<open>The local array \<open>Client* set[10]\<close> is written without a bound check.\<close>

definition balance_msg :: "f32 \<Rightarrow> client \<Rightarrow> wr list" where
  "balance_msg run_time c =
     [WByte SM_GAME_BALANCE, WInt (m_CoinCount c), WFloat (if m_Complete c then run_time else - 1)]"

definition balance_one :: "nat \<Rightarrow> world \<Rightarrow> world" where
  "balance_one i w =
     (let w1 = upd_client i (\<lambda>c. c\<lparr>m_CommitScore := False\<rparr>) w
      in emit (Sent i (balance_msg (m_GameRunTime w1) (cl w1 i))) w1)"

text \<open>One turn of the loop that fills the array: \<open>set[count++] = other\<close>.\<close>

definition collect_player :: "world \<Rightarrow> nat \<Rightarrow> nat list \<Rightarrow> nat list res" where
  "collect_player w i players =
     (if IsValid (cl w i) \<and> \<not> m_IsObClient (cl w i)
      then if 10 \<le> length players then Inl StackOverrun else Inr (players @ [i])
      else Inr players)"

definition BalanceGame :: "world \<Rightarrow> world res" where
  "BalanceGame w =
     (if m_GameState w \<noteq> Play then Inr w
      else let w1 = w\<lparr>m_GameState := Balance\<rparr>
           in rbind (foldE (collect_player w1) [0..<psize w1] []) (\<lambda>players. Inr (fold balance_one players w1)))"

definition OnClientCommitSocre :: "nat \<Rightarrow> world \<Rightarrow> world" where
  "OnClientCommitSocre i w =
     (if m_GameState w \<noteq> Balance then w
      else let data = rbuf (cl w i);
               w1 = (upd_client i (\<lambda>c. c\<lparr>m_CommitScore := True\<rparr>) w)\<lparr>m_GameState := SyncScore\<rparr>
           in broadcast (\<lambda>w j. [WByte SM_SYNC_RANK_SCORE, WFloat (m_GameBalanceTime (gConfig w)),
                WFloat (m_GameBalanceTimeForPad (gConfig w)), WData data]) w1)"

section \<open>Choosing and loading a map\<close>

definition OnRequestSelectMap :: "lib \<Rightarrow> nat \<Rightarrow> world \<Rightarrow> world res" where
  "OnRequestSelectMap l i w =
     (if m_GameState w \<noteq> Wait then Inr w
      else let data = rbuf (cl w i)
           in if MAX_MAP_DATA_LEN < int (length data) then
                (if connection (cl w i) = None then Inl NullDeref else nl_disconnect l i w)
              else Inr (broadcast
                (\<lambda>w j. [WByte SM_SELECT_GAME_MAP, WData (take (nat (m_MapDataLen w)) (m_MapData w))])
                (w\<lparr>m_MapDataLen := int (length data),
                   m_MapData := data @ drop (length data) (m_MapData w)\<rparr>)))"

definition load_one :: "bytes \<Rightarrow> nat \<Rightarrow> world \<Rightarrow> world" where
  "load_one map_name j w =
     (if IsValid (cl w j) then
        emit (Sent j [WByte SM_LAOD_GAME_MAP, WString map_name])
          (upd_client j (\<lambda>c. c\<lparr>m_MapLoaded := False\<rparr>) w)
      else w)"

definition OnRequestLoadMap :: "lib \<Rightarrow> nat \<Rightarrow> world \<Rightarrow> world" where
  "OnRequestLoadMap l i w =
     (if Load < m_GameState w then
        emit (Sent i [WByte SM_GAME_STATE_ERROR, WByte (word_of_nat (gs_code (m_GameState w)))]) w
      else let (map_name, b) = rd_chars l (rbuf (cl w i)) 256;
               w1 = upd_client i (\<lambda>c. c\<lparr>rbuf := b\<rparr>) (w\<lparr>m_GameState := Load\<rparr>)
           in fold (load_one map_name) [0..<psize w1] w1)"

section \<open>The drop item events of the game\<close>

text \<open>\<open>MAX(m_CoinCount - 1, 0)\<close> for anything that is not a coin.\<close>

definition coin_after :: "int \<Rightarrow> int \<Rightarrow> int" where
  "coin_after kind n = (if kind = DROPITEM_ICON then n + 1 else max (n - 1) 0)"

definition remove_msg :: "u32 \<Rightarrow> u32 \<Rightarrow> int \<Rightarrow> wr list" where
  "remove_msg k taker n = [WByte SM_REMOVE_DROP_ITEM, WUInt k, WUInt taker, WShort (word_of_int n)]"

definition drop_created :: "alive_item \<Rightarrow> nat \<Rightarrow> world \<Rightarrow> world res" where
  "drop_created a j w =
     (if IsValid (cl w j) then
        rbind (arr_get (m_DropItemData (gConfig w)) (mIndex a)) (\<lambda>d.
        Inr (emit (Sent j [WByte SM_CREATE_DROP_ITEM, WUInt (mID a), WByte (word_of_int (mType d)),
               WInt (dp_index (mPosition a)), WVector3 (dp_pos (mPosition a))]) w))
      else Inr w)"

definition OnDropItemEvent :: "drop_event \<Rightarrow> alive_item \<Rightarrow> u32 \<Rightarrow> world \<Rightarrow> world res" where
  "OnDropItemEvent e a h w =
     (case e of
        DROP_EVENT_CREATE \<Rightarrow> foldE (drop_created a) [0..<psize w] w
      | DROP_EVENT_GET \<Rightarrow>
          rbind (case Get h (m_ClientPool w) of
                   None \<Rightarrow> Inr (0, 0, w)
                 | Some g \<Rightarrow>
                     if IsValid (cl w g) then
                       rbind (arr_get (m_DropItemData (gConfig w)) (mIndex a)) (\<lambda>d.
                       let n = coin_after (mType d) (m_CoinCount (cl w g))
                       in Inr (uid (cl w g), n, upd_client g (\<lambda>c. c\<lparr>m_CoinCount := n\<rparr>) w))
                     else Inr (0, 0, w)) (\<lambda>(get_uid, get_count, w1).
          Inr (broadcast (\<lambda>w j. remove_msg (mID a) get_uid get_count) w1)))"

definition OnPlayerGetDropItem :: "lib \<Rightarrow> nat \<Rightarrow> world \<Rightarrow> world res" where
  "OnPlayerGetDropItem l i w =
     (let (k, b) = rd_uint l (rbuf (cl w i)) (jk_uint l);
          w1 = upd_client i (\<lambda>c. c\<lparr>rbuf := b\<rparr>) w
      in case GetDropItem_id k True (m_DropManager w1) of
           (None, m) \<Rightarrow> Inr (w1\<lparr>m_DropManager := m\<rparr>)
         | (Some idx, m) \<Rightarrow>
             rbind (arr_get (mAllDropItem m) idx) (\<lambda>item.
             let n = coin_after (mType (mData item)) (m_CoinCount (cl w1 i));
                 w2 = upd_client i (\<lambda>c. c\<lparr>m_CoinCount := n\<rparr>) (w1\<lparr>m_DropManager := m\<rparr>)
             in Inr (broadcast (\<lambda>w j. remove_msg k (uid (cl w i)) n) w2)))"

section \<open>Starting a race\<close>

text \<open>The local array \<open>uint players[10]\<close> is written without a bound check.\<close>

definition start_player :: "nat \<Rightarrow> nat list \<times> world \<Rightarrow> (nat list \<times> world) res" where
  "start_player i = (\<lambda>(players, w).
     if IsValid (cl w i) \<and> \<not> m_IsObClient (cl w i) then
       if 10 \<le> length players then Inl StackOverrun
       else rbind (CopyBrithPose (m_BrithIndex w) (gConfig w)) (\<lambda>pose.
            Inr (players @ [i],
                 upd_client i (\<lambda>c. c\<lparr>m_CoinCount := 0, m_RoadCheckerTag := 0, m_Complete := False,
                     m_CheckerPosition := bp_position pose, m_Position := bp_position pose,
                     m_Rotation := bp_rotation pose, m_IdlePostion := bp_position pose\<rparr>)
                   (w\<lparr>m_BrithIndex := m_BrithIndex w + 1\<rparr>)))
     else Inr (players, w))"

text \<open>\<open>players\<close> holds handles, and the message looks every player up again by its handle.\<close>

definition player_entry :: "world \<Rightarrow> u32 \<Rightarrow> wr list res" where
  "player_entry w h =
     (case Get h (m_ClientPool w) of
        None \<Rightarrow> Inl NullDeref
      | Some j \<Rightarrow> Inr [WUInt h, WVector3 (m_Position (cl w j)), WVector3 (m_Rotation (cl w j))])"

definition start_message :: "u32 list \<Rightarrow> nat \<Rightarrow> world \<Rightarrow> world res" where
  "start_message hs i w =
     (if IsValid (cl w i) then
        rbind (foldE (\<lambda>h acc. rbind (player_entry w h) (\<lambda>e. Inr (acc @ e))) hs []) (\<lambda>entries.
        Inr (emit (Sent i ([WByte SM_GAME_START, WByte (word_of_nat (length hs))] @ entries
               @ [WFloat (m_GameTotleTime w), WFloat (m_GameShowTime w)])) w))
      else Inr w)"

definition StartGame :: "world \<Rightarrow> world res" where
  "StartGame w =
     (if m_GameState w \<noteq> Load then Inr w
      else let w1 = w\<lparr>m_GameState := Show, m_GameTotleTime := m_GameTime (gConfig w),
                 m_GameShowTime := m_GameShowTimeCfg (gConfig w), m_GameSyncTime := 0,
                 m_GameRunTime := 0, m_BrithIndex := 0\<rparr>
           in rbind (drop_Init True (gConfig w1) (m_DropManager w1)) (\<lambda>(ok, m).
              rbind (road_Init (gConfig w1) (m_RoadCheckerManager w1)) (\<lambda>r.
              let w2 = w1\<lparr>m_DropManager := m, m_RoadCheckerManager := r\<rparr>
              in rbind (foldE start_player [0..<psize w2] ([], w2)) (\<lambda>(players, w3).
                 foldE (start_message (map (\<lambda>i. uid (cl w2 i)) players)) [0..<psize w3] w3))))"

definition OnClientMapLoaded :: "nat \<Rightarrow> world \<Rightarrow> world res" where
  "OnClientMapLoaded i w =
     (let w1 = upd_client i (\<lambda>c. c\<lparr>m_MapLoaded := True\<rparr>) w
      in if \<exists>j \<in> set [0..<psize w1]. IsValid (cl w1 j) \<and> \<not> m_MapLoaded (cl w1 j)
         then Inr w1 else StartGame w1)"

section \<open>Moving\<close>

text \<open>
  The percentage of the lap: 64-bit unsigned arithmetic, in which the \<open>int\<close> count is converted,
  written as an \<open>int\<close>.
\<close>

definition as_int :: "u64 \<Rightarrow> int" where
  "as_int x = sint (ucast x :: u32)"

definition lap_percent :: "u64 \<Rightarrow> config \<Rightarrow> int res" where
  "lap_percent idx c =
     (let n = (word_of_int (m_CheckerPointCount c) :: u64)
      in if n = 0 then Inl DivByZero else Inr (as_int (idx * 100 div n)))"

definition next_point :: "u64 \<Rightarrow> u64 \<Rightarrow> u64 \<Rightarrow> int" where
  "next_point first tag idx = as_int (if tag = 0 then first else idx + 1)"

definition dir_message :: "nat \<Rightarrow> bool \<Rightarrow> vec3 \<Rightarrow> nat \<Rightarrow> world \<Rightarrow> world res" where
  "dir_message i ok dir j w =
     (if IsValid (cl w j) then
        rbind (lap_percent (m_LastCheckIndex (cl w i)) (gConfig w)) (\<lambda>p.
        Inr (emit (Sent j [WByte SM_PLSYER_RUN_DIR_ERROR, WUInt (uid (cl w i)), WBool ok,
               WVector3 dir, WInt p]) w))
      else Inr w)"

definition check_direction :: "lib \<Rightarrow> nat \<Rightarrow> vec3 \<Rightarrow> world \<Rightarrow> world res" where
  "check_direction l i pos w =
     (let run_dir = vec3_sub pos (m_CheckerPosition (cl w i))
      in if f32_of_int 10 < Length run_dir then
           let w1 = upd_client i (\<lambda>c. c\<lparr>m_CheckerPosition := pos\<rparr>) w;
               (ok, dir) = CheckDir (jk_vec1 l) (jk_vec2 l) (Normalize run_dir) pos
                 (next_point 0 (m_RoadCheckerTag (cl w1 i)) (m_LastCheckIndex (cl w1 i)))
                 (m_RoadCheckerManager w1)
           in foldE (dir_message i ok dir) [0..<psize w1] w1
         else Inr w)"

text \<open>
  \<open>1 << i\<close> is computed in \<open>int\<close> and then converted to 64 bits: as compiled for x86 the shift
  count is taken modulo 32 and bit 31 is the sign, which the conversion extends.
\<close>

definition tag_bit :: "int \<Rightarrow> u64" where
  "tag_bit i = scast (push_bit (nat (i mod 32)) 1 :: u32)"

definition untagged :: "u64 \<Rightarrow> int \<Rightarrow> nat" where
  "untagged tag n = length (filter (\<lambda>i. tag_bit i AND tag = 0) (map int [0..<nat n]))"

definition lap_done :: "u64 \<Rightarrow> int \<Rightarrow> bool" where
  "lap_done tag n = (f32_of_int (int (untagged tag n)) < f32_of_int n * f32_lit 1 2)"

definition pass_point :: "nat \<Rightarrow> checker_point \<Rightarrow> world \<Rightarrow> world res" where
  "pass_point i p w =
     (let w1 = upd_client i (\<lambda>c. c\<lparr>m_LastCheckIndex := word_of_int (cp_Index p)\<rparr>) w
      in if cp_EndPoint p then
           let w2 = upd_client i (\<lambda>c. c\<lparr>m_LastCheckIndex := 0\<rparr>) w1
           in if lap_done (m_RoadCheckerTag (cl w2 i)) (cp_Index p)
              then BalanceGame (upd_client i (\<lambda>c. c\<lparr>m_RoadCheckerTag := 0, m_Complete := True\<rparr>) w2)
              else Inr (upd_client i (\<lambda>c. c\<lparr>m_RoadCheckerTag := 0, m_LastCheckIndex := 0\<rparr>) w2)
         else Inr (upd_client i (\<lambda>c. c\<lparr>m_RoadCheckerTag :=
                m_RoadCheckerTag c OR tag_bit (cp_Index p)\<rparr>) w1))"

definition check_point :: "nat \<Rightarrow> vec3 \<Rightarrow> world \<Rightarrow> world res" where
  "check_point i pos w =
     rbind (Check pos (m_RoadCheckerManager w)) (\<lambda>hit.
     case hit of None \<Rightarrow> Inr w | Some p \<Rightarrow> pass_point i p w)"

text \<open>Reading the move: its flags, and the position when the flags say there is one.\<close>

definition skip_input :: "lib \<Rightarrow> u8 \<Rightarrow> u8 \<Rightarrow> bytes \<Rightarrow> bytes" where
  "skip_input l flag fl b = (if flag AND fl \<noteq> 0 then snd (rd_float l b (jk_float l)) else b)"

definition read_move :: "lib \<Rightarrow> bytes \<Rightarrow> vec3 option \<times> bytes" where
  "read_move l data =
     (let (flag, b1) = rd_byte l data 0;
          (time, b2) = rd_float l b1 (jk_float l);
          b3 = skip_input l flag MOVE_FLAG_INPUT_STEER b2;
          b4 = skip_input l flag MOVE_FLAG_INPUT_BRAKE b3;
          b5 = skip_input l flag MOVE_FLAG_INPUT_RUN b4
      in if flag AND MOVE_FLAG_POSE_POSTION \<noteq> 0
         then let (pos, b6) = rd_vector3 l b5 (jk_vec3 l) in (Some pos, b6)
         else (None, b5))"

definition OnPlayerMove :: "lib \<Rightarrow> nat \<Rightarrow> world \<Rightarrow> world res" where
  "OnPlayerMove l i w =
     (let data = rbuf (cl w i);
          (pose, b) = read_move l data;
          w1 = upd_client i (\<lambda>c. c\<lparr>rbuf := b\<rparr>) w
      in rbind (case pose of
                  None \<Rightarrow> Inr w1
                | Some pos \<Rightarrow>
                    rbind (check_direction l i pos (upd_client i (\<lambda>c. c\<lparr>m_Position := pos\<rparr>) w1))
                      (check_point i pos)) (\<lambda>w2.
         Inr (broadcast (\<lambda>w j. [WByte SM_PLAYER_MOVE, WUInt (uid (cl w i)), WData data]) w2)))"

section \<open>The clock\<close>

definition sync_one :: "lib \<Rightarrow> nat \<Rightarrow> world \<Rightarrow> world res" where
  "sync_one l i w =
     (if \<not> IsValid (cl w i) then Inr w
      else let w1 = emit (Sent i [WByte SM_GAME_SYNC_TIME, WFloat (m_GameSyncTime w)]) w;
               dis = Length (vec3_sub (m_IdlePostion (cl w1 i)) (m_Position (cl w1 i)));
               w2 = upd_client i (\<lambda>c. c\<lparr>m_IdlePostion := m_Position c\<rparr>) w1
           in if dis < 1 then
                let dir = GetDir (jk_vec1 l) (jk_vec2 l) (jk_vec3 l)
                      (next_point 1 (m_RoadCheckerTag (cl w2 i)) (m_LastCheckIndex (cl w2 i)))
                      (m_RoadCheckerManager w2)
                in rbind (lap_percent (m_LastCheckIndex (cl w2 i)) (gConfig w2)) (\<lambda>p.
                   Inr (emit (Sent i [WByte SM_PLSYER_RUN_DIR_ERROR, WUInt (uid (cl w2 i)),
                          WBool False, WVector3 dir, WInt p]) w2))
              else Inr w2)"

definition SyncGameTime :: "lib \<Rightarrow> world \<Rightarrow> world res" where
  "SyncGameTime l w = foldE (sync_one l) [0..<psize w] w"

definition update_drops :: "lib \<Rightarrow> f32 \<Rightarrow> world \<Rightarrow> world res" where
  "update_drops l t w =
     rbind (drop_Update (gConfig w) OnDropItemEvent (jk_pos l) t (m_DropManager w, w))
       (\<lambda>(m, w'). Inr (w'\<lparr>m_DropManager := m\<rparr>))"

text \<open>
  The parts of \<open>Update\<close>: the watchdog that ends the process, the states that wait for a time to
  pass, and the running race.
\<close>

definition watchdog :: "f32 \<Rightarrow> world \<Rightarrow> world res" where
  "watchdog t w =
     (if m_CheckConnection w \<and> Count (m_ClientPool w) = 0 then
        let w1 = w\<lparr>m_RestartTimer := m_RestartTimer w + t\<rparr>
        in if f32_of_int 5 < m_RestartTimer w1 then Inl Terminated else Inr w1
      else Inr w)"

definition wait_states :: "lib \<Rightarrow> f32 \<Rightarrow> world \<Rightarrow> world res" where
  "wait_states l t w =
     (if m_GameState w = SyncScore then
        let w1 = w\<lparr>m_GameRunTime := m_GameRunTime w + t\<rparr>
        in if m_GameTotleTime w1 + m_GameBalanceTime (gConfig w1) < m_GameRunTime w1
           then EndGame l w1 else Inr w1
      else if m_GameState w = Show then
        let w1 = w\<lparr>m_GameShowTime := m_GameShowTime w - t\<rparr>
        in Inr (if m_GameShowTime w1 < 0 then w1\<lparr>m_GameState := Play\<rparr> else w1)
      else Inr w)"

definition sync_if_due :: "lib \<Rightarrow> world \<Rightarrow> world res" where
  "sync_if_due l w =
     (if f32_lit 99 100 < m_GameRunTime w - m_GameSyncTime w
      then SyncGameTime l (w\<lparr>m_GameSyncTime := m_GameRunTime w\<rparr>) else Inr w)"

definition balance_if_over :: "world \<Rightarrow> world res" where
  "balance_if_over w = (if m_GameTotleTime w < m_GameRunTime w then BalanceGame w else Inr w)"

definition play_step :: "lib \<Rightarrow> f32 \<Rightarrow> world \<Rightarrow> world res" where
  "play_step l t w =
     (if m_GameState w \<noteq> Play then Inr w
      else rbind (sync_if_due l (w\<lparr>m_GameRunTime := m_GameRunTime w + t\<rparr>)) (\<lambda>w2.
           rbind (balance_if_over w2) (update_drops l t)))"

definition Update :: "lib \<Rightarrow> f32 \<Rightarrow> world \<Rightarrow> world res" where
  "Update l t w = rbind (rbind (watchdog t w) (wait_states l t)) (play_step l t)"

section \<open>Messages and connections\<close>

definition OnClientMessage :: "lib \<Rightarrow> nat \<Rightarrow> world \<Rightarrow> world res" where
  "OnClientMessage l i w =
     (let (cmd, b) = rd_byte l (rbuf (cl w i)) (jk_byte l);
          w1 = upd_client i (\<lambda>c. c\<lparr>rbuf := b\<rparr>) w
      in if cmd = CM_OB_PLAYER_JOIN then Inr (upd_client i (\<lambda>c. c\<lparr>m_IsObClient := True\<rparr>) w1)
         else if cmd = CM_PLAYER_AVATAR_DATA then Inr (OnBroadcastAvatarData l i w1)
         else if cmd = CM_SELECT_GAME_MAP then OnRequestSelectMap l i w1
         else if cmd = CM_PLAYER_MOVE then OnPlayerMove l i w1
         else if cmd = CM_REQUEST_LOAD_MAP then Inr (OnRequestLoadMap l i w1)
         else if cmd = CM_GAME_MAP_LOADED then OnClientMapLoaded i w1
         else if cmd = CM_COMMIT_SCORE then Inr (OnClientCommitSocre i w1)
         else if cmd = CM_STOP_GAME then Inr (OnPlayerStopGame w1)
         else if cmd = CM_GET_DROP_ITEM then OnPlayerGetDropItem l i w1
         else Inr w1)"

definition OnMessage :: "lib \<Rightarrow> nat \<Rightarrow> world \<Rightarrow> world res" where
  "OnMessage l i w =
     (if \<not> m_RevciveUID (cl w i) then Inr (upd_client i (\<lambda>c. c\<lparr>m_RevciveUID := True\<rparr>) w)
      else OnClientMessage l i w)"

definition OnConnected :: "lib \<Rightarrow> nat \<Rightarrow> world \<Rightarrow> world res" where
  "OnConnected l i w =
     (let w1 = upd_client i (\<lambda>c. c\<lparr>m_UserHeadImgUrl := [], m_UserName := [], m_UserOpenId := [],
                 m_CarData := [], m_SetUserInfo := False\<rparr>) w;
          w2 = upd_client i (\<lambda>c. c\<lparr>m_RevciveUID := False\<rparr>) (nl_reset l i w1)
      in case connection (cl w2 i) of
           None \<Rightarrow> Inl NullDeref
         | Some s \<Rightarrow> Inr (upd_client i (\<lambda>c. c\<lparr>m_IsObClient := False\<rparr>)
                            (emit (RawSend i (uid (cl w2 i))) w2)))"

definition OnDisconnected :: "lib \<Rightarrow> nat \<Rightarrow> world \<Rightarrow> world res" where
  "OnDisconnected l i w =
     rbind (if IsValid (cl w i) then OnClientDisconnect l i w else Inr w) (\<lambda>w1.
     let w2 = w1\<lparr>m_ClientPool := Free (main_thread l) (uid (cl w1 i)) (m_ClientPool w1)\<rparr>
     in Inr (upd_client i (\<lambda>c. c\<lparr>connection := None\<rparr>) w2))"

end
