(* ===== verification/GameFrames.thy ===== *)
theory GameFrames
  imports Game
begin

text \<open>
  What the handlers of the game leave alone. \<open>keeps w w'\<close>: from \<open>w\<close> to \<open>w'\<close> no client was
  allocated, freed, renamed, connected or disconnected, and the configuration and the server's
  own tables are the same. \<open>world_ok\<close> is the well-formedness of the whole state. The rules for
  both are collected in \<open>keeps_rules\<close>; the last section discharges the drop item manager's
  contract with its listener for the game.
\<close>

named_theorems keeps_rules \<open>steps that keep the pool and the tables\<close>

section \<open>Frames of the pool\<close>

definition pool_frame :: "client pool \<Rightarrow> client pool \<Rightarrow> bool" where
  "pool_frame p q =
     (\<exists>d. q = p\<lparr>data_array := d\<rparr> \<and> map uid d = map uid (data_array p)
        \<and> map connection d = map connection (data_array p))"

lemma pool_frame_refl [simp]: "pool_frame p p"
  unfolding pool_frame_def by (rule exI [of _ "data_array p"]) simp

lemma pool_frame_sel:
  assumes "pool_frame p q"
  shows "pl_count q = pl_count p" "pl_size q = pl_size p" "link_array q = link_array p"
    "free_obj q = free_obj p" "data_allocate q = data_allocate p" "cap q = cap p"
    "length (data_array q) = length (data_array p)"
proof -
  from assms obtain d where q: "q = p\<lparr>data_array := d\<rparr>" "map uid d = map uid (data_array p)"
    by (auto simp: pool_frame_def)
  show "pl_count q = pl_count p" "pl_size q = pl_size p" "link_array q = link_array p"
    "free_obj q = free_obj p" "data_allocate q = data_allocate p" "cap q = cap p"
    by (simp_all add: q(1) cap_def)
  show "length (data_array q) = length (data_array p)"
    using map_eq_imp_length_eq [OF q(2)] by (simp add: q(1))
qed

lemma pool_frame_map:
  "pool_frame p q \<Longrightarrow> map uid (data_array q) = map uid (data_array p)"
  "pool_frame p q \<Longrightarrow> map connection (data_array q) = map connection (data_array p)"
  by (auto simp: pool_frame_def)

lemma pool_frame_nth:
  assumes "pool_frame p q" "i < length (data_array p)"
  shows "uid (data_array q ! i) = uid (data_array p ! i)"
    "connection (data_array q ! i) = connection (data_array p ! i)"
  using assms(2) pool_frame_sel(7) [OF assms(1)] pool_frame_map [OF assms(1)]
  by (metis nth_map)+

lemma pool_frame_trans: "pool_frame p q \<Longrightarrow> pool_frame q r \<Longrightarrow> pool_frame p r"
  by (auto simp: pool_frame_def)

lemma pool_frame_ok:
  assumes "pool_ok p" "pool_frame p q"
  shows "pool_ok q"
proof -
  from assms(1) obtain fl where fl: "pool_rep fl p" by (auto simp: pool_ok_def)
  note s = pool_frame_sel [OF assms(2)] and r = pool_repD [OF fl]
  have "pool_rep fl q"
  proof (rule pool_repI)
    fix i assume "i < cap q"
    then show "slot_of (uid (data_array q ! i)) = i"
      using r(2) r(10) [of i] pool_frame_nth(1) [OF assms(2), of i] s(6) by simp
  qed (use s r in auto)
  then show ?thesis by (auto simp: pool_ok_def)
qed

section \<open>Frames of the state\<close>

definition keeps :: "world \<Rightarrow> world \<Rightarrow> bool" where
  "keeps w w' =
     (pool_frame (m_ClientPool w) (m_ClientPool w') \<and> gConfig w' = gConfig w
      \<and> m_UdpClientMap w' = m_UdpClientMap w \<and> m_HeartTime w' = m_HeartTime w
      \<and> m_CheckConnection w' = m_CheckConnection w)"

lemma keepsD:
  assumes "keeps w w'"
  shows "pool_frame (m_ClientPool w) (m_ClientPool w')" "gConfig w' = gConfig w"
    "m_UdpClientMap w' = m_UdpClientMap w" "m_HeartTime w' = m_HeartTime w"
    "m_CheckConnection w' = m_CheckConnection w" "psize w' = psize w"
  using assms pool_frame_sel(2) by (auto simp: keeps_def psize_def Size_def)

lemma keeps_refl [simp, keeps_rules]: "keeps w w"
  by (simp add: keeps_def)

lemma keeps_trans: "keeps u v \<Longrightarrow> keeps v w \<Longrightarrow> keeps u w"
  by (auto simp: keeps_def intro: pool_frame_trans)

lemma keeps_emit [simp, keeps_rules]: "keeps w (emit e w)"
  by (simp add: keeps_def)

lemma keeps_upd:
  assumes "\<And>c. uid (f c) = uid c" "\<And>c. connection (f c) = connection c"
  shows "keeps w (upd_client i f w)"
proof -
  have m: "map g (xs[i := f (xs ! i)]) = map g xs" if "\<And>c. g (f c) = g c" for g :: "client \<Rightarrow> 'a" and xs
    using that by (cases "i < length xs") (simp_all add: map_update list_update_same_conv list_update_beyond)
  have "pool_frame (m_ClientPool w) (m_ClientPool (upd_client i f w))"
    unfolding pool_frame_def upd_client_def cl_def
    by (rule exI [of _ "(data_array (m_ClientPool w))[i := f (data_array (m_ClientPool w) ! i)]"])
      (simp add: m assms)
  then show ?thesis by (simp add: keeps_def)
qed

lemma keeps_same_pool:
  "m_ClientPool w' = m_ClientPool w \<Longrightarrow> gConfig w' = gConfig w \<Longrightarrow> m_UdpClientMap w' = m_UdpClientMap w \<Longrightarrow>
   m_HeartTime w' = m_HeartTime w \<Longrightarrow> m_CheckConnection w' = m_CheckConnection w \<Longrightarrow> keeps w w'"
  by (simp add: keeps_def)

lemma keeps_fold: "(\<And>x u. x \<in> set xs \<Longrightarrow> keeps u (f x u)) \<Longrightarrow> keeps w (fold f xs w)"
  by (rule fold_invariant [of "keeps w"]) (auto intro: keeps_trans)

lemma keeps_foldE:
  "foldE f xs w = Inr w' \<Longrightarrow> (\<And>x u u'. x \<in> set xs \<Longrightarrow> f x u = Inr u' \<Longrightarrow> keeps u u') \<Longrightarrow> keeps w w'"
  by (rule foldE_invariant [of f xs w w' "keeps w"]) (auto intro: keeps_trans)

lemma keeps_upd_then: "keeps u w \<Longrightarrow> (\<And>c. uid (f c) = uid c) \<Longrightarrow> (\<And>c. connection (f c) = connection c) \<Longrightarrow>
  keeps u (upd_client i f w)"
  using keeps_trans [OF _ keeps_upd] by blast

lemma keeps_emit_then: "keeps u w \<Longrightarrow> keeps u (emit e w)"
  using keeps_trans [OF _ keeps_emit] .

lemma keeps_broadcast: "keeps w (broadcast msg w)"
  unfolding broadcast_def by (rule keeps_fold) (simp add: send_valid_def)

lemma keeps_broadcast_then: "keeps u w \<Longrightarrow> keeps u (broadcast msg w)"
  by (rule keeps_trans [OF _ keeps_broadcast])

text \<open>The fields of the game itself, changed by a record update, are outside the frame.\<close>

lemma keeps_fields [simp]:
  "keeps u (w\<lparr>m_GameState := s\<rparr>) = keeps u w" "keeps u (w\<lparr>m_MapDataLen := n\<rparr>) = keeps u w"
  "keeps u (w\<lparr>m_BrithIndex := n\<rparr>) = keeps u w" "keeps u (w\<lparr>m_MapData := b\<rparr>) = keeps u w"
  "keeps u (w\<lparr>m_GameTotleTime := f\<rparr>) = keeps u w" "keeps u (w\<lparr>m_GameSyncTime := f\<rparr>) = keeps u w"
  "keeps u (w\<lparr>m_GameShowTime := f\<rparr>) = keeps u w" "keeps u (w\<lparr>m_GameRunTime := f\<rparr>) = keeps u w"
  "keeps u (w\<lparr>m_RestartTimer := f\<rparr>) = keeps u w" "keeps u (w\<lparr>m_DropManager := m\<rparr>) = keeps u w"
  "keeps u (w\<lparr>m_RoadCheckerManager := r\<rparr>) = keeps u w" "keeps u (w\<lparr>outp := e\<rparr>) = keeps u w"
  by (simp_all add: keeps_def)

lemma keeps_left [simp]:
  "keeps (w\<lparr>m_GameState := s\<rparr>) u = keeps w u" "keeps (w\<lparr>m_DropManager := m\<rparr>) u = keeps w u"
  by (simp_all add: keeps_def)

lemma psize_fields [simp]:
  "psize (w\<lparr>m_GameState := s\<rparr>) = psize w" "psize (w\<lparr>m_MapDataLen := n\<rparr>) = psize w"
  "psize (w\<lparr>m_BrithIndex := n\<rparr>) = psize w" "psize (w\<lparr>m_MapData := b\<rparr>) = psize w"
  "psize (w\<lparr>m_GameTotleTime := f\<rparr>) = psize w" "psize (w\<lparr>m_GameSyncTime := f\<rparr>) = psize w"
  "psize (w\<lparr>m_GameShowTime := f\<rparr>) = psize w" "psize (w\<lparr>m_GameRunTime := f\<rparr>) = psize w"
  "psize (w\<lparr>m_RestartTimer := f\<rparr>) = psize w" "psize (w\<lparr>m_DropManager := m\<rparr>) = psize w"
  "psize (w\<lparr>m_RoadCheckerManager := r\<rparr>) = psize w" "psize (w\<lparr>outp := e\<rparr>) = psize w"
  by (simp_all add: psize_def)

lemma cl_fields [simp]:
  "cl (w\<lparr>m_GameState := s\<rparr>) = cl w" "cl (w\<lparr>m_MapDataLen := n\<rparr>) = cl w"
  "cl (w\<lparr>m_BrithIndex := n\<rparr>) = cl w" "cl (w\<lparr>m_MapData := b\<rparr>) = cl w"
  "cl (w\<lparr>m_GameTotleTime := f\<rparr>) = cl w" "cl (w\<lparr>m_GameSyncTime := f\<rparr>) = cl w"
  "cl (w\<lparr>m_GameShowTime := f\<rparr>) = cl w" "cl (w\<lparr>m_GameRunTime := f\<rparr>) = cl w"
  "cl (w\<lparr>m_RestartTimer := f\<rparr>) = cl w" "cl (w\<lparr>m_DropManager := m\<rparr>) = cl w"
  "cl (w\<lparr>m_RoadCheckerManager := r\<rparr>) = cl w" "cl (w\<lparr>outp := e\<rparr>) = cl w"
  by (simp_all add: cl_def fun_eq_iff)

lemmas keeps_then = keeps_upd_then keeps_emit_then keeps_broadcast_then

section \<open>Well-formed states\<close>

definition world_ok :: "world \<Rightarrow> bool" where
  "world_ok w =
     (pool_ok (m_ClientPool w) \<and> cfg_ok (gConfig w)
      \<and> length (mAllDropItem (m_DropManager w)) = 64
      \<and> length (m_AllPoint (m_RoadCheckerManager w)) = 128
      \<and> 0 \<le> m_MapDataLen w \<and> m_MapDataLen w \<le> MAX_MAP_DATA_LEN
      \<and> m_MapDataLen w \<le> int (length (m_MapData w)))"

lemma world_okD:
  assumes "world_ok w"
  shows "pool_ok (m_ClientPool w)" "cfg_ok (gConfig w)"
    "length (mAllDropItem (m_DropManager w)) = 64"
    "length (m_AllPoint (m_RoadCheckerManager w)) = 128"
    "0 \<le> m_MapDataLen w" "m_MapDataLen w \<le> MAX_MAP_DATA_LEN"
    "m_MapDataLen w \<le> int (length (m_MapData w))"
  using assms by (simp_all add: world_ok_def)

lemma world_ok_pool_length: "world_ok w \<Longrightarrow> length (data_array (m_ClientPool w)) = psize w"
  using pool_repD(2) by (auto simp: world_ok_def pool_ok_def psize_def cap_def Size_def)

text \<open>The part of a state that \<open>world_ok\<close> reads beside the frame.\<close>

definition same_game :: "world \<Rightarrow> world \<Rightarrow> bool" where
  "same_game w w' =
     (length (mAllDropItem (m_DropManager w')) = length (mAllDropItem (m_DropManager w))
      \<and> length (m_AllPoint (m_RoadCheckerManager w')) = length (m_AllPoint (m_RoadCheckerManager w))
      \<and> m_MapDataLen w' = m_MapDataLen w \<and> m_MapData w' = m_MapData w)"

lemma world_ok_frame: "world_ok w \<Longrightarrow> keeps w w' \<Longrightarrow> same_game w w' \<Longrightarrow> world_ok w'"
  using pool_frame_ok by (auto simp: world_ok_def keeps_def same_game_def)

section \<open>Steps that change only clients and output\<close>

definition calm :: "world \<Rightarrow> world \<Rightarrow> bool" where
  "calm w w' =
     (\<exists>p e. w' = w\<lparr>m_ClientPool := p, outp := e\<rparr> \<and> pool_frame (m_ClientPool w) p)"

lemma calm_refl [simp]: "calm w w"
  unfolding calm_def by (rule exI [of _ "m_ClientPool w"], rule exI [of _ "outp w"]) simp

lemma calm_trans: "calm u v \<Longrightarrow> calm v w \<Longrightarrow> calm u w"
  by (fastforce simp: calm_def intro: pool_frame_trans)

lemma calm_emit [simp]: "calm w (emit e w)"
  unfolding calm_def emit_def by (rule exI [of _ "m_ClientPool w"], rule exI [of _ "outp w @ [e]"]) simp

lemma calm_upd:
  assumes "\<And>c. uid (f c) = uid c" "\<And>c. connection (f c) = connection c"
  shows "calm w (upd_client i f w)"
  using keepsD(1) [OF keeps_upd [of f w i]] assms
  unfolding calm_def by (intro exI [of _ "m_ClientPool (upd_client i f w)"] exI [of _ "outp w"])
    (simp add: upd_client_def)

lemma calm_upd_then: "calm u w \<Longrightarrow> (\<And>c. uid (f c) = uid c) \<Longrightarrow> (\<And>c. connection (f c) = connection c) \<Longrightarrow>
  calm u (upd_client i f w)"
  using calm_trans [OF _ calm_upd] by blast

lemma calm_emit_then: "calm u w \<Longrightarrow> calm u (emit e w)"
  using calm_trans [OF _ calm_emit] .

lemma calm_fold: "(\<And>x u. x \<in> set xs \<Longrightarrow> calm u (f x u)) \<Longrightarrow> calm w (fold f xs w)"
  by (rule fold_invariant [of "calm w"]) (auto intro: calm_trans)

lemma calm_foldE:
  "foldE f xs w = Inr w' \<Longrightarrow> (\<And>x u u'. x \<in> set xs \<Longrightarrow> f x u = Inr u' \<Longrightarrow> calm u u') \<Longrightarrow> calm w w'"
  by (rule foldE_invariant [of f xs w w' "calm w"]) (auto intro: calm_trans)

lemma calm_broadcast: "calm w (broadcast msg w)"
  unfolding broadcast_def by (rule calm_fold) (simp add: send_valid_def)

lemma calm_broadcast_then: "calm u w \<Longrightarrow> calm u (broadcast msg w)"
  by (rule calm_trans [OF _ calm_broadcast])

lemmas calm_then = calm_upd_then calm_emit_then calm_broadcast_then

lemma calmD:
  assumes "calm w w'"
  shows "keeps w w'" "m_GameState w' = m_GameState w" "m_MapDataLen w' = m_MapDataLen w"
    "m_MapData w' = m_MapData w" "m_BrithIndex w' = m_BrithIndex w"
    "m_GameTotleTime w' = m_GameTotleTime w" "m_GameSyncTime w' = m_GameSyncTime w"
    "m_GameShowTime w' = m_GameShowTime w" "m_GameRunTime w' = m_GameRunTime w"
    "m_RestartTimer w' = m_RestartTimer w" "m_DropManager w' = m_DropManager w"
    "m_RoadCheckerManager w' = m_RoadCheckerManager w" "psize w' = psize w"
    "gConfig w' = gConfig w"
  using assms pool_frame_sel(2) by (auto simp: calm_def keeps_def psize_def Size_def)

lemma calm_ok: "world_ok w \<Longrightarrow> calm w w' \<Longrightarrow> world_ok w'"
  using world_ok_frame [of w w'] calmD [of w w'] by (simp add: same_game_def)

lemma OnBroadcastAvatarData_calm: "calm w (OnBroadcastAvatarData l i w)"
  by (auto simp: OnBroadcastAvatarData_def Let_def split: prod.splits intro!: calm_then)

lemma balance_one_calm: "calm w (balance_one i w)"
  by (auto simp: balance_one_def Let_def intro!: calm_then)

lemma load_one_calm: "calm w (load_one n j w)"
  by (auto simp: load_one_def intro!: calm_then)

lemma drop_created_calm: "drop_created a j w = Inr w' \<Longrightarrow> calm w w'"
  by (auto simp: drop_created_def split: if_splits)

lemma OnDropItemEvent_calm: "OnDropItemEvent e a h w = Inr w' \<Longrightarrow> calm w w'"
  by (auto simp: OnDropItemEvent_def Let_def split: drop_event.splits option.splits if_splits
      intro: calm_foldE drop_created_calm intro!: calm_then)

lemma start_message_calm: "start_message hs i w = Inr w' \<Longrightarrow> calm w w'"
  by (auto simp: start_message_def split: if_splits)

lemma dir_message_calm: "dir_message i ok d j w = Inr w' \<Longrightarrow> calm w w'"
  by (auto simp: dir_message_def split: if_splits)

lemma check_direction_calm: "check_direction l i pos w = Inr w' \<Longrightarrow> calm w w'"
proof -
  assume *: "check_direction l i pos w = Inr w'"
  have "calm u w'" if "foldE (dir_message i ok d) xs v = Inr w'" "calm u v" for ok d xs u v
    using calm_trans [OF that(2) calm_foldE [OF that(1)]] dir_message_calm by blast
  moreover have "calm w (upd_client i (\<lambda>c. c\<lparr>m_CheckerPosition := pos\<rparr>) w)" by (intro calm_then) simp_all
  ultimately show ?thesis using *
    by (auto simp: check_direction_def Let_def split: prod.splits if_splits)
qed

lemma sync_one_calm: "sync_one l i w = Inr w' \<Longrightarrow> calm w w'"
  by (auto simp: sync_one_def Let_def split: if_splits intro!: calm_then)

lemma SyncGameTime_calm: "SyncGameTime l w = Inr w' \<Longrightarrow> calm w w'"
  unfolding SyncGameTime_def by (rule calm_foldE) (auto intro: sync_one_calm)

section \<open>Every step keeps the state well formed\<close>

lemma world_ok_fields [simp]:
  "world_ok (w\<lparr>m_GameState := s\<rparr>) = world_ok w" "world_ok (w\<lparr>m_BrithIndex := n\<rparr>) = world_ok w"
  "world_ok (w\<lparr>m_GameTotleTime := f\<rparr>) = world_ok w" "world_ok (w\<lparr>m_GameSyncTime := f\<rparr>) = world_ok w"
  "world_ok (w\<lparr>m_GameShowTime := f\<rparr>) = world_ok w" "world_ok (w\<lparr>m_GameRunTime := f\<rparr>) = world_ok w"
  "world_ok (w\<lparr>m_RestartTimer := f\<rparr>) = world_ok w" "world_ok (w\<lparr>outp := e\<rparr>) = world_ok w"
  by (simp_all add: world_ok_def)

lemma world_ok_managers:
  "world_ok w \<Longrightarrow> length (mAllDropItem m) = 64 \<Longrightarrow> world_ok (w\<lparr>m_DropManager := m\<rparr>)"
  "world_ok w \<Longrightarrow> length (m_AllPoint r) = 128 \<Longrightarrow> world_ok (w\<lparr>m_RoadCheckerManager := r\<rparr>)"
  by (simp_all add: world_ok_def)

lemma world_ok_upd: "world_ok w \<Longrightarrow> (\<And>c. uid (f c) = uid c) \<Longrightarrow> (\<And>c. connection (f c) = connection c) \<Longrightarrow>
  world_ok (upd_client i f w)"
  using calm_ok [OF _ calm_upd] by blast

lemma world_ok_emit [simp]: "world_ok w \<Longrightarrow> world_ok (emit e w)"
  using calm_ok [OF _ calm_emit] .

lemma world_ok_broadcast: "world_ok w \<Longrightarrow> world_ok (broadcast msg w)"
  by (rule calm_ok [OF _ calm_broadcast])

lemma ClearData_ok: "world_ok w \<Longrightarrow> world_ok (ClearData w)"
  by (simp add: ClearData_def world_ok_def)

lemma collect_players:
  "length acc \<le> 10 \<Longrightarrow> foldE (collect_player w) is acc =
     (let ps = acc @ filter (\<lambda>i. IsValid (cl w i) \<and> \<not> m_IsObClient (cl w i)) is
      in if 10 < length ps then Inl StackOverrun else Inr ps)"
proof (induction "is" arbitrary: acc)
  case (Cons i "is")
  then show ?case by (simp add: collect_player_def Let_def)
qed simp

lemma BalanceGame_eq:
  "BalanceGame w =
     (if m_GameState w \<noteq> Play then Inr w
      else if 10 < length (players_of w) then Inl StackOverrun
      else Inr (fold balance_one (players_of w) (w\<lparr>m_GameState := Balance\<rparr>)))"
proof -
  have "cl (w\<lparr>m_GameState := Balance\<rparr>) = cl w" "psize (w\<lparr>m_GameState := Balance\<rparr>) = psize w"
    by (simp_all add: cl_def psize_def fun_eq_iff)
  then show ?thesis by (simp add: BalanceGame_def collect_players players_of_def Let_def)
qed

lemma BalanceGame_cases:
  assumes "BalanceGame w = Inr w'"
  shows "w' = w \<or> (m_GameState w = Play \<and> calm (w\<lparr>m_GameState := Balance\<rparr>) w')"
proof (cases "m_GameState w = Play")
  case True
  then have "w' = fold balance_one (players_of w) (w\<lparr>m_GameState := Balance\<rparr>)"
    using assms by (simp add: BalanceGame_eq split: if_splits)
  then show ?thesis using True calm_fold [of _ balance_one, OF balance_one_calm] by simp
qed (use assms in \<open>simp add: BalanceGame_eq\<close>)

lemma BalanceGame_ok: "world_ok w \<Longrightarrow> BalanceGame w = Inr w' \<Longrightarrow> world_ok w'"
  using BalanceGame_cases [of w w'] calm_ok [of "w\<lparr>m_GameState := Balance\<rparr>" w'] by auto

lemma BalanceGame_keeps: "BalanceGame w = Inr w' \<Longrightarrow> keeps w w'"
  using BalanceGame_cases [of w w'] calmD(1) [of "w\<lparr>m_GameState := Balance\<rparr>" w']
  by (auto simp: keeps_def)

lemma BalanceGame_state: "BalanceGame w = Inr w' \<Longrightarrow>
  m_GameState w' = (if m_GameState w = Play then Balance else m_GameState w)"
  using calmD(2) [OF calm_fold [of "players_of w" balance_one "w\<lparr>m_GameState := Balance\<rparr>"]] balance_one_calm
  by (auto simp: BalanceGame_eq split: if_splits)

lemma OnClientCommitSocre_ok: "world_ok w \<Longrightarrow> world_ok (OnClientCommitSocre i w)"
  by (auto simp: OnClientCommitSocre_def Let_def intro!: world_ok_broadcast world_ok_upd)

lemma OnClientCommitSocre_keeps: "keeps w (OnClientCommitSocre i w)"
  by (auto simp: OnClientCommitSocre_def Let_def intro!: keeps_then)

lemma OnRequestLoadMap_shape:
  "Load < m_GameState w \<and> calm w (OnRequestLoadMap l i w) \<or>
   m_GameState w \<le> Load \<and> calm (w\<lparr>m_GameState := Load\<rparr>) (OnRequestLoadMap l i w)"
proof (cases "Load < m_GameState w")
  case True
  then show ?thesis by (simp add: OnRequestLoadMap_def)
next
  case False
  have "calm u (fold (load_one n) xs (upd_client i (\<lambda>c. c\<lparr>rbuf := b\<rparr>) u))" for n xs b u
    by (rule calm_trans [OF calm_upd calm_fold]) (simp_all add: load_one_calm)
  with False show ?thesis by (simp add: OnRequestLoadMap_def Let_def not_less split: prod.splits)
qed

lemma OnRequestLoadMap_ok: "world_ok w \<Longrightarrow> world_ok (OnRequestLoadMap l i w)"
  using OnRequestLoadMap_shape [of w l i] by (metis calm_ok world_ok_fields(1))

lemma OnRequestLoadMap_keeps: "keeps w (OnRequestLoadMap l i w)"
  using OnRequestLoadMap_shape [of w l i] by (metis calmD(1) keeps_left(1))

lemma GetDropItem_id_length [simp]:
  "length (mAllDropItem (snd (GetDropItem_id k r m))) = length (mAllDropItem m)"
  by (simp add: GetDropItem_id_frame(4))

lemma OnPlayerGetDropItem_shape:
  assumes "OnPlayerGetDropItem l i w = Inr w'"
  obtains k where "calm (w\<lparr>m_DropManager := snd (GetDropItem_id k True (m_DropManager w))\<rparr>) w'"
proof -
  obtain k b where kb: "rd_uint l (rbuf (cl w i)) (jk_uint l) = (k, b)" by force
  obtain r m where rm: "GetDropItem_id k True (m_DropManager w) = (r, m)" by force
  let ?w1 = "upd_client i (\<lambda>c. c\<lparr>rbuf := b\<rparr>) w"
  have comm: "(upd_client i f u)\<lparr>m_DropManager := m\<rparr> = upd_client i f (u\<lparr>m_DropManager := m\<rparr>)" for f u
    by (simp add: upd_client_def cl_def)
  have "calm (w\<lparr>m_DropManager := m\<rparr>) w'"
    using assms kb rm
    by (auto simp: OnPlayerGetDropItem_def Let_def comm split: option.splits
        intro!: calm_then)
  then show ?thesis using that [of k] by (simp add: rm)
qed

lemma OnPlayerGetDropItem_ok:
  "world_ok w \<Longrightarrow> OnPlayerGetDropItem l i w = Inr w' \<Longrightarrow> world_ok w'"
  by (erule OnPlayerGetDropItem_shape, rule calm_ok [rotated], assumption)
    (simp add: world_ok_managers world_okD)

lemma OnPlayerGetDropItem_keeps: "OnPlayerGetDropItem l i w = Inr w' \<Longrightarrow> keeps w w'"
  by (erule OnPlayerGetDropItem_shape) (auto dest!: calmD(1) simp: keeps_def)

lemma OnPlayerGetDropItem_state: "OnPlayerGetDropItem l i w = Inr w' \<Longrightarrow> m_GameState w' = m_GameState w"
  by (erule OnPlayerGetDropItem_shape) (auto dest!: calmD(2))

lemma drop_Init_length: "drop_Init g c m = Inr (ok, m') \<Longrightarrow> length (mAllDropItem m') = length (mAllDropItem m)"
  using drop_Init_items [of "m_DropItemData c" "nat (m_DropItemCount c)" "mAllDropItem m"]
  by (auto simp: drop_Init_def split: if_splits)

lemma road_Init_length: "road_Init c m = Inr m' \<Longrightarrow> length (m_AllPoint m') = length (m_AllPoint m)"
  by (auto simp: road_Init_def CopyCheckPointData_def arr_copy_def split: if_splits)

text \<open>The players loop also counts the birth places.\<close>

definition calm_birth :: "world \<Rightarrow> world \<Rightarrow> bool" where
  "calm_birth w w' = calm (w\<lparr>m_BrithIndex := m_BrithIndex w'\<rparr>) w'"

lemma calm_birth_field:
  assumes "calm u v"
  shows "calm (u\<lparr>m_BrithIndex := n\<rparr>) (v\<lparr>m_BrithIndex := n\<rparr>)"
proof -
  from assms obtain p e where "v = u\<lparr>m_ClientPool := p, outp := e\<rparr>" "pool_frame (m_ClientPool u) p"
    by (auto simp: calm_def)
  then show ?thesis unfolding calm_def by (intro exI [of _ p] exI [of _ e]) simp
qed

lemma calm_birth_trans:
  assumes "calm_birth u v" "calm_birth v w"
  shows "calm_birth u w"
proof -
  have "calm (u\<lparr>m_BrithIndex := m_BrithIndex v, m_BrithIndex := m_BrithIndex w\<rparr>) (v\<lparr>m_BrithIndex := m_BrithIndex w\<rparr>)"
    using calm_birth_field assms(1) unfolding calm_birth_def by blast
  then show ?thesis using assms(2) calm_trans by (simp add: calm_birth_def)
qed

lemma calm_birthI: "calm u v \<Longrightarrow> calm_birth u v"
  by (simp add: calm_birth_def calmD(5))

lemma start_player_calm: "start_player i (ps, w) = Inr (ps', w') \<Longrightarrow> calm_birth w w'"
  by (auto simp: start_player_def calm_birth_def split: if_splits intro!: calm_then)

lemma start_players_calm:
  assumes "foldE start_player is (ps, w) = Inr (ps', w')"
  shows "calm_birth w w'"
proof -
  have "(\<lambda>(q, u). calm_birth w u) (ps', w')"
    by (rule foldE_invariant [OF assms])
      (auto simp: calm_birth_def [of w w] intro: calm_birth_trans start_player_calm)
  then show ?thesis by simp
qed

lemma StartGame_cases:
  assumes "StartGame w = Inr w'"
  shows "(w' = w \<and> m_GameState w \<noteq> Load) \<or> (m_GameState w = Load \<and> m_GameState w' = Show \<and> keeps w w'
    \<and> m_MapDataLen w' = m_MapDataLen w \<and> m_MapData w' = m_MapData w
    \<and> length (mAllDropItem (m_DropManager w')) = length (mAllDropItem (m_DropManager w))
    \<and> length (m_AllPoint (m_RoadCheckerManager w')) = length (m_AllPoint (m_RoadCheckerManager w)))"
proof (cases "m_GameState w = Load")
  case True
  define w1 where "w1 = w\<lparr>m_GameState := Show, m_GameTotleTime := m_GameTime (gConfig w),
      m_GameShowTime := m_GameShowTimeCfg (gConfig w), m_GameSyncTime := 0,
      m_GameRunTime := 0, m_BrithIndex := 0\<rparr>"
  from assms True obtain ok m r ps w3 where
    m: "drop_Init True (gConfig w1) (m_DropManager w1) = Inr (ok, m)"
    and r: "road_Init (gConfig w1) (m_RoadCheckerManager w1) = Inr r"
    and w3: "foldE start_player [0..<psize w1] ([], w1\<lparr>m_DropManager := m, m_RoadCheckerManager := r\<rparr>)
      = Inr (ps, w3)"
    and w': "foldE (start_message (map (\<lambda>i. uid (cl w1 i)) ps)) [0..<psize w3] w3 = Inr w'"
    by (auto simp: StartGame_def Let_def w1_def)
  have "calm w3 w'" using w' by (rule calm_foldE) (rule start_message_calm)
  moreover have "calm_birth (w1\<lparr>m_DropManager := m, m_RoadCheckerManager := r\<rparr>) w3"
    using w3 by (rule start_players_calm)
  ultimately have "calm_birth (w1\<lparr>m_DropManager := m, m_RoadCheckerManager := r\<rparr>) w'"
    using calm_birth_trans calm_birthI by blast
  note c = calmD [OF this [unfolded calm_birth_def]]
  have "keeps w w'" using c(1) by (simp add: keeps_def w1_def)
  with c(2,3,4,11,12) True drop_Init_length [OF m] road_Init_length [OF r] show ?thesis
    by (simp add: w1_def)
qed (use assms in \<open>simp add: StartGame_def\<close>)

lemma StartGame_ok: "world_ok w \<Longrightarrow> StartGame w = Inr w' \<Longrightarrow> world_ok w'"
  using StartGame_cases [of w w'] world_ok_frame [of w w'] by (auto simp: same_game_def)

lemma OnClientMapLoaded_cases:
  assumes "OnClientMapLoaded i w = Inr w'"
  obtains u where "calm w u" "w' = u \<or> StartGame u = Inr w'"
proof
  show "calm w (upd_client i (\<lambda>c. c\<lparr>m_MapLoaded := True\<rparr>) w)" by (rule calm_upd) simp_all
qed (use assms in \<open>auto simp: OnClientMapLoaded_def Let_def split: if_splits\<close>)

lemma pass_point_cases:
  assumes "pass_point i p w = Inr w'"
  obtains u where "calm w u" "w' = u \<or> BalanceGame u = Inr w'"
proof -
  let ?w1 = "upd_client i (\<lambda>c. c\<lparr>m_LastCheckIndex := word_of_int (cp_Index p)\<rparr>) w"
  let ?w2 = "upd_client i (\<lambda>c. c\<lparr>m_LastCheckIndex := 0\<rparr>) ?w1"
  have 1: "calm w ?w1" "calm w ?w2" by (intro calm_then; simp)+
  have "calm w (upd_client i (\<lambda>c. c\<lparr>m_RoadCheckerTag := 0, m_Complete := True\<rparr>) ?w2)"
    "calm w (upd_client i (\<lambda>c. c\<lparr>m_RoadCheckerTag := 0, m_LastCheckIndex := 0\<rparr>) ?w2)"
    "calm w (upd_client i (\<lambda>c. c\<lparr>m_RoadCheckerTag := m_RoadCheckerTag c OR tag_bit (cp_Index p)\<rparr>) ?w1)"
    using 1 by (auto intro!: calm_upd_then)
  with assms that show ?thesis by (auto simp: pass_point_def Let_def split: if_splits)
qed

lemma check_point_cases:
  assumes "check_point i pos w = Inr w'"
  obtains u where "calm w u" "w' = u \<or> BalanceGame u = Inr w'"
proof -
  have "w' = w \<or> (\<exists>p. pass_point i p w = Inr w')"
    using assms by (auto simp: check_point_def split: option.splits)
  then show ?thesis using that [of w] that by (auto elim: pass_point_cases)
qed

lemma OnPlayerMove_cases:
  assumes "OnPlayerMove l i w = Inr w'"
  obtains u v where "calm w u" "v = u \<or> BalanceGame u = Inr v" "calm v w'"
proof -
  obtain pose b where pb: "read_move l (rbuf (cl w i)) = (pose, b)" by force
  let ?w1 = "upd_client i (\<lambda>c. c\<lparr>rbuf := b\<rparr>) w"
  have w1: "calm w ?w1" by (rule calm_upd) simp_all
  show ?thesis
  proof (cases pose)
    case None
    then have "calm ?w1 w'"
      using assms pb by (auto simp: OnPlayerMove_def Let_def intro: calm_broadcast)
    with w1 show ?thesis by (intro that) auto
  next
    case (Some pos)
    let ?w2 = "upd_client i (\<lambda>c. c\<lparr>m_Position := pos\<rparr>) ?w1"
    from assms pb Some obtain v2 v3 where
      v: "check_direction l i pos ?w2 = Inr v2" "check_point i pos v2 = Inr v3" "calm v3 w'"
      by (auto simp: OnPlayerMove_def Let_def intro: calm_broadcast)
    have "calm w ?w2" using w1 by (rule calm_upd_then) simp_all
    then have "calm w v2" using check_direction_calm [OF v(1)] by (rule calm_trans)
    with v(2,3) show ?thesis
      by (elim check_point_cases) (meson calm_trans that)
  qed
qed

end
