(* ===== verification/GameExample.thy ===== *)
theory GameExample
  imports GameFrames
begin

text \<open>
  A small concrete server for the witnesses: three slots, a player in slot 0, an observer in
  slot 1, slot 2 free; a straight road of three check points, one birth place, one kind of coin.
  The reader functions are a simple concrete network library: little-endian integers, strings
  with a length byte, and floating point numbers that are small integers in one byte.
\<close>

definition take_byte :: "bytes \<Rightarrow> u8 \<Rightarrow> u8 \<times> bytes" where
  "take_byte b old = (case b of [] \<Rightarrow> (old, []) | x # xs \<Rightarrow> (x, xs))"

definition take_uint :: "bytes \<Rightarrow> u32 \<Rightarrow> u32 \<times> bytes" where
  "take_uint b old = (case b of x # y # z # t # r \<Rightarrow>
     (ucast x OR push_bit 8 (ucast y) OR push_bit 16 (ucast z) OR push_bit 24 (ucast t), r) | _ \<Rightarrow> (old, b))"

definition take_small :: "bytes \<Rightarrow> f32 \<Rightarrow> f32 \<times> bytes" where
  "take_small b old = (case b of [] \<Rightarrow> (old, []) | x # xs \<Rightarrow> (f32_of_int (sint x), xs))"

definition take_vec :: "bytes \<Rightarrow> vec3 \<Rightarrow> vec3 \<times> bytes" where
  "take_vec b old = (case b of x # y # z # r \<Rightarrow>
     (vec3_of (f32_of_int (sint x)) (f32_of_int (sint y)) (f32_of_int (sint z)), r) | _ \<Rightarrow> (old, b))"

definition take_string :: "bytes \<Rightarrow> bytes \<Rightarrow> bytes \<times> bytes" where
  "take_string b old = (case b of [] \<Rightarrow> (old, []) | n # r \<Rightarrow> (take (unat n) r, drop (unat n) r))"

definition demo_lib :: lib where
  "demo_lib = \<lparr>rd_byte = take_byte, rd_uint = take_uint, rd_float = take_small, rd_vector3 = take_vec,
     rd_string = take_string, rd_chars = (\<lambda>b n. take_string b []),
     nl_disconnect = (\<lambda>i w. Inr (emit (Disconnecting i) w)), nl_reset = (\<lambda>i w. w), main_thread = True,
     jk_byte = 0, jk_uint = 0, jk_float = 0, jk_vec1 = vec3_of 0 0 0, jk_vec2 = vec3_of 0 0 0,
     jk_vec3 = vec3_of 0 0 0, jk_pos = no_pos\<rparr>"

definition demo_client :: "nat \<Rightarrow> client" where
  "demo_client i = \<lparr>uid = 0x00010000 OR word_of_nat i, m_UdpGUID = 0, m_ConnectionType = 1,
     connection = (if i < 2 then Some TcpSock else None), tcp_stream = (i < 2), udp_stream = False,
     rbuf = [], m_UserOpenId = [], m_UserName = [], m_UserHeadImgUrl = [], m_CarData = [],
     m_SetUserInfo = (i = 0), m_Heart = 0, m_IsObClient = (i = 1), m_CommitScore = False,
     m_MapLoaded = False, m_RevciveUID = True, m_Complete = False, m_CoinCount = 0, m_DBCoinCount = 0,
     m_DBCompleteTime = 0, m_RoadCheckerTag = 0, m_LastCheckIndex = 0, m_CheckerPosition = vec3_of 0 0 0,
     m_Position = vec3_of 0 0 0, m_Rotation = vec3_of 0 0 0, m_IdlePostion = vec3_of 0 0 0\<rparr>"

definition demo_pool :: "client pool" where
  "demo_pool = \<lparr>pl_count = 2, pl_size = 3, data_array = map demo_client [0..<3],
     link_array = [None, None, None], free_obj = Some 2, data_allocate = [True, True, False],
     lock_depth = 0\<rparr>"

definition demo_point :: "int \<Rightarrow> checker_point" where
  "demo_point i = \<lparr>cp_Position = vec3_of (f32_of_int (10 * i)) 0 0, cp_Radius = 1, cp_Index = i,
     cp_EndPoint = (i = 2)\<rparr>"

definition demo_config :: config where
  "demo_config = drop_config\<lparr>m_GameTime := f32_of_int 60, m_GameBalanceTime := f32_of_int 10,
     m_GameShowTimeCfg := f32_of_int 3, m_BrithPoseCount := 1, m_CheckerPointCount := 3,
     m_CheckerPointArray := map demo_point [0, 1, 2] @ replicate 125 (demo_point 0)\<rparr>"

definition demo_road :: road_mgr where
  "demo_road = \<lparr>m_AllPoint = map demo_point [0, 1, 2] @ replicate 125 (demo_point 0), m_PointCount = 3\<rparr>"

definition demo :: "game_state \<Rightarrow> world" where
  "demo s = \<lparr>m_ClientPool = demo_pool, m_UdpClientMap = [], m_HeartTime = 10, m_CheckConnection = False,
     gConfig = demo_config, m_GameState = s, m_MapDataLen = 0, m_BrithIndex = 0, m_MapData = [],
     m_GameTotleTime = f32_of_int 60, m_GameSyncTime = 0, m_GameShowTime = f32_of_int 3,
     m_GameRunTime = 0, m_RestartTimer = 0, m_DropManager = drop_new, m_RoadCheckerManager = demo_road,
     outp = []\<rparr>"

text \<open>A message waiting in the buffer of a client.\<close>

definition with_message :: "nat \<Rightarrow> bytes \<Rightarrow> world \<Rightarrow> world" where
  "with_message i b w = upd_client i (\<lambda>c. c\<lparr>rbuf := b\<rparr>) w"

lemma demo_pool_ok: "pool_ok demo_pool"
proof -
  have cap: "cap demo_pool = 3" by (simp add: demo_pool_def cap_def)
  have "pool_rep [2] demo_pool"
  proof (rule pool_repI)
    fix i assume i: "i < cap demo_pool"
    then have i3: "i < 3" "i \<in> {0, 1, 2}" by (auto simp: cap)
    from i3(2) show "i \<in> set [2] \<longleftrightarrow> \<not> data_allocate demo_pool ! i" by (auto simp: demo_pool_def)
    show "slot_of (uid (data_array demo_pool ! i)) = i"
      using i3(1) init_uid [of i] by (simp add: demo_pool_def demo_client_def del: upt_Suc)
  qed (simp_all add: cap, simp_all add: demo_pool_def)
  then show ?thesis by (auto simp: pool_ok_def)
qed

lemma demo_config_ok: "cfg_ok demo_config"
  using drop_config_ok
  by (simp add: demo_config_def cfg_ok_def cfg_shape_def cfg_consts demo_point_def)

lemma demo_ok: "world_ok (demo s)"
  by (simp add: demo_def world_ok_def demo_pool_ok demo_config_ok demo_road_def drop_new_def MAX_MAP_DATA_LEN_def)

lemma with_message_ok: "world_ok w \<Longrightarrow> world_ok (with_message i b w)"
  unfolding with_message_def by (rule world_ok_upd) simp_all

lemma demo_sel [simp]:
  "m_GameState (demo s) = s" "gConfig (demo s) = demo_config" "m_ClientPool (demo s) = demo_pool"
  by (simp_all add: demo_def)

lemma demo_valid: "psize (demo s) = 3" "valid_clients (demo s) = [0, 1]" "players_of (demo s) = [0]"
  by (simp_all add: demo_def psize_def valid_clients_def players_of_def demo_pool_def Size_def cl_def
      IsValid_def demo_client_def upt_conv_Cons)

end
