(* ===== verification/GameRules.thy ===== *)
theory GameRules
  imports GameExample
begin

text \<open>
  The game as a system of inputs: messages, ticks of the timer, new and lost connections. The
  first sections discharge the contracts between the parts: the game is a listener the drop item
  manager can rely on, and the two ways the network library may close a connection, later or
  with an immediate call back into the program, both meet what \<open>EndGame\<close> needs. The rest proves
  the invariant and the state machine of the whole game.
\<close>

section \<open>The game as the drop item manager's listener\<close>

lemma drop_created_total:
  assumes "world_ok w" "0 \<le> mIndex a" "mIndex a < 64"
  shows "\<exists>w'. drop_created a j w = Inr w' \<and> world_ok w'"
  using assms cfg_okD(8) [OF world_okD(2) [OF assms(1)]]
  by (auto simp: drop_created_def arr_get_def)

lemma OnDropItemEvent_total:
  assumes "world_ok w" "0 \<le> mIndex a" "mIndex a < 64"
  shows "\<exists>w'. OnDropItemEvent e a h w = Inr w' \<and> world_ok w'"
proof -
  have d: "\<exists>d. arr_get (m_DropItemData (gConfig w)) (mIndex a) = Inr d"
    using assms cfg_okD(8) [OF world_okD(2) [OF assms(1)]] by (auto simp: arr_get_def)
  have "\<exists>w'. OnDropItemEvent e a h w = Inr w'"
  proof (cases e)
    case DROP_EVENT_CREATE
    have "\<exists>w'. foldE (drop_created a) [0..<psize w] w = Inr w' \<and> world_ok w'"
      by (rule foldE_total) (use assms drop_created_total in auto)
    then show ?thesis by (auto simp: OnDropItemEvent_def DROP_EVENT_CREATE)
  next
    case DROP_EVENT_GET
    then show ?thesis using d by (auto simp: OnDropItemEvent_def Let_def split: option.splits)
  qed
  then show ?thesis using calm_ok [OF assms(1)] OnDropItemEvent_calm by blast
qed

interpretation game_drops: drop_listener OnDropItemEvent world_ok
  by unfold_locales (rule OnDropItemEvent_total)

lemma CreateDropItem_calm:
  assumes "CreateDropItem c OnDropItemEvent junk i (m, w) = Inr (m', w')"
  shows "calm w w' \<and> length (mAllDropItem m') = length (mAllDropItem m)"
  using assms OnDropItemEvent_calm arr_set_InrD
  by (fastforce simp: CreateDropItem_def Let_def split: if_splits)

definition drop_calm :: "world \<Rightarrow> nat \<Rightarrow> drop_mgr \<times> world \<Rightarrow> bool" where
  "drop_calm w n s = (calm w (snd s) \<and> length (mAllDropItem (fst s)) = n)"

lemma drop_first_refresh_calm:
  assumes "drop_first_refresh c OnDropItemEvent junk i (m, w) = Inr s" "drop_calm v n (m, w)"
  shows "drop_calm v n s"
proof -
  obtain item where item: "arr_get (mAllDropItem m) i = Inr item"
    using assms(1) by (auto simp: drop_first_refresh_def)
  show ?thesis
  proof (cases "mInitRefresh item")
    case True
    then show ?thesis using assms item by (simp add: drop_first_refresh_def)
  next
    case False
    with assms(1) item obtain items where a: "arr_set (mAllDropItem m) i (item\<lparr>mInitRefresh := True\<rparr>) = Inr items"
      and run: "foldE (\<lambda>j. CreateDropItem c OnDropItemEvent junk i) [0..<nat (mInitCount (mData item))]
        (m\<lparr>mAllDropItem := items\<rparr>, w) = Inr s"
      by (auto simp: drop_first_refresh_def)
    show ?thesis
    proof (rule foldE_invariant [OF run])
      show "drop_calm v n (m\<lparr>mAllDropItem := items\<rparr>, w)"
        using arr_set_InrD [OF a] assms(2) by (simp add: drop_calm_def)
    next
      fix x u u' assume "drop_calm v n u" "CreateDropItem c OnDropItemEvent junk i u = Inr u'"
      then show "drop_calm v n u'"
        using CreateDropItem_calm [of c junk i "fst u" "snd u" "fst u'" "snd u'"]
        by (auto simp: drop_calm_def intro: calm_trans)
    qed
  qed
qed

lemma drop_timed_refresh_calm:
  assumes "drop_timed_refresh c OnDropItemEvent junk t i (m, w) = Inr s" "drop_calm v n (m, w)"
  shows "drop_calm v n s"
proof -
  obtain item where item: "arr_get (mAllDropItem m) i = Inr item"
    using assms(1) by (auto simp: drop_timed_refresh_def)
  have upd: "drop_calm v n (m\<lparr>mAllDropItem := items\<rparr>, w)" if "arr_set (mAllDropItem m) i x = Inr items" for x items
    using arr_set_InrD [OF that] assms(2) by (simp add: drop_calm_def)
  have create: "drop_calm v n s" if "CreateDropItem c OnDropItemEvent junk i (m\<lparr>mAllDropItem := items\<rparr>, w) = Inr s"
    "arr_set (mAllDropItem m) i x = Inr items" for x items
    using CreateDropItem_calm [of c junk i "m\<lparr>mAllDropItem := items\<rparr>" w "fst s" "snd s"] that upd [OF that(2)]
    by (auto simp: drop_calm_def intro: calm_trans)
  from assms(1) item show ?thesis
    by (auto simp: drop_timed_refresh_def Let_def split: if_splits intro: upd create)
qed

lemma drop_update_item_calm:
  assumes "drop_update_item c OnDropItemEvent junk t i (m, w) = Inr s" "drop_calm v n (m, w)"
  shows "drop_calm v n s"
proof -
  from assms(1) obtain item where item: "arr_get (mAllDropItem m) i = Inr item"
    by (auto simp: drop_update_item_def)
  show ?thesis
  proof (cases "mSet (mData item)")
    case True
    then obtain u where "drop_first_refresh c OnDropItemEvent junk i (m, w) = Inr u"
      "drop_timed_refresh c OnDropItemEvent junk t i u = Inr s"
      using assms(1) item by (auto simp: drop_update_item_def)
    then show ?thesis
      using drop_first_refresh_calm assms(2) drop_timed_refresh_calm [of c junk t i "fst u" "snd u"]
      by simp
  qed (use assms item in \<open>simp add: drop_update_item_def\<close>)
qed

lemma update_drops_shape:
  assumes "update_drops l t w = Inr w'"
  obtains m v where "calm w v" "w' = v\<lparr>m_DropManager := m\<rparr>"
    "length (mAllDropItem m) = length (mAllDropItem (m_DropManager w))"
proof -
  let ?n = "length (mAllDropItem (m_DropManager w))"
  from assms obtain m v where run: "drop_Update (gConfig w) OnDropItemEvent (jk_pos l) t (m_DropManager w, w)
      = Inr (m, v)" and w': "w' = v\<lparr>m_DropManager := m\<rparr>"
    by (auto simp: update_drops_def)
  have "drop_calm w ?n (m, v)"
  proof (cases "listenner (m_DropManager w)")
    case True
    then have "foldE (drop_update_item (gConfig w) OnDropItemEvent (jk_pos l) t)
        (map int [0..<nat (mAllDropTtemCount (m_DropManager w))]) (m_DropManager w, w) = Inr (m, v)"
      using run by (simp add: drop_Update_def)
    then show ?thesis
    proof (rule foldE_invariant)
      fix x u u'
      assume "drop_calm w ?n u" "drop_update_item (gConfig w) OnDropItemEvent (jk_pos l) t x u = Inr u'"
      then show "drop_calm w ?n u'"
        using drop_update_item_calm [of "gConfig w" "jk_pos l" t x "fst u" "snd u" u' w ?n] by simp
    qed (simp add: drop_calm_def)
  qed (use run in \<open>auto simp: drop_Update_def drop_calm_def\<close>)
  then show ?thesis using that [of v m] w' by (simp add: drop_calm_def)
qed

text \<open>With positions for every kind of item the drop items never make an update fail.\<close>

lemma update_drops_total:
  assumes "world_ok w" "drop_safe (gConfig w) (m_DropManager w)"
  shows "\<exists>w'. update_drops l t w = Inr w'"
  using game_drops.update_total [OF assms(2,1), of "jk_pos l" t] by (auto simp: update_drops_def)

section \<open>Closing a connection\<close>

text \<open>
  The library closes a connection when it is asked to, and tells the program by
  \<open>OnDisconnected\<close>: at once, from inside \<open>Disconnect\<close>, or later. \<open>deferred\<close> and \<open>synchronous\<close> are
  the library with either behaviour; in the second the call back runs with the library \<open>l\<close>
  itself, whose own \<open>Disconnect\<close> it does not reach, as the lemmas show.
\<close>

definition deferred :: "lib \<Rightarrow> lib" where
  "deferred l = l\<lparr>nl_disconnect := \<lambda>i w. Inr (emit (Disconnecting i) w)\<rparr>"

definition synchronous :: "lib \<Rightarrow> lib" where
  "synchronous l = l\<lparr>nl_disconnect := OnDisconnected l\<rparr>"

text \<open>What the game needs of it: while no race is on, a closed connection leaves the state well
  formed and no race on.\<close>

locale disconnecting =
  fixes l :: lib
  assumes disconnect_ok: "world_ok w \<Longrightarrow> m_GameState w = Wait \<Longrightarrow> nl_disconnect l i w = Inr w' \<Longrightarrow>
    world_ok w' \<and> m_GameState w' = Wait"

interpretation deferred: disconnecting "deferred l" for l
  by unfold_locales (auto simp: deferred_def)

lemma pool_ok_uids:
  assumes "pool_ok p" "map uid d = map uid (data_array p)"
  shows "pool_ok (p\<lparr>data_array := d\<rparr>)"
proof -
  from assms(1) obtain fl where fl: "pool_rep fl p" by (auto simp: pool_ok_def)
  note r = pool_repD [OF fl]
  have len: "length d = length (data_array p)" using map_eq_imp_length_eq [OF assms(2)] .
  have "pool_rep fl (p\<lparr>data_array := d\<rparr>)"
  proof (rule pool_repI)
    fix i assume "i < cap (p\<lparr>data_array := d\<rparr>)"
    then have i: "i < length (data_array p)" "i < cap p" using r(2) by (simp_all add: cap_def)
    have "uid (d ! i) = uid (data_array p ! i)"
      using arg_cong [OF assms(2), of "\<lambda>xs. xs ! i"] i len by simp
    then show "slot_of (uid (data_array (p\<lparr>data_array := d\<rparr>) ! i)) = i" using r(10) [OF i(2)] by simp
  qed (use r len in \<open>auto simp: cap_def\<close>)
  then show ?thesis by (auto simp: pool_ok_def)
qed

text \<open>The last two lines of \<open>OnDisconnected\<close>.\<close>

definition release :: "lib \<Rightarrow> nat \<Rightarrow> world \<Rightarrow> world" where
  "release l i w =
     upd_client i (\<lambda>c. c\<lparr>connection := None\<rparr>)
       (w\<lparr>m_ClientPool := Free (main_thread l) (uid (cl w i)) (m_ClientPool w)\<rparr>)"

lemma OnDisconnected_release:
  "OnDisconnected l i w =
     rbind (if IsValid (cl w i) then OnClientDisconnect l i w else Inr w) (\<lambda>w1. Inr (release l i w1))"
  by (simp add: OnDisconnected_def release_def Let_def)

lemma release_ok: "world_ok w \<Longrightarrow> world_ok (release l i w)"
proof -
  assume ok: "world_ok w"
  let ?p = "Free (main_thread l) (uid (cl w i)) (m_ClientPool w)"
  let ?d = "(data_array ?p)[i := (data_array ?p ! i)\<lparr>connection := None\<rparr>]"
  have "map uid ?d = map uid (data_array ?p)"
    by (cases "i < length (data_array ?p)") (simp_all add: map_update list_update_same_conv list_update_beyond)
  then have "pool_ok (?p\<lparr>data_array := ?d\<rparr>)"
    using pool_ok_uids pool_ok_Free world_okD(1) [OF ok] by blast
  then show ?thesis using ok by (simp add: world_ok_def release_def upd_client_def cl_def)
qed

lemma release_state [simp]: "m_GameState (release l i w) = m_GameState w"
  by (simp add: release_def)

lemma OnDisconnected_waiting: "m_GameState w = Wait \<Longrightarrow> OnDisconnected l i w = Inr (release l i w)"
  by (simp add: OnDisconnected_release OnClientDisconnect_def EndGame_def)

interpretation synchronous: disconnecting "synchronous l" for l
  by unfold_locales (auto simp: synchronous_def OnDisconnected_waiting release_ok)

context disconnecting
begin

lemma EndGame_ok:
  assumes "EndGame l w = Inr w'" "world_ok w"
  shows "world_ok w'" "m_GameState w' = Wait"
proof -
  have "world_ok w' \<and> m_GameState w' = Wait"
  proof (cases "m_GameState w = Wait")
    case True
    then show ?thesis using assms by (simp add: EndGame_def)
  next
    case False
    then have run: "foldE (disconnect_valid l) [0..<psize w] (ClearData w) = Inr w'"
      using assms(1) by (simp add: EndGame_def)
    have step: "world_ok v \<and> m_GameState v = Wait"
      if "disconnect_valid l x u = Inr v" "world_ok u \<and> m_GameState u = Wait" for x u v
      using that disconnect_ok [of u x v]
      by (cases "IsValid (cl u x)") (simp_all add: disconnect_valid_def)
    show ?thesis
    proof (rule foldE_invariant [OF run])
      show "world_ok (ClearData w) \<and> m_GameState (ClearData w) = Wait"
        using ClearData_ok [OF assms(2)] by (simp add: ClearData_def)
    qed (rule step)
  qed
  then show "world_ok w'" "m_GameState w' = Wait" by simp_all
qed

lemma OnClientDisconnect_ok:
  assumes "OnClientDisconnect l i w = Inr w'" "world_ok w"
  shows "world_ok w' \<and> (m_GameState w' = m_GameState w \<or> m_GameState w' = Wait)"
  using assms EndGame_ok [of w w'] by (auto simp: OnClientDisconnect_def split: if_splits)

lemma OnRequestSelectMap_ok:
  assumes "OnRequestSelectMap l i w = Inr w'" "world_ok w"
  shows "world_ok w' \<and> m_GameState w' = m_GameState w"
proof -
  let ?d = "rbuf (cl w i)"
  let ?w = "w\<lparr>m_MapDataLen := int (length ?d), m_MapData := ?d @ drop (length ?d) (m_MapData w)\<rparr>"
  consider "w' = w" | "m_GameState w = Wait" "nl_disconnect l i w = Inr w'"
    | "int (length ?d) \<le> MAX_MAP_DATA_LEN" "calm ?w w'"
    using assms(1) calm_broadcast by (auto simp: OnRequestSelectMap_def Let_def split: if_splits)
  then show ?thesis
  proof cases
    case 3
    have "world_ok ?w" using assms(2) 3(1) by (simp add: world_ok_def MAX_MAP_DATA_LEN_def)
    then have "world_ok w'" using 3(2) by (rule calm_ok)
    with calmD(2) [OF 3(2)] show ?thesis by simp
  next
    case 2
    then show ?thesis using disconnect_ok [OF assms(2)] by simp
  qed (use assms(2) in simp)
qed

end

section \<open>The inputs of the system\<close>

datatype game_input =
    InConnected nat     \<comment> \<open>the library reports a connection\<close>
  | InMessage nat       \<comment> \<open>the library delivers a message\<close>
  | InLost nat          \<comment> \<open>the library reports a lost connection\<close>
  | InTick f32          \<comment> \<open>the timer\<close>

fun run_input :: "lib \<Rightarrow> game_input \<Rightarrow> world \<Rightarrow> world res" where
  "run_input l (InConnected i) w = OnConnected l i w"
| "run_input l (InMessage i) w = OnMessage l i w"
| "run_input l (InLost i) w = OnDisconnected l i w"
| "run_input l (InTick t) w = Update l t w"

text \<open>
  The states a tick leads to: a tick may end the show and the race at once when the configured
  race time is over.
\<close>

definition tick_state :: "f32 \<Rightarrow> world \<Rightarrow> game_state" where
  "tick_state t w =
     (case m_GameState w of
        SyncScore \<Rightarrow> if m_GameTotleTime w + m_GameBalanceTime (gConfig w) < m_GameRunTime w + t then Wait else SyncScore
      | Show \<Rightarrow> if m_GameShowTime w - t < 0
          then if m_GameTotleTime w < m_GameRunTime w + t then Balance else Play
          else Show
      | Play \<Rightarrow> if m_GameTotleTime w < m_GameRunTime w + t then Balance else Play
      | s \<Rightarrow> s)"

lemma OnPlayerMove_ok:
  assumes "OnPlayerMove l i w = Inr w'" "world_ok w"
  shows "world_ok w' \<and> m_GameState w' = (if m_GameState w' \<noteq> m_GameState w then Balance else m_GameState w)
    \<and> (m_GameState w' \<noteq> m_GameState w \<longrightarrow> m_GameState w = Play)"
proof -
  obtain u v where u: "calm w u" "v = u \<or> BalanceGame u = Inr v" "calm v w'"
    using OnPlayerMove_cases [OF assms(1)] by blast
  have "world_ok v" using u(1,2) calm_ok [OF assms(2)] BalanceGame_ok by blast
  then have "world_ok w'" using u(3) by (rule calm_ok)
  moreover have "m_GameState u = m_GameState w" "m_GameState w' = m_GameState v"
    using calmD(2) u by auto
  ultimately show ?thesis using u(2) BalanceGame_state [of u v] by (auto split: if_splits)
qed

lemma OnClientMapLoaded_ok:
  assumes "OnClientMapLoaded i w = Inr w'" "world_ok w"
  shows "world_ok w' \<and> (m_GameState w' = m_GameState w \<or> m_GameState w = Load \<and> m_GameState w' = Show)"
proof -
  obtain u where u: "calm w u" "w' = u \<or> StartGame u = Inr w'"
    using OnClientMapLoaded_cases [OF assms(1)] by blast
  have "world_ok u" using assms(2) u(1) by (rule calm_ok)
  moreover have "m_GameState u = m_GameState w" by (rule calmD(2) [OF u(1)])
  ultimately show ?thesis using u(2) StartGame_ok [of u w'] StartGame_cases [of u w'] by metis
qed

lemma OnRequestLoadMap_state:
  "m_GameState (OnRequestLoadMap l i w) = (if Load < m_GameState w then m_GameState w else Load)"
  using OnRequestLoadMap_shape [of w l i] calmD(2) [of w "OnRequestLoadMap l i w"]
    calmD(2) [of "w\<lparr>m_GameState := Load\<rparr>" "OnRequestLoadMap l i w"]
  by (cases "Load < m_GameState w") (auto simp: not_less)

lemma OnClientCommitSocre_state:
  "m_GameState (OnClientCommitSocre i w) = (if m_GameState w = Balance then SyncScore else m_GameState w)"
  using calmD(2) [OF calm_broadcast] by (simp add: OnClientCommitSocre_def Let_def)

lemma watchdog_ok: "watchdog t w = Inr w' \<Longrightarrow> world_ok w \<Longrightarrow> world_ok w' \<and> m_GameState w' = m_GameState w"
  by (auto simp: watchdog_def Let_def split: if_splits)

lemma watchdog_state: "watchdog t w = Inr w' \<Longrightarrow> tick_state t w' = tick_state t w"
  by (auto simp: watchdog_def Let_def tick_state_def split: if_splits)

lemma play_step_ok:
  assumes "play_step l t w = Inr w'" "world_ok w"
  shows "world_ok w' \<and> m_GameState w' = (if m_GameState w = Play \<and> m_GameTotleTime w < m_GameRunTime w + t
    then Balance else m_GameState w)"
proof (cases "m_GameState w = Play")
  case True
  define w1 where "w1 = w\<lparr>m_GameRunTime := m_GameRunTime w + t\<rparr>"
  from assms(1) True obtain w2 w3 where 2: "sync_if_due l w1 = Inr w2"
    and 3: "balance_if_over w2 = Inr w3" and 4: "update_drops l t w3 = Inr w'"
    by (auto simp: play_step_def w1_def)
  have 1: "world_ok w1" "m_GameState w1 = Play" using assms(2) True by (simp_all add: w1_def)
  have w2: "world_ok w2" "m_GameState w2 = Play" "m_GameRunTime w2 = m_GameRunTime w + t"
    "m_GameTotleTime w2 = m_GameTotleTime w"
  proof -
    have "w2 = w1 \<or> calm (w1\<lparr>m_GameSyncTime := m_GameRunTime w1\<rparr>) w2"
      using 2 SyncGameTime_calm by (auto simp: sync_if_due_def split: if_splits)
    then have "world_ok w2 \<and> m_GameState w2 = Play \<and> m_GameRunTime w2 = m_GameRunTime w1
        \<and> m_GameTotleTime w2 = m_GameTotleTime w1"
    proof
      assume c: "calm (w1\<lparr>m_GameSyncTime := m_GameRunTime w1\<rparr>) w2"
      show ?thesis using calm_ok [OF _ c] calmD(2,6,9) [OF c] 1 by simp
    qed (use 1 in simp)
    then show "world_ok w2" "m_GameState w2 = Play" "m_GameRunTime w2 = m_GameRunTime w + t"
      "m_GameTotleTime w2 = m_GameTotleTime w" by (simp_all add: w1_def)
  qed
  then have w3: "world_ok w3" "m_GameState w3 = (if m_GameTotleTime w < m_GameRunTime w + t then Balance else Play)"
    using 3 BalanceGame_ok [of w2 w3] BalanceGame_state [of w2 w3]
    by (auto simp: balance_if_over_def split: if_splits)
  obtain m v where v: "calm w3 v" "w' = v\<lparr>m_DropManager := m\<rparr>"
    "length (mAllDropItem m) = length (mAllDropItem (m_DropManager w3))"
    using update_drops_shape [OF 4] .
  have "world_ok v" using calm_ok v(1) w3 by blast
  moreover have "length (mAllDropItem m) = 64" using v(3) w3(1) world_okD(3) by simp
  ultimately have "world_ok w'" using v(2) world_ok_managers(1) by simp
  moreover have "m_GameState w' = m_GameState w3" using calmD(2) [OF v(1)] v(2) by simp
  ultimately show ?thesis using w3(2) True by simp
qed (use assms in \<open>simp add: play_step_def\<close>)

lemma OnClientMessage_cases:
  assumes "OnClientMessage l i w = Inr w'" "rd_byte l (rbuf (cl w i)) (jk_byte l) = (cmd, b)"
  defines "w1 \<equiv> upd_client i (\<lambda>c. c\<lparr>rbuf := b\<rparr>) w"
  shows "w' = upd_client i (\<lambda>c. c\<lparr>m_IsObClient := True\<rparr>) w1 \<or> w' = OnBroadcastAvatarData l i w1
    \<or> OnRequestSelectMap l i w1 = Inr w' \<or> OnPlayerMove l i w1 = Inr w'
    \<or> w' = OnRequestLoadMap l i w1 \<or> OnClientMapLoaded i w1 = Inr w'
    \<or> w' = OnClientCommitSocre i w1 \<or> w' = ClearData w1
    \<or> OnPlayerGetDropItem l i w1 = Inr w' \<or> w' = w1"
  using assms(1) unfolding OnClientMessage_def assms(2) Let_def prod.case w1_def [symmetric] OnPlayerStopGame_def
  by (simp split: if_split_asm)

context disconnecting
begin

lemma OnClientMessage_ok:
  assumes "OnClientMessage l i w = Inr w'" "world_ok w"
  shows "world_ok w'"
proof -
  obtain cmd b where cmd: "rd_byte l (rbuf (cl w i)) (jk_byte l) = (cmd, b)" by force
  let ?w1 = "upd_client i (\<lambda>c. c\<lparr>rbuf := b\<rparr>) w"
  have w1: "world_ok ?w1" using assms(2) by (rule world_ok_upd) simp_all
  consider "w' = upd_client i (\<lambda>c. c\<lparr>m_IsObClient := True\<rparr>) ?w1" | "w' = OnBroadcastAvatarData l i ?w1"
    | "OnRequestSelectMap l i ?w1 = Inr w'" | "OnPlayerMove l i ?w1 = Inr w'"
    | "w' = OnRequestLoadMap l i ?w1" | "OnClientMapLoaded i ?w1 = Inr w'"
    | "w' = OnClientCommitSocre i ?w1" | "w' = ClearData ?w1"
    | "OnPlayerGetDropItem l i ?w1 = Inr w'" | "w' = ?w1"
    using OnClientMessage_cases [OF assms(1) cmd] by blast
  then show ?thesis
  proof cases
    case 1
    show ?thesis unfolding 1 using w1 by (rule world_ok_upd) simp_all
  next
    case 2
    show ?thesis using calm_ok [OF w1] OnBroadcastAvatarData_calm unfolding 2 by blast
  next
    case 3
    then show ?thesis using OnRequestSelectMap_ok [OF 3 w1] by simp
  next
    case 4
    then show ?thesis using OnPlayerMove_ok [OF 4 w1] by simp
  next
    case 5
    then show ?thesis using OnRequestLoadMap_ok [OF w1] by simp
  next
    case 6
    then show ?thesis using OnClientMapLoaded_ok [OF 6 w1] by simp
  next
    case 7
    then show ?thesis using OnClientCommitSocre_ok [OF w1] by simp
  next
    case 8
    then show ?thesis using ClearData_ok [OF w1] by simp
  next
    case 9
    then show ?thesis using OnPlayerGetDropItem_ok [OF w1 9] by simp
  next
    case 10
    then show ?thesis using w1 by simp
  qed
qed

lemma wait_states_ok:
  assumes "wait_states l t w = Inr w'" "world_ok w"
  shows "world_ok w' \<and> (if m_GameState w' = Play \<and> m_GameTotleTime w' < m_GameRunTime w' + t
    then Balance else m_GameState w') = tick_state t w"
proof (cases "m_GameState w = SyncScore")
  case True
  then show ?thesis using assms EndGame_ok [of "w\<lparr>m_GameRunTime := m_GameRunTime w + t\<rparr>" w']
    by (auto simp: wait_states_def Let_def tick_state_def split: if_splits)
next
  case False
  then show ?thesis using assms
    by (cases "m_GameState w") (auto simp: wait_states_def Let_def tick_state_def split: if_splits)
qed

lemma Update_ok:
  assumes "Update l t w = Inr w'" "world_ok w"
  shows "world_ok w'" "m_GameState w' = tick_state t w"
proof -
  from assms(1) obtain u v where u: "watchdog t w = Inr u" and v: "wait_states l t u = Inr v"
    and w': "play_step l t v = Inr w'"
    by (auto simp: Update_def)
  have 1: "world_ok u" using watchdog_ok [OF u assms(2)] by simp
  note 2 = wait_states_ok [OF v 1] play_step_ok [OF w']
  show "world_ok w'" "m_GameState w' = tick_state t w" using watchdog_state [OF u] 2 by auto
qed

lemma OnDisconnected_ok:
  assumes "OnDisconnected l i w = Inr w'" "world_ok w"
  shows "world_ok w'"
proof -
  from assms(1) obtain u where u: "(if IsValid (cl w i) then OnClientDisconnect l i w else Inr w) = Inr u"
    and w': "w' = release l i u"
    by (auto simp: OnDisconnected_release)
  then have "world_ok u" using OnClientDisconnect_ok [of i w u] assms(2) by (auto split: if_splits)
  then show ?thesis using release_ok by (simp add: w')
qed

end

section \<open>Properties\<close>

text \<open>What \<open>NetworkStream::Reset\<close> may change: the buffers of the client, nothing else.\<close>

definition reset_ok :: "lib \<Rightarrow> bool" where
  "reset_ok l = (\<forall>i w. calm w (nl_reset l i w))"

lemma OnConnected_calm:
  assumes "reset_ok l" "OnConnected l i w = Inr w'"
  shows "calm w w'"
proof -
  let ?w1 = "upd_client i (\<lambda>c. c\<lparr>m_UserHeadImgUrl := [], m_UserName := [], m_UserOpenId := [],
      m_CarData := [], m_SetUserInfo := False\<rparr>) w"
  have "calm w ?w1" by (rule calm_upd) simp_all
  then have "calm w (nl_reset l i ?w1)" using assms(1) calm_trans unfolding reset_ok_def by blast
  then show ?thesis
    using assms(2) by (auto simp: OnConnected_def Let_def split: option.splits intro!: calm_upd_then calm_emit_then)
qed

lemma OnConnected_ok:
  assumes "reset_ok l" "OnConnected l i w = Inr w'" "world_ok w"
  shows "world_ok w' \<and> m_GameState w' = m_GameState w"
  using calm_ok [OF assms(3) OnConnected_calm [OF assms(1,2)]] calmD(2) [OF OnConnected_calm [OF assms(1,2)]]
  by simp

lemma reset_ok_models [simp]:
  "reset_ok (deferred l) = reset_ok l" "reset_ok (synchronous l) = reset_ok l"
  by (simp_all add: reset_ok_def deferred_def synchronous_def)

lemma run_input_step:
  assumes "disconnecting l" "reset_ok l" "run_input l x w = Inr w'" "world_ok w"
  shows "world_ok w'"
proof (cases x)
  case (InConnected i)
  with OnConnected_ok [OF assms(2) _ assms(4)] assms(3) show ?thesis by simp
next
  case (InMessage i)
  show ?thesis
  proof (cases "m_RevciveUID (cl w i)")
    case True
    with InMessage disconnecting.OnClientMessage_ok [OF assms(1) _ assms(4)] assms(3) show ?thesis
      by (simp add: OnMessage_def)
  next
    case False
    with InMessage assms(3) have w': "w' = upd_client i (\<lambda>c. c\<lparr>m_RevciveUID := True\<rparr>) w"
      by (simp add: OnMessage_def)
    show ?thesis unfolding w' using assms(4) by (rule world_ok_upd) simp_all
  qed
next
  case (InLost i)
  with disconnecting.OnDisconnected_ok [OF assms(1) _ assms(4)] assms(3) show ?thesis by simp
next
  case (InTick t)
  with disconnecting.Update_ok(1) [OF assms(1) _ assms(4)] assms(3) show ?thesis by simp
qed

lemma library_disconnecting: "l = deferred l0 \<or> l = synchronous l0 \<Longrightarrow> disconnecting l"
  using deferred.disconnecting_axioms synchronous.disconnecting_axioms by blast

lemma run_inputs_ok:
  assumes "disconnecting l" "reset_ok l" "foldE (run_input l) xs w = Inr w'" "world_ok w"
  shows "world_ok w'"
  by (rule foldE_invariant [OF assms(3), of world_ok])
    (use assms(4) run_input_step [OF assms(1,2)] in blast)+

text \<open>
  C1: whatever the library delivers in whatever order, connections, messages of any content,
  lost connections and ticks, and whether it closes connections at once or later, a well-formed
  server stays well formed: the pool's free list and handles, the configuration's bounds, and
  the map buffer, whose length never exceeds its 131072 bytes.
\<close>

theorem game_invariant:
  assumes "l = deferred l0 \<or> l = synchronous l0" "reset_ok l0" "world_ok w"
    and "foldE (run_input l) xs w = Inr w'"
  shows "world_ok w'"
  using run_inputs_ok [OF library_disconnecting [OF assms(1)] _ assms(4,3)] assms(1,2) by auto

lemma demo_lib_models: "demo_lib = deferred demo_lib" "reset_ok demo_lib"
  by (simp_all add: demo_lib_def deferred_def reset_ok_def)

theorem game_invariant_witness:
  "\<exists>w'. foldE (run_input demo_lib) [InMessage 0, InTick 1, InLost 0] (with_message 0 [6, 65, 66] (demo Wait)) = Inr w'
     \<and> world_ok w' \<and> m_MapDataLen w' = 2"
proof -
  let ?run = "foldE (run_input demo_lib) [InMessage 0, InTick 1, InLost 0] (with_message 0 [6, 65, 66] (demo Wait))"
  have "case ?run of Inl e \<Rightarrow> False | Inr w' \<Rightarrow> m_MapDataLen w' = 2" by code_simp
  then obtain w' where w': "?run = Inr w'" "m_MapDataLen w' = 2" by (auto split: sum.splits)
  have "world_ok w'"
    using game_invariant [of demo_lib demo_lib, OF _ demo_lib_models(2) with_message_ok [OF demo_ok] w'(1)]
      demo_lib_models(1) by simp
  with w' show ?thesis by blast
qed

end
