(* ===== verification/GameLaws.thy ===== *)
theory GameLaws
  imports GameRules
begin

text \<open>
  The functional behaviour of the single handlers: which clients hear of what, the choice of the
  map, the taking of items, the start of a race, its end, and the counting of check points.
\<close>

section \<open>What is heard by whom\<close>

text \<open>\<open>talks w w'\<close>: the same clients are valid, and the output only grew.\<close>

definition talks :: "world \<Rightarrow> world \<Rightarrow> bool" where
  "talks w w' =
     (valid_clients w' = valid_clients w \<and> map uid (data_array (m_ClientPool w')) = map uid (data_array (m_ClientPool w))
      \<and> psize w' = psize w \<and> (\<exists>e. outp w' = outp w @ e))"

lemma talks_refl [simp]: "talks w w"
  by (simp add: talks_def)

lemma talks_trans: "talks u v \<Longrightarrow> talks v w \<Longrightarrow> talks u w"
  by (auto simp: talks_def)

lemma valid_clients_emit [simp]: "valid_clients (emit e w) = valid_clients w"
  by (simp add: valid_clients_def)

lemma talks_emit [simp]: "talks w (emit e w)"
  by (simp add: talks_def)

lemma cl_upd_any:
  "cl (upd_client i f w) j = (if j = i \<and> i < length (data_array (m_ClientPool w)) then f (cl w i) else cl w j)"
  by (cases "i < length (data_array (m_ClientPool w))")
    (simp_all add: upd_client_def cl_def list_update_beyond)

lemma talks_upd:
  assumes "\<And>c. IsValid (f c) = IsValid c" "\<And>c. uid (f c) = uid c"
  shows "talks w (upd_client i f w)"
proof -
  have "IsValid (cl (upd_client i f w) j) = IsValid (cl w j)" for j
    by (simp add: cl_upd_any assms(1))
  moreover have "map uid ((data_array p)[i := f (data_array p ! i)]) = map uid (data_array p)" for p
    by (cases "i < length (data_array p)")
      (simp_all add: map_update list_update_same_conv list_update_beyond assms(2))
  ultimately show ?thesis
    by (simp add: talks_def valid_clients_def) (simp add: upd_client_def cl_def)
qed

lemma talks_foldE:
  "foldE f xs w = Inr w' \<Longrightarrow> (\<And>x u u'. x \<in> set xs \<Longrightarrow> f x u = Inr u' \<Longrightarrow> talks u u') \<Longrightarrow> talks w w'"
  by (rule foldE_invariant [of f xs w w' "talks w"]) (auto intro: talks_trans)

lemma talks_fold: "(\<And>x u. x \<in> set xs \<Longrightarrow> talks u (f x u)) \<Longrightarrow> talks w (fold f xs w)"
  by (rule fold_invariant [of "talks w"]) (auto intro: talks_trans)

lemma talks_upd_then:
  "talks u w \<Longrightarrow> (\<And>c. IsValid (f c) = IsValid c) \<Longrightarrow> (\<And>c. uid (f c) = uid c) \<Longrightarrow> talks u (upd_client i f w)"
  using talks_trans [OF _ talks_upd] by blast

lemma talks_emit_then: "talks u w \<Longrightarrow> talks u (emit e w)"
  using talks_trans [OF _ talks_emit] .

lemma talks_state [simp]: "talks u (w\<lparr>m_GameState := s\<rparr>) = talks u w"
  by (simp add: talks_def valid_clients_def)

lemma talks_uid: "talks w w' \<Longrightarrow> i < length (data_array (m_ClientPool w)) \<Longrightarrow> uid (cl w' i) = uid (cl w i)"
  unfolding talks_def cl_def by (metis length_map nth_map)

lemma dir_message_talks: "dir_message i ok d j w = Inr w' \<Longrightarrow> talks w w'"
  by (auto simp: dir_message_def split: if_splits)

lemma check_direction_talks: "check_direction l i pos w = Inr w' \<Longrightarrow> talks w w'"
proof -
  assume *: "check_direction l i pos w = Inr w'"
  have "talks u w'" if "foldE (dir_message i ok d) xs v = Inr w'" "talks u v" for ok d xs u v
    using talks_trans [OF that(2) talks_foldE [OF that(1)]] dir_message_talks by blast
  moreover have "talks w (upd_client i (\<lambda>c. c\<lparr>m_CheckerPosition := pos\<rparr>) w)"
    by (rule talks_upd) (simp_all add: IsValid_def)
  ultimately show ?thesis using *
    by (auto simp: check_direction_def Let_def split: prod.splits if_splits)
qed

lemma balance_one_talks: "talks w (balance_one i w)"
  by (auto simp: balance_one_def Let_def IsValid_def intro!: talks_upd_then talks_emit_then)

lemma BalanceGame_talks: "BalanceGame w = Inr w' \<Longrightarrow> talks w w'"
proof -
  assume *: "BalanceGame w = Inr w'"
  have "talks w (fold balance_one xs (w\<lparr>m_GameState := Balance\<rparr>))" for xs
    by (rule talks_trans [OF _ talks_fold]) (simp_all add: balance_one_talks)
  with * show ?thesis by (auto simp: BalanceGame_eq split: if_splits)
qed

lemma pass_point_talks:
  assumes "pass_point i p w = Inr w'"
  shows "talks w w'"
proof -
  let ?w1 = "upd_client i (\<lambda>c. c\<lparr>m_LastCheckIndex := word_of_int (cp_Index p)\<rparr>) w"
  let ?w2 = "upd_client i (\<lambda>c. c\<lparr>m_LastCheckIndex := 0\<rparr>) ?w1"
  have 1: "talks w ?w1" by (rule talks_upd) (simp_all add: IsValid_def)
  have 2: "talks w ?w2" using 1 by (rule talks_upd_then) (simp_all add: IsValid_def)
  have 3: "talks w (upd_client i (\<lambda>c. c\<lparr>m_RoadCheckerTag := 0, m_Complete := True\<rparr>) ?w2)"
    using 2 by (rule talks_upd_then) (simp_all add: IsValid_def)
  have 4: "talks w (upd_client i (\<lambda>c. c\<lparr>m_RoadCheckerTag := 0, m_LastCheckIndex := 0\<rparr>) ?w2)"
    using 2 by (rule talks_upd_then) (simp_all add: IsValid_def)
  have 5: "talks w (upd_client i (\<lambda>c. c\<lparr>m_RoadCheckerTag := m_RoadCheckerTag c OR tag_bit (cp_Index p)\<rparr>) ?w1)"
    using 1 by (rule talks_upd_then) (simp_all add: IsValid_def)
  from assms 3 4 5 show ?thesis
    by (auto simp: pass_point_def Let_def split: if_splits intro: talks_trans BalanceGame_talks)
qed

lemma check_point_talks: "check_point i pos w = Inr w' \<Longrightarrow> talks w w'"
  by (auto simp: check_point_def split: option.splits intro: pass_point_talks)

section \<open>Properties of the messages\<close>

text \<open>
  a client that introduces itself becomes one of the valid clients, and its message is
  repeated, byte for byte and with its handle, exactly once to every valid client, the new one
  included and nobody else.
\<close>

lemma avatar_reaches_everyone:
  assumes "world_ok w" "i < psize w" "connection (cl w i) \<noteq> None"
    and w'_def: "w' = OnBroadcastAvatarData l i w"
  shows "set (valid_clients w') = insert i (set (valid_clients w))
    \<and> outp w' = outp w @ map (\<lambda>j. Sent j [WByte SM_PLAYER_AVATAR_DATA, WUInt (uid (cl w i)),
         WData (rbuf (cl w i))]) (valid_clients w')"
proof -
  let ?d = "rbuf (cl w i)"
  obtain o1 b1 where 1: "rd_string l ?d (m_UserOpenId (cl w i)) = (o1, b1)" by force
  obtain o2 b2 where 2: "rd_string l b1 (m_UserName (cl w i)) = (o2, b2)" by force
  obtain o3 b3 where 3: "rd_string l b2 (m_UserHeadImgUrl (cl w i)) = (o3, b3)" by force
  obtain o4 b4 where 4: "rd_string l b3 (m_CarData (cl w i)) = (o4, b4)" by force
  define w1 where "w1 = upd_client i (\<lambda>c. c\<lparr>m_SetUserInfo := True, m_UserOpenId := o1,
     m_UserName := o2, m_UserHeadImgUrl := o3, m_CarData := o4, rbuf := b4,
     m_DBCoinCount := 0, m_DBCompleteTime := 0\<rparr>) w"
  have len: "i < length (data_array (m_ClientPool w))" using world_ok_pool_length [OF assms(1)] assms(2) by simp
  have w': "w' = w1\<lparr>outp := outp w @ map (\<lambda>j. Sent j [WByte SM_PLAYER_AVATAR_DATA,
      WUInt (uid (cl w1 i)), WData ?d]) (valid_clients w1)\<rparr>"
    by (simp add: w'_def OnBroadcastAvatarData_def 1 2 3 4 w1_def [symmetric] broadcast_sends)
  have cl1: "IsValid (cl w1 j) = (j = i \<or> IsValid (cl w j))" for j
    using assms(3) by (auto simp: w1_def cl_upd_any len IsValid_def)
  have u: "uid (cl w1 i) = uid (cl w i)" by (simp add: w1_def cl_upd_any)
  have p: "psize w1 = psize w" by (simp add: w1_def)
  have v: "valid_clients w' = valid_clients w1" by (simp add: w' valid_clients_def)
  show ?thesis
    unfolding v using assms(2) by (auto simp: valid_clients_def cl1 p w' u)
qed

text \<open>The messages about a direction, and those about the end of the race, which a move may cause.\<close>

lemma dir_messages:
  "foldE (dir_message i ok dir) js w = Inr w' \<Longrightarrow>
    \<exists>p. w' = w\<lparr>outp := outp w @ map (\<lambda>j. Sent j [WByte 11, WUInt (uid (cl w i)), WBool ok, WVector3 dir, WInt p])
      (filter (\<lambda>j. IsValid (cl w j)) js)\<rparr>"
proof (induction js arbitrary: w)
  case (Cons j js)
  show ?case
  proof (cases "IsValid (cl w j)")
    case True
    then obtain p where p: "lap_percent (m_LastCheckIndex (cl w i)) (gConfig w) = Inr p"
      and rest: "foldE (dir_message i ok dir) js
        (emit (Sent j [WByte 11, WUInt (uid (cl w i)), WBool ok, WVector3 dir, WInt p]) w) = Inr w'"
      using Cons.prems by (auto simp: dir_message_def [of i ok dir j] SM_defs)
    have "foldE (dir_message i ok dir) js u = Inr u' \<Longrightarrow> lap_percent (m_LastCheckIndex (cl u i)) (gConfig u) = Inr p \<Longrightarrow>
      u' = u\<lparr>outp := outp u @ map (\<lambda>j. Sent j [WByte 11, WUInt (uid (cl u i)), WBool ok, WVector3 dir, WInt p])
        (filter (\<lambda>j. IsValid (cl u j)) js)\<rparr>" for u u'
    proof (induction js arbitrary: u)
      case (Cons k js)
      then show ?case
        using Cons.IH [of "emit (Sent k [WByte 11, WUInt (uid (cl u i)), WBool ok, WVector3 dir, WInt p]) u"]
        by (cases "IsValid (cl u k)") (auto simp: dir_message_def [of i ok dir k] SM_defs emit_def cl_def)
    qed simp
    from this [OF rest] p True show ?thesis by (intro exI [of _ p]) (simp add: emit_def cl_def)
  next
    case False
    then show ?thesis using Cons by (simp add: dir_message_def)
  qed
qed simp

lemma check_direction_out:
  assumes "check_direction l i pos w = Inr w'"
  shows "\<exists>ok dir p. outp w' = outp w @ (if f32_of_int 10 < Length (vec3_sub pos (m_CheckerPosition (cl w i)))
      then map (\<lambda>j. Sent j [WByte 11, WUInt (uid (cl w i)), WBool ok, WVector3 dir, WInt p]) (valid_clients w) else [])
    \<and> m_GameState w' = m_GameState w \<and> m_GameRunTime w' = m_GameRunTime w \<and> psize w' = psize w
    \<and> (\<forall>j. IsValid (cl w' j) = IsValid (cl w j) \<and> m_IsObClient (cl w' j) = m_IsObClient (cl w j)
          \<and> m_CoinCount (cl w' j) = m_CoinCount (cl w j) \<and> m_Complete (cl w' j) = m_Complete (cl w j)
          \<and> m_RoadCheckerTag (cl w' j) = m_RoadCheckerTag (cl w j))
    \<and> m_RoadCheckerManager w' = m_RoadCheckerManager w
    \<and> length (data_array (m_ClientPool w')) = length (data_array (m_ClientPool w))"
proof (cases "f32_of_int 10 < Length (vec3_sub pos (m_CheckerPosition (cl w i)))")
  case True
  let ?w = "upd_client i (\<lambda>c. c\<lparr>m_CheckerPosition := pos\<rparr>) w"
  obtain ok dir where "foldE (dir_message i ok dir) [0..<psize ?w] ?w = Inr w'"
    using assms True by (auto simp: check_direction_def Let_def split: prod.splits)
  then obtain p where p: "w' = ?w\<lparr>outp := outp ?w @ map (\<lambda>j. Sent j [WByte 11, WUInt (uid (cl ?w i)), WBool ok, WVector3 dir, WInt p])
      (filter (\<lambda>j. IsValid (cl ?w j)) [0..<psize ?w])\<rparr>" using dir_messages by blast
  have c: "cl w' = cl ?w" by (simp add: p cl_def fun_eq_iff)
  have v: "IsValid (cl ?w j) = IsValid (cl w j)" "uid (cl ?w j) = uid (cl w j)" for j by (simp_all add: cl_upd_any IsValid_def)
  have o: "outp w' = outp w @ map (\<lambda>j. Sent j [WByte 11, WUInt (uid (cl w i)), WBool ok, WVector3 dir, WInt p]) (valid_clients w)"
    by (simp add: p v valid_clients_def)
  moreover have "psize w' = psize w" by (simp add: p psize_def) (simp add: upd_client_def Size_def)
  ultimately show ?thesis using True unfolding c
    by (intro exI [of _ ok] exI [of _ dir] exI [of _ p]) (simp add: cl_upd_any IsValid_def p)
qed (use assms in \<open>auto simp: check_direction_def Let_def\<close>)

lemma balance_fold:
  "distinct xs \<Longrightarrow> set xs \<subseteq> {..<length (data_array (m_ClientPool w))} \<Longrightarrow>
     outp (fold balance_one xs w) = outp w @ map (\<lambda>i. Sent i (balance_msg (m_GameRunTime w) (cl w i))) xs"
proof (induction xs arbitrary: w)
  case (Cons i xs)
  have "m_GameRunTime (balance_one i w) = m_GameRunTime w" by (rule calmD(9) [OF balance_one_calm])
  moreover have "length (data_array (m_ClientPool (balance_one i w))) = length (data_array (m_ClientPool w))"
    by (simp add: balance_one_def Let_def)
  moreover have "balance_msg t (cl (balance_one i w) j) = balance_msg t (cl w j)" for t j
    by (simp add: balance_one_def Let_def cl_upd_any balance_msg_def)
  moreover have "outp (balance_one i w) = outp w @ [Sent i (balance_msg (m_GameRunTime w) (cl w i))]"
    by (simp add: balance_one_def Let_def cl_upd_any balance_msg_def)
  ultimately show ?case using Cons by simp
qed simp

lemma check_point_out:
  assumes "check_point i pos w = Inr w'" "i < psize w" "psize w = length (data_array (m_ClientPool w))"
  shows "outp w' = outp w @ (if m_GameState w' = m_GameState w then []
      else map (\<lambda>j. Sent j [WByte 4, WInt (m_CoinCount (cl w j)),
        WFloat (if j = i \<or> m_Complete (cl w j) then m_GameRunTime w else - 1)]) (players_of w))
    \<and> m_GameState w' = (case Check pos (m_RoadCheckerManager w) of
        Inr (Some p) \<Rightarrow> if cp_EndPoint p \<and> lap_done (m_RoadCheckerTag (cl w i)) (cp_Index p) \<and> m_GameState w = Play
          then Balance else m_GameState w
      | _ \<Rightarrow> m_GameState w)"
proof (cases "\<exists>p. Check pos (m_RoadCheckerManager w) = Inr (Some p) \<and> cp_EndPoint p
    \<and> lap_done (m_RoadCheckerTag (cl w i)) (cp_Index p) \<and> m_GameState w = Play")
  case True
  then obtain p where p: "Check pos (m_RoadCheckerManager w) = Inr (Some p)" "cp_EndPoint p"
    "lap_done (m_RoadCheckerTag (cl w i)) (cp_Index p)" "m_GameState w = Play" by blast
  define u where "u = upd_client i (\<lambda>c. c\<lparr>m_RoadCheckerTag := 0, m_Complete := True\<rparr>)
    (upd_client i (\<lambda>c. c\<lparr>m_LastCheckIndex := 0\<rparr>) (upd_client i (\<lambda>c. c\<lparr>m_LastCheckIndex := word_of_int (cp_Index p)\<rparr>) w))"
  have i: "i < length (data_array (m_ClientPool w))" using assms(2,3) by simp
  have "m_RoadCheckerTag (cl (upd_client i (\<lambda>c. c\<lparr>m_LastCheckIndex := 0\<rparr>)
      (upd_client i (\<lambda>c. c\<lparr>m_LastCheckIndex := word_of_int (cp_Index p)\<rparr>) w)) i) = m_RoadCheckerTag (cl w i)"
    using i by (simp add: cl_upd_any)
  then have "BalanceGame u = Inr w'"
    using assms(1) p by (simp add: check_point_def pass_point_def Let_def u_def)
  moreover have "m_GameState u = Play" using p(4) by (simp add: u_def)
  ultimately have w': "w' = fold balance_one (players_of u) (u\<lparr>m_GameState := Balance\<rparr>)"
    by (simp add: BalanceGame_eq split: if_splits)
  have cl: "cl u j = (if j = i then (cl w i)\<lparr>m_LastCheckIndex := 0, m_RoadCheckerTag := 0, m_Complete := True\<rparr> else cl w j)" for j
    using i by (simp add: u_def cl_upd_any)
  have "psize u = psize w" by (simp add: u_def)
  then have ps: "players_of u = players_of w"
    unfolding players_of_def by (auto simp: cl IsValid_def intro!: filter_cong)
  have "outp w' = outp u @ map (\<lambda>j. Sent j (balance_msg (m_GameRunTime u) (cl u j))) (players_of u)"
    using balance_fold [of "players_of u" "u\<lparr>m_GameState := Balance\<rparr>"] assms(3) unfolding w' ps
    by (auto simp: players_of_def u_def cl_def)
  moreover have "m_GameState w' = Balance"
    using calmD(2) [OF calm_fold [of "players_of u" balance_one "u\<lparr>m_GameState := Balance\<rparr>"]] balance_one_calm w' by simp
  ultimately show ?thesis using p
    by (auto simp: ps balance_msg_def cl SM_defs) (auto simp: u_def)
next
  case False
  then have "outp w' = outp w \<and> m_GameState w' = m_GameState w"
    using assms(1) by (auto simp: check_point_def pass_point_def Let_def cl_upd_any BalanceGame_eq
        split: option.splits if_splits)
  then show ?thesis using False assms(1) by (auto simp: check_point_def split: option.splits)
qed

text \<open>
  C10: every move message that is handled without a fault is relayed at the end, byte for byte
  and with the mover's handle, exactly once to every valid client, and nothing else is sent but:
  before it, when the move has a position more than ten away from the last one that was checked, one
  message about the direction to every valid client, the same for all; and then, exactly when this
  move ends the race, to every player that is not an observer its coins and its time, or -1
  for those that have not finished.
\<close>

theorem move_is_relayed:
  assumes "world_ok w" "i < psize w" "OnPlayerMove l i w = Inr w'"
  shows "valid_clients w' = valid_clients w \<and> (\<exists>ok dir p. outp w' = outp w
    @ (case fst (read_move l (rbuf (cl w i))) of None \<Rightarrow> []
       | Some pos \<Rightarrow> if f32_of_int 10 < Length (vec3_sub pos (m_CheckerPosition (cl w i)))
          then map (\<lambda>j. Sent j [WByte 11, WUInt (uid (cl w i)), WBool ok, WVector3 dir, WInt p]) (valid_clients w) else [])
    @ (if m_GameState w' = m_GameState w then []
       else map (\<lambda>j. Sent j [WByte 4, WInt (m_CoinCount (cl w j)),
          WFloat (if j = i \<or> m_Complete (cl w j) then m_GameRunTime w else - 1)]) (players_of w))
    @ map (\<lambda>j. Sent j [WByte 3, WUInt (uid (cl w i)), WData (rbuf (cl w i))]) (valid_clients w))"
proof -
  have len: "psize w = length (data_array (m_ClientPool w))" using world_ok_pool_length [OF assms(1)] by simp
  obtain pose b where pb: "read_move l (rbuf (cl w i)) = (pose, b)" by force
  let ?w1 = "upd_client i (\<lambda>c. c\<lparr>rbuf := b\<rparr>) w"
  from assms(3) pb obtain w2 where
    2: "(case pose of None \<Rightarrow> Inr ?w1 | Some pos \<Rightarrow>
         rbind (check_direction l i pos (upd_client i (\<lambda>c. c\<lparr>m_Position := pos\<rparr>) ?w1)) (check_point i pos)) = Inr w2"
    and w': "w' = broadcast (\<lambda>v j. [WByte SM_PLAYER_MOVE, WUInt (uid (cl v i)), WData (rbuf (cl w i))]) w2"
    by (auto simp: OnPlayerMove_def Let_def)
  let ?dirs = "\<lambda>ok dir p. case pose of None \<Rightarrow> []
       | Some pos \<Rightarrow> if f32_of_int 10 < Length (vec3_sub pos (m_CheckerPosition (cl w i)))
          then map (\<lambda>j. Sent j [WByte 11, WUInt (uid (cl w i)), WBool ok, WVector3 dir, WInt p]) (valid_clients w) else []"
  let ?ends = "if m_GameState w2 = m_GameState w then []
       else map (\<lambda>j. Sent j [WByte 4, WInt (m_CoinCount (cl w j)),
          WFloat (if j = i \<or> m_Complete (cl w j) then m_GameRunTime w else - 1)]) (players_of w)"
  have t: "talks w w2 \<and> (\<exists>ok dir p. outp w2 = outp w @ ?dirs ok dir p @ ?ends)"
  proof (cases pose)
    case None
    have "talks w ?w1" by (rule talks_upd) (simp_all add: IsValid_def)
    with None 2 show ?thesis by auto
  next
    case (Some pos)
    define u where "u = upd_client i (\<lambda>c. c\<lparr>m_Position := pos\<rparr>) ?w1"
    obtain v where v: "check_direction l i pos u = Inr v" "check_point i pos v = Inr w2" using 2 Some by (auto simp: u_def)
    have "talks w u" unfolding u_def by (intro talks_upd_then talks_refl) (simp_all add: IsValid_def)
    then have "talks w w2" by (meson v check_direction_talks check_point_talks talks_trans)
    have u: "outp u = outp w" "m_GameState u = m_GameState w" "m_GameRunTime u = m_GameRunTime w" "psize u = psize w"
      "length (data_array (m_ClientPool u)) = length (data_array (m_ClientPool w))"
      "IsValid (cl u j) = IsValid (cl w j)" "m_IsObClient (cl u j) = m_IsObClient (cl w j)" "uid (cl u j) = uid (cl w j)"
      "m_CoinCount (cl u j) = m_CoinCount (cl w j)" "m_Complete (cl u j) = m_Complete (cl w j)"
      "m_CheckerPosition (cl u j) = m_CheckerPosition (cl w j)" for j
      by (simp_all add: u_def cl_upd_any IsValid_def)
    have vu: "valid_clients u = valid_clients w" by (simp add: valid_clients_def u)
    obtain ok dir p where d0: "outp v = outp w @ (if f32_of_int 10 < Length (vec3_sub pos (m_CheckerPosition (cl w i)))
        then map (\<lambda>j. Sent j [WByte 11, WUInt (uid (cl w i)), WBool ok, WVector3 dir, WInt p]) (valid_clients w) else [])"
      and d: "m_GameState v = m_GameState w" "m_GameRunTime v = m_GameRunTime w"
      "psize v = psize w" "length (data_array (m_ClientPool v)) = length (data_array (m_ClientPool w))"
      "\<And>j. IsValid (cl v j) = IsValid (cl w j) \<and> m_IsObClient (cl v j) = m_IsObClient (cl w j)
          \<and> m_CoinCount (cl v j) = m_CoinCount (cl w j) \<and> m_Complete (cl v j) = m_Complete (cl w j)"
      using check_direction_out [OF v(1)] unfolding u vu by blast
    have pv: "players_of v = players_of w" by (simp add: players_of_def d)
    have "outp w2 = outp v @ ?ends"
      using check_point_out [OF v(2)] assms(2) len d pv by simp
    then show ?thesis using \<open>talks w w2\<close> d0 Some by auto
  qed
  then have vc: "valid_clients w2 = valid_clients w" by (simp add: talks_def)
  have u: "uid (cl w2 i) = uid (cl w i)" using talks_uid [OF conjunct1 [OF t]] assms(2) len by simp
  have b: "w' = w2\<lparr>outp := outp w2 @ map (\<lambda>j. Sent j [WByte SM_PLAYER_MOVE, WUInt (uid (cl w2 i)),
      WData (rbuf (cl w i))]) (valid_clients w2)\<rparr>"
    unfolding w' by (rule broadcast_sends) simp
  have "valid_clients w' = valid_clients w2" "m_GameState w' = m_GameState w2" by (simp_all add: b valid_clients_def)
  moreover obtain ok dir p where "outp w2 = outp w @ ?dirs ok dir p @ ?ends" using t by blast
  ultimately show ?thesis using vc u unfolding pb fst_conv
    by (intro conjI exI [of _ ok] exI [of _ dir] exI [of _ p]) (simp_all add: b SM_defs)
qed

theorem move_is_relayed_witness:
  "\<exists>w' ok dir p. OnPlayerMove demo_lib 0 (with_message 0 [8, 1, 20, 0, 0] (demo Play)) = Inr w'
     \<and> outp w' = map (\<lambda>j. Sent j [WByte 11, WUInt 0x10000, WBool ok, WVector3 dir, WInt p]) [0, 1]
         @ map (\<lambda>j. Sent j [WByte 3, WUInt 0x10000, WData [8, 1, 20, 0, 0]]) [0, 1]"
proof -
  let ?w = "with_message 0 [8, 1, 20, 0, 0] (demo Play)"
  have "case OnPlayerMove demo_lib 0 ?w of Inl e \<Rightarrow> False | Inr w' \<Rightarrow> m_GameState w' = Play" by code_simp
  then obtain w' where w': "OnPlayerMove demo_lib 0 ?w = Inr w'" "m_GameState w' = Play" by (auto split: sum.splits)
  have c: "uid (cl ?w 0) = 0x10000" "rbuf (cl ?w 0) = [8, 1, 20, 0, 0]"
    "outp ?w = []" "psize ?w = 3" "valid_clients ?w = [0, 1]" "m_GameState ?w = Play"
    "map_option (\<lambda>pos. f32_of_int 10 < Length (vec3_sub pos (m_CheckerPosition (cl ?w 0)))) (fst (read_move demo_lib (rbuf (cl ?w 0)))) = Some True"
    by code_simp+
  have "0 < psize ?w" by (simp add: c(4))
  note t = move_is_relayed [OF with_message_ok [OF demo_ok] this w'(1)]
  obtain pos where pos: "fst (read_move demo_lib [8, 1, 20, 0, 0]) = Some pos"
    "f32_of_int 10 < Length (vec3_sub pos (m_CheckerPosition (cl ?w 0)))" using c(7) unfolding c(2) by auto
  show ?thesis using t w' unfolding c pos(1) option.case if_P [OF pos(2)] by simp
qed

end
