(* ===== verification/GameRace.thy ===== *)
theory GameRace
  imports GameLaws
begin

text \<open>
  The rules of the race: which check points make a lap, how a race starts for every player, when
  it is over, and what happens to the connections at the end of a game.
\<close>

section \<open>The tags of the check points\<close>

lemma bit_tag_bit:
  "bit (tag_bit i) n \<longleftrightarrow> n = nat (i mod 32) \<or> (i mod 32 = 31 \<and> 31 \<le> n \<and> n < 64)"
proof -
  have k: "nat (i mod 32) < 32" by simp
  have k31: "nat (i mod 32) = 31 \<longleftrightarrow> i mod 32 = 31" by auto
  show ?thesis
    unfolding tag_bit_def using k k31
    by (auto simp: bit_word_scast_iff bit_simps)
qed

lemma tag_bit_disjoint: "tag_bit i AND tag_bit k = 0 \<longleftrightarrow> i mod 32 \<noteq> k mod 32"
proof
  assume "tag_bit i AND tag_bit k = 0"
  then have "\<not> bit (tag_bit i AND tag_bit k) (nat (i mod 32))" by simp
  then show "i mod 32 \<noteq> k mod 32" by (auto simp: bit_and_iff bit_tag_bit)
next
  assume "i mod 32 \<noteq> k mod 32"
  then show "tag_bit i AND tag_bit k = 0"
    by (intro bit_eqI) (auto simp: bit_and_iff bit_tag_bit)
qed

text \<open>The tag of a player who met the points \<open>vs\<close>, and the points that count as missed.\<close>

definition tags_of :: "int list \<Rightarrow> u64 \<Rightarrow> u64" where
  "tags_of vs t = fold (\<lambda>k t. t OR tag_bit k) vs t"

definition missed :: "int list \<Rightarrow> int \<Rightarrow> int list" where
  "missed vs n = filter (\<lambda>i. \<forall>k \<in> set vs. i mod 32 \<noteq> k mod 32) (map int [0..<nat n])"

lemma and_tags_of: "x AND tags_of vs t = 0 \<longleftrightarrow> x AND t = 0 \<and> (\<forall>k \<in> set vs. x AND tag_bit k = 0)"
proof (induction vs arbitrary: t)
  case (Cons k vs)
  have "x AND (t OR tag_bit k) = 0 \<longleftrightarrow> x AND t = 0 \<and> x AND tag_bit k = 0"
    by (auto simp: bit.conj_disj_distrib or_eq_0_iff)
  with Cons [of "t OR tag_bit k"] show ?case by (auto simp: tags_of_def)
qed (simp add: tags_of_def)

lemma untagged_missed: "untagged (tags_of vs 0) n = length (missed vs n)"
  by (simp add: untagged_def missed_def and_tags_of tag_bit_disjoint)

text \<open>The comparison of the code, in floating point, is exact: fewer than half are missed.\<close>

lemma half_exact:
  "\<forall>n \<in> set [0..64]. (case f32_of_int n * f32_lit 1 2 of FFin s m e \<Rightarrow> \<not> s \<and> e \<le> 0 \<and> 2 * m = n * 2 ^ nat (- e)
     | _ \<Rightarrow> False)"
  by code_simp

lemma half_val:
  assumes "0 \<le> n" "n \<le> 64"
  shows "is_fin (f32_of_int n * f32_lit 1 2)" "f32_val (f32_of_int n * f32_lit 1 2) = of_int n / 2"
proof -
  have "n \<in> set [0..64]" using assms by simp
  from bspec [OF half_exact this]
  obtain m e where v: "f32_of_int n * f32_lit 1 2 = FFin False m e" "e \<le> 0" "2 * m = n * 2 ^ nat (- e)"
    by (cases "f32_of_int n * f32_lit 1 2") auto
  then show "is_fin (f32_of_int n * f32_lit 1 2)" by simp
  have p: "(2::real) powi e * 2 ^ nat (- e) = 1"
    using v(2) by (simp add: power_int_def inverse_eq_divide power_one_over)
  have m: "real_of_int m * 2 = of_int n * 2 ^ nat (- e)"
    using arg_cong [OF v(3), of real_of_int] by (simp add: mult.commute)
  have "real_of_int m * 2 * 2 powi e = of_int n * (2 powi e * 2 ^ nat (- e))"
    unfolding m by (simp add: ac_simps)
  then show "f32_val (f32_of_int n * f32_lit 1 2) = of_int n / 2"
    unfolding p by (simp add: v(1) f32_val_def sgm_def)
qed

lemma lap_done_missed:
  assumes "0 \<le> n" "n \<le> 64"
  shows "lap_done (tags_of vs 0) n \<longleftrightarrow> 2 * int (length (missed vs n)) < n"
proof -
  have "length (missed vs n) \<le> nat n"
    unfolding missed_def using length_filter_le [of _ "map int [0..<nat n]"] by simp
  then have u: "\<bar>int (length (missed vs n))\<bar> < 2 ^ 24" using assms by simp
  show ?thesis
    using half_val [OF assms] f32_of_int_exact [OF u]
    by (auto simp: lap_done_def untagged_missed f32_lt_val)
qed

text \<open>Passing points that are not the end point tags them.\<close>

lemma pass_point_tag:
  assumes "\<not> cp_EndPoint p" "i < length (data_array (m_ClientPool w))"
  shows "\<exists>w'. pass_point i p w = Inr w' \<and> i < length (data_array (m_ClientPool w'))
    \<and> m_RoadCheckerTag (cl w' i) = m_RoadCheckerTag (cl w i) OR tag_bit (cp_Index p)
    \<and> m_Complete (cl w' i) = m_Complete (cl w i)"
  using assms by (simp add: pass_point_def Let_def cl_upd_any)

lemma pass_points_tag:
  assumes "\<forall>p \<in> set ps. \<not> cp_EndPoint p" "i < length (data_array (m_ClientPool w))"
  shows "\<exists>w'. foldE (pass_point i) ps w = Inr w' \<and> i < length (data_array (m_ClientPool w'))
    \<and> m_RoadCheckerTag (cl w' i) = tags_of (map cp_Index ps) (m_RoadCheckerTag (cl w i))
    \<and> m_Complete (cl w' i) = m_Complete (cl w i)"
  using assms
proof (induction ps arbitrary: w)
  case (Cons p ps)
  then obtain u where u: "pass_point i p w = Inr u" "i < length (data_array (m_ClientPool u))"
    "m_RoadCheckerTag (cl u i) = m_RoadCheckerTag (cl w i) OR tag_bit (cp_Index p)"
    "m_Complete (cl u i) = m_Complete (cl w i)"
    using pass_point_tag [of p i w] by auto
  with Cons.IH [of u] Cons.prems show ?case by (auto simp: tags_of_def)
qed (simp add: tags_of_def)

lemma balance_one_complete: "m_Complete (cl (balance_one j w) i) = m_Complete (cl w i)"
  by (simp add: balance_one_def Let_def cl_upd_any)

lemma BalanceGame_complete: "BalanceGame w = Inr w' \<Longrightarrow> m_Complete (cl w' i) = m_Complete (cl w i)"
  using fold_proj [of "players_of w" "\<lambda>w. m_Complete (cl w i)" balance_one "w\<lparr>m_GameState := Balance\<rparr>"]
  by (auto simp: BalanceGame_eq balance_one_complete split: if_splits)

section \<open>Properties of a lap\<close>

text \<open>
  C8: a player who passes the points \<open>ps\<close> and then the end point with index \<open>n\<close> has completed the
  race exactly when fewer than half of the indices below \<open>n\<close> were missed, where an index counts
  as met when some passed point has the same index modulo 32.
\<close>

theorem lap_rule:
  assumes "i < length (data_array (m_ClientPool w))" "m_RoadCheckerTag (cl w i) = 0"
    and "\<forall>p \<in> set ps. \<not> cp_EndPoint p" "cp_EndPoint e" "0 \<le> cp_Index e" "cp_Index e \<le> 64"
    and "foldE (pass_point i) (ps @ [e]) w = Inr w'"
  shows "m_Complete (cl w' i) \<longleftrightarrow> m_Complete (cl w i)
    \<or> 2 * int (length (missed (map cp_Index ps) (cp_Index e))) < cp_Index e"
proof -
  obtain u where u: "foldE (pass_point i) ps w = Inr u" "i < length (data_array (m_ClientPool u))"
    "m_RoadCheckerTag (cl u i) = tags_of (map cp_Index ps) 0" "m_Complete (cl u i) = m_Complete (cl w i)"
    using pass_points_tag [OF assms(3,1)] assms(2) by auto
  have e: "pass_point i e u = Inr w'" using assms(7) u(1) by (auto simp: foldE_append)
  note crit = lap_done_missed [OF assms(5,6), of "map cp_Index ps"]
  show ?thesis
  proof (cases "lap_done (tags_of (map cp_Index ps) 0) (cp_Index e)")
    case True
    let ?u2 = "upd_client i (\<lambda>c. c\<lparr>m_LastCheckIndex := 0\<rparr>)
      (upd_client i (\<lambda>c. c\<lparr>m_LastCheckIndex := word_of_int (cp_Index e)\<rparr>) u)"
    have "BalanceGame (upd_client i (\<lambda>c. c\<lparr>m_RoadCheckerTag := 0, m_Complete := True\<rparr>) ?u2) = Inr w'"
      using e True assms(4) u(2,3) by (simp add: pass_point_def Let_def cl_upd_any)
    from BalanceGame_complete [OF this, of i] have "m_Complete (cl w' i)" using u(2) by (simp add: cl_upd_any)
    then show ?thesis using True crit by simp
  next
    case False
    then have "m_Complete (cl w' i) = m_Complete (cl u i)"
      using e assms(4) u(2,3) by (auto simp: pass_point_def Let_def cl_upd_any)
    then show ?thesis using False crit u(4) by simp
  qed
qed

definition track_point :: "int \<Rightarrow> checker_point" where
  "track_point k = \<lparr>cp_Position = vec3_of 0 0 0, cp_Radius = 1, cp_Index = k, cp_EndPoint = False\<rparr>"

text \<open>
  The witness is a finding: on a track of 42 points like the shipped one, with the end point at
  index 41, the first twelve points and the end point make a complete race, because the points
  32 to 40 count as met with the points 0 to 8.
\<close>

theorem lap_rule_witness:
  "\<exists>w'. foldE (pass_point 0) (map track_point [0, 1, 2, 3, 4, 5, 6, 7, 8, 9, 10, 11]
         @ [(track_point 41)\<lparr>cp_EndPoint := True\<rparr>]) (demo Wait) = Inr w'
     \<and> \<not> m_Complete (cl (demo Wait) 0) \<and> m_Complete (cl w' 0)"
proof -
  let ?ps = "map track_point [0, 1, 2, 3, 4, 5, 6, 7, 8, 9, 10, 11]"
  let ?e = "(track_point 41)\<lparr>cp_EndPoint := True\<rparr>"
  have "case foldE (pass_point 0) (?ps @ [?e]) (demo Wait) of Inl e \<Rightarrow> False | Inr w' \<Rightarrow> True" by code_simp
  then obtain w' where w': "foldE (pass_point 0) (?ps @ [?e]) (demo Wait) = Inr w'" by (auto split: sum.splits)
  have c: "0 < length (data_array (m_ClientPool (demo Wait)))" "m_RoadCheckerTag (cl (demo Wait) 0) = 0"
    "\<not> m_Complete (cl (demo Wait) 0)"
    by code_simp+
  have "2 * int (length (missed (map cp_Index ?ps) 41)) < 41" by code_simp
  then have "m_Complete (cl w' 0)"
    using lap_rule [OF c(1,2) _ _ _ _ w'] by (simp add: track_point_def)
  with w' c(3) show ?thesis by blast
qed

section \<open>The end of a race\<close>



section \<open>Choosing a map\<close>

text \<open>
  a map chosen while the server waits, of at most 131072 bytes, is stored and sent byte for
  byte to every valid client; in any other state nothing happens; a larger one is not stored and
  the connection of its sender is closed.
\<close>

lemma map_choice:
  assumes "connection (cl w i) \<noteq> None"
  shows "if m_GameState w \<noteq> Wait then OnRequestSelectMap l i w = Inr w
    else if MAX_MAP_DATA_LEN < int (length (rbuf (cl w i))) then
      OnRequestSelectMap l i w = nl_disconnect l i w
    else \<exists>w'. OnRequestSelectMap l i w = Inr w' \<and> m_GameState w' = Wait
      \<and> m_MapDataLen w' = int (length (rbuf (cl w i)))
      \<and> take (length (rbuf (cl w i))) (m_MapData w') = rbuf (cl w i)
      \<and> outp w' = outp w @ map (\<lambda>j. Sent j [WByte SM_SELECT_GAME_MAP, WData (rbuf (cl w i))]) (valid_clients w)"
proof -
  let ?d = "rbuf (cl w i)"
  let ?w = "w\<lparr>m_MapDataLen := int (length ?d), m_MapData := ?d @ drop (length ?d) (m_MapData w)\<rparr>"
  let ?msg = "\<lambda>w j. [WByte SM_SELECT_GAME_MAP, WData (take (nat (m_MapDataLen w)) (m_MapData w))]"
  have "broadcast ?msg ?w = ?w\<lparr>outp := outp ?w @ map (\<lambda>j. Sent j (?msg ?w j)) (valid_clients ?w)\<rparr>"
    by (rule broadcast_sends) simp
  then show ?thesis
    using assms by (auto simp: OnRequestSelectMap_def Let_def valid_clients_def)
qed

section \<open>Taking an item\<close>

text \<open>
  C12: while the items on the track have different identifiers and known kinds, as they have during
  a game, taking an item that is not on the track says nothing to anybody and changes nobody's
  coins. Taking one that is there removes exactly it, gives the taker one coin more if the item is
  a coin and otherwise one less, but never less than none, leaves the coins of the others, and sends
  each valid client one message: which item was taken, by whom, and how many coins that one has now.
\<close>

theorem item_taken:
  assumes "world_ok w" "i < psize w" "rd_uint l (rbuf (cl w i)) (jk_uint l) = (k, b)"
    and "distinct (map mID (m_AliveDropItem (m_DropManager w)))"
    and "\<forall>a \<in> set (m_AliveDropItem (m_DropManager w)). 0 \<le> mIndex a \<and> mIndex a < 64"
  shows "\<exists>w'. OnPlayerGetDropItem l i w = Inr w' \<and>
    (\<forall>j. j \<noteq> i \<longrightarrow> m_CoinCount (cl w' j) = m_CoinCount (cl w j)) \<and>
    (if \<forall>a \<in> set (m_AliveDropItem (m_DropManager w)). mID a \<noteq> k
     then outp w' = outp w \<and> m_CoinCount (cl w' i) = m_CoinCount (cl w i)
        \<and> set (m_AliveDropItem (m_DropManager w')) = set (m_AliveDropItem (m_DropManager w))
     else \<exists>a \<in> set (m_AliveDropItem (m_DropManager w)). mID a = k
        \<and> set (m_AliveDropItem (m_DropManager w')) = set (m_AliveDropItem (m_DropManager w)) - {a}
        \<and> m_CoinCount (cl w' i) =
            (if mType (mData (mAllDropItem (m_DropManager w) ! nat (mIndex a))) = 1 then m_CoinCount (cl w i) + 1
             else if 0 < m_CoinCount (cl w i) then m_CoinCount (cl w i) - 1 else 0)
        \<and> outp w' = outp w @ map (\<lambda>j. Sent j [WByte 10, WUInt k, WUInt (uid (cl w i)),
              WShort (word_of_int (m_CoinCount (cl w' i)))]) (valid_clients w))"
proof -
  let ?m = "m_DropManager w"
  let ?w1 = "upd_client i (\<lambda>c. c\<lparr>rbuf := b\<rparr>) w"
  have len: "i < length (data_array (m_ClientPool w))" using world_ok_pool_length [OF assms(1)] assms(2) by simp
  obtain r m where rm: "GetDropItem_id k True ?m = (r, m)" by force
  note ex = GetDropItem_id_exact [OF assms(4), of k True, unfolded rm fst_conv snd_conv]
  show ?thesis
  proof (cases "\<forall>a \<in> set (m_AliveDropItem ?m). mID a \<noteq> k")
    case True
    then have "r = None" using ex by blast
    then have "m = ?m" using rm by (auto simp: GetDropItem_id_def split: option.splits)
    with \<open>r = None\<close> True show ?thesis by (simp add: OnPlayerGetDropItem_def assms(3) rm cl_upd_any)
  next
    case False
    then obtain a where a: "a \<in> set (m_AliveDropItem ?m)" "mID a = k" by blast
    then have r: "r = Some (mIndex a)" "set (m_AliveDropItem m) = set (m_AliveDropItem ?m) - {a}" using ex by auto
    have items: "mAllDropItem m = mAllDropItem ?m" using GetDropItem_id_frame(4) [of k True ?m] by (simp add: rm)
    have idx: "arr_get (mAllDropItem m) (mIndex a) = Inr (mAllDropItem ?m ! nat (mIndex a))"
      using assms(5) a(1) world_okD(3) [OF assms(1)] by (simp add: arr_get_def items)
    define n where "n = coin_after (mType (mData (mAllDropItem ?m ! nat (mIndex a)))) (m_CoinCount (cl w i))"
    define w2 where "w2 = upd_client i (\<lambda>c. c\<lparr>m_CoinCount := n\<rparr>) (?w1\<lparr>m_DropManager := m\<rparr>)"
    let ?msg = "\<lambda>v j. remove_msg k (uid (cl v i)) n"
    have run: "OnPlayerGetDropItem l i w = Inr (broadcast ?msg w2)"
      using r(1) idx by (simp add: OnPlayerGetDropItem_def assms(3) rm Let_def cl_upd_any len n_def w2_def)
    have b: "broadcast ?msg w2 = w2\<lparr>outp := outp w2 @ map (\<lambda>j. Sent j (?msg w2 j)) (valid_clients w2)\<rparr>"
      by (rule broadcast_sends) simp
    have "IsValid (cl w2 j) = IsValid (cl w j)" for j by (simp add: w2_def cl_upd_any IsValid_def)
    then have v: "valid_clients w2 = valid_clients w" by (simp add: valid_clients_def) (simp add: w2_def)
    have c: "m_CoinCount (cl w2 i) = n" "uid (cl w2 i) = uid (cl w i)" "outp w2 = outp w" "m_DropManager w2 = m"
      using len by (simp_all add: w2_def cl_upd_any)
    define w' where "w' = broadcast ?msg w2"
    have w': "set (m_AliveDropItem (m_DropManager w')) = set (m_AliveDropItem ?m) - {a}"
      "m_CoinCount (cl w' i) = n" "OnPlayerGetDropItem l i w = Inr w'"
      "outp w' = outp w @ map (\<lambda>j. Sent j (remove_msg k (uid (cl w i)) n)) (valid_clients w)"
      using run by (simp_all add: w'_def b c v r(2))
    then have o: "outp w' = outp w @ map (\<lambda>j. Sent j [WByte 10, WUInt k, WUInt (uid (cl w i)), WShort (word_of_int n)]) (valid_clients w)"
      by (simp add: remove_msg_def SM_defs)
    have "m_CoinCount (cl w' j) = m_CoinCount (cl w j)" if "j \<noteq> i" for j
      using that by (simp add: w'_def b) (simp add: w2_def cl_upd_any)
    moreover have "n = (if mType (mData (mAllDropItem ?m ! nat (mIndex a))) = 1 then m_CoinCount (cl w i) + 1
             else if 0 < m_CoinCount (cl w i) then m_CoinCount (cl w i) - 1 else 0)"
      by (simp add: n_def coin_after_def DROPITEM_ICON_def max_def)
    ultimately show ?thesis unfolding if_not_P [OF False]
      by (intro exI [of _ w'] conjI bexI [of _ a]) (use a w'(1-3) o in simp_all)
  qed
qed

definition demo_coins :: world where
  "demo_coins = with_message 0 [1, 0, 0, 0] ((demo Play)\<lparr>m_DropManager := two_coins\<rparr>)"

text \<open>The same with an obstacle in the place of each coin.\<close>

definition two_obstacles :: drop_mgr where
  "two_obstacles = two_coins\<lparr>mAllDropItem := (mAllDropItem two_coins)
     [0 := (mAllDropItem two_coins ! 0)\<lparr>mData := (m_DropItemData drop_config ! 0)\<lparr>mType := 3\<rparr>\<rparr>]\<rparr>"

definition demo_obstacles :: world where
  "demo_obstacles = with_message 0 [1, 0, 0, 0] ((demo Play)\<lparr>m_DropManager := two_obstacles\<rparr>)"

theorem item_taken_witness:
  "(\<exists>w'. OnPlayerGetDropItem demo_lib 0 demo_coins = Inr w'
     \<and> outp w' = [Sent 0 [WByte 10, WUInt 1, WUInt 0x10000, WShort 1], Sent 1 [WByte 10, WUInt 1, WUInt 0x10000, WShort 1]]
     \<and> mID ` set (m_AliveDropItem (m_DropManager w')) = {0})
   \<and> (\<exists>w'. OnPlayerGetDropItem demo_lib 0 demo_obstacles = Inr w' \<and> m_CoinCount (cl w' 0) = 0
     \<and> outp w' = [Sent 0 [WByte 10, WUInt 1, WUInt 0x10000, WShort 0], Sent 1 [WByte 10, WUInt 1, WUInt 0x10000, WShort 0]])"
proof -
  have ok: "world_ok demo_coins" "world_ok demo_obstacles"
    unfolding demo_coins_def demo_obstacles_def
    by (intro with_message_ok world_ok_managers demo_ok; simp add: two_obstacles_def two_coins_def drop_started_def)+
  have c: "rd_uint demo_lib (rbuf (cl demo_coins 0)) (jk_uint demo_lib) = (1, [])"
    "outp demo_coins = []" "uid (cl demo_coins 0) = 0x10000" "valid_clients demo_coins = [0, 1]"
    "m_CoinCount (cl demo_coins 0) = 0" "psize demo_coins = 3"
    by code_simp+
  have d: "rd_uint demo_lib (rbuf (cl demo_obstacles 0)) (jk_uint demo_lib) = (1, [])"
    "outp demo_obstacles = []" "uid (cl demo_obstacles 0) = 0x10000" "valid_clients demo_obstacles = [0, 1]"
    "m_CoinCount (cl demo_obstacles 0) = 0" "psize demo_obstacles = 3"
    by code_simp+
  have m: "m_DropManager demo_coins = two_coins" "m_DropManager demo_obstacles = two_obstacles"
    by (simp_all add: demo_coins_def demo_obstacles_def with_message_def)
  have o: "m_AliveDropItem two_obstacles = m_AliveDropItem two_coins" by (simp add: two_obstacles_def)
  have i: "mAllDropItem two_coins ! 0 = \<lparr>mData = m_DropItemData drop_config ! 0, mRefreshIndex = 2,
      mCount = 2, mRefreshTimer = 0, mInitRefresh = True\<rparr>" "mType (m_DropItemData drop_config ! 0) = 1"
    "mType (mData (mAllDropItem two_obstacles ! 0)) = 3"
    by (simp_all add: two_obstacles_def two_coins_def drop_started_def drop_item_fresh_def drop_config_def)
  have "0 < psize demo_coins" "0 < psize demo_obstacles" by (simp_all only: c d)
  note t = item_taken [OF ok(1) this(1) c(1), unfolded m c two_coins_alive]
    and u = item_taken [OF ok(2) this(2) d(1), unfolded m d o two_coins_alive]
  have "\<exists>w'. OnPlayerGetDropItem demo_lib 0 demo_coins = Inr w'
     \<and> outp w' = [Sent 0 [WByte 10, WUInt 1, WUInt 0x10000, WShort 1], Sent 1 [WByte 10, WUInt 1, WUInt 0x10000, WShort 1]]
     \<and> mID ` set (m_AliveDropItem (m_DropManager w')) = {0}"
    using t by (simp add: i insert_Diff_if) (elim exE conjE, intro exI conjI, assumption, simp_all)
  moreover have "\<exists>w'. OnPlayerGetDropItem demo_lib 0 demo_obstacles = Inr w' \<and> m_CoinCount (cl w' 0) = 0
     \<and> outp w' = [Sent 0 [WByte 10, WUInt 1, WUInt 0x10000, WShort 0], Sent 1 [WByte 10, WUInt 1, WUInt 0x10000, WShort 0]]"
    using u by (simp add: i insert_Diff_if) (elim exE conjE, intro exI conjI, assumption, simp_all)
  ultimately show ?thesis by blast
qed

end
