(* ===== verification/GameStart.thy ===== *)
theory GameStart
  imports GameLaws
begin

text \<open>
  The start of a race: every player is put at its birth place with its counters cleared, and
  every client is told the places of all players.
\<close>

section \<open>Loops that cannot fault\<close>

lemma foldE_no_fault:
  assumes "I w" "\<And>x u. x \<in> set xs \<Longrightarrow> I u \<Longrightarrow> f x u = Inr (g x u) \<and> I (g x u)"
  shows "foldE f xs w = Inr (fold g xs w) \<and> I (fold g xs w)"
  using assms by (induction xs arbitrary: w) auto

lemma foldE_append_entries:
  "(\<And>h. h \<in> set hs \<Longrightarrow> f h = Inr (g h)) \<Longrightarrow>
     foldE (\<lambda>h acc. rbind (f h) (\<lambda>e. Inr (acc @ e))) hs acc = Inr (acc @ concat (map g hs))"
  by (induction hs arbitrary: acc) auto

section \<open>Placing the players\<close>

definition place_player :: "brith_pose \<Rightarrow> client \<Rightarrow> client" where
  "place_player pose c = c\<lparr>m_CoinCount := 0, m_RoadCheckerTag := 0, m_Complete := False,
     m_CheckerPosition := bp_position pose, m_Position := bp_position pose,
     m_Rotation := bp_rotation pose, m_IdlePostion := bp_position pose\<rparr>"

text \<open>The \<open>k\<close>-th player gets the \<open>k\<close>-th birth place, around again when there are too few.\<close>

definition birth_of :: "config \<Rightarrow> nat \<Rightarrow> brith_pose" where
  "birth_of c k = m_BrithPoseArray c ! nat (int k mod m_BrithPoseCount c)"

lemma CopyBrithPose_birth:
  assumes "cfg_ok c" "0 < m_BrithPoseCount c"
  shows "CopyBrithPose (int k) c = Inr (birth_of c k)"
proof -
  have "0 \<le> int k mod m_BrithPoseCount c" using assms(2) by simp
  moreover have "int k mod m_BrithPoseCount c < 40"
    using pos_mod_bound [OF assms(2), of "int k"] cfg_okD(5) [OF assms(1)] by linarith
  ultimately  show ?thesis
    using assms(2) cfg_okD(9) [OF assms(1)]
    by (simp add: CopyBrithPose_def c_mod_nonneg arr_get_def birth_of_def)
qed

abbreviation is_player :: "world \<Rightarrow> nat \<Rightarrow> bool" where
  "is_player w i \<equiv> IsValid (cl w i) \<and> \<not> m_IsObClient (cl w i)"

lemma start_players:
  assumes "cfg_ok (gConfig w)" "0 < m_BrithPoseCount (gConfig w)" "distinct xs"
    "set xs \<subseteq> {..<length (data_array (m_ClientPool w))}"
    "m_BrithIndex w = int (length ps)" "length (ps @ filter (is_player w) xs) \<le> 10"
  shows "\<exists>w'. foldE start_player xs (ps, w) = Inr (ps @ filter (is_player w) xs, w')
    \<and> (\<forall>k < length (filter (is_player w) xs). cl w' (filter (is_player w) xs ! k)
         = place_player (birth_of (gConfig w) (length ps + k)) (cl w (filter (is_player w) xs ! k)))
    \<and> (\<forall>j. j \<notin> set (filter (is_player w) xs) \<longrightarrow> cl w' j = cl w j)
    \<and> calm_birth w w' \<and> outp w' = outp w"
  using assms
proof (induction xs arbitrary: ps w)
  case Nil
  then show ?case by (auto simp: calm_birthI)
next
  case (Cons i xs)
  have i: "i < length (data_array (m_ClientPool w))" "i \<notin> set xs" using Cons.prems(3,4) by auto
  show ?case
  proof (cases "is_player w i")
    case False
    then have "start_player i (ps, w) = Inr (ps, w)" "filter (is_player w) (i # xs) = filter (is_player w) xs"
      by (auto simp: start_player_def)
    moreover have "length (ps @ filter (is_player w) xs) \<le> 10" using Cons.prems(6) False by simp
    ultimately show ?thesis using Cons.IH [OF Cons.prems(1,2) _ _ Cons.prems(5)] Cons.prems(3,4) by simp
  next
    case True
    let ?pose = "birth_of (gConfig w) (length ps)"
    define u where "u = upd_client i (place_player ?pose) (w\<lparr>m_BrithIndex := m_BrithIndex w + 1\<rparr>)"
    have step: "start_player i (ps, w) = Inr (ps @ [i], u)"
      using True Cons.prems(5,6) CopyBrithPose_birth [OF Cons.prems(1,2)]
      by (simp add: start_player_def u_def place_player_def [abs_def])
    have cu: "cl u j = (if j = i then place_player ?pose (cl w i) else cl w j)" for j
      using i(1) by (simp add: u_def cl_upd_any)
    have valid: "is_player u j = is_player w j" for j
      by (simp add: cu place_player_def IsValid_def)
    have us: "gConfig u = gConfig w" "m_BrithIndex u = int (length (ps @ [i]))"
      "length (data_array (m_ClientPool u)) = length (data_array (m_ClientPool w))" "outp u = outp w"
      using Cons.prems(5) by (simp_all add: u_def)
    have calm: "calm_birth w u"
      by (simp add: calm_birth_def u_def) (rule calm_upd; simp add: place_player_def)
    obtain w' where w': "foldE start_player xs (ps @ [i], u) = Inr ((ps @ [i]) @ filter (is_player w) xs, w')"
      "\<forall>k < length (filter (is_player w) xs). cl w' (filter (is_player w) xs ! k)
         = place_player (birth_of (gConfig w) (length (ps @ [i]) + k)) (cl u (filter (is_player w) xs ! k))"
      "\<forall>j. j \<notin> set (filter (is_player w) xs) \<longrightarrow> cl w' j = cl u j" "calm_birth u w'" "outp w' = outp u"
      using Cons.IH [of u "ps @ [i]"] Cons.prems True i(2) by (auto simp: us valid)
    have P: "filter (is_player w) (i # xs) = i # filter (is_player w) xs" using True by simp
    have at: "cl w' ((i # filter (is_player w) xs) ! k)
        = place_player (birth_of (gConfig w) (length ps + k)) (cl w ((i # filter (is_player w) xs) ! k))"
      if "k < length (i # filter (is_player w) xs)" for k
    proof (cases k)
      case 0
      then show ?thesis using w'(3) i(2) by (simp add: cu)
    next
      case (Suc m)
      then have m: "m < length (filter (is_player w) xs)" using that by simp
      then have "filter (is_player w) xs ! m \<noteq> i" using i(2) nth_mem [OF m] by auto
      with m w'(2) Suc show ?thesis by (simp add: cu)
    qed
    show ?thesis
      unfolding P
      by (intro exI [of _ w'] conjI)
        (use step w'(1) at w'(3) w'(5) us(4) cu calm_birth_trans [OF calm w'(4)] in auto)
  qed
qed

section \<open>Initialising the managers\<close>

lemma drop_Init_total:
  assumes "cfg_ok c" "length (mAllDropItem m) = 64"
  shows "\<exists>m'. drop_Init True c m = Inr (True, m') \<and> length (mAllDropItem m') = 64"
proof -
  have "\<exists>items. foldE (\<lambda>i items. rbind (arr_get (m_DropItemData c) i) (\<lambda>d. arr_set items i (drop_item_fresh d)))
      (map int [0..<nat (m_DropItemCount c)]) (mAllDropItem m) = Inr items \<and> length items = 64"
  proof (rule foldE_total)
    fix x and items :: "drop_item list"
    assume x: "x \<in> set (map int [0..<nat (m_DropItemCount c)])" "length items = 64"
    then obtain i where "x = int i" "i < 64" using cfg_okD(3) [OF assms(1)] by auto
    then show "\<exists>u'. rbind (arr_get (m_DropItemData c) x) (\<lambda>d. arr_set items x (drop_item_fresh d)) = Inr u'
        \<and> length u' = 64"
      using x(2) cfg_okD(8) [OF assms(1)] by simp
  qed (use assms(2) in simp)
  then show ?thesis by (auto simp: drop_Init_def)
qed

section \<open>Telling the clients\<close>

definition start_entry :: "world \<Rightarrow> nat \<Rightarrow> wr list" where
  "start_entry w i = [WUInt (uid (cl w i)), WVector3 (m_Position (cl w i)), WVector3 (m_Rotation (cl w i))]"

definition start_msg :: "world \<Rightarrow> nat list \<Rightarrow> wr list" where
  "start_msg w ps = [WByte SM_GAME_START, WByte (word_of_nat (length ps))]
     @ concat (map (start_entry w) ps) @ [WFloat (m_GameTotleTime w), WFloat (m_GameShowTime w)]"

lemma player_entry_found:
  assumes "pool_ok (m_ClientPool w)" "i < psize w"
  shows "player_entry w (uid (cl w i)) = Inr (start_entry w i)"
proof -
  obtain fl where fl: "pool_rep fl (m_ClientPool w)" using assms(1) by (auto simp: pool_ok_def)
  have "Get (uid (cl w i)) (m_ClientPool w) = Some i"
    unfolding Get_rep [OF fl] using assms(2) by (simp add: psize_def cap_def Size_def handle_at_def cl_def)
  then show ?thesis by (simp add: player_entry_def start_entry_def)
qed

lemma start_message_sends:
  assumes "pool_ok (m_ClientPool w)" "set ps \<subseteq> {..<psize w}"
  shows "start_message (map (\<lambda>i. uid (cl w i)) ps) j w = Inr (send_valid (\<lambda>w j. start_msg w ps) j w)"
proof -
  have "foldE (\<lambda>h acc. rbind (player_entry w h) (\<lambda>e. Inr (acc @ e))) (map (\<lambda>i. uid (cl w i)) ps) []
      = Inr ([] @ concat (map (start_entry w) ps))"
  proof -
    have "foldE (\<lambda>h acc. rbind (player_entry w h) (\<lambda>e. Inr (acc @ e))) (map (\<lambda>i. uid (cl w i)) qs) acc
        = Inr (acc @ concat (map (start_entry w) qs))" if "set qs \<subseteq> {..<psize w}" for qs acc
      using that by (induction qs arbitrary: acc) (auto simp: player_entry_found [OF assms(1)])
    then show ?thesis using assms(2) by simp
  qed
  then show ?thesis by (simp add: start_message_def send_valid_def start_msg_def)
qed

lemma start_msg_emit: "start_msg (emit e w) ps = start_msg w ps"
  by (simp add: start_msg_def start_entry_def [abs_def])

section \<open>Properties\<close>

text \<open>
  C7: with at most ten players and at least one birth place a loaded race starts: the game is in
  Show with the configured times, the \<open>k\<close>-th player stands at the \<open>k\<close>-th birth place with no coins
  and no tags, and every valid client is sent one message with the handle and the place of
  every player.
\<close>

theorem race_starts:
  assumes "world_ok w" "m_GameState w = Load" "length (players_of w) \<le> 10"
    and "0 < m_BrithPoseCount (gConfig w)"
  shows "\<exists>w'. StartGame w = Inr w' \<and> m_GameState w' = Show \<and> m_GameRunTime w' = 0
    \<and> m_GameTotleTime w' = m_GameTime (gConfig w) \<and> m_GameShowTime w' = m_GameShowTimeCfg (gConfig w)
    \<and> (\<forall>k < length (players_of w). cl w' (players_of w ! k)
          = place_player (birth_of (gConfig w) k) (cl w (players_of w ! k)))
    \<and> outp w' = outp w @ map (\<lambda>j. Sent j (start_msg w' (players_of w))) (valid_clients w')"
proof -
  let ?P = "players_of w"
  define w1 where "w1 = w\<lparr>m_GameState := Show, m_GameTotleTime := m_GameTime (gConfig w),
      m_GameShowTime := m_GameShowTimeCfg (gConfig w), m_GameSyncTime := 0,
      m_GameRunTime := 0, m_BrithIndex := 0\<rparr>"
  obtain m where m: "drop_Init True (gConfig w) (m_DropManager w) = Inr (True, m)"
    using drop_Init_total [OF world_okD(2,3) [OF assms(1)]] by blast
  obtain r where r: "road_Init (gConfig w) (m_RoadCheckerManager w) = Inr r"
    using road_Init_ok [OF world_okD(2,4) [OF assms(1)]] by blast
  define w2 where "w2 = w1\<lparr>m_DropManager := m, m_RoadCheckerManager := r\<rparr>"
  have c2: "cl w2 = cl w" "psize w2 = psize w" "gConfig w2 = gConfig w" "outp w2 = outp w"
    "m_BrithIndex w2 = 0" "m_ClientPool w2 = m_ClientPool w"
    by (simp_all add: w2_def w1_def)
  have P: "filter (is_player w) [0..<psize w] = ?P" by (simp add: players_of_def)
  have sub: "set [0..<psize w] \<subseteq> {..<length (data_array (m_ClientPool w))}"
    using world_ok_pool_length [OF assms(1)] by auto
  obtain w3 where w3: "foldE start_player [0..<psize w] ([], w2) = Inr (?P, w3)"
    "\<forall>k < length ?P. cl w3 (?P ! k) = place_player (birth_of (gConfig w) k) (cl w (?P ! k))"
    "\<forall>j. j \<notin> set ?P \<longrightarrow> cl w3 j = cl w j" "calm_birth w2 w3" "outp w3 = outp w"
    using start_players [of w2 "[0..<psize w]" "[]", unfolded c2 P,
        OF world_okD(2) [OF assms(1)] assms(4) distinct_upt sub] assms(3)
    by auto
  note f = calmD [OF w3(4) [unfolded calm_birth_def]]
  have pf: "pool_frame (m_ClientPool w) (m_ClientPool w3)" using keepsD(1) [OF f(1)] by (simp add: c2)
  then have ok3: "pool_ok (m_ClientPool w3)" using pool_frame_ok world_okD(1) [OF assms(1)] by blast
  have p3: "psize w3 = psize w" using f(13) by (simp add: c2)
  have Psub: "set ?P \<subseteq> {..<psize w3}" by (auto simp: players_of_def p3)
  have uids: "map (\<lambda>i. uid (cl w i)) ?P = map (\<lambda>i. uid (cl w3 i)) ?P"
    using pool_frame_nth(1) [OF pf] world_ok_pool_length [OF assms(1)]
    by (auto simp: cl_def players_of_def)
  let ?I = "\<lambda>u :: world. m_ClientPool u = m_ClientPool w3"
  have "foldE (start_message (map (\<lambda>i. uid (cl w i)) ?P)) [0..<psize w3] w3
      = Inr (fold (send_valid (\<lambda>w j. start_msg w ?P)) [0..<psize w3] w3)"
  proof (rule conjunct1 [OF foldE_no_fault [of ?I]])
    fix x and u :: world assume u: "?I u"
    then have "cl u = cl w3" "psize u = psize w3" by (simp_all add: cl_def psize_def fun_eq_iff)
    then have "start_message (map (\<lambda>i. uid (cl w i)) ?P) x u = Inr (send_valid (\<lambda>w j. start_msg w ?P) x u)"
      using start_message_sends [of u ?P x] u ok3 Psub by (simp add: uids)
    moreover have "?I (send_valid (\<lambda>w j. start_msg w ?P) x u)" using u by (simp add: send_valid_def)
    ultimately show "start_message (map (\<lambda>i. uid (cl w i)) ?P) x u = Inr (send_valid (\<lambda>w j. start_msg w ?P) x u)
        \<and> ?I (send_valid (\<lambda>w j. start_msg w ?P) x u)" by simp
  qed simp
  moreover define w' where "w' = broadcast (\<lambda>w j. start_msg w ?P) w3"
  ultimately have run: "StartGame w = Inr w'"
    using assms(2) m r w3(1)
    by (simp add: StartGame_def Let_def w1_def [symmetric] w2_def [symmetric] c2 broadcast_def)
      (simp add: w1_def w2_def)
  have w': "w' = w3\<lparr>outp := outp w @ map (\<lambda>j. Sent j (start_msg w3 ?P)) (valid_clients w3)\<rparr>"
    unfolding w'_def using broadcast_sends [of "\<lambda>w j. start_msg w ?P" w3] w3(5) by (simp add: start_msg_emit)
  have "start_msg w' ?P = start_msg w3 ?P" "valid_clients w' = valid_clients w3"
    by (simp_all add: w' start_msg_def start_entry_def [abs_def] valid_clients_def)
  then show ?thesis
    using run w3(2) f(2,6,8,9) by (intro exI [of _ w']) (simp add: w', simp add: w2_def w1_def)
qed

theorem race_starts_witness:
  "\<exists>w'. StartGame (demo Load) = Inr w' \<and> m_GameState w' = Show
     \<and> outp w' = map (\<lambda>j. Sent j (start_msg w' [0])) (valid_clients w')"
proof -
  have "0 < m_BrithPoseCount (gConfig (demo Load))" "outp (demo Load) = []"
    by (simp_all add: demo_config_def) (simp add: demo_def)
  then show ?thesis
    using race_starts [OF demo_ok, of Load] by (auto simp: demo_valid)
qed

end
