(* ===== verification/GameEnd.thy ===== *)
theory GameEnd
  imports GameLaws
begin

text \<open>
  The clock and the end of a game: when a race is over, what a lost connection does, how
  \<open>EndGame\<close> closes every connection although closing one may call back into the program, that
  the drop items of a configured race never make an update fail, and the division by zero that
  a configuration without check points leads to.
\<close>

section \<open>Freeing a client's slot\<close>

lemma live_Free_all:
  assumes "pool_ok p" "i < cap p"
  shows "live (Free mt (handle_at p i) p) = live p - {i}
    \<and> (\<forall>j. j \<noteq> i \<longrightarrow> data_array (Free mt (handle_at p i) p) ! j = data_array p ! j)
    \<and> cap (Free mt (handle_at p i) p) = cap p
    \<and> length (data_array (Free mt (handle_at p i) p)) = length (data_array p)"
proof -
  obtain fl where fl: "pool_rep fl p" using assms(1) by (auto simp: pool_ok_def)
  have len: "length (data_array p) = cap p" "length (data_allocate p) = cap p"
    using pool_repD(2,4) [OF fl] by auto
  show ?thesis
  proof (cases "i \<in> live p")
    case True
    let ?q = "p\<lparr>link_array := (link_array p)[i := free_obj p], free_obj := Some i,
       pl_count := pl_count p - 1,
       data_array := (data_array p)[i := (data_array p ! i)\<lparr>uid := next_uid (handle_at p i)\<rparr>],
       data_allocate := (data_allocate p)[i := False]\<rparr>"
    have "live ?q = live p - {i}"
      using len assms(2) by (auto simp: live_def cap_def) (metis nth_list_update nth_list_update_neq)+
    then show ?thesis
      unfolding Free_live(1) [OF fl True] by (simp add: cap_def)
  next
    case False
    have "handle_at p i \<notin> handle_at p ` live p"
    proof
      assume "handle_at p i \<in> handle_at p ` live p"
      then obtain k where k: "k \<in> live p" "handle_at p k = handle_at p i" by auto
      then have "k < cap p" by (simp add: live_def)
      then have "Get (handle_at p k) p = Some k" "Get (handle_at p i) p = Some i"
        using Get_rep [OF fl, of "handle_at p k" k] Get_rep [OF fl, of "handle_at p i" i] assms(2)
        by simp_all
      then have "k = i" unfolding k(2) by simp
      with k(1) False show False by blast
    qed
    from Free_dead [OF fl this, of mt] False show ?thesis by simp
  qed
qed

lemma live_Free:
  assumes "pool_ok p" "i < cap p"
  shows "live (Free mt (handle_at p i) p) = live p - {i}"
    and "j \<noteq> i \<Longrightarrow> data_array (Free mt (handle_at p i) p) ! j = data_array p ! j"
    and "cap (Free mt (handle_at p i) p) = cap p"
    and "length (data_array (Free mt (handle_at p i) p)) = length (data_array p)"
proof -
  note F = live_Free_all [OF assms, of mt]
  show "live (Free mt (handle_at p i) p) = live p - {i}" using F by (rule conjunct1)
  show "data_array (Free mt (handle_at p i) p) ! j = data_array p ! j" if "j \<noteq> i"
    using F that by simp
  show "cap (Free mt (handle_at p i) p) = cap p" using F by simp
  show "length (data_array (Free mt (handle_at p i) p)) = length (data_array p)" using F by simp
qed

lemma release_effect:
  assumes "world_ok w" "i < psize w"
  shows "IsValid (cl (release l i w) j) \<longleftrightarrow> j \<noteq> i \<and> IsValid (cl w j)"
    and "connection (cl (release l i w) i) = None"
    and "psize (release l i w) = psize w"
    and "live (m_ClientPool (release l i w)) = live (m_ClientPool w) - {i}"
    and "j \<noteq> i \<Longrightarrow> cl (release l i w) j = cl w j"
proof -
  let ?p = "m_ClientPool w"
  have i: "i < cap ?p" "i < length (data_array ?p)"
    using assms(2) world_ok_pool_length [OF assms(1)] by (simp_all add: psize_def cap_def Size_def)
  note F = live_Free [where mt = "main_thread l", OF world_okD(1) [OF assms(1)] i(1)]
  have h: "uid (cl w i) = handle_at ?p i" by (simp add: handle_at_def cl_def)
  have c: "cl (release l i w) j = (if j = i then (data_array (Free (main_thread l) (handle_at ?p i) ?p) ! i)
      \<lparr>connection := None\<rparr> else cl w j)" for j
    using F(2) F(4) i(2) by (simp add: release_def h cl_upd_any) (simp add: cl_def)
  show "IsValid (cl (release l i w) j) \<longleftrightarrow> j \<noteq> i \<and> IsValid (cl w j)"
    by (simp add: c) (simp add: IsValid_def)
  show "connection (cl (release l i w) i) = None" by (simp add: c)
  show "j \<noteq> i \<Longrightarrow> cl (release l i w) j = cl w j" by (simp add: c)
  show "psize (release l i w) = psize w"
    using F(3) by (simp add: release_def h psize_def Size_def cap_def upd_client_def)
  show "live (m_ClientPool (release l i w)) = live ?p - {i}"
    using F(1) by (simp add: release_def h upd_client_def live_def cap_def)
qed

section \<open>Closing every connection\<close>

lemma disconnect_sync:
  assumes "m_GameState w = Wait"
  shows "disconnect_valid (synchronous l) i w = Inr (if IsValid (cl w i) then release l i w else w)"
  using assms by (simp add: disconnect_valid_def synchronous_def OnDisconnected_waiting)

lemma release_loop:
  assumes "world_ok w" "m_GameState w = Wait" "n \<le> psize w"
  shows "\<exists>w'. foldE (disconnect_valid (synchronous l)) [0..<n] w = Inr w' \<and> world_ok w'
    \<and> m_GameState w' = Wait \<and> psize w' = psize w \<and> m_MapDataLen w' = m_MapDataLen w
    \<and> (\<forall>j. IsValid (cl w' j) \<longleftrightarrow> n \<le> j \<and> IsValid (cl w j))
    \<and> live (m_ClientPool w') = live (m_ClientPool w) - {j. j < n \<and> IsValid (cl w j)}"
  using assms(3)
proof (induction n)
  case 0
  with assms show ?case by simp
next
  case (Suc n)
  then obtain u where u: "foldE (disconnect_valid (synchronous l)) [0..<n] w = Inr u" "world_ok u"
    "m_GameState u = Wait" "psize u = psize w" "\<forall>j. IsValid (cl u j) \<longleftrightarrow> n \<le> j \<and> IsValid (cl w j)"
    "live (m_ClientPool u) = live (m_ClientPool w) - {j. j < n \<and> IsValid (cl w j)}"
    "m_MapDataLen u = m_MapDataLen w"
    by auto
  have n: "n < psize u" using Suc.prems u(4) by simp
  have run: "foldE (disconnect_valid (synchronous l)) [0..<Suc n] w
      = Inr (if IsValid (cl u n) then release l n u else u)"
    using u(1) disconnect_sync [OF u(3)] by (simp add: foldE_append)
  show ?case
  proof (cases "IsValid (cl u n)")
    case True
    have "{j. j < Suc n \<and> IsValid (cl w j)} = insert n {j. j < n \<and> IsValid (cl w j)}"
      using True u(5) by (auto simp: less_Suc_eq)
    then have L: "live (m_ClientPool (release l n u)) = live (m_ClientPool w) - {j. j < Suc n \<and> IsValid (cl w j)}"
      unfolding release_effect(4) [OF u(2) n] u(6) by blast
    have V: "IsValid (cl (release l n u) j) \<longleftrightarrow> Suc n \<le> j \<and> IsValid (cl w j)" for j
      unfolding release_effect(1) [OF u(2) n] u(5) [rule_format, of j] by auto
    have R: "world_ok (release l n u)" "psize (release l n u) = psize w"
      using release_ok [OF u(2), of l n] release_effect(3) [OF u(2) n, of l] u(4) by simp_all
    have M: "m_MapDataLen (release l n u) = m_MapDataLen w" using u(7) by (simp add: release_def)
    show ?thesis
      by (rule exI [of _ "release l n u"]) (simp only: run True if_True R M L V u(3) release_state, simp)
  next
    case False
    then have "\<not> IsValid (cl w n)" using u(5) by simp
    then have "{j. j < Suc n \<and> IsValid (cl w j)} = {j. j < n \<and> IsValid (cl w j)}"
      by (auto simp: less_Suc_eq)
    moreover have "IsValid (cl u j) \<longleftrightarrow> Suc n \<le> j \<and> IsValid (cl w j)" for j
      using \<open>\<not> IsValid (cl w n)\<close> unfolding u(5) [rule_format, of j]
      by (cases "j = n") (auto simp: Suc_le_eq)
    ultimately show ?thesis
      by (intro exI [of _ u]) (simp only: run False if_False u(2,3,4,6,7), simp)
  qed
qed

lemma ClearData_sel [simp]:
  "psize (ClearData w) = psize w" "cl (ClearData w) = cl w" "m_ClientPool (ClearData w) = m_ClientPool w"
  "m_GameState (ClearData w) = Wait" "m_MapDataLen (ClearData w) = 0" "outp (ClearData w) = outp w"
  by (simp_all add: ClearData_def)

lemma deferred_loop:
  "foldE (disconnect_valid (deferred l)) is w
     = Inr (w\<lparr>outp := outp w @ map Disconnecting (filter (\<lambda>i. IsValid (cl w i)) is)\<rparr>)"
proof (induction "is" arbitrary: w)
  case (Cons i "is")
  have *: "outp_update f (emit e w) = w\<lparr>outp := f (outp w @ [e])\<rparr>" for f e and w :: world
    by (simp add: emit_def)
  have "nl_disconnect (deferred l) i w = Inr (emit (Disconnecting i) w)" by (simp add: deferred_def)
  then show ?case
    by (cases "IsValid (cl w i)") (simp_all add: Cons.IH disconnect_valid_def [of _ i w] *)
qed simp

lemma EndGame_run:
  assumes "world_ok w" "m_GameState w \<noteq> Wait"
  shows "\<exists>w'. EndGame (synchronous l) w = Inr w' \<and> world_ok w' \<and> psize w' = psize w
      \<and> m_GameState w' = Wait \<and> m_MapDataLen w' = 0 \<and> valid_clients w' = []
      \<and> live (m_ClientPool w') = live (m_ClientPool w) - set (valid_clients w)"
proof -
  obtain w' where w': "foldE (disconnect_valid (synchronous l)) [0..<psize w] (ClearData w) = Inr w'"
    "world_ok w'" "m_GameState w' = Wait" "psize w' = psize w" "m_MapDataLen w' = 0"
    "\<forall>j. IsValid (cl w' j) \<longleftrightarrow> psize w \<le> j \<and> IsValid (cl w j)"
    "live (m_ClientPool w') = live (m_ClientPool w) - {j. j < psize w \<and> IsValid (cl w j)}"
    using release_loop [OF ClearData_ok [OF assms(1)], of "psize w" l] by auto
  have "valid_clients w' = []" using w'(4,6) by (simp add: valid_clients_def filter_empty_conv)
  moreover have "{j. j < psize w \<and> IsValid (cl w j)} = set (valid_clients w)"
    by (auto simp: valid_clients_def)
  ultimately show ?thesis using w' assms(2) by (intro exI [of _ w']) (simp add: EndGame_def)
qed

text \<open>Two slots never hold the same handle.\<close>

lemma client_uids:
  assumes "world_ok w" "i < psize w" "j < psize w"
  shows "uid (cl w i) = uid (cl w j) \<longleftrightarrow> j = i"
proof -
  obtain fl where fl: "pool_rep fl (m_ClientPool w)" using world_okD(1) [OF assms(1)] by (auto simp: pool_ok_def)
  have "slot_of (uid (cl w k)) = k" if "k < psize w" for k
    using pool_repD(10) [OF fl, of k] that by (simp add: cl_def psize_def cap_def Size_def)
  then show ?thesis using assms(2,3) by metis
qed

text \<open>
  C14: the end of a game closes the connection of every valid client, each once, although a
  library that closes at once calls back into \<open>OnDisconnected\<close> from inside the loop: afterwards
  the server waits, no valid client is left, the map is forgotten and exactly the slots of the
  valid clients are free again. A library that closes later is asked once for each of them.
\<close>

theorem EndGame_closes_all:
  assumes "world_ok w" "m_GameState w \<noteq> Wait"
  shows "(\<exists>w'. EndGame (synchronous l) w = Inr w' \<and> m_GameState w' = Wait \<and> m_MapDataLen w' = 0
      \<and> valid_clients w' = []
      \<and> live (m_ClientPool w') = live (m_ClientPool w) - set (valid_clients w))
    \<and> EndGame (deferred l) w
      = Inr ((ClearData w)\<lparr>outp := outp w @ map Disconnecting (valid_clients w)\<rparr>)"
proof -
  have "\<exists>w'. EndGame (synchronous l) w = Inr w' \<and> m_GameState w' = Wait \<and> m_MapDataLen w' = 0
      \<and> valid_clients w' = []
      \<and> live (m_ClientPool w') = live (m_ClientPool w) - set (valid_clients w)"
    using EndGame_run [OF assms] by blast
  moreover have "EndGame (deferred l) w
      = Inr ((ClearData w)\<lparr>outp := outp w @ map Disconnecting (valid_clients w)\<rparr>)"
    using assms(2) by (simp add: EndGame_def deferred_loop valid_clients_def)
  ultimately show ?thesis by blast
qed

theorem EndGame_closes_all_witness:
  "\<exists>w'. EndGame (synchronous demo_lib) (demo Play) = Inr w' \<and> m_GameState w' = Wait
    \<and> valid_clients w' = [] \<and> live (m_ClientPool w') = {}"
proof -
  have "cap demo_pool = 3" by (simp add: demo_pool_def cap_def)
  then have "live demo_pool = {0, 1}" by (auto simp: live_def demo_pool_def numeral_3_eq_3 less_Suc_eq)
  then show ?thesis
    using EndGame_closes_all [OF demo_ok, of Play demo_lib] by (auto simp: demo_valid)
qed

text \<open>
  a lost connection frees exactly its own slot and leaves every other client as it was,
  unless it was a valid client's and no player besides it is left while a race is on: then the
  server waits again, every valid client is closed, and the slot of the lost one, which the
  end of the game has already freed, is not freed twice.
\<close>

lemma connection_lost:
  assumes "world_ok w" "i < psize w"
  shows "\<exists>w'. OnDisconnected (synchronous l) i w = Inr w' \<and> connection (cl w' i) = None \<and>
    (if IsValid (cl w i) \<and> set (players_of w) \<subseteq> {i} \<and> m_GameState w \<noteq> Wait
     then m_GameState w' = Wait \<and> valid_clients w' = []
       \<and> live (m_ClientPool w') = live (m_ClientPool w) - set (valid_clients w)
     else m_GameState w' = m_GameState w \<and> (\<forall>j. j \<noteq> i \<longrightarrow> cl w' j = cl w j)
       \<and> live (m_ClientPool w') = live (m_ClientPool w) - {i})"
proof -
  have others: "(\<exists>j \<in> set [0..<psize w]. uid (cl w i) \<noteq> uid (cl w j) \<and> IsValid (cl w j) \<and> \<not> m_IsObClient (cl w j))
      \<longleftrightarrow> \<not> set (players_of w) \<subseteq> {i}"
    using client_uids [OF assms] by (auto simp: players_of_def)
  show ?thesis
  proof (cases "IsValid (cl w i) \<and> set (players_of w) \<subseteq> {i} \<and> m_GameState w \<noteq> Wait")
    case True
    then obtain u where u: "EndGame (synchronous l) w = Inr u" "m_GameState u = Wait" "valid_clients u = []"
      "live (m_ClientPool u) = live (m_ClientPool w) - set (valid_clients w)" "world_ok u" "psize u = psize w"
      using EndGame_run [OF assms(1)] by blast
    have "OnDisconnected (synchronous l) i w = Inr (release (synchronous l) i u)"
      using True u(1) unfolding OnDisconnected_release OnClientDisconnect_def others by simp
    moreover have "i \<notin> live (m_ClientPool u)" using True assms(2) u(4) by (simp add: valid_clients_def)
    moreover have "valid_clients (release (synchronous l) i u) = []"
      using u(3) assms(2) u(6) release_effect(1,3) [OF u(5), where i = i and l = "synchronous l"]
      by (auto simp: valid_clients_def filter_empty_conv)
    ultimately show ?thesis
      using True u(2,4,6) assms(2) release_effect(2,4) [OF u(5), where i = i and l = "synchronous l"] by simp
  next
    case False
    then have "OnDisconnected (synchronous l) i w = Inr (release (synchronous l) i w)"
      unfolding OnDisconnected_release OnClientDisconnect_def others by (auto simp: EndGame_def)
    then show ?thesis
      unfolding if_not_P [OF False] using release_effect(2,4,5) [OF assms, where l = "synchronous l"] by simp
  qed
qed

text \<open>A lost connection that does not end the game.\<close>

lemma OnDisconnected_plain:
  assumes "world_ok w" "i < psize w"
    and "m_GameState w = Wait \<or> \<not> IsValid (cl w i) \<or> \<not> set (players_of w) \<subseteq> {i}"
  shows "OnDisconnected l i w = Inr (release l i w)"
proof -
  have "(\<exists>j \<in> set [0..<psize w]. uid (cl w i) \<noteq> uid (cl w j) \<and> IsValid (cl w j) \<and> \<not> m_IsObClient (cl w j))
      \<longleftrightarrow> \<not> set (players_of w) \<subseteq> {i}"
    using client_uids [OF assms(1,2)] by (auto simp: players_of_def)
  then show ?thesis using assms(3)
    by (auto simp: OnDisconnected_release OnClientDisconnect_def EndGame_def)
qed

section \<open>The clock\<close>

lemma players_of_emit [simp]: "players_of (emit e w) = players_of w"
  by (simp add: players_of_def)

lemma players_of_upd:
  assumes "\<And>c. IsValid (f c) = IsValid c" "\<And>c. m_IsObClient (f c) = m_IsObClient c"
  shows "players_of (upd_client i f w) = players_of w"
proof -
  have "IsValid (cl (upd_client i f w) j) = IsValid (cl w j)"
    "m_IsObClient (cl (upd_client i f w) j) = m_IsObClient (cl w j)" for j
    by (simp_all add: cl_upd_any assms)
  then show ?thesis by (simp add: players_of_def)
qed

lemma lap_percent_total:
  assumes "cfg_ok c" "0 < m_CheckerPointCount c"
  shows "\<exists>p. lap_percent idx c = Inr p"
proof -
  have "m_CheckerPointCount c \<le> 128" using assms(1) by (simp add: cfg_ok_def cfg_consts)
  then have "uint (word_of_int (m_CheckerPointCount c) :: u64) = m_CheckerPointCount c"
    using assms(2) by (simp add: uint_word_of_int)
  then have "(word_of_int (m_CheckerPointCount c) :: u64) \<noteq> 0" using assms(2) by auto
  then show ?thesis by (simp add: lap_percent_def)
qed

lemma lap_percent_zero: "m_CheckerPointCount c = 0 \<Longrightarrow> lap_percent idx c = Inl DivByZero"
  by (simp add: lap_percent_def)

text \<open>What a step of the clock may do: nothing but what \<open>calm\<close> allows, with the same players.\<close>

definition calm_players :: "world \<Rightarrow> world \<Rightarrow> bool" where
  "calm_players w w' = (calm w w' \<and> players_of w' = players_of w)"

lemma sync_one_total:
  assumes "cfg_ok (gConfig w)" "0 < m_CheckerPointCount (gConfig w)"
  shows "\<exists>w'. sync_one l i w = Inr w' \<and> calm_players w w'"
proof -
  let ?w1 = "emit (Sent i [WByte SM_GAME_SYNC_TIME, WFloat (m_GameSyncTime w)]) w"
  let ?w2 = "upd_client i (\<lambda>c. c\<lparr>m_IdlePostion := m_Position c\<rparr>) ?w1"
  obtain p where p: "lap_percent (m_LastCheckIndex (cl ?w2 i)) (gConfig ?w2) = Inr p"
    using lap_percent_total [OF assms] by auto
  have "calm w ?w2" by (rule calm_upd_then) simp_all
  moreover have "players_of ?w2 = players_of w" by (subst players_of_upd) (simp_all add: IsValid_def)
  ultimately show ?thesis using p
    by (auto simp: sync_one_def Let_def calm_players_def intro: calm_emit_then)
qed

lemma SyncGameTime_total:
  assumes "cfg_ok (gConfig w)" "0 < m_CheckerPointCount (gConfig w)"
  shows "\<exists>w'. SyncGameTime l w = Inr w' \<and> calm_players w w'"
  unfolding SyncGameTime_def
proof (rule foldE_total [of "calm_players w"])
  fix x u assume u: "calm_players w u"
  then have "gConfig u = gConfig w" using calmD(14) by (simp add: calm_players_def)
  then obtain u' where "sync_one l x u = Inr u'" "calm_players u u'"
    using sync_one_total [of u l x] assms by auto
  then show "\<exists>u'. sync_one l x u = Inr u' \<and> calm_players w u'"
    using u by (auto simp: calm_players_def intro: calm_trans)
qed (simp add: calm_players_def)

lemma race_tick_run:
  assumes "world_ok w" "m_GameState w = Play"
    and "0 < m_CheckerPointCount (gConfig w)" "drop_safe (gConfig w) (m_DropManager w)"
    and "length (players_of w) \<le> 10"
  shows "\<exists>w'. rbind (wait_states l t w) (play_step l t) = Inr w' \<and> m_GameRunTime w' = m_GameRunTime w + t
    \<and> m_GameTotleTime w' = m_GameTotleTime w
    \<and> m_GameState w' = (if m_GameTotleTime w < m_GameRunTime w + t then Balance else Play)"
proof -
  define w1 where "w1 = w\<lparr>m_GameRunTime := m_GameRunTime w + t\<rparr>"
  have w1: "world_ok w1" "m_GameState w1 = Play" "players_of w1 = players_of w"
    using assms(1,2) by (simp_all add: w1_def players_of_def)
  obtain s w2 where w2: "sync_if_due l w1 = Inr w2" "calm_players (w1\<lparr>m_GameSyncTime := s\<rparr>) w2"
  proof (cases "f32_lit 99 100 < m_GameRunTime w1 - m_GameSyncTime w1")
    case True
    obtain v where "SyncGameTime l (w1\<lparr>m_GameSyncTime := m_GameRunTime w1\<rparr>) = Inr v"
      "calm_players (w1\<lparr>m_GameSyncTime := m_GameRunTime w1\<rparr>) v"
      using SyncGameTime_total [of "w1\<lparr>m_GameSyncTime := m_GameRunTime w1\<rparr>" l]
        world_okD(2) [OF w1(1)] assms(3) by (auto simp: w1_def)
    with True that show ?thesis by (simp add: sync_if_due_def)
  next
    case False
    then show ?thesis using that [of w1 "m_GameSyncTime w1"] by (simp add: sync_if_due_def calm_players_def)
  qed
  have calm2: "calm (w1\<lparr>m_GameSyncTime := s\<rparr>) w2" and "players_of w2 = players_of w"
    using w2(2) w1(3) by (simp_all add: calm_players_def players_of_def)
  note c2 = calmD [OF calm2]
  have ok2: "world_ok w2" using calm_ok [OF _ calm2] w1(1) by simp
  have st2: "m_GameState w2 = Play" using c2(2) w1(2) by simp
  have time2: "m_GameRunTime w2 = m_GameRunTime w + t" "m_GameTotleTime w2 = m_GameTotleTime w"
    using c2(6,9) by (simp_all add: w1_def)
  obtain w3 where w3: "balance_if_over w2 = Inr w3" "calm (w2\<lparr>m_GameState := m_GameState w3\<rparr>) w3"
    "m_GameState w3 = (if m_GameTotleTime w < m_GameRunTime w + t then Balance else Play)"
  proof (cases "m_GameTotleTime w < m_GameRunTime w + t")
    case True
    have "length (players_of w2) \<le> 10" using assms(5) \<open>players_of w2 = players_of w\<close> by simp
    then have B: "BalanceGame w2 = Inr (fold balance_one (players_of w2) (w2\<lparr>m_GameState := Balance\<rparr>))"
      using st2 by (simp add: BalanceGame_eq)
    show ?thesis
      by (rule that [of "fold balance_one (players_of w2) (w2\<lparr>m_GameState := Balance\<rparr>)"])
        (use True B BalanceGame_state [OF B] st2 time2 in
          \<open>simp_all add: balance_if_over_def calm_fold [of _ balance_one, OF balance_one_calm]\<close>)
  next
    case False
    show ?thesis
    proof (rule that [of w2])
      show "calm (w2\<lparr>m_GameState := m_GameState w2\<rparr>) w2" by simp
    qed (use False st2 time2 in \<open>simp_all add: balance_if_over_def\<close>)
  qed
  note c3 = calmD [OF w3(2)]
  have ok3: "world_ok w3" using calm_ok [OF _ w3(2)] ok2 by simp
  have "drop_safe (gConfig w3) (m_DropManager w3)"
    using assms(4) c2(11,14) c3(11,14) by (simp add: w1_def)
  then obtain w4 where w4: "update_drops l t w3 = Inr w4" using update_drops_total [OF ok3] by blast
  obtain m v where v: "calm w3 v" "w4 = v\<lparr>m_DropManager := m\<rparr>"
    "length (mAllDropItem m) = length (mAllDropItem (m_DropManager w3))"
    using update_drops_shape [OF w4] .
  have run: "rbind (wait_states l t w) (play_step l t) = Inr w4"
    using assms(2) w2(1) w3(1) w4
    by (auto simp: wait_states_def play_step_def w1_def)
  show ?thesis
    using run calmD(2,6,9) [OF v(1)] v(2) c3(6,9) time2 w3(3) by (intro exI [of _ w4]) simp
qed

text \<open>
  C9: a tick of a running race that is configured completely (a check point, positions for every
  kind of item placed) and has at most ten players ends the process exactly when the watchdog is
  switched on, the pool has no client, and it has had none for more than five of the clock's
  units; any other never faults: the clock advances by the tick, and the race goes to Balance
  exactly when its total time is over.
\<close>

theorem race_tick:
  assumes "world_ok w" "m_GameState w = Play"
    and "0 < m_CheckerPointCount (gConfig w)" "drop_safe (gConfig w) (m_DropManager w)"
    and "length (players_of w) \<le> 10"
  shows "if m_CheckConnection w \<and> Count (m_ClientPool w) = 0 \<and> f32_of_int 5 < m_RestartTimer w + t
    then Update l t w = Inl Terminated
    else \<exists>w'. Update l t w = Inr w' \<and> m_GameRunTime w' = m_GameRunTime w + t
      \<and> m_GameTotleTime w' = m_GameTotleTime w
      \<and> m_GameState w' = (if m_GameTotleTime w < m_GameRunTime w + t then Balance else Play)"
proof (cases "m_CheckConnection w \<and> Count (m_ClientPool w) = 0 \<and> f32_of_int 5 < m_RestartTimer w + t")
  case True
  then show ?thesis by (simp add: Update_def watchdog_def)
next
  case False
  define u where "u = (if m_CheckConnection w \<and> Count (m_ClientPool w) = 0
    then w\<lparr>m_RestartTimer := m_RestartTimer w + t\<rparr> else w)"
  have "watchdog t w = Inr u" using False by (auto simp: watchdog_def u_def)
  then have run: "Update l t w = rbind (wait_states l t u) (play_step l t)" by (simp add: Update_def)
  have "world_ok u" "m_GameState u = Play" "gConfig u = gConfig w" "m_DropManager u = m_DropManager w"
    "players_of u = players_of w" "m_GameRunTime u = m_GameRunTime w" "m_GameTotleTime u = m_GameTotleTime w"
    using assms(1,2) by (simp_all add: u_def players_of_def)
  with race_tick_run [of u l t] assms(3-5) show ?thesis unfolding if_not_P [OF False] run by simp
qed

definition demo_running :: world where
  "demo_running = (demo Play)\<lparr>m_DropManager := drop_started\<rparr>"

lemma demo_running_ok: "world_ok demo_running" "drop_safe (gConfig demo_running) (m_DropManager demo_running)"
proof -
  show "world_ok demo_running"
    unfolding demo_running_def
    by (rule world_ok_managers(1) [OF demo_ok]) (simp add: drop_started_def)
  have "cfg_shape demo_config" using demo_config_ok by (simp add: cfg_ok_def)
  moreover have "drop_shape drop_started"
    by (auto simp: drop_shape_def drop_started_def drop_new_def cfg_consts)
  moreover have "placeable demo_config (mData (mAllDropItem drop_started ! 0))
      \<and> 0 \<le> mRefreshIndex (mAllDropItem drop_started ! 0)"
    by code_simp
  moreover have "mAllDropTtemCount drop_started = 1" by (simp add: drop_started_def)
  ultimately show "drop_safe (gConfig demo_running) (m_DropManager demo_running)"
    by (auto simp: demo_running_def drop_safe_def)
qed

theorem race_tick_witness:
  "\<exists>w'. Update demo_lib 1 demo_running = Inr w' \<and> m_GameRunTime w' = 1 \<and> m_GameState w' = Play"
proof -
  have "\<not> (m_GameTotleTime demo_running < m_GameRunTime demo_running + 1)"
    "m_GameRunTime demo_running + 1 = 1" "\<not> m_CheckConnection demo_running"
    "0 < m_CheckerPointCount (gConfig demo_running)" "length (players_of demo_running) \<le> 10"
    "m_GameState demo_running = Play"
    by code_simp+
  then show ?thesis
    using race_tick [OF demo_running_ok(1) _ _ demo_running_ok(2), of 1 demo_lib] by auto
qed

section \<open>The state machine of a race\<close>

text \<open>A move ends a lap when its position meets the end point of the course and enough points were passed.\<close>

definition ends_lap :: "lib \<Rightarrow> nat \<Rightarrow> bytes \<Rightarrow> world \<Rightarrow> bool" where
  "ends_lap l i b w =
     (case fst (read_move l b) of
        None \<Rightarrow> False
      | Some pos \<Rightarrow> (case Check pos (m_RoadCheckerManager w) of
            Inr (Some p) \<Rightarrow> cp_EndPoint p \<and> lap_done (m_RoadCheckerTag (cl w i)) (cp_Index p)
          | _ \<Rightarrow> False))"

text \<open>The state after a message, by its first byte.\<close>

definition message_state :: "lib \<Rightarrow> nat \<Rightarrow> world \<Rightarrow> game_state" where
  "message_state l i w =
     (let (cmd, b) = rd_byte l (rbuf (cl w i)) (jk_byte l); s = m_GameState w
      in if \<not> m_RevciveUID (cl w i) then s
         else if cmd = 8 then Wait
         else if cmd = 1 then if s \<in> {GNone, Wait, Load} then Load else s
         else if cmd = 2 then
           if s = Load \<and> (\<forall>j \<in> set (valid_clients w). j = i \<or> m_MapLoaded (cl w j)) then Show else s
         else if cmd = 3 then if s = Play \<and> ends_lap l i b w then Balance else s
         else if cmd = 7 then if s = Balance then SyncScore else s
         else s)"

definition next_state :: "lib \<Rightarrow> game_input \<Rightarrow> world \<Rightarrow> game_state" where
  "next_state l x w =
     (case x of
        InConnected i \<Rightarrow> m_GameState w
      | InMessage i \<Rightarrow> message_state l i w
      | InLost i \<Rightarrow> if IsValid (cl w i) \<and> set (players_of w) \<subseteq> {i} then Wait else m_GameState w
      | InTick t \<Rightarrow> tick_state t w)"

text \<open>The library speaks of the slots of the pool only.\<close>

definition slot_input :: "game_input \<Rightarrow> world \<Rightarrow> bool" where
  "slot_input x w = (case x of InConnected i \<Rightarrow> i < psize w | InMessage i \<Rightarrow> i < psize w
     | InLost i \<Rightarrow> i < psize w | InTick t \<Rightarrow> True)"

lemma OnPlayerMove_state:
  assumes "world_ok w" "i < psize w" "OnPlayerMove l i w = Inr w'"
  shows "m_GameState w' = (if m_GameState w = Play \<and> ends_lap l i (rbuf (cl w i)) w then Balance else m_GameState w)"
proof -
  have len: "psize w = length (data_array (m_ClientPool w))" using world_ok_pool_length [OF assms(1)] by simp
  obtain pose b where pb: "read_move l (rbuf (cl w i)) = (pose, b)" by force
  let ?w1 = "upd_client i (\<lambda>c. c\<lparr>rbuf := b\<rparr>) w"
  from assms(3) pb obtain w2 where
    2: "(case pose of None \<Rightarrow> Inr ?w1 | Some pos \<Rightarrow>
         rbind (check_direction l i pos (upd_client i (\<lambda>c. c\<lparr>m_Position := pos\<rparr>) ?w1)) (check_point i pos)) = Inr w2"
    and w': "w' = broadcast (\<lambda>v j. [WByte SM_PLAYER_MOVE, WUInt (uid (cl v i)), WData (rbuf (cl w i))]) w2"
    by (auto simp: OnPlayerMove_def Let_def)
  have s: "m_GameState w' = m_GameState w2" using calmD(2) [OF calm_broadcast] w' by simp
  show ?thesis
  proof (cases pose)
    case None
    then show ?thesis using 2 pb s by (auto simp: ends_lap_def)
  next
    case (Some pos)
    define u where "u = upd_client i (\<lambda>c. c\<lparr>m_Position := pos\<rparr>) ?w1"
    obtain v where v: "check_direction l i pos u = Inr v" "check_point i pos v = Inr w2" using 2 Some by (auto simp: u_def)
    have "m_GameState u = m_GameState w" "psize u = psize w" "m_RoadCheckerManager u = m_RoadCheckerManager w"
      "length (data_array (m_ClientPool u)) = length (data_array (m_ClientPool w))"
      "m_RoadCheckerTag (cl u i) = m_RoadCheckerTag (cl w i)"
      by (simp_all add: u_def cl_upd_any)
    then have d: "m_GameState v = m_GameState w" "psize v = psize w" "m_RoadCheckerManager v = m_RoadCheckerManager w"
      "length (data_array (m_ClientPool v)) = length (data_array (m_ClientPool w))"
      "m_RoadCheckerTag (cl v i) = m_RoadCheckerTag (cl w i)"
      using check_direction_out [OF v(1)] by auto
    show ?thesis
      using conjunct2 [OF check_point_out [OF v(2)]] assms(2) len d s pb Some
      by (auto simp: ends_lap_def split: sum.splits option.splits)
  qed
qed

lemma OnClientMapLoaded_state:
  assumes "i < psize w" "psize w = length (data_array (m_ClientPool w))" "OnClientMapLoaded i w = Inr w'"
  shows "m_GameState w' = (if m_GameState w = Load \<and> (\<forall>j \<in> set (valid_clients w). j = i \<or> m_MapLoaded (cl w j))
    then Show else m_GameState w)"
proof -
  let ?w = "upd_client i (\<lambda>c. c\<lparr>m_MapLoaded := True\<rparr>) w"
  have "(\<exists>j \<in> set [0..<psize ?w]. IsValid (cl ?w j) \<and> \<not> m_MapLoaded (cl ?w j))
      \<longleftrightarrow> \<not> (\<forall>j \<in> set (valid_clients w). j = i \<or> m_MapLoaded (cl w j))"
    using assms(1,2) by (auto simp: cl_upd_any valid_clients_def IsValid_def)
  then show ?thesis using assms(3) StartGame_cases [of ?w w']
    by (auto simp: OnClientMapLoaded_def Let_def split: if_splits)
qed

lemma OnDisconnected_state:
  assumes "disconnecting l" "OnDisconnected l i w = Inr w'" "world_ok w" "i < psize w"
  shows "m_GameState w' = (if IsValid (cl w i) \<and> set (players_of w) \<subseteq> {i} then Wait else m_GameState w)"
proof -
  have "(\<exists>j \<in> set [0..<psize w]. uid (cl w i) \<noteq> uid (cl w j) \<and> IsValid (cl w j) \<and> \<not> m_IsObClient (cl w j))
      \<longleftrightarrow> \<not> set (players_of w) \<subseteq> {i}"
    using client_uids [OF assms(3,4)] by (auto simp: players_of_def)
  then show ?thesis
    using assms(2) disconnecting.EndGame_ok(2) [OF assms(1) _ assms(3)]
    by (auto simp: OnDisconnected_release OnClientDisconnect_def split: if_splits)
qed

lemma OnMessage_state:
  assumes "disconnecting l" "OnMessage l i w = Inr w'" "world_ok w" "i < psize w"
  shows "m_GameState w' = message_state l i w"
proof (cases "m_RevciveUID (cl w i)")
  case True
  have len: "psize w = length (data_array (m_ClientPool w))" using world_ok_pool_length [OF assms(3)] by simp
  obtain cmd b where cmd: "rd_byte l (rbuf (cl w i)) (jk_byte l) = (cmd, b)" by force
  let ?w1 = "upd_client i (\<lambda>c. c\<lparr>rbuf := b\<rparr>) w"
  have w1: "world_ok ?w1" using assms(3) by (rule world_ok_upd) simp_all
  have e: "IsValid (cl ?w1 j) = IsValid (cl w j)" "m_RoadCheckerTag (cl ?w1 j) = m_RoadCheckerTag (cl w j)"
    "m_MapLoaded (cl ?w1 j) = m_MapLoaded (cl w j)" "rbuf (cl ?w1 i) = b"
    "m_RoadCheckerManager ?w1 = m_RoadCheckerManager w" "psize ?w1 = psize w" for j
    using assms(4) len by (simp_all add: cl_upd_any IsValid_def)
  have c: "valid_clients ?w1 = valid_clients w" "ends_lap l i x ?w1 = ends_lap l i x w" for x
    unfolding valid_clients_def ends_lap_def e by (rule refl)+
  have len1: "psize ?w1 = length (data_array (m_ClientPool ?w1))" "i < psize ?w1" using len assms(4) by simp_all
  note laws = OnPlayerMove_state [OF w1 len1(2)] OnClientMapLoaded_state [OF len1(2,1)]
    disconnecting.OnRequestSelectMap_ok [OF assms(1) _ w1] OnPlayerGetDropItem_state [of l i ?w1]
    calmD(2) [OF OnBroadcastAvatarData_calm [of ?w1 l i]]
    OnClientCommitSocre_state [of i ?w1]
  have load: "m_GameState (OnRequestLoadMap l i ?w1)
      = (if m_GameState w \<in> {GNone, Wait, Load} then Load else m_GameState w)"
    unfolding OnRequestLoadMap_state by (cases "m_GameState w") (simp_all add: less_game_state_def)
  have "OnClientMessage l i w = Inr w'" using assms(2) True by (simp add: OnMessage_def)
  then show ?thesis
    unfolding OnClientMessage_def cmd Let_def prod.case message_state_def
    using laws load True
    by (auto simp: c e CM_defs OnPlayerStopGame_def split: if_split_asm)
next
  case False
  then show ?thesis using assms(2) by (auto simp: OnMessage_def message_state_def split: prod.splits)
qed

text \<open>
  C3: the state machine of a race: after every input that is handled without a fault the game is
  in exactly the state \<open>next_state\<close> names, which depends on what the input is. A client's first
  message and a new connection leave it where it is. Of the other messages, by their first byte:
  stop (8) leads to Wait from any state; a load request (1) to Load, but not once the race is shown;
  loaded (2) from Load to Show, as soon as every valid client has loaded the map; a move (3) from Play
  to Balance when it ends a lap; a score (7) from Balance to SyncScore; every other message
  leaves the state alone. A lost valid client leads to Wait when no other player is left. A tick
  leads from Show to Play when the show is over, from Play (or from Show, in the same tick) to
  Balance when the total time is over, and from SyncScore to Wait when the balance time is over
  too. It holds for a library that closes connections at once and for one that closes them later.
\<close>

theorem game_moves:
  assumes "l = deferred l0 \<or> l = synchronous l0" "reset_ok l0" "world_ok w" "slot_input x w"
    and "run_input l x w = Inr w'"
  shows "m_GameState w' = next_state l x w"
proof -
  have d: "disconnecting l" by (rule library_disconnecting [OF assms(1)])
  have r: "reset_ok l" using assms(1,2) by auto
  show ?thesis
    using assms(4,5) OnConnected_ok [OF r _ assms(3)] OnMessage_state [OF d _ assms(3)]
      OnDisconnected_state [OF d _ assms(3)] disconnecting.Update_ok(2) [OF d _ assms(3)]
    by (cases x) (simp_all add: slot_input_def next_state_def)
qed

theorem game_moves_witness:
  "\<exists>v w'. run_input demo_lib (InMessage 0) (with_message 0 [1, 1, 65] (demo Wait)) = Inr v \<and> m_GameState v = Load
     \<and> run_input demo_lib (InMessage 1) (with_message 1 [8] (demo Play)) = Inr w' \<and> m_GameState w' = Wait"
proof -
  let ?v = "run_input demo_lib (InMessage 0) (with_message 0 [1, 1, 65] (demo Wait))"
  let ?w = "run_input demo_lib (InMessage 1) (with_message 1 [8] (demo Play))"
  have n: "next_state demo_lib (InMessage 0) (with_message 0 [1, 1, 65] (demo Wait)) = Load"
    "next_state demo_lib (InMessage 1) (with_message 1 [8] (demo Play)) = Wait"
    "slot_input (InMessage 0) (with_message 0 [1, 1, 65] (demo Wait))"
    "slot_input (InMessage 1) (with_message 1 [8] (demo Play))"
    by code_simp+
  note t = game_moves [of demo_lib demo_lib, OF _ demo_lib_models(2) with_message_ok [OF demo_ok]]
  have "case ?v of Inl e \<Rightarrow> False | Inr r \<Rightarrow> True" "case ?w of Inl e \<Rightarrow> False | Inr r \<Rightarrow> True" by code_simp+
  then obtain v w where vw: "?v = Inr v" "?w = Inr w" by (auto split: sum.splits)
  show ?thesis using t [OF _ n(3) vw(1)] t [OF _ n(4) vw(2)] demo_lib_models(1) n vw by auto
qed

text \<open>
  C11: a race without check points does not survive the first move: with a valid client to tell,
  a position more than ten away from the last one is answered with a percentage of the lap,
  which is an integer division by the number of check points.
\<close>

theorem move_divides_by_zero:
  assumes "m_CheckerPointCount (gConfig w) = 0" "world_ok w" "i < psize w" "IsValid (cl w i)"
    and "read_move l (rbuf (cl w i)) = (Some pos, b)"
    and "f32_of_int 10 < Length (vec3_sub pos (m_CheckerPosition (cl w i)))"
  shows "OnPlayerMove l i w = Inl DivByZero"
proof -
  let ?v = "upd_client i (\<lambda>c. c\<lparr>m_Position := pos\<rparr>) (upd_client i (\<lambda>c. c\<lparr>rbuf := b\<rparr>) w)"
  have i: "i < length (data_array (m_ClientPool w))" using assms(2,3) world_ok_pool_length by simp
  have pos: "m_CheckerPosition (cl ?v i) = m_CheckerPosition (cl w i)" using i by (simp add: cl_upd_any)
  have "foldE (dir_message i ok d) [0..<psize u] u = Inl DivByZero"
    if "gConfig u = gConfig w" "psize u = psize w" "IsValid (cl u i)" for ok d u
  proof -
    have stop: "foldE (dir_message i ok d) is u = Inl DivByZero" if "i \<in> set is" for "is"
      using that
    proof (induction "is")
      case (Cons a "is")
      have "dir_message i ok d a u = (if IsValid (cl u a) then Inl DivByZero else Inr u)"
        using \<open>gConfig u = gConfig w\<close> assms(1) by (simp add: dir_message_def lap_percent_zero)
      with Cons \<open>IsValid (cl u i)\<close> show ?case by auto
    qed simp
    show ?thesis by (rule stop) (use assms(3) that(2) in simp)
  qed
  then have "check_direction l i pos ?v = Inl DivByZero"
    using i assms(4,6) pos by (simp add: check_direction_def Let_def cl_upd_any IsValid_def split: prod.splits)
  then show ?thesis using assms(5) by (simp add: OnPlayerMove_def Let_def)
qed

definition no_road :: world where
  "no_road = with_message 0 [8, 0, 20, 0, 0] ((demo Play)\<lparr>gConfig := demo_config\<lparr>m_CheckerPointCount := 0\<rparr>\<rparr>)"

lemma no_road_ok: "world_ok no_road"
  unfolding no_road_def
  by (rule with_message_ok)
    (use demo_ok [of Play] in \<open>simp add: world_ok_def cfg_ok_def cfg_shape_def demo_def\<close>)

theorem move_divides_by_zero_witness: "OnPlayerMove demo_lib 0 no_road = Inl DivByZero"
proof (rule move_divides_by_zero [OF _ no_road_ok])
  show "read_move demo_lib (rbuf (cl no_road 0)) = (Some (vec3_of (f32_of_int 20) 0 0), [])" by code_simp
qed code_simp+

end
