(* ===== verification/Server.thy ===== *)
theory Server
  imports GameEnd
begin

text \<open>
  The connection side of the server, \<^verbatim>\<open>server.cpp\<close>: accepting datagram and stream clients, routing
  datagrams by the sender's identifier, the keep-alive clock, and \<open>ServerUpdate\<close>, which drives the
  game and drops the datagram clients that have fallen silent.
\<close>

section \<open>Code\<close>

text \<open>A datagram of the transport: who sent it and what it holds.\<close>

record packet =
  pk_guid :: u64
  pk_data :: bytes

text \<open>
  What the connection classes do is the library's: \<open>UdpConnection::Disconnect\<close>,
  \<open>InitServerSocket\<close>, \<open>InitSocket\<close>, \<open>OnRevcMessage\<close> on a connection whose \<open>m_MessagePacket\<close> was set,
  and \<open>CloseConnection\<close> of the listening socket.
\<close>

record 'w srvlib =
  udp_disconnect :: "nat \<Rightarrow> 'w \<Rightarrow> 'w res"
  udp_init_socket :: "nat \<Rightarrow> packet \<Rightarrow> 'w \<Rightarrow> 'w res"
  tcp_init_socket :: "nat \<Rightarrow> 'w \<Rightarrow> 'w res"
  udp_receive :: "nat \<Rightarrow> packet \<Rightarrow> 'w \<Rightarrow> 'w res"
  udp_close :: "packet \<Rightarrow> 'w \<Rightarrow> 'w res"

type_synonym slib = "world srvlib"

definition UDP_SOCKET :: u8 where "UDP_SOCKET = 2"
definition TCP_SOCKET :: u8 where "TCP_SOCKET = 1"

text \<open>
  \<open>m_UdpClientMap\<close> is a list of pairs without duplicate keys, in the order in which the hash map
  is iterated over; \<open>insert\<close> leaves an existing key as it is.
\<close>

definition map_insert :: "u64 \<Rightarrow> nat option \<Rightarrow> (u64 \<times> nat option) list \<Rightarrow> (u64 \<times> nat option) list" where
  "map_insert g v m = (if map_of m g = None then m @ [(g, v)] else m)"

definition map_erase :: "u64 \<Rightarrow> (u64 \<times> nat option) list \<Rightarrow> (u64 \<times> nat option) list" where
  "map_erase g m = filter (\<lambda>e. fst e \<noteq> g) m"

definition set_udp_map :: "((u64 \<times> nat option) list \<Rightarrow> (u64 \<times> nat option) list) \<Rightarrow> world \<Rightarrow> world" where
  "set_udp_map f w = w\<lparr>m_UdpClientMap := f (m_UdpClientMap w)\<rparr>"

definition OnUdpAccept :: "lib \<Rightarrow> slib \<Rightarrow> packet \<Rightarrow> world \<Rightarrow> world res" where
  "OnUdpAccept l n p w =
     (let (client, pool) = Allocate (main_thread l) (m_ClientPool w);
          w1 = w\<lparr>m_ClientPool := pool\<rparr>
      in case client of
           None \<Rightarrow> Inr w1
         | Some i \<Rightarrow>
             let w2 = upd_client i (\<lambda>c. c\<lparr>connection := Some UdpSock, udp_stream := True,
                        m_UdpGUID := pk_guid p, m_Heart := 0, m_ConnectionType := UDP_SOCKET\<rparr>) w1;
                 w3 = set_udp_map (map_insert (pk_guid p) (Some i)) w2
             in udp_init_socket n i p w3)"

definition OnUdpClientMessage :: "slib \<Rightarrow> packet \<Rightarrow> world \<Rightarrow> world res" where
  "OnUdpClientMessage n p w =
     (case map_of (m_UdpClientMap w) (pk_guid p) of
        Some (Some i) \<Rightarrow> udp_receive n i p (upd_client i (\<lambda>c. c\<lparr>m_Heart := 0\<rparr>) w)
      | _ \<Rightarrow> Inr w)"

definition OnUdpClientDisconnected :: "slib \<Rightarrow> packet \<Rightarrow> world \<Rightarrow> world res" where
  "OnUdpClientDisconnected n p w =
     (case map_of (m_UdpClientMap w) (pk_guid p) of
        None \<Rightarrow> Inr w
      | Some (Some i) \<Rightarrow> udp_disconnect n i w
      | Some None \<Rightarrow> udp_close n p (set_udp_map (map_erase (pk_guid p)) w))"

definition OnKeepAlive :: "packet \<Rightarrow> world \<Rightarrow> world" where
  "OnKeepAlive p w =
     (case map_of (m_UdpClientMap w) (pk_guid p) of
        Some (Some i) \<Rightarrow> upd_client i (\<lambda>c. c\<lparr>m_Heart := 0\<rparr>) w
      | _ \<Rightarrow> w)"

definition OnTcpAccept :: "lib \<Rightarrow> slib \<Rightarrow> world \<Rightarrow> world res" where
  "OnTcpAccept l n w =
     (let (client, pool) = Allocate (main_thread l) (m_ClientPool w);
          w1 = w\<lparr>m_ClientPool := pool\<rparr>
      in case client of
           None \<Rightarrow> Inr w1
         | Some i \<Rightarrow> tcp_init_socket n i (upd_client i (\<lambda>c. c\<lparr>connection := Some TcpSock,
                       m_ConnectionType := TCP_SOCKET, tcp_stream := True\<rparr>) w1))"

text \<open>
  One turn of the loop of \<open>ServerUpdate\<close>, for one entry of the map. The loop runs over the entries
  there were when it began: the call backs of \<open>Disconnect\<close> do not touch the map.
\<close>

definition heart_beat :: "slib \<Rightarrow> f32 \<Rightarrow> u64 \<times> nat option \<Rightarrow> world \<Rightarrow> world res" where
  "heart_beat n t e w =
     (case snd e of
        None \<Rightarrow> Inr (set_udp_map (map_erase (fst e)) w)
      | Some i \<Rightarrow>
          let w1 = upd_client i (\<lambda>c. c\<lparr>m_Heart := m_Heart c + t\<rparr>) w
          in if f32_of_int (m_HeartTime w1) < m_Heart (cl w1 i)
             then rbind (udp_disconnect n i w1) (\<lambda>w2. Inr (set_udp_map (map_erase (fst e)) w2))
             else Inr w1)"

text \<open>
  \<open>gServer.Update()\<close> is \<open>UdpListener::Update\<close>, the pump of the datagram transport: it calls back the
  server for every packet that has arrived. Which packets those are is the transport's: they are
  an argument of \<open>ServerUpdate\<close>, in the order of their delivery.
\<close>

datatype delivery = Accept packet | Datagram packet | Closed packet | KeepAlive packet

fun deliver :: "lib \<Rightarrow> slib \<Rightarrow> delivery \<Rightarrow> world \<Rightarrow> world res" where
  "deliver l n (Accept p) w = OnUdpAccept l n p w"
| "deliver l n (Datagram p) w = OnUdpClientMessage n p w"
| "deliver l n (Closed p) w = OnUdpClientDisconnected n p w"
| "deliver l n (KeepAlive p) w = Inr (OnKeepAlive p w)"

definition ServerUpdate :: "lib \<Rightarrow> slib \<Rightarrow> delivery list \<Rightarrow> f32 \<Rightarrow> world \<Rightarrow> world res" where
  "ServerUpdate l n ds t w =
     rbind (Update l t w) (\<lambda>w1. rbind (foldE (deliver l n) ds w1) (\<lambda>w2.
     foldE (heart_beat n t) (m_UdpClientMap w2) w2))"

section \<open>What the game leaves alone\<close>

text \<open>The game never touches the map of datagram clients, and the pool keeps its size.\<close>

definition same_net :: "world \<Rightarrow> world \<Rightarrow> bool" where
  "same_net w w' = (psize w' = psize w \<and> m_UdpClientMap w' = m_UdpClientMap w \<and> m_HeartTime w' = m_HeartTime w)"

lemma same_net_refl [simp]: "same_net w w"
  by (simp add: same_net_def)

lemma same_net_trans: "same_net u v \<Longrightarrow> same_net v w \<Longrightarrow> same_net u w"
  by (simp add: same_net_def)

lemma keeps_same_net: "keeps w w' \<Longrightarrow> same_net w w'"
  using keepsD [of w w'] by (simp add: same_net_def)

lemma calm_same_net: "calm w w' \<Longrightarrow> same_net w w'"
  using calmD(1) keeps_same_net by blast

lemma same_net_upd [simp]: "same_net w (upd_client i f w)"
  by (simp add: same_net_def)

lemma release_same_net: "same_net w (release l i w)"
  by (simp add: same_net_def release_def psize_def Size_def Free_frame)

locale net_disconnecting = disconnecting +
  assumes disconnect_net: "m_GameState w = Wait \<Longrightarrow> nl_disconnect l i w = Inr w' \<Longrightarrow> same_net w w'"

interpretation deferred: net_disconnecting "deferred l" for l
  by unfold_locales (auto simp: deferred_def same_net_def)

interpretation synchronous: net_disconnecting "synchronous l" for l
  by unfold_locales (auto simp: synchronous_def OnDisconnected_waiting release_same_net)

context net_disconnecting
begin

lemma EndGame_net:
  assumes "EndGame l w = Inr w'" "world_ok w"
  shows "same_net w w'"
proof (cases "m_GameState w = Wait")
  case True
  then show ?thesis using assms by (simp add: EndGame_def)
next
  case False
  then have run: "foldE (disconnect_valid l) [0..<psize w] (ClearData w) = Inr w'"
    using assms(1) by (simp add: EndGame_def)
  have step: "(world_ok v \<and> m_GameState v = Wait) \<and> same_net w v"
    if "disconnect_valid l x u = Inr v" "(world_ok u \<and> m_GameState u = Wait) \<and> same_net w u" for x u v
  proof (cases "IsValid (cl u x)")
    case True
    then have "nl_disconnect l x u = Inr v" using that(1) by (simp add: disconnect_valid_def)
    then show ?thesis
      using disconnect_ok [of u x v] disconnect_net [of u x v] same_net_trans [of w u v] that(2) by blast
  qed (use that in \<open>simp add: disconnect_valid_def\<close>)
  have "(world_ok w' \<and> m_GameState w' = Wait) \<and> same_net w w'"
  proof (rule foldE_invariant [OF run])
    show "(world_ok (ClearData w) \<and> m_GameState (ClearData w) = Wait) \<and> same_net w (ClearData w)"
      using ClearData_ok [OF assms(2)] by (simp add: ClearData_def same_net_def)
  qed (rule step)
  then show ?thesis by simp
qed

lemma OnClientMessage_net:
  assumes "OnClientMessage l i w = Inr w'" "world_ok w"
  shows "same_net w w'"
proof -
  obtain cmd b where cmd: "rd_byte l (rbuf (cl w i)) (jk_byte l) = (cmd, b)" by force
  let ?w1 = "upd_client i (\<lambda>c. c\<lparr>rbuf := b\<rparr>) w"
  consider "w' = upd_client i (\<lambda>c. c\<lparr>m_IsObClient := True\<rparr>) ?w1" | "w' = OnBroadcastAvatarData l i ?w1"
    | "OnRequestSelectMap l i ?w1 = Inr w'" | "OnPlayerMove l i ?w1 = Inr w'"
    | "w' = OnRequestLoadMap l i ?w1" | "OnClientMapLoaded i ?w1 = Inr w'"
    | "w' = OnClientCommitSocre i ?w1" | "w' = ClearData ?w1"
    | "OnPlayerGetDropItem l i ?w1 = Inr w'" | "w' = ?w1"
    using OnClientMessage_cases [OF assms(1) cmd] by blast
  then have "same_net ?w1 w'"
  proof cases
    case 2
    then show ?thesis using OnBroadcastAvatarData_calm calm_same_net by blast
  next
    case 3
    have "same_net ?w1 (broadcast msg (?w1\<lparr>m_MapDataLen := k, m_MapData := d\<rparr>))" for msg k d
      by (rule keeps_same_net) (simp add: keeps_broadcast_then)
    with 3 show ?thesis
      using disconnect_net [of ?w1 i w']
      by (auto simp: OnRequestSelectMap_def Let_def split: if_splits)
  next
    case 4
    then obtain u v where "calm ?w1 u" "v = u \<or> BalanceGame u = Inr v" "calm v w'"
      by (rule OnPlayerMove_cases)
    then show ?thesis using BalanceGame_keeps keeps_same_net calm_same_net same_net_trans by metis
  next
    case 5
    then show ?thesis using OnRequestLoadMap_keeps keeps_same_net by blast
  next
    case 6
    then obtain u where "calm ?w1 u" "w' = u \<or> StartGame u = Inr w'" by (rule OnClientMapLoaded_cases)
    then show ?thesis using StartGame_cases keeps_same_net calm_same_net same_net_trans by metis
  next
    case 7
    then show ?thesis using OnClientCommitSocre_keeps keeps_same_net by blast
  next
    case 9
    then show ?thesis using OnPlayerGetDropItem_keeps keeps_same_net by blast
  next
    case 8
    then show ?thesis by (simp add: same_net_def ClearData_def psize_def)
  qed (simp_all add: same_net_def)
  then show ?thesis by (simp add: same_net_def)
qed

lemma OnMessage_net:
  assumes "OnMessage l i w = Inr w'" "world_ok w"
  shows "same_net w w'"
  using OnClientMessage_net [of i w w'] assms by (auto simp: OnMessage_def split: if_splits)

lemma OnDisconnected_net:
  assumes "OnDisconnected l i w = Inr w'" "world_ok w"
  shows "same_net w w'"
proof -
  from assms(1) obtain u where u: "(if IsValid (cl w i) then OnClientDisconnect l i w else Inr w) = Inr u"
    and w': "w' = release l i u"
    by (auto simp: OnDisconnected_release)
  then have "same_net w u"
    using EndGame_net [of w u] assms(2) by (auto simp: OnClientDisconnect_def split: if_splits)
  then show ?thesis unfolding w' using release_same_net same_net_trans by blast
qed

lemma Update_net:
  assumes "Update l t w = Inr w'" "world_ok w"
  shows "same_net w w'"
proof -
  from assms(1) obtain u v where u: "watchdog t w = Inr u" and v: "wait_states l t u = Inr v"
    and w': "play_step l t v = Inr w'"
    by (auto simp: Update_def)
  have 1: "same_net w u" "world_ok u"
    using u watchdog_ok [OF u assms(2)] by (auto simp: watchdog_def Let_def same_net_def psize_def split: if_splits)
  have 2: "same_net u v"
  proof (cases "EndGame l (u\<lparr>m_GameRunTime := m_GameRunTime u + t\<rparr>) = Inr v")
    case True
    then show ?thesis using EndGame_net [OF True] 1(2) by (simp add: same_net_def)
  next
    case False
    then show ?thesis using v by (auto simp: wait_states_def Let_def same_net_def split: if_splits)
  qed
  have "same_net v w'"
  proof (cases "m_GameState v = Play")
    case True
    with w' obtain w2 w3 where 2: "sync_if_due l (v\<lparr>m_GameRunTime := m_GameRunTime v + t\<rparr>) = Inr w2"
      and 3: "balance_if_over w2 = Inr w3" and 4: "update_drops l t w3 = Inr w'"
      by (auto simp: play_step_def)
    have "same_net v w2"
      using 2 SyncGameTime_calm calm_same_net [of _ w2]
      by (fastforce simp: sync_if_due_def same_net_def split: if_splits)
    moreover have "same_net w2 w3"
      using 3 BalanceGame_keeps keeps_same_net by (auto simp: balance_if_over_def split: if_splits)
    moreover obtain m x where "calm w3 x" "w' = x\<lparr>m_DropManager := m\<rparr>"
      using update_drops_shape [OF 4] by blast
    then have "same_net w3 w'" using calm_same_net by (fastforce simp: same_net_def)
    ultimately show ?thesis using same_net_trans by blast
  qed (use w' in \<open>simp add: play_step_def\<close>)
  with 1(1) 2 show ?thesis using same_net_trans by blast
qed

end

section \<open>The interface to the transport\<close>

text \<open>
  What the server needs of the connection classes: their call backs leave the state well formed
  and the map of datagram clients alone.
\<close>

locale transport = net_disconnecting +
  fixes n :: slib
  assumes udp_disconnect: "world_ok w \<Longrightarrow> udp_disconnect n i w = Inr w' \<Longrightarrow> world_ok w' \<and> same_net w w'"
    and udp_init: "world_ok w \<Longrightarrow> udp_init_socket n i p w = Inr w' \<Longrightarrow> world_ok w' \<and> same_net w w'"
    and tcp_init: "world_ok w \<Longrightarrow> tcp_init_socket n i w = Inr w' \<Longrightarrow> world_ok w' \<and> same_net w w'"
    and udp_receive: "world_ok w \<Longrightarrow> udp_receive n i p w = Inr w' \<Longrightarrow> world_ok w' \<and> same_net w w'"
    and udp_close: "world_ok w \<Longrightarrow> udp_close n p w = Inr w' \<Longrightarrow> world_ok w' \<and> same_net w w'"

text \<open>
  Two transports over the model's own handlers: one whose connections call back at once, and one
  that only notes the request to close a connection. \<open>Reset\<close> empties the buffers of a client.
\<close>

definition plain_reset :: "lib \<Rightarrow> lib" where
  "plain_reset l = l\<lparr>nl_reset := \<lambda>i. upd_client i (\<lambda>c. c\<lparr>rbuf := []\<rparr>)\<rparr>"

definition receive :: "lib \<Rightarrow> nat \<Rightarrow> bytes \<Rightarrow> world \<Rightarrow> world res" where
  "receive l i b w = OnMessage l i (upd_client i (\<lambda>c. c\<lparr>rbuf := b\<rparr>) w)"

definition direct :: "lib \<Rightarrow> slib" where
  "direct l = \<lparr>udp_disconnect = OnDisconnected l, udp_init_socket = (\<lambda>i p. OnConnected l i),
     tcp_init_socket = OnConnected l, udp_receive = (\<lambda>i p. receive l i (pk_data p)),
     udp_close = (\<lambda>p. Inr)\<rparr>"

definition queued :: "lib \<Rightarrow> slib" where
  "queued l = (direct l)\<lparr>udp_disconnect := \<lambda>i w. Inr (emit (Disconnecting i) w)\<rparr>"

lemma plain_reset_ok [simp]: "reset_ok (plain_reset l)"
  by (simp add: reset_ok_def plain_reset_def calm_upd)

context net_disconnecting
begin

lemma OnDisconnected_callback:
  "world_ok w \<Longrightarrow> OnDisconnected l i w = Inr w' \<Longrightarrow> world_ok w' \<and> same_net w w'"
  using OnDisconnected_ok [of i w w'] OnDisconnected_net [of i w w'] by simp

lemma OnConnected_callback:
  "reset_ok l \<Longrightarrow> world_ok w \<Longrightarrow> OnConnected l i w = Inr w' \<Longrightarrow> world_ok w' \<and> same_net w w'"
  using OnConnected_calm calm_ok calm_same_net by blast

lemma receive_callback:
  assumes "world_ok w" "receive l i b w = Inr w'"
  shows "world_ok w' \<and> same_net w w'"
proof -
  let ?u = "upd_client i (\<lambda>c. c\<lparr>rbuf := b\<rparr>) w"
  have u: "world_ok ?u" using assms(1) by (rule world_ok_upd) simp_all
  have run: "OnMessage l i ?u = Inr w'" using assms(2) by (simp add: receive_def)
  have "world_ok w'"
  proof (cases "m_RevciveUID (cl ?u i)")
    case True
    then show ?thesis using OnClientMessage_ok [of i ?u w'] run u by (simp add: OnMessage_def)
  next
    case False
    then have w': "w' = upd_client i (\<lambda>c. c\<lparr>m_RevciveUID := True\<rparr>) ?u" using run by (simp add: OnMessage_def)
    show ?thesis unfolding w' using u by (rule world_ok_upd) simp_all
  qed
  then show ?thesis using OnMessage_net [OF run u] by (simp add: same_net_def)
qed

end

lemma unchanged_callback: "world_ok w \<Longrightarrow> Inr w = Inr w' \<Longrightarrow> world_ok w' \<and> same_net w w'"
  by auto

lemma emit_callback: "world_ok w \<Longrightarrow> Inr (emit e w) = Inr w' \<Longrightarrow> world_ok w' \<and> same_net w w'"
  by (auto simp: same_net_def)

interpretation direct: transport "synchronous (plain_reset l)" "direct (synchronous (plain_reset l))" for l
proof (unfold_locales, unfold direct_def srvlib.select_convs)
  have r: "reset_ok (synchronous (plain_reset l))" by simp
  note c = synchronous.OnConnected_callback [OF r] synchronous.OnDisconnected_callback
    synchronous.receive_callback unchanged_callback
  fix w w' i p assume w: "world_ok w"
  show "world_ok w' \<and> same_net w w'" if "OnDisconnected (synchronous (plain_reset l)) i w = Inr w'"
    using w that by (rule c)
  show "world_ok w' \<and> same_net w w'" if "OnConnected (synchronous (plain_reset l)) i w = Inr w'"
    using w that by (rule c)
  show "world_ok w' \<and> same_net w w'" if "OnConnected (synchronous (plain_reset l)) i w = Inr w'"
    using w that by (rule c)
  show "world_ok w' \<and> same_net w w'" if "receive (synchronous (plain_reset l)) i (pk_data p) w = Inr w'"
    using w that by (rule c)
  show "world_ok w' \<and> same_net w w'" if "Inr w = Inr w'" using w that by (rule unchanged_callback)
qed

interpretation queued: transport "deferred (plain_reset l)" "queued (deferred (plain_reset l))" for l
proof (unfold_locales, unfold queued_def direct_def srvlib.select_convs srvlib.update_convs)
  have r: "reset_ok (deferred (plain_reset l))" by simp
  note c = deferred.OnConnected_callback [OF r] deferred.receive_callback
  fix w w' i p assume w: "world_ok w"
  show "world_ok w' \<and> same_net w w'" if "Inr (emit (Disconnecting i) w) = Inr w'"
    using w that by (rule emit_callback)
  show "world_ok w' \<and> same_net w w'" if "OnConnected (deferred (plain_reset l)) i w = Inr w'"
    using w that by (rule c)
  show "world_ok w' \<and> same_net w w'" if "OnConnected (deferred (plain_reset l)) i w = Inr w'"
    using w that by (rule c)
  show "world_ok w' \<and> same_net w w'" if "receive (deferred (plain_reset l)) i (pk_data p) w = Inr w'"
    using w that by (rule c)
  show "world_ok w' \<and> same_net w w'" if "Inr w = Inr w'" using w that by (rule unchanged_callback)
qed

section \<open>The server keeps its state well formed\<close>

definition udp_map_ok :: "world \<Rightarrow> bool" where
  "udp_map_ok w =
     (distinct (map fst (m_UdpClientMap w)) \<and> (\<forall>e \<in> set (m_UdpClientMap w). \<exists>i < psize w. snd e = Some i))"

definition server_ok :: "world \<Rightarrow> bool" where
  "server_ok w = (world_ok w \<and> udp_map_ok w)"

lemma server_ok_same_net: "server_ok w \<Longrightarrow> world_ok w' \<Longrightarrow> same_net w w' \<Longrightarrow> server_ok w'"
  by (simp add: server_ok_def udp_map_ok_def same_net_def)

lemma world_ok_uid:
  assumes "world_ok w" "\<And>c. uid (f c) = uid c"
  shows "world_ok (upd_client i f w)"
proof -
  let ?p = "m_ClientPool w"
  have "map uid ((data_array ?p)[i := f (data_array ?p ! i)]) = map uid (data_array ?p)"
    by (cases "i < length (data_array ?p)")
      (simp_all add: map_update list_update_same_conv list_update_beyond assms(2))
  then show ?thesis
    using pool_ok_uids [OF world_okD(1) [OF assms(1)]] assms(1)
    by (simp add: world_ok_def upd_client_def cl_def)
qed

lemma world_ok_Allocate:
  assumes "world_ok w" "Allocate mt (m_ClientPool w) = (r, p)"
  shows "world_ok (w\<lparr>m_ClientPool := p\<rparr>)" "psize (w\<lparr>m_ClientPool := p\<rparr>) = psize w"
    "r = Some i \<Longrightarrow> i < psize w"
proof -
  have "pool_ok p" using pool_ok_Allocate [OF world_okD(1) [OF assms(1)], of mt] assms(2) by simp
  then show "world_ok (w\<lparr>m_ClientPool := p\<rparr>)" using assms(1) by (simp add: world_ok_def)
  show "psize (w\<lparr>m_ClientPool := p\<rparr>) = psize w"
    using Allocate_frame(1) [of mt "m_ClientPool w"] assms(2) by (simp add: psize_def Size_def)
  assume "r = Some i"
  then have "live p = insert i (live (m_ClientPool w)) \<and> cap p = cap (m_ClientPool w)"
    using op.alloc_Some [OF world_okD(1) [OF assms(1)], of mt i p] assms(2) by simp
  moreover have "live p \<subseteq> {..<cap p}" by (auto simp: live_def)
  ultimately show "i < psize w" by (auto simp: psize_def cap_def Size_def)
qed

lemma map_insert_ok:
  assumes "udp_map_ok w" "i < psize w"
  shows "udp_map_ok (set_udp_map (map_insert g (Some i)) w)"
  using assms by (auto simp: udp_map_ok_def set_udp_map_def map_insert_def map_of_eq_None_iff psize_def)

lemma map_erase_ok: "udp_map_ok w \<Longrightarrow> udp_map_ok (set_udp_map (map_erase g) w)"
  by (auto simp: udp_map_ok_def set_udp_map_def map_erase_def psize_def distinct_map inj_on_def)

lemma set_udp_map_world_ok [simp]: "world_ok (set_udp_map f w) = world_ok w"
  by (simp add: set_udp_map_def world_ok_def)

lemma server_ok_erase: "server_ok w \<Longrightarrow> server_ok (set_udp_map (map_erase g) w)"
  by (simp add: server_ok_def map_erase_ok)

lemma server_ok_upd:
  "server_ok w \<Longrightarrow> (\<And>c. uid (f c) = uid c) \<Longrightarrow> server_ok (upd_client i f w)"
  using server_ok_same_net [OF _ world_ok_uid same_net_upd] by (simp add: server_ok_def)

text \<open>What the transport, the clients and the clock may do to the server.\<close>

datatype server_event =
    Net delivery | TcpAccept | Stream nat bytes | StreamLost nat | Tick f32 "delivery list"

fun server_step :: "lib \<Rightarrow> slib \<Rightarrow> server_event \<Rightarrow> world \<Rightarrow> world res" where
  "server_step l n (Net d) w = deliver l n d w"
| "server_step l n TcpAccept w = OnTcpAccept l n w"
| "server_step l n (Stream i b) w = receive l i b w"
| "server_step l n (StreamLost i) w = OnDisconnected l i w"
| "server_step l n (Tick t ds) w = ServerUpdate l n ds t w"

context transport
begin

lemma OnUdpAccept_ok:
  assumes "OnUdpAccept l n p w = Inr w'" "server_ok w"
  shows "server_ok w'"
proof -
  obtain r q where a: "Allocate (main_thread l) (m_ClientPool w) = (r, q)" by force
  let ?w1 = "w\<lparr>m_ClientPool := q\<rparr>"
  have wok: "world_ok w" using assms(2) by (simp add: server_ok_def)
  note A = world_ok_Allocate [OF wok a]
  have 1: "server_ok ?w1" using server_ok_same_net [OF assms(2) A(1)] A(2) by (simp add: same_net_def)
  show ?thesis
  proof (cases r)
    case None
    with assms(1) a 1 show ?thesis by (simp add: OnUdpAccept_def)
  next
    case (Some i)
    let ?w2 = "upd_client i (\<lambda>c. c\<lparr>connection := Some UdpSock, udp_stream := True,
                        m_UdpGUID := pk_guid p, m_Heart := 0, m_ConnectionType := UDP_SOCKET\<rparr>) ?w1"
    let ?w3 = "set_udp_map (map_insert (pk_guid p) (Some i)) ?w2"
    have "server_ok ?w2" using 1 by (rule server_ok_upd) simp
    then have 3: "server_ok ?w3" using map_insert_ok [of ?w2 i "pk_guid p"] A(2,3) Some by (simp add: server_ok_def)
    have "udp_init_socket n i p ?w3 = Inr w'" using assms(1) a Some by (simp add: OnUdpAccept_def Let_def)
    then show ?thesis using udp_init [of ?w3 i p w'] server_ok_same_net [OF 3] 3 by (simp add: server_ok_def)
  qed
qed

lemma OnTcpAccept_ok:
  assumes "OnTcpAccept l n w = Inr w'" "server_ok w"
  shows "server_ok w'"
proof -
  obtain r q where a: "Allocate (main_thread l) (m_ClientPool w) = (r, q)" by force
  let ?w1 = "w\<lparr>m_ClientPool := q\<rparr>"
  have wok: "world_ok w" using assms(2) by (simp add: server_ok_def)
  note A = world_ok_Allocate [OF wok a]
  have 1: "server_ok ?w1" using server_ok_same_net [OF assms(2) A(1)] A(2) by (simp add: same_net_def)
  show ?thesis
  proof (cases r)
    case None
    with assms(1) a 1 show ?thesis by (simp add: OnTcpAccept_def)
  next
    case (Some i)
    let ?w2 = "upd_client i (\<lambda>c. c\<lparr>connection := Some TcpSock, m_ConnectionType := TCP_SOCKET,
                 tcp_stream := True\<rparr>) ?w1"
    have 2: "server_ok ?w2" using 1 by (rule server_ok_upd) simp
    have "tcp_init_socket n i ?w2 = Inr w'" using assms(1) a Some by (simp add: OnTcpAccept_def Let_def)
    then show ?thesis using tcp_init [of ?w2 i w'] server_ok_same_net [OF 2] 2 by (simp add: server_ok_def)
  qed
qed

lemma heart_beat_ok:
  assumes "heart_beat n t e w = Inr w'" "server_ok w"
  shows "server_ok w'"
proof (cases "snd e")
  case None
  then have "w' = set_udp_map (map_erase (fst e)) w" using assms(1) by (simp add: heart_beat_def)
  with server_ok_erase [OF assms(2)] show ?thesis by simp
next
  case (Some i)
  let ?w1 = "upd_client i (\<lambda>c. c\<lparr>m_Heart := m_Heart c + t\<rparr>) w"
  have 1: "server_ok ?w1" using assms(2) by (rule server_ok_upd) simp
  have "server_ok v" if "udp_disconnect n i ?w1 = Inr v" for v
    using udp_disconnect [OF _ that] server_ok_same_net [OF 1] 1 by (simp add: server_ok_def)
  with 1 Some assms(1) show ?thesis by (auto simp: heart_beat_def Let_def server_ok_erase split: if_splits)
qed

lemma deliver_ok:
  assumes "deliver l n d w = Inr w'" "server_ok w"
  shows "server_ok w'"
proof -
  have wok: "world_ok w" using assms(2) by (simp add: server_ok_def)
  note keep = server_ok_same_net [OF assms(2)]
  show ?thesis
  proof (cases d)
    case (Accept p)
    with OnUdpAccept_ok assms show ?thesis by simp
  next
    case (Datagram p)
    have "server_ok v" if "udp_receive n i p (upd_client i (\<lambda>c. c\<lparr>m_Heart := 0\<rparr>) w) = Inr v" for i v
    proof -
      have 1: "server_ok (upd_client i (\<lambda>c. c\<lparr>m_Heart := 0\<rparr>) w)" using assms(2) by (rule server_ok_upd) simp
      show ?thesis using udp_receive [OF _ that] server_ok_same_net [OF 1] 1 by (simp add: server_ok_def)
    qed
    with Datagram assms show ?thesis by (auto simp: OnUdpClientMessage_def split: option.splits)
  next
    case (Closed p)
    have "server_ok v" if "udp_disconnect n i w = Inr v" for i v
      using udp_disconnect [OF wok that] keep by simp
    moreover have "server_ok v" if "udp_close n p (set_udp_map (map_erase (pk_guid p)) w) = Inr v" for v
      using udp_close [OF _ that] server_ok_same_net [OF server_ok_erase [OF assms(2), of "pk_guid p"], of v] wok by simp
    ultimately show ?thesis using Closed assms by (auto simp: OnUdpClientDisconnected_def split: option.splits)
  next
    case (KeepAlive p)
    with assms show ?thesis by (auto simp: OnKeepAlive_def server_ok_upd split: option.splits)
  qed
qed

lemma server_step_ok:
  assumes "server_step l n x w = Inr w'" "server_ok w"
  shows "server_ok w'"
proof -
  have wok: "world_ok w" using assms(2) by (simp add: server_ok_def)
  note keep = server_ok_same_net [OF assms(2)]
  show ?thesis
  proof (cases x)
    case (Net d)
    with deliver_ok assms show ?thesis by simp
  next
    case TcpAccept
    with OnTcpAccept_ok assms show ?thesis by simp
  next
    case (Stream i b)
    with assms(1) have "receive l i b w = Inr w'" by simp
    from receive_callback [OF wok this] keep show ?thesis by simp
  next
    case (StreamLost i)
    with assms(1) have "OnDisconnected l i w = Inr w'" by simp
    from OnDisconnected_callback [OF wok this] keep show ?thesis by simp
  next
    case (Tick t ds)
    with assms(1) obtain w1 w2 where w1: "Update l t w = Inr w1" and w2: "foldE (deliver l n) ds w1 = Inr w2"
      and run: "foldE (heart_beat n t) (m_UdpClientMap w2) w2 = Inr w'"
      by (auto simp: ServerUpdate_def)
    have "server_ok w1" using Update_ok(1) [OF w1 wok] Update_net [OF w1 wok] keep by simp
    then have "server_ok w2" by (intro foldE_invariant [OF w2, of server_ok]) (use deliver_ok in blast)+
    then show ?thesis
      by (intro foldE_invariant [OF run, of server_ok]) (use heart_beat_ok in blast)+
  qed
qed

lemma server_run_ok:
  assumes "foldE (server_step l n) xs w = Inr w'" "server_ok w"
  shows "server_ok w'"
  by (rule foldE_invariant [OF assms(1), of server_ok]) (use assms(2) server_step_ok in blast)+

end

end
