(* ===== verification/ServerLaws.thy ===== *)
theory ServerLaws
  imports Server
begin

text \<open>
  The properties of the connection side: the state stays well formed under any sequence of
  transport events, an accepted datagram client gets a slot and a route of its own, silent
  clients are dropped by the keep-alive clock, and what a route that outlives its client does.
\<close>

section \<open>Invariant\<close>

text \<open>
  C2: whatever the transport delivers in whatever order, from accepted and lost clients of both
  kinds to datagrams of any content and the ticks of the clock, each of which delivers any
  datagrams, accepted and lost clients between the step of the game and the keep-alive loop,
  the server stays well formed: besides the pool, the configuration and the map buffer, the table
  of datagram clients has one entry for each identifier, and every entry leads to a slot of the
  pool. It holds for connection classes that call the program back at once when they are opened,
  closed or given a message, and for those that only queue the request to close.
\<close>

theorem server_invariant:
  assumes "(l = synchronous (plain_reset l0) \<and> n = direct l) \<or> (l = deferred (plain_reset l0) \<and> n = queued l)"
    and "server_ok w" "foldE (server_step l n) xs w = Inr w'"
  shows "server_ok w'"
  using assms(1)
proof (elim disjE conjE)
  assume l: "l = synchronous (plain_reset l0)" and n: "n = direct l"
  show ?thesis using direct.server_run_ok assms(2,3) unfolding n l by blast
next
  assume l: "l = deferred (plain_reset l0)" and n: "n = queued l"
  show ?thesis using queued.server_run_ok assms(2,3) unfolding n l by blast
qed

definition net_lib :: lib where
  "net_lib = synchronous (plain_reset demo_lib)"

lemma demo_server_ok: "server_ok (demo s)"
  using demo_ok by (simp add: server_ok_def udp_map_ok_def demo_def)

theorem server_invariant_witness:
  "\<exists>w'. foldE (server_step net_lib (direct net_lib))
      [Tick 1 [Accept \<lparr>pk_guid = 7, pk_data = []\<rparr>, Datagram \<lparr>pk_guid = 7, pk_data = [0]\<rparr>], Tick 1 []] (demo Wait) = Inr w'
    \<and> m_UdpClientMap w' = [(7, Some 2)] \<and> server_ok w'"
proof -
  let ?run = "foldE (server_step net_lib (direct net_lib))
      [Tick 1 [Accept \<lparr>pk_guid = 7, pk_data = []\<rparr>, Datagram \<lparr>pk_guid = 7, pk_data = [0]\<rparr>], Tick 1 []] (demo Wait)"
  have "case ?run of Inl e \<Rightarrow> False | Inr w' \<Rightarrow> m_UdpClientMap w' = [(7, Some 2)]" by code_simp
  then obtain w' where w': "?run = Inr w'" "m_UdpClientMap w' = [(7, Some 2)]" by (auto split: sum.splits)
  have "server_ok w'"
    by (rule server_invariant [OF _ demo_server_ok w'(1), of demo_lib]) (simp add: net_lib_def)
  with w' show ?thesis by blast
qed

section \<open>Accepting a datagram client\<close>

lemma Allocate_data: "data_array (snd (Allocate mt p)) = data_array p"
  by (auto simp: Allocate_def Let_def Lock_def Unlock_def split: option.splits)

lemma OnConnected_run:
  assumes "nl_reset l = (\<lambda>i. upd_client i (\<lambda>c. c\<lparr>rbuf := []\<rparr>))"
    and "i < length (data_array (m_ClientPool w))" "connection (cl w i) \<noteq> None"
  shows "\<exists>w'. OnConnected l i w = Inr w' \<and> m_UdpClientMap w' = m_UdpClientMap w
    \<and> live (m_ClientPool w') = live (m_ClientPool w) \<and> (\<forall>j. j \<noteq> i \<longrightarrow> cl w' j = cl w j)
    \<and> cl w' i = (cl w i)\<lparr>m_UserHeadImgUrl := [], m_UserName := [], m_UserOpenId := [], m_CarData := [],
         m_SetUserInfo := False, rbuf := [], m_RevciveUID := False, m_IsObClient := False\<rparr>
    \<and> m_GameState w' = m_GameState w \<and> outp w' = outp w @ [RawSend i (uid (cl w i))]"
  using assms(2,3)
  by (auto simp: OnConnected_def assms(1) Let_def cl_upd_any live_def cap_def split: option.splits)

text \<open>An accepted client before the call back of its connection.\<close>

lemma OnUdpAccept_cases:
  assumes "world_ok w"
  shows "if Count (m_ClientPool w) = Size (m_ClientPool w) then OnUdpAccept l n p w = Inr w
    else \<exists>i v. OnUdpAccept l n p w = udp_init_socket n i p v \<and> i < length (data_array (m_ClientPool v))
      \<and> i \<notin> live (m_ClientPool w) \<and> live (m_ClientPool v) = insert i (live (m_ClientPool w))
      \<and> fst (Allocate (main_thread l) (m_ClientPool w)) = Some i
      \<and> m_UdpClientMap v = map_insert (pk_guid p) (Some i) (m_UdpClientMap w)
      \<and> (\<forall>j. j \<noteq> i \<longrightarrow> cl v j = cl w j) \<and> outp v = outp w \<and> m_GameState v = m_GameState w
      \<and> cl v i = (cl w i)\<lparr>connection := Some UdpSock, udp_stream := True, m_UdpGUID := pk_guid p,
           m_Heart := 0, m_ConnectionType := UDP_SOCKET\<rparr>"
proof -
  let ?p = "m_ClientPool w"
  obtain r q where a: "Allocate (main_thread l) ?p = (r, q)" by force
  have full: "r = None \<longleftrightarrow> Count ?p = Size ?p"
    using allocate_fails_iff_full [OF world_okD(1) [OF assms], of "main_thread l"] a by simp
  show ?thesis
  proof (cases r)
    case None
    then have "q = ?p" using op.alloc_None [OF world_okD(1) [OF assms], of "main_thread l" q] a by simp
    with None full a show ?thesis by (simp add: OnUdpAccept_def)
  next
    case (Some i)
    let ?v = "set_udp_map (map_insert (pk_guid p) (Some i)) (upd_client i (\<lambda>c. c\<lparr>connection := Some UdpSock,
       udp_stream := True, m_UdpGUID := pk_guid p, m_Heart := 0, m_ConnectionType := UDP_SOCKET\<rparr>)
       (w\<lparr>m_ClientPool := q\<rparr>))"
    note A = op.alloc_Some [OF world_okD(1) [OF assms], of "main_thread l" i q]
    have d: "data_array q = data_array ?p" using Allocate_data [of "main_thread l" ?p] a by simp
    have i: "i < length (data_array q)"
      using world_ok_Allocate(3) [OF assms a Some] world_ok_pool_length [OF assms] d by simp
    have "OnUdpAccept l n p w = udp_init_socket n i p ?v" using a Some by (simp add: OnUdpAccept_def Let_def)
    moreover have "i \<notin> live ?p \<and> live (m_ClientPool ?v) = insert i (live ?p)"
    proof -
      have "live (m_ClientPool ?v) = live q" by (simp add: set_udp_map_def upd_client_def live_def cap_def)
      then show ?thesis using A a Some by simp
    qed
    moreover have "cl ?v j = (if j = i then (cl w i)\<lparr>connection := Some UdpSock, udp_stream := True,
        m_UdpGUID := pk_guid p, m_Heart := 0, m_ConnectionType := UDP_SOCKET\<rparr> else cl w j)" for j
      using i d by (simp add: set_udp_map_def upd_client_def cl_def)
    moreover have "i < length (data_array (m_ClientPool ?v))"
      "m_UdpClientMap ?v = map_insert (pk_guid p) (Some i) (m_UdpClientMap w)"
      "outp ?v = outp w" "m_GameState ?v = m_GameState w"
      using i by (simp_all add: set_udp_map_def upd_client_def)
    moreover have "fst (Allocate (main_thread l) ?p) = Some i" using a Some by simp
    ultimately show ?thesis using Some full by (intro if_not_P [THEN iffD2] exI [of _ i] exI [of _ ?v]) auto
  qed
qed

lemma accept_run:
  assumes "world_ok w" "map_of (m_UdpClientMap w) (pk_guid p) = None"
    and "fst (Allocate (main_thread l) (m_ClientPool w)) = Some i"
    and l: "l = synchronous (plain_reset l0)"
  shows "\<exists>w'. OnUdpAccept l (direct l) p w = Inr w' \<and> i \<notin> live (m_ClientPool w)
      \<and> live (m_ClientPool w') = insert i (live (m_ClientPool w))
      \<and> (\<forall>g. map_of (m_UdpClientMap w') g
              = (if g = pk_guid p then Some (Some i) else map_of (m_UdpClientMap w) g))
      \<and> m_UdpGUID (cl w' i) = pk_guid p \<and> \<not> IsValid (cl w' i) \<and> (\<forall>j. j \<noteq> i \<longrightarrow> cl w' j = cl w j)
      \<and> outp w' = outp w @ [RawSend i (uid (cl w i))]"
proof -
  have room: "Count (m_ClientPool w) \<noteq> Size (m_ClientPool w)"
    using allocate_fails_iff_full [OF world_okD(1) [OF assms(1)], of "main_thread l"] assms(3) by auto
  have reset: "nl_reset l = (\<lambda>i. upd_client i (\<lambda>c. c\<lparr>rbuf := []\<rparr>))"
    by (simp add: l synchronous_def plain_reset_def)
  obtain v where v: "OnUdpAccept l (direct l) p w = OnConnected l i v"
    "i < length (data_array (m_ClientPool v))" "i \<notin> live (m_ClientPool w)"
    "live (m_ClientPool v) = insert i (live (m_ClientPool w))"
    "m_UdpClientMap v = map_insert (pk_guid p) (Some i) (m_UdpClientMap w)"
    "\<forall>j. j \<noteq> i \<longrightarrow> cl v j = cl w j" "outp v = outp w"
    "cl v i = (cl w i)\<lparr>connection := Some UdpSock, udp_stream := True, m_UdpGUID := pk_guid p,
           m_Heart := 0, m_ConnectionType := UDP_SOCKET\<rparr>"
    using OnUdpAccept_cases [OF assms(1), of l "direct l" p] room assms(3) by (auto simp: direct_def)
  obtain w' where w': "OnConnected l i v = Inr w'" "m_UdpClientMap w' = m_UdpClientMap v"
    "live (m_ClientPool w') = live (m_ClientPool v)" "\<forall>j. j \<noteq> i \<longrightarrow> cl w' j = cl v j"
    "cl w' i = (cl v i)\<lparr>m_UserHeadImgUrl := [], m_UserName := [], m_UserOpenId := [], m_CarData := [],
         m_SetUserInfo := False, rbuf := [], m_RevciveUID := False, m_IsObClient := False\<rparr>"
    "outp w' = outp v @ [RawSend i (uid (cl v i))]"
    using OnConnected_run [OF reset v(2)] v(8) by auto
  have "map_of (m_UdpClientMap w') g
      = (if g = pk_guid p then Some (Some i) else map_of (m_UdpClientMap w) g)" for g
    using w'(2) v(5) assms(2) by (simp add: map_insert_def map_add_def split: option.splits)
  then show ?thesis using v w' by (intro exI [of _ w']) (simp add: IsValid_def)
qed

text \<open>
  a datagram client that is accepted gets a free slot and, when its identifier is new, a
  route to it: it is not yet valid, is sent its handle and nothing else, and every other client
  and every other route is as it was. When the pool is full nothing changes at all.
\<close>

lemma accept_routes:
  assumes "server_ok w" "map_of (m_UdpClientMap w) (pk_guid p) = None"
    and "l = synchronous (plain_reset l0)"
  shows "if Count (m_ClientPool w) = Size (m_ClientPool w) then OnUdpAccept l (direct l) p w = Inr w
    else \<exists>i w'. OnUdpAccept l (direct l) p w = Inr w' \<and> i \<notin> live (m_ClientPool w)
      \<and> live (m_ClientPool w') = insert i (live (m_ClientPool w))
      \<and> (\<forall>g. map_of (m_UdpClientMap w') g
              = (if g = pk_guid p then Some (Some i) else map_of (m_UdpClientMap w) g))
      \<and> m_UdpGUID (cl w' i) = pk_guid p \<and> \<not> IsValid (cl w' i) \<and> (\<forall>j. j \<noteq> i \<longrightarrow> cl w' j = cl w j)
      \<and> outp w' = outp w @ [RawSend i (uid (cl w i))]"
proof -
  have wok: "world_ok w" using assms(1) by (simp add: server_ok_def)
  show ?thesis
  proof (cases "fst (Allocate (main_thread l) (m_ClientPool w))")
    case None
    then show ?thesis
      using OnUdpAccept_cases [OF wok, of l "direct l" p]
        allocate_fails_iff_full [OF world_okD(1) [OF wok], of "main_thread l"] by simp
  next
    case (Some i)
    then show ?thesis
      using accept_run [OF wok assms(2) Some assms(3)]
        allocate_fails_iff_full [OF world_okD(1) [OF wok], of "main_thread l"] by auto
  qed
qed

section \<open>Routes that outlive their client\<close>

text \<open>
  C19: a lost datagram client keeps its route: when it is gone and another client, whose identifier
  is new, is accepted, the other one gets the same slot, both identifiers lead to it, and a
  datagram with the identifier of the one that is gone is handled as a message of the other. It
  is so whenever the loss does not end the game (the server waits, or the lost client was not
  valid, or another player is left) and the connection classes call back at once.
\<close>

theorem route_outlives_client:
  assumes "server_ok w" "m_GameState w = Wait \<or> \<not> IsValid (cl w j) \<or> \<not> set (players_of w) \<subseteq> {j}"
    and "map_of (m_UdpClientMap w) g = Some (Some j)" "j \<in> live (m_ClientPool w)" "map_of (m_UdpClientMap w) g' = None"
    and l: "l = synchronous (plain_reset l0)"
  shows "\<exists>w'. foldE (deliver l (direct l))
        [Closed \<lparr>pk_guid = g, pk_data = b\<rparr>, Accept \<lparr>pk_guid = g', pk_data = b'\<rparr>] w = Inr w'
    \<and> map_of (m_UdpClientMap w') g = Some (Some j) \<and> map_of (m_UdpClientMap w') g' = Some (Some j)
    \<and> m_UdpGUID (cl w' j) = g'
    \<and> OnUdpClientMessage (direct l) \<lparr>pk_guid = g, pk_data = d\<rparr> w'
        = receive l j d (upd_client j (\<lambda>c. c\<lparr>m_Heart := 0\<rparr>) w')"
proof -
  have wok: "world_ok w" using assms(1) by (simp add: server_ok_def)
  have "j < cap (m_ClientPool w)" using assms(4) by (simp add: live_def)
  then have j: "j < psize w" by (simp add: psize_def cap_def Size_def)
  let ?u = "release l j w"
  have closed: "deliver l (direct l) (Closed \<lparr>pk_guid = g, pk_data = b\<rparr>) w = Inr ?u"
    using OnDisconnected_plain [OF wok j assms(2), of l] assms(3)
    by (simp add: OnUdpClientDisconnected_def direct_def)
  have same: "same_net w ?u" by (rule release_same_net)
  have uok: "server_ok ?u" using server_ok_same_net [OF assms(1) release_ok [OF wok] same] .
  have uw: "world_ok ?u" using uok by (simp add: server_ok_def)
  have free: "fst (Allocate (main_thread l) (m_ClientPool ?u)) = Some j"
  proof -
    let ?f = "Free (main_thread l) (handle_at (m_ClientPool w) j) (m_ClientPool w)"
    have "fst (Allocate (main_thread l) ?f) = Some j"
      by (rule op.reuse_latest [OF world_okD(1) [OF wok] assms(4)])
    moreover have "m_ClientPool ?u = ?f\<lparr>data_array := data_array (m_ClientPool ?u)\<rparr>"
      by (simp add: release_def upd_client_def handle_at_def cl_def)
    moreover have "fst (Allocate mt (p\<lparr>data_array := x\<rparr>)) = fst (Allocate mt p)" for mt x and p :: "client pool"
      by (cases "free_obj p") (simp_all add: Allocate_def Lock_def)
    ultimately show ?thesis by metis
  qed
  have "map_of (m_UdpClientMap ?u) g' = None" using assms(5) same by (simp add: same_net_def)
  then obtain w' where w': "OnUdpAccept l (direct l) \<lparr>pk_guid = g', pk_data = b'\<rparr> ?u = Inr w'"
    "\<forall>k. map_of (m_UdpClientMap w') k = (if k = g' then Some (Some j) else map_of (m_UdpClientMap ?u) k)"
    "m_UdpGUID (cl w' j) = g'"
    using accept_run [OF uw _ free l, of "\<lparr>pk_guid = g', pk_data = b'\<rparr>"] by auto
  have "map_of (m_UdpClientMap ?u) g = Some (Some j)" using assms(3) same by (simp add: same_net_def)
  moreover have "g \<noteq> g'" using assms(3,5) by auto
  ultimately show ?thesis
    using closed w' by (intro exI [of _ w']) (simp add: OnUdpClientMessage_def direct_def)
qed

definition udp_demo :: world where
  "udp_demo = (demo Wait)\<lparr>m_UdpClientMap := [(7, Some 1)]\<rparr>"

lemma udp_demo_ok: "server_ok udp_demo"
  using demo_ok [of Wait] demo_valid(1) [of Wait]
  by (simp add: server_ok_def udp_map_ok_def udp_demo_def world_ok_def psize_def)

theorem route_outlives_client_witness:
  "\<exists>w'. foldE (deliver net_lib (direct net_lib))
        [Closed \<lparr>pk_guid = 7, pk_data = []\<rparr>, Accept \<lparr>pk_guid = 9, pk_data = []\<rparr>] udp_demo = Inr w'
    \<and> map_of (m_UdpClientMap w') 7 = Some (Some 1) \<and> map_of (m_UdpClientMap w') 9 = Some (Some 1)"
proof -
  have "m_GameState udp_demo = Wait" "map_of (m_UdpClientMap udp_demo) 7 = Some (Some 1)"
    "map_of (m_UdpClientMap udp_demo) 9 = None"
    by code_simp+
  moreover have "1 \<in> live (m_ClientPool udp_demo)"
    by (simp add: udp_demo_def live_def demo_pool_def cap_def)
  ultimately show ?thesis
    using route_outlives_client [OF udp_demo_ok, of 1 7 9 net_lib demo_lib "[]" "[]" "[]"]
    unfolding net_lib_def by blast
qed

section \<open>The keep-alive clock\<close>

text \<open>The client of an entry has been silent for too long.\<close>

definition silent :: "world \<Rightarrow> f32 \<Rightarrow> u64 \<times> nat option \<Rightarrow> bool" where
  "silent w t e = (f32_of_int (m_HeartTime w) < m_Heart (cl w (the (snd e))) + t)"

lemma set_udp_map_sel [simp]:
  "cl (set_udp_map f w) = cl w" "m_HeartTime (set_udp_map f w) = m_HeartTime w"
  "m_ClientPool (set_udp_map f w) = m_ClientPool w" "outp (set_udp_map f w) = outp w"
  "m_UdpClientMap (set_udp_map f w) = f (m_UdpClientMap w)"
  by (simp_all add: set_udp_map_def cl_def fun_eq_iff)

lemma heart_beat_queued:
  assumes "snd e = Some i" "i < length (data_array (m_ClientPool w))"
  shows "\<exists>w'. heart_beat (queued l) t e w = Inr w' \<and> m_HeartTime w' = m_HeartTime w
      \<and> length (data_array (m_ClientPool w')) = length (data_array (m_ClientPool w))
      \<and> (\<forall>j. cl w' j = (if j = i then (cl w i)\<lparr>m_Heart := m_Heart (cl w i) + t\<rparr> else cl w j))
      \<and> m_UdpClientMap w' = (if silent w t e then map_erase (fst e) (m_UdpClientMap w) else m_UdpClientMap w)
      \<and> outp w' = outp w @ (if silent w t e then [Disconnecting i] else [])"
  using assms
  by (simp add: heart_beat_def silent_def queued_def Let_def cl_upd)

lemma heart_beats_queued:
  assumes "\<forall>e \<in> set es. \<exists>i < length (data_array (m_ClientPool w)). snd e = Some i" "distinct (map snd es)"
  shows "\<exists>w'. foldE (heart_beat (queued l) t) es w = Inr w'
      \<and> (\<forall>j. cl w' j = (if Some j \<in> snd ` set es then (cl w j)\<lparr>m_Heart := m_Heart (cl w j) + t\<rparr> else cl w j))
      \<and> m_UdpClientMap w' = filter (\<lambda>e. fst e \<notin> fst ` set (filter (silent w t) es)) (m_UdpClientMap w)
      \<and> outp w' = outp w @ map (\<lambda>e. Disconnecting (the (snd e))) (filter (silent w t) es)"
  using assms
proof (induction es arbitrary: w)
  case Nil
  then show ?case by simp
next
  case (Cons e es)
  then obtain i where i: "snd e = Some i" "i < length (data_array (m_ClientPool w))" by auto
  obtain u where u: "heart_beat (queued l) t e w = Inr u" "m_HeartTime u = m_HeartTime w"
    "length (data_array (m_ClientPool u)) = length (data_array (m_ClientPool w))"
    "\<forall>j. cl u j = (if j = i then (cl w i)\<lparr>m_Heart := m_Heart (cl w i) + t\<rparr> else cl w j)"
    "m_UdpClientMap u = (if silent w t e then map_erase (fst e) (m_UdpClientMap w) else m_UdpClientMap w)"
    "outp u = outp w @ (if silent w t e then [Disconnecting i] else [])"
    using heart_beat_queued [OF i, of l t] by blast
  have new: "Some i \<notin> snd ` set es" using Cons.prems(2) i(1) by simp
  have later: "silent u t x = silent w t x" if "x \<in> set es" for x
  proof -
    have "\<exists>k. snd x = Some k" using Cons.prems(1) that by auto
    then have "the (snd x) \<noteq> i" using new that by (metis image_eqI option.sel)
    then show ?thesis using u(2,4) by (simp add: silent_def)
  qed
  then have "filter (silent u t) es = filter (silent w t) es" by (intro filter_cong) simp_all
  moreover obtain w' where w': "foldE (heart_beat (queued l) t) es u = Inr w'"
    "\<forall>j. cl w' j = (if Some j \<in> snd ` set es then (cl u j)\<lparr>m_Heart := m_Heart (cl u j) + t\<rparr> else cl u j)"
    "m_UdpClientMap w' = filter (\<lambda>e. fst e \<notin> fst ` set (filter (silent u t) es)) (m_UdpClientMap u)"
    "outp w' = outp u @ map (\<lambda>e. Disconnecting (the (snd e))) (filter (silent u t) es)"
    using Cons.IH [of u] Cons.prems u(3) by auto
  ultimately show ?case
    using u i new by (intro exI [of _ w']) (auto simp: map_erase_def conj_commute)
qed

text \<open>The loop over a library that calls back at once: what closing a connection leaves alone.\<close>

definition closed_frame :: "world \<Rightarrow> world \<Rightarrow> bool" where
  "closed_frame w w' =
     (\<forall>j. m_Heart (cl w' j) = m_Heart (cl w j) \<and> (connection (cl w j) = None \<longrightarrow> connection (cl w' j) = None))"

lemma closed_frame_trans: "closed_frame u v \<Longrightarrow> closed_frame v w \<Longrightarrow> closed_frame u w"
  by (simp add: closed_frame_def)

lemma Free_heart:
  fixes p :: "client pool"
  shows "m_Heart (data_array (Free mt h p) ! j) = m_Heart (data_array p ! j)
   \<and> connection (data_array (Free mt h p) ! j) = connection (data_array p ! j)"
proof -
  have u: "xs[k := (xs ! k)\<lparr>uid := x\<rparr>] ! j = (if j = k \<and> k < length xs then (xs ! k)\<lparr>uid := x\<rparr> else xs ! j)"
    for xs :: "client list" and k x
    by (cases "k < length xs") (simp_all add: nth_list_update list_update_beyond)
  show ?thesis
    by (auto simp: Free_def Let_def Lock_def Unlock_def u split: option.splits)
qed

lemma release_closed_frame: "closed_frame w (release l i w)"
proof -
  have "cl (w\<lparr>m_ClientPool := Free (main_thread l) (uid (cl w i)) (m_ClientPool w)\<rparr>) j
      = data_array (Free (main_thread l) (uid (cl w i)) (m_ClientPool w)) ! j" for j
    by (simp add: cl_def)
  then show ?thesis
    using Free_heart [of "main_thread l" "uid (cl w i)" "m_ClientPool w"]
    by (auto simp: closed_frame_def release_def cl_upd_any) (auto simp: cl_def)
qed

lemma ClearData_closed_frame: "closed_frame w (ClearData w)"
  by (simp add: closed_frame_def)

lemma EndGame_closed_frame:
  assumes "EndGame (synchronous l) w = Inr w'"
  shows "closed_frame w w'"
proof (cases "m_GameState w = Wait")
  case True
  then show ?thesis using assms by (simp add: EndGame_def closed_frame_def)
next
  case False
  then have run: "foldE (disconnect_valid (synchronous l)) [0..<psize w] (ClearData w) = Inr w'"
    using assms by (simp add: EndGame_def)
  have "m_GameState w' = Wait \<and> closed_frame w w'"
  proof (rule foldE_invariant [OF run])
    fix x u v assume "m_GameState u = Wait \<and> closed_frame w u" "disconnect_valid (synchronous l) x u = Inr v"
    then show "m_GameState v = Wait \<and> closed_frame w v"
      using release_closed_frame closed_frame_trans
      by (auto simp: disconnect_sync split: if_splits)
  qed (simp add: ClearData_closed_frame)
  then show ?thesis by simp
qed

lemma OnDisconnected_closed_frame:
  assumes "OnDisconnected (synchronous l) i w = Inr w'"
  shows "closed_frame w w'"
proof -
  obtain u where u: "(if IsValid (cl w i) then OnClientDisconnect (synchronous l) i w else Inr w) = Inr u"
    and w': "w' = release (synchronous l) i u"
    using assms by (auto simp: OnDisconnected_release)
  have "closed_frame w w" by (simp add: closed_frame_def)
  then have "closed_frame w u"
    using u EndGame_closed_frame [of l w u] by (auto simp: OnClientDisconnect_def split: if_splits)
  then show ?thesis unfolding w' using release_closed_frame closed_frame_trans by blast
qed

lemma heart_beat_direct:
  fixes l0
  defines "l \<equiv> synchronous (plain_reset l0)"
  assumes "snd e = Some i" "i < psize w" "server_ok w"
  shows "\<exists>w'. heart_beat (direct l) t e w = Inr w' \<and> server_ok w' \<and> m_HeartTime w' = m_HeartTime w
      \<and> psize w' = psize w
      \<and> (\<forall>j. m_Heart (cl w' j) = (if j = i then m_Heart (cl w i) + t else m_Heart (cl w j))
            \<and> (connection (cl w j) = None \<longrightarrow> connection (cl w' j) = None))
      \<and> m_UdpClientMap w' = (if silent w t e then map_erase (fst e) (m_UdpClientMap w) else m_UdpClientMap w)
      \<and> (silent w t e \<longrightarrow> connection (cl w' i) = None)"
proof -
  let ?w1 = "upd_client i (\<lambda>c. c\<lparr>m_Heart := m_Heart c + t\<rparr>) w"
  have wok: "world_ok w" using assms(4) by (simp add: server_ok_def)
  have i: "i < length (data_array (m_ClientPool w))" using world_ok_pool_length [OF wok] assms(3) by simp
  have 1: "server_ok ?w1" using assms(4) by (rule server_ok_upd) simp
  then have 11: "world_ok ?w1" by (simp add: server_ok_def)
  have h: "m_Heart (cl ?w1 j) = (if j = i then m_Heart (cl w i) + t else m_Heart (cl w j))"
    "connection (cl ?w1 j) = connection (cl w j)" for j
    using i by (simp_all add: cl_upd_any)
  show ?thesis
  proof (cases "silent w t e")
    case True
    obtain u where u: "OnDisconnected l i ?w1 = Inr u" "connection (cl u i) = None"
      using connection_lost [OF 11, of i "plain_reset l0"] assms(3) unfolding l_def by auto
    have f: "closed_frame ?w1 u" using OnDisconnected_closed_frame u(1) unfolding l_def by blast
    have n: "world_ok u" "same_net ?w1 u"
      using synchronous.OnDisconnected_callback [OF 11] u(1) unfolding l_def by blast+
    have "server_ok u" using server_ok_same_net [OF 1 n] .
    then have "server_ok (set_udp_map (map_erase (fst e)) u)" by (rule server_ok_erase)
    moreover have "heart_beat (direct l) t e w = Inr (set_udp_map (map_erase (fst e)) u)"
      using True assms(2) u(1) i by (simp add: heart_beat_def silent_def direct_def h)
    moreover have "psize (set_udp_map (map_erase (fst e)) u) = psize u" by (simp add: psize_def)
    ultimately show ?thesis using True u(2) f n(2) h
      by (intro exI [of _ "set_udp_map (map_erase (fst e)) u"])
        (auto simp: closed_frame_def same_net_def)
  next
    case False
    then have "heart_beat (direct l) t e w = Inr ?w1"
      using assms(2) i by (simp add: heart_beat_def silent_def h)
    then show ?thesis using False 1 h by (intro exI [of _ ?w1]) simp
  qed
qed

lemma heart_beats_direct:
  fixes l0
  defines "l \<equiv> synchronous (plain_reset l0)"
  assumes "server_ok w" "\<forall>e \<in> set es. \<exists>i < psize w. snd e = Some i" "distinct (map snd es)"
  shows "\<exists>w'. foldE (heart_beat (direct l) t) es w = Inr w'
      \<and> (\<forall>j. m_Heart (cl w' j) = (if Some j \<in> snd ` set es then m_Heart (cl w j) + t else m_Heart (cl w j))
            \<and> (connection (cl w j) = None \<longrightarrow> connection (cl w' j) = None))
      \<and> m_UdpClientMap w' = filter (\<lambda>e. fst e \<notin> fst ` set (filter (silent w t) es)) (m_UdpClientMap w)
      \<and> (\<forall>e \<in> set es. silent w t e \<longrightarrow> connection (cl w' (the (snd e))) = None)"
  using assms(2-4)
proof (induction es arbitrary: w)
  case Nil
  then show ?case by simp
next
  case (Cons e es)
  then obtain i where i: "snd e = Some i" "i < psize w" by auto
  obtain u where u: "heart_beat (direct l) t e w = Inr u" "server_ok u" "m_HeartTime u = m_HeartTime w"
    "psize u = psize w"
    "\<forall>j. m_Heart (cl u j) = (if j = i then m_Heart (cl w i) + t else m_Heart (cl w j))
            \<and> (connection (cl w j) = None \<longrightarrow> connection (cl u j) = None)"
    "m_UdpClientMap u = (if silent w t e then map_erase (fst e) (m_UdpClientMap w) else m_UdpClientMap w)"
    "silent w t e \<longrightarrow> connection (cl u i) = None"
    using heart_beat_direct [OF i Cons.prems(1), of l0 t] unfolding l_def by blast
  have new: "Some i \<notin> snd ` set es" using Cons.prems(3) i(1) by simp
  have later: "silent u t x = silent w t x" if "x \<in> set es" for x
  proof -
    have "\<exists>k. snd x = Some k" using Cons.prems(2) that by auto
    then have "the (snd x) \<noteq> i" using new that by (metis image_eqI option.sel)
    then show ?thesis using u(3,5) by (simp add: silent_def)
  qed
  then have "filter (silent u t) es = filter (silent w t) es" by (intro filter_cong) simp_all
  moreover obtain w' where w': "foldE (heart_beat (direct l) t) es u = Inr w'"
    "\<forall>j. m_Heart (cl w' j) = (if Some j \<in> snd ` set es then m_Heart (cl u j) + t else m_Heart (cl u j))
            \<and> (connection (cl u j) = None \<longrightarrow> connection (cl w' j) = None)"
    "m_UdpClientMap w' = filter (\<lambda>e. fst e \<notin> fst ` set (filter (silent u t) es)) (m_UdpClientMap u)"
    "\<forall>e \<in> set es. silent u t e \<longrightarrow> connection (cl w' (the (snd e))) = None"
    using Cons.IH [OF u(2)] Cons.prems u(4) by auto
  ultimately show ?case
    using u i new later by (intro exI [of _ w']) (auto simp: map_erase_def conj_commute)
qed

text \<open>
  C20: the keep-alive clock: when a tick gets past the step of the game and the delivery of
  whatever packets have arrived, and no slot then has two routes, it never fails: it adds its
  length once to the silence of every datagram client, and exactly those whose silence has become
  longer than the heart time lose their route, and no others. Connection classes that queue the
  request to close are asked once for each of them, in the order of the table, and nothing else
  is touched or sent; with those that close at once none of them has a connection afterwards.
\<close>

theorem silent_clients_are_dropped:
  assumes l: "l = (if later then deferred (plain_reset l0) else synchronous (plain_reset l0))"
    and n: "n = (if later then queued l else direct l)"
    and "server_ok w" "Update l t w = Inr w1" "foldE (deliver l n) ds w1 = Inr w2"
    and "distinct (map snd (m_UdpClientMap w2))"
  shows "\<exists>w'. ServerUpdate l n ds t w = Inr w'
      \<and> m_UdpClientMap w' = filter (\<lambda>e. \<not> silent w2 t e) (m_UdpClientMap w2)
      \<and> (\<forall>j. m_Heart (cl w' j) = (if Some j \<in> snd ` set (m_UdpClientMap w2)
             then m_Heart (cl w2 j) + t else m_Heart (cl w2 j)))
      \<and> (if later then
           outp w' = outp w2 @ map (\<lambda>e. Disconnecting (the (snd e))) (filter (silent w2 t) (m_UdpClientMap w2))
           \<and> (\<forall>j. cl w' j = (cl w2 j)\<lparr>m_Heart := m_Heart (cl w' j)\<rparr>)
         else \<forall>e \<in> set (m_UdpClientMap w2). silent w2 t e \<longrightarrow> connection (cl w' (the (snd e))) = None)"
proof -
  have tr: "(l = synchronous (plain_reset l0) \<and> n = direct l) \<or> (l = deferred (plain_reset l0) \<and> n = queued l)"
    using l n by auto
  have ok: "server_ok w2"
  proof -
    have "foldE (server_step l n) (map Net ds) = foldE (deliver l n) ds"
      by (induction ds) (rule ext, simp)+
    then have d: "foldE (server_step l n) (map Net ds) w1 = Inr w2" using assms(5) by simp
    have "server_ok w1" if "net_disconnecting l"
      using net_disconnecting.Update_net [OF that assms(4)] assms(3)
        disconnecting.Update_ok(1) [OF net_disconnecting.axioms(1) [OF that] assms(4)]
        server_ok_same_net [OF assms(3)] by (simp add: server_ok_def)
    then have "server_ok w1"
      using tr deferred.net_disconnecting_axioms synchronous.net_disconnecting_axioms by blast
    then show ?thesis by (rule server_invariant [OF tr _ d])
  qed
  have u: "distinct (map fst (m_UdpClientMap w2))"
    "\<forall>e \<in> set (m_UdpClientMap w2). \<exists>i < psize w2. snd e = Some i"
    "\<forall>e \<in> set (m_UdpClientMap w2). \<exists>i < length (data_array (m_ClientPool w2)). snd e = Some i"
    using ok world_ok_pool_length [of w2] by (simp_all add: server_ok_def udp_map_ok_def)
  have f: "filter (\<lambda>e. fst e \<notin> fst ` set (filter (silent w2 t) (m_UdpClientMap w2))) (m_UdpClientMap w2)
      = filter (\<lambda>e. \<not> silent w2 t e) (m_UdpClientMap w2)"
  proof (rule filter_cong)
    fix e assume e: "e \<in> set (m_UdpClientMap w2)"
    have "x = e" if "x \<in> set (m_UdpClientMap w2)" "fst x = fst e" for x
      using u(1) e that by (metis eq_key_imp_eq_value prod.collapse)
    then show "(fst e \<notin> fst ` set (filter (silent w2 t) (m_UdpClientMap w2))) = (\<not> silent w2 t e)"
      using e by fastforce
  qed simp
  have run: "ServerUpdate l n ds t w = foldE (heart_beat n t) (m_UdpClientMap w2) w2"
    by (simp add: ServerUpdate_def assms(4,5))
  show ?thesis
  proof (cases later)
    case True
    then obtain w' where "foldE (heart_beat n t) (m_UdpClientMap w2) w2 = Inr w'"
      "\<forall>j. cl w' j = (if Some j \<in> snd ` set (m_UdpClientMap w2)
         then (cl w2 j)\<lparr>m_Heart := m_Heart (cl w2 j) + t\<rparr> else cl w2 j)"
      "m_UdpClientMap w' = filter (\<lambda>e. \<not> silent w2 t e) (m_UdpClientMap w2)"
      "outp w' = outp w2 @ map (\<lambda>e. Disconnecting (the (snd e))) (filter (silent w2 t) (m_UdpClientMap w2))"
      using heart_beats_queued [OF u(3) assms(6), of l t] f n by auto
    then show ?thesis using True by (intro exI [of _ w']) (simp add: run)
  next
    case False
    then obtain w' where "foldE (heart_beat n t) (m_UdpClientMap w2) w2 = Inr w'"
      "\<forall>j. m_Heart (cl w' j) = (if Some j \<in> snd ` set (m_UdpClientMap w2) then m_Heart (cl w2 j) + t else m_Heart (cl w2 j))
            \<and> (connection (cl w2 j) = None \<longrightarrow> connection (cl w' j) = None)"
      "m_UdpClientMap w' = filter (\<lambda>e. \<not> silent w2 t e) (m_UdpClientMap w2)"
      "\<forall>e \<in> set (m_UdpClientMap w2). silent w2 t e \<longrightarrow> connection (cl w' (the (snd e))) = None"
      using heart_beats_direct [OF ok u(2) assms(6), of l0 t] f n l by auto
    then show ?thesis using False by (intro exI [of _ w']) (simp add: run)
  qed
qed

theorem silent_clients_are_dropped_witness:
  "(\<exists>w'. ServerUpdate net_lib (direct net_lib) [KeepAlive \<lparr>pk_guid = 8, pk_data = []\<rparr>] (f32_of_int 11) udp_demo = Inr w'
      \<and> m_UdpClientMap w' = [] \<and> connection (cl w' 1) = None)
    \<and> (\<exists>w'. ServerUpdate (deferred (plain_reset demo_lib)) (queued (deferred (plain_reset demo_lib))) []
        (f32_of_int 11) udp_demo = Inr w' \<and> m_UdpClientMap w' = [] \<and> outp w' = [Disconnecting 1])"
proof -
  let ?t = "f32_of_int 11"
  let ?d = "deferred (plain_reset demo_lib)"
  have u: "Update l ?t udp_demo = Inr udp_demo" for l
    by (simp add: Update_def watchdog_def wait_states_def play_step_def udp_demo_def demo_def)
  have c: "distinct (map snd (m_UdpClientMap udp_demo))" "outp udp_demo = []" "m_UdpClientMap udp_demo = [(7, Some 1)]"
    "silent udp_demo ?t (7, Some 1)" "OnKeepAlive \<lparr>pk_guid = 8, pk_data = []\<rparr> udp_demo = udp_demo"
    by code_simp+
  show ?thesis
    using silent_clients_are_dropped [of net_lib False demo_lib "direct net_lib" udp_demo ?t udp_demo
        "[KeepAlive \<lparr>pk_guid = 8, pk_data = []\<rparr>]" udp_demo]
      silent_clients_are_dropped [of ?d True demo_lib "queued ?d" udp_demo ?t udp_demo "[]" udp_demo]
      c u udp_demo_ok by (simp add: net_lib_def) blast
qed

end
