(* ===== verification/Strings.thy ===== *)
theory Strings
  imports Prelude
begin

text \<open>
  The part of \<^verbatim>\<open>std::string\<close> and of the C library that the server's command line, start-up and HTTP
  code uses: searching, taking substrings with the exception they raise, \<open>atoi\<close>, and the
  formats \<open>%d\<close> and \<open>%s\<close> of \<open>sprintf\<close> into a fixed buffer.
\<close>

section \<open>Searching\<close>

text \<open>\<open>find\<close> returns the first position, \<open>None\<close> for \<open>npos\<close>.\<close>

definition starts_with :: "string \<Rightarrow> string \<Rightarrow> bool" where
  "starts_with p s = (take (length p) s = p)"

fun str_find :: "string \<Rightarrow> string \<Rightarrow> nat option" where
  "str_find p [] = (if p = [] then Some 0 else None)"
| "str_find p (c # s) = (if starts_with p (c # s) then Some 0 else map_option Suc (str_find p s))"

definition str_find_from :: "string \<Rightarrow> nat \<Rightarrow> string \<Rightarrow> nat option" where
  "str_find_from p pos s =
     (if pos \<le> length s then map_option (\<lambda>k. pos + k) (str_find p (drop pos s)) else None)"

definition contains :: "string \<Rightarrow> string \<Rightarrow> bool" where
  "contains p s = (str_find p s \<noteq> None)"

text \<open>\<open>find_last_of\<close> one character, as an \<open>int\<close>: -1 for \<open>npos\<close>.\<close>

fun find_last :: "char \<Rightarrow> string \<Rightarrow> int" where
  "find_last c [] = - 1"
| "find_last c (d # s) =
     (let k = find_last c s in if 0 \<le> k then k + 1 else if d = c then 0 else - 1)"

text \<open>\<open>substr\<close> throws when the position is past the end.\<close>

definition substr :: "nat \<Rightarrow> nat \<Rightarrow> string \<Rightarrow> string res" where
  "substr pos n s = (if length s < pos then Inl OutOfRange else Inr (take n (drop pos s)))"

definition substr_from :: "nat \<Rightarrow> string \<Rightarrow> string res" where
  "substr_from pos s = substr pos (length s) s"

lemma starts_with_iff: "starts_with p s \<longleftrightarrow> (\<exists>r. s = p @ r)"
  by (auto simp: starts_with_def) (metis append_take_drop_id)

lemma str_find_Some:
  "str_find p s = Some k \<Longrightarrow> k \<le> length s \<and> starts_with p (drop k s) \<and> (\<forall>j<k. \<not> starts_with p (drop j s))"
proof (induction s arbitrary: k)
  case Nil
  then show ?case by (auto simp: starts_with_def split: if_splits)
next
  case (Cons c s)
  show ?case
  proof (cases "starts_with p (c # s)")
    case True
    with Cons.prems show ?thesis by simp
  next
    case False
    with Cons.prems obtain m where m: "k = Suc m" "str_find p s = Some m" by auto
    from Cons.IH [OF m(2)] False show ?thesis
      by (auto simp: m(1) less_Suc_eq_0_disj)
  qed
qed

lemma str_find_None: "str_find p s = None \<Longrightarrow> \<not> starts_with p (drop k s)"
proof (induction s arbitrary: k)
  case Nil
  then show ?case by (auto simp: starts_with_def split: if_splits)
next
  case (Cons c s)
  then show ?case by (cases k) (auto split: if_splits)
qed

lemma contains_iff: "contains p s \<longleftrightarrow> (\<exists>a b. s = a @ p @ b)"
proof
  assume "contains p s"
  then obtain k where "str_find p s = Some k" by (auto simp: contains_def)
  then obtain r where "drop k s = p @ r" using str_find_Some starts_with_iff by blast
  then show "\<exists>a b. s = a @ p @ b" by (metis append_take_drop_id)
next
  assume "\<exists>a b. s = a @ p @ b"
  then obtain a b where "s = a @ p @ b" by auto
  then have "starts_with p (drop (length a) s)" by (simp add: starts_with_def)
  then show "contains p s" using str_find_None unfolding contains_def by blast
qed

lemma find_last_range: "- 1 \<le> find_last c s \<and> find_last c s < int (length s)"
  by (induction s) (auto simp: Let_def)

lemma find_last_npos: "find_last c s = - 1 \<longleftrightarrow> c \<notin> set s"
proof (induction s)
  case (Cons d s)
  then show ?case using find_last_range [of c s] by (auto simp: Let_def)
qed simp

lemma find_last_split:
  assumes "c \<notin> set b"
  shows "find_last c (a @ c # b) = int (length a)"
proof (induction a)
  case Nil
  then show ?case using find_last_npos [of c b] assms by simp
qed (simp add: Let_def)

section \<open>Numbers\<close>

definition is_digit :: "char \<Rightarrow> bool" where
  "is_digit c = (48 \<le> (of_char c :: nat) \<and> of_char c \<le> (57 :: nat))"

definition digit_val :: "char \<Rightarrow> int" where
  "digit_val c = int (of_char c) - 48"

definition digits_val :: "string \<Rightarrow> int" where
  "digits_val s = foldl (\<lambda>n c. n * 10 + digit_val c) 0 (takeWhile is_digit s)"

definition is_blank :: "char \<Rightarrow> bool" where
  "is_blank c = (c = CHR '' '' \<or> 9 \<le> (of_char c :: nat) \<and> of_char c \<le> (13 :: nat))"

text \<open>
  \<open>atoi\<close> and \<open>atoll\<close>: blanks, an optional sign, digits up to the first other character. Values
  outside the result type are clamped, as the C runtime the program is built with does.
\<close>

definition clamp_int :: "int \<Rightarrow> int" where
  "clamp_int n = max (- (2 ^ 31)) (min (2 ^ 31 - 1) n)"

definition clamp_int64 :: "int \<Rightarrow> int" where
  "clamp_int64 n = max (- (2 ^ 63)) (min (2 ^ 63 - 1) n)"

definition parse_int :: "string \<Rightarrow> int" where
  "parse_int s0 =
     (let s = dropWhile is_blank s0
      in case s of
           [] \<Rightarrow> 0
         | c # r \<Rightarrow> if c = CHR ''-'' then - digits_val r else if c = CHR ''+'' then digits_val r
                   else digits_val s)"

definition atoi :: "string \<Rightarrow> int" where
  "atoi s = clamp_int (parse_int s)"

definition atoll :: "string \<Rightarrow> int" where
  "atoll s = clamp_int64 (parse_int s)"

fun nat_str :: "nat \<Rightarrow> string" where
  "nat_str n = (if n < 10 then [char_of (48 + n)] else nat_str (n div 10) @ [char_of (48 + n mod 10)])"

declare nat_str.simps [simp del]

definition int_str :: "int \<Rightarrow> string" where
  "int_str n = (if n < 0 then CHR ''-'' # nat_str (nat (- n)) else nat_str (nat n))"

lemma digit_char [simp]: "n < 10 \<Longrightarrow> is_digit (char_of (48 + n))" "n < 10 \<Longrightarrow> digit_val (char_of (48 + n)) = int n"
  by (simp_all add: is_digit_def digit_val_def)

lemma nat_str_digits: "\<forall>c \<in> set (nat_str n). is_digit c"
  by (induction n rule: nat_str.induct) (subst nat_str.simps, auto)

lemma nat_str_ne [simp]: "nat_str n \<noteq> []"
  by (subst nat_str.simps) simp

lemma nat_str_val: "foldl (\<lambda>n c. n * 10 + digit_val c) 0 (nat_str n) = int n"
proof (induction n rule: nat_str.induct)
  case (1 n)
  show ?case
  proof (cases "n < 10")
    case True
    then show ?thesis by (subst nat_str.simps) simp
  next
    case False
    have "int (n div 10) * 10 + int (n mod 10) = int n" by presburger
    with False 1 show ?thesis by (subst nat_str.simps) simp
  qed
qed

lemma digits_val_nat_str: "(case r of [] \<Rightarrow> True | c # _ \<Rightarrow> \<not> is_digit c) \<Longrightarrow> digits_val (nat_str n @ r) = int n"
proof -
  assume r: "case r of [] \<Rightarrow> True | c # _ \<Rightarrow> \<not> is_digit c"
  have "takeWhile is_digit (nat_str n @ r) = nat_str n @ takeWhile is_digit r"
    using nat_str_digits [of n] by (simp add: takeWhile_append2)
  also have "takeWhile is_digit r = []" using r by (cases r) auto
  finally show ?thesis using nat_str_val [of n] by (simp add: digits_val_def)
qed

text \<open>\<open>atoi\<close> and \<open>atoll\<close> read back what \<open>%d\<close> printed.\<close>

lemma parse_int_str: "parse_int (int_str n) = n"
proof -
  have hd: "is_digit (hd (nat_str k))" for k
    using nat_str_digits [of k] by simp
  have blank: "is_digit c \<Longrightarrow> \<not> is_blank c \<and> c \<noteq> CHR ''-'' \<and> c \<noteq> CHR ''+''" for c
    by (auto simp: is_digit_def is_blank_def)
  have pos: "parse_int (nat_str k) = int k" for k
    using hd [of k] blank [of "hd (nat_str k)"] digits_val_nat_str [of "[]" k]
    by (cases "nat_str k") (auto simp: parse_int_def Let_def)
  show ?thesis
  proof (cases "n < 0")
    case True
    have "\<not> is_blank (CHR ''-'')" by (simp add: is_blank_def)
    with True digits_val_nat_str [of "[]" "nat (- n)"] show ?thesis
      by (simp add: parse_int_def int_str_def)
  next
    case False
    with pos [of "nat n"] show ?thesis by (simp add: int_str_def)
  qed
qed

lemma atoi_int_str: "- (2 ^ 31) \<le> n \<Longrightarrow> n < 2 ^ 31 \<Longrightarrow> atoi (int_str n) = n"
  by (simp add: atoi_def parse_int_str clamp_int_def)

lemma atoll_int_str: "- (2 ^ 63) \<le> n \<Longrightarrow> n < 2 ^ 63 \<Longrightarrow> atoll (int_str n) = n"
  by (simp add: atoll_def parse_int_str clamp_int64_def)

section \<open>Buffers\<close>

text \<open>\<open>sprintf\<close> into a local array of \<open>n\<close> bytes: the text and its closing NUL must fit.\<close>

definition sprintf_buf :: "nat \<Rightarrow> string \<Rightarrow> string res" where
  "sprintf_buf n s = (if length s < n then Inr s else Inl StackOverrun)"

end
