(* ===== verification/Options.thy ===== *)
theory Options
  imports Strings
begin

text \<open>
  The command line, \<^verbatim>\<open>main.cpp\<close>: the option codes, the defaults, and the loop over what
  \<open>getopt_long\<close> returns. The parser itself is the library's: the model takes the list of option
  codes with their arguments (a null \<open>optarg\<close> is \<open>None\<close>) that it returns one after the other;
  the end of the list is its -1.
\<close>

section \<open>Code\<close>

definition addr_udp :: int where "addr_udp = 256"
definition addr_udp_pwd :: int where "addr_udp_pwd = 257"
definition addr_tcp :: int where "addr_tcp = 258"
definition heart :: int where "heart = 259"
definition max_client :: int where "max_client = 260"
definition flag_daemon :: int where "flag_daemon = 261"
definition log_name :: int where "log_name = 262"
definition log_path :: int where "log_path = 263"
definition flag_daemon_process :: int where "flag_daemon_process = 264"
definition flag_show_window :: int where "flag_show_window = 265"
definition flag_check_connection :: int where "flag_check_connection = 266"

lemmas option_codes = addr_udp_def addr_udp_pwd_def addr_tcp_def heart_def max_client_def flag_daemon_def
  log_name_def log_path_def flag_daemon_process_def flag_show_window_def flag_check_connection_def

text \<open>The table of long names; \<open>True\<close> where the argument is required, \<open>None\<close> where there is none.\<close>

definition long_options :: "(string \<times> bool option \<times> int) list" where
  "long_options =
     [(''addr.udp'', Some True, addr_udp), (''addr.udp.pwd'', Some True, addr_udp_pwd),
      (''addr.tcp'', Some True, addr_tcp), (''max'', Some True, max_client),
      (''heart'', Some True, heart), (''daemon'', None, flag_daemon),
      (''log_name'', Some False, log_name), (''log_path'', Some False, log_path),
      (''daemon_process'', Some False, flag_daemon_process),
      (''windowed'', Some False, flag_show_window),
      (''checkconnection'', Some False, flag_check_connection)]"

text \<open>The fields of \<open>gServer\<close> and \<open>gLogger\<close> and the globals that \<open>main\<close> sets.\<close>

record options =
  o_TcpAddr :: "string option"
  o_HttpAddr :: "string option"
  o_UdpAddr :: "string option"
  o_UdpPwd :: "string option"
  o_HeartTime :: int
  o_MaxClient :: int
  o_CheckConnection :: bool
  IS_DAEMON_PROCESS :: bool
  as_daemon :: bool
  show_window :: bool
  logName :: "string option"
  filePath :: "string option"
  m_LogToFile :: bool
  m_LogToConsole :: bool

definition main_defaults :: "bool \<Rightarrow> options \<Rightarrow> options" where
  "main_defaults debug g = g\<lparr>as_daemon := False, show_window := debug, logName := Some ''server'',
     o_TcpAddr := Some ''0.0.0.0:9500'', o_HttpAddr := Some ''0.0.0.0:9501'',
     o_UdpAddr := Some ''0.0.0.0:9502'', o_UdpPwd := Some ''broadserver'', o_HeartTime := 5,
     o_MaxClient := 2, o_CheckConnection := False\<rparr>"

definition atoi_arg :: "string option \<Rightarrow> int res" where
  "atoi_arg a = (case a of None \<Rightarrow> Inl NullDeref | Some s \<Rightarrow> Inr (atoi s))"

definition set_option :: "int \<Rightarrow> string option \<Rightarrow> options \<Rightarrow> options res" where
  "set_option c a o' =
     (if c = addr_udp_pwd then Inr (o'\<lparr>o_UdpPwd := a\<rparr>)
      else if c = addr_tcp then Inr (o'\<lparr>o_TcpAddr := a\<rparr>)
      else if c = addr_udp then Inr (o'\<lparr>o_UdpAddr := a\<rparr>)
      else if c = max_client then rbind (atoi_arg a) (\<lambda>n. Inr (o'\<lparr>o_MaxClient := n\<rparr>))
      else if c = heart then rbind (atoi_arg a) (\<lambda>n. Inr (o'\<lparr>o_HeartTime := n\<rparr>))
      else if c = flag_daemon then Inr (o'\<lparr>as_daemon := True\<rparr>)
      else if c = log_path then Inr (o'\<lparr>m_LogToFile := True, filePath := a\<rparr>)
      else if c = log_name then Inr (o'\<lparr>logName := a\<rparr>)
      else if c = flag_daemon_process then Inr (o'\<lparr>IS_DAEMON_PROCESS := True\<rparr>)
      else if c = flag_show_window then Inr (o'\<lparr>show_window := True\<rparr>)
      else if c = flag_check_connection then Inr (o'\<lparr>o_CheckConnection := True\<rparr>)
      else Inr o')"

text \<open>The loop; the first component is the exit code of an early \<open>return\<close>.\<close>

fun parse_options :: "(int \<times> string option) list \<Rightarrow> options \<Rightarrow> (int option \<times> options) res" where
  "parse_options [] o' = Inr (None, o')"
| "parse_options ((c, a) # cs) o' =
     (if c \<le> 0 then Inr (None, o')
      else if c = 63 then Inr (Some 1, o')
      else rbind (set_option c a o') (parse_options cs))"

text \<open>\<open>main\<close>: \<open>daemon_ok\<close> is the result of \<open>RunAsDaemon\<close>, \<open>run\<close> is \<open>gServer.Run()\<close>.\<close>

definition main_log :: "options \<Rightarrow> options" where
  "main_log o' =
     (if show_window o' then o'
      else o'\<lparr>m_LogToFile := True, m_LogToConsole := True, logName := Some ''broadserver'',
             filePath := Some ''./''\<rparr>)"

definition main_program ::
  "bool \<Rightarrow> (int \<times> string option) list \<Rightarrow> bool \<Rightarrow> (options \<Rightarrow> int res) \<Rightarrow> options \<Rightarrow> int res" where
  "main_program debug cs daemon_ok run g =
     rbind (parse_options cs (main_defaults debug g)) (\<lambda>(exit, o').
     case exit of
       Some n \<Rightarrow> Inr n
     | None \<Rightarrow>
         (let o2 = main_log o'
          in if as_daemon o2 \<and> \<not> daemon_ok then Inr (- 1) else run o2))"

section \<open>The last occurrence of an option wins\<close>

text \<open>The last argument given with a code, if any.\<close>

fun last_arg :: "int \<Rightarrow> (int \<times> 'a) list \<Rightarrow> 'a option" where
  "last_arg c [] = None"
| "last_arg c ((d, a) # cs) = (case last_arg c cs of None \<Rightarrow> if d = c then Some a else None | Some b \<Rightarrow> Some b)"

definition plain_options :: "(int \<times> string option) list \<Rightarrow> bool" where
  "plain_options cs = (\<forall>(c, a) \<in> set cs. 0 < c \<and> c \<noteq> 63 \<and> (c = max_client \<or> c = heart \<longrightarrow> a \<noteq> None))"

lemma plain_options_Cons [simp]:
  "plain_options ((c, a) # cs) \<longleftrightarrow>
     0 < c \<and> c \<noteq> 63 \<and> (c = max_client \<or> c = heart \<longrightarrow> a \<noteq> None) \<and> plain_options cs"
  by (auto simp: plain_options_def)

definition setting :: "int \<Rightarrow> (int \<times> string option) list \<Rightarrow> string option \<Rightarrow> string option" where
  "setting c cs d = (case last_arg c cs of None \<Rightarrow> d | Some a \<Rightarrow> a)"

definition number :: "int \<Rightarrow> (int \<times> string option) list \<Rightarrow> int \<Rightarrow> int" where
  "number c cs d = (case last_arg c cs of None \<Rightarrow> d | Some a \<Rightarrow> atoi (the a))"

definition flag_of :: "int \<Rightarrow> (int \<times> string option) list \<Rightarrow> bool" where
  "flag_of c cs = (c \<in> fst ` set cs)"

lemma last_arg_None: "last_arg c cs = None \<longleftrightarrow> c \<notin> fst ` set cs"
  by (induction c cs rule: last_arg.induct) (auto split: option.splits)

lemma parse_options_run:
  assumes "plain_options cs"
  shows "parse_options cs g = Inr (None, g\<lparr>
      o_TcpAddr := setting addr_tcp cs (o_TcpAddr g),
      o_UdpAddr := setting addr_udp cs (o_UdpAddr g),
      o_UdpPwd := setting addr_udp_pwd cs (o_UdpPwd g),
      o_HeartTime := number heart cs (o_HeartTime g),
      o_MaxClient := number max_client cs (o_MaxClient g),
      o_CheckConnection := o_CheckConnection g \<or> flag_of flag_check_connection cs,
      IS_DAEMON_PROCESS := IS_DAEMON_PROCESS g \<or> flag_of flag_daemon_process cs,
      as_daemon := as_daemon g \<or> flag_of flag_daemon cs,
      show_window := show_window g \<or> flag_of flag_show_window cs,
      logName := setting log_name cs (logName g),
      filePath := setting log_path cs (filePath g),
      m_LogToFile := m_LogToFile g \<or> flag_of log_path cs\<rparr>)"
  using assms
proof (induction cs arbitrary: g)
  case Nil
  then show ?case by (simp add: setting_def number_def flag_of_def)
next
  case (Cons e cs)
  obtain c a where e: "e = (c, a)" by force
  from Cons.prems have "plain_options cs" by (simp add: e)
  note IH = Cons.IH [OF this]
  consider "c = addr_udp_pwd" | "c = addr_tcp" | "c = addr_udp" | "c = max_client" | "c = heart"
    | "c = flag_daemon" | "c = log_path" | "c = log_name" | "c = flag_daemon_process"
    | "c = flag_show_window" | "c = flag_check_connection" | "\<forall>d \<in> {addr_udp_pwd, addr_tcp, addr_udp, max_client,
        heart, flag_daemon, log_path, log_name, flag_daemon_process, flag_show_window, flag_check_connection}. c \<noteq> d"
    by auto
  then show ?case
    using Cons.prems
    by cases (auto simp: e set_option_def IH atoi_arg_def setting_def number_def flag_of_def option_codes
        split: option.splits)
qed

text \<open>
  the command line: when the parser reports no error, every address and number is the last
  one given or the default, every flag is set exactly when it was given, and without a window the
  name and path given for the log are overridden. An error makes the program return 1.
\<close>

lemma command_line:
  assumes "plain_options cs"
  shows "main_program debug cs True run g = run (main_log (g\<lparr>
      o_HttpAddr := Some ''0.0.0.0:9501'',
      o_TcpAddr := setting addr_tcp cs (Some ''0.0.0.0:9500''),
      o_UdpAddr := setting addr_udp cs (Some ''0.0.0.0:9502''),
      o_UdpPwd := setting addr_udp_pwd cs (Some ''broadserver''),
      o_HeartTime := number heart cs 5, o_MaxClient := number max_client cs 2,
      o_CheckConnection := flag_of flag_check_connection cs,
      IS_DAEMON_PROCESS := IS_DAEMON_PROCESS g \<or> flag_of flag_daemon_process cs,
      as_daemon := flag_of flag_daemon cs, show_window := debug \<or> flag_of flag_show_window cs,
      logName := setting log_name cs (Some ''server''), filePath := setting log_path cs (filePath g),
      m_LogToFile := m_LogToFile g \<or> flag_of log_path cs\<rparr>))
    \<and> main_program debug (cs @ (63, a) # ds) True run g = Inr 1"
proof -
  have app: "parse_options (cs @ ds) h = rbind (parse_options cs h) (\<lambda>(x, h'). parse_options ds h')"
    if "plain_options cs" for cs ds h
    using that
  proof (induction cs arbitrary: h)
    case (Cons e cs)
    obtain c a where "e = (c, a)" by force
    with Cons show ?case by (cases "set_option c a h") auto
  qed simp
  show ?thesis
    by (simp add: main_program_def app [OF assms] parse_options_run [OF assms] main_defaults_def main_log_def)
qed

definition static_options :: options where
  "static_options = \<lparr>o_TcpAddr = None, o_HttpAddr = None, o_UdpAddr = None, o_UdpPwd = None,
     o_HeartTime = 0, o_MaxClient = 0, o_CheckConnection = False, IS_DAEMON_PROCESS = False,
     as_daemon = False, show_window = True, logName = None, filePath = None, m_LogToFile = False,
     m_LogToConsole = False\<rparr>"

end
