(* ===== verification/Startup.thy ===== *)
theory Startup
  imports Options ServerLaws
begin

text \<open>
  The start of the server, \<open>Server::Init\<close> and \<open>Server::Run\<close> of \<^verbatim>\<open>server.cpp\<close>: the configuration, the
  watching process that starts the server again when it is gone, ending older instances, the
  guards on the options, the creation of the pool and of the listeners, and the start of the game
  client. Processes, files and sockets are the system's: what it answers is the argument \<open>env\<close>,
  and what the program asks of it is returned as a list of effects.
\<close>

section \<open>Code\<close>

text \<open>A list of processes: identifier and image name, \<open>None\<close> when it may not be opened.\<close>

type_synonym procs = "(nat \<times> string option) list"

datatype sys_effect =
    Kill string                  \<comment> \<open>\<open>TerminateProcess\<close> of the process with this image\<close>
  | CreateProcess string bool    \<comment> \<open>the command line, and whether it could be started\<close>
  | WriteFile string bytes
  | ListenTcp string | ListenHttp string | ListenUdp string
  | StartTimer

datatype init_end = Returned bool | Exited int | Watching

record init_env =
  e_base :: bool                               \<comment> \<open>\<open>BaseServer::Init()\<close>\<close>
  e_script :: "(config \<Rightarrow> (bool \<times> config) res) option"
  e_pid :: nat
  e_snapshot :: "procs option"                 \<comment> \<open>\<open>None\<close> is \<open>INVALID_HANDLE_VALUE\<close>\<close>
  e_rounds :: "(procs option \<times> bool) list"     \<comment> \<open>one for each turn of the watching loop\<close>
  e_exe :: "bytes option"                      \<comment> \<open>the program's file\<close>
  e_starts :: "string \<Rightarrow> bool"                 \<comment> \<open>\<open>CreateProcess\<close>\<close>
  e_memory :: "bool \<times> bool \<times> bool"
  e_clients :: "nat \<Rightarrow> client"                 \<comment> \<open>the objects of the pool as constructed\<close>
  e_tcp :: "string \<Rightarrow> bool"
  e_http :: "string \<Rightarrow> bool"
  e_udp :: "string \<Rightarrow> bool"

text \<open>\<open>substr(0, length() - n)\<close>: the unsigned difference wraps for short names, which are kept whole.\<close>

definition cut_tail :: "nat \<Rightarrow> string \<Rightarrow> string" where
  "cut_tail n s = (if length s < n then s else take (length s - n) s)"

text \<open>\<open>substr(find_last_of("\\") + 1)\<close>\<close>

definition file_name :: "string \<Rightarrow> string" where
  "file_name s = drop (nat (find_last (CHR 0x5C) s + 1)) s"

definition watch_target :: "options \<Rightarrow> string \<Rightarrow> string" where
  "watch_target o' exe = (if show_window o' then cut_tail 11 exe @ ''.exe'' else exe)"

fun find_process :: "nat \<Rightarrow> string \<Rightarrow> procs \<Rightarrow> bool" where
  "find_process own tag [] = False"
| "find_process own tag ((pid, img) # ps) =
     (if pid = own then find_process own tag ps
      else case img of
             None \<Rightarrow> find_process own tag ps
           | Some s \<Rightarrow> if contains tag s then True else find_process own tag ps)"

definition daemon_flag :: string where "daemon_flag = ''--daemon_process''"

text \<open>The arguments for starting the server again, without the mark of the watching process.\<close>

fun watch_args :: "string list \<Rightarrow> string" where
  "watch_args [] = []"
| "watch_args (a # as) =
     (if daemon_flag = a then watch_args as
      else a @ (if as \<noteq> [] then '' '' else []) @ watch_args as)"

definition command_of :: "string \<Rightarrow> string \<Rightarrow> string res" where
  "command_of exe args = sprintf_buf 1024 (exe @ '' '' @ args)"

text \<open>The watching loop: it ends when the server is gone and could be started again.\<close>

fun watch_loop :: "nat \<Rightarrow> string \<Rightarrow> string \<Rightarrow> (procs option \<times> bool) list \<Rightarrow> (init_end \<times> sys_effect list) res" where
  "watch_loop own target args [] = Inr (Watching, [])"
| "watch_loop own target args ((snap, started) # rounds) =
     (case snap of
        None \<Rightarrow> Inr (Returned False, [])
      | Some ps \<Rightarrow>
          if find_process own (file_name target) ps then watch_loop own target args rounds
          else rbind (command_of target args) (\<lambda>cmd.
               if started then Inr (Exited 0, [CreateProcess cmd True])
               else rbind (watch_loop own target args rounds) (\<lambda>(e, fx).
                    Inr (e, CreateProcess cmd False # fx))))"

text \<open>Ending what is left of an older server and its client.\<close>

fun kill_old :: "nat \<Rightarrow> string \<Rightarrow> procs \<Rightarrow> sys_effect list" where
  "kill_old own path [] = []"
| "kill_old own path ((pid, img) # ps) =
     (if pid = own then kill_old own path ps
      else case img of
             None \<Rightarrow> kill_old own path ps
           | Some s \<Rightarrow>
               if contains ''broadcastserver'' s then Kill s # kill_old own path ps
               else if path \<noteq> [] \<and> contains path s then Kill s # kill_old own path ps
               else kill_old own path ps)"

text \<open>Copying the program's file, in pieces of half a megabyte.\<close>

function copy_loop :: "nat \<Rightarrow> bytes \<Rightarrow> bytes" where
  "copy_loop n src = (if 0 < n \<and> src \<noteq> [] then take n src @ copy_loop n (drop n src) else [])"
  by pat_completeness auto
termination by (relation "measure (\<lambda>(n, src). length src)") auto

declare copy_loop.simps [simp del]

definition launch_args :: "string list \<Rightarrow> string" where
  "launch_args as = concat (map (\<lambda>a. a @ '' '') as) @ daemon_flag"

definition start_daemon :: "init_env \<Rightarrow> options \<Rightarrow> string \<Rightarrow> string list \<Rightarrow> sys_effect list res" where
  "start_daemon env o' exe as =
     rbind (if show_window o' then
              (case e_exe env of
                 None \<Rightarrow> Inl NullDeref
               | Some file \<Rightarrow>
                   let dest = cut_tail 4 exe @ ''.daemon.exe''
                   in Inr (dest, [WriteFile dest (copy_loop (1024 * 512) file)]))
            else Inr (exe, [])) (\<lambda>(daemon, fx).
     rbind (command_of daemon (launch_args as)) (\<lambda>cmd.
     Inr (fx @ [CreateProcess cmd (e_starts env cmd)])))"

text \<open>The port in an address; the part before the colon is copied to an array of 256 bytes.\<close>

definition port_of :: "string option \<Rightarrow> int res" where
  "port_of addr =
     (case addr of
        None \<Rightarrow> Inr (- 1)
      | Some a \<Rightarrow>
          (case str_find '':'' a of
             None \<Rightarrow> Inr (- 1)
           | Some k \<Rightarrow> if 256 \<le> k then Inl StackOverrun else Inr (atoi (drop (k + 1) a))))"

definition start_client :: "init_env \<Rightarrow> options \<Rightarrow> config \<Rightarrow> sys_effect list res" where
  "start_client env o' c =
     (if m_ClientPath c = [] then Inr []
      else rbind (port_of (o_TcpAddr o')) (\<lambda>tcp.
           rbind (port_of (o_UdpAddr o')) (\<lambda>udp.
           rbind (port_of (o_HttpAddr o')) (\<lambda>http.
           rbind (sprintf_buf 260 (m_ClientPath c @ '' -RunWithServer -PortTcp='' @ int_str tcp
                    @ '' -PortUdp='' @ int_str udp @ '' -PortHttp='' @ int_str http
                    @ '' '' @ m_ClientExeArg c)) (\<lambda>cmd.
           Inr [CreateProcess cmd (e_starts env cmd)])))))"

text \<open>The checks and the listeners, from \<open>m_MaxClient == 0\<close> to the end of \<open>Init\<close>.\<close>

definition listen_with :: "(string \<Rightarrow> bool) \<Rightarrow> string option \<Rightarrow> bool" where
  "listen_with f addr = (case addr of None \<Rightarrow> True | Some a \<Rightarrow> f a)"

definition listening :: "(string \<Rightarrow> sys_effect) \<Rightarrow> string option \<Rightarrow> sys_effect list" where
  "listening f addr = (case addr of None \<Rightarrow> [] | Some a \<Rightarrow> [f a])"

definition open_server ::
  "init_env \<Rightarrow> options \<Rightarrow> sys_effect list \<Rightarrow> world \<Rightarrow> (init_end \<times> sys_effect list \<times> world) res" where
  "open_server env o' fx w =
     (if o_MaxClient o' = 0 then Inr (Returned False, fx, w)
      else if o_TcpAddr o' = None \<and> o_UdpAddr o' = None then Inr (Returned False, fx, w)
      else let (a1, a2, a3) = e_memory env;
               (ok, pool) = Initialize a1 a2 a3 (e_clients env) (word_of_int (o_MaxClient o')) (m_ClientPool w);
               w1 = w\<lparr>m_ClientPool := pool\<rparr>
      in if \<not> ok then Inr (Returned False, fx, w1)
      else let fx1 = fx @ listening ListenTcp (o_TcpAddr o')
      in if \<not> listen_with (e_tcp env) (o_TcpAddr o') then Inr (Returned False, fx1, w1)
      else let fx2 = fx1 @ listening ListenHttp (o_HttpAddr o')
      in if \<not> listen_with (e_http env) (o_HttpAddr o') then Inr (Returned False, fx2, w1)
      else let fx3 = fx2 @ listening ListenUdp (o_UdpAddr o')
      in if \<not> listen_with (e_udp env) (o_UdpAddr o') then Inr (Returned False, fx3, w1)
      else rbind (start_client env o' (gConfig w1)) (\<lambda>fx4.
           Inr (Returned True, fx3 @ [StartTimer] @ fx4, w1)))"

definition server_Init ::
  "init_env \<Rightarrow> options \<Rightarrow> string list \<Rightarrow> world \<Rightarrow> (init_end \<times> sys_effect list \<times> world) res" where
  "server_Init env o' args w =
     (if \<not> e_base env then Inr (Returned False, [], w)
      else rbind (config_Init (e_script env) (gConfig w)) (\<lambda>(ok, c).
      let w1 = w\<lparr>gConfig := c, m_HeartTime := o_HeartTime o', m_CheckConnection := o_CheckConnection o'\<rparr>
      in if \<not> ok then Inr (Returned False, [], w1)
      else case args of
        [] \<Rightarrow> Inl NullDeref
      | exe # as \<Rightarrow>
          if IS_DAEMON_PROCESS o' then
            rbind (watch_loop (e_pid env) (watch_target o' exe) (watch_args as) (e_rounds env))
              (\<lambda>(e, fx). Inr (e, fx, w1))
          else case e_snapshot env of
            None \<Rightarrow> Inr (Returned False, [], w1)
          | Some ps \<Rightarrow>
              let fx = kill_old (e_pid env) (m_ClientPath c) ps
              in rbind (if as_daemon o' then start_daemon env o' exe as else Inr []) (\<lambda>fx1.
                 open_server env o' (fx @ fx1) w1)))"

text \<open>\<open>Run\<close>: \<open>loop\<close> is the result of the event loop.\<close>

definition server_Run :: "init_env \<Rightarrow> options \<Rightarrow> string list \<Rightarrow> (world \<Rightarrow> int res) \<Rightarrow> world \<Rightarrow> int option res" where
  "server_Run env o' args loop w =
     rbind (server_Init env o' args w) (\<lambda>(e, fx, w1).
     case e of
       Returned True \<Rightarrow> rbind (loop w1) (\<lambda>n. Inr (Some n))
     | Returned False \<Rightarrow> Inr (Some (- 1))
     | Exited n \<Rightarrow> Inr (Some n)
     | Watching \<Rightarrow> Inr None)"

section \<open>What a successful start establishes\<close>

lemma watch_loop_end: "watch_loop own target args rounds = Inr (e, fx) \<Longrightarrow> e \<noteq> Returned True"
proof (induction rounds arbitrary: e fx)
  case (Cons r rounds)
  then show ?case by (cases r) (auto split: option.splits if_splits)
qed simp

text \<open>The state before \<open>main\<close>, as static storage and the constructors leave it.\<close>

definition static_state :: "world \<Rightarrow> bool" where
  "static_state w =
     (m_ClientPool w = pool_new \<and> m_UdpClientMap w = [] \<and> cfg_shape (gConfig w) \<and> m_MapDataLen w = 0
      \<and> length (mAllDropItem (m_DropManager w)) = 64 \<and> length (m_AllPoint (m_RoadCheckerManager w)) = 128)"

lemma Initialize_guard:
  assumes "Initialize a1 a2 a3 mk (word_of_int k) p = (True, q)" "- (2 ^ 31) \<le> k" "k < 2 ^ 31"
  shows "1 \<le> k" "k \<le> 65535" "a1 \<and> a2 \<and> a3"
proof -
  have g: "(word_of_int k :: u32) \<noteq> 0" "\<not> 0xffff < (word_of_int k :: u32)" "a1 \<and> a2 \<and> a3"
    using assms(1) by (auto simp: Initialize_def Let_def split: if_splits)
  show "a1 \<and> a2 \<and> a3" by (rule g(3))
  have u: "uint (word_of_int k :: u32) = k mod 2 ^ 32" by (simp add: uint_word_of_int)
  have le: "k mod 2 ^ 32 \<le> 65535" "k mod 2 ^ 32 \<noteq> 0"
    using g(1,2) u by (simp_all add: word_less_def word_uint_eq_iff not_less)
  have "0 \<le> k"
  proof (rule ccontr)
    assume "\<not> 0 \<le> k"
    then have "(k + 2 ^ 32) mod 2 ^ 32 = k + 2 ^ 32" using assms(2,3) by (intro mod_pos_pos_trivial) auto
    then have "k mod 2 ^ 32 = k + 2 ^ 32" by simp
    with le \<open>\<not> 0 \<le> k\<close> assms(2) show False by simp
  qed
  then have "k mod 2 ^ 32 = k" using assms(3) by simp
  with le \<open>0 \<le> k\<close> show "1 \<le> k" "k \<le> 65535" by simp_all
qed

lemma open_server_ok:
  assumes "open_server env o' fx w = Inr (Returned True, fx', w')" "m_ClientPool w = pool_new"
    and "- (2 ^ 31) \<le> o_MaxClient o'" "o_MaxClient o' < 2 ^ 31"
  shows "1 \<le> o_MaxClient o'" "o_MaxClient o' \<le> 65535" "\<exists>p. w' = w\<lparr>m_ClientPool := p\<rparr>"
    "pool_ok (m_ClientPool w')" "live (m_ClientPool w') = {}" "cap (m_ClientPool w') = nat (o_MaxClient o')"
    "o_TcpAddr o' \<noteq> None \<or> o_UdpAddr o' \<noteq> None"
proof -
  obtain a1 a2 a3 where m: "e_memory env = (a1, a2, a3)" by (metis prod_cases3)
  let ?n = "word_of_int (o_MaxClient o') :: u32"
  obtain ok q where I: "Initialize a1 a2 a3 (e_clients env) ?n (m_ClientPool w) = (ok, q)" by force
  have ok: ok and w': "w' = w\<lparr>m_ClientPool := q\<rparr>" and "o_TcpAddr o' \<noteq> None \<or> o_UdpAddr o' \<noteq> None"
    using assms(1) by (auto simp: open_server_def m I Let_def split: if_splits)
  then show "\<exists>p. w' = w\<lparr>m_ClientPool := p\<rparr>" "o_TcpAddr o' \<noteq> None \<or> o_UdpAddr o' \<noteq> None" by auto
  have I': "Initialize True True True (e_clients env) ?n pool_new = (True, q)"
    using I ok assms(2) Initialize_guard(3) [of a1 a2 a3 "e_clients env" "o_MaxClient o'" "m_ClientPool w" q] assms(3,4)
    by simp
  note g = Initialize_guard(1,2) [OF I' assms(3,4)]
  show "1 \<le> o_MaxClient o'" "o_MaxClient o' \<le> 65535" by (rule g)+
  have rep: "pool_rep [0..<unat ?n] q" by (rule Initialize_rep [OF I']) (simp add: pool_new_def)
  then show "pool_ok (m_ClientPool w')" by (auto simp: w' pool_ok_def)
  have "unat ?n = nat (o_MaxClient o')"
    using g by (simp add: unat_eq_nat_uint uint_word_of_int)
  moreover have "cap q = unat ?n" using I' by (auto simp: Initialize_def Let_def cap_def split: if_splits)
  ultimately show "cap (m_ClientPool w') = nat (o_MaxClient o')" "live (m_ClientPool w') = {}"
    using live_free_list [OF rep] by (simp_all add: w' lessThan_atLeast0)
qed


definition demo_env :: init_env where
  "demo_env = \<lparr>e_base = True, e_script = script_of [], e_pid = 1,
     e_snapshot = Some [(1, Some ''C:server.exe''), (2, Some ''broadcastserver.exe''), (3, None)],
     e_rounds = [], e_exe = None, e_starts = (\<lambda>c. True), e_memory = (True, True, True),
     e_clients = (\<lambda>i. demo_client 0), e_tcp = (\<lambda>a. True), e_http = (\<lambda>a. True), e_udp = (\<lambda>a. True)\<rparr>"

definition demo_options :: options where
  "demo_options = \<lparr>o_TcpAddr = Some ''0.0.0.0:9500'', o_HttpAddr = None, o_UdpAddr = None, o_UdpPwd = None,
     o_HeartTime = 5, o_MaxClient = 2, o_CheckConnection = False, IS_DAEMON_PROCESS = False,
     as_daemon = False, show_window = True, logName = None, filePath = None, m_LogToFile = False,
     m_LogToConsole = False\<rparr>"

definition demo_static :: world where
  "demo_static = (demo GNone)\<lparr>m_ClientPool := pool_new, gConfig := config_blank\<rparr>"


section \<open>The watching process\<close>

lemma find_process_iff:
  "find_process own tag ps \<longleftrightarrow> (\<exists>pid s. (pid, Some s) \<in> set ps \<and> pid \<noteq> own \<and> contains tag s)"
  by (induction own tag ps rule: find_process.induct) (auto split: option.splits)

lemma kill_old_set:
  "Kill s \<in> set (kill_old own path ps) \<longleftrightarrow> (\<exists>pid. (pid, Some s) \<in> set ps \<and> pid \<noteq> own
     \<and> (contains ''broadcastserver'' s \<or> path \<noteq> [] \<and> contains path s))"
  by (induction own path ps rule: kill_old.induct) (auto split: option.splits)

lemma copy_loop_id: "0 < n \<Longrightarrow> copy_loop n src = src"
proof (induction n src rule: copy_loop.induct)
  case (1 n src)
  then show ?case by (cases "src = []") (subst copy_loop.simps, simp)+
qed

lemma watch_args_plain:
  assumes "daemon_flag \<notin> set as"
  shows "watch_args (as @ [daemon_flag]) = concat (map (\<lambda>a. a @ '' '') as)"
  using assms by (induction as) auto

text \<open>
  C21: the watching process: the start as a daemon hands on the arguments of the server, joined by
  spaces, with a mark, and takes the mark off when it starts the server again, with the
  same line of arguments. It waits as long as another process has the server's file name in its
  image name, starts the server the first time none has, and ends. This is so when no argument
  is the mark itself, the whole command is shorter than the buffer of 1024 bytes it is
  written to, and the system can start the process; an argument that holds a space is not quoted.
\<close>

theorem watch_restarts_server:
  assumes "daemon_flag \<notin> set as" and args: "args = as @ [daemon_flag]"
    and "\<forall>(snap, started) \<in> set pre. \<exists>ps pid s. snap = Some ps \<and> (pid, Some s) \<in> set ps \<and> pid \<noteq> own
           \<and> contains (file_name target) s"
    and "\<forall>(pid, img) \<in> set ps. \<forall>s. img = Some s \<longrightarrow> pid = own \<or> \<not> contains (file_name target) s"
    and "length target + 1 + length (concat (map (\<lambda>a. a @ '' '') as)) < 1024"
  shows "launch_args as = watch_args args @ daemon_flag
    \<and> watch_loop own target (watch_args args) (pre @ (Some ps, True) # post)
      = Inr (Exited 0, [CreateProcess (target @ '' '' @ concat (map (\<lambda>a. a @ '' '') as)) True])"
proof -
  have w: "watch_args args = concat (map (\<lambda>a. a @ '' '') as)"
    using watch_args_plain [OF assms(1)] by (simp add: args)
  have gone: "\<not> find_process own (file_name target) ps"
    using assms(4) by (fastforce simp: find_process_iff)
  have cmd: "command_of target (watch_args args) = Inr (target @ '' '' @ watch_args args)"
    using assms(5) by (simp add: command_of_def sprintf_buf_def w)
  have "watch_loop own target (watch_args args) (pre @ (Some ps, True) # post)
      = Inr (Exited 0, [CreateProcess (target @ '' '' @ watch_args args) True])"
    using assms(3)
  proof (induction pre)
    case (Cons r pre)
    obtain q st where r: "r = (Some q, st)" "find_process own (file_name target) q"
      using Cons.prems by (cases r) (fastforce simp: find_process_iff)
    with Cons show ?case by simp
  qed (use gone cmd in simp)
  then show ?thesis by (simp add: w launch_args_def)
qed

theorem watch_restarts_server_witness:
  "watch_loop 1 ''srv.exe'' (watch_args [''--max'', ''8'', ''--daemon_process''])
      [(Some [(1, Some ''srv.exe''), (2, Some ''srv.exe'')], False), (Some [(1, Some ''srv.exe'')], True)]
    = Inr (Exited 0, [CreateProcess ''srv.exe --max 8 '' True])"
proof -
  let ?args = "[''--max'', ''8'', ''--daemon_process'']"
  let ?pre = "[(Some [(1::nat, Some ''srv.exe''), (2, Some ''srv.exe'')], False)]"
  have f: "contains (file_name ''srv.exe'') ''srv.exe''" by code_simp
  have "launch_args [''--max'', ''8''] = watch_args ?args @ daemon_flag
    \<and> watch_loop 1 ''srv.exe'' (watch_args ?args) (?pre @ (Some [(1, Some ''srv.exe'')], True) # [])
      = Inr (Exited 0, [CreateProcess (''srv.exe'' @ '' '' @ concat (map (\<lambda>a. a @ '' '') [''--max'', ''8''])) True])"
  proof (rule watch_restarts_server)
    show "\<forall>(snap, started) \<in> set ?pre. \<exists>ps pid s. snap = Some ps \<and> (pid, Some s) \<in> set ps \<and> pid \<noteq> 1
        \<and> contains (file_name ''srv.exe'') s"
      using f by simp (rule exI [of _ 2], rule exI [of _ "''srv.exe''"], simp)
  qed (simp_all add: daemon_flag_def)
  then show ?thesis by simp
qed

end
