(* ===== verification/HttpState.thy ===== *)
theory HttpState
  imports Strings World
begin

text \<open>
  The HTTP side of the server, \<^verbatim>\<open>serverstate.cpp\<close>: the client configuration, files of the
  working directories, the state of the game, and files stored by PUT. What a handler asks of the
  HTTP library and of the system is returned as a list of effects, in order.
\<close>

section \<open>Code\<close>

datatype http_effect =
    Header string string
  | Body bytes              \<comment> \<open>\<open>evbuffer_add\<close> to the output buffer\<close>
  | Text string             \<comment> \<open>\<open>WriteData\<close>\<close>
  | Reply int string        \<comment> \<open>\<open>EndWrite\<close>: the reply is sent\<close>
  | System string           \<comment> \<open>\<open>system\<close>\<close>
  | Store string bytes      \<comment> \<open>a file created and written\<close>

text \<open>What the system answers: \<open>AutoFilePath\<close>, reading a file, \<open>_access\<close>, and \<open>fopen\<close> for writing.\<close>

record http_fs =
  auto_path :: "string \<Rightarrow> string option"
  read_file :: "string \<Rightarrow> bytes option"
  dir_exists :: "string \<Rightarrow> bool"
  can_write :: "string \<Rightarrow> bool"

definition HTTP_OK :: int where "HTTP_OK = 200"
definition HTTP_NOTFOUND :: int where "HTTP_NOTFOUND = 404"

definition Response :: "string \<Rightarrow> http_effect list" where
  "Response data =
     [Header ''Access-Control-Allow-Origin'' ''*'', Header ''Content-Type'' ''application/json'',
      Text (c_str data), Reply HTTP_OK ''ok'']"

definition ResponseJson :: "('j \<Rightarrow> string) \<Rightarrow> 'j \<Rightarrow> http_effect list" where
  "ResponseJson writer ret = Response (writer ret)"

text \<open>The loop \<open>while (!feof(fd))\<close>: the flag is set by a read that comes up short.\<close>

function read_loop :: "nat \<Rightarrow> bool \<Rightarrow> bytes \<Rightarrow> http_effect list" where
  "read_loop n eof src =
     (if eof \<or> n = 0 then []
      else let data = take n src
           in if data = [] then [] else Body data # read_loop n (length data < n) (drop n src))"
  by pat_completeness auto
termination by (relation "measure (\<lambda>(n, eof, src). length src)") auto

declare read_loop.simps [simp del]

definition get_file :: "http_fs \<Rightarrow> string \<Rightarrow> http_effect list res" where
  "get_file fs requt_path =
     rbind (substr_from 9 requt_path) (\<lambda>path.
     if path = [] then Inr [Reply HTTP_OK ''ARG ERROR'']
     else case auto_path fs path of
            None \<Rightarrow> Inr [Reply HTTP_NOTFOUND ''FILE NOT FOUND'']
          | Some file_path \<Rightarrow>
              (case read_file fs file_path of
                 None \<Rightarrow> Inl NullDeref
               | Some content \<Rightarrow>
                   Inr (read_loop (1024 * 10) False content
                     @ [Header ''Access-Control-Allow-Origin'' ''*'',
                        Header ''Content-Type'' ''application/x-www-form-urlencoded'',
                        Reply HTTP_OK ''ok''])))"

definition OnGet :: "http_fs \<Rightarrow> config \<Rightarrow> game_state \<Rightarrow> string \<Rightarrow> http_effect list res" where
  "OnGet fs c s path =
     (let fx = (if starts_with ''/getconfig'' path then Response (m_ClientConfig c) else [])
      in rbind (if starts_with ''/getfile'' path then get_file fs path
                else if starts_with ''/getstate'' path then Inr (Response (int_str (int (gs_code s))))
                else Inr [Reply HTTP_NOTFOUND ''NOT FOUND'']) (\<lambda>fx'. Inr (fx @ fx')))"

definition OnPost :: "string \<Rightarrow> http_effect list" where
  "OnPost path = []"

text \<open>
  \<open>replace_str\<close>: the search goes on behind what was put in. The loop does not end when the text
  to be replaced is empty.
\<close>

partial_function (option) replace_loop :: "string \<Rightarrow> string \<Rightarrow> nat \<Rightarrow> string \<Rightarrow> string option" where
  "replace_loop t n pos s =
     (case str_find_from t pos s of
        None \<Rightarrow> Some s
      | Some k \<Rightarrow> replace_loop t n (k + length n) (take k s @ n @ drop (k + length t) s))"

definition replace_str :: "string \<Rightarrow> string \<Rightarrow> string \<Rightarrow> string option" where
  "replace_str s t n = replace_loop t n 0 s"

function take_all :: "nat \<Rightarrow> bytes \<Rightarrow> bytes" where
  "take_all n buf = (if 0 < n \<and> buf \<noteq> [] then take n buf @ take_all n (drop n buf) else [])"
  by pat_completeness auto
termination by (relation "measure (\<lambda>(n, buf). length buf)") auto

declare take_all.simps [simp del]

definition slashes :: "string \<Rightarrow> string" where
  "slashes path = the (replace_str path ''/'' [CHR 0x5C])"

definition make_dir :: "http_fs \<Rightarrow> string \<Rightarrow> http_effect list res" where
  "make_dir fs path =
     (let last = find_last (CHR 0x5C) path
      in if last \<noteq> - 1 \<and> last \<noteq> 0 then
           rbind (substr 1 (nat (last - 1)) path) (\<lambda>dir.
           Inr (if dir_exists fs dir then [] else [System (''md '' @ dir)]))
         else Inr [])"

definition OnPut :: "http_fs \<Rightarrow> string \<Rightarrow> bytes \<Rightarrow> http_effect list res" where
  "OnPut fs requt_path buffer =
     (if \<not> starts_with ''/putfile'' requt_path then Inr []
      else rbind (substr_from 8 requt_path) (\<lambda>path0.
      if path0 = [] then Inr [Reply HTTP_OK ''ARG ERROR'']
      else let path = slashes path0
      in rbind (make_dir fs path) (\<lambda>fx.
         rbind (substr_from 1 path) (\<lambda>file.
         if \<not> can_write fs file then Inr (fx @ [Reply HTTP_OK ''WRITE ERROR''])
         else rbind (sprintf_buf 128 (''write path: '' @ path @ '' size '' @ int_str (int (length buffer))))
           (\<lambda>ret. Inr (fx @ [Store file (take_all (1024 * 10) buffer), Reply HTTP_OK ret]))))))"

section \<open>The loops\<close>

definition body_of :: "http_effect list \<Rightarrow> bytes" where
  "body_of fx = concat (map (\<lambda>e. case e of Body b \<Rightarrow> b | _ \<Rightarrow> []) fx)"

definition replies :: "http_effect list \<Rightarrow> (int \<times> string) list" where
  "replies fx = concat (map (\<lambda>e. case e of Reply c s \<Rightarrow> [(c, s)] | _ \<Rightarrow> []) fx)"

lemma body_of_simps [simp]:
  "body_of [] = []" "body_of (Body b # fx) = b @ body_of fx" "body_of (fx @ fx') = body_of fx @ body_of fx'"
  "body_of (Header h v # fx) = body_of fx" "body_of (Reply c s # fx) = body_of fx"
  by (simp_all add: body_of_def)

lemma replies_simps [simp]:
  "replies [] = []" "replies (Reply c s # fx) = (c, s) # replies fx" "replies (fx @ fx') = replies fx @ replies fx'"
  "replies (Header h v # fx) = replies fx" "replies (Body b # fx) = replies fx"
  "replies (Text t # fx) = replies fx" "replies (Store f b # fx) = replies fx" "replies (System t # fx) = replies fx"
  by (simp_all add: replies_def)

lemma read_loop_body: "0 < n \<Longrightarrow> body_of (read_loop n eof src) = (if eof then [] else src)"
proof (induction n eof src rule: read_loop.induct)
  case (1 n eof src)
  show ?case
  proof (cases "eof \<or> src = []")
    case True
    with 1(2) show ?thesis by (subst read_loop.simps) auto
  next
    case False
    then have "body_of (read_loop n (length (take n src) < n) (drop n src))
        = (if length (take n src) < n then [] else drop n src)"
      using 1 by (simp add: Let_def)
    with False 1(2) show ?thesis by (subst read_loop.simps) (auto simp: Let_def)
  qed
qed

lemma read_loop_silent: "replies (read_loop n eof src) = []"
  by (induction n eof src rule: read_loop.induct) (subst read_loop.simps, simp add: Let_def)

lemma take_all_id: "0 < n \<Longrightarrow> take_all n b = b"
proof (induction n b rule: take_all.induct)
  case (1 n b)
  then show ?case by (cases "b = []") (subst take_all.simps, simp)+
qed

text \<open>Replacing, from left to right, as a recursion over the text.\<close>

fun replace_all :: "string \<Rightarrow> string \<Rightarrow> string \<Rightarrow> string" where
  "replace_all t n [] = []"
| "replace_all t n (c # s) =
     (if t \<noteq> [] \<and> starts_with t (c # s) then n @ replace_all t n (drop (length t - 1) s)
      else c # replace_all t n s)"

lemma replace_all_None: "t \<noteq> [] \<Longrightarrow> str_find t s = None \<Longrightarrow> replace_all t n s = s"
  by (induction s) (auto split: if_splits)

lemma replace_all_Some:
  "t \<noteq> [] \<Longrightarrow> str_find t s = Some k \<Longrightarrow> replace_all t n s = take k s @ n @ replace_all t n (drop (k + length t) s)"
proof (induction s arbitrary: k)
  case (Cons c s)
  show ?case
  proof (cases "starts_with t (c # s)")
    case True
    with Cons.prems have "k = 0" by simp
    then show ?thesis using True Cons.prems(1) by (cases t) auto
  next
    case False
    with Cons.prems obtain m where "k = Suc m" "str_find t s = Some m" by auto
    with False Cons.IH [OF Cons.prems(1)] show ?thesis by simp
  qed
qed simp

lemma replace_loop_run:
  assumes "t \<noteq> []" "pos \<le> length s"
  shows "replace_loop t n pos s = Some (take pos s @ replace_all t n (drop pos s))"
  using assms(2)
proof (induction "length s - pos" arbitrary: pos s rule: less_induct)
  case less
  show ?case
  proof (cases "str_find t (drop pos s)")
    case None
    then show ?thesis
      using less.prems replace_all_None [OF assms(1) None, of n]
      by (subst replace_loop.simps) (simp add: str_find_from_def)
  next
    case (Some m)
    let ?s = "take (pos + m) s @ n @ drop (pos + m + length t) s"
    let ?pos = "pos + m + length n"
    have "starts_with t (drop m (drop pos s))" using str_find_Some [OF Some] by blast
    then obtain r where d: "drop (pos + m) s = t @ r" by (auto simp: starts_with_iff add.commute)
    have l: "length s - (pos + m) = length t + length r" by (metis d length_append length_drop)
    have t: "0 < length t" using assms(1) by simp
    have len: "length s = pos + m + length t + length r" using l t by linarith
    have "drop (pos + m + length t) s = drop (length t) (drop (pos + m) s)" by (simp add: add.commute)
    then have rest: "drop (pos + m + length t) s = r" unfolding d by simp
    have step: "replace_loop t n pos s = replace_loop t n ?pos ?s"
      using less.prems Some by (subst replace_loop.simps) (simp add: str_find_from_def)
    have "length ?s - ?pos < length s - pos" using len t by simp
    then have "replace_loop t n ?pos ?s = Some (take ?pos ?s @ replace_all t n (drop ?pos ?s))"
      by (rule less.hyps) (simp add: len)
    moreover have "take ?pos ?s = take (pos + m) s @ n" "drop ?pos ?s = r" using len rest by simp_all
    moreover have "replace_all t n (drop pos s) = take m (drop pos s) @ n @ replace_all t n r"
    proof -
      have "drop (m + length t) (drop pos s) = r" using rest by (simp add: ac_simps)
      then show ?thesis using replace_all_Some [OF assms(1) Some, of n] by simp
    qed
    moreover have "take (pos + m) s = take pos s @ take m (drop pos s)" by (rule take_add)
    ultimately show ?thesis using step by simp
  qed
qed

lemma replace_char: "replace_all [a] [b] s = map (\<lambda>c. if c = a then b else c) s"
  by (induction s) (auto simp: starts_with_def)

text \<open>
  C22: \<open>replace_str\<close> ends whenever the text to be replaced is not empty, even when the replacement
  contains it, and returns the text with every occurrence replaced, from left to right and without
  looking into what was put in; for single characters it is the pointwise replacement.
\<close>

theorem replace_str_total:
  assumes "t \<noteq> []"
  shows "replace_str s t n = Some (replace_all t n s)
    \<and> replace_str s [a] [b] = Some (map (\<lambda>c. if c = a then b else c) s)"
  using replace_loop_run [of t 0 s n] replace_loop_run [of "[a]" 0 s "[b]"] assms
  by (simp add: replace_str_def replace_char)

theorem replace_str_total_witness:
  "replace_str ''a/b/c'' ''/'' ''//'' = Some ''a//b//c''"
  using replace_str_total [of "''/''" "''a/b/c''" "''//''"] by (simp add: starts_with_def)

section \<open>The requests\<close>

lemma replies_Response [simp]: "replies (Response t) = [(HTTP_OK, ''ok'')]"
  by (simp add: Response_def)

lemma substr_from_le: "k \<le> length s \<Longrightarrow> substr_from k s = Inr (drop k s)"
  by (simp add: substr_from_def substr_def)

lemma disjoint_routes:
  "starts_with ''/getconfig'' p \<Longrightarrow> \<not> starts_with ''/getfile'' p \<and> \<not> starts_with ''/getstate'' p"
  "starts_with ''/getfile'' p \<Longrightarrow> \<not> starts_with ''/getstate'' p"
  by (auto simp: starts_with_iff)

text \<open>
  a GET is answered exactly once, with one exception and two faults: a request for the client
  configuration is answered and then answered again with 404, since the test for a file follows
  without an else; the path \<open>/getfile\<close> alone raises \<open>out_of_range\<close>; and a file that was found
  but cannot be opened is read through a null pointer.
\<close>

lemma get_replies:
  shows "case OnGet fs c s p of
      Inl e \<Rightarrow> (e = OutOfRange \<and> p = ''/getfile'')
        \<or> (e = NullDeref \<and> starts_with ''/getfile'' p
            \<and> (\<exists>f. auto_path fs (drop 9 p) = Some f \<and> read_file fs f = None))
    | Inr fx \<Rightarrow> (if starts_with ''/getconfig'' p
                then replies fx = [(HTTP_OK, ''ok''), (HTTP_NOTFOUND, ''NOT FOUND'')]
                else length (replies fx) = 1)"
proof (cases "starts_with ''/getfile'' p")
  case True
  then obtain r where p: "p = ''/getfile'' @ r" by (auto simp: starts_with_iff)
  have nc: "\<not> starts_with ''/getconfig'' p" using True disjoint_routes(1) by blast
  show ?thesis
  proof (cases r)
    case Nil
    then have "get_file fs p = Inl OutOfRange" by (simp add: p get_file_def substr_from_def substr_def)
    then show ?thesis using True nc Nil by (simp add: OnGet_def p)
  next
    case (Cons d r')
    have "substr_from 9 p = Inr (drop 9 p)" by (rule substr_from_le) (simp add: p Cons)
    then show ?thesis using True nc
      by (auto simp: OnGet_def get_file_def read_loop_silent split: option.splits)
  qed
next
  case False
  then show ?thesis using disjoint_routes(1) [of p] by (simp add: OnGet_def)
qed

text \<open>
  a file that can be found and opened is sent as it is, byte for byte in pieces of ten
  kilobytes, followed by the reply; the state of the game is sent as its number.
\<close>

lemma get_file_content:
  assumes "x \<noteq> []" "auto_path fs x = Some f" "read_file fs f = Some content"
  shows "\<exists>fx. OnGet fs c s (''/getfile/'' @ x) = Inr fx \<and> body_of fx = content
      \<and> replies fx = [(HTTP_OK, ''ok'')]
    \<and> OnGet fs c s ''/getstate'' = Inr (Response (int_str (int (gs_code s))))"
proof -
  let ?p = "''/getfile/'' @ x"
  have r: "starts_with ''/getfile'' ?p" "\<not> starts_with ''/getconfig'' ?p"
    "starts_with ''/getstate'' ''/getstate''" "\<not> starts_with ''/getfile'' ''/getstate''"
    "\<not> starts_with ''/getconfig'' ''/getstate''"
    by (simp_all add: starts_with_def)
  have "substr_from 9 ?p = Inr x" using substr_from_le [of 9 ?p] by simp
  with assms have "get_file fs ?p = Inr (read_loop (1024 * 10) False content
      @ [Header ''Access-Control-Allow-Origin'' ''*'',
         Header ''Content-Type'' ''application/x-www-form-urlencoded'', Reply HTTP_OK ''ok''])"
    by (simp add: get_file_def)
  then show ?thesis using r by (simp add: OnGet_def read_loop_body read_loop_silent)
qed

definition demo_fs :: http_fs where
  "demo_fs = \<lparr>auto_path = (\<lambda>p. if p = ''a'' then Some ''./a'' else None), read_file = (\<lambda>f. Some [1, 2, 3]),
     dir_exists = (\<lambda>d. False), can_write = (\<lambda>f. True)\<rparr>"

lemma slashes_map: "slashes p = map (\<lambda>c. if c = CHR ''/'' then CHR 0x5C else c) p"
  using replace_loop_run [of "''/''" 0 p "[CHR 0x5C]"] by (simp add: slashes_def replace_str_def replace_char)

text \<open>
  a PUT below a directory stores the body as it is, under the path with backslashes; but the
  directory part of the request, with no character of it refused, is first handed to \<open>system\<close>
  in the command \<open>md\<close>, so that a client can run any command it can write without slashes, and
  a path so long that the answer does not fit in 128 bytes overruns the handler's buffer.
\<close>

lemma put_file:
  assumes "set f \<inter> {CHR ''/'', CHR 0x5C} = {}"
    and d': "d' = map (\<lambda>c. if c = CHR ''/'' then CHR 0x5C else c) d"
    and "can_write fs (d' @ CHR 0x5C # f)"
    and msg: "msg = ''write path: '' @ CHR 0x5C # d' @ CHR 0x5C # f @ '' size '' @ int_str (int (length body))"
  shows "OnPut fs (''/putfile/'' @ d @ ''/'' @ f) body =
    (if 128 \<le> length msg then Inl StackOverrun
     else Inr ((if dir_exists fs d' then [] else [System (''md '' @ d')])
       @ [Store (d' @ CHR 0x5C # f) body, Reply HTTP_OK msg]))"
proof -
  define p where "p = ''/putfile/'' @ d @ ''/'' @ f"
  define path where "path = CHR 0x5C # d' @ CHR 0x5C # f"
  have "map (\<lambda>c. if c = CHR ''/'' then CHR 0x5C else c) f = f"
    using assms(1) by (intro map_idI) auto
  then have slash: "slashes (''/'' @ d @ ''/'' @ f) = path" by (simp add: slashes_map d' path_def)
  have sub: "substr_from 8 p = Inr (''/'' @ d @ ''/'' @ f)" using substr_from_le [of 8 p] by (simp add: p_def)
  have "find_last (CHR 0x5C) ((CHR 0x5C # d') @ CHR 0x5C # f) = int (length (CHR 0x5C # d'))"
    by (rule find_last_split) (use assms(1) in auto)
  then have last: "find_last (CHR 0x5C) path = 1 + int (length d')" by (simp add: path_def)
  have dir: "make_dir fs path = Inr (if dir_exists fs d' then [] else [System (''md '' @ d')])"
    by (simp add: make_dir_def last substr_def Let_def nat_add_distrib) (simp add: path_def)
  have fname: "substr_from 1 path = Inr (d' @ CHR 0x5C # f)" using substr_from_le [of 1 path] by (simp add: path_def)
  have put: "starts_with ''/putfile'' p" by (simp add: starts_with_def p_def)
  have msg': "''write path: '' @ path @ '' size '' @ int_str (int (length body)) = msg" by (simp add: msg path_def)
  have "OnPut fs p body = rbind (Inr (if dir_exists fs d' then [] else [System (''md '' @ d')])) (\<lambda>fx.
      rbind (sprintf_buf 128 msg) (\<lambda>ret. Inr (fx @ [Store (d' @ CHR 0x5C # f) body, Reply HTTP_OK ret])))"
    using assms(3) unfolding OnPut_def sub rbind_Inr slash dir Let_def fname msg' using put
    by (simp add: take_all_id)
  then show ?thesis by (simp add: sprintf_buf_def p_def)
qed

end
