(* ===== verification/Properties.thy ===== *)
theory Properties
  imports Strings
begin

text \<open>
  The property table of \<^verbatim>\<open>properties.h\<close>: named strings with typed readers, each of which keeps what
  it has parsed in a cache. \<open>Load\<close> and \<open>GetAsStrArray\<close> are only declared in the repository and are
  not modelled. The type of \<open>double\<close> and \<open>atof\<close> are parameters.
\<close>

section \<open>Code\<close>

record 'd props =
  properties :: "string \<rightharpoonup> string"
  properties_uint32_cache :: "string \<rightharpoonup> u32"
  properties_uint64_cache :: "string \<rightharpoonup> u64"
  properties_double_cache :: "string \<rightharpoonup> 'd"

definition prop_Get :: "string \<Rightarrow> 'd props \<Rightarrow> string option" where
  "prop_Get key p = properties p key"

definition GetAsCStr :: "string \<Rightarrow> string \<Rightarrow> 'd props \<Rightarrow> string" where
  "GetAsCStr key d p = (case prop_Get key p of Some value \<Rightarrow> value | None \<Rightarrow> d)"

text \<open>
  The template \<open>GetAsType\<close>: \<open>out\<close> converts what the cache holds to the result type, \<open>atot\<close> parses,
  and \<open>enter\<close> converts what was parsed to the type of the cache.
\<close>

definition GetAsType ::
  "('c \<Rightarrow> 't) \<Rightarrow> (string \<Rightarrow> 't) \<Rightarrow> ('t \<Rightarrow> 'c) \<Rightarrow> (string \<rightharpoonup> 'c) \<Rightarrow> string \<Rightarrow> 't \<Rightarrow> 'd props
   \<Rightarrow> 't \<times> (string \<rightharpoonup> 'c)" where
  "GetAsType out atot enter cache key d p =
     (case cache key of
        Some x \<Rightarrow> (out x, cache)
      | None \<Rightarrow>
          (case prop_Get key p of
             Some value \<Rightarrow> (let data = atot value in (data, cache(key \<mapsto> enter data)))
           | None \<Rightarrow> (d, cache)))"

definition atot_uint32 :: "string \<Rightarrow> u32" where "atot_uint32 s = word_of_int (atoi s)"
definition atot_int32 :: "string \<Rightarrow> int" where "atot_int32 s = atoi s"
definition atot_uint64 :: "string \<Rightarrow> u64" where "atot_uint64 s = word_of_int (atoll s)"
definition atot_int64 :: "string \<Rightarrow> int" where "atot_int64 s = atoll s"

definition GetAsUint32 :: "string \<Rightarrow> u32 \<Rightarrow> 'd props \<Rightarrow> u32 \<times> 'd props" where
  "GetAsUint32 key d p =
     (let (r, c) = GetAsType (\<lambda>x. x) atot_uint32 (\<lambda>x. x) (properties_uint32_cache p) key d p
      in (r, p\<lparr>properties_uint32_cache := c\<rparr>))"

definition GetAsInt32 :: "string \<Rightarrow> int \<Rightarrow> 'd props \<Rightarrow> int \<times> 'd props" where
  "GetAsInt32 key d p =
     (let (r, c) = GetAsType sint atot_int32 word_of_int (properties_uint32_cache p) key d p
      in (r, p\<lparr>properties_uint32_cache := c\<rparr>))"

text \<open>The return type of \<open>GetAsUint64\<close> is \<open>uint32\<close>.\<close>

definition GetAsUint64 :: "string \<Rightarrow> u64 \<Rightarrow> 'd props \<Rightarrow> u32 \<times> 'd props" where
  "GetAsUint64 key d p =
     (let (r, c) = GetAsType (\<lambda>x. x) atot_uint64 (\<lambda>x. x) (properties_uint64_cache p) key d p
      in (ucast r, p\<lparr>properties_uint64_cache := c\<rparr>))"

definition GetAsInt64 :: "string \<Rightarrow> int \<Rightarrow> 'd props \<Rightarrow> int \<times> 'd props" where
  "GetAsInt64 key d p =
     (let (r, c) = GetAsType sint atot_int64 word_of_int (properties_uint64_cache p) key d p
      in (r, p\<lparr>properties_uint64_cache := c\<rparr>))"

definition GetAsF64 :: "(string \<Rightarrow> 'd) \<Rightarrow> string \<Rightarrow> 'd \<Rightarrow> 'd props \<Rightarrow> 'd \<times> 'd props" where
  "GetAsF64 atof key d p =
     (let (r, c) = GetAsType (\<lambda>x. x) atof (\<lambda>x. x) (properties_double_cache p) key d p
      in (r, p\<lparr>properties_double_cache := c\<rparr>))"

definition GetAsBool :: "string \<Rightarrow> bool \<Rightarrow> 'd props \<Rightarrow> bool \<times> 'd props" where
  "GetAsBool key d p = (let (r, p') = GetAsUint32 key (if d then 1 else 0) p in (0 < r, p'))"

definition UpdateKey :: "string \<Rightarrow> string \<Rightarrow> 'd props \<Rightarrow> string \<times> 'd props" where
  "UpdateKey key value p =
     (case properties p key of
        Some origin \<Rightarrow> (origin, p\<lparr>properties := (properties p)(key \<mapsto> value),
           properties_uint32_cache := (properties_uint32_cache p)(key := None),
           properties_uint64_cache := (properties_uint64_cache p)(key := None),
           properties_double_cache := (properties_double_cache p)(key := None)\<rparr>)
      | None \<Rightarrow> ([], p))"

section \<open>The caches are invisible\<close>

text \<open>Every cached value is the one its property has now.\<close>

definition cache_ok :: "(string \<Rightarrow> 'c) \<Rightarrow> (string \<rightharpoonup> string) \<Rightarrow> (string \<rightharpoonup> 'c) \<Rightarrow> bool" where
  "cache_ok parse m c = (\<forall>k x. c k = Some x \<longrightarrow> (\<exists>s. m k = Some s \<and> x = parse s))"

definition props_ok :: "(string \<Rightarrow> 'd) \<Rightarrow> 'd props \<Rightarrow> bool" where
  "props_ok atof p =
     (cache_ok atot_uint32 (properties p) (properties_uint32_cache p)
      \<and> cache_ok atot_uint64 (properties p) (properties_uint64_cache p)
      \<and> cache_ok atof (properties p) (properties_double_cache p))"

definition reads :: "(string \<Rightarrow> 't) \<Rightarrow> string \<Rightarrow> 't \<Rightarrow> 'd props \<Rightarrow> 't" where
  "reads parse key d p = (case properties p key of Some s \<Rightarrow> parse s | None \<Rightarrow> d)"

lemma GetAsType_reads:
  assumes "cache_ok parse (properties p) c" "\<And>s. out (parse s) = atot s" "\<And>s. enter (atot s) = parse s"
  shows "fst (GetAsType out atot enter c key d p) = reads atot key d p"
    and "cache_ok parse (properties p) (snd (GetAsType out atot enter c key d p))"
proof -
  have hit: "\<exists>s. properties p key = Some s \<and> x = parse s" if "c key = Some x" for x
    using assms(1) that by (simp add: cache_ok_def)
  show "fst (GetAsType out atot enter c key d p) = reads atot key d p"
    using hit assms(2) by (fastforce simp: GetAsType_def reads_def prop_Get_def Let_def split: option.splits)
  show "cache_ok parse (properties p) (snd (GetAsType out atot enter c key d p))"
    using assms(1,3) by (auto simp: GetAsType_def cache_ok_def prop_Get_def Let_def split: option.splits)
qed

lemma cache_ok_update: "cache_ok parse m c \<Longrightarrow> cache_ok parse (m(k \<mapsto> v)) (c(k := None))"
  by (simp add: cache_ok_def)

lemma atoi_range: "- (2 ^ 31) \<le> atoi s" "atoi s < 2 ^ 31"
  by (auto simp: atoi_def clamp_int_def Let_def)

lemma atoll_range: "- (2 ^ 63) \<le> atoll s" "atoll s < 2 ^ 63"
  by (auto simp: atoll_def clamp_int64_def Let_def)

lemma sint_atoi: "sint (atot_uint32 s) = atot_int32 s"
  using atoi_range [of s] by (simp add: atot_uint32_def atot_int32_def signed_of_int signed_take_bit_int_eq_self)

lemma sint_atoll: "sint (atot_uint64 s) = atot_int64 s"
  using atoll_range [of s] by (simp add: atot_uint64_def atot_int64_def signed_of_int signed_take_bit_int_eq_self)

datatype 'd prop_op =
    ReadU32 string u32 | ReadI32 string int | ReadU64 string u64 | ReadI64 string int
  | ReadF64 string 'd | ReadBool string bool | Update string string

fun run_prop :: "(string \<Rightarrow> 'd) \<Rightarrow> 'd prop_op \<Rightarrow> 'd props \<Rightarrow> 'd props" where
  "run_prop atof (ReadU32 k d) p = snd (GetAsUint32 k d p)"
| "run_prop atof (ReadI32 k d) p = snd (GetAsInt32 k d p)"
| "run_prop atof (ReadU64 k d) p = snd (GetAsUint64 k d p)"
| "run_prop atof (ReadI64 k d) p = snd (GetAsInt64 k d p)"
| "run_prop atof (ReadF64 k d) p = snd (GetAsF64 atof k d p)"
| "run_prop atof (ReadBool k d) p = snd (GetAsBool k d p)"
| "run_prop atof (Update k v) p = snd (UpdateKey k v p)"

text \<open>The table without caches: reading changes nothing, an update changes an existing key.\<close>

fun spec_prop :: "'d prop_op \<Rightarrow> (string \<rightharpoonup> string) \<Rightarrow> (string \<rightharpoonup> string)" where
  "spec_prop (Update k v) m = (if m k = None then m else m(k \<mapsto> v))"
| "spec_prop op m = m"

lemma GetAsUint32_reads:
  assumes "props_ok atof p"
  shows "fst (GetAsUint32 k d p) = reads atot_uint32 k d p" "props_ok atof (snd (GetAsUint32 k d p))"
    "properties (snd (GetAsUint32 k d p)) = properties p"
  using GetAsType_reads [of atot_uint32 p "properties_uint32_cache p" "\<lambda>x. x" atot_uint32 "\<lambda>x. x" k d] assms
  by (simp_all add: GetAsUint32_def props_ok_def split_beta Let_def)

lemma GetAsInt32_reads:
  assumes "props_ok atof p"
  shows "fst (GetAsInt32 k d p) = reads atot_int32 k d p" "props_ok atof (snd (GetAsInt32 k d p))"
    "properties (snd (GetAsInt32 k d p)) = properties p"
  using GetAsType_reads [of atot_uint32 p "properties_uint32_cache p" sint atot_int32 word_of_int k d] assms sint_atoi
  by (simp_all add: GetAsInt32_def props_ok_def atot_int32_def atot_uint32_def split_beta Let_def)

lemma GetAsUint64_reads:
  assumes "props_ok atof p"
  shows "fst (GetAsUint64 k d p) = ucast (reads atot_uint64 k d p)" "props_ok atof (snd (GetAsUint64 k d p))"
    "properties (snd (GetAsUint64 k d p)) = properties p"
  using GetAsType_reads [of atot_uint64 p "properties_uint64_cache p" "\<lambda>x. x" atot_uint64 "\<lambda>x. x" k d] assms
  by (simp_all add: GetAsUint64_def props_ok_def split_beta Let_def)

lemma GetAsInt64_reads:
  assumes "props_ok atof p"
  shows "fst (GetAsInt64 k d p) = reads atot_int64 k d p" "props_ok atof (snd (GetAsInt64 k d p))"
    "properties (snd (GetAsInt64 k d p)) = properties p"
  using GetAsType_reads [of atot_uint64 p "properties_uint64_cache p" sint atot_int64 word_of_int k d] assms sint_atoll
  by (simp_all add: GetAsInt64_def props_ok_def atot_int64_def atot_uint64_def split_beta Let_def)

lemma GetAsF64_reads:
  assumes "props_ok atof p"
  shows "fst (GetAsF64 atof k d p) = reads atof k d p" "props_ok atof (snd (GetAsF64 atof k d p))"
    "properties (snd (GetAsF64 atof k d p)) = properties p"
  using GetAsType_reads [of atof p "properties_double_cache p" "\<lambda>x. x" atof "\<lambda>x. x" k d] assms
  by (simp_all add: GetAsF64_def props_ok_def split_beta Let_def)

lemma GetAsBool_reads:
  assumes "props_ok atof p"
  shows "props_ok atof (snd (GetAsBool k d p))" "properties (snd (GetAsBool k d p)) = properties p"
  using GetAsUint32_reads [OF assms] by (simp_all add: GetAsBool_def Let_def  split_beta)

lemma UpdateKey_ok:
  assumes "props_ok atof p"
  shows "props_ok atof (snd (UpdateKey k v p))"
    "properties (snd (UpdateKey k v p)) = (if properties p k = None then properties p else (properties p)(k \<mapsto> v))"
  using assms by (auto simp: UpdateKey_def props_ok_def cache_ok_update split: option.splits)

lemma run_prop_ok: "props_ok atof p \<Longrightarrow> props_ok atof (run_prop atof x p) \<and> properties (run_prop atof x p) = spec_prop x (properties p)"
  by (cases x) (simp_all add: GetAsUint32_reads GetAsInt32_reads GetAsUint64_reads GetAsInt64_reads GetAsF64_reads
      GetAsBool_reads UpdateKey_ok)

lemma run_props_ok: "props_ok atof p \<Longrightarrow> props_ok atof (fold (run_prop atof) xs p)
    \<and> properties (fold (run_prop atof) xs p) = fold spec_prop xs (properties p)"
  by (induction xs arbitrary: p) (simp_all add: run_prop_ok)

text \<open>
  C23: the caches of the property table cannot be seen: from a table without cached values, after
  any sequence of reads and updates, the strings are those of a table without caches, and every
  reader returns what its parser makes of the string that is there now, or its default without
  one: numbers by the C library's conversions, a truth value by whether the unsigned number is not
  zero, and a string as it is; except that the reader of unsigned 64-bit values returns only
  the low 32 bits.
\<close>

theorem caches_invisible:
  fixes p0 :: "'d props"
  assumes "properties_uint32_cache p0 = (\<lambda>k. None)" "properties_uint64_cache p0 = (\<lambda>k. None)"
    and "properties_double_cache p0 = (\<lambda>k. None)" and p: "p = fold (run_prop atof) xs p0"
  shows "properties p = fold spec_prop xs (properties p0)
    \<and> fst (GetAsUint32 k u p) = (case properties p k of Some s \<Rightarrow> word_of_int (atoi s) | None \<Rightarrow> u)
    \<and> fst (GetAsInt32 k i p) = (case properties p k of Some s \<Rightarrow> atoi s | None \<Rightarrow> i)
    \<and> fst (GetAsUint64 k v p) = (case properties p k of Some s \<Rightarrow> word_of_int (atoll s) | None \<Rightarrow> ucast v)
    \<and> fst (GetAsInt64 k i p) = (case properties p k of Some s \<Rightarrow> atoll s | None \<Rightarrow> i)
    \<and> fst (GetAsF64 atof k d p) = (case properties p k of Some s \<Rightarrow> atof s | None \<Rightarrow> d)
    \<and> fst (GetAsBool k b p) = (case properties p k of Some s \<Rightarrow> (word_of_int (atoi s) :: u32) \<noteq> 0 | None \<Rightarrow> b)
    \<and> GetAsCStr k c p = (case properties p k of Some s \<Rightarrow> s | None \<Rightarrow> c)"
proof -
  have "props_ok atof p0" using assms(1-3) by (simp add: props_ok_def cache_ok_def)
  then have p': "props_ok atof p" "properties p = fold spec_prop xs (properties p0)"
    using run_props_ok [of atof p0 xs] by (simp_all add: p)
  have "(ucast (word_of_int n :: u64) :: u32) = word_of_int n" for n
    by (rule bit_word_eqI) (simp add: bit_simps)
  then show ?thesis
    using p' by (simp add: GetAsUint32_reads GetAsInt32_reads GetAsUint64_reads GetAsInt64_reads GetAsF64_reads
        GetAsBool_def split_beta Let_def GetAsCStr_def prop_Get_def word_greater_zero_iff
        reads_def atot_uint32_def atot_int32_def atot_uint64_def atot_int64_def split: option.splits)
qed

definition example_props :: "unit props" where
  "example_props = \<lparr>properties = [''max'' \<mapsto> ''2''], properties_uint32_cache = (\<lambda>k. None),
     properties_uint64_cache = (\<lambda>k. None), properties_double_cache = (\<lambda>k. None)\<rparr>"

theorem caches_invisible_witness:
  "fst (GetAsUint32 ''max'' 0 (fold (run_prop (\<lambda>s. ())) [ReadU32 ''max'' 0, Update ''max'' ''8''] example_props)) = 8"
proof -
  have "atoi ''8'' = 8" by code_simp
  then show ?thesis
    using caches_invisible [of example_props _ "\<lambda>s. ()" "[ReadU32 ''max'' 0, Update ''max'' ''8'']" "''max''" 0]
    by (simp add: example_props_def)
qed

text \<open>
  a number written as text comes back: after an update of an existing property with the
  decimal form of \<open>n\<close>, the signed readers return \<open>n\<close>, if it fits the type, whatever was cached
  before; \<open>GetAsUint64\<close> returns it modulo \<open>2 ^ 32\<close>.
\<close>

lemma update_then_read:
  assumes "props_ok atof p" "properties p k \<noteq> None" "- (2 ^ 63) \<le> n" "n < 2 ^ 63"
    and q: "q = snd (UpdateKey k (int_str n) p)"
  shows "fst (GetAsInt64 k i q) = n \<and> fst (GetAsUint64 k v q) = word_of_int n
    \<and> (- (2 ^ 31) \<le> n \<and> n < 2 ^ 31 \<longrightarrow> fst (GetAsInt32 k i q) = n)
    \<and> fst (UpdateKey k (int_str n) p) = the (properties p k)"
proof -
  have q': "props_ok atof q" "properties q k = Some (int_str n)"
    using UpdateKey_ok [OF assms(1), of k "int_str n"] assms(2) by (auto simp: q)
  have "(ucast (word_of_int n :: u64) :: u32) = word_of_int n"
    by (rule bit_word_eqI) (simp add: bit_simps)
  then show ?thesis
    using q' assms(2-4)
    by (auto simp: GetAsInt32_reads GetAsInt64_reads GetAsUint64_reads reads_def atot_int32_def atot_int64_def
        atot_uint64_def atoi_int_str atoll_int_str UpdateKey_def)
qed

end
