(* ===== verification/Codec.thy ===== *)
theory Codec
  imports Prelude
begin

unbundle bit_operations_syntax

text \<open>
  The text encodings of \<^verbatim>\<open>bin2ascii.h\<close>: hexadecimal and base64. Strings are lists of bytes; plain
  \<open>char\<close> is signed, as on the program's platforms, so that a byte from 0x80 on is a negative index
  where the code uses it as one.
\<close>

section \<open>Hexadecimal\<close>

text \<open>The table of \<open>hex2bin\<close>, row by row; 0x80 marks what is no digit.\<close>

definition hex_table :: "u8 list" where
  "hex_table = replicate 48 0x80 @ [0, 1, 2, 3, 4, 5, 6, 7, 8, 9] @ replicate 7 0x80
     @ [0x0a, 0x0b, 0x0c, 0x0d, 0x0e, 0x0f] @ replicate 26 0x80
     @ [0x0a, 0x0b, 0x0c, 0x0d, 0x0e, 0x0f] @ replicate 25 0x80 @ replicate 128 0x80"

definition hex_digits :: "u8 list" where
  "hex_digits = map (\<lambda>c. of_char c) ''0123456789abcdef''"

text \<open>An array indexed by a \<open>char\<close>.\<close>

definition char_index :: "u8 list \<Rightarrow> u8 \<Rightarrow> u8 res" where
  "char_index table c = arr_get table (sint c)"

fun hex2bin_loop :: "bytes \<Rightarrow> bytes res" where
  "hex2bin_loop (x # y # s) =
     rbind (char_index hex_table x) (\<lambda>hi.
     rbind (char_index hex_table y) (\<lambda>lo.
     if 0x80 AND (hi OR lo) \<noteq> 0 then Inl RuntimeError
     else rbind (hex2bin_loop s) (\<lambda>r. Inr ((push_bit 4 hi OR lo) # r))))"
| "hex2bin_loop s = Inr []"

definition hex2bin :: "bytes \<Rightarrow> bytes res" where
  "hex2bin s = (if length s mod 2 \<noteq> 0 then Inl RuntimeError else hex2bin_loop s)"

text \<open>\<open>s[i] >> 4\<close> is an arithmetic shift of the signed value.\<close>

fun bin2hex :: "bytes \<Rightarrow> bytes res" where
  "bin2hex [] = Inr []"
| "bin2hex (c # s) =
     rbind (arr_get hex_digits (sint c div 16)) (\<lambda>hi.
     rbind (arr_get hex_digits (uint (c AND 0xf))) (\<lambda>lo.
     rbind (bin2hex s) (\<lambda>r. Inr (hi # lo # r))))"

section \<open>Base64\<close>

definition b64_digits :: "u8 list" where
  "b64_digits = map (\<lambda>c. of_char c) ''ABCDEFGHIJKLMNOPQRSTUVWXYZabcdefghijklmnopqrstuvwxyz0123456789+/''"

text \<open>The table of \<open>b64_decode\<close>; the pad character counts as zero.\<close>

definition b64_table :: "u8 list" where
  "b64_table = replicate 43 0x80 @ [0x3e] @ replicate 3 0x80 @ [0x3f]
     @ map word_of_nat [52..<62] @ replicate 3 0x80 @ [0] @ replicate 2 0x80
     @ [0x80] @ map word_of_nat [0..<26] @ replicate 5 0x80
     @ [0x80] @ map word_of_nat [26..<52] @ replicate 5 0x80 @ replicate 128 0x80"

definition PAD :: u8 where "PAD = 0x3d"

definition sextet :: "nat \<Rightarrow> u32 \<Rightarrow> u8" where
  "sextet k n = (ucast (drop_bit k n) :: u8) AND 0x3f"

definition b64_digit :: "u8 \<Rightarrow> u8" where
  "b64_digit d = b64_digits ! unat d"

definition join3 :: "u8 \<Rightarrow> u8 \<Rightarrow> u8 \<Rightarrow> u32" where
  "join3 a b c = push_bit 16 (ucast a) OR push_bit 8 (ucast b) OR ucast c"

fun b64_loop :: "bytes \<Rightarrow> bytes" where
  "b64_loop [] = []"
| "b64_loop [a] = (let n = join3 a 0 0 in [b64_digit (sextet 18 n), b64_digit (sextet 12 n)])"
| "b64_loop [a, b] =
     (let n = join3 a b 0
      in [b64_digit (sextet 18 n), b64_digit (sextet 12 n), b64_digit (sextet 6 n)])"
| "b64_loop (a # b # c # s) =
     (let n = join3 a b c
      in b64_digit (sextet 18 n) # b64_digit (sextet 12 n) # b64_digit (sextet 6 n)
         # b64_digit (sextet 0 n) # b64_loop s)"

definition b64_encode :: "bytes \<Rightarrow> bytes" where
  "b64_encode s = b64_loop s @ replicate ((3 - length s mod 3) mod 3) PAD"

fun b64_decode_loop :: "bytes \<Rightarrow> bytes res" where
  "b64_decode_loop (w # x # y # z # s) =
     (let n0 = b64_table ! unat w; n1 = b64_table ! unat x;
          n2 = b64_table ! unat y; n3 = b64_table ! unat z
      in if 0x80 AND (n0 OR n1 OR n2 OR n3) \<noteq> 0 then Inl RuntimeError
         else let n = (push_bit 18 (ucast n0) OR push_bit 12 (ucast n1)
                        OR push_bit 6 (ucast n2) OR ucast n3 :: u32)
         in rbind (b64_decode_loop s) (\<lambda>r.
            Inr ([ucast (drop_bit 16 n AND 0xff)]
              @ (if y \<noteq> PAD then [ucast (drop_bit 8 n AND 0xff)] else [])
              @ (if z \<noteq> PAD then [ucast (n AND 0xff)] else []) @ r)))"
| "b64_decode_loop s = Inr []"

definition b64_decode :: "bytes \<Rightarrow> bytes res" where
  "b64_decode s =
     (if s = [] then Inr []
      else if length s mod 4 \<noteq> 0 then Inl RuntimeError
      else b64_decode_loop s)"

section \<open>Tables\<close>

text \<open>The tables are checked entry by entry.\<close>

lemma by_entries:
  assumes "list_all (\<lambda>k. P (word_of_int k)) [0..n]" "uint (d :: u8) \<le> n"
  shows "P d"
proof -
  have "uint d \<in> set [0..n]" using assms(2) by simp
  then have "P (word_of_int (uint d))" using assms(1) unfolding list_all_iff by blast
  then show ?thesis by simp
qed

lemma b64_digit_inverse:
  assumes "uint d < 64"
  shows "b64_table ! unat (b64_digit d) = d \<and> b64_digit d \<noteq> PAD \<and> 0x80 AND d = 0"
proof (rule by_entries [where n = 63 and d = d])
  show "list_all (\<lambda>k. b64_table ! unat (b64_digit (word_of_int k)) = word_of_int k
      \<and> b64_digit (word_of_int k) \<noteq> PAD \<and> 0x80 AND (word_of_int k :: u8) = 0) [0..63]"
    by code_simp
  show "uint d \<le> 63" using assms by simp
qed

definition hex_entry_ok :: "u8 \<Rightarrow> bool" where
  "hex_entry_ok d \<longleftrightarrow>
     (case arr_get hex_digits (uint d) of Inr c \<Rightarrow> char_index hex_table c = Inr d \<and> 0x80 AND d = 0
      | Inl e \<Rightarrow> False)"

lemma hex_digit_inverse:
  assumes "uint d < 16"
  shows "hex_entry_ok d"
proof (rule by_entries [where n = 15 and d = d])
  show "list_all (\<lambda>k. hex_entry_ok (word_of_int k)) [0..15]" by code_simp
  show "uint d \<le> 15" using assms by simp
qed

lemma sextet_small: "uint (sextet k n) < 64"
proof -
  have "sextet k n \<le> 0x3f" unfolding sextet_def by (rule word_and_le1)
  then show ?thesis by (simp add: word_le_def)
qed

lemma bit_sextet: "bit (ucast (sextet k n) :: u32) j \<longleftrightarrow> j < 6 \<and> bit n (k + j)"
proof -
  have m: "(0x3f :: u8) = mask 6" by (simp add: mask_eq_exp_minus_1)
  show ?thesis by (auto simp: sextet_def m bit_simps)
qed

lemma bit_shifted_sextet:
  "i < 32 \<Longrightarrow> bit (push_bit p (ucast (sextet k n)) :: u32) i \<longleftrightarrow> p \<le> i \<and> i - p < 6 \<and> bit n (k + (i - p))"
  by (simp add: bit_push_bit_iff bit_sextet)

lemma join_sextets:
  assumes "take_bit 24 n = n"
  shows "push_bit 18 (ucast (sextet 18 n)) OR push_bit 12 (ucast (sextet 12 n))
      OR push_bit 6 (ucast (sextet 6 n)) OR ucast (sextet 0 n) = (n :: u32)"
proof (rule bit_word_eqI)
  fix i :: nat
  assume "i < LENGTH(32)"
  then have i: "i < 32" by simp
  have hi: "bit n i \<Longrightarrow> i < 24" using assms by (metis bit_take_bit_iff)
  consider "i < 6" | "6 \<le> i \<and> i < 12" | "12 \<le> i \<and> i < 18" | "18 \<le> i \<and> i < 24" | "24 \<le> i" by linarith
  then show "bit (push_bit 18 (ucast (sextet 18 n)) OR push_bit 12 (ucast (sextet 12 n))
      OR push_bit 6 (ucast (sextet 6 n)) OR ucast (sextet 0 n) :: u32) i = bit n i"
    using hi by cases (simp_all only: bit_or_iff bit_shifted_sextet [OF i] bit_sextet, auto)
qed

text \<open>The four table entries of a group that \<open>b64_loop\<close> wrote are its sextets again.\<close>

lemma entry_of_sextet: "b64_table ! unat (b64_digit (sextet k n)) = sextet k n"
  and digit_is_no_pad: "b64_digit (sextet k n) \<noteq> PAD"
  and sextet_top: "0x80 AND sextet k n = 0"
  using b64_digit_inverse [OF sextet_small [of k n]] by simp_all

lemma no_top_or: "0x80 AND (a OR b OR c OR d :: u8) = 0
    \<longleftrightarrow> 0x80 AND a = 0 \<and> 0x80 AND b = 0 \<and> 0x80 AND c = 0 \<and> 0x80 AND d = 0"
  by (simp add: bit.conj_disj_distrib or_eq_0_iff)

lemma entry_of_pad: "b64_table ! unat PAD = 0"
  by code_simp

lemma take_join: "take_bit 24 (join3 a b c) = join3 a b c"
  by (intro bit_word_eqI) (auto simp: join3_def bit_simps dest: bit_imp_le_length)

lemma join3_bytes:
  "ucast (drop_bit 16 (join3 a b c) AND 0xff) = a"
  "ucast (drop_bit 8 (join3 a b c) AND 0xff) = b"
  "ucast (join3 a b c AND 0xff) = c"
proof -
  have m: "(0xff :: u32) = mask 8" by (simp add: mask_eq_exp_minus_1)
  show "ucast (drop_bit 16 (join3 a b c) AND 0xff) = a"
    by (intro bit_word_eqI) (auto simp: join3_def m bit_simps dest: bit_imp_le_length)
  show "ucast (drop_bit 8 (join3 a b c) AND 0xff) = b"
    by (intro bit_word_eqI) (auto simp: join3_def m bit_simps dest: bit_imp_le_length)
  show "ucast (join3 a b c AND 0xff) = c"
    by (intro bit_word_eqI) (auto simp: join3_def m bit_simps dest: bit_imp_le_length)
qed

lemma sextet_rest:
  "sextet 0 (join3 a b 0) = 0"
  "sextet 6 (join3 a 0 0) = 0"
  "sextet 0 (join3 a 0 0) = 0"
proof -
  have m: "(0x3f :: u8) = mask 6" by (simp add: mask_eq_exp_minus_1)
  show "sextet 0 (join3 a b 0) = 0"
    by (intro bit_word_eqI) (auto simp: sextet_def join3_def m bit_simps)
  show "sextet 6 (join3 a 0 0) = 0"
    by (intro bit_word_eqI) (auto simp: sextet_def join3_def m bit_simps)
  show "sextet 0 (join3 a 0 0) = 0"
    by (intro bit_word_eqI) (auto simp: sextet_def join3_def m bit_simps)
qed

lemma decode_group:
  assumes "b64_decode_loop s = Inr r"
  shows "b64_decode_loop (b64_digit (sextet 18 (join3 a b c)) # b64_digit (sextet 12 (join3 a b c))
           # b64_digit (sextet 6 (join3 a b c)) # b64_digit (sextet 0 (join3 a b c)) # s) = Inr (a # b # c # r)"
  using assms
  by (simp add: Let_def entry_of_sextet digit_is_no_pad no_top_or sextet_top
      join_sextets [OF take_join] join3_bytes rbind_def)

lemma decode_group_2:
  "b64_decode_loop [b64_digit (sextet 18 (join3 a b 0)), b64_digit (sextet 12 (join3 a b 0)),
      b64_digit (sextet 6 (join3 a b 0)), PAD] = Inr [a, b]"
  using join_sextets [OF take_join [of a b 0]]
  by (simp add: Let_def entry_of_sextet entry_of_pad digit_is_no_pad no_top_or sextet_top
      sextet_rest join3_bytes rbind_def)

lemma decode_group_1:
  "b64_decode_loop [b64_digit (sextet 18 (join3 a 0 0)), b64_digit (sextet 12 (join3 a 0 0)), PAD, PAD]
    = Inr [a]"
  using join_sextets [OF take_join [of a 0 0]]
  by (simp add: Let_def entry_of_sextet entry_of_pad digit_is_no_pad no_top_or sextet_top
      sextet_rest join3_bytes rbind_def)

lemma padding_step: "(3 - length (a # b # c # s) mod 3) mod 3 = (3 - length s mod 3) mod 3"
  by (simp add: mod_Suc)

lemma decode_encode: "b64_decode_loop (b64_encode s) = Inr s"
proof (induction s rule: b64_loop.induct)
  case (4 a b c s)
  then show ?case
    unfolding b64_encode_def padding_step
    by (simp add: Let_def decode_group del: b64_decode_loop.simps)
qed (simp_all add: b64_encode_def Let_def decode_group_2 decode_group_1 numeral_2_eq_2
      del: b64_decode_loop.simps, simp)

lemma length_b64_loop: "length (b64_loop s) + (3 - length s mod 3) mod 3 = 4 * ((length s + 2) div 3)"
proof (induction s rule: b64_loop.induct)
  case (4 a b c s)
  have "(length (a # b # c # s) + 2) div 3 = Suc ((length s + 2) div 3)" by simp
  with 4 show ?case unfolding padding_step by (simp only:) (simp add: Let_def)
qed (simp_all add: Let_def)

lemma length_b64_encode: "length (b64_encode s) = 4 * ((length s + 2) div 3)"
  using length_b64_loop [of s] by (simp add: b64_encode_def)

text \<open>C24: Base64 of any bytes has four characters for each group of three bytes or part of one, and
  decoding it gives the bytes back.\<close>

theorem b64_roundtrip:
  "length (b64_encode s) = 4 * ((length s + 2) div 3) \<and> b64_decode (b64_encode s) = Inr s"
  using decode_encode [of s] by (auto simp: b64_decode_def length_b64_encode)

section \<open>Hexadecimal round trip\<close>

lemma hex_of_digit:
  assumes "uint d < 16"
  obtains c where "arr_get hex_digits (uint d) = Inr c" "char_index hex_table c = Inr d" "0x80 AND d = 0"
  using hex_digit_inverse [OF assms] unfolding hex_entry_ok_def by (auto split: sum.splits)

lemma low_nibble: "uint ((c :: u8) AND 0xf) < 16"
proof -
  have "c AND 0xf \<le> 0xf" by (rule word_and_le1)
  then show ?thesis by (simp add: word_le_def)
qed

lemma nibbles: "push_bit 4 (drop_bit 4 c) OR (c AND 0xf) = (c :: u8)"
proof -
  have m: "(0xf :: u8) = mask 4" by (simp add: mask_eq_exp_minus_1)
  show ?thesis by (intro bit_word_eqI) (auto simp: m bit_simps)
qed

lemma char_halves:
  "if uint (c :: u8) < 128 then sint c div 16 = uint (drop_bit 4 c) \<and> uint (drop_bit 4 c) < 16
   else sint c div 16 < 0"
proof (rule by_entries [where n = 255 and d = c])
  show "list_all (\<lambda>k. if uint (word_of_int k :: u8) < 128
      then sint (word_of_int k :: u8) div 16 = uint (drop_bit 4 (word_of_int k :: u8))
         \<and> uint (drop_bit 4 (word_of_int k :: u8)) < 16
      else sint (word_of_int k :: u8) div 16 < 0) [0..255]"
    by code_simp
  show "uint c \<le> 255" using uint_lt2p [of c] by simp
qed

lemma hex_step:
  assumes "uint c < 128" "bin2hex s = Inr h" "hex2bin_loop h = Inr s"
  shows "\<exists>x y. bin2hex (c # s) = Inr (x # y # h) \<and> hex2bin_loop (x # y # h) = Inr (c # s)"
proof -
  obtain x where x: "arr_get hex_digits (sint c div 16) = Inr x"
      "char_index hex_table x = Inr (drop_bit 4 c)" "0x80 AND drop_bit 4 c = 0"
    using char_halves [of c] assms(1) hex_of_digit [of "drop_bit 4 c"] by auto
  obtain y where y: "arr_get hex_digits (uint (c AND 0xf)) = Inr y"
      "char_index hex_table y = Inr (c AND 0xf)" "0x80 AND (c AND 0xf) = 0"
    using low_nibble [of c] hex_of_digit by metis
  have "0x80 AND (drop_bit 4 c OR (c AND 0xf)) = 0"
    using x(3) y(3) by (simp add: bit.conj_disj_distrib)
  then show ?thesis using x y assms by (simp add: nibbles)
qed

lemma hex_inverse:
  assumes "\<forall>c\<in>set s. uint c < 128"
  shows "\<exists>h. bin2hex s = Inr h \<and> length h = 2 * length s \<and> hex2bin_loop h = Inr s"
  using assms
proof (induction s)
  case (Cons c s)
  then obtain h where "bin2hex s = Inr h" "length h = 2 * length s" "hex2bin_loop h = Inr s" by auto
  then show ?case using hex_step [of c s h] Cons.prems by auto
qed simp

lemma bin2hex_fault:
  assumes "\<exists>c\<in>set s. 128 \<le> uint c"
  shows "bin2hex s = Inl OutOfBounds"
  using assms
proof (induction s)
  case (Cons c s)
  show ?case
  proof (cases "uint c < 128")
    case True
    then have "bin2hex s = Inl OutOfBounds" using Cons by auto
    moreover obtain x where "arr_get hex_digits (sint c div 16) = Inr x"
      using char_halves [of c] True hex_of_digit [of "drop_bit 4 c"] by auto
    moreover obtain y where "arr_get hex_digits (uint (c AND 0xf)) = Inr y"
      using low_nibble [of c] hex_of_digit by metis
    ultimately show ?thesis by simp
  next
    case False
    then show ?thesis using char_halves [of c] by (simp add: arr_get_def)
  qed
qed simp

text \<open>\<open>bin2hex\<close> indexes its table with a signed character: bytes below 0x80 become two digits each
  and \<open>hex2bin\<close> gives them back, a string with any other byte reads before the table.\<close>

lemma hex_roundtrip:
  "if \<forall>c\<in>set s. uint c < 128
   then \<exists>h. bin2hex s = Inr h \<and> length h = 2 * length s \<and> hex2bin h = Inr s
   else bin2hex s = Inl OutOfBounds"
proof (cases "\<forall>c\<in>set s. uint c < 128")
  case True
  obtain h where "bin2hex s = Inr h" "length h = 2 * length s" "hex2bin_loop h = Inr s"
    using hex_inverse [OF True] by auto
  then show ?thesis using True by (simp add: hex2bin_def)
next
  case False
  then show ?thesis using bin2hex_fault [of s] by (auto simp: not_less)
qed

end
