(* ===== verification/LuaScript.thy ===== *)
theory LuaScript
  imports Prelude
begin

text \<open>
  The script engine of the program, \<^verbatim>\<open>LuaEngine.h\<close>, and the access scripts get to a network stream, \<^verbatim>\<open>LuaExport.h\<close>.
  Lua itself and LuaBridge's marshalling are libraries: their functions are the fields of a \<open>lua_api\<close> over an
  interpreter state \<open>'l\<close>, and what the manual promises of them is \<open>lua_laws\<close>. A null \<open>const char*\<close> or object
  pointer is \<open>None\<close>. Logging is left out.
\<close>

section \<open>The engine\<close>

record ('l, 'n, 't) lua_api =
  lua_gettop :: "'l \<Rightarrow> int"
  lua_settop :: "int \<Rightarrow> 'l \<Rightarrow> 'l"
  lua_rawgeti :: "int \<Rightarrow> 'l \<Rightarrow> 'l"              \<comment> \<open>of the registry\<close>
  lua_pushvalue :: "int \<Rightarrow> 'l \<Rightarrow> 'l"
  lua_pushstring :: "string \<Rightarrow> 'l \<Rightarrow> 'l"
  lua_getglobal :: "string \<Rightarrow> 'l \<Rightarrow> 'l"
  lua_setfield :: "int \<Rightarrow> string \<Rightarrow> 'l \<Rightarrow> 'l"
  lua_pcall :: "nat \<Rightarrow> nat \<Rightarrow> 'l \<Rightarrow> int \<times> 'l"
  bridge_push :: "'n \<Rightarrow> 'l \<Rightarrow> 'l"                \<comment> \<open>\<open>luabridge::push\<close>\<close>
  bridge_get :: "int \<Rightarrow> 'l \<Rightarrow> 't"                \<comment> \<open>\<open>luabridge::Stack<T>::get\<close>\<close>

text \<open>The registry slots of the three functions that run a script for an object.\<close>

record lua_regs =
  bind_native_func_script_reg :: int
  bind_natvie_func_file_reg :: int
  bind_natvie_func_script_table_reg :: int

definition DoString :: "('l, 'n, 't) lua_api \<Rightarrow> lua_regs \<Rightarrow> string option \<Rightarrow> 'n option \<Rightarrow> string option \<Rightarrow> 'l \<Rightarrow> bool \<times> 'l" where
  "DoString a r script native name l =
     (case (script, native) of
        (Some s, Some n) \<Rightarrow>
          let top = lua_gettop a l;
              l1 = lua_pushstring a (case name of None \<Rightarrow> ''self'' | Some m \<Rightarrow> m)
                     (lua_pushstring a s (bridge_push a n (lua_rawgeti a (bind_native_func_script_reg r) l)));
              (err, l2) = lua_pcall a 3 0 l1
          in (err = 0, lua_settop a top l2)
      | _ \<Rightarrow> (False, l))"

definition DoFile :: "('l, 'n, 't) lua_api \<Rightarrow> lua_regs \<Rightarrow> string option \<Rightarrow> 'n option \<Rightarrow> string option \<Rightarrow> 'l \<Rightarrow> bool \<times> 'l" where
  "DoFile a r path native name l =
     (case (path, native) of
        (Some s, Some n) \<Rightarrow>
          let top = lua_gettop a l;
              l1 = lua_pushstring a (case name of None \<Rightarrow> ''self'' | Some m \<Rightarrow> m)
                     (lua_pushstring a s (bridge_push a n (lua_rawgeti a (bind_natvie_func_file_reg r) l)));
              (err, l2) = lua_pcall a 3 0 l1
          in (err = 0, lua_settop a top l2)
      | _ \<Rightarrow> (False, l))"

definition ApplyTable :: "('l, 'n, 't) lua_api \<Rightarrow> lua_regs \<Rightarrow> string option \<Rightarrow> 'n option \<Rightarrow> 'l \<Rightarrow> bool \<times> 'l" where
  "ApplyTable a r table native l =
     (case (table, native) of
        (Some s, Some n) \<Rightarrow>
          let top = lua_gettop a l;
              l1 = lua_pushstring a s (bridge_push a n (lua_rawgeti a (bind_natvie_func_script_table_reg r) l));
              (err, l2) = lua_pcall a 2 0 l1
          in (err = 0, lua_settop a top l2)
      | _ \<Rightarrow> (False, l))"

definition Get_index :: "('l, 'n, 't) lua_api \<Rightarrow> int \<Rightarrow> 'l \<Rightarrow> 't" where
  "Get_index a index l = bridge_get a index l"

definition GetGlobal :: "('l, 'n, 't) lua_api \<Rightarrow> string \<Rightarrow> 'l \<Rightarrow> 't \<times> 'l" where
  "GetGlobal a key l =
     (let top = lua_gettop a l; l1 = lua_getglobal a key l; ret = bridge_get a 1 l1
      in (ret, lua_settop a top l1))"

definition Set_field :: "('l, 'n, 't) lua_api \<Rightarrow> string \<Rightarrow> 'n \<Rightarrow> 'l \<Rightarrow> 'l" where
  "Set_field a key native l = lua_setfield a (- 2) key (bridge_push a native l)"

text \<open>An object that a script serves: the registry slots of its function and its table, and its interpreter.\<close>

record 'n lua_interface =
  m_LuaRef :: int
  m_TableRef :: int
  interp :: "nat option"
  itself :: 'n

text \<open>\<open>_lua_call\<close>, of the prebuilt library, gets the number of arguments, of results, and an error handler.\<close>

definition CallLuaOnEnter ::
  "('l, 'n, 't) lua_api \<Rightarrow> (nat \<Rightarrow> nat \<Rightarrow> int \<Rightarrow> 'l \<Rightarrow> int \<times> 'l) \<Rightarrow> 'n lua_interface \<Rightarrow> 'l \<Rightarrow> bool \<times> 'l" where
  "CallLuaOnEnter a lua_call native l =
     (if m_LuaRef native \<noteq> 0 \<and> m_TableRef native \<noteq> 0 \<and> interp native \<noteq> None then
        let l1 = bridge_push a (itself native)
                   (lua_pushvalue a (- 2) (lua_rawgeti a (m_LuaRef native) (lua_rawgeti a (m_TableRef native) l)));
            (ret, l2) = lua_call 2 0 0 l1
        in (ret = 0, l2)
      else (False, l))"

section \<open>A network stream in a script\<close>

text \<open>
  \<open>Reg_Stream\<close> is the object a script holds: a pointer to the stream of a connection. The objects are made with
  \<open>new\<close> and deleted by the script's calls; \<open>handles\<close> has one entry for each, \<open>None\<close> once it is deleted. A stream
  has its receive buffer and the position of the next byte to read; the rest of it is the library's.
\<close>

record net_stream =
  read_mem :: bytes
  read_position :: int

record script_heap =
  handles :: "nat option option list"
  streams :: "nat \<Rightarrow> net_stream"

record stream_lib =
  st_BeginWrite :: "net_stream \<Rightarrow> net_stream"
  st_EndWrite :: "net_stream \<Rightarrow> net_stream"
  st_ReadInt :: "int \<Rightarrow> net_stream \<Rightarrow> int \<times> net_stream"

definition on_stream :: "nat \<Rightarrow> (net_stream \<Rightarrow> net_stream) \<Rightarrow> script_heap \<Rightarrow> script_heap" where
  "on_stream p f h = h\<lparr>streams := (streams h)(p := f (streams h p))\<rparr>"

definition m_Stream :: "nat \<Rightarrow> script_heap \<Rightarrow> nat option res" where
  "m_Stream hnd h =
     (if length (handles h) \<le> hnd then Inl WildPointer
      else case handles h ! hnd of None \<Rightarrow> Inl WildPointer | Some p \<Rightarrow> Inr p)"

definition through :: "nat \<Rightarrow> (nat \<Rightarrow> script_heap \<Rightarrow> 'a res) \<Rightarrow> script_heap \<Rightarrow> 'a res" where
  "through hnd f h = rbind (m_Stream hnd h) (\<lambda>q. case q of None \<Rightarrow> Inl NullDeref | Some p \<Rightarrow> f p h)"

definition GetStream :: "nat option \<Rightarrow> script_heap \<Rightarrow> nat \<times> script_heap" where
  "GetStream native h = (length (handles h), h\<lparr>handles := handles h @ [Some native]\<rparr>)"

definition BeginWrite :: "stream_lib \<Rightarrow> nat option \<Rightarrow> script_heap \<Rightarrow> (nat \<times> script_heap) res" where
  "BeginWrite l native h =
     (let (hnd, h1) = GetStream native h
      in case native of None \<Rightarrow> Inl NullDeref | Some p \<Rightarrow> Inr (hnd, on_stream p (st_BeginWrite l) h1))"

definition ReleaseStream :: "nat \<Rightarrow> script_heap \<Rightarrow> script_heap res" where
  "ReleaseStream hnd h = rbind (m_Stream hnd h) (\<lambda>_. Inr (h\<lparr>handles := (handles h)[hnd := None]\<rparr>))"

definition EndWrite :: "stream_lib \<Rightarrow> nat \<Rightarrow> script_heap \<Rightarrow> script_heap res" where
  "EndWrite l hnd h =
     rbind (m_Stream hnd h) (\<lambda>q.
     let h1 = (case q of None \<Rightarrow> h | Some p \<Rightarrow> on_stream p (st_EndWrite l) h)
     in Inr (h1\<lparr>handles := (handles h1)[hnd := None]\<rparr>))"

definition BeginWriteX :: "stream_lib \<Rightarrow> nat \<Rightarrow> script_heap \<Rightarrow> script_heap res" where
  "BeginWriteX l hnd = through hnd (\<lambda>p h. Inr (on_stream p (st_BeginWrite l) h))"

definition EndWriteX :: "stream_lib \<Rightarrow> nat \<Rightarrow> script_heap \<Rightarrow> script_heap res" where
  "EndWriteX l hnd = through hnd (\<lambda>p h. Inr (on_stream p (st_EndWrite l) h))"

text \<open>The readers and writers of the macros \<open>EXPORT_LUA_STREAM\<close>; \<open>zero\<close> is the value read into.\<close>

definition stream_read :: "'t \<Rightarrow> ('t \<Rightarrow> net_stream \<Rightarrow> 't \<times> net_stream) \<Rightarrow> nat \<Rightarrow> script_heap \<Rightarrow> ('t \<times> script_heap) res" where
  "stream_read zero rd hnd = through hnd (\<lambda>p h. let (x, s) = rd zero (streams h p) in Inr (x, on_stream p (\<lambda>_. s) h))"

definition stream_write :: "('t \<Rightarrow> net_stream \<Rightarrow> net_stream) \<Rightarrow> 't \<Rightarrow> nat \<Rightarrow> script_heap \<Rightarrow> script_heap res" where
  "stream_write wr value hnd = through hnd (\<lambda>p h. Inr (on_stream p (wr value) h))"

text \<open>
  \<open>ReadString\<close> ends the string in the receive buffer with a null byte, copies it up to the first one, and puts the
  overwritten byte back.
\<close>

definition c_string :: "bytes \<Rightarrow> int \<Rightarrow> bytes res" where
  "c_string m pos =
     (if pos < 0 \<or> int (length m) \<le> pos \<or> 0 \<notin> set (drop (nat pos) m) then Inl OutOfBounds
      else Inr (takeWhile (\<lambda>b. b \<noteq> 0) (drop (nat pos) m)))"

definition read_string :: "stream_lib \<Rightarrow> net_stream \<Rightarrow> (bytes \<times> net_stream) res" where
  "read_string l s =
     (let (ret, s1) = st_ReadInt l 0 s; stop = read_position s1 + ret
      in if stop < 0 \<or> int (length (read_mem s1)) \<le> stop then Inl OutOfBounds
         else let b = read_mem s1 ! nat stop; m = (read_mem s1)[nat stop := 0]
              in rbind (c_string m (read_position s1)) (\<lambda>str.
                 Inr (str, s1\<lparr>read_mem := m[nat stop := b], read_position := stop\<rparr>)))"

definition ReadString :: "stream_lib \<Rightarrow> nat \<Rightarrow> script_heap \<Rightarrow> (bytes \<times> script_heap) res" where
  "ReadString l hnd = through hnd (\<lambda>p h. rbind (read_string l (streams h p)) (\<lambda>(str, s).
     Inr (str, on_stream p (\<lambda>_. s) h)))"

section \<open>The stack\<close>

text \<open>
  What the manual of Lua promises, for a view of the interpreter as its \<open>stack\<close>, bottom first, and its globals:
  which functions push and pop, and that \<open>Stack<T>::get\<close> converts the value at an index counted from 1.
\<close>

definition calls_pop :: "('l \<Rightarrow> 'v list) \<Rightarrow> (nat \<Rightarrow> nat \<Rightarrow> 'l \<Rightarrow> int \<times> 'l) \<Rightarrow> bool" where
  "calls_pop stack f \<longleftrightarrow> (\<forall>n r l. n < length (stack l) \<longrightarrow>
     (\<exists>vs. stack (snd (f n r l)) = take (length (stack l) - Suc n) (stack l) @ vs
        \<and> length vs = (if fst (f n r l) = 0 then r else 1)))"

lemma calls_popD:
  assumes "calls_pop stack f" "n < length (stack l)"
  shows "\<exists>vs. stack (snd (f n r l)) = take (length (stack l) - Suc n) (stack l) @ vs
    \<and> length vs = (if fst (f n r l) = 0 then r else 1)"
  using assms by (simp add: calls_pop_def)

definition lua_laws :: "('l, 'n, 't) lua_api \<Rightarrow> ('l \<Rightarrow> 'v list) \<Rightarrow> ('l \<Rightarrow> string \<Rightarrow> 'v) \<Rightarrow> ('v \<Rightarrow> 't) \<Rightarrow> bool" where
  "lua_laws a stack glob conv \<longleftrightarrow>
     (\<forall>l. lua_gettop a l = int (length (stack l)))
     \<and> (\<forall>i l. 0 \<le> i \<and> i \<le> int (length (stack l)) \<longrightarrow> stack (lua_settop a i l) = take (nat i) (stack l))
     \<and> (\<forall>i l. \<exists>v. stack (lua_rawgeti a i l) = stack l @ [v])
     \<and> (\<forall>k l. 0 < k \<and> k \<le> length (stack l) \<longrightarrow>
          stack (lua_pushvalue a (- int k) l) = stack l @ [stack l ! (length (stack l) - k)])
     \<and> (\<forall>s l. \<exists>v. stack (lua_pushstring a s l) = stack l @ [v])
     \<and> (\<forall>n l. \<exists>v. stack (bridge_push a n l) = stack l @ [v])
     \<and> (\<forall>k l. stack (lua_getglobal a k l) = stack l @ [glob l k])
     \<and> (\<forall>k l. 2 \<le> length (stack l) \<longrightarrow> stack (lua_setfield a (- 2) k l) = butlast (stack l))
     \<and> calls_pop stack (lua_pcall a)
     \<and> (\<forall>i l. 0 < i \<and> i \<le> int (length (stack l)) \<longrightarrow> bridge_get a i l = conv (stack l ! nat (i - 1)))"

lemma lua_lawsD:
  assumes "lua_laws a stack glob conv"
  shows "lua_gettop a l = int (length (stack l))"
    "0 \<le> i \<Longrightarrow> i \<le> int (length (stack l)) \<Longrightarrow> stack (lua_settop a i l) = take (nat i) (stack l)"
    "\<exists>v. stack (lua_rawgeti a i l) = stack l @ [v]"
    "0 < k \<Longrightarrow> k \<le> length (stack l) \<Longrightarrow>
      stack (lua_pushvalue a (- int k) l) = stack l @ [stack l ! (length (stack l) - k)]"
    "\<exists>v. stack (lua_pushstring a s l) = stack l @ [v]"
    "\<exists>v. stack (bridge_push a n l) = stack l @ [v]"
    "stack (lua_getglobal a s l) = stack l @ [glob l s]"
    "2 \<le> length (stack l) \<Longrightarrow> stack (lua_setfield a (- 2) s l) = butlast (stack l)"
    "calls_pop stack (lua_pcall a)"
    "0 < i \<Longrightarrow> i \<le> int (length (stack l)) \<Longrightarrow> bridge_get a i l = conv (stack l ! nat (i - 1))"
  using assms unfolding lua_laws_def by (elim conjE; simp)+

text \<open>After a protected call of the top values, cutting the stack to its old height leaves what was there.\<close>

lemma call_settop:
  assumes "lua_laws a stack glob conv" "stack l1 = stack l @ vs" "length vs = Suc n"
  shows "stack (lua_settop a (lua_gettop a l) (snd (lua_pcall a n 0 l1))) = stack l"
proof -
  obtain rs where "stack (snd (lua_pcall a n 0 l1)) = take (length (stack l1) - Suc n) (stack l1) @ rs"
    using calls_popD [OF lua_lawsD(9) [OF assms(1)], of n l1 0] assms(2,3) by auto
  then have "stack (snd (lua_pcall a n 0 l1)) = stack l @ rs" using assms(2,3) by simp
  then show ?thesis using lua_lawsD(1,2) [OF assms(1)] by simp
qed

lemma pushed:
  assumes "lua_laws a stack glob conv"
  shows "\<exists>v w. stack (bridge_push a n (lua_rawgeti a i l)) = stack l @ [v, w]"
proof -
  obtain v where v: "stack (lua_rawgeti a i l) = stack l @ [v]" using lua_lawsD(3) [OF assms] by blast
  obtain w where "stack (bridge_push a n (lua_rawgeti a i l)) = stack (lua_rawgeti a i l) @ [w]"
    using lua_lawsD(6) [OF assms] by blast
  then show ?thesis using v by simp
qed

lemma script_args:
  assumes "lua_laws a stack glob conv"
  shows "\<exists>vs. stack (lua_pushstring a t (lua_pushstring a s (bridge_push a n (lua_rawgeti a i l)))) = stack l @ vs
      \<and> length vs = Suc 3"
    "\<exists>vs. stack (lua_pushstring a s (bridge_push a n (lua_rawgeti a i l))) = stack l @ vs \<and> length vs = Suc 2"
proof -
  obtain v w where vw: "stack (bridge_push a n (lua_rawgeti a i l)) = stack l @ [v, w]" using pushed [OF assms] by blast
  obtain x where x: "stack (lua_pushstring a s (bridge_push a n (lua_rawgeti a i l)))
      = stack (bridge_push a n (lua_rawgeti a i l)) @ [x]" using lua_lawsD(5) [OF assms] by blast
  obtain y where y: "stack (lua_pushstring a t (lua_pushstring a s (bridge_push a n (lua_rawgeti a i l))))
      = stack (lua_pushstring a s (bridge_push a n (lua_rawgeti a i l))) @ [y]" using lua_lawsD(5) [OF assms] by blast
  show "\<exists>vs. stack (lua_pushstring a t (lua_pushstring a s (bridge_push a n (lua_rawgeti a i l)))) = stack l @ vs
      \<and> length vs = Suc 3" by (rule exI [of _ "[v, w, x, y]"]) (simp add: vw x y)
  show "\<exists>vs. stack (lua_pushstring a s (bridge_push a n (lua_rawgeti a i l))) = stack l @ vs \<and> length vs = Suc 2"
    by (rule exI [of _ "[v, w, x]"]) (simp add: vw x)
qed


lemma DoString_stack:
  assumes "lua_laws a stack glob conv"
  shows "stack (snd (DoString a r script native name l)) = stack l"
proof (cases "script = None \<or> native = None")
  case False
  then obtain s n where sn: "script = Some s" "native = Some n" by auto
  let ?l1 = "lua_pushstring a (case name of None \<Rightarrow> ''self'' | Some m \<Rightarrow> m)
    (lua_pushstring a s (bridge_push a n (lua_rawgeti a (bind_native_func_script_reg r) l)))"
  obtain vs where "stack ?l1 = stack l @ vs" "length vs = Suc 3" using script_args(1) [OF assms] by blast
  then show ?thesis using call_settop [OF assms, of ?l1 l vs 3] by (simp add: sn DoString_def Let_def case_prod_beta)
qed (auto simp: DoString_def split: option.split)

lemma DoFile_stack:
  assumes "lua_laws a stack glob conv"
  shows "stack (snd (DoFile a r path native name l)) = stack l"
proof -
  have "DoFile a r path native name l =
    DoString a (r\<lparr>bind_native_func_script_reg := bind_natvie_func_file_reg r\<rparr>) path native name l"
    by (simp add: DoFile_def DoString_def split: option.split)
  then show ?thesis using DoString_stack [OF assms] by simp
qed

lemma ApplyTable_stack:
  assumes "lua_laws a stack glob conv"
  shows "stack (snd (ApplyTable a r table native l)) = stack l"
proof (cases "table = None \<or> native = None")
  case False
  then obtain s n where sn: "table = Some s" "native = Some n" by auto
  let ?l1 = "lua_pushstring a s (bridge_push a n (lua_rawgeti a (bind_natvie_func_script_table_reg r) l))"
  obtain vs where "stack ?l1 = stack l @ vs" "length vs = Suc 2" using script_args(2) [OF assms] by blast
  then show ?thesis using call_settop [OF assms, of ?l1 l vs 2] by (simp add: sn ApplyTable_def Let_def case_prod_beta)
qed (auto simp: ApplyTable_def split: option.split)

lemma GetGlobal_runs:
  assumes "lua_laws a stack glob conv"
  shows "stack (snd (GetGlobal a key l)) = stack l" "fst (GetGlobal a key l) = conv (hd (stack l @ [glob l key]))"
proof -
  have *: "stack (lua_getglobal a key l) = stack l @ [glob l key]" using lua_lawsD(7) [OF assms] .
  show "stack (snd (GetGlobal a key l)) = stack l"
    using lua_lawsD(1,2) [OF assms] * by (simp add: GetGlobal_def Let_def)
  show "fst (GetGlobal a key l) = conv (hd (stack l @ [glob l key]))"
    using lua_lawsD(10) [OF assms, of 1 "lua_getglobal a key l"] *
    by (simp add: GetGlobal_def Let_def hd_conv_nth)
qed

lemma Set_field_stack:
  assumes "lua_laws a stack glob conv" "stack l \<noteq> []"
  shows "stack (Set_field a key native l) = stack l"
proof -
  obtain v where v: "stack (bridge_push a native l) = stack l @ [v]" using lua_lawsD(6) [OF assms(1)] by blast
  moreover have "2 \<le> length (stack (bridge_push a native l))" using v assms(2) by (cases "stack l") auto
  ultimately show ?thesis using lua_lawsD(8) [OF assms(1)] by (simp add: Set_field_def)
qed

lemma CallLuaOnEnter_stack:
  assumes "lua_laws a stack glob conv" "calls_pop stack (\<lambda>n r. lua_call n r 0)"
    and "m_LuaRef native \<noteq> 0" "m_TableRef native \<noteq> 0" "interp native \<noteq> None"
  shows "\<exists>t vs. stack (snd (CallLuaOnEnter a lua_call native l)) = stack l @ t # vs
    \<and> length vs = (if fst (CallLuaOnEnter a lua_call native l) then 0 else 1)"
proof -
  let ?l0 = "lua_rawgeti a (m_LuaRef native) (lua_rawgeti a (m_TableRef native) l)"
  let ?l1 = "bridge_push a (itself native) (lua_pushvalue a (- 2) ?l0)"
  obtain t where t: "stack (lua_rawgeti a (m_TableRef native) l) = stack l @ [t]" using lua_lawsD(3) [OF assms(1)] by blast
  obtain f where f: "stack ?l0 = stack (lua_rawgeti a (m_TableRef native) l) @ [f]" using lua_lawsD(3) [OF assms(1)] by blast
  have p: "stack (lua_pushvalue a (- 2) ?l0) = stack l @ [t, f, t]"
    using lua_lawsD(4) [OF assms(1), of 2 ?l0] t f by (simp add: nth_append)
  obtain n where "stack ?l1 = stack (lua_pushvalue a (- 2) ?l0) @ [n]" using lua_lawsD(6) [OF assms(1)] by blast
  then have l1: "stack ?l1 = stack l @ [t, f, t, n]" using p by simp
  obtain vs where "stack (snd (lua_call 2 0 0 ?l1)) = take (length (stack ?l1) - Suc 2) (stack ?l1) @ vs"
      "length vs = (if fst (lua_call 2 0 0 ?l1) = 0 then 0 else 1)"
    using calls_popD [OF assms(2), of 2 ?l1 0] l1 by auto
  then show ?thesis using assms(3-5) l1 by (simp add: CallLuaOnEnter_def Let_def case_prod_beta)
qed

section \<open>Properties\<close>

text \<open>An interpreter to check the hypotheses on: values are numbers, and every call succeeds unless the
  function is 0.\<close>

record toy_lua =
  tstack :: "nat list"
  tglobals :: "string \<Rightarrow> nat"

definition toy_pcall :: "nat \<Rightarrow> nat \<Rightarrow> toy_lua \<Rightarrow> int \<times> toy_lua" where
  "toy_pcall n r l =
     (let k = length (tstack l) - Suc n; f = tstack l ! k
      in (if f = 0 then 1 else 0,
          l\<lparr>tstack := take k (tstack l) @ (if f = 0 then [0] else replicate r f)\<rparr>))"

definition toy_api :: "(toy_lua, nat, nat) lua_api" where
  "toy_api = \<lparr>lua_gettop = \<lambda>l. int (length (tstack l)),
     lua_settop = \<lambda>i l. l\<lparr>tstack := take (nat i) (tstack l)\<rparr>,
     lua_rawgeti = \<lambda>i l. l\<lparr>tstack := tstack l @ [nat i]\<rparr>,
     lua_pushvalue = \<lambda>i l. l\<lparr>tstack := tstack l @ [tstack l ! (length (tstack l) - nat (- i))]\<rparr>,
     lua_pushstring = \<lambda>s l. l\<lparr>tstack := tstack l @ [length s]\<rparr>,
     lua_getglobal = \<lambda>k l. l\<lparr>tstack := tstack l @ [tglobals l k]\<rparr>,
     lua_setfield = \<lambda>i k l. l\<lparr>tstack := butlast (tstack l)\<rparr>,
     lua_pcall = toy_pcall,
     bridge_push = \<lambda>n l. l\<lparr>tstack := tstack l @ [n]\<rparr>,
     bridge_get = \<lambda>i l. tstack l ! nat (i - 1)\<rparr>"

lemma toy_calls: "calls_pop tstack toy_pcall"
  by (simp add: calls_pop_def toy_pcall_def Let_def)

lemma toy_laws: "lua_laws toy_api tstack tglobals (\<lambda>v. v)"
  unfolding lua_laws_def by (simp add: toy_api_def toy_calls)

text \<open>C31: running a script for an object, from a string or a file, applying a table, reading a global and setting
  a field leave Lua's stack as they found it, on every branch; a null script or object is refused without
  touching the interpreter.\<close>

theorem engine_keeps_stack:
  assumes "lua_laws a stack glob conv"
  shows "stack (snd (DoString a r script native name l)) = stack l
    \<and> stack (snd (DoFile a r script native name l)) = stack l
    \<and> stack (snd (ApplyTable a r script native l)) = stack l
    \<and> stack (snd (GetGlobal a key l)) = stack l
    \<and> (stack l \<noteq> [] \<longrightarrow> stack (Set_field a key n l) = stack l)
    \<and> (script = None \<or> native = None \<longrightarrow> DoString a r script native name l = (False, l)
        \<and> DoFile a r script native name l = (False, l) \<and> ApplyTable a r script native l = (False, l))"
  using DoString_stack [OF assms] DoFile_stack [OF assms] ApplyTable_stack [OF assms] GetGlobal_runs(1) [OF assms]
    Set_field_stack [OF assms]
  by (auto simp: DoString_def DoFile_def ApplyTable_def split: option.split)

theorem engine_keeps_stack_witness:
  "tstack (snd (DoString toy_api \<lparr>bind_native_func_script_reg = 5, bind_natvie_func_file_reg = 6,
      bind_natvie_func_script_table_reg = 7\<rparr> (Some ''x = 1'') (Some 3) None \<lparr>tstack = [8, 9], tglobals = \<lambda>_. 0\<rparr>)) = [8, 9]"
  using engine_keeps_stack [OF toy_laws, of "\<lparr>bind_native_func_script_reg = 5, bind_natvie_func_file_reg = 6,
      bind_natvie_func_script_table_reg = 7\<rparr>" "Some ''x = 1''" "Some 3" None "\<lparr>tstack = [8, 9], tglobals = \<lambda>_. 0\<rparr>"]
  by simp

text \<open>two operations get the stack wrong. \<open>GetGlobal\<close> reads index 1, so it returns the global only while the
  stack is empty, and otherwise whatever is at the bottom; and every call of \<open>CallLuaOnEnter\<close> for an object with a
  script leaves the object's table behind, so that \<open>k\<close> calls grow the stack by at least \<open>k\<close>.\<close>

lemma engine_stack_errors:
  assumes "lua_laws a stack glob conv" "calls_pop stack (\<lambda>n r. lua_call n r 0)"
    and "m_LuaRef native \<noteq> 0" "m_TableRef native \<noteq> 0" "interp native \<noteq> None"
  shows "fst (GetGlobal a key l) = (if stack l = [] then conv (glob l key) else conv (hd (stack l)))
    \<and> length (stack l) + k \<le> length (stack (((\<lambda>l. snd (CallLuaOnEnter a lua_call native l)) ^^ k) l))"
proof
  show "fst (GetGlobal a key l) = (if stack l = [] then conv (glob l key) else conv (hd (stack l)))"
    using GetGlobal_runs(2) [OF assms(1), of key l] by simp
  show "length (stack l) + k \<le> length (stack (((\<lambda>l. snd (CallLuaOnEnter a lua_call native l)) ^^ k) l))"
  proof (induction k)
    case (Suc k)
    let ?l = "((\<lambda>l. snd (CallLuaOnEnter a lua_call native l)) ^^ k) l"
    obtain t vs where "stack (snd (CallLuaOnEnter a lua_call native ?l)) = stack ?l @ t # vs"
      using CallLuaOnEnter_stack [where l = ?l and lua_call = lua_call, OF assms] by blast
    then show ?case using Suc.IH by simp
  qed simp
qed

lemma takeWhile_stop: "takeWhile (\<lambda>b. b \<noteq> 0) (xs @ 0 # ys) = takeWhile (\<lambda>b. b \<noteq> 0) (xs :: bytes)"
  by (induction xs) simp_all

text \<open>A script that reads, through a live handle, a string whose length lies inside the receive buffer gets its bytes up to the first
  null byte; the buffer is as before and the position is behind the string. The length comes from the
  network and is not compared with anything: past the buffer the program writes outside it. With a negative
  one it reads on to the next null byte of the buffer, outside it if there is none, and then moves the
  position back by that length.\<close>

lemma script_reads_string:
  assumes "m_Stream hnd h = Inr (Some p)" "st_ReadInt l 0 (streams h p) = (ret, s)" "0 \<le> read_position s"
  shows "if read_position s + ret < 0 \<or> int (length (read_mem s)) \<le> read_position s + ret
    then ReadString l hnd h = Inl OutOfBounds
    else if ret < 0 \<and> (int (length (read_mem s)) \<le> read_position s \<or> 0 \<notin> set (drop (nat (read_position s)) (read_mem s)))
    then ReadString l hnd h = Inl OutOfBounds
    else ReadString l hnd h =
      Inr (takeWhile (\<lambda>b. b \<noteq> 0) (if 0 \<le> ret then take (nat ret) (drop (nat (read_position s)) (read_mem s))
          else drop (nat (read_position s)) (read_mem s)),
        on_stream p (\<lambda>_. s\<lparr>read_position := read_position s + ret\<rparr>) h)"
proof (cases "read_position s + ret < 0 \<or> int (length (read_mem s)) \<le> read_position s + ret")
  case True
  then show ?thesis using assms(1,2) by (simp add: ReadString_def through_def read_string_def)
next
  case False
  have "ReadString l hnd h =
      Inr (takeWhile (\<lambda>b. b \<noteq> 0) (take (nat ret) (drop (nat (read_position s)) (read_mem s))),
        on_stream p (\<lambda>_. s\<lparr>read_position := read_position s + ret\<rparr>) h)" if "0 \<le> ret"
  proof -
    let ?i = "nat (read_position s)" and ?j = "nat (read_position s + ret)" and ?m = "read_mem s"
    have j: "?j < length ?m" "?i \<le> ?j" "?j - ?i = nat ret" using False that assms(3) by auto
    have d: "drop ?i (?m[?j := 0]) = take (nat ret) (drop ?i ?m) @ 0 # drop (Suc ?j) ?m"
      using j by (simp add: drop_update_swap upd_conv_take_nth_drop drop_take)
    have c: "c_string (?m[?j := 0]) (read_position s) = Inr (takeWhile (\<lambda>b. b \<noteq> 0) (take (nat ret) (drop ?i ?m)))"
    proof -
      have "read_position s < int (length ?m)" using j by linarith
      moreover have "takeWhile (\<lambda>b. b \<noteq> 0) (drop ?i (?m[?j := 0])) = takeWhile (\<lambda>b. b \<noteq> 0) (take (nat ret) (drop ?i ?m))"
        unfolding d by (rule takeWhile_stop)
      ultimately show ?thesis using assms(3) d by (simp add: c_string_def)
    qed
    have "?m[?j := 0, ?j := ?m ! ?j] = ?m" by simp
    then show ?thesis
      using False assms(1,2) c by (simp add: ReadString_def through_def read_string_def Let_def)
  qed
  moreover have "ReadString l hnd h =
      (if int (length (read_mem s)) \<le> read_position s \<or> 0 \<notin> set (drop (nat (read_position s)) (read_mem s))
       then Inl OutOfBounds
       else Inr (takeWhile (\<lambda>b. b \<noteq> 0) (drop (nat (read_position s)) (read_mem s)),
          on_stream p (\<lambda>_. s\<lparr>read_position := read_position s + ret\<rparr>) h))" if "ret < 0"
  proof -
    let ?i = "nat (read_position s)" and ?j = "nat (read_position s + ret)" and ?m = "read_mem s"
    have d: "drop ?i (?m[?j := 0]) = drop ?i ?m" using False that by (intro drop_update_cancel) auto
    have m: "?m[?j := 0, ?j := ?m ! ?j] = ?m" by simp
    show ?thesis
      using False assms that d m
      by (auto simp: ReadString_def through_def read_string_def Let_def c_string_def)
  qed
  ultimately show ?thesis using False by (auto simp: not_le)
qed

definition toy_lib :: stream_lib where
  "toy_lib = \<lparr>st_BeginWrite = \<lambda>s. s, st_EndWrite = \<lambda>s. s,
     st_ReadInt = \<lambda>old s. (sint (read_mem s ! nat (read_position s)), s\<lparr>read_position := read_position s + 1\<rparr>)\<rparr>"

text \<open>A handle lives from the call that makes it to the one that ends it; any use afterwards is a use of
  deleted memory.\<close>

lemma handle_life:
  assumes "BeginWrite l (Some p) h = Inr (hnd, h1)"
  shows "m_Stream hnd h1 = Inr (Some p)" "\<exists>h2. EndWrite l hnd h1 = Inr h2 \<and> m_Stream hnd h2 = Inl WildPointer"
    "\<exists>h2. ReleaseStream hnd h1 = Inr h2 \<and> EndWrite l hnd h2 = Inl WildPointer"
  using assms by (auto simp: BeginWrite_def GetStream_def m_Stream_def EndWrite_def ReleaseStream_def on_stream_def Let_def
      nth_append)

end
