(* ===== verification/RakMemory.thy ===== *)
theory RakMemory
  imports Prelude
begin

text \<open>
  The memory RakNet's containers live in (\<^verbatim>\<open>RakMemoryOverride.h\<close>, built without the override) and the
  \<open>unsigned int\<close> their sizes and indices have. A size is a \<open>nat\<close> and \<open>w32\<close> is the wrap-around of every
  operation that can leave 32 bits. An array object is the list of its elements; a pointer is null,
  wild (never set, or freed and not reset), or points to one.
\<close>

section \<open>Unsigned sizes\<close>

definition w32 :: "nat \<Rightarrow> nat" where "w32 n = n mod 4294967296"

definition MAX_UNSIGNED_LONG :: nat where "MAX_UNSIGNED_LONG = 4294967295"

definition dec32 :: "nat \<Rightarrow> nat" where "dec32 n = w32 (n + MAX_UNSIGNED_LONG)"

definition sub32 :: "nat \<Rightarrow> nat \<Rightarrow> nat" where "sub32 m n = w32 (m + (4294967296 - n))"

lemma w32_small [simp]: "n < 4294967296 \<Longrightarrow> w32 n = n"
  by (simp add: w32_def)

lemma dec32_pos: "0 < n \<Longrightarrow> n \<le> 4294967296 \<Longrightarrow> dec32 n = n - 1"
  by (cases n) (simp_all add: dec32_def w32_def MAX_UNSIGNED_LONG_def)

lemma dec32_zero [simp]: "dec32 0 = MAX_UNSIGNED_LONG"
  by (simp add: dec32_def w32_def MAX_UNSIGNED_LONG_def)

lemma sub32_le:
  assumes "n \<le> m" "m < 4294967296"
  shows "sub32 m n = m - n"
proof -
  have "m + (4294967296 - n) = (m - n) + 4294967296" using assms by simp
  then show ?thesis using assms unfolding sub32_def w32_def by (metis mod_add_self2 mod_less less_imp_diff_less)
qed

section \<open>Array objects\<close>

datatype 'a ptr = Null | Wild | Arr "'a list"

definition peek :: "'a ptr \<Rightarrow> nat \<Rightarrow> 'a res" where
  "peek p i =
     (case p of Null \<Rightarrow> Inl NullDeref | Wild \<Rightarrow> Inl WildPointer
      | Arr xs \<Rightarrow> if i < length xs then Inr (xs ! i) else Inl OutOfBounds)"

definition poke :: "'a ptr \<Rightarrow> nat \<Rightarrow> 'a \<Rightarrow> 'a ptr res" where
  "poke p i x =
     (case p of Null \<Rightarrow> Inl NullDeref | Wild \<Rightarrow> Inl WildPointer
      | Arr xs \<Rightarrow> if i < length xs then Inr (Arr (xs[i := x])) else Inl OutOfBounds)"

lemma peek_Arr [simp]: "i < length xs \<Longrightarrow> peek (Arr xs) i = Inr (xs ! i)"
  by (simp add: peek_def)

lemma poke_Arr [simp]: "i < length xs \<Longrightarrow> poke (Arr xs) i x = Inr (Arr (xs[i := x]))"
  by (simp add: poke_def)

text \<open>
  The count is an \<open>int\<close>, so that sizes from \<open>2^31\<close> on are negative; \<open>z\<close> is a default constructed element.
\<close>

definition OP_NEW_ARRAY :: "'a \<Rightarrow> nat \<Rightarrow> 'a ptr res" where
  "OP_NEW_ARRAY z count =
     (if count = 0 then Inr Null
      else if 2147483648 \<le> count then Inl BadAlloc
      else Inr (Arr (replicate count z)))"

definition OP_DELETE_ARRAY :: "'a ptr \<Rightarrow> unit res" where
  "OP_DELETE_ARRAY p = (if p = Wild then Inl WildPointer else Inr ())"

lemma OP_NEW_ARRAY_ok [simp]:
  "0 < n \<Longrightarrow> n < 2147483648 \<Longrightarrow> OP_NEW_ARRAY z n = Inr (Arr (replicate n z))"
  by (simp add: OP_NEW_ARRAY_def)

lemma OP_DELETE_ARRAY_ok [simp]: "OP_DELETE_ARRAY (Arr xs) = Inr ()" "OP_DELETE_ARRAY Null = Inr ()"
  by (simp_all add: OP_DELETE_ARRAY_def)

text \<open>The copying loops of the containers: element \<open>f k\<close> of one array becomes element \<open>k\<close> of the other.\<close>

definition copy_cells :: "(nat \<Rightarrow> nat) \<Rightarrow> 'a ptr \<Rightarrow> nat \<Rightarrow> 'a ptr \<Rightarrow> 'a ptr res" where
  "copy_cells f src n dst = foldE (\<lambda>k d. rbind (peek src (f k)) (\<lambda>x. poke d k x)) [0..<n] dst"

lemma take_update_snoc: "n < length ys \<Longrightarrow> (xs @ drop n ys)[length xs := x] = xs @ x # drop (Suc n) ys"
  by (simp add: list_update_append Cons_nth_drop_Suc [symmetric])

lemma copy_cells_ok:
  assumes "\<And>k. k < n \<Longrightarrow> f k < length xs" "n \<le> length ys"
  shows "copy_cells f (Arr xs) n (Arr ys) = Inr (Arr (map (\<lambda>k. xs ! f k) [0..<n] @ drop n ys))"
  using assms
proof (induction n)
  case (Suc n)
  then have "copy_cells f (Arr xs) n (Arr ys) = Inr (Arr (map (\<lambda>k. xs ! f k) [0..<n] @ drop n ys))" by simp
  moreover have "(map (\<lambda>k. xs ! f k) [0..<n] @ drop n ys)[n := xs ! f n]
      = map (\<lambda>k. xs ! f k) [0..<Suc n] @ drop (Suc n) ys"
    using take_update_snoc [of n ys "map (\<lambda>k. xs ! f k) [0..<n]" "xs ! f n"] Suc.prems by simp
  ultimately show ?case
    using Suc.prems by (simp add: copy_cells_def foldE_append)
qed (simp add: copy_cells_def)

lemma copy_cells_id:
  assumes "n \<le> length xs" "n \<le> length ys"
  shows "copy_cells (\<lambda>k. k) (Arr xs) n (Arr ys) = Inr (Arr (take n xs @ drop n ys))"
  proof -
  have "map ((!) xs) [0..<n] = take n xs" using assms(1) by (intro nth_equalityI) simp_all
  then show ?thesis using copy_cells_ok [of n "\<lambda>k. k" xs ys] assms by simp
qed

lemma copy_cells_none [simp]: "copy_cells f src 0 dst = Inr dst"
  by (simp add: copy_cells_def)

end
