(* ===== verification/RakQueue.thy ===== *)
theory RakQueue
  imports RakMemory
begin

text \<open>
  \<open>DataStructures::Queue\<close> of RakNet (\<^verbatim>\<open>DS_Queue.h\<close>): a ring buffer that grows by doubling when it is full,
  with one cell always free. \<open>z\<close> is a default constructed element. A loop that does not end for some
  states returns \<open>None\<close> there.
\<close>

section \<open>Code\<close>

record 'a rqueue =
  q_array :: "'a ptr"
  q_head :: nat
  q_tail :: nat
  q_alloc :: nat

definition Queue_Size :: "'a rqueue \<Rightarrow> nat" where
  "Queue_Size q =
     (if q_head q \<le> q_tail q then q_tail q - q_head q else w32 (sub32 (q_alloc q) (q_head q) + q_tail q))"

definition Queue_IsEmpty :: "'a rqueue \<Rightarrow> bool" where "Queue_IsEmpty q = (q_head q = q_tail q)"

definition Queue_AllocationSize :: "'a rqueue \<Rightarrow> nat" where "Queue_AllocationSize q = q_alloc q"

definition Queue_new :: "'a rqueue" where
  "Queue_new = \<lparr>q_array = Null, q_head = 0, q_tail = 0, q_alloc = 0\<rparr>"

definition Queue_delete :: "'a rqueue \<Rightarrow> unit res" where
  "Queue_delete q = (if 0 < q_alloc q then OP_DELETE_ARRAY (q_array q) else Inr ())"

definition step_head :: "'a rqueue \<Rightarrow> 'a rqueue" where
  "step_head q = q\<lparr>q_head := (if w32 (q_head q + 1) = q_alloc q then 0 else w32 (q_head q + 1))\<rparr>"

definition behind_head :: "'a rqueue \<Rightarrow> nat" where
  "behind_head q = (if q_head q = 0 then dec32 (q_alloc q) else q_head q - 1)"

definition Queue_Pop :: "'a rqueue \<Rightarrow> ('a \<times> 'a rqueue) res" where
  "Queue_Pop q = (let q1 = step_head q in rbind (peek (q_array q1) (behind_head q1)) (\<lambda>x. Inr (x, q1)))"

definition Queue_PopTail :: "'a rqueue \<Rightarrow> ('a \<times> 'a rqueue) res" where
  "Queue_PopTail q =
     (let t = (if q_tail q \<noteq> 0 then q_tail q - 1 else dec32 (q_alloc q))
      in rbind (peek (q_array q) t) (\<lambda>x. Inr (x, q\<lparr>q_tail := t\<rparr>)))"

text \<open>\<open>PopDeref\<close> also sets the cell to 0, here \<open>nil\<close>.\<close>

definition Queue_PopDeref :: "'a \<Rightarrow> 'a rqueue \<Rightarrow> ('a \<times> 'a rqueue) res" where
  "Queue_PopDeref nil q =
     (let q1 = step_head q
      in rbind (peek (q_array q1) (behind_head q1)) (\<lambda>x.
         rbind (poke (q_array q1) (behind_head q1) nil) (\<lambda>p. Inr (x, q1\<lparr>q_array := p\<rparr>))))"

definition Queue_Push :: "'a \<Rightarrow> 'a \<Rightarrow> 'a rqueue \<Rightarrow> 'a rqueue res" where
  "Queue_Push z x q =
     (if q_alloc q = 0 then
        rbind (OP_NEW_ARRAY z 16) (\<lambda>p. rbind (poke p 0 x) (\<lambda>p'.
        Inr \<lparr>q_array = p', q_head = 0, q_tail = 1, q_alloc = 16\<rparr>))
      else rbind (poke (q_array q) (q_tail q) x) (\<lambda>p.
        let t = w32 (q_tail q + 1);
            q1 = q\<lparr>q_array := p, q_tail := (if t = q_alloc q then 0 else t)\<rparr>
        in if q_tail q1 \<noteq> q_head q1 then Inr q1
           else rbind (OP_NEW_ARRAY z (w32 (q_alloc q * 2))) (\<lambda>new.
                if new = Null then Inr q1
                else rbind (copy_cells (\<lambda>k. w32 (q_head q + k) mod q_alloc q) p (q_alloc q) new) (\<lambda>new'.
                     rbind (OP_DELETE_ARRAY p) (\<lambda>_.
                     Inr \<lparr>q_array = new', q_head = 0, q_tail = q_alloc q, q_alloc = w32 (q_alloc q * 2)\<rparr>)))))"

text \<open>The cell of position \<open>k\<close>.\<close>

definition true_index :: "'a rqueue \<Rightarrow> nat \<Rightarrow> nat" where
  "true_index q k =
     (let i = w32 (q_head q + k) in if q_alloc q \<le> i then i - q_alloc q else i)"

text \<open>The loop of \<open>PushAtHead\<close>, by recursion on \<open>readIndex\<close>.\<close>

primrec push_loop :: "'a rqueue \<Rightarrow> nat \<Rightarrow> nat \<Rightarrow> nat \<Rightarrow> 'a ptr \<Rightarrow> 'a ptr res" where
  "push_loop q index 0 w p =
     (if index = 0 then rbind (peek p (true_index q 0)) (poke p (true_index q w)) else Inr p)"
| "push_loop q index (Suc r) w p =
     (if index \<le> Suc r then
        rbind (rbind (peek p (true_index q (Suc r))) (poke p (true_index q w))) (push_loop q index r (dec32 w))
      else Inr p)"

definition Queue_PushAtHead :: "'a \<Rightarrow> 'a \<Rightarrow> nat \<Rightarrow> 'a rqueue \<Rightarrow> 'a rqueue res" where
  "Queue_PushAtHead z x index q =
     rbind (Queue_Push z x q) (\<lambda>q1.
     if Queue_Size q1 = 1 then Inr q1
     else let w = dec32 (Queue_Size q1)
          in rbind (push_loop q1 index (dec32 w) w (q_array q1)) (\<lambda>p.
             rbind (poke p (true_index q1 index) x) (\<lambda>p'. Inr (q1\<lparr>q_array := p'\<rparr>))))"

definition Queue_Peek :: "'a rqueue \<Rightarrow> 'a res" where
  "Queue_Peek q = peek (q_array q) (q_head q)"

definition Queue_PeekTail :: "'a rqueue \<Rightarrow> 'a res" where
  "Queue_PeekTail q = peek (q_array q) (if q_tail q \<noteq> 0 then q_tail q - 1 else dec32 (q_alloc q))"

text \<open>\<open>Clear\<close> frees a large array and leaves the pointer to it.\<close>

definition Queue_Clear :: "'a rqueue \<Rightarrow> 'a rqueue res" where
  "Queue_Clear q =
     (if q_alloc q = 0 then Inr q
      else if 32 < q_alloc q then
        rbind (OP_DELETE_ARRAY (q_array q)) (\<lambda>_. Inr \<lparr>q_array = Wild, q_head = 0, q_tail = 0, q_alloc = 0\<rparr>)
      else Inr (q\<lparr>q_head := 0, q_tail := 0\<rparr>))"

text \<open>A copy of the elements, with one free cell.\<close>

definition Queue_dup :: "'a \<Rightarrow> 'a rqueue \<Rightarrow> 'a rqueue res" where
  "Queue_dup z orig =
     (let n = Queue_Size orig
      in rbind (OP_NEW_ARRAY z (w32 (n + 1))) (\<lambda>p.
         if q_alloc orig = 0 then Inl DivByZero
         else rbind (copy_cells (\<lambda>k. w32 (q_head orig + k) mod q_alloc orig) (q_array orig) n p) (\<lambda>p'.
         Inr \<lparr>q_array = p', q_head = 0, q_tail = n, q_alloc = w32 (n + 1)\<rparr>)))"

text \<open>
  The copy constructor sets only \<open>allocation_size\<close> for an empty original: \<open>h\<close> and \<open>t\<close> are what is found in the
  memory of the new object.
\<close>

definition Queue_copy :: "'a \<Rightarrow> nat \<Rightarrow> nat \<Rightarrow> 'a rqueue \<Rightarrow> 'a rqueue res" where
  "Queue_copy z h t orig =
     (if Queue_Size orig = 0 then Inr \<lparr>q_array = Wild, q_head = h, q_tail = t, q_alloc = 0\<rparr>
      else Queue_dup z orig)"

definition Queue_assign :: "'a \<Rightarrow> 'a rqueue \<Rightarrow> 'a rqueue \<Rightarrow> 'a rqueue res" where
  "Queue_assign z orig q =
     rbind (Queue_Clear q) (\<lambda>q1.
     if Queue_Size orig = 0 then Inr (q1\<lparr>q_alloc := 0\<rparr>) else Queue_dup z orig)"

partial_function (option) compress_size :: "nat \<Rightarrow> nat \<Rightarrow> nat option" where
  "compress_size count n = (if n \<le> count then compress_size count (w32 (n * 2)) else Some n)"

definition Queue_Compress :: "'a \<Rightarrow> 'a rqueue \<Rightarrow> 'a rqueue res option" where
  "Queue_Compress z q =
     (if q_alloc q = 0 then Some (Inr q)
      else case compress_size (Queue_Size q) 1 of
        None \<Rightarrow> None
      | Some m \<Rightarrow> Some (
          rbind (OP_NEW_ARRAY z m) (\<lambda>p.
          rbind (copy_cells (\<lambda>k. w32 (q_head q + k) mod q_alloc q) (q_array q) (Queue_Size q) p) (\<lambda>p'.
          rbind (OP_DELETE_ARRAY (q_array q)) (\<lambda>_.
          Inr \<lparr>q_array = p', q_head = 0, q_tail = Queue_Size q, q_alloc = m\<rparr>)))))"

partial_function (option) find_loop :: "'a \<Rightarrow> 'a rqueue \<Rightarrow> nat \<Rightarrow> bool res option" where
  "find_loop x q counter =
     (if counter = q_tail q then Some (Inr False)
      else case peek (q_array q) counter of
             Inl e \<Rightarrow> Some (Inl e)
           | Inr y \<Rightarrow> if y = x then Some (Inr True) else find_loop x q (w32 (counter + 1) mod q_alloc q))"

definition Queue_Find :: "'a \<Rightarrow> 'a rqueue \<Rightarrow> bool res option" where
  "Queue_Find x q = (if q_alloc q = 0 then Some (Inr False) else find_loop x q (q_head q))"

text \<open>The count is an \<open>int\<close>; a negative one is stored as its 32 bits.\<close>

definition Queue_ClearAndForceAllocation :: "'a \<Rightarrow> int \<Rightarrow> 'a rqueue \<Rightarrow> 'a rqueue res" where
  "Queue_ClearAndForceAllocation z count q =
     rbind (OP_DELETE_ARRAY (q_array q)) (\<lambda>_.
     rbind (if 0 < count then OP_NEW_ARRAY z (nat count) else Inr Null) (\<lambda>p.
     Inr \<lparr>q_array = p, q_head = 0, q_tail = 0, q_alloc = nat (count mod 4294967296)\<rparr>))"

definition Queue_Get :: "nat \<Rightarrow> 'a rqueue \<Rightarrow> 'a res" where
  "Queue_Get position q = peek (q_array q) (true_index q position)"

definition next_cell :: "'a rqueue \<Rightarrow> nat \<Rightarrow> nat" where
  "next_cell q i = (if w32 (i + 1) = q_alloc q then 0 else w32 (i + 1))"

partial_function (option) remove_cells :: "'a rqueue \<Rightarrow> nat \<Rightarrow> nat \<Rightarrow> 'a ptr \<Rightarrow> 'a ptr res option" where
  "remove_cells q index next p =
     (if next = q_tail q then Some (Inr p)
      else case rbind (peek p next) (poke p index) of
             Inl e \<Rightarrow> Some (Inl e)
           | Inr p' \<Rightarrow> remove_cells q next (next_cell q next) p')"

definition Queue_RemoveAtIndex :: "nat \<Rightarrow> 'a rqueue \<Rightarrow> 'a rqueue res option" where
  "Queue_RemoveAtIndex position q =
     (if q_head q = q_tail q \<or> Queue_Size q \<le> position then Some (Inr q)
      else let index = true_index q position
           in case remove_cells q index (next_cell q index) (q_array q) of
                None \<Rightarrow> None
              | Some (Inl e) \<Rightarrow> Some (Inl e)
              | Some (Inr p) \<Rightarrow>
                  Some (Inr (q\<lparr>q_array := p, q_tail := (if q_tail q = 0 then dec32 (q_alloc q) else q_tail q - 1)\<rparr>)))"

section \<open>The ring\<close>

text \<open>Position \<open>k\<close> of a ring of \<open>a\<close> cells that begins at \<open>h\<close>, and the elements of the first \<open>n\<close> positions.\<close>

definition ring :: "nat \<Rightarrow> nat \<Rightarrow> nat \<Rightarrow> nat" where
  "ring h a k = (if h + k < a then h + k else h + k - a)"

definition cells :: "'a list \<Rightarrow> nat \<Rightarrow> nat \<Rightarrow> 'a list" where
  "cells xs h n = map (\<lambda>k. xs ! ring h (length xs) k) [0..<n]"

lemma ring_less [simp]: "h < a \<Longrightarrow> k < a \<Longrightarrow> ring h a k < a"
  by (auto simp: ring_def)

lemma ring_inj: "h < a \<Longrightarrow> k < a \<Longrightarrow> m < a \<Longrightarrow> ring h a k = ring h a m \<longleftrightarrow> k = m"
  by (auto simp: ring_def)

lemma ring_mod: "h < a \<Longrightarrow> k < a \<Longrightarrow> (h + k) mod a = ring h a k"
  by (auto simp: ring_def mod_if)

lemma ring_0 [simp]: "h < a \<Longrightarrow> ring h a 0 = h"
  by (simp add: ring_def)

lemma ring_from_0 [simp]: "k < a \<Longrightarrow> ring 0 a k = k"
  by (simp add: ring_def)

lemma length_cells [simp]: "length (cells xs h n) = n"
  by (simp add: cells_def)

lemma nth_cells [simp]: "k < n \<Longrightarrow> cells xs h n ! k = xs ! ring h (length xs) k"
  by (simp add: cells_def)

lemma cells_0 [simp]: "cells xs h 0 = []"
  by (simp add: cells_def)

lemma cells_Suc: "cells xs h (Suc n) = cells xs h n @ [xs ! ring h (length xs) n]"
  by (simp add: cells_def)

lemma cells_update:
  assumes "h < length xs" "m < length xs" "n \<le> length xs"
  shows "cells (xs[ring h (length xs) m := x]) h n = (cells xs h n)[m := x]"
proof (rule nth_equalityI)
  fix k assume "k < length (cells (xs[ring h (length xs) m := x]) h n)"
  then have "k < n" by simp
  then show "cells (xs[ring h (length xs) m := x]) h n ! k = (cells xs h n)[m := x] ! k"
    using assms ring_inj [of h "length xs" m k] ring_less [of h "length xs" m]
    by (simp add: nth_list_update)
qed simp

lemma cells_update_outside:
  "h < length xs \<Longrightarrow> m < length xs \<Longrightarrow> n \<le> m \<Longrightarrow> cells (xs[ring h (length xs) m := x]) h n = cells xs h n"
  by (simp add: cells_update list_update_beyond)

lemma ring_Suc: "h < a \<Longrightarrow> Suc k < a \<Longrightarrow> ring (if Suc h = a then 0 else Suc h) a k = ring h a (Suc k)"
  by (auto simp: ring_def)

lemma cells_tl:
  assumes "h < length xs" "0 < n" "n \<le> length xs"
  shows "cells xs h n = xs ! h # cells xs (if Suc h = length xs then 0 else Suc h) (n - 1)"
proof (rule nth_equalityI)
  fix k assume "k < length (cells xs h n)"
  then show "cells xs h n ! k = (xs ! h # cells xs (if Suc h = length xs then 0 else Suc h) (n - 1)) ! k"
    using assms ring_Suc [of h "length xs" "k - 1"] by (cases k) simp_all
qed (use assms in simp)

lemma cells_from_0: "n \<le> length xs \<Longrightarrow> cells xs 0 n = take n xs"
  by (rule nth_equalityI) simp_all

section \<open>Well-formed queues and their elements\<close>

definition rqueue_ok :: "'a rqueue \<Rightarrow> bool" where
  "rqueue_ok q \<longleftrightarrow>
     (if q_alloc q = 0 then q_head q = 0 \<and> q_tail q = 0
      else q_head q < q_alloc q \<and> q_tail q < q_alloc q \<and> q_alloc q < 2147483648 \<and>
        (\<exists>xs. q_array q = Arr xs \<and> length xs = q_alloc q))"

definition contents :: "'a rqueue \<Rightarrow> 'a list" where
  "contents q = (case q_array q of Arr xs \<Rightarrow> cells xs (q_head q) (Queue_Size q) | _ \<Rightarrow> [])"

definition the_queue :: "'a list \<Rightarrow> nat \<Rightarrow> nat \<Rightarrow> 'a rqueue" where
  "the_queue xs h n = \<lparr>q_array = Arr xs, q_head = h, q_tail = ring h (length xs) n, q_alloc = length xs\<rparr>"

lemma the_queue_simps [simp]:
  "q_array (the_queue xs h n) = Arr xs" "q_head (the_queue xs h n) = h"
  "q_tail (the_queue xs h n) = ring h (length xs) n" "q_alloc (the_queue xs h n) = length xs"
  by (simp_all add: the_queue_def)

lemma the_queue_Size:
  assumes "h < length xs" "n < length xs" "length xs < 2147483648"
  shows "Queue_Size (the_queue xs h n) = n"
proof (cases "h + n < length xs")
  case False
  then have "sub32 (length xs) h = length xs - h" using assms by (simp add: sub32_le)
  then show ?thesis using False assms by (simp add: Queue_Size_def ring_def)
qed (simp add: Queue_Size_def ring_def)

lemma the_queue_ok [simp]:
  assumes "h < length xs" "n < length xs" "length xs < 2147483648"
  shows "rqueue_ok (the_queue xs h n)" "contents (the_queue xs h n) = cells xs h n"
  using assms by (auto simp: rqueue_ok_def contents_def the_queue_Size)

lemma rqueue_ok_cases:
  assumes "rqueue_ok q"
  obtains (Empty) "q_alloc q = 0" "q_head q = 0" "q_tail q = 0" "contents q = []" "Queue_Size q = 0"
  | (Full) xs h n where "q = the_queue xs h n" "h < length xs" "n < length xs" "length xs < 2147483648"
proof (cases "q_alloc q = 0")
  case True
  then have "q_head q = 0" "q_tail q = 0" using assms by (simp_all add: rqueue_ok_def)
  then show ?thesis using True by (intro Empty) (simp_all add: contents_def Queue_Size_def split: ptr.splits)
next
  case False
  then obtain xs where xs: "q_array q = Arr xs" "length xs = q_alloc q" "q_head q < q_alloc q"
      "q_tail q < q_alloc q" "q_alloc q < 2147483648"
    using assms by (auto simp: rqueue_ok_def)
  let ?n = "if q_head q \<le> q_tail q then q_tail q - q_head q else q_alloc q - q_head q + q_tail q"
  have "ring (q_head q) (length xs) ?n = q_tail q" using xs by (auto simp: ring_def)
  then have "q = the_queue xs (q_head q) ?n" using xs by (cases q) (simp add: the_queue_def)
  moreover have "?n < length xs" using xs by auto
  ultimately show ?thesis using xs by (intro Full [of xs "q_head q" ?n]) simp_all
qed

lemma length_contents:
  assumes "rqueue_ok q"
  shows "length (contents q) = Queue_Size q"
  using assms by (cases rule: rqueue_ok_cases) (simp_all add: the_queue_Size)

lemma true_index_ok:
  assumes "q_head q < q_alloc q" "k < q_alloc q" "q_alloc q < 2147483648"
  shows "true_index q k = ring (q_head q) (q_alloc q) k"
  using assms by (auto simp: true_index_def ring_def Let_def)

definition queue_as :: "'a rqueue res \<Rightarrow> 'a list \<Rightarrow> bool" where
  "queue_as r xs \<longleftrightarrow> (\<exists>q. r = Inr q \<and> rqueue_ok q \<and> contents q = xs)"

lemma queue_asI: "r = Inr q \<Longrightarrow> rqueue_ok q \<Longrightarrow> contents q = xs \<Longrightarrow> queue_as r xs"
  by (auto simp: queue_as_def)

lemma queue_as_the:
  assumes "r = Inr (the_queue ys h n)" "cells ys h n = xs" "h < length ys" "n < length ys" "length ys < 2147483648"
  shows "queue_as r xs"
  using assms by (intro queue_asI [OF assms(1)]) simp_all

lemma Queue_new_ok: "rqueue_ok Queue_new" "contents Queue_new = []"
  by (simp_all add: rqueue_ok_def contents_def Queue_new_def)

lemma ring_next:
  "h < a \<Longrightarrow> n < a \<Longrightarrow> (if Suc (ring h a n) = a then 0 else Suc (ring h a n)) = (if Suc n = a then h else ring h a (Suc n))"
  by (auto simp: ring_def)

lemma ring_prev:
  "h < a \<Longrightarrow> 0 < n \<Longrightarrow> n < a \<Longrightarrow> (if ring h a n = 0 then a - 1 else ring h a n - 1) = ring h a (n - 1)"
  by (auto simp: ring_def)

text \<open>The copying loops straighten the ring.\<close>

lemma straighten:
  assumes "h < length xs" "n \<le> length xs" "n \<le> length ys" "length xs < 2147483648"
  shows "copy_cells (\<lambda>k. w32 (h + k) mod length xs) (Arr xs) n (Arr ys) = Inr (Arr (cells xs h n @ drop n ys))"
proof -
  have r: "w32 (h + k) mod length xs = ring h (length xs) k" if "k < n" for k
    using that assms ring_mod [of h "length xs" k] by simp
  have "copy_cells (\<lambda>k. w32 (h + k) mod length xs) (Arr xs) n (Arr ys)
      = Inr (Arr (map (\<lambda>k. xs ! (w32 (h + k) mod length xs)) [0..<n] @ drop n ys))"
    using assms r by (intro copy_cells_ok) simp_all
  also have "map (\<lambda>k. xs ! (w32 (h + k) mod length xs)) [0..<n] = cells xs h n"
    using r by (simp add: cells_def)
  finally show ?thesis .
qed

lemma Push_as:
  assumes "rqueue_ok q" "length (contents q) < 1073741823"
  shows "queue_as (Queue_Push z x q) (contents q @ [x])"
  using assms(1)
proof (cases rule: rqueue_ok_cases)
  case Empty
  have "replicate 16 z = z # replicate 15 z" by (subst replicate_Suc [symmetric]) simp
  then have "Queue_Push z x q = Inr (the_queue (x # replicate 15 z) 0 1)"
    using Empty(1) by (simp add: Queue_Push_def the_queue_def ring_def)
  moreover have "cells (x # replicate 15 z) 0 1 = contents q @ [x]"
    using Empty(4) by (simp add: cells_from_0)
  ultimately show ?thesis by (rule queue_as_the) simp_all
next
  case (Full xs h n)
  let ?a = "length xs"
  let ?xs = "xs[ring h ?a n := x]"
  have n: "n < 1073741823" using assms(2) Full by simp
  have new: "cells ?xs h (Suc n) = contents q @ [x]"
    using Full cells_update_outside [of h xs n n x] by (simp add: cells_Suc)
  have "ring h ?a n < ?a" using Full(2,3) by simp
  then have t: "w32 (ring h ?a n + 1) = Suc (ring h ?a n)" using Full(4) by simp
  have a: "0 < ?a" using Full(2) by linarith
  show ?thesis
  proof (cases "Suc n = ?a")
    case True
    have "Queue_Push z x q = Inr (the_queue (cells ?xs h ?a @ replicate ?a z) 0 ?a)"
      using Full True n t a ring_next [of h ?a n] straighten [of h ?xs ?a "replicate (?a * 2) z"]
      by (simp add: Queue_Push_def Let_def the_queue_def split del: if_split)
    moreover have "cells (cells ?xs h ?a @ replicate ?a z) 0 ?a = contents q @ [x]"
      unfolding new [symmetric] True by (simp add: cells_from_0)
    ultimately show ?thesis by (rule queue_as_the) (use a True n in simp_all)
  next
    case False
    have ne: "ring h ?a (Suc n) \<noteq> h" using Full(2,3) False by (auto simp: ring_def)
    have "Queue_Push z x q = Inr (the_queue ?xs h (Suc n))"
      using Full False t a ne ring_next [of h ?a n]
      by (simp add: Queue_Push_def Let_def the_queue_def split del: if_split)
    then show ?thesis using new by (rule queue_as_the) (use Full False in simp_all)
  qed
qed

lemma Pop_as:
  assumes "rqueue_ok q" "contents q \<noteq> []"
  shows "\<exists>q'. Queue_Pop q = Inr (hd (contents q), q') \<and> rqueue_ok q' \<and> contents q' = tl (contents q)"
  using assms(1)
proof (cases rule: rqueue_ok_cases)
  case (Full xs h n)
  have n: "0 < n" using assms(2) Full by (cases n) auto
  let ?h = "if Suc h = length xs then 0 else Suc h"
  have c: "cells xs h n = xs ! h # cells xs ?h (n - 1)"
    using cells_tl [of h xs n] Full n by simp
  have q: "step_head q = the_queue xs ?h (n - 1)"
    using Full n ring_Suc [of h "length xs" "n - 1"] by (simp add: step_head_def the_queue_def)
  have "dec32 (length xs) = length xs - 1" using Full by (intro dec32_pos) auto
  then have "behind_head (the_queue xs ?h (n - 1)) = h"
    using Full by (auto simp: behind_head_def)
  then have "Queue_Pop q = Inr (xs ! h, the_queue xs ?h (n - 1))"
    using Full(2) by (simp add: Queue_Pop_def q Let_def)
  moreover have "?h < length xs" "n - 1 < length xs" using Full by auto
  ultimately show ?thesis using the_queue_ok [of ?h xs "n - 1"] the_queue_ok [of h xs n] Full c
    by (intro exI [of _ "the_queue xs ?h (n - 1)"]) (simp split del: if_split)
qed (use assms(2) in simp)

lemma PopTail_as:
  assumes "rqueue_ok q" "contents q \<noteq> []"
  shows "\<exists>q'. Queue_PopTail q = Inr (last (contents q), q') \<and> rqueue_ok q' \<and> contents q' = butlast (contents q)"
  using assms(1)
proof (cases rule: rqueue_ok_cases)
  case (Full xs h n)
  have n: "0 < n" using assms(2) Full by (cases n) auto
  have "dec32 (length xs) = length xs - 1" using Full by (intro dec32_pos) auto
  then have t: "(if ring h (length xs) n \<noteq> 0 then ring h (length xs) n - 1 else dec32 (length xs))
      = ring h (length xs) (n - 1)"
    using ring_prev [of h "length xs" n] Full n by (simp split: if_splits)
  have c: "cells xs h n = cells xs h (n - 1) @ [xs ! ring h (length xs) (n - 1)]"
    using cells_Suc [of xs h "n - 1"] n by simp
  have "Queue_PopTail q = Inr (xs ! ring h (length xs) (n - 1), the_queue xs h (n - 1))"
    unfolding Queue_PopTail_def Full(1) the_queue_simps t Let_def
    using Full n by (simp add: the_queue_def)
  then show ?thesis using Full n c by (intro exI [of _ "the_queue xs h (n - 1)"]) simp
qed (use assms(2) in simp)

lemma Get_as:
  assumes "rqueue_ok q" "k < length (contents q)"
  shows "Queue_Get k q = Inr (contents q ! k)"
  using assms(1)
proof (cases rule: rqueue_ok_cases)
  case (Full xs h n)
  then have "k < n" using assms(2) by simp
  then show ?thesis using Full by (simp add: Queue_Get_def true_index_ok)
qed (use assms(2) in simp)

lemma Peek_as:
  assumes "rqueue_ok q" "contents q \<noteq> []"
  shows "Queue_Peek q = Inr (hd (contents q))"
  using assms(1)
proof (cases rule: rqueue_ok_cases)
  case (Full xs h n)
  then have "contents q = xs ! h # cells xs (if Suc h = length xs then 0 else Suc h) (n - 1)"
    using cells_tl [of h xs n] assms(2) by (cases n) auto
  then show ?thesis using Full by (simp add: Queue_Peek_def)
qed (use assms(2) in simp)

lemma PeekTail_as:
  assumes "rqueue_ok q" "contents q \<noteq> []"
  shows "Queue_PeekTail q = Inr (last (contents q))"
  using PopTail_as [OF assms]
  by (auto simp: Queue_PopTail_def Queue_PeekTail_def Let_def rbind_eq_Inr)

text \<open>The loop of \<open>PushAtHead\<close> moves the positions from \<open>index\<close> to \<open>r\<close> up by one.\<close>

lemma push_loop_ok:
  assumes "q_head q < q_alloc q" "q_alloc q < 2147483648"
    and "length xs = q_alloc q" "Suc r < q_alloc q" "index \<le> Suc r"
  shows "\<exists>ys. push_loop q index r (Suc r) (Arr xs) = Inr (Arr ys) \<and> length ys = q_alloc q
    \<and> (\<forall>k < q_alloc q. ys ! ring (q_head q) (q_alloc q) k
        = xs ! ring (q_head q) (q_alloc q) (if index < k \<and> k \<le> Suc r then k - 1 else k))"
  using assms(3-5)
proof (induction r arbitrary: xs)
  case 0
  let ?r = "ring (q_head q) (q_alloc q)"
  show ?case
  proof (cases "index = 0")
    case True
    then show ?thesis using 0 assms(1,2)
      by (intro exI [of _ "xs[?r (Suc 0) := xs ! ?r 0]"])
        (auto simp: true_index_ok nth_list_update ring_inj)
  next
    case False
    then show ?thesis using 0 by (intro exI [of _ xs]) auto
  qed
next
  case (Suc r)
  let ?r = "ring (q_head q) (q_alloc q)"
  show ?case
  proof (cases "index \<le> Suc r")
    case True
    let ?xs = "xs[?r (Suc (Suc r)) := xs ! ?r (Suc r)]"
    have "length ?xs = q_alloc q" "Suc r < q_alloc q" using Suc.prems by simp_all
    from Suc.IH [OF this True] obtain ys where ys: "push_loop q index r (Suc r) (Arr ?xs) = Inr (Arr ys)"
        "length ys = q_alloc q"
        "\<forall>k < q_alloc q. ys ! ?r k = ?xs ! ?r (if index < k \<and> k \<le> Suc r then k - 1 else k)" by blast
    have "dec32 (Suc (Suc r)) = Suc r" using Suc.prems assms(2) by (simp add: dec32_pos)
    then have "push_loop q index (Suc r) (Suc (Suc r)) (Arr xs) = Inr (Arr ys)"
      using True Suc.prems assms(1,2) ys(1) by (simp add: true_index_ok)
    moreover have "ys ! ?r k = xs ! ?r (if index < k \<and> k \<le> Suc (Suc r) then k - 1 else k)"
      if "k < q_alloc q" for k
    proof -
      have "?r k < length xs" "?r (k - 1) < length xs" using that assms(1) Suc.prems(1) by simp_all
      moreover have "ys ! ?r k = ?xs ! ?r (if index < k \<and> k \<le> Suc r then k - 1 else k)"
        using ys(3) that by blast
      ultimately show ?thesis using that True Suc.prems assms(1)
        by (cases "k = Suc (Suc r)") (auto simp: nth_list_update ring_inj)
    qed
    ultimately show ?thesis using ys(2) by blast
  next
    case False
    then show ?thesis using Suc.prems by (intro exI [of _ xs]) auto
  qed
qed

lemma PushAtHead_as:
  assumes "rqueue_ok q" "length (contents q) < 1073741823" "index \<le> length (contents q)"
  shows "queue_as (Queue_PushAtHead z x index q) (take index (contents q) @ x # drop index (contents q))"
proof -
  let ?c = "contents q"
  obtain q1 where q1: "Queue_Push z x q = Inr q1" "rqueue_ok q1" "contents q1 = ?c @ [x]"
    using Push_as [OF assms(1,2), of z x] by (auto simp: queue_as_def)
  have n: "Queue_Size q1 = Suc (length ?c)" using length_contents [OF q1(2)] q1(3) by simp
  show ?thesis
  proof (cases "?c = []")
    case True
    then show ?thesis using q1 n assms(3) by (intro queue_asI [of _ q1]) (simp_all add: Queue_PushAtHead_def)
  next
    case False
    then obtain m where m: "length ?c = Suc m" by (cases "length ?c") auto
    from q1(2) show ?thesis
    proof (cases rule: rqueue_ok_cases)
      case Empty
      then show ?thesis using q1(3) by simp
    next
      case (Full xs h k)
      then have k: "k = Suc (Suc m)" using n m by (simp add: the_queue_Size)
      let ?r = "ring h (length xs)"
      have "\<exists>ys. push_loop q1 index m (Suc m) (Arr xs) = Inr (Arr ys) \<and> length ys = length xs
          \<and> (\<forall>k < length xs. ys ! ?r k = xs ! ?r (if index < k \<and> k \<le> Suc m then k - 1 else k))"
        using push_loop_ok [of q1 xs m index] Full(2-4) k assms(3) m
        unfolding Full(1) the_queue_simps by simp
      then obtain ys where "push_loop q1 index m (Suc m) (Arr xs) = Inr (Arr ys) \<and> length ys = length xs
          \<and> (\<forall>k < length xs. ys ! ?r k = xs ! ?r (if index < k \<and> k \<le> Suc m then k - 1 else k))" ..
      note ys = this [THEN conjunct1] this [THEN conjunct2, THEN conjunct1] this [THEN conjunct2, THEN conjunct2]
      have d: "dec32 (Suc (Suc m)) = Suc m" "dec32 (Suc m) = m"
        using Full(3,4) k by (simp_all add: dec32_pos)
      have i: "index < length xs" using Full(3) k assms(3) m by simp
      have run: "Queue_PushAtHead z x index q = Inr (the_queue (ys[?r index := x]) h k)"
      proof -
        have t: "true_index q1 index = ?r index" "?r index < length ys"
          using true_index_ok [of q1 index] Full i ys(2) by simp_all
        have p: "q_array q1 = Arr xs" using Full(1) by simp
        have "Queue_PushAtHead z x index q = Inr (q1\<lparr>q_array := Arr (ys[?r index := x])\<rparr>)"
          using ys(1) t by (simp add: Queue_PushAtHead_def Let_def q1(1) n m d p)
        then show ?thesis using Full(1) ys(2) by (simp add: the_queue_def)
      qed
      have old: "xs ! ?r j = (?c @ [x]) ! j" if "j < k" for j
        using q1(3) Full that by (metis nth_cells the_queue_ok(2))
      have "cells (ys[?r index := x]) h k = take index ?c @ x # drop index ?c"
      proof (rule nth_equalityI)
        fix j assume "j < length (cells (ys[?r index := x]) h k)"
        then have j: "j < k" by simp
        then have "cells (ys[?r index := x]) h k ! j = (if j = index then x else ys ! ?r j)"
          using ys(2) Full(2,3) i ring_inj [of h "length xs" j index] by (auto simp: nth_list_update)
        also have "\<dots> = (if j = index then x else if index < j then ?c ! (j - 1) else ?c ! j)"
          using ys(3) old [of j] old [of "j - 1"] j k m Full(3) assms(3) by (auto simp: nth_append)
        finally show "cells (ys[?r index := x]) h k ! j = (take index ?c @ x # drop index ?c) ! j"
          using assms(3) j k m by (auto simp: nth_append nth_Cons')
      qed (use k m assms(3) in simp)
      with run show ?thesis by (rule queue_as_the) (use Full ys(2) in simp_all)
    qed
  qed
qed

lemma next_cell_ok:
  assumes "q_head q < q_alloc q" "Suc k < q_alloc q" "q_alloc q < 2147483648"
  shows "next_cell q (ring (q_head q) (q_alloc q) k) = ring (q_head q) (q_alloc q) (Suc k)"
proof -
  have "ring (q_head q) (q_alloc q) k < q_alloc q" using assms by simp
  then have "w32 (ring (q_head q) (q_alloc q) k + 1) = Suc (ring (q_head q) (q_alloc q) k)" using assms(3) by simp
  then show ?thesis using ring_next [of "q_head q" "q_alloc q" k] assms by (auto simp: next_cell_def split: if_splits)
qed

text \<open>The loop of \<open>RemoveAtIndex\<close> moves the positions behind \<open>i\<close> down by one.\<close>

lemma remove_cells_ok:
  assumes "q_head q < q_alloc q" "q_alloc q < 2147483648" "n < q_alloc q"
    "q_tail q = ring (q_head q) (q_alloc q) n" "i < n" "length xs = q_alloc q"
  shows "\<exists>ys. remove_cells q (ring (q_head q) (q_alloc q) i) (ring (q_head q) (q_alloc q) (Suc i)) (Arr xs)
      = Some (Inr (Arr ys)) \<and> length ys = q_alloc q
    \<and> (\<forall>k < q_alloc q. ys ! ring (q_head q) (q_alloc q) k
        = xs ! ring (q_head q) (q_alloc q) (if i \<le> k \<and> Suc k < n then Suc k else k))"
  using assms(5,6)
proof (induction "n - i" arbitrary: i xs)
  case (Suc d)
  let ?r = "ring (q_head q) (q_alloc q)"
  show ?case
  proof (cases "Suc i = n")
    case True
    then show ?thesis using Suc.prems assms(4)
      by (intro exI [of _ xs]) (auto simp: remove_cells.simps)
  next
    case False
    let ?xs = "xs[?r i := xs ! ?r (Suc i)]"
    have i: "Suc i < n" "length ?xs = q_alloc q" "d = n - Suc i" using Suc False by simp_all
    from Suc.hyps(1) [OF i(3,1,2)] have "\<exists>ys. remove_cells q (?r (Suc i)) (?r (Suc (Suc i))) (Arr ?xs)
        = Some (Inr (Arr ys)) \<and> length ys = q_alloc q
      \<and> (\<forall>k < q_alloc q. ys ! ?r k = ?xs ! ?r (if Suc i \<le> k \<and> Suc k < n then Suc k else k))" .
    then obtain ys where "remove_cells q (?r (Suc i)) (?r (Suc (Suc i))) (Arr ?xs)
        = Some (Inr (Arr ys)) \<and> length ys = q_alloc q
      \<and> (\<forall>k < q_alloc q. ys ! ?r k = ?xs ! ?r (if Suc i \<le> k \<and> Suc k < n then Suc k else k))" ..
    note ys = this [THEN conjunct1] this [THEN conjunct2, THEN conjunct1] this [THEN conjunct2, THEN conjunct2]
    have ne: "?r (Suc i) \<noteq> q_tail q" using assms i(1) by (simp add: ring_inj)
    have l: "?r i < length xs" "?r (Suc i) < length xs" using assms Suc.prems i by simp_all
    have "next_cell q (?r (Suc i)) = ?r (Suc (Suc i))" using assms i(1) by (intro next_cell_ok) simp_all
    then have "remove_cells q (?r i) (?r (Suc i)) (Arr xs) = Some (Inr (Arr ys))"
      using ne l ys(1) by (subst remove_cells.simps) simp
    moreover have "ys ! ?r k = xs ! ?r (if i \<le> k \<and> Suc k < n then Suc k else k)" if "k < q_alloc q" for k
    proof -
      have "ys ! ?r k = ?xs ! ?r (if Suc i \<le> k \<and> Suc k < n then Suc k else k)" using ys(3) that by blast
      then show ?thesis using that i(1) l assms(1,3) Suc.prems(2)
        by (cases "k = i") (auto simp: nth_list_update ring_inj)
    qed
    ultimately show ?thesis using ys(2) by blast
  qed
qed simp

definition queue_opt_as :: "'a rqueue res option \<Rightarrow> 'a list \<Rightarrow> bool" where
  "queue_opt_as r xs \<longleftrightarrow> (\<exists>q. r = Some (Inr q) \<and> rqueue_ok q \<and> contents q = xs)"

lemma RemoveAtIndex_as:
  assumes "rqueue_ok q"
  shows "queue_opt_as (Queue_RemoveAtIndex p q) (take p (contents q) @ drop (Suc p) (contents q))"
proof (cases "p < length (contents q)")
  case True
  from assms show ?thesis
  proof (cases rule: rqueue_ok_cases)
    case (Full xs h n)
    then have p: "p < n" using True by simp
    let ?r = "ring h (length xs)"
    have "\<exists>ys. remove_cells q (?r p) (?r (Suc p)) (Arr xs) = Some (Inr (Arr ys)) \<and> length ys = length xs
        \<and> (\<forall>k < length xs. ys ! ?r k = xs ! ?r (if p \<le> k \<and> Suc k < n then Suc k else k))"
      using remove_cells_ok [of q n p xs] Full(2-4) p unfolding Full(1) the_queue_simps by simp
    then obtain ys where "remove_cells q (?r p) (?r (Suc p)) (Arr xs) = Some (Inr (Arr ys)) \<and> length ys = length xs
        \<and> (\<forall>k < length xs. ys ! ?r k = xs ! ?r (if p \<le> k \<and> Suc k < n then Suc k else k))" ..
    note ys = this [THEN conjunct1] this [THEN conjunct2, THEN conjunct1] this [THEN conjunct2, THEN conjunct2]
    have "dec32 (length xs) = length xs - 1" using Full by (intro dec32_pos) auto
    then have t: "(if ?r n = 0 then dec32 (length xs) else ?r n - 1) = ?r (n - 1)"
      using ring_prev [of h "length xs" n] Full p by (auto split: if_splits)
    have ne: "h \<noteq> ?r n" using Full p by (auto simp: ring_def)
    have idx: "true_index q p = ?r p" "next_cell q (?r p) = ?r (Suc p)"
      using true_index_ok [of q p] next_cell_ok [of q p] Full p by simp_all
    have "Queue_RemoveAtIndex p q = Some (Inr (q\<lparr>q_array := Arr ys, q_tail := ?r (n - 1)\<rparr>))"
    proof -
      have f: "q_head q = h" "q_tail q = ?r n" "q_array q = Arr xs" "q_alloc q = length xs" "Queue_Size q = n"
        using Full by (simp_all add: the_queue_Size)
      have t': "(if q_tail q = 0 then dec32 (q_alloc q) else q_tail q - 1) = ?r (n - 1)"
        unfolding f t ..
      show ?thesis unfolding Queue_RemoveAtIndex_def idx Let_def t' using ys(1) ne p by (simp add: f)
    qed
    then have run: "Queue_RemoveAtIndex p q = Some (Inr (the_queue ys h (n - 1)))"
      using Full(1) ys(2) by (simp add: the_queue_def)
    have "cells ys h (n - 1) = take p (contents q) @ drop (Suc p) (contents q)"
    proof (rule nth_equalityI)
      fix k assume "k < length (cells ys h (n - 1))"
      then have k: "Suc k < n" by simp
      then have "cells ys h (n - 1) ! k = xs ! ?r (if p \<le> k then Suc k else k)"
        using ys(2,3) Full(3) by simp
      then show "cells ys h (n - 1) ! k = (take p (contents q) @ drop (Suc p) (contents q)) ! k"
        using Full p k by (auto simp: nth_append)
    qed (use p Full in simp)
    with run show ?thesis using Full ys(2) the_queue_ok [of h ys "n - 1"] by (auto simp: queue_opt_as_def)
  qed (use True in simp)
next
  case False
  then have "Queue_RemoveAtIndex p q = Some (Inr q)"
    using length_contents [OF assms] by (simp add: Queue_RemoveAtIndex_def)
  then show ?thesis using False assms by (simp add: queue_opt_as_def)
qed

lemma find_loop_ok:
  assumes "h < length xs" "n < length xs" "length xs < 2147483648" "i \<le> n"
  shows "find_loop x (the_queue xs h n) (ring h (length xs) i) = Some (Inr (x \<in> set (drop i (cells xs h n))))"
  using assms(4)
proof (induction "n - i" arbitrary: i)
  case 0
  then show ?case by (simp add: find_loop.simps)
next
  case (Suc d)
  let ?r = "ring h (length xs)"
  have i: "i < n" "d = n - Suc i" "Suc i \<le> n" using Suc by simp_all
  have "?r i < length xs" using assms i by simp
  then have w: "w32 (?r i + 1) mod length xs = ?r (Suc i)"
    using assms i by (auto simp: ring_def mod_if)
  have "drop i (cells xs h n) = xs ! ?r i # drop (Suc i) (cells xs h n)"
    using i(1) by (simp add: Cons_nth_drop_Suc [symmetric])
  moreover have "?r i \<noteq> ?r n" using assms i by (simp add: ring_inj)
  moreover have "find_loop x (the_queue xs h n) (?r (Suc i)) = Some (Inr (x \<in> set (drop (Suc i) (cells xs h n))))"
    using i by (intro Suc.hyps(1)) simp_all
  ultimately show ?case using w \<open>?r i < length xs\<close> by (subst find_loop.simps) auto
qed

lemma Find_as:
  assumes "rqueue_ok q"
  shows "Queue_Find x q = Some (Inr (x \<in> set (contents q)))"
  using assms
proof (cases rule: rqueue_ok_cases)
  case Empty
  then show ?thesis by (simp add: Queue_Find_def)
next
  case (Full xs h n)
  have "0 < length xs" using Full(2) by linarith
  then show ?thesis using Full find_loop_ok [of h xs n 0 x] by (simp add: Queue_Find_def)
qed

lemma Clear_as:
  assumes "rqueue_ok q"
  shows "queue_as (Queue_Clear q) []"
  using assms
proof (cases rule: rqueue_ok_cases)
  case Empty
  then show ?thesis using assms by (intro queue_asI [of _ q]) (simp_all add: Queue_Clear_def)
next
  case (Full xs h n)
  then have a: "0 < length xs" by linarith
  show ?thesis
  proof (cases "32 < length xs")
    case True
    then show ?thesis using Full(1) a
      by (auto simp: queue_as_def Queue_Clear_def rqueue_ok_def contents_def)
  next
    case False
    then have "Queue_Clear q = Inr (the_queue xs 0 0)" using Full(1) a by (simp add: Queue_Clear_def the_queue_def)
    then show ?thesis by (rule queue_as_the) (use a Full in simp_all)
  qed
qed

lemma dup_as:
  assumes "rqueue_ok q" "contents q \<noteq> []"
    "length (contents q) < 1073741823"
  shows "queue_as (Queue_dup z q) (contents q)"
  using assms(1)
proof (cases rule: rqueue_ok_cases)
  case (Full xs h n)
  have n: "0 < n" "n < 1073741823" using assms(2,3) Full by (cases n, auto)
  have "Queue_dup z q = Inr (the_queue (cells xs h n @ [z]) 0 n)"
  proof -
    have "drop n (replicate (Suc n) z) = [z]" by (simp del: replicate_Suc add: replicate_Suc [of 0])
    moreover have "0 < length xs" using Full(2) by linarith
    ultimately show ?thesis
      using Full n straighten [of h xs n "replicate (Suc n) z"]
      by (simp add: Queue_dup_def Let_def the_queue_Size del: replicate_Suc)
  qed
  then show ?thesis by (rule queue_as_the) (use Full n in \<open>simp_all add: cells_from_0\<close>)
qed (use assms(2) in simp)

lemma assign_as:
  assumes "rqueue_ok orig" "rqueue_ok q" "length (contents orig) < 1073741823"
  shows "queue_as (Queue_assign z orig q) (contents orig)"
proof -
  obtain q1 where q1: "Queue_Clear q = Inr q1" "rqueue_ok q1" "contents q1 = []"
    using Clear_as [OF assms(2)] by (auto simp: queue_as_def)
  show ?thesis
  proof (cases "contents orig = []")
    case True
    have "Queue_Size orig = 0" using length_contents [OF assms(1)] True by simp
    then have run: "Queue_assign z orig q = Inr (q1\<lparr>q_alloc := 0\<rparr>)" by (simp add: Queue_assign_def q1(1))
    have h: "q_head q1 = 0 \<and> q_tail q1 = 0"
      using q1(1) assms(2) by (auto simp: Queue_Clear_def rqueue_ok_def split: if_splits)
    with run True show ?thesis
      by (intro queue_asI [OF run])
        (auto simp: rqueue_ok_def contents_def Queue_Size_def split: ptr.splits)
  next
    case False
    have "Queue_Size orig \<noteq> 0" using length_contents [OF assms(1)] False by (metis length_0_conv)
    then show ?thesis using dup_as [OF assms(1) False assms(3)] by (simp add: Queue_assign_def q1(1))
  qed
qed

lemma compress_size_ends:
  assumes "0 < n" "count < 1073741824"
  shows "\<exists>m. compress_size count n = Some m \<and> count < m \<and> (m = n \<or> m < 2147483648)"
  using assms(1)
proof (induction "Suc count - n" arbitrary: n rule: less_induct)
  case less
  show ?case
  proof (cases "n \<le> count")
    case True
    have "\<exists>m. compress_size count (n * 2) = Some m \<and> count < m \<and> (m = n * 2 \<or> m < 2147483648)"
      using less.prems True by (intro less.hyps) simp_all
    moreover have "w32 (n * 2) = n * 2" "n * 2 < 2147483648" using True assms(2) by simp_all
    ultimately show ?thesis using True by (subst compress_size.simps) auto
  next
    case False
    then show ?thesis by (subst compress_size.simps) simp
  qed
qed

lemma Compress_as:
  assumes "rqueue_ok q" "length (contents q) < 1073741824"
  shows "queue_opt_as (Queue_Compress z q) (contents q)"
  using assms(1)
proof (cases rule: rqueue_ok_cases)
  case Empty
  then show ?thesis using assms(1) by (simp add: queue_opt_as_def Queue_Compress_def)
next
  case (Full xs h n)
  then have n: "n < 1073741824" using assms(2) by simp
  obtain m where m: "compress_size n 1 = Some m" "n < m" "m = 1 \<or> m < 2147483648"
    using compress_size_ends [of 1 n] n by auto
  have m': "m < 2147483648" using m(3) by auto
  have "0 < length xs" using Full(2) by linarith
  then have "Queue_Compress z q = Some (Inr (the_queue (cells xs h n @ replicate (m - n) z) 0 n))"
    using Full n m m' straighten [of h xs n "replicate m z"]
    by (simp add: Queue_Compress_def the_queue_Size)
  moreover have "cells (cells xs h n @ replicate (m - n) z) 0 n = contents q"
    using Full m(2) by (simp add: cells_from_0)
  ultimately show ?thesis using m(2) m' the_queue_ok [of 0 "cells xs h n @ replicate (m - n) z" n]
    by (auto simp: queue_opt_as_def)
qed

lemma PopDeref_as:
  assumes "rqueue_ok q" "contents q \<noteq> []"
  shows "\<exists>q'. Queue_PopDeref nil q = Inr (hd (contents q), q') \<and> rqueue_ok q' \<and> contents q' = tl (contents q)"
  using assms(1)
proof (cases rule: rqueue_ok_cases)
  case (Full xs h n)
  have n: "0 < n" using assms(2) Full by (cases n) auto
  let ?h = "if Suc h = length xs then 0 else Suc h"
  let ?ys = "xs[h := nil]"
  have c: "cells xs h n = xs ! h # cells xs ?h (n - 1)"
    using cells_tl [of h xs n] Full n by simp
  have q: "step_head q = the_queue xs ?h (n - 1)"
    using Full n ring_Suc [of h "length xs" "n - 1"] by (simp add: step_head_def the_queue_def)
  have "dec32 (length xs) = length xs - 1" using Full by (intro dec32_pos) auto
  then have "behind_head (the_queue xs ?h (n - 1)) = h" using Full by (auto simp: behind_head_def)
  then have run: "Queue_PopDeref nil q = Inr (xs ! h, the_queue ?ys ?h (n - 1))"
    using Full(2) by (simp add: Queue_PopDeref_def q Let_def)
  have hd: "?h < length xs" "n - 1 < length xs" using Full by auto
  have "ring ?h (length xs) (length xs - 1) = h" using Full(2) by (auto simp: ring_def)
  then have "cells ?ys ?h (n - 1) = cells xs ?h (n - 1)"
    using cells_update_outside [of ?h xs "length xs - 1" "n - 1" nil] hd Full by (simp split del: if_split)
  then show ?thesis using run hd Full c the_queue_ok [of ?h ?ys "n - 1"] the_queue_ok [of h xs n]
    by (intro exI [of _ "the_queue ?ys ?h (n - 1)"]) (simp split del: if_split)
qed (use assms(2) in simp)

lemma IsEmpty_as:
  assumes "rqueue_ok q"
  shows "Queue_IsEmpty q \<longleftrightarrow> contents q = []"
  using assms
proof (cases rule: rqueue_ok_cases)
  case (Full xs h n)
  then show ?thesis using length_cells [of xs h n] by (cases n) (auto simp: Queue_IsEmpty_def ring_def cells_Suc)
qed (simp add: Queue_IsEmpty_def)

lemma ForceAllocation_as:
  assumes "q_array q \<noteq> Wild" "0 \<le> n" "n < 2147483648"
  shows "queue_as (Queue_ClearAndForceAllocation z n q) []"
proof (cases "n = 0")
  case True
  then show ?thesis using assms(1)
    by (auto simp: Queue_ClearAndForceAllocation_def OP_DELETE_ARRAY_def queue_as_def rqueue_ok_def contents_def)
next
  case False
  then have "Queue_ClearAndForceAllocation z n q = Inr (the_queue (replicate (nat n) z) 0 0)"
    using assms by (simp add: Queue_ClearAndForceAllocation_def OP_DELETE_ARRAY_def the_queue_def)
  then show ?thesis by (rule queue_as_the) (use False assms in simp_all)
qed

section \<open>The queue a program sees\<close>

text \<open>
  The operations that change a queue. \<open>QCopy\<close> goes on with the object the copy constructor makes,
  \<open>h\<close> and \<open>t\<close> being what its memory held, and \<open>QAssign\<close> assigns another queue.
\<close>

datatype 'a queue_op =
    QPush 'a | QPushAtHead 'a nat | QPop | QPopTail | QPopDeref | QRemove nat | QClear | QCompress
  | QForce int | QCopy nat nat | QAssign "'a rqueue"

definition popped :: "('a \<times> 'a rqueue) res \<Rightarrow> ('a option \<times> 'a rqueue) res option" where
  "popped r = Some (rbind r (\<lambda>(x, q). Inr (Some x, q)))"

definition changed :: "'a rqueue res option \<Rightarrow> ('a option \<times> 'a rqueue) res option" where
  "changed r = map_option (\<lambda>r. rbind r (\<lambda>q. Inr (None, q))) r"

fun run_queue :: "'a \<Rightarrow> 'a queue_op \<Rightarrow> 'a rqueue \<Rightarrow> ('a option \<times> 'a rqueue) res option" where
  "run_queue z (QPush x) q = changed (Some (Queue_Push z x q))"
| "run_queue z (QPushAtHead x i) q = changed (Some (Queue_PushAtHead z x i q))"
| "run_queue z QPop q = popped (Queue_Pop q)"
| "run_queue z QPopTail q = popped (Queue_PopTail q)"
| "run_queue z QPopDeref q = popped (Queue_PopDeref z q)"
| "run_queue z (QRemove i) q = changed (Queue_RemoveAtIndex i q)"
| "run_queue z QClear q = changed (Some (Queue_Clear q))"
| "run_queue z QCompress q = changed (Queue_Compress z q)"
| "run_queue z (QForce n) q = changed (Some (Queue_ClearAndForceAllocation z n q))"
| "run_queue z (QCopy h t) q = changed (Some (Queue_copy z h t q))"
| "run_queue z (QAssign orig) q = changed (Some (Queue_assign z orig q))"

text \<open>What an operation returns and what it does to the list of elements.\<close>

fun queue_spec :: "'a queue_op \<Rightarrow> 'a list \<Rightarrow> 'a option \<times> 'a list" where
  "queue_spec (QPush x) xs = (None, xs @ [x])"
| "queue_spec (QPushAtHead x i) xs = (None, take i xs @ x # drop i xs)"
| "queue_spec QPop xs = (Some (hd xs), tl xs)"
| "queue_spec QPopTail xs = (Some (last xs), butlast xs)"
| "queue_spec QPopDeref xs = (Some (hd xs), tl xs)"
| "queue_spec (QRemove i) xs = (None, take i xs @ drop (Suc i) xs)"
| "queue_spec QClear xs = (None, [])"
| "queue_spec QCompress xs = (None, xs)"
| "queue_spec (QForce n) xs = (None, [])"
| "queue_spec (QCopy h t) xs = (None, xs)"
| "queue_spec (QAssign orig) xs = (None, contents orig)"

text \<open>
  What the caller owes: an element to pop, a position inside, fewer than \<open>2^30 - 1\<close> elements, an
  array that \<open>Clear\<close> has not freed already, and a copy of an empty queue only by assignment.
\<close>

fun queue_pre :: "'a queue_op \<Rightarrow> 'a rqueue \<Rightarrow> bool" where
  "queue_pre (QPush x) q = (length (contents q) < 1073741823)"
| "queue_pre (QPushAtHead x i) q = (length (contents q) < 1073741823 \<and> i \<le> length (contents q))"
| "queue_pre QPop q = (contents q \<noteq> [])"
| "queue_pre QPopTail q = (contents q \<noteq> [])"
| "queue_pre QPopDeref q = (contents q \<noteq> [])"
| "queue_pre QCompress q = (length (contents q) < 1073741823)"
| "queue_pre (QForce n) q = (q_array q \<noteq> Wild \<and> 0 \<le> n \<and> n < 2147483648)"
| "queue_pre (QCopy h t) q = (contents q \<noteq> [] \<and> length (contents q) < 1073741823)"
| "queue_pre (QAssign orig) q = (rqueue_ok orig \<and> length (contents orig) < 1073741823)"
| "queue_pre op q = True"

definition run_as :: "('a option \<times> 'a rqueue) res option \<Rightarrow> 'a option \<times> 'a list \<Rightarrow> bool" where
  "run_as r s \<longleftrightarrow> (\<exists>q. r = Some (Inr (fst s, q)) \<and> rqueue_ok q \<and> contents q = snd s)"

lemma run_as_changed:
  "queue_as r xs \<Longrightarrow> run_as (changed (Some r)) (None, xs)" "queue_opt_as o' xs \<Longrightarrow> run_as (changed o') (None, xs)"
  by (auto simp: queue_as_def queue_opt_as_def run_as_def changed_def)

lemma run_as_popped:
  "\<exists>q. r = Inr (x, q) \<and> rqueue_ok q \<and> contents q = xs \<Longrightarrow> run_as (popped r) (Some x, xs)"
  by (auto simp: run_as_def popped_def)

lemma queue_op_as:
  assumes "rqueue_ok q" "queue_pre op q"
  shows "run_as (run_queue z op q) (queue_spec op (contents q))"
proof (cases op)
  case (QCopy h t)
  then have "Queue_Size q \<noteq> 0" using length_contents [OF assms(1)] assms(2) by (metis length_0_conv queue_pre.simps(8))
  then show ?thesis using QCopy assms(2) dup_as [OF assms(1), of z]
    by (simp add: Queue_copy_def run_as_changed)
next
  case (QAssign orig)
  then show ?thesis using assms(2) assign_as [OF _ assms(1), of orig z] by (simp add: run_as_changed)
next
  case (QForce n)
  then show ?thesis using assms(2) ForceAllocation_as [of q n z] by (simp add: run_as_changed)
next
  case (QRemove i)
  then show ?thesis using RemoveAtIndex_as [OF assms(1)] by (simp add: run_as_changed)
next
  case QPop
  then show ?thesis using Pop_as [OF assms(1)] assms(2) by (auto intro!: run_as_popped)
next
  case QPopTail
  then show ?thesis using PopTail_as [OF assms(1)] assms(2) by (auto intro!: run_as_popped)
next
  case QPopDeref
  then show ?thesis using PopDeref_as [OF assms(1)] assms(2) by (auto intro!: run_as_popped)
qed (use Push_as [OF assms(1)] PushAtHead_as [OF assms(1)] Clear_as [OF assms(1)] Compress_as [OF assms(1)]
  assms(2) in \<open>simp_all add: run_as_changed\<close>)

text \<open>C25: \<open>DataStructures::Queue\<close> refines the plain list: every operation that changes a well-formed queue
  returns what it returns on lists, without a fault, keeps it well formed and does to its elements
  what it does on lists, and afterwards \<open>Size\<close>, \<open>IsEmpty\<close>, \<open>operator[]\<close>, \<open>Peek\<close>, \<open>PeekTail\<close> and \<open>Find\<close> read
  them. It holds under \<open>queue_pre\<close>: an operation that pops needs an element, \<open>PushAtHead\<close> a position
  that is not behind the end, those that allocate fewer than \<open>2^30 - 1\<close> elements (or a count of
  \<open>ClearAndForceAllocation\<close> that is not negative), \<open>ClearAndForceAllocation\<close> an array that \<open>Clear\<close> has
  not freed, the copy constructor an original that is not empty, and assignment another, well-formed queue.\<close>

theorem queue_refines:
  assumes "rqueue_ok q" "queue_pre op q"
  shows "\<exists>q'. run_queue z op q = Some (Inr (fst (queue_spec op (contents q)), q')) \<and> rqueue_ok q' \<and>
    (let xs = snd (queue_spec op (contents q)) in
     contents q' = xs \<and> Queue_Size q' = length xs \<and> Queue_IsEmpty q' = (xs = [])
     \<and> (\<forall>i < length xs. Queue_Get i q' = Inr (xs ! i))
     \<and> (xs \<noteq> [] \<longrightarrow> Queue_Peek q' = Inr (hd xs) \<and> Queue_PeekTail q' = Inr (last xs))
     \<and> (\<forall>x. Queue_Find x q' = Some (Inr (x \<in> set xs))))"
proof -
  obtain q' where q': "run_queue z op q = Some (Inr (fst (queue_spec op (contents q)), q'))" "rqueue_ok q'"
    "contents q' = snd (queue_spec op (contents q))"
    using queue_op_as [OF assms, of z] by (auto simp: run_as_def)
  have "Queue_Size q' = length (contents q')" using length_contents [OF q'(2)] by simp
  moreover have "\<forall>i < length (contents q'). Queue_Get i q' = Inr (contents q' ! i)"
    using Get_as [OF q'(2)] by blast
  moreover have "\<forall>x. Queue_Find x q' = Some (Inr (x \<in> set (contents q')))" using Find_as [OF q'(2)] by blast
  moreover have "Queue_IsEmpty q' = (contents q' = [])" using IsEmpty_as [OF q'(2)] by simp
  moreover have "contents q' \<noteq> [] \<longrightarrow> Queue_Peek q' = Inr (hd (contents q')) \<and> Queue_PeekTail q' = Inr (last (contents q'))"
    using Peek_as [OF q'(2)] PeekTail_as [OF q'(2)] by blast
  ultimately show ?thesis
    unfolding q'(3) [symmetric] Let_def using q'(1,2) by (intro exI [of _ q'] conjI refl)
qed

theorem queue_refines_witness:
  "\<exists>q' q''. run_queue 0 (QPush 7) Queue_new = Some (Inr (None, q')) \<and> Queue_Get 0 q' = Inr (7 :: nat)
     \<and> run_queue 0 QPop q' = Some (Inr (Some 7, q'')) \<and> Queue_IsEmpty q''"
proof -
  obtain q' where q': "run_queue 0 (QPush 7) Queue_new = Some (Inr (None, q'))" "rqueue_ok q'" "contents q' = [7 :: nat]"
    "Queue_Get 0 q' = Inr 7"
    using queue_refines [OF Queue_new_ok(1), of "QPush (7 :: nat)" 0] by (auto simp: Queue_new_ok(2) Let_def)
  then show ?thesis using queue_refines [OF q'(2), of QPop 0] by (auto simp: Let_def)
qed

section \<open>First in, first out\<close>

fun drain :: "('q \<Rightarrow> ('a \<times> 'q) res) \<Rightarrow> nat \<Rightarrow> 'q \<Rightarrow> ('a list \<times> 'q) res" where
  "drain pop 0 q = Inr ([], q)"
| "drain pop (Suc n) q = rbind (pop q) (\<lambda>(x, q1). rbind (drain pop n q1) (\<lambda>(xs, q2). Inr (x # xs, q2)))"

locale fifo =
  fixes ok :: "'q \<Rightarrow> bool"
    and elems :: "'q \<Rightarrow> 'a list"
    and push :: "'a \<Rightarrow> 'q \<Rightarrow> 'q res"
    and pop :: "'q \<Rightarrow> ('a \<times> 'q) res"
    and bound :: nat
  assumes push_law: "ok q \<Longrightarrow> length (elems q) < bound \<Longrightarrow>
      \<exists>q'. push x q = Inr q' \<and> ok q' \<and> elems q' = elems q @ [x]"
    and pop_law: "ok q \<Longrightarrow> elems q \<noteq> [] \<Longrightarrow>
      \<exists>q'. pop q = Inr (hd (elems q), q') \<and> ok q' \<and> elems q' = tl (elems q)"
begin

lemma push_all:
  "ok q \<Longrightarrow> length (elems q) + length ys \<le> bound \<Longrightarrow>
    \<exists>q'. foldE push ys q = Inr q' \<and> ok q' \<and> elems q' = elems q @ ys"
proof (induction ys arbitrary: q)
  case (Cons y ys)
  then obtain q1 where "push y q = Inr q1" "ok q1" "elems q1 = elems q @ [y]"
    using push_law [of q y] by auto
  then show ?case using Cons.IH [of q1] Cons.prems(2) by auto
qed simp

lemma drain_all:
  "ok q \<Longrightarrow> n = length (elems q) \<Longrightarrow> \<exists>q'. drain pop n q = Inr (elems q, q') \<and> ok q' \<and> elems q' = []"
proof (induction n arbitrary: q)
  case (Suc n)
  then have ne: "elems q \<noteq> []" by auto
  then obtain q1 where "pop q = Inr (hd (elems q), q1)" "ok q1" "elems q1 = tl (elems q)"
    using pop_law [OF Suc.prems(1)] by auto
  moreover have "n = length (elems q1)" using calculation(3) Suc.prems(2) by simp
  ultimately have "\<exists>q'. drain pop (Suc n) q = Inr (hd (elems q) # tl (elems q), q') \<and> ok q' \<and> elems q' = []"
    using Suc.IH [of q1] by auto
  then show ?case using ne by simp
qed auto

lemma through:
  assumes "ok q" "length (elems q) + length ys \<le> bound"
  shows "\<exists>q'. rbind (foldE push ys q) (drain pop (length (elems q) + length ys)) = Inr (elems q @ ys, q')
    \<and> ok q' \<and> elems q' = []"
proof -
  obtain q1 where "foldE push ys q = Inr q1" "ok q1" "elems q1 = elems q @ ys" using push_all [OF assms] by blast
  then show ?thesis using drain_all [of q1 "length (elems q) + length ys"] by simp
qed

end

interpretation rq: fifo rqueue_ok contents "Queue_Push z" Queue_Pop 1073741823 for z
  by unfold_locales (use Push_as Pop_as in \<open>auto simp: queue_as_def\<close>)

text \<open>First in, first out, across every growth of the array: elements pushed on a queue come out behind
  those that were there, in the order in which they went in.\<close>

lemma queue_fifo:
  assumes "rqueue_ok q" "length (contents q) + length ys \<le> 1073741823"
  shows "\<exists>q'. rbind (foldE (Queue_Push z) ys q) (drain Queue_Pop (length (contents q) + length ys))
      = Inr (contents q @ ys, q') \<and> Queue_IsEmpty q'"
proof -
  obtain q' where q': "rbind (foldE (Queue_Push z) ys q) (drain Queue_Pop (length (contents q) + length ys))
      = Inr (contents q @ ys, q')" "rqueue_ok q'" "contents q' = []"
    using rq.through [OF assms, of z] by (elim exE conjE) (rule that)
  have "Queue_IsEmpty q'"
    using q'(2,3) by (cases rule: rqueue_ok_cases) (auto simp: Queue_IsEmpty_def cells_def)
  with q'(1) show ?thesis by (intro exI [of _ q'] conjI)
qed

text \<open>\<open>Clear\<close> frees an array of more than 32 cells and keeps the pointer, so that a following
  \<open>ClearAndForceAllocation\<close> frees it again; and the copy constructor gives an empty queue no head and tail:
  the copy has whatever size the old memory says. Assignment, in contrast, copies every queue.\<close>

lemma queue_stale:
  assumes "rqueue_ok q" "rqueue_ok q1" "length (contents q) < 1073741823"
  shows "(32 < Queue_AllocationSize q \<longrightarrow>
      rbind (Queue_Clear q) (Queue_ClearAndForceAllocation z n) = Inl WildPointer)
    \<and> (contents q = [] \<and> h \<le> t \<longrightarrow> (\<exists>c. Queue_copy z h t q = Inr c \<and> Queue_Size c = t - h))
    \<and> queue_as (Queue_assign z q q1) (contents q)"
proof (intro conjI impI)
  assume "32 < Queue_AllocationSize q"
  then show "rbind (Queue_Clear q) (Queue_ClearAndForceAllocation z n) = Inl WildPointer"
    using assms(1)
    by (auto simp: Queue_AllocationSize_def Queue_Clear_def rqueue_ok_def Queue_ClearAndForceAllocation_def
        OP_DELETE_ARRAY_def)
next
  assume "contents q = [] \<and> h \<le> t"
  then show "\<exists>c. Queue_copy z h t q = Inr c \<and> Queue_Size c = t - h"
    using length_contents [OF assms(1)] by (simp add: Queue_copy_def Queue_Size_def)
qed (rule assign_as [OF assms])

end
