(* ===== verification/RakList.thy ===== *)
theory RakList
  imports RakMemory
begin

text \<open>
  \<open>DataStructures::List\<close> of RakNet (\<^verbatim>\<open>DS_List.h\<close>): an array that grows by doubling. The last argument of
  the loops that move elements is the array; \<open>z\<close> is a default constructed element. Release build: the
  assertions are empty.
\<close>

section \<open>Code\<close>

record 'a rlist =
  listArray :: "'a ptr"
  list_size :: nat
  allocation_size :: nat

definition List_new :: "'a rlist" where
  "List_new = \<lparr>listArray = Null, list_size = 0, allocation_size = 0\<rparr>"

definition List_delete :: "'a rlist \<Rightarrow> unit res" where
  "List_delete l = (if 0 < allocation_size l then OP_DELETE_ARRAY (listArray l) else Inr ())"

text \<open>The copy constructor does not set \<open>listArray\<close> for an empty original.\<close>

definition List_copy :: "'a \<Rightarrow> 'a rlist \<Rightarrow> 'a rlist res" where
  "List_copy z orig =
     (if list_size orig = 0 then Inr \<lparr>listArray = Wild, list_size = 0, allocation_size = 0\<rparr>
      else rbind (OP_NEW_ARRAY z (list_size orig)) (\<lambda>p.
           rbind (copy_cells (\<lambda>k. k) (listArray orig) (list_size orig) p) (\<lambda>p'.
           Inr \<lparr>listArray = p', list_size = list_size orig, allocation_size = list_size orig\<rparr>)))"

definition List_Clear :: "bool \<Rightarrow> 'a rlist \<Rightarrow> 'a rlist res" where
  "List_Clear keep_small l =
     (if allocation_size l = 0 then Inr l
      else if 512 < allocation_size l \<or> \<not> keep_small then
        rbind (OP_DELETE_ARRAY (listArray l)) (\<lambda>_.
        Inr \<lparr>listArray = Null, list_size = 0, allocation_size = 0\<rparr>)
      else Inr (l\<lparr>list_size := 0\<rparr>))"

text \<open>Assignment from another list.\<close>

definition List_assign :: "'a \<Rightarrow> 'a rlist \<Rightarrow> 'a rlist \<Rightarrow> 'a rlist res" where
  "List_assign z orig l =
     rbind (List_Clear False l) (\<lambda>l1.
     if list_size orig = 0 then Inr (l1\<lparr>list_size := 0, allocation_size := 0\<rparr>)
     else rbind (OP_NEW_ARRAY z (list_size orig)) (\<lambda>p.
          rbind (copy_cells (\<lambda>k. k) (listArray orig) (list_size orig) p) (\<lambda>p'.
          Inr \<lparr>listArray = p', list_size = list_size orig, allocation_size = list_size orig\<rparr>)))"

definition List_Get :: "nat \<Rightarrow> 'a rlist \<Rightarrow> 'a res" where
  "List_Get position l = peek (listArray l) position"

text \<open>\<open>listArray[position] = x\<close> through the reference that \<open>operator[]\<close> returns.\<close>

definition List_put :: "nat \<Rightarrow> 'a \<Rightarrow> 'a rlist \<Rightarrow> 'a rlist res" where
  "List_put position x l = rbind (poke (listArray l) position x) (\<lambda>p. Inr (l\<lparr>listArray := p\<rparr>))"

definition List_Size :: "'a rlist \<Rightarrow> nat" where "List_Size l = list_size l"

definition List_Pop :: "'a rlist \<Rightarrow> ('a \<times> 'a rlist) res" where
  "List_Pop l =
     (let n = dec32 (list_size l)
      in rbind (peek (listArray l) n) (\<lambda>x. Inr (x, l\<lparr>list_size := n\<rparr>)))"

text \<open>A larger array for the same elements.\<close>

definition regrow :: "'a \<Rightarrow> nat \<Rightarrow> 'a rlist \<Rightarrow> 'a rlist res" where
  "regrow z n l =
     rbind (OP_NEW_ARRAY z n) (\<lambda>p.
     rbind (copy_cells (\<lambda>k. k) (listArray l) (list_size l) p) (\<lambda>p'.
     rbind (OP_DELETE_ARRAY (listArray l)) (\<lambda>_.
     Inr (l\<lparr>listArray := p', allocation_size := n\<rparr>))))"

definition regrow_if :: "'a \<Rightarrow> nat \<Rightarrow> 'a rlist \<Rightarrow> 'a rlist res" where
  "regrow_if z n l =
     rbind (OP_NEW_ARRAY z n) (\<lambda>p.
     if listArray l = Null then Inr (l\<lparr>listArray := p, allocation_size := n\<rparr>)
     else rbind (copy_cells (\<lambda>k. k) (listArray l) (list_size l) p) (\<lambda>p'.
          rbind (OP_DELETE_ARRAY (listArray l)) (\<lambda>_.
          Inr (l\<lparr>listArray := p', allocation_size := n\<rparr>))))"

definition doubled :: "nat \<Rightarrow> nat" where
  "doubled n = (if n = 0 then 16 else w32 (n * 2))"

text \<open>
  The loop that makes room. A position behind the end takes the counter below 0, and the next read
  is at \<open>2^32 - 1\<close>, behind every array.
\<close>

primrec shift_up :: "nat \<Rightarrow> nat \<Rightarrow> 'a ptr \<Rightarrow> 'a ptr res" where
  "shift_up 0 position p = (if position = 0 then Inr p else Inl OutOfBounds)"
| "shift_up (Suc c) position p =
     (if position = Suc c then Inr p
      else rbind (peek p c) (\<lambda>x. rbind (poke p (Suc c) x) (shift_up c position)))"

definition List_Insert_at :: "'a \<Rightarrow> 'a \<Rightarrow> nat \<Rightarrow> 'a rlist \<Rightarrow> 'a rlist res" where
  "List_Insert_at z x position l =
     rbind (if list_size l = allocation_size l then regrow z (doubled (allocation_size l)) l else Inr l) (\<lambda>l1.
     rbind (shift_up (list_size l1) position (listArray l1)) (\<lambda>p.
     rbind (poke p position x) (\<lambda>p'.
     Inr (l1\<lparr>listArray := p', list_size := w32 (list_size l1 + 1)\<rparr>))))"

definition List_Insert :: "'a \<Rightarrow> 'a \<Rightarrow> 'a rlist \<Rightarrow> 'a rlist res" where
  "List_Insert z x l =
     rbind (if list_size l = allocation_size l then regrow_if z (doubled (allocation_size l)) l else Inr l) (\<lambda>l1.
     rbind (poke (listArray l1) (list_size l1) x) (\<lambda>p.
     Inr (l1\<lparr>listArray := p, list_size := w32 (list_size l1 + 1)\<rparr>)))"

definition List_Push :: "'a \<Rightarrow> 'a \<Rightarrow> 'a rlist \<Rightarrow> 'a rlist res" where
  "List_Push z x l = List_Insert z x l"

definition List_Replace_at :: "'a \<Rightarrow> 'a \<Rightarrow> 'a \<Rightarrow> nat \<Rightarrow> 'a rlist \<Rightarrow> 'a rlist res" where
  "List_Replace_at z x filler position l =
     (if 0 < list_size l \<and> position < list_size l then List_put position x l
      else rbind (if allocation_size l \<le> position then regrow z (w32 (position + 1)) l else Inr l) (\<lambda>l1.
           rbind (foldE (\<lambda>k p. poke p k filler) [list_size l1..<position] (listArray l1)) (\<lambda>p.
           let n = max (list_size l1) position
           in rbind (poke p n x) (\<lambda>p'. Inr (l1\<lparr>listArray := p', list_size := w32 (n + 1)\<rparr>)))))"

definition List_Replace :: "'a \<Rightarrow> 'a rlist \<Rightarrow> 'a rlist res" where
  "List_Replace x l = (if 0 < list_size l then List_put (list_size l - 1) x l else Inr l)"

definition List_RemoveFromEnd :: "nat \<Rightarrow> 'a rlist \<Rightarrow> 'a rlist" where
  "List_RemoveFromEnd num l = l\<lparr>list_size := sub32 (list_size l) num\<rparr>"

definition List_RemoveAtIndex :: "nat \<Rightarrow> 'a rlist \<Rightarrow> 'a rlist res" where
  "List_RemoveAtIndex position l =
     (if position < list_size l then
        rbind (foldE (\<lambda>k p. rbind (peek p (k + 1)) (poke p k)) [position..<list_size l - 1] (listArray l)) (\<lambda>p.
        Inr (List_RemoveFromEnd 1 (l\<lparr>listArray := p\<rparr>)))
      else Inr l)"

definition List_RemoveAtIndexFast :: "nat \<Rightarrow> 'a rlist \<Rightarrow> 'a rlist res" where
  "List_RemoveAtIndexFast position l =
     (let n = dec32 (list_size l)
      in rbind (peek (listArray l) n) (\<lambda>x. List_put position x (l\<lparr>list_size := n\<rparr>)))"

fun index_scan :: "'a \<Rightarrow> 'a ptr \<Rightarrow> nat list \<Rightarrow> nat res" where
  "index_scan x p [] = Inr MAX_UNSIGNED_LONG"
| "index_scan x p (i # is) = rbind (peek p i) (\<lambda>y. if y = x then Inr i else index_scan x p is)"

definition List_GetIndexOf :: "'a \<Rightarrow> 'a rlist \<Rightarrow> nat res" where
  "List_GetIndexOf x l = index_scan x (listArray l) [0..<list_size l]"

text \<open>\<open>Compress\<close> makes a new array of the size the old one has.\<close>

definition List_Compress :: "'a \<Rightarrow> 'a rlist \<Rightarrow> 'a rlist res" where
  "List_Compress z l = (if allocation_size l = 0 then Inr l else regrow z (allocation_size l) l)"

text \<open>The doubling loop of \<open>Preallocate\<close>; \<open>None\<close> where it does not end, the amount being 0.\<close>

partial_function (option) double_up :: "nat \<Rightarrow> nat \<Rightarrow> nat option" where
  "double_up need n = (if n < need then double_up need (w32 (n * 2)) else Some n)"

definition List_Preallocate :: "'a \<Rightarrow> nat \<Rightarrow> 'a rlist \<Rightarrow> 'a rlist res option" where
  "List_Preallocate z countNeeded l =
     (case double_up countNeeded (if allocation_size l = 0 then 16 else allocation_size l) of
        None \<Rightarrow> None
      | Some n \<Rightarrow> Some (if allocation_size l < n then regrow_if z n l else Inr l))"

section \<open>Well-formed lists and their elements\<close>

definition rlist_ok :: "'a rlist \<Rightarrow> bool" where
  "rlist_ok l \<longleftrightarrow> list_size l \<le> allocation_size l \<and> allocation_size l < 2147483648 \<and>
     (case listArray l of
        Null \<Rightarrow> allocation_size l = 0
      | Wild \<Rightarrow> False
      | Arr xs \<Rightarrow> length xs = allocation_size l \<and> 0 < allocation_size l)"

definition items :: "'a rlist \<Rightarrow> 'a list" where
  "items l = (case listArray l of Arr xs \<Rightarrow> take (list_size l) xs | _ \<Rightarrow> [])"

lemma length_items: "rlist_ok l \<Longrightarrow> length (items l) = list_size l"
  by (auto simp: rlist_ok_def items_def split: ptr.splits)

lemma rlist_ok_cases:
  assumes "rlist_ok l"
  obtains (Empty) "l = List_new"
  | (Full) xs n where "l = \<lparr>listArray = Arr xs, list_size = n, allocation_size = length xs\<rparr>"
      "n \<le> length xs" "0 < length xs" "length xs < 2147483648"
proof (cases "listArray l")
  case Null
  with assms have "l = List_new" by (cases l) (simp add: rlist_ok_def List_new_def)
  then show ?thesis by (rule Empty)
next
  case Wild
  with assms show ?thesis by (simp add: rlist_ok_def)
next
  case (Arr xs)
  with assms show ?thesis by (intro Full [of xs "list_size l"]) (cases l, simp_all add: rlist_ok_def)
qed

lemma rlist_ok_Arr [simp]:
  "rlist_ok \<lparr>listArray = Arr xs, list_size = n, allocation_size = length xs\<rparr>
    \<longleftrightarrow> n \<le> length xs \<and> 0 < length xs \<and> length xs < 2147483648"
  by (auto simp: rlist_ok_def)

lemma items_Arr [simp]: "items \<lparr>listArray = Arr xs, list_size = n, allocation_size = m\<rparr> = take n xs"
  by (simp add: items_def)

lemma List_new_ok [simp]: "rlist_ok List_new" "items List_new = []" "list_size List_new = 0"
    "allocation_size List_new = 0"
  by (simp_all add: rlist_ok_def items_def List_new_def)

text \<open>What it means that an operation runs and does to the elements what \<open>f\<close> does.\<close>

definition runs_as :: "'a rlist res \<Rightarrow> 'a list \<Rightarrow> bool" where
  "runs_as r xs \<longleftrightarrow> (\<exists>l. r = Inr l \<and> rlist_ok l \<and> items l = xs)"

lemma runs_asI: "r = Inr l \<Longrightarrow> rlist_ok l \<Longrightarrow> items l = xs \<Longrightarrow> runs_as r xs"
  by (auto simp: runs_as_def)

lemma runs_asE: assumes "runs_as r xs" obtains l where "r = Inr l" "rlist_ok l" "items l = xs"
  using assms by (auto simp: runs_as_def)

text \<open>Growing keeps the elements and makes room.\<close>

lemma regrow_ok:
  assumes "rlist_ok l" "list_size l \<le> n" "0 < n" "n < 2147483648"
  shows "\<exists>ys. length ys = n \<and> take (list_size l) ys = items l
    \<and> regrow z n l = Inr \<lparr>listArray = Arr ys, list_size = list_size l, allocation_size = n\<rparr>
    \<and> regrow_if z n l = Inr \<lparr>listArray = Arr ys, list_size = list_size l, allocation_size = n\<rparr>"
  using assms(1)
proof (cases rule: rlist_ok_cases)
  case Empty
  then show ?thesis using assms(3,4)
    by (intro exI [of _ "replicate n z"]) (simp add: regrow_def regrow_if_def List_new_def items_def)
next
  case (Full xs m)
  then show ?thesis using assms
    by (intro exI [of _ "take m xs @ replicate (n - m) z"])
      (simp add: regrow_def regrow_if_def copy_cells_id min_def)
qed

definition grown :: "'a rlist \<Rightarrow> 'a list \<Rightarrow> 'a rlist" where
  "grown l ys = \<lparr>listArray = Arr ys, list_size = list_size l, allocation_size = length ys\<rparr>"

lemma grown_simps [simp]:
  "listArray (grown l ys) = Arr ys" "list_size (grown l ys) = list_size l"
  "allocation_size (grown l ys) = length ys"
  by (simp_all add: grown_def)

lemma make_room:
  assumes "rlist_ok l" "list_size l < 1073741824"
  obtains ys where "list_size l < length ys" "take (list_size l) ys = items l" "length ys < 2147483648"
    "(if list_size l = allocation_size l then regrow z (doubled (allocation_size l)) l else Inr l)
       = Inr (grown l ys)"
    "(if list_size l = allocation_size l then regrow_if z (doubled (allocation_size l)) l else Inr l)
       = Inr (grown l ys)"
proof (cases "list_size l = allocation_size l")
  case True
  let ?n = "doubled (allocation_size l)"
  have n: "list_size l < ?n" "?n < 2147483648" using True assms(2) by (simp_all add: doubled_def)
  then obtain ys where "length ys = ?n" "take (list_size l) ys = items l"
      "regrow z ?n l = Inr \<lparr>listArray = Arr ys, list_size = list_size l, allocation_size = ?n\<rparr>"
      "regrow_if z ?n l = Inr \<lparr>listArray = Arr ys, list_size = list_size l, allocation_size = ?n\<rparr>"
    using regrow_ok [OF assms(1), of ?n z] by auto
  with True n show ?thesis by (intro that [of ys]) (simp_all add: grown_def)
next
  case False
  from assms(1) show ?thesis
  proof (cases rule: rlist_ok_cases)
    case (Full xs m)
    with False show ?thesis by (intro that [of xs]) (simp_all add: grown_def)
  qed (use False in simp)
qed

lemma shift_up_ok:
  assumes "position \<le> n" "n < length xs"
  shows "shift_up n position (Arr xs)
    = Inr (Arr (take (Suc position) xs @ take (n - position) (drop position xs) @ drop (Suc n) xs))"
  using assms
proof (induction n arbitrary: xs)
  case (Suc n)
  show ?case
  proof (cases "position = Suc n")
    case False
    let ?ys = "xs[Suc n := xs ! n]"
    have "shift_up (Suc n) position (Arr xs) = shift_up n position (Arr ?ys)"
      using False Suc.prems by simp
    also have "\<dots> = Inr (Arr (take (Suc position) ?ys @ take (n - position) (drop position ?ys) @ drop (Suc n) ?ys))"
      using False Suc.prems by (intro Suc.IH) simp_all
    also have "take (Suc position) ?ys = take (Suc position) xs" using False Suc.prems by simp
    also have "take (n - position) (drop position ?ys) = take (n - position) (drop position xs)"
      using False Suc.prems by (simp add: drop_update_swap)
    also have "drop (Suc n) ?ys = xs ! n # drop (Suc (Suc n)) xs"
      using Suc.prems by (simp add: drop_update_swap Cons_nth_drop_Suc [symmetric])
    also have "take (n - position) (drop position xs) @ xs ! n # drop (Suc (Suc n)) xs
        = take (Suc n - position) (drop position xs) @ drop (Suc (Suc n)) xs"
      using False Suc.prems by (simp add: Suc_diff_le take_Suc_conv_app_nth)
    finally show ?thesis .
  qed simp
qed simp

text \<open>An operation that leaves the array \<open>zs\<close> and the size \<open>n\<close>.\<close>

lemma runs_as_grown:
  assumes "r = Inr \<lparr>listArray = Arr zs, list_size = n, allocation_size = m\<rparr>"
    "length zs = m" "n \<le> m" "0 < m" "m < 2147483648" "take n zs = xs"
  shows "runs_as r xs"
  using assms rlist_ok_Arr [of zs n] by (intro runs_asI [OF assms(1)]) simp_all

lemma Insert_at_runs:
  assumes "rlist_ok l" "list_size l < 1073741824" "position \<le> list_size l"
  shows "runs_as (List_Insert_at z x position l) (take position (items l) @ x # drop position (items l))"
proof -
  obtain ys where ys: "list_size l < length ys" "take (list_size l) ys = items l" "length ys < 2147483648"
      "(if list_size l = allocation_size l then regrow z (doubled (allocation_size l)) l else Inr l)
       = Inr (grown l ys)"
    using make_room [OF assms(1,2), of z] by metis
  let ?n = "list_size l"
  let ?s = "take position ys @ x # take (?n - position) (drop position ys) @ drop (Suc ?n) ys"
  have s: "(take (Suc position) ys @ take (?n - position) (drop position ys) @ drop (Suc ?n) ys)[position := x] = ?s"
    using ys(1) assms(3) by (simp add: take_Suc_conv_app_nth list_update_append)
  show ?thesis
  proof (rule runs_as_grown [of _ ?s "Suc ?n" "length ys"])
    show "List_Insert_at z x position l
        = Inr \<lparr>listArray = Arr ?s, list_size = Suc ?n, allocation_size = length ys\<rparr>"
      using ys(1) assms(2,3) s
      by (simp add: List_Insert_at_def ys(4) shift_up_ok [OF assms(3) ys(1)] grown_def)
    show "take (Suc ?n) ?s = take position (items l) @ x # drop position (items l)"
      using ys(1) assms(3) by (simp add: ys(2) [symmetric] drop_take min_def Suc_diff_le, arith)
  qed (use ys(1,3) assms(3) in auto)
qed

lemma Insert_runs:
  assumes "rlist_ok l" "list_size l < 1073741824"
  shows "runs_as (List_Insert z x l) (items l @ [x])"
proof -
  obtain ys where ys: "list_size l < length ys" "take (list_size l) ys = items l" "length ys < 2147483648"
      "(if list_size l = allocation_size l then regrow_if z (doubled (allocation_size l)) l else Inr l)
       = Inr (grown l ys)"
    using make_room [OF assms(1,2), of z] by metis
  show ?thesis
  proof (rule runs_as_grown [of _ "ys[list_size l := x]" "Suc (list_size l)" "length ys"])
    show "List_Insert z x l = Inr \<lparr>listArray = Arr (ys[list_size l := x]), list_size = Suc (list_size l),
        allocation_size = length ys\<rparr>"
      using ys(1) assms(2) by (simp add: List_Insert_def ys(4) grown_def)
  qed (use ys in \<open>auto simp: take_Suc_conv_app_nth\<close>)
qed

lemma Pop_ok:
  assumes "rlist_ok l" "items l \<noteq> []"
  shows "List_Pop l = Inr (last (items l), l\<lparr>list_size := list_size l - 1\<rparr>)"
    "rlist_ok (l\<lparr>list_size := list_size l - 1\<rparr>)" "items (l\<lparr>list_size := list_size l - 1\<rparr>) = butlast (items l)"
proof -
  obtain xs n where l: "l = \<lparr>listArray = Arr xs, list_size = n, allocation_size = length xs\<rparr>"
      "n \<le> length xs" "0 < length xs" "length xs < 2147483648"
    using assms by (cases rule: rlist_ok_cases) auto
  have n: "0 < n" using assms(2) l(1) by auto
  have "last (take n xs) = xs ! (n - 1)" using n l(2,3) by (simp add: last_conv_nth min_def)
  then show "List_Pop l = Inr (last (items l), l\<lparr>list_size := list_size l - 1\<rparr>)"
    using n l by (simp add: List_Pop_def dec32_pos Let_def)
  show "rlist_ok (l\<lparr>list_size := list_size l - 1\<rparr>)" using l by simp
  show "items (l\<lparr>list_size := list_size l - 1\<rparr>) = butlast (items l)" using n l by (simp add: butlast_take)
qed

lemma Get_ok: "rlist_ok l \<Longrightarrow> i < length (items l) \<Longrightarrow> List_Get i l = Inr (items l ! i)"
  by (cases rule: rlist_ok_cases) (auto simp: List_Get_def)

lemma put_runs:
  assumes "rlist_ok l" "i < length (items l)"
  shows "runs_as (List_put i x l) ((items l)[i := x])"
  using assms(1)
proof (cases rule: rlist_ok_cases)
  case (Full xs n)
  then show ?thesis using assms(2)
    by (intro runs_as_grown [of _ "xs[i := x]" n "length xs"]) (simp_all add: List_put_def take_update_swap)
qed (use assms(2) in simp)

lemma fill_loop:
  assumes "a \<le> m" "m \<le> length xs"
  shows "foldE (\<lambda>k p. poke p k f) [a..<m] (Arr xs) = Inr (Arr (take a xs @ replicate (m - a) f @ drop m xs))"
  using assms
proof (induction m)
  case (Suc m)
  show ?case
  proof (cases "a = Suc m")
    case False
    let ?pre = "take a xs @ replicate (m - a) f"
    have "length ?pre = m" using False Suc.prems by simp
    then have "(?pre @ drop m xs)[m := f] = ?pre @ f # drop (Suc m) xs"
      using take_update_snoc [of m xs ?pre f] Suc.prems by simp
    then have "(take a xs @ replicate (m - a) f @ drop m xs)[m := f]
        = take a xs @ replicate (Suc m - a) f @ drop (Suc m) xs"
      using False Suc.prems by (simp add: Suc_diff_le replicate_append_same [symmetric])
    then show ?thesis using False Suc by (simp add: foldE_append)
  qed simp
qed simp

lemma Replace_at_runs:
  assumes "rlist_ok l" "position < 2147483647"
  shows "runs_as (List_Replace_at z x f position l)
    (if position < length (items l) then (items l)[position := x]
     else items l @ replicate (position - length (items l)) f @ [x])"
proof (cases "position < list_size l")
  case True
  then show ?thesis using put_runs [OF assms(1), of position x] length_items [OF assms(1)]
    by (simp add: List_Replace_at_def)
next
  case False
  let ?n = "list_size l"
  obtain ys where ys: "position < length ys" "take ?n ys = items l" "length ys < 2147483648"
      "(if allocation_size l \<le> position then regrow z (w32 (position + 1)) l else Inr l) = Inr (grown l ys)"
  proof (cases "allocation_size l \<le> position")
    case True
    have "0 < Suc position" "Suc position < 2147483648" "?n \<le> Suc position" using assms(2) False by simp_all
    then obtain ys where "length ys = Suc position" "take ?n ys = items l"
        "regrow z (Suc position) l = Inr \<lparr>listArray = Arr ys, list_size = ?n, allocation_size = Suc position\<rparr>"
      using regrow_ok [OF assms(1), of "Suc position" z] by auto
    then show ?thesis using True assms(2) by (intro that [of ys]) (simp_all add: grown_def)
  next
    case F: False
    from assms(1) show ?thesis
    proof (cases rule: rlist_ok_cases)
      case (Full xs m)
      with F show ?thesis by (intro that [of xs]) (simp_all add: grown_def)
    qed (use F in simp)
  qed
  let ?zs = "take ?n ys @ replicate (position - ?n) f @ x # drop (Suc position) ys"
  have zs: "(take ?n ys @ replicate (position - ?n) f @ drop position ys)[position := x] = ?zs"
    using take_update_snoc [of position ys "take ?n ys @ replicate (position - ?n) f" x] False ys(1) by simp
  have "max ?n position = position" using False by simp
  then have "List_Replace_at z x f position l
      = Inr \<lparr>listArray = Arr ?zs, list_size = Suc position, allocation_size = length ys\<rparr>"
    using False ys(1) assms(2) zs
    by (simp add: List_Replace_at_def ys(4) fill_loop Let_def grown_def)
  then show ?thesis
  proof (rule runs_as_grown)
    show "take (Suc position) ?zs = (if position < length (items l) then (items l)[position := x]
     else items l @ replicate (position - length (items l)) f @ [x])"
      using False ys(1,2) length_items [OF assms(1)] by simp
  qed (use ys(1,3) False in auto)
qed

lemma Replace_runs:
  assumes "rlist_ok l"
  shows "runs_as (List_Replace x l) (if items l = [] then [] else (items l)[length (items l) - 1 := x])"
proof (cases "0 < list_size l")
  case True
  then have "items l \<noteq> []" using length_items [OF assms] by auto
  then show ?thesis using True put_runs [OF assms, of "list_size l - 1" x] length_items [OF assms]
    by (simp add: List_Replace_def)
next
  case False
  then have "items l = []" using length_items [OF assms] by simp
  with False assms show ?thesis by (intro runs_asI [of _ l]) (simp_all add: List_Replace_def)
qed

lemma RemoveFromEnd_ok:
  assumes "rlist_ok l" "num \<le> length (items l)"
  shows "rlist_ok (List_RemoveFromEnd num l)"
    "items (List_RemoveFromEnd num l) = take (length (items l) - num) (items l)"
    "list_size (List_RemoveFromEnd num l) = list_size l - num"
proof -
  have n: "num \<le> list_size l" using assms(2) length_items [OF assms(1)] by simp
  have "list_size l < 4294967296" using assms(1) by (auto simp: rlist_ok_def)
  then have e: "List_RemoveFromEnd num l = l\<lparr>list_size := list_size l - num\<rparr>"
    using sub32_le [OF n] by (simp add: List_RemoveFromEnd_def)
  show "rlist_ok (List_RemoveFromEnd num l)" using assms(1) by (auto simp: e rlist_ok_def split: ptr.splits)
  show "items (List_RemoveFromEnd num l) = take (length (items l) - num) (items l)"
    using length_items [OF assms(1)] by (simp add: e items_def min_def split: ptr.splits)
  show "list_size (List_RemoveFromEnd num l) = list_size l - num" by (simp add: e)
qed

lemma remove_loop:
  assumes "position \<le> m" "m < length xs"
  shows "foldE (\<lambda>k p. rbind (peek p (k + 1)) (poke p k)) [position..<m] (Arr xs)
    = Inr (Arr (take position xs @ take (m - position) (drop (Suc position) xs) @ drop m xs))"
  using assms
proof (induction m)
  case (Suc m)
  show ?case
  proof (cases "position = Suc m")
    case False
    let ?pre = "take position xs @ take (m - position) (drop (Suc position) xs)"
    have len: "length ?pre = m" using False Suc.prems by simp
    have "(?pre @ drop m xs) ! Suc m = xs ! Suc m"
      using len Suc.prems by (simp only: nth_append) simp
    moreover have "(?pre @ drop m xs)[m := xs ! Suc m] = ?pre @ xs ! Suc m # drop (Suc m) xs"
      using take_update_snoc [of m xs ?pre "xs ! Suc m"] len Suc.prems by simp
    moreover have "take (Suc m - position) (drop (Suc position) xs)
        = take (m - position) (drop (Suc position) xs) @ [xs ! Suc m]"
      using False Suc.prems by (simp add: Suc_diff_le take_Suc_conv_app_nth)
    moreover have "foldE (\<lambda>k p. rbind (peek p (k + 1)) (poke p k)) [position..<m] (Arr xs)
        = Inr (Arr (?pre @ drop m xs))"
      using False Suc by simp
    ultimately show ?thesis using False Suc.prems len by (simp add: foldE_append)
  qed simp
qed simp

lemma RemoveAtIndex_runs:
  assumes "rlist_ok l"
  shows "runs_as (List_RemoveAtIndex position l) (take position (items l) @ drop (Suc position) (items l))"
  using assms
proof (cases rule: rlist_ok_cases)
  case (Full xs n)
  show ?thesis
  proof (cases "position < n")
    case True
    let ?zs = "take position xs @ take (n - 1 - position) (drop (Suc position) xs) @ drop (n - 1) xs"
    have "foldE (\<lambda>k p. rbind (peek p (k + 1)) (poke p k)) [position..<n - 1] (Arr xs) = Inr (Arr ?zs)"
      using True Full(2) by (intro remove_loop) simp_all
    then have "List_RemoveAtIndex position l
        = Inr \<lparr>listArray = Arr ?zs, list_size = n - 1, allocation_size = length xs\<rparr>"
      using True Full by (simp add: List_RemoveAtIndex_def List_RemoveFromEnd_def sub32_le)
    then show ?thesis
    proof (rule runs_as_grown)
      show "take (n - 1) ?zs = take position (items l) @ drop (Suc position) (items l)"
        using True Full by (simp add: drop_take)
    qed (use True Full in auto)
  next
    case False
    with Full show ?thesis by (intro runs_asI [of _ l]) (simp_all add: List_RemoveAtIndex_def)
  qed
next
  case Empty
  then show ?thesis by (intro runs_asI [of _ l]) (simp_all add: List_RemoveAtIndex_def)
qed

lemma RemoveAtIndexFast_runs:
  assumes "rlist_ok l" "position < length (items l)"
  shows "runs_as (List_RemoveAtIndexFast position l) (butlast ((items l)[position := last (items l)]))"
  using assms(1)
proof (cases rule: rlist_ok_cases)
  case (Full xs n)
  then have n: "position < n" using assms(2) by simp
  have "last (take n xs) = xs ! (n - 1)" using n Full by (simp add: last_conv_nth min_def)
  moreover have "take (n - 1) (xs[position := x]) = butlast ((take n xs)[position := x])" for x
    using n Full by (simp add: butlast_take take_update_swap [symmetric])
  ultimately show ?thesis using n Full
    by (intro runs_as_grown [of _ "xs[position := xs ! (n - 1)]" "n - 1" "length xs"])
      (simp_all add: List_RemoveAtIndexFast_def List_put_def dec32_pos Let_def)
qed (use assms(2) in simp)

lemma Clear_runs:
  assumes "rlist_ok l"
  shows "runs_as (List_Clear keep l) []"
  using assms
proof (cases rule: rlist_ok_cases)
  case Empty
  then show ?thesis by (auto simp: runs_as_def List_Clear_def)
next
  case (Full xs n)
  then show ?thesis
    by (cases "512 < length xs \<or> \<not> keep")
      (auto simp: runs_as_def List_Clear_def List_new_def [symmetric])
qed

lemma regrow_runs:
  assumes "rlist_ok l" "list_size l \<le> n" "0 < n" "n < 2147483648"
  shows "runs_as (regrow z n l) (items l)" "runs_as (regrow_if z n l) (items l)"
proof -
  obtain ys where ys: "length ys = n" "take (list_size l) ys = items l"
      "regrow z n l = Inr \<lparr>listArray = Arr ys, list_size = list_size l, allocation_size = n\<rparr>"
      "regrow_if z n l = Inr \<lparr>listArray = Arr ys, list_size = list_size l, allocation_size = n\<rparr>"
    using regrow_ok [OF assms, of z] by auto
  show "runs_as (regrow z n l) (items l)" by (rule runs_as_grown [OF ys(3,1) assms(2-4) ys(2)])
  show "runs_as (regrow_if z n l) (items l)" by (rule runs_as_grown [OF ys(4,1) assms(2-4) ys(2)])
qed

lemma Compress_runs: "rlist_ok l \<Longrightarrow> runs_as (List_Compress z l) (items l)"
  using regrow_runs(1) [of l "allocation_size l" z]
  by (cases "allocation_size l = 0")
    (auto simp: List_Compress_def rlist_ok_def runs_as_def)

text \<open>The doubling loop ends when at most \<open>2^31\<close> elements are asked for.\<close>

lemma double_up_ends:
  assumes "0 < n" "need \<le> 2147483648"
  shows "\<exists>m. double_up need n = Some m \<and> need \<le> m \<and> n \<le> m"
  using assms(1)
proof (induction "need - n" arbitrary: n rule: less_induct)
  case less
  show ?case
  proof (cases "n < need")
    case True
    then have "\<exists>m. double_up need (n * 2) = Some m \<and> need \<le> m \<and> n * 2 \<le> m"
      using less.prems by (intro less.hyps) simp_all
    moreover have "w32 (n * 2) = n * 2" using True assms(2) by simp
    ultimately show ?thesis using True by (subst double_up.simps) auto
  next
    case False
    then show ?thesis by (subst double_up.simps) simp
  qed
qed

text \<open>It does not end otherwise: the amount becomes 0 and stays there.\<close>

definition stuck :: "nat \<Rightarrow> bool" where
  "stuck n \<longleftrightarrow> n = 0 \<or> (\<exists>k \<le> 31. n = 2 ^ k)"

lemma stuck_small: "stuck n \<Longrightarrow> n \<le> 2147483648"
  using power_increasing [of _ 31 "2::nat"] by (auto simp: stuck_def)

lemma stuck_double: "stuck n \<Longrightarrow> stuck (w32 (n * 2))"
proof (cases "n = 2147483648 \<or> n = 0")
  case True
  then show "stuck (w32 (n * 2))" by (auto simp: stuck_def w32_def)
next
  case False
  assume "stuck n"
  then obtain k where k: "k \<le> 31" "n = 2 ^ k" using False by (auto simp: stuck_def)
  have "k \<noteq> 31"
  proof
    assume "k = 31"
    then show False using k(2) False by simp
  qed
  then have "Suc k \<le> 31" using k(1) by simp
  then have "(2::nat) ^ Suc k \<le> 2 ^ 31" by (intro power_increasing) simp_all
  then have "w32 (n * 2) = 2 ^ Suc k" using k(2) by (simp add: mult.commute)
  with \<open>Suc k \<le> 31\<close> show "stuck (w32 (n * 2))" unfolding stuck_def by blast
qed

lemma double_up_result:
  assumes "double_up need n = Some m"
  shows "2147483648 < need \<longrightarrow> \<not> stuck n"
  using assms
proof (induction rule: double_up.raw_induct [rotated, consumes 1, case_names step])
  case (step f need n m)
  show ?case
  proof (intro impI notI)
    assume need: "2147483648 < need" and n: "stuck n"
    have lt: "n < need" using stuck_small [OF n] need by simp
    then have "f need (w32 (n * 2)) = Some m" using step(2) by simp
    from step(1) [OF this] show False using stuck_double [OF n] need by blast
  qed
qed

lemma double_up_diverges:
  assumes "2147483648 < need"
  shows "double_up need 16 = None"
proof -
  have "(16::nat) = 2 ^ 4" by simp
  then have "stuck 16" unfolding stuck_def by (intro disjI2 exI [of _ 4]) simp
  then show ?thesis using double_up_result [of need 16] assms by (cases "double_up need 16") auto
qed

section \<open>The list a program sees\<close>

datatype 'a list_op =
    OInsert 'a | OInsertAt 'a nat | OPop | OReplaceAt 'a 'a nat | OReplace 'a
  | ORemove nat | ORemoveFast nat | ORemoveEnd nat | OClear bool | OCompress

fun run_list :: "'a \<Rightarrow> 'a list_op \<Rightarrow> 'a rlist \<Rightarrow> 'a rlist res" where
  "run_list z (OInsert x) l = List_Push z x l"
| "run_list z (OInsertAt x p) l = List_Insert_at z x p l"
| "run_list z OPop l = rbind (List_Pop l) (\<lambda>(x, l'). Inr l')"
| "run_list z (OReplaceAt x f p) l = List_Replace_at z x f p l"
| "run_list z (OReplace x) l = List_Replace x l"
| "run_list z (ORemove p) l = List_RemoveAtIndex p l"
| "run_list z (ORemoveFast p) l = List_RemoveAtIndexFast p l"
| "run_list z (ORemoveEnd n) l = Inr (List_RemoveFromEnd n l)"
| "run_list z (OClear keep) l = List_Clear keep l"
| "run_list z OCompress l = List_Compress z l"

fun list_spec :: "'a list_op \<Rightarrow> 'a list \<Rightarrow> 'a list" where
  "list_spec (OInsert x) xs = xs @ [x]"
| "list_spec (OInsertAt x p) xs = take p xs @ x # drop p xs"
| "list_spec OPop xs = butlast xs"
| "list_spec (OReplaceAt x f p) xs =
     (if p < length xs then xs[p := x] else xs @ replicate (p - length xs) f @ [x])"
| "list_spec (OReplace x) xs = (if xs = [] then [] else xs[length xs - 1 := x])"
| "list_spec (ORemove p) xs = take p xs @ drop (Suc p) xs"
| "list_spec (ORemoveFast p) xs = butlast (xs[p := last xs])"
| "list_spec (ORemoveEnd n) xs = take (length xs - n) xs"
| "list_spec (OClear keep) xs = []"
| "list_spec OCompress xs = xs"

text \<open>What the caller owes: positions inside the list, an element to pop, and fewer than \<open>2^30\<close> elements.\<close>

fun list_pre :: "'a list_op \<Rightarrow> 'a list \<Rightarrow> bool" where
  "list_pre (OInsert x) xs = (length xs < 1073741824)"
| "list_pre (OInsertAt x p) xs = (length xs < 1073741824 \<and> p \<le> length xs)"
| "list_pre OPop xs = (xs \<noteq> [])"
| "list_pre (OReplaceAt x f p) xs = (p < 2147483647)"
| "list_pre (ORemoveFast p) xs = (p < length xs)"
| "list_pre (ORemoveEnd n) xs = (n \<le> length xs)"
| "list_pre op xs = True"

fun legal :: "'a list_op list \<Rightarrow> 'a list \<Rightarrow> bool" where
  "legal [] xs = True"
| "legal (op # ops) xs = (list_pre op xs \<and> legal ops (list_spec op xs))"

lemma op_runs:
  assumes "rlist_ok l" "list_pre op (items l)"
  shows "runs_as (run_list z op l) (list_spec op (items l))"
proof (cases op)
  case (OInsert x)
  then show ?thesis using Insert_runs [OF assms(1)] assms length_items [OF assms(1)]
    by (simp add: List_Push_def)
next
  case (OInsertAt x p)
  then show ?thesis using Insert_at_runs [OF assms(1)] assms length_items [OF assms(1)] by simp
next
  case OPop
  then show ?thesis using Pop_ok [OF assms(1)] assms(2) by (auto simp: runs_as_def)
next
  case (OReplaceAt x f p)
  then show ?thesis using Replace_at_runs [OF assms(1), of p z x f] assms(2) by simp
next
  case (ORemoveEnd n)
  then show ?thesis using RemoveFromEnd_ok [OF assms(1)] assms(2) by (auto simp: runs_as_def)
qed (use assms in \<open>simp_all add: Replace_runs RemoveAtIndex_runs RemoveAtIndexFast_runs Clear_runs Compress_runs\<close>)

lemma ops_run:
  assumes "rlist_ok l" "legal ops (items l)"
  shows "runs_as (foldE (run_list z) ops l) (fold list_spec ops (items l))"
  using assms
proof (induction ops arbitrary: l)
  case Nil
  then show ?case by (auto simp: runs_as_def)
next
  case (Cons op ops)
  then obtain l' where "run_list z op l = Inr l'" "rlist_ok l'" "items l' = list_spec op (items l)"
    using op_runs [of l op z] runs_asE by (metis legal.simps(2))
  then show ?case using Cons.IH [of l'] Cons.prems(2) by simp
qed

lemma index_scan_ok:
  "n \<le> length xs \<Longrightarrow> index_scan x (Arr xs) [i..<n]
    = Inr (case find (\<lambda>k. xs ! k = x) [i..<n] of None \<Rightarrow> MAX_UNSIGNED_LONG | Some k \<Rightarrow> k)"
proof (induction "n - i" arbitrary: i)
  case (Suc d)
  then have "[i..<n] = i # [Suc i..<n]" by (simp add: upt_conv_Cons)
  with Suc show ?case by simp
qed simp

lemma find_cong_set: "(\<And>x. x \<in> set xs \<Longrightarrow> P x = Q x) \<Longrightarrow> find P xs = find Q xs"
  by (induction xs) auto

lemma GetIndexOf_ok:
  assumes "rlist_ok l"
  shows "List_GetIndexOf x l = Inr (case find (\<lambda>k. items l ! k = x) [0..<length (items l)] of
      None \<Rightarrow> MAX_UNSIGNED_LONG | Some k \<Rightarrow> k)"
  using assms
proof (cases rule: rlist_ok_cases)
  case (Full xs n)
  have "find (\<lambda>k. xs ! k = x) [0..<n] = find (\<lambda>k. take n xs ! k = x) [0..<n]"
    by (rule find_cong_set) simp
  moreover have "length (take n xs) = n" using Full(2) by simp
  ultimately show ?thesis using Full(1) index_scan_ok [OF Full(2), of x 0] by (simp only: items_Arr) (simp add: List_GetIndexOf_def)
qed (simp add: List_GetIndexOf_def)

text \<open>\<open>DataStructures::List\<close> refines the plain list: any legal sequence of operations on a new list
  runs without a fault and leaves the elements the sequence gives on lists, and \<open>Size\<close>, \<open>operator[]\<close>
  and \<open>GetIndexOf\<close> read them.\<close>

lemma list_refines:
  assumes "legal ops ([] :: 'a list)"
  shows "\<exists>l. foldE (run_list z) ops List_new = Inr l \<and> (let xs = fold list_spec ops [] in
     List_Size l = length xs \<and> (\<forall>i < length xs. List_Get i l = Inr (xs ! i))
     \<and> (\<forall>x. List_GetIndexOf x l =
          Inr (case find (\<lambda>k. xs ! k = x) [0..<length xs] of None \<Rightarrow> MAX_UNSIGNED_LONG | Some k \<Rightarrow> k)))"
proof -
  obtain l where l: "foldE (run_list z) ops List_new = Inr l" "rlist_ok l" "items l = fold list_spec ops []"
    using ops_run [of List_new ops z] assms List_new_ok(1,2) runs_asE by metis
  have "List_Size l = length (items l)" using length_items [OF l(2)] by (simp add: List_Size_def)
  moreover have "\<forall>i < length (items l). List_Get i l = Inr (items l ! i)" using Get_ok [OF l(2)] by simp
  moreover have "\<forall>x. List_GetIndexOf x l = Inr (case find (\<lambda>k. items l ! k = x) [0..<length (items l)] of
      None \<Rightarrow> MAX_UNSIGNED_LONG | Some k \<Rightarrow> k)" using GetIndexOf_ok [OF l(2)] by blast
  ultimately show ?thesis
    unfolding l(3) [symmetric] Let_def using l(1) by (intro exI [of _ l] conjI)
qed

section \<open>Copies\<close>

lemma copied:
  assumes "rlist_ok l" "0 < list_size l"
  shows "rbind (OP_NEW_ARRAY z (list_size l)) (\<lambda>p. rbind (copy_cells (\<lambda>k. k) (listArray l) (list_size l) p) (\<lambda>p'.
      Inr \<lparr>listArray = p', list_size = list_size l, allocation_size = list_size l\<rparr>))
    = Inr \<lparr>listArray = Arr (items l), list_size = list_size l, allocation_size = list_size l\<rparr>"
  using assms(1)
proof (cases rule: rlist_ok_cases)
  case (Full xs n)
  then show ?thesis using assms(2) by (simp add: copy_cells_id)
qed (use assms(2) in simp)

lemma assign_runs:
  assumes "rlist_ok orig" "rlist_ok l"
  shows "runs_as (List_assign z orig l) (items orig)"
proof -
  have clear: "List_Clear False l = Inr List_new"
    using assms(2) by (cases rule: rlist_ok_cases) (simp_all add: List_Clear_def List_new_def)
  show ?thesis
  proof (cases "list_size orig = 0")
    case True
    then have "items orig = []" using length_items [OF assms(1)] by simp
    moreover have "List_assign z orig l = Inr List_new"
      using True by (simp add: List_assign_def clear List_new_def)
    ultimately show ?thesis by (intro runs_asI [of _ List_new]) simp_all
  next
    case False
    then show ?thesis using copied [OF assms(1)] length_items [OF assms(1)] assms(1)
      by (intro runs_as_grown [of _ "items orig" "list_size orig" "list_size orig"])
        (simp_all add: List_assign_def clear rlist_ok_def)
  qed
qed

text \<open>The copy constructor keeps the elements of a list that has some; the copy of an empty list has a
  pointer that was never set, and the first insertion into it uses the pointer. Assignment copies every list.\<close>

lemma list_copy:
  assumes "rlist_ok l" "rlist_ok l'" "list_size l < 1073741824"
  shows "runs_as (List_assign z l l') (items l)
    \<and> (if items l = [] then rbind (List_copy z l) (List_Insert z x) = Inl WildPointer
         \<and> rbind (List_copy z l) (List_Insert_at z x 0) = Inl WildPointer
       else runs_as (rbind (List_copy z l) (List_Insert z x)) (items l @ [x]))"
proof (intro conjI)
  show "runs_as (List_assign z l l') (items l)" by (rule assign_runs [OF assms(1,2)])
  show "if items l = [] then rbind (List_copy z l) (List_Insert z x) = Inl WildPointer
         \<and> rbind (List_copy z l) (List_Insert_at z x 0) = Inl WildPointer
       else runs_as (rbind (List_copy z l) (List_Insert z x)) (items l @ [x])"
  proof (cases "items l = []")
    case True
    then have "list_size l = 0" using length_items [OF assms(1)] by simp
    then show ?thesis using True
      by (simp add: List_copy_def List_Insert_def List_Insert_at_def regrow_if_def regrow_def doubled_def
          OP_DELETE_ARRAY_def)
  next
    case False
    then have n: "0 < list_size l" using length_items [OF assms(1)] by (metis gr0I length_0_conv)
    let ?c = "\<lparr>listArray = Arr (items l), list_size = list_size l, allocation_size = list_size l\<rparr>"
    have "List_copy z l = Inr ?c" using copied [OF assms(1) n, of z] n by (simp add: List_copy_def)
    moreover have "rlist_ok ?c" "items ?c = items l"
      using n assms(1) length_items [OF assms(1)] by (simp_all add: rlist_ok_def items_def)
    ultimately show ?thesis using False Insert_runs [of ?c z x] assms(3) by simp
  qed
qed

lemma double_up_bound: "double_up need n = Some m \<Longrightarrow> need \<le> 1073741824 \<longrightarrow> m = n \<or> m < 2147483648"
proof (induction rule: double_up.raw_induct [rotated, consumes 1, case_names step])
  case (step f need n m)
  show ?case
  proof (cases "n < need")
    case True
    then have "f need (w32 (n * 2)) = Some m" using step(2) by simp
    from step(1) [OF this] show ?thesis using True by auto
  next
    case False
    then show ?thesis using step(2) by simp
  qed
qed

text \<open>\<open>Preallocate\<close> returns for up to \<open>2^30\<close> elements, keeps the list and makes the array that large; on a
  list without an array its doubling loop does not end for more than \<open>2^31\<close>.\<close>

lemma preallocate:
  assumes "rlist_ok l"
  shows "if countNeeded \<le> 1073741824
    then \<exists>l'. List_Preallocate z countNeeded l = Some (Inr l') \<and> rlist_ok l' \<and> items l' = items l
      \<and> countNeeded \<le> allocation_size l'
    else 2147483648 < countNeeded \<and> allocation_size l = 0 \<longrightarrow> List_Preallocate z countNeeded l = None"
proof (cases "countNeeded \<le> 1073741824")
  case True
  define a where "a = (if allocation_size l = 0 then 16 else allocation_size l)"
  have a: "a < 2147483648" "list_size l \<le> a" "0 < a" "allocation_size l \<noteq> 0 \<Longrightarrow> a = allocation_size l"
    using assms by (auto simp: rlist_ok_def a_def)
  obtain m where m: "double_up countNeeded a = Some m" "countNeeded \<le> m" "a \<le> m"
    using double_up_ends [OF a(3), of countNeeded] True by auto
  have m': "m < 2147483648" "0 < m" "list_size l \<le> m"
    using double_up_bound [OF m(1)] True m(3) a by auto
  show ?thesis
  proof (cases "allocation_size l < m")
    case less: True
    obtain ys where "length ys = m" "take (list_size l) ys = items l"
        "regrow_if z m l = Inr \<lparr>listArray = Arr ys, list_size = list_size l, allocation_size = m\<rparr>"
      using regrow_ok [OF assms m'(3,2,1), of z] by auto
    with True less m m' show ?thesis
      using rlist_ok_Arr [of ys "list_size l"] by (simp add: List_Preallocate_def a_def [symmetric])
  next
    case False
    then have "countNeeded \<le> allocation_size l" using m(2) by simp
    with True False assms m show ?thesis by (simp add: List_Preallocate_def a_def [symmetric])
  qed
next
  case False
  then show ?thesis using double_up_diverges [of countNeeded] by (simp add: List_Preallocate_def)
qed

end
