(* ===== verification/RakOrdered.thy ===== *)
theory RakOrdered
  imports RakList
begin

text \<open>
  \<open>DataStructures::OrderedList\<close> of RakNet (\<^verbatim>\<open>DS_OrderedList.h\<close>): a \<open>List\<close> kept in the order of a comparison
  \<open>cf\<close> of a key with an element, which is negative, zero or positive. The contract of a comparison is a
  locale; every comparison the code uses interprets it.
\<close>

section \<open>Code\<close>

definition defaultOrderedListComparison :: "'a::linorder \<Rightarrow> 'a \<Rightarrow> int" where
  "defaultOrderedListComparison a b = (if a < b then - 1 else if a = b then 0 else 1)"

text \<open>
  The loop of the binary search. The code computes the next index before it tests the bounds; it is
  not used when they have crossed.
\<close>

function search_loop :: "('k \<Rightarrow> 'd \<Rightarrow> int) \<Rightarrow> 'k \<Rightarrow> 'd rlist \<Rightarrow> int \<Rightarrow> int \<Rightarrow> int \<Rightarrow> (bool \<times> nat) res" where
  "search_loop cf key l lowerBound upperBound index =
     (case List_Get (nat index) l of
        Inl e \<Rightarrow> Inl e
      | Inr d \<Rightarrow>
          if cf key d = 0 then Inr (True, nat index)
          else let upper = (if cf key d < 0 then index - 1 else upperBound);
                   lower = (if cf key d < 0 then lowerBound else index + 1);
                   mid = lower + (upper - lower) div 2
               in if upper < lower then Inr (False, nat lower)
                  else if mid < 0 \<or> int (List_Size l) \<le> mid then Inr (False, 0)
                  else search_loop cf key l lower upper mid)"
  by pat_completeness auto
termination
  by (relation "measure (\<lambda>(cf, key, l, lo, up, i). nat (max up i - min lo i + 1))")
    (auto simp: min_def max_def)

declare search_loop.simps [simp del]

definition GetIndexFromKey :: "('k \<Rightarrow> 'd \<Rightarrow> int) \<Rightarrow> 'k \<Rightarrow> 'd rlist \<Rightarrow> (bool \<times> nat) res" where
  "GetIndexFromKey cf key l =
     (if List_Size l = 0 then Inr (False, 0)
      else search_loop cf key l 0 (int (List_Size l) - 1) (int (List_Size l) div 2))"

definition HasData :: "('k \<Rightarrow> 'd \<Rightarrow> int) \<Rightarrow> 'k \<Rightarrow> 'd rlist \<Rightarrow> bool res" where
  "HasData cf key l = rbind (GetIndexFromKey cf key l) (\<lambda>(e, i). Inr e)"

text \<open>Without the assertion, this returns the element at the insertion point of a key that is not there.\<close>

definition GetElementFromKey :: "('k \<Rightarrow> 'd \<Rightarrow> int) \<Rightarrow> 'k \<Rightarrow> 'd rlist \<Rightarrow> 'd res" where
  "GetElementFromKey cf key l = rbind (GetIndexFromKey cf key l) (\<lambda>(e, i). List_Get i l)"

definition GetElementFromKey_if :: "('k \<Rightarrow> 'd \<Rightarrow> int) \<Rightarrow> 'k \<Rightarrow> 'd rlist \<Rightarrow> 'd option res" where
  "GetElementFromKey_if cf key l =
     rbind (GetIndexFromKey cf key l) (\<lambda>(e, i).
     if e then rbind (List_Get i l) (\<lambda>d. Inr (Some d)) else Inr None)"

text \<open>The index, or \<open>(unsigned) -1\<close> for a key that is there.\<close>

definition OL_Insert :: "('k \<Rightarrow> 'd \<Rightarrow> int) \<Rightarrow> 'd \<Rightarrow> 'k \<Rightarrow> 'd \<Rightarrow> 'd rlist \<Rightarrow> (nat \<times> 'd rlist) res" where
  "OL_Insert cf z key data l =
     rbind (GetIndexFromKey cf key l) (\<lambda>(e, i).
     if e then Inr (MAX_UNSIGNED_LONG, l)
     else if List_Size l \<le> i then rbind (List_Insert z data l) (\<lambda>l'. Inr (dec32 (List_Size l'), l'))
     else rbind (List_Insert_at z data i l) (\<lambda>l'. Inr (i, l')))"

definition OL_Remove :: "('k \<Rightarrow> 'd \<Rightarrow> int) \<Rightarrow> 'k \<Rightarrow> 'd rlist \<Rightarrow> (nat \<times> 'd rlist) res" where
  "OL_Remove cf key l =
     rbind (GetIndexFromKey cf key l) (\<lambda>(e, i).
     if \<not> e then Inr (0, l) else rbind (List_RemoveAtIndex i l) (\<lambda>l'. Inr (i, l')))"

definition OL_RemoveIfExists :: "('k \<Rightarrow> 'd \<Rightarrow> int) \<Rightarrow> 'k \<Rightarrow> 'd rlist \<Rightarrow> (nat \<times> 'd rlist) res" where
  "OL_RemoveIfExists cf key l =
     rbind (GetIndexFromKey cf key l) (\<lambda>(e, i).
     if \<not> e then Inr (0, l) else rbind (List_RemoveAtIndex i l) (\<lambda>l'. Inr (i, l')))"

definition OL_RemoveAtIndex :: "nat \<Rightarrow> 'd rlist \<Rightarrow> 'd rlist res" where
  "OL_RemoveAtIndex i l = List_RemoveAtIndex i l"

definition OL_InsertAtIndex :: "'d \<Rightarrow> 'd \<Rightarrow> nat \<Rightarrow> 'd rlist \<Rightarrow> 'd rlist res" where
  "OL_InsertAtIndex z data i l = List_Insert_at z data i l"

definition OL_InsertAtEnd :: "'d \<Rightarrow> 'd \<Rightarrow> 'd rlist \<Rightarrow> 'd rlist res" where
  "OL_InsertAtEnd z data l = List_Insert z data l"

definition OL_RemoveFromEnd :: "nat \<Rightarrow> 'd rlist \<Rightarrow> 'd rlist" where
  "OL_RemoveFromEnd num l = List_RemoveFromEnd num l"

definition OL_Clear :: "bool \<Rightarrow> 'd rlist \<Rightarrow> 'd rlist res" where
  "OL_Clear keep l = List_Clear keep l"

definition OL_assign :: "'d \<Rightarrow> 'd rlist \<Rightarrow> 'd rlist \<Rightarrow> 'd rlist res" where
  "OL_assign z orig l = List_assign z orig l"

text \<open>The copy constructor assigns to a new list.\<close>

definition OL_copy :: "'d \<Rightarrow> 'd rlist \<Rightarrow> 'd rlist res" where
  "OL_copy z orig = List_assign z orig List_new"

section \<open>The contract of a comparison\<close>

text \<open>The number of elements before a key.\<close>

definition rank :: "('d \<Rightarrow> 'k::linorder) \<Rightarrow> 'k \<Rightarrow> 'd list \<Rightarrow> nat" where
  "rank key_of k xs = length (filter (\<lambda>d. key_of d < k) xs)"

definition ascending :: "('d \<Rightarrow> 'k::linorder) \<Rightarrow> 'd list \<Rightarrow> bool" where
  "ascending key_of xs \<longleftrightarrow> sorted_wrt (<) (map key_of xs)"

lemma ascending_nth: "ascending key_of xs \<Longrightarrow> i < j \<Longrightarrow> j < length xs \<Longrightarrow> key_of (xs ! i) < key_of (xs ! j)"
  by (simp add: ascending_def sorted_wrt_iff_nth_less)

lemma rank_at:
  assumes "i \<le> length xs" "\<And>j. j < i \<Longrightarrow> key_of (xs ! j) < k" "\<And>j. i \<le> j \<Longrightarrow> j < length xs \<Longrightarrow> k \<le> key_of (xs ! j)"
  shows "rank key_of k xs = i"
proof -
  have "filter (\<lambda>d. key_of d < k) (take i xs) = take i xs"
    using assms(1,2) by (auto simp: filter_id_conv in_set_conv_nth)
  moreover have "filter (\<lambda>d. key_of d < k) (drop i xs) = []"
    using assms(1,3) by (auto simp: filter_empty_conv in_set_conv_nth not_less)
  ultimately have "filter (\<lambda>d. key_of d < k) (take i xs @ drop i xs) = take i xs"
    unfolding filter_append by simp
  then show ?thesis using assms(1) by (simp add: rank_def)
qed

locale keyed =
  fixes cf :: "'k::linorder \<Rightarrow> 'd \<Rightarrow> int"
    and key_of :: "'d \<Rightarrow> 'k"
  assumes cf_less: "cf k d < 0 \<longleftrightarrow> k < key_of d"
    and cf_eq: "cf k d = 0 \<longleftrightarrow> k = key_of d"
begin

lemma search_ok:
  assumes "rlist_ok l" "ascending key_of (items l)"
    and "0 \<le> lo" "lo \<le> i" "i \<le> up" "up < int (length (items l))"
    and "\<And>j. j < nat lo \<Longrightarrow> key_of (items l ! j) < k"
    and "\<And>j. up < int j \<Longrightarrow> j < length (items l) \<Longrightarrow> k < key_of (items l ! j)"
  shows "search_loop cf k l lo up i = Inr (k \<in> key_of ` set (items l), rank key_of k (items l))"
  using assms(3-8)
proof (induction "nat (up - lo)" arbitrary: lo up i rule: less_induct)
  case less
  let ?xs = "items l"
  have i: "nat i < length ?xs" "int (nat i) = i" using less.prems by simp_all
  have get: "List_Get (nat i) l = Inr (?xs ! nat i)" using Get_ok [OF assms(1) i(1)] .
  have size: "List_Size l = length ?xs" using length_items [OF assms(1)] by (simp add: List_Size_def)
  let ?d = "?xs ! nat i"
  consider "k = key_of ?d" | "k < key_of ?d" | "key_of ?d < k" by fastforce
  then show ?case
  proof cases
    case 1
    have "key_of (?xs ! j) < k" if "j < nat i" for j
      using ascending_nth [OF assms(2) that i(1)] 1 by simp
    moreover have "k \<le> key_of (?xs ! j)" if "nat i \<le> j" "j < length ?xs" for j
      using ascending_nth [OF assms(2), of "nat i" j] that 1 by (cases "j = nat i") auto
    ultimately have "rank key_of k ?xs = nat i" using i(1) by (intro rank_at) simp_all
    moreover have "k \<in> key_of ` set ?xs" using 1 i(1) by auto
    ultimately show ?thesis using 1 cf_eq [of k ?d] by (subst search_loop.simps) (simp add: get)
  next
    case 2
    then have c: "cf k ?d < 0" "cf k ?d \<noteq> 0" using cf_less cf_eq by (auto simp: cf_less)
    have above: "k < key_of (?xs ! j)" if "i - 1 < int j" "j < length ?xs" for j
      using ascending_nth [OF assms(2), of "nat i" j] that 2 i by (cases "j = nat i") auto
    show ?thesis
    proof (cases "i - 1 < lo")
      case True
      have "rank key_of k ?xs = nat lo"
        using less.prems True above by (intro rank_at) (auto intro: less_imp_le)
      moreover have "k \<notin> key_of ` set ?xs"
      proof
        assume "k \<in> key_of ` set ?xs"
        then obtain j where "j < length ?xs" "k = key_of (?xs ! j)" by (auto simp: in_set_conv_nth)
        moreover have "i - 1 < int j" if "\<not> j < nat lo" using that True less.prems(1) by linarith
        ultimately show False using above [of j] less.prems(5) [of j] by (cases "j < nat lo") auto
      qed
      ultimately show ?thesis using c True by (subst search_loop.simps) (simp add: get)
    next
      case False
      let ?m = "lo + (i - 1 - lo) div 2"
      have m: "lo \<le> ?m" "?m \<le> i - 1" using False by auto
      then have "search_loop cf k l lo (i - 1) ?m = Inr (k \<in> key_of ` set ?xs, rank key_of k ?xs)"
        using less.prems False above by (intro less.hyps) auto
      moreover have "\<not> (?m < 0 \<or> int (List_Size l) \<le> ?m)" using m less.prems size by auto
      ultimately show ?thesis using c False by (subst search_loop.simps) (simp add: get Let_def)
    qed
  next
    case 3
    then have c: "\<not> cf k ?d < 0" "cf k ?d \<noteq> 0" using cf_less cf_eq by (auto simp: cf_less)
    have below: "key_of (?xs ! j) < k" if "j < nat (i + 1)" for j
    proof (cases "j = nat i")
      case False
      then have "j < nat i" using that i by linarith
      then show ?thesis using ascending_nth [OF assms(2), of j "nat i"] 3 i(1) by simp
    qed (use 3 in simp)
    show ?thesis
    proof (cases "up < i + 1")
      case True
      have "rank key_of k ?xs = nat (i + 1)"
        using less.prems True below i by (intro rank_at) (auto intro: less_imp_le)
      moreover have "k \<notin> key_of ` set ?xs"
      proof
        assume "k \<in> key_of ` set ?xs"
        then obtain j where "j < length ?xs" "k = key_of (?xs ! j)" by (auto simp: in_set_conv_nth)
        moreover have "up < int j" if "\<not> j < nat (i + 1)" using that True i(2) by linarith
        ultimately show False using below [of j] less.prems(6) [of j] by (cases "j < nat (i + 1)") auto
      qed
      ultimately show ?thesis using c True by (subst search_loop.simps) (simp add: get)
    next
      case False
      let ?m = "i + 1 + (up - (i + 1)) div 2"
      have m: "i + 1 \<le> ?m" "?m \<le> up" using False by auto
      then have "search_loop cf k l (i + 1) up ?m = Inr (k \<in> key_of ` set ?xs, rank key_of k ?xs)"
        using less.prems False below by (intro less.hyps) auto
      moreover have "\<not> (?m < 0 \<or> int (List_Size l) \<le> ?m)" using m less.prems size by auto
      ultimately show ?thesis using c False by (subst search_loop.simps) (simp add: get Let_def)
    qed
  qed
qed

lemma GetIndexFromKey_ok:
  assumes "rlist_ok l" "ascending key_of (items l)"
  shows "GetIndexFromKey cf k l = Inr (k \<in> key_of ` set (items l), rank key_of k (items l))"
proof (cases "items l = []")
  case True
  then show ?thesis using length_items [OF assms(1)]
    by (simp add: GetIndexFromKey_def List_Size_def rank_def)
next
  case False
  then have "0 < length (items l)" by simp
  moreover from this have "int (length (items l)) div 2 < int (length (items l))" by linarith
  moreover have "List_Size l = length (items l)" using length_items [OF assms(1)] by (simp add: List_Size_def)
  ultimately show ?thesis
    using search_ok [OF assms, of 0 "int (length (items l)) div 2" "int (length (items l)) - 1" k]
    by (simp add: GetIndexFromKey_def)
qed

lemma rank_le: "rank key_of k xs \<le> length xs"
  by (simp add: rank_def)

lemma rank_split:
  assumes "ascending key_of xs"
  shows "\<And>j. j < rank key_of k xs \<Longrightarrow> key_of (xs ! j) < k"
    and "\<And>j. rank key_of k xs \<le> j \<Longrightarrow> j < length xs \<Longrightarrow> k \<le> key_of (xs ! j)"
proof -
  have "\<exists>i \<le> length xs. (\<forall>j < i. key_of (xs ! j) < k) \<and> (\<forall>j. i \<le> j \<and> j < length xs \<longrightarrow> k \<le> key_of (xs ! j))"
  proof (intro exI conjI allI impI)
    let ?i = "length (takeWhile (\<lambda>d. key_of d < k) xs)"
    show "?i \<le> length xs" by (rule length_takeWhile_le)
    show "key_of (xs ! j) < k" if "j < ?i" for j
      using set_takeWhileD [OF nth_mem [OF that]] that by (simp add: takeWhile_nth)
    show "k \<le> key_of (xs ! j)" if "?i \<le> j \<and> j < length xs" for j
    proof -
      have "\<not> key_of (xs ! ?i) < k" using that by (intro nth_length_takeWhile) simp
      then show ?thesis using ascending_nth [OF assms, of ?i j] that by (cases "j = ?i") auto
    qed
  qed
  then obtain i where i: "i \<le> length xs" "\<forall>j < i. key_of (xs ! j) < k"
      "\<forall>j. i \<le> j \<and> j < length xs \<longrightarrow> k \<le> key_of (xs ! j)" by blast
  then have "rank key_of k xs = i" by (intro rank_at) auto
  then show "\<And>j. j < rank key_of k xs \<Longrightarrow> key_of (xs ! j) < k"
    "\<And>j. rank key_of k xs \<le> j \<Longrightarrow> j < length xs \<Longrightarrow> k \<le> key_of (xs ! j)" using i by auto
qed

lemma ascending_insert:
  assumes "ascending key_of xs" "key_of d = k" "k \<notin> key_of ` set xs"
  shows "ascending key_of (take (rank key_of k xs) xs @ d # drop (rank key_of k xs) xs)"
proof -
  let ?i = "rank key_of k xs"
  have "\<forall>e \<in> set (take ?i xs). key_of e < k"
    using rank_split(1) [OF assms(1), of _ k] by (auto simp: in_set_conv_nth)
  moreover have "\<forall>e \<in> set (drop ?i xs). k < key_of e"
  proof
    fix e assume e: "e \<in> set (drop ?i xs)"
    then obtain j where "j < length xs - ?i" "e = xs ! (?i + j)" by (auto simp: in_set_conv_nth)
    then have "k \<le> key_of e" using rank_split(2) [OF assms(1), of k "?i + j"] by simp
    moreover have "k \<noteq> key_of e" using assms(3) in_set_dropD [OF e] by auto
    ultimately show "k < key_of e" by simp
  qed
  moreover have "sorted_wrt (<) (map key_of (take ?i xs @ drop ?i xs))"
    using assms(1) by (simp add: ascending_def)
  ultimately show ?thesis
    using assms(2) unfolding ascending_def map_append sorted_wrt_append list.map sorted_wrt.simps
    by (auto dest: less_trans)
qed

lemma Insert_new:
  assumes "rlist_ok l" "ascending key_of (items l)" "list_size l < 1073741824"
    and "key_of d = k" "k \<notin> key_of ` set (items l)"
  shows "\<exists>l'. OL_Insert cf z k d l = Inr (rank key_of k (items l), l') \<and> rlist_ok l'
    \<and> items l' = take (rank key_of k (items l)) (items l) @ d # drop (rank key_of k (items l)) (items l)"
proof -
  let ?i = "rank key_of k (items l)"
  have get: "GetIndexFromKey cf k l = Inr (False, ?i)"
    using GetIndexFromKey_ok [OF assms(1,2), of k] assms(5) by simp
  have size: "List_Size l = length (items l)" using length_items [OF assms(1)] by (simp add: List_Size_def)
  show ?thesis
  proof (cases "length (items l) \<le> ?i")
    case True
    then have i: "?i = length (items l)" using rank_le [of k "items l"] by simp
    obtain l' where l': "List_Insert z d l = Inr l'" "rlist_ok l'" "items l' = items l @ [d]"
      using Insert_runs [OF assms(1,3), of z d] by (auto elim: runs_asE)
    then have "List_Size l' = Suc (length (items l))" using length_items [OF l'(2)] by (simp add: List_Size_def)
    moreover have "length (items l) < 1073741824" using length_items [OF assms(1)] assms(3) by simp
    ultimately have "OL_Insert cf z k d l = Inr (?i, l')"
      using l'(1) i size by (simp add: OL_Insert_def get dec32_pos)
    then show ?thesis using l' i by simp
  next
    case False
    then obtain l' where "List_Insert_at z d ?i l = Inr l'" "rlist_ok l'"
        "items l' = take ?i (items l) @ d # drop ?i (items l)"
      using Insert_at_runs [OF assms(1,3), of ?i z d] length_items [OF assms(1)] by (auto elim: runs_asE)
    then show ?thesis using False size by (simp add: OL_Insert_def get)
  qed
qed

lemma Insert_old:
  assumes "rlist_ok l" "ascending key_of (items l)" "k \<in> key_of ` set (items l)"
  shows "OL_Insert cf z k d l = Inr (MAX_UNSIGNED_LONG, l)"
  using GetIndexFromKey_ok [OF assms(1,2), of k] assms(3) by (simp add: OL_Insert_def)

lemma remove_at_rank:
  assumes "ascending key_of xs" "k \<in> key_of ` set xs"
  shows "take (rank key_of k xs) xs @ drop (Suc (rank key_of k xs)) xs = filter (\<lambda>d. key_of d \<noteq> k) xs"
proof -
  let ?i = "rank key_of k xs"
  obtain j where j: "j < length xs" "key_of (xs ! j) = k" using assms(2) by (auto simp: in_set_conv_nth)
  have i: "?i \<le> j" using rank_split(1) [OF assms(1), of j k] j(2) by (cases "?i \<le> j") auto
  have "?i = j"
  proof (rule ccontr)
    assume "?i \<noteq> j"
    then have "key_of (xs ! ?i) < k" using ascending_nth [OF assms(1), of ?i j] i j by simp
    then show False using rank_split(2) [OF assms(1), of k ?i] i j(1) by simp
  qed
  have "xs = take j xs @ xs ! j # drop (Suc j) xs" using j(1) by (simp add: Cons_nth_drop_Suc)
  then have "filter (\<lambda>d. key_of d \<noteq> k) xs = filter (\<lambda>d. key_of d \<noteq> k) (take j xs) @ filter (\<lambda>d. key_of d \<noteq> k) (drop (Suc j) xs)"
    using j(2) by (metis (mono_tags, lifting) filter.simps(2) filter_append)
  moreover have "filter (\<lambda>d. key_of d \<noteq> k) (take j xs) = take j xs"
    using ascending_nth [OF assms(1), of _ j] j by (fastforce simp: filter_id_conv in_set_conv_nth)
  moreover have "filter (\<lambda>d. key_of d \<noteq> k) (drop (Suc j) xs) = drop (Suc j) xs"
  proof -
    have "key_of d \<noteq> k" if d: "d \<in> set (drop (Suc j) xs)" for d
    proof -
      obtain m where m: "m < length xs - Suc j" "d = xs ! (Suc j + m)" using d by (auto simp: in_set_conv_nth)
      then have "Suc j + m < length xs" by linarith
      then show ?thesis using ascending_nth [OF assms(1), of j "Suc j + m"] j(2) m(2) by auto
    qed
    then show ?thesis by (simp add: filter_id_conv)
  qed
  ultimately show ?thesis using \<open>?i = j\<close> by simp
qed

lemma Remove_ok:
  assumes "rlist_ok l" "ascending key_of (items l)"
  shows "\<exists>l'. OL_Remove cf k l = Inr (if k \<in> key_of ` set (items l) then rank key_of k (items l) else 0, l')
    \<and> rlist_ok l' \<and> items l' = filter (\<lambda>d. key_of d \<noteq> k) (items l)"
proof (cases "k \<in> key_of ` set (items l)")
  case True
  obtain l' where "List_RemoveAtIndex (rank key_of k (items l)) l = Inr l'" "rlist_ok l'"
      "items l' = filter (\<lambda>d. key_of d \<noteq> k) (items l)"
    using RemoveAtIndex_runs [OF assms(1), of "rank key_of k (items l)"] remove_at_rank [OF assms(2) True]
    by (auto elim: runs_asE)
  then show ?thesis using True by (simp add: OL_Remove_def GetIndexFromKey_ok [OF assms])
next
  case False
  then have "filter (\<lambda>d. key_of d \<noteq> k) (items l) = items l" by (auto simp: filter_id_conv)
  then show ?thesis using False assms(1) by (simp add: OL_Remove_def GetIndexFromKey_ok [OF assms])
qed

lemma ascending_filter: "ascending key_of xs \<Longrightarrow> ascending key_of (filter P xs)"
  unfolding ascending_def by (induction xs) auto

end

interpretation dc: keyed defaultOrderedListComparison "\<lambda>x :: 'a::linorder. x"
  by unfold_locales (auto simp: defaultOrderedListComparison_def)

section \<open>A set in order\<close>

datatype 'a set_op = SInsert 'a | SRemove 'a

fun run_set :: "'a::linorder \<Rightarrow> 'a set_op \<Rightarrow> 'a rlist \<Rightarrow> 'a rlist res" where
  "run_set z (SInsert k) l = rbind (OL_Insert defaultOrderedListComparison z k k l) (\<lambda>(i, l'). Inr l')"
| "run_set z (SRemove k) l = rbind (OL_RemoveIfExists defaultOrderedListComparison k l) (\<lambda>(i, l'). Inr l')"

fun set_spec :: "'a set_op \<Rightarrow> 'a set \<Rightarrow> 'a set" where
  "set_spec (SInsert k) A = insert k A"
| "set_spec (SRemove k) A = A - {k}"

definition set_list :: "'a::linorder rlist \<Rightarrow> bool" where
  "set_list l \<longleftrightarrow> rlist_ok l \<and> ascending (\<lambda>x. x) (items l)"

lemma RemoveIfExists_Remove: "OL_RemoveIfExists cf k l = OL_Remove cf k l"
  by (simp add: OL_RemoveIfExists_def OL_Remove_def)

lemma set_op_ok:
  assumes "set_list l" "length (items l) < 1073741824"
  shows "\<exists>l'. run_set z op l = Inr l' \<and> set_list l' \<and> set (items l') = set_spec op (set (items l))
    \<and> length (items l') \<le> Suc (length (items l))"
proof (cases op)
  case (SInsert k)
  have ok: "rlist_ok l" "ascending (\<lambda>x. x) (items l)" using assms(1) by (simp_all add: set_list_def)
  show ?thesis
  proof (cases "k \<in> set (items l)")
    case True
    then have "run_set z op l = Inr l" using dc.Insert_old [OF ok, of k z k] SInsert by simp
    with True assms(1) SInsert show ?thesis by (auto simp: insert_absorb)
  next
    case False
    let ?i = "rank (\<lambda>x. x) k (items l)"
    have n: "list_size l < 1073741824" using assms(2) length_items [OF ok(1)] by simp
    obtain l' where l': "OL_Insert defaultOrderedListComparison z k k l = Inr (?i, l')" "rlist_ok l'"
        "items l' = take ?i (items l) @ k # drop ?i (items l)"
      using dc.Insert_new [OF ok n, of k k z] False by auto
    have "ascending (\<lambda>x. x) (items l')" using dc.ascending_insert [OF ok(2), of k k] False l'(3) by simp
    moreover have "set (items l') = insert k (set (items l))"
      using set_append [of "take ?i (items l)" "drop ?i (items l)"] l'(3) by auto
    moreover have "length (items l') = Suc (length (items l))" using l'(3) by simp
    ultimately show ?thesis using l'(1,2) SInsert by (simp add: set_list_def)
  qed
next
  case (SRemove k)
  have ok: "rlist_ok l" "ascending (\<lambda>x. x) (items l)" using assms(1) by (simp_all add: set_list_def)
  obtain i l' where "OL_Remove defaultOrderedListComparison k l = Inr (i, l')" "rlist_ok l'"
      "items l' = filter (\<lambda>d. d \<noteq> k) (items l)"
    using dc.Remove_ok [OF ok, of k] by auto
  then show ?thesis using SRemove dc.ascending_filter [OF ok(2)]
    by (auto simp: set_list_def RemoveIfExists_Remove intro: le_SucI length_filter_le)
qed

lemma set_ops_ok:
  assumes "set_list l" "length (items l) + length ops < 1073741824"
  shows "\<exists>l'. foldE (run_set z) ops l = Inr l' \<and> set_list l' \<and> set (items l') = fold set_spec ops (set (items l))"
  using assms
proof (induction ops arbitrary: l)
  case (Cons op ops)
  then obtain l1 where l1: "run_set z op l = Inr l1" "set_list l1" "set (items l1) = set_spec op (set (items l))"
      "length (items l1) \<le> Suc (length (items l))"
    using set_op_ok [of l z op] by auto
  then show ?case using Cons.IH [of l1] Cons.prems(2) by simp
qed auto

text \<open>C26: An \<open>OrderedList\<close> with the default comparison is a set in order: after any sequence of fewer than
  \<open>2^30\<close> insertions and removals it holds the elements of the set in ascending order, each once, and the
  binary search of \<open>GetIndexFromKey\<close> tells for every key whether it is there and how many elements are less.\<close>

theorem ordered_list_is_set:
  assumes "length ops < 1073741824"
  shows "\<exists>l. foldE (run_set z) ops List_new = Inr l \<and> (let S = fold set_spec ops {} in
      items l = sorted_list_of_set S
      \<and> (\<forall>k. GetIndexFromKey defaultOrderedListComparison k l = Inr (k \<in> S, card {d \<in> S. d < k})))"
proof -
  have "set_list (List_new :: 'a rlist)" by (simp add: set_list_def ascending_def)
  then obtain l where l: "foldE (run_set z) ops List_new = Inr l" "set_list l" "set (items l) = fold set_spec ops {}"
    using set_ops_ok [of List_new ops z] assms by auto
  have sorted: "sorted_wrt (<) (items l)" using l(2) by (simp add: set_list_def ascending_def)
  then have dist: "sorted (items l)" "distinct (items l)" by (simp_all add: strict_sorted_iff)
  have "items l = sorted_list_of_set (set (items l))"
    using sorted_list_of_set.idem_if_sorted_distinct [OF dist] by simp
  moreover have "GetIndexFromKey defaultOrderedListComparison k l
      = Inr (k \<in> set (items l), card {d \<in> set (items l). d < k})" for k
  proof -
    have "card {d \<in> set (items l). d < k} = length (filter (\<lambda>d. d < k) (items l))"
      using distinct_card [OF distinct_filter [OF dist(2), of "\<lambda>d. d < k"]] by simp
    then show ?thesis using dc.GetIndexFromKey_ok [of l k] l(2) by (simp add: set_list_def rank_def)
  qed
  ultimately show ?thesis using l(1) unfolding Let_def l(3) by (intro exI [of _ l] conjI allI)
qed

theorem ordered_list_is_set_witness:
  "\<exists>l. foldE (run_set 0) [SInsert 5, SInsert 2, SInsert 5, SInsert 9, SRemove 2] List_new = Inr l
     \<and> items l = [5, 9 :: nat]"
proof -
  have "fold set_spec [SInsert 5, SInsert 2, SInsert 5, SInsert 9, SRemove 2] {} = {5, 9 :: nat}" by auto
  then show ?thesis
    using ordered_list_is_set [of "[SInsert 5, SInsert 2, SInsert 5, SInsert 9, SRemove 2]" "0 :: nat"]
    by (auto simp: Let_def)
qed

end
