(* ===== verification/RakRange.thy ===== *)
theory RakRange
  imports RakOrdered
begin

text \<open>
  \<open>DataStructures::RangeList\<close> of RakNet (\<^verbatim>\<open>DS_RangeList.h\<close>), which collects the numbers of the datagrams to
  acknowledge: an \<open>OrderedList\<close> of ranges by their least number. The numbers are \<open>DatagramSequenceNumberType\<close>,
  that is \<open>uint24_t\<close>, whose arithmetic wraps at 24 bits. Writing a list to a bit stream and reading it
  are not modelled here.
\<close>

section \<open>Code\<close>

type_synonym u24 = "24 word"

record range_node =
  minIndex :: u24
  maxIndex :: u24

definition RangeNode :: "u24 \<Rightarrow> u24 \<Rightarrow> range_node" where
  "RangeNode a b = \<lparr>minIndex = a, maxIndex = b\<rparr>"

definition RangeNodeComp :: "u24 \<Rightarrow> range_node \<Rightarrow> int" where
  "RangeNodeComp a b = (if a < minIndex b then - 1 else if a = minIndex b then 0 else 1)"

type_synonym ranges = "range_node rlist"

definition insert_node :: "range_node \<Rightarrow> u24 \<Rightarrow> ranges \<Rightarrow> ranges res" where
  "insert_node z index l =
     rbind (OL_Insert RangeNodeComp z index (RangeNode index index) l) (\<lambda>(i, l'). Inr l')"

text \<open>The case of a number behind the least number of every range.\<close>

definition insert_last :: "range_node \<Rightarrow> u24 \<Rightarrow> ranges \<Rightarrow> ranges res" where
  "insert_last z index l =
     rbind (List_Get (List_Size l - 1) l) (\<lambda>p.
     if index = maxIndex p + 1 then List_put (List_Size l - 1) (p\<lparr>maxIndex := maxIndex p + 1\<rparr>) l
     else if maxIndex p + 1 < index then insert_node z index l
     else Inr l)"

text \<open>The number before a range: the range grows to the left, and may meet its neighbour.\<close>

definition join_left :: "nat \<Rightarrow> range_node \<Rightarrow> ranges \<Rightarrow> ranges res" where
  "join_left i n l =
     rbind (List_put i (n\<lparr>minIndex := minIndex n - 1\<rparr>) l) (\<lambda>l1.
     if 0 < i then
       rbind (List_Get (i - 1) l1) (\<lambda>p.
       if maxIndex p + 1 = minIndex n - 1
       then rbind (List_put (i - 1) (p\<lparr>maxIndex := maxIndex n\<rparr>) l1) (OL_RemoveAtIndex i)
       else Inr l1)
     else Inr l1)"

text \<open>The number behind a range: it grows to the right.\<close>

definition join_right :: "nat \<Rightarrow> range_node \<Rightarrow> ranges \<Rightarrow> ranges res" where
  "join_right i n l =
     rbind (List_put i (n\<lparr>maxIndex := maxIndex n + 1\<rparr>) l) (\<lambda>l1.
     if i < List_Size l1 - 1 then
       rbind (List_Get (i + 1) l1) (\<lambda>m.
       if minIndex m = maxIndex n + 1 + 1
       then rbind (List_put (i + 1) (m\<lparr>minIndex := minIndex n\<rparr>) l1) (OL_RemoveAtIndex i)
       else Inr l1)
     else Inr l1)"

definition RL_Insert :: "range_node \<Rightarrow> u24 \<Rightarrow> ranges \<Rightarrow> ranges res" where
  "RL_Insert z index l =
     (if List_Size l = 0 then insert_node z index l
      else rbind (GetIndexFromKey RangeNodeComp index l) (\<lambda>(e, i).
        if i = List_Size l then insert_last z index l
        else rbind (List_Get i l) (\<lambda>n.
          if index < minIndex n - 1 then OL_InsertAtIndex z (RangeNode index index) i l
          else if index = minIndex n - 1 then join_left i n l
          else if minIndex n \<le> index \<and> index \<le> maxIndex n then Inr l
          else if index = maxIndex n + 1 then join_right i n l
          else Inr l)))"

definition RL_Clear :: "ranges \<Rightarrow> ranges res" where "RL_Clear l = OL_Clear True l"

definition RL_Size :: "ranges \<Rightarrow> nat" where "RL_Size l = List_Size l"

definition RangeSum :: "ranges \<Rightarrow> nat res" where
  "RangeSum l =
     foldE (\<lambda>i sum. rbind (List_Get i l) (\<lambda>n. Inr (w32 (sum + unat (maxIndex n - minIndex n + 1)))))
       [0..<List_Size l] 0"

section \<open>The numbers of a list\<close>

interpretation rc: keyed RangeNodeComp minIndex
  by unfold_locales (auto simp: RangeNodeComp_def)

definition numbers :: "range_node list \<Rightarrow> u24 set" where
  "numbers ns = (\<Union>n \<in> set ns. {minIndex n..maxIndex n})"

definition ranges_ok :: "ranges \<Rightarrow> bool" where
  "ranges_ok l \<longleftrightarrow> rlist_ok l \<and> ascending minIndex (items l)
     \<and> (\<forall>n \<in> set (items l). minIndex n \<le> maxIndex n)"

lemma ranges_okD:
  assumes "ranges_ok l"
  shows "rlist_ok l" "ascending minIndex (items l)" "\<And>n. n \<in> set (items l) \<Longrightarrow> minIndex n \<le> maxIndex n"
    "List_Size l = length (items l)"
  using assms length_items [of l] by (simp_all add: ranges_ok_def List_Size_def)

lemma numbers_append [simp]: "numbers (xs @ ys) = numbers xs \<union> numbers ys"
  by (auto simp: numbers_def)

lemma numbers_Cons [simp]: "numbers (n # ns) = {minIndex n..maxIndex n} \<union> numbers ns"
  by (simp add: numbers_def)

lemma numbers_Nil [simp]: "numbers [] = {}"
  by (simp add: numbers_def)

definition covers :: "ranges res \<Rightarrow> range_node list \<Rightarrow> bool" where
  "covers r ns \<longleftrightarrow> (\<exists>l. r = Inr l \<and> ranges_ok l \<and> items l = ns)"

lemma coversI:
  "runs_as r ns \<Longrightarrow> ascending minIndex ns \<Longrightarrow> \<forall>n \<in> set ns. minIndex n \<le> maxIndex n \<Longrightarrow> covers r ns"
  by (auto simp: runs_as_def covers_def ranges_ok_def)

lemma rank_end:
  assumes "ranges_ok l" "rank minIndex k (items l) = length (items l)" "n \<in> set (items l)"
  shows "minIndex n < k"
  using rc.rank_split(1) [OF ranges_okD(2) [OF assms(1)], of _ k] assms(2,3) by (auto simp: in_set_conv_nth)

lemma not_key_at_rank:
  assumes "ranges_ok l" "rank minIndex k (items l) < length (items l)" "k \<notin> minIndex ` set (items l)"
  shows "k < minIndex (items l ! rank minIndex k (items l))"
  using rc.rank_split(2) [OF ranges_okD(2) [OF assms(1)], of k "rank minIndex k (items l)"] assms(2,3)
  by (metis image_eqI nth_mem order_le_less)

lemma insert_node_covers:
  assumes "ranges_ok l" "length (items l) < 1073741824" "k \<notin> minIndex ` set (items l)"
  defines "i \<equiv> rank minIndex k (items l)"
  shows "covers (insert_node z k l) (take i (items l) @ RangeNode k k # drop i (items l))"
proof -
  note ok = ranges_okD [OF assms(1)]
  have n: "list_size l < 1073741824" using assms(2) ok(4) by (simp add: List_Size_def)
  obtain l' where l': "OL_Insert RangeNodeComp z k (RangeNode k k) l = Inr (i, l')" "rlist_ok l'"
      "items l' = take i (items l) @ RangeNode k k # drop i (items l)"
    using rc.Insert_new [OF ok(1,2) n, of "RangeNode k k" k z] assms(3) by (auto simp: RangeNode_def i_def)
  have "ascending minIndex (items l')"
    using rc.ascending_insert [OF ok(2), of "RangeNode k k" k] assms(3) l'(3) by (simp add: RangeNode_def i_def)
  moreover have "\<forall>n \<in> set (items l'). minIndex n \<le> maxIndex n"
    using ok(3) l'(3) by (auto simp: RangeNode_def dest: in_set_takeD in_set_dropD)
  ultimately show ?thesis using l' by (simp add: covers_def insert_node_def ranges_ok_def)
qed

lemma insert_at_covers:
  assumes "ranges_ok l" "length (items l) < 1073741824" "k \<notin> minIndex ` set (items l)"
  defines "i \<equiv> rank minIndex k (items l)"
  shows "covers (OL_InsertAtIndex z (RangeNode k k) i l) (take i (items l) @ RangeNode k k # drop i (items l))"
proof (rule coversI)
  note ok = ranges_okD [OF assms(1)]
  have i: "i \<le> list_size l" "list_size l < 1073741824"
    using rc.rank_le [of k "items l"] ok(4) assms(2) by (simp_all add: List_Size_def i_def)
  show "runs_as (OL_InsertAtIndex z (RangeNode k k) i l) (take i (items l) @ RangeNode k k # drop i (items l))"
    using Insert_at_runs [OF ok(1) i(2,1)] by (simp add: OL_InsertAtIndex_def)
  show "ascending minIndex (take i (items l) @ RangeNode k k # drop i (items l))"
    using rc.ascending_insert [OF ok(2), of "RangeNode k k" k] assms(3) by (simp add: RangeNode_def i_def)
  show "\<forall>n \<in> set (take i (items l) @ RangeNode k k # drop i (items l)). minIndex n \<le> maxIndex n"
    using ok(3) by (auto simp: RangeNode_def dest: in_set_takeD in_set_dropD)
qed

lemma numbers_insert: "numbers (take i ns @ RangeNode k k # drop i ns) = insert k (numbers ns)"
  using numbers_append [of "take i ns" "drop i ns"] by (auto simp: RangeNode_def)

lemma unat_pred: "(k :: u24) \<noteq> 0 \<Longrightarrow> unat (k - 1) = unat k - 1"
  by (rule unat_minus_one)

lemma pred_less: "(k :: u24) \<noteq> 0 \<Longrightarrow> k - 1 < k"
  by (simp add: word_less_nat_alt unat_pred unat_gt_0)

text \<open>The ranges after an insertion, as a function on the plain list of ranges.\<close>

definition ins_spec :: "u24 \<Rightarrow> range_node list \<Rightarrow> range_node list" where
  "ins_spec k ns =
     (let i = rank minIndex k ns; n = ns ! i; p = ns ! (i - 1)
      in if i = length ns then
           (if ns = [] then [RangeNode k k]
            else if k = maxIndex p + 1 then butlast ns @ [p\<lparr>maxIndex := k\<rparr>]
            else if maxIndex p + 1 < k then ns @ [RangeNode k k]
            else ns)
         else if k < minIndex n - 1 then take i ns @ RangeNode k k # drop i ns
         else if k = minIndex n - 1 then
           (if 0 < i \<and> maxIndex p + 1 = k
            then take (i - 1) ns @ p\<lparr>maxIndex := maxIndex n\<rparr> # drop (Suc i) ns
            else take i ns @ n\<lparr>minIndex := k\<rparr> # drop (Suc i) ns)
         else ns)"

lemma covers_runs: "covers r ns \<Longrightarrow> runs_as r ns"
  by (auto simp: covers_def runs_as_def ranges_ok_def)

lemma update_split: "i < length xs \<Longrightarrow> xs[i := x] = take i xs @ x # drop (Suc i) xs"
  by (rule upd_conv_take_nth_drop)

lemma insert_last_runs:
  assumes "ranges_ok l" "length (items l) < 1073741824" "items l \<noteq> []"
    "rank minIndex k (items l) = length (items l)"
  shows "runs_as (insert_last z k l) (ins_spec k (items l))"
proof -
  note ok = ranges_okD [OF assms(1)]
  let ?i = "length (items l) - 1" and ?p = "items l ! (length (items l) - 1)"
  have i: "?i < length (items l)" using assms(3) by simp
  have get: "List_Get (List_Size l - 1) l = Inr ?p" using Get_ok [OF ok(1) i] ok(4) by simp
  have "k \<notin> minIndex ` set (items l)" using rank_end [OF assms(1,4)] by auto
  then have new: "runs_as (insert_node z k l) (items l @ [RangeNode k k])"
    using covers_runs [OF insert_node_covers [OF assms(1,2), of k z]] assms(4) by simp
  have upd: "(items l)[?i := x] = butlast (items l) @ [x]" for x
    using i by (simp add: update_split butlast_conv_take)
  consider "k = maxIndex ?p + 1" | "k \<noteq> maxIndex ?p + 1" "maxIndex ?p + 1 < k"
    | "k \<noteq> maxIndex ?p + 1" "\<not> maxIndex ?p + 1 < k" by blast
  then show ?thesis
  proof cases
    case 1
    then have "runs_as (insert_last z k l) ((items l)[?i := ?p\<lparr>maxIndex := k\<rparr>])"
      using put_runs [OF ok(1) i, of "?p\<lparr>maxIndex := k\<rparr>"] ok(4) get by (simp add: insert_last_def)
    then show ?thesis using 1 assms(3,4) by (simp add: ins_spec_def Let_def upd del: One_nat_def)
  next
    case 2
    then show ?thesis using new get assms(3,4) by (simp add: insert_last_def ins_spec_def Let_def)
  next
    case 3
    then show ?thesis using get assms(3,4) ok(1)
      by (intro runs_asI [of _ l]) (simp_all add: insert_last_def ins_spec_def Let_def)
  qed
qed

lemma join_left_runs:
  assumes "rlist_ok l" "i < length (items l)" "n = items l ! i"
  shows "runs_as (join_left i n l)
    (if 0 < i \<and> maxIndex (items l ! (i - 1)) + 1 = minIndex n - 1
     then take (i - 1) (items l) @ (items l ! (i - 1))\<lparr>maxIndex := maxIndex n\<rparr> # drop (Suc i) (items l)
     else take i (items l) @ n\<lparr>minIndex := minIndex n - 1\<rparr> # drop (Suc i) (items l))"
proof -
  let ?n = "n\<lparr>minIndex := minIndex n - 1\<rparr>" and ?p = "items l ! (i - 1)"
  obtain l1 where l1: "List_put i ?n l = Inr l1" "rlist_ok l1" "items l1 = (items l)[i := ?n]"
    using put_runs [OF assms(1,2), of ?n] by (auto elim: runs_asE)
  show ?thesis
  proof (cases "0 < i")
    case True
    then have j: "i - 1 < length (items l1)" "items l1 ! (i - 1) = ?p" using assms(2) l1(3) by auto
    have get: "List_Get (i - 1) l1 = Inr ?p" using Get_ok [OF l1(2) j(1)] j(2) by simp
    show ?thesis
    proof (cases "maxIndex ?p + 1 = minIndex n - 1")
      case join: True
      obtain l2 where l2: "List_put (i - 1) (?p\<lparr>maxIndex := maxIndex n\<rparr>) l1 = Inr l2" "rlist_ok l2"
          "items l2 = (items l1)[i - 1 := ?p\<lparr>maxIndex := maxIndex n\<rparr>]"
        using put_runs [OF l1(2) j(1)] by (auto elim: runs_asE)
      have "join_left i n l = List_RemoveAtIndex i l2"
        using True join by (simp add: join_left_def l1(1) get l2(1) OL_RemoveAtIndex_def del: One_nat_def)
      moreover have "take i (items l2) @ drop (Suc i) (items l2)
          = take (i - 1) (items l) @ ?p\<lparr>maxIndex := maxIndex n\<rparr> # drop (Suc i) (items l)"
      proof -
        obtain m where m: "i = Suc m" using True by (cases i) auto
        then show ?thesis using assms(2) l1(3) l2(3) by (simp add: take_Suc_conv_app_nth update_split)
      qed
      ultimately show ?thesis using RemoveAtIndex_runs [OF l2(2), of i] True join by simp
    next
      case False
      then show ?thesis using True assms(2) l1 get
        by (intro runs_asI [of _ l1]) (simp_all add: join_left_def update_split)
    qed
  next
    case False
    then show ?thesis using assms(2) l1 by (intro runs_asI [of _ l1]) (simp_all add: join_left_def update_split)
  qed
qed

text \<open>
  \<open>Insert\<close> refines the function on lists, but for a range that begins with 0 and gets its 0 again. The range
  found never ends directly before the number: growing to the right happens at the end of the list only.
\<close>

lemma Insert_runs_spec:
  assumes "ranges_ok l" "length (items l) < 1073741824" "k = 0 \<Longrightarrow> 0 \<notin> minIndex ` set (items l)"
  shows "runs_as (RL_Insert z k l) (ins_spec k (items l))"
proof -
  note ok = ranges_okD [OF assms(1)]
  let ?i = "rank minIndex k (items l)"
  show ?thesis
  proof (cases "items l = []")
    case True
    then have "runs_as (insert_node z k l) [RangeNode k k]"
      using covers_runs [OF insert_node_covers [OF assms(1,2), of k z]] by (simp add: rank_def)
    then show ?thesis using True ok(4) by (simp add: RL_Insert_def ins_spec_def rank_def)
  next
    case ne: False
    have run: "RL_Insert z k l = (if ?i = List_Size l then insert_last z k l
        else rbind (List_Get ?i l) (\<lambda>n.
          if k < minIndex n - 1 then OL_InsertAtIndex z (RangeNode k k) ?i l
          else if k = minIndex n - 1 then join_left ?i n l
          else if minIndex n \<le> k \<and> k \<le> maxIndex n then Inr l
          else if k = maxIndex n + 1 then join_right ?i n l
          else Inr l))"
      using ne ok(4) rc.GetIndexFromKey_ok [OF ok(1,2), of k] by (simp add: RL_Insert_def)
    show ?thesis
    proof (cases "?i = length (items l)")
      case True
      then show ?thesis using insert_last_runs [OF assms(1,2) ne] ok(4) by (simp add: run)
    next
      case False
      then have i: "?i < length (items l)" using rc.rank_le [of k "items l"] by simp
      let ?n = "items l ! ?i"
      have get: "List_Get ?i l = Inr ?n" by (rule Get_ok [OF ok(1) i])
      show ?thesis
      proof (cases "k \<in> minIndex ` set (items l)")
        case True
        obtain j where j: "j < length (items l)" "minIndex (items l ! j) = k"
          using True by (auto simp: in_set_conv_nth)
        have "?i = j"
          by (rule rank_at) (use ascending_nth [OF ok(2)] j in \<open>auto simp: order_le_less dest: le_neq_implies_less\<close>)
        then have n: "minIndex ?n = k" "k \<le> maxIndex ?n" using j ok(3) [of ?n] i by auto
        have "k \<noteq> 0" using True assms(3) by auto
        then have "\<not> k < k - 1" "k \<noteq> k - 1" using pred_less [of k] by auto
        then show ?thesis using False ok(1,4) i n get
          by (intro runs_asI [of _ l]) (auto simp: run ins_spec_def Let_def)
      next
        case new: False
        have less: "k < minIndex ?n" by (rule not_key_at_rank [OF assms(1) i new])
        consider "k < minIndex ?n - 1" | "k = minIndex ?n - 1"
          | "\<not> k < minIndex ?n - 1" "k \<noteq> minIndex ?n - 1" by blast
        then show ?thesis
        proof cases
          case 1
          then show ?thesis using covers_runs [OF insert_at_covers [OF assms(1,2) new, of z]] False ok(4) get i
            by (simp add: run ins_spec_def Let_def)
        next
          case 2
          have "runs_as (join_left ?i ?n l)
              (if 0 < ?i \<and> maxIndex (items l ! (?i - 1)) + 1 = k
               then take (?i - 1) (items l) @ (items l ! (?i - 1))\<lparr>maxIndex := maxIndex ?n\<rparr> # drop (Suc ?i) (items l)
               else take ?i (items l) @ ?n\<lparr>minIndex := k\<rparr> # drop (Suc ?i) (items l))"
            using join_left_runs [OF ok(1) i refl] unfolding 2 [symmetric] .
          moreover have "\<not> k < minIndex ?n - 1" unfolding 2 [symmetric] by simp
          ultimately show ?thesis using 2 False ok(4) get i
            unfolding run ins_spec_def Let_def by (simp del: One_nat_def split del: if_split)
        next
          case 3
          have "minIndex ?n \<noteq> 0" using less by auto
          then have "unat (minIndex ?n - 1) = unat (minIndex ?n) - 1" by (rule unat_pred)
          with 3 less show ?thesis by (simp add: word_less_nat_alt word_unat_eq_iff)
        qed
      qed
    qed
  qed
qed

section \<open>What an insertion does to the numbers\<close>

lemma interval_succ:
  assumes "(a :: u24) < b + 1"
  shows "{a..b + 1} = insert (b + 1) {a..b}"
proof -
  have "b + 1 \<noteq> 0" using assms by auto
  then have "unat (b + 1) = unat b + 1" using unat_pred [of "b + 1"] by (simp add: unat_gt_0 [symmetric])
  then show ?thesis using assms by (auto simp: word_le_nat_alt word_less_nat_alt word_unat_eq_iff)
qed

lemma interval_pred:
  assumes "(m :: u24) \<noteq> 0" "m \<le> d"
  shows "{m - 1..d} = insert (m - 1) {m..d}"
  using unat_pred [OF assms(1)] assms by (auto simp: word_le_nat_alt word_unat_eq_iff unat_gt_0 [symmetric])

lemma interval_join:
  assumes "(a :: u24) \<le> b" "a < b + 1" "b + 1 = m - 1" "m \<noteq> 0" "m \<le> d"
  shows "{a..d} = insert (b + 1) ({a..b} \<union> {m..d})"
proof -
  have "b + 1 \<noteq> 0" using assms(2) by auto
  then have b: "unat (b + 1) = unat b + 1" using unat_pred [of "b + 1"] by (simp add: unat_gt_0 [symmetric])
  moreover have "unat (b + 1) = unat m - 1" unfolding assms(3) by (rule unat_pred [OF assms(4)])
  moreover have "0 < unat m" using assms(4) by (simp add: unat_gt_0)
  ultimately show ?thesis using assms(1,5) by (auto simp: word_le_nat_alt word_unat_eq_iff)
qed

definition ranges_good :: "range_node list \<Rightarrow> bool" where
  "ranges_good ns \<longleftrightarrow> ascending minIndex ns \<and> (\<forall>n \<in> set ns. minIndex n \<le> maxIndex n)"

text \<open>The ranges before and behind a number.\<close>

lemma rank_cut:
  assumes "ranges_good ns"
  obtains xs ys where "ns = xs @ ys" "rank minIndex k ns = length xs"
    "\<forall>n \<in> set xs. minIndex n < k" "\<forall>n \<in> set ys. k \<le> minIndex n"
proof
  let ?i = "rank minIndex k ns"
  have asc: "ascending minIndex ns" using assms by (simp add: ranges_good_def)
  show "ns = take ?i ns @ drop ?i ns" by simp
  show "?i = length (take ?i ns)" using rc.rank_le [of k ns] by simp
  show "\<forall>n \<in> set (take ?i ns). minIndex n < k"
    using rc.rank_split(1) [OF asc, of _ k] by (auto simp: in_set_conv_nth)
  show "\<forall>n \<in> set (drop ?i ns). k \<le> minIndex n"
  proof
    fix n assume "n \<in> set (drop ?i ns)"
    then obtain j where "j < length ns - ?i" "n = ns ! (?i + j)" by (auto simp: in_set_conv_nth)
    then show "k \<le> minIndex n" using rc.rank_split(2) [OF asc, of k "?i + j"] by simp
  qed
qed

text \<open>The insertion function, case by case.\<close>

lemma ins_spec_cases:
  assumes "ranges_good ns" "k = 0 \<longrightarrow> 0 \<notin> minIndex ` set ns"
  obtains (Here) "ins_spec k ns = ns" "k \<in> numbers ns"
  | (Grow) xs p where "ns = xs @ [p]" "minIndex p < k" "k = maxIndex p + 1"
      "ins_spec k ns = xs @ [p\<lparr>maxIndex := k\<rparr>]"
  | (New) xs ys where "ns = xs @ ys" "ins_spec k ns = xs @ RangeNode k k # ys"
      "\<forall>n \<in> set xs. minIndex n < k" "\<forall>n \<in> set ys. k < minIndex n"
  | (Left) xs n ys where "ns = xs @ n # ys" "minIndex n \<noteq> 0" "k = minIndex n - 1"
      "\<forall>m \<in> set xs. minIndex m < k" "ins_spec k ns = xs @ n\<lparr>minIndex := k\<rparr> # ys"
  | (Join) xs p n ys where "ns = xs @ p # n # ys" "minIndex n \<noteq> 0" "k = minIndex n - 1"
      "minIndex p < k" "k = maxIndex p + 1" "ins_spec k ns = xs @ p\<lparr>maxIndex := maxIndex n\<rparr> # ys"
proof -
  obtain xs ys where ns: "ns = xs @ ys" and i: "rank minIndex k ns = length xs"
    and xs: "\<forall>n \<in> set xs. minIndex n < k" and ys: "\<forall>n \<in> set ys. k \<le> minIndex n"
    by (rule rank_cut [OF assms(1), of k])
  have le: "\<And>n. n \<in> set ns \<Longrightarrow> minIndex n \<le> maxIndex n" using assms(1) by (simp add: ranges_good_def)
  show thesis
  proof (cases ys)
    case Nil
    show thesis
    proof (cases xs rule: rev_cases)
      case Nil
      with \<open>ys = []\<close> show thesis using ns i by (intro New [of "[]" "[]"]) (simp_all add: ins_spec_def)
    next
      case (snoc us p)
      have spec: "ins_spec k ns = (if k = maxIndex p + 1 then us @ [p\<lparr>maxIndex := k\<rparr>]
          else if maxIndex p + 1 < k then ns @ [RangeNode k k] else ns)"
        using i ns Nil snoc by (simp add: ins_spec_def Let_def)
      have p: "minIndex p < k" using xs snoc by simp
      consider "k = maxIndex p + 1" | "maxIndex p + 1 < k" | "k < maxIndex p + 1" by fastforce
      then show thesis
      proof cases
        case 1
        then show thesis using spec ns Nil snoc p by (intro Grow [of us p]) simp_all
      next
        case 2
        then show thesis using spec ns Nil xs by (intro New [of xs "[]"]) auto
      next
        case 3
        then have ne: "maxIndex p + 1 \<noteq> 0" by auto
        then have "unat (maxIndex p + 1) = unat (maxIndex p) + 1"
          using unat_pred [of "maxIndex p + 1"] by (simp add: unat_gt_0 [symmetric])
        then have "k \<le> maxIndex p" using 3 by (simp add: word_le_nat_alt word_less_nat_alt)
        then have "k \<in> numbers ns" using p ns Nil snoc by auto
        moreover have "ins_spec k ns = ns" using spec 3 by auto
        ultimately show thesis by (intro Here)
      qed
    qed
  next
    case (Cons n zs)
    have n: "k \<le> minIndex n" using ys Cons by simp
    have spec: "ins_spec k ns = (if k < minIndex n - 1 then xs @ RangeNode k k # ys
        else if k = minIndex n - 1 then
          (if xs \<noteq> [] \<and> maxIndex (last xs) + 1 = k
           then butlast xs @ (last xs)\<lparr>maxIndex := maxIndex n\<rparr> # zs else xs @ n\<lparr>minIndex := k\<rparr> # zs)
        else ns)"
    proof (cases xs rule: rev_cases)
      case (snoc us p)
      then show ?thesis using i ns Cons by (simp add: ins_spec_def Let_def nth_append)
    qed (use i ns Cons in \<open>simp add: ins_spec_def Let_def\<close>)
    show thesis
    proof (cases "k = minIndex n")
      case True
      then have "k \<noteq> 0" using assms(2) ns Cons by auto
      then have "\<not> k < k - 1" "k \<noteq> k - 1" using pred_less [of k] by auto
      then show thesis using spec True le [of n] ns Cons by (intro Here) simp_all
    next
      case False
      then have less: "k < minIndex n" using n by simp
      then have ne: "minIndex n \<noteq> 0" by auto
      have asc: "\<forall>m \<in> set zs. minIndex n < minIndex m"
        using assms(1) ns Cons by (simp add: ranges_good_def ascending_def sorted_wrt_append)
      consider "k < minIndex n - 1" | "k = minIndex n - 1" "xs \<noteq> [] \<and> maxIndex (last xs) + 1 = k"
        | "k = minIndex n - 1" "\<not> (xs \<noteq> [] \<and> maxIndex (last xs) + 1 = k)" | "minIndex n - 1 < k" by fastforce
      then show thesis
      proof cases
        case 1
        have "\<forall>m \<in> set ys. k < minIndex m" using less asc Cons by (auto intro: less_trans)
        then show thesis using spec 1 ns xs by (intro New [of xs ys]) simp_all
      next
        case 2
        then obtain us p where us: "xs = us @ [p]" by (cases xs rule: rev_cases) auto
        then show thesis using spec 2 ns Cons ne xs by (intro Join [of us p n zs]) simp_all
      next
        case 3
        then have "ins_spec k ns = xs @ n\<lparr>minIndex := k\<rparr> # zs" using spec by auto
        then show thesis using 3(1) ns Cons ne xs by (intro Left [of xs n zs]) simp_all
      next
        case 4
        then show thesis using less unat_pred [OF ne] by (simp add: word_less_nat_alt)
      qed
    qed
  qed
qed

lemma ranges_good_append:
  "ranges_good (xs @ ys) \<longleftrightarrow> ranges_good xs \<and> ranges_good ys
    \<and> (\<forall>m \<in> set xs. \<forall>n \<in> set ys. minIndex m < minIndex n)"
  by (auto simp: ranges_good_def ascending_def sorted_wrt_append)

lemma ranges_good_Cons:
  "ranges_good (n # ns) \<longleftrightarrow> minIndex n \<le> maxIndex n \<and> ranges_good ns \<and> (\<forall>m \<in> set ns. minIndex n < minIndex m)"
  by (auto simp: ranges_good_def ascending_def)

lemma ranges_good_Nil [simp]: "ranges_good []"
  by (simp add: ranges_good_def ascending_def)

lemma RangeNode_simps [simp]: "minIndex (RangeNode a b) = a" "maxIndex (RangeNode a b) = b"
  by (simp_all add: RangeNode_def)

lemmas ranges_good_simps = ranges_good_append ranges_good_Cons

lemma ins_spec_good:
  assumes "ranges_good ns" "k = 0 \<longrightarrow> 0 \<notin> minIndex ` set ns"
  shows "ranges_good (ins_spec k ns) \<and> numbers (ins_spec k ns) = insert k (numbers ns)"
  using assms
proof (cases rule: ins_spec_cases)
  case Here
  then show ?thesis using assms(1) by auto
next
  case (Grow xs p)
  have "{minIndex p..k} = insert k {minIndex p..maxIndex p}"
    using interval_succ [of "minIndex p" "maxIndex p"] Grow(2,3) by simp
  then show ?thesis using Grow assms(1) by (auto simp: ranges_good_simps)
next
  case (New xs ys)
  then show ?thesis using assms(1) by (auto simp: ranges_good_simps)
next
  case (Left xs n ys)
  have n: "minIndex n \<le> maxIndex n" using Left(1) assms(1) by (simp add: ranges_good_simps)
  have less: "k < minIndex n" using pred_less [OF Left(2)] Left(3) by simp
  have "{k..maxIndex n} = insert k {minIndex n..maxIndex n}"
    using interval_pred [OF Left(2) n] Left(3) by simp
  then have "numbers (xs @ n\<lparr>minIndex := k\<rparr> # ys) = insert k (numbers ns)" by (simp add: Left(1))
  moreover have "k \<le> maxIndex n" using less n by simp
  moreover have "\<forall>m \<in> set ys. k < minIndex m"
  proof
    fix m assume "m \<in> set ys"
    then have "minIndex n < minIndex m" using Left(1) assms(1) by (simp add: ranges_good_simps)
    with less show "k < minIndex m" by (rule less_trans)
  qed
  ultimately have "numbers (xs @ n\<lparr>minIndex := k\<rparr> # ys) = insert k (numbers ns)"
      "ranges_good (xs @ n\<lparr>minIndex := k\<rparr> # ys)"
    using Left(1,4) assms(1) by (simp_all add: ranges_good_simps)
  then show ?thesis by (simp add: Left(5))
next
  case (Join xs p n ys)
  have n: "minIndex n \<le> maxIndex n" "minIndex p \<le> maxIndex p" "minIndex p < minIndex n"
    using Join(1) assms(1) by (simp_all add: ranges_good_simps)
  have p: "minIndex p < maxIndex p + 1" "maxIndex p + 1 = minIndex n - 1"
    using Join(4) Join(3) unfolding Join(5) [symmetric] .
  have "{minIndex p..maxIndex n} = insert k ({minIndex p..maxIndex p} \<union> {minIndex n..maxIndex n})"
    using interval_join [OF n(2) p Join(2) n(1)] unfolding Join(5) [symmetric] .
  then have "numbers (xs @ p\<lparr>maxIndex := maxIndex n\<rparr> # ys) = insert k (numbers ns)"
    by (simp add: Join(1) Un_ac)
  moreover have "ranges_good (xs @ p\<lparr>maxIndex := maxIndex n\<rparr> # ys)"
    using Join(1) assms(1) n by (auto simp: ranges_good_simps)
  ultimately show ?thesis by (simp add: Join(6))
qed

text \<open>Ranges with nothing in common.\<close>

definition apart :: "range_node list \<Rightarrow> bool" where
  "apart ns \<longleftrightarrow> sorted_wrt (\<lambda>m n. maxIndex m < minIndex n) ns"

lemma apart_append:
  "apart (xs @ ys) \<longleftrightarrow> apart xs \<and> apart ys \<and> (\<forall>m \<in> set xs. \<forall>n \<in> set ys. maxIndex m < minIndex n)"
  by (auto simp: apart_def sorted_wrt_append)

lemma apart_Cons: "apart (n # ns) \<longleftrightarrow> apart ns \<and> (\<forall>m \<in> set ns. maxIndex n < minIndex m)"
  by (auto simp: apart_def)

lemma apart_Nil [simp]: "apart []"
  by (simp add: apart_def)

lemma max_below:
  assumes "\<forall>n \<in> set xs. minIndex n < k" "k \<notin> numbers xs"
  shows "\<forall>n \<in> set xs. maxIndex n < k"
  using assms by (fastforce simp: numbers_def not_le)

lemma ins_spec_apart:
  assumes "ranges_good ns" "k \<notin> numbers ns" "apart ns"
  shows "apart (ins_spec k ns)"
proof -
  have "k = 0 \<longrightarrow> 0 \<notin> minIndex ` set ns"
    using assms(1,2) by (auto simp: numbers_def ranges_good_def)
  with assms(1) show ?thesis
  proof (cases rule: ins_spec_cases)
    case Here
    then show ?thesis using assms(2) by simp
  next
    case (Grow xs p)
    then show ?thesis using assms(3) by (auto simp: apart_append apart_Cons)
  next
    case (New xs ys)
    then have "\<forall>n \<in> set xs. maxIndex n < k" using max_below assms(2) by simp
    with New show ?thesis using assms(3) by (auto simp: apart_append apart_Cons)
  next
    case (Left xs n ys)
    then have "\<forall>n \<in> set xs. maxIndex n < k" using max_below assms(2) by simp
    with Left show ?thesis using assms(3) by (auto simp: apart_append apart_Cons)
  next
    case (Join xs p n ys)
    then show ?thesis using assms(3) by (auto simp: apart_append apart_Cons)
  qed
qed

text \<open>The sum of the lengths.\<close>

definition lengths :: "range_node list \<Rightarrow> nat" where
  "lengths ns = sum_list (map (\<lambda>n. unat (maxIndex n - minIndex n + 1)) ns)"

lemma RangeSum_lengths:
  assumes "rlist_ok l"
  shows "RangeSum l = Inr (w32 (lengths (items l)))"
proof -
  have run: "foldE (\<lambda>i sum. rbind (List_Get i l) (\<lambda>n. Inr (w32 (sum + unat (maxIndex n - minIndex n + 1)))))
      [0..<m] 0 = Inr (w32 (lengths (take m (items l))))" if "m \<le> length (items l)" for m
    using that
  proof (induction m)
    case (Suc m)
    then have "foldE (\<lambda>i sum. rbind (List_Get i l) (\<lambda>n. Inr (w32 (sum + unat (maxIndex n - minIndex n + 1)))))
        [0..<m] 0 = Inr (w32 (lengths (take m (items l))))" by simp
    moreover have "List_Get m l = Inr (items l ! m)" using Get_ok [OF assms] Suc.prems by simp
    ultimately show ?case using Suc.prems
      by (simp add: foldE_append lengths_def take_Suc_conv_app_nth w32_def mod_add_left_eq)
  qed (simp add: lengths_def)
  show ?thesis using run [of "length (items l)"] length_items [OF assms] by (simp add: RangeSum_def List_Size_def)
qed

lemma card_interval:
  assumes "(a :: u24) \<le> b" "{a..b} \<noteq> UNIV"
  shows "card {a..b} = unat (b - a + 1)"
proof -
  have le: "unat a \<le> unat b" "unat b < 2 ^ 24"
    using assms(1) unsigned_less [of b] by (simp_all add: word_le_nat_alt)
  have "unat ` {a..b} = {unat a..unat b}"
  proof (rule set_eqI)
    fix x
    show "x \<in> unat ` {a..b} \<longleftrightarrow> x \<in> {unat a..unat b}"
    proof
      assume x: "x \<in> {unat a..unat b}"
      then have "unat (word_of_nat x :: u24) = x" using le by (simp add: unat_of_nat)
      then show "x \<in> unat ` {a..b}" using x by (intro image_eqI [of _ _ "word_of_nat x"]) (simp_all add: word_le_nat_alt)
    qed (auto simp: word_le_nat_alt)
  qed
  then have "card {a..b} = Suc (unat b - unat a)"
    using card_image [of unat "{a..b}"] le(1) by (simp add: inj_on_def word_unat_eq_iff Suc_diff_le)
  moreover have "unat (b - a) = unat b - unat a" using assms(1) by (rule unat_sub)
  moreover have "unat (b - a + 1) = Suc (unat (b - a))"
  proof -
    have "b - a + 1 \<noteq> 0"
    proof
      assume "b - a + 1 = 0"
      then have "b - a = - 1" by (simp add: eq_neg_iff_add_eq_0)
      then have "unat (b - a) = 2 ^ 24 - 1" by (simp add: unsigned_minus_1_eq_mask mask_eq_exp_minus_1)
      then have "unat a = 0" "unat b = 2 ^ 24 - 1" using \<open>unat (b - a) = unat b - unat a\<close> le by simp_all
      then have "{a..b} = UNIV" using unsigned_less [where 'b = 24 and 'a = nat]
        by (auto simp: word_le_nat_alt less_Suc_eq_le [symmetric])
      with assms(2) show False by simp
    qed
    then show ?thesis using unat_pred [of "b - a + 1"] by (simp add: unat_gt_0 [symmetric])
  qed
  ultimately show ?thesis by simp
qed

lemma card_numbers:
  assumes "ranges_good ns" "apart ns" "numbers ns \<noteq> UNIV"
  shows "lengths ns = card (numbers ns)"
  using assms
proof (induction ns)
  case (Cons n ns)
  then have "lengths ns = card (numbers ns)" by (auto simp: ranges_good_simps apart_Cons)
  moreover have "{minIndex n..maxIndex n} \<inter> numbers ns = {}"
    using Cons.prems(2) by (fastforce simp: apart_Cons numbers_def)
  moreover have "{minIndex n..maxIndex n} \<noteq> UNIV" using Cons.prems(3) by auto
  ultimately show ?case using Cons.prems(1) card_interval [of "minIndex n" "maxIndex n"]
    by (simp add: card_Un_disjoint lengths_def ranges_good_simps)
qed (simp add: lengths_def)

section \<open>Any number of insertions\<close>

lemma ranges_ok_good: "ranges_ok l \<longleftrightarrow> rlist_ok l \<and> ranges_good (items l)"
  by (simp add: ranges_ok_def ranges_good_def)

lemma key_zero: "ranges_good ns \<Longrightarrow> 0 \<in> minIndex ` set ns \<Longrightarrow> 0 \<in> numbers ns"
  by (auto simp: ranges_good_def numbers_def)

lemma Insert_step:
  assumes "ranges_ok l" "length (items l) < 1073741824" "k = 0 \<longrightarrow> 0 \<notin> minIndex ` set (items l)"
  obtains l' where "RL_Insert z k l = Inr l'" "ranges_ok l'" "items l' = ins_spec k (items l)"
    "numbers (items l') = insert k (numbers (items l))"
proof -
  have "runs_as (RL_Insert z k l) (ins_spec k (items l))" using assms by (intro Insert_runs_spec) auto
  then obtain l' where "RL_Insert z k l = Inr l'" "rlist_ok l'" "items l' = ins_spec k (items l)"
    by (rule runs_asE)
  moreover have "ranges_good (ins_spec k (items l)) \<and> numbers (ins_spec k (items l)) = insert k (numbers (items l))"
    using assms(1,3) by (intro ins_spec_good) (simp_all add: ranges_ok_good)
  ultimately show thesis using that [of l'] by (simp add: ranges_ok_good)
qed

lemma ranges_few:
  assumes "ranges_good ns"
  shows "length ns \<le> 16777216"
proof -
  have "distinct (map minIndex ns)"
    using assms by (simp add: ranges_good_def ascending_def strict_sorted_iff)
  then have "length ns = card (minIndex ` set ns)" using distinct_card by fastforce
  also have "\<dots> \<le> card (UNIV :: u24 set)" by (intro card_mono) simp_all
  also have "\<dots> = 16777216" by (simp add: card_word)
  finally show ?thesis .
qed

lemma inserts_ok:
  assumes "ranges_ok l" "apart (items l)" "distinct ks" "set ks \<inter> numbers (items l) = {}"
  shows "\<exists>l'. foldE (RL_Insert z) ks l = Inr l' \<and> ranges_ok l' \<and> apart (items l')
    \<and> numbers (items l') = set ks \<union> numbers (items l)"
  using assms
proof (induction ks arbitrary: l)
  case (Cons k ks)
  have good: "ranges_good (items l)" using Cons.prems(1) by (simp add: ranges_ok_good)
  have k: "k \<notin> numbers (items l)" using Cons.prems(4) by simp
  have "k = 0 \<longrightarrow> 0 \<notin> minIndex ` set (items l)" using key_zero [OF good] k by auto
  then obtain l1 where l1: "RL_Insert z k l = Inr l1" "ranges_ok l1" "items l1 = ins_spec k (items l)"
      "numbers (items l1) = insert k (numbers (items l))"
    using Insert_step [OF Cons.prems(1), of k z] ranges_few [OF good] by auto
  have "apart (items l1)" using ins_spec_apart [OF good k Cons.prems(2)] l1(3) by simp
  moreover have "distinct ks" "set ks \<inter> numbers (items l1) = {}" using Cons.prems(3,4) l1(4) by auto
  ultimately obtain l' where "foldE (RL_Insert z) ks l1 = Inr l'" "ranges_ok l'" "apart (items l')"
      "numbers (items l') = set ks \<union> numbers (items l1)"
    using Cons.IH [OF l1(2)] by blast
  then show ?case using l1 by auto
qed auto

text \<open>C27: A range list counts: after inserting any distinct datagram numbers, in any order, it covers exactly
  those numbers with ranges that have nothing in common, and \<open>RangeSum\<close> is how many they are (all \<open>2^24\<close>
  at once excepted, where the length of the one range wraps to 0).\<close>

theorem range_list_counts:
  assumes "distinct ks"
  shows "\<exists>l. foldE (RL_Insert z) ks List_new = Inr l \<and> numbers (items l) = set ks \<and> apart (items l)
    \<and> (set ks \<noteq> UNIV \<longrightarrow> RangeSum l = Inr (length ks))"
proof -
  have "ranges_ok (List_new :: ranges)" by (simp add: ranges_ok_good)
  then obtain l where l: "foldE (RL_Insert z) ks List_new = Inr l" "ranges_ok l" "apart (items l)"
      "numbers (items l) = set ks"
    using inserts_ok [of List_new ks z] assms by auto
  have "RangeSum l = Inr (length ks)" if "set ks \<noteq> UNIV"
  proof -
    have "lengths (items l) = card (set ks)"
      using card_numbers [of "items l"] l(2-4) that by (simp add: ranges_ok_good)
    then have n: "lengths (items l) = length ks" using assms by (simp add: distinct_card)
    have "card (set ks) \<le> card (UNIV :: u24 set)" by (intro card_mono) simp_all
    then have "length ks < 4294967296" using assms by (simp add: distinct_card card_word)
    then show ?thesis using RangeSum_lengths [of l] l(2) n by (simp add: ranges_ok_good)
  qed
  with l show ?thesis by blast
qed

theorem range_list_counts_witness:
  "\<exists>l. foldE (RL_Insert (RangeNode 0 0)) [5, 3, 4, 9] List_new = Inr l \<and> RangeSum l = Inr 4"
proof -
  have "(2 :: u24) \<notin> set [5, 3, 4, 9]" by simp
  then have "set [5, 3, 4, 9 :: u24] \<noteq> UNIV" by blast
  then show ?thesis using range_list_counts [of "[5, 3, 4, 9]" "RangeNode 0 0"] by auto
qed

lemma recount_inside:
  assumes "ranges_ok l" "items l = xs @ p # n # ys"
    "minIndex p < k" "k \<le> maxIndex p" "k < minIndex n" "k < minIndex n - 1"
  shows "\<exists>l'. RL_Insert z k l = Inr l' \<and> items l' = xs @ p # RangeNode k k # n # ys
    \<and> numbers (items l') = numbers (items l) \<and> RangeSum l' = Inr (w32 (lengths (items l) + 1))"
proof -
  have good: "ranges_good (items l)" using assms(1) by (simp add: ranges_ok_good)
  have "rank minIndex k (items l) = Suc (length xs)"
  proof (rule rank_at)
    show "minIndex (items l ! j) < k" if j: "j < Suc (length xs)" for j
    proof (cases "j = length xs")
      case False
      then have "items l ! j \<in> set xs" using j assms(2) by (simp add: nth_append)
      then have "minIndex (items l ! j) < minIndex p"
        using good assms(2) by (simp add: ranges_good_simps)
      then show ?thesis using assms(3) by (rule less_trans)
    qed (use assms(2,3) in simp)
    show "k \<le> minIndex (items l ! j)" if j: "Suc (length xs) \<le> j" "j < length (items l)" for j
    proof -
      have "items l ! j \<in> set (n # ys)" using j assms(2) by (auto simp: nth_append nth_Cons')
      then have "minIndex n \<le> minIndex (items l ! j)"
        using good assms(2) by (auto simp: ranges_good_simps)
      then show ?thesis using assms(5) by simp
    qed
  qed (use assms(2) in simp)
  then have spec: "ins_spec k (items l) = xs @ p # RangeNode k k # n # ys"
    using assms(2,6) by (simp add: ins_spec_def Let_def nth_append)
  have "k \<noteq> 0" using assms(3) by auto
  then obtain l' where l': "RL_Insert z k l = Inr l'" "ranges_ok l'" "items l' = ins_spec k (items l)"
      "numbers (items l') = insert k (numbers (items l))"
    using Insert_step [OF assms(1), of k z] ranges_few [OF good] by auto
  have "k \<in> numbers (items l)" using assms(2-4) by auto
  moreover have "lengths (items l') = lengths (items l) + 1" using l'(3) spec assms(2) by (simp add: lengths_def)
  ultimately show ?thesis
    using l' spec RangeSum_lengths [of l'] by (simp add: ranges_ok_good insert_absorb)
qed

lemma recount_zero:
  assumes "ranges_ok l" "items l = p # ns" "minIndex p = 0"
  shows "\<exists>l'. RL_Insert z 0 l = Inr l' \<and> items l' = RangeNode 0 0 # p # ns
    \<and> numbers (items l') = numbers (items l) \<and> \<not> ascending minIndex (items l')"
proof -
  note ok = ranges_okD [OF assms(1)]
  have good: "ranges_good (items l)" using assms(1) by (simp add: ranges_ok_good)
  have r: "rank minIndex 0 (items l) = 0" by (simp add: rank_def)
  have m: "(0 :: u24) < - 1" by (simp add: word_less_nat_alt unsigned_minus_1_eq_mask mask_eq_exp_minus_1)
  have n: "list_size l < 1073741824" using ranges_few [OF good] ok(4) by (simp add: List_Size_def)
  have get: "List_Get 0 l = Inr p" using Get_ok [OF ok(1), of 0] assms(2) by simp
  have "GetIndexFromKey RangeNodeComp 0 l = Inr (True, 0)"
    using rc.GetIndexFromKey_ok [OF ok(1,2), of 0] r assms(2,3) by (auto simp: image_iff)
  then have run: "RL_Insert z 0 l = List_Insert_at z (RangeNode 0 0) 0 l"
    using assms(2,3) ok(4) get m by (simp add: RL_Insert_def OL_InsertAtIndex_def)
  obtain l' where "RL_Insert z 0 l = Inr l'" "items l' = RangeNode 0 0 # p # ns"
    using Insert_at_runs [OF ok(1) n, of 0 z "RangeNode 0 0"] assms(2) run by (auto elim: runs_asE)
  moreover have "0 \<in> numbers (items l)" using assms(2,3) by simp
  ultimately show ?thesis using assms(2,3) by (auto simp: insert_absorb ascending_def)
qed

text \<open>Numbers that come again are counted again, although the set of numbers stays the same: a number inside
  a range becomes a range of its own when another range follows at a distance, and so does the number 0 in
  front of a range that begins with it, after which the list is no longer in strict order.\<close>

lemma range_list_recounts:
  assumes "ranges_ok l" "items l = xs @ p # n # ys"
  shows "(minIndex p < k \<and> k \<le> maxIndex p \<and> k < minIndex n \<and> k < minIndex n - 1 \<longrightarrow>
      (\<exists>l'. RL_Insert z k l = Inr l' \<and> items l' = xs @ p # RangeNode k k # n # ys
        \<and> numbers (items l') = numbers (items l) \<and> RangeSum l' = Inr (w32 (lengths (items l) + 1))))
    \<and> (xs = [] \<and> minIndex p = 0 \<longrightarrow>
      (\<exists>l'. RL_Insert z 0 l = Inr l' \<and> items l' = RangeNode 0 0 # p # n # ys
        \<and> numbers (items l') = numbers (items l) \<and> \<not> ascending minIndex (items l')))"
proof (intro conjI impI, goal_cases)
  case 1
  then show ?case using recount_inside [OF assms] by blast
next
  case 2
  then show ?case using recount_zero [OF assms(1), of p "n # ys"] assms(2) by simp
qed

end
