(* ===== verification/RakBits.thy ===== *)
theory RakBits
  imports RakMemory
begin

text \<open>
  \<open>RakNet::BitStream\<close> (\<^verbatim>\<open>BitStream.h\<close>), the format of every datagram: the templates that write and read values.
  The functions that move bits and the byte order of the host are in a source file outside the repository: they
  are the fields of a \<open>bit_lib\<close>, and \<open>bit_laws\<close> is what the comments of the header promise of them. A value of
  a type of \<open>n\<close> bytes is its memory, a list of \<open>n\<close> bytes in the byte order of the host; \<open>mem_of\<close> and \<open>mem_val\<close>
  convert unsigned integers. Arrays the code leaves uninitialised are arguments (\<open>junk\<close>).
\<close>

unbundle bit_operations_syntax

section \<open>Code\<close>

record bitstream =
  numberOfBitsUsed :: nat
  numberOfBitsAllocated :: nat
  readOffset :: nat
  bs_data :: bytes
  copyData :: bool

record bit_lib =
  WriteBits :: "bytes \<Rightarrow> nat \<Rightarrow> bool \<Rightarrow> bitstream \<Rightarrow> bitstream"
  ReadBits :: "bytes \<Rightarrow> nat \<Rightarrow> bool \<Rightarrow> bitstream \<Rightarrow> bool \<times> bytes \<times> bitstream"
  Write_bit :: "bool \<Rightarrow> bitstream \<Rightarrow> bitstream"                  \<comment> \<open>\<open>Write1\<close> and \<open>Write0\<close>\<close>
  AddBitsAndReallocate :: "nat \<Rightarrow> bitstream \<Rightarrow> bitstream"
  Write_stream :: "bitstream \<Rightarrow> nat \<Rightarrow> bitstream \<Rightarrow> bitstream"  \<comment> \<open>\<open>Write(BitStream*, BitSize_t)\<close>\<close>
  WriteCompressed_bits :: "bytes \<Rightarrow> nat \<Rightarrow> bool \<Rightarrow> bitstream \<Rightarrow> bitstream"
  ReadCompressed_bits :: "bytes \<Rightarrow> nat \<Rightarrow> bool \<Rightarrow> bitstream \<Rightarrow> bool \<times> bytes \<times> bitstream"
  ReverseBytes :: "bytes \<Rightarrow> bytes"
  NumberOfLeadingZeroes :: "nat \<Rightarrow> nat \<Rightarrow> nat"                 \<comment> \<open>of a type of so many bytes\<close>
  IsNetworkOrderInternal :: bool
  junk_bytes :: "nat \<Rightarrow> bytes"
  junk_bool :: bool

text \<open>The memory of an unsigned integer.\<close>

definition le_bytes :: "nat \<Rightarrow> nat \<Rightarrow> bytes" where
  "le_bytes n v = map (\<lambda>i. word_of_nat (v div 256 ^ i)) [0..<n]"

fun le_val :: "bytes \<Rightarrow> nat" where
  "le_val [] = 0"
| "le_val (b # bs) = unat b + 256 * le_val bs"

definition IsNetworkOrder :: "bit_lib \<Rightarrow> bool" where "IsNetworkOrder l = IsNetworkOrderInternal l"
definition IsBigEndian :: "bit_lib \<Rightarrow> bool" where "IsBigEndian l = IsNetworkOrder l"
definition DoEndianSwap :: "bit_lib \<Rightarrow> bool" where "DoEndianSwap l = (\<not> IsNetworkOrder l)"

definition mem_of :: "bit_lib \<Rightarrow> nat \<Rightarrow> nat \<Rightarrow> bytes" where
  "mem_of l n v = (if IsBigEndian l then rev (le_bytes n v) else le_bytes n v)"

definition mem_val :: "bit_lib \<Rightarrow> bytes \<Rightarrow> nat" where
  "mem_val l m = le_val (if IsBigEndian l then rev m else m)"

definition GetNumberOfBytesUsed :: "bitstream \<Rightarrow> nat" where
  "GetNumberOfBytesUsed s = w32 (numberOfBitsUsed s + 7) div 8"

definition GetNumberOfUnreadBits :: "bitstream \<Rightarrow> nat" where
  "GetNumberOfUnreadBits s = sub32 (numberOfBitsUsed s) (readOffset s)"

definition AlignWriteToByteBoundary :: "bitstream \<Rightarrow> bitstream" where
  "AlignWriteToByteBoundary s =
     s\<lparr>numberOfBitsUsed := w32 (numberOfBitsUsed s + (8 - ((dec32 (numberOfBitsUsed s) AND 7) + 1)))\<rparr>"

definition AlignReadToByteBoundary :: "bitstream \<Rightarrow> bitstream" where
  "AlignReadToByteBoundary s = s\<lparr>readOffset := w32 (readOffset s + (8 - ((dec32 (readOffset s) AND 7) + 1)))\<rparr>"

definition Write :: "bit_lib \<Rightarrow> bytes \<Rightarrow> bitstream \<Rightarrow> bitstream" where
  "Write l m s =
     (if length m = 1 then WriteBits l m (length m * 8) True s
      else if DoEndianSwap l then WriteBits l (ReverseBytes l m) (length m * 8) True s
      else WriteBits l m (length m * 8) True s)"

definition WritePtr :: "bit_lib \<Rightarrow> bytes option \<Rightarrow> bitstream \<Rightarrow> bitstream res" where
  "WritePtr l p s = (case p of None \<Rightarrow> Inl NullDeref | Some m \<Rightarrow> Inr (Write l m s))"

definition Read :: "bit_lib \<Rightarrow> bytes \<Rightarrow> bitstream \<Rightarrow> bool \<times> bytes \<times> bitstream" where
  "Read l m s =
     (if length m = 1 then ReadBits l m (length m * 8) True s
      else if DoEndianSwap l then
        (let (success, out, s1) = ReadBits l (junk_bytes l (length m)) (length m * 8) True s
         in if success then (True, ReverseBytes l out, s1) else (False, m, s1))
      else ReadBits l m (length m * 8) True s)"

definition Write_bool :: "bit_lib \<Rightarrow> bool \<Rightarrow> bitstream \<Rightarrow> bitstream" where
  "Write_bool l b s = (if b then Write_bit l True s else Write_bit l False s)"

definition Read_bool :: "bool \<Rightarrow> bitstream \<Rightarrow> (bool \<times> bool \<times> bitstream) res" where
  "Read_bool b s =
     (if numberOfBitsUsed s < w32 (readOffset s + 1) then Inr (False, b, s)
      else if length (bs_data s) \<le> readOffset s div 8 then Inl OutOfBounds
      else Inr (True, bs_data s ! (readOffset s div 8) AND drop_bit (readOffset s mod 8) 0x80 \<noteq> 0,
        s\<lparr>readOffset := w32 (readOffset s + 1)\<rparr>))"

text \<open>\<open>uint24_t\<close> is an \<open>unsigned int\<close> of which three bytes travel, on a byte boundary.\<close>

definition Write_u24 :: "bit_lib \<Rightarrow> 24 word \<Rightarrow> bitstream \<Rightarrow> bitstream res" where
  "Write_u24 l v s =
     (let s1 = AddBitsAndReallocate l 24 (AlignWriteToByteBoundary s);
          i = numberOfBitsUsed s1 div 8;
          m = mem_of l 4 (unat v);
          d = bs_data s1
      in if length d < i + 3 then Inl OutOfBounds
         else Inr (s1\<lparr>bs_data := if \<not> IsBigEndian l then d[i := m ! 0, i + 1 := m ! 1, i + 2 := m ! 2]
                                else d[i := m ! 3, i + 1 := m ! 2, i + 2 := m ! 1],
                      numberOfBitsUsed := w32 (numberOfBitsUsed s1 + 24)\<rparr>))"

definition Read_u24 :: "bit_lib \<Rightarrow> 24 word \<Rightarrow> bitstream \<Rightarrow> (bool \<times> 24 word \<times> bitstream) res" where
  "Read_u24 l v s =
     (let s1 = AlignReadToByteBoundary s; i = readOffset s1 div 8; d = bs_data s1
      in if numberOfBitsUsed s1 < w32 (readOffset s1 + 24) then Inr (False, v, s1)
         else if length d < i + 3 then Inl OutOfBounds
         else Inr (True,
           word_of_nat (mem_val l (if \<not> IsBigEndian l then [d ! i, d ! (i + 1), d ! (i + 2), 0]
                                   else [0, d ! (i + 2), d ! (i + 1), d ! i])),
           s1\<lparr>readOffset := w32 (readOffset s1 + 24)\<rparr>))"

text \<open>An address: version 4 is an address and a port in network order; others are not supported.\<close>

record sys_addr =
  ip_version :: u8
  s_addr :: bytes
  sin_port :: bytes

definition Write_addr :: "bit_lib \<Rightarrow> sys_addr \<Rightarrow> bitstream \<Rightarrow> bitstream" where
  "Write_addr l a s =
     (let s1 = Write l [ip_version a] s
      in if ip_version a = 4 then
           WriteBits l (sin_port a) 16 True (WriteBits l (map (\<lambda>b. NOT b) (s_addr a)) 32 True s1)
         else s1)"

definition Read_addr :: "bit_lib \<Rightarrow> sys_addr \<Rightarrow> bitstream \<Rightarrow> bool \<times> sys_addr \<times> bitstream" where
  "Read_addr l a s =
     (let (_, v, s1) = Read l (junk_bytes l 1) s
      in if v = [4] then
           let (_, b, s2) = ReadBits l (junk_bytes l 4) 32 True s1;
               (success, p, s3) = ReadBits l (sin_port a) 16 True s2
           in (success, \<lparr>ip_version = 4, s_addr = map (\<lambda>b. NOT b) b, sin_port = p\<rparr>, s3)
         else (False, a, s1))"

text \<open>A value that may be what the receiver has already; \<open>wr\<close> and \<open>rd\<close> are \<open>Write\<close> and \<open>Read\<close>, or the compressed ones.\<close>

definition WriteDelta :: "bit_lib \<Rightarrow> ('a \<Rightarrow> bitstream \<Rightarrow> bitstream) \<Rightarrow> 'a \<Rightarrow> 'a \<Rightarrow> bitstream \<Rightarrow> bitstream" where
  "WriteDelta l wr currentValue lastValue s =
     (if currentValue = lastValue then Write_bool l False s
      else wr currentValue (Write_bool l True s))"

definition WriteDelta_always :: "bit_lib \<Rightarrow> ('a \<Rightarrow> bitstream \<Rightarrow> bitstream) \<Rightarrow> 'a \<Rightarrow> bitstream \<Rightarrow> bitstream" where
  "WriteDelta_always l wr currentValue s = wr currentValue (Write_bool l True s)"

definition ReadDelta ::
  "bit_lib \<Rightarrow> ('a \<Rightarrow> bitstream \<Rightarrow> bool \<times> 'a \<times> bitstream) \<Rightarrow> 'a \<Rightarrow> bitstream \<Rightarrow> (bool \<times> 'a \<times> bitstream) res" where
  "ReadDelta l rd x s =
     rbind (Read_bool (junk_bool l) s) (\<lambda>(success, dataWritten, s1).
     Inr (if dataWritten then rd x s1 else (success, x, s1)))"

definition WriteCompressed :: "bit_lib \<Rightarrow> bytes \<Rightarrow> bitstream \<Rightarrow> bitstream" where
  "WriteCompressed l m s =
     (if length m = 1 then WriteCompressed_bits l m (length m * 8) True s
      else if DoEndianSwap l then WriteCompressed_bits l (ReverseBytes l m) (length m * 8) True s
      else WriteCompressed_bits l m (length m * 8) True s)"

definition ReadCompressed :: "bit_lib \<Rightarrow> bytes \<Rightarrow> bitstream \<Rightarrow> bool \<times> bytes \<times> bitstream" where
  "ReadCompressed l m s =
     (if length m = 1 then ReadCompressed_bits l m (length m * 8) True s
      else if DoEndianSwap l then
        (let (success, out, s1) = ReadCompressed_bits l (junk_bytes l (length m)) (length m * 8) True s
         in if success then (True, ReverseBytes l out, s1) else (False, m, s1))
      else ReadCompressed_bits l m (length m * 8) True s)"

definition WriteCompressedDelta :: "bit_lib \<Rightarrow> bytes \<Rightarrow> bytes \<Rightarrow> bitstream \<Rightarrow> bitstream" where
  "WriteCompressedDelta l = WriteDelta l (WriteCompressed l)"

definition ReadCompressedDelta :: "bit_lib \<Rightarrow> bytes \<Rightarrow> bitstream \<Rightarrow> (bool \<times> bytes \<times> bitstream) res" where
  "ReadCompressedDelta l = ReadDelta l (ReadCompressed l)"

text \<open>An unsigned integer of \<open>n\<close> bytes between two bounds, in as many bits as the distance of the bounds needs.\<close>

definition requiredBits :: "bit_lib \<Rightarrow> nat \<Rightarrow> nat \<Rightarrow> nat \<Rightarrow> nat" where
  "requiredBits l n minimum maximum =
     n * 8 - NumberOfLeadingZeroes l n ((maximum + (256 ^ n - minimum)) mod 256 ^ n)"

definition WriteBitsFromIntegerRange ::
  "bit_lib \<Rightarrow> nat \<Rightarrow> nat \<Rightarrow> nat \<Rightarrow> nat \<Rightarrow> nat \<Rightarrow> bool \<Rightarrow> bitstream \<Rightarrow> bitstream" where
  "WriteBitsFromIntegerRange l n v minimum maximum bits allowOutsideRange s =
     (let write_off = (\<lambda>s. let m = mem_of l n ((v + (256 ^ n - minimum)) mod 256 ^ n)
                           in WriteBits l (if IsBigEndian l then ReverseBytes l m else m) bits True s)
      in if allowOutsideRange then
           if v < minimum \<or> maximum < v then Write l (mem_of l n v) (Write_bool l True s)
           else write_off (Write_bool l False s)
         else write_off s)"

definition ReadBitsFromIntegerRange ::
  "bit_lib \<Rightarrow> nat \<Rightarrow> nat \<Rightarrow> nat \<Rightarrow> nat \<Rightarrow> bool \<Rightarrow> bitstream \<Rightarrow> (bool \<times> nat \<times> bitstream) res" where
  "ReadBitsFromIntegerRange l n v minimum bits allowOutsideRange s =
     (let read_off = (\<lambda>s. let (success, out, s1) = ReadBits l (replicate n 0) bits True s
                          in if success then
                               (True, (mem_val l (if IsBigEndian l then ReverseBytes l out else out) + minimum) mod 256 ^ n, s1)
                             else (False, v, s1))
      in if allowOutsideRange then
           rbind (Read_bool (junk_bool l) s) (\<lambda>(_, isOutsideRange, s1).
           Inr (if isOutsideRange then
                  let (success, m, s2) = Read l (mem_of l n v) s1 in (success, mem_val l m, s2)
                else read_off s1))
         else Inr (read_off s))"

text \<open>The overloads that compute the number of bits.\<close>

definition WriteIntegerRange :: "bit_lib \<Rightarrow> nat \<Rightarrow> nat \<Rightarrow> nat \<Rightarrow> nat \<Rightarrow> bool \<Rightarrow> bitstream \<Rightarrow> bitstream" where
  "WriteIntegerRange l n v minimum maximum allowOutsideRange =
     WriteBitsFromIntegerRange l n v minimum maximum (requiredBits l n minimum maximum) allowOutsideRange"

definition ReadIntegerRange :: "bit_lib \<Rightarrow> nat \<Rightarrow> nat \<Rightarrow> nat \<Rightarrow> nat \<Rightarrow> bool \<Rightarrow> bitstream \<Rightarrow> (bool \<times> nat \<times> bitstream) res" where
  "ReadIntegerRange l n v minimum maximum allowOutsideRange =
     ReadBitsFromIntegerRange l n v minimum (requiredBits l n minimum maximum) allowOutsideRange"

text \<open>The \<open>Serialize\<close> functions are one function for both directions.\<close>

definition Serialize ::
  "('a \<Rightarrow> bitstream \<Rightarrow> bitstream) \<Rightarrow> ('a \<Rightarrow> bitstream \<Rightarrow> bool \<times> 'a \<times> bitstream) \<Rightarrow> bool \<Rightarrow> 'a \<Rightarrow> bitstream
    \<Rightarrow> bool \<times> 'a \<times> bitstream" where
  "Serialize wr rd writeToBitstream x s = (if writeToBitstream then (True, x, wr x s) else rd x s)"


section \<open>Bits of bytes\<close>

definition byte_bits :: "u8 \<Rightarrow> bool list" where
  "byte_bits b = rev (map (bit b) [0..<8])"

definition bits_of :: "bytes \<Rightarrow> bool list" where
  "bits_of xs = concat (map byte_bits xs)"

definition of_byte :: "bool list \<Rightarrow> u8" where
  "of_byte bs = horner_sum of_bool 2 (rev bs)"

lemma length_byte_bits [simp]: "length (byte_bits b) = 8"
  by (simp add: byte_bits_def)

lemma of_byte_bits [simp]: "of_byte (byte_bits b) = b"
  by (simp add: of_byte_def byte_bits_def horner_sum_bit_eq_take_bit take_bit_word_eq_self)

lemma byte_bits_of [simp]: "length bs = 8 \<Longrightarrow> byte_bits (of_byte bs) = bs"
  by (rule nth_equalityI) (auto simp: byte_bits_def of_byte_def rev_nth bit_horner_sum_bit_word_iff)

lemma bits_of_simps [simp]: "bits_of [] = []" "bits_of (b # xs) = byte_bits b @ bits_of xs"
    "bits_of (xs @ ys) = bits_of xs @ bits_of ys"
  by (simp_all add: bits_of_def)

lemma length_bits_of [simp]: "length (bits_of xs) = 8 * length xs"
  by (induction xs) simp_all

lemma byte_bits_inj [simp]: "byte_bits a = byte_bits b \<longleftrightarrow> a = b"
  by (metis of_byte_bits)

lemma bits_of_inj: "length xs = length ys \<Longrightarrow> bits_of xs = bits_of ys \<Longrightarrow> xs = ys"
  by (induction xs ys rule: list_induct2) simp_all

lemma drop_bits_of: "drop (8 * k) (bits_of xs) = bits_of (drop k xs)"
proof (induction xs arbitrary: k)
  case (Cons a xs)
  then show ?case by (cases k) simp_all
qed simp

lemma take_bits_of: "take (8 * k) (bits_of xs) = bits_of (take k xs)"
proof (induction xs arbitrary: k)
  case (Cons a xs)
  then show ?case by (cases k) simp_all
qed simp

lemma nth_bits_of: "k < 8 * length xs \<Longrightarrow> bits_of xs ! k = bit (xs ! (k div 8)) (7 - k mod 8)"
proof (induction xs arbitrary: k)
  case (Cons a xs)
  show ?case
  proof (cases "k < 8")
    case True
    then show ?thesis by (simp add: nth_append byte_bits_def rev_nth)
  next
    case False
    then have "bits_of (a # xs) ! k = bits_of xs ! (k - 8)" by (simp add: nth_append)
    moreover have "k div 8 = Suc ((k - 8) div 8)" "k mod 8 = (k - 8) mod 8"
      using False by (simp_all add: le_div_geq le_mod_geq)
    ultimately show ?thesis using Cons.IH [of "k - 8"] Cons.prems False by simp
  qed
qed simp

text \<open>The test of \<open>Read(bool)\<close>.\<close>

lemma and_one_bit: "k < 8 \<Longrightarrow> (b AND drop_bit k 0x80 \<noteq> 0) = bit b (7 - k)" for b :: u8
proof -
  assume "k < 8"
  have e: "(0x80 :: u8) = push_bit 7 1" by (simp add: push_bit_of_1)
  have "drop_bit k (push_bit 7 1 :: u8) = push_bit (7 - k) 1"
  proof (rule bit_word_eqI)
    fix n assume "n < LENGTH(8)"
    then show "bit (drop_bit k (push_bit 7 1 :: u8)) n = bit (push_bit (7 - k) 1 :: u8) n"
      using \<open>k < 8\<close> unfolding bit_drop_bit_eq comp_def bit_push_bit_iff bit_1_iff by auto
  qed
  then show ?thesis unfolding e by (simp add: bit_iff_and_push_bit_not_eq_0)
qed


text \<open>Unsigned integers and their bytes.\<close>

lemma length_le_bytes [simp]: "length (le_bytes n v) = n"
  by (simp add: le_bytes_def)

lemma le_bytes_Suc: "le_bytes (Suc n) v = word_of_nat v # le_bytes n (v div 256)"
proof -
  have "[0..<Suc n] = 0 # map Suc [0..<n]" by (simp add: map_Suc_upt upt_conv_Cons del: upt_Suc)
  then show ?thesis by (simp add: le_bytes_def div_mult2_eq)
qed

lemma le_val_bytes: "le_val (le_bytes n v) = v mod 256 ^ n"
proof (induction n arbitrary: v)
  case (Suc n)
  have "unat (word_of_nat v :: u8) = v mod 256" by (simp add: unat_of_nat)
  then show ?case by (simp add: le_bytes_Suc Suc.IH mod_mult2_eq)
qed (simp add: le_bytes_def)

lemma le_val_bytes_id [simp]: "v < 256 ^ n \<Longrightarrow> le_val (le_bytes n v) = v"
  by (simp add: le_val_bytes)

lemma mem_val_of [simp]: "v < 256 ^ n \<Longrightarrow> mem_val l (mem_of l n v) = v"
  by (simp add: mem_val_def mem_of_def)

lemma length_mem_of [simp]: "length (mem_of l n v) = n"
  by (simp add: mem_of_def)

section \<open>What the bit functions do\<close>

text \<open>The bits written so far, in the order in which they are read.\<close>

definition content :: "bitstream \<Rightarrow> bool list" where
  "content s = take (numberOfBitsUsed s) (bits_of (bs_data s))"

definition stream_ok :: "bitstream \<Rightarrow> bool" where
  "stream_ok s \<longleftrightarrow> numberOfBitsUsed s \<le> 8 * length (bs_data s) \<and> numberOfBitsUsed s < 2147483648"

lemma length_content: "stream_ok s \<Longrightarrow> length (content s) = numberOfBitsUsed s"
  by (simp add: content_def stream_ok_def)

text \<open>The first \<open>n\<close> bits of an array; those of a last incomplete byte are its low bits if \<open>right\<close> aligned.\<close>

definition packed :: "bytes \<Rightarrow> nat \<Rightarrow> bool \<Rightarrow> bool list" where
  "packed m n right =
     (if right then bits_of (take (n div 8) m)
        @ (if n mod 8 = 0 then [] else drop (8 - n mod 8) (byte_bits (m ! (n div 8))))
      else take n (bits_of m))"

definition appends :: "bitstream \<Rightarrow> bitstream \<Rightarrow> bool list \<Rightarrow> bool" where
  "appends s s' bs \<longleftrightarrow> stream_ok s' \<and> content s' = content s @ bs \<and> readOffset s' = readOffset s"

definition skip :: "nat \<Rightarrow> bitstream \<Rightarrow> bitstream" where
  "skip n s = s\<lparr>readOffset := readOffset s + n\<rparr>"

definition write_laws :: "bit_lib \<Rightarrow> bool" where
  "write_laws l \<longleftrightarrow>
     (\<forall>s m n r. stream_ok s \<longrightarrow> 0 < n \<longrightarrow> n \<le> 8 * length m \<longrightarrow> numberOfBitsUsed s + n < 2147483648 \<longrightarrow>
        appends s (WriteBits l m n r s) (packed m n r))
     \<and> (\<forall>s b. stream_ok s \<longrightarrow> numberOfBitsUsed s + 1 < 2147483648 \<longrightarrow> appends s (Write_bit l b s) [b])
     \<and> (\<forall>s n. stream_ok s \<longrightarrow> numberOfBitsUsed s + n < 2147483648 \<longrightarrow>
        appends s (AddBitsAndReallocate l n s) []
        \<and> numberOfBitsUsed s + n \<le> 8 * length (bs_data (AddBitsAndReallocate l n s)))
     \<and> (\<forall>s src n. stream_ok s \<longrightarrow> stream_ok src \<longrightarrow> readOffset src + n \<le> numberOfBitsUsed src \<longrightarrow>
          numberOfBitsUsed s + n < 2147483648 \<longrightarrow>
        appends s (Write_stream l src n s) (take n (drop (readOffset src) (content src))))"

text \<open>A successful read leaves the high bits of an incomplete byte 0 and the bytes behind it alone.\<close>

definition read_laws :: "bit_lib \<Rightarrow> bool" where
  "read_laws l \<longleftrightarrow>
     (\<forall>s m n. stream_ok s \<longrightarrow> 0 < n \<longrightarrow> n \<le> 8 * length m \<longrightarrow> readOffset s + n \<le> numberOfBitsUsed s \<longrightarrow>
        (\<exists>m'. ReadBits l m n True s = (True, m', skip n s) \<and> length m' = length m
          \<and> packed m' n True = take n (drop (readOffset s) (content s))
          \<and> (\<forall>i. n div 8 + (if n mod 8 = 0 then 0 else 1) \<le> i \<and> i < length m \<longrightarrow> m' ! i = m ! i)
          \<and> (n mod 8 \<noteq> 0 \<longrightarrow> unat (m' ! (n div 8)) < 2 ^ (n mod 8))))
     \<and> (\<forall>s m n. stream_ok s \<longrightarrow> 0 < n \<longrightarrow> readOffset s \<le> numberOfBitsUsed s \<longrightarrow> numberOfBitsUsed s < readOffset s + n \<longrightarrow>
        (\<exists>m'. ReadBits l m n True s = (False, m', s)))"

definition byte_laws :: "bit_lib \<Rightarrow> bool" where
  "byte_laws l \<longleftrightarrow>
     (\<forall>m. ReverseBytes l m = rev m) \<and> (\<forall>n. length (junk_bytes l n) = n)
     \<and> (\<forall>n v. 0 < n \<longrightarrow> v < 256 ^ n \<longrightarrow> NumberOfLeadingZeroes l n v \<le> 8 * n
          \<and> v < 2 ^ (8 * n - NumberOfLeadingZeroes l n v)
          \<and> (0 < v \<longrightarrow> NumberOfLeadingZeroes l n v < 8 * n \<and> 2 ^ (8 * n - Suc (NumberOfLeadingZeroes l n v)) \<le> v))"

definition bit_laws :: "bit_lib \<Rightarrow> bool" where
  "bit_laws l \<longleftrightarrow> write_laws l \<and> read_laws l \<and> byte_laws l"

lemma write_lawsD:
  assumes "bit_laws l" "stream_ok s" "numberOfBitsUsed s + n < 2147483648"
  shows "0 < n \<Longrightarrow> n \<le> 8 * length m \<Longrightarrow> appends s (WriteBits l m n r s) (packed m n r)"
    "n = 1 \<Longrightarrow> appends s (Write_bit l b s) [b]"
    "appends s (AddBitsAndReallocate l n s) []"
    "numberOfBitsUsed s + n \<le> 8 * length (bs_data (AddBitsAndReallocate l n s))"
    "stream_ok src \<Longrightarrow> readOffset src + n \<le> numberOfBitsUsed src \<Longrightarrow>
      appends s (Write_stream l src n s) (take n (drop (readOffset src) (content src)))"
proof -
  note w = assms(1) [unfolded bit_laws_def write_laws_def]
  show "0 < n \<Longrightarrow> n \<le> 8 * length m \<Longrightarrow> appends s (WriteBits l m n r s) (packed m n r)" using w assms(2,3) by simp
  show "n = 1 \<Longrightarrow> appends s (Write_bit l b s) [b]" using w assms(2,3) by simp
  show "appends s (AddBitsAndReallocate l n s) []" using w assms(2,3) by simp
  show "numberOfBitsUsed s + n \<le> 8 * length (bs_data (AddBitsAndReallocate l n s))" using w assms(2,3) by simp
  show "stream_ok src \<Longrightarrow> readOffset src + n \<le> numberOfBitsUsed src \<Longrightarrow>
      appends s (Write_stream l src n s) (take n (drop (readOffset src) (content src)))" using w assms(2,3) by simp
qed

lemma ReadBits_law:
  assumes "bit_laws l" "stream_ok s" "0 < n" "n \<le> 8 * length m" "readOffset s + n \<le> numberOfBitsUsed s"
  shows "\<exists>m'. ReadBits l m n True s = (True, m', skip n s) \<and> length m' = length m
          \<and> packed m' n True = take n (drop (readOffset s) (content s))
          \<and> (\<forall>i. n div 8 + (if n mod 8 = 0 then 0 else 1) \<le> i \<and> i < length m \<longrightarrow> m' ! i = m ! i)
          \<and> (n mod 8 \<noteq> 0 \<longrightarrow> unat (m' ! (n div 8)) < 2 ^ (n mod 8))"
  using assms(1) [unfolded bit_laws_def read_laws_def, THEN conjunct2, THEN conjunct1, THEN conjunct1] assms(2-) by simp

lemma ReadBits_short:
  assumes "bit_laws l" "stream_ok s" "0 < n" "readOffset s \<le> numberOfBitsUsed s" "numberOfBitsUsed s < readOffset s + n"
  shows "\<exists>m'. ReadBits l m n True s = (False, m', s)"
  using assms(1) [unfolded bit_laws_def read_laws_def, THEN conjunct2, THEN conjunct1, THEN conjunct2] assms(2-) by simp

lemma byte_lawsD:
  assumes "bit_laws l"
  shows "ReverseBytes l m = rev m" "length (junk_bytes l n) = n"
    "0 < n \<Longrightarrow> v < 256 ^ n \<Longrightarrow> NumberOfLeadingZeroes l n v \<le> 8 * n"
    "0 < n \<Longrightarrow> v < 256 ^ n \<Longrightarrow> v < 2 ^ (8 * n - NumberOfLeadingZeroes l n v)"
    "0 < n \<Longrightarrow> v < 256 ^ n \<Longrightarrow> 0 < v \<Longrightarrow> NumberOfLeadingZeroes l n v < 8 * n"
    "0 < n \<Longrightarrow> v < 256 ^ n \<Longrightarrow> 0 < v \<Longrightarrow> 2 ^ (8 * n - Suc (NumberOfLeadingZeroes l n v)) \<le> v"
  using assms by (simp_all add: bit_laws_def byte_laws_def)


lemma appends_trans: "appends s s1 bs \<Longrightarrow> appends s1 s2 cs \<Longrightarrow> appends s s2 (bs @ cs)"
  by (simp add: appends_def)

lemma appends_ok: "appends s s' bs \<Longrightarrow> stream_ok s'"
  by (simp add: appends_def)

lemma appends_used: "stream_ok s \<Longrightarrow> appends s s' bs \<Longrightarrow> numberOfBitsUsed s' = numberOfBitsUsed s + length bs"
  using length_content [of s] length_content [of s'] by (simp add: appends_def)

text \<open>A reader that has read \<open>pre\<close> and has \<open>rest\<close> in front of it.\<close>

definition reads_on :: "bitstream \<Rightarrow> bool list \<Rightarrow> bool list \<Rightarrow> bool" where
  "reads_on r pre rest \<longleftrightarrow> stream_ok r \<and> content r = pre @ rest \<and> readOffset r = length pre"

lemma reads_on_skip: "reads_on r pre (bs @ rest) \<Longrightarrow> n = length bs \<Longrightarrow> reads_on (skip n r) (pre @ bs) rest"
  by (simp add: reads_on_def skip_def stream_ok_def content_def)

lemma reads_on_room:
  assumes "reads_on r pre rest"
  shows "numberOfBitsUsed r = length pre + length rest" "length pre + length rest < 2147483648"
    "readOffset r = length pre" "stream_ok r"
proof -
  show 1: "numberOfBitsUsed r = length pre + length rest"
    using assms length_content [of r] by (simp add: reads_on_def)
  show "length pre + length rest < 2147483648" using assms 1 by (simp add: reads_on_def stream_ok_def)
qed (use assms in \<open>simp_all add: reads_on_def\<close>)

section \<open>Typed reading and writing\<close>

text \<open>An integer travels in network order.\<close>

definition wire :: "nat \<Rightarrow> nat \<Rightarrow> bool list" where
  "wire n v = bits_of (rev (le_bytes n v))"

lemma length_wire [simp]: "length (wire n v) = 8 * n"
  by (simp add: wire_def)

lemma packed_whole: "packed m (length m * 8) True = bits_of m"
  by (simp add: packed_def)

lemma le_bytes_one: "rev (le_bytes (Suc 0) v) = le_bytes (Suc 0) v"
  by (simp add: le_bytes_def)

lemma Write_ok:
  assumes "bit_laws l" "stream_ok s" "0 < n" "numberOfBitsUsed s + 8 * n < 2147483648"
  shows "appends s (Write l (mem_of l n v) s) (wire n v)"
proof -
  have w: "appends s (WriteBits l m (n * 8) True s) (bits_of m)" if "length m = n" for m
    using write_lawsD(1) [OF assms(1,2), of "n * 8" m True] assms(3,4) that packed_whole [of m] by (simp add: mult.commute)
  show ?thesis
  proof (cases "n = 1")
    case True
    then show ?thesis using w [of "le_bytes 1 v"]
      by (simp add: Write_def mem_of_def wire_def le_bytes_one)
  next
    case False
    then show ?thesis using w [of "rev (le_bytes n v)"] byte_lawsD(1) [OF assms(1)]
      by (simp add: Write_def mem_of_def wire_def DoEndianSwap_def IsBigEndian_def)
  qed
qed

lemma Read_ok:
  assumes "bit_laws l" "reads_on r pre (wire n v @ rest)" "0 < n" "length m = n"
  shows "Read l m r = (True, mem_of l n v, skip (8 * n) r)"
proof -
  note room = reads_on_room [OF assms(2)]
  have rd: "ReadBits l m' (n * 8) True r = (True, rev (le_bytes n v), skip (8 * n) r)" if len: "length m' = n" for m'
  proof -
    obtain x where x: "ReadBits l m' (n * 8) True r = (True, x, skip (n * 8) r)" "length x = n"
        "packed x (n * 8) True = take (n * 8) (drop (readOffset r) (content r))"
      using ReadBits_law [OF assms(1) room(4), of "n * 8" m'] assms(3) len room by auto
    moreover have "take (n * 8) (drop (readOffset r) (content r)) = wire n v"
      using assms(2) by (simp add: reads_on_def mult.commute)
    ultimately have "bits_of x = bits_of (rev (le_bytes n v))" using packed_whole [of x] by (simp add: wire_def)
    then have "x = rev (le_bytes n v)" using x(2) by (intro bits_of_inj) simp_all
    then show ?thesis using x(1) by (simp add: mult.commute)
  qed
  show ?thesis
  proof (cases "n = 1")
    case True
    then show ?thesis using rd [OF assms(4)] assms(4) by (simp add: Read_def mem_of_def le_bytes_one)
  next
    case False
    then show ?thesis using rd [OF assms(4)] rd [of "junk_bytes l n"] assms(4) byte_lawsD(1,2) [OF assms(1)]
      by (simp add: Read_def mem_of_def DoEndianSwap_def IsBigEndian_def)
  qed
qed

lemma Read_short:
  assumes "bit_laws l" "reads_on r pre rest" "length rest < 8 * n" "length m = n"
  shows "\<exists>m'. Read l m r = (False, m', r)"
proof -
  note room = reads_on_room [OF assms(2)]
  have rd: "\<exists>x. ReadBits l m' (n * 8) True r = (False, x, r)" for m'
    using ReadBits_short [OF assms(1) room(4), of "n * 8" m'] room assms(3) by auto
  show ?thesis using rd [of m] rd [of "junk_bytes l n"] assms(4) by (auto simp: Read_def)
qed

text \<open>Single bits.\<close>

lemma Write_bool_ok:
  assumes "bit_laws l" "stream_ok s" "numberOfBitsUsed s + 1 < 2147483648"
  shows "appends s (Write_bool l b s) [b]"
  using write_lawsD(2) [OF assms] by (simp add: Write_bool_def)

lemma Read_bool_ok:
  assumes "reads_on r pre (b # rest)"
  shows "Read_bool x r = Inr (True, b, skip 1 r)"
proof -
  note room = reads_on_room [OF assms]
  let ?k = "length pre"
  have k: "?k < numberOfBitsUsed r" "numberOfBitsUsed r \<le> 8 * length (bs_data r)"
    using room by (simp_all add: stream_ok_def)
  have "content r ! ?k = b" using assms by (simp add: reads_on_def)
  then have "bits_of (bs_data r) ! ?k = b" using k by (simp add: content_def)
  then have "bit (bs_data r ! (?k div 8)) (7 - ?k mod 8) = b" using nth_bits_of [of ?k "bs_data r"] k by simp
  moreover have "?k div 8 < length (bs_data r)" using k by (simp add: less_mult_imp_div_less mult.commute)
  moreover have "?k + 1 < 4294967296" using k room(1,2) by simp
  ultimately show ?thesis using k and_one_bit [of "?k mod 8" "bs_data r ! (?k div 8)"] room(3)
    by (simp add: Read_bool_def skip_def)
qed

lemma Read_bool_short: "reads_on r pre [] \<Longrightarrow> Read_bool x r = Inr (False, x, r)"
  using reads_on_room [of r pre "[]"] by (simp add: Read_bool_def)

text \<open>The byte boundary.\<close>

definition pad :: "nat \<Rightarrow> nat" where "pad n = (8 - n mod 8) mod 8"

lemma pad_aligns: "8 dvd n + pad n" "pad n < 8"
proof -
  have "(n + pad n) mod 8 = (n mod 8 + (8 - n mod 8)) mod 8" unfolding pad_def by (metis mod_add_left_eq mod_add_right_eq)
  also have "\<dots> = 0" by simp
  finally show "8 dvd n + pad n" by (simp add: dvd_eq_mod_eq_0)
qed (simp add: pad_def)

lemma align_nat:
  assumes "n < 4294967288"
  shows "w32 (n + (8 - ((dec32 n AND 7) + 1))) = n + pad n"
proof -
  have and7: "(k AND 7) = k mod 8" for k :: nat
    using take_bit_eq_mask [of 3 k] by (simp add: take_bit_eq_mod mask_eq_exp_minus_1)
  show ?thesis
  proof (cases "n = 0")
    case True
    then show ?thesis by (simp add: and7 MAX_UNSIGNED_LONG_def pad_def)
  next
    case False
    then have "dec32 n = n - 1" using assms by (simp add: dec32_pos)
    moreover have "8 - ((n - 1) mod 8 + 1) = pad n"
    proof -
      define q where "q = (n - 1) div 8"
      define t where "t = (n - 1) mod 8"
      have "n = 8 * q + t + 1" "t < 8" using False unfolding q_def t_def by simp_all
      then have "n mod 8 = (t + 1) mod 8" by (simp add: mod_simps)
      then show ?thesis using \<open>t < 8\<close> unfolding pad_def t_def [symmetric] by (cases "t = 7") simp_all
    qed
    moreover have "n + pad n < 4294967296" using assms pad_aligns(2) [of n] by linarith
    ultimately show ?thesis by (simp add: and7)
  qed
qed

lemma AlignWrite_ok:
  assumes "stream_ok s" "numberOfBitsUsed s + 8 \<le> 2147483648"
  shows "\<exists>bs. appends s (AlignWriteToByteBoundary s) bs \<and> length bs = pad (numberOfBitsUsed s)"
proof -
  let ?u = "numberOfBitsUsed s"
  have u: "?u \<le> 8 * length (bs_data s)" using assms(1) by (simp add: stream_ok_def)
  obtain k where k: "?u + pad ?u = 8 * k" using pad_aligns(1) [of ?u] by (auto elim: dvdE)
  have "8 * k < 8 * length (bs_data s) + 8" using u k pad_aligns(2) [of ?u] by linarith
  then have le: "?u + pad ?u \<le> 8 * length (bs_data s)" using k by presburger
  have e: "AlignWriteToByteBoundary s = s\<lparr>numberOfBitsUsed := ?u + pad ?u\<rparr>"
    using align_nat [of ?u] assms(2) by (simp add: AlignWriteToByteBoundary_def)
  have "content (AlignWriteToByteBoundary s) = content s @ take (pad ?u) (drop ?u (bits_of (bs_data s)))"
    by (simp add: e content_def take_add)
  moreover have "length (take (pad ?u) (drop ?u (bits_of (bs_data s)))) = pad ?u" using le by simp
  moreover have "stream_ok (AlignWriteToByteBoundary s)"
    using le assms(2) pad_aligns(2) [of ?u] by (simp add: e stream_ok_def)
  ultimately show ?thesis by (intro exI [of _ "take (pad ?u) (drop ?u (bits_of (bs_data s)))"]) (simp add: appends_def e)
qed

lemma AlignRead_ok:
  assumes "reads_on r pre (bs @ rest)" "length bs = pad (length pre)" "length pre + 8 \<le> 2147483648"
  shows "AlignReadToByteBoundary r = skip (length bs) r" "reads_on (AlignReadToByteBoundary r) (pre @ bs) rest"
proof -
  show "AlignReadToByteBoundary r = skip (length bs) r"
    using align_nat [of "length pre"] assms(2,3) reads_on_room(3) [OF assms(1)]
    by (simp add: AlignReadToByteBoundary_def skip_def)
  then show "reads_on (AlignReadToByteBoundary r) (pre @ bs) rest" using reads_on_skip [OF assms(1)] by simp
qed


text \<open>24-bit numbers: their three bytes, the lowest first, on any host.\<close>

lemma mem_four: "mem_of l 4 v = (if IsBigEndian l then rev (le_bytes 4 v) else le_bytes 4 v)"
  by (simp add: mem_of_def)

lemma le_bytes_snoc: "le_bytes (Suc n) v = le_bytes n v @ [word_of_nat (v div 256 ^ n)]"
  by (simp add: le_bytes_def)

lemma le_bytes_four: "le_bytes 4 v = le_bytes 3 v @ [word_of_nat (v div 256 ^ 3)]"
  using le_bytes_snoc [of 3 v] by simp

lemma list_three: "length xs = 3 \<Longrightarrow> xs = [xs ! 0, xs ! 1, xs ! 2]"
  by (auto simp: numeral_3_eq_3 length_Suc_conv numeral_2_eq_2)

lemma le_bytes_three: "le_bytes 3 v = [le_bytes 3 v ! 0, le_bytes 3 v ! 1, le_bytes 3 v ! 2]"
  by (rule list_three) simp

lemma take_three_updates:
  "i + 3 \<le> length d \<Longrightarrow> take (i + 3) (d[i := a, i + 1 := b, i + 2 := c]) = take i d @ [a, b, c]"
  by (rule nth_equalityI) (auto simp: nth_append nth_list_update less_Suc_eq numeral_eq_Suc)

lemma Write_u24_ok:
  assumes "bit_laws l" "stream_ok s" "numberOfBitsUsed s + 32 < 2147483648"
  shows "\<exists>s' bs. Write_u24 l v s = Inr s' \<and> appends s s' (bs @ bits_of (le_bytes 3 (unat v)))
    \<and> length bs = pad (numberOfBitsUsed s)"
proof -
  obtain bs where a: "appends s (AlignWriteToByteBoundary s) bs" "length bs = pad (numberOfBitsUsed s)"
    using AlignWrite_ok [OF assms(2)] assms(3) by auto
  let ?s0 = "AlignWriteToByteBoundary s"
  let ?s1 = "AddBitsAndReallocate l 24 ?s0"
  have u0: "numberOfBitsUsed ?s0 = numberOfBitsUsed s + pad (numberOfBitsUsed s)"
    using appends_used [OF assms(2) a(1)] a(2) by simp
  have r0: "numberOfBitsUsed ?s0 + 24 < 2147483648"
    using u0 assms(3) pad_aligns(2) [of "numberOfBitsUsed s"] by linarith
  have s1: "appends ?s0 ?s1 []" "numberOfBitsUsed ?s0 + 24 \<le> 8 * length (bs_data ?s1)"
    using write_lawsD(3,4) [OF assms(1) appends_ok [OF a(1)] r0] by simp_all
  have u1: "numberOfBitsUsed ?s1 = numberOfBitsUsed ?s0" using appends_used [OF appends_ok [OF a(1)] s1(1)] by simp
  obtain i where i: "numberOfBitsUsed ?s1 = 8 * i" using u0 u1 pad_aligns(1) [of "numberOfBitsUsed s"] by (auto elim: dvdE)
  let ?d = "bs_data ?s1" and ?b = "le_bytes 3 (unat v)"
  let ?d' = "?d[i := ?b ! 0, i + 1 := ?b ! 1, i + 2 := ?b ! 2]"
  let ?s2 = "?s1\<lparr>bs_data := ?d', numberOfBitsUsed := 8 * i + 24\<rparr>"
  have len: "i + 3 \<le> length ?d" using s1(2) u1 i by simp
  have m: "mem_of l 4 (unat v) ! (if IsBigEndian l then 3 - k else k) = ?b ! k" if "k < 3" for k
    using that by (simp add: mem_four le_bytes_four rev_nth nth_append)
  have "w32 (8 * i + 24) = 8 * i + 24" using i u1 r0 by simp
  then have w: "Write_u24 l v s = Inr ?s2"
    using len i m [of 0] m [of 1] m [of 2] by (simp add: Write_u24_def Let_def split: if_splits)
  have "content ?s2 = bits_of (take (i + 3) ?d')"
    using take_bits_of [of "i + 3" ?d'] by (simp add: content_def)
  also have "\<dots> = bits_of (take i ?d) @ bits_of ?b"
    unfolding take_three_updates [OF len] by (subst (4) le_bytes_three) simp
  also have "bits_of (take i ?d) = content ?s1" using take_bits_of [of i ?d] i by (simp add: content_def)
  finally have c: "content ?s2 = content ?s1 @ bits_of ?b" .
  have "stream_ok ?s2" using len i u1 r0 by (simp add: stream_ok_def)
  then have "appends ?s1 ?s2 (bits_of ?b)" using c by (simp add: appends_def)
  then have "appends s ?s2 (bs @ bits_of ?b)" using appends_trans [OF a(1)] appends_trans [OF s1(1)] by fastforce
  then show ?thesis using w a(2) by blast
qed

text \<open>The bytes of the memory at a boundary are those of the bits to come.\<close>

lemma bytes_ahead:
  assumes "reads_on r pre (bits_of xs @ rest)" "length pre = 8 * i"
  shows "take (length xs) (drop i (bs_data r)) = xs" "i + length xs \<le> length (bs_data r)"
proof -
  note room = reads_on_room [OF assms(1)]
  have u: "8 * i + 8 * length xs \<le> numberOfBitsUsed r" "numberOfBitsUsed r \<le> 8 * length (bs_data r)"
    using room(1,4) assms(2) by (simp_all add: stream_ok_def)
  then show len: "i + length xs \<le> length (bs_data r)" by simp
  have "take (8 * length xs) (drop (8 * i) (content r)) = bits_of xs"
    using assms by (simp add: reads_on_def)
  moreover have "take (8 * length xs) (drop (8 * i) (content r)) = bits_of (take (length xs) (drop i (bs_data r)))"
    using u by (simp add: content_def drop_take drop_bits_of take_bits_of [symmetric])
  ultimately show "take (length xs) (drop i (bs_data r)) = xs" using len by (intro bits_of_inj) simp_all
qed

lemma Read_u24_ok:
  assumes "reads_on r pre (bs @ bits_of (le_bytes 3 (unat v)) @ rest)" "length bs = pad (length pre)"
  shows "Read_u24 l x r = Inr (True, v, skip (length bs + 24) r)"
proof -
  note room = reads_on_room [OF assms(1)]
  let ?b = "le_bytes 3 (unat v)" and ?r = "AlignReadToByteBoundary r"
  have al: "?r = skip (length bs) r" "reads_on ?r (pre @ bs) (bits_of ?b @ rest)"
    using AlignRead_ok [OF assms(1) assms(2)] room(2) by simp_all
  obtain i where i: "length pre + length bs = 8 * i" using pad_aligns(1) [of "length pre"] assms(2) by (auto elim: dvdE)
  have d: "take 3 (drop i (bs_data ?r)) = ?b" "i + 3 \<le> length (bs_data ?r)"
    using bytes_ahead [OF al(2), of i] i by simp_all
  have n: "bs_data ?r ! (i + k) = ?b ! k" if "k < 3" for k
    using d that by (metis nth_take nth_drop add_leD1)
  have ro: "readOffset ?r = 8 * i" "numberOfBitsUsed ?r = 8 * i + 24 + length rest"
    using reads_on_room [OF al(2)] i by simp_all
  have "8 * i + 24 < 4294967296" using reads_on_room(2) [OF al(2)] i by simp
  then have w: "w32 (8 * i + 24) = 8 * i + 24" by simp
  have v: "le_val [?b ! 0, ?b ! 1, ?b ! 2, 0] = unat v"
  proof -
    have "le_val ?b = unat v" using unsigned_less [of v] by (intro le_val_bytes_id) simp
    moreover have "le_val ?b = le_val [?b ! 0, ?b ! 1, ?b ! 2, 0]" by (subst le_bytes_three) simp
    ultimately show ?thesis by simp
  qed
  have mv: "\<not> IsBigEndian l \<Longrightarrow> mem_val l [?b ! 0, ?b ! 1, ?b ! 2, 0] = unat v"
    "IsBigEndian l \<Longrightarrow> mem_val l [0, ?b ! 2, ?b ! 1, ?b ! 0] = unat v"
    using v by (simp_all add: mem_val_def)
  show ?thesis
    using n [of 0] n [of 1] n [of 2] d(2) ro w al(1) i mv unfolding Read_u24_def Let_def
    by (cases "IsBigEndian l") (simp_all add: skip_def add.commute add.left_commute)
qed


text \<open>Integers in a range: the low bits of the distance from the minimum, the lowest byte first.\<close>

lemma high_bits_zero: "unat b < 2 ^ k \<Longrightarrow> k \<le> i \<Longrightarrow> \<not> bit b i" for b :: u8
proof -
  assume "unat b < 2 ^ k" "k \<le> i"
  then have "unat b < 2 ^ i" using power_increasing [of k i "2 :: nat"] by linarith
  then have "\<not> bit (unat b) i" by (simp add: bit_iff_odd)
  then show ?thesis by (simp add: bit_unsigned_iff)
qed

lemma low_bits_eq:
  assumes "k \<le> 8" "unat a < 2 ^ k" "unat b < 2 ^ k" "drop (8 - k) (byte_bits a) = drop (8 - k) (byte_bits b)"
  shows "a = b"
proof -
  have z: "take (8 - k) (byte_bits c) = replicate (8 - k) False" if "unat c < 2 ^ k" for c
  proof (rule nth_equalityI)
    fix i assume "i < length (take (8 - k) (byte_bits c))"
    then have "i < 8 - k" "k \<le> 7 - i" by auto
    then show "take (8 - k) (byte_bits c) ! i = replicate (8 - k) False ! i"
      using high_bits_zero [OF that, of "7 - i"] by (simp add: byte_bits_def rev_nth)
  qed simp
  have "byte_bits a = byte_bits b"
    using assms(4) z [OF assms(2)] z [OF assms(3)] by (metis append_take_drop_id)
  then show ?thesis by simp
qed

lemma packed_inj:
  assumes "length xs = n" "length ys = n" "nb \<le> 8 * n" "packed xs nb True = packed ys nb True"
    and "\<And>i. nb div 8 + (if nb mod 8 = 0 then 0 else 1) \<le> i \<Longrightarrow> i < n \<Longrightarrow> xs ! i = ys ! i"
    and "nb mod 8 \<noteq> 0 \<Longrightarrow> unat (xs ! (nb div 8)) < 2 ^ (nb mod 8) \<and> unat (ys ! (nb div 8)) < 2 ^ (nb mod 8)"
  shows "xs = ys"
proof (rule nth_equalityI)
  let ?q = "nb div 8"
  have q: "?q \<le> n" using assms(3) by linarith
  have e: "bits_of (take ?q xs) = bits_of (take ?q ys)"
    "nb mod 8 \<noteq> 0 \<Longrightarrow> drop (8 - nb mod 8) (byte_bits (xs ! ?q)) = drop (8 - nb mod 8) (byte_bits (ys ! ?q))"
    using assms(1,2,4) q by (simp_all add: packed_def split: if_splits)
  have t: "take ?q xs = take ?q ys" using e(1) assms(1,2) q by (intro bits_of_inj) simp_all
  fix i assume i: "i < length xs"
  consider "i < ?q" | "i = ?q" "nb mod 8 \<noteq> 0" | "?q + (if nb mod 8 = 0 then 0 else 1) \<le> i"
    by (cases i ?q rule: linorder_cases; cases "nb mod 8 = 0") auto
  then show "xs ! i = ys ! i"
  proof cases
    case 1
    then show ?thesis using t by (metis nth_take)
  next
    case 2
    then show ?thesis using assms(6) e(2) by (intro low_bits_eq [of "nb mod 8"]) simp_all
  next
    case 3
    then show ?thesis using assms(1,5) i by simp
  qed
qed (use assms in simp)

lemma le_bytes_high:
  assumes "v < 2 ^ nb"
  shows "nb \<le> 8 * i \<Longrightarrow> i < n \<Longrightarrow> le_bytes n v ! i = 0"
    "nb div 8 < n \<Longrightarrow> unat (le_bytes n v ! (nb div 8)) < 2 ^ (nb mod 8)"
proof -
  have p: "(256 :: nat) ^ i = 2 ^ (8 * i)" for i by (simp add: power_mult)
  show "le_bytes n v ! i = 0" if "nb \<le> 8 * i" "i < n"
  proof -
    have "v < 2 ^ (8 * i)" using assms that(1) power_increasing [of nb "8 * i" "2 :: nat"] by linarith
    then show ?thesis using that(2) by (simp add: le_bytes_def p)
  qed
  show "unat (le_bytes n v ! (nb div 8)) < 2 ^ (nb mod 8)" if "nb div 8 < n"
  proof -
    have "(2 :: nat) ^ nb = 2 ^ (nb mod 8) * 256 ^ (nb div 8)"
      unfolding p power_add [symmetric] by simp
    then have "v div 256 ^ (nb div 8) < 2 ^ (nb mod 8)" using assms by (simp add: less_mult_imp_div_less)
    moreover have "unat (word_of_nat k :: u8) \<le> k" for k by (simp add: unat_of_nat)
    ultimately show ?thesis using that by (simp add: le_bytes_def) (meson le_less_trans)
  qed
qed

lemma range_distance:
  assumes "mn \<le> v" "v \<le> mx" "mx < (256 :: nat) ^ n"
  shows "(v + (256 ^ n - mn)) mod 256 ^ n = v - mn"
proof -
  have e: "v + (256 ^ n - mn) = (v - mn) + 256 ^ n" using assms by linarith
  have "v - mn < 256 ^ n" using assms by linarith
  then show ?thesis unfolding e mod_add_self2 by (rule mod_less)
qed

lemma requiredBits_ok:
  assumes "bit_laws l" "0 < n" "mn < mx" "mx < 256 ^ n"
  shows "0 < requiredBits l n mn mx" "requiredBits l n mn mx \<le> 8 * n"
    "mn \<le> v \<Longrightarrow> v \<le> mx \<Longrightarrow> v - mn < 2 ^ requiredBits l n mn mx"
proof -
  let ?d = "mx - mn"
  have d: "?d < 256 ^ n" "0 < ?d" using assms(3,4) by linarith+
  have r: "requiredBits l n mn mx = 8 * n - NumberOfLeadingZeroes l n ?d"
    using range_distance [of mn mx mx n] assms(3,4) by (simp add: requiredBits_def mult.commute)
  show "0 < requiredBits l n mn mx" using r byte_lawsD(5) [OF assms(1,2) d] by simp
  show "requiredBits l n mn mx \<le> 8 * n" using r by simp
  show "v - mn < 2 ^ requiredBits l n mn mx" if "mn \<le> v" "v \<le> mx"
    using r byte_lawsD(4) [OF assms(1,2) d(1)] that by (simp add: order_le_less_trans [of "v - mn" ?d])
qed

lemma WriteRange_in:
  assumes "bit_laws l" "stream_ok s" "0 < n" "mn < mx" "mx < 256 ^ n" "mn \<le> v" "v \<le> mx"
    and "numberOfBitsUsed s + 8 * n + 1 < 2147483648"
  shows "appends s (WriteBitsFromIntegerRange l n v mn mx (requiredBits l n mn mx) out s)
    ((if out then [False] else []) @ packed (le_bytes n (v - mn)) (requiredBits l n mn mx) True)"
proof -
  let ?nb = "requiredBits l n mn mx" and ?m = "mem_of l n (v - mn)"
  note nb = requiredBits_ok [OF assms(1,3,4,5)]
  have le: "(if IsBigEndian l then ReverseBytes l ?m else ?m) = le_bytes n (v - mn)"
    using byte_lawsD(1) [OF assms(1)] by (simp add: mem_of_def)
  have w: "appends s' (WriteBits l (if IsBigEndian l then ReverseBytes l ?m else ?m) ?nb True s')
      (packed (le_bytes n (v - mn)) ?nb True)" if "stream_ok s'" "numberOfBitsUsed s' \<le> numberOfBitsUsed s + 1" for s'
    unfolding le using write_lawsD(1) [OF assms(1) that(1), of ?nb] nb(1,2) that(2) assms(8) by simp
  have b: "appends s (Write_bool l False s) [False]" using Write_bool_ok [OF assms(1,2)] assms(8) by simp
  have "numberOfBitsUsed (Write_bool l False s) \<le> numberOfBitsUsed s + 1" using appends_used [OF assms(2) b] by simp
  then have "appends s (WriteBits l (if IsBigEndian l then ReverseBytes l ?m else ?m) ?nb True (Write_bool l False s))
      ([False] @ packed (le_bytes n (v - mn)) ?nb True)"
    using appends_trans [OF b] w [OF appends_ok [OF b]] by simp
  then show ?thesis
    using w [OF assms(2)] range_distance [OF assms(6,7,5)] assms(6,7) by (simp add: WriteBitsFromIntegerRange_def Let_def)
qed

lemma ReadRange_in:
  assumes "bit_laws l" "0 < n" "nb \<le> 8 * n" "0 < nb" "d < 2 ^ nb" "d + mn < 256 ^ n"
    and "reads_on r pre ((if out then [False] else []) @ packed (le_bytes n d) nb True @ rest)"
  shows "ReadBitsFromIntegerRange l n x mn nb out r = Inr (True, d + mn, skip (nb + (if out then 1 else 0)) r)"
proof -
  have rd: "ReadBits l (replicate n 0) nb True r' = (True, le_bytes n d, skip nb r')"
    if at: "reads_on r' pre' (packed (le_bytes n d) nb True @ rest)" for r' pre'
  proof -
    note room = reads_on_room [OF at]
    have len: "length (packed (le_bytes n d) nb True) = nb"
    proof -
      have "nb div 8 \<le> n" using assms(3) by linarith
      moreover have "8 * (nb div 8) + nb mod 8 = nb" by (rule mult_div_mod_eq)
      then have "nb mod 8 = 0 \<Longrightarrow> 8 * (nb div 8) = nb" by linarith
      ultimately show ?thesis by (simp add: packed_def min_def del: dvd_mult_div_cancel)
    qed
    obtain m where m: "ReadBits l (replicate n 0) nb True r' = (True, m, skip nb r')" "length m = n"
      "packed m nb True = take nb (drop (readOffset r') (content r'))"
      "\<forall>i. nb div 8 + (if nb mod 8 = 0 then 0 else 1) \<le> i \<and> i < n \<longrightarrow> m ! i = 0"
      "nb mod 8 \<noteq> 0 \<longrightarrow> unat (m ! (nb div 8)) < 2 ^ (nb mod 8)"
      using ReadBits_law [OF assms(1) room(4) assms(4), of "replicate n 0"] assms(3) room len by auto
    have "packed m nb True = packed (le_bytes n d) nb True"
      using m(3) at len by (simp add: reads_on_def)
    moreover have "m ! i = le_bytes n d ! i" if "nb div 8 + (if nb mod 8 = 0 then 0 else 1) \<le> i" "i < n" for i
    proof -
      have "nb \<le> 8 * i" using that(1) by (cases "nb mod 8 = 0") auto
      then show ?thesis using m(4) that le_bytes_high(1) [OF assms(5)] by simp
    qed
    moreover have "nb div 8 < n" if "nb mod 8 \<noteq> 0"
      using that assms(3) by (metis dvd_eq_mod_eq_0 dvd_mult_div_cancel dvd_triv_left le_neq_implies_less
        less_mult_imp_div_less mult.commute)
    ultimately have "m = le_bytes n d"
      using m(2,5) le_bytes_high(2) [OF assms(5), of n] assms(3) by (intro packed_inj [of _ n _ nb]) auto
    then show ?thesis using m(1) by simp
  qed
  have v: "mem_val l (if IsBigEndian l then ReverseBytes l (le_bytes n d) else le_bytes n d) = d"
    using byte_lawsD(1) [OF assms(1)] assms(6) by (simp add: mem_val_def)
  show ?thesis
  proof (cases out)
    case True
    then have "reads_on r pre ([False] @ packed (le_bytes n d) nb True @ rest)" using assms(7) by simp
    then have "Read_bool (junk_bool l) r = Inr (True, False, skip 1 r)"
      and "reads_on (skip 1 r) (pre @ [False]) (packed (le_bytes n d) nb True @ rest)"
      using Read_bool_ok reads_on_skip by fastforce+
    then show ?thesis using True rd v assms(6) by (simp add: ReadBitsFromIntegerRange_def Let_def skip_def)
  next
    case False
    then show ?thesis using rd [of r pre] assms(6,7) v by (simp add: ReadBitsFromIntegerRange_def Let_def)
  qed
qed


lemma requiredBits_same:
  assumes "bit_laws l" "bit_laws l'" "0 < n" "mn < mx" "mx < 256 ^ n"
  shows "requiredBits l n mn mx = requiredBits l' n mn mx"
proof -
  let ?d = "mx - mn"
  have d: "?d < 256 ^ n" "0 < ?d" using assms(4,5) by linarith+
  have r: "requiredBits k n mn mx = 8 * n - NumberOfLeadingZeroes k n ?d" for k
    using range_distance [of mn mx mx n] assms(4,5) by (simp add: requiredBits_def mult.commute)
  have b: "0 < requiredBits k n mn mx" "2 ^ (requiredBits k n mn mx - 1) \<le> ?d" "?d < 2 ^ requiredBits k n mn mx"
    if "bit_laws k" for k
    using byte_lawsD(4-6) [OF that assms(3) d(1)] d(2) r [of k] requiredBits_ok(1) [OF that assms(3-5)] by simp_all
  have "2 ^ (requiredBits k n mn mx - 1) < (2 :: nat) ^ requiredBits k' n mn mx" if "bit_laws k" "bit_laws k'" for k k'
    using b(2) [OF that(1)] b(3) [OF that(2)] by linarith
  then have "requiredBits k n mn mx - 1 < requiredBits k' n mn mx" if "bit_laws k" "bit_laws k'" for k k'
    using that by simp
  then have "requiredBits l n mn mx - 1 < requiredBits l' n mn mx" "requiredBits l' n mn mx - 1 < requiredBits l n mn mx"
    using assms(1,2) by blast+
  then show ?thesis by linarith
qed

section \<open>Any sequence of values\<close>

text \<open>A value and its type: a flag, an integer of \<open>n\<close> bytes, a 24-bit number, an integer the receiver may have
  already (with what it has), an integer in a range (and whether values outside are allowed), an address.\<close>

datatype field =
    FBool bool
  | FInt nat nat
  | FU24 "24 word"
  | FDelta nat nat nat
  | FRange nat nat nat nat bool
  | FAddr sys_addr

fun write_field :: "bit_lib \<Rightarrow> field \<Rightarrow> bitstream \<Rightarrow> bitstream res" where
  "write_field l (FBool b) s = Inr (Write_bool l b s)"
| "write_field l (FInt n v) s = Inr (Write l (mem_of l n v) s)"
| "write_field l (FU24 v) s = Write_u24 l v s"
| "write_field l (FDelta n v old) s = Inr (WriteDelta l (Write l) (mem_of l n v) (mem_of l n old) s)"
| "write_field l (FRange n v mn mx out) s = Inr (WriteIntegerRange l n v mn mx out s)"
| "write_field l (FAddr a) s = Inr (Write_addr l a s)"

fun read_field :: "bit_lib \<Rightarrow> field \<Rightarrow> bitstream \<Rightarrow> (bool \<times> field \<times> bitstream) res" where
  "read_field l (FBool x) r = rbind (Read_bool x r) (\<lambda>(ok, b, r'). Inr (ok, FBool b, r'))"
| "read_field l (FInt n x) r = (let (ok, m, r') = Read l (mem_of l n x) r in Inr (ok, FInt n (mem_val l m), r'))"
| "read_field l (FU24 x) r = rbind (Read_u24 l x r) (\<lambda>(ok, v, r'). Inr (ok, FU24 v, r'))"
| "read_field l (FDelta n x old) r =
     rbind (ReadDelta l (Read l) (mem_of l n old) r) (\<lambda>(ok, m, r'). Inr (ok, FDelta n (mem_val l m) old, r'))"
| "read_field l (FRange n x mn mx out) r =
     rbind (ReadIntegerRange l n x mn mx out r) (\<lambda>(ok, v, r'). Inr (ok, FRange n v mn mx out, r'))"
| "read_field l (FAddr x) r = (let (ok, a, r') = Read_addr l x r in Inr (ok, FAddr a, r'))"

fun read_fields :: "bit_lib \<Rightarrow> field list \<Rightarrow> bitstream \<Rightarrow> (bool \<times> field list \<times> bitstream) res" where
  "read_fields l [] r = Inr (True, [], r)"
| "read_fields l (f # fs) r =
     rbind (read_field l f r) (\<lambda>(ok, g, r1).
     if ok then rbind (read_fields l fs r1) (\<lambda>(ok', gs, r2). Inr (ok', g # gs, r2)) else Inr (False, [], r1))"

text \<open>What the receiver has before it reads: the type and the old value of a delta, and nothing else.\<close>

fun blank :: "field \<Rightarrow> field" where
  "blank (FBool b) = FBool False"
| "blank (FInt n v) = FInt n 0"
| "blank (FU24 v) = FU24 0"
| "blank (FDelta n v old) = FDelta n 0 old"
| "blank (FRange n v mn mx out) = FRange n 0 mn mx out"
| "blank (FAddr a) = FAddr \<lparr>ip_version = 0, s_addr = [0, 0, 0, 0], sin_port = [0, 0]\<rparr>"

fun field_ok :: "field \<Rightarrow> bool" where
  "field_ok (FBool b) = True"
| "field_ok (FInt n v) = (0 < n \<and> v < 256 ^ n)"
| "field_ok (FU24 v) = True"
| "field_ok (FDelta n v old) = (0 < n \<and> v < 256 ^ n \<and> old < 256 ^ n)"
| "field_ok (FRange n v mn mx out) =
     (0 < n \<and> mn < mx \<and> mx < 256 ^ n \<and> (mn \<le> v \<and> v \<le> mx \<or> out \<and> v < 256 ^ n))"
| "field_ok (FAddr a) = (ip_version a = 4 \<and> length (s_addr a) = 4 \<and> length (sin_port a) = 2)"

fun room :: "field \<Rightarrow> nat" where
  "room (FBool b) = 1"
| "room (FInt n v) = 8 * n"
| "room (FU24 v) = 32"
| "room (FDelta n v old) = 8 * n + 1"
| "room (FRange n v mn mx out) = 8 * n + 1"
| "room (FAddr a) = 56"

definition travels :: "bit_lib \<Rightarrow> field \<Rightarrow> bitstream \<Rightarrow> bool" where
  "travels l f s \<longleftrightarrow> (\<exists>s' bs. write_field l f s = Inr s' \<and> appends s s' bs \<and> length bs \<le> room f
     \<and> (\<forall>l' r pre rest. bit_laws l' \<longrightarrow> reads_on r pre (bs @ rest) \<longrightarrow> length pre = numberOfBitsUsed s \<longrightarrow>
          read_field l' (blank f) r = Inr (True, f, skip (length bs) r)))"

lemma travelsI:
  assumes "write_field l f s = Inr s'" "appends s s' bs" "length bs \<le> room f"
    and "\<And>l' r pre rest. bit_laws l' \<Longrightarrow> reads_on r pre (bs @ rest) \<Longrightarrow> length pre = numberOfBitsUsed s \<Longrightarrow>
          read_field l' (blank f) r = Inr (True, f, skip (length bs) r)"
  shows "travels l f s"
  unfolding travels_def using assms by blast


lemma mem_of_inj: "v < 256 ^ n \<Longrightarrow> w < 256 ^ n \<Longrightarrow> mem_of l n v = mem_of l n w \<longleftrightarrow> v = w"
  by (metis mem_val_of)

lemma travels_bool:
  assumes "bit_laws l" "stream_ok s" "numberOfBitsUsed s + 1 < 2147483648"
  shows "travels l (FBool b) s"
proof (rule travelsI [of _ _ _ "Write_bool l b s" "[b]"])
  fix l' r pre rest assume "bit_laws l'" "reads_on r pre ([b] @ rest)"
  then show "read_field l' (blank (FBool b)) r = Inr (True, FBool b, skip (length [b]) r)"
    using Read_bool_ok [of r pre b rest False] by simp
qed (use Write_bool_ok [OF assms] in simp_all)

lemma travels_int:
  assumes "bit_laws l" "stream_ok s" "numberOfBitsUsed s + 8 * n < 2147483648" "field_ok (FInt n v)"
  shows "travels l (FInt n v) s"
proof (rule travelsI [of _ _ _ "Write l (mem_of l n v) s" "wire n v"])
  fix l' r pre rest assume "bit_laws l'" "reads_on r pre (wire n v @ rest)"
  then show "read_field l' (blank (FInt n v)) r = Inr (True, FInt n v, skip (length (wire n v)) r)"
    using Read_ok [of l' r pre n v rest "mem_of l' n 0"] assms(4) by simp
qed (use Write_ok [OF assms(1,2), of n v] assms(3,4) in simp_all)

lemma travels_u24:
  assumes "bit_laws l" "stream_ok s" "numberOfBitsUsed s + 32 < 2147483648"
  shows "travels l (FU24 v) s"
proof -
  obtain s' bs where w: "Write_u24 l v s = Inr s'" "appends s s' (bs @ bits_of (le_bytes 3 (unat v)))"
    "length bs = pad (numberOfBitsUsed s)" using Write_u24_ok [OF assms] by blast
  show ?thesis
  proof (rule travelsI [of _ _ _ s' "bs @ bits_of (le_bytes 3 (unat v))"])
    fix l' r pre rest
    assume "bit_laws l'" "reads_on r pre ((bs @ bits_of (le_bytes 3 (unat v))) @ rest)" "length pre = numberOfBitsUsed s"
    then show "read_field l' (blank (FU24 v)) r = Inr (True, FU24 v, skip (length (bs @ bits_of (le_bytes 3 (unat v)))) r)"
      using Read_u24_ok [of r pre bs v rest l' 0] w(3) by simp
  qed (use w pad_aligns(2) [of "numberOfBitsUsed s"] in simp_all)
qed

lemma travels_delta:
  assumes "bit_laws l" "stream_ok s" "numberOfBitsUsed s + (8 * n + 1) < 2147483648" "field_ok (FDelta n v old)"
  shows "travels l (FDelta n v old) s"
proof (cases "v = old")
  case True
  have a: "appends s (Write_bool l False s) [False]" using Write_bool_ok [OF assms(1,2)] assms(3) by simp
  show ?thesis
  proof (rule travelsI [of _ _ _ "Write_bool l False s" "[False]"])
    fix l' r pre rest assume "bit_laws l'" "reads_on r pre ([False] @ rest)"
    then show "read_field l' (blank (FDelta n v old)) r = Inr (True, FDelta n v old, skip (length [False]) r)"
      using Read_bool_ok [of r pre False rest] True assms(4) by (simp add: ReadDelta_def)
  qed (use True a in \<open>simp_all add: WriteDelta_def\<close>)
next
  case False
  let ?s1 = "Write_bool l True s"
  have a: "appends s ?s1 [True]" using Write_bool_ok [OF assms(1,2)] assms(3) by simp
  have b: "appends ?s1 (Write l (mem_of l n v) ?s1) (wire n v)"
    using Write_ok [OF assms(1) appends_ok [OF a], of n v] appends_used [OF assms(2) a] assms(3,4) by simp
  show ?thesis
  proof (rule travelsI [of _ _ _ "Write l (mem_of l n v) ?s1" "[True] @ wire n v"])
    fix l' r pre rest assume l': "bit_laws l'" and r: "reads_on r pre (([True] @ wire n v) @ rest)"
    have "Read_bool (junk_bool l') r = Inr (True, True, skip 1 r)" using r Read_bool_ok by fastforce
    moreover have "reads_on (skip 1 r) (pre @ [True]) (wire n v @ rest)"
      using r reads_on_skip [of r pre "[True]"] by simp
    then have "Read l' (mem_of l' n old) (skip 1 r) = (True, mem_of l' n v, skip (8 * n) (skip 1 r))"
      using Read_ok [OF l'] assms(4) by simp
    ultimately show "read_field l' (blank (FDelta n v old)) r = Inr (True, FDelta n v old, skip (length ([True] @ wire n v)) r)"
      using assms(4) by (simp add: ReadDelta_def skip_def)
  qed (use False assms(4) a b appends_trans [OF a b] in \<open>simp_all add: WriteDelta_def mem_of_inj\<close>)
qed

lemma length_packed: "nb \<le> 8 * length m \<Longrightarrow> length (packed m nb True) = nb"
proof -
  assume "nb \<le> 8 * length m"
  then have "nb div 8 \<le> length m" by linarith
  moreover have "8 * (nb div 8) + nb mod 8 = nb" by (rule mult_div_mod_eq)
  then have "nb mod 8 = 0 \<Longrightarrow> 8 * (nb div 8) = nb" by linarith
  ultimately show ?thesis by (simp add: packed_def min_def del: dvd_mult_div_cancel)
qed

lemma travels_range_in:
  assumes "bit_laws l" "stream_ok s" "numberOfBitsUsed s + (8 * n + 1) < 2147483648" "field_ok (FRange n v mn mx out)"
    and "mn \<le> v" "v \<le> mx"
  shows "travels l (FRange n v mn mx out) s"
proof -
  let ?nb = "requiredBits l n mn mx"
  let ?bs = "(if out then [False] else []) @ packed (le_bytes n (v - mn)) ?nb True"
  have f: "0 < n" "mn < mx" "mx < 256 ^ n" using assms(4) by simp_all
  note nb = requiredBits_ok [OF assms(1) f]
  have len: "length ?bs = ?nb + (if out then 1 else 0)" using length_packed [of ?nb "le_bytes n (v - mn)"] nb(2) by simp
  show ?thesis
  proof (rule travelsI [of _ _ _ "WriteIntegerRange l n v mn mx out s" ?bs])
    fix l' r pre rest assume l': "bit_laws l'" and r: "reads_on r pre (?bs @ rest)"
    have "v - mn + mn < 256 ^ n" using assms(5,6) f by simp
    then have "ReadBitsFromIntegerRange l' n 0 mn ?nb out r = Inr (True, v - mn + mn, skip (?nb + (if out then 1 else 0)) r)"
      using ReadRange_in [OF l' f(1) nb(2,1) nb(3) [OF assms(5,6)], of mn r pre out rest 0] r by simp
    then show "read_field l' (blank (FRange n v mn mx out)) r = Inr (True, FRange n v mn mx out, skip (length ?bs) r)"
      using requiredBits_same [OF assms(1) l' f] assms(5) len by (simp add: ReadIntegerRange_def)
  next
    show "appends s (WriteIntegerRange l n v mn mx out s) ?bs"
      using WriteRange_in [OF assms(1,2) f assms(5,6)] assms(3) by (simp add: WriteIntegerRange_def)
  qed (use len nb(2) in simp_all)
qed

lemma travels_range_out:
  assumes "bit_laws l" "stream_ok s" "numberOfBitsUsed s + (8 * n + 1) < 2147483648" "field_ok (FRange n v mn mx out)"
    and "\<not> (mn \<le> v \<and> v \<le> mx)"
  shows "travels l (FRange n v mn mx out) s"
proof -
  have f: "0 < n" "out" "v < 256 ^ n" "v < mn \<or> mx < v" using assms(4,5) by auto
  let ?s1 = "Write_bool l True s"
  have a: "appends s ?s1 [True]" using Write_bool_ok [OF assms(1,2)] assms(3) by simp
  have b: "appends ?s1 (Write l (mem_of l n v) ?s1) (wire n v)"
    using Write_ok [OF assms(1) appends_ok [OF a] f(1), of v] appends_used [OF assms(2) a] assms(3) by simp
  show ?thesis
  proof (rule travelsI [of _ _ _ "Write l (mem_of l n v) ?s1" "[True] @ wire n v"])
    fix l' r pre rest assume l': "bit_laws l'" and r: "reads_on r pre (([True] @ wire n v) @ rest)"
    have "Read_bool (junk_bool l') r = Inr (True, True, skip 1 r)" using r Read_bool_ok by fastforce
    moreover have "reads_on (skip 1 r) (pre @ [True]) (wire n v @ rest)"
      using r reads_on_skip [of r pre "[True]"] by simp
    then have "Read l' (mem_of l' n 0) (skip 1 r) = (True, mem_of l' n v, skip (8 * n) (skip 1 r))"
      using Read_ok [OF l'] f(1) by simp
    ultimately show "read_field l' (blank (FRange n v mn mx out)) r = Inr (True, FRange n v mn mx out, skip (length ([True] @ wire n v)) r)"
      using f by (simp add: ReadIntegerRange_def ReadBitsFromIntegerRange_def skip_def)
  next
    show "write_field l (FRange n v mn mx out) s = Inr (Write l (mem_of l n v) ?s1)"
      using f(2,4) by (simp add: WriteIntegerRange_def WriteBitsFromIntegerRange_def)
  qed (use appends_trans [OF a b] in simp_all)
qed


text \<open>Addresses: the version, the inverted address and the port, as they lie in memory.\<close>

lemma WriteBits_whole:
  assumes "bit_laws l" "stream_ok s" "m \<noteq> []" "numberOfBitsUsed s + 8 * length m < 2147483648" "n = 8 * length m"
  shows "appends s (WriteBits l m n True s) (bits_of m)"
  using write_lawsD(1) [OF assms(1,2), of n m True] assms(3-5) packed_whole [of m] by (simp add: mult.commute)

lemma ReadBits_whole:
  assumes "bit_laws l" "reads_on r pre (bits_of m @ rest)" "m \<noteq> []" "length m' = length m" "n = 8 * length m"
  shows "ReadBits l m' n True r = (True, m, skip n r)"
proof -
  note room = reads_on_room [OF assms(2)]
  obtain x where x: "ReadBits l m' n True r = (True, x, skip n r)" "length x = length m"
      "packed x n True = take n (drop (readOffset r) (content r))"
    using ReadBits_law [OF assms(1) room(4), of n m'] assms(3-5) room by auto
  moreover have "take n (drop (readOffset r) (content r)) = bits_of m" using assms(2,5) by (simp add: reads_on_def)
  ultimately have "bits_of x = bits_of m" using packed_whole [of x] assms(5) by (simp add: mult.commute)
  then have "x = m" using x(2) by (intro bits_of_inj)
  then show ?thesis using x(1) by simp
qed

lemma travels_addr:
  assumes "bit_laws l" "stream_ok s" "numberOfBitsUsed s + 56 < 2147483648" "field_ok (FAddr a)"
  shows "travels l (FAddr a) s"
proof -
  let ?inv = "map (\<lambda>b. NOT b) (s_addr a)"
  have f: "ip_version a = 4" "length ?inv = 4" "length (sin_port a) = 2" "?inv \<noteq> []" "sin_port a \<noteq> []"
    using assms(4) by auto
  let ?s1 = "Write l [ip_version a] s"
  have v4: "le_bytes 1 4 = [4]" "\<And>k. mem_of k 1 4 = [4]" by (simp_all add: le_bytes_def mem_of_def)
  have a1: "appends s ?s1 (bits_of [4])"
    using Write_ok [OF assms(1,2), of 1 4] assms(3) f(1) v4 by (simp add: wire_def)
  let ?s2 = "WriteBits l ?inv 32 True ?s1"
  have a2: "appends ?s1 ?s2 (bits_of ?inv)"
    using WriteBits_whole [OF assms(1) appends_ok [OF a1] f(4)] appends_used [OF assms(2) a1] assms(3) f(2) by simp
  let ?s3 = "WriteBits l (sin_port a) 16 True ?s2"
  have a3: "appends ?s2 ?s3 (bits_of (sin_port a))"
    using WriteBits_whole [OF assms(1) appends_ok [OF a2] f(5)] appends_used [OF assms(2) a1]
      appends_used [OF appends_ok [OF a1] a2] assms(3) f(2,3) by simp
  let ?bs = "bits_of [4] @ bits_of ?inv @ bits_of (sin_port a)"
  have w: "Write_addr l a s = ?s3" using f(1) by (simp add: Write_addr_def)
  show ?thesis
  proof (rule travelsI [of _ _ _ ?s3 ?bs])
    show "appends s ?s3 ?bs" using appends_trans [OF a1 appends_trans [OF a2 a3]] .
    fix l' r pre rest assume l': "bit_laws l'" and r: "reads_on r pre (?bs @ rest)"
    have one: "Read l' (junk_bytes l' 1) r = (True, [4], skip 8 r)"
      using Read_ok [OF l', of r pre 1 4 "bits_of ?inv @ bits_of (sin_port a) @ rest" "junk_bytes l' 1"] r v4
        byte_lawsD(2) [OF l'] by (simp add: wire_def)
    have r1: "reads_on (skip 8 r) (pre @ bits_of [4]) (bits_of ?inv @ bits_of (sin_port a) @ rest)"
      using reads_on_skip [of r pre "bits_of [4]"] r by simp
    have two: "ReadBits l' (junk_bytes l' 4) 32 True (skip 8 r) = (True, ?inv, skip 32 (skip 8 r))"
      using ReadBits_whole [OF l' r1 f(4)] byte_lawsD(2) [OF l'] f(2) by simp
    have r2: "reads_on (skip 32 (skip 8 r)) ((pre @ bits_of [4]) @ bits_of ?inv) (bits_of (sin_port a) @ rest)"
      using reads_on_skip [OF r1] f(2) by simp
    have three: "ReadBits l' [0, 0] 16 True (skip 32 (skip 8 r)) = (True, sin_port a, skip 16 (skip 32 (skip 8 r)))"
      using ReadBits_whole [OF l' r2 f(5), of "[0, 0]" 16] f(3) by simp
    show "read_field l' (blank (FAddr a)) r = Inr (True, FAddr a, skip (length ?bs) r)"
      using one two three f by (cases a) (simp add: Read_addr_def skip_def comp_def)
  qed (use w f in simp_all)
qed

lemma field_travels:
  assumes "bit_laws l" "stream_ok s" "numberOfBitsUsed s + room f < 2147483648" "field_ok f"
  shows "travels l f s"
proof (cases f)
  case (FRange n v mn mx out)
  then show ?thesis using assms travels_range_in [OF assms(1,2)] travels_range_out [OF assms(1,2)]
    by (cases "mn \<le> v \<and> v \<le> mx") (simp_all del: field_ok.simps)
qed (use assms travels_bool travels_int travels_u24 travels_delta travels_addr in simp_all)

lemma fields_travel:
  assumes "bit_laws l" "stream_ok s" "numberOfBitsUsed s + sum_list (map room fs) < 2147483648" "list_all field_ok fs"
  shows "\<exists>s' bs. foldE (write_field l) fs s = Inr s' \<and> appends s s' bs
    \<and> (\<forall>l' r pre rest. bit_laws l' \<longrightarrow> reads_on r pre (bs @ rest) \<longrightarrow> length pre = numberOfBitsUsed s \<longrightarrow>
         read_fields l' (map blank fs) r = Inr (True, fs, skip (length bs) r))"
  using assms(2-)
proof (induction fs arbitrary: s)
  case Nil
  then show ?case by (intro exI [of _ s] exI [of _ "[]"]) (simp add: appends_def skip_def)
next
  case (Cons f fs)
  have "travels l f s" using field_travels [OF assms(1) Cons.prems(1)] Cons.prems(2,3) by simp
  then obtain s1 b1 where 1: "write_field l f s = Inr s1" "appends s s1 b1" "length b1 \<le> room f"
    and r1: "\<And>l' r pre rest. bit_laws l' \<Longrightarrow> reads_on r pre (b1 @ rest) \<Longrightarrow> length pre = numberOfBitsUsed s \<Longrightarrow>
          read_field l' (blank f) r = Inr (True, f, skip (length b1) r)"
    unfolding travels_def by blast
  have u1: "numberOfBitsUsed s1 = numberOfBitsUsed s + length b1" using appends_used [OF Cons.prems(1) 1(2)] .
  obtain s2 b2 where 2: "foldE (write_field l) fs s1 = Inr s2" "appends s1 s2 b2"
    and r2: "\<And>l' r pre rest. bit_laws l' \<Longrightarrow> reads_on r pre (b2 @ rest) \<Longrightarrow> length pre = numberOfBitsUsed s1 \<Longrightarrow>
         read_fields l' (map blank fs) r = Inr (True, fs, skip (length b2) r)"
  proof -
    have "numberOfBitsUsed s1 + sum_list (map room fs) < 2147483648" "list_all field_ok fs"
      using u1 1(3) Cons.prems(2,3) by simp_all
    then show ?thesis using Cons.IH [OF appends_ok [OF 1(2)]] that by blast
  qed
  have "read_fields l' (map blank (f # fs)) r = Inr (True, f # fs, skip (length (b1 @ b2)) r)"
    if l': "bit_laws l'" and r: "reads_on r pre ((b1 @ b2) @ rest)" and p: "length pre = numberOfBitsUsed s"
    for l' r pre rest
  proof -
    have "read_field l' (blank f) r = Inr (True, f, skip (length b1) r)" using r1 [OF l'] r p by simp
    moreover have "reads_on (skip (length b1) r) (pre @ b1) (b2 @ rest)" using reads_on_skip r by simp
    then have "read_fields l' (map blank fs) (skip (length b1) r) = Inr (True, fs, skip (length b2) (skip (length b1) r))"
      using r2 [OF l'] p u1 by simp
    ultimately show ?thesis by (simp add: skip_def add.assoc)
  qed
  then show ?case using 1(1) 2(1) appends_trans [OF 1(2) 2(2)] by (intro exI [of _ s2] exI [of _ "b1 @ b2"]) simp
qed


section \<open>A library that keeps the contract\<close>

fun to_bytes :: "bool list \<Rightarrow> bytes" where
  "to_bytes [] = []"
| "to_bytes (b # bs) = of_byte (take 8 (b # bs @ replicate 8 False)) # to_bytes (drop 7 bs)"

lemma bits_of_to_bytes: "\<exists>z. bits_of (to_bytes bs) = bs @ z"
proof (induction bs rule: to_bytes.induct)
  case (2 b bs)
  show ?case
  proof (cases "length bs < 7")
    case True
    then have "to_bytes (drop 7 bs) = []" by simp
    then show ?thesis using True by simp
  next
    case False
    then have "take 8 (b # bs @ replicate 8 False) = b # take 7 bs" by (simp add: numeral_eq_Suc)
    then show ?thesis using 2 False by (auto simp: min_def) (metis append_take_drop_id append.assoc)
  qed
qed simp

lemma take_to_bytes: "take (length bs) (bits_of (to_bytes bs)) = bs"
  using bits_of_to_bytes [of bs] by auto

lemma length_to_bytes: "length bs \<le> 8 * length (to_bytes bs)"
  using bits_of_to_bytes [of bs] by (metis length_append length_bits_of le_add1)

lemma whole_to_bytes: "length bs = 8 * k \<Longrightarrow> bits_of (to_bytes bs) = bs \<and> length (to_bytes bs) = k"
proof (induction k arbitrary: bs)
  case (Suc k)
  obtain b cs where bs: "bs = b # cs" "length cs = 8 * k + 7" using Suc.prems by (cases bs) auto
  have "take 8 (b # cs @ replicate 8 False) = b # take 7 cs" using bs(2) by (simp add: numeral_eq_Suc)
  moreover have "bits_of (to_bytes (drop 7 cs)) = drop 7 cs \<and> length (to_bytes (drop 7 cs)) = k"
    using Suc.IH [of "drop 7 cs"] bs(2) by simp
  ultimately show ?case using bs by (simp add: min_def)
qed simp

definition append_bits :: "bool list \<Rightarrow> bitstream \<Rightarrow> bitstream" where
  "append_bits bs s = s\<lparr>bs_data := to_bytes (content s @ bs), numberOfBitsUsed := numberOfBitsUsed s + length bs\<rparr>"

lemma append_bits_ok:
  assumes "stream_ok s" "numberOfBitsUsed s + length bs < 2147483648"
  shows "appends s (append_bits bs s) bs"
proof -
  have "length (content s @ bs) = numberOfBitsUsed s + length bs" using length_content [OF assms(1)] by simp
  then have "content (append_bits bs s) = content s @ bs" "stream_ok (append_bits bs s)"
    using take_to_bytes [of "content s @ bs"] length_to_bytes [of "content s @ bs"] assms(2)
    by (simp_all add: append_bits_def content_def stream_ok_def)
  then show ?thesis by (simp add: appends_def append_bits_def)
qed

definition unpack :: "bytes \<Rightarrow> nat \<Rightarrow> bool list \<Rightarrow> bytes" where
  "unpack m n bs =
     (let q = n div 8; k = n mod 8
      in to_bytes (take (8 * q) bs) @
         (if k = 0 then drop q m else of_byte (replicate (8 - k) False @ drop (8 * q) bs) # drop (Suc q) m))"

fun bit_length :: "nat \<Rightarrow> nat" where
  "bit_length v = (if v = 0 then 0 else Suc (bit_length (v div 2)))"

declare bit_length.simps [simp del]

definition plain_lib :: "bool \<Rightarrow> bit_lib" where
  "plain_lib big = \<lparr>
     WriteBits = \<lambda>m n r s. append_bits (packed m n r) s,
     ReadBits = \<lambda>m n r s. if numberOfBitsUsed s < readOffset s + n then (False, m, s)
       else (True, unpack m n (take n (drop (readOffset s) (content s))), skip n s),
     Write_bit = \<lambda>b s. append_bits [b] s,
     AddBitsAndReallocate = \<lambda>n s. s\<lparr>bs_data := bs_data s @ replicate n 0\<rparr>,
     Write_stream = \<lambda>src n s. append_bits (take n (drop (readOffset src) (content src))) s,
     WriteCompressed_bits = \<lambda>m n u s. append_bits (packed m n True) s,
     ReadCompressed_bits = \<lambda>m n u s. (False, m, s),
     ReverseBytes = rev,
     NumberOfLeadingZeroes = \<lambda>n v. 8 * n - bit_length v,
     IsNetworkOrderInternal = big,
     junk_bytes = \<lambda>n. replicate n 0x55,
     junk_bool = True\<rparr>"

lemma length_packed_le: "n \<le> 8 * length m \<Longrightarrow> length (packed m n r) = n"
  using length_packed [of n m] by (cases r) (simp_all add: packed_def)

lemma bit_length_zero [simp]: "bit_length 0 = 0"
  by (subst bit_length.simps) simp

lemma bit_length_pos: "0 < v \<Longrightarrow> bit_length v = Suc (bit_length (v div 2))"
  by (subst bit_length.simps) simp

lemma bit_length_bounds: "v < 2 ^ bit_length v \<and> (0 < v \<longrightarrow> 0 < bit_length v \<and> 2 ^ (bit_length v - 1) \<le> v)"
proof (induction v rule: less_induct)
  case (less v)
  show ?case
  proof (cases "v = 0")
    case False
    then have v: "bit_length v = Suc (bit_length (v div 2))" "v div 2 < v" using bit_length_pos by simp_all
    note ih = less.IH [OF v(2)]
    have up: "v < 2 * 2 ^ bit_length (v div 2)" using ih by linarith
    have "2 ^ bit_length (v div 2) \<le> v"
    proof (cases "v div 2 = 0")
      case True
      then show ?thesis using False by simp
    next
      case pos: False
      then obtain k where k: "bit_length (v div 2) = Suc k" using ih by (cases "bit_length (v div 2)") auto
      then have "2 ^ k \<le> v div 2" using ih pos by simp
      then show ?thesis using k by (simp add: less_eq_div_iff_mult_less_eq mult.commute)
    qed
    then show ?thesis using v(1) up by simp
  qed simp
qed

lemma bit_length_le: "v < 256 ^ n \<Longrightarrow> bit_length v \<le> 8 * n"
proof (cases "v = 0")
  case False
  assume v: "v < 256 ^ n"
  have "2 ^ (bit_length v - 1) \<le> v" "0 < bit_length v" using bit_length_bounds [of v] False by simp_all
  moreover have "(256 :: nat) ^ n = 2 ^ (8 * n)" by (simp add: power_mult)
  ultimately have "(2 :: nat) ^ (bit_length v - 1) < 2 ^ (8 * n)" using v by linarith
  then have "bit_length v - 1 < 8 * n" by simp
  then show ?thesis by linarith
qed simp

lemma unpack_ok:
  assumes "0 < n" "n \<le> 8 * length m" "length bs = n"
  shows "length (unpack m n bs) = length m" "packed (unpack m n bs) n True = bs"
    "n div 8 + (if n mod 8 = 0 then 0 else 1) \<le> i \<Longrightarrow> i < length m \<Longrightarrow> unpack m n bs ! i = m ! i"
    "n mod 8 \<noteq> 0 \<Longrightarrow> unat (unpack m n bs ! (n div 8)) < 2 ^ (n mod 8)"
proof -
  let ?q = "n div 8" and ?k = "n mod 8"
  have n: "8 * ?q + ?k = n" by (rule mult_div_mod_eq)
  have q: "?q \<le> length m" "?k \<noteq> 0 \<Longrightarrow> ?q < length m" using assms(2) n by linarith+
  have t: "bits_of (to_bytes (take (8 * ?q) bs)) = take (8 * ?q) bs" "length (to_bytes (take (8 * ?q) bs)) = ?q"
    using whole_to_bytes [of "take (8 * ?q) bs" ?q] assms(3) n by simp_all
  have "n - 8 * ?q = ?k" using n by linarith
  then have d: "length (drop (8 * ?q) bs) = ?k" by (simp add: assms(3))
  show "length (unpack m n bs) = length m" using t(2) q by (cases "?k = 0") (simp_all add: unpack_def Let_def)
  show "packed (unpack m n bs) n True = bs"
  proof (cases "?k = 0")
    case True
    then have "8 * ?q = n" using n by linarith
    then show ?thesis using t assms(3) True by (simp add: unpack_def Let_def packed_def del: dvd_mult_div_cancel)
  next
    case False
    then show ?thesis using t d by (simp add: unpack_def Let_def packed_def nth_append)
  qed
  show "unpack m n bs ! i = m ! i" if "?q + (if ?k = 0 then 0 else 1) \<le> i" "i < length m"
    using that t(2) by (cases "?k = 0") (simp_all add: unpack_def Let_def nth_append nth_Cons' )
  show "unat (unpack m n bs ! ?q) < 2 ^ ?k" if "?k \<noteq> 0"
  proof -
    let ?b = "of_byte (replicate (8 - ?k) False @ drop (8 * ?q) bs)"
    have "take_bit ?k ?b = ?b"
    proof (rule bit_word_eqI)
      fix i assume "i < LENGTH(8)"
      moreover have "\<not> bit ?b i" if "?k \<le> i" "i < 8"
        using that d by (simp add: of_byte_def bit_horner_sum_bit_word_iff nth_append)
      ultimately show "bit (take_bit ?k ?b) i = bit ?b i"
        by (cases "i < ?k") (auto simp: bit_take_bit_iff not_less)
    qed
    then have "unat ?b = take_bit ?k (unat ?b)" by (metis unsigned_take_bit_eq)
    then have "unat ?b < 2 ^ ?k" by (metis take_bit_nat_less_exp)
    then show ?thesis using that t(2) by (simp add: unpack_def Let_def nth_append)
  qed
qed

lemma plain_write_laws: "write_laws (plain_lib big)"
  unfolding write_laws_def
proof (intro conjI allI impI)
  fix s n assume ok: "stream_ok s" and u: "numberOfBitsUsed s + n < 2147483648"
  show "appends s (AddBitsAndReallocate (plain_lib big) n s) []"
    using ok by (simp add: plain_lib_def appends_def content_def stream_ok_def)
  show "numberOfBitsUsed s + n \<le> 8 * length (bs_data (AddBitsAndReallocate (plain_lib big) n s))"
    using ok by (simp add: plain_lib_def stream_ok_def)
qed (simp_all add: plain_lib_def append_bits_ok length_packed_le length_content)

lemma plain_read_laws: "read_laws (plain_lib big)"
  unfolding read_laws_def
proof (intro conjI allI impI)
  fix s and m :: bytes and n
  assume "stream_ok s" "0 < n" "n \<le> 8 * length m" "readOffset s + n \<le> numberOfBitsUsed s"
  moreover from this have "length (take n (drop (readOffset s) (content s))) = n" by (simp add: length_content)
  ultimately show "\<exists>m'. ReadBits (plain_lib big) m n True s = (True, m', skip n s) \<and> length m' = length m
          \<and> packed m' n True = take n (drop (readOffset s) (content s))
          \<and> (\<forall>i. n div 8 + (if n mod 8 = 0 then 0 else 1) \<le> i \<and> i < length m \<longrightarrow> m' ! i = m ! i)
          \<and> (n mod 8 \<noteq> 0 \<longrightarrow> unat (m' ! (n div 8)) < 2 ^ (n mod 8))"
    using unpack_ok by (intro exI [of _ "unpack m n (take n (drop (readOffset s) (content s)))"])
      (simp add: plain_lib_def)
qed (simp add: plain_lib_def)

lemma plain_laws: "bit_laws (plain_lib big)"
proof -
  have "byte_laws (plain_lib big)"
    unfolding byte_laws_def
  proof (intro conjI allI impI)
    fix n v :: nat assume "0 < n" and v: "v < 256 ^ n"
    then have e: "8 * n - (8 * n - bit_length v) = bit_length v" using bit_length_le [OF v] by simp
    show "v < 2 ^ (8 * n - NumberOfLeadingZeroes (plain_lib big) n v)"
      using bit_length_bounds [of v] e by (simp add: plain_lib_def)
    assume "0 < v"
    then have b: "0 < bit_length v" "2 ^ (bit_length v - 1) \<le> v" using bit_length_bounds [of v] by simp_all
    show "NumberOfLeadingZeroes (plain_lib big) n v < 8 * n" using b(1) \<open>0 < n\<close> by (simp add: plain_lib_def)
    have "8 * n - Suc (8 * n - bit_length v) = bit_length v - 1" using e b(1) by linarith
    then show "2 ^ (8 * n - Suc (NumberOfLeadingZeroes (plain_lib big) n v)) \<le> v" using b(2) by (simp add: plain_lib_def)
  qed (simp_all add: plain_lib_def)
  then show ?thesis using plain_write_laws plain_read_laws by (simp add: bit_laws_def)
qed

section \<open>Properties\<close>

text \<open>C29: values written to a stream, one after another, are read back by a reader with the same sequence of
  types, on a host of the same or the other byte order: every read succeeds, and the reader is then behind the
  last of them. The values may be mixed, and are flags, unsigned integers of any number of bytes that hold
  them, aligned 24-bit numbers, deltas of such integers against an old value that both sides have, integers
  of a range packed into the bits it needs (the range has at least two values, and the integer lies in
  it or the format allows others), and IPv4 addresses. The stream is well formed and stays shorter than
  \<open>2^31\<close> bits.\<close>

theorem values_travel:
  assumes "bit_laws l" "bit_laws l'" "stream_ok s" "list_all field_ok fs"
    and "numberOfBitsUsed s + sum_list (map room fs) < 2147483648"
  shows "\<exists>s'. foldE (write_field l) fs s = Inr s' \<and> stream_ok s'
    \<and> (\<forall>r. stream_ok r \<and> content r = content s' \<and> readOffset r = numberOfBitsUsed s \<longrightarrow>
         read_fields l' (map blank fs) r = Inr (True, fs, r\<lparr>readOffset := numberOfBitsUsed s'\<rparr>))"
proof -
  obtain s' bs where w: "foldE (write_field l) fs s = Inr s'" "appends s s' bs"
    and rd: "\<And>r pre rest. reads_on r pre (bs @ rest) \<Longrightarrow> length pre = numberOfBitsUsed s \<Longrightarrow>
      read_fields l' (map blank fs) r = Inr (True, fs, skip (length bs) r)"
    using fields_travel [OF assms(1,3,5,4)] assms(2) by blast
  have "read_fields l' (map blank fs) r = Inr (True, fs, r\<lparr>readOffset := numberOfBitsUsed s'\<rparr>)"
    if "stream_ok r" "content r = content s'" "readOffset r = numberOfBitsUsed s" for r
    using rd [of r "content s" "[]"] that w(2) length_content [OF assms(3)] appends_used [OF assms(3) w(2)]
    by (simp add: reads_on_def appends_def skip_def)
  then show ?thesis using w appends_ok [OF w(2)] by blast
qed

definition new_stream :: bitstream where
  "new_stream = \<lparr>numberOfBitsUsed = 0, numberOfBitsAllocated = 2048, readOffset = 0, bs_data = [], copyData = True\<rparr>"

theorem values_travel_witness:
  "\<exists>s'. foldE (write_field (plain_lib False)) [FBool True, FU24 70000, FRange 4 7 5 9 False] new_stream = Inr s'
    \<and> (\<exists>r. read_fields (plain_lib True) (map blank [FBool True, FU24 70000, FRange 4 7 5 9 False]) s'
         = Inr (True, [FBool True, FU24 70000, FRange 4 7 5 9 False], r))"
proof -
  let ?fs = "[FBool True, FU24 70000, FRange 4 7 5 9 False]"
  obtain s' where s': "foldE (write_field (plain_lib False)) ?fs new_stream = Inr s'" "stream_ok s'"
      "\<forall>r. stream_ok r \<and> content r = content s' \<and> readOffset r = 0 \<longrightarrow>
         read_fields (plain_lib True) (map blank ?fs) r = Inr (True, ?fs, r\<lparr>readOffset := numberOfBitsUsed s'\<rparr>)"
    using values_travel [OF plain_laws [of False] plain_laws [of True], of new_stream ?fs]
    by (auto simp: new_stream_def stream_ok_def)
  have "readOffset s' = 0"
  proof -
    obtain t bs where "foldE (write_field (plain_lib False)) ?fs new_stream = Inr t" "appends new_stream t bs"
      using fields_travel [OF plain_laws [of False], of new_stream ?fs] by (auto simp: new_stream_def stream_ok_def)
    then show ?thesis using s'(1) by (simp add: appends_def new_stream_def)
  qed
  then show ?thesis using s' by blast
qed

end
