(* ===== verification/RakRangeWire.thy ===== *)
theory RakRangeWire
  imports RakRange RakBits
begin

text \<open>
  The acknowledgement of datagrams: \<open>RangeList::Serialize\<close> and \<open>Deserialize\<close> (\<^verbatim>\<open>DS_RangeList.h\<close>) for ranges of
  \<open>uint24_t\<close>, whose size in memory is four bytes. \<open>t0\<close> is a new \<open>BitStream\<close>; \<open>j1\<close> and \<open>j2\<close> are what the local
  variables \<open>min\<close> and \<open>max\<close> hold before they are read.
\<close>

section \<open>Code\<close>

definition w16 :: "nat \<Rightarrow> nat" where "w16 n = n mod 65536"

text \<open>The loop over the ranges, which stops when the next might not fit.\<close>

fun serialize_loop ::
  "bit_lib \<Rightarrow> nat \<Rightarrow> ranges \<Rightarrow> nat list \<Rightarrow> bitstream \<Rightarrow> nat \<Rightarrow> nat \<Rightarrow> (bitstream \<times> nat \<times> nat) res" where
  "serialize_loop l maxBits rl [] tempBS bitsWritten countWritten = Inr (tempBS, bitsWritten, countWritten)"
| "serialize_loop l maxBits rl (i # is) tempBS bitsWritten countWritten =
     (if maxBits < w32 (16 + bitsWritten + 32 * 2 + 1) then Inr (tempBS, bitsWritten, countWritten)
      else rbind (List_Get i rl) (\<lambda>n.
        let minEqualsMax = (if minIndex n = maxIndex n then 1 else 0)
        in rbind (Write_u24 l (minIndex n) (Write l [minEqualsMax] tempBS)) (\<lambda>t1.
           if minIndex n \<noteq> maxIndex n then
             rbind (Write_u24 l (maxIndex n) t1) (\<lambda>t2.
             serialize_loop l maxBits rl is t2 (w32 (w32 (bitsWritten + (32 + 8)) + 32)) (w16 (countWritten + 1)))
           else serialize_loop l maxBits rl is t1 (w32 (bitsWritten + (32 + 8))) (w16 (countWritten + 1)))))"

text \<open>The ranges written are removed from the front.\<close>

definition drop_ranges :: "nat \<Rightarrow> ranges \<Rightarrow> ranges res" where
  "drop_ranges k rl =
     rbind (foldE (\<lambda>i l. rbind (List_Get (i + k) l) (\<lambda>n. List_put i n l)) [0..<sub32 (List_Size rl) k] rl)
       (\<lambda>rl'. Inr (OL_RemoveFromEnd k rl'))"

definition RL_Serialize ::
  "bit_lib \<Rightarrow> bitstream \<Rightarrow> nat \<Rightarrow> bool \<Rightarrow> ranges \<Rightarrow> bitstream \<Rightarrow> (nat \<times> bitstream \<times> ranges) res" where
  "RL_Serialize l t0 maxBits clearSerialized rl out =
     rbind (serialize_loop l maxBits rl [0..<List_Size rl] t0 0 0) (\<lambda>(tempBS, bitsWritten, countWritten).
     let out1 = AlignWriteToByteBoundary out;
         before = numberOfBitsUsed out1;
         out2 = Write l (mem_of l 2 countWritten) out1;
         bits = w32 (bitsWritten + sub32 (numberOfBitsUsed out2) before);
         out3 = Write_stream l tempBS (numberOfBitsUsed tempBS) out2
     in rbind (if clearSerialized \<and> countWritten \<noteq> 0 then drop_ranges countWritten rl else Inr rl) (\<lambda>rl'.
        Inr (bits, out3, rl')))"

fun deserialize_loop ::
  "bit_lib \<Rightarrow> range_node \<Rightarrow> nat \<Rightarrow> bytes \<Rightarrow> u24 \<Rightarrow> u24 \<Rightarrow> ranges \<Rightarrow> bitstream \<Rightarrow> (bool \<times> ranges \<times> bitstream) res" where
  "deserialize_loop l z 0 maxEqualToMin mn mx rl s = Inr (True, rl, s)"
| "deserialize_loop l z (Suc k) maxEqualToMin mn mx rl s =
     (let (_, e, s1) = Read l maxEqualToMin s
      in rbind (Read_u24 l mn s1) (\<lambda>(ok, mn', s2).
         if \<not> ok then Inr (False, rl, s2)
         else if e = [0] then
           rbind (Read_u24 l mx s2) (\<lambda>(ok2, mx', s3).
           if \<not> ok2 then Inr (False, rl, s3)
           else if mx' < mn' then Inr (False, rl, s3)
           else rbind (OL_InsertAtEnd z (RangeNode mn' mx') rl) (\<lambda>rl'. deserialize_loop l z k e mn' mx' rl' s3))
         else rbind (OL_InsertAtEnd z (RangeNode mn' mn') rl) (\<lambda>rl'. deserialize_loop l z k e mn' mn' rl' s2)))"

definition RL_Deserialize ::
  "bit_lib \<Rightarrow> range_node \<Rightarrow> u24 \<Rightarrow> u24 \<Rightarrow> ranges \<Rightarrow> bitstream \<Rightarrow> (bool \<times> ranges \<times> bitstream) res" where
  "RL_Deserialize l z j1 j2 rl s =
     rbind (OL_Clear True rl) (\<lambda>rl0.
     let (_, count, s1) = Read l (junk_bytes l 2) (AlignReadToByteBoundary s)
     in deserialize_loop l z (mem_val l count) [0] j1 j2 rl0 s1)"

section \<open>The bits of a range\<close>

definition range_bits :: "range_node \<Rightarrow> bool list" where
  "range_bits n =
     (if minIndex n = maxIndex n then wire 1 1 @ bits_of (le_bytes 3 (unat (minIndex n)))
      else wire 1 0 @ bits_of (le_bytes 3 (unat (minIndex n))) @ bits_of (le_bytes 3 (unat (maxIndex n))))"

lemma length_range_bits: "length (range_bits n) = (if minIndex n = maxIndex n then 32 else 56)"
  by (simp add: range_bits_def)

lemma pad_zero: "8 dvd n \<Longrightarrow> pad n = 0"
  by (simp add: pad_def)

text \<open>How many ranges fit, by the count that is made of them.\<close>

definition counted :: "range_node \<Rightarrow> nat" where
  "counted n = (if minIndex n = maxIndex n then 40 else 72)"

fun fits :: "nat \<Rightarrow> nat \<Rightarrow> range_node list \<Rightarrow> nat" where
  "fits maxBits bits [] = 0"
| "fits maxBits bits (n # ns) = (if maxBits < bits + 81 then 0 else Suc (fits maxBits (bits + counted n) ns))"

lemma fits_le: "fits maxBits bits ns \<le> length ns"
  by (induction ns arbitrary: bits) simp_all

text \<open>An aligned 24-bit number in both directions.\<close>

lemma aligned_u24:
  assumes "bit_laws l" "stream_ok s" "numberOfBitsUsed s + 32 < 2147483648" "8 dvd numberOfBitsUsed s"
  shows "\<exists>s'. Write_u24 l v s = Inr s' \<and> appends s s' (bits_of (le_bytes 3 (unat v)))"
  using Write_u24_ok [OF assms(1-3), of v] pad_zero [OF assms(4)] by auto

lemma aligned_read:
  assumes "reads_on r pre (bits_of (le_bytes 3 (unat v)) @ rest)" "8 dvd length pre"
  shows "Read_u24 l x r = Inr (True, v, skip 24 r)"
    "reads_on (skip 24 r) (pre @ bits_of (le_bytes 3 (unat v))) rest"
  using Read_u24_ok [of r pre "[]" v rest l x] reads_on_skip [OF assms(1)] pad_zero [OF assms(2)] assms(1) by simp_all

lemma byte_mem: "mem_of l 1 v = [word_of_nat v]"
  by (simp add: mem_of_def le_bytes_def)

lemma write_range:
  assumes "bit_laws l" "stream_ok t" "numberOfBitsUsed t + 64 < 2147483648" "8 dvd numberOfBitsUsed t"
  shows "\<exists>t1. Write_u24 l (minIndex n) (Write l [if minIndex n = maxIndex n then 1 else 0] t) = Inr t1
    \<and> (if minIndex n = maxIndex n then appends t t1 (range_bits n)
       else \<exists>t2. Write_u24 l (maxIndex n) t1 = Inr t2 \<and> appends t t2 (range_bits n))"
proof -
  let ?e = "if minIndex n = maxIndex n then 1 else 0 :: nat"
  let ?t = "Write l (mem_of l 1 ?e) t"
  have m: "[if minIndex n = maxIndex n then 1 else 0] = mem_of l 1 ?e" by (simp add: byte_mem [unfolded One_nat_def])
  have a: "appends t ?t (wire 1 ?e)" using Write_ok [OF assms(1,2), of 1 ?e] assms(3) by simp
  have u: "numberOfBitsUsed ?t = numberOfBitsUsed t + 8" using appends_used [OF assms(2) a] by simp
  obtain t1 where t1: "Write_u24 l (minIndex n) ?t = Inr t1" "appends ?t t1 (bits_of (le_bytes 3 (unat (minIndex n))))"
    using aligned_u24 [OF assms(1) appends_ok [OF a], of "minIndex n"] u assms(3,4) by auto
  show ?thesis
  proof (cases "minIndex n = maxIndex n")
    case True
    then show ?thesis using t1 m appends_trans [OF a t1(2)] by (simp add: range_bits_def)
  next
    case False
    have u1: "numberOfBitsUsed t1 = numberOfBitsUsed t + 32"
      using appends_used [OF appends_ok [OF a] t1(2)] u by simp
    obtain t2 where t2: "Write_u24 l (maxIndex n) t1 = Inr t2" "appends t1 t2 (bits_of (le_bytes 3 (unat (maxIndex n))))"
      using aligned_u24 [OF assms(1) appends_ok [OF t1(2)], of "maxIndex n"] u1 assms(3,4) by auto
    have "appends t t2 (range_bits n)"
      using appends_trans [OF a appends_trans [OF t1(2) t2(2)]] False by (simp add: range_bits_def)
    then show ?thesis using False t1(1) t2(1) m by simp
  qed
qed

lemma serialize_runs:
  assumes "bit_laws l" "rlist_ok rl" "stream_ok t" "8 dvd numberOfBitsUsed t"
    and "numberOfBitsUsed t + 64 * (length (items rl) - i) < 1073741824" "bits + 72 * (length (items rl) - i) < 1073741824"
    and "i \<le> length (items rl)" "cnt + (length (items rl) - i) < 65536"
  shows "\<exists>t'. serialize_loop l maxBits rl [i..<length (items rl)] t bits cnt =
      Inr (t', bits + sum_list (map counted (take (fits maxBits bits (drop i (items rl))) (drop i (items rl)))),
        cnt + fits maxBits bits (drop i (items rl)))
    \<and> appends t t' (concat (map range_bits (take (fits maxBits bits (drop i (items rl))) (drop i (items rl)))))"
  using assms(3-)
proof (induction "length (items rl) - i" arbitrary: i t bits cnt)
  case 0
  then show ?case by (intro exI [of _ t]) (simp add: appends_def)
next
  case (Suc k)
  let ?xs = "items rl" and ?n = "items rl ! i"
  have i: "i < length ?xs" using Suc.hyps(2) by simp
  have up: "[i..<length ?xs] = i # [Suc i..<length ?xs]" using i by (simp add: upt_conv_Cons)
  have dr: "drop i ?xs = ?n # drop (Suc i) ?xs" using Cons_nth_drop_Suc [OF i] by simp
  have ln: "length ?xs - i = Suc (length ?xs - Suc i)" using i by simp
  have w: "w32 (16 + bits + 32 * 2 + 1) = bits + 81" using Suc.prems(4) ln by simp
  show ?case
  proof (cases "maxBits < bits + 81")
    case True
    then show ?thesis using w unfolding up dr
      by (intro exI [of _ t]) (use Suc.prems(1) in \<open>simp add: appends_def\<close>)
  next
    case False
    have "numberOfBitsUsed t + 64 < 2147483648" using Suc.prems(3) ln by simp
    then obtain t1 where t1: "Write_u24 l (minIndex ?n) (Write l [if minIndex ?n = maxIndex ?n then 1 else 0] t) = Inr t1"
      "if minIndex ?n = maxIndex ?n then appends t t1 (range_bits ?n)
       else \<exists>t2. Write_u24 l (maxIndex ?n) t1 = Inr t2 \<and> appends t t2 (range_bits ?n)"
      using write_range [OF assms(1) Suc.prems(1) _ Suc.prems(2), of ?n] by blast
    obtain t2 where t2: "minIndex ?n = maxIndex ?n \<Longrightarrow> t2 = t1"
      "minIndex ?n \<noteq> maxIndex ?n \<Longrightarrow> Write_u24 l (maxIndex ?n) t1 = Inr t2" "appends t t2 (range_bits ?n)"
      using t1(2) by (cases "minIndex ?n = maxIndex ?n") auto
    have u2: "numberOfBitsUsed t2 = numberOfBitsUsed t + length (range_bits ?n)"
      using appends_used [OF Suc.prems(1) t2(3)] .
    have d2: "8 dvd numberOfBitsUsed t2" using u2 Suc.prems(2) by (auto simp: length_range_bits)
    have step: "serialize_loop l maxBits rl [i..<length ?xs] t bits cnt
        = serialize_loop l maxBits rl [Suc i..<length ?xs] t2 (bits + counted ?n) (cnt + 1)"
    proof -
      have "w32 (bits + 40) = bits + 40" "w32 (bits + 40 + 32) = bits + 72" "w16 (cnt + 1) = cnt + 1"
        using Suc.prems(4,6) ln by (simp_all add: w16_def)
      then show ?thesis
        using False t1(1) t2(1,2) Get_ok [OF assms(2) i] w unfolding up
        by (cases "minIndex ?n = maxIndex ?n") (simp_all add: counted_def)
    qed
    have "\<exists>t'. serialize_loop l maxBits rl [Suc i..<length ?xs] t2 (bits + counted ?n) (cnt + 1) =
      Inr (t', bits + counted ?n + sum_list (map counted (take (fits maxBits (bits + counted ?n) (drop (Suc i) ?xs)) (drop (Suc i) ?xs))),
        cnt + 1 + fits maxBits (bits + counted ?n) (drop (Suc i) ?xs))
    \<and> appends t2 t' (concat (map range_bits (take (fits maxBits (bits + counted ?n) (drop (Suc i) ?xs)) (drop (Suc i) ?xs))))"
    proof (rule Suc.hyps(1))
      show "numberOfBitsUsed t2 + 64 * (length ?xs - Suc i) < 1073741824"
        using Suc.prems(3) u2 ln by (simp add: length_range_bits split: if_splits)
      show "bits + counted ?n + 72 * (length ?xs - Suc i) < 1073741824"
        using Suc.prems(4) ln by (simp add: counted_def)
    qed (use Suc.hyps(2) appends_ok [OF t2(3)] d2 i Suc.prems(6) ln in simp_all)
    then obtain t' where t': "serialize_loop l maxBits rl [Suc i..<length ?xs] t2 (bits + counted ?n) (cnt + 1) =
      Inr (t', bits + counted ?n + sum_list (map counted (take (fits maxBits (bits + counted ?n) (drop (Suc i) ?xs)) (drop (Suc i) ?xs))),
        cnt + 1 + fits maxBits (bits + counted ?n) (drop (Suc i) ?xs))"
      "appends t2 t' (concat (map range_bits (take (fits maxBits (bits + counted ?n) (drop (Suc i) ?xs)) (drop (Suc i) ?xs))))"
      by blast
    show ?thesis
      using False step t'(1) appends_trans [OF t2(3) t'(2)] unfolding dr by (intro exI [of _ t']) (simp add: add.assoc)
  qed
qed


lemma drop_ranges_runs:
  assumes "rlist_ok rl" "k \<le> length (items rl)" "0 < k"
  shows "runs_as (drop_ranges k rl) (drop k (items rl))"
proof -
  let ?xs = "items rl" and ?f = "\<lambda>i l. rbind (List_Get (i + k) l) (\<lambda>n. List_put i n l)"
  have loop: "runs_as (foldE ?f [0..<j] rl) (take j (drop k ?xs) @ drop j ?xs)" if "j \<le> length ?xs - k" for j
    using that
  proof (induction j)
    case 0
    then show ?case using assms(1) by (intro runs_asI [of _ rl]) simp_all
  next
    case (Suc j)
    let ?ys = "take j (drop k ?xs) @ drop j ?xs"
    obtain l1 where l1: "foldE ?f [0..<j] rl = Inr l1" "rlist_ok l1" "items l1 = ?ys" using Suc by (auto elim: runs_asE)
    have len: "length ?ys = length ?xs" using Suc.prems by simp
    have jk: "j + k < length ?ys" using len Suc.prems by simp
    have g: "List_Get (j + k) l1 = Inr (?xs ! (j + k))"
      using Get_ok [OF l1(2), of "j + k"] jk l1(3) Suc.prems by (simp add: nth_append)
    have "?ys[j := ?xs ! (j + k)] = take (Suc j) (drop k ?xs) @ drop (Suc j) ?xs"
    proof -
      have "length (take j (drop k ?xs)) = j" using Suc.prems by simp
      then have "?ys[j := ?xs ! (j + k)] = take j (drop k ?xs) @ (?xs ! (j + k)) # drop (Suc j) ?xs"
        using Suc.prems Cons_nth_drop_Suc [of j ?xs] by (simp add: list_update_append) (metis Cons_nth_drop_Suc list_update_code(2)
          Suc_le_lessD add_leD1 diff_le_self le_trans less_le_trans)
      then show ?thesis using Suc.prems by (simp add: take_Suc_conv_app_nth add.commute)
    qed
    moreover have "runs_as (List_put j (?xs ! (j + k)) l1) (?ys[j := ?xs ! (j + k)])"
      using put_runs [OF l1(2), of j] jk l1(3) by simp
    ultimately obtain l2 where "List_put j (?xs ! (j + k)) l1 = Inr l2" "rlist_ok l2"
        "items l2 = take (Suc j) (drop k ?xs) @ drop (Suc j) ?xs"
      by (auto elim: runs_asE)
    then show ?case using l1(1) g by (intro runs_asI [of _ l2]) (simp_all add: foldE_append)
  qed
  have small: "length ?xs < 2147483648" using assms(1) length_items [OF assms(1)] by (auto simp: rlist_ok_def)
  have n: "sub32 (List_Size rl) k = length ?xs - k"
    using sub32_le [of k "length ?xs"] assms(2) small length_items [OF assms(1)] by (simp add: List_Size_def)
  obtain l1 where l1: "foldE ?f [0..<length ?xs - k] rl = Inr l1" "rlist_ok l1"
      "items l1 = drop k ?xs @ drop (length ?xs - k) ?xs"
    using loop [of "length ?xs - k"] by (auto elim: runs_asE)
  then show ?thesis
    using RemoveFromEnd_ok [OF l1(2), of k] assms(2) n
    by (intro runs_asI [of _ "List_RemoveFromEnd k l1"]) (simp_all add: drop_ranges_def OL_RemoveFromEnd_def)
qed

lemma read_byte:
  assumes "bit_laws l" "reads_on r pre (wire 1 v @ rest)" "length m = 1"
  shows "Read l m r = (True, [word_of_nat v], skip 8 r)" "reads_on (skip 8 r) (pre @ wire 1 v) rest"
  using Read_ok [OF assms(1,2) _ assms(3)] byte_mem [of l v] reads_on_skip [OF assms(2)] by simp_all

lemma deserialize_runs:
  assumes "bit_laws l" "rlist_ok rl" "reads_on r pre (concat (map range_bits ns) @ rest)" "8 dvd length pre"
    and "\<And>n. n \<in> set ns \<Longrightarrow> minIndex n \<le> maxIndex n" "length (items rl) + length ns < 1073741824" "length e = 1"
  shows "\<exists>rl'. deserialize_loop l z (length ns) e mn mx rl r = Inr (True, rl', skip (length (concat (map range_bits ns))) r)
    \<and> rlist_ok rl' \<and> items rl' = items rl @ ns"
  using assms(2-)
proof (induction ns arbitrary: rl r pre e mn mx)
  case Nil
  then show ?case by (simp add: skip_def)
next
  case (Cons n ns)
  let ?a = "bits_of (le_bytes 3 (unat (minIndex n)))" and ?b = "bits_of (le_bytes 3 (unat (maxIndex n)))"
  let ?rest = "concat (map range_bits ns) @ rest"
  have sz: "list_size rl < 1073741824" using length_items [OF Cons.prems(1)] Cons.prems(5) by simp
  show ?case
  proof (cases "minIndex n = maxIndex n")
    case True
    have rb: "range_bits n = wire 1 1 @ ?a" using True by (simp add: range_bits_def)
    have r0: "reads_on r pre (wire 1 1 @ ?a @ ?rest)" using Cons.prems(2) by (simp add: rb)
    note b = read_byte [OF assms(1) r0 Cons.prems(6)]
    note m = aligned_read [OF b(2)]
    have d: "8 dvd length (pre @ wire 1 1)" using Cons.prems(3) by simp
    obtain rl1 where rl1: "OL_InsertAtEnd z (RangeNode (minIndex n) (minIndex n)) rl = Inr rl1" "rlist_ok rl1"
        "items rl1 = items rl @ [n]"
      using Insert_runs [OF Cons.prems(1) sz, of z n] True
      by (cases n) (auto simp: OL_InsertAtEnd_def RangeNode_def elim: runs_asE)
    have "\<exists>rl'. deserialize_loop l z (length ns) [1] (minIndex n) (minIndex n) rl1 (skip 24 (skip 8 r))
        = Inr (True, rl', skip (length (concat (map range_bits ns))) (skip 24 (skip 8 r)))
        \<and> rlist_ok rl' \<and> items rl' = items rl1 @ ns"
      by (rule Cons.IH [OF rl1(2) m(2)]) (use d Cons.prems(4,5) rl1(3) in simp_all)
    then show ?thesis using b(1) m(1) [OF d] rl1 True by (auto simp: skip_def length_range_bits add.assoc)
  next
    case False
    have rb: "range_bits n = wire 1 0 @ ?a @ ?b" using False by (simp add: range_bits_def)
    have r0: "reads_on r pre (wire 1 0 @ ?a @ ?b @ ?rest)" using Cons.prems(2) by (simp add: rb)
    note b = read_byte [OF assms(1) r0 Cons.prems(6)]
    have d: "8 dvd length (pre @ wire 1 0)" using Cons.prems(3) by simp
    note m = aligned_read [OF b(2) d]
    have d2: "8 dvd length ((pre @ wire 1 0) @ ?a)" using Cons.prems(3) by simp
    note m2 = aligned_read [OF m(2) d2]
    have le: "\<not> maxIndex n < minIndex n" using Cons.prems(4) [of n] by (simp add: not_less)
    obtain rl1 where rl1: "OL_InsertAtEnd z (RangeNode (minIndex n) (maxIndex n)) rl = Inr rl1" "rlist_ok rl1"
        "items rl1 = items rl @ [n]"
      using Insert_runs [OF Cons.prems(1) sz, of z n]
      by (cases n) (auto simp: OL_InsertAtEnd_def RangeNode_def elim: runs_asE)
    have "\<exists>rl'. deserialize_loop l z (length ns) [0] (minIndex n) (maxIndex n) rl1 (skip 24 (skip 24 (skip 8 r)))
        = Inr (True, rl', skip (length (concat (map range_bits ns))) (skip 24 (skip 24 (skip 8 r))))
        \<and> rlist_ok rl' \<and> items rl' = items rl1 @ ns"
    proof (rule Cons.IH [OF rl1(2) m2(2)])
      show "8 dvd length (((pre @ wire 1 0) @ ?a) @ ?b)" using Cons.prems(3) by simp
    qed (use Cons.prems(4,5) rl1(3) in simp_all)
    then show ?thesis using b(1) m(1) m2(1) rl1 False le by (auto simp: skip_def length_range_bits add.assoc)
  qed
qed

section \<open>Sent and received\<close>

lemma counted_fits: "0 < fits maxBits bits ns \<Longrightarrow> bits + sum_list (map counted (take (fits maxBits bits ns) ns)) + 9 \<le> maxBits"
proof (induction ns arbitrary: bits)
  case (Cons n ns)
  then have "bits + 81 \<le> maxBits" by (simp split: if_splits)
  then show ?case using Cons.IH [of "bits + counted n"] by (cases "fits maxBits (bits + counted n) ns") (simp_all add: counted_def split: if_splits)
qed simp

lemma bits_counted: "sum_list (map (length \<circ> range_bits) ns) + 8 * length ns \<le> sum_list (map counted ns)"
  by (induction ns) (simp_all add: length_range_bits counted_def)

lemma counted_le: "sum_list (map counted ns) \<le> 72 * length ns"
  by (induction ns) (simp_all add: counted_def)

lemma serialize_ok:
  fixes maxBits :: nat
  assumes "bit_laws l" "rlist_ok rl" "length (items rl) < 65536" "stream_ok s" "numberOfBitsUsed s < 1073741824"
    and "stream_ok t0" "numberOfBitsUsed t0 = 0" "readOffset t0 = 0"
  defines "k \<equiv> fits maxBits 0 (items rl)"
  shows "\<exists>s' rl' pb. RL_Serialize l t0 maxBits clear rl s = Inr (sum_list (map counted (take k (items rl))) + 16, s', rl')
    \<and> appends s s' (pb @ wire 2 k @ concat (map range_bits (take k (items rl)))) \<and> length pb = pad (numberOfBitsUsed s)
    \<and> rlist_ok rl' \<and> items rl' = (if clear then drop k (items rl) else items rl)"
proof -
  let ?xs = "items rl"
  let ?body = "concat (map range_bits (take k ?xs))" and ?cnt = "sum_list (map counted (take k ?xs))"
  have k: "k \<le> length ?xs" "k < 65536" using fits_le [of maxBits 0 ?xs] assms(3) by (simp_all add: k_def)
  have cnt: "?cnt \<le> 72 * 65536" using counted_le [of "take k ?xs"] k by simp
  have body: "length ?body \<le> 72 * 65536"
    using cnt bits_counted [of "take k ?xs"] by (simp add: length_concat)
  obtain t where t: "serialize_loop l maxBits rl [0..<length ?xs] t0 0 0 = Inr (t, ?cnt, k)" "appends t0 t ?body"
    using serialize_runs [OF assms(1,2,6), of 0 0 0 maxBits] assms(3,7) by (auto simp: k_def)
  have tc: "content t = ?body" "readOffset t = 0" "stream_ok t" "numberOfBitsUsed t = length ?body"
    using t(2) assms(6-8) appends_used [OF assms(6) t(2)] length_content [OF assms(6)] by (simp_all add: appends_def)
  obtain pb where pb: "appends s (AlignWriteToByteBoundary s) pb" "length pb = pad (numberOfBitsUsed s)"
    using AlignWrite_ok [OF assms(4)] assms(5) by auto
  let ?o1 = "AlignWriteToByteBoundary s" and ?o2 = "Write l (mem_of l 2 k) (AlignWriteToByteBoundary s)"
  have u1: "numberOfBitsUsed ?o1 < 1073741824 + 8"
    using appends_used [OF assms(4) pb(1)] pb(2) assms(5) pad_aligns(2) [of "numberOfBitsUsed s"] by linarith
  have o2: "appends ?o1 ?o2 (wire 2 k)" using Write_ok [OF assms(1) appends_ok [OF pb(1)], of 2 k] u1 by simp
  have u2: "numberOfBitsUsed ?o2 = numberOfBitsUsed ?o1 + 16" using appends_used [OF appends_ok [OF pb(1)] o2] by simp
  have o3: "appends ?o2 (Write_stream l t (numberOfBitsUsed t) ?o2) ?body"
    using write_lawsD(5) [OF assms(1) appends_ok [OF o2], of "numberOfBitsUsed t" t] tc u1 u2 body by simp
  have bits: "w32 (?cnt + sub32 (numberOfBitsUsed ?o2) (numberOfBitsUsed ?o1)) = ?cnt + 16"
    using u1 u2 cnt sub32_le [of "numberOfBitsUsed ?o1" "numberOfBitsUsed ?o2"] by simp
  have "runs_as (if clear \<and> k \<noteq> 0 then drop_ranges k rl else Inr rl) (if clear then drop k ?xs else ?xs)"
    using drop_ranges_runs [OF assms(2) k(1)] assms(2) by (auto intro: runs_asI)
  then obtain rl' where "(if clear \<and> k \<noteq> 0 then drop_ranges k rl else Inr rl) = Inr rl'" "rlist_ok rl'"
      "items rl' = (if clear then drop k ?xs else ?xs)"
    by (rule runs_asE)
  moreover have "appends s (Write_stream l t (numberOfBitsUsed t) ?o2) (pb @ wire 2 k @ ?body)"
    using appends_trans [OF pb(1) appends_trans [OF o2 o3]] by simp
  ultimately show ?thesis
    using t(1) bits pb(2) length_items [OF assms(2)]
    by (intro exI [of _ "Write_stream l t (numberOfBitsUsed t) ?o2"] exI [of _ rl'] exI [of _ pb])
      (simp add: RL_Serialize_def List_Size_def Let_def)
qed

lemma deserialize_ok:
  assumes "bit_laws l" "rlist_ok rl" "reads_on r pre (pb @ wire 2 (length ns) @ concat (map range_bits ns) @ rest)"
    and "length pb = pad (length pre)" "length pre + 8 \<le> 2147483648" "length ns < 65536"
    and "\<And>n. n \<in> set ns \<Longrightarrow> minIndex n \<le> maxIndex n"
  shows "\<exists>rl'. RL_Deserialize l z j1 j2 rl r
      = Inr (True, rl', skip (length pb + 16 + length (concat (map range_bits ns))) r) \<and> rlist_ok rl' \<and> items rl' = ns"
proof -
  obtain rl0 where rl0: "OL_Clear True rl = Inr rl0" "rlist_ok rl0" "items rl0 = []"
    using Clear_runs [OF assms(2), of True] by (auto simp: OL_Clear_def elim: runs_asE)
  note al = AlignRead_ok [OF assms(3-5)]
  have rd: "Read l (junk_bytes l 2) (AlignReadToByteBoundary r)
      = (True, mem_of l 2 (length ns), skip 16 (AlignReadToByteBoundary r))"
    using Read_ok [OF assms(1) al(2), of "junk_bytes l 2"] byte_lawsD(2) [OF assms(1), of 2] by simp
  have r1: "reads_on (skip 16 (AlignReadToByteBoundary r)) ((pre @ pb) @ wire 2 (length ns)) (concat (map range_bits ns) @ rest)"
    using reads_on_skip [OF al(2)] by simp
  have d: "8 dvd length ((pre @ pb) @ wire 2 (length ns))"
    using dvd_add [OF pad_aligns(1) [of "length pre"], of 16] assms(4) by (simp add: add.assoc)
  have "\<exists>rl'. deserialize_loop l z (length ns) [0] j1 j2 rl0 (skip 16 (AlignReadToByteBoundary r))
      = Inr (True, rl', skip (length (concat (map range_bits ns))) (skip 16 (AlignReadToByteBoundary r)))
      \<and> rlist_ok rl' \<and> items rl' = items rl0 @ ns"
    by (rule deserialize_runs [OF assms(1) rl0(2) r1 d assms(7)]) (use rl0(3) assms(6) in simp_all)
  then show ?thesis
    using rl0 rd al(1) assms(6) by (auto simp: RL_Deserialize_def skip_def add.assoc)
qed

section \<open>Properties\<close>

text \<open>C30: an acknowledgement arrives: the ranges at the front of a list that fit into the datagram, written by a host and
  read by another host of either byte order into any list, are there exactly that list, read to the last bit; the
  sender's list keeps the ranges that did not fit, or all of them when it was not to forget.\<close>

theorem range_list_travels:
  assumes "bit_laws l" "bit_laws l'" "rlist_ok rl" "rlist_ok rl2" "length (items rl) < 65536"
    and "\<And>n. n \<in> set (items rl) \<Longrightarrow> minIndex n \<le> maxIndex n"
    and "stream_ok s" "numberOfBitsUsed s < 1073741824" "stream_ok t0" "numberOfBitsUsed t0 = 0" "readOffset t0 = 0"
  shows "\<exists>bits s' rl'. RL_Serialize l t0 maxBits clear rl s = Inr (bits, s', rl')
    \<and> items rl' = (if clear then drop (fits maxBits 0 (items rl)) (items rl) else items rl)
    \<and> (\<forall>r. stream_ok r \<and> content r = content s' \<and> readOffset r = numberOfBitsUsed s \<longrightarrow>
         (\<exists>rl2'. RL_Deserialize l' z j1 j2 rl2 r = Inr (True, rl2', r\<lparr>readOffset := numberOfBitsUsed s'\<rparr>)
           \<and> items rl2' = take (fits maxBits 0 (items rl)) (items rl)))"
proof -
  define k where "k = fits maxBits 0 (items rl)"
  define ns where "ns = take k (items rl)"
  have ns: "length ns = k" "k < 65536" using fits_le [of maxBits 0 "items rl"] assms(5) by (simp_all add: ns_def k_def)
  have mm: "minIndex n \<le> maxIndex n" if "n \<in> set ns" for n using assms(6) that by (auto simp: ns_def dest: in_set_takeD)
  obtain bits s' rl' pb where w: "RL_Serialize l t0 maxBits clear rl s = Inr (bits, s', rl')"
      "appends s s' (pb @ wire 2 k @ concat (map range_bits ns))" "length pb = pad (numberOfBitsUsed s)"
      "items rl' = (if clear then drop k (items rl) else items rl)"
    using serialize_ok [OF assms(1,3,5,7-11), of maxBits clear] by (auto simp: k_def ns_def)
  have "\<exists>rl2'. RL_Deserialize l' z j1 j2 rl2 r = Inr (True, rl2', r\<lparr>readOffset := numberOfBitsUsed s'\<rparr>) \<and> items rl2' = ns"
    if r: "stream_ok r" "content r = content s'" "readOffset r = numberOfBitsUsed s" for r
  proof -
    have "reads_on r (content s) (pb @ wire 2 (length ns) @ concat (map range_bits ns) @ [])"
      using r w(2) ns(1) length_content [OF assms(7)] by (simp add: reads_on_def appends_def)
    from deserialize_ok [OF assms(2,4) this _ _ _ mm, of z j1 j2] show ?thesis
      using w(3) ns length_content [OF assms(7)] assms(8) appends_used [OF assms(7) w(2)] r(3)
      by (auto simp: skip_def add.assoc)
  qed
  then show ?thesis using w(1,4) unfolding k_def ns_def by blast
qed

definition wire_ranges :: ranges where
  "wire_ranges = \<lparr>listArray = Arr [RangeNode 3 8, RangeNode 12 12], list_size = 2, allocation_size = 2\<rparr>"

lemma wire_ranges_ok: "rlist_ok wire_ranges" "items wire_ranges = [RangeNode 3 8, RangeNode 12 12]" "rlist_ok List_new"
  by (simp_all add: wire_ranges_def rlist_ok_def items_def List_new_def)

lemma new_stream_ok: "stream_ok new_stream" "numberOfBitsUsed new_stream = 0" "readOffset new_stream = 0"
  by (simp_all add: new_stream_def stream_ok_def)

theorem range_list_travels_witness:
  "\<exists>bits s' rl' rl2'. RL_Serialize (plain_lib False) new_stream 150 True wire_ranges new_stream = Inr (bits, s', rl')
    \<and> items rl' = [RangeNode 12 12]
    \<and> RL_Deserialize (plain_lib True) (RangeNode 0 0) 0 0 List_new (s'\<lparr>readOffset := 0\<rparr>)
        = Inr (True, rl2', s'\<lparr>readOffset := numberOfBitsUsed s'\<rparr>)
    \<and> items rl2' = [RangeNode 3 8]"
proof -
  have f: "fits 150 0 (items wire_ranges) = 1" by (simp add: wire_ranges_ok counted_def RangeNode_def)
  have mm: "minIndex n \<le> maxIndex n" if "n \<in> set (items wire_ranges)" for n
    using that by (auto simp: wire_ranges_ok RangeNode_def)
  obtain bits s' rl' where w: "RL_Serialize (plain_lib False) new_stream 150 True wire_ranges new_stream = Inr (bits, s', rl')"
      "items rl' = [RangeNode 12 12]"
      "\<forall>r. stream_ok r \<and> content r = content s' \<and> readOffset r = 0 \<longrightarrow>
         (\<exists>rl2'. RL_Deserialize (plain_lib True) (RangeNode 0 0) 0 0 List_new r = Inr (True, rl2', r\<lparr>readOffset := numberOfBitsUsed s'\<rparr>)
           \<and> items rl2' = [RangeNode 3 8])"
    using range_list_travels [OF plain_laws [of False] plain_laws [of True] wire_ranges_ok(1,3) _ mm new_stream_ok(1) _ new_stream_ok,
        of 150 True "RangeNode 0 0" 0 0, unfolded f]
    by (auto simp: wire_ranges_ok new_stream_ok)
  obtain pb bs where "appends new_stream s' (pb @ bs)"
    using serialize_ok [OF plain_laws [of False] wire_ranges_ok(1) _ new_stream_ok(1) _ new_stream_ok(1-3), of 150 True] w(1)
    by (auto simp: wire_ranges_ok new_stream_ok)
  then have "stream_ok (s'\<lparr>readOffset := 0\<rparr>)" "content (s'\<lparr>readOffset := 0\<rparr>) = content s'"
    by (simp_all add: appends_def stream_ok_def content_def)
  then obtain rl2' where "RL_Deserialize (plain_lib True) (RangeNode 0 0) 0 0 List_new (s'\<lparr>readOffset := 0\<rparr>)
      = Inr (True, rl2', s'\<lparr>readOffset := numberOfBitsUsed s'\<rparr>)" "items rl2' = [RangeNode 3 8]"
    using w(3) [THEN spec, of "s'\<lparr>readOffset := 0\<rparr>"] by auto
  then show ?thesis using w(1,2) by blast
qed

text \<open>\<open>Serialize\<close> keeps to its limit: behind the padding to a byte it writes the 16-bit count and at most
  \<open>maxBits\<close> bits in all, when the limit has room for the count; the number it returns is not that number of
  bits but too large, by 8 or 16 for each range, and exceeds it whenever a range was written.\<close>

lemma range_list_bits:
  assumes "bit_laws l" "rlist_ok rl" "length (items rl) < 65536" "stream_ok s" "numberOfBitsUsed s < 1073741824"
    and "stream_ok t0" "numberOfBitsUsed t0 = 0" "readOffset t0 = 0" "16 \<le> maxBits"
  shows "\<exists>bits s' rl'. RL_Serialize l t0 maxBits clear rl s = Inr (bits, s', rl')
    \<and> numberOfBitsUsed s' \<le> numberOfBitsUsed s + pad (numberOfBitsUsed s) + maxBits
    \<and> numberOfBitsUsed s' + 8 * fits maxBits 0 (items rl) \<le> numberOfBitsUsed s + pad (numberOfBitsUsed s) + bits
    \<and> bits \<le> maxBits + 7"
proof -
  let ?k = "fits maxBits 0 (items rl)"
  let ?cnt = "sum_list (map counted (take ?k (items rl)))"
  obtain s' rl' pb where w: "RL_Serialize l t0 maxBits clear rl s = Inr (?cnt + 16, s', rl')"
      "appends s s' (pb @ wire 2 ?k @ concat (map range_bits (take ?k (items rl))))" "length pb = pad (numberOfBitsUsed s)"
    using serialize_ok [OF assms(1-8), of maxBits clear] by auto
  have u: "numberOfBitsUsed s' = numberOfBitsUsed s + pad (numberOfBitsUsed s) + 16
      + sum_list (map (length \<circ> range_bits) (take ?k (items rl)))"
    using appends_used [OF assms(4) w(2)] w(3) by (simp add: length_concat)
  have b: "sum_list (map (length \<circ> range_bits) (take ?k (items rl))) + 8 * ?k \<le> ?cnt"
    using bits_counted [of "take ?k (items rl)"] fits_le [of maxBits 0 "items rl"] by simp
  have c: "?cnt + 9 \<le> maxBits \<or> ?k = 0" using counted_fits [of maxBits 0 "items rl"] by auto
  have "?k = 0 \<Longrightarrow> ?cnt = 0" by simp
  then have "?cnt + 16 \<le> maxBits + 7 \<or> ?k = 0" "?k = 0 \<or> 1 \<le> ?k" using c by auto
  then show ?thesis using w(1) u b c assms(9) by (intro exI [of _ "?cnt + 16"] exI [of _ s'] exI [of _ rl']) auto
qed

end
