(* ===== verification/RakHeap.thy ===== *)
theory RakHeap
  imports RakList "HOL-Library.Multiset"
begin

text \<open>
  \<open>DataStructures::Heap\<close> of RakNet (\<^verbatim>\<open>DS_Heap.h\<close>): a binary heap in a \<open>List\<close>, with the greatest weight on top
  where \<open>isMaxHeap\<close> and the least otherwise. Weights are linearly ordered, as integers are (floating point
  weights must not be NaN).
\<close>

section \<open>Code\<close>

record ('w, 'd) heap_node =
  weight :: 'w
  hdata :: 'd

record ('w, 'd) rheap =
  heap :: "('w, 'd) heap_node rlist"
  optimizeNextSeriesPush :: bool

definition Heap_new :: "('w, 'd) rheap" where
  "Heap_new = \<lparr>heap = List_new, optimizeNextSeriesPush = False\<rparr>"

definition StartSeries :: "('w, 'd) rheap \<Rightarrow> ('w, 'd) rheap" where
  "StartSeries h = h\<lparr>optimizeNextSeriesPush := False\<rparr>"

definition LeftChild :: "nat \<Rightarrow> nat" where "LeftChild i = w32 (i * 2 + 1)"
definition RightChild :: "nat \<Rightarrow> nat" where "RightChild i = w32 (i * 2 + 2)"
definition Parent :: "nat \<Rightarrow> nat" where "Parent i = dec32 i div 2"

definition HeapNode :: "'w \<Rightarrow> 'd \<Rightarrow> ('w, 'd) heap_node" where
  "HeapNode w d = \<lparr>weight = w, hdata = d\<rparr>"

text \<open>\<open>before m a b\<close>: a weight \<open>a\<close> belongs above a weight \<open>b\<close>.\<close>

definition before :: "bool \<Rightarrow> 'w::linorder \<Rightarrow> 'w \<Rightarrow> bool" where
  "before isMaxHeap a b = (if isMaxHeap then b < a else a < b)"

definition Swap :: "nat \<Rightarrow> nat \<Rightarrow> 'n rlist \<Rightarrow> 'n rlist res" where
  "Swap i j l =
     rbind (List_Get i l) (\<lambda>temp. rbind (List_Get j l) (\<lambda>b.
     rbind (List_put i b l) (List_put j temp)))"

lemma Parent_less:
  assumes "0 < i"
  shows "Parent i < i"
proof (cases "i \<le> 4294967296")
  case True
  then show ?thesis using assms by (auto simp: Parent_def dec32_pos)
next
  case False
  have "dec32 i < 4294967296" by (simp add: dec32_def w32_def)
  then show ?thesis using False by (auto simp: Parent_def)
qed

function Push_loop :: "bool \<Rightarrow> 'w::linorder \<Rightarrow> nat \<Rightarrow> ('w, 'd) heap_node rlist \<Rightarrow> ('w, 'd) heap_node rlist res" where
  "Push_loop m w currentIndex l =
     (if currentIndex = 0 then Inr l
      else case List_Get (Parent currentIndex) l of
             Inl e \<Rightarrow> Inl e
           | Inr p \<Rightarrow>
               if before m w (weight p) then
                 (case Swap currentIndex (Parent currentIndex) l of
                    Inl e \<Rightarrow> Inl e
                  | Inr l' \<Rightarrow> Push_loop m w (Parent currentIndex) l')
               else Inr l)"
  by pat_completeness auto
termination by (relation "measure (\<lambda>(m, w, i, l). i)") (auto intro: Parent_less)

declare Push_loop.simps [simp del]

definition Heap_Push :: "bool \<Rightarrow> ('w::linorder, 'd) heap_node \<Rightarrow> 'w \<Rightarrow> 'd \<Rightarrow> ('w, 'd) rheap \<Rightarrow> ('w, 'd) rheap res" where
  "Heap_Push m z w d h =
     rbind (List_Insert z (HeapNode w d) (heap h)) (\<lambda>l.
     rbind (Push_loop m w (List_Size (heap h)) l) (\<lambda>l'. Inr (h\<lparr>heap := l'\<rparr>)))"

text \<open>Whether a weight in the part of the heap from the parent on forbids appending.\<close>

definition cant_optimize :: "bool \<Rightarrow> 'w::linorder \<Rightarrow> ('w, 'd) heap_node rlist \<Rightarrow> bool res" where
  "cant_optimize m w l =
     foldE (\<lambda>i stop. if stop then Inr True else rbind (List_Get i l) (\<lambda>p. Inr (before m w (weight p))))
       (if 0 < List_Size l then [Parent (List_Size l)..<List_Size l] else []) False"

definition PushSeries :: "bool \<Rightarrow> ('w::linorder, 'd) heap_node \<Rightarrow> 'w \<Rightarrow> 'd \<Rightarrow> ('w, 'd) rheap \<Rightarrow> ('w, 'd) rheap res" where
  "PushSeries m z w d h =
     (if \<not> optimizeNextSeriesPush h then
        rbind (cant_optimize m w (heap h)) (\<lambda>stop.
        if stop then Heap_Push m z w d h
        else rbind (List_Insert z (HeapNode w d) (heap h)) (\<lambda>l. Inr \<lparr>heap = l, optimizeNextSeriesPush = True\<rparr>))
      else rbind (List_Insert z (HeapNode w d) (heap h)) (\<lambda>l. Inr (h\<lparr>heap := l\<rparr>)))"

partial_function (option) Pop_loop ::
  "bool \<Rightarrow> 'w::linorder \<Rightarrow> nat \<Rightarrow> ('w, 'd) heap_node rlist \<Rightarrow> ('w, 'd) heap_node rlist res option" where
  "Pop_loop m w currentIndex l =
     (if List_Size l \<le> LeftChild currentIndex then Some (Inr l)
      else case List_Get (LeftChild currentIndex) l of
        Inl e \<Rightarrow> Some (Inl e)
      | Inr left \<Rightarrow>
        if List_Size l \<le> RightChild currentIndex then
          Some (if before m (weight left) w then Swap (LeftChild currentIndex) currentIndex l else Inr l)
        else case List_Get (RightChild currentIndex) l of
          Inl e \<Rightarrow> Some (Inl e)
        | Inr right \<Rightarrow>
          if \<not> before m (weight left) w \<and> \<not> before m (weight right) w then Some (Inr l)
          else let child = (if before m (weight left) (weight right) then LeftChild currentIndex
                            else RightChild currentIndex)
               in case Swap child currentIndex l of
                    Inl e \<Rightarrow> Some (Inl e)
                  | Inr l' \<Rightarrow> Pop_loop m w child l')"

definition Heap_Pop :: "bool \<Rightarrow> nat \<Rightarrow> ('w::linorder, 'd) rheap \<Rightarrow> ('d \<times> ('w, 'd) rheap) res option" where
  "Heap_Pop m startingIndex h =
     (case rbind (List_Get startingIndex (heap h)) (\<lambda>r.
           rbind (List_Get (dec32 (List_Size (heap h))) (heap h)) (\<lambda>x.
           rbind (List_put startingIndex x (heap h)) (\<lambda>l. Inr (r, x, List_RemoveFromEnd 1 l)))) of
        Inl e \<Rightarrow> Some (Inl e)
      | Inr (r, x, l) \<Rightarrow>
          (case Pop_loop m (weight x) startingIndex l of
             None \<Rightarrow> None
           | Some res \<Rightarrow> Some (rbind res (\<lambda>l'. Inr (hdata r, h\<lparr>heap := l'\<rparr>)))))"

definition Heap_Peek :: "nat \<Rightarrow> ('w, 'd) rheap \<Rightarrow> 'd res" where
  "Heap_Peek i h = rbind (List_Get i (heap h)) (\<lambda>n. Inr (hdata n))"

definition PeekWeight :: "nat \<Rightarrow> ('w, 'd) rheap \<Rightarrow> 'w res" where
  "PeekWeight i h = rbind (List_Get i (heap h)) (\<lambda>n. Inr (weight n))"

definition Heap_Get :: "nat \<Rightarrow> ('w, 'd) rheap \<Rightarrow> 'd res" where
  "Heap_Get i h = rbind (List_Get i (heap h)) (\<lambda>n. Inr (hdata n))"

definition Heap_Clear :: "bool \<Rightarrow> ('w, 'd) rheap \<Rightarrow> ('w, 'd) rheap res" where
  "Heap_Clear keep h = rbind (List_Clear keep (heap h)) (\<lambda>l. Inr (h\<lparr>heap := l\<rparr>))"

definition Heap_Size :: "('w, 'd) rheap \<Rightarrow> nat" where "Heap_Size h = List_Size (heap h)"

section \<open>The order of a heap\<close>

abbreviation par :: "nat \<Rightarrow> nat" where "par i \<equiv> (i - Suc 0) div 2"

lemma Parent_par: "0 < i \<Longrightarrow> i \<le> 4294967296 \<Longrightarrow> Parent i = par i"
  by (simp add: Parent_def dec32_pos)

lemma par_less: "0 < i \<Longrightarrow> par i < i"
  by auto

lemma before_asym: "before m a b \<Longrightarrow> \<not> before m b a"
  by (auto simp: before_def split: if_splits)

lemma not_before_trans: "\<not> before m b a \<Longrightarrow> \<not> before m c b \<Longrightarrow> \<not> before m c a"
  by (auto simp: before_def split: if_splits)

lemma before_trans1: "before m a b \<Longrightarrow> \<not> before m c b \<Longrightarrow> before m a c"
  by (auto simp: before_def split: if_splits)

definition keeps :: "bool \<Rightarrow> ('w::linorder, 'd) heap_node list \<Rightarrow> nat \<Rightarrow> bool" where
  "keeps m xs i \<longleftrightarrow> \<not> before m (weight (xs ! i)) (weight (xs ! par i))"

definition heap_order :: "bool \<Rightarrow> ('w::linorder, 'd) heap_node list \<Rightarrow> bool" where
  "heap_order m xs \<longleftrightarrow> (\<forall>i. 0 < i \<and> i < length xs \<longrightarrow> keeps m xs i)"

lemma heap_order_code: "heap_order m xs \<longleftrightarrow> (\<forall>i \<in> set [1..<length xs]. keeps m xs i)"
  by (auto simp: heap_order_def)

text \<open>The top of a heap is before every other node, or as far.\<close>

lemma heap_top:
  assumes "heap_order m xs" "i < length xs"
  shows "\<not> before m (weight (xs ! i)) (weight (xs ! 0))"
  using assms(2)
proof (induction i rule: less_induct)
  case (less i)
  show ?case
  proof (cases "i = 0")
    case False
    then have "par i < i" by auto
    then have "\<not> before m (weight (xs ! par i)) (weight (xs ! 0))" using less by auto
    moreover have "\<not> before m (weight (xs ! i)) (weight (xs ! par i))"
      using assms(1) False less.prems by (auto simp: heap_order_def keeps_def)
    ultimately show ?thesis by (rule not_before_trans)
  qed (simp add: before_def)
qed

definition swap :: "nat \<Rightarrow> nat \<Rightarrow> 'a list \<Rightarrow> 'a list" where
  "swap i j xs = xs[i := xs ! j, j := xs ! i]"

lemma length_swap [simp]: "length (swap i j xs) = length xs"
  by (simp add: swap_def)

lemma nth_swap:
  "i < length xs \<Longrightarrow> j < length xs \<Longrightarrow> k < length xs \<Longrightarrow>
    swap i j xs ! k = (if k = j then xs ! i else if k = i then xs ! j else xs ! k)"
  by (simp add: swap_def nth_list_update)

lemma mset_swap_list [simp]: "i < length xs \<Longrightarrow> j < length xs \<Longrightarrow> mset (swap i j xs) = mset xs"
  by (simp add: swap_def mset_swap)

lemma Swap_runs:
  assumes "rlist_ok l" "i < length (items l)" "j < length (items l)"
  shows "runs_as (Swap i j l) (swap i j (items l))"
proof -
  obtain l1 where l1: "List_put i (items l ! j) l = Inr l1" "rlist_ok l1" "items l1 = (items l)[i := items l ! j]"
    using put_runs [OF assms(1,2)] by (auto elim: runs_asE)
  then have "runs_as (List_put j (items l ! i) l1) (swap i j (items l))"
    using put_runs [OF l1(2), of j "items l ! i"] assms(3) by (simp add: swap_def)
  then show ?thesis using l1(1) Get_ok [OF assms(1)] assms(2,3) by (simp add: Swap_def)
qed

section \<open>Moving up\<close>

text \<open>All but the node at \<open>i\<close> keep the order, and what is below \<open>i\<close> is in order with what is above.\<close>

definition above_ok :: "bool \<Rightarrow> nat \<Rightarrow> ('w::linorder, 'd) heap_node list \<Rightarrow> bool" where
  "above_ok m i xs \<longleftrightarrow> (\<forall>j. 0 < j \<and> j < length xs \<and> j \<noteq> i \<longrightarrow> keeps m xs j)
     \<and> (\<forall>j. 0 < i \<and> 0 < j \<and> j < length xs \<and> par j = i \<longrightarrow>
          \<not> before m (weight (xs ! j)) (weight (xs ! par i)))"

lemma above_ok_step:
  assumes "above_ok m i xs" "0 < i" "i < length xs" "before m (weight (xs ! i)) (weight (xs ! par i))"
  shows "above_ok m (par i) (swap i (par i) xs)"
proof -
  let ?p = "par i" and ?ys = "swap i (par i) xs"
  have p: "?p < i" "?p < length xs" using assms(2,3) by auto
  have ys: "?ys ! k = (if k = ?p then xs ! i else if k = i then xs ! ?p else xs ! k)" if "k < length xs" for k
    using nth_swap [OF assms(3) p(2) that] .
  have below: "\<not> before m (weight (xs ! j)) (weight (xs ! ?p))" if "0 < j" "j < length xs" "par j = ?p" "j \<noteq> i" for j
    using assms(1) that by (auto simp: above_ok_def keeps_def)
  have "keeps m ?ys j" if j: "0 < j" "j < length xs" "j \<noteq> ?p" for j
  proof -
    have pj: "par j < length xs" "par j \<noteq> j" using j by auto
    consider "j = i" | "j \<noteq> i" "par j = i" | "j \<noteq> i" "par j = ?p" "par j \<noteq> i" | "j \<noteq> i" "par j \<noteq> i" "par j \<noteq> ?p" by blast
    then show ?thesis
    proof cases
      case 1
      then show ?thesis using before_asym [OF assms(4)] p assms(3) by (simp add: keeps_def ys)
    next
      case 2
      then have "\<not> before m (weight (xs ! j)) (weight (xs ! ?p))"
        using assms(1,2) j by (auto simp: above_ok_def)
      then show ?thesis using 2 j p assms(3) by (simp add: keeps_def ys)
    next
      case 3
      then have "\<not> before m (weight (xs ! j)) (weight (xs ! i))"
        using below [OF j(1,2)] not_before_trans before_asym [OF assms(4)] by blast
      then show ?thesis using 3 j pj p by (simp add: keeps_def ys)
    next
      case 4
      then have "keeps m xs j" using assms(1) j by (auto simp: above_ok_def)
      then show ?thesis using 4 j pj by (simp add: keeps_def ys)
    qed
  qed
  moreover have "\<not> before m (weight (?ys ! j)) (weight (?ys ! par ?p))"
    if j: "0 < ?p" "0 < j" "j < length xs" "par j = ?p" for j
  proof -
    have "par ?p < ?p" using par_less [OF j(1)] .
    then have pp: "par ?p < length xs" "par ?p \<noteq> ?p" "par ?p \<noteq> i" using p by linarith+
    have up: "\<not> before m (weight (xs ! ?p)) (weight (xs ! par ?p))"
      using assms(1) j(1) p by (auto simp: above_ok_def keeps_def)
    have jp: "j \<noteq> ?p" using j by auto
    show ?thesis
    proof (cases "j = i")
      case True
      then show ?thesis using up pp assms(3) p by (simp add: ys)
    next
      case False
      have "\<not> before m (weight (xs ! j)) (weight (xs ! par ?p))"
        using not_before_trans [OF up] below [OF j(2,3,4) False] by blast
      then show ?thesis using False jp j(3) pp by (simp add: ys)
    qed
  qed
  ultimately show ?thesis unfolding above_ok_def by simp
qed

lemma above_ok_done:
  assumes "above_ok m i xs" "i = 0 \<or> \<not> before m (weight (xs ! i)) (weight (xs ! par i))"
  shows "heap_order m xs"
  using assms by (auto simp: heap_order_def above_ok_def keeps_def)

lemma Push_loop_runs:
  assumes "rlist_ok l" "above_ok m i (items l)" "i < length (items l)" "weight (items l ! i) = w"
  shows "\<exists>l'. Push_loop m w i l = Inr l' \<and> rlist_ok l' \<and> heap_order m (items l') \<and> mset (items l') = mset (items l)"
  using assms
proof (induction i arbitrary: l rule: less_induct)
  case (less i)
  have n: "length (items l) < 2147483648"
    using less.prems(1) length_items [OF less.prems(1)] by (auto simp: rlist_ok_def)
  show ?case
  proof (cases "i = 0")
    case True
    then show ?thesis using less.prems(1,2) above_ok_done [of m i "items l"]
      by (subst Push_loop.simps) auto
  next
    case False
    have P: "Parent i = par i" using Parent_par [of i] False less.prems(3) n by simp
    have p: "par i < i" "par i < length (items l)" using False less.prems(3) by auto
    have get: "List_Get (par i) l = Inr (items l ! par i)" using Get_ok [OF less.prems(1) p(2)] .
    show ?thesis
    proof (cases "before m w (weight (items l ! par i))")
      case True
      obtain l1 where l1: "Swap i (par i) l = Inr l1" "rlist_ok l1" "items l1 = swap i (par i) (items l)"
        using Swap_runs [OF less.prems(1,3) p(2)] by (auto elim: runs_asE)
      have "above_ok m (par i) (items l1)"
        using above_ok_step [OF less.prems(2) _ less.prems(3)] False True less.prems(4) l1(3) by simp
      moreover have "weight (items l1 ! par i) = w"
        using nth_swap [OF less.prems(3) p(2) p(2)] l1(3) less.prems(4) by simp
      ultimately obtain l' where "Push_loop m w (par i) l1 = Inr l'" "rlist_ok l'" "heap_order m (items l')"
          "mset (items l') = mset (items l1)"
        using less.IH [OF p(1) l1(2)] p(2) l1(3) by auto
      then show ?thesis using False True get l1 less.prems(3) p(2)
        by (subst Push_loop.simps) (simp add: P)
    next
      case stop: False
      then have "heap_order m (items l)" using above_ok_done [OF less.prems(2)] less.prems(4) by simp
      then show ?thesis using False stop get less.prems(1) by (subst Push_loop.simps) (simp add: P)
    qed
  qed
qed

section \<open>Moving down\<close>

definition below_ok :: "bool \<Rightarrow> nat \<Rightarrow> ('w::linorder, 'd) heap_node list \<Rightarrow> bool" where
  "below_ok m i xs \<longleftrightarrow> (\<forall>j. 0 < j \<and> j < length xs \<and> par j \<noteq> i \<longrightarrow> keeps m xs j)
     \<and> (\<forall>j. 0 < i \<and> 0 < j \<and> j < length xs \<and> par j = i \<longrightarrow>
          \<not> before m (weight (xs ! j)) (weight (xs ! par i)))"

lemma below_ok_step:
  assumes "below_ok m i xs" "0 < c" "c < length xs" "par c = i" "before m (weight (xs ! c)) (weight (xs ! i))"
    and "\<And>j. 0 < j \<Longrightarrow> j < length xs \<Longrightarrow> par j = i \<Longrightarrow> \<not> before m (weight (xs ! j)) (weight (xs ! c))"
  shows "below_ok m c (swap c i xs)"
proof -
  let ?ys = "swap c i xs"
  have i: "i < c" "i < length xs" using assms(2-4) by auto
  have ys: "?ys ! k = (if k = i then xs ! c else if k = c then xs ! i else xs ! k)" if "k < length xs" for k
    using nth_swap [OF assms(3) i(2) that] .
  have "keeps m ?ys j" if j: "0 < j" "j < length xs" "par j \<noteq> c" for j
  proof -
    have pj: "par j < length xs" "par j \<noteq> j" using j by auto
    consider "j = i" | "j = c" | "j \<noteq> i" "j \<noteq> c" "par j = i" | "j \<noteq> i" "j \<noteq> c" "par j \<noteq> i" by blast
    then show ?thesis
    proof cases
      case 1
      then have "\<not> before m (weight (xs ! c)) (weight (xs ! par i))"
        using assms(1-4) j(1) by (auto simp: below_ok_def)
      then show ?thesis using 1 j pj by (auto simp: keeps_def ys)
    next
      case 2
      then show ?thesis using assms(3,4) before_asym [OF assms(5)] i by (simp add: keeps_def ys)
    next
      case 3
      then show ?thesis using assms(6) [OF j(1,2)] j i by (simp add: keeps_def ys)
    next
      case 4
      then have "keeps m xs j" using assms(1) j by (auto simp: below_ok_def)
      then show ?thesis using 4 j pj by (simp add: keeps_def ys)
    qed
  qed
  moreover have "\<not> before m (weight (?ys ! j)) (weight (?ys ! par c))"
    if j: "0 < j" "j < length xs" "par j = c" for j
  proof -
    have "j \<noteq> c" "j \<noteq> i" using j i by auto
    moreover have "keeps m xs j" using assms(1) j i by (auto simp: below_ok_def)
    ultimately show ?thesis using j i assms(4) by (simp add: keeps_def ys)
  qed
  ultimately show ?thesis unfolding below_ok_def by simp
qed

lemma below_ok_done:
  assumes "below_ok m i xs" "\<And>j. 0 < j \<Longrightarrow> j < length xs \<Longrightarrow> par j = i \<Longrightarrow> keeps m xs j"
  shows "heap_order m xs"
  using assms by (auto simp: heap_order_def below_ok_def)


lemma child_cases: "0 < j \<and> par j = i \<longleftrightarrow> j = 2 * i + 1 \<or> j = 2 * i + 2"
  by auto

lemma items_small: "rlist_ok l \<Longrightarrow> length (items l) < 2147483648"
  using length_items [of l] by (auto simp: rlist_ok_def)

lemma child_index:
  assumes "rlist_ok l" "i < length (items l)"
  shows "LeftChild i = 2 * i + 1" "RightChild i = 2 * i + 2" "List_Size l = length (items l)"
  using items_small [OF assms(1)] assms length_items [OF assms(1)]
  by (simp_all add: LeftChild_def RightChild_def List_Size_def mult.commute)

text \<open>What the loop of \<open>Pop\<close> ends in, for a heap in order below and above \<open>i\<close>.\<close>

definition heaped :: "bool \<Rightarrow> ('w::linorder, 'd) heap_node multiset \<Rightarrow> ('w, 'd) heap_node rlist res option \<Rightarrow> bool" where
  "heaped m b r \<longleftrightarrow> (\<exists>l. r = Some (Inr l) \<and> rlist_ok l \<and> heap_order m (items l) \<and> mset (items l) = b)"

lemma heapedI: "r = Some (Inr l) \<Longrightarrow> rlist_ok l \<Longrightarrow> heap_order m (items l) \<Longrightarrow> mset (items l) = b \<Longrightarrow> heaped m b r"
  by (auto simp: heaped_def)

lemma Pop_loop_stays:
  assumes "rlist_ok l" "i < length (items l)"
    and "\<And>j. 0 < j \<Longrightarrow> j < length (items l) \<Longrightarrow> par j = i \<Longrightarrow> \<not> before m (weight (items l ! j)) w"
  shows "Pop_loop m w i l = Some (Inr l)"
  using assms(3) [of "2 * i + 1"] assms(3) [of "2 * i + 2"]
  by (subst Pop_loop.simps) (simp add: child_index [OF assms(1,2)] Get_ok [OF assms(1)])

lemma Pop_loop_runs:
  assumes "rlist_ok l" "below_ok m i (items l)" "i < length (items l)" "weight (items l ! i) = w"
  shows "heaped m (mset (items l)) (Pop_loop m w i l)"
  using assms
proof (induction "length (items l) - i" arbitrary: l i rule: less_induct)
  case (less l i)
  note ok = less.prems(1) and i = less.prems(3) and w = less.prems(4)
  note ch = child_index [OF ok i]
  show ?case
  proof (cases "\<exists>j. 0 < j \<and> j < length (items l) \<and> par j = i \<and> before m (weight (items l ! j)) w")
    case False
    then have "Pop_loop m w i l = Some (Inr l)" by (intro Pop_loop_stays [OF ok i]) blast
    moreover have "heap_order m (items l)"
      using False w by (intro below_ok_done [OF less.prems(2)]) (auto simp: keeps_def)
    ultimately show ?thesis using ok by (intro heapedI) simp_all
  next
    case True
    then have L: "2 * i + 1 < length (items l)" using child_cases [of _ i] by fastforce
    define c where "c = (if length (items l) \<le> 2 * i + 2 then 2 * i + 1
      else if before m (weight (items l ! (2 * i + 1))) (weight (items l ! (2 * i + 2))) then 2 * i + 1 else 2 * i + 2)"
    have c: "0 < c" "c < length (items l)" "par c = i" "i < c" using L by (auto simp: c_def)
    have best: "\<not> before m (weight (items l ! j)) (weight (items l ! c))"
      if "0 < j" "j < length (items l)" "par j = i" for j
      using that child_cases [of j i] by (auto simp: c_def before_def)
    have up: "before m (weight (items l ! c)) (weight (items l ! i))"
      using True best before_trans1 w before_asym not_before_trans by metis
    obtain l1 where l1: "Swap c i l = Inr l1" "rlist_ok l1" "items l1 = swap c i (items l)"
      using Swap_runs [OF ok c(2) i] by (auto elim: runs_asE)
    have below: "below_ok m c (items l1)"
      using below_ok_step [OF less.prems(2) c(1-3) up] best l1(3) by simp
    have same: "mset (items l1) = mset (items l)" "length (items l1) = length (items l)" using c(2) i l1(3) by simp_all
    have wc: "weight (items l1 ! c) = w" using nth_swap [OF c(2) i c(2)] l1(3) w c(4) by simp
    show ?thesis
    proof (cases "length (items l) \<le> 2 * i + 2")
      case one: True
      then have cl: "c = 2 * i + 1" by (simp add: c_def)
      have "Pop_loop m w i l = Some (Inr l1)"
        using one L up w l1(1) by (subst Pop_loop.simps) (simp add: ch Get_ok [OF ok] cl)
      moreover have "heap_order m (items l1)"
        using one cl same(2) by (intro below_ok_done [OF below]) auto
      ultimately show ?thesis using l1(2) same(1) by (intro heapedI [of _ l1]) simp_all
    next
      case two: False
      have go: "\<not> (\<not> before m (weight (items l ! Suc (2 * i))) w \<and> \<not> before m (weight (items l ! Suc (Suc (2 * i)))) w)"
        using up w by (auto simp: c_def split: if_splits)
      have "Pop_loop m w i l = Pop_loop m w c l1"
      proof (cases "before m (weight (items l ! (2 * i + 1))) (weight (items l ! (2 * i + 2)))")
        case b: True
        then have "c = 2 * i + 1" using two by (simp add: c_def)
        then show ?thesis using b two L l1(1)
          by (subst Pop_loop.simps) (simp add: ch Get_ok [OF ok] Let_def go)
      next
        case b: False
        then have "c = 2 * i + 2" using two by (simp add: c_def)
        then show ?thesis using b two L l1(1)
          by (subst Pop_loop.simps) (simp add: ch Get_ok [OF ok] Let_def go)
      qed
      moreover have "heaped m (mset (items l1)) (Pop_loop m w c l1)"
        using c same(2) by (intro less.hyps l1(2) below wc) simp_all
      ultimately show ?thesis using same(1) by simp
    qed
  qed
qed


section \<open>Push and Pop\<close>

definition heap_ok :: "bool \<Rightarrow> ('w::linorder, 'd) rheap \<Rightarrow> bool" where
  "heap_ok m h \<longleftrightarrow> rlist_ok (heap h) \<and> heap_order m (items (heap h))"

definition nodes :: "('w, 'd) rheap \<Rightarrow> ('w, 'd) heap_node multiset" where
  "nodes h = mset (items (heap h))"

lemma size_nodes: "heap_ok m h \<Longrightarrow> size (nodes h) = List_Size (heap h)"
  using length_items [of "heap h"] by (simp add: heap_ok_def nodes_def List_Size_def)

lemma Heap_new_ok [simp]: "heap_ok m Heap_new" "nodes Heap_new = {#}"
  by (simp_all add: heap_ok_def nodes_def Heap_new_def heap_order_def)

lemma Insert_node:
  assumes "rlist_ok (heap h)" "size (nodes h) < 1073741824"
  obtains l where "List_Insert z x (heap h) = Inr l" "rlist_ok l" "items l = items (heap h) @ [x]"
proof -
  have "runs_as (List_Insert z x (heap h)) (items (heap h) @ [x])"
    using Insert_runs [OF assms(1)] assms(2) length_items [OF assms(1)] by (simp add: nodes_def)
  then show ?thesis using that by (rule runs_asE)
qed

lemma Heap_Push_runs:
  assumes "heap_ok m h" "size (nodes h) < 1073741824"
  shows "\<exists>h'. Heap_Push m z w d h = Inr h' \<and> heap_ok m h' \<and> nodes h' = add_mset (HeapNode w d) (nodes h)
    \<and> optimizeNextSeriesPush h' = optimizeNextSeriesPush h"
proof -
  note ok = assms(1) [unfolded heap_ok_def]
  obtain l where l: "List_Insert z (HeapNode w d) (heap h) = Inr l" "rlist_ok l" "items l = items (heap h) @ [HeapNode w d]"
    using Insert_node ok assms(2) by blast
  let ?n = "length (items (heap h))"
  have n: "List_Size (heap h) = ?n" using length_items [OF conjunct1 [OF ok]] by (simp add: List_Size_def)
  have "above_ok m ?n (items l)"
  proof -
    have len: "length (items l) = Suc ?n" by (simp add: l(3))
    have kept: "keeps m (items l) j" if "0 < j" "j < ?n" for j
      using ok that par_less [OF that(1)] by (simp add: l(3) heap_order_def keeps_def nth_append)
    have none: "par j \<noteq> ?n" if "0 < j" "j < Suc ?n" for j using par_less [OF that(1)] that(2) by linarith
    show ?thesis unfolding above_ok_def len
    proof (intro conjI allI impI)
      fix j assume "0 < j \<and> j < Suc ?n \<and> j \<noteq> ?n"
      then show "keeps m (items l) j" by (intro kept) simp_all
    next
      fix j assume "0 < ?n \<and> 0 < j \<and> j < Suc ?n \<and> par j = ?n"
      then show "\<not> before m (weight (items l ! j)) (weight (items l ! par ?n))" using none [of j] by simp
    qed
  qed
  then obtain l' where "Push_loop m w ?n l = Inr l'" "rlist_ok l'" "heap_order m (items l')" "mset (items l') = mset (items l)"
    using Push_loop_runs [of l m ?n w] l by (auto simp: HeapNode_def)
  then show ?thesis using l by (simp add: Heap_Push_def n heap_ok_def nodes_def)
qed

text \<open>What the first lines of \<open>Pop\<close> leave: the last node in the place of the one returned.\<close>

abbreviation plugged :: "nat \<Rightarrow> 'a list \<Rightarrow> 'a list" where
  "plugged s xs \<equiv> butlast (xs[s := last xs])"

lemma nth_plugged: "k < length xs - 1 \<Longrightarrow> plugged s xs ! k = (if k = s then last xs else xs ! k)"
  by (simp add: nth_butlast nth_list_update)

lemma mset_plugged:
  assumes "s < length xs"
  shows "add_mset (xs ! s) (mset (plugged s xs)) = mset xs"
proof -
  let ?n = "length xs - 1"
  have n: "?n < length xs" "xs \<noteq> []" using assms by auto
  have "swap s ?n xs = plugged s xs @ [xs ! s]"
    using n assms by (intro nth_equalityI)
      (auto simp: nth_swap nth_append nth_plugged [unfolded One_nat_def] last_conv_nth nth_butlast nth_list_update)
  then show ?thesis using mset_swap_list [OF assms n(1)] by (metis mset.simps mset_append add_mset_add_single)
qed

lemma Pop_start:
  assumes "rlist_ok (heap h)" "s < length (items (heap h))"
  shows "\<exists>l. rlist_ok l \<and> items l = plugged s (items (heap h)) \<and> Heap_Pop m s h =
    (case Pop_loop m (weight (last (items (heap h)))) s l of None \<Rightarrow> None
     | Some res \<Rightarrow> Some (rbind res (\<lambda>l'. Inr (hdata (items (heap h) ! s), h\<lparr>heap := l'\<rparr>))))"
proof -
  let ?xs = "items (heap h)" and ?n = "length (items (heap h))"
  have n: "?n - 1 < ?n" "?xs \<noteq> []" "dec32 (List_Size (heap h)) = ?n - 1"
    using assms items_small [OF assms(1)] length_items [OF assms(1)] by (auto simp: List_Size_def dec32_pos)
  obtain l where l: "List_put s (last ?xs) (heap h) = Inr l" "rlist_ok l" "items l = ?xs[s := last ?xs]"
    using put_runs [OF assms, of "last ?xs"] by (auto elim: runs_asE)
  have r: "rlist_ok (List_RemoveFromEnd 1 l)" "items (List_RemoveFromEnd 1 l) = plugged s ?xs"
    using RemoveFromEnd_ok [OF l(2), of 1] l(3) n(1) by (auto simp: butlast_conv_take)
  show ?thesis
    using l(1) n Get_ok [OF assms] Get_ok [OF assms(1) n(1)] r
    by (intro exI [of _ "List_RemoveFromEnd 1 l"]) (simp add: Heap_Pop_def last_conv_nth)
qed

lemma plugged_below:
  assumes "heap_order m xs" "s < length xs"
    and "s = 0 \<or> \<not> before m (weight (last xs)) (weight (xs ! par s))"
  shows "below_ok m s (plugged s xs)"
proof -
  let ?ys = "plugged s xs"
  have up: "\<not> before m (weight (xs ! j)) (weight (xs ! par j))" if "0 < j" "j < length xs" for j
    using assms(1) that by (auto simp: heap_order_def keeps_def)
  have "keeps m ?ys j" if j: "0 < j" "j < length xs - 1" "par j \<noteq> s" for j
  proof -
    have "par j < length xs - 1" using j by auto
    moreover have "\<not> before m (weight (xs ! j)) (weight (xs ! par j))" using up j by simp
    ultimately show ?thesis using j assms(3) by (cases "j = s") (simp_all add: keeps_def nth_plugged)
  qed
  moreover have "\<not> before m (weight (?ys ! j)) (weight (?ys ! par s))"
    if j: "0 < s" "0 < j" "j < length xs - 1" "par j = s" for j
  proof -
    have *: "par s < s" using par_less [OF j(1)] .
    have **: "s < j" using par_less [OF j(2)] j(4) by simp
    have "\<not> before m (weight (xs ! j)) (weight (xs ! s))" "\<not> before m (weight (xs ! s)) (weight (xs ! par s))"
      using up [of j] up [of s] j ** by simp_all
    then have "\<not> before m (weight (xs ! j)) (weight (xs ! par s))" using not_before_trans by blast
    moreover have "?ys ! j = xs ! j" "?ys ! par s = xs ! par s" using j * ** by (simp_all add: nth_plugged)
    ultimately show ?thesis by simp
  qed
  ultimately show ?thesis unfolding below_ok_def by simp
qed

lemma Heap_Pop_runs:
  assumes "heap_ok m h" "s < length (items (heap h))" and "xs = items (heap h)"
    and "s = 0 \<or> \<not> before m (weight (last xs)) (weight (xs ! par s))"
  shows "\<exists>h'. Heap_Pop m s h = Some (Inr (hdata (xs ! s), h')) \<and> heap_ok m h' \<and> nodes h = add_mset (xs ! s) (nodes h')"
proof -
  note ok = assms(1) [unfolded heap_ok_def]
  have b: "below_ok m s (plugged s xs)"
    using plugged_below [OF _ _ assms(4)] ok assms(2,3) by blast
  obtain l where l: "rlist_ok l" "items l = plugged s xs" and pop: "Heap_Pop m s h =
    (case Pop_loop m (weight (last xs)) s l of None \<Rightarrow> None
     | Some res \<Rightarrow> Some (rbind res (\<lambda>l'. Inr (hdata (xs ! s), h\<lparr>heap := l'\<rparr>))))"
    using Pop_start [OF conjunct1 [OF ok] assms(2)] assms(3) by blast
  have "heaped m (mset (items l)) (Pop_loop m (weight (last xs)) s l)"
  proof (cases "s < length (items l)")
    case True
    then show ?thesis using b l(2) by (intro Pop_loop_runs [OF l(1)]) (simp_all add: nth_plugged)
  next
    case False
    then have "length (items l) \<le> s" by simp
    moreover have "s < 2147483648" using items_small ok assms(2) by (meson order_less_trans)
    moreover have "List_Size l = length (items l)" using length_items [OF l(1)] by (simp add: List_Size_def)
    ultimately have "Pop_loop m (weight (last xs)) s l = Some (Inr l)"
      by (subst Pop_loop.simps) (simp add: LeftChild_def)
    moreover have "heap_order m (items l)"
      using False b l(2) by (intro below_ok_done [of m s]) (auto dest: par_less)
    ultimately show ?thesis using l(1) by (intro heapedI [of _ l]) simp_all
  qed
  then obtain l' where l': "Pop_loop m (weight (last xs)) s l = Some (Inr l')" "rlist_ok l'"
      "heap_order m (items l')" "mset (items l') = mset (plugged s xs)" using l(2) by (auto simp: heaped_def)
  then show ?thesis using pop mset_plugged [of s xs] assms(2,3) by (simp add: heap_ok_def nodes_def)
qed


section \<open>Priority queues\<close>

text \<open>What a client of \<open>Push\<close>, \<open>PeekWeight\<close> and \<open>Pop\<close> relies on: filling a queue, and draining it.\<close>

definition fill :: "('w \<Rightarrow> 'd \<Rightarrow> 's \<Rightarrow> 's res) \<Rightarrow> ('w, 'd) heap_node list \<Rightarrow> 's \<Rightarrow> 's res" where
  "fill push xs s = foldE (\<lambda>n. push (weight n) (hdata n)) xs s"

fun drain :: "('s \<Rightarrow> 'w res) \<Rightarrow> ('s \<Rightarrow> ('d \<times> 's) res option) \<Rightarrow> nat \<Rightarrow> 's \<Rightarrow> ('w, 'd) heap_node list option" where
  "drain look pop 0 s = Some []"
| "drain look pop (Suc n) s =
     (case (look s, pop s) of
        (Inr w, Some (Inr (d, s'))) \<Rightarrow>
          (case drain look pop n s' of None \<Rightarrow> None | Some xs \<Rightarrow> Some (HeapNode w d # xs))
      | _ \<Rightarrow> None)"

locale priority_queue =
  fixes ahead :: "'w \<Rightarrow> 'w \<Rightarrow> bool"
    and ok :: "'s \<Rightarrow> bool"
    and bag :: "'s \<Rightarrow> ('w, 'd) heap_node multiset"
    and push :: "'w \<Rightarrow> 'd \<Rightarrow> 's \<Rightarrow> 's res"
    and look :: "'s \<Rightarrow> 'w res"
    and pop :: "'s \<Rightarrow> ('d \<times> 's) res option"
    and room :: nat
  assumes push_ok: "ok s \<Longrightarrow> size (bag s) < room \<Longrightarrow>
      \<exists>s'. push w d s = Inr s' \<and> ok s' \<and> bag s' = add_mset (HeapNode w d) (bag s)"
    and pop_ok: "ok s \<Longrightarrow> bag s \<noteq> {#} \<Longrightarrow>
      \<exists>n s'. look s = Inr (weight n) \<and> pop s = Some (Inr (hdata n, s')) \<and> ok s' \<and> bag s = add_mset n (bag s')
        \<and> (\<forall>x \<in># bag s. \<not> ahead (weight x) (weight n))"
begin

lemma fill_ok:
  assumes "ok s" "size (bag s) + length xs \<le> room"
  shows "\<exists>s'. fill push xs s = Inr s' \<and> ok s' \<and> bag s' = bag s + mset xs"
  using assms
proof (induction xs arbitrary: s)
  case (Cons x xs)
  obtain s1 where s1: "push (weight x) (hdata x) s = Inr s1" "ok s1"
      "bag s1 = add_mset (HeapNode (weight x) (hdata x)) (bag s)"
    using push_ok [OF Cons.prems(1), of "weight x" "hdata x"] Cons.prems(2) by auto
  moreover have "HeapNode (weight x) (hdata x) = x" by (simp add: HeapNode_def)
  ultimately show ?case using Cons.IH [OF s1(2)] Cons.prems(2) by (simp add: fill_def)
qed (simp add: fill_def)

lemma drain_ok:
  assumes "ok s"
  shows "\<exists>ys. drain look pop (size (bag s)) s = Some ys \<and> mset ys = bag s
    \<and> sorted_wrt (\<lambda>a b. \<not> ahead (weight b) (weight a)) ys"
  using assms
proof (induction "size (bag s)" arbitrary: s)
  case 0
  then show ?case by simp
next
  case (Suc k)
  then obtain n s1 where n: "look s = Inr (weight n)" "pop s = Some (Inr (hdata n, s1))" "ok s1"
      "bag s = add_mset n (bag s1)" "\<forall>x \<in># bag s. \<not> ahead (weight x) (weight n)"
    using pop_ok [of s] by (metis size_empty nat.distinct(1))
  have k: "k = size (bag s1)" using Suc.hyps(2) n(4) by simp
  obtain ys where ys: "drain look pop k s1 = Some ys" "mset ys = bag s1"
      "sorted_wrt (\<lambda>a b. \<not> ahead (weight b) (weight a)) ys"
    using Suc.hyps(1) [OF k n(3)] k by auto
  have "HeapNode (weight n) (hdata n) = n" by (simp add: HeapNode_def)
  moreover have "\<forall>y \<in> set ys. \<not> ahead (weight y) (weight n)"
    using n(4,5) ys(2) by (metis set_mset_mset union_iff set_mset_add_mset_insert insert_iff)
  ultimately show ?case using n(1,2,4) ys by (simp add: Suc.hyps(2) [symmetric] k)
qed

lemma sorts:
  assumes "ok s" "bag s = {#}" "length xs \<le> room"
  shows "\<exists>s' ys. fill push xs s = Inr s' \<and> drain look pop (length xs) s' = Some ys \<and> mset ys = mset xs
    \<and> sorted_wrt (\<lambda>a b. \<not> ahead (weight b) (weight a)) ys"
proof -
  obtain s' where s': "fill push xs s = Inr s'" "ok s'" "bag s' = mset xs" using fill_ok [OF assms(1)] assms(2,3) by auto
  moreover have "size (bag s') = length xs" using s'(3) by simp
  ultimately show ?thesis using drain_ok [OF s'(2)] by auto
qed

end

interpretation hq: priority_queue "before m" "heap_ok m" nodes "Heap_Push m z" "PeekWeight 0" "Heap_Pop m 0" 1073741824
  for m :: bool and z :: "('w::linorder, 'd) heap_node"
proof unfold_locales
  fix h :: "('w, 'd) rheap" and w :: 'w and d :: 'd
  assume "heap_ok m h" "size (nodes h) < 1073741824"
  then show "\<exists>h'. Heap_Push m z w d h = Inr h' \<and> heap_ok m h' \<and> nodes h' = add_mset (HeapNode w d) (nodes h)"
    using Heap_Push_runs [of m h z w d] by auto
next
  fix h :: "('w, 'd) rheap"
  assume ok: "heap_ok m h" and "nodes h \<noteq> {#}"
  then have n: "0 < length (items (heap h))" by (simp add: nodes_def)
  have "PeekWeight 0 h = Inr (weight (items (heap h) ! 0))"
    using Get_ok [OF _ n] ok by (simp add: PeekWeight_def heap_ok_def)
  moreover obtain h' where "Heap_Pop m 0 h = Some (Inr (hdata (items (heap h) ! 0), h'))" "heap_ok m h'"
      "nodes h = add_mset (items (heap h) ! 0) (nodes h')"
    using Heap_Pop_runs [OF ok n refl] by blast
  moreover have "\<forall>x \<in># nodes h. \<not> before m (weight x) (weight (items (heap h) ! 0))"
  proof
    fix x assume "x \<in># nodes h"
    then obtain i where "i < length (items (heap h))" "x = items (heap h) ! i"
      by (auto simp: nodes_def in_set_conv_nth)
    then show "\<not> before m (weight x) (weight (items (heap h) ! 0))" 
      using heap_top [of m "items (heap h)" i] ok by (simp add: heap_ok_def)
  qed
  ultimately show "\<exists>x h'. PeekWeight 0 h = Inr (weight x) \<and> Heap_Pop m 0 h = Some (Inr (hdata x, h')) \<and> heap_ok m h'
      \<and> nodes h = add_mset x (nodes h') \<and> (\<forall>y \<in># nodes h. \<not> before m (weight y) (weight x))"
    by metis
qed


section \<open>Properties\<close>

text \<open>C28: any nodes pushed on an empty heap and popped again, each after a look at its weight, come out sorted
  by weight: all of them, none twice, the greatest first for \<open>isMaxHeap\<close> and the least first otherwise; no
  access leaves the array and the loop of \<open>Pop\<close> ends (up to \<open>2^30\<close> nodes, where the array stops growing).\<close>

theorem heap_sorts:
  assumes "length xs \<le> 1073741824"
  shows "\<exists>h ys. fill (Heap_Push m z) xs Heap_new = Inr h
    \<and> drain (PeekWeight 0) (Heap_Pop m 0) (length xs) h = Some ys
    \<and> mset ys = mset xs \<and> sorted_wrt (\<lambda>a b. \<not> before m (weight b) (weight a)) ys"
  by (rule hq.sorts [OF Heap_new_ok assms])

theorem heap_sorts_witness:
  "\<exists>h ys. fill (Heap_Push False (HeapNode 0 CHR ''-'')) [HeapNode (3::nat) CHR ''c'', HeapNode 1 CHR ''a''] Heap_new = Inr h
    \<and> drain (PeekWeight 0) (Heap_Pop False 0) 2 h = Some ys
    \<and> mset ys = {#HeapNode 3 CHR ''c'', HeapNode 1 CHR ''a''#}
    \<and> sorted_wrt (\<lambda>a b. \<not> before False (weight b) (weight a)) ys"
  using heap_sorts [of "[HeapNode (3::nat) CHR ''c'', HeapNode 1 CHR ''a'']" False "HeapNode 0 CHR ''-''"]
  by (simp del: drain.simps add: numeral_2_eq_2)

text \<open>The part of a heap the next node of a series is a child of or beside comes before the weight \<open>w\<close>, or as far.\<close>

definition series_ok :: "bool \<Rightarrow> 'w \<Rightarrow> ('w::linorder, 'd) rheap \<Rightarrow> bool" where
  "series_ok m w h \<longleftrightarrow> optimizeNextSeriesPush h \<longrightarrow>
     (let xs = items (heap h) in \<forall>k. par (length xs) \<le> k \<and> k < length xs \<longrightarrow> \<not> before m w (weight (xs ! k)))"

lemma series_ok_later: "series_ok m v h \<Longrightarrow> \<not> before m w v \<Longrightarrow> series_ok m w h"
  unfolding series_ok_def Let_def by (meson not_before_trans before_asym before_trans1)

lemma cant_optimize_ok:
  assumes "rlist_ok l"
  shows "cant_optimize m w l =
    Inr (\<exists>k. par (length (items l)) \<le> k \<and> k < length (items l) \<and> before m w (weight (items l ! k)))"
proof -
  let ?body = "\<lambda>i stop. if stop then Inr True else rbind (List_Get i l) (\<lambda>p. Inr (before m w (weight p)))"
  have run: "foldE ?body is b = Inr (b \<or> (\<exists>k \<in> set is. before m w (weight (items l ! k))))"
    if "\<forall>k \<in> set is. k < length (items l)" for "is" b
    using that by (induction "is" arbitrary: b) (auto simp: Get_ok [OF assms])
  have n: "List_Size l = length (items l)" using length_items [OF assms] by (simp add: List_Size_def)
  show ?thesis
  proof (cases "items l = []")
    case False
    then have "Parent (length (items l)) = par (length (items l))"
      using Parent_par items_small [OF assms] by simp
    then show ?thesis
      using run [of "[par (length (items l))..<length (items l)]" False] False by (auto simp: cant_optimize_def n)
  qed (simp add: cant_optimize_def n)
qed

lemma append_ok:
  assumes "heap_ok m h" "size (nodes h) < 1073741824" "xs = items (heap h)"
    and "\<And>k. par (length xs) \<le> k \<Longrightarrow> k < length xs \<Longrightarrow> \<not> before m w (weight (xs ! k))"
  shows "\<exists>l. List_Insert z (HeapNode w d) (heap h) = Inr l
    \<and> (\<forall>b. heap_ok m \<lparr>heap = l, optimizeNextSeriesPush = b\<rparr> \<and> series_ok m w \<lparr>heap = l, optimizeNextSeriesPush = b\<rparr>
         \<and> nodes \<lparr>heap = l, optimizeNextSeriesPush = b\<rparr> = add_mset (HeapNode w d) (nodes h))"
proof -
  note ok = assms(1) [unfolded heap_ok_def]
  let ?n = "length xs"
  obtain l where l: "List_Insert z (HeapNode w d) (heap h) = Inr l" "rlist_ok l" "items l = xs @ [HeapNode w d]"
    using Insert_node ok assms(2,3) by blast
  have "keeps m (items l) j" if j: "0 < j" "j < Suc ?n" for j
  proof (cases "j = ?n")
    case True
    then have "\<not> before m w (weight (xs ! par ?n))" using assms(4) [of "par ?n"] par_less [OF j(1)] by simp
    then show ?thesis using True par_less [OF j(1)] by (simp add: l(3) keeps_def nth_append HeapNode_def)
  next
    case False
    then show ?thesis using ok assms(3) j par_less [OF j(1)] by (simp add: l(3) heap_order_def keeps_def nth_append)
  qed
  then have "heap_order m (items l)" by (simp add: heap_order_def l(3))
  moreover have "\<not> before m w (weight (items l ! k))" if k: "par (Suc ?n) \<le> k" "k < Suc ?n" for k
  proof (cases "k = ?n")
    case True
    then show ?thesis by (simp add: l(3) HeapNode_def before_def)
  next
    case False
    moreover have "par ?n \<le> k" using k(1) by auto
    ultimately show ?thesis using assms(4) [of k] k by (simp add: l(3) nth_append)
  qed
  ultimately show ?thesis
    using l assms(3) by (intro exI [of _ l]) (simp add: heap_ok_def nodes_def series_ok_def)
qed

lemma PushSeries_runs:
  assumes "heap_ok m h" "series_ok m w h" "size (nodes h) < 1073741824"
  shows "\<exists>h'. PushSeries m z w d h = Inr h' \<and> heap_ok m h' \<and> series_ok m w h'
    \<and> nodes h' = add_mset (HeapNode w d) (nodes h)"
proof -
  let ?xs = "items (heap h)"
  have ok: "rlist_ok (heap h)" using assms(1) by (simp add: heap_ok_def)
  show ?thesis
  proof (cases "\<exists>k. par (length ?xs) \<le> k \<and> k < length ?xs \<and> before m w (weight (?xs ! k))")
    case True
    then have "\<not> optimizeNextSeriesPush h" using assms(2) by (auto simp: series_ok_def Let_def)
    moreover obtain h' where "Heap_Push m z w d h = Inr h'" "heap_ok m h'" "nodes h' = add_mset (HeapNode w d) (nodes h)"
        "optimizeNextSeriesPush h' = optimizeNextSeriesPush h"
      using Heap_Push_runs [OF assms(1,3), of z w d] by auto
    ultimately show ?thesis using True cant_optimize_ok [OF ok, of m w] by (simp add: PushSeries_def series_ok_def)
  next
    case False
    then have none: "cant_optimize m w (heap h) = Inr False" using cant_optimize_ok [OF ok, of m w] by simp
    obtain l where l: "List_Insert z (HeapNode w d) (heap h) = Inr l"
        "\<And>b. heap_ok m \<lparr>heap = l, optimizeNextSeriesPush = b\<rparr>"
        "\<And>b. series_ok m w \<lparr>heap = l, optimizeNextSeriesPush = b\<rparr>"
        "\<And>b. nodes \<lparr>heap = l, optimizeNextSeriesPush = b\<rparr> = add_mset (HeapNode w d) (nodes h)"
      using append_ok [OF assms(1,3) refl, of w z d] False by blast
    have "PushSeries m z w d h = Inr \<lparr>heap = l, optimizeNextSeriesPush = True\<rparr>"
      using none l(1) by (cases h) (simp add: PushSeries_def)
    then show ?thesis using l(2-4) by auto
  qed
qed

lemma series_loop:
  assumes "heap_ok m h" "\<And>x. x \<in> set xs \<Longrightarrow> series_ok m (weight x) h" "size (nodes h) + length xs \<le> 1073741824"
    and "sorted_wrt (\<lambda>a b. \<not> before m (weight b) (weight a)) xs"
  shows "\<exists>h'. fill (PushSeries m z) xs h = Inr h' \<and> heap_ok m h' \<and> nodes h' = nodes h + mset xs"
  using assms
proof (induction xs arbitrary: h)
  case (Cons x xs)
  obtain h1 where h1: "PushSeries m z (weight x) (hdata x) h = Inr h1" "heap_ok m h1" "series_ok m (weight x) h1"
      "nodes h1 = add_mset (HeapNode (weight x) (hdata x)) (nodes h)"
    using PushSeries_runs [OF Cons.prems(1) Cons.prems(2), of x z "hdata x"] Cons.prems(3) by auto
  have x: "HeapNode (weight x) (hdata x) = x" by (simp add: HeapNode_def)
  have "series_ok m (weight y) h1" if "y \<in> set xs" for y
    using series_ok_later [OF h1(3)] Cons.prems(4) that by simp
  then obtain h2 where "fill (PushSeries m z) xs h1 = Inr h2" "heap_ok m h2" "nodes h2 = nodes h1 + mset xs"
    using Cons.IH [OF h1(2)] Cons.prems(3,4) h1(4) by auto
  then show ?case using h1 x by (simp add: fill_def)
qed (simp add: fill_def)

text \<open>\<open>PushSeries\<close> is \<open>Push\<close> for a list of items in heap order: on any well formed heap, after \<open>StartSeries\<close>,
  it keeps the order of the heap and adds exactly the items, although once it has found the end of the heap
  to be before an item it appends the rest of the series without comparing.\<close>

lemma series_keeps_order:
  assumes "heap_ok m h" "size (nodes h) + length xs \<le> 1073741824"
    and "sorted_wrt (\<lambda>a b. \<not> before m (weight b) (weight a)) xs"
  shows "\<exists>h'. fill (PushSeries m z) xs (StartSeries h) = Inr h' \<and> heap_ok m h' \<and> nodes h' = nodes h + mset xs"
proof -
  have "heap_ok m (StartSeries h)" "nodes (StartSeries h) = nodes h" "series_ok m w (StartSeries h)" for w
    using assms(1) by (simp_all add: StartSeries_def heap_ok_def nodes_def series_ok_def)
  then show ?thesis using series_loop [of m "StartSeries h" xs z] assms(2,3) by simp
qed

text \<open>\<open>Pop\<close> at a place other than the top only moves the node it plugs the hole with down. So the heap is in
  order afterwards exactly where that node, the last, is not before the parent of the hole (or is the hole);
  everywhere else the heap it leaves is out of order.\<close>

lemma pop_inside:
  assumes "heap_ok m h" "xs = items (heap h)" "s < length xs"
  shows "\<exists>h'. Heap_Pop m s h = Some (Inr (hdata (xs ! s), h')) \<and> nodes h = add_mset (xs ! s) (nodes h')
    \<and> (heap_ok m h' \<longleftrightarrow> s = 0 \<or> s = length xs - 1 \<or> \<not> before m (weight (last xs)) (weight (xs ! par s)))"
proof (cases "s = 0 \<or> \<not> before m (weight (last xs)) (weight (xs ! par s))")
  case True
  then obtain h' where "Heap_Pop m s h = Some (Inr (hdata (xs ! s), h'))" "heap_ok m h'" "nodes h = add_mset (xs ! s) (nodes h')"
    using Heap_Pop_runs [OF assms(1) _ assms(2), of s] assms(2,3) by auto
  then show ?thesis using True by auto
next
  case False
  note ok = assms(1) [unfolded heap_ok_def]
  have up: "\<not> before m (weight (xs ! j)) (weight (xs ! par j))" if "0 < j" "j < length xs" for j
    using ok assms(2) that by (simp add: heap_order_def keeps_def)
  have "last xs = xs ! (length xs - 1)" using assms(3) by (intro last_conv_nth) auto
  then have "s \<noteq> length xs - 1" using False up [of s] assms(3) by auto
  then have s: "0 < s" "s < length xs - 1" "par s < s" using False assms(3) par_less [of s] by auto
  obtain l where l: "rlist_ok l" "items l = plugged s xs" and pop: "Heap_Pop m s h =
    (case Pop_loop m (weight (last xs)) s l of None \<Rightarrow> None
     | Some res \<Rightarrow> Some (rbind res (\<lambda>l'. Inr (hdata (xs ! s), h\<lparr>heap := l'\<rparr>))))"
    using Pop_start [OF conjunct1 [OF ok]] assms(2,3) by blast
  have "\<not> before m (weight (items l ! j)) (weight (last xs))" if j: "0 < j" "j < length (items l)" "par j = s" for j
  proof -
    have "s < j" using par_less [OF j(1)] j(3) by simp
    then have "items l ! j = xs ! j" using j(2) l(2) by (simp add: nth_plugged)
    moreover have "\<not> before m (weight (xs ! j)) (weight (xs ! par s))"
    proof (rule not_before_trans)
      show "\<not> before m (weight (xs ! j)) (weight (xs ! s))" using up [of j] j l(2) by simp
    qed (rule up [OF s(1) assms(3)])
    ultimately have "before m (weight (last xs)) (weight (items l ! j))"
      using False before_trans1 [of m "weight (last xs)" "weight (xs ! par s)" "weight (items l ! j)"] by auto
    then show ?thesis by (rule before_asym)
  qed
  then have "Pop_loop m (weight (last xs)) s l = Some (Inr l)" using s(2) l(2) by (intro Pop_loop_stays [OF l(1)]) simp_all
  moreover have "\<not> heap_order m (items l)"
    using False s l(2) by (auto simp: heap_order_def keeps_def nth_plugged intro!: exI [of _ s])
  ultimately show ?thesis using pop mset_plugged [OF assms(3)] False s l assms(2) by (simp add: heap_ok_def nodes_def)
qed

end
