(* ===== verification/RakNodes.thy ===== *)
theory RakNodes
  imports RakMemory
begin

text \<open>
  The memory of RakNet's linked structures. A node is the contents of an address of a \<open>store\<close>; a pointer is null,
  was never set, or is an address. \<open>OP_NEW\<close> and \<open>OP_DELETE\<close> (\<^verbatim>\<open>RakMemoryOverride.h\<close>, built without the override) are
  \<open>new\<close> and \<open>delete\<close>: an address is given out once, and is without a node after its deletion, so that the use of
  a dangling pointer is a fault. A loop over pointers may not end; its value is then \<open>None\<close>, and \<open>mbind\<close> runs
  one such computation after another.
\<close>

section \<open>Computations that may fail or not return\<close>

type_synonym 'a run = "'a res option"

definition mbind :: "'a run \<Rightarrow> ('a \<Rightarrow> 'b run) \<Rightarrow> 'b run" where
  "mbind m f = Option.bind m (\<lambda>r. case r of Inl e \<Rightarrow> Some (Inl e) | Inr x \<Rightarrow> f x)"

lemma mbind_simps [simp]:
  "mbind (Some (Inr x)) f = f x" "mbind (Some (Inl e)) f = Some (Inl e)" "mbind None f = None"
  by (simp_all add: mbind_def)

lemma mbind_mono [partial_function_mono]:
  assumes "mono_option B" "\<And>y. mono_option (\<lambda>f. C y f)"
  shows "mono_option (\<lambda>f. mbind (B f) (\<lambda>y. C y f))"
  unfolding mbind_def
proof (rule bind_mono [OF assms(1)])
  show "mono_option (\<lambda>f. case r of Inl e \<Rightarrow> Some (Inl e) | Inr x \<Rightarrow> C x f)" for r
    using assms(2) by (cases r) (simp_all add: monotone_def flat_ord_def)
qed

section \<open>Nodes\<close>

datatype link = NIL | WILD | At nat

record 'n store =
  cells :: "nat \<Rightarrow> 'n option"
  brk :: nat

definition empty_store :: "'n store" where
  "empty_store = \<lparr>cells = (\<lambda>_. None), brk = 0\<rparr>"

definition OP_NEW :: "'n \<Rightarrow> 'n store \<Rightarrow> nat \<times> 'n store" where
  "OP_NEW n s = (brk s, s\<lparr>cells := (cells s)(brk s := Some n), brk := Suc (brk s)\<rparr>)"

definition fetch :: "link \<Rightarrow> 'n store \<Rightarrow> 'n res" where
  "fetch p s =
     (case p of NIL \<Rightarrow> Inl NullDeref | WILD \<Rightarrow> Inl WildPointer
      | At a \<Rightarrow> (case cells s a of None \<Rightarrow> Inl WildPointer | Some n \<Rightarrow> Inr n))"

definition modify :: "link \<Rightarrow> ('n \<Rightarrow> 'n) \<Rightarrow> 'n store \<Rightarrow> 'n store res" where
  "modify p f s =
     (case p of NIL \<Rightarrow> Inl NullDeref | WILD \<Rightarrow> Inl WildPointer
      | At a \<Rightarrow> (case cells s a of None \<Rightarrow> Inl WildPointer | Some n \<Rightarrow> Inr (s\<lparr>cells := (cells s)(a := Some (f n))\<rparr>)))"

text \<open>Deleting a null pointer does nothing.\<close>

definition OP_DELETE :: "link \<Rightarrow> 'n store \<Rightarrow> 'n store res" where
  "OP_DELETE p s =
     (case p of NIL \<Rightarrow> Inr s | WILD \<Rightarrow> Inl WildPointer
      | At a \<Rightarrow> (case cells s a of None \<Rightarrow> Inl WildPointer | Some n \<Rightarrow> Inr (s\<lparr>cells := (cells s)(a := None)\<rparr>)))"

lemma fetch_At [simp]: "cells s a = Some n \<Longrightarrow> fetch (At a) s = Inr n"
  by (simp add: fetch_def)

lemma modify_At [simp]: "cells s a = Some n \<Longrightarrow> modify (At a) f s = Inr (s\<lparr>cells := (cells s)(a := Some (f n))\<rparr>)"
  by (simp add: modify_def)

lemma OP_DELETE_At [simp]: "cells s a = Some n \<Longrightarrow> OP_DELETE (At a) s = Inr (s\<lparr>cells := (cells s)(a := None)\<rparr>)"
  by (simp add: OP_DELETE_def)

section \<open>Addresses in a circle\<close>

text \<open>The pairs of neighbours of a list of addresses, the last with \<open>b\<close>; in a ring \<open>b\<close> is the first address.\<close>

fun steps :: "nat list \<Rightarrow> nat \<Rightarrow> (nat \<times> nat) list" where
  "steps [] b = []"
| "steps (a # as) b = (a, hd (as @ [b])) # steps as b"

lemma steps_append: "steps (us @ vs) b = steps us (hd (vs @ [b])) @ steps vs b"
proof (induction us)
  case (Cons a us)
  then show ?case by (cases us) simp_all
qed simp

lemma steps_in: "(x, y) \<in> set (steps as b) \<Longrightarrow> x \<in> set as \<and> (y \<in> set (tl as) \<or> y = b)"
proof (induction as)
  case (Cons a as)
  then show ?case by (cases as) auto
qed simp

lemma hd_snoc: "hd (xs @ p # ys) = hd (xs @ [p])"
  by (cases xs) simp_all

text \<open>The neighbours in a circle do not depend on where it is opened.\<close>

lemma steps_rotate:
  assumes "us \<noteq> []" "vs \<noteq> []"
  shows "set (steps (us @ vs) (hd (us @ vs))) = set (steps (vs @ us) (hd (vs @ us)))"
  using assms by (auto simp: steps_append)

end
