(* ===== verification/RakTree.thy ===== *)
theory RakTree
  imports RakNodes "HOL-Library.Tree"
begin

text \<open>
  RakNet's binary search tree (\<^verbatim>\<open>DS_BinarySearchTree.h\<close>). A node holds its item and the pointers to its children; the item,
  which the code allocates with the node and deletes with it, is a field of the node. \<open>direction\<close> is the member
  in which a search leaves how it came to the node. The variables that the code makes static, the current node of a
  search and its parent, are read before the next search, so they are results.
\<close>

section \<open>Code\<close>

record 'a bnode =
  bitem :: 'a
  bleft :: link
  bright :: link

datatype direction_types = NOT_FOUND | LEFT | RIGHT | ROOT

record 'a bst =
  bmem :: "'a bnode store"
  BinarySearchTree_size :: nat
  broot :: link
  direction :: direction_types

definition node_at :: "link \<Rightarrow> 'a bst \<Rightarrow> 'a bnode res" where
  "node_at p t = fetch p (bmem t)"

definition set_left :: "link \<Rightarrow> link \<Rightarrow> 'a bst \<Rightarrow> 'a bst res" where
  "set_left p q t = rbind (modify p (\<lambda>n. n\<lparr>bleft := q\<rparr>) (bmem t)) (\<lambda>s. Inr (t\<lparr>bmem := s\<rparr>))"

definition set_right :: "link \<Rightarrow> link \<Rightarrow> 'a bst \<Rightarrow> 'a bst res" where
  "set_right p q t = rbind (modify p (\<lambda>n. n\<lparr>bright := q\<rparr>) (bmem t)) (\<lambda>s. Inr (t\<lparr>bmem := s\<rparr>))"

definition set_item :: "link \<Rightarrow> 'a \<Rightarrow> 'a bst \<Rightarrow> 'a bst res" where
  "set_item p x t = rbind (modify p (\<lambda>n. n\<lparr>bitem := x\<rparr>) (bmem t)) (\<lambda>s. Inr (t\<lparr>bmem := s\<rparr>))"

text \<open>A new leaf, and the deletion of a node with its item.\<close>

definition new_leaf :: "'a \<Rightarrow> 'a bst \<Rightarrow> link \<times> 'a bst" where
  "new_leaf x t = (let (a, s) = OP_NEW \<lparr>bitem = x, bleft = NIL, bright = NIL\<rparr> (bmem t) in (At a, t\<lparr>bmem := s\<rparr>))"

definition drop_node :: "link \<Rightarrow> 'a bst \<Rightarrow> 'a bst res" where
  "drop_node p t =
     rbind (node_at p t) (\<lambda>_. rbind (OP_DELETE p (bmem t)) (\<lambda>s.
     Inr (t\<lparr>bmem := s, BinarySearchTree_size := dec32 (BinarySearchTree_size t)\<rparr>)))"

definition BST_new :: "'a bst" where
  "BST_new = \<lparr>bmem = empty_store, BinarySearchTree_size = 0, broot = NIL, direction = NOT_FOUND\<rparr>"

definition BST_Size :: "'a bst \<Rightarrow> nat" where
  "BST_Size t = BinarySearchTree_size t"

partial_function (option) HeightRecursive :: "link \<Rightarrow> 'a bst \<Rightarrow> nat run" where
  "HeightRecursive current t =
     mbind (Some (node_at current t)) (\<lambda>n.
     if bleft n = NIL \<and> bright n = NIL then Some (Inr 1)
     else mbind (if bleft n \<noteq> NIL then mbind (HeightRecursive (bleft n) t) (\<lambda>h. Some (Inr (w32 (1 + h)))) else Some (Inr 0)) (\<lambda>left_height.
       mbind (if bright n \<noteq> NIL then mbind (HeightRecursive (bright n) t) (\<lambda>h. Some (Inr (w32 (1 + h)))) else Some (Inr 0)) (\<lambda>right_height.
       Some (Inr (if right_height < left_height then left_height else right_height)))))"

definition BST_Height :: "link \<Rightarrow> 'a bst \<Rightarrow> nat run" where
  "BST_Height starting_node t =
     (if BinarySearchTree_size t = 0 \<or> starting_node = NIL then Some (Inr 0) else HeightRecursive starting_node t)"

text \<open>The search: the node or null, its parent, and the tree with the direction.\<close>

partial_function (option) find_walk ::
  "'a::linorder \<Rightarrow> link \<Rightarrow> direction_types \<Rightarrow> link \<Rightarrow> 'a bst \<Rightarrow> (link \<times> link \<times> 'a bst) run" where
  "find_walk element parent dir current t =
     mbind (Some (node_at current t)) (\<lambda>n.
     let parent' = (if element < bitem n \<or> bitem n < element then current else parent);
         dir' = (if element < bitem n then LEFT else if bitem n < element then RIGHT else dir);
         current' = (if element < bitem n then bleft n else if bitem n < element then bright n else current)
     in if current' = NIL then Some (Inr (NIL, parent', t\<lparr>direction := NOT_FOUND\<rparr>))
        else mbind (Some (node_at current' t)) (\<lambda>n'.
          if element = bitem n' then Some (Inr (current', parent', t\<lparr>direction := dir'\<rparr>))
          else find_walk element parent' dir' current' t))"

definition BST_Find :: "'a::linorder \<Rightarrow> 'a bst \<Rightarrow> (link \<times> link \<times> 'a bst) run" where
  "BST_Find element t =
     (if BinarySearchTree_size t = 0 then Some (Inr (NIL, NIL, t\<lparr>direction := NOT_FOUND\<rparr>))
      else mbind (Some (node_at (broot t) t)) (\<lambda>n.
        if element = bitem n then Some (Inr (broot t, NIL, t\<lparr>direction := ROOT\<rparr>))
        else find_walk element NIL ROOT (broot t) t))"

definition FindParent :: "'a::linorder \<Rightarrow> 'a bst \<Rightarrow> (link \<times> 'a bst) run" where
  "FindParent element t = mbind (BST_Find element t) (\<lambda>(_, parent, t'). Some (Inr (parent, t')))"

definition GetPointerToNode :: "'a::linorder \<Rightarrow> 'a bst \<Rightarrow> (link \<times> 'a bst) run" where
  "GetPointerToNode element t =
     mbind (BST_Find element t) (\<lambda>(p, _, t').
     Some (Inr (if direction t' = NOT_FOUND then NIL else p, t')))"

text \<open>Not called by the code: values are swapped down the tree while they are out of order.\<close>

partial_function (option) FixTree :: "link \<Rightarrow> 'a::linorder bst \<Rightarrow> 'a bst run" where
  "FixTree current t =
     mbind (Some (node_at current t)) (\<lambda>n.
     mbind (Some (if bleft n \<noteq> NIL then rbind (node_at (bleft n) t) (\<lambda>k. Inr (bitem n < bitem k)) else Inr False)) (\<lambda>swap_left.
     if swap_left then
       mbind (Some (rbind (node_at (bleft n) t) (\<lambda>k. rbind (set_item (bleft n) (bitem n) t) (set_item current (bitem k))))) (FixTree (bleft n))
     else
       mbind (Some (if bright n \<noteq> NIL then rbind (node_at (bright n) t) (\<lambda>k. Inr (bitem k < bitem n)) else Inr False)) (\<lambda>swap_right.
       if swap_right then
         mbind (Some (rbind (node_at (bright n) t) (\<lambda>k. rbind (set_item (bright n) (bitem n) t) (set_item current (bitem k))))) (FixTree (bright n))
       else Some (Inr t))))"

text \<open>An element is added as a leaf; null is returned when it is there already.\<close>

partial_function (option) add_walk :: "'a::linorder \<Rightarrow> link \<Rightarrow> 'a bst \<Rightarrow> (link \<times> 'a bst) run" where
  "add_walk input current t =
     mbind (Some (node_at current t)) (\<lambda>n.
     if input < bitem n then
       if bleft n = NIL then
         mbind (Some (let (a, t1) = new_leaf input t in rbind (set_left current a t1) (\<lambda>t2.
           Inr (a, t2\<lparr>BinarySearchTree_size := w32 (BinarySearchTree_size t2 + 1)\<rparr>)))) (\<lambda>r. Some (Inr r))
       else add_walk input (bleft n) t
     else if bitem n < input then
       if bright n = NIL then
         mbind (Some (let (a, t1) = new_leaf input t in rbind (set_right current a t1) (\<lambda>t2.
           Inr (a, t2\<lparr>BinarySearchTree_size := w32 (BinarySearchTree_size t2 + 1)\<rparr>)))) (\<lambda>r. Some (Inr r))
       else add_walk input (bright n) t
     else Some (Inr (NIL, t)))"

definition BST_Add :: "'a::linorder \<Rightarrow> 'a bst \<Rightarrow> (link \<times> 'a bst) run" where
  "BST_Add input t =
     (if BinarySearchTree_size t = 0 then
        let (a, t1) = new_leaf input t in Some (Inr (a, t1\<lparr>BinarySearchTree_size := 1, broot := a\<rparr>))
      else add_walk input (broot t) t)"

text \<open>Clearing walks to a leaf, cuts it off, and goes on from its parent.\<close>

partial_function (option) clear_walk :: "link \<Rightarrow> 'a::linorder bst \<Rightarrow> 'a bst run" where
  "clear_walk current t =
     (if BinarySearchTree_size t = 0 then Some (Inr t)
      else if BinarySearchTree_size t = 1 then
        mbind (Some (drop_node (broot t) t)) (\<lambda>t1. clear_walk current (t1\<lparr>broot := NIL, BinarySearchTree_size := 0\<rparr>))
      else mbind (Some (node_at current t)) (\<lambda>n.
        if bleft n \<noteq> NIL then clear_walk (bleft n) t
        else if bright n \<noteq> NIL then clear_walk (bright n) t
        else mbind (FindParent (bitem n) t) (\<lambda>pt.
          mbind (Some (node_at (fst pt) (snd pt))) (\<lambda>k.
          mbind (Some (if bleft k = current then set_left (fst pt) NIL (snd pt) else set_right (fst pt) NIL (snd pt))) (\<lambda>t2.
          mbind (Some (drop_node current t2)) (clear_walk (fst pt)))))))"

definition BST_Clear :: "'a::linorder bst \<Rightarrow> 'a bst run" where
  "BST_Clear t = clear_walk (broot t) t"

partial_function (option) leftmost :: "link \<Rightarrow> direction_types \<Rightarrow> link \<Rightarrow> 'a bst \<Rightarrow> (link \<times> direction_types \<times> link) run" where
  "leftmost parent dir current t =
     mbind (Some (node_at current t)) (\<lambda>n.
     if bleft n \<noteq> NIL then leftmost current LEFT (bleft n) t else Some (Inr (parent, dir, current)))"

text \<open>The parent of the node that was cut off is returned, where the balancing of the tree begins.\<close>

definition BST_Del :: "'a::linorder \<Rightarrow> 'a bst \<Rightarrow> (link \<times> 'a bst) run" where
  "BST_Del input t =
     (if BinarySearchTree_size t = 0 then Some (Inr (NIL, t))
      else if BinarySearchTree_size t = 1 then mbind (BST_Clear t) (\<lambda>t1. Some (Inr (NIL, t1)))
      else mbind (BST_Find input t) (\<lambda>(current, parent, t1).
        if direction t1 = NOT_FOUND then Some (Inr (NIL, t1))
        else mbind (Some (node_at current t1)) (\<lambda>n.
          if bright n = NIL \<and> bleft n = NIL then
            mbind (Some (if parent \<noteq> NIL then if direction t1 = LEFT then set_left parent NIL t1 else set_right parent NIL t1 else Inr t1)) (\<lambda>t2.
            mbind (Some (drop_node current t2)) (\<lambda>t3. Some (Inr (parent, t3))))
          else if bleft n = NIL then
            mbind (Some (if parent \<noteq> NIL then if direction t1 = RIGHT then set_right parent (bright n) t1 else set_left parent (bright n) t1
                         else Inr (t1\<lparr>broot := bright n\<rparr>))) (\<lambda>t2.
            mbind (Some (drop_node current t2)) (\<lambda>t3. Some (Inr (parent, t3))))
          else if bright n = NIL then
            mbind (Some (if parent \<noteq> NIL then if direction t1 = RIGHT then set_right parent (bleft n) t1 else set_left parent (bleft n) t1
                         else Inr (t1\<lparr>broot := bleft n\<rparr>))) (\<lambda>t2.
            mbind (Some (drop_node current t2)) (\<lambda>t3. Some (Inr (parent, t3))))
          else
            mbind (leftmost current RIGHT (bright n) t1) (\<lambda>(parent', dir, cur).
            let t2 = t1\<lparr>direction := dir\<rparr> in
            mbind (Some (node_at cur t2)) (\<lambda>k.
            mbind (Some (set_item current (bitem k) t2)) (\<lambda>t3.
            mbind (Some (node_at cur t3)) (\<lambda>k'.
            mbind (Some (if bright k' = NIL then if dir = RIGHT then set_right parent' NIL t3 else set_left parent' NIL t3
                         else if dir = RIGHT then set_right parent' (bright k') t3 else set_left parent' (bright k') t3)) (\<lambda>t4.
            mbind (Some (drop_node cur t4)) (\<lambda>t5. Some (Inr (parent', t5)))))))))))"

section \<open>Trees of addresses\<close>

text \<open>
  The nodes of a tree are pairs of an address and its item. A place in a tree is the path from it to the root: each
  frame is a node on the way with its other subtree.
\<close>

type_synonym 'a atree = "(nat \<times> 'a) tree"

fun tlink :: "'a atree \<Rightarrow> link" where
  "tlink Leaf = NIL"
| "tlink (Node l n r) = At (fst n)"

fun shape :: "(nat \<Rightarrow> 'a bnode option) \<Rightarrow> 'a atree \<Rightarrow> bool" where
  "shape m Leaf = True"
| "shape m (Node l n r) =
     (m (fst n) = Some \<lparr>bitem = snd n, bleft = tlink l, bright = tlink r\<rparr> \<and> shape m l \<and> shape m r)"

datatype 'x frame = InL 'x "'x tree" | InR "'x tree" 'x

fun fill :: "'x frame \<Rightarrow> 'x tree \<Rightarrow> 'x tree" where
  "fill (InL n r) t = Node t n r"
| "fill (InR l n) t = Node l n t"

fun plug :: "'x frame list \<Rightarrow> 'x tree \<Rightarrow> 'x tree" where
  "plug [] t = t"
| "plug (f # c) t = plug c (fill f t)"

fun fnode :: "'x frame \<Rightarrow> 'x" where
  "fnode (InL n r) = n"
| "fnode (InR l n) = n"

fun parent_of :: "(nat \<times> 'a) frame list \<Rightarrow> link" where
  "parent_of [] = NIL"
| "parent_of (f # c) = At (fst (fnode f))"

fun side :: "'x frame list \<Rightarrow> direction_types" where
  "side [] = ROOT"
| "side (InL n r # c) = LEFT"
| "side (InR l n # c) = RIGHT"

fun top :: "(nat \<times> 'a) frame list \<Rightarrow> link \<Rightarrow> link" where
  "top [] p = p"
| "top (f # c) p = top c (At (fst (fnode f)))"

text \<open>The memory around a hole that holds the pointer \<open>p\<close>.\<close>

fun cshape :: "(nat \<Rightarrow> 'a bnode option) \<Rightarrow> (nat \<times> 'a) frame list \<Rightarrow> link \<Rightarrow> bool" where
  "cshape m [] p = True"
| "cshape m (InL n r # c) p =
     (m (fst n) = Some \<lparr>bitem = snd n, bleft = p, bright = tlink r\<rparr> \<and> shape m r \<and> cshape m c (At (fst n)))"
| "cshape m (InR l n # c) p =
     (m (fst n) = Some \<lparr>bitem = snd n, bleft = tlink l, bright = p\<rparr> \<and> shape m l \<and> cshape m c (At (fst n)))"

fun before :: "'x frame list \<Rightarrow> 'x list" where
  "before [] = []"
| "before (InL n r # c) = before c"
| "before (InR l n # c) = before c @ inorder l @ [n]"

fun after :: "'x frame list \<Rightarrow> 'x list" where
  "after [] = []"
| "after (InL n r # c) = n # inorder r @ after c"
| "after (InR l n # c) = after c"

lemma inorder_fill: "inorder (fill (InL n r) t) = inorder t @ n # inorder r" "inorder (fill (InR l n) t) = inorder l @ n # inorder t"
  by simp_all

lemma inorder_plug: "inorder (plug c t) = before c @ inorder t @ after c"
proof (induction c arbitrary: t)
  case (Cons f c)
  then show ?case by (cases f) simp_all
qed simp

lemma size_plug: "size (plug c t) = length (before c) + size t + length (after c)"
  using arg_cong [OF inorder_plug [of c t], of length] by simp

lemma shape_plug: "shape m (plug c t) \<longleftrightarrow> cshape m c (tlink t) \<and> shape m t"
proof (induction c arbitrary: t)
  case (Cons f c)
  then show ?case by (cases f) auto
qed simp

lemma tlink_plug: "tlink (plug c t) = top c (tlink t)"
proof (induction c arbitrary: t)
  case (Cons f c)
  then show ?case by (cases f) auto
qed simp

lemma tlink_NIL [simp]: "tlink t = NIL \<longleftrightarrow> t = Leaf" "NIL = tlink t \<longleftrightarrow> t = Leaf"
  by (cases t; simp)+

lemma plug_append: "plug (c @ d) t = plug d (plug c t)"
  by (induction c arbitrary: t) simp_all

definition addrs :: "'a atree \<Rightarrow> nat list" where
  "addrs t = map fst (inorder t)"

definition keys :: "'a atree \<Rightarrow> 'a list" where
  "keys t = map snd (inorder t)"

definition caddrs :: "(nat \<times> 'a) frame list \<Rightarrow> nat list" where
  "caddrs c = map fst (before c @ after c)"

lemma addrs_simps [simp]: "addrs Leaf = []" "addrs (Node l n r) = addrs l @ fst n # addrs r"
  "caddrs [] = []" "keys Leaf = []" "keys (Node l n r) = keys l @ snd n # keys r"
  by (simp_all add: addrs_def caddrs_def keys_def)

lemma set_caddrs [simp]:
  "set (caddrs (InL n r # c)) = insert (fst n) (set (addrs r) \<union> set (caddrs c))"
  "set (caddrs (InR l n # c)) = insert (fst n) (set (addrs l) \<union> set (caddrs c))"
  by (auto simp: caddrs_def addrs_def)

lemma set_addrs_plug: "set (addrs (plug c t)) = set (caddrs c) \<union> set (addrs t)"
  by (auto simp: addrs_def caddrs_def inorder_plug)

lemma distinct_plug: "distinct (addrs (plug c t)) \<longleftrightarrow> distinct (caddrs c) \<and> distinct (addrs t) \<and> set (caddrs c) \<inter> set (addrs t) = {}"
  unfolding addrs_def caddrs_def inorder_plug by auto

lemma distinct_caddrs:
  "distinct (caddrs (InL n r # c)) \<longleftrightarrow> distinct (caddrs c) \<and> distinct (addrs r) \<and> fst n \<notin> set (addrs r) \<and> fst n \<notin> set (caddrs c)
    \<and> set (caddrs c) \<inter> set (addrs r) = {}"
  "distinct (caddrs (InR l n # c)) \<longleftrightarrow> distinct (caddrs c) \<and> distinct (addrs l) \<and> fst n \<notin> set (addrs l) \<and> fst n \<notin> set (caddrs c)
    \<and> set (caddrs c) \<inter> set (addrs l) = {}"
  unfolding addrs_def caddrs_def by auto

lemma shape_cong: "shape m t \<Longrightarrow> (\<And>a. a \<in> set (addrs t) \<Longrightarrow> m' a = m a) \<Longrightarrow> shape m' t"
  by (induction t) auto

lemma cshape_cong: "cshape m c p \<Longrightarrow> (\<And>a. a \<in> set (caddrs c) \<Longrightarrow> m' a = m a) \<Longrightarrow> cshape m' c p"
proof (induction c arbitrary: p)
  case (Cons f c)
  then show ?case by (cases f) (auto intro: shape_cong)
qed simp

text \<open>The node above the hole gets another pointer.\<close>

fun set_hole :: "(nat \<times> 'a) frame list \<Rightarrow> link \<Rightarrow> (nat \<Rightarrow> 'a bnode option) \<Rightarrow> nat \<Rightarrow> 'a bnode option" where
  "set_hole [] q m = m"
| "set_hole (InL n r # c) q m = m(fst n := Some \<lparr>bitem = snd n, bleft = q, bright = tlink r\<rparr>)"
| "set_hole (InR l n # c) q m = m(fst n := Some \<lparr>bitem = snd n, bleft = tlink l, bright = q\<rparr>)"

lemma set_hole_other: "a \<notin> set (caddrs c) \<Longrightarrow> set_hole c q m a = m a"
  by (cases "(c, q, m)" rule: set_hole.cases) auto

lemma cshape_set_hole:
  assumes "cshape m c p" "distinct (caddrs c)"
  shows "cshape (set_hole c q m) c q"
proof (cases c)
  case (Cons f d)
  then show ?thesis
    using assms by (cases f) (auto simp: distinct_caddrs elim!: shape_cong cshape_cong)
qed simp

lemma dom_set_hole: "cshape m c p \<Longrightarrow> dom (set_hole c q m) = dom m"
  by (cases "(c, q, m)" rule: set_hole.cases) auto

section \<open>Well-formed trees\<close>

text \<open>The store holds exactly the nodes of \<open>t\<close>.\<close>

definition holds :: "'a bst \<Rightarrow> 'a atree \<Rightarrow> bool" where
  "holds T t \<longleftrightarrow> shape (cells (bmem T)) t \<and> broot T = tlink t \<and> distinct (addrs t)
     \<and> dom (cells (bmem T)) = set (addrs t) \<and> (\<forall>a \<in> set (addrs t). a < brk (bmem T))
     \<and> BinarySearchTree_size T = size t \<and> size t < 4294967295"

lemma holdsD:
  assumes "holds T t"
  shows "shape (cells (bmem T)) t" "broot T = tlink t" "distinct (addrs t)" "dom (cells (bmem T)) = set (addrs t)"
    "\<And>a. a \<in> set (addrs t) \<Longrightarrow> a < brk (bmem T)" "BinarySearchTree_size T = size t" "size t < 4294967295"
  using assms by (auto simp: holds_def)

definition bst_rep :: "'a::linorder bst \<Rightarrow> 'a atree \<Rightarrow> bool" where
  "bst_rep T t \<longleftrightarrow> holds T t \<and> sorted_wrt (<) (keys t)"

lemma node_at_tlink:
  assumes "shape (cells (bmem T)) (Node l n r)"
  shows "node_at (At (fst n)) T = Inr \<lparr>bitem = snd n, bleft = tlink l, bright = tlink r\<rparr>"
  using assms by (simp add: node_at_def)

lemma holds_direction [simp]: "holds (T\<lparr>direction := d\<rparr>) t = holds T t"
  by (simp add: holds_def)

lemma node_at_direction [simp]: "node_at p (T\<lparr>direction := d\<rparr>) = node_at p T"
  by (simp add: node_at_def)

text \<open>Where the search for \<open>x\<close> ends.\<close>

fun descend :: "'a::linorder \<Rightarrow> (nat \<times> 'a) frame list \<Rightarrow> 'a atree \<Rightarrow> (nat \<times> 'a) frame list \<times> 'a atree" where
  "descend x c Leaf = (c, Leaf)"
| "descend x c (Node l n r) =
     (if x < snd n then descend x (InL n r # c) l
      else if snd n < x then descend x (InR l n # c) r
      else (c, Node l n r))"

lemma plug_descend: "descend x c t = (c', t') \<Longrightarrow> plug c' t' = plug c t"
  by (induction t arbitrary: c) (auto split: if_splits)

lemma descend_item: "descend x c t = (c', Node l n r) \<Longrightarrow> snd n = x"
  by (induction t arbitrary: c) (auto split: if_splits)

text \<open>The keys around a place leave room for \<open>x\<close>.\<close>

definition fits :: "'a::linorder \<Rightarrow> (nat \<times> 'a) frame list \<Rightarrow> bool" where
  "fits x c \<longleftrightarrow> (\<forall>y \<in> set (before c). snd y < x) \<and> (\<forall>y \<in> set (after c). x < snd y)"

lemma fits_simps [simp]:
  "fits x []"
  "fits x (InL n r # c) \<longleftrightarrow> x < snd n \<and> (\<forall>y \<in> set (keys r). x < y) \<and> fits x c"
  "fits x (InR l n # c) \<longleftrightarrow> snd n < x \<and> (\<forall>y \<in> set (keys l). y < x) \<and> fits x c"
  by (auto simp: fits_def keys_def)

lemma descend_fits:
  assumes "descend x c t = (c', s)" "fits x c" "sorted_wrt (<) (keys t)"
  shows "fits x c'"
  using assms by (induction t arbitrary: c) (fastforce simp: sorted_wrt_append split: if_splits)+

lemma descend_plug: "fits x c \<Longrightarrow> descend x d (plug c s) = descend x (c @ d) s"
proof (induction c arbitrary: s)
  case (Cons f c)
  then show ?case by (cases f) auto
qed simp

lemma keys_plug: "keys (plug c t) = map snd (before c) @ keys t @ map snd (after c)"
  by (simp add: keys_def inorder_plug)

lemma fits_at:
  assumes "sorted_wrt (<) (keys (plug c (Node l n r)))"
  shows "fits (snd n) c"
  using assms by (auto simp: fits_def keys_plug sorted_wrt_append)

lemma descend_in:
  assumes "descend x [] t = (c, s)" "sorted_wrt (<) (keys t)"
  shows "x \<in> set (keys t) \<longleftrightarrow> s \<noteq> Leaf"
proof -
  have "t = plug c s" "fits x c"
    using plug_descend [OF assms(1)] descend_fits [OF assms(1) _ assms(2)] by simp_all
  then show ?thesis
    using descend_item [of x "[]" t c] assms(1)
    by (cases s) (fastforce simp: keys_plug fits_def)+
qed

definition find_result :: "'a bst \<Rightarrow> (nat \<times> 'a) frame list \<times> 'a atree \<Rightarrow> link \<times> link \<times> 'a bst" where
  "find_result T r = (case r of (c, s) \<Rightarrow>
     (tlink s, parent_of c, T\<lparr>direction := if s = Leaf then NOT_FOUND else side c\<rparr>))"

lemma find_walk_runs:
  assumes "shape (cells (bmem T)) s" "s = Node l n r" "snd n \<noteq> x"
  shows "find_walk x (parent_of c) (side c) (At (fst n)) T = Some (Inr (find_result T (descend x c s)))"
  using assms
proof (induction s arbitrary: l n r c)
  case (Node sl sn sr)
  have eq [simp]: "sl = l" "sn = n" "sr = r" using Node.prems(2) by simp_all
  note run = find_walk.simps [of x "parent_of c" "side c" "At (fst n)" T] node_at_tlink [OF Node.prems(1)]
  show ?case
  proof (cases "x < snd n")
    case True
    show ?thesis
    proof (cases l)
      case Leaf
      then show ?thesis using run True by (simp add: find_result_def)
    next
      case N: (Node l1 k l2)
      have s: "shape (cells (bmem T)) (Node l1 k l2)" using Node.prems(1) N by simp
      show ?thesis
      proof (cases "snd k = x")
        case eq: True
        then show ?thesis using run True N node_at_tlink [OF s] by (simp add: find_result_def)
      next
        case False
        then show ?thesis
          using run True N node_at_tlink [OF s] Node.IH(1) [of l1 k l2 "InL n r # c"] s by auto
      qed
    qed
  next
    case F: False
    then have gt: "snd n < x" using Node.prems(3) by auto
    show ?thesis
    proof (cases r)
      case Leaf
      then show ?thesis using run F gt by (simp add: find_result_def)
    next
      case N: (Node r1 k r2)
      have s: "shape (cells (bmem T)) (Node r1 k r2)" using Node.prems(1) N by simp
      show ?thesis
      proof (cases "snd k = x")
        case eq: True
        then show ?thesis using run F gt N node_at_tlink [OF s] by (simp add: find_result_def)
      next
        case False
        then show ?thesis
          using run F gt N node_at_tlink [OF s] Node.IH(2) [of r1 k r2 "InR l n # c"] s by auto
      qed
    qed
  qed
qed simp

lemma BST_Find_runs:
  assumes "holds T t"
  shows "BST_Find x T = Some (Inr (find_result T (descend x [] t)))"
proof (cases t)
  case Leaf
  then show ?thesis using holdsD [OF assms] by (simp add: BST_Find_def find_result_def)
next
  case (Node l n r)
  note d = holdsD(1,2,6) [OF assms]
  have s: "shape (cells (bmem T)) (Node l n r)" using d(1) Node by simp
  show ?thesis
  proof (cases "snd n = x")
    case True
    then show ?thesis using d Node node_at_tlink [OF s] by (simp add: BST_Find_def find_result_def)
  next
    case False
    then show ?thesis
      using d Node node_at_tlink [OF s] find_walk_runs [OF d(1) Node False, of "[]"]
      by (simp add: BST_Find_def)
  qed
qed

lemma height_le_size: "height t \<le> size t" for t :: "'b tree"
  by (induction t) auto

lemma HeightRecursive_runs:
  assumes "shape (cells (bmem T)) s" "s \<noteq> Leaf" "size s < 4294967296"
  shows "HeightRecursive (tlink s) T = Some (Inr (height s))"
  using assms
proof (induction s)
  case (Node l n r)
  have h: "height l \<le> size l" "height r \<le> size r" by (rule height_le_size)+
  note run = HeightRecursive.simps [of "At (fst n)" T] node_at_tlink [OF Node.prems(1)]
  show ?case
    using run Node.IH Node.prems h by (cases "l = Leaf"; cases "r = Leaf") (auto simp: max_def)
qed simp

lemma BST_Height_runs:
  assumes "holds T (plug c s)"
  shows "BST_Height (tlink s) T = Some (Inr (height s))"
proof -
  note d = holdsD [OF assms]
  have "shape (cells (bmem T)) s" using d(1) by (simp add: shape_plug)
  moreover have "size s \<le> size (plug c s)" by (simp add: size_plug)
  ultimately show ?thesis
    using HeightRecursive_runs [of T s] d(6,7) by (cases "s = Leaf") (auto simp: BST_Height_def)
qed

section \<open>Changing a tree\<close>

text \<open>The pointer that leads to a place is replaced.\<close>

definition hang :: "(nat \<times> 'a) frame list \<Rightarrow> link \<Rightarrow> 'a bst \<Rightarrow> 'a bst" where
  "hang c q T = (if c = [] then T\<lparr>broot := q\<rparr> else T\<lparr>bmem := (bmem T)\<lparr>cells := set_hole c q (cells (bmem T))\<rparr>\<rparr>)"

lemma set_child:
  assumes "cshape (cells (bmem T)) c p"
  shows "side c = LEFT \<Longrightarrow> set_left (parent_of c) q T = Inr (hang c q T)"
    "side c = RIGHT \<Longrightarrow> set_right (parent_of c) q T = Inr (hang c q T)"
  using assms by (cases c rule: side.cases; simp add: set_left_def set_right_def hang_def)+

lemma side_cases: "(c = [] \<and> side c = ROOT) \<or> (c \<noteq> [] \<and> side c = LEFT) \<or> (c \<noteq> [] \<and> side c = RIGHT)"
  by (cases c rule: side.cases) auto

lemma parent_NIL [simp]: "parent_of c = NIL \<longleftrightarrow> c = []"
  by (cases c) auto

lemma hang_fields [simp]:
  "brk (bmem (hang c q T)) = brk (bmem T)" "BinarySearchTree_size (hang c q T) = BinarySearchTree_size T"
  "direction (hang c q T) = direction T"
  by (simp_all add: hang_def)

lemma cells_hang: "cells (bmem (hang c q T)) = set_hole c q (cells (bmem T))"
  by (simp add: hang_def)

lemma broot_hang: "broot (hang c q T) = (if c = [] then q else broot T)"
  by (simp add: hang_def)

lemma top_Cons: "c \<noteq> [] \<Longrightarrow> top c p = top c q"
  by (cases c) auto

text \<open>The place holds another tree of the nodes in the store.\<close>

lemma holds_hang:
  assumes "cshape (cells (bmem T)) c p" "shape (cells (bmem T)) s" "c \<noteq> [] \<Longrightarrow> broot T = top c p"
    "distinct (addrs (plug c s))" "dom (cells (bmem T)) = set (addrs (plug c s))"
    "\<And>a. a \<in> set (addrs (plug c s)) \<Longrightarrow> a < brk (bmem T)"
    "BinarySearchTree_size T = size (plug c s)" "size (plug c s) < 4294967295"
  shows "holds (hang c (tlink s) T) (plug c s)"
proof -
  have d: "distinct (caddrs c)" "set (caddrs c) \<inter> set (addrs s) = {}" using assms(4) by (auto simp: distinct_plug)
  have "shape (set_hole c (tlink s) (cells (bmem T))) s"
    using d(2) by (intro shape_cong [OF assms(2)] set_hole_other) blast
  moreover have "broot (hang c (tlink s) T) = top c (tlink s)"
    using assms(3) top_Cons [of c p "tlink s"] by (auto simp: broot_hang)
  ultimately show ?thesis
    using assms cshape_set_hole [OF assms(1) d(1), of "tlink s"] dom_set_hole [OF assms(1), of "tlink s"]
    by (simp add: holds_def shape_plug tlink_plug cells_hang)
qed

lemma drop_node_runs:
  assumes "cells (bmem T) a = Some k" "0 < BinarySearchTree_size T" "BinarySearchTree_size T < 4294967296"
  shows "drop_node (At a) T =
    Inr (T\<lparr>bmem := (bmem T)\<lparr>cells := (cells (bmem T))(a := None)\<rparr>, BinarySearchTree_size := BinarySearchTree_size T - 1\<rparr>)"
  using assms by (simp add: drop_node_def node_at_def dec32_pos)

text \<open>A node with at most one child is cut out: the child takes its place.\<close>

lemma cut_node:
  assumes h: "holds T (plug c (Node l n r))" and one: "s = l \<and> r = Leaf \<or> s = r \<and> l = Leaf"
  shows "\<exists>T'. drop_node (At (fst n)) (hang c (tlink s) T) = Inr T' \<and> holds T' (plug c s)"
proof -
  let ?m = "cells (bmem T)"
  define U where "U = hang c (tlink s) T"
  note d = holdsD [OF h]
  have m: "cshape ?m c (At (fst n))" "shape ?m s" using d(1) one by (auto simp: shape_plug)
  have ad: "set (addrs (plug c (Node l n r))) = insert (fst n) (set (addrs (plug c s)))"
    using one by (auto simp: set_addrs_plug)
  have di: "distinct (addrs (plug c s))" "fst n \<notin> set (caddrs c)" "fst n \<notin> set (addrs s)"
    using d(3) one by (auto simp: distinct_plug)
  have sz: "size (plug c (Node l n r)) = Suc (size (plug c s))" using one by (auto simp: size_plug)
  have cell: "cells (bmem U) (fst n) = ?m (fst n)" using di(2) by (simp add: U_def cells_hang set_hole_other)
  have "?m (fst n) \<noteq> None" using d(1) by (simp add: shape_plug)
  then obtain k where k: "cells (bmem U) (fst n) = Some k" using cell by auto
  let ?T' = "U\<lparr>bmem := (bmem U)\<lparr>cells := (cells (bmem U))(fst n := None)\<rparr>, BinarySearchTree_size := BinarySearchTree_size U - 1\<rparr>"
  have "drop_node (At (fst n)) U = Inr ?T'"
    using k d(6,7) sz by (intro drop_node_runs) (simp_all add: U_def)
  moreover have "holds ?T' (plug c s)"
  proof -
    have "shape (set_hole c (tlink s) ?m) s" "cshape (set_hole c (tlink s) ?m) c (tlink s)"
      using di m d(3) by (auto simp: distinct_plug intro!: shape_cong [OF m(2)] set_hole_other cshape_set_hole [OF m(1)])
    then have "shape ((set_hole c (tlink s) ?m)(fst n := None)) (plug c s)"
      using di by (auto simp: shape_plug elim!: shape_cong cshape_cong)
    moreover have "broot U = tlink (plug c s)"
      using d(2) top_Cons [of c "At (fst n)" "tlink s"] by (simp add: U_def broot_hang tlink_plug)
    moreover have "dom ((set_hole c (tlink s) ?m)(fst n := None)) = set (addrs (plug c s))"
      using dom_set_hole [OF m(1), of "tlink s"] d(4) ad di(2,3) by (auto simp: set_addrs_plug)
    ultimately show ?thesis
      using d ad sz di by (simp add: holds_def U_def cells_hang)
  qed
  ultimately show ?thesis unfolding U_def by blast
qed

text \<open>A leaf is added at an empty place.\<close>

definition grown :: "(nat \<times> 'a) frame list \<Rightarrow> 'a \<Rightarrow> 'a bst \<Rightarrow> 'a bst" where
  "grown c x T = (let T1 = hang c (At (brk (bmem T))) (snd (new_leaf x T)) in T1\<lparr>BinarySearchTree_size := BinarySearchTree_size T1 + 1\<rparr>)"

lemma holds_grown:
  assumes h: "holds T (plug c Leaf)" and room: "size (plug c Leaf) < 4294967294"
  shows "holds (grown c x T) (plug c (Node Leaf (brk (bmem T), x) Leaf))"
proof -
  let ?m = "cells (bmem T)" let ?b = "brk (bmem T)" let ?s = "Node Leaf (?b, x) Leaf"
  note d = holdsD [OF h]
  let ?T1 = "(snd (new_leaf x T))\<lparr>BinarySearchTree_size := BinarySearchTree_size T + 1\<rparr>"
  have new: "?b \<notin> set (caddrs c)" using d(5) by (auto simp: set_addrs_plug)
  have m: "cshape ?m c NIL" using d(1) by (simp add: shape_plug)
  have c1: "cells (bmem ?T1) = ?m(?b := Some \<lparr>bitem = x, bleft = NIL, bright = NIL\<rparr>)"
      "brk (bmem ?T1) = Suc ?b" "broot ?T1 = broot T"
    by (simp_all add: new_leaf_def OP_NEW_def)
  have cs: "cshape (cells (bmem ?T1)) c NIL"
    unfolding c1 using new by (auto intro: cshape_cong [OF m])
  have "holds (hang c (tlink ?s) ?T1) (plug c ?s)"
  proof (rule holds_hang [OF cs])
    show "shape (cells (bmem ?T1)) ?s" unfolding c1(1) by simp
    show "distinct (addrs (plug c ?s))" using d(3) new by (simp add: distinct_plug)
    show "dom (cells (bmem ?T1)) = set (addrs (plug c ?s))"
      unfolding c1(1) using d(4) by (auto simp: set_addrs_plug)
    show "a < brk (bmem ?T1)" if "a \<in> set (addrs (plug c ?s))" for a
      unfolding c1(2) using that d(5) [of a] by (auto simp: set_addrs_plug)
    show "broot ?T1 = top c NIL" if "c \<noteq> []" using d(2) by (simp only: c1(3) tlink_plug tlink.simps)
  qed (use c1 d(6) room in \<open>simp_all add: size_plug\<close>)
  moreover have "hang c (tlink ?s) ?T1 = grown c x T"
    by (simp add: grown_def hang_def new_leaf_def OP_NEW_def)
  ultimately show ?thesis by simp
qed

lemma holds_item:
  assumes h: "holds T (plug c (Node l n r))"
  shows "\<exists>T'. set_item (At (fst n)) y T = Inr T' \<and> holds T' (plug c (Node l (fst n, y) r)) \<and> direction T' = direction T"
proof -
  let ?m = "cells (bmem T)"
  note d = holdsD [OF h]
  have m: "?m (fst n) = Some \<lparr>bitem = snd n, bleft = tlink l, bright = tlink r\<rparr>" using d(1) by (simp add: shape_plug)
  let ?T' = "T\<lparr>bmem := (bmem T)\<lparr>cells := ?m(fst n \<mapsto> \<lparr>bitem = y, bleft = tlink l, bright = tlink r\<rparr>)\<rparr>\<rparr>"
  have "set_item (At (fst n)) y T = Inr ?T'" using m by (simp add: set_item_def)
  moreover have "shape (cells (bmem ?T')) (plug c (Node l (fst n, y) r))"
  proof -
    have "cshape ?m c (At (fst n))" "shape ?m l" "shape ?m r" using d(1) by (auto simp: shape_plug)
    then show ?thesis
      using d(3) by (auto simp: shape_plug distinct_plug elim!: shape_cong cshape_cong)
  qed
  moreover have "set (addrs (plug c (Node l (fst n, y) r))) = set (addrs (plug c (Node l n r)))"
    "distinct (addrs (plug c (Node l (fst n, y) r)))" "size (plug c (Node l (fst n, y) r)) = size (plug c (Node l n r))"
    using d(3) by (auto simp: set_addrs_plug distinct_plug size_plug)
  moreover have "insert (fst n) (dom ?m) = dom ?m" using m by blast
  ultimately show ?thesis
    using d by (intro exI [of _ ?T']) (simp add: holds_def tlink_plug)
qed

section \<open>The operations on trees\<close>

definition add_result :: "'a \<Rightarrow> 'a bst \<Rightarrow> (nat \<times> 'a) frame list \<times> 'a atree \<Rightarrow> link \<times> 'a bst" where
  "add_result x T r = (case r of (c, s) \<Rightarrow> if s = Leaf then (At (brk (bmem T)), grown c x T) else (NIL, T))"

lemma grow_child:
  assumes "holds T (plug c Leaf)" "c \<noteq> []" "T1 = snd (new_leaf x T)"
  shows "side c = LEFT \<Longrightarrow> set_left (parent_of c) q T1 = Inr (hang c q T1)"
    "side c = RIGHT \<Longrightarrow> set_right (parent_of c) q T1 = Inr (hang c q T1)"
proof -
  have "cshape (cells (bmem T)) c NIL" "brk (bmem T) \<notin> set (caddrs c)"
    using holdsD(1,5) [OF assms(1)] by (auto simp: shape_plug set_addrs_plug)
  then have "cshape (cells (bmem T1)) c NIL"
    unfolding assms(3) by (auto simp: new_leaf_def OP_NEW_def intro: cshape_cong)
  note * = set_child [OF this, of q]
  show "side c = LEFT \<Longrightarrow> set_left (parent_of c) q T1 = Inr (hang c q T1)"
    "side c = RIGHT \<Longrightarrow> set_right (parent_of c) q T1 = Inr (hang c q T1)"
    by (erule *)+
qed

lemma new_leaf_fst: "new_leaf x T = (At (brk (bmem T)), snd (new_leaf x T))"
  by (simp add: new_leaf_def OP_NEW_def)

lemma new_leaf_size [simp]: "BinarySearchTree_size (snd (new_leaf x T)) = BinarySearchTree_size T"
  by (simp add: new_leaf_def OP_NEW_def)

lemma add_walk_runs:
  assumes "holds T (plug c s)" "s = Node l n r"
  shows "add_walk x (At (fst n)) T = Some (Inr (add_result x T (descend x c s)))"
  using assms
proof (induction s arbitrary: l n r c)
  case (Node sl sn sr)
  have eq [simp]: "sl = l" "sn = n" "sr = r" using Node.prems(2) by simp_all
  have s: "shape (cells (bmem T)) (Node l n r)" using holdsD(1) [OF Node.prems(1)] by (simp add: shape_plug)
  have sz: "w32 (BinarySearchTree_size T + 1) = BinarySearchTree_size T + 1" using holdsD(6,7) [OF Node.prems(1)] by simp
  obtain T1 where T1: "new_leaf x T = (At (brk (bmem T)), T1)" using new_leaf_fst [of x T] by metis
  have T1s: "BinarySearchTree_size T1 = BinarySearchTree_size T" using new_leaf_size [of x T] T1 by simp
  note run = add_walk.simps [of x "At (fst n)" T] node_at_tlink [OF s]
  have L: "holds T (plug (InL n r # c) l)" and R: "holds T (plug (InR l n # c) r)" using Node.prems(1) by simp_all
  show ?case
  proof (cases "x < snd n")
    case True
    show ?thesis
    proof (cases l)
      case Leaf
      have "set_left (At (fst n)) q T1 = Inr (hang (InL n r # c) q T1)" for q
        using grow_child(1) [OF L [unfolded Leaf] _ refl, of _ x] T1 by simp
      then show ?thesis
        using Leaf run(2) True sz
        by (subst run(1)) (simp add: add_result_def T1 T1s grown_def Let_def)
    next
      case N: (Node l1 k l2)
      show ?thesis
        using True N Node.IH(1) [of "InL n r # c" l1 k l2] L by (subst run(1)) (simp add: run(2))
    qed
  next
    case F: False
    show ?thesis
    proof (cases "snd n < x")
      case True
      show ?thesis
      proof (cases r)
        case Leaf
        have "set_right (At (fst n)) q T1 = Inr (hang (InR l n # c) q T1)" for q
          using grow_child(2) [OF R [unfolded Leaf] _ refl, of _ x] T1 by simp
        then show ?thesis
          using Leaf run(2) True F sz
          by (subst run(1)) (simp add: add_result_def T1 T1s grown_def Let_def)
      next
        case N: (Node r1 k r2)
        show ?thesis
          using True F N Node.IH(2) [of "InR l n # c" r1 k r2] R by (subst run(1)) (simp add: run(2))
      qed
    next
      case False
      then show ?thesis using F by (subst run(1)) (simp add: run(2) add_result_def)
    qed
  qed
qed simp

lemma BST_Add_runs:
  assumes "holds T t"
  shows "BST_Add x T = Some (Inr (add_result x T (descend x [] t)))"
proof (cases t)
  case Leaf
  then show ?thesis using holdsD(6) [OF assms]
    by (simp add: BST_Add_def add_result_def grown_def hang_def new_leaf_def OP_NEW_def)
next
  case (Node l n r)
  then show ?thesis
    using holdsD(2,6) [OF assms] add_walk_runs [of T "[]" t l n r x] assms by (simp add: BST_Add_def)
qed

text \<open>The way to the least node of a tree.\<close>

fun spine :: "'x tree \<Rightarrow> 'x frame list \<times> 'x tree" where
  "spine Leaf = ([], Leaf)"
| "spine (Node l n r) = (if l = Leaf then ([], Node l n r) else (case spine l of (d, s) \<Rightarrow> (d @ [InL n r], s)))"

lemma spine_plug: "spine t = (d, s) \<Longrightarrow> plug d s = t"
  by (induction t arbitrary: d s) (auto simp: plug_append split: if_splits prod.splits)

lemma spine_end: "spine t = (d, s) \<Longrightarrow> t \<noteq> Leaf \<Longrightarrow> \<exists>k r. s = Node Leaf k r"
  by (induction t arbitrary: d s) (auto split: if_splits prod.splits)

lemma before_append [simp]: "before (d @ c) = before c @ before d"
proof (induction d)
  case (Cons f d)
  then show ?case by (cases f) auto
qed simp

lemma after_append [simp]: "after (d @ c) = after d @ after c"
proof (induction d)
  case (Cons f d)
  then show ?case by (cases f) auto
qed simp

lemma spine_before: "spine t = (d, s) \<Longrightarrow> before d = []"
  by (induction t arbitrary: d s) (auto split: if_splits prod.splits)

lemma leftmost_runs:
  assumes "shape (cells (bmem T)) s" "s = Node l n r" "spine s = (d, s')"
  shows "leftmost (parent_of c) (side c) (At (fst n)) T = Some (Inr (parent_of (d @ c), side (d @ c), tlink s'))"
  using assms
proof (induction s arbitrary: l n r c d s')
  case (Node sl sn sr)
  have eq [simp]: "sl = l" "sn = n" "sr = r" using Node.prems(2) by simp_all
  note run = leftmost.simps [of "parent_of c" "side c" "At (fst n)" T] node_at_tlink [OF Node.prems(1)]
  show ?case
  proof (cases l)
    case Leaf
    then show ?thesis using run Node.prems(3) by auto
  next
    case N: (Node l1 k l2)
    obtain d' where d': "spine l = (d', s')" "d = d' @ [InL n r]"
      using Node.prems(3) N by (auto split: prod.splits)
    have "shape (cells (bmem T)) l" using Node.prems(1) by simp
    then show ?thesis
      using run N d' Node.IH(1) [of l1 k l2 d' s' "InL n r # c"] by simp
  qed
qed simp

lemma bst_repD:
  assumes "bst_rep T t"
  shows "holds T t" "sorted_wrt (<) (keys t)"
  using assms by (simp_all add: bst_rep_def)

text \<open>The search for the key of a node finds the place of the node.\<close>

lemma Find_at:
  assumes "bst_rep T (plug c (Node l n r))"
  shows "BST_Find (snd n) T = Some (Inr (At (fst n), parent_of c, T\<lparr>direction := side c\<rparr>))"
proof -
  have "descend (snd n) [] (plug c (Node l n r)) = (c, Node l n r)"
    using descend_plug [OF fits_at [OF bst_repD(2) [OF assms]], of "[]" "Node l n r"] by simp
  then show ?thesis using BST_Find_runs [OF bst_repD(1) [OF assms]] by (simp add: find_result_def)
qed

lemma cut_child:
  assumes h: "holds T (plug c (Node l n r))" and one: "s = l \<and> r = Leaf \<or> s = r \<and> l = Leaf"
    and U: "if c = [] then U = Inr (T\<lparr>broot := tlink s\<rparr>) else if side c = LEFT then U = set_left (parent_of c) (tlink s) T
      else U = set_right (parent_of c) (tlink s) T"
  shows "\<exists>T'. rbind U (drop_node (At (fst n))) = Inr T' \<and> holds T' (plug c s)"
proof -
  have "cshape (cells (bmem T)) c (At (fst n))" using holdsD(1) [OF h] by (simp add: shape_plug)
  then have "U = Inr (hang c (tlink s) T)"
    using U set_child [of T c "At (fst n)" "tlink s"] side_cases [of c] by (auto simp: hang_def split: if_splits)
  then show ?thesis using cut_node [OF h one] by simp
qed

lemma clear_walk_empty: "BinarySearchTree_size T = 0 \<Longrightarrow> clear_walk p T = Some (Inr T)"
  by (subst clear_walk.simps) simp

lemma size_one: "size (Node l n r) = 1 \<Longrightarrow> l = Leaf \<and> r = Leaf"
  by simp

lemma sorted_skip: "sorted_wrt (<) (xs @ x # ys) \<Longrightarrow> sorted_wrt (<) (xs @ ys)"
  by (simp add: sorted_wrt_append)

lemma sorted_cut:
  assumes "sorted_wrt (<) (keys (plug c (Node l n r)))" "l = Leaf \<and> s = r \<or> r = Leaf \<and> s = l"
  shows "sorted_wrt (<) (keys (plug c s))"
  using assms sorted_skip [of "map snd (before c)" "snd n" "keys r @ map snd (after c)"]
    sorted_skip [of "map snd (before c) @ keys l" "snd n" "map snd (after c)"] by (auto simp: keys_plug)

lemma no_frames: "before c = [] \<Longrightarrow> after c = [] \<Longrightarrow> c = []"
  by (cases c rule: before.cases) auto

lemma single_node:
  assumes "size (plug c (Node l n r)) = 1"
  shows "c = []" "l = Leaf" "r = Leaf"
  using assms no_frames [of c] by (auto simp: size_plug)

lemma clear_walk_runs:
  assumes "bst_rep T (plug c (Node l n r))"
  shows "\<exists>T'. clear_walk (At (fst n)) T = Some (Inr T') \<and> bst_rep T' Leaf"
  using assms
proof (induction "size (plug c (Node l n r)) * 4294967296 + size (Node l n r)" arbitrary: T c l n r rule: less_induct)
  case less
  let ?t = "plug c (Node l n r)"
  note h = bst_repD(1) [OF less.prems] and so = bst_repD(2) [OF less.prems]
  note d = holdsD [OF h]
  note run = clear_walk.simps [of "At (fst n)" T]
  have sz: "BinarySearchTree_size T \<noteq> 0" using d(6) by (simp add: size_plug)
  have nd: "node_at (At (fst n)) T = Inr \<lparr>bitem = snd n, bleft = tlink l, bright = tlink r\<rparr>"
    using d(1) by (intro node_at_tlink) (simp add: shape_plug)
  show ?case
  proof (cases "size ?t = 1")
    case True
    note one = single_node [OF True]
    obtain T1 where T1: "drop_node (At (fst n)) (hang [] NIL T) = Inr T1" "holds T1 Leaf"
      using cut_node [of T "[]" l n r Leaf] h one by auto
    have "drop_node (broot T) T = rbind (drop_node (At (fst n)) (hang [] NIL T)) (\<lambda>U. Inr (U\<lparr>broot := broot T\<rparr>))"
      using d(2) one by (simp add: drop_node_def hang_def node_at_def split: sum.splits) (cases "fetch (At (fst n)) (bmem T)"; cases "OP_DELETE (At (fst n)) (bmem T)"; simp)
    moreover have "T1\<lparr>broot := NIL, BinarySearchTree_size := 0\<rparr> = T1" using holdsD(2,6) [OF T1(2)] by simp
    ultimately show ?thesis
      using True T1 sz d(6) clear_walk_empty [of T1 "At (fst n)"] holdsD(6) [OF T1(2)]
      by (subst run) (simp add: bst_rep_def)
  next
    case False
    then have s2: "BinarySearchTree_size T \<noteq> Suc 0" using d(6) by simp
    have lt: "size ?t < 4294967296" using d(7) by simp
    show ?thesis
    proof (cases l)
      case N: (Node l1 k l2)
      have "bst_rep T (plug (InL n r # c) (Node l1 k l2))" using less.prems N by simp
      from less.hyps [OF _ this] show ?thesis using N sz s2 nd by (subst run) simp
    next
      case L: Leaf
      show ?thesis
      proof (cases r)
        case N: (Node r1 k r2)
        have "bst_rep T (plug (InR l n # c) (Node r1 k r2))" using less.prems N by simp
        from less.hyps [OF _ this] show ?thesis using L N sz s2 nd by (subst run) simp
      next
        case R: Leaf
        have c: "c \<noteq> []" using False L R by auto
        then obtain f c' where fc: "c = f # c'" by (cases c) auto
        let ?U = "T\<lparr>direction := side c\<rparr>"
        have hU: "holds ?U (plug c (Node l n r))" using h by simp
        have cs: "cshape (cells (bmem ?U)) c (At (fst n))" using d(1) by (simp add: shape_plug)
        obtain T1 where T1: "drop_node (At (fst n)) (hang c NIL ?U) = Inr T1" "holds T1 (plug c Leaf)"
          using cut_node [OF hU, of Leaf] L R by auto
        have "shape (cells (bmem T)) (fill f (Node l n r))" "distinct (addrs (fill f (Node l n r)))"
          using d(1,3) by (simp_all add: fc shape_plug distinct_plug)
        then have "\<exists>k. node_at (parent_of c) ?U = Inr k \<and>
            (if bleft k = At (fst n) then set_left (parent_of c) NIL ?U else set_right (parent_of c) NIL ?U) = Inr (hang c NIL ?U)"
          using set_child [OF cs, of NIL] by (cases f) (auto simp: fc node_at_def split: tree.splits elim!: tlink.elims)
        moreover have "\<exists>T'. clear_walk (parent_of c) T1 = Some (Inr T') \<and> bst_rep T' Leaf"
        proof -
          obtain l' m r' where p: "fill f Leaf = Node l' m r'" "fst m = fst (fnode f)" by (cases f) auto
          have rep: "bst_rep T1 (plug c' (Node l' m r'))"
            using T1(2) sorted_cut [OF so] p(1) L R by (simp add: bst_rep_def fc)
          have "size (Node l' m r') < 4294967296" "Suc (size (plug c' (Node l' m r'))) = size ?t"
            using holdsD(7) [OF T1(2)] p(1) L R size_plug [of c Leaf] size_plug [of c "Node l n r"] size_plug [of c' "Node l' m r'"]
            by (auto simp: fc)
          then show ?thesis using less.hyps [OF _ rep] p(2) by (simp add: fc)
        qed
        ultimately show ?thesis
          using L R sz s2 nd Find_at [OF less.prems] T1 by (subst run) (auto simp: FindParent_def)
      qed
    qed
  qed
qed

lemma BST_Clear_runs:
  assumes "bst_rep T t"
  shows "\<exists>T'. BST_Clear T = Some (Inr T') \<and> bst_rep T' Leaf"
proof (cases t)
  case Leaf
  then show ?thesis
    using assms holdsD(6) [OF bst_repD(1) [OF assms]] by (auto simp: BST_Clear_def clear_walk_empty)
next
  case (Node l n r)
  then show ?thesis
    using clear_walk_runs [of T "[]" l n r] assms holdsD(2) [OF bst_repD(1) [OF assms]] by (simp add: BST_Clear_def)
qed

lemma set_skip:
  fixes x :: "'b::linorder"
  assumes "sorted_wrt (<) (xs @ x # ys)"
  shows "set (xs @ ys) = set (xs @ x # ys) - {x}"
  using assms by (force simp: sorted_wrt_append)

lemma bst_rep_skip:
  assumes "bst_rep T t" "holds T' t'" "keys t = xs @ x # ys" "keys t' = xs @ ys"
  shows "bst_rep T' t'" "set (keys t') = set (keys t) - {x}"
  using assms set_skip [of xs x ys] sorted_skip [of xs x ys] by (auto simp: bst_rep_def)

text \<open>A node with two children gets the least key of its right subtree, whose node is cut out.\<close>

lemma pull_up:
  assumes h: "holds T (plug c (Node l n r))" and s: "spine r = (d, Node Leaf k r')" "r \<noteq> Leaf"
    and c': "c' = d @ InR l n # c" and c'': "c'' = d @ InR l (fst n, snd k) # c"
  shows "\<exists>T3 T'. set_item (At (fst n)) (snd k) T = Inr T3
    \<and> node_at (At (fst k)) T = Inr \<lparr>bitem = snd k, bleft = NIL, bright = tlink r'\<rparr>
    \<and> node_at (At (fst k)) T3 = Inr \<lparr>bitem = snd k, bleft = NIL, bright = tlink r'\<rparr>
    \<and> rbind (if side c' = RIGHT then set_right (parent_of c') (tlink r') T3 else set_left (parent_of c') (tlink r') T3)
        (drop_node (At (fst k))) = Inr T'
    \<and> holds T' (plug c'' r')"
proof -
  have r: "r = plug d (Node Leaf k r')" using spine_plug [OF s(1)] by simp
  obtain T3 where T3: "set_item (At (fst n)) (snd k) T = Inr T3" "holds T3 (plug c (Node l (fst n, snd k) r))"
    using holds_item [OF h] by blast
  have h3: "holds T3 (plug c'' (Node Leaf k r'))" using T3(2) by (simp add: c'' plug_append r)
  have hk: "holds T (plug c' (Node Leaf k r'))" using h by (simp add: c' plug_append r)
  have "node_at (At (fst k)) T = Inr \<lparr>bitem = snd k, bleft = tlink (Leaf :: 'a atree), bright = tlink r'\<rparr>"
    using holdsD(1) [OF hk] by (intro node_at_tlink) (simp add: shape_plug)
  moreover have "node_at (At (fst k)) T3 = Inr \<lparr>bitem = snd k, bleft = tlink (Leaf :: 'a atree), bright = tlink r'\<rparr>"
    using holdsD(1) [OF h3] by (intro node_at_tlink) (simp add: shape_plug)
  moreover have "side c' = side c''" "parent_of c' = parent_of c''" "c'' \<noteq> []" "c' \<noteq> []"
    by (cases d rule: side.cases; simp add: c' c'')+
  moreover have "\<exists>T'. rbind (if side c'' = RIGHT then set_right (parent_of c'') (tlink r') T3 else set_left (parent_of c'') (tlink r') T3)
        (drop_node (At (fst k))) = Inr T' \<and> holds T' (plug c'' r')"
  proof (rule cut_child [OF h3])
    show "r' = Leaf \<and> r' = Leaf \<or> r' = r' \<and> (Leaf :: 'a atree) = Leaf" by simp
  qed (use \<open>c'' \<noteq> []\<close> side_cases [of c''] in auto)
  ultimately show ?thesis using T3(1) by auto
qed

lemma run_rbind:
  assumes "rbind U f = Inr y"
  shows "mbind (Some U) (\<lambda>x. mbind (Some (f x)) g) = g y"
  using assms by (cases U) simp_all

lemma BST_Del_runs:
  assumes rep: "bst_rep T t"
  shows "\<exists>T' c s. BST_Del x T = Some (Inr (parent_of c, T')) \<and> bst_rep T' (plug c s)
    \<and> set (keys (plug c s)) = (if size t = 1 then {} else set (keys t) - {x}) \<and> (x \<notin> set (keys t) \<longrightarrow> c = [])"
proof -
  note h = bst_repD(1) [OF rep] and so = bst_repD(2) [OF rep]
  note sz = holdsD(6) [OF h]
  consider "size t = 0" | "size t = 1" | "size t \<noteq> 0" "size t \<noteq> 1" "x \<notin> set (keys t)"
    | "size t \<noteq> 0" "size t \<noteq> 1" "x \<in> set (keys t)" by blast
  then show ?thesis
  proof cases
    case 1
    then show ?thesis using rep sz by (intro exI [of _ T] exI [of _ "[]"] exI [of _ Leaf]) (simp add: BST_Del_def)
  next
    case 2
    then show ?thesis using BST_Clear_runs [OF rep] sz
      by (auto simp: BST_Del_def intro!: exI [of _ "[]"] exI [of _ Leaf])
  next
    case 3
    obtain c s where cs: "descend x [] t = (c, s)" by fastforce
    then have "s = Leaf" using descend_in [OF cs so] 3 by simp
    then show ?thesis using 3 sz rep BST_Find_runs [OF h, of x] cs
      by (intro exI [of _ "T\<lparr>direction := NOT_FOUND\<rparr>"] exI [of _ "[]"] exI [of _ t])
        (simp add: BST_Del_def find_result_def bst_rep_def)
  next
    case 4
    obtain c l n r where cs: "descend x [] t = (c, Node l n r)"
      using descend_in [OF _ so, of x] 4(3) by (metis neq_Leaf_iff surj_pair)
    have t: "t = plug c (Node l n r)" "snd n = x" using plug_descend [OF cs] descend_item [OF cs] by simp_all
    let ?T = "T\<lparr>direction := side c\<rparr>"
    have hT: "holds ?T (plug c (Node l n r))" using h t by simp
    have nd: "node_at (At (fst n)) T = Inr \<lparr>bitem = snd n, bleft = tlink l, bright = tlink r\<rparr>"
      using holdsD(1) [OF hT] by (intro node_at_tlink) (simp add: shape_plug)
    have pre: "BST_Find x T = Some (Inr (At (fst n), parent_of c, ?T))" using Find_at [of T c l n r] rep t by simp
    have nf: "side c \<noteq> NOT_FOUND" by (cases c rule: side.cases) auto
    show ?thesis
    proof (cases "l = Leaf \<or> r = Leaf")
      case True
      then obtain s where s: "s = l \<and> r = Leaf \<or> s = r \<and> l = Leaf" by blast
      have "\<exists>T'. BST_Del x T = Some (Inr (parent_of c, T')) \<and> holds T' (plug c s)"
      proof (cases "l = Leaf \<and> r = Leaf")
        case leaf: True
        let ?U = "if side c = LEFT then set_left (parent_of c) NIL ?T else set_right (parent_of c) NIL ?T"
        have c: "c \<noteq> []" using leaf 4(2) t(1) by auto
        obtain T' where T': "rbind ?U (drop_node (At (fst n))) = Inr T'" "holds T' (plug c s)"
          using cut_child [OF hT s, of ?U] c side_cases [of c] leaf s by auto
        show ?thesis
          using T' pre nd nf sz leaf c 4 run_rbind [OF T'(1)]
          by (intro exI [of _ T']) (simp add: BST_Del_def split del: if_split)
      next
        case one: False
        let ?U = "if c \<noteq> [] then if side c = RIGHT then set_right (parent_of c) (tlink s) ?T else set_left (parent_of c) (tlink s) ?T
          else Inr (?T\<lparr>broot := tlink s\<rparr>)"
        obtain T' where T': "rbind ?U (drop_node (At (fst n))) = Inr T'" "holds T' (plug c s)"
          using cut_child [OF hT s, of ?U] side_cases [of c] by auto
        show ?thesis
          using T' pre nd nf sz one s 4 run_rbind [OF T'(1)]
          by (intro exI [of _ T']) (elim disjE conjE; simp add: BST_Del_def cong: if_cong split del: if_split)
      qed
      moreover have "keys t = (map snd (before c) @ keys l) @ snd n # keys r @ map snd (after c)"
        "keys (plug c s) = (map snd (before c) @ keys l) @ keys r @ map snd (after c)"
        using s by (auto simp: t(1) keys_plug)
      ultimately show ?thesis using bst_rep_skip [OF rep] t(2) 4(2,3) by metis
    next
      case False
      obtain d s' where "spine r = (d, s')" by fastforce
      then obtain k r' where sp: "spine r = (d, Node Leaf k r')" using spine_end [of r d s'] False by blast
      have hT': "holds (?T\<lparr>direction := d'\<rparr>) (plug c (Node l n r))" for d' using hT by simp
      let ?c = "d @ InR l n # c" and ?c2 = "d @ InR l (fst n, snd k) # c"
      let ?T2 = "?T\<lparr>direction := side ?c\<rparr>"
      obtain T3 T' where up: "set_item (At (fst n)) (snd k) ?T2 = Inr T3"
          "node_at (At (fst k)) ?T2 = Inr \<lparr>bitem = snd k, bleft = NIL, bright = tlink r'\<rparr>"
          "node_at (At (fst k)) T3 = Inr \<lparr>bitem = snd k, bleft = NIL, bright = tlink r'\<rparr>"
          "rbind (if side ?c = RIGHT then set_right (parent_of ?c) (tlink r') T3 else set_left (parent_of ?c) (tlink r') T3)
            (drop_node (At (fst k))) = Inr T'"
          "holds T' (plug ?c2 r')"
        using pull_up [OF hT' [of "side (d @ InR l n # c)"] sp _ refl refl] False
        by (elim impE meta_impE exE conjE; assumption?) metis
      obtain r1 m r2 where rN: "r = Node r1 m r2" using False by (cases r) auto
      have "shape (cells (bmem ?T)) r" using holdsD(1) [OF hT] by (simp add: shape_plug)
      from leftmost_runs [OF this rN sp, of "InR l n # c"]
      have lm: "leftmost (At (fst n)) RIGHT (tlink r) ?T = Some (Inr (parent_of ?c, side ?c, At (fst k)))"
        using rN by simp
      have "BST_Del x T = Some (Inr (parent_of ?c2, T'))"
      proof -
        have "parent_of ?c2 = parent_of ?c" by (cases d) auto
        moreover have "(if tlink r' = NIL then if side ?c = RIGHT then set_right (parent_of ?c) NIL T3 else set_left (parent_of ?c) NIL T3
            else if side ?c = RIGHT then set_right (parent_of ?c) (tlink r') T3 else set_left (parent_of ?c) (tlink r') T3)
          = (if side ?c = RIGHT then set_right (parent_of ?c) (tlink r') T3 else set_left (parent_of ?c) (tlink r') T3)"
          by auto
        ultimately show ?thesis
          using pre nd nf sz False 4 lm up run_rbind [OF up(4)]
          by (simp add: BST_Del_def Let_def cong: if_cong split del: if_split)
      qed
      moreover have "keys t = (map snd (before c) @ keys l) @ snd n # snd k # keys r' @ map snd (after d) @ map snd (after c)"
        "keys (plug ?c2 r') = (map snd (before c) @ keys l) @ snd k # keys r' @ map snd (after d) @ map snd (after c)"
        using spine_plug [OF sp] spine_before [OF sp] keys_plug [of d "Node Leaf k r'"]
        by (simp_all add: t(1) keys_plug keys_def [symmetric])
      ultimately show ?thesis using bst_rep_skip [OF rep up(5)] t(2) 4(2,3) by metis
    qed
  qed
qed

section \<open>Refinement of sets\<close>

lemma BST_Add_rep:
  assumes rep: "bst_rep T t" and room: "size t < 4294967294"
  shows "\<exists>p T' t'. BST_Add x T = Some (Inr (p, T')) \<and> bst_rep T' t' \<and> set (keys t') = insert x (set (keys t))
    \<and> (if x \<in> set (keys t) then p = NIL \<and> T' = T \<and> t' = t
       else \<exists>c. t = plug c Leaf \<and> t' = plug c (Node Leaf (brk (bmem T), x) Leaf) \<and> p = At (brk (bmem T)))"
proof -
  note h = bst_repD(1) [OF rep] and so = bst_repD(2) [OF rep]
  obtain c s where cs: "descend x [] t = (c, s)" by fastforce
  have t: "t = plug c s" using plug_descend [OF cs] by simp
  note f = descend_fits [OF cs _ so, simplified]
  show ?thesis
  proof (cases "s = Leaf")
    case True
    have "holds (grown c x T) (plug c (Node Leaf (brk (bmem T), x) Leaf))"
      using holds_grown [of T c x] h room t True by simp
    moreover have "sorted_wrt (<) (keys (plug c (Node Leaf (brk (bmem T), x) Leaf)))"
      using so f unfolding t True keys_plug fits_def by (auto simp: sorted_wrt_append)
    moreover have "x \<notin> set (keys t)" using descend_in [OF cs so] True by simp
    ultimately show ?thesis
      using BST_Add_runs [OF h, of x] cs t True
      by (intro exI [of _ "At (brk (bmem T))"] exI [of _ "grown c x T"] exI [of _ "plug c (Node Leaf (brk (bmem T), x) Leaf)"])
        (auto simp: add_result_def bst_rep_def keys_plug)
  next
    case False
    then show ?thesis
      using BST_Add_runs [OF h, of x] cs rep descend_in [OF cs so] by (auto simp: add_result_def)
  qed
qed

lemma Find_result_rep:
  assumes "bst_rep T t"
  shows "\<exists>p q d. BST_Find x T = Some (Inr (p, q, T\<lparr>direction := d\<rparr>))
    \<and> (d \<noteq> NOT_FOUND \<longleftrightarrow> x \<in> set (keys t)) \<and> (p \<noteq> NIL \<longleftrightarrow> x \<in> set (keys t))
    \<and> (x \<in> set (keys t) \<longrightarrow> rbind (node_at p T) (\<lambda>n. Inr (bitem n)) = Inr x)"
proof -
  note h = bst_repD(1) [OF assms] and so = bst_repD(2) [OF assms]
  obtain c s where cs: "descend x [] t = (c, s)" by fastforce
  have t: "t = plug c s" using plug_descend [OF cs] by simp
  have sh: "shape (cells (bmem T)) s" using holdsD(1) [OF h] by (simp add: t shape_plug)
  have "side c \<noteq> NOT_FOUND" by (cases c rule: side.cases) auto
  moreover have "rbind (node_at (tlink s) T) (\<lambda>n. Inr (bitem n)) = Inr x" if "s \<noteq> Leaf"
    using that sh cs descend_item [of x "[]" t c] node_at_tlink [of T] by (cases s) auto
  ultimately show ?thesis
    using BST_Find_runs [OF h, of x] cs descend_in [OF cs so] by (auto simp: find_result_def)
qed

lemma bst_rep_direction [simp]: "bst_rep (T\<lparr>direction := d\<rparr>) t = bst_rep T t"
  by (simp add: bst_rep_def)

lemma card_keys:
  assumes "bst_rep T t"
  shows "card (set (keys t)) = size t"
proof -
  have "card (set (keys t)) = length (keys t)"
    using bst_repD(2) [OF assms] by (intro distinct_card) (simp add: strict_sorted_iff)
  then show ?thesis by (simp only: keys_def length_map length_inorder)
qed

lemma card_store:
  assumes "bst_rep T t"
  shows "card (dom (cells (bmem T))) = size t" "finite (dom (cells (bmem T)))"
proof -
  note d = holdsD(3,4) [OF bst_repD(1) [OF assms]]
  have "card (dom (cells (bmem T))) = length (addrs t)" unfolding d(2) by (rule distinct_card [OF d(1)])
  then show "card (dom (cells (bmem T))) = size t" by (simp only: addrs_def length_map length_inorder)
  show "finite (dom (cells (bmem T)))" by (simp add: d(2))
qed

datatype 'a bst_op = BAdd 'a | BDel 'a | BLook 'a | BClear

fun bst_run :: "'a::linorder bst_op \<Rightarrow> 'a bst \<Rightarrow> 'a bst run" where
  "bst_run (BAdd x) T = mbind (BST_Add x T) (\<lambda>(_, T'). Some (Inr T'))"
| "bst_run (BDel x) T = mbind (BST_Del x T) (\<lambda>(_, T'). Some (Inr T'))"
| "bst_run (BLook x) T = mbind (GetPointerToNode x T) (\<lambda>(_, T'). Some (Inr T'))"
| "bst_run BClear T = BST_Clear T"

text \<open>What the operations mean on sets.\<close>

fun bst_spec :: "'a bst_op \<Rightarrow> 'a set \<Rightarrow> 'a set" where
  "bst_spec (BAdd x) S = insert x S"
| "bst_spec (BDel x) S = S - {x}"
| "bst_spec (BLook x) S = S"
| "bst_spec BClear S = {}"

text \<open>
  Deleting from a tree of one node empties it, whatever is to be deleted: an element that is not in such a tree must not
  be deleted from it.
\<close>

fun bst_legal :: "'a bst_op \<Rightarrow> 'a set \<Rightarrow> bool" where
  "bst_legal (BDel x) S = (card S = 1 \<longrightarrow> x \<in> S)"
| "bst_legal op S = True"

fun bst_legals :: "'a bst_op list \<Rightarrow> 'a set \<Rightarrow> bool" where
  "bst_legals [] S = True"
| "bst_legals (op # ops) S = (bst_legal op S \<and> bst_legals ops (bst_spec op S))"

lemma legal_deletion:
  assumes "bst_rep T t" "card (set (keys t)) = 1 \<longrightarrow> x \<in> set (keys t)"
  shows "(if size t = 1 then {} else set (keys t) - {x}) = set (keys t) - {x}"
  using assms card_keys [OF assms(1)] by (auto simp: card_1_singleton_iff)

text \<open>What \<open>Del\<close> answers: null for an element that is not there, otherwise null or a node of the tree that is left.\<close>

lemma BST_Del_answer:
  assumes "bst_rep T t" "card (set (keys t)) = 1 \<longrightarrow> x \<in> set (keys t)"
  shows "\<exists>p T' t'. BST_Del x T = Some (Inr (p, T')) \<and> bst_rep T' t' \<and> set (keys t') = set (keys t) - {x}
    \<and> (x \<notin> set (keys t) \<longrightarrow> p = NIL) \<and> (p = NIL \<or> (\<exists>n. node_at p T' = Inr n \<and> bitem n \<in> set (keys t) - {x}))"
proof -
  obtain T' c s where r: "BST_Del x T = Some (Inr (parent_of c, T'))" "bst_rep T' (plug c s)"
      "set (keys (plug c s)) = set (keys t) - {x}" "x \<notin> set (keys t) \<longrightarrow> c = []"
    using BST_Del_runs [OF assms(1), of x] legal_deletion [OF assms] by auto
  have "parent_of c = NIL \<or> (\<exists>n. node_at (parent_of c) T' = Inr n \<and> bitem n \<in> set (keys (plug c s)))"
  proof (cases c)
    case (Cons f c')
    obtain l n r where f: "fill f s = Node l n r" "fst n = fst (fnode f)" by (cases f) auto
    have "shape (cells (bmem T')) (Node l n r)"
      using holdsD(1) [OF bst_repD(1) [OF r(2)]] Cons f by (simp add: shape_plug)
    then have "node_at (At (fst n)) T' = Inr \<lparr>bitem = snd n, bleft = tlink l, bright = tlink r\<rparr>" by (rule node_at_tlink)
    moreover have "snd n \<in> set (keys (plug c s))" using Cons f by (simp add: keys_plug)
    ultimately show ?thesis using Cons f by simp
  qed simp
  then show ?thesis using r by auto
qed

lemma bst_run_rep:
  assumes rep: "bst_rep T t" and room: "size t < 4294967294" and legal: "bst_legal op (set (keys t))"
  shows "\<exists>T' t'. bst_run op T = Some (Inr T') \<and> bst_rep T' t' \<and> set (keys t') = bst_spec op (set (keys t)) \<and> size t' \<le> Suc (size t)"
proof (cases op)
  case (BAdd x)
  then obtain p T' t' where r: "BST_Add x T = Some (Inr (p, T'))" "bst_rep T' t'" "set (keys t') = insert x (set (keys t))"
    using BST_Add_rep [OF rep room, of x] by blast
  have "size t' \<le> Suc (size t)"
    using r(3) card_keys [OF rep] card_keys [OF r(2)] by (simp add: card_insert_if split: if_splits)
  then show ?thesis using BAdd r by auto
next
  case (BDel x)
  obtain p T' t' where r: "BST_Del x T = Some (Inr (p, T'))" "bst_rep T' t'" "set (keys t') = set (keys t) - {x}"
    using BST_Del_answer [OF rep, of x] legal BDel by auto
  have "size t' \<le> Suc (size t)"
    using card_mono [of "set (keys t)" "set (keys t')"] r(3) card_keys [OF rep] card_keys [OF r(2)] by auto
  then show ?thesis using BDel r by auto
next
  case (BLook x)
  then show ?thesis using Find_result_rep [OF rep, of x] rep
    by (auto simp: GetPointerToNode_def intro!: exI [of _ t])
next
  case BClear
  then show ?thesis using BST_Clear_runs [OF rep] by (auto intro!: exI [of _ Leaf])
qed

fun bst_run_all :: "'a::linorder bst_op list \<Rightarrow> 'a bst \<Rightarrow> 'a bst run" where
  "bst_run_all [] T = Some (Inr T)"
| "bst_run_all (op # ops) T = mbind (bst_run op T) (bst_run_all ops)"

lemma bst_run_all_rep:
  assumes "bst_rep T t" "size t + length ops < 4294967295" "bst_legals ops (set (keys t))"
  shows "\<exists>T' t'. bst_run_all ops T = Some (Inr T') \<and> bst_rep T' t' \<and> set (keys t') = fold bst_spec ops (set (keys t))"
  using assms
proof (induction ops arbitrary: T t)
  case (Cons op ops)
  obtain T1 t1 where 1: "bst_run op T = Some (Inr T1)" "bst_rep T1 t1" "set (keys t1) = bst_spec op (set (keys t))" "size t1 \<le> Suc (size t)"
    using bst_run_rep [OF Cons.prems(1), of op] Cons.prems(2,3) by auto
  show ?case using 1 Cons.IH [of T1 t1] Cons.prems(2,3) by auto
qed auto

lemma BST_new_rep [simp]: "bst_rep BST_new Leaf"
  by (simp add: bst_rep_def holds_def BST_new_def empty_store_def)

text \<open>C34: a binary search tree is a set: any sequence of additions, deletions, searches and clearings returns, and leaves
  the set that these operations give; the size is its cardinality, a search finds a node, which holds the element,
  exactly for the members, the height is at most the size, and the store has exactly one node for each element.
  A further deletion takes away its element and no other, and answers null for an element that is not there, and
  otherwise null or a node that is left. A deletion is excluded in one case, in which the code empties the
  tree: of an element that is not in a tree of one node.\<close>

theorem search_tree_is_set:
  assumes "length ops < 4294967295" "bst_legals ops {}" "S = fold bst_spec ops {}"
  shows "\<exists>T. bst_run_all ops BST_new = Some (Inr T) \<and> BST_Size T = card S
    \<and> (\<exists>p T'. GetPointerToNode x T = Some (Inr (p, T')) \<and> (if x \<in> S then rbind (node_at p T) (\<lambda>n. Inr (bitem n)) = Inr x else p = NIL))
    \<and> (\<exists>h. BST_Height (broot T) T = Some (Inr h) \<and> h \<le> card S)
    \<and> finite (dom (cells (bmem T))) \<and> card (dom (cells (bmem T))) = card S
    \<and> ((card S = 1 \<longrightarrow> x \<in> S) \<longrightarrow> (\<exists>p T'. BST_Del x T = Some (Inr (p, T')) \<and> BST_Size T' = card (S - {x}) \<and> (x \<notin> S \<longrightarrow> p = NIL)
        \<and> (p = NIL \<or> (\<exists>n. node_at p T' = Inr n \<and> bitem n \<in> S - {x}))
        \<and> (\<forall>y. \<exists>q T''. GetPointerToNode y T' = Some (Inr (q, T'')) \<and> (q \<noteq> NIL) = (y \<in> S - {x}))))"
proof -
  obtain T t where r: "bst_run_all ops BST_new = Some (Inr T)" "bst_rep T t" "set (keys t) = S"
    using bst_run_all_rep [OF BST_new_rep, of ops] assms by auto
  note h = holdsD [OF bst_repD(1) [OF r(2)]]
  have "\<exists>h. BST_Height (broot T) T = Some (Inr h) \<and> h \<le> card S"
    using BST_Height_runs [of T "[]" t] bst_repD(1) [OF r(2)] h(2) height_le_size [of t] card_keys [OF r(2)] r(3) by simp
  moreover have "\<exists>p T'. GetPointerToNode x T = Some (Inr (p, T')) \<and> (if x \<in> S then rbind (node_at p T) (\<lambda>n. Inr (bitem n)) = Inr x else p = NIL)"
    using Find_result_rep [OF r(2), of x] r(3) by (auto simp: GetPointerToNode_def)
  moreover have "\<exists>p T'. BST_Del x T = Some (Inr (p, T')) \<and> BST_Size T' = card (S - {x}) \<and> (x \<notin> S \<longrightarrow> p = NIL)
      \<and> (p = NIL \<or> (\<exists>n. node_at p T' = Inr n \<and> bitem n \<in> S - {x}))
      \<and> (\<forall>y. \<exists>q T''. GetPointerToNode y T' = Some (Inr (q, T'')) \<and> (q \<noteq> NIL) = (y \<in> S - {x}))"
    if legal: "card S = 1 \<longrightarrow> x \<in> S"
  proof -
    obtain p T' t' where d: "BST_Del x T = Some (Inr (p, T'))" "bst_rep T' t'" "set (keys t') = S - {x}"
      "x \<notin> S \<longrightarrow> p = NIL" "p = NIL \<or> (\<exists>n. node_at p T' = Inr n \<and> bitem n \<in> S - {x})"
      using BST_Del_answer [OF r(2), of x] legal unfolding r(3) by blast
    have "\<exists>q T''. GetPointerToNode y T' = Some (Inr (q, T'')) \<and> (q \<noteq> NIL) = (y \<in> S - {x})" for y
      using Find_result_rep [OF d(2), of y] unfolding d(3) by (auto simp: GetPointerToNode_def)
    moreover have "BST_Size T' = card (S - {x})"
      using holdsD(6) [OF bst_repD(1) [OF d(2)]] card_keys [OF d(2)] unfolding d(3) by (simp add: BST_Size_def)
    ultimately show ?thesis using d(1,4,5) by blast
  qed
  moreover have "BST_Size T = card S" "finite (dom (cells (bmem T)))" "card (dom (cells (bmem T))) = card S"
    using h(6) card_keys [OF r(2)] card_store [OF r(2)] r(3) by (simp_all add: BST_Size_def)
  ultimately show ?thesis using r(1) by (intro exI [of _ T]) blast
qed

theorem search_tree_is_set_witness:
  "\<exists>T. bst_run_all [BAdd 3, BAdd 1, BAdd 4, BDel 3] (BST_new :: nat bst) = Some (Inr T) \<and> BST_Size T = card {1, 4 :: nat}"
  using search_tree_is_set [of "[BAdd 3, BAdd 1, BAdd 4, BDel (3 :: nat)]" "{1, 4}" 4]
  by (simp add: insert_Diff_if del: bst_run_all.simps) blast

end
