(* ===== verification/RakAvl.thy ===== *)
theory RakAvl
  imports RakTree "HOL-Library.Multiset"
begin

text \<open>
  RakNet's balanced search tree (\<^verbatim>\<open>AVLBalancedBinarySearchTree\<close> of \<^verbatim>\<open>DS_BinarySearchTree.h\<close>): after an addition the tree is
  rotated once at the first node, from the new leaf up, whose subtrees differ by 2 in height; after a deletion at
  each such node up to the root.
\<close>

section \<open>Code\<close>

definition RightHigher :: "link \<Rightarrow> 'a bst \<Rightarrow> bool run" where
  "RightHigher A t =
     (if A = NIL then Some (Inr False)
      else mbind (Some (node_at A t)) (\<lambda>a.
        mbind (BST_Height (bright a) t) (\<lambda>hr. mbind (BST_Height (bleft a) t) (\<lambda>hl. Some (Inr (hl < hr))))))"

definition LeftHigher :: "link \<Rightarrow> 'a bst \<Rightarrow> bool run" where
  "LeftHigher A t =
     (if A = NIL then Some (Inr False)
      else mbind (Some (node_at A t)) (\<lambda>a.
        mbind (BST_Height (bleft a) t) (\<lambda>hl. mbind (BST_Height (bright a) t) (\<lambda>hr. Some (Inr (hr < hl))))))"

text \<open>The child \<open>C\<close> takes the place of its parent \<open>B\<close> under \<open>A\<close>; the direction is the one of the last search.\<close>

definition RotateRight :: "link \<Rightarrow> 'a::linorder bst \<Rightarrow> 'a bst run" where
  "RotateRight C t =
     mbind (Some (node_at C t)) (\<lambda>c.
     mbind (FindParent (bitem c) t) (\<lambda>(B, t1).
     mbind (Some (node_at B t1)) (\<lambda>b.
     mbind (FindParent (bitem b) t1) (\<lambda>(A, t2).
     mbind (Some (node_at C t2)) (\<lambda>c2.
     let D = bright c2
     in mbind (Some (if A \<noteq> NIL then if direction t2 = LEFT then set_left A C t2 else set_right A C t2
                     else Inr (t2\<lparr>broot := C\<rparr>))) (\<lambda>t3.
        mbind (Some (set_left B D t3)) (\<lambda>t4.
        Some (set_right C B t4))))))))"

definition RotateLeft :: "link \<Rightarrow> 'a::linorder bst \<Rightarrow> 'a bst run" where
  "RotateLeft C t =
     mbind (Some (node_at C t)) (\<lambda>c.
     mbind (FindParent (bitem c) t) (\<lambda>(B, t1).
     mbind (Some (node_at B t1)) (\<lambda>b.
     mbind (FindParent (bitem b) t1) (\<lambda>(A, t2).
     mbind (Some (node_at C t2)) (\<lambda>c2.
     let D = bleft c2
     in mbind (Some (if A \<noteq> NIL then if direction t2 = LEFT then set_left A C t2 else set_right A C t2
                     else Inr (t2\<lparr>broot := C\<rparr>))) (\<lambda>t3.
        mbind (Some (set_right B D t3)) (\<lambda>t4.
        Some (set_left C B t4))))))))"

definition DoubleRotateRight :: "link \<Rightarrow> 'a::linorder bst \<Rightarrow> 'a bst run" where
  "DoubleRotateRight A t =
     mbind (Some (rbind (node_at A t) (\<lambda>a. node_at (bleft a) t))) (\<lambda>l.
     mbind (RotateLeft (bright l) t) (\<lambda>t1.
     mbind (Some (node_at A t1)) (\<lambda>a. RotateRight (bleft a) t1)))"

definition DoubleRotateLeft :: "link \<Rightarrow> 'a::linorder bst \<Rightarrow> 'a bst run" where
  "DoubleRotateLeft A t =
     mbind (Some (rbind (node_at A t) (\<lambda>a. node_at (bright a) t))) (\<lambda>r.
     mbind (RotateRight (bleft r) t) (\<lambda>t1.
     mbind (Some (node_at A t1)) (\<lambda>a. RotateLeft (bright a) t1)))"

text \<open>The heights are unsigned and stored in variables of type \<open>int\<close>.\<close>

definition as_int :: "nat \<Rightarrow> int" where
  "as_int h = (if h < 2147483648 then int h else int h - 4294967296)"

definition height_of_child :: "link \<Rightarrow> 'a bst \<Rightarrow> int run" where
  "height_of_child p t = (if p = NIL then Some (Inr 0) else mbind (BST_Height p t) (\<lambda>h. Some (Inr (as_int h))))"

text \<open>Whether the node was rotated, and the tree.\<close>

definition balance_node :: "link \<Rightarrow> 'a::linorder bst \<Rightarrow> (bool \<times> 'a bst) run" where
  "balance_node current t =
     mbind (Some (node_at current t)) (\<lambda>n.
     mbind (height_of_child (bleft n) t) (\<lambda>left_height.
     mbind (height_of_child (bright n) t) (\<lambda>right_height.
     if right_height - left_height = 2 then
       mbind (RightHigher (bright n) t) (\<lambda>higher.
       mbind (if higher then RotateLeft (bright n) t else DoubleRotateLeft current t) (\<lambda>t1. Some (Inr (True, t1))))
     else if right_height - left_height = - 2 then
       mbind (LeftHigher (bleft n) t) (\<lambda>higher.
       mbind (if higher then RotateRight (bleft n) t else DoubleRotateRight current t) (\<lambda>t1. Some (Inr (True, t1))))
     else Some (Inr (False, t)))))"

partial_function (option) BalanceTree :: "link \<Rightarrow> bool \<Rightarrow> 'a::linorder bst \<Rightarrow> 'a bst run" where
  "BalanceTree current rotateOnce t =
     (if current = NIL then Some (Inr t)
      else mbind (balance_node current t) (\<lambda>(rotated, t1).
        if rotated \<and> rotateOnce \<or> current = broot t1 then Some (Inr t1)
        else mbind (Some (node_at current t1)) (\<lambda>n.
          mbind (FindParent (bitem n) t1) (\<lambda>(parent, t2). BalanceTree parent rotateOnce t2))))"

definition AVL_Add :: "'a::linorder \<Rightarrow> 'a bst \<Rightarrow> 'a bst run" where
  "AVL_Add input t = mbind (BST_Add input t) (\<lambda>(current, t1). BalanceTree current True t1)"

definition AVL_Del :: "'a::linorder \<Rightarrow> 'a bst \<Rightarrow> 'a bst run" where
  "AVL_Del input t = mbind (BST_Del input t) (\<lambda>(current, t1). BalanceTree current False t1)"

section \<open>Rotations\<close>

lemma FindParent_at:
  assumes "bst_rep T (plug c (Node l n r))"
  shows "FindParent (snd n) T = Some (Inr (parent_of c, T\<lparr>direction := side c\<rparr>))"
  using Find_at [OF assms] by (simp add: FindParent_def)

lemma node_at_place:
  assumes "holds T (plug c (Node l n r))"
  shows "node_at (At (fst n)) T = Inr \<lparr>bitem = snd n, bleft = tlink l, bright = tlink r\<rparr>"
  using holdsD(1) [OF assms] by (intro node_at_tlink) (simp add: shape_plug)

lemma hang_place:
  assumes "holds T (plug c s)" "direction T = side c"
  shows "(if parent_of c \<noteq> NIL then if direction T = LEFT then set_left (parent_of c) q T else set_right (parent_of c) q T
    else Inr (T\<lparr>broot := q\<rparr>)) = Inr (hang c q T)"
proof -
  have "cshape (cells (bmem T)) c (tlink s)" using holdsD(1) [OF assms(1)] by (simp add: shape_plug)
  then show ?thesis
    using assms(2) set_child [of T c "tlink s" q] side_cases [of c] by (auto simp: hang_def)
qed

text \<open>Two nodes of a place are linked differently.\<close>

lemma relink:
  assumes h: "holds T (plug c s)" and s': "s' = Node l k r"
    and perm: "mset (addrs s') = mset (addrs s)"
    and sub: "shape (m(fst k := Some \<lparr>bitem = snd k, bleft = tlink l, bright = tlink r\<rparr>)) s'"
    and m: "\<And>a. a \<notin> set (addrs s) \<Longrightarrow> m a = set_hole c (At (fst k)) (cells (bmem T)) a"
    and dm: "dom m = set (addrs (plug c s))"
    and T': "T' = (hang c (At (fst k)) T)\<lparr>bmem := (bmem T)\<lparr>cells := m(fst k := Some \<lparr>bitem = snd k, bleft = tlink l, bright = tlink r\<rparr>)\<rparr>\<rparr>"
  shows "holds T' (plug c s')"
proof -
  note d = holdsD [OF h]
  let ?m = "m(fst k := Some \<lparr>bitem = snd k, bleft = tlink l, bright = tlink r\<rparr>)"
  have set: "set (addrs s') = set (addrs s)" using mset_eq_setD [OF perm] .
  have dist: "distinct (addrs s') = distinct (addrs s)" using mset_eq_imp_distinct_iff [OF perm] .
  have len: "size s' = size s" using mset_eq_length [OF perm] by (simp add: addrs_def)
  have k: "fst k \<in> set (addrs s)" using set s' by auto
  have dc: "distinct (caddrs c)" "set (caddrs c) \<inter> set (addrs s) = {}" using d(3) by (auto simp: distinct_plug)
  have "cshape (cells (bmem T)) c (tlink s)" using d(1) by (simp add: shape_plug)
  from cshape_set_hole [OF this dc(1), of "At (fst k)"]
  have "cshape ?m c (At (fst k))"
  proof (rule cshape_cong)
    show "?m a = set_hole c (At (fst k)) (cells (bmem T)) a" if "a \<in> set (caddrs c)" for a
    proof -
      have "a \<notin> set (addrs s)" using that dc(2) by blast
      then show ?thesis using m k by auto
    qed
  qed
  then have "shape ?m (plug c s')" using sub s' by (simp add: shape_plug)
  moreover have "broot T' = tlink (plug c s')"
    using d(2) top_Cons [of c "tlink s" "At (fst k)"] by (simp add: T' broot_hang tlink_plug s')
  moreover have "dom ?m = set (addrs (plug c s'))" using dm k set by (auto simp: set_addrs_plug)
  ultimately show ?thesis
    using d dist set len by (simp add: holds_def T' distinct_plug set_addrs_plug size_plug)
qed

lemma hang_bmem: "bmem (hang c q T) = (bmem T)\<lparr>cells := set_hole c q (cells (bmem T))\<rparr>"
  by (simp add: hang_def)

lemma set_left_runs:
  "cells (bmem T) a = Some \<lparr>bitem = x, bleft = p, bright = q\<rparr> \<Longrightarrow>
    set_left (At a) p' T = Inr (T\<lparr>bmem := (bmem T)\<lparr>cells := (cells (bmem T))(a := Some \<lparr>bitem = x, bleft = p', bright = q\<rparr>)\<rparr>\<rparr>)"
  by (simp add: set_left_def)

lemma set_right_runs:
  "cells (bmem T) a = Some \<lparr>bitem = x, bleft = p, bright = q\<rparr> \<Longrightarrow>
    set_right (At a) q' T = Inr (T\<lparr>bmem := (bmem T)\<lparr>cells := (cells (bmem T))(a := Some \<lparr>bitem = x, bleft = p, bright = q'\<rparr>)\<rparr>\<rparr>)"
  by (simp add: set_right_def)

lemma bst_rep_same:
  assumes "bst_rep T t" "holds T' t'" "inorder t' = inorder t"
  shows "bst_rep T' t'"
  using assms by (simp add: bst_rep_def keys_def)

lemma shape_two:
  assumes "shape m x" "\<And>a. a \<in> set (addrs x) \<Longrightarrow> m' a = m a" "a1 \<notin> set (addrs x)" "a2 \<notin> set (addrs x)"
  shows "shape (m'(a1 := v1, a2 := v2)) x"
  using assms by (auto intro: shape_cong)

lemma RotateRight_runs:
  assumes rep: "bst_rep T (plug c (Node (Node l1 k l2) n r))"
  shows "\<exists>T'. RotateRight (At (fst k)) T = Some (Inr T') \<and> bst_rep T' (plug c (Node l1 k (Node l2 n r)))"
proof -
  let ?s = "Node (Node l1 k l2) n r" and ?s' = "Node l1 k (Node l2 n r)"
  let ?m0 = "cells (bmem T)" and ?T2 = "T\<lparr>direction := side c\<rparr>"
  let ?m1 = "set_hole c (At (fst k)) ?m0" and ?T3 = "hang c (At (fst k)) ?T2"
  let ?m2 = "?m1(fst n := Some \<lparr>bitem = snd n, bleft = tlink l2, bright = tlink r\<rparr>)"
  let ?m3 = "?m2(fst k := Some \<lparr>bitem = snd k, bleft = tlink l1, bright = At (fst n)\<rparr>)"
  let ?T' = "?T3\<lparr>bmem := (bmem ?T2)\<lparr>cells := ?m3\<rparr>\<rparr>"
  note h = bst_repD(1) [OF rep]
  note d = holdsD [OF h]
  have sh: "cshape ?m0 c (At (fst n))" "shape ?m0 ?s" using d(1) by (simp_all add: shape_plug)
  have new: "a \<in> set (addrs ?s) \<Longrightarrow> ?m1 a = ?m0 a" for a
    using d(3) by (intro set_hole_other) (auto simp: distinct_plug)
  have da: "distinct (addrs ?s)" using d(3) by (simp add: distinct_plug)
  have repk: "bst_rep T (plug (InL n r # c) (Node l1 k l2))" using rep by simp
  have h2: "holds ?T2 (plug c ?s)" using h by simp
  have hk: "holds T (plug (InL n r # c) (Node l1 k l2))" using h by simp
  have rep1: "bst_rep (T\<lparr>direction := LEFT\<rparr>) (plug c ?s)" using rep by (simp add: bst_rep_def)
  have nk: "fst n \<noteq> fst k" using da by auto
  have "RotateRight (At (fst k)) T = Some (Inr ?T')"
  proof -
    have "?m1 (fst n) = Some \<lparr>bitem = snd n, bleft = At (fst k), bright = tlink r\<rparr>" using new [of "fst n"] sh(2) by simp
    then have 1: "set_left (At (fst n)) (tlink l2) ?T3 = Inr (?T3\<lparr>bmem := (bmem ?T3)\<lparr>cells := ?m2\<rparr>\<rparr>)"
      using set_left_runs [of ?T3 "fst n" "snd n" "At (fst k)" "tlink r" "tlink l2"] by (simp add: cells_hang)
    have "?m2 (fst k) = Some \<lparr>bitem = snd k, bleft = tlink l1, bright = tlink l2\<rparr>" using new [of "fst k"] sh(2) nk by simp
    then have 2: "set_right (At (fst k)) (At (fst n)) (?T3\<lparr>bmem := (bmem ?T3)\<lparr>cells := ?m2\<rparr>\<rparr>) = Inr ?T'"
      by (simp add: set_right_runs hang_bmem)
    show ?thesis
      using node_at_place [OF hk] node_at_place [OF h] FindParent_at [OF repk] FindParent_at [OF rep1] hang_place [OF h2, of "At (fst k)"] 1 2
      by (simp add: RotateRight_def Let_def)
  qed
  moreover have "holds ?T' (plug c ?s')"
  proof (rule relink [OF h2 refl])
    show "mset (addrs ?s') = mset (addrs ?s)" by simp
    show "shape (?m2(fst k := Some \<lparr>bitem = snd k, bleft = tlink l1, bright = tlink (Node l2 n r)\<rparr>)) ?s'"
      using sh(2) da new nk by (auto intro!: shape_two [of ?m0] split del: if_split simp del: fun_upd_apply) auto
    show "dom ?m2 = set (addrs (plug c ?s))"
      using dom_set_hole [OF sh(1), of "At (fst k)"] d(4) by (auto simp: set_addrs_plug)
  qed auto
  ultimately show ?thesis
    using bst_rep_same [OF rep, of ?T' "plug c ?s'"] by (auto simp: inorder_plug)
qed

lemma RotateLeft_runs:
  assumes rep: "bst_rep T (plug c (Node l n (Node r1 k r2)))"
  shows "\<exists>T'. RotateLeft (At (fst k)) T = Some (Inr T') \<and> bst_rep T' (plug c (Node (Node l n r1) k r2))"
proof -
  let ?s = "Node l n (Node r1 k r2)" and ?s' = "Node (Node l n r1) k r2"
  let ?m0 = "cells (bmem T)" and ?T2 = "T\<lparr>direction := side c\<rparr>"
  let ?m1 = "set_hole c (At (fst k)) ?m0" and ?T3 = "hang c (At (fst k)) ?T2"
  let ?m2 = "?m1(fst n := Some \<lparr>bitem = snd n, bleft = tlink l, bright = tlink r1\<rparr>)"
  let ?m3 = "?m2(fst k := Some \<lparr>bitem = snd k, bleft = At (fst n), bright = tlink r2\<rparr>)"
  let ?T' = "?T3\<lparr>bmem := (bmem ?T2)\<lparr>cells := ?m3\<rparr>\<rparr>"
  note h = bst_repD(1) [OF rep]
  note d = holdsD [OF h]
  have sh: "cshape ?m0 c (At (fst n))" "shape ?m0 ?s" using d(1) by (simp_all add: shape_plug)
  have new: "a \<in> set (addrs ?s) \<Longrightarrow> ?m1 a = ?m0 a" for a
    using d(3) by (intro set_hole_other) (auto simp: distinct_plug)
  have da: "distinct (addrs ?s)" using d(3) by (simp add: distinct_plug)
  have repk: "bst_rep T (plug (InR l n # c) (Node r1 k r2))" using rep by simp
  have h2: "holds ?T2 (plug c ?s)" using h by simp
  have hk: "holds T (plug (InR l n # c) (Node r1 k r2))" using h by simp
  have rep1: "bst_rep (T\<lparr>direction := RIGHT\<rparr>) (plug c ?s)" using rep by (simp add: bst_rep_def)
  have nk: "fst n \<noteq> fst k" using da by auto
  have "RotateLeft (At (fst k)) T = Some (Inr ?T')"
  proof -
    have "?m1 (fst n) = Some \<lparr>bitem = snd n, bleft = tlink l, bright = At (fst k)\<rparr>" using new [of "fst n"] sh(2) by simp
    then have 1: "set_right (At (fst n)) (tlink r1) ?T3 = Inr (?T3\<lparr>bmem := (bmem ?T3)\<lparr>cells := ?m2\<rparr>\<rparr>)"
      using set_right_runs [of ?T3 "fst n" "snd n" "tlink l" "At (fst k)" "tlink r1"] by (simp add: cells_hang)
    have "?m2 (fst k) = Some \<lparr>bitem = snd k, bleft = tlink r1, bright = tlink r2\<rparr>" using new [of "fst k"] sh(2) nk by simp
    then have 2: "set_left (At (fst k)) (At (fst n)) (?T3\<lparr>bmem := (bmem ?T3)\<lparr>cells := ?m2\<rparr>\<rparr>) = Inr ?T'"
      by (simp add: set_left_runs hang_bmem)
    show ?thesis
      using node_at_place [OF hk] node_at_place [OF h] FindParent_at [OF repk] FindParent_at [OF rep1] hang_place [OF h2, of "At (fst k)"] 1 2
      by (simp add: RotateLeft_def Let_def)
  qed
  moreover have "holds ?T' (plug c ?s')"
  proof (rule relink [OF h2 refl])
    show "mset (addrs ?s') = mset (addrs ?s)" by simp
    show "shape (?m2(fst k := Some \<lparr>bitem = snd k, bleft = tlink (Node l n r1), bright = tlink r2\<rparr>)) ?s'"
      using sh(2) da new nk by (auto intro!: shape_two [of ?m0] split del: if_split simp del: fun_upd_apply) auto
    show "dom ?m2 = set (addrs (plug c ?s))"
      using dom_set_hole [OF sh(1), of "At (fst k)"] d(4) by (auto simp: set_addrs_plug)
  qed auto
  ultimately show ?thesis
    using bst_rep_same [OF rep, of ?T' "plug c ?s'"] by (auto simp: inorder_plug)
qed

fun rotL :: "'x tree \<Rightarrow> 'x tree" where
  "rotL (Node l n (Node a k b)) = Node (Node l n a) k b"
| "rotL t = t"

fun rotR :: "'x tree \<Rightarrow> 'x tree" where
  "rotR (Node (Node a k b) n r) = Node a k (Node b n r)"
| "rotR t = t"

lemma inorder_rot [simp]: "inorder (rotL t) = inorder t" "inorder (rotR t) = inorder t"
  by (cases t rule: rotL.cases; simp) (cases t rule: rotR.cases; simp)

lemma left_right_runs:
  assumes "holds T (plug c (Node l n r))" "size (plug c (Node l n r)) < 2147483648"
  shows "height_of_child (tlink l) T = Some (Inr (int (height l)))" "height_of_child (tlink r) T = Some (Inr (int (height r)))"
    "BST_Height (tlink l) T = Some (Inr (height l))" "BST_Height (tlink r) T = Some (Inr (height r))"
proof -
  show h: "BST_Height (tlink l) T = Some (Inr (height l))" "BST_Height (tlink r) T = Some (Inr (height r))"
    using BST_Height_runs [of T "InL n r # c" l] BST_Height_runs [of T "InR l n # c" r] assms(1) by simp_all
  have "height l < 2147483648" "height r < 2147483648"
    using assms(2) height_le_size [of l] height_le_size [of r] by (auto simp: size_plug)
  then show "height_of_child (tlink l) T = Some (Inr (int (height l)))" "height_of_child (tlink r) T = Some (Inr (int (height r)))"
    using h by (auto simp: height_of_child_def as_int_def)
qed

lemma Higher_runs:
  assumes "holds T (plug c (Node l n r))" "size (plug c (Node l n r)) < 2147483648"
  shows "RightHigher (At (fst n)) T = Some (Inr (height l < height r))" "LeftHigher (At (fst n)) T = Some (Inr (height r < height l))"
  using left_right_runs [OF assms] node_at_place [OF assms(1)] by (simp_all add: RightHigher_def LeftHigher_def)

lemma DoubleRotateLeft_runs:
  assumes rep: "bst_rep T (plug c (Node l n (Node (Node a j b) k r2)))"
  shows "\<exists>T'. DoubleRotateLeft (At (fst n)) T = Some (Inr T') \<and> bst_rep T' (plug c (rotL (Node l n (rotR (Node (Node a j b) k r2)))))"
proof -
  note h = bst_repD(1) [OF rep]
  have "bst_rep T (plug (InR l n # c) (Node (Node a j b) k r2))" using rep by simp
  from RotateRight_runs [OF this] obtain T1
    where T1: "RotateRight (At (fst j)) T = Some (Inr T1)" "bst_rep T1 (plug (InR l n # c) (Node a j (Node b k r2)))" by blast
  then have rep1: "bst_rep T1 (plug c (Node l n (Node a j (Node b k r2))))" by simp
  from RotateLeft_runs [OF this] obtain T2
    where T2: "RotateLeft (At (fst j)) T1 = Some (Inr T2)" "bst_rep T2 (plug c (Node (Node l n a) j (Node b k r2)))" by blast
  have "holds T (plug (InR l n # c) (Node (Node a j b) k r2))" using h by simp
  then show ?thesis
    using T1 T2 node_at_place [OF h] node_at_place [OF bst_repD(1) [OF rep1]] node_at_place [of T "InR l n # c"]
    by (simp add: DoubleRotateLeft_def)
qed

lemma DoubleRotateRight_runs:
  assumes rep: "bst_rep T (plug c (Node (Node l2 k (Node a j b)) n r))"
  shows "\<exists>T'. DoubleRotateRight (At (fst n)) T = Some (Inr T') \<and> bst_rep T' (plug c (rotR (Node (rotL (Node l2 k (Node a j b))) n r)))"
proof -
  note h = bst_repD(1) [OF rep]
  have "bst_rep T (plug (InL n r # c) (Node l2 k (Node a j b)))" using rep by simp
  from RotateLeft_runs [OF this] obtain T1
    where T1: "RotateLeft (At (fst j)) T = Some (Inr T1)" "bst_rep T1 (plug (InL n r # c) (Node (Node l2 k a) j b))" by blast
  then have rep1: "bst_rep T1 (plug c (Node (Node (Node l2 k a) j b) n r))" by simp
  from RotateRight_runs [OF this] obtain T2
    where T2: "RotateRight (At (fst j)) T1 = Some (Inr T2)" "bst_rep T2 (plug c (Node (Node l2 k a) j (Node b n r)))" by blast
  have "holds T (plug (InL n r # c) (Node l2 k (Node a j b)))" using h by simp
  then show ?thesis
    using T1 T2 node_at_place [OF h] node_at_place [OF bst_repD(1) [OF rep1]] node_at_place [of T "InL n r # c"]
    by (simp add: DoubleRotateRight_def)
qed

text \<open>What balancing does at one node.\<close>

fun rebalance :: "'x tree \<Rightarrow> 'x tree option" where
  "rebalance Leaf = None"
| "rebalance (Node l n r) =
     (if height r = height l + 2 then
        Some (if height (left r) < height (right r) then rotL (Node l n r) else rotL (Node l n (rotR r)))
      else if height l = height r + 2 then
        Some (if height (right l) < height (left l) then rotR (Node l n r) else rotR (Node (rotL l) n r))
      else None)"

lemma balance_node_runs:
  assumes rep: "bst_rep T (plug c (Node l n r))" and sz: "size (plug c (Node l n r)) < 2147483648"
  shows "rebalance (Node l n r) = None \<Longrightarrow> balance_node (At (fst n)) T = Some (Inr (False, T))"
    "rebalance (Node l n r) = Some s' \<Longrightarrow> \<exists>T'. balance_node (At (fst n)) T = Some (Inr (True, T')) \<and> bst_rep T' (plug c s')"
proof -
  note h = bst_repD(1) [OF rep]
  note run = node_at_place [OF h] left_right_runs [OF h sz]
  note [simp] = balance_node_def
  show "balance_node (At (fst n)) T = Some (Inr (False, T))" if "rebalance (Node l n r) = None"
    using that run by (auto split: if_splits)
  assume s': "rebalance (Node l n r) = Some s'"
  consider "height r = height l + 2" | "height l = height r + 2" using s' by (auto split: if_splits)
  then show "\<exists>T'. balance_node (At (fst n)) T = Some (Inr (True, T')) \<and> bst_rep T' (plug c s')"
  proof cases
    case 1
    then obtain a k b where r: "r = Node a k b" by (cases r) auto
    have hi: "RightHigher (At (fst k)) T = Some (Inr (height a < height b))"
      using Higher_runs(1) [of T "InR l n # c" a k b] h sz r by simp
    show ?thesis
    proof (cases "height a < height b")
      case True
      then show ?thesis using RotateLeft_runs [of T c l n a k b] rep r run hi 1 s' by auto
    next
      case False
      then obtain a1 j a2 where a: "a = Node a1 j a2" using 1 r by (cases a) auto
      show ?thesis using DoubleRotateLeft_runs [of T c l n a1 j a2 k b] rep r a run hi 1 s' False by auto
    qed
  next
    case 2
    then obtain a k b where l: "l = Node a k b" by (cases l) auto
    have hi: "LeftHigher (At (fst k)) T = Some (Inr (height b < height a))"
      using Higher_runs(2) [of T "InL n r # c" a k b] h sz l by simp
    show ?thesis
    proof (cases "height b < height a")
      case True
      then show ?thesis using RotateRight_runs [of T c a k b n r] rep l run hi 2 s' by auto
    next
      case False
      then obtain b1 j b2 where b: "b = Node b1 j b2" using 2 l by (cases b) auto
      show ?thesis using DoubleRotateRight_runs [of T c a k b1 j b2 n r] rep l b run hi 2 s' False by auto
    qed
  qed
qed

section \<open>The way up\<close>

lemma inorder_rebalance: "rebalance t = Some t' \<Longrightarrow> inorder t' = inorder t"
  by (cases t) (auto simp del: rotL.simps rotR.simps split: if_splits)

text \<open>The node that was rotated is then a child of the node in its place.\<close>

lemma rebalance_child:
  assumes "rebalance (Node l n r) = Some s'"
  shows "\<exists>f l' r'. s' = fill f (Node l' n r')"
proof -
  consider "height r = height l + 2" | "height l = height r + 2" using assms by (auto split: if_splits)
  then show ?thesis
  proof cases
    case 1
    then obtain a k b where r: "r = Node a k b" by (cases r) auto
    show ?thesis
    proof (cases "height a < height b")
      case True
      then show ?thesis using assms 1 r by (intro exI [of _ "InL k b"]) auto
    next
      case False
      then obtain a1 j a2 where "a = Node a1 j a2" using 1 r by (cases a) auto
      then show ?thesis using assms 1 r False by (intro exI [of _ "InL j (Node a2 k b)"]) auto
    qed
  next
    case 2
    then obtain a k b where l: "l = Node a k b" by (cases l) auto
    show ?thesis
    proof (cases "height b < height a")
      case True
      then show ?thesis using assms 2 l by (intro exI [of _ "InR a k"]) auto
    next
      case False
      then obtain b1 j b2 where "b = Node b1 j b2" using 2 l by (cases b) auto
      then show ?thesis using assms 2 l False by (intro exI [of _ "InR (Node a k b1) j"]) auto
    qed
  qed
qed

lemma rebalance_some: "rebalance (Node l n r) = Some t \<Longrightarrow> height r = height l + 2 \<or> height l = height r + 2"
  by (simp split: if_splits)

text \<open>The same place is rotated at most twice.\<close>

lemma rebalance_twice:
  assumes "rebalance t = Some t1" "rebalance t1 = Some t2"
  shows "rebalance t2 = None"
proof -
  obtain l n r where t: "t = Node l n r" using assms(1) by (cases t) auto
  consider "height r = height l + 2" | "height l = height r + 2" using assms(1) t by (auto split: if_splits)
  then show ?thesis
  proof cases
    case 1
    then obtain a k b where r: "r = Node a k b" by (cases r) auto
    have nl: "\<not> height a < height b" using assms 1 t r by (auto split: if_splits)
    then obtain a1 j a2 where a: "a = Node a1 j a2" using 1 r by (cases a) auto
    have t1: "t1 = Node (Node l n a1) j (Node a2 k b)" using assms(1) 1 t r a nl by auto
    have d: "height (Node a2 k b) = height (Node l n a1) + 2 \<or> height (Node l n a1) = height (Node a2 k b) + 2"
      by (rule rebalance_some [of _ j _ t2]) (use assms(2) t1 in simp_all)
    have e: "max (height a1) (height a2) = height l" using 1 nl r a by (simp add: max_def split: if_splits)
    have m: "max (height a2) (height b) + 3 = height l + 1" "height a1 = height l"
      using d e 1 r by (auto simp: max_def split: if_splits)
    then obtain c1 i c2 where a1: "a1 = Node c1 i c2" by (cases a1) auto
    have "t2 = Node (Node l n c1) i (Node c2 j (Node a2 k b))"
      using assms(2) m unfolding t1 a1 by simp
    then show ?thesis using m e unfolding a1 by simp
  next
    case 2
    then obtain a k b where l: "l = Node a k b" by (cases l) auto
    have nl: "\<not> height b < height a" using assms 2 t l by (auto split: if_splits)
    then obtain b1 j b2 where b: "b = Node b1 j b2" using 2 l by (cases b) auto
    have t1: "t1 = Node (Node a k b1) j (Node b2 n r)" using assms(1) 2 t l b nl by auto
    have d: "height (Node b2 n r) = height (Node a k b1) + 2 \<or> height (Node a k b1) = height (Node b2 n r) + 2"
      by (rule rebalance_some [of _ j _ t2]) (use assms(2) t1 in simp_all)
    have e: "max (height b1) (height b2) = height r" using 2 nl l b by (simp add: max_def split: if_splits)
    have m: "max (height a) (height b1) + 3 = height r + 1" "height b2 = height r"
      using d e 2 l by (auto simp: max_def split: if_splits)
    then obtain c1 i c2 where b2: "b2 = Node c1 i c2" by (cases b2) auto
    have "t2 = Node (Node (Node a k b1) j c1) i (Node c2 n r)"
      using assms(2) m unfolding t1 b2 by simp
    then show ?thesis using m e unfolding b2 by simp
  qed
qed

lemma top_inside: "c \<noteq> [] \<Longrightarrow> \<exists>a \<in> set (caddrs c). top c p = At a"
proof (induction c arbitrary: p)
  case (Cons f c)
  show ?case
  proof (cases c)
    case Nil
    then show ?thesis by (cases f) auto
  next
    case (Cons g d)
    then show ?thesis using Cons.IH [of "At (fst (fnode f))"] by (cases f) auto
  qed
qed simp

lemma root_place:
  assumes "holds T (plug c (Node l n r))"
  shows "At (fst n) = broot T \<longleftrightarrow> c = []"
proof (cases "c = []")
  case True
  then show ?thesis using holdsD(2) [OF assms] by simp
next
  case False
  then obtain a where a: "a \<in> set (caddrs c)" "broot T = At a"
    using top_inside [of c "At (fst n)"] holdsD(2) [OF assms] by (auto simp: tlink_plug)
  then show ?thesis using holdsD(3) [OF assms] False by (auto simp: distinct_plug)
qed

text \<open>The tree after one rotation, and whether a place is rotated again.\<close>

fun climb :: "'x frame list \<Rightarrow> 'x tree \<Rightarrow> 'x tree" where
  "climb [] s = (case rebalance s of Some s' \<Rightarrow> s' | None \<Rightarrow> s)"
| "climb (f # c) s = (case rebalance s of Some s' \<Rightarrow> plug (f # c) s' | None \<Rightarrow> climb c (fill f s))"

fun turns :: "'x tree \<Rightarrow> nat" where
  "turns s = (case rebalance s of None \<Rightarrow> 0 | Some s1 \<Rightarrow> (case rebalance s1 of None \<Rightarrow> 1 | Some s2 \<Rightarrow> 2))"

lemma turns_less: "rebalance s = Some s' \<Longrightarrow> turns s' < turns s"
  using rebalance_twice [of s s'] by (auto split: option.splits)

lemma fill_Node: "\<exists>l n r. fill f s = Node l n r \<and> fst n = fst (fnode f)"
  by (cases f) auto

lemma BalanceTree_once:
  assumes "bst_rep T (plug c (Node l n r))" "size (plug c (Node l n r)) < 2147483648"
  shows "\<exists>T'. BalanceTree (At (fst n)) True T = Some (Inr T') \<and> bst_rep T' (climb c (Node l n r))"
  using assms
proof (induction c arbitrary: l n r T)
  case Nil
  have "At (fst n) = broot T" using root_place [OF bst_repD(1) [OF Nil.prems(1)]] by simp
  then show ?case
    using balance_node_runs [OF Nil.prems] Nil.prems(1)
    by (subst BalanceTree.simps) (auto simp: plug.simps(1) simp del: rebalance.simps split: option.splits)
next
  case (Cons f c)
  note h = bst_repD(1) [OF Cons.prems(1)]
  have nr: "At (fst n) \<noteq> broot T" using root_place [OF h] by simp
  show ?case
  proof (cases "rebalance (Node l n r)")
    case None
    obtain l' m r' where f: "fill f (Node l n r) = Node l' m r'" "fst m = fst (fnode f)" using fill_Node by blast
    have "bst_rep (T\<lparr>direction := side (f # c)\<rparr>) (plug c (Node l' m r'))" "size (plug c (Node l' m r')) < 2147483648"
      using Cons.prems f by simp_all
    from Cons.IH [OF this] show ?thesis
      using None nr f balance_node_runs(1) [OF Cons.prems None] node_at_place [OF h] FindParent_at [OF Cons.prems(1)]
      by (subst BalanceTree.simps) (simp del: rebalance.simps)
  next
    case (Some s')
    then show ?thesis
      using balance_node_runs(2) [OF Cons.prems Some]
      by (subst BalanceTree.simps) (auto simp del: rebalance.simps)
  qed
qed

lemma BalanceTree_all:
  assumes "bst_rep T (plug c (Node l n r))" "size (plug c (Node l n r)) < 2147483648"
  shows "\<exists>T' t'. BalanceTree (At (fst n)) False T = Some (Inr T') \<and> bst_rep T' t' \<and> inorder t' = inorder (plug c (Node l n r))"
  using assms
proof (induction "3 * length c + turns (Node l n r)" arbitrary: c l n r T rule: less_induct)
  case less
  note h = bst_repD(1) [OF less.prems(1)]
  show ?case
  proof (cases "rebalance (Node l n r)")
    case None
    note run = balance_node_runs(1) [OF less.prems None] node_at_place [OF h] FindParent_at [OF less.prems(1)] root_place [OF h]
    show ?thesis
    proof (cases c)
      case Nil
      then show ?thesis using run less.prems(1)
        by (subst BalanceTree.simps) (auto simp del: rebalance.simps intro!: exI [of _ "Node l n r"])
    next
      case (Cons f c')
      obtain l' m r' where f: "fill f (Node l n r) = Node l' m r'" "fst m = fst (fnode f)" using fill_Node by blast
      have "turns (Node l' m r') < 3" by (auto split: option.splits)
      then have "\<exists>T' t'. BalanceTree (At (fst m)) False (T\<lparr>direction := side c\<rparr>) = Some (Inr T') \<and> bst_rep T' t'
          \<and> inorder t' = inorder (plug c' (Node l' m r'))"
        using less.prems f Cons by (intro less.hyps) simp_all
      then show ?thesis using run f Cons
        by (subst BalanceTree.simps) (simp del: rebalance.simps)
    qed
  next
    case (Some s')
    obtain f l' r' where s': "s' = fill f (Node l' n r')" using rebalance_child [OF Some] by blast
    obtain T1 where T1: "balance_node (At (fst n)) T = Some (Inr (True, T1))" "bst_rep T1 (plug c s')"
      using balance_node_runs(2) [OF less.prems Some] by blast
    have rep1: "bst_rep T1 (plug (f # c) (Node l' n r'))" using T1(2) s' by simp
    note h1 = bst_repD(1) [OF rep1]
    obtain l2 m r2 where f: "s' = Node l2 m r2" "fst m = fst (fnode f)" using fill_Node [of f] s' by blast
    have "turns (Node l2 m r2) < turns (Node l n r)" using turns_less [OF Some] f(1) by (simp del: turns.simps)
    moreover have "size (plug c (Node l2 m r2)) = size (plug c (Node l n r))"
      using arg_cong [OF inorder_rebalance [OF Some], of length] f(1) by (simp add: size_plug)
    ultimately have "\<exists>T' t'. BalanceTree (At (fst m)) False (T1\<lparr>direction := side (f # c)\<rparr>) = Some (Inr T') \<and> bst_rep T' t'
        \<and> inorder t' = inorder (plug c (Node l2 m r2))"
      using less.prems(2) T1(2) f(1) by (intro less.hyps) (simp_all del: turns.simps)
    moreover have "inorder (plug c (Node l2 m r2)) = inorder (plug c (Node l n r))"
      using inorder_rebalance [OF Some] f(1) by (simp add: inorder_plug)
    ultimately show ?thesis
      using T1 node_at_place [OF h1] FindParent_at [OF rep1] root_place [OF h1] f
      by (subst BalanceTree.simps) (simp del: rebalance.simps)
  qed
qed

section \<open>Balance\<close>

fun avl :: "'x tree \<Rightarrow> bool" where
  "avl Leaf = True"
| "avl (Node l n r) = (height l \<le> height r + 1 \<and> height r \<le> height l + 1 \<and> avl l \<and> avl r)"

fun leaning :: "'x tree \<Rightarrow> bool" where
  "leaning Leaf = False"
| "leaning (Node l n r) = (height l \<noteq> height r \<or> l = Leaf \<and> r = Leaf)"

lemma avl_rebalance: "avl s \<Longrightarrow> rebalance s = None"
  by (cases s) auto

lemma avl_plug: "avl (plug c s) \<Longrightarrow> avl s"
proof (induction c arbitrary: s)
  case (Cons f c)
  then have "avl (fill f s)" by simp
  then show ?case by (cases f) simp_all
qed simp

lemma avl_plug_other:
  assumes "avl (plug c s)" "avl s'" "height s' = height s"
  shows "avl (plug c s')"
  using assms
proof (induction c arbitrary: s s')
  case (Cons f c)
  have "avl (fill f s)" using avl_plug [of c "fill f s"] Cons.prems(1) by simp
  then have "avl (fill f s')" "height (fill f s') = height (fill f s)"
    using Cons.prems(2,3) by (cases f; simp)+
  then show ?case using Cons.IH [of "fill f s" "fill f s'"] Cons.prems(1) by simp
qed simp

text \<open>A subtree has grown by one level.\<close>

definition grew :: "'x tree \<Rightarrow> 'x tree \<Rightarrow> bool" where
  "grew s0 s \<longleftrightarrow> avl s \<and> (height s = height s0 \<or> height s = height s0 + 1 \<and> leaning s)
     \<or> (\<exists>s'. rebalance s = Some s' \<and> avl s' \<and> height s' = height s0)"

lemma grew_right:
  assumes "avl (Node l n r0)" "avl r" "height r = height r0 + 1" "leaning r"
  shows "grew (Node l n r0) (Node l n r)"
proof (cases "height r = height l + 2")
  case True
  then obtain a k b where r: "r = Node a k b" by (cases r) auto
  show ?thesis
  proof (cases "height a < height b")
    case lt: True
    have "avl (rotL (Node l n r))" "height (rotL (Node l n r)) = height (Node l n r0)"
      using assms True r lt by auto
    then show ?thesis using True r lt unfolding grew_def by auto
  next
    case False
    then have ab: "height b < height a" using assms(4) True r by auto
    then obtain a1 j a2 where a: "a = Node a1 j a2" by (cases a) auto
    have "avl (rotL (Node l n (rotR r)))" "height (rotL (Node l n (rotR r))) = height (Node l n r0)"
      using assms True r a ab by auto
    then show ?thesis using True r False unfolding grew_def by auto
  qed
next
  case False
  then have "avl (Node l n r)" "height r0 = height l \<Longrightarrow> leaning (Node l n r)"
    "height r0 < height l \<Longrightarrow> height (Node l n r) = height (Node l n r0)"
    using assms by auto
  moreover have "height r0 = height l \<or> height r0 < height l" "height r0 = height l \<Longrightarrow> height (Node l n r) = height (Node l n r0) + 1"
    using assms False by auto
  ultimately show ?thesis unfolding grew_def by blast
qed

lemma grew_left:
  assumes "avl (Node l0 n r)" "avl l" "height l = height l0 + 1" "leaning l"
  shows "grew (Node l0 n r) (Node l n r)"
proof (cases "height l = height r + 2")
  case True
  then obtain a k b where l: "l = Node a k b" by (cases l) auto
  show ?thesis
  proof (cases "height b < height a")
    case lt: True
    have "avl (rotR (Node l n r))" "height (rotR (Node l n r)) = height (Node l0 n r)"
      using assms True l lt by auto
    then show ?thesis using True l lt unfolding grew_def by auto
  next
    case False
    then have ab: "height a < height b" using assms(4) True l by auto
    then obtain b1 j b2 where b: "b = Node b1 j b2" by (cases b) auto
    have "avl (rotR (Node (rotL l) n r))" "height (rotR (Node (rotL l) n r)) = height (Node l0 n r)"
      using assms True l b ab by auto
    then show ?thesis using True l False unfolding grew_def by auto
  qed
next
  case False
  then have "avl (Node l n r)" "height l0 = height r \<Longrightarrow> leaning (Node l n r)"
    "height l0 < height r \<Longrightarrow> height (Node l n r) = height (Node l0 n r)"
    using assms by auto
  moreover have "height l0 = height r \<or> height l0 < height r" "height l0 = height r \<Longrightarrow> height (Node l n r) = height (Node l0 n r) + 1"
    using assms False by auto
  ultimately show ?thesis unfolding grew_def by blast
qed

lemma grew_fill:
  assumes "avl (fill f s0)" "avl s" "height s = height s0 \<or> height s = height s0 + 1 \<and> leaning s"
  shows "grew (fill f s0) (fill f s)"
proof (cases "height s = height s0")
  case True
  then show ?thesis using assms(1,2) unfolding grew_def by (cases f) auto
next
  case False
  then show ?thesis using assms grew_left grew_right by (cases f) fastforce+
qed

lemma climb_avl:
  assumes "avl (plug c s0)" "grew s0 s"
  shows "avl (climb c s)"
  using assms
proof (induction c arbitrary: s0 s)
  case Nil
  then show ?case using avl_rebalance [of s] by (auto simp: grew_def)
next
  case (Cons f c)
  show ?case
  proof (cases "rebalance s")
    case None
    then have "avl s" "height s = height s0 \<or> height s = height s0 + 1 \<and> leaning s" using Cons.prems(2) by (auto simp: grew_def)
    moreover have "avl (fill f s0)" using avl_plug [of c "fill f s0"] Cons.prems(1) by simp
    ultimately show ?thesis using Cons.IH [of "fill f s0" "fill f s"] Cons.prems(1) None grew_fill [of f s0 s] by simp
  next
    case (Some s')
    then have "avl s'" "height s' = height s0" using Cons.prems(2) avl_rebalance [of s] by (auto simp: grew_def)
    then show ?thesis using avl_plug_other [OF Cons.prems(1), of s'] Some by simp
  qed
qed

lemma avl_height: "avl t \<Longrightarrow> 2 ^ (height t div 2) \<le> size t + 1"
proof (induction t)
  case (Node l n r)
  have *: "2 ^ (Suc (Suc h) div 2) \<le> s1 + s2 + 2" if "2 ^ (h1 div 2) \<le> s1 + (1::nat)" "2 ^ (h2 div 2) \<le> s2 + (1::nat)" "h \<le> h1" "h \<le> h2"
    for h h1 h2 s1 s2
  proof -
    have "(2::nat) ^ (h div 2) \<le> 2 ^ (h1 div 2)" "(2::nat) ^ (h div 2) \<le> 2 ^ (h2 div 2)"
      using that(3,4) by (intro power_increasing div_le_mono; simp)+
    moreover have "(2::nat) ^ (Suc (Suc h) div 2) = 2 * 2 ^ (h div 2)" by simp
    ultimately show ?thesis using that(1,2) by linarith
  qed
  show ?case
  proof (cases "max (height l) (height r)")
    case (Suc h)
    then have "h \<le> height l" "h \<le> height r" using Node.prems by auto
    then show ?thesis using * [of "height l" "size l" "height r" "size r" h] Node Suc by simp
  qed simp
qed simp

lemma inorder_filled: "inorder (fill f s) = (case f of InL n r \<Rightarrow> inorder s @ n # inorder r | InR l n \<Rightarrow> inorder l @ n # inorder s)"
  by (cases f) simp_all

section \<open>Refinement\<close>

lemma AVL_Add_rep:
  assumes rep: "bst_rep T t" and room: "size t < 2147483647"
  shows "\<exists>T' t'. AVL_Add x T = Some (Inr T') \<and> bst_rep T' t' \<and> set (keys t') = insert x (set (keys t)) \<and> (avl t \<longrightarrow> avl t')"
proof -
  obtain p T1 t1 where a: "BST_Add x T = Some (Inr (p, T1))" "bst_rep T1 t1" "set (keys t1) = insert x (set (keys t))"
      "if x \<in> set (keys t) then p = NIL \<and> T1 = T \<and> t1 = t
       else \<exists>c. t = plug c Leaf \<and> t1 = plug c (Node Leaf (brk (bmem T), x) Leaf) \<and> p = At (brk (bmem T))"
    using BST_Add_rep [OF rep, of x] room by auto
  show ?thesis
  proof (cases "x \<in> set (keys t)")
    case True
    then show ?thesis using a by (auto simp: AVL_Add_def BalanceTree.simps [of NIL])
  next
    case False
    then obtain c where c: "t = plug c Leaf" "t1 = plug c (Node Leaf (brk (bmem T), x) Leaf)" "p = At (brk (bmem T))"
      using a(4) by auto
    let ?s = "Node Leaf (brk (bmem T), x) Leaf"
    have "size (plug c ?s) < 2147483648" using room c(1) by (simp add: size_plug)
    from BalanceTree_once [OF a(2) [unfolded c(2)] this]
    obtain T' where T': "BalanceTree p True T1 = Some (Inr T')" "bst_rep T' (climb c ?s)" using c(3) by auto
    have "inorder (climb c s) = inorder (plug c s)" for s
      by (induction c arbitrary: s) (auto simp: inorder_rebalance inorder_plug inorder_filled simp del: rebalance.simps split: option.splits frame.splits)
    then have "keys (climb c ?s) = keys t1" by (simp add: keys_def c(2))
    moreover have "avl (climb c ?s)" if "avl t"
      using climb_avl [of c Leaf ?s] that c(1) by (simp add: grew_def)
    ultimately show ?thesis using a T' by (intro exI [of _ T'] exI [of _ "climb c ?s"]) (auto simp: AVL_Add_def)
  qed
qed

lemma AVL_Del_rep:
  assumes rep: "bst_rep T t" and room: "size t < 2147483648"
  shows "\<exists>T' t'. AVL_Del x T = Some (Inr T') \<and> bst_rep T' t' \<and> set (keys t') = (if size t = 1 then {} else set (keys t) - {x})"
proof -
  obtain T1 c s where d: "BST_Del x T = Some (Inr (parent_of c, T1))" "bst_rep T1 (plug c s)"
      "set (keys (plug c s)) = (if size t = 1 then {} else set (keys t) - {x})"
    using BST_Del_runs [OF rep, of x] by blast
  show ?thesis
  proof (cases c)
    case Nil
    then show ?thesis using d by (auto simp: AVL_Del_def BalanceTree.simps [of NIL])
  next
    case (Cons f c')
    obtain l n r where f: "fill f s = Node l n r" "fst n = fst (fnode f)" using fill_Node by blast
    have rep1: "bst_rep T1 (plug c' (Node l n r))" using d(2) f Cons by simp
    have "card (set (keys (plug c s))) \<le> card (set (keys t))" using d(3) by (simp add: card_mono)
    then have "size (plug c' (Node l n r)) < 2147483648"
      using card_keys [OF d(2)] card_keys [OF rep] room f Cons by simp
    from BalanceTree_all [OF rep1 this] obtain T' t'
      where "BalanceTree (At (fst n)) False T1 = Some (Inr T')" "bst_rep T' t'" "inorder t' = inorder (plug c' (Node l n r))"
      by blast
    then show ?thesis
      using d f Cons by (intro exI [of _ T'] exI [of _ t']) (simp add: AVL_Del_def keys_def)
  qed
qed

datatype 'a avl_op = AAdd 'a | ADel 'a | ALook 'a | AClear

fun avl_run :: "'a::linorder avl_op \<Rightarrow> 'a bst \<Rightarrow> 'a bst run" where
  "avl_run (AAdd x) T = AVL_Add x T"
| "avl_run (ADel x) T = AVL_Del x T"
| "avl_run (ALook x) T = mbind (GetPointerToNode x T) (\<lambda>(_, T'). Some (Inr T'))"
| "avl_run AClear T = BST_Clear T"

fun avl_spec :: "'a avl_op \<Rightarrow> 'a set \<Rightarrow> 'a set" where
  "avl_spec (AAdd x) S = insert x S"
| "avl_spec (ADel x) S = S - {x}"
| "avl_spec (ALook x) S = S"
| "avl_spec AClear S = {}"

text \<open>As for the plain tree, only what is in a tree of one node may be deleted from it.\<close>

fun avl_legal :: "'a avl_op \<Rightarrow> 'a set \<Rightarrow> bool" where
  "avl_legal (ADel x) S = (card S = 1 \<longrightarrow> x \<in> S)"
| "avl_legal op S = True"

fun avl_legals :: "'a avl_op list \<Rightarrow> 'a set \<Rightarrow> bool" where
  "avl_legals [] S = True"
| "avl_legals (op # ops) S = (avl_legal op S \<and> avl_legals ops (avl_spec op S))"

fun keeps_balance :: "'a avl_op \<Rightarrow> bool" where
  "keeps_balance (ADel x) = False"
| "keeps_balance op = True"

fun avl_run_all :: "'a::linorder avl_op list \<Rightarrow> 'a bst \<Rightarrow> 'a bst run" where
  "avl_run_all [] T = Some (Inr T)"
| "avl_run_all (op # ops) T = mbind (avl_run op T) (avl_run_all ops)"

lemma avl_run_rep:
  assumes rep: "bst_rep T t" and room: "size t < 2147483647" and legal: "avl_legal op (set (keys t))"
  shows "\<exists>T' t'. avl_run op T = Some (Inr T') \<and> bst_rep T' t' \<and> set (keys t') = avl_spec op (set (keys t)) \<and> size t' \<le> Suc (size t)
    \<and> (keeps_balance op \<longrightarrow> avl t \<longrightarrow> avl t')"
proof (cases op)
  case (AAdd x)
  obtain T' t' where r: "AVL_Add x T = Some (Inr T')" "bst_rep T' t'" "set (keys t') = insert x (set (keys t))" "avl t \<longrightarrow> avl t'"
    using AVL_Add_rep [OF rep room, of x] by blast
  have "size t' \<le> Suc (size t)"
    using r(3) card_keys [OF rep] card_keys [OF r(2)] by (simp add: card_insert_if split: if_splits)
  then show ?thesis using AAdd r by auto
next
  case (ADel x)
  obtain T' t' where r: "AVL_Del x T = Some (Inr T')" "bst_rep T' t'" "set (keys t') = set (keys t) - {x}"
    using AVL_Del_rep [OF rep, of x] room legal_deletion [OF rep, of x] legal ADel by auto
  have "size t' \<le> Suc (size t)"
    using card_mono [of "set (keys t)" "set (keys t')"] r(3) card_keys [OF rep] card_keys [OF r(2)] by auto
  then show ?thesis using ADel r by auto
next
  case (ALook x)
  then show ?thesis using Find_result_rep [OF rep, of x] rep
    by (auto simp: GetPointerToNode_def intro!: exI [of _ t])
next
  case AClear
  then show ?thesis using BST_Clear_runs [OF rep] by (auto intro!: exI [of _ Leaf])
qed

lemma avl_run_all_rep:
  assumes "bst_rep T t" "size t + length ops < 2147483648" "avl_legals ops (set (keys t))"
  shows "\<exists>T' t'. avl_run_all ops T = Some (Inr T') \<and> bst_rep T' t' \<and> set (keys t') = fold avl_spec ops (set (keys t))
    \<and> (list_all keeps_balance ops \<longrightarrow> avl t \<longrightarrow> avl t')"
  using assms
proof (induction ops arbitrary: T t)
  case (Cons op ops)
  obtain T1 t1 where 1: "avl_run op T = Some (Inr T1)" "bst_rep T1 t1" "set (keys t1) = avl_spec op (set (keys t))"
      "size t1 \<le> Suc (size t)" "keeps_balance op \<longrightarrow> avl t \<longrightarrow> avl t1"
    using avl_run_rep [OF Cons.prems(1), of op] Cons.prems(2,3) by auto
  show ?case using 1 Cons.IH [of T1 t1] Cons.prems(2,3) by auto
qed auto



text \<open>The heights of the subtrees of the node with element \<open>x\<close>.\<close>

definition child_heights :: "'a::linorder \<Rightarrow> 'a bst \<Rightarrow> (nat \<times> nat) run" where
  "child_heights x T =
     mbind (GetPointerToNode x T) (\<lambda>(p, T1).
     mbind (Some (node_at p T1)) (\<lambda>n.
     mbind (BST_Height (bleft n) T1) (\<lambda>hl. mbind (BST_Height (bright n) T1) (\<lambda>hr. Some (Inr (hl, hr))))))"

lemma mbind_weak: "m = m' \<Longrightarrow> mbind m f = mbind m' f"
  by simp

lemmas avl_compute = AVL_Add_def AVL_Del_def BST_Add_def BST_Del_def add_walk.simps leftmost.simps BalanceTree.simps balance_node_def
  RightHigher_def LeftHigher_def RotateLeft_def RotateRight_def DoubleRotateLeft_def DoubleRotateRight_def height_of_child_def
  BST_Height_def HeightRecursive.simps as_int_def FindParent_def GetPointerToNode_def BST_Find_def find_walk.simps node_at_def
  set_left_def set_right_def set_item_def drop_node_def dec32_pos new_leaf_def OP_NEW_def BST_new_def empty_store_def Let_def

text \<open>deletion does not keep the tree balanced: the code rotates twice whenever the outer subtree is not the higher one, also
  when both are equally high, and looks only at the nodes on the way up. Eight elements are added, and every node is
  balanced; deleting one of them leaves a node whose subtrees differ by two.\<close>

lemma deletion_unbalances:
  "mbind (avl_run_all [AAdd 3, AAdd 2, AAdd 6, AAdd 1, AAdd 5, AAdd 7, AAdd 4, AAdd 8] (BST_new :: nat bst)) (child_heights 6) = Some (Inr (2, 2))
   \<and> mbind (avl_run_all [AAdd 3, AAdd 2, AAdd 6, AAdd 1, AAdd 5, AAdd 7, AAdd 4, AAdd 8, ADel 1] (BST_new :: nat bst)) (child_heights 6) = Some (Inr (0, 2))"
  by (simp add: avl_compute child_heights_def cong: mbind_weak)

end
