(* ===== verification/RakLinked.thy ===== *)
theory RakLinked
  imports RakNodes "HOL-Library.Multiset"
begin

text \<open>
  RakNet's linked lists (\<^verbatim>\<open>DS_LinkedList.h\<close>) and the queue made of one (\<^verbatim>\<open>DS_QueueLinkedList.h\<close>). The nodes of a list form a
  doubly linked ring; \<open>ll_root\<close> is its first and \<open>ll_position\<close> its current node. The store of a list holds the nodes
  the list allocates; \<open>this\<close> and an argument list are different objects. The operations of \<open>CircularLinkedList\<close> have
  the prefix \<open>CLL\<close>, those \<open>LinkedList\<close> has of its own \<open>LL\<close>, those of \<open>QueueLinkedList\<close> \<open>QLL\<close>.
\<close>

section \<open>Code\<close>

record 'a cnode =
  item :: 'a
  previous :: link
  next_node :: link

record 'a linked =
  lmem :: "'a cnode store"
  ll_size :: nat
  ll_root :: link
  ll_position :: link

text \<open>A node, a field of a node, and the assignment to a pointer of a node.\<close>

definition new_node :: "'a \<Rightarrow> 'a linked \<Rightarrow> link \<times> 'a linked" where
  "new_node x l =
     (let (a, s) = OP_NEW \<lparr>item = x, previous = WILD, next_node = WILD\<rparr> (lmem l) in (At a, l\<lparr>lmem := s\<rparr>))"

definition get :: "('a cnode \<Rightarrow> 'b) \<Rightarrow> link \<Rightarrow> 'a linked \<Rightarrow> 'b res" where
  "get f p l = rbind (fetch p (lmem l)) (\<lambda>n. Inr (f n))"

definition put :: "('a cnode \<Rightarrow> 'a cnode) \<Rightarrow> link \<Rightarrow> 'a linked \<Rightarrow> 'a linked res" where
  "put f p l = rbind (modify p f (lmem l)) (\<lambda>s. Inr (l\<lparr>lmem := s\<rparr>))"

definition set_next :: "link \<Rightarrow> link \<Rightarrow> 'a linked \<Rightarrow> 'a linked res" where
  "set_next p q = put (\<lambda>n. n\<lparr>next_node := q\<rparr>) p"

definition set_previous :: "link \<Rightarrow> link \<Rightarrow> 'a linked \<Rightarrow> 'a linked res" where
  "set_previous p q = put (\<lambda>n. n\<lparr>previous := q\<rparr>) p"

definition delete_node :: "link \<Rightarrow> 'a linked \<Rightarrow> 'a linked res" where
  "delete_node p l = rbind (OP_DELETE p (lmem l)) (\<lambda>s. Inr (l\<lparr>lmem := s\<rparr>))"

definition CLL_new :: "'a linked" where
  "CLL_new = \<lparr>lmem = empty_store, ll_size = 0, ll_root = NIL, ll_position = NIL\<rparr>"

definition CLL_Beginning :: "'a linked \<Rightarrow> 'a linked" where
  "CLL_Beginning l = (if ll_root l \<noteq> NIL then l\<lparr>ll_position := ll_root l\<rparr> else l)"

definition CLL_End :: "'a linked \<Rightarrow> 'a linked res" where
  "CLL_End l =
     (if ll_root l \<noteq> NIL then rbind (get previous (ll_root l) l) (\<lambda>p. Inr (l\<lparr>ll_position := p\<rparr>)) else Inr l)"

text \<open>The first node of an empty list.\<close>

definition first_node :: "'a \<Rightarrow> 'a linked \<Rightarrow> 'a linked res" where
  "first_node x l =
     (let (a, l1) = new_node x l
      in rbind (set_next a a l1) (\<lambda>l2.
         rbind (set_previous a a l2) (\<lambda>l3.
         Inr (l3\<lparr>ll_root := a, ll_size := 1, ll_position := a\<rparr>))))"

text \<open>A second node, and the new position.\<close>

definition second_node :: "'a \<Rightarrow> 'a linked \<Rightarrow> 'a linked res" where
  "second_node x l =
     (let (b, l1) = new_node x l; root = ll_root l1
      in rbind (set_next root b l1) (\<lambda>l2.
         rbind (set_previous root b l2) (\<lambda>l3.
         rbind (set_previous b root l3) (\<lambda>l4.
         rbind (set_next b root l4) (\<lambda>l5.
         Inr (l5\<lparr>ll_position := b, ll_size := 2\<rparr>))))))"

definition CLL_Insert :: "'a \<Rightarrow> 'a linked \<Rightarrow> 'a linked res" where
  "CLL_Insert x l =
     (if ll_size l = 0 then first_node x l
      else if ll_size l = 1 then rbind (second_node x l) (\<lambda>l1. Inr (l1\<lparr>ll_root := ll_position l1\<rparr>))
      else let (b, l1) = new_node x l; pos = ll_position l1
           in rbind (get previous pos l1) (\<lambda>a.
              rbind (set_next a b l1) (\<lambda>l2.
              rbind (get previous pos l2) (\<lambda>a2.
              rbind (set_previous b a2 l2) (\<lambda>l3.
              rbind (set_previous pos b l3) (\<lambda>l4.
              rbind (set_next b pos l4) (\<lambda>l5.
              let l6 = (if pos = ll_root l5 then l5\<lparr>ll_root := b, ll_position := b\<rparr> else l5)
              in Inr (l6\<lparr>ll_size := w32 (ll_size l6 + 1)\<rparr>))))))))"

definition CLL_Add :: "'a \<Rightarrow> 'a linked \<Rightarrow> 'a linked res" where
  "CLL_Add x l =
     (if ll_size l = 0 then first_node x l
      else if ll_size l = 1 then rbind (second_node x l) (\<lambda>l1. Inr (l1\<lparr>ll_position := ll_root l1\<rparr>))
      else let (b, l1) = new_node x l; pos = ll_position l1
           in rbind (set_previous b pos l1) (\<lambda>l2.
              rbind (get next_node pos l2) (\<lambda>c.
              rbind (set_next b c l2) (\<lambda>l3.
              rbind (get next_node pos l3) (\<lambda>c2.
              rbind (set_previous c2 b l3) (\<lambda>l4.
              rbind (set_next pos b l4) (\<lambda>l5.
              Inr (l5\<lparr>ll_size := w32 (ll_size l5 + 1)\<rparr>))))))))"

definition CLL_Replace :: "'a \<Rightarrow> 'a linked \<Rightarrow> 'a linked res" where
  "CLL_Replace x l = (if 0 < ll_size l then put (\<lambda>n. n\<lparr>item := x\<rparr>) (ll_position l) l else Inr l)"

definition CLL_Del :: "'a linked \<Rightarrow> 'a linked res" where
  "CLL_Del l =
     (if ll_size l = 0 then Inr l
      else if ll_size l = 1 then
        rbind (delete_node (ll_root l) l) (\<lambda>l1. Inr (l1\<lparr>ll_root := NIL, ll_position := NIL, ll_size := 0\<rparr>))
      else let pos = ll_position l
           in rbind (get previous pos l) (\<lambda>p.
              rbind (get next_node pos l) (\<lambda>n.
              rbind (set_next p n l) (\<lambda>l1.
              rbind (get next_node pos l1) (\<lambda>n2.
              rbind (get previous pos l1) (\<lambda>p2.
              rbind (set_previous n2 p2 l1) (\<lambda>l2.
              rbind (get next_node pos l2) (\<lambda>new_position.
              let l3 = (if pos = ll_root l2 then l2\<lparr>ll_root := new_position\<rparr> else l2)
              in rbind (delete_node pos l3) (\<lambda>l4.
                 Inr (l4\<lparr>ll_position := new_position, ll_size := dec32 (ll_size l4)\<rparr>))))))))))"

text \<open>The search, from the root until the ring is closed.\<close>

partial_function (option) find_from :: "'a \<Rightarrow> link \<Rightarrow> 'a linked \<Rightarrow> link run" where
  "find_from x current l =
     mbind (Some (get item current l)) (\<lambda>y.
     if y = x then Some (Inr current)
     else mbind (Some (get next_node current l)) (\<lambda>n.
       if n \<noteq> ll_root l then find_from x n l else Some (Inr NIL)))"

definition CLL_FindPointer :: "'a \<Rightarrow> 'a linked \<Rightarrow> link run" where
  "CLL_FindPointer x l = (if ll_size l = 0 then Some (Inr NIL) else find_from x (ll_root l) l)"

definition CLL_IsIn :: "'a \<Rightarrow> 'a linked \<Rightarrow> bool run" where
  "CLL_IsIn x l = mbind (CLL_FindPointer x l) (\<lambda>p. Some (Inr (p \<noteq> NIL)))"

definition CLL_Find :: "'a \<Rightarrow> 'a linked \<Rightarrow> (bool \<times> 'a linked) run" where
  "CLL_Find x l =
     mbind (CLL_FindPointer x l) (\<lambda>p.
     Some (Inr (if p \<noteq> NIL then (True, l\<lparr>ll_position := p\<rparr>) else (False, l))))"

definition CLL_Size :: "'a linked \<Rightarrow> nat" where
  "CLL_Size l = ll_size l"

definition CLL_Peek :: "'a linked \<Rightarrow> 'a res" where
  "CLL_Peek l = get item (ll_position l) l"

definition CLL_Pop :: "'a linked \<Rightarrow> ('a \<times> 'a linked) res" where
  "CLL_Pop l = rbind (CLL_Peek l) (\<lambda>x. rbind (CLL_Del l) (\<lambda>l1. Inr (x, l1)))"

definition CLL_next :: "'a linked \<Rightarrow> 'a linked res" where
  "CLL_next l =
     (if ll_size l \<noteq> 0 then rbind (get next_node (ll_position l) l) (\<lambda>p. Inr (l\<lparr>ll_position := p\<rparr>)) else Inr l)"

definition CLL_prev :: "'a linked \<Rightarrow> 'a linked res" where
  "CLL_prev l =
     (if ll_size l \<noteq> 0 then rbind (get previous (ll_position l) l) (\<lambda>p. Inr (l\<lparr>ll_position := p\<rparr>)) else Inr l)"

definition LL_next :: "'a linked \<Rightarrow> 'a linked res" where
  "LL_next l =
     (if ll_size l \<noteq> 0 then
        rbind (get next_node (ll_position l) l) (\<lambda>p. Inr (if p \<noteq> ll_root l then l\<lparr>ll_position := p\<rparr> else l))
      else Inr l)"

definition LL_prev :: "'a linked \<Rightarrow> 'a linked res" where
  "LL_prev l =
     (if ll_size l \<noteq> 0 \<and> ll_position l \<noteq> ll_root l then
        rbind (get previous (ll_position l) l) (\<lambda>p. Inr (l\<lparr>ll_position := p\<rparr>))
      else Inr l)"

partial_function (option) clear_loop :: "link \<Rightarrow> 'a linked \<Rightarrow> 'a linked run" where
  "clear_loop current l =
     mbind (Some (get next_node current l)) (\<lambda>n.
     mbind (Some (delete_node current l)) (\<lambda>l1.
     if n \<noteq> ll_root l1 then clear_loop n l1 else Some (Inr l1)))"

definition CLL_Clear :: "'a linked \<Rightarrow> 'a linked run" where
  "CLL_Clear l =
     (if ll_size l = 0 then Some (Inr l)
      else mbind (if ll_size l = 1 then Some (delete_node (ll_root l) l) else clear_loop (ll_root l) l) (\<lambda>l1.
        Some (Inr (l1\<lparr>ll_size := 0, ll_root := NIL, ll_position := NIL\<rparr>))))"

text \<open>
  The copying of the nodes of \<open>orig\<close>, which the assignments and copy constructors of both classes contain;
  \<open>save\<close> is the copy of the current node, not set before it is met.
\<close>

partial_function (option) copy_loop :: "'a linked \<Rightarrow> link \<Rightarrow> link \<Rightarrow> 'a linked \<Rightarrow> (link \<times> 'a linked) run" where
  "copy_loop orig original_copy_pointer save l =
     mbind (Some (get next_node original_copy_pointer orig)) (\<lambda>p.
     mbind (Some (get item p orig)) (\<lambda>x.
     mbind (Some (Inr (new_node x l))) (\<lambda>bl.
     mbind (Some (set_previous (fst bl) (ll_position l) (snd bl))) (\<lambda>l2.
     mbind (Some (set_next (ll_position l) (fst bl) l2)) (\<lambda>l3.
     mbind (Some (get next_node p orig)) (\<lambda>n.
     if n \<noteq> ll_root orig then
       copy_loop orig p (if p = ll_position orig then fst bl else save) (l3\<lparr>ll_position := fst bl\<rparr>)
     else Some (Inr (if p = ll_position orig then fst bl else save, l3\<lparr>ll_position := fst bl\<rparr>))))))))"

definition copy_nodes :: "'a linked \<Rightarrow> 'a linked \<Rightarrow> 'a linked run" where
  "copy_nodes orig l =
     (if ll_size orig = 0 then Some (Inr (l\<lparr>ll_root := NIL, ll_position := NIL, ll_size := 0\<rparr>))
      else mbind (Some (get item (ll_root orig) orig)) (\<lambda>x.
        if ll_size orig = 1 then Some (first_node x l)
        else let (a, l1) = new_node x l;
                 save = (if ll_root orig = ll_position orig then a else WILD)
             in mbind (copy_loop orig (ll_root orig) save (l1\<lparr>ll_root := a, ll_position := a\<rparr>)) (\<lambda>(save', l2).
                mbind (Some (set_next (ll_position l2) (ll_root l2) l2)) (\<lambda>l3.
                mbind (Some (set_previous (ll_root l3) (ll_position l3) l3)) (\<lambda>l4.
                Some (Inr (l4\<lparr>ll_size := ll_size orig, ll_position := save'\<rparr>)))))))"

definition LL_assign :: "bool \<Rightarrow> 'a linked \<Rightarrow> 'a linked \<Rightarrow> 'a linked run" where
  "LL_assign same orig l = (if \<not> same then mbind (CLL_Clear l) (copy_nodes orig) else Some (Inr l))"

definition LL_copy :: "'a linked \<Rightarrow> 'a linked run" where
  "LL_copy orig = copy_nodes orig CLL_new"

definition CLL_copy :: "'a linked \<Rightarrow> 'a linked run" where
  "CLL_copy orig = copy_nodes orig CLL_new"

definition CLL_assign :: "bool \<Rightarrow> 'a linked \<Rightarrow> 'a linked \<Rightarrow> 'a linked run" where
  "CLL_assign same orig l = (if \<not> same then mbind (CLL_Clear l) (copy_nodes orig) else Some (Inr l))"

text \<open>The elements of another list are added one by one.\<close>

fun concat_loop :: "'a linked \<Rightarrow> nat \<Rightarrow> link \<Rightarrow> 'a linked \<Rightarrow> 'a linked res" where
  "concat_loop L 0 ptr l = Inr l"
| "concat_loop L (Suc k) ptr l =
     rbind (get item ptr L) (\<lambda>x.
     rbind (CLL_Add x l) (\<lambda>l1.
     rbind (get next_node ptr L) (\<lambda>ptr'.
     rbind (get next_node (ll_position l1) l1) (\<lambda>p.
     concat_loop L k ptr' (l1\<lparr>ll_position := p\<rparr>)))))"

definition CLL_Concatenate :: "'a linked \<Rightarrow> 'a linked \<Rightarrow> 'a linked run" where
  "CLL_Concatenate L l =
     (if ll_size L = 0 then Some (Inr l)
      else mbind (if ll_size l = 0 then CLL_assign False L l else Some (Inr l)) (\<lambda>l1.
        mbind (Some (get previous (ll_root l1) l1)) (\<lambda>p.
        Some (concat_loop L (ll_size L) (ll_root L) (l1\<lparr>ll_position := p\<rparr>)))))"

partial_function (option) merge_loop ::
  "'a::linorder linked \<Rightarrow> 'a linked \<Rightarrow> 'a linked \<Rightarrow> ('a linked \<times> 'a linked \<times> 'a linked) run" where
  "merge_loop L1 L2 X =
     (if ll_size L1 \<noteq> 0 \<and> ll_size L2 \<noteq> 0 then
        mbind (Some (get item (ll_root L1) L1)) (\<lambda>x.
        mbind (Some (get item (ll_root L2) L2)) (\<lambda>y.
        if x < y then
          mbind (Some (CLL_Del L1)) (\<lambda>L1'.
          mbind (Some (rbind (CLL_Add x X) CLL_next)) (\<lambda>X'. merge_loop L1' L2 X'))
        else
          mbind (Some (CLL_Del L2)) (\<lambda>L2'.
          mbind (Some (rbind (CLL_Add y X) CLL_next)) (\<lambda>X'. merge_loop L1 L2' X'))))
      else Some (Inr (L1, L2, X)))"

definition CLL_Merge :: "'a::linorder linked \<Rightarrow> 'a linked \<Rightarrow> 'a linked run" where
  "CLL_Merge L1 L2 =
     mbind (merge_loop (L1\<lparr>ll_position := ll_root L1\<rparr>) (L2\<lparr>ll_position := ll_root L2\<rparr>) CLL_new) (\<lambda>(L1', L2', X).
     if ll_size L1' \<noteq> 0 then CLL_Concatenate L1' X else CLL_Concatenate L2' X)"

text \<open>\<open>n\<close> elements from \<open>location\<close> on are added to a list.\<close>

fun split_loop :: "'a linked \<Rightarrow> nat \<Rightarrow> link \<Rightarrow> 'a linked \<Rightarrow> (link \<times> 'a linked) res" where
  "split_loop L 0 location l = Inr (location, l)"
| "split_loop L (Suc k) location l =
     rbind (get item location L) (\<lambda>x.
     rbind (CLL_Add x l) (\<lambda>l1.
     rbind (get next_node location L) (\<lambda>location'.
     split_loop L k location' l1)))"

text \<open>\<open>Merge\<close> gets copies of the two lists.\<close>

partial_function (option) CLL_Mergesort :: "'a::linorder linked \<Rightarrow> 'a linked run" where
  "CLL_Mergesort L =
     mbind (Some (split_loop L (ll_size L div 2) (ll_root L) CLL_new)) (\<lambda>s1.
     mbind (Some (split_loop L (ll_size L - ll_size L div 2) (fst s1) CLL_new)) (\<lambda>s2.
     mbind (if 1 < ll_size (snd s1) then mbind (CLL_Mergesort (snd s1)) (\<lambda>r. CLL_assign False r (snd s1))
            else Some (Inr (snd s1))) (\<lambda>L1.
     mbind (if 1 < ll_size (snd s2) then mbind (CLL_Mergesort (snd s2)) (\<lambda>r. CLL_assign False r (snd s2))
            else Some (Inr (snd s2))) (\<lambda>L2.
     mbind (CLL_copy L1) (\<lambda>c1. mbind (CLL_copy L2) (\<lambda>c2. CLL_Merge c1 c2))))))"

definition CLL_Sort :: "'a::linorder linked \<Rightarrow> 'a linked run" where
  "CLL_Sort l =
     (if ll_size l \<le> 1 then Some (Inr l)
      else mbind (CLL_Mergesort l) (\<lambda>r.
        mbind (CLL_assign False r l) (\<lambda>l1. Some (Inr (l1\<lparr>ll_position := ll_root l1\<rparr>)))))"

definition QLL_Size :: "'a linked \<Rightarrow> nat" where
  "QLL_Size q = CLL_Size q"

definition QLL_Push :: "'a \<Rightarrow> 'a linked \<Rightarrow> 'a linked res" where
  "QLL_Push x q = rbind (CLL_End q) (CLL_Add x)"

definition QLL_Pop :: "'a linked \<Rightarrow> ('a \<times> 'a linked) res" where
  "QLL_Pop q = CLL_Pop (CLL_Beginning q)"

definition QLL_copy :: "'a linked \<Rightarrow> 'a linked run" where
  "QLL_copy orig = LL_assign False orig CLL_new"

definition QLL_assign :: "bool \<Rightarrow> 'a linked \<Rightarrow> 'a linked \<Rightarrow> 'a linked run" where
  "QLL_assign same orig q = (if same then Some (Inr q) else LL_assign False orig q)"

definition QLL_Clear :: "'a linked \<Rightarrow> 'a linked run" where
  "QLL_Clear q = CLL_Clear q"

section \<open>Rings\<close>

definition joined :: "(nat \<Rightarrow> 'a cnode option) \<Rightarrow> nat \<times> nat \<Rightarrow> bool" where
  "joined m e \<longleftrightarrow> map_option next_node (m (fst e)) = Some (At (snd e))
     \<and> map_option previous (m (snd e)) = Some (At (fst e))"

definition ring :: "(nat \<Rightarrow> 'a cnode option) \<Rightarrow> nat list \<Rightarrow> bool" where
  "ring m as \<longleftrightarrow> (\<forall>e \<in> set (steps as (hd as)). joined m e)"

lemma ring_rotate: "ring m (us @ vs) = ring m (vs @ us)"
proof (cases "us = [] \<or> vs = []")
  case False
  then show ?thesis using steps_rotate [of us vs] by (simp add: ring_def)
qed auto

text \<open>A new node \<open>d\<close> between \<open>p\<close> and \<open>q\<close>, and the removal of a node \<open>c\<close> between them.\<close>

definition link_in :: "(nat \<Rightarrow> 'a cnode option) \<Rightarrow> nat \<Rightarrow> nat \<Rightarrow> nat \<Rightarrow> 'a \<Rightarrow> nat \<Rightarrow> 'a cnode option" where
  "link_in m p d q x = (\<lambda>z. if z = d then Some \<lparr>item = x, previous = At p, next_node = At q\<rparr>
     else map_option (\<lambda>n. \<lparr>item = item n, previous = if z = q then At d else previous n,
       next_node = if z = p then At d else next_node n\<rparr>) (m z))"

definition link_out :: "(nat \<Rightarrow> 'a cnode option) \<Rightarrow> nat \<Rightarrow> nat \<Rightarrow> nat \<Rightarrow> nat \<Rightarrow> 'a cnode option" where
  "link_out m p c q = (\<lambda>z. if z = c then None
     else map_option (\<lambda>n. \<lparr>item = item n, previous = if z = q then At p else previous n,
       next_node = if z = p then At q else next_node n\<rparr>) (m z))"

lemma link_in_links:
  "map_option next_node (link_in m p d q v z)
    = (if z = d then Some (At q) else if z = p then map_option (\<lambda>_. At d) (m z) else map_option next_node (m z))"
  "map_option previous (link_in m p d q v z)
    = (if z = d then Some (At p) else if z = q then map_option (\<lambda>_. At d) (m z) else map_option previous (m z))"
  "map_option item (link_in m p d q v z) = (if z = d then Some v else map_option item (m z))"
  by (simp_all add: link_in_def option.map_comp comp_def)

lemma link_out_links:
  "map_option next_node (link_out m p c q z)
    = (if z = c then None else if z = p then map_option (\<lambda>_. At q) (m z) else map_option next_node (m z))"
  "map_option previous (link_out m p c q z)
    = (if z = c then None else if z = q then map_option (\<lambda>_. At p) (m z) else map_option previous (m z))"
  "map_option item (link_out m p c q z) = (if z = c then None else map_option item (m z))"
  by (simp_all add: link_out_def option.map_comp comp_def)

lemma joined_link_in:
  "joined m (x, y) \<Longrightarrow> x \<noteq> p \<Longrightarrow> y \<noteq> q \<Longrightarrow> x \<noteq> d \<Longrightarrow> y \<noteq> d \<Longrightarrow> joined (link_in m p d q v) (x, y)"
  "m p = Some n \<Longrightarrow> p \<noteq> d \<Longrightarrow> joined (link_in m p d q v) (p, d)"
  "m q = Some k \<Longrightarrow> q \<noteq> d \<Longrightarrow> joined (link_in m p d q v) (d, q)"
  by (simp_all add: joined_def link_in_links del: map_option_eq_Some)

lemma joined_link_out:
  "joined m (x, y) \<Longrightarrow> x \<noteq> p \<Longrightarrow> y \<noteq> q \<Longrightarrow> x \<noteq> c \<Longrightarrow> y \<noteq> c \<Longrightarrow> joined (link_out m p c q) (x, y)"
  "m p = Some n \<Longrightarrow> m q = Some k \<Longrightarrow> p \<noteq> c \<Longrightarrow> q \<noteq> c \<Longrightarrow> joined (link_out m p c q) (p, q)"
  by (simp_all add: joined_def link_out_links del: map_option_eq_Some)

lemma joined_Some: "joined m (x, y) \<Longrightarrow> \<exists>n k. m x = Some n \<and> m y = Some k"
  by (auto simp: joined_def)

lemma ring_link_in:
  assumes "ring m (ws @ [p])" "distinct (ws @ [p])" "d \<notin> set (ws @ [p])" "q = hd (ws @ [p])"
  shows "ring (link_in m p d q v) (ws @ [p, d])"
proof -
  have st: "steps (ws @ [p]) q = steps ws p @ [(p, q)]" "steps (ws @ [p, d]) q = steps ws p @ [(p, d), (d, q)]"
    by (simp_all add: steps_append)
  have hd: "hd (ws @ [p, d]) = q" using assms(4) by (cases ws) simp_all
  have e: "joined m (p, q)" "\<And>e. e \<in> set (steps ws p) \<Longrightarrow> joined m e"
    using assms(1) [unfolded ring_def, folded assms(4), unfolded st(1)] by simp_all
  obtain n k where "m p = Some n" "m q = Some k" using joined_Some [OF e(1)] by blast
  moreover have "q \<noteq> d" using assms(3,4) by (cases ws) auto
  moreover have "p \<noteq> d" using assms(3) by auto
  moreover have "joined (link_in m p d q v) (x, y)" if xy: "(x, y) \<in> set (steps ws p)" for x y
  proof (rule joined_link_in(1))
    show "joined m (x, y)" using e xy by simp
    note s = steps_in [OF xy]
    have "y \<in> set ws \<or> y = p" using s by (cases ws) auto
    then show "x \<noteq> p" "x \<noteq> d" "y \<noteq> d" using s assms(2,3) by auto
    show "y \<noteq> q" using s assms(2,4) by (cases ws) auto
  qed
  ultimately show ?thesis
    unfolding ring_def hd st(2) by (auto intro: joined_link_in(2,3))
qed

lemma ring_link_out:
  assumes "ring m (c # ws @ [p])" "distinct (c # ws @ [p])" "q = hd (ws @ [p])"
  shows "ring (link_out m p c q) (ws @ [p])"
proof -
  have st: "steps (ws @ [p]) q = steps ws p @ [(p, q)]" by (simp add: steps_append)
  have st2: "steps (c # ws @ [p]) c = (c, q) # steps ws p @ [(p, c)]"
    using assms(3) hd_snoc [of ws p "[c]"] by (simp add: steps_append)
  have e: "joined m (c, q)" "joined m (p, c)" "\<And>e. e \<in> set (steps ws p) \<Longrightarrow> joined m e"
    using assms(1) unfolding ring_def list.sel st2 by simp_all
  obtain n k where "m p = Some n" "m q = Some k" using joined_Some [OF e(1)] joined_Some [OF e(2)] by blast
  moreover have "q \<noteq> c" using assms(2,3) by (cases ws) auto
  moreover have "p \<noteq> c" using assms(2) by auto
  moreover have "joined (link_out m p c q) (x, y)" if xy: "(x, y) \<in> set (steps ws p)" for x y
  proof (rule joined_link_out(1))
    show "joined m (x, y)" using e xy by simp
    note s = steps_in [OF xy]
    have "y \<in> set ws \<or> y = p" using s by (cases ws) auto
    then show "x \<noteq> p" "x \<noteq> c" "y \<noteq> c" using s assms(2) by auto
    show "y \<noteq> q" using s assms(2,3) by (cases ws) auto
  qed
  ultimately show ?thesis
    unfolding ring_def assms(3) [symmetric] st by (auto intro: joined_link_out(2))
qed

section \<open>The effect of the operations on the nodes\<close>

lemma node_eta [simp]: "\<lparr>item = item n, previous = previous n, next_node = next_node n\<rparr> = n"
  by (cases n) simp

lemmas node_defs = new_node_def OP_NEW_def get_def put_def set_next_def set_previous_def Let_def

lemma first_node_exec:
  "first_node x l = Inr (l\<lparr>lmem := (lmem l)\<lparr>cells := (cells (lmem l))(brk (lmem l) := Some \<lparr>item = x, previous = At (brk (lmem l)),
       next_node = At (brk (lmem l))\<rparr>), brk := Suc (brk (lmem l))\<rparr>,
     ll_root := At (brk (lmem l)), ll_size := 1, ll_position := At (brk (lmem l))\<rparr>)"
  by (simp add: first_node_def node_defs)

lemma second_node_exec:
  assumes "ll_root l = At r" "cells (lmem l) r = Some n" "r \<noteq> brk (lmem l)" "\<And>z. z \<noteq> r \<Longrightarrow> cells (lmem l) z = None"
  shows "second_node x l = Inr (l\<lparr>lmem := (lmem l)\<lparr>cells := link_in (cells (lmem l)) r (brk (lmem l)) r x, brk := Suc (brk (lmem l))\<rparr>,
     ll_position := At (brk (lmem l)), ll_size := 2\<rparr>)"
  using assms by (auto simp: second_node_def node_defs link_in_def fun_eq_iff)

lemma Insert_exec:
  assumes "ll_size l = Suc (Suc k)" "ll_position l = At q" "cells (lmem l) q = Some nq" "previous nq = At p"
    and "cells (lmem l) p = Some np" "next_node np = At q" "p \<noteq> q" "p \<noteq> brk (lmem l)" "q \<noteq> brk (lmem l)"
  shows "CLL_Insert x l = Inr (l\<lparr>lmem := (lmem l)\<lparr>cells := link_in (cells (lmem l)) p (brk (lmem l)) q x, brk := Suc (brk (lmem l))\<rparr>,
     ll_root := if ll_root l = At q then At (brk (lmem l)) else ll_root l,
     ll_position := if ll_root l = At q then At (brk (lmem l)) else At q,
     ll_size := w32 (ll_size l + 1)\<rparr>)"
proof -
  have "((((cells (lmem l))(brk (lmem l) := Some \<lparr>item = x, previous = At p, next_node = At q\<rparr>))(p := Some (np\<lparr>next_node := At (brk (lmem l))\<rparr>)))
      (q := Some (nq\<lparr>previous := At (brk (lmem l))\<rparr>))) = link_in (cells (lmem l)) p (brk (lmem l)) q x"
    using assms by (auto simp: link_in_def fun_eq_iff option.map_ident)
  then show ?thesis
    using assms by (cases "ll_root l = At q") (simp_all add: CLL_Insert_def node_defs fun_upd_twist)
qed

lemma Add_exec:
  assumes "ll_size l = Suc (Suc k)" "ll_position l = At p" "cells (lmem l) p = Some np" "next_node np = At q"
    and "cells (lmem l) q = Some nq" "previous nq = At p" "p \<noteq> q" "p \<noteq> brk (lmem l)" "q \<noteq> brk (lmem l)"
  shows "CLL_Add x l = Inr (l\<lparr>lmem := (lmem l)\<lparr>cells := link_in (cells (lmem l)) p (brk (lmem l)) q x, brk := Suc (brk (lmem l))\<rparr>,
     ll_size := w32 (ll_size l + 1)\<rparr>)"
proof -
  have "((((cells (lmem l))(brk (lmem l) := Some \<lparr>item = x, previous = At p, next_node = At q\<rparr>))
      (q := Some (nq\<lparr>previous := At (brk (lmem l))\<rparr>)))(p := Some (np\<lparr>next_node := At (brk (lmem l))\<rparr>)))
      = link_in (cells (lmem l)) p (brk (lmem l)) q x"
    using assms by (auto simp: link_in_def fun_eq_iff option.map_ident)
  then show ?thesis
    using assms by (simp add: CLL_Add_def node_defs fun_upd_twist)
qed

lemma Del_exec:
  assumes "ll_size l = Suc (Suc k)" "ll_position l = At c" "cells (lmem l) c = Some nc" "previous nc = At p" "next_node nc = At q"
    and "cells (lmem l) p = Some np" "cells (lmem l) q = Some nq" "p \<noteq> c" "q \<noteq> c"
  shows "CLL_Del l = Inr (l\<lparr>lmem := (lmem l)\<lparr>cells := link_out (cells (lmem l)) p c q\<rparr>,
     ll_root := if ll_root l = At c then At q else ll_root l, ll_position := At q, ll_size := dec32 (ll_size l)\<rparr>)"
proof (cases "p = q")
  case True
  then have "(cells (lmem l))(q := Some (nq\<lparr>next_node := At q, previous := At q\<rparr>), c := None) = link_out (cells (lmem l)) p c q"
    using assms by (auto simp: link_out_def fun_eq_iff option.map_ident)
  then show ?thesis
    using True assms by (cases "ll_root l = At c") (simp_all add: CLL_Del_def delete_node_def node_defs)
next
  case False
  then have "(cells (lmem l))(p := Some (np\<lparr>next_node := At q\<rparr>), q := Some (nq\<lparr>previous := At p\<rparr>), c := None)
      = link_out (cells (lmem l)) p c q"
    using assms by (auto simp: link_out_def fun_eq_iff option.map_ident)
  then show ?thesis
    using False assms by (cases "ll_root l = At c") (simp_all add: CLL_Del_def delete_node_def node_defs)
qed

section \<open>Lists with a current position\<close>

text \<open>The addresses of the nodes in order, which are all the nodes of the store, and the index of the current one.\<close>

definition ll_rep :: "'a linked \<Rightarrow> nat list \<Rightarrow> nat \<Rightarrow> bool" where
  "ll_rep l as i \<longleftrightarrow> distinct as \<and> dom (cells (lmem l)) = set as \<and> (\<forall>a \<in> set as. a < brk (lmem l))
     \<and> ll_size l = length as \<and> length as < 4294967296 \<and> ring (cells (lmem l)) as
     \<and> (if as = [] then ll_root l = NIL \<and> ll_position l = NIL \<and> i = 0
        else i < length as \<and> ll_root l = At (as ! 0) \<and> ll_position l = At (as ! i))"

definition val :: "'a linked \<Rightarrow> nat \<Rightarrow> 'a" where
  "val l a = item (the (cells (lmem l) a))"

definition cursor :: "'a linked \<Rightarrow> 'a list \<Rightarrow> nat \<Rightarrow> bool" where
  "cursor l xs i \<longleftrightarrow> (\<exists>as. ll_rep l as i \<and> xs = map (val l) as)"

definition gives :: "'a linked res \<Rightarrow> 'a list \<Rightarrow> nat \<Rightarrow> bool" where
  "gives r xs i \<longleftrightarrow> (\<exists>l. r = Inr l \<and> cursor l xs i)"

lemma ring_insert:
  assumes "ring m (us @ vs)" "distinct (us @ vs)" "us @ vs \<noteq> []" "d \<notin> set (us @ vs)"
  shows "ring (link_in m (last (vs @ us)) d (hd (vs @ us)) x) (us @ d # vs)"
proof -
  obtain ws p where w: "vs @ us = ws @ [p]" using assms(3) by (metis append_is_Nil_conv rev_exhaust)
  have r: "ring m (ws @ [p])" using assms(1) ring_rotate [of m us vs] w by simp
  have s: "set (ws @ [p]) = set (us @ vs)" unfolding w [symmetric] by auto
  have d: "distinct (ws @ [p])" using assms(2) unfolding w [symmetric] by auto
  have "ring (link_in m p d (hd (ws @ [p])) x) (ws @ [p, d])"
    by (rule ring_link_in [OF r d _ refl]) (use assms(4) s in simp)
  moreover have "vs @ us @ [d] = ws @ [p, d]" using arg_cong [OF w, of "\<lambda>z. z @ [d]"] by simp
  moreover have "last (vs @ us) = p" "hd (vs @ us) = hd (ws @ [p])" by (simp_all add: w)
  ultimately have "ring (link_in m (last (vs @ us)) d (hd (vs @ us)) x) (vs @ us @ [d])" by (simp only:)
  then show ?thesis using ring_rotate [of "link_in m (last (vs @ us)) d (hd (vs @ us)) x" vs "us @ [d]"] by simp
qed

lemma ring_delete:
  assumes "ring m (us @ c # vs)" "distinct (us @ c # vs)" "us @ vs \<noteq> []"
  shows "ring (link_out m (last (vs @ us)) c (hd (vs @ us))) (us @ vs)"
proof -
  obtain ws p where w: "vs @ us = ws @ [p]" using assms(3) by (metis append_is_Nil_conv rev_exhaust)
  have r: "ring m (c # ws @ [p])" using assms(1) ring_rotate [of m us "c # vs"] w by simp
  have "set (c # ws @ [p]) = set (us @ c # vs)" unfolding w [symmetric] by auto
  have "distinct (c # ws @ [p])" using assms(2) unfolding w [symmetric] by auto
  from ring_link_out [OF r this refl] have "ring (link_out m p c (hd (ws @ [p]))) (ws @ [p])" .
  moreover have "last (vs @ us) = p" "hd (vs @ us) = hd (ws @ [p])" by (simp_all add: w)
  ultimately have "ring (link_out m (last (vs @ us)) c (hd (vs @ us))) (vs @ us)" by (simp only: w)
  then show ?thesis using ring_rotate [of "link_out m (last (vs @ us)) c (hd (vs @ us))" us vs] by simp
qed

lemma ring_edge:
  assumes "ring m (us @ vs)" "us @ vs \<noteq> []"
  shows "joined m (last (vs @ us), hd (vs @ us))"
proof -
  obtain ws p where w: "vs @ us = ws @ [p]" using assms(2) by (metis append_is_Nil_conv rev_exhaust)
  have "ring m (ws @ [p])" using assms(1) ring_rotate [of m us vs] w by simp
  then show ?thesis using w by (simp add: ring_def steps_append)
qed

lemma joinedE:
  assumes "joined m (p, q)"
  obtains n k where "m p = Some n" "next_node n = At q" "m q = Some k" "previous k = At p"
  using assms by (auto simp: joined_def)

lemma ll_repD:
  assumes "ll_rep l as i"
  shows "distinct as" "dom (cells (lmem l)) = set as" "\<And>a. a \<in> set as \<Longrightarrow> a < brk (lmem l)" "ll_size l = length as"
    "length as < 4294967296" "ring (cells (lmem l)) as" "as \<noteq> [] \<Longrightarrow> i < length as"
    "as \<noteq> [] \<Longrightarrow> ll_root l = At (as ! 0)" "as \<noteq> [] \<Longrightarrow> ll_position l = At (as ! i)"
    "as = [] \<Longrightarrow> ll_root l = NIL \<and> ll_position l = NIL \<and> i = 0" "brk (lmem l) \<notin> set as" "cells (lmem l) (brk (lmem l)) = None"
proof -
  have d: "dom (cells (lmem l)) = set as" "\<forall>a \<in> set as. a < brk (lmem l)"
    and e: "if as = [] then ll_root l = NIL \<and> ll_position l = NIL \<and> i = 0
        else i < length as \<and> ll_root l = At (as ! 0) \<and> ll_position l = At (as ! i)"
    using assms unfolding ll_rep_def by blast+
  show n: "brk (lmem l) \<notin> set as" using d(2) by blast
  show "cells (lmem l) (brk (lmem l)) = None" using n unfolding d(1) [symmetric] by blast
  show "\<And>a. a \<in> set as \<Longrightarrow> a < brk (lmem l)" using d(2) by blast
  show "dom (cells (lmem l)) = set as" by (rule d(1))
  show "as \<noteq> [] \<Longrightarrow> i < length as" "as \<noteq> [] \<Longrightarrow> ll_root l = At (as ! 0)" "as \<noteq> [] \<Longrightarrow> ll_position l = At (as ! i)"
    "as = [] \<Longrightarrow> ll_root l = NIL \<and> ll_position l = NIL \<and> i = 0"
    using e by simp_all
qed (use assms [unfolded ll_rep_def] in blast)+

text \<open>A new node between \<open>us\<close> and \<open>vs\<close>.\<close>

lemma rep_insert:
  assumes "ll_rep l (us @ vs) i" "us @ vs \<noteq> []" "length (us @ vs) < 4294967295" "d = brk (lmem l)"
    and "lmem l' = (lmem l)\<lparr>cells := link_in (cells (lmem l)) (last (vs @ us)) d (hd (vs @ us)) x, brk := Suc d\<rparr>"
    and "ll_size l' = Suc (length (us @ vs))" "ll_root l' = At ((us @ d # vs) ! 0)" "ll_position l' = At ((us @ d # vs) ! j)"
    and "j \<le> length (us @ vs)"
  shows "cursor l' (map (val l) us @ x # map (val l) vs) j"
proof -
  note r = ll_repD [OF assms(1)]
  have "link_in (cells (lmem l)) p d q x z = None \<longleftrightarrow> z \<noteq> d \<and> cells (lmem l) z = None" for p q z
    by (simp add: link_in_def)
  then have "dom (cells (lmem l')) = insert d (set (us @ vs))"
    using r(2) assms(5) by (auto simp: dom_def)
  moreover have "ring (cells (lmem l')) (us @ d # vs)"
    using ring_insert [OF r(6,1) assms(2)] r(11) assms(4,5) by simp
  ultimately have dom: "dom (cells (lmem l')) = set (us @ d # vs)" and rg: "ring (cells (lmem l')) (us @ d # vs)"
    by auto
  have "\<forall>a \<in> set (us @ d # vs). a < brk (lmem l')"
    using less_SucI [OF r(3)] assms(4,5) by auto
  moreover have "distinct (us @ d # vs)" using r(1,11) assms(4) by auto
  moreover have "j < length (us @ d # vs)" "ll_size l' = length (us @ d # vs)" "length (us @ d # vs) < 4294967296"
    using assms(3,6,9) by simp_all
  ultimately have rep: "ll_rep l' (us @ d # vs) j"
    unfolding ll_rep_def using dom rg assms(7,8) by simp
  have v: "val l' a = val l a" if "a \<in> set (us @ vs)" for a
  proof -
    have "a \<noteq> d" using that r(11) unfolding assms(4) by metis
    moreover have "a \<in> dom (cells (lmem l))" unfolding r(2) by (rule that)
    ultimately show ?thesis by (auto simp: val_def assms(5) link_in_def)
  qed
  have "val l' d = x" by (simp add: val_def assms(5) link_in_def)
  then have "map (val l) us @ x # map (val l) vs = map (val l') (us @ d # vs)" using v by simp
  with rep show ?thesis unfolding cursor_def by blast
qed

lemma rep_delete:
  assumes "ll_rep l (us @ c # vs) i" "us @ vs \<noteq> []"
    and "lmem l' = (lmem l)\<lparr>cells := link_out (cells (lmem l)) (last (vs @ us)) c (hd (vs @ us))\<rparr>"
    and "ll_size l' = length (us @ vs)" "ll_root l' = At ((us @ vs) ! 0)" "ll_position l' = At ((us @ vs) ! j)"
    and "j < length (us @ vs)"
  shows "cursor l' (map (val l) (us @ vs)) j"
proof -
  note r = ll_repD [OF assms(1)]
  have "link_out (cells (lmem l)) p c q z = None \<longleftrightarrow> z = c \<or> cells (lmem l) z = None" for p q z
    by (simp add: link_out_def)
  then have "dom (cells (lmem l')) = set (us @ c # vs) - {c}"
    using r(2) assms(3) by (auto simp: dom_def)
  moreover have "ring (cells (lmem l')) (us @ vs)"
    using ring_delete [OF r(6,1) assms(2)] assms(3) by simp
  ultimately have rep: "ll_rep l' (us @ vs) j"
    unfolding ll_rep_def using r(1,3,5) assms(2-7) by auto
  have "val l' a = val l a" if "a \<in> set (us @ vs)" for a
  proof -
    have "a \<noteq> c" using that r(1) by auto
    moreover have "a \<in> dom (cells (lmem l))" using that r(2) by auto
    ultimately show ?thesis by (auto simp: val_def assms(3) link_out_def)
  qed
  then have "map (val l) (us @ vs) = map (val l') (us @ vs)" by simp
  with rep show ?thesis unfolding cursor_def by blast
qed

lemma cursor_split:
  assumes "cursor l xs i" "xs \<noteq> []"
  obtains us c vs where "ll_rep l (us @ c # vs) i" "i = length us" "xs = map (val l) us @ val l c # map (val l) vs"
proof -
  obtain as where as: "ll_rep l as i" "xs = map (val l) as" using assms(1) by (auto simp: cursor_def)
  then have "i < length as" using ll_repD(7) [OF as(1)] assms(2) by simp
  then show thesis using that [of "take i as" "as ! i" "drop (Suc i) as"] as by (simp add: Cons_nth_drop_Suc take_map drop_map)
      (metis id_take_nth_drop list.simps(9) map_append)
qed

lemma cursor_Nil: "cursor l [] i \<longleftrightarrow> ll_rep l [] i"
  by (simp add: cursor_def)

lemma cursor_new: "cursor CLL_new [] 0"
  by (simp add: cursor_Nil ll_rep_def CLL_new_def empty_store_def ring_def)

lemma cursorD:
  assumes "cursor l xs i"
  shows "ll_size l = length xs" "xs \<noteq> [] \<Longrightarrow> i < length xs" "xs = [] \<Longrightarrow> i = 0" "length xs < 4294967296"
    "ll_root l = NIL \<longleftrightarrow> xs = []" "ll_root l = ll_position l \<longleftrightarrow> i = 0" "ll_root l \<noteq> WILD" "ll_position l \<noteq> WILD"
proof -
  obtain as where as: "ll_rep l as i" "xs = map (val l) as" using assms by (auto simp: cursor_def)
  note r = ll_repD [OF as(1)]
  show "ll_size l = length xs" "length xs < 4294967296" using r(4,5) as(2) by simp_all
  show "xs \<noteq> [] \<Longrightarrow> i < length xs" using r(7) as(2) by simp
  show "xs = [] \<Longrightarrow> i = 0" using r(10) as(2) by simp
  show "ll_root l = NIL \<longleftrightarrow> xs = []" using r(8,10) as(2) by (cases as) auto
  show "ll_root l \<noteq> WILD" "ll_position l \<noteq> WILD" using r(8,9,10) by (cases as; auto)+
  show "ll_root l = ll_position l \<longleftrightarrow> i = 0"
  proof (cases "as = []")
    case False
    then show ?thesis using r(1,7,8,9) by (auto simp: nth_eq_iff_index_eq)
  qed (use r(10) in simp)
qed

lemma first_node_gives:
  assumes "\<And>z. cells (lmem l) z = None"
  shows "gives (first_node x l) [x] 0"
proof -
  let ?d = "brk (lmem l)"
  let ?l = "l\<lparr>lmem := (lmem l)\<lparr>cells := (cells (lmem l))(?d := Some \<lparr>item = x, previous = At ?d, next_node = At ?d\<rparr>),
     brk := Suc ?d\<rparr>, ll_root := At ?d, ll_size := 1, ll_position := At ?d\<rparr>"
  have "ll_rep ?l [?d] 0" using assms by (auto simp: ll_rep_def ring_def joined_def split: if_splits)
  moreover have "val ?l ?d = x" by (simp add: val_def)
  ultimately have "cursor ?l [x] 0" unfolding cursor_def by (intro exI [of _ "[?d]"]) simp
  then show ?thesis by (simp add: gives_def first_node_exec)
qed

lemma cursor_empty_cells: "cursor l [] i \<Longrightarrow> cells (lmem l) z = None"
  using ll_repD(2) [of l "[]" i] by (auto simp: cursor_Nil)

text \<open>In a list of one node both neighbours are the node.\<close>

lemma second_node_runs:
  assumes "ll_rep l [r] i"
  shows "second_node x l = Inr (l\<lparr>lmem := (lmem l)\<lparr>cells := link_in (cells (lmem l)) r (brk (lmem l)) r x,
       brk := Suc (brk (lmem l))\<rparr>, ll_position := At (brk (lmem l)), ll_size := 2\<rparr>)"
proof -
  note r = ll_repD [OF assms]
  have "cells (lmem l) z = None" if "z \<noteq> r" for z using r(2) that by (auto simp: dom_def)
  moreover obtain n where "cells (lmem l) r = Some n" using r(2) by auto
  ultimately show ?thesis using r(3) [of r] r(8) by (intro second_node_exec) auto
qed

lemma Insert_gives:
  assumes "cursor l xs i" "length xs < 4294967295"
  shows "gives (CLL_Insert x l) (take i xs @ x # drop i xs) (if i = 0 then 0 else Suc i)"
proof (cases "xs = []")
  case True
  then have "CLL_Insert x l = first_node x l" "i = 0" using cursorD(1,3) [OF assms(1)] by (simp_all add: CLL_Insert_def)
  then show ?thesis using first_node_gives [of l x, OF cursor_empty_cells [OF assms(1) [unfolded True]]] True by simp
next
  case False
  obtain us c vs where s: "ll_rep l (us @ c # vs) i" "i = length us" "xs = map (val l) us @ val l c # map (val l) vs"
    using cursor_split [OF assms(1) False] .
  note r = ll_repD [OF s(1)]
  let ?d = "brk (lmem l)" and ?p = "last ((c # vs) @ us)"
  have len: "length (us @ c # vs) < 4294967295" using assms(2) s(3) by simp
  have res: "take i xs @ x # drop i xs = map (val l) us @ x # map (val l) (c # vs)" using s(2,3) by simp
  have m: "lmem (l\<lparr>lmem := (lmem l)\<lparr>cells := link_in (cells (lmem l)) ?p ?d c x, brk := Suc ?d\<rparr>, ll_root := a, ll_position := b,
      ll_size := n\<rparr>) = (lmem l)\<lparr>cells := link_in (cells (lmem l)) ?p ?d (hd ((c # vs) @ us)) x, brk := Suc ?d\<rparr>" for a b n
    by simp
  let ?r = "if ll_root l = At c then At ?d else ll_root l" and ?b = "if ll_root l = At c then At ?d else At c"
  let ?l = "l\<lparr>lmem := (lmem l)\<lparr>cells := link_in (cells (lmem l)) ?p ?d c x, brk := Suc ?d\<rparr>, ll_root := ?r, ll_position := ?b,
      ll_size := Suc (length (us @ c # vs))\<rparr>"
  have root: "ll_root l = At c \<longleftrightarrow> us = []" using r(1,8) by (cases us) auto
  have "CLL_Insert x l = Inr ?l"
  proof (cases "us @ vs = []")
    case True
    then show ?thesis using second_node_runs [of l c i x] s(1) r(4) root by (simp add: CLL_Insert_def)
  next
    case F: False
    then obtain k where k: "length us + length vs = Suc k" by (cases "length us + length vs") auto
    have p: "?p \<in> set (us @ vs)" using F by (cases us rule: rev_cases; cases vs rule: rev_cases) auto
    then have ne: "?p \<noteq> c" "?p \<noteq> ?d" "c \<noteq> ?d" using r(1,11) by auto
    have "joined (cells (lmem l)) (?p, c)" using ring_edge [OF r(6)] by simp
    then obtain n k' where nk: "cells (lmem l) ?p = Some n" "next_node n = At c" "cells (lmem l) c = Some k'" "previous k' = At ?p"
      by (rule joinedE)
    have "ll_position l = At c" using r(9) s(2) by simp
    from Insert_exec [OF _ this nk(3,4,1,2) ne, of k x] show ?thesis
      using r(4) k len by simp
  qed
  moreover have "cursor ?l (map (val l) us @ x # map (val l) (c # vs)) (if i = 0 then 0 else Suc i)"
  proof (rule rep_insert [OF s(1) _ len refl m])
    show "ll_root ?l = At ((us @ ?d # c # vs) ! 0)" using root r(8) by (cases us) simp_all
    show "ll_position ?l = At ((us @ ?d # c # vs) ! (if i = 0 then 0 else Suc i))" using root s(2) by (auto simp: nth_append)
    show "(if i = 0 then 0 else Suc i) \<le> length (us @ c # vs)" using s(2) by simp
  qed simp_all
  ultimately show ?thesis unfolding gives_def res by blast
qed

lemma Add_gives:
  assumes "cursor l xs i" "length xs < 4294967295"
  shows "gives (CLL_Add x l) (take (Suc i) xs @ x # drop (Suc i) xs) i"
proof (cases "xs = []")
  case True
  then have "CLL_Add x l = first_node x l" "i = 0" using cursorD(1,3) [OF assms(1)] by (simp_all add: CLL_Add_def)
  then show ?thesis using first_node_gives [of l x, OF cursor_empty_cells [OF assms(1) [unfolded True]]] True by simp
next
  case False
  obtain us c vs where s: "ll_rep l (us @ c # vs) i" "i = length us" "xs = map (val l) us @ val l c # map (val l) vs"
    using cursor_split [OF assms(1) False] .
  have s1: "ll_rep l ((us @ [c]) @ vs) i" using s(1) by simp
  note r = ll_repD [OF s(1)] and r1 = ll_repD [OF s1]
  let ?d = "brk (lmem l)" and ?q = "hd (vs @ us @ [c])"
  have len: "length ((us @ [c]) @ vs) < 4294967295" using assms(2) s(3) by simp
  have res: "take (Suc i) xs @ x # drop (Suc i) xs = map (val l) (us @ [c]) @ x # map (val l) vs" using s(2,3) by simp
  let ?l = "l\<lparr>lmem := (lmem l)\<lparr>cells := link_in (cells (lmem l)) c ?d ?q x, brk := Suc ?d\<rparr>,
      ll_size := Suc (length ((us @ [c]) @ vs))\<rparr>"
  have m: "lmem ?l = (lmem l)\<lparr>cells := link_in (cells (lmem l)) (last (vs @ us @ [c])) ?d (hd (vs @ us @ [c])) x, brk := Suc ?d\<rparr>"
    by simp
  have pos: "ll_position l = At c" using r(9) s(2) by simp
  have root: "ll_root l = At ((us @ c # vs) ! 0)" using r(8) by simp
  have "CLL_Add x l = Inr ?l"
  proof (cases "us @ vs = []")
    case True
    then show ?thesis using second_node_runs [of l c i x] s(1) r(4) root pos by (simp add: CLL_Add_def)
  next
    case F: False
    then obtain k where k: "length us + length vs = Suc k" by (cases "length us + length vs") auto
    have q: "?q \<in> set (us @ vs)" using F by (cases us; cases vs) auto
    then have ne: "c \<noteq> ?q" "c \<noteq> ?d" "?q \<noteq> ?d" using r(1,11) by auto
    have "joined (cells (lmem l)) (c, ?q)" using ring_edge [OF r1(6)] by simp
    then obtain n k' where nk: "cells (lmem l) c = Some n" "next_node n = At ?q" "cells (lmem l) ?q = Some k'" "previous k' = At c"
      by (rule joinedE)
    from Add_exec [OF _ pos nk ne, of k x] show ?thesis
      using r(4) k len by simp
  qed
  moreover have "cursor ?l (map (val l) (us @ [c]) @ x # map (val l) vs) i"
  proof (rule rep_insert [OF s1 _ len refl m])
    show "ll_root ?l = At (((us @ [c]) @ ?d # vs) ! 0)" using root by (cases us) simp_all
    show "ll_position ?l = At (((us @ [c]) @ ?d # vs) ! i)" using pos s(2) by (simp add: nth_append)
    show "i \<le> length ((us @ [c]) @ vs)" using s(2) by simp
  qed simp_all
  ultimately show ?thesis unfolding gives_def res by blast
qed

lemma Del_gives:
  assumes "cursor l xs i"
  shows "gives (CLL_Del l) (take i xs @ drop (Suc i) xs) (if Suc i < length xs then i else 0)"
proof (cases "xs = []")
  case True
  then show ?thesis using assms cursorD(1,3) [OF assms] by (simp add: CLL_Del_def gives_def)
next
  case False
  obtain us c vs where s: "ll_rep l (us @ c # vs) i" "i = length us" "xs = map (val l) us @ val l c # map (val l) vs"
    using cursor_split [OF assms False] .
  note r = ll_repD [OF s(1)]
  have res: "take i xs @ drop (Suc i) xs = map (val l) (us @ vs)" using s(2,3) by simp
  have j: "(if Suc i < length xs then i else 0) = (if vs = [] then 0 else i)" using s(2,3) by simp
  show ?thesis
  proof (cases "us @ vs = []")
    case True
    obtain n where "cells (lmem l) c = Some n" using r(2) by auto
    moreover have "cells (lmem l) z = None" if "z \<noteq> c" for z using r(2) that True by (auto simp: dom_def)
    ultimately have "gives (CLL_Del l) [] 0"
      using r(4,8) True by (auto simp: CLL_Del_def delete_node_def gives_def cursor_Nil ll_rep_def ring_def)
    then show ?thesis unfolding res using True s(2,3) by simp
  next
    case F: False
    let ?p = "last (vs @ us)" and ?q = "hd (vs @ us)"
    have p: "?p \<in> set (us @ vs)" using F by (cases us rule: rev_cases; cases vs rule: rev_cases) auto
    have q: "?q \<in> set (us @ vs)" using F by (cases us; cases vs) auto
    have ne: "?p \<noteq> c" "?q \<noteq> c" using p q r(1) by auto
    have "joined (cells (lmem l)) (?p, c)" using ring_edge [OF r(6)] F by (simp split: if_splits)
    then obtain n k where a: "cells (lmem l) ?p = Some n" "cells (lmem l) c = Some k" "previous k = At ?p" by (rule joinedE)
    have "hd (vs @ us @ [c]) = ?q" using F by (cases vs; cases us) simp_all
    then have "joined (cells (lmem l)) (c, ?q)" using ring_edge [of _ "us @ [c]" vs] r(6) F by simp
    then obtain k' n' where b: "cells (lmem l) c = Some k'" "next_node k' = At ?q" "cells (lmem l) ?q = Some n'" by (rule joinedE)
    obtain sz where sz: "length us + length vs = Suc sz" using F by (cases "length us + length vs") auto
    have pos: "ll_position l = At c" using r(9) s(2) by simp
    have root: "ll_root l = At c \<longleftrightarrow> us = []" using r(1,8) by (cases us) auto
    let ?l = "l\<lparr>lmem := (lmem l)\<lparr>cells := link_out (cells (lmem l)) ?p c ?q\<rparr>,
      ll_root := if ll_root l = At c then At ?q else ll_root l, ll_position := At ?q, ll_size := length (us @ vs)\<rparr>"
    have "CLL_Del l = Inr ?l"
      using Del_exec [OF _ pos a(2,3) _ a(1) b(3) ne, of sz] a(2) b(1,2) r(4,5) sz by (simp add: dec32_pos)
    moreover have "cursor ?l (map (val l) (us @ vs)) (if vs = [] then 0 else i)"
    proof (rule rep_delete [OF s(1) F])
      show "ll_root ?l = At ((us @ vs) ! 0)" using root r(8) F by (cases us; cases vs) simp_all
      show "ll_position ?l = At ((us @ vs) ! (if vs = [] then 0 else i))" using s(2) F
        by (cases vs; cases us) (simp_all add: nth_append)
      show "(if vs = [] then 0 else i) < length (us @ vs)" using s(2) F by auto
    qed simp_all
    ultimately show ?thesis unfolding gives_def res j by blast
  qed
qed

section \<open>Moving, reading and searching\<close>

lemma rep_cell:
  assumes "ll_rep l as i" "a \<in> set as"
  obtains n where "cells (lmem l) a = Some n" "item n = val l a"
proof -
  have "a \<in> dom (cells (lmem l))" unfolding ll_repD(2) [OF assms(1)] by (rule assms(2))
  then obtain n where n: "cells (lmem l) a = Some n" by blast
  have "item n = val l a" by (simp add: val_def n)
  with n show thesis by (rule that)
qed

lemma rep_item:
  assumes "ll_rep l as i" "k < length as"
  shows "get item (At (as ! k)) l = Inr (val l (as ! k))"
proof -
  obtain n where "cells (lmem l) (as ! k) = Some n" "item n = val l (as ! k)" using rep_cell [OF assms(1) nth_mem [OF assms(2)]] .
  then show ?thesis by (simp add: get_def)
qed

lemma rep_next:
  assumes "ll_rep l as i" "k < length as"
  shows "get next_node (At (as ! k)) l = Inr (At (if Suc k < length as then as ! Suc k else as ! 0))"
proof -
  let ?us = "take (Suc k) as" and ?vs = "drop (Suc k) as"
  have "joined (cells (lmem l)) (last (?vs @ ?us), hd (?vs @ ?us))"
    by (rule ring_edge) (use ll_repD(6) [OF assms(1)] assms(2) in auto)
  moreover have "last (?vs @ ?us) = as ! k" using assms(2) by (simp add: take_Suc_conv_app_nth)
  moreover have "hd (?vs @ ?us) = (if Suc k < length as then as ! Suc k else as ! 0)"
    using assms(2) by (cases as) (auto simp: hd_append hd_drop_conv_nth)
  ultimately show ?thesis by (auto simp: get_def elim: joinedE)
qed

lemma rep_prev:
  assumes "ll_rep l as i" "k < length as"
  shows "get previous (At (as ! k)) l = Inr (At (if k = 0 then as ! (length as - 1) else as ! (k - 1)))"
proof -
  let ?us = "take k as" and ?vs = "drop k as"
  have ne: "?vs \<noteq> []" "as \<noteq> []" using assms(2) by auto
  have "joined (cells (lmem l)) (last (?vs @ ?us), hd (?vs @ ?us))"
    by (rule ring_edge) (use ll_repD(6) [OF assms(1)] ne in auto)
  moreover have "hd (?vs @ ?us) = as ! k" using assms(2) by (simp add: hd_drop_conv_nth)
  moreover have "last (?vs @ ?us) = (if k = 0 then as ! (length as - 1) else as ! (k - 1))"
  proof (cases k)
    case 0
    then show ?thesis using ne by (simp add: last_conv_nth)
  next
    case (Suc j)
    then show ?thesis using assms(2) by (simp add: take_Suc_conv_app_nth)
  qed
  ultimately show ?thesis by (auto simp: get_def elim: joinedE)
qed

lemma cursor_move:
  assumes "ll_rep l as i" "j < length as"
  shows "cursor (l\<lparr>ll_position := At (as ! j)\<rparr>) (map (val l) as) j"
proof -
  have "ll_rep (l\<lparr>ll_position := At (as ! j)\<rparr>) as j" using assms by (auto simp: ll_rep_def)
  moreover have "val (l\<lparr>ll_position := At (as ! j)\<rparr>) = val l" by (simp add: val_def fun_eq_iff)
  ultimately show ?thesis unfolding cursor_def by auto
qed

lemma cursor_rep:
  assumes "cursor l xs i" "xs \<noteq> []"
  obtains as where "ll_rep l as i" "xs = map (val l) as" "as \<noteq> []" "i < length as" "ll_position l = At (as ! i)" "ll_root l = At (as ! 0)"
    "0 < length as"
proof -
  obtain as where as: "ll_rep l as i" "xs = map (val l) as" using assms(1) by (auto simp: cursor_def)
  then have "as \<noteq> []" using assms(2) by simp
  with as ll_repD(7,8,9) [OF as(1)] show thesis by (intro that [of as]) simp_all
qed

lemma Peek_runs:
  assumes "cursor l xs i" "xs \<noteq> []"
  shows "CLL_Peek l = Inr (xs ! i)"
proof (rule cursor_rep [OF assms])
  fix as assume "ll_rep l as i" "xs = map (val l) as" "i < length as" "ll_position l = At (as ! i)"
  then show ?thesis by (simp add: CLL_Peek_def rep_item)
qed

lemma root_item:
  assumes "cursor l xs i" "xs \<noteq> []"
  shows "get item (ll_root l) l = Inr (xs ! 0)"
proof (rule cursor_rep [OF assms])
  fix as assume "ll_rep l as i" "xs = map (val l) as" "0 < length as" "ll_root l = At (as ! 0)"
  then show ?thesis by (simp add: rep_item)
qed

lemma Peek_empty: "cursor l [] i \<Longrightarrow> CLL_Peek l = Inl NullDeref"
  using ll_repD(10) [of l "[]" i] by (simp add: cursor_Nil CLL_Peek_def get_def fetch_def)

lemma move_gives:
  assumes "cursor l xs i"
  shows "gives (CLL_next l) xs (if Suc i < length xs then Suc i else 0)"
    "gives (CLL_prev l) xs (if i = 0 then length xs - 1 else i - 1)"
    "gives (LL_next l) xs (if Suc i < length xs then Suc i else i)"
    "gives (LL_prev l) xs (i - 1)"
    "cursor (CLL_Beginning l) xs 0" "gives (CLL_End l) xs (length xs - 1)"
proof -
  have "gives (CLL_next l) xs (if Suc i < length xs then Suc i else 0)
      \<and> gives (CLL_prev l) xs (if i = 0 then length xs - 1 else i - 1)
      \<and> gives (LL_next l) xs (if Suc i < length xs then Suc i else i)
      \<and> gives (LL_prev l) xs (i - 1)
      \<and> cursor (CLL_Beginning l) xs 0 \<and> gives (CLL_End l) xs (length xs - 1)"
  proof (cases "xs = []")
    case True
    then show ?thesis
      using assms ll_repD(4,10) [of l "[]" i]
      by (simp add: CLL_next_def CLL_prev_def LL_next_def LL_prev_def CLL_Beginning_def CLL_End_def gives_def cursor_Nil)
  next
    case False
    obtain as where as: "ll_rep l as i" "xs = map (val l) as" "as \<noteq> []" "i < length as" "ll_position l = At (as ! i)"
        "ll_root l = At (as ! 0)" "0 < length as"
      using cursor_rep [OF assms False] .
    have sz: "ll_size l \<noteq> 0" using ll_repD(4) [OF as(1)] as(3) by simp
    have one: "as ! j = as ! 0 \<longleftrightarrow> j = 0" if "j < length as" for j
      using ll_repD(1) [OF as(1)] that as(7) by (simp add: nth_eq_iff_index_eq)
    note c = cursor_move [OF as(1), folded as(2)]
    have "gives (CLL_next l) xs (if Suc i < length xs then Suc i else 0)"
      using sz as rep_next [OF as(1,4)] c [of "Suc i"] c [of 0] by (simp add: CLL_next_def gives_def)
    moreover have "gives (CLL_prev l) xs (if i = 0 then length xs - 1 else i - 1)"
      using sz as rep_prev [OF as(1,4)] c [of "i - 1"] c [of "length as - 1"] by (simp add: CLL_prev_def gives_def)
    moreover have "gives (LL_next l) xs (if Suc i < length xs then Suc i else i)"
      using sz as rep_next [OF as(1,4)] c [of "Suc i"] assms one [of "Suc i"] by (simp add: LL_next_def gives_def)
    moreover have "gives (LL_prev l) xs (i - 1)"
      using sz as rep_prev [OF as(1,4)] c [of "i - 1"] assms one [of i] by (cases i) (simp_all add: LL_prev_def gives_def)
    moreover have "cursor (CLL_Beginning l) xs 0" using as c [of 0] by (simp add: CLL_Beginning_def)
    moreover have "gives (CLL_End l) xs (length xs - 1)"
      using as rep_prev [OF as(1,7)] c [of "length as - 1"] by (simp add: CLL_End_def gives_def)
    ultimately show ?thesis by blast
  qed
  then show "gives (CLL_next l) xs (if Suc i < length xs then Suc i else 0)"
    "gives (CLL_prev l) xs (if i = 0 then length xs - 1 else i - 1)"
    "gives (LL_next l) xs (if Suc i < length xs then Suc i else i)"
    "gives (LL_prev l) xs (i - 1)"
    "cursor (CLL_Beginning l) xs 0" "gives (CLL_End l) xs (length xs - 1)"
    by blast+
qed

lemma ring_cong:
  assumes "\<And>z. map_option next_node (m' z) = map_option next_node (m z)" "\<And>z. map_option previous (m' z) = map_option previous (m z)"
  shows "ring m' as = ring m as"
  by (simp only: ring_def joined_def assms)

lemma Replace_gives:
  assumes "cursor l xs i"
  shows "gives (CLL_Replace x l) (xs[i := x]) i"
proof (cases "xs = []")
  case True
  then show ?thesis using assms cursorD(1) [OF assms] by (simp add: CLL_Replace_def gives_def)
next
  case False
  obtain as where as: "ll_rep l as i" "xs = map (val l) as" "as \<noteq> []" "i < length as" "ll_position l = At (as ! i)"
      "ll_root l = At (as ! 0)" "0 < length as"
    using cursor_rep [OF assms False] .
  note r = ll_repD [OF as(1)]
  obtain n where n: "cells (lmem l) (as ! i) = Some n" using rep_cell [OF as(1) nth_mem [OF as(4)]] .
  let ?m = "(cells (lmem l))(as ! i := Some (n\<lparr>item := x\<rparr>))"
  let ?l = "l\<lparr>lmem := (lmem l)\<lparr>cells := ?m\<rparr>\<rparr>"
  have "ring ?m as = ring (cells (lmem l)) as" by (rule ring_cong) (use n in simp_all)
  moreover have "dom ?m = set as" using r(2) nth_mem [OF as(4)] by auto
  ultimately have "ll_rep ?l as i" using as(1) by (simp add: ll_rep_def)
  moreover have "map (val ?l) as = (map (val l) as)[i := x]"
  proof (rule nth_equalityI)
    fix k assume "k < length (map (val ?l) as)"
    then show "map (val ?l) as ! k = (map (val l) as)[i := x] ! k"
      using r(1) as(4) by (auto simp: val_def nth_list_update nth_eq_iff_index_eq)
  qed simp
  ultimately have "cursor ?l (xs[i := x]) i" unfolding cursor_def as(2) by metis
  then show ?thesis using as r(4) n by (simp add: CLL_Replace_def put_def gives_def)
qed

text \<open>The index of the first occurrence.\<close>

definition first_at :: "'a \<Rightarrow> 'a list \<Rightarrow> nat" where
  "first_at x xs = length (takeWhile (\<lambda>y. y \<noteq> x) xs)"

lemma find_from_runs:
  assumes "ll_rep l as i" "k < length as"
  shows "find_from x (At (as ! k)) l = Some (Inr (if x \<in> set (drop k (map (val l) as))
    then At (as ! (k + first_at x (drop k (map (val l) as)))) else NIL))"
  using assms(2)
proof (induction "length as - k" arbitrary: k)
  case (Suc d)
  have dr: "drop k (map (val l) as) = val l (as ! k) # drop (Suc k) (map (val l) as)"
    using Suc.prems Cons_nth_drop_Suc [of k "map (val l) as"] by simp
  note run = find_from.simps [of x "At (as ! k)" l] rep_item [OF assms(1) Suc.prems] rep_next [OF assms(1) Suc.prems]
  show ?case
  proof (cases "val l (as ! k) = x")
    case True
    then show ?thesis using run unfolding dr by (simp add: first_at_def)
  next
    case False
    have "as \<noteq> []" using Suc.prems by auto
    then have root: "ll_root l = At (as ! 0)" by (rule ll_repD(8) [OF assms(1)])
    show ?thesis
    proof (cases "Suc k < length as")
      case True
      then have "as ! Suc k \<noteq> as ! 0"
        using nth_eq_iff_index_eq [OF ll_repD(1) [OF assms(1)] True, of 0] \<open>as \<noteq> []\<close> by simp
      then show ?thesis
        using run False root Suc.hyps(1) [of "Suc k"] Suc.hyps(2) True unfolding dr by (simp add: first_at_def)
    next
      case stop: False
      then show ?thesis using run False root unfolding dr by simp
    qed
  qed
qed simp

lemma first_at_less: "x \<in> set xs \<Longrightarrow> first_at x xs < length xs"
  by (induction xs) (auto simp: first_at_def)

lemma Find_runs:
  assumes "cursor l xs i"
  shows "\<exists>l'. CLL_Find x l = Some (Inr (x \<in> set xs, l')) \<and> cursor l' xs (if x \<in> set xs then first_at x xs else i)"
    and "CLL_IsIn x l = Some (Inr (x \<in> set xs))"
proof -
  have "(\<exists>l'. CLL_Find x l = Some (Inr (x \<in> set xs, l')) \<and> cursor l' xs (if x \<in> set xs then first_at x xs else i))
    \<and> CLL_IsIn x l = Some (Inr (x \<in> set xs))"
  proof (cases "xs = []")
    case True
    then show ?thesis using assms cursorD(1) [OF assms] by (simp add: CLL_Find_def CLL_IsIn_def CLL_FindPointer_def)
  next
    case False
    obtain as where as: "ll_rep l as i" "xs = map (val l) as" "as \<noteq> []" "i < length as" "ll_position l = At (as ! i)"
        "ll_root l = At (as ! 0)" "0 < length as"
      using cursor_rep [OF assms False] .
    have f: "CLL_FindPointer x l = Some (Inr (if x \<in> set xs then At (as ! first_at x xs) else NIL))"
      using find_from_runs [OF as(1,7), of x] as ll_repD(4) [OF as(1)] by (simp add: CLL_FindPointer_def)
    show ?thesis
    proof (cases "x \<in> set xs")
      case True
      then show ?thesis using f cursor_move [OF as(1), of "first_at x xs"] first_at_less [OF True] as(2)
        by (simp add: CLL_Find_def CLL_IsIn_def)
    next
      case False
      then show ?thesis using f assms by (simp add: CLL_Find_def CLL_IsIn_def)
    qed
  qed
  then show "\<exists>l'. CLL_Find x l = Some (Inr (x \<in> set xs, l')) \<and> cursor l' xs (if x \<in> set xs then first_at x xs else i)"
    and "CLL_IsIn x l = Some (Inr (x \<in> set xs))" by blast+
qed

section \<open>Clearing and copying\<close>

definition returns :: "'a linked run \<Rightarrow> 'a list \<Rightarrow> nat \<Rightarrow> bool" where
  "returns r xs i \<longleftrightarrow> (\<exists>l. r = Some (Inr l) \<and> cursor l xs i)"

lemma returns_gives: "returns (Some r) xs i = gives r xs i"
  by (simp add: returns_def gives_def)

lemma root_once:
  assumes "ll_rep l as i" "Suc k < length as"
  shows "At (as ! Suc k) \<noteq> ll_root l"
proof -
  have "as \<noteq> []" using assms(2) by auto
  then show ?thesis
    using nth_eq_iff_index_eq [OF ll_repD(1) [OF assms(1)] assms(2), of 0] ll_repD(8) [OF assms(1)] by simp
qed

lemma clear_loop_runs:
  assumes "ll_rep l0 as i" "k < length as" "ll_root l = ll_root l0"
    and "cells (lmem l) = (\<lambda>z. if z \<in> set (drop k as) then cells (lmem l0) z else None)"
  shows "\<exists>l'. clear_loop (At (as ! k)) l = Some (Inr l') \<and> (\<forall>z. cells (lmem l') z = None)"
  using assms(2-4)
proof (induction "length as - k" arbitrary: k l)
  case (Suc d)
  have dr: "drop k as = as ! k # drop (Suc k) as" using Suc.prems(1) by (simp add: Cons_nth_drop_Suc)
  obtain n where n: "cells (lmem l0) (as ! k) = Some n" using rep_cell [OF assms(1) nth_mem [OF Suc.prems(1)]] .
  have c: "cells (lmem l) (as ! k) = Some n" using Suc.prems(3) n unfolding dr by simp
  have nx: "get next_node (At (as ! k)) l = Inr (At (if Suc k < length as then as ! Suc k else as ! 0))"
    using rep_next [OF assms(1) Suc.prems(1)] n c by (simp add: get_def)
  let ?l = "l\<lparr>lmem := (lmem l)\<lparr>cells := (cells (lmem l))(as ! k := None)\<rparr>\<rparr>"
  have del: "delete_node (At (as ! k)) l = Inr ?l" using c by (simp add: delete_node_def)
  have "as ! k \<notin> set (drop (Suc k) as)" using ll_repD(1) [OF assms(1)] dr by (metis distinct.simps(2) distinct_drop)
  then have cl: "cells (lmem ?l) = (\<lambda>z. if z \<in> set (drop (Suc k) as) then cells (lmem l0) z else None)"
    using Suc.prems(3) unfolding dr by (auto simp: fun_eq_iff)
  show ?case
  proof (cases "Suc k < length as")
    case True
    have d: "d = length as - Suc k" using Suc.hyps(2) by simp
    have "ll_root ?l = ll_root l0" using Suc.prems(2) by simp
    from Suc.hyps(1) [OF d True this cl]
    obtain l' where l': "clear_loop (At (as ! Suc k)) ?l = Some (Inr l')" "\<forall>z. cells (lmem l') z = None" by blast
    moreover have "clear_loop (At (as ! k)) l = clear_loop (At (as ! Suc k)) ?l"
      using clear_loop.simps [of "At (as ! k)" l] nx del root_once [OF assms(1) True] Suc.prems(2) True by simp
    ultimately show ?thesis by simp
  next
    case False
    have "as \<noteq> []" using Suc.prems(1) by auto
    then have "ll_root l = At (as ! 0)" using ll_repD(8) [OF assms(1)] Suc.prems(2) by simp
    then have "clear_loop (At (as ! k)) l = Some (Inr ?l)"
      using clear_loop.simps [of "At (as ! k)" l] nx del False by simp
    then show ?thesis using cl False by simp
  qed
qed simp

lemma Clear_returns:
  assumes "cursor l xs i"
  shows "returns (CLL_Clear l) [] 0"
proof (cases "xs = []")
  case True
  then show ?thesis using assms cursorD(1,3) [OF assms] by (simp add: CLL_Clear_def returns_def)
next
  case False
  obtain as where as: "ll_rep l as i" "xs = map (val l) as" "as \<noteq> []" "i < length as" "ll_position l = At (as ! i)"
      "ll_root l = At (as ! 0)" "0 < length as"
    using cursor_rep [OF assms False] .
  note r = ll_repD [OF as(1)]
  have e: "cursor (l'\<lparr>ll_size := 0, ll_root := NIL, ll_position := NIL\<rparr>) [] 0" if "\<forall>z. cells (lmem l') z = None"
    for l' :: "'a linked"
    using that by (auto simp: cursor_Nil ll_rep_def ring_def)
  show ?thesis
  proof (cases "ll_size l = 1")
    case True
    then obtain a where a: "as = [a]" using r(4) by (cases as) auto
    obtain n where n: "cells (lmem l) a = Some n" using rep_cell [OF as(1), of a] a by auto
    have "cells (lmem l) z = None" if "z \<noteq> a" for z using r(2) that a by (auto simp: dom_def)
    then show ?thesis
      using True as(6) a n e [of "l\<lparr>lmem := (lmem l)\<lparr>cells := (cells (lmem l))(a := None)\<rparr>\<rparr>"]
      by (simp add: CLL_Clear_def delete_node_def returns_def)
  next
    case many: False
    have "cells (lmem l) z = None" if "z \<notin> set as" for z using r(2) that by blast
    then have "cells (lmem l) = (\<lambda>z. if z \<in> set (drop 0 as) then cells (lmem l) z else None)" by (auto simp: fun_eq_iff)
    then obtain l' where "clear_loop (At (as ! 0)) l = Some (Inr l')" "\<forall>z. cells (lmem l') z = None"
      using clear_loop_runs [OF as(1,7) refl] by blast
    then show ?thesis using many r(4) as(3,6) e [of l'] by (simp add: CLL_Clear_def returns_def)
  qed
qed

text \<open>A chain under construction: the addresses \<open>bs\<close> of its nodes, which hold \<open>ys\<close>, joined up to the last.\<close>

definition chain :: "'a linked \<Rightarrow> nat list \<Rightarrow> 'a list \<Rightarrow> bool" where
  "chain l bs ys \<longleftrightarrow> bs \<noteq> [] \<and> distinct bs \<and> dom (cells (lmem l)) = set bs \<and> (\<forall>b \<in> set bs. b < brk (lmem l))
     \<and> (\<forall>e \<in> set (steps (butlast bs) (last bs)). joined (cells (lmem l)) e)
     \<and> ll_root l = At (hd bs) \<and> ll_position l = At (last bs) \<and> map (val l) bs = ys"

lemma set_tl: "z \<in> set (tl xs) \<Longrightarrow> z \<in> set xs"
  by (cases xs) auto

lemma butlast_steps: "bs \<noteq> [] \<Longrightarrow> steps bs b = steps (butlast bs) (last bs) @ [(last bs, b)]"
  using steps_append [of "butlast bs" "[last bs]" b] by simp

lemma chain_grows:
  assumes "chain l bs ys" "new_node x l = (b, l1)"
  shows "\<exists>l2 l3. set_previous b (ll_position l) l1 = Inr l2 \<and> set_next (ll_position l) b l2 = Inr l3
    \<and> b = At (brk (lmem l)) \<and> chain (l3\<lparr>ll_position := b\<rparr>) (bs @ [brk (lmem l)]) (ys @ [x])"
proof -
  let ?d = "brk (lmem l)" and ?p = "last bs" and ?m = "cells (lmem l)"
  have c: "bs \<noteq> []" "distinct bs" "dom ?m = set bs" "\<forall>b \<in> set bs. b < ?d"
    "\<forall>e \<in> set (steps (butlast bs) ?p). joined ?m e" "ll_root l = At (hd bs)" "ll_position l = At ?p" "map (val l) bs = ys"
    using assms(1) unfolding chain_def by blast+
  have d: "?d \<notin> set bs" using c(4) by blast
  have p: "?p \<in> set bs" using c(1) by simp
  then have pd: "?p \<noteq> ?d" using d by metis
  obtain n where n: "?m ?p = Some n" using p c(3) by blast
  have b: "b = At ?d" "l1 = l\<lparr>lmem := (lmem l)\<lparr>cells := ?m(?d := Some \<lparr>item = x, previous = WILD, next_node = WILD\<rparr>), brk := Suc ?d\<rparr>\<rparr>"
    using assms(2) by (auto simp: new_node_def OP_NEW_def)
  define m where "m = ?m(?d := Some \<lparr>item = x, previous = At ?p, next_node = WILD\<rparr>, ?p := Some (n\<lparr>next_node := At ?d\<rparr>))"
  let ?l3 = "l\<lparr>lmem := (lmem l)\<lparr>cells := m, brk := Suc ?d\<rparr>\<rparr>"
  have run: "set_previous b (ll_position l) l1 = Inr (l\<lparr>lmem := (lmem l)\<lparr>cells := ?m(?d := Some \<lparr>item = x, previous = At ?p,
        next_node = WILD\<rparr>), brk := Suc ?d\<rparr>\<rparr>)"
    using b c(7) by (simp add: set_previous_def put_def)
  have run2: "set_next (ll_position l) b (l\<lparr>lmem := (lmem l)\<lparr>cells := ?m(?d := Some \<lparr>item = x, previous = At ?p,
        next_node = WILD\<rparr>), brk := Suc ?d\<rparr>\<rparr>) = Inr ?l3"
    using b c(7) n pd by (simp add: set_next_def put_def m_def)
  have old: "joined m (y, z)" if yz: "(y, z) \<in> set (steps (butlast bs) ?p)" for y z
  proof -
    have "y \<in> set (butlast bs)" "z \<in> set bs" using steps_in [OF yz] p
      by (auto dest: in_set_butlastD set_tl)
    moreover have "?p \<notin> set (butlast bs)" using c(1,2) by (metis append_butlast_last_id distinct_butlast not_distinct_conv_prefix
      distinct_append disjoint_insert(1) list.set(2) distinct.simps(2) append.right_neutral snoc_eq_iff_butlast)
    ultimately have "y \<noteq> ?p" "y \<noteq> ?d" "z \<noteq> ?d" using d by (auto dest: in_set_butlastD)
    moreover have "joined ?m (y, z)" using c(5) yz by blast
    ultimately show ?thesis using n by (auto simp: joined_def m_def)
  qed
  have "joined m (?p, ?d)" using pd by (simp add: joined_def m_def)
  then have "\<forall>e \<in> set (steps bs ?d). joined m e" using old unfolding butlast_steps [OF c(1)] by auto
  moreover have "dom m = set (bs @ [?d])" using c(3) p by (auto simp: m_def)
  moreover have "map (val (?l3\<lparr>ll_position := b\<rparr>)) (bs @ [?d]) = ys @ [x]"
  proof -
    have "val (?l3\<lparr>ll_position := b\<rparr>) a = val l a" if "a \<in> set bs" for a
      using that d n by (auto simp: val_def m_def)
    then have "map (val (?l3\<lparr>ll_position := b\<rparr>)) bs = ys" using c(8) by auto
    moreover have "val (?l3\<lparr>ll_position := b\<rparr>) ?d = x" using pd by (simp add: val_def m_def)
    ultimately show ?thesis by simp
  qed
  ultimately have "chain (?l3\<lparr>ll_position := b\<rparr>) (bs @ [?d]) (ys @ [x])"
    unfolding chain_def using c(1,2,4,6) d b(1) by (auto simp: less_Suc_eq)
  then show ?thesis using run run2 b(1) by blast
qed

lemma fst_new_node [simp]: "fst (new_node x l) = At (brk (lmem l))"
  by (simp add: new_node_def OP_NEW_def)

lemma copy_loop_runs:
  assumes "ll_rep orig as i" "Suc k < length as" "chain l bs (take (Suc k) (map (val orig) as))" "length bs = Suc k"
    and "save = (if i \<le> k then At (bs ! i) else WILD)"
  shows "\<exists>l' bs'. copy_loop orig (At (as ! k)) save l = Some (Inr (At (bs' ! i), l')) \<and> chain l' bs' (map (val orig) as)"
  using assms(2-)
proof (induction "length as - Suc k" arbitrary: k l bs save)
  case (Suc d)
  let ?xs = "map (val orig) as" and ?b = "brk (lmem l)"
  have k: "k < length as" using Suc.prems(1) by simp
  have next1: "get next_node (At (as ! k)) orig = Inr (At (as ! Suc k))"
    using rep_next [OF assms(1) k] Suc.prems(1) by simp
  have it: "get item (At (as ! Suc k)) orig = Inr (?xs ! Suc k)" using rep_item [OF assms(1) Suc.prems(1)] Suc.prems(1) by simp
  have nn: "new_node (?xs ! Suc k) l = (At ?b, snd (new_node (?xs ! Suc k) l))"
    by (simp add: new_node_def OP_NEW_def)
  obtain l2 l3 where g: "set_previous (At ?b) (ll_position l) (snd (new_node (?xs ! Suc k) l)) = Inr l2"
      "set_next (ll_position l) (At ?b) l2 = Inr l3"
      "chain (l3\<lparr>ll_position := At ?b\<rparr>) (bs @ [?b]) (take (Suc k) ?xs @ [?xs ! Suc k])"
    using chain_grows [OF Suc.prems(2) nn] by blast
  have ys: "take (Suc k) ?xs @ [?xs ! Suc k] = take (Suc (Suc k)) ?xs"
    using Suc.prems(1) by (simp add: take_Suc_conv_app_nth)
  have ne: "as \<noteq> []" using k by auto
  have i: "i < length as" by (rule ll_repD(7) [OF assms(1) ne])
  have pos: "ll_position orig = At (as ! i)" by (rule ll_repD(9) [OF assms(1) ne])
  let ?save = "if At (as ! Suc k) = ll_position orig then At ?b else save"
  have save: "?save = (if i \<le> Suc k then At ((bs @ [?b]) ! i) else WILD)"
    using pos Suc.prems(1,3,4) nth_eq_iff_index_eq [OF ll_repD(1) [OF assms(1)] Suc.prems(1) i] by (auto simp: nth_append le_Suc_eq)
  have n2: "get next_node (At (as ! Suc k)) orig = Inr (At (if Suc (Suc k) < length as then as ! Suc (Suc k) else as ! 0))"
    using rep_next [OF assms(1) Suc.prems(1)] .
  have run: "copy_loop orig (At (as ! k)) save l = (if Suc (Suc k) < length as then
      copy_loop orig (At (as ! Suc k)) ?save (l3\<lparr>ll_position := At ?b\<rparr>) else Some (Inr (?save, l3\<lparr>ll_position := At ?b\<rparr>)))"
  proof (cases "Suc (Suc k) < length as")
    case True
    then show ?thesis
      using copy_loop.simps [of orig "At (as ! k)" save l] next1 it n2 root_once [OF assms(1) True] g(1,2) nn by simp
  next
    case False
    have "ll_root orig = At (as ! 0)" by (rule ll_repD(8) [OF assms(1) ne])
    then show ?thesis
      using copy_loop.simps [of orig "At (as ! k)" save l] next1 it n2 g(1,2) nn False by simp
  qed
  show ?case
  proof (cases "Suc (Suc k) < length as")
    case True
    have d: "d = length as - Suc (Suc k)" using Suc.hyps(2) by simp
    have l: "length (bs @ [?b]) = Suc (Suc k)" using Suc.prems(3) by simp
    show ?thesis using Suc.hyps(1) [OF d True g(3) [unfolded ys] l save] run True by simp
  next
    case False
    then have "take (Suc (Suc k)) ?xs = ?xs" by simp
    then have "chain (l3\<lparr>ll_position := At ?b\<rparr>) (bs @ [?b]) ?xs" using g(3) ys by simp
    moreover have "?save = At ((bs @ [?b]) ! i)" using save i False by simp
    ultimately show ?thesis using run False by auto
  qed
qed simp

text \<open>Closing the chain makes it a ring.\<close>

lemma chain_closes:
  assumes "chain l bs ys" "2 \<le> length bs" "length bs < 4294967296" "i < length bs"
  shows "\<exists>l1 l2. set_next (ll_position l) (ll_root l) l = Inr l1 \<and> set_previous (ll_root l1) (ll_position l1) l1 = Inr l2
    \<and> cursor (l2\<lparr>ll_size := length bs, ll_position := At (bs ! i)\<rparr>) ys i"
proof -
  let ?h = "hd bs" and ?p = "last bs" and ?m = "cells (lmem l)"
  have c: "bs \<noteq> []" "distinct bs" "dom ?m = set bs" "\<forall>b \<in> set bs. b < brk (lmem l)"
    "\<forall>e \<in> set (steps (butlast bs) ?p). joined ?m e" "ll_root l = At ?h" "ll_position l = At ?p" "map (val l) bs = ys"
    using assms(1) unfolding chain_def by blast+
  obtain h ms p where bs: "bs = h # ms @ [p]"
  proof -
    obtain h ts where "bs = h # ts" using c(1) by (cases bs) auto
    moreover from this obtain ms p where "ts = ms @ [p]" using assms(2) by (cases ts rule: rev_cases) auto
    ultimately show thesis using that by blast
  qed
  have hp: "h \<noteq> p" "?h = h" "?p = p" using c(2) by (simp_all add: bs)
  have bl: "butlast bs = h # ms" "last bs = p" by (simp_all add: bs butlast_append)
  have "h \<in> dom ?m" "p \<in> dom ?m" unfolding c(3) by (simp_all add: bs)
  then obtain nh np where n: "?m h = Some nh" "?m p = Some np" by blast
  define m where "m = ?m(p := Some (np\<lparr>next_node := At h\<rparr>), h := Some (nh\<lparr>previous := At p\<rparr>))"
  let ?l2 = "l\<lparr>lmem := (lmem l)\<lparr>cells := m\<rparr>\<rparr>"
  have run: "set_next (ll_position l) (ll_root l) l = Inr (l\<lparr>lmem := (lmem l)\<lparr>cells := ?m(p := Some (np\<lparr>next_node := At h\<rparr>))\<rparr>\<rparr>)"
    "set_previous (ll_root l) (ll_position l) (l\<lparr>lmem := (lmem l)\<lparr>cells := ?m(p := Some (np\<lparr>next_node := At h\<rparr>))\<rparr>\<rparr>) = Inr ?l2"
    using c(6,7) hp n by (simp_all add: set_next_def set_previous_def put_def m_def)
  have old: "joined m (y, z)" if yz: "(y, z) \<in> set (steps (h # ms) p)" for y z
  proof -
    have "y \<in> set (h # ms)" "z \<in> set (ms @ [p])" using steps_in [OF yz] by auto
    then have "y \<noteq> p" "z \<noteq> h" using c(2) by (auto simp: bs)
    moreover have "joined ?m (y, z)" using c(5) yz unfolding bl by blast
    ultimately show ?thesis using n by (auto simp: joined_def m_def)
  qed
  have "joined m (p, h)" using hp by (simp add: joined_def m_def)
  then have "ring m bs" using old steps_append [of "h # ms" "[p]" h] by (auto simp: ring_def bs)
  moreover have "dom m = set bs" using c(3) by (auto simp: m_def bs)
  ultimately have "ll_rep (?l2\<lparr>ll_size := length bs, ll_position := At (bs ! i)\<rparr>) bs i"
    using c(1,2,4,6) assms(3,4) by (simp add: ll_rep_def hd_conv_nth)
  moreover have "map (val (?l2\<lparr>ll_size := length bs, ll_position := At (bs ! i)\<rparr>)) bs = ys"
    using c(8) n by (auto simp: val_def m_def)
  ultimately have "cursor (?l2\<lparr>ll_size := length bs, ll_position := At (bs ! i)\<rparr>) ys i" unfolding cursor_def by blast
  then show ?thesis using run by auto
qed

lemma copy_returns:
  assumes "cursor orig xs i" "\<And>z. cells (lmem l) z = None"
  shows "returns (copy_nodes orig l) xs i"
proof (cases "xs = []")
  case True
  have "cursor (l\<lparr>ll_root := NIL, ll_position := NIL, ll_size := 0\<rparr>) [] 0"
    using assms(2) by (auto simp: cursor_Nil ll_rep_def ring_def)
  then show ?thesis using True cursorD(1,3) [OF assms(1)] by (simp add: copy_nodes_def returns_def)
next
  case False
  obtain as where as: "ll_rep orig as i" "xs = map (val orig) as" "as \<noteq> []" "i < length as" "ll_position orig = At (as ! i)"
      "ll_root orig = At (as ! 0)" "0 < length as"
    using cursor_rep [OF assms(1) False] .
  have sz: "ll_size orig = length xs" using cursorD(1) [OF assms(1)] .
  note it = root_item [OF assms(1) False]
  show ?thesis
  proof (cases "length xs = 1")
    case True
    then have "i = 0" "[xs ! 0] = xs" using cursorD(2) [OF assms(1) False] by (auto simp: length_Suc_conv)
    then show ?thesis
      using first_node_gives [OF assms(2), of "xs ! 0"] True sz it
      by (simp add: copy_nodes_def returns_gives)
  next
    case many: False
    let ?d = "brk (lmem l)"
    let ?l1 = "l\<lparr>lmem := (lmem l)\<lparr>cells := (cells (lmem l))(?d := Some \<lparr>item = xs ! 0, previous = WILD, next_node = WILD\<rparr>), brk := Suc ?d\<rparr>,
      ll_root := At ?d, ll_position := At ?d\<rparr>"
    have two: "Suc 0 < length as" using many False as(2) by (cases as; cases "tl as") auto
    have "dom (cells (lmem l)) = {}" using assms(2) by auto
    then have ch: "chain ?l1 [?d] (take (Suc 0) (map (val orig) as))"
      using as(2,3) by (cases as) (simp_all add: chain_def val_def)
    have sv: "(if ll_root orig = ll_position orig then At ?d else WILD) = (if i \<le> 0 then At ([?d] ! i) else WILD)"
      using cursorD(6) [OF assms(1)] by simp
    obtain l' bs where cl: "copy_loop orig (ll_root orig) (if ll_root orig = ll_position orig then At ?d else WILD) ?l1
        = Some (Inr (At (bs ! i), l'))" "chain l' bs xs"
      using copy_loop_runs [OF as(1) two ch _ sv] as(2,6) by auto
    have len: "length bs = length xs" using cl(2) by (auto simp: chain_def)
    then obtain l2 l3 where "set_next (ll_position l') (ll_root l') l' = Inr l2" "set_previous (ll_root l2) (ll_position l2) l2 = Inr l3"
        "cursor (l3\<lparr>ll_size := length xs, ll_position := At (bs ! i)\<rparr>) xs i"
      using chain_closes [OF cl(2), of i] two as(2,4) cursorD(4) [OF assms(1)] by auto
    then show ?thesis
      using sz it False many cl(1)
      by (cases "ll_root orig = ll_position orig") (simp_all add: copy_nodes_def returns_def new_node_def OP_NEW_def)
  qed
qed

lemma copies_return:
  assumes "cursor orig xs i"
  shows "returns (CLL_copy orig) xs i" "returns (LL_copy orig) xs i"
    "cursor l ys j \<Longrightarrow> returns (CLL_assign False orig l) xs i" "cursor l ys j \<Longrightarrow> returns (LL_assign False orig l) xs i"
proof -
  have new: "cells (lmem CLL_new) z = None" for z by (simp add: CLL_new_def empty_store_def)
  show "returns (CLL_copy orig) xs i" "returns (LL_copy orig) xs i"
    using copy_returns [OF assms new] by (simp_all add: CLL_copy_def LL_copy_def)
  assume l: "cursor l ys j"
  obtain l' where l': "CLL_Clear l = Some (Inr l')" "cursor l' [] 0"
    using Clear_returns [OF l] by (auto simp: returns_def)
  show "returns (CLL_assign False orig l) xs i" "returns (LL_assign False orig l) xs i"
    using copy_returns [OF assms cursor_empty_cells [OF l'(2)]] l'(1) by (simp_all add: CLL_assign_def LL_assign_def)
qed

section \<open>Concatenation and sorting\<close>

lemma next_position:
  assumes "cursor l ws i" "ws \<noteq> []"
  shows "\<exists>p. get next_node (ll_position l) l = Inr p \<and> cursor (l\<lparr>ll_position := p\<rparr>) ws (if Suc i < length ws then Suc i else 0)"
  using move_gives(1) [OF assms(1)] cursorD(1) [OF assms(1)] assms(2) by (auto simp: gives_def CLL_next_def)

text \<open>Adding at the end and moving there.\<close>

lemma append_gives:
  assumes "cursor l zs (length zs - 1)" "length zs < 4294967295"
  shows "\<exists>l1 p. CLL_Add x l = Inr l1 \<and> get next_node (ll_position l1) l1 = Inr p
    \<and> cursor (l1\<lparr>ll_position := p\<rparr>) (zs @ [x]) (length zs)"
proof -
  have "take (Suc (length zs - 1)) zs @ x # drop (Suc (length zs - 1)) zs = zs @ [x]" by (cases zs rule: rev_cases) simp_all
  then obtain l1 where l1: "CLL_Add x l = Inr l1" "cursor l1 (zs @ [x]) (length zs - 1)"
    using Add_gives [OF assms] by (auto simp: gives_def)
  have "(if Suc (length zs - 1) < length (zs @ [x]) then Suc (length zs - 1) else 0) = length zs" by (cases zs) simp_all
  then show ?thesis using next_position [OF l1(2)] l1(1) by auto
qed

lemma concat_loop_gives:
  assumes "ll_rep L bs j" "m + k = length bs" "cursor l zs (length zs - 1)"
    and "ptr = At (bs ! (if m < length bs then m else 0))" "length zs + k < 4294967296"
  shows "gives (concat_loop L k ptr l) (zs @ drop m (map (val L) bs)) (length zs + k - 1)"
  using assms(2-)
proof (induction k arbitrary: m l zs ptr)
  case 0
  then show ?case by (simp add: gives_def)
next
  case (Suc k)
  have m: "m < length bs" using Suc.prems(1) by simp
  have dr: "drop m (map (val L) bs) = val L (bs ! m) # drop (Suc m) (map (val L) bs)"
    using m Cons_nth_drop_Suc [of m "map (val L) bs"] by simp
  have "length zs < 4294967295" using Suc.prems(4) by simp
  then obtain l1 p where l1: "CLL_Add (val L (bs ! m)) l = Inr l1" "get next_node (ll_position l1) l1 = Inr p"
      "cursor (l1\<lparr>ll_position := p\<rparr>) (zs @ [val L (bs ! m)]) (length (zs @ [val L (bs ! m)]) - 1)"
    using append_gives [OF Suc.prems(2)] by fastforce
  have "gives (concat_loop L k (At (bs ! (if Suc m < length bs then Suc m else 0))) (l1\<lparr>ll_position := p\<rparr>))
      ((zs @ [val L (bs ! m)]) @ drop (Suc m) (map (val L) bs)) (length (zs @ [val L (bs ! m)]) + k - 1)"
    by (rule Suc.IH [OF _ l1(3) refl]) (use Suc.prems(1,4) in simp_all)
  then show ?case
    using l1(1,2) rep_item [OF assms(1) m] rep_next [OF assms(1) m] m Suc.prems(3) unfolding dr
    by (simp add: gives_def if_distrib [of "\<lambda>n. bs ! n"] cong: if_cong)
qed

lemma Concatenate_returns:
  assumes "cursor L ys j" "cursor l xs i" "length xs + 2 * length ys < 4294967296"
  shows "returns (CLL_Concatenate L l) (if ys = [] then xs else (if xs = [] then ys else xs) @ ys)
    (if ys = [] then i else length (if xs = [] then ys else xs) + length ys - 1)"
proof (cases "ys = []")
  case True
  then show ?thesis using assms(2) cursorD(1) [OF assms(1)] by (simp add: CLL_Concatenate_def returns_def)
next
  case False
  define zs where "zs = (if xs = [] then ys else xs)"
  have zne: "zs \<noteq> []" using False by (simp add: zs_def)
  obtain bs where bs: "ll_rep L bs j" "ys = map (val L) bs" "bs \<noteq> []" "ll_root L = At (bs ! 0)" "0 < length bs"
    using cursor_rep [OF assms(1) False] by metis
  obtain l1 i1 where l1: "(if ll_size l = 0 then CLL_assign False L l else Some (Inr l)) = Some (Inr l1)" "cursor l1 zs i1"
    using copies_return(3) [OF assms(1,2)] assms(2) cursorD(1) [OF assms(2)]
    by (cases "xs = []") (auto simp: returns_def zs_def)
  obtain p where p: "get previous (ll_root l1) l1 = Inr p" "cursor (l1\<lparr>ll_position := p\<rparr>) zs (length zs - 1)"
    using move_gives(6) [OF l1(2)] cursorD(5) [OF l1(2)] zne by (auto simp: gives_def CLL_End_def)
  have "gives (concat_loop L (length bs) (ll_root L) (l1\<lparr>ll_position := p\<rparr>)) (zs @ drop 0 (map (val L) bs)) (length zs + length bs - 1)"
    by (rule concat_loop_gives [OF bs(1) _ p(2)]) (use bs assms(3) in \<open>auto simp: zs_def split: if_splits\<close>)
  then show ?thesis
    using False l1(1) p(1) bs cursorD(1) [OF assms(1)] by (simp add: CLL_Concatenate_def returns_def gives_def zs_def)
qed

lemma reset_position:
  assumes "cursor L xs i"
  shows "cursor (L\<lparr>ll_position := ll_root L\<rparr>) xs 0"
proof (cases "xs = []")
  case True
  then have "L\<lparr>ll_position := ll_root L\<rparr> = L" "i = 0" using ll_repD(10) [of L "[]" i] assms by (simp_all add: cursor_Nil)
  then show ?thesis using assms by simp
next
  case False
  then show ?thesis using move_gives(5) [OF assms] cursorD(5) [OF assms] by (simp add: CLL_Beginning_def)
qed

text \<open>The order in which the code merges.\<close>

fun merged :: "'a::linorder list \<Rightarrow> 'a list \<Rightarrow> 'a list" where
  "merged (x # xs) (y # ys) = (if x < y then x # merged xs (y # ys) else y # merged (x # xs) ys)"
| "merged xs [] = xs"
| "merged [] ys = ys"

lemma mset_merged [simp]: "mset (merged xs ys) = mset xs + mset ys"
  by (induction xs ys rule: merged.induct) simp_all

lemma sorted_merged: "sorted xs \<Longrightarrow> sorted ys \<Longrightarrow> sorted (merged xs ys)"
proof (induction xs ys rule: merged.induct)
  case (1 x xs y ys)
  have s: "set (merged us vs) = set us \<union> set vs" for us vs :: "'a list"
    by (metis mset_merged set_mset_mset set_mset_union)
  show ?case using 1 by (auto simp: s intro: order_trans less_imp_le)
qed simp_all

definition merge_done :: "('a::linorder linked \<times> 'a linked \<times> 'a linked) run \<Rightarrow> 'a list \<Rightarrow> bool \<Rightarrow> bool" where
  "merge_done r zs some \<longleftrightarrow> (\<exists>L1' L2' X' us vs ws. r = Some (Inr (L1', L2', X')) \<and> cursor L1' us 0 \<and> cursor L2' vs 0
    \<and> cursor X' ws (length ws - 1) \<and> (us = [] \<or> vs = []) \<and> ws @ us @ vs = zs \<and> (some \<longrightarrow> ws \<noteq> []))"

lemma merge_loop_runs:
  assumes "cursor L1 xs 0" "cursor L2 ys 0" "cursor X zs (length zs - 1)" "length zs + length xs + length ys < 4294967295"
  shows "merge_done (merge_loop L1 L2 X) (zs @ merged xs ys) (xs \<noteq> [] \<and> ys \<noteq> [] \<or> zs \<noteq> [])"
  using assms
proof (induction "length xs + length ys" arbitrary: L1 L2 X xs ys zs)
  case 0
  then show ?case using cursorD(1) [OF "0.prems"(1)]
    unfolding merge_done_def
    by (intro exI [of _ L1] exI [of _ L2] exI [of _ X] exI [of _ "[]"] exI [of _ zs]) (simp add: merge_loop.simps [of L1])
next
  case (Suc n)
  show ?case
  proof (cases "xs = [] \<or> ys = []")
    case True
    then have "merge_loop L1 L2 X = Some (Inr (L1, L2, X))"
      using cursorD(1) [OF Suc.prems(1)] cursorD(1) [OF Suc.prems(2)] by (subst merge_loop.simps) auto
    moreover have "xs @ ys = merged xs ys" using True by (cases xs; cases ys) auto
    moreover have "(xs \<noteq> [] \<and> ys \<noteq> [] \<or> zs \<noteq> []) = (zs \<noteq> [])" using True by blast
    ultimately show ?thesis
      unfolding merge_done_def using Suc.prems(1-3) True
      by (intro exI [of _ L1] exI [of _ L2] exI [of _ X] exI [of _ xs] exI [of _ ys] exI [of _ zs]) simp
  next
    case False
    then obtain x xs' y ys' where e: "xs = x # xs'" "ys = y # ys'" by (meson neq_Nil_conv)
    have sz: "ll_size L1 \<noteq> 0" "ll_size L2 \<noteq> 0" using cursorD(1) [OF Suc.prems(1)] cursorD(1) [OF Suc.prems(2)] e by simp_all
    have it: "get item (ll_root L1) L1 = Inr x" "get item (ll_root L2) L2 = Inr y"
      using root_item [OF Suc.prems(1)] root_item [OF Suc.prems(2)] e by simp_all
    have z: "length zs < 4294967295" using Suc.prems(4) by simp
    have app: "\<exists>X'. rbind (CLL_Add v X) CLL_next = Inr X' \<and> cursor X' (zs @ [v]) (length (zs @ [v]) - 1)" for v
    proof -
      obtain l1 p where a: "CLL_Add v X = Inr l1" "get next_node (ll_position l1) l1 = Inr p"
          "cursor (l1\<lparr>ll_position := p\<rparr>) (zs @ [v]) (length zs)"
        using append_gives [OF Suc.prems(3) z] by blast
      then have "ll_size l1 \<noteq> 0" using cursorD(1) [OF a(3)] by simp
      then show ?thesis using a by (simp add: CLL_next_def)
    qed
    show ?thesis
    proof (cases "x < y")
      case True
      obtain L1' where d: "CLL_Del L1 = Inr L1'" "cursor L1' xs' 0"
        using Del_gives [OF Suc.prems(1)] e by (auto simp: gives_def split: if_splits)
      obtain X' where X': "rbind (CLL_Add x X) CLL_next = Inr X'" "cursor X' (zs @ [x]) (length (zs @ [x]) - 1)"
        using app [of x] by (elim exE conjE) (erule that, assumption)
      have n: "n = length xs' + length ys" using Suc.hyps(2) e by simp
      have "length (zs @ [x]) + length xs' + length ys < 4294967295" using Suc.prems(4) e by simp
      from Suc.hyps(1) [OF n d(2) Suc.prems(2) X'(2) this]
      have "merge_done (merge_loop L1' L2 X') (zs @ merged xs ys) True" using True e by simp
      moreover have "merge_loop L1 L2 X = merge_loop L1' L2 X'" using sz it d(1) X'(1) True
        by (subst merge_loop.simps) simp
      ultimately show ?thesis using False by simp
    next
      case F: False
      obtain L2' where d: "CLL_Del L2 = Inr L2'" "cursor L2' ys' 0"
        using Del_gives [OF Suc.prems(2)] e by (auto simp: gives_def split: if_splits)
      obtain X' where X': "rbind (CLL_Add y X) CLL_next = Inr X'" "cursor X' (zs @ [y]) (length (zs @ [y]) - 1)"
        using app [of y] by (elim exE conjE) (erule that, assumption)
      have n: "n = length xs + length ys'" using Suc.hyps(2) e by simp
      have "length (zs @ [y]) + length xs + length ys' < 4294967295" using Suc.prems(4) e by simp
      from Suc.hyps(1) [OF n Suc.prems(1) d(2) X'(2) this]
      have "merge_done (merge_loop L1 L2' X') (zs @ merged xs ys) True" using F e by simp
      moreover have "merge_loop L1 L2 X = merge_loop L1 L2' X'" using sz it d(1) X'(1) F
        by (subst merge_loop.simps) simp
      ultimately show ?thesis using False by simp
    qed
  qed
qed

lemma Merge_returns:
  assumes "cursor L1 xs i" "cursor L2 ys j" "xs \<noteq> []" "ys \<noteq> []" "length xs + length ys < 1073741824"
  shows "\<exists>k. returns (CLL_Merge L1 L2) (merged xs ys) k"
proof -
  have new: "cursor CLL_new ([] :: 'a list) (length ([] :: 'a list) - 1)" using cursor_new by simp
  have "length ([] :: 'a list) + length xs + length ys < 4294967295" using assms(5) by simp
  with merge_loop_runs [OF reset_position [OF assms(1)] reset_position [OF assms(2)] new] assms(3,4)
  obtain L1' L2' X us vs ws where m: "merge_loop (L1\<lparr>ll_position := ll_root L1\<rparr>) (L2\<lparr>ll_position := ll_root L2\<rparr>) CLL_new
      = Some (Inr (L1', L2', X))" "cursor L1' us 0" "cursor L2' vs 0" "cursor X ws (length ws - 1)" "us = [] \<or> vs = []"
      "ws @ us @ vs = merged xs ys" "ws \<noteq> []"
    by (auto simp: merge_done_def)
  have "length (ws @ us @ vs) = length xs + length ys" unfolding m(6) by (metis mset_merged size_mset size_union)
  then have len: "length ws + 2 * length us < 4294967296" "length ws + 2 * length vs < 4294967296" using assms(5) by auto
  show ?thesis
  proof (cases "us = []")
    case True
    then have "CLL_Merge L1 L2 = CLL_Concatenate L2' X" using m(1) cursorD(1) [OF m(2)] by (simp add: CLL_Merge_def)
    then show ?thesis using Concatenate_returns [OF m(3,4) len(2)] True m(6,7) by (cases "vs = []") auto
  next
    case False
    then have "CLL_Merge L1 L2 = CLL_Concatenate L1' X" using m(1) cursorD(1) [OF m(2)] by (simp add: CLL_Merge_def)
    then show ?thesis using Concatenate_returns [OF m(2,4) len(1)] False m(5,6,7) by auto
  qed
qed

lemma split_loop_runs:
  assumes "ll_rep L bs j" "m + k \<le> length bs" "cursor l zs 0" "length zs + k < 4294967295"
    and "loc = At (bs ! (if m < length bs then m else 0))"
  shows "\<exists>l' ws. split_loop L k loc l = Inr (At (bs ! (if m + k < length bs then m + k else 0)), l')
    \<and> cursor l' ws 0 \<and> mset ws = mset zs + mset (take k (drop m (map (val L) bs)))"
  using assms(2-)
proof (induction k arbitrary: m l zs loc)
  case 0
  then show ?case by auto
next
  case (Suc k)
  have m: "m < length bs" using Suc.prems(1) by simp
  have dr: "drop m (map (val L) bs) = val L (bs ! m) # drop (Suc m) (map (val L) bs)"
    using m Cons_nth_drop_Suc [of m "map (val L) bs"] by simp
  let ?v = "val L (bs ! m)" and ?zs = "take (Suc 0) zs @ val L (bs ! m) # drop (Suc 0) zs"
  have "length zs < 4294967295" using Suc.prems(3) by simp
  then obtain l1 where l1: "CLL_Add ?v l = Inr l1" "cursor l1 ?zs 0"
    using Add_gives [OF Suc.prems(2)] by (auto simp: gives_def)
  have ms: "mset ?zs = add_mset ?v (mset zs)" by (cases zs) simp_all
  have "length ?zs + k < 4294967295" using Suc.prems(3) by (cases zs) simp_all
  from Suc.IH [OF _ l1(2) this refl, of "Suc m"] obtain l' ws where
    w: "split_loop L k (At (bs ! (if Suc m < length bs then Suc m else 0))) l1
        = Inr (At (bs ! (if Suc m + k < length bs then Suc m + k else 0)), l')"
      "cursor l' ws 0" "mset ws = mset ?zs + mset (take k (drop (Suc m) (map (val L) bs)))"
    using Suc.prems(1) by auto
  have "split_loop L (Suc k) loc l = split_loop L k (At (bs ! (if Suc m < length bs then Suc m else 0))) l1"
    using l1(1) rep_item [OF assms(1) m] rep_next [OF assms(1) m] m Suc.prems(4)
    by (simp add: if_distrib [of "\<lambda>n. bs ! n"] cong: if_cong)
  then show ?case using w(1,2,3) ms unfolding dr by (intro exI [of _ l'] exI [of _ ws]) simp
qed

lemma Mergesort_returns:
  assumes "cursor L xs i" "2 \<le> length xs" "length xs < 1073741824"
  shows "\<exists>zs k. returns (CLL_Mergesort L) zs k \<and> sorted zs \<and> mset zs = mset xs"
  using assms
proof (induction "length xs" arbitrary: L xs i rule: less_induct)
  case less
  have ne: "xs \<noteq> []" using less.prems(2) by auto
  obtain bs where bs: "ll_rep L bs i" "xs = map (val L) bs" "ll_root L = At (bs ! 0)" "0 < length bs"
    using cursor_rep [OF less.prems(1) ne] by metis
  let ?n = "length xs" and ?h = "length xs div 2"
  have n: "length bs = ?n" "ll_size L = ?n" using bs(2) cursorD(1) [OF less.prems(1)] by simp_all
  have new: "cursor CLL_new ([] :: 'a list) 0" by (rule cursor_new)
  have h: "?h < length bs" "?h + (?n - ?h) = length bs" using n(1) less.prems(2) by simp_all
  have "\<exists>l' ws. split_loop L ?h (ll_root L) CLL_new = Inr (At (bs ! (if 0 + ?h < length bs then 0 + ?h else 0)), l')
      \<and> cursor l' ws 0 \<and> mset ws = mset [] + mset (take ?h (drop 0 (map (val L) bs)))"
    by (rule split_loop_runs [OF bs(1) _ new]) (use h bs(3,4) n less.prems(3) in simp_all)
  then obtain l1 ws1 where s1: "split_loop L ?h (ll_root L) CLL_new = Inr (At (bs ! ?h), l1)" "cursor l1 ws1 0"
      "mset ws1 = mset (take ?h xs)"
    unfolding bs(2) [symmetric] using h(1) by auto
  have "\<exists>l' ws. split_loop L (?n - ?h) (At (bs ! ?h)) CLL_new
        = Inr (At (bs ! (if ?h + (?n - ?h) < length bs then ?h + (?n - ?h) else 0)), l')
      \<and> cursor l' ws 0 \<and> mset ws = mset [] + mset (take (?n - ?h) (drop ?h (map (val L) bs)))"
    by (rule split_loop_runs [OF bs(1) _ new]) (use h n less.prems(3) in simp_all)
  then obtain loc l2 ws2 where s2: "split_loop L (?n - ?h) (At (bs ! ?h)) CLL_new = Inr (loc, l2)" "cursor l2 ws2 0"
      "mset ws2 = mset (drop ?h xs)"
    unfolding bs(2) [symmetric] by auto
  have len: "length ws1 = ?h" "length ws2 = ?n - ?h"
    using arg_cong [OF s1(3), of size] arg_cong [OF s2(3), of size] by simp_all
  have sub: "\<exists>l' us k. (if 1 < ll_size l then mbind (CLL_Mergesort l) (\<lambda>r. CLL_assign False r l) else Some (Inr l)) = Some (Inr l')
      \<and> cursor l' us k \<and> sorted us \<and> mset us = mset ws"
    if c: "cursor l ws 0" and lw: "length ws < ?n" for l :: "'a linked" and ws
  proof (cases "1 < ll_size l")
    case True
    then have two: "2 \<le> length ws" using cursorD(1) [OF c] by simp
    have "length ws < 1073741824" using lw less.prems(3) by simp
    with less.hyps [OF lw c two] obtain r us k where "CLL_Mergesort l = Some (Inr r)" "cursor r us k" "sorted us" "mset us = mset ws"
      by (auto simp: returns_def)
    moreover obtain l' where "CLL_assign False r l = Some (Inr l')" "cursor l' us k"
      using copies_return(3) [OF \<open>cursor r us k\<close> c] by (auto simp: returns_def)
    ultimately show ?thesis using True by (intro exI [of _ l'] exI [of _ us] exI [of _ k]) simp
  next
    case False
    then have "length ws \<le> 1" using cursorD(1) [OF c] by simp
    then have "sorted ws" by (cases ws) auto
    then show ?thesis using False c by (intro exI [of _ l] exI [of _ ws] exI [of _ 0]) simp
  qed
  have small: "length ws1 < ?n" "length ws2 < ?n" using len less.prems(2) by simp_all
  obtain L1 us1 k1 where m1: "(if 1 < ll_size l1 then mbind (CLL_Mergesort l1) (\<lambda>r. CLL_assign False r l1) else Some (Inr l1)) = Some (Inr L1)"
      "cursor L1 us1 k1" "sorted us1" "mset us1 = mset ws1"
    using sub [OF s1(2) small(1)] by blast
  obtain L2 us2 k2 where m2: "(if 1 < ll_size l2 then mbind (CLL_Mergesort l2) (\<lambda>r. CLL_assign False r l2) else Some (Inr l2)) = Some (Inr L2)"
      "cursor L2 us2 k2" "sorted us2" "mset us2 = mset ws2"
    using sub [OF s2(2) small(2)] by blast
  obtain c1 where c1: "CLL_copy L1 = Some (Inr c1)" "cursor c1 us1 k1" using copies_return(1) [OF m1(2)] by (auto simp: returns_def)
  obtain c2 where c2: "CLL_copy L2 = Some (Inr c2)" "cursor c2 us2 k2" using copies_return(1) [OF m2(2)] by (auto simp: returns_def)
  have us: "length us1 = ?h" "length us2 = ?n - ?h"
    using arg_cong [OF m1(4), of size] arg_cong [OF m2(4), of size] len by simp_all
  have "us1 \<noteq> []" "us2 \<noteq> []" "length us1 + length us2 < 1073741824" using us less.prems(2,3) by auto
  then obtain k where mg: "returns (CLL_Merge c1 c2) (merged us1 us2) k" using Merge_returns [OF c1(2) c2(2)] by blast
  have "CLL_Mergesort L = CLL_Merge c1 c2"
    by (subst CLL_Mergesort.simps)
      (simp only: n(2) s1(1) s2(1) m1(1) m2(1) c1(1) c2(1) mbind_simps fst_conv snd_conv)
  moreover have "mset (merged us1 us2) = mset xs"
    using m1(4) m2(4) s1(3) s2(3) by (metis append_take_drop_id mset_append mset_merged)
  ultimately show ?case using mg sorted_merged [OF m1(3) m2(3)] by auto
qed

lemma Sort_returns:
  assumes "cursor l xs i" "length xs < 1073741824"
  shows "returns (CLL_Sort l) (sort xs) (if length xs \<le> 1 then i else 0)"
proof (cases "length xs \<le> 1")
  case True
  then have "sort xs = xs" by (cases xs) auto
  then show ?thesis using True assms(1) cursorD(1) [OF assms(1)] by (simp add: CLL_Sort_def returns_def)
next
  case False
  then obtain r zs k where r: "CLL_Mergesort l = Some (Inr r)" "cursor r zs k" "sorted zs" "mset zs = mset xs"
    using Mergesort_returns [OF assms(1) _ assms(2)] by (auto simp: returns_def)
  have "zs = sort xs" using r(3,4) by (metis properties_for_sort)
  moreover obtain l1 where "CLL_assign False r l = Some (Inr l1)" "cursor l1 zs k"
    using copies_return(3) [OF r(2) assms(1)] by (auto simp: returns_def)
  ultimately show ?thesis
    using r(1) False cursorD(1) [OF assms(1)] reset_position [of l1 "sort xs" k] by (simp add: CLL_Sort_def returns_def)
qed

text \<open>The queue.\<close>

lemma QLL_gives:
  assumes "cursor q xs i"
  shows "length xs < 4294967295 \<Longrightarrow> gives (QLL_Push x q) (xs @ [x]) (length xs - 1)"
    "xs \<noteq> [] \<Longrightarrow> \<exists>q'. QLL_Pop q = Inr (hd xs, q') \<and> cursor q' (tl xs) 0" "QLL_Size q = length xs"
    "xs = [] \<Longrightarrow> QLL_Pop q = Inl NullDeref"
proof -
  show "QLL_Size q = length xs" using cursorD(1) [OF assms] by (simp add: QLL_Size_def CLL_Size_def)
  have b: "cursor (CLL_Beginning q) xs 0" by (rule move_gives(5) [OF assms])
  show "gives (QLL_Push x q) (xs @ [x]) (length xs - 1)" if "length xs < 4294967295"
  proof -
    obtain q1 where "CLL_End q = Inr q1" "cursor q1 xs (length xs - 1)" using move_gives(6) [OF assms] by (auto simp: gives_def)
    then show ?thesis using Add_gives [OF _ that, of q1 "length xs - 1" x] by (cases xs rule: rev_cases) (simp_all add: QLL_Push_def)
  qed
  show "\<exists>q'. QLL_Pop q = Inr (hd xs, q') \<and> cursor q' (tl xs) 0" if "xs \<noteq> []"
  proof -
    obtain q' where "CLL_Del (CLL_Beginning q) = Inr q'" "cursor q' (drop 1 xs) 0" using Del_gives [OF b] by (auto simp: gives_def)
    then show ?thesis using Peek_runs [OF b that] that by (simp add: QLL_Pop_def CLL_Pop_def hd_conv_nth drop_Suc)
  qed
  show "QLL_Pop q = Inl NullDeref" if "xs = []"
    using Peek_empty [of "CLL_Beginning q" 0] b that by (simp add: QLL_Pop_def CLL_Pop_def)
qed

section \<open>Properties\<close>

text \<open>The operations of a list, and what each does with the elements and the index of the current one.\<close>

datatype 'a ll_op =
    OpInsert 'a | OpAdd 'a | OpReplace 'a | OpDel | OpFind 'a
  | OpNext | OpPrev                \<comment> \<open>of the circular list\<close>
  | OpForward | OpBack             \<comment> \<open>of \<open>LinkedList\<close>, which stop at the ends\<close>
  | OpBeginning | OpEnd | OpClear | OpSort

fun ll_run :: "'a::linorder ll_op \<Rightarrow> 'a linked \<Rightarrow> 'a linked run" where
  "ll_run (OpInsert x) l = Some (CLL_Insert x l)"
| "ll_run (OpAdd x) l = Some (CLL_Add x l)"
| "ll_run (OpReplace x) l = Some (CLL_Replace x l)"
| "ll_run OpDel l = Some (CLL_Del l)"
| "ll_run (OpFind x) l = mbind (CLL_Find x l) (\<lambda>(_, l'). Some (Inr l'))"
| "ll_run OpNext l = Some (CLL_next l)"
| "ll_run OpPrev l = Some (CLL_prev l)"
| "ll_run OpForward l = Some (LL_next l)"
| "ll_run OpBack l = Some (LL_prev l)"
| "ll_run OpBeginning l = Some (Inr (CLL_Beginning l))"
| "ll_run OpEnd l = Some (CLL_End l)"
| "ll_run OpClear l = CLL_Clear l"
| "ll_run OpSort l = CLL_Sort l"

fun ll_spec :: "'a::linorder ll_op \<Rightarrow> 'a list \<times> nat \<Rightarrow> 'a list \<times> nat" where
  "ll_spec (OpInsert x) (xs, i) = (take i xs @ x # drop i xs, if i = 0 then 0 else i + 1)"
| "ll_spec (OpAdd x) (xs, i) = (take (i + 1) xs @ x # drop (i + 1) xs, i)"
| "ll_spec (OpReplace x) (xs, i) = (xs[i := x], i)"
| "ll_spec OpDel (xs, i) = (take i xs @ drop (i + 1) xs, if i + 1 < length xs then i else 0)"
| "ll_spec (OpFind x) (xs, i) = (xs, if x \<in> set xs then first_at x xs else i)"
| "ll_spec OpNext (xs, i) = (xs, if i + 1 < length xs then i + 1 else 0)"
| "ll_spec OpPrev (xs, i) = (xs, if i = 0 then length xs - 1 else i - 1)"
| "ll_spec OpForward (xs, i) = (xs, if i + 1 < length xs then i + 1 else i)"
| "ll_spec OpBack (xs, i) = (xs, i - 1)"
| "ll_spec OpBeginning (xs, i) = (xs, 0)"
| "ll_spec OpEnd (xs, i) = (xs, length xs - 1)"
| "ll_spec OpClear (xs, i) = ([], 0)"
| "ll_spec OpSort (xs, i) = (sort xs, if length xs \<le> 1 then i else 0)"

lemma ll_run_refines:
  assumes "cursor l xs i" "length xs < 1073741824"
  shows "returns (ll_run op l) (fst (ll_spec op (xs, i))) (snd (ll_spec op (xs, i)))"
proof (cases op)
  case (OpInsert x)
  then show ?thesis using Insert_gives [OF assms(1), of x] assms(2) by (cases "i = 0") (simp_all add: returns_gives)
next
  case (OpAdd x)
  then show ?thesis using Add_gives [OF assms(1), of x] assms(2) by (simp add: returns_gives)
next
  case (OpReplace x)
  then show ?thesis using Replace_gives [OF assms(1), of x] by (simp add: returns_gives)
next
  case (OpFind x)
  then show ?thesis using Find_runs(1) [OF assms(1), of x] by (auto simp: returns_def)
next
  case OpSort
  then show ?thesis using Sort_returns [OF assms] by simp
next
  case OpClear
  then show ?thesis using Clear_returns [OF assms(1)] by simp
qed (use Del_gives [OF assms(1)] move_gives [OF assms(1)] in \<open>auto simp: returns_gives gives_def\<close>)

fun ll_run_all :: "'a::linorder ll_op list \<Rightarrow> 'a linked \<Rightarrow> 'a linked run" where
  "ll_run_all [] l = Some (Inr l)"
| "ll_run_all (op # ops) l = mbind (ll_run op l) (ll_run_all ops)"

lemma ll_spec_length: "length (fst (ll_spec op s)) \<le> Suc (length (fst s))"
  by (cases s; cases op) auto

lemma ll_run_all_refines:
  assumes "cursor l (fst s) (snd s)" "length (fst s) + length ops < 1073741824"
  shows "returns (ll_run_all ops l) (fst (fold ll_spec ops s)) (snd (fold ll_spec ops s))"
  using assms
proof (induction ops arbitrary: l s)
  case (Cons op ops)
  have "length (fst s) < 1073741824" using Cons.prems(2) by simp
  from ll_run_refines [OF Cons.prems(1) this, of op]
  obtain l' where l': "ll_run op l = Some (Inr l')" "cursor l' (fst (ll_spec op s)) (snd (ll_spec op s))"
    by (auto simp: returns_def)
  have "length (fst (ll_spec op s)) + length ops < 1073741824" using ll_spec_length [of op s] Cons.prems(2) by simp
  from Cons.IH [OF l'(2) this] show ?case using l'(1) by simp
qed (simp add: returns_def)

text \<open>C33: a linked list is a list with a current position: any sequence of insertions before and after the position,
  replacements, deletions, searches, moves around the ring or up to the ends, sorting and clearing returns, with
  the elements and position that the operations on lists give; the size, the element at the position and membership
  are those of that list, reading an empty list calls through a null pointer, and the store has exactly one
  node for each element, so nothing is leaked or left dangling.\<close>

theorem linked_list_refines:
  assumes "length ops < 1073741824" "(xs, i) = fold ll_spec ops ([], 0)"
  shows "\<exists>l. ll_run_all ops CLL_new = Some (Inr l) \<and> CLL_Size l = length xs
    \<and> CLL_Peek l = (if xs = [] then Inl NullDeref else Inr (xs ! i)) \<and> CLL_IsIn x l = Some (Inr (x \<in> set xs))
    \<and> finite (dom (cells (lmem l))) \<and> card (dom (cells (lmem l))) = length xs"
proof -
  have "returns (ll_run_all ops CLL_new) xs i"
    using ll_run_all_refines [of CLL_new "([], 0)" ops] cursor_new assms(1) unfolding assms(2) [symmetric] by simp
  then obtain l where l: "ll_run_all ops CLL_new = Some (Inr l)" "cursor l xs i" by (auto simp: returns_def)
  then obtain as where as: "ll_rep l as i" "xs = map (val l) as" by (auto simp: cursor_def)
  have "CLL_Peek l = (if xs = [] then Inl NullDeref else Inr (xs ! i))"
    using Peek_runs [OF l(2)] Peek_empty [of l i] l(2) by (cases "xs = []") simp_all
  moreover have "card (dom (cells (lmem l))) = length xs"
    using ll_repD(1,2) [OF as(1)] as(2) by (simp add: distinct_card)
  ultimately show ?thesis
    using l(1) cursorD(1) [OF l(2)] Find_runs(2) [OF l(2)] ll_repD(2) [OF as(1)] by (simp add: CLL_Size_def)
qed

theorem linked_list_refines_witness:
  "\<exists>l. ll_run_all [OpAdd (3 :: nat), OpInsert 1, OpAdd 2, OpNext, OpReplace 9, OpInsert 5, OpSort, OpForward, OpDel] CLL_new = Some (Inr l)
    \<and> CLL_Size l = 3 \<and> CLL_Peek l = Inr 5"
proof -
  let ?ops = "[OpAdd (3 :: nat), OpInsert 1, OpAdd 2, OpNext, OpReplace 9, OpInsert 5, OpSort, OpForward, OpDel]"
  have "([1, 5, 9], 1) = fold ll_spec ?ops ([], 0)" by simp
  from linked_list_refines [OF _ this, of 7] show ?thesis by auto
qed

text \<open>concatenation appends the elements of the other list and moves to the end, unless this list is empty: then the
  other list is assigned to it first and its elements are appended to themselves, so every element is there twice.\<close>

lemma concatenate_doubles:
  assumes "cursor L ys j" "cursor l xs i" "ys \<noteq> []" "length xs + 2 * length ys < 4294967296"
  shows "\<exists>l' k. CLL_Concatenate L l = Some (Inr l') \<and> cursor l' (if xs = [] then ys @ ys else xs @ ys) k
    \<and> CLL_Size l' = (if xs = [] then 2 * length ys else length xs + length ys) \<and> k = CLL_Size l' - 1"
proof -
  obtain l' where "CLL_Concatenate L l = Some (Inr l')"
      "cursor l' (if xs = [] then ys @ ys else xs @ ys) (length (if xs = [] then ys else xs) + length ys - 1)"
    using Concatenate_returns [OF assms(1,2,4)] assms(3) by (cases "xs = []") (auto simp: returns_def)
  moreover from this have "CLL_Size l' = (if xs = [] then 2 * length ys else length xs + length ys)"
    using cursorD(1) by (fastforce simp: CLL_Size_def)
  ultimately show ?thesis by (cases "xs = []") (auto simp: mult_2)
qed

end
