(* ===== verification/RakVisit.thy ===== *)
theory RakVisit
  imports RakAvl RakLinked
begin

text \<open>
  The traversals of RakNet's binary search tree (\<^verbatim>\<open>DS_BinarySearchTree.h\<close>), which write the elements to an array, and the
  copies of a tree. Two of the traversals find their way back up with the direction that a search for the
  current element leaves; the traversal by levels and the copies keep the nodes to come in a queue, the linked
  list of \<open>RakLinked\<close>.
\<close>

section \<open>Code\<close>

partial_function (option) inorder_loop ::
  "link \<Rightarrow> bool \<Rightarrow> nat \<Rightarrow> 'a ptr \<Rightarrow> 'a::linorder bst \<Rightarrow> ('a ptr \<times> 'a bst) run" where
  "inorder_loop current just_printed index out t =
     (if index = BinarySearchTree_size t then Some (Inr (out, t))
      else mbind (Some (node_at current t)) (\<lambda>n.
        if bleft n \<noteq> NIL \<and> direction t \<noteq> LEFT \<and> direction t \<noteq> RIGHT then
          inorder_loop (bleft n) just_printed index out (t\<lparr>direction := ROOT\<rparr>)
        else if direction t \<noteq> RIGHT \<and> \<not> just_printed then
          mbind (Some (poke out index (bitem n))) (\<lambda>out'. inorder_loop current True (w32 (index + 1)) out' t)
        else if bright n \<noteq> NIL \<and> direction t \<noteq> RIGHT then
          inorder_loop (bright n) False index out (t\<lparr>direction := ROOT\<rparr>)
        else mbind (FindParent (bitem n) t) (\<lambda>(parent, t'). inorder_loop parent False index out t')))"

text \<open>A tree with one node is written at once.\<close>

definition display_root :: "'a ptr \<Rightarrow> 'a bst \<Rightarrow> 'a ptr run" where
  "display_root out t = mbind (Some (node_at (broot t) t)) (\<lambda>n. Some (poke out 0 (bitem n)))"

definition DisplayInorder :: "'a ptr \<Rightarrow> 'a::linorder bst \<Rightarrow> ('a ptr \<times> 'a bst) run" where
  "DisplayInorder return_array t =
     (if BinarySearchTree_size t = 0 then Some (Inr (return_array, t))
      else if BinarySearchTree_size t = 1 then mbind (display_root return_array t) (\<lambda>out. Some (Inr (out, t)))
      else inorder_loop (broot t) False 0 return_array (t\<lparr>direction := ROOT\<rparr>))"

partial_function (option) preorder_loop ::
  "link \<Rightarrow> nat \<Rightarrow> 'a ptr \<Rightarrow> 'a::linorder bst \<Rightarrow> ('a ptr \<times> 'a bst) run" where
  "preorder_loop current index out t =
     (if index = BinarySearchTree_size t then Some (Inr (out, t))
      else mbind (Some (node_at current t)) (\<lambda>n.
        if bleft n \<noteq> NIL \<and> direction t \<noteq> LEFT \<and> direction t \<noteq> RIGHT then
          mbind (Some (rbind (node_at (bleft n) t) (\<lambda>k. poke out index (bitem k)))) (\<lambda>out'.
          preorder_loop (bleft n) (w32 (index + 1)) out' (t\<lparr>direction := ROOT\<rparr>))
        else if bright n \<noteq> NIL \<and> direction t \<noteq> RIGHT then
          mbind (Some (rbind (node_at (bright n) t) (\<lambda>k. poke out index (bitem k)))) (\<lambda>out'.
          preorder_loop (bright n) (w32 (index + 1)) out' (t\<lparr>direction := ROOT\<rparr>))
        else mbind (FindParent (bitem n) t) (\<lambda>(parent, t'). preorder_loop parent index out t')))"

definition DisplayPreorder :: "'a ptr \<Rightarrow> 'a::linorder bst \<Rightarrow> ('a ptr \<times> 'a bst) run" where
  "DisplayPreorder return_array t =
     (if BinarySearchTree_size t = 0 then Some (Inr (return_array, t))
      else if BinarySearchTree_size t = 1 then mbind (display_root return_array t) (\<lambda>out. Some (Inr (out, t)))
      else let t1 = t\<lparr>direction := ROOT\<rparr> in
        mbind (Some (rbind (node_at (broot t1) t1) (\<lambda>n. poke return_array 0 (bitem n)))) (\<lambda>out.
        preorder_loop (broot t1) 1 out t1))"

partial_function (option) DisplayPostorderRecursive :: "link \<Rightarrow> 'a ptr \<Rightarrow> nat \<Rightarrow> 'a bst \<Rightarrow> ('a ptr \<times> nat) run" where
  "DisplayPostorderRecursive current out index t =
     mbind (Some (node_at current t)) (\<lambda>n.
     mbind (if bleft n \<noteq> NIL then DisplayPostorderRecursive (bleft n) out index t else Some (Inr (out, index))) (\<lambda>r1.
     mbind (if bright n \<noteq> NIL then DisplayPostorderRecursive (bright n) (fst r1) (snd r1) t else Some (Inr r1)) (\<lambda>r2.
     mbind (Some (poke (fst r2) (snd r2) (bitem n))) (\<lambda>out'. Some (Inr (out', w32 (snd r2 + 1)))))))"

definition DisplayPostorder :: "'a ptr \<Rightarrow> 'a bst \<Rightarrow> 'a ptr run" where
  "DisplayPostorder return_array t =
     (if BinarySearchTree_size t = 0 then Some (Inr return_array)
      else if BinarySearchTree_size t = 1 then display_root return_array t
      else mbind (DisplayPostorderRecursive (broot t) return_array 0 t) (\<lambda>(out, _). Some (Inr out)))"

definition push_children :: "'a bnode \<Rightarrow> link linked \<Rightarrow> link linked res" where
  "push_children n q =
     rbind (if bleft n \<noteq> NIL then QLL_Push (bleft n) q else Inr q) (\<lambda>q1.
     if bright n \<noteq> NIL then QLL_Push (bright n) q1 else Inr q1)"

partial_function (option) level_loop :: "nat \<Rightarrow> 'a ptr \<Rightarrow> link linked \<Rightarrow> 'a bst \<Rightarrow> 'a ptr run" where
  "level_loop index out q t =
     mbind (Some (QLL_Pop q)) (\<lambda>(current, q1).
     mbind (Some (node_at current t)) (\<lambda>n.
     mbind (Some (poke out index (bitem n))) (\<lambda>out'.
     mbind (Some (push_children n q1)) (\<lambda>q2.
     if 0 < QLL_Size q2 then level_loop (w32 (index + 1)) out' q2 t else Some (Inr out')))))"

definition DisplayBreadthFirstSearch :: "'a ptr \<Rightarrow> 'a bst \<Rightarrow> 'a ptr run" where
  "DisplayBreadthFirstSearch return_array t =
     (if BinarySearchTree_size t = 0 then Some (Inr return_array)
      else if BinarySearchTree_size t = 1 then display_root return_array t
      else mbind (Some (QLL_Push (broot t) CLL_new)) (\<lambda>q. level_loop 0 return_array q t))"

text \<open>The elements of another tree are added level by level.\<close>

partial_function (option) tree_copy_loop :: "link linked \<Rightarrow> 'a::linorder bst \<Rightarrow> 'a bst \<Rightarrow> 'a bst run" where
  "tree_copy_loop q original_copy t =
     mbind (Some (QLL_Pop q)) (\<lambda>(current, q1).
     mbind (Some (node_at current original_copy)) (\<lambda>n.
     mbind (BST_Add (bitem n) t) (\<lambda>(_, t').
     mbind (Some (push_children n q1)) (\<lambda>q2.
     if 0 < QLL_Size q2 then tree_copy_loop q2 original_copy t' else Some (Inr t')))))"

definition copy_tree :: "'a::linorder bst \<Rightarrow> 'a bst \<Rightarrow> 'a bst run" where
  "copy_tree original_copy t =
     (let t0 = t\<lparr>BinarySearchTree_size := 0, broot := NIL\<rparr>
      in if BinarySearchTree_size original_copy = 0 then Some (Inr t0)
         else mbind (Some (QLL_Push (broot original_copy) CLL_new)) (\<lambda>q. tree_copy_loop q original_copy t0))"

definition BST_copy :: "'a::linorder bst \<Rightarrow> 'a bst run" where
  "BST_copy original_copy = copy_tree original_copy BST_new"

definition BST_assign :: "bool \<Rightarrow> 'a::linorder bst \<Rightarrow> 'a bst \<Rightarrow> 'a bst run" where
  "BST_assign same original_copy t =
     (if same then Some (Inr t) else mbind (BST_Clear t) (copy_tree original_copy))"

section \<open>Writing to the array\<close>

definition written :: "'a list \<Rightarrow> nat \<Rightarrow> 'a list \<Rightarrow> 'a list" where
  "written xs i ys = take i xs @ ys @ drop (i + length ys) xs"

lemma written_Nil [simp]: "written xs i [] = xs"
  by (simp add: written_def)

lemma written_one: "i < length xs \<Longrightarrow> xs[i := y] = written xs i [y]"
  by (simp add: written_def upd_conv_take_nth_drop)

lemma written_append:
  assumes "i + length ys \<le> length xs"
  shows "written (written xs i ys) (i + length ys) zs = written xs i (ys @ zs)"
proof -
  have "length xs \<le> i \<Longrightarrow> ys = []" using assms by (cases ys) auto
  then show ?thesis using assms by (auto simp: written_def min_def ac_simps)
qed

lemma length_written [simp]: "i + length ys \<le> length xs \<Longrightarrow> length (written xs i ys) = length xs"
  by (simp add: written_def)

lemma poke_written: "i < length xs \<Longrightarrow> poke (Arr xs) i y = Inr (Arr (written xs i [y]))"
  by (simp add: written_one)

section \<open>The traversals with a direction\<close>

text \<open>The subtree of a place has been written, and the traversal ends or goes on at the parent.\<close>

lemma inorder_visit:
  assumes "bst_rep T (plug c s)" "s = Node l n r" "direction T = ROOT" "size (plug c s) \<le> length xs" "i = length (before c)"
  shows "(after c = [] \<longrightarrow> (\<exists>d. inorder_loop (At (fst n)) False i (Arr xs) T = Some (Inr (Arr (written xs i (keys s)), T\<lparr>direction := d\<rparr>))))
    \<and> (after c \<noteq> [] \<longrightarrow> inorder_loop (At (fst n)) False i (Arr xs) T
        = inorder_loop (parent_of c) False (i + size s) (Arr (written xs i (keys s))) (T\<lparr>direction := side c\<rparr>))"
  using assms
proof (induction s arbitrary: c l n r T xs i)
  case (Node sl sn sr)
  have eq [simp]: "sl = l" "sn = n" "sr = r" using Node.prems(2) by simp_all
  let ?s = "Node l n r" and ?loop = "inorder_loop (At (fst n))"
  have rep: "bst_rep T (plug c ?s)" using Node.prems(1) by simp
  have repL: "bst_rep T (plug (InL n r # c) l)" and repR: "bst_rep T (plug (InR l n # c) r)" using rep by simp_all
  have tot: "BinarySearchTree_size T = i + size ?s + length (after c)" "i + size ?s + length (after c) \<le> length xs"
      "i + size ?s + length (after c) < 4294967295"
    using holdsD(6,7) [OF bst_repD(1) [OF rep]] Node.prems(4,5) by (simp_all add: size_plug)
  have nd: "node_at (At (fst n)) (T\<lparr>direction := d\<rparr>) = Inr \<lparr>bitem = snd n, bleft = tlink l, bright = tlink r\<rparr>" for d
    using node_at_place [OF bst_repD(1) [OF rep]] by simp
  have fp: "FindParent (snd n) (T\<lparr>direction := d\<rparr>) = Some (Inr (parent_of c, T\<lparr>direction := side c\<rparr>))" for d
    using FindParent_at [of "T\<lparr>direction := d\<rparr>" c l n r] rep by (simp add: bst_rep_def)
  have kl: "length (keys t) = size t" for t :: "'a atree" by (simp add: keys_def)
  let ?x1 = "written xs i (keys l)" and ?x2 = "written xs i (keys l @ [snd n])" and ?x3 = "written xs i (keys ?s)"
  let ?j = "i + size l"
  have up: "(r = Leaf \<and> jp \<and> d \<noteq> RIGHT \<and> (d = LEFT \<or> l = Leaf)) \<or> d = RIGHT \<Longrightarrow> after c \<noteq> [] \<Longrightarrow>
      ?loop jp (i + size ?s) ys (T\<lparr>direction := d\<rparr>) = inorder_loop (parent_of c) False (i + size ?s) ys (T\<lparr>direction := side c\<rparr>)" for jp d ys
    using tot(1) nd [of d] fp [of d] by (subst inorder_loop.simps) auto
  have x3: "written ?x2 (?j + 1) (keys r) = ?x3" using written_append [of i "keys l @ [snd n]" xs "keys r"] tot(2) kl [of l] by simp
  have print: "(after c = [] \<longrightarrow> (\<exists>d'. ?loop False ?j (Arr ?x1) (T\<lparr>direction := d\<rparr>) = Some (Inr (Arr ?x3, T\<lparr>direction := d'\<rparr>))))
      \<and> (after c \<noteq> [] \<longrightarrow> ?loop False ?j (Arr ?x1) (T\<lparr>direction := d\<rparr>)
          = inorder_loop (parent_of c) False (i + size ?s) (Arr ?x3) (T\<lparr>direction := side c\<rparr>))"
    if d: "d = LEFT \<or> d = ROOT \<and> l = Leaf" for d
  proof -
    have p: "poke (Arr ?x1) ?j (snd n) = Inr (Arr ?x2)"
      using poke_written [of ?j ?x1 "snd n"] written_append [of i "keys l" xs "[snd n]"] tot(2) kl [of l] by simp
    have step: "?loop False ?j (Arr ?x1) (T\<lparr>direction := d\<rparr>) = ?loop True (?j + 1) (Arr ?x2) (T\<lparr>direction := d\<rparr>)"
      using tot nd [of d] p d by (subst inorder_loop.simps) auto
    show ?thesis
    proof (cases r)
      case Leaf
      have j: "?j + 1 = i + size ?s" "?x2 = ?x3" using Leaf by simp_all
      show ?thesis
      proof (cases "after c = []")
        case True
        have "?loop True (i + size ?s) (Arr ?x3) (T\<lparr>direction := d\<rparr>) = Some (Inr (Arr ?x3, T\<lparr>direction := d\<rparr>))"
          using tot(1) True by (subst inorder_loop.simps) simp
        then show ?thesis using step True unfolding j by auto
      next
        case False
        then show ?thesis using step up [of True d "Arr ?x3"] d Leaf unfolding j by auto
      qed
    next
      case N: (Node r1 k r2)
      have go: "?loop True (?j + 1) (Arr ?x2) (T\<lparr>direction := d\<rparr>)
          = inorder_loop (At (fst k)) False (?j + 1) (Arr ?x2) (T\<lparr>direction := ROOT\<rparr>)"
        using tot nd [of d] d N by (subst inorder_loop.simps) auto
      have "(after (InR l n # c) = [] \<longrightarrow> (\<exists>d'. inorder_loop (At (fst k)) False (?j + 1) (Arr ?x2) (T\<lparr>direction := ROOT\<rparr>)
            = Some (Inr (Arr (written ?x2 (?j + 1) (keys r)), T\<lparr>direction := ROOT, direction := d'\<rparr>))))
        \<and> (after (InR l n # c) \<noteq> [] \<longrightarrow> inorder_loop (At (fst k)) False (?j + 1) (Arr ?x2) (T\<lparr>direction := ROOT\<rparr>)
            = inorder_loop (parent_of (InR l n # c)) False (?j + 1 + size r) (Arr (written ?x2 (?j + 1) (keys r)))
                (T\<lparr>direction := ROOT, direction := side (InR l n # c)\<rparr>))"
        using Node.IH(2) [of "T\<lparr>direction := ROOT\<rparr>" "InR l n # c" r1 k r2 ?x2 "?j + 1"] repR N Node.prems(4,5) tot(2) kl [of l]
        by (simp add: bst_rep_def)
      then show ?thesis
        using step go up [of False RIGHT "Arr ?x3"] unfolding x3 by (auto simp: add.assoc)
    qed
  qed
  have same: "T\<lparr>direction := ROOT\<rparr> = T" using Node.prems(3) by simp
  show ?case
  proof (cases l)
    case Leaf
    then show ?thesis using print [of ROOT] same by simp
  next
    case N: (Node l1 k l2)
    have go: "?loop False i (Arr xs) (T\<lparr>direction := ROOT\<rparr>) = inorder_loop (At (fst k)) False i (Arr xs) (T\<lparr>direction := ROOT\<rparr>)"
      using tot nd [of ROOT] N by (subst inorder_loop.simps) simp
    have "inorder_loop (At (fst k)) False i (Arr xs) T = ?loop False ?j (Arr ?x1) (T\<lparr>direction := LEFT\<rparr>)"
      using Node.IH(1) [of T "InL n r # c" l1 k l2 xs i] repL N Node.prems(3,4,5) by simp
    then show ?thesis using go [unfolded same] print [of LEFT] by simp
  qed
qed simp

fun pre_after :: "'x frame list \<Rightarrow> 'x list" where
  "pre_after [] = []"
| "pre_after (InL n r # c) = preorder r @ pre_after c"
| "pre_after (InR l n # c) = pre_after c"

definition pre_keys :: "'a atree \<Rightarrow> 'a list" where
  "pre_keys t = map snd (preorder t)"

lemma pre_keys_simps [simp]: "pre_keys Leaf = []" "pre_keys (Node l n r) = snd n # pre_keys l @ pre_keys r"
  by (simp_all add: pre_keys_def)

lemma length_pre_keys [simp]: "length (pre_keys t) = size t"
  by (simp add: pre_keys_def)

lemma preorder_Nil [simp]: "preorder t = [] \<longleftrightarrow> t = Leaf"
  by (cases t) simp_all

lemma preorder_visit:
  assumes "bst_rep T (plug c s)" "s = Node l n r" "direction T = ROOT"
    "BinarySearchTree_size T = i + size l + size r + length (pre_after c)" "BinarySearchTree_size T \<le> length xs"
  shows "(pre_after c = [] \<longrightarrow> (\<exists>d. preorder_loop (At (fst n)) i (Arr xs) T
        = Some (Inr (Arr (written xs i (pre_keys l @ pre_keys r)), T\<lparr>direction := d\<rparr>))))
    \<and> (pre_after c \<noteq> [] \<longrightarrow> preorder_loop (At (fst n)) i (Arr xs) T
        = preorder_loop (parent_of c) (i + size l + size r) (Arr (written xs i (pre_keys l @ pre_keys r))) (T\<lparr>direction := side c\<rparr>))"
  using assms
proof (induction s arbitrary: c l n r T xs i)
  case (Node sl sn sr)
  have eq [simp]: "sl = l" "sn = n" "sr = r" using Node.prems(2) by simp_all
  let ?s = "Node l n r" and ?loop = "preorder_loop (At (fst n))"
  have rep: "bst_rep T (plug c ?s)" using Node.prems(1) by simp
  have repL: "bst_rep T (plug (InL n r # c) l)" and repR: "bst_rep T (plug (InR l n # c) r)" using rep by simp_all
  note tot = Node.prems(4,5)
  have lim: "BinarySearchTree_size T < 4294967295" using holdsD(6,7) [OF bst_repD(1) [OF rep]] by simp
  have nd: "node_at (At (fst n)) (T\<lparr>direction := d\<rparr>) = Inr \<lparr>bitem = snd n, bleft = tlink l, bright = tlink r\<rparr>" for d
    using node_at_place [OF bst_repD(1) [OF rep]] by simp
  have fp: "FindParent (snd n) (T\<lparr>direction := d\<rparr>) = Some (Inr (parent_of c, T\<lparr>direction := side c\<rparr>))" for d
    using FindParent_at [of "T\<lparr>direction := d\<rparr>" c l n r] rep by (simp add: bst_rep_def)
  let ?x1 = "written xs i (pre_keys l)" and ?x2 = "written xs i (pre_keys l @ pre_keys r)"
  let ?j = "i + size l" and ?e = "i + size l + size r"
  have up: "(r = Leaf \<and> (d = LEFT \<or> d = ROOT \<and> l = Leaf)) \<or> d = RIGHT \<Longrightarrow> pre_after c \<noteq> [] \<Longrightarrow>
      ?loop ?e ys (T\<lparr>direction := d\<rparr>) = preorder_loop (parent_of c) ?e ys (T\<lparr>direction := side c\<rparr>)" for d ys
    using tot(1) nd [of d] fp [of d] by (subst preorder_loop.simps) auto
  have x2: "written ?x1 ?j (pre_keys r) = ?x2" using written_append [of i "pre_keys l" xs "pre_keys r"] tot by simp
  have second: "(pre_after c = [] \<longrightarrow> (\<exists>d'. ?loop ?j (Arr ?x1) (T\<lparr>direction := d\<rparr>) = Some (Inr (Arr ?x2, T\<lparr>direction := d'\<rparr>))))
      \<and> (pre_after c \<noteq> [] \<longrightarrow> ?loop ?j (Arr ?x1) (T\<lparr>direction := d\<rparr>)
          = preorder_loop (parent_of c) ?e (Arr ?x2) (T\<lparr>direction := side c\<rparr>))"
    if d: "d = LEFT \<or> d = ROOT \<and> l = Leaf" for d
  proof (cases r)
    case Leaf
    have j: "?e = ?j" "?x2 = ?x1" using Leaf by simp_all
    show ?thesis
    proof (cases "pre_after c = []")
      case True
      have "?loop ?e (Arr ?x2) (T\<lparr>direction := d\<rparr>) = Some (Inr (Arr ?x2, T\<lparr>direction := d\<rparr>))"
        using tot(1) True by (subst preorder_loop.simps) simp
      then show ?thesis using True unfolding j by auto
    next
      case False
      then show ?thesis using up [of d "Arr ?x2"] d Leaf unfolding j by auto
    qed
  next
    case N: (Node r1 k r2)
    let ?y = "written ?x1 ?j [snd k]"
    have ndk: "node_at (At (fst k)) (T\<lparr>direction := d\<rparr>) = Inr \<lparr>bitem = snd k, bleft = tlink r1, bright = tlink r2\<rparr>"
      using node_at_place [of T "InR l n # c" r1 k r2] bst_repD(1) [OF repR] N by simp
    have go: "?loop ?j (Arr ?x1) (T\<lparr>direction := d\<rparr>) = preorder_loop (At (fst k)) (?j + 1) (Arr ?y) (T\<lparr>direction := ROOT\<rparr>)"
      using tot lim nd [of d] ndk d N poke_written [of ?j ?x1 "snd k"] by (subst preorder_loop.simps) auto
    have y: "written ?y (?j + 1) (pre_keys r1 @ pre_keys r2) = ?x2"
      using written_append [of ?j "[snd k]" ?x1 "pre_keys r1 @ pre_keys r2"] x2 N tot by simp
    have "(pre_after (InR l n # c) = [] \<longrightarrow> (\<exists>d'. preorder_loop (At (fst k)) (?j + 1) (Arr ?y) (T\<lparr>direction := ROOT\<rparr>)
          = Some (Inr (Arr (written ?y (?j + 1) (pre_keys r1 @ pre_keys r2)), T\<lparr>direction := ROOT, direction := d'\<rparr>))))
      \<and> (pre_after (InR l n # c) \<noteq> [] \<longrightarrow> preorder_loop (At (fst k)) (?j + 1) (Arr ?y) (T\<lparr>direction := ROOT\<rparr>)
          = preorder_loop (parent_of (InR l n # c)) (?j + 1 + size r1 + size r2) (Arr (written ?y (?j + 1) (pre_keys r1 @ pre_keys r2)))
              (T\<lparr>direction := ROOT, direction := side (InR l n # c)\<rparr>))"
      using Node.IH(2) [of "T\<lparr>direction := ROOT\<rparr>" "InR l n # c" r1 k r2 "?j + 1" ?y] repR N tot
      by (simp add: bst_rep_def)
    then show ?thesis
      using go up [of RIGHT "Arr ?x2"] N unfolding y by (auto simp: add.assoc)
  qed
  have same: "T\<lparr>direction := ROOT\<rparr> = T" using Node.prems(3) by simp
  show ?case
  proof (cases l)
    case Leaf
    then show ?thesis using second [of ROOT] same by simp
  next
    case N: (Node l1 k l2)
    let ?y = "written xs i [snd k]"
    have ndk: "node_at (At (fst k)) T = Inr \<lparr>bitem = snd k, bleft = tlink l1, bright = tlink l2\<rparr>"
      using node_at_place [of T "InL n r # c" l1 k l2] bst_repD(1) [OF repL] N by simp
    have go: "?loop i (Arr xs) (T\<lparr>direction := ROOT\<rparr>) = preorder_loop (At (fst k)) (i + 1) (Arr ?y) (T\<lparr>direction := ROOT\<rparr>)"
      using tot lim nd [of ROOT] ndk N poke_written [of i xs "snd k"] by (subst preorder_loop.simps) simp
    have y: "written ?y (i + 1) (pre_keys l1 @ pre_keys l2) = ?x1"
      using written_append [of i "[snd k]" xs "pre_keys l1 @ pre_keys l2"] N tot by simp
    have ih: "(pre_after (InL n r # c) = [] \<longrightarrow> (\<exists>d. preorder_loop (At (fst k)) (i + 1) (Arr ?y) T
          = Some (Inr (Arr (written ?y (i + 1) (pre_keys l1 @ pre_keys l2)), T\<lparr>direction := d\<rparr>))))
      \<and> (pre_after (InL n r # c) \<noteq> [] \<longrightarrow> preorder_loop (At (fst k)) (i + 1) (Arr ?y) T
          = preorder_loop (parent_of (InL n r # c)) (i + 1 + size l1 + size l2) (Arr (written ?y (i + 1) (pre_keys l1 @ pre_keys l2)))
              (T\<lparr>direction := side (InL n r # c)\<rparr>))"
      using Node.IH(1) [of T "InL n r # c" l1 k l2 "i + 1" ?y] repL N Node.prems(3) tot by simp
    show ?thesis
    proof (cases "pre_after (InL n r # c) = []")
      case True
      then show ?thesis using go [unfolded same] ih unfolding y by auto
    next
      case False
      have j: "i + 1 + size l1 + size l2 = ?j" using N by simp
      show ?thesis using go [unfolded same] ih [unfolded y j] False second [of LEFT] by simp
    qed
  qed
qed simp

lemma Postorder_runs:
  assumes "shape (cells (bmem T)) s" "s \<noteq> Leaf" "i + size s \<le> length xs" "i + size s < 4294967296"
  shows "DisplayPostorderRecursive (tlink s) (Arr xs) i T = Some (Inr (Arr (written xs i (map snd (postorder s))), i + size s))"
  using assms
proof (induction s arbitrary: xs i)
  case (Node l n r)
  let ?post = "\<lambda>t. map snd (postorder t)"
  let ?x1 = "written xs i (?post l)" and ?x2 = "written xs i (?post l @ ?post r)"
  note nd = node_at_tlink [OF Node.prems(1)]
  have L: "(if tlink l \<noteq> NIL then DisplayPostorderRecursive (tlink l) (Arr xs) i T else Some (Inr (Arr xs, i)))
      = Some (Inr (Arr ?x1, i + size l))"
    using Node.IH(1) [of i xs] Node.prems by auto
  have "(if tlink r \<noteq> NIL then DisplayPostorderRecursive (tlink r) (Arr ?x1) (i + size l) T else Some (Inr (Arr ?x1, i + size l)))
      = Some (Inr (Arr (written ?x1 (i + size l) (?post r)), i + size l + size r))"
    using Node.IH(2) [of "i + size l" ?x1] Node.prems by auto
  then have R: "(if tlink r \<noteq> NIL then DisplayPostorderRecursive (tlink r) (Arr ?x1) (i + size l) T else Some (Inr (Arr ?x1, i + size l)))
      = Some (Inr (Arr ?x2, i + size l + size r))"
    using written_append [of i "?post l" xs "?post r"] Node.prems(3) by simp
  have P: "poke (Arr ?x2) (i + size l + size r) (snd n) = Inr (Arr (written xs i (?post (Node l n r))))"
    using poke_written [of "i + size l + size r" ?x2 "snd n"] written_append [of i "?post l @ ?post r" xs "[snd n]"] Node.prems(3)
    by (simp add: add.assoc)
  show ?case
    unfolding tlink.simps
    by (subst DisplayPostorderRecursive.simps) (use nd L R P Node.prems(4) in \<open>cases "l = Leaf"; cases "r = Leaf"; simp add: add.assoc\<close>)
qed simp

section \<open>Levels\<close>

function by_levels :: "'x tree list \<Rightarrow> 'x list" where
  "by_levels [] = []"
| "by_levels (Leaf # ts) = by_levels ts"
| "by_levels (Node l n r # ts) = n # by_levels (ts @ [l, r])"
  by pat_completeness auto

termination by_levels
  by (relation "measure (\<lambda>ts. \<Sum>t\<leftarrow>ts. 2 * size t + 1)") auto

lemma mset_by_levels: "mset (by_levels ts) = (\<Sum>t\<leftarrow>ts. mset (inorder t))"
  by (induction ts rule: by_levels.induct) (auto simp: ac_simps)

lemma length_by_levels: "length (by_levels ts) = (\<Sum>t\<leftarrow>ts. size t)"
proof -
  have "size (\<Sum>t\<leftarrow>ts. mset (inorder t)) = (\<Sum>t\<leftarrow>ts. size t)" by (induction ts) simp_all
  then show ?thesis using arg_cong [OF mset_by_levels [of ts], of size] by simp
qed

abbreviation proper :: "'x tree list \<Rightarrow> 'x tree list" where
  "proper ts \<equiv> filter (\<lambda>t. t \<noteq> Leaf) ts"

lemma by_levels_proper: "by_levels (proper ts) = by_levels ts"
proof (induction ts rule: by_levels.induct)
  case (3 l n r ts)
  have "by_levels (proper ts @ [l, r]) = by_levels (ts @ [l, r])" if "by_levels (proper (ts @ [l, r])) = by_levels (ts @ [l, r])"
  proof -
    have skip: "by_levels (us @ Leaf # vs) = by_levels (us @ vs)" for us vs :: "'a tree list"
      by (induction "us @ Leaf # vs" arbitrary: us vs rule: by_levels.induct) (auto simp: Cons_eq_append_conv)
    show ?thesis using that skip [of "proper ts" "[r]"] skip [of "proper ts @ [l]" "[]"] skip [of "proper ts" "[]"]
      by (cases "l = Leaf"; cases "r = Leaf") simp_all
  qed
  then show ?case using 3 by simp
qed simp_all

text \<open>The queue holds the pointers to the trees to come.\<close>

definition queued :: "link linked \<Rightarrow> 'a bst \<Rightarrow> 'a atree list \<Rightarrow> bool" where
  "queued q T ts \<longleftrightarrow> (\<exists>i. cursor q (map tlink ts) i) \<and> (\<forall>t \<in> set ts. t \<noteq> Leaf \<and> shape (cells (bmem T)) t)"

lemma queued_Push:
  assumes "queued q T ts" "t \<noteq> Leaf" "shape (cells (bmem T)) t" "length ts < 4294967295"
  shows "\<exists>q'. QLL_Push (tlink t) q = Inr q' \<and> queued q' T (ts @ [t])"
proof -
  obtain i where "cursor q (map tlink ts) i" using assms(1) by (auto simp: queued_def)
  from QLL_gives(1) [OF this, of "tlink t"] assms show ?thesis by (auto simp: gives_def queued_def)
qed

lemma queued_Pop:
  assumes "queued q T (t # ts)"
  shows "\<exists>q'. QLL_Pop q = Inr (tlink t, q') \<and> queued q' T ts"
proof -
  obtain i where "cursor q (map tlink (t # ts)) i" using assms by (auto simp: queued_def)
  from QLL_gives(2) [OF this] assms show ?thesis by (auto simp: queued_def)
qed

lemma queued_Size: "queued q T ts \<Longrightarrow> QLL_Size q = length ts"
  using QLL_gives(3) [of q "map tlink ts"] by (auto simp: queued_def)

lemma queued_children:
  assumes "queued q T ts" "shape (cells (bmem T)) (Node l n r)" "length ts + 2 < 4294967295"
  shows "\<exists>q'. push_children \<lparr>bitem = x, bleft = tlink l, bright = tlink r\<rparr> q = Inr q' \<and> queued q' T (ts @ proper [l, r])"
proof -
  have "\<exists>q1. (if l \<noteq> Leaf then QLL_Push (tlink l) q else Inr q) = Inr q1 \<and> queued q1 T (ts @ proper [l])"
    using queued_Push [OF assms(1), of l] assms by auto
  then obtain q1 where q1: "(if l \<noteq> Leaf then QLL_Push (tlink l) q else Inr q) = Inr q1" "queued q1 T (ts @ proper [l])" by blast
  have "\<exists>q2. (if r \<noteq> Leaf then QLL_Push (tlink r) q1 else Inr q1) = Inr q2 \<and> queued q2 T ((ts @ proper [l]) @ proper [r])"
    using queued_Push [OF q1(2), of r] assms q1(2) by auto
  then show ?thesis using q1(1) by (auto simp: push_children_def)
qed

lemma queue_root:
  assumes "holds T t" "t \<noteq> Leaf"
  shows "\<exists>q. QLL_Push (broot T) CLL_new = Inr q \<and> queued q T [t]"
proof -
  have "queued (CLL_new :: link linked) T []" using cursor_new by (auto simp: queued_def)
  from queued_Push [OF this assms(2)] holdsD(1,2) [OF assms(1)] show ?thesis by simp
qed

lemma sizes_le: "\<forall>t \<in> set ts. t \<noteq> Leaf \<Longrightarrow> length ts \<le> (\<Sum>t\<leftarrow>ts. size t)" for ts :: "'x tree list"
proof (induction ts)
  case (Cons t ts)
  then show ?case by (cases t) simp_all
qed simp

text \<open>One turn of the loops over the queue.\<close>

lemma level_step:
  assumes "queued q T ts" "ts \<noteq> []" "(\<Sum>t\<leftarrow>ts. size t) < 4294967294"
  obtains l n r ts' q1 q2 ts2 where "ts = Node l n r # ts'" "ts2 = ts' @ proper [l, r]" "QLL_Pop q = Inr (At (fst n), q1)"
    "node_at (At (fst n)) T = Inr \<lparr>bitem = snd n, bleft = tlink l, bright = tlink r\<rparr>"
    "push_children \<lparr>bitem = snd n, bleft = tlink l, bright = tlink r\<rparr> q1 = Inr q2" "queued q2 T ts2" "QLL_Size q2 = length ts2"
    "by_levels ts = n # by_levels ts2" "(\<Sum>t\<leftarrow>ts. size t) = Suc (\<Sum>t\<leftarrow>ts2. size t)"
    "set (concat (map inorder ts)) = insert n (set (concat (map inorder ts2)))"
proof -
  obtain t ts' where t: "ts = t # ts'" using assms(2) by (cases ts) auto
  then have "t \<noteq> Leaf" using assms(1) by (simp add: queued_def)
  then obtain l n r where "t = Node l n r" unfolding neq_Leaf_iff by blast
  then have ts: "ts = Node l n r # ts'" using t by simp
  let ?ts2 = "ts' @ proper [l, r]"
  obtain q1 where q1: "QLL_Pop q = Inr (At (fst n), q1)" "queued q1 T ts'" using queued_Pop [of q T "Node l n r" ts'] assms(1) unfolding ts tlink.simps by blast
  have sh: "shape (cells (bmem T)) (Node l n r)" using assms(1) ts by (simp add: queued_def)
  have "length ts' \<le> (\<Sum>t\<leftarrow>ts'. size t)" using assms(1) ts by (intro sizes_le) (simp add: queued_def)
  then have two: "length ts' + 2 < 4294967295" using assms(3) ts by simp
  obtain q2 where q2: "push_children \<lparr>bitem = snd n, bleft = tlink l, bright = tlink r\<rparr> q1 = Inr q2" "queued q2 T ?ts2"
    using queued_children [OF q1(2) sh two, of "snd n"] by (elim exE conjE) (rule that)
  have "proper ts' = ts'" using assms(1) unfolding ts queued_def by (intro filter_True) simp
  then have b: "by_levels ts = n # by_levels ?ts2"
    using by_levels_proper [of "ts' @ [l, r]"] ts by (simp only: filter_append by_levels.simps)
  have s: "(\<Sum>t\<leftarrow>ts. size t) = Suc (\<Sum>t\<leftarrow>?ts2. size t)" "set (concat (map inorder ts)) = insert n (set (concat (map inorder ?ts2)))"
    using ts by auto
  show ?thesis
    by (rule that [OF ts refl q1(1) node_at_tlink [OF sh] q2 queued_Size [OF q2(2)] b s])
qed

lemma level_loop_runs:
  assumes "queued q T ts" "ts \<noteq> []" "i + (\<Sum>t\<leftarrow>ts. size t) \<le> length xs" "i + (\<Sum>t\<leftarrow>ts. size t) < 4294967294"
  shows "level_loop i (Arr xs) q T = Some (Inr (Arr (written xs i (map snd (by_levels ts)))))"
  using assms
proof (induction "\<Sum>t\<leftarrow>ts. size t" arbitrary: q i xs ts rule: less_induct)
  case less
  have "(\<Sum>t\<leftarrow>ts. size t) < 4294967294" using less.prems(4) by simp
  from level_step [OF less.prems(1,2) this]
  obtain l n r ts' q1 q2 ts2 where st: "ts = Node l n r # ts'" "ts2 = ts' @ proper [l, r]" "QLL_Pop q = Inr (At (fst n), q1)"
    "node_at (At (fst n)) T = Inr \<lparr>bitem = snd n, bleft = tlink l, bright = tlink r\<rparr>"
    "push_children \<lparr>bitem = snd n, bleft = tlink l, bright = tlink r\<rparr> q1 = Inr q2" "queued q2 T ts2" "QLL_Size q2 = length ts2"
    "by_levels ts = n # by_levels ts2" "(\<Sum>t\<leftarrow>ts. size t) = Suc (\<Sum>t\<leftarrow>ts2. size t)"
    "set (concat (map inorder ts)) = insert n (set (concat (map inorder ts2)))" .
  let ?y = "written xs i [snd n]"
  have p: "poke (Arr xs) i (snd n) = Inr (Arr ?y)" using poke_written [of i xs] less.prems(3) st(9) by simp
  show ?case
  proof (cases "ts2 = []")
    case True
    then show ?thesis using st(3-9) p by (subst level_loop.simps) simp
  next
    case False
    have "level_loop (i + 1) (Arr ?y) q2 T = Some (Inr (Arr (written ?y (i + 1) (map snd (by_levels ts2)))))"
      using less.prems(3,4) st(6,9) False by (intro less.hyps) simp_all
    moreover have "written ?y (i + 1) (map snd (by_levels ts2)) = written xs i (map snd (by_levels ts))"
      using written_append [of i "[snd n]" xs "map snd (by_levels ts2)"] less.prems(3) st(8,9) by simp
    ultimately show ?thesis
      using st(3-7) p False less.prems(4) st(9) by (subst level_loop.simps) simp
  qed
qed

lemma tree_copy_loop_runs:
  assumes "queued q orig ts" "ts \<noteq> []" "bst_rep T t" "size t + (\<Sum>t\<leftarrow>ts. size t) < 4294967294"
  shows "\<exists>T' t'. tree_copy_loop q orig T = Some (Inr T') \<and> bst_rep T' t'
    \<and> set (keys t') = set (keys t) \<union> snd ` set (concat (map inorder ts))"
  using assms
proof (induction "\<Sum>t\<leftarrow>ts. size t" arbitrary: q ts T t rule: less_induct)
  case less
  have "(\<Sum>t\<leftarrow>ts. size t) < 4294967294" using less.prems(4) by simp
  from level_step [OF less.prems(1,2) this]
  obtain l n r ts' q1 q2 ts2 where st: "ts = Node l n r # ts'" "ts2 = ts' @ proper [l, r]" "QLL_Pop q = Inr (At (fst n), q1)"
    "node_at (At (fst n)) orig = Inr \<lparr>bitem = snd n, bleft = tlink l, bright = tlink r\<rparr>"
    "push_children \<lparr>bitem = snd n, bleft = tlink l, bright = tlink r\<rparr> q1 = Inr q2" "queued q2 orig ts2" "QLL_Size q2 = length ts2"
    "by_levels ts = n # by_levels ts2" "(\<Sum>t\<leftarrow>ts. size t) = Suc (\<Sum>t\<leftarrow>ts2. size t)"
    "set (concat (map inorder ts)) = insert n (set (concat (map inorder ts2)))" .
  obtain p T1 t1 where a: "BST_Add (snd n) T = Some (Inr (p, T1))" "bst_rep T1 t1" "set (keys t1) = insert (snd n) (set (keys t))"
    using BST_Add_rep [OF less.prems(3), of "snd n"] less.prems(4) by auto
  have "card (set (keys t1)) \<le> Suc (card (set (keys t)))" unfolding a(3) by (simp add: card_insert_if)
  then have s1: "size t1 \<le> Suc (size t)" using card_keys [OF a(2)] card_keys [OF less.prems(3)] by simp
  show ?case
  proof (cases "ts2 = []")
    case True
    then show ?thesis using st(3-10) a by (subst tree_copy_loop.simps) auto
  next
    case False
    have "\<exists>T' t'. tree_copy_loop q2 orig T1 = Some (Inr T') \<and> bst_rep T' t'
        \<and> set (keys t') = set (keys t1) \<union> snd ` set (concat (map inorder ts2))"
      using less.prems(4) st(6,9) False s1 a(2) by (intro less.hyps) simp_all
    then show ?thesis using st(3-10) a False by (subst tree_copy_loop.simps) auto
  qed
qed

section \<open>Whole trees\<close>

lemma single_tree:
  assumes "holds T t" "size t = 1" "xs \<noteq> []"
  shows "\<exists>n. t = Node Leaf n Leaf \<and> display_root (Arr xs) T = Some (Inr (Arr (written xs 0 [snd n])))"
proof -
  obtain l n r where t: "t = Node l n r" "l = Leaf" "r = Leaf" using assms(2) by (cases t) auto
  have "node_at (broot T) T = Inr \<lparr>bitem = snd n, bleft = NIL, bright = NIL\<rparr>"
    using node_at_place [of T "[]" l n r] assms(1) holdsD(2) [OF assms(1)] t by simp
  then show ?thesis using t assms(3) poke_written [of 0 xs "snd n"] by (simp add: display_root_def)
qed

lemma same_direction [simp]: "\<exists>d. T = T\<lparr>direction := d\<rparr>"
  by (rule exI [of _ "direction T"]) simp

lemma DisplayInorder_runs:
  assumes rep: "bst_rep T t" and room: "size t \<le> length xs"
  shows "\<exists>d. DisplayInorder (Arr xs) T = Some (Inr (Arr (written xs 0 (keys t)), T\<lparr>direction := d\<rparr>))"
proof -
  note h = bst_repD(1) [OF rep]
  note sz = holdsD(2,6) [OF h]
  consider "t = Leaf" | "size t = 1" | l n r where "t = Node l n r" "size t \<noteq> 1" by (cases t) auto
  then show ?thesis
  proof cases
    case 1
    then show ?thesis using sz by (simp add: DisplayInorder_def)
  next
    case 2
    then have "xs \<noteq> []" using room by auto
    from single_tree [OF h 2 this] sz 2 show ?thesis by (auto simp: DisplayInorder_def)
  next
    case 3
    have "(after [] = ([] :: (nat \<times> 'a) list) \<longrightarrow> (\<exists>d. inorder_loop (At (fst n)) False 0 (Arr xs) (T\<lparr>direction := ROOT\<rparr>)
        = Some (Inr (Arr (written xs 0 (keys t)), T\<lparr>direction := ROOT, direction := d\<rparr>))))"
      using inorder_visit [of "T\<lparr>direction := ROOT\<rparr>" "[]" t l n r xs 0] rep room 3 by simp
    then show ?thesis using 3 sz by (auto simp: DisplayInorder_def)
  qed
qed

lemma DisplayPreorder_runs:
  assumes rep: "bst_rep T t" and room: "size t \<le> length xs"
  shows "\<exists>d. DisplayPreorder (Arr xs) T = Some (Inr (Arr (written xs 0 (pre_keys t)), T\<lparr>direction := d\<rparr>))"
proof -
  note h = bst_repD(1) [OF rep]
  note sz = holdsD(2,6) [OF h]
  consider "t = Leaf" | "size t = 1" | l n r where "t = Node l n r" "size t \<noteq> 1" by (cases t) auto
  then show ?thesis
  proof cases
    case 1
    then show ?thesis using sz by (simp add: DisplayPreorder_def)
  next
    case 2
    then have "xs \<noteq> []" using room by auto
    from single_tree [OF h 2 this] sz 2 show ?thesis by (auto simp: DisplayPreorder_def)
  next
    case 3
    let ?y = "written xs 0 [snd n]"
    have pos: "0 < length xs" using 3 room by (cases xs) simp_all
    have "\<exists>d. preorder_loop (At (fst n)) 1 (Arr ?y) (T\<lparr>direction := ROOT\<rparr>)
        = Some (Inr (Arr (written ?y 1 (pre_keys l @ pre_keys r)), T\<lparr>direction := ROOT, direction := d\<rparr>))"
      using preorder_visit [of "T\<lparr>direction := ROOT\<rparr>" "[]" t l n r 1 ?y] rep room 3 sz by simp
    moreover have "written ?y 1 (pre_keys l @ pre_keys r) = written xs 0 (pre_keys t)"
      using written_append [of 0 "[snd n]" xs "pre_keys l @ pre_keys r"] 3 room by simp
    moreover have "poke (Arr xs) 0 (snd n) = Inr (Arr ?y)" using pos by (rule poke_written)
    ultimately show ?thesis
      using 3 sz node_at_place [of T "[]" l n r] h by (auto simp: DisplayPreorder_def Let_def)
  qed
qed

lemma DisplayPostorder_runs:
  assumes rep: "bst_rep T t" and room: "size t \<le> length xs"
  shows "DisplayPostorder (Arr xs) T = Some (Inr (Arr (written xs 0 (map snd (postorder t)))))"
proof -
  note h = bst_repD(1) [OF rep]
  note d = holdsD(1,2,6,7) [OF h]
  consider "t = Leaf" | "size t = 1" | "t \<noteq> Leaf" "size t \<noteq> 1" by blast
  then show ?thesis
  proof cases
    case 1
    then show ?thesis using d by (simp add: DisplayPostorder_def)
  next
    case 2
    then have "xs \<noteq> []" using room by auto
    from single_tree [OF h 2 this] d 2 show ?thesis by (auto simp: DisplayPostorder_def)
  next
    case 3
    then show ?thesis using Postorder_runs [of T t 0 xs] d room by (simp add: DisplayPostorder_def)
  qed
qed

lemma DisplayLevels_runs:
  assumes rep: "bst_rep T t" and room: "size t \<le> length xs" "size t < 4294967294"
  shows "DisplayBreadthFirstSearch (Arr xs) T = Some (Inr (Arr (written xs 0 (map snd (by_levels [t])))))"
proof -
  note h = bst_repD(1) [OF rep]
  note d = holdsD(1,2,6,7) [OF h]
  consider "t = Leaf" | "size t = 1" | "t \<noteq> Leaf" "size t \<noteq> 1" by blast
  then show ?thesis
  proof cases
    case 1
    then show ?thesis using d by (simp add: DisplayBreadthFirstSearch_def)
  next
    case 2
    then have "xs \<noteq> []" using room by auto
    from single_tree [OF h 2 this] d 2 show ?thesis by (auto simp: DisplayBreadthFirstSearch_def)
  next
    case 3
    obtain q where q: "QLL_Push (broot T) CLL_new = Inr q" "queued q T [t]" using queue_root [OF h 3(1)] by blast
    then show ?thesis using level_loop_runs [OF q(2), of 0 xs] d room 3 by (simp add: DisplayBreadthFirstSearch_def)
  qed
qed

lemma copy_tree_runs:
  assumes rep: "bst_rep T t" and room: "size t < 4294967294" and new: "bst_rep T0 Leaf"
  shows "\<exists>C c. copy_tree T T0 = Some (Inr C) \<and> bst_rep C c \<and> set (keys c) = set (keys t)"
proof -
  note h = bst_repD(1) [OF rep]
  have t0: "T0\<lparr>BinarySearchTree_size := 0, broot := NIL\<rparr> = T0" using holdsD(2,6) [OF bst_repD(1) [OF new]] by simp
  show ?thesis
  proof (cases "t = Leaf")
    case True
    then show ?thesis using holdsD(6) [OF h] new t0 by (auto simp: copy_tree_def)
  next
    case False
    obtain q where q: "QLL_Push (broot T) CLL_new = Inr q" "queued q T [t]" using queue_root [OF h False] by blast
    have "\<exists>C c. tree_copy_loop q T T0 = Some (Inr C) \<and> bst_rep C c \<and> set (keys c) = snd ` set (inorder t)"
      using tree_copy_loop_runs [OF q(2) _ new] room by auto
    then show ?thesis using q t0 False holdsD(6) [OF h] by (simp add: copy_tree_def Let_def keys_def)
  qed
qed

lemma keys_sorted_list:
  assumes "bst_rep T t"
  shows "keys t = sorted_list_of_set (set (keys t))"
  using bst_repD(2) [OF assms] by (simp add: strict_sorted_iff sorted_list_of_set.idem_if_sorted_distinct)

lemma written_all: "length ys \<le> length xs \<Longrightarrow> take (length ys) (written xs 0 ys) = ys \<and> drop (length ys) (written xs 0 ys) = drop (length ys) xs"
  by (simp add: written_def)

lemma mset_orders: "mset (preorder t) = mset (inorder t)" "mset (postorder t) = mset (inorder t)"
  by (induction t) (simp_all add: ac_simps)

lemma card_spec: "card (bst_spec op S) \<le> Suc (card S)"
proof (cases op)
  case (BAdd x)
  then show ?thesis by (cases "finite S") (simp_all add: card_insert_if)
next
  case (BDel x)
  then show ?thesis by (cases "finite S") (auto intro: le_trans [OF card_Diff1_le])
qed simp_all

text \<open>The elements of one level of a tree, from left to right: what the queue hands out is level after level.\<close>

fun level :: "nat \<Rightarrow> 'x tree \<Rightarrow> 'x list" where
  "level k Leaf = []"
| "level 0 (Node l n r) = [n]"
| "level (Suc k) (Node l n r) = level k l @ level k r"

fun kids :: "'x tree \<Rightarrow> 'x tree list" where
  "kids Leaf = []"
| "kids (Node l n r) = [l, r]"

lemma by_levels_heads: "by_levels (ts @ us) = concat (map (level 0) ts) @ by_levels (us @ concat (map kids ts))"
proof (induction ts arbitrary: us)
  case (Cons t ts)
  then show ?case by (cases t) simp_all
qed simp

lemma level_kids: "concat (map (level k) (concat (map kids ts))) = concat (map (level (Suc k)) ts)"
proof (induction ts)
  case (Cons t ts)
  then show ?case by (cases t) simp_all
qed simp

lemma by_levels_all:
  "(\<And>t. t \<in> set ts \<Longrightarrow> height t \<le> m) \<Longrightarrow> by_levels ts = concat (map (\<lambda>k. concat (map (level k) ts)) [0..<m])"
proof (induction m arbitrary: ts)
  case 0
  then have "ts = replicate (length ts) Leaf" by (intro replicate_eqI) auto
  moreover have "by_levels (replicate n Leaf) = []" for n by (induction n) simp_all
  ultimately show ?case by (metis concat.simps(1) list.simps(8) upt_0)
next
  case (Suc m)
  have "height k \<le> m" if k: "k \<in> set (concat (map kids ts))" for k
  proof -
    obtain t where t: "t \<in> set ts" "k \<in> set (kids t)" using k by auto
    show ?thesis using Suc.prems [OF t(1)] t(2) by (cases t rule: kids.cases) auto
  qed
  then have "by_levels (concat (map kids ts)) = concat (map (\<lambda>k. concat (map (level (Suc k)) ts)) [0..<m])"
    using Suc.IH [of "concat (map kids ts)"] by (simp add: level_kids)
  moreover have "[0..<Suc m] = 0 # map Suc [0..<m]" by (simp add: upt_conv_Cons map_Suc_upt del: upt_Suc)
  ultimately show ?case using by_levels_heads [of ts "[]"] by (simp add: comp_def del: upt_Suc)
qed

lemma by_levels_tree: "by_levels [t] = concat (map (\<lambda>k. level k t) [0..<height t])"
  using by_levels_all [of "[t]" "height t"] by simp

lemma card_run:
  assumes "S = fold bst_spec ops {}"
  shows "card S \<le> length ops"
  unfolding assms
proof (induction ops rule: rev_induct)
  case (snoc op ops)
  then show ?case using card_spec [of op "fold bst_spec ops {}"] by simp
qed simp

text \<open>A copy of a tree, made in the order of the levels or assigned over another tree, has the same elements.\<close>

lemma copies_hold_all:
  assumes "bst_rep T t" "size t < 4294967294" "bst_rep T0 t0"
  shows "(\<exists>C c. BST_copy T = Some (Inr C) \<and> bst_rep C c \<and> set (keys c) = set (keys t))
    \<and> (\<exists>C c. BST_assign False T T0 = Some (Inr C) \<and> bst_rep C c \<and> set (keys c) = set (keys t))"
proof -
  obtain U where U: "BST_Clear T0 = Some (Inr U)" "bst_rep U Leaf" using BST_Clear_runs [OF assms(3)] by blast
  show ?thesis
    using copy_tree_runs [OF assms(1,2) BST_new_rep] copy_tree_runs [OF assms(1,2) U(2)] U(1)
    by (auto simp: BST_copy_def BST_assign_def)
qed

text \<open>C36: the traversals of a tree that any legal sequence of operations leaves write each element once, in their order, to
  the front of the array and leave what is behind alone: in order this is the sorted list of the elements, and in pre-order,
  in post-order and level by level (each from left to right) it is the order of the tree \<open>t\<close> that the nodes and
  their pointers form.\<close>

theorem traversals_write_all:
  assumes "length ops < 4294967294" "bst_legals ops {}" "bst_run_all ops BST_new = Some (Inr T)" "S = fold bst_spec ops {}"
    and "card S \<le> length xs"
  shows "\<exists>t d e. shape (cells (bmem T)) t \<and> broot T = tlink t
    \<and> DisplayInorder (Arr xs) T = Some (Inr (Arr (sorted_list_of_set S @ drop (card S) xs), T\<lparr>direction := d\<rparr>))
    \<and> DisplayPreorder (Arr xs) T = Some (Inr (Arr (map snd (preorder t) @ drop (card S) xs), T\<lparr>direction := e\<rparr>))
    \<and> DisplayPostorder (Arr xs) T = Some (Inr (Arr (map snd (postorder t) @ drop (card S) xs)))
    \<and> DisplayBreadthFirstSearch (Arr xs) T
        = Some (Inr (Arr (map snd (concat (map (\<lambda>k. level k t) [0..<height t])) @ drop (card S) xs)))
    \<and> map snd (inorder t) = sorted_list_of_set S"
proof -
  obtain t where r: "bst_rep T t" "set (keys t) = S"
    using bst_run_all_rep [OF BST_new_rep, of ops] assms by auto
  have n: "size t = card S" using card_keys [OF r(1)] r(2) by simp
  have big: "size t < 4294967294" using assms(1) card_run [OF assms(4)] n by simp
  have len: "size t \<le> length xs" using assms(5) n by simp
  have k: "keys t = sorted_list_of_set S" using keys_sorted_list [OF r(1)] r(2) by simp
  obtain d where d: "DisplayInorder (Arr xs) T = Some (Inr (Arr (written xs 0 (keys t)), T\<lparr>direction := d\<rparr>))"
    using DisplayInorder_runs [OF r(1) len] by blast
  obtain e where e: "DisplayPreorder (Arr xs) T = Some (Inr (Arr (written xs 0 (pre_keys t)), T\<lparr>direction := e\<rparr>))"
    using DisplayPreorder_runs [OF r(1) len] by blast
  have w: "written xs 0 ys = ys @ drop (card S) xs" if "length ys = size t" for ys
    using that n by (simp add: written_def)
  have "length (keys t) = size t" by (simp add: keys_def)
  moreover have "length (by_levels [t]) = size t" using length_by_levels [of "[t]"] by simp
  ultimately show ?thesis
    using d e DisplayPostorder_runs [OF r(1) len] DisplayLevels_runs [OF r(1) len big]
      holdsD(1,2) [OF bst_repD(1) [OF r(1)]] k
    by (intro exI [of _ t] exI [of _ d] exI [of _ e])
      (simp add: w pre_keys_def by_levels_tree keys_def)
qed

theorem traversals_write_all_witness:
  "\<exists>T d. bst_run_all [BAdd 2, BAdd 1] (BST_new :: nat bst) = Some (Inr T)
    \<and> DisplayInorder (Arr [7, 8, 9]) T = Some (Inr (Arr [1, 2, 9], T\<lparr>direction := d\<rparr>))"
proof -
  let ?ops = "[BAdd 2, BAdd (1 :: nat)]"
  obtain T where T: "bst_run_all ?ops (BST_new :: nat bst) = Some (Inr T)"
    using bst_run_all_rep [OF BST_new_rep, of ?ops] by (auto simp del: bst_run_all.simps)
  have "bst_legals ?ops {}" "{1, 2} = fold bst_spec ?ops {}" "sorted_list_of_set {1, 2 :: nat} = [1, 2]"
    "card {1, 2 :: nat} = 2" "drop 2 [7, 8, 9 :: nat] = [9]" "card {1, 2 :: nat} \<le> length [7, 8, 9 :: nat]"
    "length ?ops < 4294967294"
    by auto
  with traversals_write_all [of ?ops T "{1, 2}" "[7, 8, 9]"] T show ?thesis by (metis append_Cons append_Nil)
qed

end
