(* ===== verification/FloatError.thy ===== *)
theory FloatError
  imports Float32
begin

text \<open>
  How far the operations on \<^verbatim>\<open>float\<close> are from the operations on the real numbers: each result is finite when the
  exact one is moderate and differs from it by half a unit in the last place, or by less than the least number.
\<close>

section \<open>Sums, products, quotients\<close>

definition tiny :: real where
  "tiny = 2 powi -150"

lemma tiny_bounds: "0 < tiny" "0 \<le> tiny" "tiny \<le> 1 / 1000000000"
proof -
  have "(1 / 2 :: real) ^ 150 \<le> (1 / 2) ^ 30" by (rule power_decreasing) simp_all
  moreover have "(1 / 2 :: real) ^ 30 \<le> 1 / 1000000000" by (simp add: power_divide)
  moreover have "tiny = (1 / 2) ^ 150" by (simp add: tiny_def power_int_def)
  ultimately show "tiny \<le> 1 / 1000000000" by (simp only: order_trans)
qed (simp_all add: tiny_def)

lemma half_step: "q = a * (1 / 8388608) \<Longrightarrow> a \<le> x \<Longrightarrow> 0 < t \<Longrightarrow> q \<le> 2 * (1 / 16777216 * x + t)"
  for q a x t :: real
  by simp

lemma half_bound: "q \<le> 2 * b \<Longrightarrow> 2 * y \<le> q \<Longrightarrow> y \<le> b" for q b y :: real
  by simp

lemma near_trans: "\<bar>a - b\<bar> \<le> d \<Longrightarrow> \<bar>b - c\<bar> \<le> e \<Longrightarrow> \<bar>a - c\<bar> \<le> d + e" for a b c d e :: real
  by linarith

lemma round_error:
  assumes "0 < n" "of_int n * 2 powi e < (2 powi 100 :: real)"
  shows "is_fin (f32_round s n e)"
    "\<bar>f32_val (f32_round s n e) - of_int (sgm s n) * 2 powi e\<bar> \<le> 1 / 16777216 * (of_int n * 2 powi e) + tiny"
proof -
  let ?x = "of_int n * 2 powi e :: real" and ?q = "round_exp n e"
  have b: "2 ^ (nbits n - 1) \<le> n" "0 < nbits n" using nbits_bounds [OF assms(1)] by simp_all
  have "(2 ^ (nbits n - 1) :: real) \<le> of_int n" using b(1) by (metis of_int_le_iff of_int_numeral of_int_power)
  then have "2 ^ (nbits n - 1) * 2 powi e \<le> ?x" by (intro mult_right_mono) simp_all
  moreover have "(2 ^ (nbits n - 1) * 2 powi e :: real) = 2 powi (e + int (nbits n) - 1)"
    using b(2) by (simp add: power_int_add [symmetric] flip: power_int_of_nat) (simp add: of_nat_diff algebra_simps)
  ultimately have lo: "2 powi (e + int (nbits n) - 1) \<le> ?x" by (simp only:)
  then have "(2 powi (e + int (nbits n) - 1) :: real) < 2 powi 100" using assms(2) by simp
  then have "e + int (nbits n) - 1 < 100" using power_int_increasing [of 100 "e + int (nbits n) - 1" "2 :: real"] by force
  then have q: "?q \<le> 103" by (simp add: round_exp_def)
  obtain m' q' where r: "f32_round s n e = FFin s m' q'"
    using f32_pack_finite [OF q, of s "round_man n e"] f32_round_alt [of n s e] assms(1) by auto
  then show "is_fin (f32_round s n e)" by simp
  have v: "of_int m' * 2 powi q' = (of_int (round_man n e) * 2 powi ?q :: real)"
    using f32_pack_val [of s "round_man n e" ?q s m' q'] r f32_round_alt [of n s e] assms(1) by simp
  have "2 powi ?q \<le> 2 * (1 / 16777216 * ?x + tiny)"
  proof (cases "?q = -149")
    case True
    have e: "(2 powi - 149 :: real) = 2 * tiny" using power_int_add [of "2 :: real" 1 "- 150"] by (simp add: tiny_def)
    show ?thesis unfolding True e distrib_left using assms(1) by simp
  next
    case False
    then have "?q = (e + int (nbits n) - 1) + - 23" by (simp add: round_exp_def)
    then have "(2 powi ?q :: real) = 2 powi (e + int (nbits n) - 1) * 2 powi - 23"
      using power_int_add [of "2 :: real" "e + int (nbits n) - 1" "- 23"] by (simp only:) simp
    also have "(2 powi - 23 :: real) = 1 / 8388608" by (simp add: power_int_def power_divide)
    finally show ?thesis using lo tiny_bounds(1) by (rule half_step)
  qed
  then have "\<bar>of_int (round_man n e) * 2 powi ?q - ?x\<bar> \<le> 1 / 16777216 * ?x + tiny"
    using round_man_error [OF assms(1), of e] by (rule half_bound)
  moreover have "f32_val (f32_round s n e) - of_int (sgm s n) * 2 powi e = (if s then -1 else 1) * (of_int (round_man n e) * 2 powi ?q - ?x)"
    using v by (simp add: r f32_val_def sgm_def algebra_simps)
  ultimately show "\<bar>f32_val (f32_round s n e) - of_int (sgm s n) * 2 powi e\<bar> \<le> 1 / 16777216 * ?x + tiny"
    by (simp add: abs_mult)
qed

text \<open>The result of an operation whose exact value is \<open>x\<close>.\<close>

definition rounds_to :: "f32 \<Rightarrow> real \<Rightarrow> bool" where
  "rounds_to r x \<longleftrightarrow> is_fin r \<and> \<bar>f32_val r - x\<bar> \<le> 1 / 16777216 * \<bar>x\<bar> + tiny"

lemma add_rounds:
  assumes "is_fin a" "is_fin b" "\<bar>f32_val a + f32_val b\<bar> < 2 powi 100"
  shows "rounds_to (a + b) (f32_val a + f32_val b)"
proof -
  obtain s m e t n f where a: "a = FFin s m e" and b: "b = FFin t n f" using assms(1,2) by (cases a; cases b) auto
  let ?q = "min e f"
  define A where "A = sgm s m * 2 ^ nat (e - ?q) + sgm t n * 2 ^ nat (f - ?q)"
  have "f32_val a = of_int (sgm s m * 2 ^ nat (e - ?q)) * 2 powi ?q" "f32_val b = of_int (sgm t n * 2 ^ nat (f - ?q)) * 2 powi ?q"
    using sgm_scale [of ?q e s m] sgm_scale [of ?q f t n] by (simp_all only: a b f32_val_def f32.case min.cobounded1 min.cobounded2 simp_thms)
  then have v: "f32_val a + f32_val b = of_int A * 2 powi ?q" by (simp only: A_def of_int_add distrib_right)
  have sum: "a + b = (if A = 0 then FFin (s \<and> t) 0 (-149) else f32_round (A < 0) \<bar>A\<bar> ?q)"
    by (simp add: a b plus_f32_def A_def Let_def)
  show ?thesis
  proof (cases "A = 0")
    case True
    then show ?thesis using v sum by (simp add: rounds_to_def f32_val_def sgm_def tiny_bounds(2))
  next
    case False
    then have "0 < \<bar>A\<bar>" by simp
    moreover have "real_of_int \<bar>A\<bar> * 2 powi ?q = \<bar>f32_val a + f32_val b\<bar>" by (simp add: v abs_mult)
    moreover have "real_of_int (sgm (A < 0) \<bar>A\<bar>) = of_int A" by (simp add: sgm_def)
    ultimately show ?thesis using round_error [of "\<bar>A\<bar>" ?q "A < 0"] assms(3) sum False v by (simp add: rounds_to_def)
  qed
qed

lemma mul_rounds:
  assumes "is_fin a" "is_fin b" "\<bar>f32_val a * f32_val b\<bar> < 2 powi 100" "f32_canonical a" "f32_canonical b"
  shows "rounds_to (a * b) (f32_val a * f32_val b)"
proof -
  obtain s m e t n f where a: "a = FFin s m e" and b: "b = FFin t n f" using assms(1,2) by (cases a; cases b) auto
  have mn: "0 \<le> m" "0 \<le> n" using assms(4,5) f32_canonical_nonneg a b by blast+
  have v: "f32_val a * f32_val b = of_int (sgm (s \<noteq> t) (m * n)) * 2 powi (e + f)"
    by (simp add: a b f32_val_def sgm_def power_int_add)
  have r: "a * b = f32_round (s \<noteq> t) (m * n) (e + f)" by (simp add: a b times_f32_def)
  show ?thesis
  proof (cases "m * n = 0")
    case True
    then show ?thesis using v r by (auto simp: rounds_to_def f32_round_def f32_val_def sgm_def tiny_bounds(2))
  next
    case False
    then have "0 < m * n" using mn by (simp add: zero_less_mult_iff less_le)
    moreover have "real_of_int (m * n) * 2 powi (e + f) = \<bar>f32_val a * f32_val b\<bar>"
      using mn by (simp add: v abs_mult sgm_def)
    ultimately show ?thesis using round_error [of "m * n" "e + f" "s \<noteq> t"] assms(3) r v by (simp add: rounds_to_def)
  qed
qed

text \<open>Quotients and roots are computed to more bits than the result has, with one bit for what was cut off.\<close>

lemma sticky_round:
  assumes near: "\<bar>of_int N - 2 * Q\<bar> \<le> 1" and big: "67108864 \<le> Q" and fits: "2 * Q * 2 powi k < (2 powi 99 :: real)"
  shows "is_fin (f32_round s N k)"
    "\<bar>f32_val (f32_round s N k) - (if s then -1 else 1) * (2 * Q * 2 powi k)\<bar> \<le> 1 / 8388608 * (2 * Q * 2 powi k) + tiny"
proof -
  define x where "x = 2 * Q * (2 powi k :: real)"
  have w: "0 < (2 powi k :: real)" by simp
  have "0 < real_of_int N" using near big by linarith
  then have pos: "0 < N" by simp
  have d1: "\<bar>of_int N * 2 powi k - x\<bar> \<le> 2 powi k"
  proof -
    have "of_int N * 2 powi k - x = (of_int N - 2 * Q) * 2 powi k" unfolding x_def by (simp add: algebra_simps)
    then show ?thesis using near w by (simp add: abs_mult)
  qed
  have d2: "2 powi k \<le> 1 / 67108864 * x"
  proof -
    have "67108864 * 2 powi k \<le> Q * (2 powi k :: real)" using big w by (intro mult_right_mono) simp_all
    then show ?thesis using w unfolding x_def by (simp add: mult.assoc)
  qed
  have x: "0 \<le> x" using big w by (simp add: x_def)
  have "of_int N * 2 powi k \<le> 2 * x" using d1 d2 x by linarith
  moreover have "(2 powi 100 :: real) = 2 * 2 powi 99" using power_int_add [of "2 :: real" 1 99] by simp
  ultimately have "of_int N * 2 powi k < (2 powi 100 :: real)" using fits unfolding x_def by linarith
  note e = round_error [OF pos this, of s]
  show "is_fin (f32_round s N k)" by (rule e(1))
  have "\<bar>f32_val (f32_round s N k) - of_int (sgm s N) * 2 powi k\<bar> \<le> 1 / 16777216 * (x + 1 / 67108864 * x) + tiny"
    using e(2) d1 d2 mult_left_mono [of "of_int N * 2 powi k" "x + 1 / 67108864 * x" "1 / 16777216 :: real"] by linarith
  moreover have "\<bar>of_int (sgm s N) * 2 powi k - (if s then -1 else 1) * x\<bar> \<le> 1 / 67108864 * x"
    using order_trans [OF d1 d2] by (cases s) (simp_all add: sgm_def abs_minus_commute)
  ultimately have "\<bar>f32_val (f32_round s N k) - (if s then -1 else 1) * x\<bar> \<le> 1 / 16777216 * (x + 1 / 67108864 * x) + tiny + 1 / 67108864 * x"
    by (rule near_trans)
  also have "\<dots> \<le> 1 / 8388608 * x + tiny" using x by simp
  finally show "\<bar>f32_val (f32_round s N k) - (if s then -1 else 1) * (2 * Q * 2 powi k)\<bar> \<le> 1 / 8388608 * (2 * Q * 2 powi k) + tiny"
    by (simp only: x_def)
qed

lemma div_rounds:
  assumes "is_fin a" "is_fin b" "\<bar>f32_val a / f32_val b\<bar> < 2 powi 99" "f32_canonical a" "f32_canonical b" "f32_val b \<noteq> 0"
  shows "is_fin (a div b)" "\<bar>f32_val (a div b) - f32_val a / f32_val b\<bar> \<le> 1 / 8388608 * \<bar>f32_val a / f32_val b\<bar> + tiny"
proof -
  obtain s m e t n f where a: "a = FFin s m e" and b: "b = FFin t n f" using assms(1,2) by (cases a; cases b) auto
  have mn: "0 \<le> m" "0 \<le> n" "n < 2 ^ 24" "n \<noteq> 0"
    using assms(4-6) by (auto simp: a b f32_canonical_def f32_val_def sgm_def split: if_splits)
  define N where "N = 2 * (m * 2 ^ 50 div n) + (if m * 2 ^ 50 mod n = 0 then 0 else 1)"
  define x where "x = f32_val a / f32_val b"
  have r: "a div b = f32_round (s \<noteq> t) N (e - f - 51)" using mn(4) by (simp add: a b divide_f32_def N_def Let_def)
  have "is_fin (a div b) \<and> \<bar>f32_val (a div b) - x\<bar> \<le> 1 / 8388608 * \<bar>x\<bar> + tiny"
  proof (cases "m = 0")
    case True
    then show ?thesis using r by (simp add: x_def N_def a f32_round_def f32_val_def sgm_def tiny_bounds(2))
  next
    case False
    then have m: "1 \<le> m" using mn(1) by simp
    define Q where "Q = (of_int (m * 2 ^ 50) / of_int n :: real)"
    have x: "\<bar>x\<bar> = of_int m / of_int n * 2 powi (e - f)" "x = (if s \<noteq> t then -1 else 1) * \<bar>x\<bar>"
      using mn m by (auto simp: x_def a b f32_val_def sgm_def abs_mult power_int_diff)
    then have xq: "\<bar>x\<bar> = 2 * Q * 2 powi (e - f - 51)"
      using power_int_add [of "2 :: real" "e - f - 51" 51] unfolding Q_def by (simp add: field_simps)
    have "(67108864 :: real) * of_int n \<le> 67108864 * 2 ^ 24" using mn(3) by simp
    also have "\<dots> \<le> of_int (m * 2 ^ 50)" using m by simp
    finally have big: "67108864 \<le> Q" using mn by (simp add: Q_def field_simps)
    let ?d = "m * 2 ^ 50 div n" and ?r = "m * 2 ^ 50 mod n"
    have "real_of_int (m * 2 ^ 50) = of_int n * of_int ?d + of_int ?r"
      by (metis mult_div_mod_eq of_int_add of_int_mult)
    then have q: "Q = of_int ?d + of_int ?r / of_int n" using mn(4) by (simp add: Q_def field_simps)
    have "0 \<le> ?r" "?r < n" using mn by simp_all
    then have "0 \<le> (of_int ?r / of_int n :: real)" "of_int ?r / of_int n < (1 :: real)" using mn by (simp_all add: field_simps)
    then have near: "\<bar>of_int N - 2 * Q\<bar> \<le> 1" using q by (auto simp: N_def)
    show ?thesis
      using sticky_round [OF near big, of "e - f - 51" "s \<noteq> t"] assms(3) x(2) unfolding x_def [symmetric] xq [symmetric] r by simp
  qed
  then show "is_fin (a div b)" "\<bar>f32_val (a div b) - f32_val a / f32_val b\<bar> \<le> 1 / 8388608 * \<bar>f32_val a / f32_val b\<bar> + tiny"
    by (simp_all add: x_def)
qed

lemma f32_div_canonical:
  assumes "f32_canonical a" "f32_canonical b"
  shows "f32_canonical (a div b)"
proof (cases "is_fin a \<and> is_fin b")
  case True
  then obtain s m e t n f where ab: "a = FFin s m e" "b = FFin t n f" by (cases a; cases b) auto
  moreover have "0 \<le> m" "0 \<le> n" using assms ab by (auto dest: f32_canonical_nonneg)
  ultimately show ?thesis
    by (auto simp: divide_f32_def Let_def f32_canonical_def pos_imp_zdiv_nonneg_iff intro!: f32_round_canonical [unfolded f32_canonical_def])
next
  case False
  then show ?thesis by (cases a; cases b) (simp_all add: divide_f32_def f32_canonical_def)
qed

lemma isqrt_root: "0 \<le> n \<Longrightarrow> isqrt n * isqrt n \<le> n \<and> n < (isqrt n + 1) * (isqrt n + 1)"
proof (induction n rule: isqrt.induct)
  case (1 n)
  show ?case
  proof (cases "n \<le> 0")
    case True
    then show ?thesis using 1(2) by (simp add: isqrt.simps)
  next
    case False
    define r where "r = isqrt (n div 4)"
    have ih: "r * r \<le> n div 4" "n div 4 < (r + 1) * (r + 1)" using 1(1) [OF False] False by (simp_all add: r_def)
    have lo: "(2 * r) * (2 * r) \<le> n" using ih(1) by (simp add: algebra_simps)
    have "n < 4 * ((r + 1) * (r + 1))" using ih(2) by linarith
    then have "n < (2 * r + 2) * (2 * r + 2)" by (simp add: algebra_simps)
    with lo show ?thesis using False by (subst (1 2 3 4) isqrt.simps) (simp add: r_def [symmetric] Let_def add.assoc)
  qed
qed

lemma sqrt_rounds:
  assumes "is_fin a" "f32_canonical a" "0 \<le> f32_val a" "sqrt (f32_val a) < 2 powi 99"
  shows "is_fin (f32_sqrt a)"
    "\<bar>f32_val (f32_sqrt a) - sqrt (f32_val a)\<bar> \<le> 1 / 8388608 * sqrt (f32_val a) + tiny"
proof -
  obtain s m e where a: "a = FFin s m e" using assms(1) by (cases a) auto
  have m: "0 \<le> m" using assms(2) f32_canonical_nonneg a by blast
  have "is_fin (f32_sqrt a) \<and> \<bar>f32_val (f32_sqrt a) - sqrt (f32_val a)\<bar> \<le> 1 / 8388608 * sqrt (f32_val a) + tiny"
  proof (cases "m = 0")
    case True
    then show ?thesis by (simp add: a f32_val_def sgm_def tiny_bounds(2))
  next
    case False
    then have m: "0 < m" using m by simp
    have "0 < of_int m * (2 powi e :: real)" using m by (intro mult_pos_pos zero_less_power_int) simp_all
    then have s: "\<not> s" using assms(3) by (cases s) (simp_all add: a f32_val_def sgm_def)
    define n where "n = (if even e then m else 2 * m)"
    define f where "f = (if even e then e else e - 1)"
    have n: "1 \<le> n" "even f" using m by (auto simp: n_def f_def)
    have val: "f32_val a = of_int n * 2 powi f"
      using s power_int_add [of "2 :: real" 1 "e - 1"] by (auto simp: a f32_val_def sgm_def n_def f_def)
    define A where "A = n * 4 ^ 30"
    define N where "N = 2 * isqrt A + (if isqrt A * isqrt A = A then 0 else 1)"
    have r: "f32_sqrt a = f32_round False N (f div 2 - 31)"
      using m s by (simp add: a N_def A_def n_def f_def Let_def)
    define Q where "Q = sqrt (of_int A)"
    have A: "0 \<le> A" "4 ^ 30 \<le> A" using n(1) by (simp_all add: A_def)
    have "sqrt (2 powi f) = (2 powi (f div 2) :: real)"
    proof (rule real_sqrt_unique)
      show "(2 powi (f div 2) :: real)\<^sup>2 = 2 powi f" using n(2) by (simp add: power2_eq_square power_int_add [symmetric] mult_2 [symmetric])
    qed simp
    moreover have "Q = 2 ^ 30 * sqrt (of_int n)"
      using real_sqrt_unique [of "2 ^ 30 :: real" "4 ^ 30"] by (simp add: Q_def A_def real_sqrt_mult power_even_eq [symmetric])
    ultimately have xq: "sqrt (f32_val a) = 2 * Q * 2 powi (f div 2 - 31)"
      using power_int_add [of "2 :: real" "f div 2 - 31" 31] by (simp add: val real_sqrt_mult)
    have "4503599627370496 \<le> A" using A(2) by simp
    then have "4503599627370496 \<le> real_of_int A" by linarith
    then have big: "67108864 \<le> Q" unfolding Q_def by (intro real_le_rsqrt) (simp add: power2_eq_square)
    note i = isqrt_root [OF A(1)] isqrt_nonneg [of A]
    have "real_of_int (isqrt A * isqrt A) \<le> of_int A" "real_of_int A < of_int ((isqrt A + 1) * (isqrt A + 1))"
      using i(1) by (simp_all only: of_int_le_iff of_int_less_iff)
    then have "of_int (isqrt A) \<le> Q" "Q < of_int (isqrt A) + 1"
      using i(2) unfolding Q_def by (auto intro!: real_le_rsqrt real_less_lsqrt simp: power2_eq_square)
    moreover have "Q = of_int (isqrt A)" if "isqrt A * isqrt A = A"
    proof -
      have "real_of_int A = (of_int (isqrt A))\<^sup>2" using that by (metis of_int_mult power2_eq_square)
      then show ?thesis using i(2) unfolding Q_def by (simp only: real_sqrt_abs)
    qed
    ultimately have near: "\<bar>of_int N - 2 * Q\<bar> \<le> 1" by (auto simp: N_def)
    show ?thesis
      using sticky_round [OF near big, of "f div 2 - 31" False] assms(4) unfolding xq r by simp
  qed
  then show "is_fin (f32_sqrt a)" "\<bar>f32_val (f32_sqrt a) - sqrt (f32_val a)\<bar> \<le> 1 / 8388608 * sqrt (f32_val a) + tiny"
    by simp_all
qed

end
