(* ===== verification/RakFloats.thy ===== *)
theory RakFloats
  imports RakBits FloatError
begin

text \<open>
  Floats on a stream (\<^verbatim>\<open>BitStream.h\<close>, the instances for \<^verbatim>\<open>float\<close>): numbers from -1 to 1 in 16 bits, vectors and
  quaternions. A cast to an integer type of a value outside it is undefined in the language: what it gives is the
  argument \<open>bad\<close>. \<open>WriteFloat16\<close> and \<open>ReadFloat16\<close> are in a source file outside the repository and are fields of a
  \<open>float_lib\<close>.
\<close>

section \<open>Code\<close>

text \<open>The cast cuts the fraction off.\<close>

definition f32_trunc :: "f32 \<Rightarrow> int" where
  "f32_trunc x = (case x of FFin s m e \<Rightarrow> sgm s (if 0 \<le> e then m * 2 ^ nat e else m div 2 ^ nat (- e)) | _ \<Rightarrow> 0)"

definition cast_u16 :: "(f32 \<Rightarrow> nat) \<Rightarrow> f32 \<Rightarrow> nat" where
  "cast_u16 bad x = (if is_fin x \<and> 0 \<le> f32_trunc x \<and> f32_trunc x < 65536 then nat (f32_trunc x) else bad x mod 65536)"

definition compress_float :: "(f32 \<Rightarrow> nat) \<Rightarrow> f32 \<Rightarrow> nat" where
  "compress_float bad v =
     (let c = (if v < - 1 then - 1 else v); c = (if 1 < c then 1 else c)
      in cast_u16 bad ((c + 1) * f32_lit 65535 2))"

definition expand_float :: "nat \<Rightarrow> f32" where
  "expand_float c = f32_of_int (int c) div f32_lit 65535 2 - 1"

definition WriteCompressed_float :: "bit_lib \<Rightarrow> (f32 \<Rightarrow> nat) \<Rightarrow> f32 \<Rightarrow> bitstream \<Rightarrow> bitstream" where
  "WriteCompressed_float l bad v s = Write l (mem_of l 2 (compress_float bad v)) s"

definition ReadCompressed_float :: "bit_lib \<Rightarrow> f32 \<Rightarrow> bitstream \<Rightarrow> bool \<times> f32 \<times> bitstream" where
  "ReadCompressed_float l out s =
     (let (ok, m, s1) = Read l (junk_bytes l 2) s
      in if ok then (True, expand_float (mem_val l m), s1) else (False, out, s1))"

text \<open>The memory of a float: sign, exponent and mantissa. The one NaN is the quiet one of the processors.\<close>

definition f32_bits :: "f32 \<Rightarrow> nat" where
  "f32_bits x = (case x of
       FNaN \<Rightarrow> 2143289344
     | FInf s \<Rightarrow> (if s then 2 ^ 31 else 0) + 255 * 2 ^ 23
     | FFin s m e \<Rightarrow> (if s then 2 ^ 31 else 0) + (if m < 2 ^ 23 then nat m else nat (e + 150) * 2 ^ 23 + nat (m - 2 ^ 23)))"

definition f32_of_bits :: "nat \<Rightarrow> f32" where
  "f32_of_bits n =
     (let s = (2 ^ 31 \<le> n mod 2 ^ 32); k = n div 2 ^ 23 mod 256; m = n mod 2 ^ 23
      in if k = 255 then (if m = 0 then FInf s else FNaN)
         else if k = 0 then FFin s (int m) (-149) else FFin s (int (m + 2 ^ 23)) (int k - 150))"

text \<open>Vectors: the length, and the direction compressed. A vector of almost no length is its length alone.\<close>

definition WriteVector :: "bit_lib \<Rightarrow> (f32 \<Rightarrow> nat) \<Rightarrow> f32 \<Rightarrow> f32 \<Rightarrow> f32 \<Rightarrow> bitstream \<Rightarrow> bitstream" where
  "WriteVector l bad x y z s =
     (let magnitude = f32_sqrt (x * x + y * y + z * z); s1 = Write l (mem_of l 4 (f32_bits magnitude)) s
      in if f32_lit 1 100000 < magnitude then
           WriteCompressed_float l bad (z div magnitude) (WriteCompressed_float l bad (y div magnitude)
             (WriteCompressed_float l bad (x div magnitude) s1))
         else s1)"

definition ReadVector :: "bit_lib \<Rightarrow> f32 \<times> f32 \<times> f32 \<Rightarrow> bitstream \<Rightarrow> bool \<times> (f32 \<times> f32 \<times> f32) \<times> bitstream" where
  "ReadVector l out s =
     (let (ok, m, s1) = Read l (junk_bytes l 4) s
      in if \<not> ok then (False, out, s1)
         else let magnitude = f32_of_bits (mem_val l m)
              in if f32_lit 1 100000 < magnitude then
                   let (_, cx, s2) = ReadCompressed_float l 0 s1; (_, cy, s3) = ReadCompressed_float l 0 s2;
                       (ok, cz, s4) = ReadCompressed_float l 0 s3
                   in if \<not> ok then (False, out, s4) else (True, (cx * magnitude, cy * magnitude, cz * magnitude), s4)
                 else (True, (0, 0, 0), s1))"

text \<open>Unit quaternions: the signs, and three components in 16 bits; the fourth follows from the length. The products
  with 65535 are exact in \<^verbatim>\<open>double\<close>, and the quotients of two floats rounded to \<^verbatim>\<open>double\<close> and then to \<^verbatim>\<open>float\<close> are the
  float quotients, since a \<^verbatim>\<open>double\<close> has more than twice as many bits.\<close>

definition quat_part :: "(f32 \<Rightarrow> nat) \<Rightarrow> f32 \<Rightarrow> nat" where
  "quat_part bad x = cast_u16 bad (case x of FFin s m e \<Rightarrow> FFin False (m * 65535) e | FInf s \<Rightarrow> FInf False | FNaN \<Rightarrow> FNaN)"

definition WriteNormQuat :: "bit_lib \<Rightarrow> (f32 \<Rightarrow> nat) \<Rightarrow> f32 \<Rightarrow> f32 \<Rightarrow> f32 \<Rightarrow> f32 \<Rightarrow> bitstream \<Rightarrow> bitstream" where
  "WriteNormQuat l bad w x y z s =
     (let s = Write_bool l (z < 0) (Write_bool l (y < 0) (Write_bool l (x < 0) (Write_bool l (w < 0) s)))
      in Write l (mem_of l 2 (quat_part bad z)) (Write l (mem_of l 2 (quat_part bad y))
           (Write l (mem_of l 2 (quat_part bad x)) s)))"

definition quat_fourth :: "f32 \<Rightarrow> f32 \<Rightarrow> f32 \<Rightarrow> f32" where
  "quat_fourth x y z =
     (let difference = 1 - x * x - y * y - z * z; difference = (if difference < 0 then 0 else difference)
      in f32_sqrt difference)"

definition ReadNormQuat :: "bit_lib \<Rightarrow> f32 \<times> f32 \<times> f32 \<times> f32 \<Rightarrow> bitstream \<Rightarrow>
    (bool \<times> (f32 \<times> f32 \<times> f32 \<times> f32) \<times> bitstream) res" where
  "ReadNormQuat l out s =
     rbind (Read_bool False s) (\<lambda>(_, wn, s).
     rbind (Read_bool False s) (\<lambda>(_, xn, s).
     rbind (Read_bool False s) (\<lambda>(_, yn, s).
     rbind (Read_bool False s) (\<lambda>(_, zn, s).
     let (_, cx, s) = Read l (junk_bytes l 2) s; (_, cy, s) = Read l (junk_bytes l 2) s;
         (ok, cz, s) = Read l (junk_bytes l 2) s;
         part = (\<lambda>n c. let v = f32_of_int (int (mem_val l c)) div f32_of_int 65535 in if n then - v else v);
         x = part xn cx; y = part yn cy; z = part zn cz; w = quat_fourth x y z
     in Inr (if ok then (True, (if wn then - w else w, x, y, z), s) else (False, out, s))))))"

text \<open>Normalised vectors in three 16 bit numbers of a range, which the library writes and reads. The result of a read
  is not looked at: at the end of the stream what is stored is whatever the local variables held.\<close>

record float_lib =
  WriteFloat16 :: "f32 \<Rightarrow> f32 \<Rightarrow> f32 \<Rightarrow> bitstream \<Rightarrow> bitstream"
  ReadFloat16 :: "f32 \<Rightarrow> f32 \<Rightarrow> f32 \<Rightarrow> bitstream \<Rightarrow> bool \<times> f32 \<times> bitstream"
  junk_float :: "nat \<Rightarrow> f32"

definition WriteNormVector :: "float_lib \<Rightarrow> f32 \<Rightarrow> f32 \<Rightarrow> f32 \<Rightarrow> bitstream \<Rightarrow> bitstream" where
  "WriteNormVector fl x y z s = WriteFloat16 fl z (- 1) 1 (WriteFloat16 fl y (- 1) 1 (WriteFloat16 fl x (- 1) 1 s))"

definition ReadNormVector :: "float_lib \<Rightarrow> bitstream \<Rightarrow> bool \<times> (f32 \<times> f32 \<times> f32) \<times> bitstream" where
  "ReadNormVector fl s =
     (let (_, x, s1) = ReadFloat16 fl (junk_float fl 0) (- 1) 1 s; (_, y, s2) = ReadFloat16 fl (junk_float fl 1) (- 1) 1 s1;
          (_, z, s3) = ReadFloat16 fl (junk_float fl 2) (- 1) 1 s2
      in (True, (x, y, z), s3))"

section \<open>Numbers between -1 and 1\<close>

lemma f32_trunc_nonneg:
  assumes "0 \<le> m"
  shows "f32_trunc (FFin s m e) = sgm s \<lfloor>of_int m * (2 powi e :: real)\<rfloor>"
    "0 \<le> f32_trunc (FFin False m e)" "f32_val (FFin False m e) - 1 < of_int (f32_trunc (FFin False m e))"
    "of_int (f32_trunc (FFin False m e)) \<le> f32_val (FFin False m e)"
proof -
  define a where "a = of_int m * (2 powi e :: real)"
  have a: "0 \<le> a" using assms by (simp add: a_def)
  have "(if 0 \<le> e then m * 2 ^ nat e else m div 2 ^ nat (- e)) = \<lfloor>a\<rfloor>"
  proof (cases "0 \<le> e")
    case True
    then have "a = of_int (m * 2 ^ nat e)" by (simp add: a_def power_int_def)
    then show ?thesis using True by (simp only: floor_of_int if_True)
  next
    case False
    then have "a = of_int m / of_int (2 ^ nat (- e))" by (simp add: a_def power_int_def power_one_over divide_simps)
    then show ?thesis using False by (simp only: floor_divide_of_int_eq if_False)
  qed
  then have t: "f32_trunc (FFin s m e) = sgm s \<lfloor>a\<rfloor>" for s by (simp add: f32_trunc_def)
  then show "f32_trunc (FFin s m e) = sgm s \<lfloor>of_int m * (2 powi e :: real)\<rfloor>" by (simp only: a_def)
  have v: "f32_val (FFin False m e) = a" by (simp add: f32_val_def sgm_def a_def)
  show "0 \<le> f32_trunc (FFin False m e)" "f32_val (FFin False m e) - 1 < of_int (f32_trunc (FFin False m e))"
    "of_int (f32_trunc (FFin False m e)) \<le> f32_val (FFin False m e)"
    using a by (simp_all add: t v sgm_def)
qed

lemma f32_trunc_val:
  assumes "is_fin x" "f32_canonical x" "-1 < f32_val x"
  shows "0 \<le> f32_trunc x" "f32_val x - 1 < of_int (f32_trunc x)" "of_int (f32_trunc x) \<le> max 0 (f32_val x)"
proof -
  obtain s m e where x: "x = FFin s m e" using assms(1) by (cases x) auto
  have m: "0 \<le> m" using assms(2) f32_canonical_nonneg x by blast
  define a where "a = of_int m * (2 powi e :: real)"
  have a: "0 \<le> a" using m by (simp add: a_def)
  have t: "f32_trunc x = sgm s \<lfloor>a\<rfloor>" by (simp only: x a_def f32_trunc_nonneg(1) [OF m])
  have v: "f32_val x = (if s then - a else a)" by (simp add: x f32_val_def sgm_def a_def)
  have "\<lfloor>a\<rfloor> = 0" if s using that a assms(3) v by (simp add: floor_eq_iff)
  then have "0 \<le> f32_trunc x \<and> f32_val x - 1 < of_int (f32_trunc x) \<and> of_int (f32_trunc x) \<le> max 0 (f32_val x)"
    using a unfolding t v by (auto simp: sgm_def; linarith)
  then show "0 \<le> f32_trunc x" "f32_val x - 1 < of_int (f32_trunc x)" "of_int (f32_trunc x) \<le> max 0 (f32_val x)" by simp_all
qed

lemma f32_half: "is_fin (f32_lit 65535 2)" "f32_canonical (f32_lit 65535 2)" "f32_val (f32_lit 65535 2) = 65535 / 2"
  by (simp_all add: f32_eval nbits.simps f32_canonical_def f32_val_def power_int_def power_divide)

lemma f32_one: "is_fin (1 :: f32)" "f32_canonical (1 :: f32)" "f32_val 1 = 1"
  by (simp_all add: one_f32_def f32_canonical_def f32_val_def sgm_def power_int_def power_divide)

lemma f32_neg_val: "is_fin (- a :: f32) = is_fin a" "f32_val (- a) = - f32_val a"
  by (cases a; simp add: uminus_f32_def f32_val_def sgm_def)+

definition clamp :: "real \<Rightarrow> real" where "clamp x = max (- 1) (min 1 x)"


lemma near_cut: "b - 1 < t \<Longrightarrow> t \<le> max 0 b \<Longrightarrow> 0 \<le> t \<Longrightarrow> \<bar>b - x\<bar> \<le> 1 / 100 \<Longrightarrow> 0 \<le> x \<Longrightarrow> \<bar>t - x\<bar> \<le> 1 + 1 / 100"
  for b t x :: real
  by linarith

lemma powers_large: "(1000000000 :: real) \<le> 2 powi 99" "(1000000000 :: real) \<le> 2 powi 100"
proof -
  have "(2 :: real) ^ 30 \<le> 2 ^ 99" "(2 :: real) ^ 30 \<le> 2 ^ 100" by (rule power_increasing; simp)+
  then show "(1000000000 :: real) \<le> 2 powi 99" "(1000000000 :: real) \<le> 2 powi 100" by (simp_all add: power_int_def)
qed

lemma compressed_number:
  assumes "is_fin v" "f32_canonical v"
  shows "compress_float bad v < 65536"
    "\<bar>real (compress_float bad v) - (clamp (f32_val v) + 1) * (65535 / 2)\<bar> \<le> 1 + 1 / 100"
proof -
  define c where "c = (let c = (if v < - 1 then - 1 else v) in if 1 < c then 1 else c)"
  have neg: "is_fin (- 1 :: f32)" "f32_canonical (- 1 :: f32)" "f32_val (- 1) = - 1"
    using f32_one f32_neg_canonical by (simp_all add: f32_neg_val)
  have c: "is_fin c" "f32_canonical c" "f32_val c = clamp (f32_val v)"
    using assms f32_one neg by (auto simp: c_def Let_def clamp_def f32_lt_val)
  define a where "a = c + 1"
  define b where "b = a * f32_lit 65535 2"
  define x where "x = clamp (f32_val v) + 1"
  have x: "0 \<le> x" "x \<le> 2" by (simp_all add: x_def clamp_def)
  have "rounds_to a x" using add_rounds [OF c(1) f32_one(1)] x powers_large c(3) f32_one(3) by (simp add: a_def x_def)
  then have a: "is_fin a" "\<bar>f32_val a - x\<bar> \<le> 1 / 16777216 * x + tiny" using x by (simp_all add: rounds_to_def)
  have ca: "f32_canonical a" by (simp add: a_def f32_add_canonical c(2) f32_one(2))
  have a2: "\<bar>f32_val a\<bar> \<le> 3" using a(2) x tiny_bounds by linarith
  then have "rounds_to b (f32_val a * (65535 / 2))"
    using mul_rounds [OF a(1) f32_half(1) _ ca f32_half(2)] powers_large by (simp add: b_def f32_half abs_mult)
  then have b: "is_fin b" "\<bar>f32_val b - f32_val a * (65535 / 2)\<bar> \<le> 1 / 16777216 * (\<bar>f32_val a\<bar> * (65535 / 2)) + tiny"
    by (simp_all add: rounds_to_def abs_mult)
  have cb: "f32_canonical b" by (simp add: b_def f32_mul_canonical ca f32_half(2))
  have near: "\<bar>f32_val b - x * (65535 / 2)\<bar> \<le> 1 / 100" using a b a2 x tiny_bounds by linarith
  then have "- 1 < f32_val b" using x by linarith
  then have t: "0 \<le> f32_trunc b" "f32_val b - 1 < of_int (f32_trunc b)" "of_int (f32_trunc b) \<le> max 0 (f32_val b)"
    using f32_trunc_val [OF b(1) cb] by simp_all
  then have "real_of_int (f32_trunc b) < 65536" using near x by linarith
  then have "cast_u16 bad b = nat (f32_trunc b)" "f32_trunc b < 65536" using t(1) b(1) by (simp_all add: cast_u16_def)
  moreover have "compress_float bad v = cast_u16 bad b" by (simp add: compress_float_def c_def a_def b_def Let_def)
  ultimately have "compress_float bad v = nat (f32_trunc b)" "f32_trunc b < 65536" by simp_all
  then show "compress_float bad v < 65536" "\<bar>real (compress_float bad v) - (clamp (f32_val v) + 1) * (65535 / 2)\<bar> \<le> 1 + 1 / 100"
    using near_cut [OF t(2,3) _ near] t(1) x(1) unfolding x_def by (simp_all add: nat_less_iff)
qed

lemma expanded_number:
  assumes "c < 65536"
  shows "is_fin (expand_float c)" "f32_canonical (expand_float c)"
    "\<bar>f32_val (expand_float c) - (real c * (2 / 65535) - 1)\<bar> \<le> 1 / 2000000"
proof -
  define e where "e = f32_of_int (int c) div f32_lit 65535 2"
  have i: "is_fin (f32_of_int (int c))" "f32_val (f32_of_int (int c)) = real c" "f32_canonical (f32_of_int (int c))"
    using f32_of_int_exact [of "int c"] assms by simp_all
  define x where "x = real c * (2 / 65535)"
  have x: "0 \<le> x" "x \<le> 21 / 10" using assms by (simp_all add: x_def)
  have q: "f32_val (f32_of_int (int c)) / f32_val (f32_lit 65535 2) = x" by (simp add: i f32_half x_def)
  have e: "is_fin e" "\<bar>f32_val e - x\<bar> \<le> 1 / 8388608 * x + tiny"
    using div_rounds [OF i(1) f32_half(1) _ i(3) f32_half(2)] x powers_large unfolding q e_def by (simp_all add: f32_half)
  have ce: "f32_canonical e" by (simp add: e_def f32_div_canonical i(3) f32_half(2))
  have neg: "is_fin (- 1 :: f32)" "f32_val (- 1) = - 1" using f32_one by (simp_all add: f32_neg_val)
  have m: "expand_float c = e + (- 1)" by (simp add: expand_float_def e_def minus_f32_def f32_sub_def plus_f32_def uminus_f32_def)
  have "\<bar>f32_val e - 1\<bar> \<le> 2" using e(2) x tiny_bounds by linarith
  then have "rounds_to (e + - 1) (f32_val e - 1)" using add_rounds [OF e(1) neg(1)] powers_large neg by simp
  then have r: "is_fin (e + - 1)" "\<bar>f32_val (e + - 1) - (f32_val e - 1)\<bar> \<le> 2 / 16777216 + tiny"
    using \<open>\<bar>f32_val e - 1\<bar> \<le> 2\<close> by (simp_all add: rounds_to_def)
  have "\<bar>f32_val e - 1 - (x - 1)\<bar> \<le> 21 / 83886080 + tiny" using e(2) x by simp
  from near_trans [OF r(2) this] show "\<bar>f32_val (expand_float c) - (real c * (2 / 65535) - 1)\<bar> \<le> 1 / 2000000"
    using tiny_bounds unfolding m x_def by simp
  show "is_fin (expand_float c)" using r(1) m by simp
  show "f32_canonical (expand_float c)" unfolding m using ce f32_one f32_neg_canonical f32_add_canonical by blast
qed


lemma compress_expand:
  assumes "is_fin v" "f32_canonical v"
  shows "\<bar>f32_val (expand_float (compress_float bad v)) - clamp (f32_val v)\<bar> \<le> 1 / 31000"
proof -
  let ?c = "real (compress_float bad v)"
  have "\<bar>?c * (2 / 65535) - 1 - clamp (f32_val v)\<bar> = \<bar>?c - (clamp (f32_val v) + 1) * (65535 / 2)\<bar> * (2 / 65535)"
    by (simp add: field_simps abs_if)
  then have "\<bar>?c * (2 / 65535) - 1 - clamp (f32_val v)\<bar> \<le> (1 + 1 / 100) * (2 / 65535)"
    using compressed_number(2) [OF assms, of bad] by simp
  from near_trans [OF expanded_number(3) [OF compressed_number(1) [OF assms]] this] show ?thesis by simp
qed

lemma WriteCompressed_float_ok:
  assumes "bit_laws l" "stream_ok s" "numberOfBitsUsed s + 16 < 2147483648"
  shows "appends s (WriteCompressed_float l bad v s) (wire 2 (compress_float bad v))"
  using Write_ok [OF assms(1,2), of 2] assms(3) by (simp add: WriteCompressed_float_def)

lemma ReadCompressed_float_ok:
  assumes "bit_laws l" "reads_on r pre (wire 2 c @ rest)" "c < 65536"
  shows "ReadCompressed_float l out r = (True, expand_float c, skip 16 r)"
  using Read_ok [OF assms(1,2), of "junk_bytes l 2"] assms byte_lawsD(2) [OF assms(1)]
  by (simp add: ReadCompressed_float_def)

lemma compressed_float_travels:
  assumes "bit_laws l" "stream_ok s" "numberOfBitsUsed s + 16 < 2147483648" "is_fin v" "f32_canonical v"
  shows "\<exists>bs. appends s (WriteCompressed_float l bad v s) bs \<and> length bs = 16
     \<and> (\<forall>l' r pre rest out. bit_laws l' \<longrightarrow> reads_on r pre (bs @ rest) \<longrightarrow>
          (\<exists>w. ReadCompressed_float l' out r = (True, w, skip 16 r) \<and> \<bar>f32_val w - clamp (f32_val v)\<bar> \<le> 1 / 31000))"
proof (intro exI conjI allI impI)
  show "appends s (WriteCompressed_float l bad v s) (wire 2 (compress_float bad v))"
    by (rule WriteCompressed_float_ok [OF assms(1-3)])
  show "length (wire 2 (compress_float bad v)) = 16" by simp
  show "\<bar>f32_val (expand_float (compress_float bad v)) - clamp (f32_val v)\<bar> \<le> 1 / 31000"
    by (rule compress_expand [OF assms(4,5)])
  fix l' r pre rest out
  assume "bit_laws l'" "reads_on r pre (wire 2 (compress_float bad v) @ rest)"
  then show "ReadCompressed_float l' out r = (True, expand_float (compress_float bad v), skip 16 r)"
    using ReadCompressed_float_ok compressed_number(1) [OF assms(4,5)] by blast
qed

section \<open>Vectors\<close>

lemma f32_bits_bound: "f32_canonical x \<Longrightarrow> f32_bits x < 2 ^ 32"
proof (cases x)
  case (FFin s m e)
  assume "f32_canonical x"
  then have "nat (e + 150) \<le> 254" "nat (m - 2 ^ 23) < 2 ^ 23" "nat m < 2 ^ 23 \<or> 2 ^ 23 \<le> m" "0 \<le> m"
    by (auto simp: FFin f32_canonical_def)
  then show ?thesis by (auto simp: f32_bits_def FFin)
qed (auto simp: f32_bits_def)

lemma bit_fields:
  fixes k m :: nat
  assumes "k < 256" "m < 2 ^ 23" "n = (if s then 2 ^ 31 else 0) + k * 2 ^ 23 + m"
  shows "n mod 2 ^ 23 = m" "n div 2 ^ 23 mod 256 = k" "2 ^ 31 \<le> n mod 2 ^ 32 \<longleftrightarrow> s"
proof -
  have n: "n = m + ((if s then 256 else 0) + k) * 2 ^ 23" "n < 2 ^ 32" using assms by auto
  show "n mod 2 ^ 23 = m" using n(1) assms(2) by (simp only: mod_mult_self1 mod_less)
  have "n div 2 ^ 23 = (if s then 256 else 0) + k" using n(1) assms(2) by (simp only: div_mult_self1 div_less)
  then show "n div 2 ^ 23 mod 256 = k" using assms(1) by simp
  show "2 ^ 31 \<le> n mod 2 ^ 32 \<longleftrightarrow> s" using n(2) assms by auto
qed

lemma f32_bits_read [simp]: "f32_canonical x \<Longrightarrow> f32_of_bits (f32_bits x) = x"
proof (cases x)
  case (FFin s m e)
  assume c: "f32_canonical x"
  show ?thesis
  proof (cases "m < 2 ^ 23")
    case True
    then have "0 \<le> m" "e = -149" "nat m < 2 ^ 23" using c by (auto simp: FFin f32_canonical_def)
    then show ?thesis using True bit_fields [of 0 "nat m" "f32_bits x" s] by (simp add: f32_bits_def f32_of_bits_def FFin Let_def)
  next
    case False
    define k where "k = nat (e + 150)"
    define j where "j = nat (m - 2 ^ 23)"
    have "m = int (j + 2 ^ 23)" "j < 2 ^ 23" "e = int k - 150" "0 < k" "k < 255"
      using c False by (auto simp: FFin f32_canonical_def k_def j_def)
    then show ?thesis using bit_fields [of k j "f32_bits x" s] by (simp add: f32_bits_def f32_of_bits_def FFin Let_def)
  qed
qed (auto simp: f32_bits_def f32_of_bits_def)


lemma tiny_small: "tiny \<le> 1 / 10 ^ 32"
proof -
  have "(1 / 2 :: real) ^ 150 \<le> (1 / 2) ^ 107" by (rule power_decreasing) simp_all
  moreover have "(1 / 2 :: real) ^ 107 \<le> 1 / 10 ^ 32" by (simp add: power_divide)
  moreover have "tiny = (1 / 2) ^ 150" by (simp add: tiny_def power_int_def)
  ultimately show ?thesis by (simp only: order_trans)
qed

lemma f32_pos_val: "f32_pos a \<Longrightarrow> 0 \<le> f32_val a"
  by (cases a) (auto simp: f32_val_def sgm_def)

lemma three_sums:
  fixes t :: real
  assumes "\<bar>p - x\<bar> \<le> 1 / 16777216 * x + t" "\<bar>q - y\<bar> \<le> 1 / 16777216 * y + t" "\<bar>r - z\<bar> \<le> 1 / 16777216 * z + t"
    "\<bar>a - u\<bar> \<le> 1 / 16777216 * u + t" "\<bar>b - v\<bar> \<le> 1 / 16777216 * v + t" "u = p + q" "v = a + r"
    "0 \<le> x" "0 \<le> y" "0 \<le> z" "0 \<le> t" "w = x + y + z"
  shows "\<bar>b - w\<bar> \<le> 1 / 4000000 * w + 10 * t"
proof -
  define m where "m = x + y"
  have "\<bar>u - m\<bar> \<le> 1 / 16777216 * m + 2 * t" using assms(1,2,6) unfolding m_def distrib_left by linarith
  moreover have m: "0 \<le> m" using assms by (simp add: m_def)
  ultimately have a: "\<bar>a - m\<bar> \<le> 3 / 16777216 * m + 4 * t" using assms(4,11) by linarith
  have w: "w = m + z" using assms by (simp add: m_def)
  have "\<bar>v - w\<bar> \<le> 3 / 16777216 * w + 5 * t" using a assms(3,7,10,11) unfolding w distrib_left by linarith
  then show ?thesis using assms(5,11) m assms(10) w by linarith
qed

lemma sqrt_near:
  assumes "0 \<le> b" "0 \<le> d" "0 \<le> e" "a \<le> b + e * b + d\<^sup>2"
  shows "sqrt a \<le> sqrt b + e * sqrt b + d"
proof (rule real_le_lsqrt)
  have "b = sqrt b * sqrt b" using assms(1) by simp
  have "b + e * b + d\<^sup>2 \<le> b + e * b + d\<^sup>2 + (e * b + e * e * b + 2 * (sqrt b + e * sqrt b) * d)" using assms by simp
  also have "\<dots> = (sqrt b + e * sqrt b + d)\<^sup>2" using assms(1) by (simp add: power2_eq_square algebra_simps)
  finally show "a \<le> (sqrt b + e * sqrt b + d)\<^sup>2" using assms(4) by simp
qed (use assms in simp)


lemma f32_sqrt_canonical: "f32_canonical a \<Longrightarrow> f32_canonical (f32_sqrt a)"
  by (cases a) (auto simp: Let_def f32_canonical_def [of FNaN] f32_canonical_def [of "FInf _"] intro!: f32_round_canonical isqrt_nonneg add_nonneg_nonneg)

lemma square_rounds:
  assumes "is_fin x" "f32_canonical x" "\<bar>f32_val x\<bar> \<le> 10 ^ 6"
  shows "is_fin (x * x)" "f32_canonical (x * x)" "0 \<le> f32_val (x * x)" "f32_val (x * x) \<le> 2 * 10 ^ 12"
    "\<bar>f32_val (x * x) - (f32_val x)\<^sup>2\<bar> \<le> 1 / 16777216 * (f32_val x)\<^sup>2 + tiny"
proof -
  have sq: "(f32_val x)\<^sup>2 \<le> 10 ^ 12" using power_mono [OF assms(3) abs_ge_zero, of 2] by simp
  have "(10 ^ 12 :: real) < 2 powi 100"
  proof -
    have "(2 :: real) ^ 40 \<le> 2 ^ 100" by (rule power_increasing) simp_all
    then show ?thesis by (simp add: power_int_def)
  qed
  then have "rounds_to (x * x) (f32_val x * f32_val x)"
    using mul_rounds [OF assms(1,1) _ assms(2,2)] sq by (simp add: power2_eq_square)
  then show r: "is_fin (x * x)" "\<bar>f32_val (x * x) - (f32_val x)\<^sup>2\<bar> \<le> 1 / 16777216 * (f32_val x)\<^sup>2 + tiny"
    by (simp_all add: rounds_to_def power2_eq_square)
  show "f32_canonical (x * x)" by (rule f32_mul_canonical [OF assms(2,2)])
  show "0 \<le> f32_val (x * x)" by (rule f32_pos_val [OF f32_square_pos [OF assms(2)]])
  show "f32_val (x * x) \<le> 2 * 10 ^ 12" using r(2) sq tiny_bounds by simp
qed

lemma nonneg_sum_rounds:
  assumes "is_fin a" "f32_canonical a" "0 \<le> f32_val a" "is_fin b" "f32_canonical b" "0 \<le> f32_val b"
    "f32_val a + f32_val b \<le> 8 * 10 ^ 12"
  shows "is_fin (a + b)" "f32_canonical (a + b)"
    "\<bar>f32_val (a + b) - (f32_val a + f32_val b)\<bar> \<le> 1 / 16777216 * (f32_val a + f32_val b) + tiny"
proof -
  have "(8 * 10 ^ 12 :: real) < 2 powi 100"
  proof -
    have "(2 :: real) ^ 50 \<le> 2 ^ 100" by (rule power_increasing) simp_all
    then show ?thesis by (simp add: power_int_def)
  qed
  then have "rounds_to (a + b) (f32_val a + f32_val b)" using add_rounds [OF assms(1,4)] assms by simp
  then show "is_fin (a + b)" "\<bar>f32_val (a + b) - (f32_val a + f32_val b)\<bar> \<le> 1 / 16777216 * (f32_val a + f32_val b) + tiny"
    using assms by (simp_all add: rounds_to_def)
qed (rule f32_add_canonical [OF assms(2,5)])

definition moderate :: "f32 \<Rightarrow> bool" where
  "moderate x \<longleftrightarrow> is_fin x \<and> f32_canonical x \<and> \<bar>f32_val x\<bar> \<le> 10 ^ 6"

definition real_length :: "f32 \<Rightarrow> f32 \<Rightarrow> f32 \<Rightarrow> real" where
  "real_length x y z = sqrt ((f32_val x)\<^sup>2 + (f32_val y)\<^sup>2 + (f32_val z)\<^sup>2)"

lemma sum_bounded: "\<bar>s - u\<bar> \<le> 1 / 16777216 * u + t \<Longrightarrow> u \<le> 4 * 10 ^ 12 \<Longrightarrow> t \<le> 1 / 1000000000 \<Longrightarrow> s \<le> 5 * 10 ^ 12"
  for s u t :: real
  by simp

lemma near_above: "\<bar>s - l\<bar> \<le> 1 / 4000000 * l + t \<Longrightarrow> t \<le> d / 2 \<Longrightarrow> 0 \<le> s \<Longrightarrow> 0 \<le> d \<Longrightarrow>
    s \<le> l + 1 / 4000000 * l + d \<and> l \<le> s + 1 / 2000000 * s + d" for s l t d :: real
  by linarith

lemma squares_near:
  assumes "moderate x" "moderate y" "moderate z"
  shows "is_fin (x * x + y * y + z * z)" "f32_canonical (x * x + y * y + z * z)" "0 \<le> f32_val (x * x + y * y + z * z)"
    "\<bar>f32_val (x * x + y * y + z * z) - (real_length x y z)\<^sup>2\<bar> \<le> 1 / 4000000 * (real_length x y z)\<^sup>2 + 10 * tiny"
proof -
  note m = assms [unfolded moderate_def]
  note x = square_rounds [of x] and y = square_rounds [of y] and z = square_rounds [of z]
  have c: "f32_canonical (x * x)" "f32_canonical (y * y)" "f32_canonical (z * z)" using x y z m by simp_all
  have p: "0 \<le> f32_val (x * x + y * y)" "0 \<le> f32_val (x * x + y * y + z * z)"
    using f32_square_pos f32_add_pos m by (auto intro: f32_pos_val)
  have xy: "f32_val (x * x) + f32_val (y * y) \<le> 4 * 10 ^ 12" using x(4) y(4) m by simp
  note s = nonneg_sum_rounds [of "x * x" "y * y"]
  have s: "is_fin (x * x + y * y)" "f32_canonical (x * x + y * y)"
      "\<bar>f32_val (x * x + y * y) - (f32_val (x * x) + f32_val (y * y))\<bar> \<le> 1 / 16777216 * (f32_val (x * x) + f32_val (y * y)) + tiny"
    using s x y m xy by simp_all
  have "f32_val (x * x + y * y) \<le> 5 * 10 ^ 12" by (rule sum_bounded [OF s(3) xy tiny_bounds(3)])
  then have le: "f32_val (x * x + y * y) + f32_val (z * z) \<le> 8 * 10 ^ 12" using z(4) m by simp
  note t = nonneg_sum_rounds [OF s(1,2) p(1) _ c(3) _ le]
  show "is_fin (x * x + y * y + z * z)" "f32_canonical (x * x + y * y + z * z)" using t(1,2) z m by simp_all
  show "0 \<le> f32_val (x * x + y * y + z * z)" by (rule p(2))
  have L: "(real_length x y z)\<^sup>2 = (f32_val x)\<^sup>2 + (f32_val y)\<^sup>2 + (f32_val z)\<^sup>2" by (simp add: real_length_def)
  show "\<bar>f32_val (x * x + y * y + z * z) - (real_length x y z)\<^sup>2\<bar> \<le> 1 / 4000000 * (real_length x y z)\<^sup>2 + 10 * tiny"
    by (rule three_sums [OF _ _ _ s(3) t(3) refl refl _ _ _ tiny_bounds(2) L]) (use x y z m in simp_all)
qed

lemma root_bounds:
  fixes m r l t :: real
  assumes "\<bar>m - r\<bar> \<le> 1 / 8388608 * r + t" "t \<le> 1 / 10 ^ 15" "r \<le> l + 1 / 4000000 * l + 1 / 10 ^ 15"
    "l \<le> r + 1 / 2000000 * r + 1 / 10 ^ 15" "0 \<le> r" "0 \<le> l"
  shows "m \<le> l + 1 / 1000000 * l + 1 / 10 ^ 14" "l \<le> m + 1 / 1000000 * m + 1 / 10 ^ 14"
  using assms by simp_all

lemma length_near:
  assumes "moderate x" "moderate y" "moderate z"
  defines "M \<equiv> f32_sqrt (x * x + y * y + z * z)" and "L \<equiv> real_length x y z"
  shows "is_fin M" "f32_canonical M" "f32_val M \<le> L + 1 / 1000000 * L + 1 / 10 ^ 14" "L \<le> f32_val M + 1 / 1000000 * f32_val M + 1 / 10 ^ 14"
    "f32_val M \<le> 4 * 10 ^ 6"
proof -
  define S where "S = x * x + y * y + z * z"
  note s = squares_near [OF assms(1-3), folded S_def L_def]
  have L: "0 \<le> L" "sqrt (L\<^sup>2) = L" by (simp_all add: L_def real_length_def)
  have small: "10 * tiny \<le> (1 / 10 ^ 15)\<^sup>2 / 2" using tiny_small by (simp add: power_divide)
  note n = near_above [OF s(4) small s(3)]
  have "f32_val S \<le> L\<^sup>2 + 1 / 4000000 * L\<^sup>2 + (1 / 10 ^ 15)\<^sup>2" using n by simp
  from sqrt_near [OF _ _ _ this] have up: "sqrt (f32_val S) \<le> L + 1 / 4000000 * L + 1 / 10 ^ 15" using L by simp
  have "L\<^sup>2 \<le> f32_val S + 1 / 2000000 * f32_val S + (1 / 10 ^ 15)\<^sup>2" using n by simp
  from sqrt_near [OF s(3) _ _ this] have down: "L \<le> sqrt (f32_val S) + 1 / 2000000 * sqrt (f32_val S) + 1 / 10 ^ 15"
    using L by simp
  have "(f32_val v)\<^sup>2 \<le> 10 ^ 12" if "moderate v" for v
    using power_mono [of "\<bar>f32_val v\<bar>" "10 ^ 6" 2] that by (simp add: moderate_def)
  from this [OF assms(1)] this [OF assms(2)] this [OF assms(3)]
  have "L \<le> 2 * 10 ^ 6" unfolding L_def real_length_def by (intro real_le_lsqrt) simp_all
  note top = this
  then have "sqrt (f32_val S) \<le> 4 * 10 ^ 6" using up by simp
  then have "sqrt (f32_val S) < 2 powi 99" using powers_large by simp
  note r = sqrt_rounds [OF s(1,2,3) this]
  show "is_fin M" "f32_canonical M" using r(1) f32_sqrt_canonical [OF s(2)] by (simp_all add: M_def S_def)
  have M: "M = f32_sqrt S" by (simp add: M_def S_def)
  have t: "tiny \<le> 1 / 10 ^ 15" using tiny_small by simp
  have R: "0 \<le> sqrt (f32_val S)" using s(3) by simp
  note b = root_bounds [OF r(2) t up down R L(1)]
  show "f32_val M \<le> L + 1 / 1000000 * L + 1 / 10 ^ 14" "L \<le> f32_val M + 1 / 1000000 * f32_val M + 1 / 10 ^ 14"
    using b by (simp_all only: M)
  then show "f32_val M \<le> 4 * 10 ^ 6" using top by simp
qed


lemma clamp_near: "\<bar>q - u\<bar> \<le> 1 / 5000000 \<Longrightarrow> \<bar>u\<bar> \<le> 1 + 1 / 500000 \<Longrightarrow> \<bar>clamp q - u\<bar> \<le> 3 / 1000000"
  unfolding clamp_def by linarith

lemma component_near:
  assumes v: "is_fin v" "f32_canonical v" "\<bar>f32_val v\<bar> \<le> L"
    and M: "is_fin M" "f32_canonical M" "1 / 110000 \<le> f32_val M" "f32_val M \<le> 4 * 10 ^ 6"
    and L: "f32_val M \<le> L + 1 / 1000000 * L + 1 / 10 ^ 14" "L \<le> f32_val M + 1 / 1000000 * f32_val M + 1 / 10 ^ 14"
  shows "is_fin (v div M)" "f32_canonical (v div M)"
    "is_fin (expand_float (compress_float bad (v div M)) * M)"
    "\<bar>f32_val (expand_float (compress_float bad (v div M)) * M) - f32_val v\<bar> \<le> L / 27000"
proof -
  define m where "m = f32_val M"
  define u where "u = f32_val v / m"
  have m: "1 / 110000 \<le> m" "m \<le> 4 * 10 ^ 6" "m \<le> L + 1 / 1000000 * L + 1 / 10 ^ 14" "L \<le> m + 1 / 1000000 * m + 1 / 10 ^ 14"
    using M L by (simp_all add: m_def)
  then have m0: "0 < m" by simp
  have "\<bar>f32_val v\<bar> \<le> m * (1 + 1 / 500000)" using v(3) m(1,4) by simp
  then have u: "\<bar>u\<bar> \<le> 1 + 1 / 500000" using m0 by (simp add: u_def abs_mult pos_divide_le_eq mult.commute)
  then have "\<bar>u\<bar> < 2 powi 99" using powers_large by linarith
  then have "\<bar>f32_val v / f32_val M\<bar> < 2 powi 99" by (simp only: u_def m_def)
  note q = div_rounds [OF v(1) M(1) this v(2) M(2)]
  show f: "is_fin (v div M)" "f32_canonical (v div M)" using q(1) m0 f32_div_canonical [OF v(2) M(2)] by (simp_all add: m_def)
  have "\<bar>f32_val (v div M) - u\<bar> \<le> 1 / 8388608 * \<bar>u\<bar> + tiny" using q(2) m0 by (simp add: u_def m_def)
  then have "\<bar>f32_val (v div M) - u\<bar> \<le> 1 / 5000000" using u tiny_bounds(3) by simp
  note cl = clamp_near [OF this u]
  define E where "E = expand_float (compress_float bad (v div M))"
  define e where "e = f32_val E"
  have E: "is_fin E" "f32_canonical E" using expanded_number(1,2) [OF compressed_number(1) [OF f]] by (simp_all add: E_def)
  have "\<bar>e - u\<bar> \<le> 1 / 31000 + 3 / 1000000"
    using near_trans [OF compress_expand [OF f, of bad] cl] by (simp add: E_def e_def)
  then have e: "\<bar>e - u\<bar> \<le> 353 / 10000000" by simp
  have "\<bar>e\<bar> \<le> 2" using e u by linarith
  then have em: "\<bar>e * m\<bar> \<le> 2 * m" using m0 by (simp add: abs_mult)
  then have "\<bar>f32_val E * f32_val M\<bar> < 2 powi 100" using m(2) powers_large by (simp add: e_def m_def)
  from mul_rounds [OF E(1) M(1) this E(2) M(2)]
  have r: "\<bar>f32_val (E * M) - e * m\<bar> \<le> 1 / 16777216 * \<bar>e * m\<bar> + tiny" and fin: "is_fin (E * M)"
    by (simp_all add: rounds_to_def e_def m_def)
  show "is_fin (expand_float (compress_float bad (v div M)) * M)" using fin by (simp only: E_def)
  have "e * m - f32_val v = (e - u) * m" using m0 by (simp add: u_def left_diff_distrib)
  then have "\<bar>e * m - f32_val v\<bar> = \<bar>e - u\<bar> * m" using m0 by (simp add: abs_mult)
  also have "\<dots> \<le> 353 / 10000000 * m" using e m0 by (intro mult_right_mono) simp_all
  finally have "\<bar>e * m - f32_val v\<bar> \<le> 353 / 10000000 * m" .
  from near_trans [OF r this] have "\<bar>f32_val (E * M) - f32_val v\<bar> \<le> 1 / 16777216 * (2 * m) + tiny + 353 / 10000000 * m"
    using em by simp
  also have "\<dots> \<le> L / 27000" using m tiny_small by simp
  finally show "\<bar>f32_val (expand_float (compress_float bad (v div M)) * M) - f32_val v\<bar> \<le> L / 27000" by (simp only: E_def)
qed

lemma f32_hundredthousandth:
  "f32_lit 1 100000 = FFin False 10995116 (-40)" "f32_val (f32_lit 1 100000) = 10995116 / 2 ^ 40"
  "is_fin (f32_lit 1 100000)"
proof -
  show l: "f32_lit 1 100000 = FFin False 10995116 (-40)" by (simp add: f32_eval nbits.simps)
  show "f32_val (f32_lit 1 100000) = 10995116 / 2 ^ 40" "is_fin (f32_lit 1 100000)"
    by (simp_all add: l f32_val_def sgm_def power_int_def power_one_over divide_simps)
qed


lemma component_le:
  "\<bar>f32_val x\<bar> \<le> real_length x y z" "\<bar>f32_val y\<bar> \<le> real_length x y z" "\<bar>f32_val z\<bar> \<le> real_length x y z"
  by (auto simp: real_length_def intro!: real_le_rsqrt)

text \<open>What a reader may find for a component of a vector of the given length: a number, close to what was written.\<close>

definition near_component :: "real \<Rightarrow> f32 \<Rightarrow> f32 \<Rightarrow> bool" where
  "near_component L v w \<longleftrightarrow>
     is_fin w \<and> \<bar>f32_val w - f32_val v\<bar> \<le> (if 1 / 99999 < L then L / 27000 else 1 / 99999)"

text \<open>The bits of a vector: the length, and the three parts of the direction if there is one.\<close>

definition vector_bits :: "f32 \<Rightarrow> nat \<Rightarrow> nat \<Rightarrow> nat \<Rightarrow> bool list" where
  "vector_bits M cx cy cz =
     wire 4 (f32_bits M) @ (if f32_lit 1 100000 < M then wire 2 cx @ wire 2 cy @ wire 2 cz else [])"

lemma length_vector_bits: "length (vector_bits M cx cy cz) = (if f32_lit 1 100000 < M then 80 else 32)"
  by (simp add: vector_bits_def)

lemma skip_skip: "skip a (skip b r) = skip (b + a) r"
  by (simp add: skip_def)

lemma WriteVector_ok:
  fixes x y z :: f32 and bad :: "f32 \<Rightarrow> nat"
  assumes "bit_laws l" "stream_ok s" "numberOfBitsUsed s + 80 < 2147483648"
  defines "M \<equiv> f32_sqrt (x * x + y * y + z * z)" and "q \<equiv> \<lambda>v M. compress_float bad (v div M)"
  shows "appends s (WriteVector l bad x y z s) (vector_bits M (q x M) (q y M) (q z M))"
proof -
  have w1: "appends s (Write l (mem_of l 4 (f32_bits M)) s) (wire 4 (f32_bits M))"
    by (rule Write_ok [OF assms(1,2)]) (use assms(3) in simp_all)
  have step: "appends s (WriteCompressed_float l bad (v div M) s') (bs' @ wire 2 (q v M))"
    if "appends s s' bs'" "length bs' \<le> 64" for s' bs' v
  proof (rule appends_trans [OF that(1)])
    show "appends s' (WriteCompressed_float l bad (v div M) s') (wire 2 (q v M))"
      unfolding q_def using appends_used [OF assms(2) that(1)] that(2) assms(3)
      by (intro WriteCompressed_float_ok [OF assms(1) appends_ok [OF that(1)]]) simp
  qed
  show ?thesis using w1 step [OF step [OF step [OF w1]], of x y z]
    by (simp add: WriteVector_def M_def [symmetric] vector_bits_def)
qed

lemma ReadVector_ok:
  assumes l: "bit_laws l" and r: "reads_on r pre (vector_bits M cx cy cz @ rest)" and M: "f32_canonical M"
    and c: "cx < 65536" "cy < 65536" "cz < 65536"
  shows "ReadVector l out r =
    (True, if f32_lit 1 100000 < M then (expand_float cx * M, expand_float cy * M, expand_float cz * M) else (0, 0, 0),
     skip (length (vector_bits M cx cy cz)) r)"
proof -
  have b: "f32_bits M < 256 ^ 4" using f32_bits_bound [OF M] by simp
  have r1: "Read l (junk_bytes l 4) r = (True, mem_of l 4 (f32_bits M), skip 32 r)"
    if "reads_on r pre (wire 4 (f32_bits M) @ rest)" for rest
    using Read_ok [OF l that, of "junk_bytes l 4"] byte_lawsD(2) [OF l] by simp
  show ?thesis
  proof (cases "f32_lit 1 100000 < M")
    case True
    have r: "reads_on r pre (wire 4 (f32_bits M) @ wire 2 cx @ wire 2 cy @ wire 2 cz @ rest)"
      using r True by (simp add: vector_bits_def)
    have rx: "reads_on (skip 32 r) (pre @ wire 4 (f32_bits M)) (wire 2 cx @ wire 2 cy @ wire 2 cz @ rest)"
      by (rule reads_on_skip [OF r]) simp
    have ry: "reads_on (skip 16 (skip 32 r)) ((pre @ wire 4 (f32_bits M)) @ wire 2 cx) (wire 2 cy @ wire 2 cz @ rest)"
      by (rule reads_on_skip [OF rx]) simp
    have rz: "reads_on (skip 16 (skip 16 (skip 32 r))) (((pre @ wire 4 (f32_bits M)) @ wire 2 cx) @ wire 2 cy) (wire 2 cz @ rest)"
      by (rule reads_on_skip [OF ry]) simp
    show ?thesis
      using r1 [OF r] ReadCompressed_float_ok [OF l rx c(1)] ReadCompressed_float_ok [OF l ry c(2)]
        ReadCompressed_float_ok [OF l rz c(3)] b M True
      by (simp add: ReadVector_def Let_def length_vector_bits skip_skip)
  next
    case False
    then show ?thesis using r1 [of rest] r b M by (simp add: ReadVector_def Let_def vector_bits_def)
  qed
qed

lemma read_back_near:
  fixes v :: f32 and bad :: "f32 \<Rightarrow> nat"
  assumes "moderate x" "moderate y" "moderate z" "v \<in> {x, y, z}"
  defines "M \<equiv> f32_sqrt (x * x + y * y + z * z)" and "L \<equiv> real_length x y z"
  shows "f32_lit 1 100000 < M \<Longrightarrow> compress_float bad (v div M) < 65536"
    "f32_lit 1 100000 < M \<Longrightarrow> near_component L v (expand_float (compress_float bad (v div M)) * M)"
    "\<not> f32_lit 1 100000 < M \<Longrightarrow> near_component L v 0"
proof -
  note n = length_near [OF assms(1-3), folded M_def L_def]
  have v: "is_fin v" "f32_canonical v" "\<bar>f32_val v\<bar> \<le> L"
    using assms(1-4) component_le by (auto simp: moderate_def L_def)
  note cmp = f32_lt_val [OF f32_hundredthousandth(3) n(1), unfolded f32_hundredthousandth(2)]
  have "1 / 110000 \<le> f32_val M" if "f32_lit 1 100000 < M" using that cmp by simp
  note k = component_near [OF v n(1,2) this n(5,3,4)]
  show "f32_lit 1 100000 < M \<Longrightarrow> compress_float bad (v div M) < 65536" using compressed_number(1) k(1,2) by blast
  show "f32_lit 1 100000 < M \<Longrightarrow> near_component L v (expand_float (compress_float bad (v div M)) * M)"
    using k(3) [of bad] k(4) [of bad] by (cases "1 / 99999 < L") (simp_all add: near_component_def)
  have zero: "is_fin 0" "f32_val 0 = 0" by (simp_all add: zero_f32_def f32_val_def sgm_def)
  have "L \<le> 1 / 99999" if "\<not> f32_lit 1 100000 < M" using that cmp n(4) by simp
  then show "\<not> f32_lit 1 100000 < M \<Longrightarrow> near_component L v 0" using v(3)
    by (auto simp: near_component_def zero)
qed

section \<open>Quaternions\<close>

definition quat_read :: "bool \<Rightarrow> nat \<Rightarrow> f32" where
  "quat_read n c = (let v = f32_of_int (int c) div f32_of_int 65535 in if n then - v else v)"

lemma f32_65535: "is_fin (f32_of_int 65535)" "f32_canonical (f32_of_int 65535)" "f32_val (f32_of_int 65535) = 65535"
  using f32_of_int_exact [of 65535] by simp_all

lemma quat_part_value:
  assumes "is_fin x" "f32_canonical x" "\<bar>f32_val x\<bar> \<le> 1"
  shows "quat_part bad x < 65536" "real (quat_part bad x) \<le> \<bar>f32_val x\<bar> * 65535"
    "\<bar>f32_val x\<bar> * 65535 - 1 < real (quat_part bad x)"
proof -
  obtain s m e where x: "x = FFin s m e" using assms(1) by (cases x) auto
  have m: "0 \<le> m" using assms(2) f32_canonical_nonneg x by blast
  define t where "t = f32_trunc (FFin False (m * 65535) e)"
  have v: "f32_val (FFin False (m * 65535) e) = \<bar>f32_val x\<bar> * 65535"
    using m by (simp add: x f32_val_def sgm_def abs_mult)
  have t: "0 \<le> t" "\<bar>f32_val x\<bar> * 65535 - 1 < of_int t" "of_int t \<le> max 0 (\<bar>f32_val x\<bar> * 65535)"
    using f32_trunc_nonneg(2-4) [of "m * 65535" e] m unfolding t_def v by simp_all
  then have "real_of_int t \<le> \<bar>f32_val x\<bar> * 65535" by simp
  moreover from this have "real_of_int t < 65536" using assms(3) by linarith
  ultimately show "quat_part bad x < 65536" "real (quat_part bad x) \<le> \<bar>f32_val x\<bar> * 65535"
    "\<bar>f32_val x\<bar> * 65535 - 1 < real (quat_part bad x)"
    using t by (simp_all add: quat_part_def cast_u16_def x t_def [symmetric])
qed

lemma quat_part_read:
  fixes x :: f32 and bad :: "f32 \<Rightarrow> nat"
  assumes "is_fin x" "f32_canonical x" "\<bar>f32_val x\<bar> \<le> 1"
  defines "r \<equiv> quat_read (x < 0) (quat_part bad x)"
  shows "is_fin r" "f32_canonical r" "\<bar>f32_val r\<bar> \<le> 1 + 1 / 64000" "\<bar>f32_val r - f32_val x\<bar> \<le> 1 / 64000"
proof -
  define c where "c = quat_part bad x"
  note c = quat_part_value [OF assms(1-3), of bad, folded c_def]
  have i: "is_fin (f32_of_int (int c))" "f32_val (f32_of_int (int c)) = real c" "f32_canonical (f32_of_int (int c))"
    using f32_of_int_exact [of "int c"] c(1) by simp_all
  define v where "v = f32_of_int (int c) div f32_of_int 65535"
  have q: "f32_val (f32_of_int (int c)) / f32_val (f32_of_int 65535) = real c / 65535" by (simp add: i f32_65535)
  define u where "u = real c / 65535"
  have u: "0 \<le> u" "u \<le> \<bar>f32_val x\<bar>" "\<bar>f32_val x\<bar> - 1 / 65535 \<le> u" using c by (simp_all add: u_def field_simps)
  have fv: "is_fin v" "\<bar>f32_val v - u\<bar> \<le> 1 / 8388608 * u + tiny"
    using div_rounds [OF i(1) f32_65535(1) _ i(3) f32_65535(2)] u assms(3) powers_large unfolding q v_def u_def [symmetric]
    by (simp_all add: f32_65535)
  have cv: "f32_canonical v" unfolding v_def by (rule f32_div_canonical [OF i(3) f32_65535(2)])
  have r: "r = (if x < 0 then - v else v)" by (simp add: r_def quat_read_def c_def v_def)
  show "is_fin r" "f32_canonical r" using fv(1) cv by (simp_all add: r f32_neg_val f32_neg_canonical)
  have n: "\<bar>f32_val v - \<bar>f32_val x\<bar>\<bar> \<le> 1 / 64000" using fv(2) u assms(3) tiny_bounds(3) by linarith
  have z: "is_fin (0 :: f32)" "f32_val 0 = 0" by (simp_all add: zero_f32_def f32_val_def sgm_def)
  have sx: "x < 0 \<longleftrightarrow> f32_val x < 0" using f32_lt_val [OF assms(1) z(1)] z(2) by simp
  have rv: "f32_val r = (if f32_val x < 0 then - f32_val v else f32_val v)" by (simp add: r f32_neg_val sx)
  show "\<bar>f32_val r - f32_val x\<bar> \<le> 1 / 64000"
    using n unfolding rv by (auto simp: abs_if split: if_splits)
  show "\<bar>f32_val r\<bar> \<le> 1 + 1 / 64000"
    using n assms(3) unfolding rv by (auto simp: abs_if split: if_splits)
qed

lemma step_bounded:
  "\<bar>r - v\<bar> \<le> 1 / 16777216 * \<bar>v\<bar> + t \<Longrightarrow> \<bar>v\<bar> \<le> a + 5 \<Longrightarrow> a \<le> 1000 \<Longrightarrow> t \<le> 1 / 1000000000 \<Longrightarrow> \<bar>r\<bar> \<le> a + 10"
  for r v t a :: real
  by linarith

lemma minus_square:
  assumes "is_fin a" "f32_canonical a" "\<bar>f32_val a\<bar> \<le> 1000" "is_fin x" "f32_canonical x" "\<bar>f32_val x\<bar> \<le> 2"
  shows "is_fin (a - x * x)" "f32_canonical (a - x * x)" "\<bar>f32_val (a - x * x)\<bar> \<le> \<bar>f32_val a\<bar> + 10"
proof -
  have x: "\<bar>f32_val x * f32_val x\<bar> \<le> 4" using abs_mult_less [of "f32_val x" "5 / 2" "f32_val x"] mult_mono [OF assms(6,6)] by (simp add: abs_mult)
  have m: "rounds_to (x * x) (f32_val x * f32_val x)" using mul_rounds [OF assms(4,4) _ assms(5,5)] x powers_large by simp
  then have q: "is_fin (- (x * x))" "\<bar>f32_val (- (x * x))\<bar> \<le> 5"
    using x tiny_bounds(3) by (auto simp: rounds_to_def f32_neg_val)
  have n: "\<bar>f32_val a + f32_val (- (x * x))\<bar> \<le> \<bar>f32_val a\<bar> + 5" using q(2) by linarith
  then have "\<bar>f32_val a + f32_val (- (x * x))\<bar> < 2 powi 100" using assms(3) powers_large by simp
  from add_rounds [OF assms(1) q(1) this]
  have r: "is_fin (a + - (x * x))" "\<bar>f32_val (a + - (x * x)) - (f32_val a + f32_val (- (x * x)))\<bar> \<le> 1 / 16777216 * \<bar>f32_val a + f32_val (- (x * x))\<bar> + tiny"
    by (simp_all add: rounds_to_def)
  have e: "a - x * x = a + - (x * x)" by (simp add: minus_f32_def f32_sub_def plus_f32_def uminus_f32_def)
  show "is_fin (a - x * x)" "\<bar>f32_val (a - x * x)\<bar> \<le> \<bar>f32_val a\<bar> + 10"
    unfolding e using r(1) step_bounded [OF r(2) n assms(3) tiny_bounds(3)] by simp_all
  show "f32_canonical (a - x * x)" by (intro f32_sub_canonical f32_mul_canonical assms(2,5))
qed

lemma f32_sqrt_val_nonneg: "is_fin (f32_sqrt a) \<Longrightarrow> f32_canonical a \<Longrightarrow> 0 \<le> f32_val (f32_sqrt a)"
proof (cases a)
  case (FFin s m e)
  assume "is_fin (f32_sqrt a)" "f32_canonical a"
  then show ?thesis
    by (cases "m = 0") (auto simp: FFin f32_val_def [of "FFin s 0 e"] sgm_def Let_def intro!: f32_pos_val f32_round_pos isqrt_nonneg add_nonneg_nonneg)
qed (auto simp: f32_val_def)

lemma quat_fourth_ok:
  assumes "is_fin x" "f32_canonical x" "\<bar>f32_val x\<bar> \<le> 2" "is_fin y" "f32_canonical y" "\<bar>f32_val y\<bar> \<le> 2"
    "is_fin z" "f32_canonical z" "\<bar>f32_val z\<bar> \<le> 2"
  shows "is_fin (quat_fourth x y z)" "0 \<le> f32_val (quat_fourth x y z)"
proof -
  have one: "\<bar>f32_val 1\<bar> \<le> 1000" by (simp add: f32_one)
  note a = minus_square [OF f32_one(1,2) one assms(1-3)]
  have "\<bar>f32_val (1 - x * x)\<bar> \<le> 1000" using a(3) by (simp add: f32_one)
  note b = minus_square [OF a(1,2) this assms(4-6)]
  have "\<bar>f32_val (1 - x * x - y * y)\<bar> \<le> 1000" using a(3) b(3) by (simp add: f32_one)
  note c = minus_square [OF b(1,2) this assms(7-9)]
  define d where "d = 1 - x * x - y * y - z * z"
  define e where "e = (if d < 0 then 0 else d)"
  have z: "is_fin (0 :: f32)" "f32_val 0 = 0" "f32_canonical 0" by (simp_all add: zero_f32_def f32_val_def sgm_def f32_canonical_def)
  have e: "is_fin e" "f32_canonical e" "0 \<le> f32_val e" "f32_val e \<le> 100"
    using a(3) b(3) c z f32_lt_val [OF c(1) z(1)] by (auto simp: e_def d_def f32_one)
  have "sqrt (f32_val e) \<le> 10" using e(4) by (intro real_le_lsqrt) (simp_all add: e(3))
  then have "sqrt (f32_val e) < 2 powi 99" using powers_large by simp
  from sqrt_rounds(1) [OF e(1-3) this] have "is_fin (f32_sqrt e)" .
  then show "is_fin (quat_fourth x y z)" "0 \<le> f32_val (quat_fourth x y z)"
    using f32_sqrt_val_nonneg [OF _ e(2)] by (simp_all only: quat_fourth_def Let_def e_def d_def)
qed

definition quat_bits :: "bool list \<Rightarrow> nat \<Rightarrow> nat \<Rightarrow> nat \<Rightarrow> bool list" where
  "quat_bits signs cx cy cz = signs @ wire 2 cx @ wire 2 cy @ wire 2 cz"

lemma WriteNormQuat_ok:
  assumes "bit_laws l" "stream_ok s" "numberOfBitsUsed s + 52 < 2147483648"
  shows "appends s (WriteNormQuat l bad w x y z s)
    (quat_bits [w < 0, x < 0, y < 0, z < 0] (quat_part bad x) (quat_part bad y) (quat_part bad z))"
proof -
  have flag: "appends s (Write_bool l b s') (bs @ [b])" if "appends s s' bs" "length bs < 4" for s' bs b
    using appends_trans [OF that(1)] Write_bool_ok [OF assms(1) appends_ok [OF that(1)], of b]
      appends_used [OF assms(2) that(1)] that(2) assms(3) by simp
  have part: "appends s (Write l (mem_of l 2 v) s') (bs @ wire 2 v)" if "appends s s' bs" "length bs \<le> 36" for s' bs v
    using appends_trans [OF that(1)] Write_ok [OF assms(1) appends_ok [OF that(1)], of 2 v]
      appends_used [OF assms(2) that(1)] that(2) assms(3) by simp
  have "appends s s []" using assms(2) by (simp add: appends_def)
  from part [OF part [OF part [OF flag [OF flag [OF flag [OF flag [OF this]]]]]]]
  show ?thesis by (simp add: WriteNormQuat_def Let_def quat_bits_def)
qed

lemma ReadNormQuat_ok:
  assumes l: "bit_laws l" and r: "reads_on r pre (quat_bits [a, b, c, d] cx cy cz @ rest)"
    and v: "cx < 65536" "cy < 65536" "cz < 65536"
  shows "ReadNormQuat l out r = Inr (True,
    (let w = quat_fourth (quat_read b cx) (quat_read c cy) (quat_read d cz)
     in (if a then - w else w, quat_read b cx, quat_read c cy, quat_read d cz)), skip 52 r)"
proof -
  let ?rest = "wire 2 cx @ wire 2 cy @ wire 2 cz @ rest"
  have r0: "reads_on r pre (a # b # c # d # ?rest)" using r by (simp add: quat_bits_def)
  have r1: "reads_on (skip 1 r) (pre @ [a]) (b # c # d # ?rest)" using reads_on_skip [of r pre "[a]"] r0 by simp
  have r2: "reads_on (skip 2 r) (pre @ [a, b]) (c # d # ?rest)" using reads_on_skip [of r pre "[a, b]" _ 2] r0 by simp
  have r3: "reads_on (skip 3 r) (pre @ [a, b, c]) (d # ?rest)" using reads_on_skip [of r pre "[a, b, c]" _ 3] r0 by simp
  have r4: "reads_on (skip 4 r) (pre @ [a, b, c, d]) ?rest" using reads_on_skip [of r pre "[a, b, c, d]" _ 4] r0 by simp
  have r5: "reads_on (skip 20 r) (pre @ [a, b, c, d] @ wire 2 cx) (wire 2 cy @ wire 2 cz @ rest)"
    using reads_on_skip [of r pre "[a, b, c, d] @ wire 2 cx" _ 20] r0 by simp
  have r6: "reads_on (skip 36 r) (pre @ [a, b, c, d] @ wire 2 cx @ wire 2 cy) (wire 2 cz @ rest)"
    using reads_on_skip [of r pre "[a, b, c, d] @ wire 2 cx @ wire 2 cy" _ 36] r0 by simp
  note flags = Read_bool_ok [OF r0, of False] Read_bool_ok [OF r1, of False] Read_bool_ok [OF r2, of False] Read_bool_ok [OF r3, of False]
  note parts = Read_ok [OF l r4, of "junk_bytes l 2"] Read_ok [OF l r5, of "junk_bytes l 2"] Read_ok [OF l r6, of "junk_bytes l 2"]
  show ?thesis using flags parts byte_lawsD(2) [OF l] v
    by (simp add: ReadNormQuat_def skip_skip quat_read_def Let_def del: One_nat_def)
qed


section \<open>Properties\<close>

definition unit_part :: "f32 \<Rightarrow> bool" where
  "unit_part x \<longleftrightarrow> is_fin x \<and> f32_canonical x \<and> \<bar>f32_val x\<bar> \<le> 1"

text \<open>C37: a vector with components up to a million takes at most 80 bits, and a reader on any host gets for each component
  a number that is at most 1/27000 of the length of the vector from it, if the vector is longer than 1/99999; of a
  shorter one, for which the direction may not be sent, a number that is at most 1/99999 from it.\<close>

theorem vector_travels:
  assumes "bit_laws l" "stream_ok s" "numberOfBitsUsed s + 80 < 2147483648" "moderate x" "moderate y" "moderate z"
  shows "\<exists>bs. appends s (WriteVector l bad x y z s) bs \<and> length bs \<le> 80
     \<and> (\<forall>l' r pre rest out. bit_laws l' \<longrightarrow> reads_on r pre (bs @ rest) \<longrightarrow>
          (\<exists>x' y' z'. ReadVector l' out r = (True, (x', y', z'), skip (length bs) r)
             \<and> near_component (real_length x y z) x x' \<and> near_component (real_length x y z) y y'
             \<and> near_component (real_length x y z) z z'))"
proof -
  define M where "M = f32_sqrt (x * x + y * y + z * z)"
  define q where "q = (\<lambda>v. if f32_lit 1 100000 < M then compress_float bad (v div M) else 0)"
  define bs where "bs = vector_bits M (q x) (q y) (q z)"
  have M: "f32_canonical M" using length_near(2) [OF assms(4-6)] by (simp add: M_def)
  note near = read_back_near [OF assms(4-6), folded M_def]
  have w: "appends s (WriteVector l bad x y z s) bs"
    using WriteVector_ok [OF assms(1-3), of bad x y z, folded M_def] by (simp add: bs_def q_def vector_bits_def split: if_splits)
  have q: "q v < 65536" if "v \<in> {x, y, z}" for v using near(1) [OF that] by (simp add: q_def)
  have "\<exists>x' y' z'. ReadVector l' out r = (True, (x', y', z'), skip (length bs) r)
             \<and> near_component (real_length x y z) x x' \<and> near_component (real_length x y z) y y'
             \<and> near_component (real_length x y z) z z'"
    if "bit_laws l'" "reads_on r pre (bs @ rest)" for l' r pre rest out
    using ReadVector_ok [OF that(1) that(2) [unfolded bs_def] M, of out] q near(2,3) [of x] near(2,3) [of y] near(2,3) [of z]
    by (cases "f32_lit 1 100000 < M") (simp_all add: bs_def q_def)
  with w show ?thesis using length_vector_bits [of M] by (intro exI [of _ bs]) (auto simp: bs_def)
qed

text \<open>C38: a quaternion of components between -1 and 1 takes 52 bits; a reader on any host gets the three components
  after the first within 1/64000, and a first component that is a number with the sign of the one written, also
  when the rounded components are longer than 1.\<close>

theorem quaternion_travels:
  assumes "bit_laws l" "stream_ok s" "numberOfBitsUsed s + 52 < 2147483648" "unit_part x" "unit_part y" "unit_part z"
  shows "\<exists>bs. appends s (WriteNormQuat l bad w x y z s) bs \<and> length bs = 52
     \<and> (\<forall>l' r pre rest out. bit_laws l' \<longrightarrow> reads_on r pre (bs @ rest) \<longrightarrow>
          (\<exists>w' x' y' z'. ReadNormQuat l' out r = Inr (True, (w', x', y', z'), skip 52 r)
             \<and> \<bar>f32_val x' - f32_val x\<bar> \<le> 1 / 64000 \<and> \<bar>f32_val y' - f32_val y\<bar> \<le> 1 / 64000
             \<and> \<bar>f32_val z' - f32_val z\<bar> \<le> 1 / 64000
             \<and> is_fin w' \<and> (if w < 0 then f32_val w' \<le> 0 else 0 \<le> f32_val w')))"
proof -
  note p = assms(4-6) [unfolded unit_part_def]
  define c where "c = quat_part bad"
  define q where "q v = quat_read (v < 0) (c v)" for v
  have c: "c x < 65536" "c y < 65536" "c z < 65536" using p by (simp_all add: c_def quat_part_value(1))
  have q: "is_fin (q v) \<and> f32_canonical (q v) \<and> \<bar>f32_val (q v)\<bar> \<le> 2 \<and> \<bar>f32_val (q v) - f32_val v\<bar> \<le> 1 / 64000" if "unit_part v" for v
    using quat_part_read [of v bad] that by (auto simp: unit_part_def q_def c_def)
  define w0 where "w0 = quat_fourth (q x) (q y) (q z)"
  have w0: "is_fin w0" "0 \<le> f32_val w0" using quat_fourth_ok q [OF assms(4)] q [OF assms(5)] q [OF assms(6)] by (simp_all add: w0_def)
  define w' where "w' = (if w < 0 then - w0 else w0)"
  have w': "is_fin w' \<and> (if w < 0 then f32_val w' \<le> 0 else 0 \<le> f32_val w')" using w0 by (simp add: w'_def f32_neg_val)
  have rd: "ReadNormQuat l' out r = Inr (True, (w', q x, q y, q z), skip 52 r)"
    if "bit_laws l'" "reads_on r pre (quat_bits [w < 0, x < 0, y < 0, z < 0] (c x) (c y) (c z) @ rest)" for l' r pre rest out
    using ReadNormQuat_ok [OF that c, of out] by (simp add: w'_def w0_def q_def Let_def)
  show ?thesis
    using WriteNormQuat_ok [OF assms(1-3), of bad w x y z] rd w' q [OF assms(4)] q [OF assms(5)] q [OF assms(6)]
    by (intro exI [of _ "quat_bits [w < 0, x < 0, y < 0, z < 0] (c x) (c y) (c z)"]) (auto simp: c_def quat_bits_def)
qed


lemma new_stream_reads: "appends new_stream s bs \<Longrightarrow> reads_on s [] (bs @ [])"
  by (simp add: appends_def reads_on_def new_stream_def content_def)

lemma new_stream_empty: "stream_ok new_stream" "numberOfBitsUsed new_stream = 0"
  by (simp_all add: new_stream_def stream_ok_def)

lemma f32_zero: "is_fin (0 :: f32)" "f32_canonical (0 :: f32)" "f32_val 0 = 0"
  by (simp_all add: zero_f32_def f32_canonical_def f32_val_def sgm_def)

theorem vector_travels_witness:
  "\<exists>k x' y' z'. ReadVector (plain_lib True) (0, 0, 0) (WriteVector (plain_lib False) (\<lambda>_. 0) 1 0 (- 1) new_stream)
       = (True, (x', y', z'), skip k (WriteVector (plain_lib False) (\<lambda>_. 0) 1 0 (- 1) new_stream))
     \<and> k \<le> 80 \<and> near_component (real_length 1 0 (- 1)) 1 x' \<and> near_component (real_length 1 0 (- 1)) 0 y'
     \<and> near_component (real_length 1 0 (- 1)) (- 1) z'"
proof -
  have "moderate 1" "moderate 0" "moderate (- 1)"
    using f32_one f32_zero f32_neg_canonical [of 1] by (simp_all add: moderate_def f32_neg_val)
  moreover have "numberOfBitsUsed new_stream + 80 < 2147483648" by (simp add: new_stream_empty(2))
  ultimately obtain bs where bs: "appends new_stream (WriteVector (plain_lib False) (\<lambda>_. 0) 1 0 (- 1) new_stream) bs" "length bs \<le> 80"
    and rd: "\<forall>l' r pre rest out. bit_laws l' \<longrightarrow> reads_on r pre (bs @ rest) \<longrightarrow>
          (\<exists>x' y' z'. ReadVector l' out r = (True, (x', y', z'), skip (length bs) r)
             \<and> near_component (real_length 1 0 (- 1)) 1 x' \<and> near_component (real_length 1 0 (- 1)) 0 y'
             \<and> near_component (real_length 1 0 (- 1)) (- 1) z')"
    using vector_travels [OF plain_laws [of False] new_stream_empty(1), of 1 0 "- 1" "\<lambda>_. 0"] by blast
  from rd [rule_format, OF plain_laws [of True] new_stream_reads [OF bs(1)], of "(0, 0, 0)"] bs(2) show ?thesis by blast
qed

theorem quaternion_travels_witness:
  "\<exists>w' x' y' z'. ReadNormQuat (plain_lib True) (0, 0, 0, 0) (WriteNormQuat (plain_lib False) (\<lambda>_. 0) (- 1) 1 0 1 new_stream)
       = Inr (True, (w', x', y', z'), skip 52 (WriteNormQuat (plain_lib False) (\<lambda>_. 0) (- 1) 1 0 1 new_stream))
     \<and> \<bar>f32_val x' - f32_val 1\<bar> \<le> 1 / 64000 \<and> \<bar>f32_val y' - f32_val 0\<bar> \<le> 1 / 64000
     \<and> \<bar>f32_val z' - f32_val 1\<bar> \<le> 1 / 64000 \<and> is_fin w' \<and> f32_val w' \<le> 0"
proof -
  have neg: "(- 1 :: f32) < 0" by (simp add: f32_ops sgm_def)
  have "unit_part 1" "unit_part 0" "unit_part 1"
    using f32_one f32_zero by (simp_all add: unit_part_def)
  moreover have "numberOfBitsUsed new_stream + 52 < 2147483648" by (simp add: new_stream_empty(2))
  ultimately obtain bs where bs: "appends new_stream (WriteNormQuat (plain_lib False) (\<lambda>_. 0) (- 1) 1 0 1 new_stream) bs"
    and rd: "\<forall>l' r pre rest out. bit_laws l' \<longrightarrow> reads_on r pre (bs @ rest) \<longrightarrow>
          (\<exists>w' x' y' z'. ReadNormQuat l' out r = Inr (True, (w', x', y', z'), skip 52 r)
             \<and> \<bar>f32_val x' - f32_val 1\<bar> \<le> 1 / 64000 \<and> \<bar>f32_val y' - f32_val 0\<bar> \<le> 1 / 64000
             \<and> \<bar>f32_val z' - f32_val 1\<bar> \<le> 1 / 64000
             \<and> is_fin w' \<and> (if (- 1 :: f32) < 0 then f32_val w' \<le> 0 else 0 \<le> f32_val w'))"
    using quaternion_travels [OF plain_laws [of False] new_stream_empty(1), of 1 0 1 "\<lambda>_. 0" "- 1"] by blast
  from rd [rule_format, OF plain_laws [of True] new_stream_reads [OF bs]] show ?thesis using neg by (simp only: if_True)
qed

end
