(* ===== verification/RakMap.thy ===== *)
theory RakMap
  imports RakOrdered
begin

text \<open>
  \<open>DataStructures::Map\<close> of RakNet (\<^verbatim>\<open>DS_Map.h\<close>): an \<open>OrderedList\<close> of pairs in the order of a comparison \<open>cmp\<close> of
  the keys. The functions that remember the last search have empty bodies in this version, and the code asks them
  all the same. Release build: the assertions are empty, so that a missing key is not noticed by \<open>Get\<close>, \<open>Pop\<close> and
  \<open>SetExisting\<close>. \<open>z\<close> is a default constructed pair.
\<close>

section \<open>Code\<close>

definition defaultMapKeyComparison :: "'k::linorder \<Rightarrow> 'k \<Rightarrow> int" where
  "defaultMapKeyComparison a b = (if a < b then - 1 else if a = b then 0 else 1)"

record ('k, 'd) map_node =
  mapNodeKey :: 'k
  mapNodeData :: 'd

definition MapNode :: "'k \<Rightarrow> 'd \<Rightarrow> ('k, 'd) map_node" where
  "MapNode k d = \<lparr>mapNodeKey = k, mapNodeData = d\<rparr>"

definition NodeComparisonFunc :: "('k \<Rightarrow> 'k \<Rightarrow> int) \<Rightarrow> 'k \<Rightarrow> ('k, 'd) map_node \<Rightarrow> int" where
  "NodeComparisonFunc cmp a b = cmp a (mapNodeKey b)"

text \<open>The index and the key of the last search are not set by the constructor.\<close>

record ('k, 'd) rak_map =
  mapNodeList :: "('k, 'd) map_node rlist"
  lastSearchIndex :: nat
  lastSearchKey :: 'k
  lastSearchIndexValid :: bool

definition Map_new :: "nat \<Rightarrow> 'k \<Rightarrow> ('k, 'd) rak_map" where
  "Map_new junk_index junk_key =
     \<lparr>mapNodeList = List_new, lastSearchIndex = junk_index, lastSearchKey = junk_key, lastSearchIndexValid = False\<rparr>"

definition SaveLastSearch :: "'k \<Rightarrow> nat \<Rightarrow> ('k, 'd) rak_map \<Rightarrow> ('k, 'd) rak_map" where
  "SaveLastSearch key index m = m"

definition HasSavedSearchResult :: "'k \<Rightarrow> ('k, 'd) rak_map \<Rightarrow> bool" where
  "HasSavedSearchResult key m = False"

text \<open>\<open>mapNodeList[index].mapNodeData = data\<close>.\<close>

definition set_data :: "nat \<Rightarrow> 'd \<Rightarrow> ('k, 'd) rak_map \<Rightarrow> ('k, 'd) rak_map res" where
  "set_data index data m =
     rbind (List_Get index (mapNodeList m)) (\<lambda>n.
     rbind (List_put index (n\<lparr>mapNodeData := data\<rparr>) (mapNodeList m)) (\<lambda>l.
     Inr (m\<lparr>mapNodeList := l\<rparr>)))"

definition get_data :: "nat \<Rightarrow> ('k, 'd) rak_map \<Rightarrow> 'd res" where
  "get_data index m = rbind (List_Get index (mapNodeList m)) (\<lambda>n. Inr (mapNodeData n))"

definition find_key :: "('k \<Rightarrow> 'k \<Rightarrow> int) \<Rightarrow> 'k \<Rightarrow> ('k, 'd) rak_map \<Rightarrow> (bool \<times> nat) res" where
  "find_key cmp key m = GetIndexFromKey (NodeComparisonFunc cmp) key (mapNodeList m)"

definition Map_Get :: "('k \<Rightarrow> 'k \<Rightarrow> int) \<Rightarrow> 'k \<Rightarrow> ('k, 'd) rak_map \<Rightarrow> ('d \<times> ('k, 'd) rak_map) res" where
  "Map_Get cmp key m =
     (if HasSavedSearchResult key m then rbind (get_data (lastSearchIndex m) m) (\<lambda>d. Inr (d, m))
      else rbind (find_key cmp key m) (\<lambda>(e, i).
           let m1 = SaveLastSearch key i m in rbind (get_data i m1) (\<lambda>d. Inr (d, m1))))"

definition GetIndexAtKey :: "('k \<Rightarrow> 'k \<Rightarrow> int) \<Rightarrow> 'k \<Rightarrow> ('k, 'd) rak_map \<Rightarrow> (nat \<times> ('k, 'd) rak_map) res" where
  "GetIndexAtKey cmp key m =
     (if HasSavedSearchResult key m then Inr (lastSearchIndex m, m)
      else rbind (find_key cmp key m) (\<lambda>(e, i). Inr (i, SaveLastSearch key i m)))"

definition Map_RemoveAtIndex :: "nat \<Rightarrow> ('k, 'd) rak_map \<Rightarrow> ('k, 'd) rak_map res" where
  "Map_RemoveAtIndex index m =
     rbind (OL_RemoveAtIndex index (mapNodeList m)) (\<lambda>l. Inr (m\<lparr>mapNodeList := l, lastSearchIndexValid := False\<rparr>))"

definition Map_Pop :: "('k \<Rightarrow> 'k \<Rightarrow> int) \<Rightarrow> 'k \<Rightarrow> ('k, 'd) rak_map \<Rightarrow> ('d \<times> ('k, 'd) rak_map) res" where
  "Map_Pop cmp key m =
     rbind (if HasSavedSearchResult key m then Inr (lastSearchIndex m)
            else rbind (find_key cmp key m) (\<lambda>(e, i). Inr i)) (\<lambda>index.
     rbind (get_data index m) (\<lambda>tmp.
     rbind (OL_RemoveAtIndex index (mapNodeList m)) (\<lambda>l.
     Inr (tmp, m\<lparr>mapNodeList := l, lastSearchIndexValid := False\<rparr>))))"

definition Map_Set :: "('k \<Rightarrow> 'k \<Rightarrow> int) \<Rightarrow> ('k, 'd) map_node \<Rightarrow> 'k \<Rightarrow> 'd \<Rightarrow> ('k, 'd) rak_map \<Rightarrow> ('k, 'd) rak_map res" where
  "Map_Set cmp z key data m =
     (if HasSavedSearchResult key m then set_data (lastSearchIndex m) data m
      else rbind (find_key cmp key m) (\<lambda>(e, i).
           if e then set_data i data (SaveLastSearch key i m)
           else rbind (OL_Insert (NodeComparisonFunc cmp) z key (MapNode key data) (mapNodeList m)) (\<lambda>(j, l).
                Inr (SaveLastSearch key j (m\<lparr>mapNodeList := l\<rparr>)))))"

definition SetExisting :: "('k \<Rightarrow> 'k \<Rightarrow> int) \<Rightarrow> 'k \<Rightarrow> 'd \<Rightarrow> ('k, 'd) rak_map \<Rightarrow> ('k, 'd) rak_map res" where
  "SetExisting cmp key data m =
     (if HasSavedSearchResult key m then set_data (lastSearchIndex m) data m
      else rbind (find_key cmp key m) (\<lambda>(e, i). set_data i data (SaveLastSearch key i m)))"

definition SetNew :: "('k \<Rightarrow> 'k \<Rightarrow> int) \<Rightarrow> ('k, 'd) map_node \<Rightarrow> 'k \<Rightarrow> 'd \<Rightarrow> ('k, 'd) rak_map \<Rightarrow> ('k, 'd) rak_map res" where
  "SetNew cmp z key data m =
     rbind (OL_Insert (NodeComparisonFunc cmp) z key (MapNode key data) (mapNodeList m)) (\<lambda>(j, l).
     Inr (SaveLastSearch key j (m\<lparr>mapNodeList := l\<rparr>)))"

definition Map_Has :: "('k \<Rightarrow> 'k \<Rightarrow> int) \<Rightarrow> 'k \<Rightarrow> ('k, 'd) rak_map \<Rightarrow> (bool \<times> ('k, 'd) rak_map) res" where
  "Map_Has cmp key m =
     (if HasSavedSearchResult key m then Inr (True, m)
      else rbind (find_key cmp key m) (\<lambda>(e, i). Inr (e, if e then SaveLastSearch key i m else m)))"

definition Map_Delete :: "('k \<Rightarrow> 'k \<Rightarrow> int) \<Rightarrow> 'k \<Rightarrow> ('k, 'd) rak_map \<Rightarrow> (bool \<times> ('k, 'd) rak_map) res" where
  "Map_Delete cmp key m =
     (if HasSavedSearchResult key m then
        let m1 = m\<lparr>lastSearchIndexValid := False\<rparr>
        in rbind (OL_RemoveAtIndex (lastSearchIndex m1) (mapNodeList m1)) (\<lambda>l. Inr (True, m1\<lparr>mapNodeList := l\<rparr>))
      else rbind (find_key cmp key m) (\<lambda>(e, i).
           if e then let m1 = m\<lparr>lastSearchIndexValid := False\<rparr>
                in rbind (OL_RemoveAtIndex i (mapNodeList m1)) (\<lambda>l. Inr (True, m1\<lparr>mapNodeList := l\<rparr>))
           else Inr (False, m)))"

definition Map_Clear :: "('k, 'd) rak_map \<Rightarrow> ('k, 'd) rak_map res" where
  "Map_Clear m =
     (let m1 = m\<lparr>lastSearchIndexValid := False\<rparr>
      in rbind (OL_Clear False (mapNodeList m1)) (\<lambda>l. Inr (m1\<lparr>mapNodeList := l\<rparr>)))"

definition Map_at :: "nat \<Rightarrow> ('k, 'd) rak_map \<Rightarrow> 'd res" where
  "Map_at position m = get_data position m"

definition GetKeyAtIndex :: "nat \<Rightarrow> ('k, 'd) rak_map \<Rightarrow> 'k res" where
  "GetKeyAtIndex position m = rbind (List_Get position (mapNodeList m)) (\<lambda>n. Inr (mapNodeKey n))"

definition Map_Size :: "('k, 'd) rak_map \<Rightarrow> nat" where
  "Map_Size m = List_Size (mapNodeList m)"

text \<open>The copy constructor assigns to a map whose list is new.\<close>

definition Map_assign :: "('k, 'd) map_node \<Rightarrow> ('k, 'd) rak_map \<Rightarrow> ('k, 'd) rak_map \<Rightarrow> ('k, 'd) rak_map res" where
  "Map_assign z orig m =
     rbind (OL_assign z (mapNodeList orig) (mapNodeList m)) (\<lambda>l.
     Inr \<lparr>mapNodeList = l, lastSearchIndex = lastSearchIndex orig, lastSearchKey = lastSearchKey orig,
       lastSearchIndexValid = lastSearchIndexValid orig\<rparr>)"

definition Map_copy :: "('k, 'd) map_node \<Rightarrow> ('k, 'd) rak_map \<Rightarrow> ('k, 'd) rak_map res" where
  "Map_copy z orig = Map_assign z orig (Map_new (lastSearchIndex orig) (lastSearchKey orig))"


section \<open>A map\<close>

definition pairs :: "('k, 'd) map_node list \<Rightarrow> ('k \<times> 'd) list" where
  "pairs xs = map (\<lambda>n. (mapNodeKey n, mapNodeData n)) xs"

definition nodes :: "('k, 'd) rak_map \<Rightarrow> ('k, 'd) map_node list" where
  "nodes m = items (mapNodeList m)"

definition map_abs :: "('k, 'd) rak_map \<Rightarrow> 'k \<rightharpoonup> 'd" where
  "map_abs m = map_of (pairs (nodes m))"

definition map_ok :: "('k::linorder, 'd) rak_map \<Rightarrow> bool" where
  "map_ok m \<longleftrightarrow> rlist_ok (mapNodeList m) \<and> ascending mapNodeKey (nodes m)"

lemma ascending_distinct: "ascending mapNodeKey xs \<Longrightarrow> distinct (map mapNodeKey xs)"
  by (simp add: ascending_def strict_sorted_iff)

lemma MapNode_simps [simp]: "mapNodeKey (MapNode k d) = k" "mapNodeData (MapNode k d) = d"
  "MapNode (mapNodeKey n) (mapNodeData n) = n" "n\<lparr>mapNodeData := d\<rparr> = MapNode (mapNodeKey n) d"
  by (simp_all add: MapNode_def)

lemma MapNode_eq: "MapNode k d = n \<longleftrightarrow> mapNodeKey n = k \<and> mapNodeData n = d"
  by (metis MapNode_simps(1-3))

lemma pairs_Some:
  assumes "ascending mapNodeKey xs"
  shows "map_of (pairs xs) k = Some d \<longleftrightarrow> MapNode k d \<in> set xs"
proof -
  have "map fst (pairs xs) = map mapNodeKey xs" by (simp add: pairs_def)
  then have "map_of (pairs xs) k = Some d \<longleftrightarrow> (k, d) \<in> set (pairs xs)"
    using ascending_distinct [OF assms] by (intro map_of_eq_Some_iff) simp
  also have "\<dots> \<longleftrightarrow> MapNode k d \<in> set xs" by (auto simp: pairs_def image_iff intro: bexI [of _ "MapNode k d"])
  finally show ?thesis .
qed

lemma dom_pairs: "dom (map_of (pairs xs)) = mapNodeKey ` set xs"
  by (auto simp: dom_map_of_conv_image_fst pairs_def image_image)

lemma map_eqI: "(\<And>k d. f k = Some d \<longleftrightarrow> g k = Some d) \<Longrightarrow> f = g" for f g :: "'k \<rightharpoonup> 'd"
  by (rule ext) (metis not_Some_eq)

lemma pairs_insert:
  assumes "ascending mapNodeKey xs" "ascending mapNodeKey ys" "set ys = insert (MapNode k d) (set xs)" "k \<notin> mapNodeKey ` set xs"
  shows "map_of (pairs ys) = (map_of (pairs xs))(k \<mapsto> d)"
proof (rule map_eqI)
  fix k' d'
  have "MapNode k d' \<notin> set xs" for d' using assms(4) by (metis MapNode_simps(1) imageI)
  moreover have "MapNode k' d' = MapNode k d \<longleftrightarrow> k' = k \<and> d' = d" by (auto simp: MapNode_eq)
  ultimately show "map_of (pairs ys) k' = Some d' \<longleftrightarrow> ((map_of (pairs xs))(k \<mapsto> d)) k' = Some d'"
    using pairs_Some [OF assms(1)] pairs_Some [OF assms(2)] assms(3) by auto
qed

lemma pairs_remove:
  assumes "ascending mapNodeKey xs" "ascending mapNodeKey ys" "set ys = {n \<in> set xs. mapNodeKey n \<noteq> k}"
  shows "map_of (pairs ys) = (map_of (pairs xs))(k := None)"
  using pairs_Some [OF assms(1)] pairs_Some [OF assms(2)] assms(3) by (intro map_eqI) auto

lemma pairs_update:
  assumes "ascending mapNodeKey xs" "i < length xs"
  shows "ascending mapNodeKey (xs[i := MapNode (mapNodeKey (xs ! i)) d])"
    "map_of (pairs (xs[i := MapNode (mapNodeKey (xs ! i)) d])) = (map_of (pairs xs))(mapNodeKey (xs ! i) \<mapsto> d)"
proof -
  let ?k = "mapNodeKey (xs ! i)" and ?ys = "xs[i := MapNode (mapNodeKey (xs ! i)) d]"
  have "map mapNodeKey ?ys = map mapNodeKey xs" by (simp add: map_update list_update_same_conv assms(2))
  then show asc: "ascending mapNodeKey ?ys" using assms(1) by (simp add: ascending_def)
  have dist: "distinct (map mapNodeKey xs)" by (rule ascending_distinct [OF assms(1)])
  then have s: "set ?ys = insert (MapNode ?k d) (set xs - {xs ! i})"
    using assms(2) by (simp add: distinct_map set_update_distinct)
  have only: "MapNode ?k d' \<in> set xs \<longleftrightarrow> MapNode ?k d' = xs ! i" for d'
    using dist assms(2) by (metis MapNode_simps(1) distinct_map inj_onD nth_mem)
  show "map_of (pairs ?ys) = (map_of (pairs xs))(?k \<mapsto> d)"
  proof (rule map_eqI)
    fix k' d'
    show "map_of (pairs ?ys) k' = Some d' \<longleftrightarrow> ((map_of (pairs xs))(?k \<mapsto> d)) k' = Some d'"
      using pairs_Some [OF assms(1)] pairs_Some [OF asc] s only [of d'] by (auto simp: MapNode_eq)
  qed
qed

lemma nth_rank:
  assumes "ascending key_of xs" "k \<in> key_of ` set xs"
  shows "rank key_of k xs < length xs" "key_of (xs ! rank key_of k xs) = k"
proof -
  obtain j where j: "j < length xs" "key_of (xs ! j) = k" using assms(2) by (auto simp: in_set_conv_nth)
  have "rank key_of k xs = j"
    using ascending_nth [OF assms(1)] j by (intro rank_at) (auto simp: le_less)
  then show "rank key_of k xs < length xs" "key_of (xs ! rank key_of k xs) = k" using j by simp_all
qed


text \<open>The contract of a comparison of keys, and what the functions do for one that keeps it.\<close>

locale key_order =
  fixes cmp :: "'k::linorder \<Rightarrow> 'k \<Rightarrow> int"
  assumes cmp_less: "cmp a b < 0 \<longleftrightarrow> a < b"
    and cmp_eq: "cmp a b = 0 \<longleftrightarrow> a = b"
begin

lemma keyed_nodes: "keyed (NodeComparisonFunc cmp) mapNodeKey"
  by unfold_locales (simp_all add: NodeComparisonFunc_def cmp_less cmp_eq)

lemma find_ok:
  "map_ok m \<Longrightarrow> find_key cmp k m = Inr (k \<in> dom (map_abs m), rank mapNodeKey k (nodes m))"
  using keyed.GetIndexFromKey_ok [OF keyed_nodes, of "mapNodeList m" k]
  by (simp add: find_key_def map_ok_def nodes_def map_abs_def dom_pairs)

lemma present:
  fixes m :: "('k, 'd) rak_map"
  assumes "map_ok m" "map_abs m k = Some d"
  defines "i \<equiv> rank mapNodeKey k (nodes m)"
  shows "i < length (nodes m)" "mapNodeKey (nodes m ! i) = k" "get_data i m = Inr d"
proof -
  have ok: "rlist_ok (mapNodeList m)" "ascending mapNodeKey (nodes m)" using assms(1) by (simp_all add: map_ok_def)
  have "k \<in> mapNodeKey ` set (nodes m)" using assms(2) dom_pairs [of "nodes m"] by (auto simp: map_abs_def)
  then show i: "i < length (nodes m)" "mapNodeKey (nodes m ! i) = k" using nth_rank [OF ok(2)] by (simp_all add: i_def)
  have "map_of (pairs (nodes m)) k = Some (mapNodeData (nodes m ! i))"
    using pairs_Some [OF ok(2)] i by (metis MapNode_simps(3) nth_mem)
  then show "get_data i m = Inr d" using Get_ok [OF ok(1)] i(1) assms(2) by (simp add: get_data_def nodes_def map_abs_def)
qed

lemma set_data_ok:
  fixes m :: "('k, 'd) rak_map"
  assumes "map_ok m" "i < length (nodes m)" "mapNodeKey (nodes m ! i) = k"
  shows "\<exists>m'. set_data i d m = Inr m' \<and> map_ok m' \<and> map_abs m' = (map_abs m)(k \<mapsto> d) \<and> length (nodes m') = length (nodes m)"
proof -
  have ok: "rlist_ok (mapNodeList m)" "ascending mapNodeKey (nodes m)" using assms(1) by (simp_all add: map_ok_def)
  let ?n = "MapNode k d"
  obtain l where l: "List_put i ?n (mapNodeList m) = Inr l" "rlist_ok l" "items l = (nodes m)[i := ?n]"
    using put_runs [OF ok(1), of i ?n] assms(2) by (auto simp: nodes_def elim: runs_asE)
  then have "set_data i d m = Inr (m\<lparr>mapNodeList := l\<rparr>)"
    using Get_ok [OF ok(1)] assms(2,3) by (simp add: set_data_def nodes_def)
  then show ?thesis using l pairs_update [OF ok(2) assms(2), of d] assms(3)
    by (simp add: map_ok_def nodes_def map_abs_def)
qed

lemma insert_ok:
  assumes "map_ok m" "length (nodes m) < 1073741824" "map_abs m k = None"
  shows "\<exists>j l. OL_Insert (NodeComparisonFunc cmp) z k (MapNode k d) (mapNodeList m) = Inr (j, l)
    \<and> map_ok (m\<lparr>mapNodeList := l\<rparr>) \<and> map_abs (m\<lparr>mapNodeList := l\<rparr>) = (map_abs m)(k \<mapsto> d)
    \<and> length (items l) = Suc (length (nodes m))"
proof -
  have ok: "rlist_ok (mapNodeList m)" "ascending mapNodeKey (items (mapNodeList m))"
    using assms(1) by (simp_all add: map_ok_def nodes_def)
  have k: "k \<notin> mapNodeKey ` set (items (mapNodeList m))"
    using assms(3) dom_pairs [of "nodes m"] by (auto simp: map_abs_def nodes_def)
  have n: "list_size (mapNodeList m) < 1073741824" using assms(2) length_items [OF ok(1)] by (simp add: nodes_def)
  let ?i = "rank mapNodeKey k (items (mapNodeList m))"
  obtain l where l: "OL_Insert (NodeComparisonFunc cmp) z k (MapNode k d) (mapNodeList m) = Inr (?i, l)" "rlist_ok l"
      "items l = take ?i (items (mapNodeList m)) @ MapNode k d # drop ?i (items (mapNodeList m))"
    using keyed.Insert_new [OF keyed_nodes ok n _ k, of "MapNode k d" z] by auto
  have asc: "ascending mapNodeKey (items l)"
    using keyed.ascending_insert [OF keyed_nodes ok(2) _ k, of "MapNode k d"] l(3) by simp
  have "set (items l) = insert (MapNode k d) (set (items (mapNodeList m)))"
    using set_append [of "take ?i (items (mapNodeList m))" "drop ?i (items (mapNodeList m))"] l(3) by auto
  from pairs_insert [OF ok(2) asc this k] show ?thesis
    using l asc by (simp add: map_ok_def nodes_def map_abs_def)
qed

lemma insert_old:
  "map_ok m \<Longrightarrow> map_abs m k = Some d0 \<Longrightarrow>
    OL_Insert (NodeComparisonFunc cmp) z k n (mapNodeList m) = Inr (MAX_UNSIGNED_LONG, mapNodeList m)"
  using dom_pairs [of "nodes m"] keyed.Insert_old [OF keyed_nodes, of "mapNodeList m" k z n]
  by (auto simp: map_ok_def map_abs_def nodes_def)

lemma remove_ok:
  fixes m :: "('k, 'd) rak_map"
  assumes "map_ok m" "map_abs m k = Some d"
  shows "\<exists>l. OL_RemoveAtIndex (rank mapNodeKey k (nodes m)) (mapNodeList m) = Inr l
    \<and> rlist_ok l \<and> ascending mapNodeKey (items l) \<and> map_of (pairs (items l)) = (map_abs m)(k := None)
    \<and> length (items l) < length (nodes m)"
proof -
  have ok: "rlist_ok (mapNodeList m)" "ascending mapNodeKey (nodes m)" using assms(1) by (simp_all add: map_ok_def)
  have k: "k \<in> mapNodeKey ` set (nodes m)" using assms(2) dom_pairs [of "nodes m"] by (auto simp: map_abs_def)
  let ?i = "rank mapNodeKey k (nodes m)"
  obtain l where l: "OL_RemoveAtIndex ?i (mapNodeList m) = Inr l" "rlist_ok l"
      "items l = take ?i (nodes m) @ drop (Suc ?i) (nodes m)"
    using RemoveAtIndex_runs [OF ok(1), of ?i] by (auto simp: OL_RemoveAtIndex_def nodes_def elim: runs_asE)
  have f: "items l = filter (\<lambda>n. mapNodeKey n \<noteq> k) (nodes m)"
    using l(3) keyed.remove_at_rank [OF keyed_nodes ok(2) k] by simp
  have asc: "ascending mapNodeKey (items l)" unfolding f by (rule keyed.ascending_filter [OF keyed_nodes ok(2)])
  have "map_of (pairs (items l)) = (map_abs m)(k := None)"
    unfolding map_abs_def by (rule pairs_remove [OF ok(2) asc]) (auto simp: f)
  moreover have "length (items l) < length (nodes m)" using nth_rank(1) [OF ok(2) k] l(3) by simp
  ultimately show ?thesis using l asc by blast
qed

end

interpretation dm: key_order defaultMapKeyComparison
  by unfold_locales (auto simp: defaultMapKeyComparison_def)

section \<open>Properties\<close>

datatype ('k, 'd) map_op =
    MSet 'k 'd | MSetNew 'k 'd | MSetExisting 'k 'd | MDelete 'k | MPop 'k | MRemoveAt nat | MClear

datatype 'd map_reply = Done | Found bool | Popped 'd

fun run_map_op :: "('k::linorder, 'd) map_node \<Rightarrow> ('k, 'd) map_op \<Rightarrow> ('k, 'd) rak_map \<Rightarrow> ('d map_reply \<times> ('k, 'd) rak_map) res" where
  "run_map_op z (MSet k d) m = rbind (Map_Set defaultMapKeyComparison z k d m) (\<lambda>m1. Inr (Done, m1))"
| "run_map_op z (MSetNew k d) m = rbind (SetNew defaultMapKeyComparison z k d m) (\<lambda>m1. Inr (Done, m1))"
| "run_map_op z (MSetExisting k d) m = rbind (SetExisting defaultMapKeyComparison k d m) (\<lambda>m1. Inr (Done, m1))"
| "run_map_op z (MDelete k) m = rbind (Map_Delete defaultMapKeyComparison k m) (\<lambda>(b, m1). Inr (Found b, m1))"
| "run_map_op z (MPop k) m = rbind (Map_Pop defaultMapKeyComparison k m) (\<lambda>(d, m1). Inr (Popped d, m1))"
| "run_map_op z (MRemoveAt i) m = rbind (Map_RemoveAtIndex i m) (\<lambda>m1. Inr (Done, m1))"
| "run_map_op z MClear m = rbind (Map_Clear m) (\<lambda>m1. Inr (Done, m1))"

fun map_spec :: "('k::linorder, 'd) map_op \<Rightarrow> ('k \<rightharpoonup> 'd) \<Rightarrow> 'd map_reply \<times> ('k \<rightharpoonup> 'd)" where
  "map_spec (MSet k d) f = (Done, f(k \<mapsto> d))"
| "map_spec (MSetNew k d) f = (Done, f(k \<mapsto> d))"
| "map_spec (MSetExisting k d) f = (Done, f(k \<mapsto> d))"
| "map_spec (MDelete k) f = (Found (k \<in> dom f), f(k := None))"
| "map_spec (MPop k) f = (Popped (the (f k)), f(k := None))"
| "map_spec (MRemoveAt i) f = (Done, f(sorted_list_of_set (dom f) ! i := None))"
| "map_spec MClear f = (Done, Map.empty)"

text \<open>What the assertions of the code demand: a new key for \<open>SetNew\<close>, a key that is there for \<open>SetExisting\<close> and
  \<open>Pop\<close>, an index inside.\<close>

fun map_legal :: "('k, 'd) map_op \<Rightarrow> ('k \<rightharpoonup> 'd) \<Rightarrow> bool" where
  "map_legal (MSetNew k d) f = (k \<notin> dom f)"
| "map_legal (MSetExisting k d) f = (k \<in> dom f)"
| "map_legal (MPop k) f = (k \<in> dom f)"
| "map_legal (MRemoveAt i) f = (i < card (dom f))"
| "map_legal _ f = True"

fun run_map_ops :: "('k::linorder, 'd) map_node \<Rightarrow> ('k, 'd) map_op list \<Rightarrow> ('k, 'd) rak_map \<Rightarrow> ('d map_reply list \<times> ('k, 'd) rak_map) res" where
  "run_map_ops z [] m = Inr ([], m)"
| "run_map_ops z (op # ops) m =
     rbind (run_map_op z op m) (\<lambda>(r, m1). rbind (run_map_ops z ops m1) (\<lambda>(rs, m2). Inr (r # rs, m2)))"

fun map_specs :: "('k::linorder, 'd) map_op list \<Rightarrow> ('k \<rightharpoonup> 'd) \<Rightarrow> 'd map_reply list \<times> ('k \<rightharpoonup> 'd)" where
  "map_specs [] f = ([], f)"
| "map_specs (op # ops) f = (let (r, f1) = map_spec op f; (rs, f2) = map_specs ops f1 in (r # rs, f2))"

fun map_legals :: "('k::linorder, 'd) map_op list \<Rightarrow> ('k \<rightharpoonup> 'd) \<Rightarrow> bool" where
  "map_legals [] f = True"
| "map_legals (op # ops) f = (map_legal op f \<and> map_legals ops (snd (map_spec op f)))"

lemmas map_defs = Map_Set_def SetNew_def SetExisting_def Map_Delete_def Map_Pop_def Map_Clear_def Map_Get_def Map_Has_def
  GetIndexAtKey_def HasSavedSearchResult_def SaveLastSearch_def Let_def

lemma map_ok_fields [simp]:
  "nodes (m\<lparr>lastSearchIndexValid := b\<rparr>) = nodes m" "map_abs (m\<lparr>lastSearchIndexValid := b\<rparr>) = map_abs m"
  "map_ok (m\<lparr>lastSearchIndexValid := b\<rparr>) = map_ok m" "nodes (m\<lparr>mapNodeList := l\<rparr>) = items l"
  "map_abs (m\<lparr>mapNodeList := l\<rparr>) = map_of (pairs (items l))"
  "map_ok (m\<lparr>mapNodeList := l\<rparr>) \<longleftrightarrow> rlist_ok l \<and> ascending mapNodeKey (items l)"
  by (simp_all add: nodes_def map_abs_def map_ok_def)

lemma node_data:
  assumes "map_ok m" "i < length (nodes m)"
  shows "map_abs m (mapNodeKey (nodes m ! i)) = Some (mapNodeData (nodes m ! i))" "get_data i m = Inr (mapNodeData (nodes m ! i))"
    "GetKeyAtIndex i m = Inr (mapNodeKey (nodes m ! i))"
proof -
  have ok: "rlist_ok (mapNodeList m)" "ascending mapNodeKey (nodes m)" using assms(1) by (simp_all add: map_ok_def)
  show "map_abs m (mapNodeKey (nodes m ! i)) = Some (mapNodeData (nodes m ! i))"
    using pairs_Some [OF ok(2)] assms(2) by (simp add: map_abs_def)
  show "get_data i m = Inr (mapNodeData (nodes m ! i))" "GetKeyAtIndex i m = Inr (mapNodeKey (nodes m ! i))"
    using Get_ok [OF ok(1)] assms(2) by (simp_all add: get_data_def GetKeyAtIndex_def nodes_def)
qed

lemma keys_in_order:
  assumes "map_ok m"
  shows "map mapNodeKey (nodes m) = sorted_list_of_set (dom (map_abs m))" "length (nodes m) = card (dom (map_abs m))"
proof -
  have asc: "sorted_wrt (<) (map mapNodeKey (nodes m))" using assms by (simp add: map_ok_def ascending_def)
  then have "sorted (map mapNodeKey (nodes m))" "distinct (map mapNodeKey (nodes m))" by (simp_all add: strict_sorted_iff)
  from sorted_list_of_set.idem_if_sorted_distinct [OF this]
  show "map mapNodeKey (nodes m) = sorted_list_of_set (dom (map_abs m))" by (simp add: map_abs_def dom_pairs)
  then show "length (nodes m) = card (dom (map_abs m))" by (metis length_map sorted_list_of_set.length_sorted_key_list_of_set)
qed

lemma rank_nth:
  assumes "map_ok m" "i < length (nodes m)"
  shows "rank mapNodeKey (mapNodeKey (nodes m ! i)) (nodes m) = i"
proof -
  let ?k = "mapNodeKey (nodes m ! i)"
  have asc: "ascending mapNodeKey (nodes m)" using assms(1) by (simp add: map_ok_def)
  have "?k \<in> mapNodeKey ` set (nodes m)" using assms(2) by simp
  note r = nth_rank [OF asc this]
  have "distinct (map mapNodeKey (nodes m))" by (rule ascending_distinct [OF asc])
  then show ?thesis using r assms(2) by (metis length_map nth_eq_iff_index_eq nth_map)
qed

lemma map_op_ok:
  assumes "map_ok m" "length (nodes m) < 1073741824" "map_legal op (map_abs m)"
  shows "\<exists>m'. run_map_op z op m = Inr (fst (map_spec op (map_abs m)), m') \<and> map_ok m'
    \<and> map_abs m' = snd (map_spec op (map_abs m)) \<and> length (nodes m') \<le> Suc (length (nodes m))"
proof (cases op)
  case (MSet k d)
  show ?thesis
  proof (cases "map_abs m k")
    case None
    then show ?thesis using MSet dm.insert_ok [OF assms(1,2) None, of z d] dm.find_ok [OF assms(1), of k]
      by (auto simp: map_defs domIff)
  next
    case (Some d0)
    note p = dm.present [OF assms(1) Some]
    then show ?thesis using MSet Some dm.set_data_ok [OF assms(1) p(1,2), of d] dm.find_ok [OF assms(1), of k]
      by (auto simp: map_defs domI)
  qed
next
  case (MSetNew k d)
  then have "map_abs m k = None" using assms(3) by (auto simp: domIff)
  then show ?thesis using MSetNew dm.insert_ok [OF assms(1,2), of k z d] by (auto simp: map_defs)
next
  case (MSetExisting k d)
  then obtain d0 where "map_abs m k = Some d0" using assms(3) by auto
  note p = dm.present [OF assms(1) this]
  then show ?thesis using MSetExisting dm.set_data_ok [OF assms(1) p(1,2), of d] dm.find_ok [OF assms(1), of k]
    by (auto simp: map_defs)
next
  case (MDelete k)
  show ?thesis
  proof (cases "map_abs m k")
    case None
    then have "(map_abs m)(k := None) = map_abs m" by (simp add: fun_upd_idem)
    then show ?thesis using MDelete None assms(1) dm.find_ok [OF assms(1), of k] by (simp add: map_defs domIff)
  next
    case (Some d)
    then show ?thesis using MDelete dm.remove_ok [OF assms(1) Some] dm.find_ok [OF assms(1), of k]
      by (auto simp: map_defs domI)
  qed
next
  case (MPop k)
  then obtain d where d: "map_abs m k = Some d" using assms(3) by auto
  then show ?thesis using MPop dm.present(3) [OF assms(1) d] dm.remove_ok [OF assms(1) d] dm.find_ok [OF assms(1), of k]
    by (auto simp: map_defs domI)
next
  case (MRemoveAt i)
  then have i: "i < length (nodes m)" using assms(3) keys_in_order(2) [OF assms(1)] by simp
  let ?k = "mapNodeKey (nodes m ! i)"
  have k: "sorted_list_of_set (dom (map_abs m)) ! i = ?k" using keys_in_order(1) [OF assms(1)] i by (metis nth_map)
  show ?thesis
    using MRemoveAt dm.remove_ok [OF assms(1) node_data(1) [OF assms(1) i]] rank_nth [OF assms(1) i] k
    by (auto simp: Map_RemoveAtIndex_def)
next
  case MClear
  have "rlist_ok (mapNodeList m)" using assms(1) by (simp add: map_ok_def)
  from Clear_runs [OF this, of False] obtain l where "List_Clear False (mapNodeList m) = Inr l" "rlist_ok l" "items l = []"
    by (auto elim: runs_asE)
  then show ?thesis using MClear by (simp add: map_defs OL_Clear_def pairs_def ascending_def)
qed

lemma map_ops_ok:
  assumes "map_ok m" "length (nodes m) + length ops < 1073741824" "map_legals ops (map_abs m)"
  shows "\<exists>m'. run_map_ops z ops m = Inr (fst (map_specs ops (map_abs m)), m') \<and> map_ok m'
    \<and> map_abs m' = snd (map_specs ops (map_abs m))"
  using assms
proof (induction ops arbitrary: m)
  case (Cons op ops)
  obtain m1 where m1: "run_map_op z op m = Inr (fst (map_spec op (map_abs m)), m1)" "map_ok m1"
      "map_abs m1 = snd (map_spec op (map_abs m))" "length (nodes m1) \<le> Suc (length (nodes m))"
    using map_op_ok [of m op z] Cons.prems by auto
  then obtain m2 where "run_map_ops z ops m1 = Inr (fst (map_specs ops (map_abs m1)), m2)" "map_ok m2"
      "map_abs m2 = snd (map_specs ops (map_abs m1))"
    using Cons.IH [of m1] Cons.prems by auto
  then show ?case using m1 by (auto simp: Let_def split: prod.splits)
qed auto


text \<open>A key that is not there stands where the least greater key is.\<close>

lemma Get_missing:
  assumes "map_ok m" "map_abs m k = None" "map_abs m k' = Some d" "k < k'" "\<And>j. j \<in> dom (map_abs m) \<Longrightarrow> k < j \<Longrightarrow> k' \<le> j"
  shows "Map_Get defaultMapKeyComparison k m = Inr (d, m)"
proof -
  let ?i = "rank mapNodeKey k' (nodes m)"
  note p = dm.present [OF assms(1,3)]
  have asc: "ascending mapNodeKey (nodes m)" using assms(1) by (simp add: map_ok_def)
  have "rank mapNodeKey k (nodes m) = ?i"
  proof (rule rank_at)
    show "?i \<le> length (nodes m)" using p(1) by simp
    show "mapNodeKey (nodes m ! j) < k" if "j < ?i" for j
    proof -
      let ?k = "mapNodeKey (nodes m ! j)"
      have j: "j < length (nodes m)" "?k < k'" using that p(1,2) ascending_nth [OF asc that p(1)] by simp_all
      have "?k \<in> dom (map_abs m)" using node_data(1) [OF assms(1) j(1)] by blast
      then show ?thesis using assms(2,5) j(2) by (metis domIff linorder_neqE not_less)
    qed
    show "k \<le> mapNodeKey (nodes m ! j)" if "?i \<le> j" "j < length (nodes m)" for j
      using ascending_nth [OF asc, of ?i j] that p(2) assms(4) by (cases "j = ?i") auto
  qed
  then show ?thesis using dm.find_ok [OF assms(1), of k] p(3) assms(2) by (simp add: map_defs domIff)
qed

text \<open>C39: after any fewer than \<open>2^30\<close> calls of \<open>Set\<close>, \<open>SetNew\<close>, \<open>SetExisting\<close>, \<open>Delete\<close>, \<open>Pop\<close>, \<open>RemoveAtIndex\<close> and \<open>Clear\<close>
  on a new \<open>Map\<close>, none of which violates an assertion of the code (\<open>SetNew\<close> only of keys that are not there,
  \<open>SetExisting\<close> and \<open>Pop\<close> only of keys that are, \<open>RemoveAtIndex\<close> only of positions inside), no call has failed, each has
  replied what it should, and the \<open>Map\<close> is the map that the same operations give on the side of
  mathematics: keys are found exactly when they are there, with their last data, and the indices run through
  them in order.\<close>

theorem map_refines:
  assumes "length ops < 1073741824" "map_legals ops Map.empty"
  shows "\<exists>m. run_map_ops z ops (Map_new junk_index junk_key) = Inr (fst (map_specs ops Map.empty), m)
    \<and> (let f = snd (map_specs ops Map.empty) in
        Map_Size m = card (dom f)
      \<and> (\<forall>k. Map_Has defaultMapKeyComparison k m = Inr (k \<in> dom f, m))
      \<and> (\<forall>k d. f k = Some d \<longrightarrow> Map_Get defaultMapKeyComparison k m = Inr (d, m))
      \<and> (\<forall>i < card (dom f). let k = sorted_list_of_set (dom f) ! i in
           GetKeyAtIndex i m = Inr k \<and> Map_at i m = Inr (the (f k))
           \<and> GetIndexAtKey defaultMapKeyComparison k m = Inr (i, m)))"
proof -
  have new: "map_ok (Map_new junk_index junk_key :: ('a, 'b) rak_map)" "nodes (Map_new junk_index junk_key :: ('a, 'b) rak_map) = []"
    "map_abs (Map_new junk_index junk_key :: ('a, 'b) rak_map) = Map.empty"
    by (simp_all add: Map_new_def map_ok_def nodes_def map_abs_def pairs_def ascending_def)
  obtain m where m: "run_map_ops z ops (Map_new junk_index junk_key) = Inr (fst (map_specs ops Map.empty), m)" "map_ok m"
      and f: "map_abs m = snd (map_specs ops Map.empty)"
    using map_ops_ok [OF new(1), of ops z] assms by (auto simp: new)
  have l: "rlist_ok (mapNodeList m)" using m(2) by (simp add: map_ok_def)
  note keys = keys_in_order [OF m(2)]
  have "Map_Size m = card (dom (map_abs m))"
    using length_items [OF l] keys(2) by (simp add: Map_Size_def List_Size_def nodes_def)
  moreover have "Map_Has defaultMapKeyComparison k m = Inr (k \<in> dom (map_abs m), m)" for k
    using dm.find_ok [OF m(2), of k] by (simp add: map_defs)
  moreover have "Map_Get defaultMapKeyComparison k m = Inr (d, m)" if "map_abs m k = Some d" for k d
    using dm.find_ok [OF m(2), of k] dm.present(3) [OF m(2) that] by (simp add: map_defs)
  moreover have "GetKeyAtIndex i m = Inr k \<and> Map_at i m = Inr (the (map_abs m k))
      \<and> GetIndexAtKey defaultMapKeyComparison k m = Inr (i, m)"
    if "i < card (dom (map_abs m))" "k = sorted_list_of_set (dom (map_abs m)) ! i" for i k
  proof -
    have i: "i < length (nodes m)" using that(1) keys(2) by simp
    then have "k = mapNodeKey (nodes m ! i)" unfolding that(2) keys(1) [symmetric] by simp
    then show ?thesis using node_data [OF m(2) i] rank_nth [OF m(2) i] dm.find_ok [OF m(2), of k]
      by (simp add: Map_at_def map_defs)
  qed
  ultimately show ?thesis using m(1) unfolding f by (intro exI [of _ m]) (simp add: Let_def)
qed

theorem map_refines_witness:
  "\<exists>m. run_map_ops \<lparr>mapNodeKey = 0, mapNodeData = 0\<rparr> [MSet 5 50, MSetNew 2 20, MSet 5 51, MSet 9 90, MRemoveAt 2, MDelete 7, MPop 2]
      (Map_new 0 0) = Inr ([Done, Done, Done, Done, Done, Found False, Popped 20], m)
    \<and> Map_Size m = 1 \<and> Map_Get defaultMapKeyComparison (5 :: nat) m = Inr (51 :: nat, m)"
proof -
  let ?ops = "[MSet 5 50, MSetNew 2 20, MSet 5 51, MSet 9 90, MRemoveAt 2, MDelete 7, MPop 2] :: (nat, nat) map_op list"
  let ?f = "[5 \<mapsto> 50 :: nat, 2 \<mapsto> 20, 5 \<mapsto> 51, 9 \<mapsto> 90] :: nat \<rightharpoonup> nat"
  have d: "dom ?f = {2, 5, 9}" by auto
  have s: "sorted_list_of_set (dom ?f) ! 2 = 9" "card (dom ?f) = 3" unfolding d by code_simp+
  have run: "map_specs ?ops Map.empty = ([Done, Done, Done, Done, Done, Found False, Popped 20], ?f(9 := None, 7 := None, 2 := None))"
    by (simp only: map_specs.simps map_spec.simps Let_def prod.case s) (simp add: domIff)
  have spec: "fst (map_specs ?ops Map.empty) = [Done, Done, Done, Done, Done, Found False, Popped 20]"
    "snd (map_specs ?ops Map.empty) = [5 \<mapsto> 51]" "map_legals ?ops Map.empty"
  proof -
    show "fst (map_specs ?ops Map.empty) = [Done, Done, Done, Done, Done, Found False, Popped 20]"
      "snd (map_specs ?ops Map.empty) = [5 \<mapsto> 51]" unfolding run by (auto simp: fun_eq_iff)
    show "map_legals ?ops Map.empty"
      by (simp only: map_legals.simps map_legal.simps map_spec.simps snd_conv s) simp
  qed
  from map_refines [OF _ spec(3), of "\<lparr>mapNodeKey = 0, mapNodeData = 0\<rparr>" 0 0, unfolded spec(1,2) Let_def]
  show ?thesis by (elim exE conjE meta_impE impE) auto
qed

end
