(* ===== verification/RakHash.thy ===== *)
theory RakHash
  imports RakNodes RakList "HOL-Library.Multiset"
begin

text \<open>
  \<open>DataStructures::Hash\<close> of RakNet (\<^verbatim>\<open>DS_Hash.h\<close>): an array of \<open>n\<close> chains of nodes, the newest first. The hash
  function \<open>hf\<close> and the number \<open>n\<close> are parameters of the template. The array is made at the first insertion.
\<close>

section \<open>Code\<close>

record ('k, 'd) hnode =
  string :: 'k
  hdata :: 'd
  next_in :: link

record hash_index =
  primaryIndex :: nat
  secondaryIndex :: nat

record ('k, 'd) rhash =
  nodeList :: "link ptr"
  hsize :: nat
  hnodes :: "('k, 'd) hnode store"

definition IsInvalid :: "hash_index \<Rightarrow> bool" where
  "IsInvalid i \<longleftrightarrow> primaryIndex i = MAX_UNSIGNED_LONG"

definition invalid_index :: hash_index where
  "invalid_index = \<lparr>primaryIndex = MAX_UNSIGNED_LONG, secondaryIndex = MAX_UNSIGNED_LONG\<rparr>"

definition Hash_new :: "('k, 'd) rhash" where
  "Hash_new = \<lparr>nodeList = Null, hsize = 0, hnodes = empty_store\<rparr>"

definition hash_slot :: "('k \<Rightarrow> nat) \<Rightarrow> nat \<Rightarrow> 'k \<Rightarrow> nat res" where
  "hash_slot hf n key = (if n = 0 then Inl DivByZero else Inr (hf key mod n))"

text \<open>The array of a table without one: \<open>new\<close> and \<open>memset\<close>.\<close>

definition make_table :: "nat \<Rightarrow> link ptr \<Rightarrow> link ptr res" where
  "make_table n p =
     (if p = Null then rbind (OP_NEW_ARRAY WILD n) (\<lambda>q. foldE (\<lambda>i q. poke q i NIL) [0..<n] q) else Inr p)"

definition Hash_Push :: "('k \<Rightarrow> nat) \<Rightarrow> nat \<Rightarrow> 'k \<Rightarrow> 'd \<Rightarrow> ('k, 'd) rhash \<Rightarrow> ('k, 'd) rhash res" where
  "Hash_Push hf n key input h =
     rbind (hash_slot hf n key) (\<lambda>hashIndex.
     rbind (make_table n (nodeList h)) (\<lambda>tab.
     rbind (peek tab hashIndex) (\<lambda>old.
     let (newNode, s) = OP_NEW \<lparr>string = key, hdata = input, next_in = old\<rparr> (hnodes h)
     in rbind (poke tab hashIndex (At newNode)) (\<lambda>tab'.
     Inr \<lparr>nodeList = tab', hsize = w32 (hsize h + 1), hnodes = s\<rparr>))))"

partial_function (option) peek_loop :: "'k \<Rightarrow> link \<Rightarrow> ('k, 'd) hnode store \<Rightarrow> 'd option run" where
  "peek_loop key node s =
     (if node = NIL then Some (Inr None)
      else mbind (Some (fetch node s)) (\<lambda>nd.
           if string nd = key then Some (Inr (Some (hdata nd))) else peek_loop key (next_in nd) s))"

definition Hash_Peek :: "('k \<Rightarrow> nat) \<Rightarrow> nat \<Rightarrow> 'k \<Rightarrow> ('k, 'd) rhash \<Rightarrow> 'd option run" where
  "Hash_Peek hf n key h =
     (if nodeList h = Null then Some (Inr None)
      else mbind (Some (hash_slot hf n key)) (\<lambda>hashIndex.
           mbind (Some (peek (nodeList h) hashIndex)) (\<lambda>node. peek_loop key node (hnodes h))))"

partial_function (option) clear_chain :: "link \<Rightarrow> ('k, 'd) rhash \<Rightarrow> ('k, 'd) rhash run" where
  "clear_chain node h =
     (if node = NIL then Some (Inr h)
      else mbind (Some (fetch node (hnodes h))) (\<lambda>nd.
           mbind (Some (OP_DELETE node (hnodes h))) (\<lambda>s.
           clear_chain (next_in nd) (h\<lparr>hnodes := s, hsize := dec32 (hsize h)\<rparr>))))"

definition ClearIndex :: "nat \<Rightarrow> ('k, 'd) rhash \<Rightarrow> ('k, 'd) rhash run" where
  "ClearIndex index h =
     mbind (Some (peek (nodeList h) index)) (\<lambda>node.
     mbind (clear_chain node h) (\<lambda>h1.
     mbind (Some (poke (nodeList h1) index NIL)) (\<lambda>tab. Some (Inr (h1\<lparr>nodeList := tab\<rparr>)))))"

text \<open>Taking a node out of its chain: the pointer before it, in the table or in the node \<open>prior\<close> (\<^verbatim>\<open>last\<close>), takes its next one.\<close>

definition drop_first :: "nat \<Rightarrow> link \<Rightarrow> ('k, 'd) hnode \<Rightarrow> ('k, 'd) rhash \<Rightarrow> ('k, 'd) rhash res" where
  "drop_first index node nd h =
     rbind (poke (nodeList h) index (next_in nd)) (\<lambda>tab.
     rbind (OP_DELETE node (hnodes h)) (\<lambda>s.
     Inr \<lparr>nodeList = tab, hsize = dec32 (hsize h), hnodes = s\<rparr>))"

definition drop_after :: "link \<Rightarrow> link \<Rightarrow> ('k, 'd) rhash \<Rightarrow> ('k, 'd) rhash res" where
  "drop_after prior node h =
     rbind (fetch node (hnodes h)) (\<lambda>nd.
     rbind (modify prior (\<lambda>l. l\<lparr>next_in := next_in nd\<rparr>) (hnodes h)) (\<lambda>s.
     rbind (OP_DELETE node s) (\<lambda>s'.
     Inr (h\<lparr>hsize := dec32 (hsize h), hnodes := s'\<rparr>))))"

partial_function (option) pop_loop :: "'k \<Rightarrow> link \<Rightarrow> link \<Rightarrow> ('k, 'd) rhash \<Rightarrow> ('d option \<times> ('k, 'd) rhash) run" where
  "pop_loop key prior node h =
     (if node = NIL then Some (Inr (None, h))
      else mbind (Some (fetch node (hnodes h))) (\<lambda>nd.
           if string nd = key then mbind (Some (drop_after prior node h)) (\<lambda>h1. Some (Inr (Some (hdata nd), h1)))
           else pop_loop key node (next_in nd) h))"

text \<open>\<open>Some\<close> of the data stored to the output and \<open>true\<close>, or \<open>None\<close> for \<open>false\<close>, when the output is left alone.\<close>

definition Hash_Pop :: "('k \<Rightarrow> nat) \<Rightarrow> nat \<Rightarrow> 'k \<Rightarrow> ('k, 'd) rhash \<Rightarrow> ('d option \<times> ('k, 'd) rhash) run" where
  "Hash_Pop hf n key h =
     (if nodeList h = Null then Some (Inr (None, h))
      else mbind (Some (hash_slot hf n key)) (\<lambda>hashIndex.
           mbind (Some (peek (nodeList h) hashIndex)) (\<lambda>node.
           if node = NIL then Some (Inr (None, h))
           else mbind (Some (fetch node (hnodes h))) (\<lambda>nd.
                if next_in nd = NIL then
                  (if string nd = key then mbind (ClearIndex hashIndex h) (\<lambda>h1. Some (Inr (Some (hdata nd), h1)))
                   else Some (Inr (None, h)))
                else if string nd = key then
                  mbind (Some (drop_first hashIndex node nd h)) (\<lambda>h1. Some (Inr (Some (hdata nd), h1)))
                else pop_loop key node (next_in nd) h))))"

fun remove_walk :: "nat \<Rightarrow> link \<Rightarrow> link \<Rightarrow> ('k, 'd) hnode store \<Rightarrow> (link \<times> link) res" where
  "remove_walk 0 prior node s = Inr (prior, node)"
| "remove_walk (Suc k) prior node s = rbind (fetch node s) (\<lambda>nd. remove_walk k node (next_in nd) s)"

definition Hash_RemoveAtIndex :: "hash_index \<Rightarrow> ('k, 'd) rhash \<Rightarrow> (bool \<times> ('k, 'd) rhash) run" where
  "Hash_RemoveAtIndex index h =
     (if IsInvalid index then Some (Inr (False, h))
      else mbind (Some (peek (nodeList h) (primaryIndex index))) (\<lambda>node.
           if node = NIL then Some (Inr (False, h))
           else mbind (Some (fetch node (hnodes h))) (\<lambda>nd.
                if next_in nd = NIL then mbind (ClearIndex (primaryIndex index) h) (\<lambda>h1. Some (Inr (True, h1)))
                else if secondaryIndex index = 0 then
                  mbind (Some (drop_first (primaryIndex index) node nd h)) (\<lambda>h1. Some (Inr (True, h1)))
                else mbind (Some (remove_walk (secondaryIndex index - 1) node (next_in nd) (hnodes h))) (\<lambda>(prior, node).
                     mbind (Some (drop_after prior node h)) (\<lambda>h1. Some (Inr (True, h1)))))))"

partial_function (option) index_loop :: "'k \<Rightarrow> hash_index \<Rightarrow> link \<Rightarrow> ('k, 'd) hnode store \<Rightarrow> hash_index run" where
  "index_loop key idx node s =
     (if node = NIL then Some (Inr invalid_index)
      else mbind (Some (fetch node s)) (\<lambda>nd.
           if string nd = key then Some (Inr idx)
           else index_loop key (idx\<lparr>secondaryIndex := w32 (secondaryIndex idx + 1)\<rparr>) (next_in nd) s))"

definition Hash_GetIndexOf :: "('k \<Rightarrow> nat) \<Rightarrow> nat \<Rightarrow> 'k \<Rightarrow> ('k, 'd) rhash \<Rightarrow> hash_index run" where
  "Hash_GetIndexOf hf n key h =
     (if nodeList h = Null then Some (Inr invalid_index)
      else mbind (Some (hash_slot hf n key)) (\<lambda>hashIndex.
           mbind (Some (peek (nodeList h) hashIndex)) (\<lambda>node.
           if node = NIL then Some (Inr invalid_index)
           else index_loop key \<lparr>primaryIndex = hashIndex, secondaryIndex = 0\<rparr> node (hnodes h))))"

definition Hash_Remove :: "('k \<Rightarrow> nat) \<Rightarrow> nat \<Rightarrow> 'k \<Rightarrow> ('k, 'd) rhash \<Rightarrow> (bool \<times> ('k, 'd) rhash) run" where
  "Hash_Remove hf n key h = mbind (Hash_GetIndexOf hf n key h) (\<lambda>idx. Hash_RemoveAtIndex idx h)"

definition Hash_HasData :: "('k \<Rightarrow> nat) \<Rightarrow> nat \<Rightarrow> 'k \<Rightarrow> ('k, 'd) rhash \<Rightarrow> bool run" where
  "Hash_HasData hf n key h = mbind (Hash_GetIndexOf hf n key h) (\<lambda>idx. Some (Inr (\<not> IsInvalid idx)))"

text \<open>The node of an index: \<open>ItemAtIndex\<close> and \<open>KeyAtIndex\<close> return its members.\<close>

fun node_walk :: "nat \<Rightarrow> link \<Rightarrow> ('k, 'd) hnode store \<Rightarrow> link res" where
  "node_walk 0 node s = Inr node"
| "node_walk (Suc k) node s = rbind (fetch node s) (\<lambda>nd. node_walk k (next_in nd) s)"

definition node_at :: "hash_index \<Rightarrow> ('k, 'd) rhash \<Rightarrow> ('k, 'd) hnode res" where
  "node_at index h =
     rbind (peek (nodeList h) (primaryIndex index)) (\<lambda>node.
     rbind (node_walk (secondaryIndex index) node (hnodes h)) (\<lambda>node'. fetch node' (hnodes h)))"

definition ItemAtIndex :: "hash_index \<Rightarrow> ('k, 'd) rhash \<Rightarrow> 'd res" where
  "ItemAtIndex index h = rbind (node_at index h) (\<lambda>nd. Inr (hdata nd))"

definition KeyAtIndex :: "hash_index \<Rightarrow> ('k, 'd) rhash \<Rightarrow> 'k res" where
  "KeyAtIndex index h = rbind (node_at index h) (\<lambda>nd. Inr (string nd))"

fun clear_slots :: "nat list \<Rightarrow> ('k, 'd) rhash \<Rightarrow> ('k, 'd) rhash run" where
  "clear_slots [] h = Some (Inr h)"
| "clear_slots (i # is) h = mbind (ClearIndex i h) (clear_slots is)"

definition Hash_Clear :: "nat \<Rightarrow> ('k, 'd) rhash \<Rightarrow> ('k, 'd) rhash run" where
  "Hash_Clear n h =
     (if nodeList h \<noteq> Null then
        mbind (clear_slots [0..<n] h) (\<lambda>h1.
        mbind (Some (OP_DELETE_ARRAY (nodeList h1))) (\<lambda>_.
        Some (Inr (h1\<lparr>nodeList := Null, hsize := 0\<rparr>))))
      else Some (Inr h))"

partial_function (option) list_chain ::
  "'d \<Rightarrow> 'k \<Rightarrow> link \<Rightarrow> ('k, 'd) hnode store \<Rightarrow> 'd rlist \<times> 'k rlist \<Rightarrow> ('d rlist \<times> 'k rlist) run" where
  "list_chain zd zk node s ls =
     (if node = NIL then Some (Inr ls)
      else mbind (Some (fetch node s)) (\<lambda>nd.
           mbind (Some (List_Push zd (hdata nd) (fst ls))) (\<lambda>itemList.
           mbind (Some (List_Push zk (string nd) (snd ls))) (\<lambda>keyList.
           list_chain zd zk (next_in nd) s (itemList, keyList)))))"

fun list_slots :: "'d \<Rightarrow> 'k \<Rightarrow> nat list \<Rightarrow> ('k, 'd) rhash \<Rightarrow> 'd rlist \<times> 'k rlist \<Rightarrow> ('d rlist \<times> 'k rlist) run" where
  "list_slots zd zk [] h ls = Some (Inr ls)"
| "list_slots zd zk (i # is) h ls =
     mbind (Some (peek (nodeList h) i)) (\<lambda>node.
     mbind (list_chain zd zk node (hnodes h) ls) (list_slots zd zk is h))"

text \<open>A table that was never filled leaves the lists as they are.\<close>

definition GetAsList :: "'d \<Rightarrow> 'k \<Rightarrow> nat \<Rightarrow> ('k, 'd) rhash \<Rightarrow> 'd rlist \<times> 'k rlist \<Rightarrow> ('d rlist \<times> 'k rlist) run" where
  "GetAsList zd zk n h ls =
     (if nodeList h = Null then Some (Inr ls)
      else mbind (Some (List_Clear False (fst ls))) (\<lambda>itemList.
           mbind (Some (List_Clear False (snd ls))) (\<lambda>keyList.
           list_slots zd zk [0..<n] h (itemList, keyList))))"

definition Hash_Size :: "('k, 'd) rhash \<Rightarrow> nat" where
  "Hash_Size h = hsize h"


section \<open>Chains\<close>

type_synonym ('k, 'd) hcells = "nat \<Rightarrow> ('k, 'd) hnode option"

fun chain :: "('k, 'd) hcells \<Rightarrow> link \<Rightarrow> nat list \<Rightarrow> bool" where
  "chain m p [] = (p = NIL)"
| "chain m p (a # as) = (p = At a \<and> (\<exists>nd. m a = Some nd \<and> chain m (next_in nd) as))"

definition pair_at :: "('k, 'd) hcells \<Rightarrow> nat \<Rightarrow> 'k \<times> 'd" where
  "pair_at m a = (string (the (m a)), hdata (the (m a)))"

lemma chain_cong: "(\<And>a. a \<in> set as \<Longrightarrow> m a = m' a) \<Longrightarrow> chain m p as = chain m' p as"
  by (induction as arbitrary: p) auto

lemma chain_frame: "chain m p as \<Longrightarrow> (\<And>a. a \<in> set as \<Longrightarrow> m' a = m a) \<Longrightarrow> chain m' p as"
  using chain_cong [of as m m' p] by simp

lemma pair_at_Some [simp]: "m a = Some nd \<Longrightarrow> pair_at m a = (string nd, hdata nd)"
  by (simp add: pair_at_def)

lemma pair_at_upd [simp]: "x \<noteq> a \<Longrightarrow> pair_at (m(a := v)) x = pair_at m x"
  by (simp add: pair_at_def)

lemma pair_at_cong: "(\<And>a. a \<in> set as \<Longrightarrow> m a = m' a) \<Longrightarrow> map (pair_at m) as = map (pair_at m') as"
  by (simp add: pair_at_def)

lemma chain_unique: "chain m p as \<Longrightarrow> chain m p bs \<Longrightarrow> as = bs"
proof (induction as arbitrary: p bs)
  case Nil
  then show ?case by (cases bs) auto
next
  case (Cons a as)
  then show ?case by (cases bs) auto
qed

lemma chain_split: "chain m p (us @ a # vs) \<Longrightarrow> chain m (At a) (a # vs)"
  by (induction us arbitrary: p) auto

lemma chain_Some: "chain m p as \<Longrightarrow> a \<in> set as \<Longrightarrow> m a \<noteq> None"
  by (induction as arbitrary: p) auto

lemma chain_distinct: "chain m p as \<Longrightarrow> distinct as"
proof (rule ccontr)
  assume c: "chain m p as" and "\<not> distinct as"
  then obtain us a vs ws where as: "as = us @ [a] @ vs @ [a] @ ws" using not_distinct_decomp by blast
  have "chain m (At a) (a # vs @ a # ws)" using chain_split [of m p us a] c as by simp
  moreover have "chain m (At a) (a # ws)" using chain_split [of m p "us @ a # vs" a ws] c as by simp
  ultimately have "a # vs @ a # ws = a # ws" by (rule chain_unique)
  then show False by simp
qed

lemma chain_in: "chain m p (us @ vs) \<Longrightarrow> vs \<noteq> [] \<Longrightarrow> chain m (At (hd vs)) vs"
  using chain_split by (cases vs) auto

lemma chain_drop: "chain m (At a) (a # vs) \<Longrightarrow> chain (m(a := None)) (next_in (the (m a))) vs"
proof -
  assume c: "chain m (At a) (a # vs)"
  then have "a \<notin> set vs" using chain_distinct by fastforce
  then show ?thesis using c by (auto elim!: chain_frame)
qed

text \<open>Taking \<open>a\<close> out behind \<open>b\<close>.\<close>

definition unlink :: "('k, 'd) hcells \<Rightarrow> nat \<Rightarrow> nat \<Rightarrow> ('k, 'd) hcells" where
  "unlink m b a = m(b := Some ((the (m b))\<lparr>next_in := next_in (the (m a))\<rparr>), a := None)"

lemma chain_unlink:
  assumes "chain m p (us @ b # a # vs)"
  shows "chain (unlink m b a) p (us @ b # vs)" "map (pair_at (unlink m b a)) (us @ b # vs) = map (pair_at m) (us @ b # vs)"
proof -
  have d: "distinct (us @ b # a # vs)" by (rule chain_distinct [OF assms])
  show "chain (unlink m b a) p (us @ b # vs)" using assms d
  proof (induction us arbitrary: p)
    case Nil
    then obtain nb na where n: "m b = Some nb" "m a = Some na" "chain m (next_in na) vs" "p = At b" by auto
    have "chain (unlink m b a) (next_in na) vs"
      by (rule chain_frame [OF n(3)]) (use Nil(2) in \<open>auto simp: unlink_def\<close>)
    moreover have "unlink m b a b = Some (nb\<lparr>next_in := next_in na\<rparr>)" using n Nil(2) by (simp add: unlink_def)
    ultimately show ?case using n(4) by simp
  next
    case (Cons u us)
    then show ?case by (auto simp: unlink_def)
  qed
  have "string (the (unlink m b a c)) = string (the (m c)) \<and> hdata (the (unlink m b a c)) = hdata (the (m c))" if "c \<noteq> a" for c
    using that by (simp add: unlink_def)
  moreover have "a \<notin> set (us @ b # vs)" using d by auto
  ultimately show "map (pair_at (unlink m b a)) (us @ b # vs) = map (pair_at m) (us @ b # vs)"
    unfolding map_eq_conv pair_at_def by (metis)
qed

section \<open>The loops over a chain\<close>

lemma peek_loop_ok:
  "chain (cells s) p as \<Longrightarrow> peek_loop k p s = Some (Inr (map_of (map (pair_at (cells s)) as) k))"
proof (induction as arbitrary: p)
  case Nil
  then show ?case by (subst peek_loop.simps) simp
next
  case (Cons a as)
  then obtain nd where "p = At a" "cells s a = Some nd" "chain (cells s) (next_in nd) as" by auto
  then show ?case using Cons.IH by (subst peek_loop.simps) simp
qed

lemma index_loop_ok:
  "chain (cells s) p as \<Longrightarrow> secondaryIndex idx + length as < 4294967296 \<Longrightarrow>
    index_loop k idx p s = Some (Inr (if k \<in> fst ` set (map (pair_at (cells s)) as)
      then idx\<lparr>secondaryIndex := secondaryIndex idx + length (takeWhile (\<lambda>x. fst x \<noteq> k) (map (pair_at (cells s)) as))\<rparr>
      else invalid_index))"
proof (induction as arbitrary: p idx)
  case Nil
  then show ?case by (subst index_loop.simps) simp
next
  case (Cons a as)
  then obtain nd where nd: "p = At a" "cells s a = Some nd" "chain (cells s) (next_in nd) as" by auto
  show ?case
  proof (cases "string nd = k")
    case True
    then show ?thesis using nd by (subst index_loop.simps) simp
  next
    case False
    have "secondaryIndex (idx\<lparr>secondaryIndex := w32 (secondaryIndex idx + 1)\<rparr>) + length as < 4294967296"
      using Cons.prems(2) by simp
    from Cons.IH [OF nd(3) this] show ?thesis
      using nd False Cons.prems(2) by (subst index_loop.simps) (simp add: image_iff)
  qed
qed

lemma node_walk_ok: "chain (cells s) p (us @ a # vs) \<Longrightarrow> node_walk (length us) p s = Inr (At a)"
  by (induction us arbitrary: p) auto

lemma remove_walk_ok:
  "chain (cells s) p (vs @ a # ws) \<Longrightarrow> remove_walk (length vs) (At b) p s = Inr (At (last (b # vs)), At a)"
  by (induction vs arbitrary: p b) auto

lemma pop_loop_miss:
  "chain (cells (hnodes h)) p as \<Longrightarrow> k \<notin> fst ` set (map (pair_at (cells (hnodes h))) as) \<Longrightarrow>
    pop_loop k b p h = Some (Inr (None, h))"
proof (induction as arbitrary: p b)
  case Nil
  then show ?case by (subst pop_loop.simps) simp
next
  case (Cons a as)
  then obtain nd where "p = At a" "cells (hnodes h) a = Some nd" "chain (cells (hnodes h)) (next_in nd) as" by auto
  then show ?case using Cons.IH Cons.prems(2) by (subst pop_loop.simps) auto
qed

lemma pop_loop_hit:
  "chain (cells (hnodes h)) p (vs @ a # ws) \<Longrightarrow> k \<notin> fst ` set (map (pair_at (cells (hnodes h))) vs) \<Longrightarrow>
    pair_at (cells (hnodes h)) a = (k, d) \<Longrightarrow>
    pop_loop k (At b) p h = mbind (Some (drop_after (At (last (b # vs))) (At a) h)) (\<lambda>h1. Some (Inr (Some d, h1)))"
proof (induction vs arbitrary: p b)
  case Nil
  then show ?case by (subst pop_loop.simps) auto
next
  case (Cons c vs)
  then obtain nd where nd: "p = At c" "cells (hnodes h) c = Some nd" "chain (cells (hnodes h)) (next_in nd) (vs @ a # ws)" by auto
  have "pop_loop k (At c) (next_in nd) h = mbind (Some (drop_after (At (last (c # vs))) (At a) h)) (\<lambda>h1. Some (Inr (Some d, h1)))"
    using Cons.IH [OF nd(3)] Cons.prems by simp
  moreover have "string nd \<noteq> k" using nd(2) Cons.prems(2) by auto
  ultimately show ?case using nd by (subst pop_loop.simps) simp
qed

lemma drop_after_ok:
  assumes "chain (cells (hnodes h)) p (us @ b # a # vs)"
  shows "drop_after (At b) (At a) h
    = Inr (h\<lparr>hsize := dec32 (hsize h), hnodes := (hnodes h)\<lparr>cells := unlink (cells (hnodes h)) b a\<rparr>\<rparr>)"
proof -
  have "chain (cells (hnodes h)) (At b) (b # a # vs)" by (rule chain_split [OF assms])
  then obtain nb na where "cells (hnodes h) b = Some nb" "cells (hnodes h) a = Some na" by auto
  moreover have "a \<noteq> b" using chain_distinct [OF assms] by auto
  ultimately show ?thesis by (simp add: drop_after_def unlink_def)
qed

lemma clear_chain_ok:
  "chain (cells (hnodes h)) p as \<Longrightarrow>
    clear_chain p h = Some (Inr (h\<lparr>hsize := (dec32 ^^ length as) (hsize h),
      hnodes := (hnodes h)\<lparr>cells := (\<lambda>c. if c \<in> set as then None else cells (hnodes h) c)\<rparr>\<rparr>))"
proof (induction as arbitrary: p h)
  case Nil
  then show ?case by (subst clear_chain.simps) simp
next
  case (Cons a as)
  then obtain nd where nd: "p = At a" "cells (hnodes h) a = Some nd" "chain (cells (hnodes h)) (next_in nd) as" by auto
  let ?h = "h\<lparr>hnodes := (hnodes h)\<lparr>cells := (cells (hnodes h))(a := None)\<rparr>, hsize := dec32 (hsize h)\<rparr>"
  have "a \<notin> set as" using chain_distinct [OF Cons.prems] by simp
  then have "chain (cells (hnodes ?h)) (next_in nd) as" using nd(3) by (auto elim!: chain_frame)
  from Cons.IH [OF this] show ?case
    using nd by (subst clear_chain.simps) (auto simp: fun_eq_iff funpow_Suc_right simp del: funpow.simps)
qed


section \<open>A table and the list it stands for\<close>

text \<open>The entries of a table, the newest first; a chain holds those of its slot in this order.\<close>

definition slot :: "('k \<Rightarrow> nat) \<Rightarrow> nat \<Rightarrow> nat \<Rightarrow> ('k \<times> 'd) list \<Rightarrow> ('k \<times> 'd) list" where
  "slot hf n i xs = filter (\<lambda>x. hf (fst x) mod n = i) xs"

fun remove_key :: "'k \<Rightarrow> ('k \<times> 'd) list \<Rightarrow> ('k \<times> 'd) list" where
  "remove_key k [] = []"
| "remove_key k (x # xs) = (if fst x = k then xs else x # remove_key k xs)"

lemma remove_key_absent: "k \<notin> fst ` set xs \<Longrightarrow> remove_key k xs = xs"
  by (induction xs) auto

lemma remove_key_split: "k \<notin> fst ` set us \<Longrightarrow> remove_key k (us @ (k, d) # vs) = us @ vs"
  by (induction us) auto

lemma length_remove_key: "k \<in> fst ` set xs \<Longrightarrow> Suc (length (remove_key k xs)) = length xs"
  by (induction xs) auto

lemma slot_remove: "slot hf n i (remove_key k xs) = (if hf k mod n = i then remove_key k (slot hf n i xs) else slot hf n i xs)"
  by (induction xs) (auto simp: slot_def)

lemma map_of_slot: "map_of (slot hf n (hf k mod n) xs) k = map_of xs k"
  by (induction xs) (auto simp: slot_def)

lemma keys_slot: "k \<in> fst ` set (slot hf n (hf k mod n) xs) \<longleftrightarrow> k \<in> fst ` set xs"
  by (force simp: slot_def)

definition table :: "('k \<Rightarrow> nat) \<Rightarrow> nat \<Rightarrow> ('k, 'd) hcells \<Rightarrow> link list \<Rightarrow> (nat \<Rightarrow> nat list) \<Rightarrow> ('k \<times> 'd) list \<Rightarrow> bool" where
  "table hf n m ps bs xs \<longleftrightarrow> length ps = n
     \<and> (\<forall>i < n. chain m (ps ! i) (bs i) \<and> map (pair_at m) (bs i) = slot hf n i xs)
     \<and> (\<forall>a. m a \<noteq> None \<longrightarrow> (\<exists>i < n. a \<in> set (bs i)))"

lemma tableD:
  assumes "table hf n m ps bs xs"
  shows "length ps = n" "i < n \<Longrightarrow> chain m (ps ! i) (bs i)" "i < n \<Longrightarrow> map (pair_at m) (bs i) = slot hf n i xs"
    "m a \<noteq> None \<Longrightarrow> \<exists>i < n. a \<in> set (bs i)"
  using assms by (simp_all add: table_def)

lemma table_apart:
  assumes "table hf n m ps bs xs" "i < n" "j < n" "a \<in> set (bs i)" "a \<in> set (bs j)"
  shows "i = j"
proof -
  have "hf (fst (pair_at m a)) mod n = i" if "i < n" "a \<in> set (bs i)" for i
  proof -
    have "pair_at m a \<in> set (slot hf n i xs)" using tableD(3) [OF assms(1) that(1)] that(2) by (metis imageI image_set)
    then show ?thesis by (simp add: slot_def)
  qed
  then show ?thesis using assms(2-5) by metis
qed

lemma table_frame:
  assumes "table hf n m ps bs xs" "i < n" "j < n" "i \<noteq> j" "\<And>c. c \<notin> set (bs i) \<Longrightarrow> m' c = m c"
  shows "chain m' (ps ! j) (bs j)" "map (pair_at m') (bs j) = slot hf n j xs"
proof -
  have same: "m' c = m c" if "c \<in> set (bs j)" for c using table_apart [OF assms(1-3)] assms(4,5) that by blast
  then show "chain m' (ps ! j) (bs j)" using tableD(2) [OF assms(1,3)] by (rule chain_frame [rotated])
  show "map (pair_at m') (bs j) = slot hf n j xs"
    using pair_at_cong [of "bs j" m' m] same tableD(3) [OF assms(1,3)] by simp
qed

lemma table_push:
  fixes k :: 'k and d :: 'd
  assumes "table hf n m ps bs xs" "m c = None" "0 < n"
  defines "i \<equiv> hf k mod n"
  shows "table hf n (m(c := Some \<lparr>string = k, hdata = d, next_in = ps ! i\<rparr>)) (ps[i := At c]) (bs(i := c # bs i)) ((k, d) # xs)"
    (is "table hf n ?m ?ps ?bs ?xs")
proof -
  have i: "i < n" using assms(3) by (simp add: i_def)
  have new: "c \<notin> set (bs j)" if "j < n" for j using chain_Some [OF tableD(2) [OF assms(1) that]] assms(2) by blast
  have "chain ?m (?ps ! j) (?bs j) \<and> map (pair_at ?m) (?bs j) = slot hf n j ?xs" if j: "j < n" for j
  proof -
    have "?m e = m e" if "e \<in> set (bs j)" for e using new [OF j] that by auto
    then have "chain ?m (ps ! j) (bs j)" "map (pair_at ?m) (bs j) = slot hf n j xs"
      using chain_frame [OF tableD(2) [OF assms(1) j]] pair_at_cong [of "bs j" ?m m] tableD(3) [OF assms(1) j] by auto
    then show ?thesis using i tableD(1) [OF assms(1)] by (auto simp: slot_def i_def)
  qed
  then show ?thesis using tableD(1,4) [OF assms(1)] i by (auto simp: table_def) (metis)
qed

lemma table_shrink:
  assumes t: "table hf n m ps bs xs" and i: "i < n" and b: "bs i = us @ a # vs"
    and a: "pair_at m a = (k, d)" "k \<notin> fst ` set (map (pair_at m) us)"
    and c: "chain m' (ps' ! i) (us @ vs)" "map (pair_at m') (us @ vs) = map (pair_at m) (us @ vs)"
    and f: "\<And>c. c \<notin> set (bs i) \<Longrightarrow> m' c = m c" "m' a = None" "\<And>j. j \<noteq> i \<Longrightarrow> ps' ! j = ps ! j" "length ps' = n"
  shows "table hf n m' ps' (bs(i := us @ vs)) (remove_key k xs)"
proof -
  have s: "slot hf n i xs = map (pair_at m) us @ (k, d) # map (pair_at m) vs"
    using tableD(3) [OF t i] b a(1) by simp
  have "(k, d) \<in> set (slot hf n i xs)" using s by simp
  then have k: "hf k mod n = i" by (simp add: slot_def)
  have "slot hf n i (remove_key k xs) = map (pair_at m) (us @ vs)"
    using k s a(2) by (simp add: slot_remove remove_key_split)
  moreover have "chain m' (ps' ! j) (bs j) \<and> map (pair_at m') (bs j) = slot hf n j (remove_key k xs)" if "j < n" "j \<noteq> i" for j
    using table_frame [OF t i that(1) _ f(1)] that(2) f(3) k by (simp add: slot_remove)
  moreover have "\<exists>j < n. e \<in> set ((bs(i := us @ vs)) j)" if e: "m' e \<noteq> None" for e
  proof (cases "e \<in> set (bs i)")
    case True
    then show ?thesis using b f(2) e i by (intro exI [of _ i]) auto
  next
    case False
    then obtain j where "j < n" "e \<in> set (bs j)" using f(1) e tableD(4) [OF t] by auto
    then show ?thesis using False by (intro exI [of _ j]) auto
  qed
  ultimately show ?thesis using c f(4) by (auto simp: table_def)
qed

definition hash_rep :: "('k \<Rightarrow> nat) \<Rightarrow> nat \<Rightarrow> ('k, 'd) rhash \<Rightarrow> ('k \<times> 'd) list \<Rightarrow> bool" where
  "hash_rep hf n h xs \<longleftrightarrow> (\<forall>a \<ge> brk (hnodes h). cells (hnodes h) a = None) \<and> hsize h = length xs
     \<and> (nodeList h = Null \<and> xs = [] \<and> cells (hnodes h) = (\<lambda>_. None)
        \<or> (\<exists>ps bs. nodeList h = Arr ps \<and> table hf n (cells (hnodes h)) ps bs xs))"

lemma rep_new: "hash_rep hf n Hash_new []"
  by (simp add: hash_rep_def Hash_new_def empty_store_def)

lemma table_empty: "table hf n (\<lambda>_. None) (replicate n NIL) (\<lambda>_. []) []"
  by (simp add: table_def slot_def)

lemma fill_null: "length ps = n \<Longrightarrow> k \<le> n \<Longrightarrow> foldE (\<lambda>i q. poke q i NIL) [0..<k] (Arr ps) = Inr (Arr (replicate k NIL @ drop k ps))"
proof (induction k)
  case (Suc k)
  then show ?case
    using take_update_snoc [of k ps "replicate k NIL" NIL]
    by (simp add: foldE_append replicate_append_same [symmetric])
qed simp

lemma make_table_ok: "0 < n \<Longrightarrow> n < 2147483648 \<Longrightarrow> make_table n Null = Inr (Arr (replicate n NIL))"
  using fill_null [of "replicate n WILD" n n] by (simp add: make_table_def)

lemma hash_Push_runs:
  assumes "hash_rep hf n h xs" "0 < n" "n < 2147483648" "Suc (length xs) < 4294967296"
  shows "\<exists>h'. Hash_Push hf n k d h = Inr h' \<and> hash_rep hf n h' ((k, d) # xs)"
proof -
  let ?m = "cells (hnodes h)" and ?i = "hf k mod n"
  have fresh: "\<forall>a \<ge> brk (hnodes h). ?m a = None" "hsize h = length xs" using assms(1) by (simp_all add: hash_rep_def)
  obtain ps bs where t: "make_table n (nodeList h) = Inr (Arr ps)" "table hf n ?m ps bs xs"
  proof (cases "nodeList h = Null")
    case True
    then have "table hf n ?m (replicate n NIL) (\<lambda>_. []) xs" using assms(1) table_empty by (auto simp: hash_rep_def)
    then show ?thesis using that make_table_ok [OF assms(2,3)] True by simp
  next
    case False
    then show ?thesis using that assms(1) by (auto simp: hash_rep_def make_table_def)
  qed
  have i: "?i < length ps" using tableD(1) [OF t(2)] assms(2) by simp
  let ?nd = "\<lparr>string = k, hdata = d, next_in = ps ! ?i\<rparr>" and ?a = "brk (hnodes h)"
  have push: "Hash_Push hf n k d h = Inr \<lparr>nodeList = Arr (ps[?i := At ?a]), hsize = Suc (length xs),
      hnodes = (hnodes h)\<lparr>cells := ?m(?a := Some ?nd), brk := Suc ?a\<rparr>\<rparr>"
    using t(1) i assms(2,4) fresh(2) by (simp add: Hash_Push_def hash_slot_def OP_NEW_def)
  have "table hf n (?m(?a := Some ?nd)) (ps[?i := At ?a]) (bs(?i := ?a # bs ?i)) ((k, d) # xs)"
    using table_push [OF t(2) _ assms(2), of ?a k d] fresh(1) by simp
  then have "hash_rep hf n \<lparr>nodeList = Arr (ps[?i := At ?a]), hsize = Suc (length xs),
      hnodes = (hnodes h)\<lparr>cells := ?m(?a := Some ?nd), brk := Suc ?a\<rparr>\<rparr> ((k, d) # xs)"
    using fresh by (auto simp: hash_rep_def)
  then show ?thesis using push by blast
qed

lemma rep_cases:
  assumes "hash_rep hf n h xs"
  obtains (empty) "nodeList h = Null" "xs = []" | (full) ps bs where "nodeList h = Arr ps" "table hf n (cells (hnodes h)) ps bs xs"
  using assms by (auto simp: hash_rep_def)


lemma first_key:
  assumes "k \<in> fst ` set (map (pair_at m) as)"
  obtains us a vs d where "as = us @ a # vs" "pair_at m a = (k, d)" "k \<notin> fst ` set (map (pair_at m) us)"
    "map_of (map (pair_at m) as) k = Some d" "length (takeWhile (\<lambda>x. fst x \<noteq> k) (map (pair_at m) as)) = length us"
  using assms
proof (induction as arbitrary: thesis)
  case (Cons a as)
  show ?case
  proof (cases "fst (pair_at m a) = k")
    case True
    then show ?thesis using Cons.prems(1) [of "[]" a as "snd (pair_at m a)"] by (cases "pair_at m a") simp
  next
    case False
    then have "k \<in> fst ` set (map (pair_at m) as)" using Cons.prems(2) by auto
    then obtain us b vs d where "as = us @ b # vs" "pair_at m b = (k, d)" "k \<notin> fst ` set (map (pair_at m) us)"
        "map_of (map (pair_at m) as) k = Some d" "length (takeWhile (\<lambda>x. fst x \<noteq> k) (map (pair_at m) as)) = length us"
      using Cons.IH by blast
    then show ?thesis using Cons.prems(1) [of "a # us" b vs d] False by auto
  qed
qed simp

text \<open>The three ways to take an entry out of its chain.\<close>

lemma drop_entry:
  assumes rep: "hash_rep hf n h xs" "nodeList h = Arr ps" and t: "table hf n (cells (hnodes h)) ps bs xs" and i: "i < n"
    and b: "bs i = us @ a # vs" and a: "pair_at (cells (hnodes h)) a = (k, d)"
      "k \<notin> fst ` set (map (pair_at (cells (hnodes h))) us)" and len: "length xs < 4294967296"
  shows "us = [] \<Longrightarrow> vs = [] \<Longrightarrow> \<exists>h'. ClearIndex i h = Some (Inr h') \<and> hash_rep hf n h' (remove_key k xs)"
    "us = [] \<Longrightarrow> \<exists>h'. drop_first i (At a) (the (cells (hnodes h) a)) h = Inr h' \<and> hash_rep hf n h' (remove_key k xs)"
    "us \<noteq> [] \<Longrightarrow> \<exists>h'. drop_after (At (last us)) (At a) h = Inr h' \<and> hash_rep hf n h' (remove_key k xs)"
proof -
  let ?m = "cells (hnodes h)"
  have fresh: "\<forall>a \<ge> brk (hnodes h). ?m a = None" and size: "hsize h = length xs" using rep(1) by (simp_all add: hash_rep_def)
  have ch: "chain ?m (ps ! i) (us @ a # vs)" using tableD(2) [OF t i] b by simp
  then obtain nd where nd: "?m a = Some nd" "chain ?m (next_in nd) vs" using chain_split by fastforce
  have ps: "i < length ps" using tableD(1) [OF t] i by simp
  have "(k, d) \<in> set (slot hf n i xs)" using tableD(3) [OF t i] b a(1) by (metis in_set_conv_decomp list.simps(9) map_append)
  then have "k \<in> fst ` set xs" by (force simp: slot_def)
  then have l: "Suc (length (remove_key k xs)) = length xs" by (rule length_remove_key)
  then have "dec32 (length xs) = length xs - 1" using len by (intro dec32_pos) linarith+
  then have dec: "dec32 (hsize h) = length (remove_key k xs)" using l size by simp
  have rep': "hash_rep hf n h' (remove_key k xs)"
    if "nodeList h' = Arr ps'" "hsize h' = dec32 (hsize h)" "brk (hnodes h') = brk (hnodes h)"
      "table hf n (cells (hnodes h')) ps' bs' (remove_key k xs)" "\<And>c. ?m c = None \<Longrightarrow> cells (hnodes h') c = None" for h' ps' bs'
    using that fresh dec by (auto simp: hash_rep_def)
  show "\<exists>h'. drop_first i (At a) (the (?m a)) h = Inr h' \<and> hash_rep hf n h' (remove_key k xs)" if "us = []"
  proof -
    have "table hf n (?m(a := None)) (ps[i := next_in nd]) (bs(i := us @ vs)) (remove_key k xs)"
      using chain_drop [of ?m a vs] ch that nd ps chain_distinct [OF ch] tableD(1) [OF t]
      by (intro table_shrink [OF t i b a]) (auto simp: b intro!: pair_at_upd)
    then show ?thesis using nd(1) ps rep(2) by (auto simp: drop_first_def intro!: rep')
  qed
  show "\<exists>h'. ClearIndex i h = Some (Inr h') \<and> hash_rep hf n h' (remove_key k xs)" if "us = []" "vs = []"
  proof -
    have m: "(\<lambda>c. if c \<in> set [a] then None else ?m c) = ?m(a := None)" by auto
    have "table hf n (?m(a := None)) (ps[i := NIL]) (bs(i := us @ vs)) (remove_key k xs)"
      using that ps tableD(1) [OF t] by (intro table_shrink [OF t i b a]) (auto simp: b)
    then show ?thesis using clear_chain_ok [of h "ps ! i" "[a]"] ch that rep(2) ps unfolding m
      by (auto simp: ClearIndex_def intro!: rep')
  qed
  show "\<exists>h'. drop_after (At (last us)) (At a) h = Inr h' \<and> hash_rep hf n h' (remove_key k xs)" if "us \<noteq> []"
  proof -
    obtain ws c where us: "us = ws @ [c]" using \<open>us \<noteq> []\<close> by (metis append_butlast_last_id)
    have cc: "chain ?m (ps ! i) (ws @ c # a # vs)" using ch us by simp
    note u = chain_unlink [OF cc]
    have "table hf n (unlink ?m c a) ps (bs(i := us @ vs)) (remove_key k xs)"
      using u us tableD(1) [OF t] by (intro table_shrink [OF t i b a]) (auto simp: unlink_def b)
    moreover have "c \<in> set (ws @ c # a # vs)" by simp
    then have "?m c \<noteq> None" by (rule chain_Some [OF cc])
    ultimately show ?thesis using drop_after_ok [OF cc] us rep(2) by (auto simp: unlink_def intro!: rep')
  qed
qed


section \<open>The operations\<close>

lemma hash_Peek_runs:
  assumes "hash_rep hf n h xs" "0 < n"
  shows "Hash_Peek hf n k h = Some (Inr (map_of xs k))"
  using assms(1)
proof (cases rule: rep_cases)
  case (full ps bs)
  have i: "hf k mod n < n" using assms(2) by simp
  show ?thesis using full peek_loop_ok [OF tableD(2) [OF full(2) i], of k] tableD(1,3) [OF full(2)] i assms(2)
    by (simp add: Hash_Peek_def hash_slot_def map_of_slot)
qed (simp add: Hash_Peek_def)

lemma single: "chain m p (a # as) \<Longrightarrow> m a = Some nd \<Longrightarrow> next_in nd = NIL \<longleftrightarrow> as = []"
  by (cases as) auto

lemma hash_Pop_runs:
  assumes "hash_rep hf n h xs" "0 < n" "length xs < 4294967296"
  shows "\<exists>h'. Hash_Pop hf n k h = Some (Inr (map_of xs k, h')) \<and> hash_rep hf n h' (remove_key k xs)"
  using assms(1)
proof (cases rule: rep_cases)
  case empty
  then show ?thesis using assms(1) by (simp add: Hash_Pop_def)
next
  case (full ps bs)
  let ?m = "cells (hnodes h)" and ?i = "hf k mod n"
  have i: "?i < n" using assms(2) by simp
  have ch: "chain ?m (ps ! ?i) (bs ?i)" and cont: "map (pair_at ?m) (bs ?i) = slot hf n ?i xs"
    using tableD(2,3) [OF full(2) i] by simp_all
  have start: "Hash_Pop hf n k h = (if ps ! ?i = NIL then Some (Inr (None, h))
      else mbind (Some (fetch (ps ! ?i) (hnodes h))) (\<lambda>nd.
                if next_in nd = NIL then
                  (if string nd = k then mbind (ClearIndex ?i h) (\<lambda>h1. Some (Inr (Some (hdata nd), h1)))
                   else Some (Inr (None, h)))
                else if string nd = k then
                  mbind (Some (drop_first ?i (ps ! ?i) nd h)) (\<lambda>h1. Some (Inr (Some (hdata nd), h1)))
                else pop_loop k (ps ! ?i) (next_in nd) h))"
    using full i tableD(1) [OF full(2)] assms(2) by (simp add: Hash_Pop_def hash_slot_def)
  show ?thesis
  proof (cases "k \<in> fst ` set (map (pair_at ?m) (bs ?i))")
    case False
    then have "k \<notin> fst ` set xs" unfolding cont keys_slot .
    then have "map_of xs k = None" "remove_key k xs = xs" by (simp_all add: map_of_eq_None_iff remove_key_absent)
    moreover have "Hash_Pop hf n k h = Some (Inr (None, h))"
    proof (cases "bs ?i")
      case (Cons a as)
      then obtain nd where "ps ! ?i = At a" "?m a = Some nd" "chain ?m (next_in nd) as" using ch by auto
      moreover from this have "string nd \<noteq> k" using False Cons by auto
      ultimately show ?thesis using start False Cons pop_loop_miss [of h "next_in nd" as k "At a"] by auto
    qed (use start ch in simp)
    ultimately show ?thesis using assms(1) by simp
  next
    case True
    then obtain us a vs d where f: "bs ?i = us @ a # vs" "pair_at ?m a = (k, d)" "k \<notin> fst ` set (map (pair_at ?m) us)"
        "map_of (map (pair_at ?m) (bs ?i)) k = Some d" by (rule first_key)
    have d: "map_of xs k = Some d" using f(4) unfolding cont map_of_slot .
    note drop = drop_entry [OF assms(1) full i f(1-3) assms(3)]
    show ?thesis
    proof (cases us)
      case Nil
      then have c: "chain ?m (ps ! ?i) (a # vs)" using ch f(1) by simp
      then obtain nd where nd: "?m a = Some nd" "ps ! ?i = At a" by auto
      then have "string nd = k" "hdata nd = d" using f(2) by simp_all
      then show ?thesis using start nd single [OF c nd(1)] drop(1,2) [OF Nil] d by (cases "vs = []") auto
    next
      case (Cons b us')
      then obtain nd where nd: "?m b = Some nd" "ps ! ?i = At b" "chain ?m (next_in nd) (us' @ a # vs)" using ch f(1) by auto
      moreover have "next_in nd \<noteq> NIL" using nd(3) by (cases us') auto
      moreover have "string nd \<noteq> k" using f(3) Cons nd(1) by auto
      moreover have "k \<notin> fst ` set (map (pair_at ?m) us')" using f(3) Cons by simp
      ultimately show ?thesis using start drop(3) pop_loop_hit [OF nd(3) _ f(2), of b] Cons d by auto
    qed
  qed
qed

lemma hash_index_found:
  fixes k :: 'k and hf :: "'k \<Rightarrow> nat"
  assumes "hash_rep hf n h xs" "nodeList h = Arr ps" "table hf n (cells (hnodes h)) ps bs xs" "0 < n" "length xs < 4294967296"
  defines "as \<equiv> map (pair_at (cells (hnodes h))) (bs (hf k mod n))"
  shows "Hash_GetIndexOf hf n k h = Some (Inr (if k \<in> fst ` set xs
    then \<lparr>primaryIndex = hf k mod n, secondaryIndex = length (takeWhile (\<lambda>x. fst x \<noteq> k) as)\<rparr> else invalid_index))"
proof -
  let ?m = "cells (hnodes h)" and ?i = "hf k mod n"
  have i: "?i < n" using assms(4) by simp
  have ch: "chain ?m (ps ! ?i) (bs ?i)" and cont: "as = slot hf n ?i xs"
    using tableD(2,3) [OF assms(3) i] by (simp_all add: as_def)
  have "length (bs ?i) = length as" by (simp add: as_def)
  also have "\<dots> \<le> length xs" by (simp add: cont slot_def)
  finally have len: "length (bs ?i) < 4294967296" using assms(5) by simp
  have start: "Hash_GetIndexOf hf n k h = (if ps ! ?i = NIL then Some (Inr invalid_index)
      else index_loop k \<lparr>primaryIndex = ?i, secondaryIndex = 0\<rparr> (ps ! ?i) (hnodes h))"
    using assms(2,4) i tableD(1) [OF assms(3)] by (simp add: Hash_GetIndexOf_def hash_slot_def)
  have keys: "k \<in> fst ` set as \<longleftrightarrow> k \<in> fst ` set xs" unfolding cont keys_slot ..
  show ?thesis
  proof (cases "bs ?i")
    case Nil
    then show ?thesis using start ch keys by (simp add: as_def)
  next
    case (Cons a bs')
    then have "ps ! ?i \<noteq> NIL" using ch by auto
    then show ?thesis
      using start index_loop_ok [OF ch, of "\<lparr>primaryIndex = ?i, secondaryIndex = 0\<rparr>" k] len keys
      by (simp add: as_def [symmetric])
  qed
qed

lemma hash_Remove_runs:
  assumes "hash_rep hf n h xs" "0 < n" "n < 2147483648" "length xs < 4294967296"
  shows "\<exists>h'. Hash_Remove hf n k h = Some (Inr (k \<in> fst ` set xs, h')) \<and> hash_rep hf n h' (remove_key k xs)"
  using assms(1)
proof (cases rule: rep_cases)
  case empty
  then show ?thesis using assms(1)
    by (simp add: Hash_Remove_def Hash_GetIndexOf_def Hash_RemoveAtIndex_def IsInvalid_def invalid_index_def)
next
  case (full ps bs)
  let ?m = "cells (hnodes h)" and ?i = "hf k mod n"
  have i: "?i < n" using assms(2) by simp
  have ch: "chain ?m (ps ! ?i) (bs ?i)" and cont: "map (pair_at ?m) (bs ?i) = slot hf n ?i xs"
    using tableD(2,3) [OF full(2) i] by simp_all
  note idx = hash_index_found [OF assms(1) full assms(2,4), of k]
  show ?thesis
  proof (cases "k \<in> fst ` set xs")
    case False
    then show ?thesis using idx assms(1)
      by (simp add: Hash_Remove_def Hash_RemoveAtIndex_def IsInvalid_def invalid_index_def remove_key_absent)
  next
    case True
    then have "k \<in> fst ` set (map (pair_at ?m) (bs ?i))" unfolding cont keys_slot .
    then obtain us a vs d where f: "bs ?i = us @ a # vs" "pair_at ?m a = (k, d)" "k \<notin> fst ` set (map (pair_at ?m) us)"
        "length (takeWhile (\<lambda>x. fst x \<noteq> k) (map (pair_at ?m) (bs ?i))) = length us" by (rule first_key)
    have "Hash_Remove hf n k h = Hash_RemoveAtIndex \<lparr>primaryIndex = ?i, secondaryIndex = length us\<rparr> h"
      using idx True f(4) by (simp add: Hash_Remove_def)
    moreover have "\<not> IsInvalid \<lparr>primaryIndex = ?i, secondaryIndex = length us\<rparr>"
      using i assms(3) by (simp add: IsInvalid_def MAX_UNSIGNED_LONG_def)
    moreover have "peek (nodeList h) ?i = Inr (ps ! ?i)" using full i tableD(1) [OF full(2)] by simp
    ultimately have start: "Hash_Remove hf n k h = (if ps ! ?i = NIL then Some (Inr (False, h))
      else mbind (Some (fetch (ps ! ?i) (hnodes h))) (\<lambda>nd.
                if next_in nd = NIL then mbind (ClearIndex ?i h) (\<lambda>h1. Some (Inr (True, h1)))
                else if length us = 0 then
                  mbind (Some (drop_first ?i (ps ! ?i) nd h)) (\<lambda>h1. Some (Inr (True, h1)))
                else mbind (Some (remove_walk (length us - 1) (ps ! ?i) (next_in nd) (hnodes h))) (\<lambda>(prior, node).
                     mbind (Some (drop_after prior node h)) (\<lambda>h1. Some (Inr (True, h1))))))"
      by (simp add: Hash_RemoveAtIndex_def cong: if_cong)
    note drop = drop_entry [OF assms(1) full i f(1-3) assms(4)]
    show ?thesis
    proof (cases us)
      case Nil
      then have c: "chain ?m (ps ! ?i) (a # vs)" using ch f(1) by simp
      then obtain nd where nd: "?m a = Some nd" "ps ! ?i = At a" by auto
      then show ?thesis using start single [OF c nd(1)] drop(1,2) [OF Nil] Nil True by (cases "vs = []") auto
    next
      case (Cons b us')
      then obtain nd where nd: "?m b = Some nd" "ps ! ?i = At b" "chain ?m (next_in nd) (us' @ a # vs)" using ch f(1) by auto
      moreover have "next_in nd \<noteq> NIL" using nd(3) by (cases us') auto
      ultimately show ?thesis using start drop(3) remove_walk_ok [OF nd(3), of b] Cons True by auto
    qed
  qed
qed


lemma clear_slots_ok:
  assumes "nodeList h = Arr ps" "length ps = n" "j \<le> n"
    "\<And>i. j \<le> i \<Longrightarrow> i < n \<Longrightarrow> chain (cells (hnodes h)) (ps ! i) (bs i)"
    "\<And>i i' a. i < n \<Longrightarrow> i' < n \<Longrightarrow> a \<in> set (bs i) \<Longrightarrow> a \<in> set (bs i') \<Longrightarrow> i = i'"
  shows "\<exists>h' ps'. clear_slots [j..<n] h = Some (Inr h') \<and> nodeList h' = Arr ps' \<and> brk (hnodes h') = brk (hnodes h)
    \<and> (\<forall>a. cells (hnodes h') a = (if \<exists>i. j \<le> i \<and> i < n \<and> a \<in> set (bs i) then None else cells (hnodes h) a))"
  using assms
proof (induction "n - j" arbitrary: j h ps)
  case 0
  then show ?case by auto
next
  case (Suc d)
  then have j: "j < n" "[j..<n] = j # [Suc j..<n]" by (auto simp: upt_conv_Cons)
  let ?h = "h\<lparr>nodeList := Arr (ps[j := NIL]), hsize := (dec32 ^^ length (bs j)) (hsize h),
      hnodes := (hnodes h)\<lparr>cells := (\<lambda>c. if c \<in> set (bs j) then None else cells (hnodes h) c)\<rparr>\<rparr>"
  have one: "ClearIndex j h = Some (Inr ?h)"
    using clear_chain_ok [OF Suc.prems(4) [OF order_refl j(1)]] Suc.prems(1,2) j(1) by (simp add: ClearIndex_def)
  have ch: "chain (cells (hnodes ?h)) (ps[j := NIL] ! i) (bs i)" if "Suc j \<le> i" "i < n" for i
  proof -
    have "chain (cells (hnodes h)) (ps ! i) (bs i)" using Suc.prems(4) [of i] that by simp
    then have "chain (cells (hnodes ?h)) (ps ! i) (bs i)"
    proof (rule chain_frame)
      fix a assume "a \<in> set (bs i)"
      then have "a \<notin> set (bs j)" using Suc.prems(5) [of i j a] that j(1) by auto
      then show "cells (hnodes ?h) a = cells (hnodes h) a" by simp
    qed
    then show ?thesis using that by simp
  qed
  have "\<exists>h' ps'. clear_slots [Suc j..<n] ?h = Some (Inr h') \<and> nodeList h' = Arr ps' \<and> brk (hnodes h') = brk (hnodes ?h)
    \<and> (\<forall>a. cells (hnodes h') a = (if \<exists>i. Suc j \<le> i \<and> i < n \<and> a \<in> set (bs i) then None else cells (hnodes ?h) a))"
    by (rule Suc.hyps(1) [of _ ?h "ps[j := NIL]"]) (use Suc.hyps(2) Suc.prems(2,5) j(1) ch in auto)
  then obtain h' ps' where h': "clear_slots [Suc j..<n] ?h = Some (Inr h')" "nodeList h' = Arr ps'" "brk (hnodes h') = brk (hnodes ?h)"
    "\<forall>a. cells (hnodes h') a = (if \<exists>i. Suc j \<le> i \<and> i < n \<and> a \<in> set (bs i) then None else cells (hnodes ?h) a)"
    by (elim exE conjE) (rule that)
  have eq: "(\<exists>i. j \<le> i \<and> i < n \<and> a \<in> set (bs i)) \<longleftrightarrow> a \<in> set (bs j) \<or> (\<exists>i. Suc j \<le> i \<and> i < n \<and> a \<in> set (bs i))" for a
    using j(1) by (metis Suc_le_eq le_less)
  have "cells (hnodes h') a = (if \<exists>i. j \<le> i \<and> i < n \<and> a \<in> set (bs i) then None else cells (hnodes h) a)" for a
    unfolding eq h'(4) [rule_format, of a] by auto
  then show ?case using one h'(1-3) j(2) by simp
qed

lemma hash_Clear_runs:
  assumes "hash_rep hf n h xs"
  shows "\<exists>h'. Hash_Clear n h = Some (Inr h') \<and> hash_rep hf n h' []"
  using assms
proof (cases rule: rep_cases)
  case empty
  then show ?thesis using assms by (simp add: Hash_Clear_def)
next
  case (full ps bs)
  obtain h' ps' where h': "clear_slots [0..<n] h = Some (Inr h')" "nodeList h' = Arr ps'" "brk (hnodes h') = brk (hnodes h)"
      "\<forall>a. cells (hnodes h') a = (if \<exists>i. 0 \<le> i \<and> i < n \<and> a \<in> set (bs i) then None else cells (hnodes h) a)"
    using clear_slots_ok [OF full(1) tableD(1) [OF full(2)], of 0 bs] tableD(2) [OF full(2)] table_apart [OF full(2)] by auto
  moreover have "cells (hnodes h') = (\<lambda>_. None)" using h'(4) tableD(4) [OF full(2)] by (metis le0)
  ultimately show ?thesis using full(1) by (simp add: Hash_Clear_def hash_rep_def)
qed

lemma list_chain_ok:
  assumes "chain (cells s) p as" "rlist_ok il" "rlist_ok kl"
    "length (items il) + length as < 1073741824" "length (items kl) + length as < 1073741824"
  shows "\<exists>il' kl'. list_chain zd zk p s (il, kl) = Some (Inr (il', kl')) \<and> rlist_ok il' \<and> rlist_ok kl'
    \<and> items il' = items il @ map snd (map (pair_at (cells s)) as) \<and> items kl' = items kl @ map fst (map (pair_at (cells s)) as)"
  using assms
proof (induction as arbitrary: p il kl)
  case Nil
  then show ?case by (subst list_chain.simps) simp
next
  case (Cons a as)
  then obtain nd where nd: "p = At a" "cells s a = Some nd" "chain (cells s) (next_in nd) as" by auto
  obtain il1 where il1: "List_Push zd (hdata nd) il = Inr il1" "rlist_ok il1" "items il1 = items il @ [hdata nd]"
    using Insert_runs [OF Cons.prems(2), of zd "hdata nd"] length_items [OF Cons.prems(2)] Cons.prems(4)
    by (auto simp: List_Push_def elim: runs_asE)
  obtain kl1 where kl1: "List_Push zk (string nd) kl = Inr kl1" "rlist_ok kl1" "items kl1 = items kl @ [string nd]"
    using Insert_runs [OF Cons.prems(3), of zk "string nd"] length_items [OF Cons.prems(3)] Cons.prems(5)
    by (auto simp: List_Push_def elim: runs_asE)
  obtain il' kl' where "list_chain zd zk (next_in nd) s (il1, kl1) = Some (Inr (il', kl'))" "rlist_ok il'" "rlist_ok kl'"
    "items il' = items il1 @ map snd (map (pair_at (cells s)) as)" "items kl' = items kl1 @ map fst (map (pair_at (cells s)) as)"
    using Cons.IH [OF nd(3) il1(2) kl1(2)] Cons.prems(4,5) il1(3) kl1(3) by auto
  then show ?case using nd il1 kl1 by (subst list_chain.simps) simp
qed

lemma list_slots_ok:
  assumes "nodeList h = Arr ps" "\<And>i. i \<in> set is \<Longrightarrow> i < length ps \<and> chain (cells (hnodes h)) (ps ! i) (bs i)"
    "rlist_ok il" "rlist_ok kl"
    "length (items il) + length (concat (map bs is)) < 1073741824" "length (items kl) + length (concat (map bs is)) < 1073741824"
  defines "es \<equiv> map (pair_at (cells (hnodes h))) (concat (map bs is))"
  shows "\<exists>il' kl'. list_slots zd zk is h (il, kl) = Some (Inr (il', kl')) \<and> rlist_ok il' \<and> rlist_ok kl'
    \<and> items il' = items il @ map snd es \<and> items kl' = items kl @ map fst es"
  using assms(2-6) unfolding es_def
proof (induction "is" arbitrary: il kl)
  case (Cons i "is")
  obtain il1 kl1 where "list_chain zd zk (ps ! i) (hnodes h) (il, kl) = Some (Inr (il1, kl1))" "rlist_ok il1" "rlist_ok kl1"
      "items il1 = items il @ map snd (map (pair_at (cells (hnodes h))) (bs i))"
      "items kl1 = items kl @ map fst (map (pair_at (cells (hnodes h))) (bs i))"
    using list_chain_ok [of "hnodes h" "ps ! i" "bs i" il kl zd zk] Cons.prems by auto
  moreover from this obtain il' kl' where "list_slots zd zk is h (il1, kl1) = Some (Inr (il', kl'))" "rlist_ok il'" "rlist_ok kl'"
      "items il' = items il1 @ map snd (map (pair_at (cells (hnodes h))) (concat (map bs is)))"
      "items kl' = items kl1 @ map fst (map (pair_at (cells (hnodes h))) (concat (map bs is)))"
    using Cons.IH [of il1 kl1] Cons.prems by auto
  ultimately show ?case using Cons.prems(1) [of i] assms(1) by simp
qed simp

lemma slots_partition: "mset (concat (map (\<lambda>i. slot hf n i xs) [0..<n])) = mset xs" if "0 < n"
proof (induction xs)
  case Nil
  then show ?case by (simp add: slot_def)
next
  case (Cons x xs)
  let ?i = "hf (fst x) mod n"
  have "mset (concat (map (\<lambda>i. slot hf n i (x # xs)) js))
      = (if ?i \<in> set js then {#x#} else {#}) + mset (concat (map (\<lambda>i. slot hf n i xs) js))" if "distinct js" for js
    using that by (induction js) (auto simp: slot_def)
  from this [of "[0..<n]"] show ?case using Cons \<open>0 < n\<close> by simp
qed

lemma GetAsList_ok:
  assumes "hash_rep hf n h xs" "0 < n" "length xs < 1073741824" "rlist_ok il" "rlist_ok kl" "xs \<noteq> []"
  shows "\<exists>il' kl'. GetAsList zd zk n h (il, kl) = Some (Inr (il', kl')) \<and> rlist_ok il' \<and> rlist_ok kl'
    \<and> length (items il') = length (items kl') \<and> mset (zip (items kl') (items il')) = mset xs"
  using assms(1)
proof (cases rule: rep_cases)
  case (full ps bs)
  obtain il0 where il0: "List_Clear False il = Inr il0" "rlist_ok il0" "items il0 = []"
    using Clear_runs [OF assms(4), of False] by (auto elim: runs_asE)
  obtain kl0 where kl0: "List_Clear False kl = Inr kl0" "rlist_ok kl0" "items kl0 = []"
    using Clear_runs [OF assms(5), of False] by (auto elim: runs_asE)
  define es where "es = map (pair_at (cells (hnodes h))) (concat (map bs [0..<n]))"
  have "map (map (pair_at (cells (hnodes h)))) (map bs [0..<n]) = map (\<lambda>i. slot hf n i xs) [0..<n]"
    using tableD(3) [OF full(2)] by simp
  then have "es = concat (map (\<lambda>i. slot hf n i xs) [0..<n])" unfolding es_def map_concat by (simp only:)
  then have es: "mset es = mset xs" using slots_partition [OF assms(2)] by simp
  then have len: "length es = length xs" by (rule mset_eq_length)
  have bs: "i < length ps \<and> chain (cells (hnodes h)) (ps ! i) (bs i)" if "i \<in> set [0..<n]" for i
    using tableD(1,2) [OF full(2)] that by simp
  have "length (concat (map bs [0..<n])) < 1073741824" using len assms(3) by (simp add: es_def)
  then obtain il' kl' where "list_slots zd zk [0..<n] h (il0, kl0) = Some (Inr (il', kl'))" "rlist_ok il'" "rlist_ok kl'"
      "items il' = map snd es" "items kl' = map fst es"
    using list_slots_ok [where zd = zd and zk = zk, OF full(1) bs il0(2) kl0(2)] unfolding il0(3) kl0(3) es_def by fastforce
  then show ?thesis using full(1) il0(1) kl0(1) es by (simp add: GetAsList_def zip_map_fst_snd)
qed (use assms(6) in simp)


lemma index_reads:
  assumes "hash_rep hf n h xs" "0 < n" "n < 2147483648" "length xs < 4294967296"
  shows "Hash_HasData hf n k h = Some (Inr (k \<in> fst ` set xs))"
    "map_of xs k = Some d \<Longrightarrow> \<exists>idx. Hash_GetIndexOf hf n k h = Some (Inr idx) \<and> KeyAtIndex idx h = Inr k \<and> ItemAtIndex idx h = Inr d"
proof -
  have "Hash_HasData hf n k h = Some (Inr (k \<in> fst ` set xs))
    \<and> (map_of xs k = Some d \<longrightarrow> (\<exists>idx. Hash_GetIndexOf hf n k h = Some (Inr idx) \<and> KeyAtIndex idx h = Inr k \<and> ItemAtIndex idx h = Inr d))"
    using assms(1)
  proof (cases rule: rep_cases)
    case empty
    then show ?thesis by (simp add: Hash_HasData_def Hash_GetIndexOf_def IsInvalid_def invalid_index_def)
  next
    case (full ps bs)
    let ?m = "cells (hnodes h)" and ?i = "hf k mod n"
    have i: "?i < n" "?i \<noteq> MAX_UNSIGNED_LONG" using assms(2,3) mod_less_divisor [OF assms(2), of "hf k"]
      by (auto simp: MAX_UNSIGNED_LONG_def simp del: mod_less_divisor)
    note idx = hash_index_found [OF assms(1) full assms(2,4), of k]
    have "\<exists>idx. Hash_GetIndexOf hf n k h = Some (Inr idx) \<and> KeyAtIndex idx h = Inr k \<and> ItemAtIndex idx h = Inr d"
      if d: "map_of xs k = Some d"
    proof -
      have k: "k \<in> fst ` set xs" using d by (metis map_of_eq_None_iff option.distinct(1))
      have cont: "map (pair_at ?m) (bs ?i) = slot hf n ?i xs" by (rule tableD(3) [OF full(2) i(1)])
      have "k \<in> fst ` set (map (pair_at ?m) (bs ?i))" using k unfolding cont keys_slot .
      then obtain us a vs e where f: "bs ?i = us @ a # vs" "pair_at ?m a = (k, e)" "map_of (map (pair_at ?m) (bs ?i)) k = Some e"
          "length (takeWhile (\<lambda>x. fst x \<noteq> k) (map (pair_at ?m) (bs ?i))) = length us" by (rule first_key)
      have e: "e = d" using f(3) d unfolding cont map_of_slot by simp
      have ch: "chain ?m (ps ! ?i) (us @ a # vs)" using tableD(2) [OF full(2) i(1)] f(1) by simp
      then obtain nd where "?m a = Some nd" using chain_Some by fastforce
      then have "node_at \<lparr>primaryIndex = ?i, secondaryIndex = length us\<rparr> h = Inr nd" "string nd = k" "hdata nd = d"
        using node_walk_ok [OF ch] full i(1) tableD(1) [OF full(2)] f(2) e by (simp_all add: node_at_def)
      then show ?thesis using idx k f(4) by (simp add: KeyAtIndex_def ItemAtIndex_def)
    qed
    then show ?thesis using idx i(2) by (simp add: Hash_HasData_def IsInvalid_def invalid_index_def)
  qed
  then show "Hash_HasData hf n k h = Some (Inr (k \<in> fst ` set xs))"
    "map_of xs k = Some d \<Longrightarrow> \<exists>idx. Hash_GetIndexOf hf n k h = Some (Inr idx) \<and> KeyAtIndex idx h = Inr k \<and> ItemAtIndex idx h = Inr d"
    by blast+
qed

lemma no_node_lost:
  assumes "hash_rep hf n h xs" "0 < n"
  shows "card {a. cells (hnodes h) a \<noteq> None} = length xs"
  using assms(1)
proof (cases rule: rep_cases)
  case empty
  then show ?thesis using assms(1) by (simp add: hash_rep_def)
next
  case (full ps bs)
  let ?m = "cells (hnodes h)"
  have "{a. ?m a \<noteq> None} = (\<Union>i \<in> {0..<n}. set (bs i))"
    using tableD(4) [OF full(2)] chain_Some [OF tableD(2) [OF full(2)]] by (auto simp: atLeast0LessThan) blast
  moreover have "card (\<Union>i \<in> {0..<n}. set (bs i)) = (\<Sum>i \<in> {0..<n}. card (set (bs i)))"
    using table_apart [OF full(2)] by (intro card_UN_disjoint) auto
  moreover have "card (set (bs i)) = length (slot hf n i xs)" if "i \<in> {0..<n}" for i
    using distinct_card [OF chain_distinct [OF tableD(2) [OF full(2)]]] that arg_cong [OF tableD(3) [OF full(2)], of i length]
    by (simp add: atLeast0LessThan)
  moreover have "(\<Sum>i \<in> {0..<n}. length (slot hf n i xs)) = length xs"
  proof -
    have "length (concat (map (\<lambda>i. slot hf n i xs) [0..<n])) = length xs"
      using mset_eq_length [OF slots_partition [OF assms(2), of hf xs]] .
    then show ?thesis by (simp add: length_concat interv_sum_list_conv_sum_set_nat comp_def)
  qed
  ultimately show ?thesis by simp
qed

section \<open>Properties\<close>

datatype ('k, 'd) hash_op = HPush 'k 'd | HPop 'k | HRemove 'k | HClear

datatype 'd hash_reply = HDone | HPopped "'d option" | HRemoved bool

fun run_hash :: "('k \<Rightarrow> nat) \<Rightarrow> nat \<Rightarrow> ('k, 'd) hash_op \<Rightarrow> ('k, 'd) rhash \<Rightarrow> ('d hash_reply \<times> ('k, 'd) rhash) run" where
  "run_hash hf n (HPush k d) h = mbind (Some (Hash_Push hf n k d h)) (\<lambda>h1. Some (Inr (HDone, h1)))"
| "run_hash hf n (HPop k) h = mbind (Hash_Pop hf n k h) (\<lambda>(r, h1). Some (Inr (HPopped r, h1)))"
| "run_hash hf n (HRemove k) h = mbind (Hash_Remove hf n k h) (\<lambda>(b, h1). Some (Inr (HRemoved b, h1)))"
| "run_hash hf n HClear h = mbind (Hash_Clear n h) (\<lambda>h1. Some (Inr (HDone, h1)))"

fun hash_spec :: "('k, 'd) hash_op \<Rightarrow> ('k \<times> 'd) list \<Rightarrow> 'd hash_reply \<times> ('k \<times> 'd) list" where
  "hash_spec (HPush k d) xs = (HDone, (k, d) # xs)"
| "hash_spec (HPop k) xs = (HPopped (map_of xs k), remove_key k xs)"
| "hash_spec (HRemove k) xs = (HRemoved (k \<in> fst ` set xs), remove_key k xs)"
| "hash_spec HClear xs = (HDone, [])"

fun run_hashes :: "('k \<Rightarrow> nat) \<Rightarrow> nat \<Rightarrow> ('k, 'd) hash_op list \<Rightarrow> ('k, 'd) rhash \<Rightarrow> ('d hash_reply list \<times> ('k, 'd) rhash) run" where
  "run_hashes hf n [] h = Some (Inr ([], h))"
| "run_hashes hf n (op # ops) h =
     mbind (run_hash hf n op h) (\<lambda>(r, h1). mbind (run_hashes hf n ops h1) (\<lambda>(rs, h2). Some (Inr (r # rs, h2))))"

fun hash_specs :: "('k, 'd) hash_op list \<Rightarrow> ('k \<times> 'd) list \<Rightarrow> 'd hash_reply list \<times> ('k \<times> 'd) list" where
  "hash_specs [] xs = ([], xs)"
| "hash_specs (op # ops) xs = (let (r, ys) = hash_spec op xs; (rs, zs) = hash_specs ops ys in (r # rs, zs))"

lemma remove_key_le: "length (remove_key k xs) \<le> length xs"
  by (induction xs) auto

lemma hash_op_ok:
  assumes "hash_rep hf n h xs" "0 < n" "n < 2147483648" "length xs < 1073741824"
  shows "\<exists>h'. run_hash hf n op h = Some (Inr (fst (hash_spec op xs), h')) \<and> hash_rep hf n h' (snd (hash_spec op xs))
    \<and> length (snd (hash_spec op xs)) \<le> Suc (length xs)"
proof (cases op)
  case (HPush k d)
  then show ?thesis using hash_Push_runs [OF assms(1-3), of k d] assms(4) by auto
next
  case (HPop k)
  then show ?thesis using hash_Pop_runs [OF assms(1,2), of k] assms(4) remove_key_le [of k xs] by (auto intro: le_SucI)
next
  case (HRemove k)
  then show ?thesis using hash_Remove_runs [OF assms(1-3), of k] assms(4) remove_key_le [of k xs] by (auto intro: le_SucI)
next
  case HClear
  then show ?thesis using hash_Clear_runs [OF assms(1)] by auto
qed

lemma hash_ops_ok:
  assumes "hash_rep hf n h xs" "0 < n" "n < 2147483648" "length xs + length ops < 1073741824"
  shows "\<exists>h'. run_hashes hf n ops h = Some (Inr (fst (hash_specs ops xs), h')) \<and> hash_rep hf n h' (snd (hash_specs ops xs))
    \<and> length (snd (hash_specs ops xs)) < 1073741824"
  using assms
proof (induction ops arbitrary: h xs)
  case (Cons op ops)
  obtain h1 where h1: "run_hash hf n op h = Some (Inr (fst (hash_spec op xs), h1))" "hash_rep hf n h1 (snd (hash_spec op xs))"
      "length (snd (hash_spec op xs)) \<le> Suc (length xs)"
    using hash_op_ok [OF Cons.prems(1-3), of op] Cons.prems(4) by auto
  then obtain h2 where "run_hashes hf n ops h1 = Some (Inr (fst (hash_specs ops (snd (hash_spec op xs))), h2))"
      "hash_rep hf n h2 (snd (hash_specs ops (snd (hash_spec op xs))))"
      "length (snd (hash_specs ops (snd (hash_spec op xs)))) < 1073741824"
    using Cons.IH [OF h1(2) assms(2,3)] Cons.prems(4) by auto
  then show ?case using h1(1) by (auto simp: Let_def split: prod.splits)
qed auto

text \<open>C40: whatever the hash function and the number of chains, a \<open>Hash\<close> is a list of entries, the newest first: after any
  fewer than \<open>2^30\<close> insertions, removals and clearings every one of them has returned, without a fault and with the
  answer the list gives; \<open>Peek\<close> finds the newest entry of a key, \<open>HasData\<close> says if there is one, the index that
  \<open>GetIndexOf\<close> gives leads to it, \<open>Size\<close> counts the entries, there is a node for each and no other one is left on
  the heap, and \<open>GetAsList\<close> returns them all.\<close>

theorem hash_refines:
  assumes "0 < n" "n < 2147483648" "length ops < 1073741824"
  shows "\<exists>h. run_hashes hf n ops Hash_new = Some (Inr (fst (hash_specs ops []), h))
    \<and> (let xs = snd (hash_specs ops []) in
        Hash_Size h = length xs \<and> card {a. cells (hnodes h) a \<noteq> None} = length xs
      \<and> (\<forall>k. Hash_Peek hf n k h = Some (Inr (map_of xs k)))
      \<and> (\<forall>k. Hash_HasData hf n k h = Some (Inr (k \<in> fst ` set xs)))
      \<and> (\<forall>k d. map_of xs k = Some d \<longrightarrow>
           (\<exists>idx. Hash_GetIndexOf hf n k h = Some (Inr idx) \<and> KeyAtIndex idx h = Inr k \<and> ItemAtIndex idx h = Inr d))
      \<and> (xs \<noteq> [] \<longrightarrow> (\<forall>zd zk. \<exists>il kl. GetAsList zd zk n h (List_new, List_new) = Some (Inr (il, kl))
           \<and> length (items il) = length (items kl) \<and> mset (zip (items kl) (items il)) = mset xs)))"
proof -
  obtain h where h: "run_hashes hf n ops Hash_new = Some (Inr (fst (hash_specs ops []), h))"
      "hash_rep hf n h (snd (hash_specs ops []))" "length (snd (hash_specs ops [])) < 1073741824"
    using hash_ops_ok [OF rep_new assms(1,2), of ops] assms(3) by auto
  define xs where "xs = snd (hash_specs ops [])"
  have rep: "hash_rep hf n h xs" and len: "length xs < 1073741824" using h(2,3) by (simp_all add: xs_def)
  have "Hash_Size h = length xs" using rep by (simp add: hash_rep_def Hash_Size_def)
  moreover note no_node_lost [OF rep assms(1)] hash_Peek_runs [OF rep assms(1)] index_reads [OF rep assms(1,2)]
  moreover have "\<exists>il kl. GetAsList zd zk n h (List_new, List_new) = Some (Inr (il, kl))
           \<and> length (items il) = length (items kl) \<and> mset (zip (items kl) (items il)) = mset xs" if "xs \<noteq> []" for zd zk
    using GetAsList_ok [OF rep assms(1) len List_new_ok(1) List_new_ok(1) that] by blast
  ultimately show ?thesis using h(1) len unfolding xs_def [symmetric] Let_def by (intro exI [of _ h] conjI allI impI) simp_all
qed

theorem hash_refines_witness:
  "\<exists>h. run_hashes (\<lambda>k. k) 4 [HPush 1 10, HPush 5 50, HPush 1 11, HPop 5, HPop 9, HPush 9 90, HRemove 1] Hash_new
       = Some (Inr ([HDone, HDone, HDone, HPopped (Some 50), HPopped None, HDone, HRemoved True], h))
     \<and> Hash_Size h = 2 \<and> Hash_Peek (\<lambda>k. k) 4 1 h = Some (Inr (Some (10 :: nat)))"
proof -
  let ?ops = "[HPush 1 10, HPush 5 50, HPush 1 11, HPop 5, HPop 9, HPush 9 90, HRemove 1] :: (nat, nat) hash_op list"
  have "hash_specs ?ops [] = ([HDone, HDone, HDone, HPopped (Some 50), HPopped None, HDone, HRemoved True], [(9, 90), (1, 10)])"
    by simp
  then show ?thesis using hash_refines [of 4 ?ops "\<lambda>k. k"] by (auto simp: Let_def)
qed

end
