(* ===== verification/RakPipe.thy ===== *)
theory RakPipe
  imports RakNodes
begin

text \<open>
  \<open>DataStructures::SingleProducerConsumer\<close> of RakNet (\<^verbatim>\<open>SingleProducerConsumer.h\<close>): a circle of nodes through which
  one thread hands data to another without a lock. The operations are cut into the statements that read or write
  what both threads see, and \<open>writer_step\<close> and \<open>reader_step\<close> run one of them at a time, so that a schedule may
  interleave them in any way; memory is sequentially consistent, as the code expects of \<^verbatim>\<open>volatile\<close>. Release build:
  the assertions are empty.
\<close>

section \<open>Code\<close>

record 'a pipe_node =
  object :: 'a
  readyToRead :: bool
  pipe_next :: link

record 'a pipe =
  pipe_nodes :: "'a pipe_node store"
  readAheadPointer :: link
  writeAheadPointer :: link
  readPointer :: link
  writePointer :: link
  readCount :: nat
  writeCount :: nat

definition MINIMUM_LIST_SIZE :: nat where "MINIMUM_LIST_SIZE = 8"

text \<open>A new node: the constructor sets the flag only; \<open>z\<close> is a default constructed object.\<close>

definition DataPlusPtr :: "'a \<Rightarrow> 'a pipe_node" where
  "DataPlusPtr z = \<lparr>object = z, readyToRead = False, pipe_next = WILD\<rparr>"

definition next_of :: "link \<Rightarrow> 'a pipe \<Rightarrow> link res" where
  "next_of p s = rbind (fetch p (pipe_nodes s)) (\<lambda>n. Inr (pipe_next n))"

definition set_next :: "link \<Rightarrow> link \<Rightarrow> 'a pipe \<Rightarrow> 'a pipe res" where
  "set_next p q s = rbind (modify p (\<lambda>n. n\<lparr>pipe_next := q\<rparr>) (pipe_nodes s)) (\<lambda>t. Inr (s\<lparr>pipe_nodes := t\<rparr>))"

definition is_ready :: "link \<Rightarrow> 'a pipe \<Rightarrow> bool res" where
  "is_ready p s = rbind (fetch p (pipe_nodes s)) (\<lambda>n. Inr (readyToRead n))"

definition set_ready :: "link \<Rightarrow> bool \<Rightarrow> 'a pipe \<Rightarrow> 'a pipe res" where
  "set_ready p b s = rbind (modify p (\<lambda>n. n\<lparr>readyToRead := b\<rparr>) (pipe_nodes s)) (\<lambda>t. Inr (s\<lparr>pipe_nodes := t\<rparr>))"

definition new_after :: "'a \<Rightarrow> link \<Rightarrow> 'a pipe \<Rightarrow> (link \<times> 'a pipe) res" where
  "new_after z p s =
     (let (a, t) = OP_NEW (DataPlusPtr z) (pipe_nodes s)
      in rbind (set_next p (At a) (s\<lparr>pipe_nodes := t\<rparr>)) (\<lambda>s'. Inr (At a, s')))"

subsection \<open>The writing thread\<close>

text \<open>\<open>writeAheadPointer->next==readPointer\<close>, and then \<open>writeAheadPointer->next->readyToRead==true\<close>.\<close>

definition next_is_read :: "'a pipe \<Rightarrow> bool res" where
  "next_is_read s = rbind (next_of (writeAheadPointer s) s) (\<lambda>p. Inr (p = readPointer s))"

definition next_is_ready :: "'a pipe \<Rightarrow> bool res" where
  "next_is_ready s = rbind (next_of (writeAheadPointer s) s) (\<lambda>p. is_ready p s)"

definition grow :: "'a \<Rightarrow> 'a pipe \<Rightarrow> (link \<times> 'a pipe) res" where
  "grow z s =
     rbind (next_of (writeAheadPointer s) s) (\<lambda>originalNext.
     rbind (new_after z (writeAheadPointer s) s) (\<lambda>(_, s').
     Inr (originalNext, s')))"

definition grow_link :: "link \<Rightarrow> 'a pipe \<Rightarrow> 'a pipe res" where
  "grow_link originalNext s = rbind (next_of (writeAheadPointer s) s) (\<lambda>p. set_next p originalNext s)"

definition write_advance :: "'a pipe \<Rightarrow> (link \<times> 'a pipe) res" where
  "write_advance s =
     (let prior = writeAheadPointer s
      in rbind (next_of (writeAheadPointer s) s) (\<lambda>p. Inr (prior, s\<lparr>writeAheadPointer := p\<rparr>)))"

definition WriteLock :: "'a \<Rightarrow> 'a pipe \<Rightarrow> (link \<times> 'a pipe) res" where
  "WriteLock z s =
     rbind (rbind (next_is_read s) (\<lambda>b. if b then Inr True else next_is_ready s)) (\<lambda>full.
     rbind (if full then rbind (grow z s) (\<lambda>(originalNext, s'). grow_link originalNext s') else Inr s) write_advance)"

definition CancelWriteLock :: "link \<Rightarrow> 'a pipe \<Rightarrow> 'a pipe" where
  "CancelWriteLock cancelToLocation s = s\<lparr>writeAheadPointer := cancelToLocation\<rparr>"

definition write_flag :: "'a pipe \<Rightarrow> 'a pipe res" where
  "write_flag s = set_ready (writePointer s) True (s\<lparr>writeCount := w32 (writeCount s + 1)\<rparr>)"

definition write_pass :: "'a pipe \<Rightarrow> 'a pipe res" where
  "write_pass s = rbind (next_of (writePointer s) s) (\<lambda>p. Inr (s\<lparr>writePointer := p\<rparr>))"

definition WriteUnlock :: "'a pipe \<Rightarrow> 'a pipe res" where
  "WriteUnlock s = rbind (write_flag s) write_pass"

subsection \<open>The reading thread\<close>

definition read_at_end :: "'a pipe \<Rightarrow> bool" where
  "read_at_end s \<longleftrightarrow> readAheadPointer s = writePointer s"

definition read_not_ready :: "'a pipe \<Rightarrow> bool res" where
  "read_not_ready s = rbind (is_ready (readAheadPointer s) s) (\<lambda>b. Inr (\<not> b))"

definition read_advance :: "'a pipe \<Rightarrow> (link \<times> 'a pipe) res" where
  "read_advance s =
     (let prior = readAheadPointer s
      in rbind (next_of (readAheadPointer s) s) (\<lambda>p. Inr (prior, s\<lparr>readAheadPointer := p\<rparr>)))"

definition ReadLock :: "'a pipe \<Rightarrow> (link \<times> 'a pipe) res" where
  "ReadLock s =
     rbind (if read_at_end s then Inr True else read_not_ready s) (\<lambda>none.
     if none then Inr (NIL, s) else read_advance s)"

definition CancelReadLock :: "link \<Rightarrow> 'a pipe \<Rightarrow> 'a pipe" where
  "CancelReadLock cancelToLocation s = s\<lparr>readAheadPointer := cancelToLocation\<rparr>"

definition read_unflag :: "'a pipe \<Rightarrow> 'a pipe res" where
  "read_unflag s = set_ready (readPointer s) False (s\<lparr>readCount := w32 (readCount s + 1)\<rparr>)"

definition read_pass :: "'a pipe \<Rightarrow> 'a pipe res" where
  "read_pass s = rbind (next_of (readPointer s) s) (\<lambda>p. Inr (s\<lparr>readPointer := p\<rparr>))"

definition ReadUnlock :: "'a pipe \<Rightarrow> 'a pipe res" where
  "ReadUnlock s = rbind (read_unflag s) read_pass"

definition CheckReadUnlockOrder :: "link \<Rightarrow> 'a pipe \<Rightarrow> bool" where
  "CheckReadUnlockOrder data s \<longleftrightarrow> readPointer s = data"

definition ReadIsLocked :: "'a pipe \<Rightarrow> bool" where
  "ReadIsLocked s \<longleftrightarrow> readAheadPointer s \<noteq> readPointer s"

text \<open>The difference of two \<open>unsigned\<close> returned as an \<open>int\<close>.\<close>

definition pipe_Size :: "'a pipe \<Rightarrow> int" where
  "pipe_Size s = (let d = int (sub32 (writeCount s) (readCount s)) in if d < 2147483648 then d else d - 4294967296)"

subsection \<open>Beginning and end\<close>

fun build_loop :: "'a \<Rightarrow> nat \<Rightarrow> 'a pipe \<Rightarrow> 'a pipe res" where
  "build_loop z 0 s = Inr s"
| "build_loop z (Suc k) s =
     rbind (read_pass s) (\<lambda>s1.
     rbind (new_after z (readPointer s1) s1) (\<lambda>(_, s2). build_loop z k s2))"

definition pipe_new :: "'a \<Rightarrow> 'a pipe res" where
  "pipe_new z =
     (let (a, t) = OP_NEW (DataPlusPtr z) empty_store;
          s = \<lparr>pipe_nodes = t, readAheadPointer = WILD, writeAheadPointer = WILD, readPointer = At a, writePointer = At a,
            readCount = 0, writeCount = 0\<rparr>
      in rbind (new_after z (readPointer s) s) (\<lambda>(_, s1).
         rbind (build_loop z (MINIMUM_LIST_SIZE - 2) s1) (\<lambda>s2.
         rbind (next_of (readPointer s2) s2) (\<lambda>end_node.
         rbind (set_next end_node (writePointer s2) s2) (\<lambda>s3.
         Inr (s3\<lparr>readPointer := writePointer s3, readAheadPointer := writePointer s3,
           writeAheadPointer := writePointer s3\<rparr>))))))"

partial_function (option) free_loop :: "'a pipe \<Rightarrow> 'a pipe run" where
  "free_loop s =
     (if readPointer s \<noteq> writeAheadPointer s then
        mbind (Some (next_of (readPointer s) s)) (\<lambda>next.
        mbind (Some (OP_DELETE (readPointer s) (pipe_nodes s))) (\<lambda>t.
        free_loop (s\<lparr>pipe_nodes := t, readPointer := next\<rparr>)))
      else Some (Inr s))"

definition pipe_destroy :: "'a pipe \<Rightarrow> 'a pipe_node store run" where
  "pipe_destroy s =
     mbind (Some (next_of (writeAheadPointer s) s)) (\<lambda>p.
     mbind (free_loop (s\<lparr>readPointer := p\<rparr>)) (\<lambda>s1.
     Some (OP_DELETE (readPointer s1) (pipe_nodes s1))))"

partial_function (option) count_loop :: "nat \<Rightarrow> link \<Rightarrow> 'a pipe \<Rightarrow> nat run" where
  "count_loop listSize p s =
     (if p \<noteq> readPointer s then mbind (Some (next_of p s)) (\<lambda>q. count_loop (Suc listSize) q s)
      else Some (Inr listSize))"

fun shrink_loop :: "nat \<Rightarrow> 'a pipe \<Rightarrow> 'a pipe res" where
  "shrink_loop 0 s = Inr s"
| "shrink_loop (Suc k) s =
     rbind (next_of (writePointer s) s) (\<lambda>next.
     rbind (OP_DELETE (writePointer s) (pipe_nodes s)) (\<lambda>t.
     shrink_loop k (s\<lparr>pipe_nodes := t, writePointer := next\<rparr>)))"

text \<open>The loop runs \<open>listSize - MINIMUM_LIST_SIZE\<close> times.\<close>

definition pipe_Clear :: "'a pipe \<Rightarrow> 'a pipe run" where
  "pipe_Clear s =
     mbind (Some (next_of (readPointer s) s)) (\<lambda>p.
     let s1 = s\<lparr>writePointer := p\<rparr>
     in mbind (count_loop 1 p s1) (\<lambda>listSize.
        mbind (Some (shrink_loop (listSize - MINIMUM_LIST_SIZE) s1)) (\<lambda>s2.
        mbind (Some (set_next (readPointer s2) (writePointer s2) s2)) (\<lambda>s3.
        Some (Inr (s3\<lparr>writePointer := readPointer s3, readAheadPointer := readPointer s3,
          writeAheadPointer := readPointer s3, readCount := 0, writeCount := 0\<rparr>))))))"

section \<open>Two threads\<close>

text \<open>
  What the threads may ask for, where they are in an operation, and the blocks each has got from its locks, the
  oldest first. A thread in the middle of an operation goes on with it and leaves its request for later. It unlocks, cancels,
  reads and writes only what it holds.
\<close>

datatype 'a write_ask = AskWriteLock | AskStore nat 'a | AskWriteUnlock | AskCancelWrite nat

datatype read_ask = AskReadLock | AskLook nat | AskReadUnlock | AskCancelRead nat

datatype 'a turn = Writer "'a write_ask" | Reader read_ask | ClearAll

datatype write_at = WIdle | WTest | WGrow | WLink link | WAdvance | WFlagged

datatype read_at = RIdle | RTest | RAdvance | RCleared

record 'a threads =
  pipe :: "'a pipe"
  w_at :: write_at
  w_held :: "link list"
  r_at :: read_at
  r_held :: "link list"

text \<open>What an observer notes, with the data concerned.\<close>

datatype 'a remark = Silent | WriteLocked 'a | Stored nat 'a | Published 'a | WriteCancelled nat
  | Nothing | Taken 'a | Seen nat 'a | Released 'a | ReadCancelled nat | Cleared

definition data_at :: "link \<Rightarrow> 'a pipe \<Rightarrow> 'a res" where
  "data_at p s = rbind (fetch p (pipe_nodes s)) (\<lambda>n. Inr (object n))"

definition store_at :: "link \<Rightarrow> 'a \<Rightarrow> 'a pipe \<Rightarrow> 'a pipe res" where
  "store_at p d s = rbind (modify p (\<lambda>n. n\<lparr>object := d\<rparr>) (pipe_nodes s)) (\<lambda>t. Inr (s\<lparr>pipe_nodes := t\<rparr>))"

fun write_begin :: "'a write_ask \<Rightarrow> 'a threads \<Rightarrow> ('a remark \<times> 'a threads) res" where
  "write_begin AskWriteLock y =
     rbind (next_is_read (pipe y)) (\<lambda>b. Inr (Silent, y\<lparr>w_at := if b then WGrow else WTest\<rparr>))"
| "write_begin (AskStore k d) y =
     (if k < length (w_held y) then rbind (store_at (w_held y ! k) d (pipe y)) (\<lambda>s. Inr (Stored k d, y\<lparr>pipe := s\<rparr>))
      else Inr (Silent, y))"
| "write_begin AskWriteUnlock y =
     (if w_held y \<noteq> [] then rbind (write_flag (pipe y)) (\<lambda>s. Inr (Silent, y\<lparr>pipe := s, w_at := WFlagged\<rparr>))
      else Inr (Silent, y))"
| "write_begin (AskCancelWrite k) y =
     (if k < length (w_held y) then
        Inr (WriteCancelled k, y\<lparr>pipe := CancelWriteLock (w_held y ! k) (pipe y), w_held := take k (w_held y)\<rparr>)
      else Inr (Silent, y))"

definition writer_step :: "'a \<Rightarrow> 'a write_ask \<Rightarrow> 'a threads \<Rightarrow> ('a remark \<times> 'a threads) res" where
  "writer_step z ask y =
     (case w_at y of
        WIdle \<Rightarrow> write_begin ask y
      | WTest \<Rightarrow> rbind (next_is_ready (pipe y)) (\<lambda>b. Inr (Silent, y\<lparr>w_at := if b then WGrow else WAdvance\<rparr>))
      | WGrow \<Rightarrow> rbind (grow z (pipe y)) (\<lambda>(orig, s). Inr (Silent, y\<lparr>pipe := s, w_at := WLink orig\<rparr>))
      | WLink orig \<Rightarrow> rbind (grow_link orig (pipe y)) (\<lambda>s. Inr (Silent, y\<lparr>pipe := s, w_at := WAdvance\<rparr>))
      | WAdvance \<Rightarrow>
          rbind (write_advance (pipe y)) (\<lambda>(p, s).
          rbind (data_at p s) (\<lambda>d.
          Inr (WriteLocked d, y\<lparr>pipe := s, w_at := WIdle, w_held := w_held y @ [p]\<rparr>)))
      | WFlagged \<Rightarrow>
          rbind (data_at (writePointer (pipe y)) (pipe y)) (\<lambda>d.
          rbind (write_pass (pipe y)) (\<lambda>s.
          Inr (Published d, y\<lparr>pipe := s, w_at := WIdle, w_held := tl (w_held y)\<rparr>))))"

fun read_begin :: "read_ask \<Rightarrow> 'a threads \<Rightarrow> ('a remark \<times> 'a threads) res" where
  "read_begin AskReadLock y =
     (if read_at_end (pipe y) then Inr (Nothing, y) else Inr (Silent, y\<lparr>r_at := RTest\<rparr>))"
| "read_begin (AskLook k) y =
     (if k < length (r_held y) then rbind (data_at (r_held y ! k) (pipe y)) (\<lambda>d. Inr (Seen k d, y))
      else Inr (Silent, y))"
| "read_begin AskReadUnlock y =
     (if r_held y \<noteq> [] then rbind (read_unflag (pipe y)) (\<lambda>s. Inr (Silent, y\<lparr>pipe := s, r_at := RCleared\<rparr>))
      else Inr (Silent, y))"
| "read_begin (AskCancelRead k) y =
     (if k < length (r_held y) then
        Inr (ReadCancelled k, y\<lparr>pipe := CancelReadLock (r_held y ! k) (pipe y), r_held := take k (r_held y)\<rparr>)
      else Inr (Silent, y))"

definition reader_step :: "read_ask \<Rightarrow> 'a threads \<Rightarrow> ('a remark \<times> 'a threads) res" where
  "reader_step ask y =
     (case r_at y of
        RIdle \<Rightarrow> read_begin ask y
      | RTest \<Rightarrow>
          rbind (read_not_ready (pipe y)) (\<lambda>b.
          Inr (if b then (Nothing, y\<lparr>r_at := RIdle\<rparr>) else (Silent, y\<lparr>r_at := RAdvance\<rparr>)))
      | RAdvance \<Rightarrow>
          rbind (read_advance (pipe y)) (\<lambda>(p, s).
          rbind (data_at p s) (\<lambda>d.
          Inr (Taken d, y\<lparr>pipe := s, r_at := RIdle, r_held := r_held y @ [p]\<rparr>)))
      | RCleared \<Rightarrow>
          rbind (data_at (readPointer (pipe y)) (pipe y)) (\<lambda>d.
          rbind (read_pass (pipe y)) (\<lambda>s.
          Inr (Released d, y\<lparr>pipe := s, r_at := RIdle, r_held := tl (r_held y)\<rparr>))))"

text \<open>\<open>Clear\<close> is for when no operation is running; the blocks held before are not used afterwards.\<close>

fun turn_step :: "'a \<Rightarrow> 'a turn \<Rightarrow> 'a threads \<Rightarrow> ('a remark \<times> 'a threads) run" where
  "turn_step z (Writer ask) y = Some (writer_step z ask y)"
| "turn_step z (Reader ask) y = Some (reader_step ask y)"
| "turn_step z ClearAll y =
     (if w_at y = WIdle \<and> r_at y = RIdle
      then mbind (pipe_Clear (pipe y)) (\<lambda>s. Some (Inr (Cleared, y\<lparr>pipe := s, w_held := [], r_held := []\<rparr>)))
      else Some (Inr (Silent, y)))"

fun run_turns :: "'a \<Rightarrow> 'a turn list \<Rightarrow> 'a threads \<Rightarrow> ('a remark list \<times> 'a threads) run" where
  "run_turns z [] y = Some (Inr ([], y))"
| "run_turns z (t # ts) y =
     mbind (turn_step z t y) (\<lambda>(e, y1). mbind (run_turns z ts y1) (\<lambda>(es, y2). Some (Inr (e # es, y2))))"

definition threads_new :: "'a \<Rightarrow> 'a threads res" where
  "threads_new z = rbind (pipe_new z) (\<lambda>s. Inr \<lparr>pipe = s, w_at = WIdle, w_held = [], r_at = RIdle, r_held = []\<rparr>)"

text \<open>The statements of an operation, run one after another, are the operation.\<close>

lemma WriteLock_steps:
  assumes "w_at y = WIdle"
  shows "rbind (writer_step z AskWriteLock y) (\<lambda>(_, y1).
      rbind (if w_at y1 = WTest then writer_step z ask y1 else Inr (Silent, y1)) (\<lambda>(_, y2).
      rbind (if w_at y2 = WGrow
        then rbind (writer_step z ask y2) (\<lambda>(_, y3). writer_step z ask y3) else Inr (Silent, y2)) (\<lambda>(_, y4).
      rbind (writer_step z ask y4) (\<lambda>(_, y5). Inr (pipe y5, last (w_held y5)))))) =
    rbind (WriteLock z (pipe y)) (\<lambda>(p, s). rbind (data_at p s) (\<lambda>_. Inr (s, p)))"
  using assms
  by (cases "next_is_read (pipe y)"; cases "next_is_ready (pipe y)"; cases "grow z (pipe y)")
    (auto simp: writer_step_def WriteLock_def rbind_assoc split_beta intro!: arg_cong [of _ _ "rbind _"] ext
      split: if_splits prod.splits)

lemma WriteUnlock_steps:
  assumes "w_at y = WIdle" "w_held y \<noteq> []"
  shows "rbind (writer_step z AskWriteUnlock y) (\<lambda>(_, y1). rbind (writer_step z ask y1) (\<lambda>(_, y2). Inr (pipe y2))) =
    rbind (write_flag (pipe y)) (\<lambda>s. rbind (data_at (writePointer s) s) (\<lambda>_. write_pass s))"
  using assms by (auto simp: writer_step_def rbind_assoc rbind_def split: sum.splits)

lemma ReadLock_steps:
  assumes "r_at y = RIdle"
  shows "rbind (reader_step AskReadLock y) (\<lambda>(_, y1).
      rbind (if r_at y1 = RTest then reader_step ask y1 else Inr (Silent, y1)) (\<lambda>(_, y2).
      if r_at y2 = RAdvance then rbind (reader_step ask y2) (\<lambda>(_, y3). Inr (last (r_held y3), pipe y3)) else Inr (NIL, pipe y2))) =
    rbind (ReadLock (pipe y)) (\<lambda>(p, s). if p = NIL then Inr (p, s) else rbind (data_at p s) (\<lambda>_. Inr (p, s)))"
  using assms
  by (auto simp: reader_step_def ReadLock_def rbind_assoc rbind_def read_not_ready_def read_advance_def data_at_def is_ready_def
      fetch_def split: sum.splits prod.splits link.splits)

lemma ReadUnlock_steps:
  assumes "r_at y = RIdle" "r_held y \<noteq> []"
  shows "rbind (reader_step AskReadUnlock y) (\<lambda>(_, y1). rbind (reader_step ask y1) (\<lambda>(_, y2). Inr (pipe y2))) =
    rbind (read_unflag (pipe y)) (\<lambda>s. rbind (data_at (readPointer s) s) (\<lambda>_. read_pass s))"
  using assms by (auto simp: reader_step_def rbind_assoc rbind_def split: sum.splits)

section \<open>What the threads see: a queue\<close>

text \<open>The blocks locked for writing, what was published and not released, and how much of that is locked for reading.\<close>

fun spec_note :: "'a remark \<Rightarrow> 'a list \<times> 'a list \<times> nat \<Rightarrow> ('a list \<times> 'a list \<times> nat) option" where
  "spec_note Silent a = Some a"
| "spec_note (WriteLocked d) (ws, ps, n) = Some (ws @ [d], ps, n)"
| "spec_note (Stored k d) (ws, ps, n) = (if k < length ws then Some (ws[k := d], ps, n) else None)"
| "spec_note (Published d) (ws, ps, n) = (if ws \<noteq> [] \<and> hd ws = d then Some (tl ws, ps @ [d], n) else None)"
| "spec_note (WriteCancelled k) (ws, ps, n) = (if k < length ws then Some (take k ws, ps, n) else None)"
| "spec_note Nothing (ws, ps, n) = (if n = length ps then Some (ws, ps, n) else None)"
| "spec_note (Taken d) (ws, ps, n) = (if n < length ps \<and> ps ! n = d then Some (ws, ps, Suc n) else None)"
| "spec_note (Seen k d) (ws, ps, n) = (if k < n \<and> ps ! k = d then Some (ws, ps, n) else None)"
| "spec_note (Released d) (ws, ps, n) = (if 0 < n \<and> hd ps = d then Some (ws, tl ps, n - 1) else None)"
| "spec_note (ReadCancelled k) (ws, ps, n) = (if k < n then Some (ws, ps, k) else None)"
| "spec_note Cleared (ws, ps, n) = Some ([], [], 0)"

fun spec_notes :: "'a remark list \<Rightarrow> 'a list \<times> 'a list \<times> nat \<Rightarrow> ('a list \<times> 'a list \<times> nat) option" where
  "spec_notes [] a = Some a"
| "spec_notes (e # es) a = Option.bind (spec_note e a) (spec_notes es)"

fun published :: "'a remark list \<Rightarrow> 'a list" where
  "published [] = []"
| "published (Published d # es) = d # published es"
| "published (_ # es) = published es"

fun released :: "'a remark list \<Rightarrow> 'a list" where
  "released [] = []"
| "released (Released d # es) = d # released es"
| "released (_ # es) = released es"

lemma heard_Cons: "published (e # es) = published [e] @ published es" "released (e # es) = released [e] @ released es"
  by (cases e; simp)+

lemma spec_note_order:
  assumes "spec_note e (ws, ps, n) = Some (ws', ps', n')" "e \<noteq> Cleared" "n \<le> length ps"
  shows "ps @ published [e] = released [e] @ ps' \<and> n' \<le> length ps'"
  using assms by (cases e; cases ps) (auto split: if_splits)

text \<open>What is released is what was published, in the order of publishing.\<close>

lemma spec_order:
  assumes "spec_notes es (ws, ps, n) = Some (ws', ps', n')" "Cleared \<notin> set es" "n \<le> length ps"
  shows "ps @ published es = released es @ ps' \<and> n' \<le> length ps'"
  using assms
proof (induction es arbitrary: ws ps n)
  case (Cons e es)
  then obtain ws1 ps1 n1 where 1: "spec_note e (ws, ps, n) = Some (ws1, ps1, n1)" "spec_notes es (ws1, ps1, n1) = Some (ws', ps', n')"
    by (auto simp: bind_eq_Some_conv)
  have e: "ps @ published [e] = released [e] @ ps1" "n1 \<le> length ps1"
    using spec_note_order [OF 1(1) _ Cons.prems(3)] Cons.prems(2) by auto
  have "ps1 @ published es = released es @ ps' \<and> n' \<le> length ps'" using Cons.IH [OF 1(2) _ e(2)] Cons.prems(2) by simp
  then show ?case unfolding heard_Cons [of e es] using e(1) by (metis append.assoc)
qed simp

section \<open>The circle of nodes\<close>

definition nx :: "'a threads \<Rightarrow> nat \<Rightarrow> link" where
  "nx y a = pipe_next (the (cells (pipe_nodes (pipe y)) a))"

definition dat :: "'a threads \<Rightarrow> nat \<Rightarrow> 'a" where
  "dat y a = object (the (cells (pipe_nodes (pipe y)) a))"

definition rdy :: "'a threads \<Rightarrow> nat \<Rightarrow> bool" where
  "rdy y a \<longleftrightarrow> readyToRead (the (cells (pipe_nodes (pipe y)) a))"

text \<open>While a new node hangs loose the pointer behind it is the one that the writer remembers.\<close>

definition nexts :: "'a threads \<Rightarrow> nat \<Rightarrow> link" where
  "nexts y a = (case w_at y of WLink orig \<Rightarrow> if At a = writeAheadPointer (pipe y) then orig else nx y a | _ \<Rightarrow> nx y a)"

definition circle :: "(nat \<Rightarrow> link) \<Rightarrow> nat list \<Rightarrow> bool" where
  "circle f as \<longleftrightarrow> (\<forall>e \<in> set (steps as (hd as)). f (fst e) = At (snd e))"

lemma circle_cong: "(\<And>a. a \<in> set as \<Longrightarrow> f a = g a) \<Longrightarrow> circle f as = circle g as"
  unfolding circle_def by (intro ball_cong refl) (metis prod.collapse steps_in)

lemma circle_succ: "circle f (us @ x # vs) \<Longrightarrow> f x = At (hd (vs @ us @ [x]))"
  by (auto simp: circle_def steps_append) (metis hd_append2 append_self_conv2 list.sel(1) append_is_Nil_conv)

lemma circle_rotate: "circle f (us @ vs) = circle f (vs @ us)"
proof (cases "us = [] \<or> vs = []")
  case False
  then show ?thesis using steps_rotate [of us vs] by (simp add: circle_def)
qed auto

lemma circle_insert:
  assumes "circle f (us @ x # vs)" "g x = At n" "g n = f x" "\<And>z. z \<in> set (us @ vs) \<Longrightarrow> g z = f z"
  shows "circle g (us @ x # n # vs)"
proof -
  have h: "hd (us @ x # n # vs) = hd (us @ x # vs)" by (cases us) simp_all
  have "g (fst e) = At (snd e)" if "e \<in> set (steps (us @ x # n # vs) (hd (us @ x # vs)))" for e
  proof -
    consider "e \<in> set (steps us x)" | "e = (x, n)" | "e = (n, hd (vs @ [hd (us @ x # vs)]))"
      | "e \<in> set (steps vs (hd (us @ x # vs)))"
      using \<open>e \<in> _\<close> by (auto simp: steps_append)
    then show ?thesis
    proof cases
      case 1
      then show ?thesis using assms(1,4) steps_in [of "fst e" "snd e" us x] by (auto simp: circle_def steps_append)
    next
      case 3
      then show ?thesis using assms(1,3) by (auto simp: circle_def steps_append)
    next
      case 4
      then show ?thesis using assms(1,4) steps_in [of "fst e" "snd e" vs] by (auto simp: circle_def steps_append)
    qed (simp add: assms(2))
  qed
  then show ?thesis unfolding circle_def h by blast
qed

text \<open>
  The nodes from \<open>readPointer\<close> on: those locked for reading, those published, those locked for writing, the free
  ones from \<open>writeAheadPointer\<close> on. \<open>xs\<close> is the node that is allocated and not yet linked.
\<close>

definition laid :: "'a threads \<Rightarrow> nat list \<Rightarrow> nat list \<Rightarrow> nat list \<Rightarrow> nat list \<Rightarrow> nat list \<Rightarrow> bool" where
  "laid y rs qs ws fs xs \<longleftrightarrow>
     fs \<noteq> [] \<and> distinct (rs @ qs @ ws @ fs @ xs) \<and> circle (nexts y) (rs @ qs @ ws @ fs)
   \<and> dom (cells (pipe_nodes (pipe y))) = set (rs @ qs @ ws @ fs @ xs)
   \<and> (\<forall>a \<in> set (rs @ qs @ ws @ fs @ xs). a < brk (pipe_nodes (pipe y)))"

definition pointed :: "'a threads \<Rightarrow> nat list \<Rightarrow> nat list \<Rightarrow> nat list \<Rightarrow> nat list \<Rightarrow> bool" where
  "pointed y rs qs ws fs \<longleftrightarrow>
     readPointer (pipe y) = At (hd (rs @ qs @ ws @ fs)) \<and> readAheadPointer (pipe y) = At (hd (qs @ ws @ fs))
   \<and> writePointer (pipe y) = At (hd (ws @ fs)) \<and> writeAheadPointer (pipe y) = At (hd fs)
   \<and> w_held y = map At ws \<and> r_held y = map At rs"

definition in_step :: "'a threads \<Rightarrow> nat list \<Rightarrow> nat list \<Rightarrow> nat list \<Rightarrow> nat list \<Rightarrow> nat list \<Rightarrow> bool" where
  "in_step y rs qs ws fs xs \<longleftrightarrow>
     (\<forall>a \<in> set ((if r_at y = RCleared then tl rs else rs) @ qs). rdy y a)
   \<and> (case w_at y of WTest \<Rightarrow> tl fs \<noteq> [] \<and> xs = [] | WAdvance \<Rightarrow> tl fs \<noteq> [] \<and> xs = []
      | WFlagged \<Rightarrow> ws \<noteq> [] \<and> rdy y (hd ws) \<and> xs = []
      | WLink orig \<Rightarrow> \<exists>n. xs = [n] \<and> nx y (hd fs) = At n | _ \<Rightarrow> xs = [])
   \<and> (case r_at y of RCleared \<Rightarrow> rs \<noteq> [] | RIdle \<Rightarrow> True | _ \<Rightarrow> qs \<noteq> [])"

definition counted :: "'a threads \<Rightarrow> nat \<Rightarrow> bool" where
  "counted y k \<longleftrightarrow> readCount (pipe y) < 4294967296 \<and>
     writeCount (pipe y) = w32 (readCount (pipe y) + k + (if w_at y = WFlagged then 1 else 0) - (if r_at y = RCleared then 1 else 0))"

definition pipe_rep :: "'a threads \<Rightarrow> 'a list \<times> 'a list \<times> nat \<Rightarrow> bool" where
  "pipe_rep y a \<longleftrightarrow> (\<exists>rs qs ws fs xs. laid y rs qs ws fs xs \<and> pointed y rs qs ws fs \<and> in_step y rs qs ws fs xs
     \<and> counted y (length (rs @ qs)) \<and> a = (map (dat y) ws, map (dat y) (rs @ qs), length rs))"

section \<open>Every statement keeps the circle\<close>

lemma nexts_plain: "(\<And>orig. w_at y \<noteq> WLink orig) \<Longrightarrow> nexts y = nx y"
  by (rule ext) (simp add: nexts_def split: write_at.split)

lemma thread_fields [simp]:
  "nx (y\<lparr>w_at := v\<rparr>) = nx y" "nx (y\<lparr>r_at := u\<rparr>) = nx y" "nx (y\<lparr>w_held := hs\<rparr>) = nx y" "nx (y\<lparr>r_held := hs\<rparr>) = nx y"
  "dat (y\<lparr>w_at := v\<rparr>) = dat y" "dat (y\<lparr>r_at := u\<rparr>) = dat y" "dat (y\<lparr>w_held := hs\<rparr>) = dat y" "dat (y\<lparr>r_held := hs\<rparr>) = dat y"
  "rdy (y\<lparr>w_at := v\<rparr>) = rdy y" "rdy (y\<lparr>r_at := u\<rparr>) = rdy y" "rdy (y\<lparr>w_held := hs\<rparr>) = rdy y" "rdy (y\<lparr>r_held := hs\<rparr>) = rdy y"
  by (simp_all add: nx_def dat_def rdy_def fun_eq_iff)

lemma nexts_fields [simp]:
  "nexts (y\<lparr>r_at := u\<rparr>) = nexts y" "nexts (y\<lparr>w_held := hs\<rparr>) = nexts y" "nexts (y\<lparr>r_held := hs\<rparr>) = nexts y"
  by (simp_all add: nexts_def fun_eq_iff split: write_at.split)

lemma pipe_fields [simp]:
  assumes "pipe_nodes s = pipe_nodes (pipe y)"
  shows "nx (y\<lparr>pipe := s\<rparr>) = nx y" "dat (y\<lparr>pipe := s\<rparr>) = dat y" "rdy (y\<lparr>pipe := s\<rparr>) = rdy y"
  using assms by (simp_all add: nx_def dat_def rdy_def fun_eq_iff)

lemma laid_reads:
  assumes "laid y rs qs ws fs xs" "a \<in> set (rs @ qs @ ws @ fs @ xs)"
  shows "next_of (At a) (pipe y) = Inr (nx y a)" "is_ready (At a) (pipe y) = Inr (rdy y a)" "data_at (At a) (pipe y) = Inr (dat y a)"
    "cells (pipe_nodes (pipe y)) a = Some (the (cells (pipe_nodes (pipe y)) a))"
proof -
  have "a \<in> dom (cells (pipe_nodes (pipe y)))" using assms by (simp add: laid_def)
  then obtain nd where "cells (pipe_nodes (pipe y)) a = Some nd" by auto
  then show "next_of (At a) (pipe y) = Inr (nx y a)" "is_ready (At a) (pipe y) = Inr (rdy y a)" "data_at (At a) (pipe y) = Inr (dat y a)"
    "cells (pipe_nodes (pipe y)) a = Some (the (cells (pipe_nodes (pipe y)) a))"
    by (simp_all add: next_of_def is_ready_def data_at_def nx_def rdy_def dat_def)
qed

lemma laid_succ:
  assumes "laid y rs qs ws fs xs" "rs @ qs @ ws @ fs = us @ a # vs"
  shows "nexts y a = At (hd (vs @ us @ [a]))"
  using assms by (auto simp: laid_def intro: circle_succ)

text \<open>A step that is right: it does not fault, and what is noted is what the queue does.\<close>

definition right_step :: "('a remark \<times> 'a threads) res \<Rightarrow> 'a list \<times> 'a list \<times> nat \<Rightarrow> bool" where
  "right_step r a \<longleftrightarrow> (\<exists>e y a'. r = Inr (e, y) \<and> spec_note e a = Some a' \<and> pipe_rep y a')"

lemma right_stepI:
  assumes "r = Inr (e, y)" "laid y rs qs ws fs xs" "pointed y rs qs ws fs" "in_step y rs qs ws fs xs"
    "counted y (length (rs @ qs))" "spec_note e a = Some (map (dat y) ws, map (dat y) (rs @ qs), length rs)"
  shows "right_step r a"
  using assms unfolding right_step_def pipe_rep_def by blast

lemma pipe_repI:
  assumes "laid y rs qs ws fs xs" "pointed y rs qs ws fs" "in_step y rs qs ws fs xs" "counted y (length (rs @ qs))"
  shows "pipe_rep y (map (dat y) ws, map (dat y) (rs @ qs), length rs)"
  using assms unfolding pipe_rep_def by blast

lemma right_skip: "pipe_rep y a \<Longrightarrow> right_step (Inr (Silent, y)) a"
  by (cases a) (simp add: right_step_def)

lemma rep_elim:
  assumes "pipe_rep y a"
  obtains rs qs ws fs xs where "laid y rs qs ws fs xs" "pointed y rs qs ws fs" "in_step y rs qs ws fs xs"
    "counted y (length (rs @ qs))" "a = (map (dat y) ws, map (dat y) (rs @ qs), length rs)"
  using assms by (auto simp: pipe_rep_def)

lemma free_Cons: "laid y rs qs ws fs xs \<Longrightarrow> fs = hd fs # tl fs"
  by (simp add: laid_def)

lemma laid_same:
  assumes "laid y rs qs ws fs xs" "rs' @ qs' @ ws' @ fs' = rs @ qs @ ws @ fs" "fs' \<noteq> []"
    "pipe_nodes (pipe y') = pipe_nodes (pipe y)" "\<And>orig. w_at y \<noteq> WLink orig" "\<And>orig. w_at y' \<noteq> WLink orig"
  shows "laid y' rs' qs' ws' fs' xs"
proof -
  have n: "nexts y' = nexts y" using assms(4-6) by (simp add: nexts_plain nx_def fun_eq_iff)
  have e: "rs' @ qs' @ ws' @ fs' @ xs = rs @ qs @ ws @ fs @ xs" using assms(2) by (metis append.assoc)
  show ?thesis using assms(1,3,4) unfolding laid_def e n assms(2) by simp
qed

lemma begin_write_lock:
  assumes "pipe_rep y a" "w_at y = WIdle"
  shows "right_step (write_begin AskWriteLock y) a"
  using assms(1)
proof (cases rule: rep_elim)
  case (1 rs qs ws fs xs)
  note 2 = 1(2) [unfolded pointed_def]
  note fs = free_Cons [OF 1(1)]
  have "nx y (hd fs) = At (hd (tl fs @ (rs @ qs @ ws) @ [hd fs]))"
    using laid_succ [OF 1(1), of "rs @ qs @ ws" "hd fs" "tl fs"] fs assms(2) by (simp add: nexts_plain)
  moreover have "next_of (writeAheadPointer (pipe y)) (pipe y) = Inr (nx y (hd fs))"
    using laid_reads(1) [OF 1(1), of "hd fs"] fs 2 by (metis Un_iff list.set_intros(1) set_append)
  ultimately have b: "next_is_read (pipe y) = Inr (At (hd (tl fs @ (rs @ qs @ ws) @ [hd fs])) = readPointer (pipe y))"
    by (simp add: next_is_read_def)
  let ?b = "At (hd (tl fs @ (rs @ qs @ ws) @ [hd fs])) = readPointer (pipe y)"
  let ?y = "y\<lparr>w_at := if ?b then WGrow else WTest\<rparr>"
  have t: "?b \<or> tl fs \<noteq> []"
  proof (rule disjCI)
    assume "\<not> tl fs \<noteq> []"
    then have "fs = [hd fs]" using fs by simp
    then show ?b using 2 \<open>\<not> tl fs \<noteq> []\<close> by (metis append.assoc append_self_conv2)
  qed
  show ?thesis
  proof (rule right_stepI)
    show "write_begin AskWriteLock y = Inr (Silent, ?y)" by (simp add: b)
    show "laid ?y rs qs ws fs xs" by (rule laid_same [OF 1(1)]) (use fs assms(2) in auto)
    show "pointed ?y rs qs ws fs" using 1(2) by (simp add: pointed_def)
    show "in_step ?y rs qs ws fs xs" using 1(3) t assms(2) by (auto simp: in_step_def)
    show "counted ?y (length (rs @ qs))" using 1(4) assms(2) by (simp add: counted_def)
  qed (simp add: 1(5))
qed

lemma test_write:
  assumes "pipe_rep y a" "w_at y = WTest"
  shows "right_step (writer_step z ask y) a"
  using assms(1)
proof (cases rule: rep_elim)
  case (1 rs qs ws fs xs)
  note 2 = 1(2) [unfolded pointed_def]
  note fs = free_Cons [OF 1(1)]
  have t: "tl fs \<noteq> []" "xs = []" using 1(3) assms(2) by (simp_all add: in_step_def)
  then have "nx y (hd fs) = At (hd (tl fs))"
    using laid_succ [OF 1(1), of "rs @ qs @ ws" "hd fs" "tl fs"] fs assms(2) by (simp add: nexts_plain)
  moreover have "next_of (At (hd fs)) (pipe y) = Inr (nx y (hd fs))" "is_ready (At (hd (tl fs))) (pipe y) = Inr (rdy y (hd (tl fs)))"
    using laid_reads(1,2) [OF 1(1)] fs t(1) by (metis Un_iff list.set_intros set_append hd_in_set)+
  ultimately have b: "next_is_ready (pipe y) = Inr (rdy y (hd (tl fs)))" using 2 by (simp add: next_is_ready_def)
  let ?y = "y\<lparr>w_at := if rdy y (hd (tl fs)) then WGrow else WAdvance\<rparr>"
  show ?thesis
  proof (rule right_stepI)
    show "writer_step z ask y = Inr (Silent, ?y)" using assms(2) by (simp add: writer_step_def b)
    show "laid ?y rs qs ws fs xs" by (rule laid_same [OF 1(1)]) (use fs assms(2) in auto)
    show "pointed ?y rs qs ws fs" using 1(2) by (simp add: pointed_def)
    show "in_step ?y rs qs ws fs xs" using 1(3) t assms(2) by (auto simp: in_step_def)
    show "counted ?y (length (rs @ qs))" using 1(4) assms(2) by (simp add: counted_def)
  qed (simp add: 1(5))
qed

lemma ready_kept:
  assumes "in_step y rs qs ws fs xs" "r_at y' = r_at y" "\<And>b. b \<in> set rs \<union> set qs \<Longrightarrow> rdy y' b = rdy y b"
  shows "\<forall>a \<in> set ((if r_at y' = RCleared then tl rs else rs) @ qs). rdy y' a"
  using assms by (cases rs) (auto simp: in_step_def)

lemma fresh_brk: "laid y rs qs ws fs xs \<Longrightarrow> brk (pipe_nodes (pipe y)) \<notin> set (rs @ qs @ ws @ fs @ xs)"
  by (auto simp: laid_def)

lemma grow_step:
  assumes "pipe_rep y a" "w_at y = WGrow"
  shows "right_step (writer_step z ask y) a"
  using assms(1)
proof (cases rule: rep_elim)
  case (1 rs qs ws fs xs)
  note 2 = 1(2) [unfolded pointed_def]
  note fs = free_Cons [OF 1(1)]
  let ?f = "hd fs" and ?m = "cells (pipe_nodes (pipe y))" and ?n = "brk (pipe_nodes (pipe y))"
  have xs: "xs = []" using 1(3) assms(2) by (simp add: in_step_def)
  have f: "?f \<in> set (rs @ qs @ ws @ fs @ xs)" using fs by (metis Un_iff list.set_intros(1) set_append)
  obtain nd where nd: "?m ?f = Some nd" using laid_reads(4) [OF 1(1) f] by blast
  have n: "?n \<notin> set (rs @ qs @ ws @ fs @ xs)" by (rule fresh_brk [OF 1(1)])
  have nf: "?n \<noteq> ?f" using n f by auto
  let ?s = "(pipe y)\<lparr>pipe_nodes := \<lparr>cells = ?m(?n \<mapsto> DataPlusPtr z, ?f \<mapsto> nd\<lparr>pipe_next := At ?n\<rparr>), brk = Suc ?n\<rparr>\<rparr>"
  let ?y = "y\<lparr>pipe := ?s, w_at := WLink (nx y ?f)\<rparr>"
  have run: "grow z (pipe y) = Inr (nx y ?f, ?s)"
    using laid_reads(1) [OF 1(1) f] 2 nd nf by (simp add: grow_def new_after_def set_next_def OP_NEW_def)
  have nxs: "nexts ?y b = nexts y b" if "b \<in> set (rs @ qs @ ws @ fs)" for b
    using that n 2 assms(2) by (auto simp: nexts_def nx_def)
  have same: "dat ?y b = dat y b \<and> rdy ?y b = rdy y b" if "b \<in> set (rs @ qs @ ws @ fs)" for b
    using that n nd by (auto simp: dat_def rdy_def)
  have circ: "circle (nexts ?y) (rs @ qs @ ws @ fs)" 
    using 1(1) circle_cong [of "rs @ qs @ ws @ fs" "nexts ?y" "nexts y"] nxs unfolding laid_def by blast
  show ?thesis
  proof (rule right_stepI)
    show "writer_step z ask y = Inr (Silent, ?y)" using assms(2) by (simp add: writer_step_def run)
    show "laid ?y rs qs ws fs [?n]" unfolding laid_def
    proof (intro conjI)
      show "fs \<noteq> []" "distinct (rs @ qs @ ws @ fs @ [?n])" using 1(1) n xs by (auto simp: laid_def)
      show "dom (cells (pipe_nodes (pipe ?y))) = set (rs @ qs @ ws @ fs @ [?n])" using 1(1) xs f by (auto simp: laid_def)
      show "\<forall>b \<in> set (rs @ qs @ ws @ fs @ [?n]). b < brk (pipe_nodes (pipe ?y))" using 1(1) by (auto simp: laid_def less_Suc_eq)
    qed (rule circ)
    show "pointed ?y rs qs ws fs" using 1(2) by (simp add: pointed_def)
    have r: "rdy ?y b = rdy y b" if "b \<in> set rs \<union> set qs" for b using same [of b] that by auto
    show "in_step ?y rs qs ws fs [?n]" unfolding in_step_def
      by (intro conjI ready_kept [OF 1(3)]) (use 1(3) assms(2) r in \<open>auto simp: in_step_def nx_def\<close>)
    show "counted ?y (length (rs @ qs))" using 1(4) assms(2) by (simp add: counted_def)
    have "map (dat ?y) ws = map (dat y) ws" "map (dat ?y) (rs @ qs) = map (dat y) (rs @ qs)" using same by auto
    then show "spec_note Silent a = Some (map (dat ?y) ws, map (dat ?y) (rs @ qs), length rs)" using 1(5) by simp
  qed
qed

lemma grow_link_step:
  assumes "pipe_rep y a" "w_at y = WLink orig"
  shows "right_step (writer_step z ask y) a"
  using assms(1)
proof (cases rule: rep_elim)
  case (1 rs qs ws fs xs)
  note 2 = 1(2) [unfolded pointed_def]
  note fs = free_Cons [OF 1(1)]
  let ?f = "hd fs" and ?m = "cells (pipe_nodes (pipe y))"
  obtain n where n: "xs = [n]" "nx y ?f = At n" using 1(3) assms(2) by (auto simp: in_step_def)
  have f: "?f \<in> set (rs @ qs @ ws @ fs @ xs)" "n \<in> set (rs @ qs @ ws @ fs @ xs)"
    using fs n(1) by (metis Un_iff list.set_intros(1) set_append)+
  obtain nd where nd: "?m n = Some nd" using laid_reads(4) [OF 1(1) f(2)] by blast
  have out: "n \<notin> set (rs @ qs @ ws @ fs)" using 1(1) n(1) by (auto simp: laid_def)
  let ?s = "(pipe y)\<lparr>pipe_nodes := (pipe_nodes (pipe y))\<lparr>cells := ?m(n \<mapsto> nd\<lparr>pipe_next := orig\<rparr>)\<rparr>\<rparr>"
  let ?y = "y\<lparr>pipe := ?s, w_at := WAdvance\<rparr>"
  have run: "grow_link orig (pipe y) = Inr ?s"
    using laid_reads(1) [OF 1(1) f(1)] 2 nd n(2) by (simp add: grow_link_def set_next_def)
  have same: "dat ?y b = dat y b \<and> rdy ?y b = rdy y b" if "b \<in> set (rs @ qs @ ws @ fs)" for b
    using that out by (auto simp: dat_def rdy_def)
  have nxt: "nexts ?y b = (if b = n then orig else nx y b)" for b by (auto simp: nexts_def nx_def)
  have old: "nexts y b = (if b = ?f then orig else nx y b)" for b using 2 assms(2) by (simp add: nexts_def)
  have circ: "circle (nexts ?y) ((rs @ qs @ ws) @ ?f # n # tl fs)"
  proof (rule circle_insert)
    show "circle (nexts y) ((rs @ qs @ ws) @ ?f # tl fs)" using 1(1) fs by (simp add: laid_def)
    have "distinct (rs @ qs @ ws @ fs)" using 1(1) by (auto simp: laid_def)
    then have d: "distinct ((rs @ qs @ ws) @ ?f # tl fs)" using fs by (metis append.assoc)
    show "nexts ?y ?f = At n" 
    proof -
      have "?f \<noteq> n" using out fs by (metis Un_iff list.set_intros(1) set_append)
      then show ?thesis using n(2) by (simp add: nxt)
    qed
    show "nexts ?y n = nexts y ?f" by (simp add: nxt old)
    show "nexts ?y b = nexts y b" if "b \<in> set ((rs @ qs @ ws) @ tl fs)" for b
    proof -
      have "b \<noteq> n" using that out fs by (metis append.assoc set_append Un_iff list.set_intros(2))
      moreover have "b \<noteq> ?f" using that d by auto
      ultimately show ?thesis by (simp add: nxt old)
    qed
  qed
  have set': "set (?f # n # tl fs) = set (fs @ xs)" using fs n(1) by (metis list.simps(15) set_append Un_insert_right insert_commute empty_set Un_empty_right)
  show ?thesis
  proof (rule right_stepI)
    show "writer_step z ask y = Inr (Silent, ?y)" using assms(2) by (simp add: writer_step_def run)
    show "laid ?y rs qs ws (?f # n # tl fs) []" unfolding laid_def
    proof (intro conjI)
      have "distinct (rs @ qs @ ws @ (?f # tl fs) @ [n])" using 1(1) fs n(1) by (simp add: laid_def)
      then show "distinct (rs @ qs @ ws @ (?f # n # tl fs) @ [])" by auto
      have "set (rs @ qs @ ws @ (?f # n # tl fs) @ []) = set (rs @ qs @ ws @ fs @ xs)" using set' by simp
      then show "dom (cells (pipe_nodes (pipe ?y))) = set (rs @ qs @ ws @ (?f # n # tl fs) @ [])"
        and "\<forall>b \<in> set (rs @ qs @ ws @ (?f # n # tl fs) @ []). b < brk (pipe_nodes (pipe ?y))"
        using 1(1) f(2) by (auto simp: laid_def)
    qed (use circ in simp_all)
    show "pointed ?y rs qs ws (?f # n # tl fs)" using 2 fs by (simp add: pointed_def hd_append)
    have r: "rdy ?y b = rdy y b" if "b \<in> set rs \<union> set qs" for b using same [of b] that by auto
    show "in_step ?y rs qs ws (?f # n # tl fs) []" unfolding in_step_def
      by (intro conjI ready_kept [OF 1(3)]) (use 1(3) assms(2) r in \<open>auto simp: in_step_def\<close>)
    show "counted ?y (length (rs @ qs))" using 1(4) assms(2) by (simp add: counted_def)
    have "map (dat ?y) ws = map (dat y) ws" "map (dat ?y) (rs @ qs) = map (dat y) (rs @ qs)" using same by auto
    then show "spec_note Silent a = Some (map (dat ?y) ws, map (dat ?y) (rs @ qs), length rs)" using 1(5) by simp
  qed
qed

lemma advance_step:
  assumes "pipe_rep y a" "w_at y = WAdvance"
  shows "right_step (writer_step z ask y) a"
  using assms(1)
proof (cases rule: rep_elim)
  case (1 rs qs ws fs xs)
  note 2 = 1(2) [unfolded pointed_def]
  note fs = free_Cons [OF 1(1)]
  let ?f = "hd fs"
  have t: "tl fs \<noteq> []" "xs = []" using 1(3) assms(2) by (simp_all add: in_step_def)
  have "nx y ?f = At (hd (tl fs))"
    using laid_succ [OF 1(1), of "rs @ qs @ ws" "hd fs" "tl fs"] fs t assms(2) by (simp add: nexts_plain)
  moreover have "next_of (At ?f) (pipe y) = Inr (nx y ?f)" "data_at (At ?f) (pipe y) = Inr (dat y ?f)"
    using laid_reads(1,3) [OF 1(1)] fs by (metis Un_iff list.set_intros(1) set_append)+
  ultimately have run: "write_advance (pipe y) = Inr (At ?f, (pipe y)\<lparr>writeAheadPointer := At (hd (tl fs))\<rparr>)"
    and d: "data_at (At ?f) ((pipe y)\<lparr>writeAheadPointer := At (hd (tl fs))\<rparr>) = Inr (dat y ?f)"
    using 2 by (simp_all add: write_advance_def data_at_def)
  let ?s = "(pipe y)\<lparr>writeAheadPointer := At (hd (tl fs))\<rparr>"
  let ?y = "y\<lparr>pipe := ?s, w_at := WIdle, w_held := w_held y @ [At ?f]\<rparr>"
  have f: "ws @ fs = (ws @ [?f]) @ tl fs" using fs by simp
  show ?thesis
  proof (rule right_stepI)
    show "writer_step z ask y = Inr (WriteLocked (dat y ?f), ?y)" using assms(2) by (simp add: writer_step_def run d)
    show "laid ?y rs qs (ws @ [?f]) (tl fs) xs" by (rule laid_same [OF 1(1)]) (use f t assms(2) in auto)
    show "pointed ?y rs qs (ws @ [?f]) (tl fs)" using 2 f by (simp add: pointed_def)
    show "in_step ?y rs qs (ws @ [?f]) (tl fs) xs" using 1(3) t assms(2) by (simp add: in_step_def)
    show "counted ?y (length (rs @ qs))" using 1(4) assms(2) by (simp add: counted_def)
  qed (simp add: 1(5))
qed

lemma touch_nx:
  assumes "pipe_nodes (pipe y') = (pipe_nodes (pipe y))\<lparr>cells := (cells (pipe_nodes (pipe y)))(b \<mapsto> nd')\<rparr>"
    "cells (pipe_nodes (pipe y)) b = Some nd" "pipe_next nd' = pipe_next nd"
  shows "nx y' = nx y"
  using assms by (simp add: nx_def fun_eq_iff)

lemma touch_laid:
  assumes "laid y rs qs ws fs xs" "pipe_nodes (pipe y') = (pipe_nodes (pipe y))\<lparr>cells := (cells (pipe_nodes (pipe y)))(b \<mapsto> nd')\<rparr>"
    "cells (pipe_nodes (pipe y)) b = Some nd" "nexts y' = nexts y"
  shows "laid y' rs qs ws fs xs"
proof -
  have "dom (cells (pipe_nodes (pipe y'))) = dom (cells (pipe_nodes (pipe y)))" using assms(2,3) by auto
  moreover have "brk (pipe_nodes (pipe y')) = brk (pipe_nodes (pipe y))" using assms(2) by simp
  ultimately show ?thesis using assms(1,4) unfolding laid_def by simp
qed

lemma store_step:
  assumes "pipe_rep y a" "w_at y = WIdle"
  shows "right_step (write_begin (AskStore k d) y) a"
proof (cases "k < length (w_held y)")
  case True
  from assms(1) show ?thesis
  proof (cases rule: rep_elim)
    case (1 rs qs ws fs xs)
    note 2 = 1(2) [unfolded pointed_def]
    have k: "k < length ws" "w_held y ! k = At (ws ! k)" using True 2 by simp_all
    let ?b = "ws ! k" and ?m = "cells (pipe_nodes (pipe y))"
    have b: "?b \<in> set ws" using k(1) by simp
    then obtain nd where nd: "?m ?b = Some nd" using laid_reads(4) [OF 1(1), of ?b] by auto
    have out: "?b \<notin> set rs \<union> set qs" "distinct ws" using 1(1) b by (auto simp: laid_def)
    let ?s = "(pipe y)\<lparr>pipe_nodes := (pipe_nodes (pipe y))\<lparr>cells := ?m(?b \<mapsto> nd\<lparr>object := d\<rparr>)\<rparr>\<rparr>"
    let ?y = "y\<lparr>pipe := ?s\<rparr>"
    have nx: "nx ?y = nx y" by (rule touch_nx [of ?y y ?b "nd\<lparr>object := d\<rparr>" nd]) (use nd in simp_all)
    have r: "rdy ?y = rdy y" using nd by (simp add: rdy_def fun_eq_iff)
    have o: "dat ?y = (dat y)(?b := d)" using nd by (simp add: dat_def fun_eq_iff)
    show ?thesis
    proof (rule right_stepI)
      show "write_begin (AskStore k d) y = Inr (Stored k d, ?y)" using True k(2) nd by (simp add: store_at_def)
      show "laid ?y rs qs ws fs xs" by (rule touch_laid [OF 1(1) _ nd]) (simp_all add: nexts_plain assms(2) nx)
      show "pointed ?y rs qs ws fs" using 1(2) by (simp add: pointed_def)
      show "in_step ?y rs qs ws fs xs" using 1(3) unfolding in_step_def r nx by simp
      show "counted ?y (length (rs @ qs))" using 1(4) by (simp add: counted_def)
      have "map (dat ?y) ws = (map (dat y) ws)[k := d]"
        using k(1) out(2) unfolding o by (intro nth_equalityI) (auto simp: nth_list_update nth_eq_iff_index_eq)
      moreover have "map (dat ?y) (rs @ qs) = map (dat y) (rs @ qs)" using out(1) unfolding o by auto
      ultimately show "spec_note (Stored k d) a = Some (map (dat ?y) ws, map (dat ?y) (rs @ qs), length rs)"
        using 1(5) k(1) by simp
    qed
  qed
qed (simp add: right_skip assms(1))

lemma flag_step:
  assumes "pipe_rep y a" "w_at y = WIdle"
  shows "right_step (write_begin AskWriteUnlock y) a"
proof (cases "w_held y = []")
  case False
  from assms(1) show ?thesis
  proof (cases rule: rep_elim)
    case (1 rs qs ws fs xs)
    note 2 = 1(2) [unfolded pointed_def]
    let ?b = "hd ws" and ?m = "cells (pipe_nodes (pipe y))"
    have ws: "ws \<noteq> []" "writePointer (pipe y) = At ?b" using False 2 by auto
    then obtain nd where nd: "?m ?b = Some nd" using laid_reads(4) [OF 1(1), of ?b] by auto
    let ?s = "(pipe y)\<lparr>writeCount := w32 (writeCount (pipe y) + 1),
      pipe_nodes := (pipe_nodes (pipe y))\<lparr>cells := ?m(?b \<mapsto> nd\<lparr>readyToRead := True\<rparr>)\<rparr>\<rparr>"
    let ?y = "y\<lparr>pipe := ?s, w_at := WFlagged\<rparr>"
    have nx: "nx ?y = nx y" by (rule touch_nx [of ?y y ?b "nd\<lparr>readyToRead := True\<rparr>" nd]) (use nd in simp_all)
    have r: "rdy ?y = (rdy y)(?b := True)" using nd by (simp add: rdy_def fun_eq_iff)
    have o: "dat ?y = dat y" using nd by (simp add: dat_def fun_eq_iff)
    show ?thesis
    proof (rule right_stepI)
      show "write_begin AskWriteUnlock y = Inr (Silent, ?y)" using False ws(2) nd by (simp add: write_flag_def set_ready_def)
      have "nexts ?y = nexts y" using nx assms(2) by (simp add: nexts_plain)
      then show "laid ?y rs qs ws fs xs" by (intro touch_laid [OF 1(1) _ nd]) simp_all
      show "pointed ?y rs qs ws fs" using 1(2) by (simp add: pointed_def)
      show "in_step ?y rs qs ws fs xs" using 1(3) assms(2) ws(1) unfolding in_step_def r nx by simp
      show "counted ?y (length (rs @ qs))" using 1(3,4) assms(2) by (cases rs) (auto simp: counted_def in_step_def w32_def mod_simps)
      show "spec_note Silent a = Some (map (dat ?y) ws, map (dat ?y) (rs @ qs), length rs)" using 1(5) unfolding o by simp
    qed
  qed
qed (simp add: right_skip assms(1))

lemma write_pass_step:
  assumes "pipe_rep y a" "w_at y = WFlagged"
  shows "right_step (writer_step z ask y) a"
  using assms(1)
proof (cases rule: rep_elim)
  case (1 rs qs ws fs xs)
  note 2 = 1(2) [unfolded pointed_def]
  let ?b = "hd ws"
  have ws: "ws \<noteq> []" "writePointer (pipe y) = At ?b" "rdy y ?b" "xs = []" "fs \<noteq> []" "ws = ?b # tl ws"
    using 2 1(1,3) assms(2) by (auto simp: in_step_def laid_def)
  have "nx y ?b = At (hd (tl ws @ fs))"
    using laid_succ [OF 1(1), of "rs @ qs" ?b "tl ws @ fs"] ws assms(2) by (simp add: nexts_plain hd_append)
  then have run: "write_pass (pipe y) = Inr ((pipe y)\<lparr>writePointer := At (hd (tl ws @ fs))\<rparr>)"
    and d: "data_at (At ?b) (pipe y) = Inr (dat y ?b)"
    using laid_reads(1,3) [OF 1(1), of ?b] ws(1,2) by (simp_all add: write_pass_def)
  let ?y = "y\<lparr>pipe := (pipe y)\<lparr>writePointer := At (hd (tl ws @ fs))\<rparr>, w_at := WIdle, w_held := tl (w_held y)\<rparr>"
  show ?thesis
  proof (rule right_stepI)
    show "writer_step z ask y = Inr (Published (dat y ?b), ?y)" using assms(2) ws(2) by (simp add: writer_step_def run d)
    have e: "rs @ (qs @ [?b]) @ tl ws @ fs = rs @ qs @ ws @ fs" using ws(6) by (metis append.assoc append_Cons append_Nil)
    show "laid ?y rs (qs @ [?b]) (tl ws) fs xs" by (rule laid_same [OF 1(1) e]) (use ws(5) assms(2) in auto)
    have e': "(qs @ [?b]) @ tl ws @ fs = qs @ ws @ fs" using ws(6) by (metis append.assoc append_Cons append_Nil)
    show "pointed ?y rs (qs @ [?b]) (tl ws) fs" using 2 unfolding pointed_def e' by (simp add: map_tl)
    show "in_step ?y rs (qs @ [?b]) (tl ws) fs xs" using 1(3) ws(3,4) assms(2) by (auto simp: in_step_def split: read_at.splits)
    show "counted ?y (length (rs @ qs @ [?b]))" using 1(4) assms(2) by (simp add: counted_def)
    show "spec_note (Published (dat y ?b)) a = Some (map (dat ?y) (tl ws), map (dat ?y) (rs @ qs @ [?b]), length rs)"
      using 1(5) ws(1) by (simp add: hd_map map_tl)
  qed
qed

lemma cancel_write_step:
  assumes "pipe_rep y a" "w_at y = WIdle"
  shows "right_step (write_begin (AskCancelWrite k) y) a"
proof (cases "k < length (w_held y)")
  case True
  from assms(1) show ?thesis
  proof (cases rule: rep_elim)
    case (1 rs qs ws fs xs)
    note 2 = 1(2) [unfolded pointed_def]
    have k: "k < length ws" "w_held y ! k = At (hd (drop k ws @ fs))" using True 2 by (simp_all add: hd_drop_conv_nth)
    let ?y = "y\<lparr>pipe := (pipe y)\<lparr>writeAheadPointer := At (hd (drop k ws @ fs))\<rparr>, w_held := take k (w_held y)\<rparr>"
    show ?thesis
    proof (rule right_stepI)
      show "write_begin (AskCancelWrite k) y = Inr (WriteCancelled k, ?y)" using True k(2) by (simp add: CancelWriteLock_def)
      have e: "take k ws @ drop k ws @ fs = ws @ fs" by simp
      show "laid ?y rs qs (take k ws) (drop k ws @ fs) xs" by (rule laid_same [OF 1(1)]) (use e k(1) assms(2) in auto)
      show "pointed ?y rs qs (take k ws) (drop k ws @ fs)" using 2 unfolding pointed_def e by (simp add: take_map)
      show "in_step ?y rs qs (take k ws) (drop k ws @ fs) xs" using 1(3) assms(2) by (simp add: in_step_def)
      show "counted ?y (length (rs @ qs))" using 1(4) by (simp add: counted_def)
      show "spec_note (WriteCancelled k) a = Some (map (dat ?y) (take k ws), map (dat ?y) (rs @ qs), length rs)"
        using 1(5) k(1) by (simp add: take_map)
    qed
  qed
qed (simp add: right_skip assms(1))

text \<open>The reader's steps happen wherever the writer is.\<close>

lemma laid_reader:
  assumes "laid y rs qs ws fs xs" "rs' @ qs' @ ws @ fs = rs @ qs @ ws @ fs"
    "pipe_nodes (pipe y') = pipe_nodes (pipe y)" "w_at y' = w_at y" "writeAheadPointer (pipe y') = writeAheadPointer (pipe y)"
  shows "laid y' rs' qs' ws fs xs"
proof -
  have n: "nexts y' = nexts y" using assms(3-5) by (simp add: nexts_def nx_def fun_eq_iff split: write_at.split)
  have e: "rs' @ qs' @ ws @ fs @ xs = rs @ qs @ ws @ fs @ xs" using assms(2) by simp
  show ?thesis using assms(1,3) unfolding laid_def e n assms(2) by simp
qed

lemma in_step_reader:
  assumes "in_step y rs qs ws fs xs" "w_at y' = w_at y" "nx y' = nx y" "\<And>b. b \<in> set ws \<Longrightarrow> rdy y' b = rdy y b"
    "\<forall>a \<in> set ((if r_at y' = RCleared then tl rs' else rs') @ qs'). rdy y' a"
    "case r_at y' of RCleared \<Rightarrow> rs' \<noteq> [] | RIdle \<Rightarrow> True | _ \<Rightarrow> qs' \<noteq> []"
  shows "in_step y' rs' qs' ws fs xs"
  using assms by (auto simp: in_step_def split: write_at.splits)

lemma begin_read_lock:
  assumes "pipe_rep y a" "r_at y = RIdle"
  shows "right_step (read_begin AskReadLock y) a"
  using assms(1)
proof (cases rule: rep_elim)
  case (1 rs qs ws fs xs)
  note 2 = 1(2) [unfolded pointed_def]
  have d: "distinct (qs @ ws @ fs)" "fs \<noteq> []" using 1(1) by (auto simp: laid_def)
  have e: "read_at_end (pipe y) \<longleftrightarrow> qs = []"
  proof (cases qs)
    case (Cons q qs')
    then have "q \<noteq> hd (ws @ fs)" using d hd_in_set [of "ws @ fs"] by auto
    then show ?thesis using 2 Cons by (simp add: read_at_end_def)
  qed (use 2 in \<open>simp add: read_at_end_def\<close>)
  show ?thesis
  proof (cases "qs = []")
    case True
    then show ?thesis using assms(1) e 1(5) by (simp add: right_step_def)
  next
    case False
    let ?y = "y\<lparr>r_at := RTest\<rparr>"
    show ?thesis
    proof (rule right_stepI)
      show "read_begin AskReadLock y = Inr (Silent, ?y)" using e False by simp
      show "laid ?y rs qs ws fs xs" by (rule laid_reader [OF 1(1)]) simp_all
      show "pointed ?y rs qs ws fs" using 1(2) by (simp add: pointed_def)
      show "in_step ?y rs qs ws fs xs"
        by (rule in_step_reader [OF 1(3)]) (use 1(3) False assms(2) in \<open>auto simp: in_step_def\<close>)
      show "counted ?y (length (rs @ qs))" using 1(4) assms(2) by (simp add: counted_def)
    qed (simp add: 1(5))
  qed
qed

lemma test_read:
  assumes "pipe_rep y a" "r_at y = RTest"
  shows "right_step (reader_step ask y) a"
  using assms(1)
proof (cases rule: rep_elim)
  case (1 rs qs ws fs xs)
  note 2 = 1(2) [unfolded pointed_def]
  have q: "qs \<noteq> []" "rdy y (hd qs)" "readAheadPointer (pipe y) = At (hd qs)"
    using 1(3) 2 assms(2) by (auto simp: in_step_def)
  then have run: "read_not_ready (pipe y) = Inr False"
    using laid_reads(2) [OF 1(1), of "hd qs"] by (simp add: read_not_ready_def)
  let ?y = "y\<lparr>r_at := RAdvance\<rparr>"
  show ?thesis
  proof (rule right_stepI)
    show "reader_step ask y = Inr (Silent, ?y)" using assms(2) by (simp add: reader_step_def run)
    show "laid ?y rs qs ws fs xs" by (rule laid_reader [OF 1(1)]) simp_all
    show "pointed ?y rs qs ws fs" using 1(2) by (simp add: pointed_def)
    show "in_step ?y rs qs ws fs xs"
      by (rule in_step_reader [OF 1(3)]) (use 1(3) q(1) assms(2) in \<open>auto simp: in_step_def\<close>)
    show "counted ?y (length (rs @ qs))" using 1(4) assms(2) by (simp add: counted_def)
  qed (simp add: 1(5))
qed

lemma plain_next:
  assumes "laid y rs qs ws fs xs" "pointed y rs qs ws fs" "a \<in> set rs \<union> set qs \<union> set ws"
  shows "nexts y a = nx y a"
proof -
  have "a \<noteq> hd fs" using assms(1,3) hd_in_set [of fs] by (auto simp: laid_def)
  then show ?thesis using assms(2) by (auto simp: nexts_def pointed_def split: write_at.split)
qed

lemma read_advance_step:
  assumes "pipe_rep y a" "r_at y = RAdvance"
  shows "right_step (reader_step ask y) a"
  using assms(1)
proof (cases rule: rep_elim)
  case (1 rs qs ws fs xs)
  note 2 = 1(2) [unfolded pointed_def]
  let ?q = "hd qs"
  have q: "qs \<noteq> []" "readAheadPointer (pipe y) = At ?q" "qs = ?q # tl qs" "fs \<noteq> []"
    using 1(1,3) 2 assms(2) by (auto simp: in_step_def laid_def)
  have "nx y ?q = At (hd (tl qs @ ws @ fs))"
    using laid_succ [OF 1(1), of rs ?q "tl qs @ ws @ fs"] plain_next [OF 1(1,2), of ?q] q by (simp add: hd_append)
  then have run: "read_advance (pipe y) = Inr (At ?q, (pipe y)\<lparr>readAheadPointer := At (hd (tl qs @ ws @ fs))\<rparr>)"
    and d: "data_at (At ?q) ((pipe y)\<lparr>readAheadPointer := At (hd (tl qs @ ws @ fs))\<rparr>) = Inr (dat y ?q)"
    using laid_reads(1,3) [OF 1(1), of ?q] q(1,2) by (simp_all add: read_advance_def data_at_def)
  let ?y = "y\<lparr>pipe := (pipe y)\<lparr>readAheadPointer := At (hd (tl qs @ ws @ fs))\<rparr>, r_at := RIdle, r_held := r_held y @ [At ?q]\<rparr>"
  have e: "(rs @ [?q]) @ tl qs @ ws @ fs = rs @ qs @ ws @ fs" "(rs @ [?q]) @ tl qs = rs @ qs"
    using q(3) by (metis append.assoc append_Cons append_Nil)+
  show ?thesis
  proof (rule right_stepI)
    show "reader_step ask y = Inr (Taken (dat y ?q), ?y)" using assms(2) by (simp add: reader_step_def run d)
    show "laid ?y (rs @ [?q]) (tl qs) ws fs xs" by (rule laid_reader [OF 1(1) e(1)]) simp_all
    show "pointed ?y (rs @ [?q]) (tl qs) ws fs" using 2 unfolding pointed_def e by simp
    show "in_step ?y (rs @ [?q]) (tl qs) ws fs xs"
      by (rule in_step_reader [OF 1(3)]) (use 1(3) e(2) assms(2) in \<open>auto simp: in_step_def\<close>)
    show "counted ?y (length ((rs @ [?q]) @ tl qs))" using 1(4) assms(2) unfolding e by (simp add: counted_def)
    show "spec_note (Taken (dat y ?q)) a = Some (map (dat ?y) ws, map (dat ?y) ((rs @ [?q]) @ tl qs), length (rs @ [?q]))"
      using 1(5) q(1) unfolding e by (simp add: nth_append hd_conv_nth)
  qed
qed

lemma look_step:
  assumes "pipe_rep y a" "r_at y = RIdle"
  shows "right_step (read_begin (AskLook k) y) a"
proof (cases "k < length (r_held y)")
  case True
  from assms(1) show ?thesis
  proof (cases rule: rep_elim)
    case (1 rs qs ws fs xs)
    note 2 = 1(2) [unfolded pointed_def]
    have k: "k < length rs" "r_held y ! k = At (rs ! k)" using True 2 by simp_all
    then have "data_at (At (rs ! k)) (pipe y) = Inr (dat y (rs ! k))" using laid_reads(3) [OF 1(1), of "rs ! k"] by simp
    then have "read_begin (AskLook k) y = Inr (Seen k (dat y (rs ! k)), y)" using True k(2) by simp
    moreover have "spec_note (Seen k (dat y (rs ! k))) a = Some a" using 1(5) k(1) by (simp add: nth_append)
    ultimately show ?thesis using assms(1) unfolding right_step_def by blast
  qed
qed (simp add: right_skip assms(1))

lemma w32_add: "w32 (w32 m + n) = w32 (m + n)"
  by (simp add: w32_def mod_simps)

lemma w32_less: "w32 n < 4294967296"
  by (simp add: w32_def)

lemma unflag_step:
  assumes "pipe_rep y a" "r_at y = RIdle"
  shows "right_step (read_begin AskReadUnlock y) a"
proof (cases "r_held y = []")
  case False
  from assms(1) show ?thesis
  proof (cases rule: rep_elim)
    case (1 rs qs ws fs xs)
    note 2 = 1(2) [unfolded pointed_def]
    let ?b = "hd rs" and ?m = "cells (pipe_nodes (pipe y))"
    have rs: "rs \<noteq> []" "readPointer (pipe y) = At ?b" "rs = ?b # tl rs" using False 2 by auto
    then obtain nd where nd: "?m ?b = Some nd" using laid_reads(4) [OF 1(1), of ?b] by auto
    have "distinct (rs @ qs @ ws)" using 1(1) by (auto simp: laid_def)
    then have out: "?b \<notin> set (tl rs) \<union> set qs \<union> set ws" using rs(1) by (cases rs) auto
    let ?s = "(pipe y)\<lparr>readCount := w32 (readCount (pipe y) + 1),
      pipe_nodes := (pipe_nodes (pipe y))\<lparr>cells := ?m(?b \<mapsto> nd\<lparr>readyToRead := False\<rparr>)\<rparr>\<rparr>"
    let ?y = "y\<lparr>pipe := ?s, r_at := RCleared\<rparr>"
    have nx: "nx ?y = nx y" by (rule touch_nx [of ?y y ?b "nd\<lparr>readyToRead := False\<rparr>" nd]) (use nd in simp_all)
    have r: "rdy ?y = (rdy y)(?b := False)" using nd by (simp add: rdy_def fun_eq_iff)
    have o: "dat ?y = dat y" using nd by (simp add: dat_def fun_eq_iff)
    show ?thesis
    proof (rule right_stepI)
      show "read_begin AskReadUnlock y = Inr (Silent, ?y)" using False rs(2) nd by (simp add: read_unflag_def set_ready_def)
      have "nexts ?y = nexts y" using nx by (simp add: nexts_def fun_eq_iff split: write_at.split)
      then show "laid ?y rs qs ws fs xs" by (intro touch_laid [OF 1(1) _ nd]) simp_all
      show "pointed ?y rs qs ws fs" using 1(2) by (simp add: pointed_def)
      show "in_step ?y rs qs ws fs xs"
      proof (rule in_step_reader [OF 1(3) _ nx])
        have "\<forall>a \<in> set (tl rs) \<union> set qs. rdy y a" using 1(3) assms(2) by (cases rs) (auto simp: in_step_def)
        then show "\<forall>a \<in> set ((if r_at ?y = RCleared then tl rs else rs) @ qs). rdy ?y a" using out unfolding r by auto
        show "rdy ?y b = rdy y b" if "b \<in> set ws" for b using that out unfolding r by auto
      qed (use rs(1) in simp_all)
      show "counted ?y (length (rs @ qs))"
      proof -
        obtain k where "length (rs @ qs) = Suc k" using rs(1) by (cases rs) auto
        then show ?thesis using 1(4) assms(2) w32_add [of "Suc (readCount (pipe y))"]
          by (simp add: counted_def w32_less add.assoc)
      qed
      show "spec_note Silent a = Some (map (dat ?y) ws, map (dat ?y) (rs @ qs), length rs)" using 1(5) unfolding o by simp
    qed
  qed
qed (simp add: right_skip assms(1))

lemma read_pass_step:
  assumes "pipe_rep y a" "r_at y = RCleared"
  shows "right_step (reader_step ask y) a"
  using assms(1)
proof (cases rule: rep_elim)
  case (1 rs qs ws fs xs)
  note 2 = 1(2) [unfolded pointed_def]
  let ?b = "hd rs"
  have rs: "rs \<noteq> []" "readPointer (pipe y) = At ?b" "rs = ?b # tl rs" "fs \<noteq> []"
    using 2 1(1,3) assms(2) by (auto simp: in_step_def laid_def)
  have "nx y ?b = At (hd (tl rs @ qs @ ws @ fs))"
    using laid_succ [OF 1(1), of "[]" ?b "tl rs @ qs @ ws @ fs"] plain_next [OF 1(1,2), of ?b] rs by (simp add: hd_append)
  then have run: "read_pass (pipe y) = Inr ((pipe y)\<lparr>readPointer := At (hd (tl rs @ qs @ ws @ fs))\<rparr>)"
    and d: "data_at (At ?b) (pipe y) = Inr (dat y ?b)"
    using laid_reads(1,3) [OF 1(1), of ?b] rs(1,2) by (simp_all add: read_pass_def)
  let ?y = "y\<lparr>pipe := (pipe y)\<lparr>readPointer := At (hd (tl rs @ qs @ ws @ fs))\<rparr>, r_at := RIdle, r_held := tl (r_held y)\<rparr>"
  have n: "nexts ?y = nexts y" by (simp add: nexts_def fun_eq_iff split: write_at.split)
  have e: "rs @ qs @ ws @ fs = [?b] @ (tl rs @ qs @ ws @ fs)" using rs(3) by (metis append_Cons append_Nil)
  have h: "hd (us @ fs @ [?b]) = hd (us @ fs)" for us using rs(4) by (cases us) simp_all
  have f: "hd (fs @ [?b]) = hd fs" "tl (fs @ [?b]) = tl fs @ [?b]" using rs(4) by simp_all
  show ?thesis
  proof (rule right_stepI)
    show "reader_step ask y = Inr (Released (dat y ?b), ?y)" using assms(2) rs(2) by (simp add: reader_step_def run d)
    have l: "distinct (tl rs @ qs @ ws @ (fs @ [?b]) @ xs)"
      and s: "set (tl rs @ qs @ ws @ (fs @ [?b]) @ xs) = set (rs @ qs @ ws @ fs @ xs)"
      using 1(1) rs(1) by (cases rs; auto simp: laid_def)+
    have "circle (nexts ?y) (tl rs @ qs @ ws @ fs @ [?b])"
      using 1(1) circle_rotate [of "nexts y" "[?b]" "tl rs @ qs @ ws @ fs"] unfolding n laid_def e by simp
    then show "laid ?y (tl rs) qs ws (fs @ [?b]) xs" using 1(1) l unfolding laid_def s by simp
    show "pointed ?y (tl rs) qs ws (fs @ [?b])" using 2 unfolding pointed_def f by (simp add: h [of "tl rs @ qs @ ws", simplified] h [of "qs @ ws", simplified] h [of ws] map_tl)
    show "in_step ?y (tl rs) qs ws (fs @ [?b]) xs" using 1(3) assms(2) rs(4) unfolding in_step_def f
      by (auto split: write_at.splits)
    show "counted ?y (length (tl rs @ qs))" using 1(4) assms(2) rs(1) by (cases rs) (auto simp: counted_def)
    show "spec_note (Released (dat y ?b)) a = Some (map (dat ?y) ws, map (dat ?y) (tl rs @ qs), length (tl rs))"
      using 1(5) rs(1) by (cases rs) simp_all
  qed
qed

lemma cancel_read_step:
  assumes "pipe_rep y a" "r_at y = RIdle"
  shows "right_step (read_begin (AskCancelRead k) y) a"
proof (cases "k < length (r_held y)")
  case True
  from assms(1) show ?thesis
  proof (cases rule: rep_elim)
    case (1 rs qs ws fs xs)
    note 2 = 1(2) [unfolded pointed_def]
    have k: "k < length rs" "r_held y ! k = At (hd (drop k rs @ qs @ ws @ fs))" using True 2 by (simp_all add: hd_drop_conv_nth)
    let ?y = "y\<lparr>pipe := (pipe y)\<lparr>readAheadPointer := At (hd (drop k rs @ qs @ ws @ fs))\<rparr>, r_held := take k (r_held y)\<rparr>"
    have e: "take k rs @ (drop k rs @ qs) @ ws @ fs = rs @ qs @ ws @ fs" "take k rs @ drop k rs @ qs = rs @ qs"
      by (metis append.assoc append_take_drop_id)+
    show ?thesis
    proof (rule right_stepI)
      show "read_begin (AskCancelRead k) y = Inr (ReadCancelled k, ?y)" using True k(2) by (simp add: CancelReadLock_def)
      show "laid ?y (take k rs) (drop k rs @ qs) ws fs xs" by (rule laid_reader [OF 1(1) e(1)]) simp_all
      show "pointed ?y (take k rs) (drop k rs @ qs) ws fs" using 2 unfolding pointed_def e by (simp add: take_map)
      show "in_step ?y (take k rs) (drop k rs @ qs) ws fs xs"
        by (rule in_step_reader [OF 1(3)])
          (use 1(3) assms(2) in \<open>auto simp: in_step_def dest: in_set_takeD in_set_dropD\<close>)
      show "counted ?y (length (take k rs @ drop k rs @ qs))" using 1(4) assms(2) unfolding e by (simp add: counted_def)
      show "spec_note (ReadCancelled k) a = Some (map (dat ?y) ws, map (dat ?y) (take k rs @ drop k rs @ qs), length (take k rs))"
        using 1(5) k(1) unfolding e by simp
    qed
  qed
qed (simp add: right_skip assms(1))

section \<open>Beginning, clearing and end\<close>

definition pnx :: "'a pipe \<Rightarrow> nat \<Rightarrow> link" where
  "pnx s a = pipe_next (the (cells (pipe_nodes s) a))"

definition path :: "(nat \<Rightarrow> link) \<Rightarrow> nat list \<Rightarrow> nat \<Rightarrow> bool" where
  "path f as b \<longleftrightarrow> (\<forall>e \<in> set (steps as b). f (fst e) = At (snd e))"

definition without :: "nat set \<Rightarrow> 'a pipe \<Rightarrow> 'a pipe" where
  "without A s = s\<lparr>pipe_nodes := (pipe_nodes s)\<lparr>cells := (\<lambda>a. if a \<in> A then None else cells (pipe_nodes s) a)\<rparr>\<rparr>"

lemma path_simps [simp]: "path f [] b" "path f (a # as) b \<longleftrightarrow> f a = At (hd (as @ [b])) \<and> path f as b"
  by (auto simp: path_def)

lemma path_cong: "(\<And>a. a \<in> set as \<Longrightarrow> f a = g a) \<Longrightarrow> path f as b = path g as b"
  unfolding path_def by (intro ball_cong refl) (metis prod.collapse steps_in)

lemma circle_path: "circle f (a # as) \<longleftrightarrow> f a = At (hd (as @ [a])) \<and> path f as a"
  by (simp add: circle_def path_def)

lemma pnx_reads: "a \<in> dom (cells (pipe_nodes s)) \<Longrightarrow> next_of (At a) s = Inr (pnx s a)"
  by (auto simp: next_of_def pnx_def)

lemma without_fields [simp]:
  "readPointer (without A s) = readPointer s" "writePointer (without A s) = writePointer s"
  "writeAheadPointer (without A s) = writeAheadPointer s" "readAheadPointer (without A s) = readAheadPointer s"
  "brk (pipe_nodes (without A s)) = brk (pipe_nodes s)"
  "cells (pipe_nodes (without A s)) a = (if a \<in> A then None else cells (pipe_nodes s) a)"
  by (simp_all add: without_def)

lemma pnx_without: "a \<notin> A \<Longrightarrow> pnx (without A s) a = pnx s a"
  by (simp add: pnx_def)

lemma count_loop_runs:
  assumes "path (pnx s) as r" "set as \<subseteq> dom (cells (pipe_nodes s))" "r \<notin> set as" "readPointer s = At r"
  shows "count_loop k (At (hd (as @ [r]))) s = Some (Inr (k + length as))"
  using assms(1-3)
proof (induction as arbitrary: k)
  case Nil
  then show ?case using assms(4) by (subst count_loop.simps) simp
next
  case (Cons a as)
  then show ?case using assms(4) by (subst count_loop.simps) (simp add: pnx_reads)
qed

lemma shrink_loop_runs:
  assumes "path (pnx s) as r" "set as \<subseteq> dom (cells (pipe_nodes s))" "distinct as" "writePointer s = At (hd (as @ [r]))" "k \<le> length as"
  shows "shrink_loop k s = Inr ((without (set (take k as)) s)\<lparr>writePointer := At (hd (drop k as @ [r]))\<rparr>)"
  using assms
proof (induction k arbitrary: as s)
  case 0
  then show ?case by (simp add: without_def)
next
  case (Suc k)
  then obtain b bs where as: "as = b # bs" by (cases as) auto
  let ?s = "(without {b} s)\<lparr>writePointer := At (hd (bs @ [r]))\<rparr>"
  have b: "b \<in> dom (cells (pipe_nodes s))" using Suc.prems(2) as by simp
  have pn: "pnx ?s a = pnx s a" if "a \<in> set bs" for a using that Suc.prems(3) as by (auto simp: pnx_def)
  have "OP_DELETE (At b) (pipe_nodes s) = Inr (pipe_nodes (without {b} s))"
    using b by (auto simp: without_def fun_eq_iff)
  then have "shrink_loop (Suc k) s = shrink_loop k ?s"
    using Suc.prems(1,4) as pnx_reads [OF b] by (simp add: without_def)
  also have "\<dots> = Inr ((without (set (take k bs)) ?s)\<lparr>writePointer := At (hd (drop k bs @ [r]))\<rparr>)"
  proof (rule Suc.IH)
    show "path (pnx ?s) bs r" using Suc.prems(1) as path_cong [of bs "pnx ?s" "pnx s"] pn by simp
    show "set bs \<subseteq> dom (cells (pipe_nodes ?s))" using Suc.prems(2,3) as by auto
  qed (use Suc.prems(3,5) as in simp_all)
  also have "\<dots> = Inr ((without (set (take (Suc k) as)) s)\<lparr>writePointer := At (hd (drop (Suc k) as @ [r]))\<rparr>)"
    using as by (auto simp: without_def fun_eq_iff)
  finally show ?case .
qed

lemma free_loop_runs:
  assumes "path (pnx s) as w" "set as \<subseteq> dom (cells (pipe_nodes s))" "distinct as" "w \<notin> set as"
    "readPointer s = At (hd (as @ [w]))" "writeAheadPointer s = At w"
  shows "free_loop s = Some (Inr ((without (set as) s)\<lparr>readPointer := At w\<rparr>))"
  using assms
proof (induction as arbitrary: s)
  case Nil
  then show ?case by (subst free_loop.simps) (simp add: without_def)
next
  case (Cons b bs)
  let ?s = "(without {b} s)\<lparr>readPointer := At (hd (bs @ [w]))\<rparr>"
  have b: "b \<in> dom (cells (pipe_nodes s))" using Cons.prems(2) by simp
  have pn: "pnx ?s a = pnx s a" if "a \<in> set bs" for a using that Cons.prems(3) by (auto simp: pnx_def)
  have "OP_DELETE (At b) (pipe_nodes s) = Inr (pipe_nodes (without {b} s))"
    using b by (auto simp: without_def fun_eq_iff)
  then have "free_loop s = free_loop ?s"
    using Cons.prems(1,4-6) pnx_reads [OF b] by (subst free_loop.simps) (auto simp: without_def)
  also have "\<dots> = Some (Inr ((without (set bs) ?s)\<lparr>readPointer := At w\<rparr>))"
  proof (rule Cons.IH)
    show "path (pnx ?s) bs w" using Cons.prems(1) path_cong [of bs "pnx ?s" "pnx s"] pn by simp
    show "set bs \<subseteq> dom (cells (pipe_nodes ?s))" using Cons.prems(2,3) by auto
  qed (use Cons.prems(3,4,6) in simp_all)
  also have "\<dots> = Some (Inr ((without (set (b # bs)) s)\<lparr>readPointer := At w\<rparr>))"
    by (auto simp: without_def fun_eq_iff)
  finally show ?case .
qed

lemma nx_pnx: "nx y = pnx (pipe y)"
  by (simp add: nx_def pnx_def fun_eq_iff)

lemma destroy_runs:
  assumes "pipe_rep y a" "w_at y = WIdle"
  shows "\<exists>t. pipe_destroy (pipe y) = Some (Inr t) \<and> cells t = (\<lambda>_. None)"
  using assms(1)
proof (cases rule: rep_elim)
  case (1 rs qs ws fs xs)
  let ?w = "hd fs" and ?as = "tl fs @ rs @ qs @ ws" and ?s = "pipe y"
  have fs: "fs = ?w # tl fs" by (rule free_Cons [OF 1(1)])
  have xs: "xs = []" using 1(3) assms(2) by (simp add: in_step_def)
  have w: "writeAheadPointer ?s = At ?w" using 1(2) by (simp add: pointed_def)
  have "circle (pnx ?s) (fs @ rs @ qs @ ws)"
    using 1(1) circle_rotate [of "pnx ?s" "rs @ qs @ ws" fs] assms(2) by (simp add: laid_def nexts_plain nx_pnx)
  then have c: "pnx ?s ?w = At (hd (?as @ [?w]))" "path (pnx ?s) ?as ?w"
    using circle_path [of "pnx ?s" ?w ?as] fs by (metis append_Cons)+
  have dom: "dom (cells (pipe_nodes ?s)) = insert ?w (set ?as)"
  proof -
    have "set fs = insert ?w (set (tl fs))" using fs by (metis list.simps(15))
    then show ?thesis using 1(1) xs by (auto simp: laid_def)
  qed
  have "distinct (rs @ qs @ ws @ ?w # tl fs)" using 1(1) xs fs by (simp add: laid_def)
  then have d: "distinct ?as" "?w \<notin> set ?as" by auto
  let ?s1 = "?s\<lparr>readPointer := At (hd (?as @ [?w]))\<rparr>"
  have "free_loop ?s1 = Some (Inr ((without (set ?as) ?s1)\<lparr>readPointer := At ?w\<rparr>))"
  proof (rule free_loop_runs)
    have "pnx ?s1 = pnx ?s" by (simp add: pnx_def fun_eq_iff)
    then show "path (pnx ?s1) ?as ?w" using c(2) by simp
  qed (use dom d w in auto)
  moreover have "next_of (writeAheadPointer ?s) ?s = Inr (At (hd (?as @ [?w])))"
    using c(1) w dom by (simp add: pnx_reads)
  moreover obtain nd where "cells (pipe_nodes ?s) ?w = Some nd" using dom by blast
  ultimately show ?thesis using d dom by (auto simp: pipe_destroy_def without_def fun_eq_iff)
qed

lemma clear_runs:
  assumes "pipe_rep y a" "w_at y = WIdle" "r_at y = RIdle"
  shows "\<exists>s. pipe_Clear (pipe y) = Some (Inr s) \<and> pipe_rep (y\<lparr>pipe := s, w_held := [], r_held := []\<rparr>) ([], [], 0)"
  using assms(1)
proof (cases rule: rep_elim)
  case (1 rs qs ws fs xs)
  let ?all = "rs @ qs @ ws @ fs" and ?s = "pipe y"
  let ?r = "hd ?all" and ?as = "tl ?all"
  have all: "?all = ?r # ?as" using 1(1) by (simp add: laid_def)
  have xs: "xs = []" using 1(3) assms(2) by (simp add: in_step_def)
  have r: "readPointer ?s = At ?r" using 1(2) by (simp add: pointed_def)
  have "circle (pnx ?s) ?all" using 1(1) assms(2) by (simp add: laid_def nexts_plain nx_pnx)
  then have c: "pnx ?s ?r = At (hd (?as @ [?r]))" "path (pnx ?s) ?as ?r" using circle_path [of "pnx ?s" ?r ?as] all by metis+
  have dom: "dom (cells (pipe_nodes ?s)) = set (?r # ?as)" unfolding all [symmetric] using 1(1) xs by (simp add: laid_def)
  have d: "distinct (?r # ?as)" unfolding all [symmetric] using 1(1) xs by (simp add: laid_def)
  have brk: "\<forall>b \<in> set (?r # ?as). b < brk (pipe_nodes ?s)" unfolding all [symmetric] using 1(1) xs by (simp add: laid_def)
  define rest where "rest = ?as"
  define n where "n = 1 + length rest - MINIMUM_LIST_SIZE"
  define r0 where "r0 = ?r"
  note f = c [folded rest_def r0_def] dom [folded rest_def r0_def] d [folded rest_def r0_def] brk [folded rest_def r0_def]
    r [folded r0_def]
  have n: "n \<le> length rest" by (simp add: n_def MINIMUM_LIST_SIZE_def)
  let ?s1 = "?s\<lparr>writePointer := At (hd (rest @ [r0]))\<rparr>"
  let ?q = "hd (drop n rest @ [r0])"
  let ?s2 = "(without (set (take n rest)) ?s1)\<lparr>writePointer := At ?q\<rparr>"
  have same: "pnx ?s1 = pnx ?s" by (simp add: pnx_def fun_eq_iff)
  have count: "count_loop 1 (At (hd (rest @ [r0]))) ?s1 = Some (Inr (1 + length rest))"
    by (rule count_loop_runs) (use f same in auto)
  have shrink: "shrink_loop n ?s1 = Inr ?s2" by (rule shrink_loop_runs) (use f same n in auto)
  obtain nd where nd: "cells (pipe_nodes ?s) r0 = Some nd" using f(3) by auto
  have out: "r0 \<notin> set (take n rest)" using f(4) by (auto dest: in_set_takeD)
  let ?m = "(cells (pipe_nodes ?s2))(r0 \<mapsto> nd\<lparr>pipe_next := At ?q\<rparr>)"
  let ?s4 = "?s2\<lparr>pipe_nodes := (pipe_nodes ?s2)\<lparr>cells := ?m\<rparr>, writePointer := At r0, readAheadPointer := At r0,
    writeAheadPointer := At r0, readCount := 0, writeCount := 0\<rparr>"
  have link: "set_next (At r0) (At ?q) ?s2 = Inr (?s2\<lparr>pipe_nodes := (pipe_nodes ?s2)\<lparr>cells := ?m\<rparr>\<rparr>)"
    using nd out by (simp add: set_next_def)
  have run: "pipe_Clear ?s = Some (Inr ?s4)"
    using f(1,6) count shrink link nd n_def by (simp add: pipe_Clear_def pnx_reads pnx_def next_of_def Let_def)
  let ?y = "y\<lparr>pipe := ?s4, w_held := [], r_held := []\<rparr>"
  have keep: "b \<notin> set (take n rest)" if "b \<in> set (drop n rest)" for b
    using that f(4) by (metis append_take_drop_id distinct.simps(2) distinct_append disjoint_iff)
  have in_rest: "set rest = set (take n rest) \<union> set (drop n rest)" by (metis append_take_drop_id set_append)
  have "circle (nexts ?y) (r0 # drop n rest)"
    unfolding circle_path
  proof
    show "nexts ?y r0 = At (hd (drop n rest @ [r0]))" using assms(2) by (simp add: nexts_plain nx_def)
    have "path (pnx ?s) (drop n rest) r0"
      using f(2) by (metis (no_types, lifting) append_take_drop_id path_def steps_append Un_iff set_append)
    moreover have "nexts ?y b = pnx ?s b" if "b \<in> set (drop n rest)" for b
      using keep [OF that] that f(4) in_rest assms(2) by (auto simp: nexts_plain nx_def pnx_def)
    ultimately show "path (nexts ?y) (drop n rest) r0" using path_cong [of "drop n rest" "nexts ?y" "pnx ?s"] by blast
  qed
  moreover have "dom (cells (pipe_nodes (pipe ?y))) = set (r0 # drop n rest)"
    using f(3) out in_rest keep by (auto split: if_splits)
  ultimately have "laid ?y [] [] [] (r0 # drop n rest) []" using f(4,5) in_rest by (auto simp: laid_def)
  moreover have "pointed ?y [] [] [] (r0 # drop n rest)" using f(6) by (simp add: pointed_def)
  moreover have "in_step ?y [] [] [] (r0 # drop n rest) []" using assms(2,3) by (simp add: in_step_def)
  moreover have "counted ?y (length ([] @ [] :: nat list))" using assms(2,3) by (simp add: counted_def w32_def)
  ultimately have "pipe_rep ?y ([], [], 0)" using pipe_repI [of ?y "[]" "[]" "[]"] by simp
  then show ?thesis using run by blast
qed

text \<open>A new object: eight nodes in a circle.\<close>

definition threads_start :: "'a \<Rightarrow> 'a threads" where
  "threads_start z = \<lparr>pipe = \<lparr>pipe_nodes = \<lparr>cells =
       (\<lambda>a. if a < 8 then Some \<lparr>object = z, readyToRead = False, pipe_next = At (if a = 7 then 0 else Suc a)\<rparr> else None), brk = 8\<rparr>,
     readAheadPointer = At 0, writeAheadPointer = At 0, readPointer = At 0, writePointer = At 0, readCount = 0, writeCount = 0\<rparr>,
     w_at = WIdle, w_held = [], r_at = RIdle, r_held = []\<rparr>"

lemma threads_new_start: "threads_new z = Inr (threads_start z)"
  by (simp add: threads_start_def threads_new_def pipe_new_def MINIMUM_LIST_SIZE_def OP_NEW_def new_after_def set_next_def read_pass_def
    next_of_def empty_store_def DataPlusPtr_def numeral_eq_Suc) (auto simp: fun_eq_iff less_Suc_eq)

lemma threads_start_rep: "pipe_rep (threads_start z) ([], [], 0)"
  unfolding pipe_rep_def threads_start_def
  by (intro exI [of _ "[]"] exI [of _ "[0,1,2,3,4,5,6,7]"] conjI)
    (auto simp: laid_def pointed_def in_step_def counted_def circle_def nexts_def nx_def w32_def split: if_splits)

section \<open>A queue between two threads\<close>

lemma writer_right: "pipe_rep y a \<Longrightarrow> right_step (writer_step z ask y) a"
  using test_write [of y a z ask] grow_step [of y a z ask] grow_link_step [of y a _ z ask] advance_step [of y a z ask]
    write_pass_step [of y a z ask]
proof (cases "w_at y")
  case WIdle
  assume rep: "pipe_rep y a"
  have "right_step (write_begin ask y) a"
    using begin_write_lock [OF rep WIdle] store_step [OF rep WIdle] flag_step [OF rep WIdle] cancel_write_step [OF rep WIdle]
    by (cases ask) simp_all
  then show ?thesis by (simp add: writer_step_def WIdle)
qed blast+

lemma reader_right: "pipe_rep y a \<Longrightarrow> right_step (reader_step ask y) a"
proof (cases "r_at y")
  case RIdle
  assume rep: "pipe_rep y a"
  have "right_step (read_begin ask y) a"
    using begin_read_lock [OF rep RIdle] look_step [OF rep RIdle] unflag_step [OF rep RIdle] cancel_read_step [OF rep RIdle]
    by (cases ask) simp_all
  then show ?thesis by (simp add: reader_step_def RIdle)
qed (blast intro: test_read read_advance_step read_pass_step)+

lemma turn_right:
  assumes "pipe_rep y a"
  shows "\<exists>e y' a'. turn_step z t y = Some (Inr (e, y')) \<and> spec_note e a = Some a' \<and> pipe_rep y' a' \<and> (e = Cleared \<longrightarrow> t = ClearAll)"
proof (cases t)
  case (Writer ask)
  have "e \<noteq> Cleared" if "writer_step z ask y = Inr (e, y')" for e y'
    using that by (cases "w_at y"; cases ask) (auto simp: writer_step_def split: if_splits)
  then show ?thesis using writer_right [OF assms, of z ask] Writer by (auto simp: right_step_def)
next
  case (Reader ask)
  have "e \<noteq> Cleared" if "reader_step ask y = Inr (e, y')" for e y'
    using that by (cases "r_at y"; cases ask) (auto simp: reader_step_def split: if_splits)
  then show ?thesis using reader_right [OF assms, of ask] Reader by (auto simp: right_step_def)
next
  case ClearAll
  show ?thesis
  proof (cases "w_at y = WIdle \<and> r_at y = RIdle")
    case True
    then show ?thesis using clear_runs [OF assms] ClearAll by (cases a) auto
  next
    case False
    then show ?thesis using assms ClearAll by (intro exI [of _ Silent] exI [of _ y] exI [of _ a]) auto
  qed
qed

lemma turns_right:
  assumes "pipe_rep y a"
  shows "\<exists>es y' a'. run_turns z ts y = Some (Inr (es, y')) \<and> spec_notes es a = Some a' \<and> pipe_rep y' a'
    \<and> (Cleared \<in> set es \<longrightarrow> ClearAll \<in> set ts)"
  using assms
proof (induction ts arbitrary: y a)
  case (Cons t ts)
  obtain e y1 a1 where 1: "turn_step z t y = Some (Inr (e, y1))" "spec_note e a = Some a1" "pipe_rep y1 a1" "e = Cleared \<longrightarrow> t = ClearAll"
    using turn_right [OF Cons.prems] by blast
  obtain es y' a' where 2: "run_turns z ts y1 = Some (Inr (es, y'))" "spec_notes es a1 = Some a'" "pipe_rep y' a'"
      "Cleared \<in> set es \<longrightarrow> ClearAll \<in> set ts"
    using Cons.IH [OF 1(3)] by blast
  show ?case
  proof (intro exI conjI)
    show "run_turns z (t # ts) y = Some (Inr (e # es, y'))" using 1(1) 2(1) by simp
    show "spec_notes (e # es) a = Some a'" using 1(2) 2(2) by simp
  qed (use 1 2 in auto)
qed auto

lemma rep_held:
  assumes "pipe_rep y (ws, ps, n)"
  shows "length (w_held y) = length ws \<and> length (r_held y) = n \<and> n \<le> length ps \<and> set (w_held y) \<inter> set (r_held y) = {}
    \<and> ReadIsLocked (pipe y) = (0 < n)"
  using assms
proof (cases rule: rep_elim)
  case (1 rs qs vs fs xs)
  note 2 = 1(2) [unfolded pointed_def]
  have d: "distinct (rs @ qs @ vs @ fs)" "fs \<noteq> []" using 1(1) by (auto simp: laid_def)
  have "hd (rs @ qs @ vs @ fs) = hd (qs @ vs @ fs) \<longleftrightarrow> rs = []"
    using d hd_in_set [of "qs @ vs @ fs"] by (cases rs) auto
  then have "ReadIsLocked (pipe y) \<longleftrightarrow> rs \<noteq> []" using 2 by (auto simp: ReadIsLocked_def)
  moreover have "set (w_held y) \<inter> set (r_held y) = {}" using 2 d by auto
  ultimately show "length (w_held y) = length ws \<and> length (r_held y) = n \<and> n \<le> length ps \<and> set (w_held y) \<inter> set (r_held y) = {}
      \<and> ReadIsLocked (pipe y) = (0 < n)"
    using 1(5) 2 by simp
qed

lemma rep_size:
  assumes "pipe_rep y (ws, ps, n)" "w_at y = WIdle" "r_at y = RIdle" "length ps < 2147483648"
  shows "pipe_Size (pipe y) = int (length ps)"
  using assms(1)
proof (cases rule: rep_elim)
  case (1 rs qs vs fs xs)
  let ?r = "readCount (pipe y)"
  have c: "writeCount (pipe y) = w32 (?r + length ps)" "?r < 4294967296" using 1(4,5) assms(2,3) by (simp_all add: counted_def)
  have "sub32 (writeCount (pipe y)) ?r = w32 (?r + length ps + (4294967296 - ?r))" unfolding c(1) sub32_def by (rule w32_add)
  also have "?r + length ps + (4294967296 - ?r) = length ps + 4294967296" using c(2) by simp
  also have "w32 (length ps + 4294967296) = length ps" using assms(4) by (simp add: w32_def)
  finally show ?thesis using assms(4) by (simp add: pipe_Size_def)
qed

text \<open>C32: however the statements of a writing and a reading thread are interleaved, a \<open>SingleProducerConsumer\<close> is a
  queue: no statement faults, each returns, and what the threads note (\<open>es\<close>) is what a queue does whose operations
  happen at once. What is read is what was written and published, each block in the order of publishing and none twice,
  \<open>ReadLock\<close> returns null only when everything published is locked already, and the writer and the reader never hold
  the same block, so that neither reads what the other writes. When both rest, \<open>Size\<close> counts what is published and not
  released, if this is less than \<open>2^31\<close>, and the destructor leaves no node on the heap. Each thread stores to, looks at,
  unlocks and cancels only blocks it holds, \<open>Clear\<close> is called between operations, as its comment demands, and the
  statements take effect in one order that both threads see.\<close>

theorem pipe_is_fifo:
  "\<exists>y0 es y ws ps n. threads_new z = Inr y0 \<and> run_turns z ts y0 = Some (Inr (es, y))
    \<and> spec_notes es ([], [], 0) = Some (ws, ps, n) \<and> (ClearAll \<notin> set ts \<longrightarrow> published es = released es @ ps)
    \<and> length (w_held y) = length ws \<and> length (r_held y) = n \<and> n \<le> length ps \<and> set (w_held y) \<inter> set (r_held y) = {}
    \<and> ReadIsLocked (pipe y) = (0 < n)
    \<and> (w_at y = WIdle \<and> r_at y = RIdle \<and> length ps < 2147483648 \<longrightarrow> pipe_Size (pipe y) = int (length ps))
    \<and> (w_at y = WIdle \<longrightarrow> (\<exists>t. pipe_destroy (pipe y) = Some (Inr t) \<and> cells t = (\<lambda>_. None)))"
proof -
  obtain es y a where "run_turns z ts (threads_start z) = Some (Inr (es, y))" "spec_notes es ([], [], 0) = Some a"
      "pipe_rep y a" "Cleared \<in> set es \<longrightarrow> ClearAll \<in> set ts"
    using turns_right [OF threads_start_rep, of z ts] by blast
  moreover obtain ws ps n where "a = (ws, ps, n)" by (cases a)
  ultimately have r: "run_turns z ts (threads_start z) = Some (Inr (es, y))" "spec_notes es ([], [], 0) = Some (ws, ps, n)"
      "pipe_rep y (ws, ps, n)" "Cleared \<in> set es \<longrightarrow> ClearAll \<in> set ts" by simp_all
  note held = rep_held [OF r(3)]
  show ?thesis
  proof (intro exI conjI)
    show "threads_new z = Inr (threads_start z)" "run_turns z ts (threads_start z) = Some (Inr (es, y))" "spec_notes es ([], [], 0) = Some (ws, ps, n)"
      by (rule threads_new_start r(1,2))+
    show "length (w_held y) = length ws" "length (r_held y) = n" "n \<le> length ps" "set (w_held y) \<inter> set (r_held y) = {}"
      "ReadIsLocked (pipe y) = (0 < n)" using held by blast+
    show "ClearAll \<notin> set ts \<longrightarrow> published es = released es @ ps" using spec_order [OF r(2)] r(4) by auto
    show "w_at y = WIdle \<and> r_at y = RIdle \<and> length ps < 2147483648 \<longrightarrow> pipe_Size (pipe y) = int (length ps)"
      using rep_size [OF r(3)] by blast
    show "w_at y = WIdle \<longrightarrow> (\<exists>t. pipe_destroy (pipe y) = Some (Inr t) \<and> cells t = (\<lambda>_. None))"
      using destroy_runs [OF r(3)] by blast
  qed
qed

theorem pipe_is_fifo_witness:
  "\<exists>y0 es y. threads_new (0 :: nat) = Inr y0
    \<and> run_turns 0 [Writer AskWriteLock, Writer AskWriteLock, Reader AskReadLock, Writer AskWriteLock, Writer (AskStore 0 7),
        Writer AskWriteUnlock, Reader AskReadLock, Writer AskWriteLock, Reader AskReadLock, Reader AskReadLock, Reader AskReadLock,
        Reader (AskLook 0), Reader AskReadUnlock, Reader AskReadUnlock] y0 = Some (Inr (es, y))
    \<and> published es = [7] \<and> released es = [7] \<and> (\<exists>ps. published es = released es @ ps)"
proof -
  define ts :: "nat turn list" where "ts = [Writer AskWriteLock, Writer AskWriteLock, Reader AskReadLock, Writer AskWriteLock,
    Writer (AskStore 0 7), Writer AskWriteUnlock, Reader AskReadLock, Writer AskWriteLock, Reader AskReadLock, Reader AskReadLock,
    Reader AskReadLock, Reader (AskLook 0), Reader AskReadUnlock, Reader AskReadUnlock]"
  have "ClearAll \<notin> set ts" by (simp add: ts_def)
  then obtain y0 es y ps where r: "threads_new 0 = Inr y0" "run_turns 0 ts y0 = Some (Inr (es, y))" "published es = released es @ ps"
    using pipe_is_fifo [of 0 ts] by blast
  have "map_option (map_sum id fst) (run_turns 0 ts (threads_start 0)) =
      Some (Inr [Silent, Silent, Nothing, WriteLocked 0, Stored 0 7, Silent, Nothing, Published 7, Silent, Silent, Taken 7, Seen 0 7,
        Silent, Released 7])"
    by (simp add: ts_def threads_start_def writer_step_def reader_step_def next_is_read_def next_is_ready_def is_ready_def next_of_def
      write_advance_def data_at_def read_at_end_def store_at_def write_flag_def set_ready_def write_pass_def read_not_ready_def
      read_advance_def read_unflag_def read_pass_def w32_def)
  then have "es = [Silent, Silent, Nothing, WriteLocked 0, Stored 0 7, Silent, Nothing, Published 7, Silent, Silent, Taken 7, Seen 0 7,
      Silent, Released 7]"
    using r(1,2) by (simp add: threads_new_start)
  then show ?thesis using r unfolding ts_def by auto
qed

end
