(* ===== verification/Spec2Isabelle.thy ===== *)
theory Spec2Isabelle
  imports GameRace GameStart GameEnd ServerLaws Startup HttpState Properties Codec
    LuaScript RakQueue RakRangeWire RakHeap RakVisit RakFloats
    RakMap RakHash RakPipe
begin

text \<open>
  A model of \<^verbatim>\<open>window.gameserver\<close>, a broadcast server for a multiplayer racing game, written in C++. A
  process waits for players over datagrams (RakNet) and streams (libevent), relays what they do to
  each other, and keeps the rules of the race: the map, the check points of a lap, the coins and
  obstacles on the road, the time, and the scores at the end.

  \<^bold>\<open>Parts of the program and where they are modelled.\<close>

  \<^item> \<open>Prelude\<close>: results with faults, loops with an early end, and their rules; \<open>Strings\<close>: what the
    program uses of \<^verbatim>\<open>std::string\<close> and of the C library; \<open>Float32\<close>: the type \<^verbatim>\<open>float\<close> as IEEE binary32 with
    executable rounding, so that positions, distances and the timers are computed as the compiled
    code computes them.
  \<^item> \<open>Vectors\<close> (\<^verbatim>\<open>common/Vector3.h\<close>): vectors and quaternions.
  \<^item> \<open>ObjectPool\<close> (\<^verbatim>\<open>common/objectpool.h\<close>): the array of clients with its free list; a handle is a slot and a
    magic number. The record \<open>pool\<close> has the fields of the class, a pointer into an array is its index.
  \<^item> \<open>GameConfig\<close> (\<^verbatim>\<open>broadcastserver/game_config.cpp\<close>): the tables that \<^verbatim>\<open>config.lua\<close> fills and the game
    reads; \<open>cfg_call\<close> is one call of the script.
  \<^item> \<open>RoadChecker\<close> (\<^verbatim>\<open>RaceRoadChecker.cpp\<close>): where on the road a position is, and the direction of the road.
  \<^item> \<open>DropItems\<close> (\<^verbatim>\<open>DropItemManager.cpp\<close>): creating, respawning and taking the items on the road; the
    listener it tells is an argument.
  \<^item> \<open>World\<close> (\<^verbatim>\<open>client.h\<close>, \<^verbatim>\<open>game.h\<close>): the record \<open>world\<close> is the memory of the process, that is the one \<open>Server\<close>,
    \<open>Game\<close> and \<open>GameConfig\<close> object and the pool of clients, with the messages written so far.
  \<^item> \<open>Game\<close> (\<^verbatim>\<open>game.cpp\<close>, \<^verbatim>\<open>client.cpp\<close>): one definition for each message handler, composed by \<open>OnMessage\<close> as the
    switch of the code does, the tick \<open>Update\<close> of the states Wait, Load, Show, Play, Balance and SyncScore,
    and what a new or a lost connection does.
  \<^item> \<open>Server\<close> and \<open>Startup\<close> (\<^verbatim>\<open>server.cpp\<close>): accepting, routing, keeping alive and dropping clients; the watching
    process, the guards, and the creation of pool and listeners. \<open>Options\<close> (\<^verbatim>\<open>main.cpp\<close>): the command line.
  \<^item> \<open>HttpState\<close> (\<^verbatim>\<open>serverstate.cpp\<close>): the HTTP handlers, \<open>Properties\<close> (\<^verbatim>\<open>common/properties.h\<close>): typed readers
    with caches, \<open>Codec\<close> (\<^verbatim>\<open>common/bin2ascii.h\<close>): hexadecimal and base64.
  \<^item> \<open>LuaScript\<close> (\<^verbatim>\<open>common/LuaEngine.h\<close>, \<^verbatim>\<open>common/LuaExport.h\<close>): running scripts for an object of the program, and the
    handles through which scripts read and write network streams.
  \<^item> \<open>RakMemory\<close>, \<open>RakList\<close>, \<open>RakQueue\<close>, \<open>RakOrdered\<close>, \<open>RakRange\<close>, \<open>RakHeap\<close> (\<^verbatim>\<open>3rd/RakNet/Source/DS_*.h\<close>): the containers
    of the network library, whose bodies are in the repository's headers: the growing array, the
    circular queue, the ordered list, the ranges of acknowledged datagrams, the heap of the outgoing packets.
  \<^item> \<open>RakBits\<close> (\<^verbatim>\<open>3rd/RakNet/Source/BitStream.h\<close>): what the header defines of values on a stream of bits, over the bit
    functions of the library; \<open>RakRangeWire\<close>: the exchange of ranges over such a stream; \<open>RakFloats\<close>: floats in 16 bits,
    vectors and quaternions, with the error a reader sees, over \<open>FloatError\<close>: how far the operations on \<^verbatim>\<open>float\<close> are
    from the real ones.
  \<^item> \<open>RakNodes\<close>: a store of nodes on the heap, where \<open>new\<close> takes a fresh address and \<open>delete\<close> removes the node, so that
    a dangling pointer is a fault; \<open>RakLinked\<close> (\<^verbatim>\<open>DS_LinkedList.h\<close>, \<^verbatim>\<open>DS_QueueLinkedList.h\<close>): the linked lists in it,
    \<open>RakTree\<close>, \<open>RakAvl\<close> and \<open>RakVisit\<close> (\<^verbatim>\<open>DS_BinarySearchTree.h\<close>): the search trees, the balanced ones, and the traversals, which
    use the linked queue; \<open>RakHash\<close> (\<^verbatim>\<open>DS_Hash.h\<close>): the hash table of chains in it; \<open>RakPipe\<close> (\<^verbatim>\<open>SingleProducerConsumer.h\<close>): the
    circle of nodes between a writing and a reading thread, statement by statement. \<open>RakMap\<close> (\<^verbatim>\<open>DS_Map.h\<close>): the map, an
    ordered list of pairs.

  \<^bold>\<open>How they interact.\<close> \<open>main_program\<close> reads the options and calls \<open>server_Init\<close>, which runs the script over
  \<open>GameConfig\<close>, makes the pool and opens the listeners. From then on the program is driven by call backs of
  the network library: \<open>OnUdpAccept\<close> and \<open>OnTcpAccept\<close> allocate a client, \<open>OnUdpClientMessage\<close> routes a datagram,
  \<open>OnMessage\<close> decodes it and calls a handler of the game, \<open>ServerUpdate\<close> delivers the packets that have arrived (the list
  of \<open>delivery\<close> it is given, since \<^verbatim>\<open>gServer.Update()\<close> calls the listener back) and drives the clock of the game and of the
  clients. The handlers read the pool and the configuration, call the road checker and the drop item manager,
  which calls the game back as its listener, and write messages. Closing a connection may call back into the
  program at once: the operations of the library are fields of the records \<open>netlib\<close> and \<open>slib\<close>, arguments of the
  definitions, so that both a library that calls back and one that does not are instances.

  \<^bold>\<open>Contracts.\<close> A locale states what one part needs of another, and an interpretation proves it of the model:
  \<open>handle_pool\<close> (what the handles of a pool promise) of the object pool; \<open>drop_listener\<close> of the game;
  \<open>disconnecting\<close>, \<open>net_disconnecting\<close> and \<open>transport\<close> (what a call back may do) of two transports over the
  program's own handlers, one that calls back at once and one that does not; \<open>keyed\<close> (a comparison agrees with an
  order of keys) of both comparisons of the ordered lists, and \<open>key_order\<close> of the map's default one; \<open>fifo\<close> of the queue; \<open>priority_queue\<close> of the heap. What the
  documentation of Lua and of the bit functions promises is \<open>lua_laws\<close> and \<open>bit_laws\<close>, named hypotheses of the theorems
  that rest on them, each with an instance that satisfies it (\<open>toy_api\<close>, \<open>plain_lib\<close>).

  \<^bold>\<open>What the lemmas show.\<close> Of the whole program: its state stays well formed under every sequence of messages,
  ticks and connections (\<open>game_invariant\<close>, \<open>server_invariant\<close>), each input leads the game to the
  state that \<open>next_state\<close> names (\<open>game_moves\<close>), and the start establishes the invariant. Of the handlers: what they write to whom,
  on every branch, and where they leave an array or divide by zero. Of the data structures: refinement of
  lists, sets, counts, sorting, and of the queue between two threads, with the bounds up to which it holds, and the round trips of the encodings.

  \<^bold>\<open>Faults, bounds and loops.\<close> A read or write outside an array, a division by zero, a null or dangling pointer
  and an exception nobody catches are values of \<open>fault\<close>; nothing runs after one. Loops over an array are \<open>foldE\<close>
  over its indices. The loops of \<open>replace_str\<close>, of the searches and of the heap's \<open>Push\<close> are functions with a
  measure. Loops that do not end for some states (growing by doubling, the walk around the queue, the heap's \<open>Pop\<close>)
  are partial functions whose \<open>None\<close> is not returning, and the theorems state when they return. \<open>watch_loop\<close>, which
  runs as long as the process, goes over the list of what the system answers in each turn. RakNet's sizes wrap
  at 32 bits, its datagram numbers at 24; the refinements hold up to \<open>2^30\<close> elements, where doubling leaves the
  sizes the allocator accepts.

  \<^bold>\<open>Not modelled, and why.\<close> The network library, the Lua interpreter, \<open>getopt_long\<close>, the file system and the
  processes are arguments. Logging has no effect on the state. Threads: the pool's lock is a counter, and handlers run
  one after another, as in the program's single event loop; only \<open>RakPipe\<close> interleaves two threads, whose statements take
  effect in one order. Two search trees have a store each, so that nodes shared between them cannot be expressed. \<open>cos\<close>, \<open>sin\<close>, \<open>asin\<close>, \<open>atan2\<close>, \<open>strtof\<close> and \<open>atof\<close> are arguments.
  The bodies of \<open>BitStream\<close>'s bit functions are not in the repository: they are fields of the record \<open>bit_lib\<close>; its
  strings and its functions over \<^verbatim>\<open>double\<close> are left out. The remaining headers declare classes of a prebuilt library, or belong to sqlite, openssl, curl, protobuf, libevent, Lua
  and jsoncpp.
\<close>

end
